(* ===== verification/Libft_Prelude.thy ===== *)
theory Libft_Prelude
  imports Main "HOL-Library.Word"
begin

text \<open>
  Shared vocabulary of the development: the machine types of
  \<^verbatim>\<open>src/Modules/Basic/limits.hpp\<close> as words, the shape of a C pointer-and-length
  argument, the allocator as a parameter, the \<open>bit_blast\<close> collection with which
  equations between words are decided bit by bit, and the interface (a locale) that
  every encoder/decoder pair of the library implements.
\<close>

unbundle bit_operations_syntax

named_theorems bit_blast "facts that normalise bit positions of fixed-width words"
named_theorems libft_defs "definitions of the model that proofs unfold together"

subsection \<open>Machine types\<close>

type_synonym u8 = "8 word"
type_synonym u16 = "16 word"
type_synonym u32 = "32 word"
type_synonym u64 = "64 word"
type_synonym bytes = "u8 list"

text \<open>
  A pointer parameter is an \<open>option\<close>: \<^term>\<open>None\<close> is \<open>ft_nullptr\<close>, \<^term>\<open>Some xs\<close> points
  to the bytes \<open>xs\<close>. A function that takes a pointer and a length reads the first
  \<open>n\<close> bytes.
\<close>

type_synonym ptr = "bytes option"

definition span_bytes :: "ptr \<Rightarrow> nat \<Rightarrow> bytes" where
  "span_bytes p n = (case p of None \<Rightarrow> [] | Some xs \<Rightarrow> take n xs)"

definition null_span :: "ptr \<Rightarrow> nat \<Rightarrow> bool" where
  "null_span p n \<longleftrightarrow> p = None \<and> n \<noteq> 0"

lemma span_bytes_Some [simp]: "span_bytes (Some xs) n = take n xs"
  by (simp add: span_bytes_def)

lemma span_bytes_None [simp]: "span_bytes None n = []"
  by (simp add: span_bytes_def)

lemma null_span_Some [simp]: "\<not> null_span (Some xs) n"
  by (simp add: null_span_def)

text \<open>A pointer and a length that C++ code may pass: that many bytes can be read.\<close>

definition readable :: "ptr \<Rightarrow> nat \<Rightarrow> bool" where
  "readable p n \<longleftrightarrow> length (span_bytes p n) = n"

lemma readable_simps [simp]: "readable None n \<longleftrightarrow> n = 0" "readable (Some xs) n \<longleftrightarrow> n \<le> length xs"
  by (auto simp: readable_def)

lemma length_span_readable: "readable p n \<Longrightarrow> length (span_bytes p n) = n"
  by (simp add: readable_def)

lemma not_null_readable: "readable p n \<Longrightarrow> \<not> null_span p n"
  by (cases p) (simp_all add: null_span_def)

text \<open>
  The allocator (\<open>cma_malloc\<close>) is a parameter of the operations that call it: for a
  request of \<open>n\<close> bytes it returns \<^term>\<open>None\<close> (\<open>ft_nullptr\<close>) or a block of \<open>n\<close> bytes of
  unspecified content.
\<close>

type_synonym alloc = "nat \<Rightarrow> bytes option"

definition wf_alloc :: "alloc \<Rightarrow> bool" where
  "wf_alloc malloc \<longleftrightarrow> (\<forall>n b. malloc n = Some b \<longrightarrow> length b = n)"

text \<open>An allocator that never refuses a request.\<close>

definition total_alloc :: "alloc \<Rightarrow> bool" where
  "total_alloc malloc \<longleftrightarrow> wf_alloc malloc \<and> (\<forall>n. malloc n \<noteq> None)"

lemma wf_allocD: "wf_alloc malloc \<Longrightarrow> malloc n = Some b \<Longrightarrow> length b = n"
  by (auto simp: wf_alloc_def)

definition zero_alloc :: alloc where
  "zero_alloc n = Some (replicate n 0)"

lemma total_zero_alloc: "total_alloc zero_alloc"
  by (simp add: total_alloc_def wf_alloc_def zero_alloc_def)

text \<open>
  \<open>cma_realloc\<close>: the new block has the size that was asked for and keeps the bytes of the
  old one as far as both reach.
\<close>

definition wf_realloc :: "(ptr \<Rightarrow> nat \<Rightarrow> bytes option) \<Rightarrow> bool" where
  "wf_realloc realloc \<longleftrightarrow>
     (\<forall>p n b. realloc p n = Some b \<longrightarrow>
        length b = n \<and> (\<forall>xs k. p = Some xs \<and> k \<le> n \<and> k \<le> length xs \<longrightarrow> take k b = take k xs))"

definition FT_SYSTEM_SIZE_MAX :: nat where
  "FT_SYSTEM_SIZE_MAX = 18446744073709551615"

subsection \<open>Words bit by bit\<close>

lemma Suc_Suc_0_bit [bit_blast]: "Suc (Suc 0) = 2"
  by simp

lemma bit_u8_out [bit_blast]: "8 \<le> n \<Longrightarrow> \<not> bit (x::u8) n"
  by (auto dest: bit_imp_le_length)

lemma bit_u16_out [bit_blast]: "16 \<le> n \<Longrightarrow> \<not> bit (x::u16) n"
  by (auto dest: bit_imp_le_length)

lemma bit_u32_out [bit_blast]: "32 \<le> n \<Longrightarrow> \<not> bit (x::u32) n"
  by (auto dest: bit_imp_le_length)

lemma bit_u64_out [bit_blast]: "64 \<le> n \<Longrightarrow> \<not> bit (x::u64) n"
  by (auto dest: bit_imp_le_length)

lemma u8_eqI: "(\<forall>n\<in>set [0..<8]. bit (x::u8) n = bit y n) \<Longrightarrow> x = y"
  by (rule bit_word_eqI) simp

lemma u8_eq_bits: "x = y \<longleftrightarrow> (\<forall>n\<in>set [0..<8]. bit (x::u8) n = bit y n)"
  using u8_eqI by blast

lemma u16_eqI: "(\<forall>n\<in>set [0..<16]. bit (x::u16) n = bit y n) \<Longrightarrow> x = y"
  by (rule bit_word_eqI) simp

lemma u32_eqI: "(\<forall>n\<in>set [0..<32]. bit (x::u32) n = bit y n) \<Longrightarrow> x = y"
  by (rule bit_word_eqI) simp

lemma u64_eqI: "(\<forall>n\<in>set [0..<64]. bit (x::u64) n = bit y n) \<Longrightarrow> x = y"
  by (rule bit_word_eqI) simp

text \<open>
  A statement about all bytes is checked by evaluation on the 256 of them.
\<close>

lemma u8_all_iff: "(\<forall>x::u8. P x) \<longleftrightarrow> (\<forall>n\<in>set [0..<256]. P (word_of_nat n))"
proof
  assume *: "\<forall>n\<in>set [0..<256]. P (word_of_nat n)"
  show "\<forall>x. P x"
  proof
    fix x :: u8
    have "unat x < 256" by (rule less_le_trans [OF unsigned_less]) simp
    then have "unat x \<in> set [0..<256]" by simp
    with * have "P (word_of_nat (unat x))" by blast
    then show "P x" by simp
  qed
qed simp

lemma u8_lt_all_iff:
  assumes "m \<le> 256"
  shows "(\<forall>x::u8. unat x < m \<longrightarrow> P x) \<longleftrightarrow> (\<forall>n\<in>set [0..<m]. P (word_of_nat n))"
proof
  assume *: "\<forall>x::u8. unat x < m \<longrightarrow> P x"
  show "\<forall>n\<in>set [0..<m]. P (word_of_nat n)"
  proof
    fix n assume "n \<in> set [0..<m]"
    then have n: "n < m" by simp
    with assms have "unat (word_of_nat n :: u8) = n"
      by (simp add: unat_of_nat)
    with * n show "P (word_of_nat n)" by simp
  qed
next
  assume *: "\<forall>n\<in>set [0..<m]. P (word_of_nat n)"
  show "\<forall>x::u8. unat x < m \<longrightarrow> P x"
  proof (intro allI impI)
    fix x :: u8 assume "unat x < m"
    then have "unat x \<in> set [0..<m]" by simp
    with * have "P (word_of_nat (unat x))" by blast
    then show "P x" by simp
  qed
qed

subsection \<open>Search loops\<close>

text \<open>
  The shape of every linear search of the library: the first index in \<open>[i, n)\<close> that
  satisfies a test. The searches over memory and strings are instances of it.
\<close>

function first_index :: "(nat \<Rightarrow> bool) \<Rightarrow> nat \<Rightarrow> nat \<Rightarrow> nat option" where
  "first_index P n i = (if i < n then if P i then Some i else first_index P n (i + 1) else None)"
  by pat_completeness auto
termination
  by (relation "measure (\<lambda>(P, n, i). n - i)") auto

declare first_index.simps [simp del]

lemma all_range_step:
  "(\<forall>j. i \<le> j \<and> j < n \<longrightarrow> Q j) \<longleftrightarrow> (i < n \<longrightarrow> Q i) \<and> (\<forall>j. Suc i \<le> j \<and> j < n \<longrightarrow> Q j)"
  by (auto simp: Suc_le_eq) (metis le_neq_implies_less)

lemma first_index_Some_iff:
  "first_index P n i = Some k \<longleftrightarrow> i \<le> k \<and> k < n \<and> P k \<and> (\<forall>j. i \<le> j \<and> j < k \<longrightarrow> \<not> P j)"
proof (induction P n i rule: first_index.induct)
  case (1 P n i)
  show ?case
  proof (cases "i < n \<and> \<not> P i")
    case True
    then have "first_index P n i = first_index P n (i + 1)" by (simp add: first_index.simps [of P n i])
    with 1 True show ?thesis
      by (subst all_range_step [of i k]) (cases "k = i"; auto)
  next
    case False
    then show ?thesis by (auto simp: first_index.simps [of P n i])
  qed
qed

lemma first_index_None_iff:
  "first_index P n i = None \<longleftrightarrow> (\<forall>j. i \<le> j \<and> j < n \<longrightarrow> \<not> P j)"
proof (induction P n i rule: first_index.induct)
  case (1 P n i)
  then show ?case
    by (subst all_range_step) (auto simp: first_index.simps [of P n i])
qed

subsection \<open>Encoders and decoders\<close>

text \<open>
  The contract of an encoder/decoder pair: on the values the encoder accepts, decoding
  the encoding gives the value back. Injectivity and the rejection of nothing the
  encoder produced follow once, for every pair of the library.
\<close>

locale codec =
  fixes encode :: "'a \<Rightarrow> 'b"
    and decode :: "'b \<Rightarrow> 'a option"
    and valid :: "'a \<Rightarrow> bool"
  assumes decode_encode: "valid x \<Longrightarrow> decode (encode x) = Some x"
begin

lemma encode_inject: "valid x \<Longrightarrow> valid y \<Longrightarrow> encode x = encode y \<longleftrightarrow> x = y"
  by (metis decode_encode option.inject)

lemma decode_encode_iff: "valid x \<Longrightarrow> decode (encode x) = Some y \<longleftrightarrow> x = y"
  by (simp add: decode_encode)

lemma decodes_to_encode: "valid x \<Longrightarrow> decode c = None \<Longrightarrow> encode x \<noteq> c"
  by (auto simp: decode_encode)

lemma inj_on_encode: "inj_on encode {x. valid x}"
  by (auto simp: inj_on_def encode_inject)

end

end
