(* ===== verification/Libft_Errno.thy ===== *)
theory Libft_Errno
  imports Libft_Prelude
begin

text \<open>
  \<^verbatim>\<open>src/Modules/Errno\<close>: the error codes every other module returns, the classification
  macros, and the message table with its lookup. The codes are an \<open>int32_t\<close> enumeration;
  functions return plain \<open>int32_t\<close> values, so the model keeps them as integers.
\<close>

type_synonym ft_err = int

definition FT_ERR_SUCCESS :: ft_err where [simp]: "FT_ERR_SUCCESS = 0"
definition FT_ERR_SSL_SYSCALL_ERROR :: ft_err where [simp]: "FT_ERR_SSL_SYSCALL_ERROR = -15"
definition FT_ERR_DATABASE_UNAVAILABLE :: ft_err where [simp]: "FT_ERR_DATABASE_UNAVAILABLE = -14"
definition FT_ERR_PRIORITY_QUEUE_NO_MEMORY :: ft_err where [simp]: "FT_ERR_PRIORITY_QUEUE_NO_MEMORY = -13"
definition FT_ERR_BITSET_NO_MEMORY :: ft_err where [simp]: "FT_ERR_BITSET_NO_MEMORY = -12"
definition FT_ERR_SYS_INTERNAL :: ft_err where [simp]: "FT_ERR_SYS_INTERNAL = -11"
definition FT_ERR_SYS_MUTEX_UNLOCK_FAILED :: ft_err where [simp]: "FT_ERR_SYS_MUTEX_UNLOCK_FAILED = -10"
definition FT_ERR_SYS_MUTEX_NOT_OWNER :: ft_err where [simp]: "FT_ERR_SYS_MUTEX_NOT_OWNER = -9"
definition FT_ERR_SYS_MUTEX_ALREADY_LOCKED :: ft_err where [simp]: "FT_ERR_SYS_MUTEX_ALREADY_LOCKED = -8"
definition FT_ERR_SYS_MUTEX_LOCK_FAILED :: ft_err where [simp]: "FT_ERR_SYS_MUTEX_LOCK_FAILED = -7"
definition FT_ERR_SYS_INVALID_STATE :: ft_err where [simp]: "FT_ERR_SYS_INVALID_STATE = -6"
definition FT_ERR_SYS_NO_MEMORY :: ft_err where [simp]: "FT_ERR_SYS_NO_MEMORY = -5"
definition FT_ERR_INITIALIZATION_FAILED :: ft_err where [simp]: "FT_ERR_INITIALIZATION_FAILED = -4"
definition FT_ERR_INTERNAL :: ft_err where [simp]: "FT_ERR_INTERNAL = -3"
definition FT_ERR_SYSTEM :: ft_err where [simp]: "FT_ERR_SYSTEM = -2"
definition FT_ERR_NO_MEMORY :: ft_err where [simp]: "FT_ERR_NO_MEMORY = -1"
definition FT_ERR_FILE_OPEN_FAILED :: ft_err where [simp]: "FT_ERR_FILE_OPEN_FAILED = 2"
definition FT_ERR_INVALID_ARGUMENT :: ft_err where [simp]: "FT_ERR_INVALID_ARGUMENT = 3"
definition FT_ERR_INVALID_POINTER :: ft_err where [simp]: "FT_ERR_INVALID_POINTER = 4"
definition FT_ERR_INVALID_HANDLE :: ft_err where [simp]: "FT_ERR_INVALID_HANDLE = 5"
definition FT_ERR_INVALID_OPERATION :: ft_err where [simp]: "FT_ERR_INVALID_OPERATION = 6"
definition FT_ERR_INVALID_STATE :: ft_err where [simp]: "FT_ERR_INVALID_STATE = 7"
definition FT_ERR_NOT_FOUND :: ft_err where [simp]: "FT_ERR_NOT_FOUND = 8"
definition FT_ERR_ALREADY_EXISTS :: ft_err where [simp]: "FT_ERR_ALREADY_EXISTS = 9"
definition FT_ERR_OUT_OF_RANGE :: ft_err where [simp]: "FT_ERR_OUT_OF_RANGE = 10"
definition FT_ERR_EMPTY :: ft_err where [simp]: "FT_ERR_EMPTY = 11"
definition FT_ERR_FULL :: ft_err where [simp]: "FT_ERR_FULL = 12"
definition FT_ERR_IO :: ft_err where [simp]: "FT_ERR_IO = 13"
definition FT_ERR_OVERLAP :: ft_err where [simp]: "FT_ERR_OVERLAP = 15"
definition FT_ERR_TERMINATED :: ft_err where [simp]: "FT_ERR_TERMINATED = 16"
definition FT_ERR_CONFIGURATION :: ft_err where [simp]: "FT_ERR_CONFIGURATION = 18"
definition FT_ERR_UNSUPPORTED_TYPE :: ft_err where [simp]: "FT_ERR_UNSUPPORTED_TYPE = 19"
definition FT_ERR_ALREADY_INITIALISED :: ft_err where [simp]: "FT_ERR_ALREADY_INITIALISED = 20"
definition FT_ERR_END_OF_FILE :: ft_err where [simp]: "FT_ERR_END_OF_FILE = 22"
definition FT_ERR_DIVIDE_BY_ZERO :: ft_err where [simp]: "FT_ERR_DIVIDE_BY_ZERO = 23"
definition FT_ERR_BROKEN_PROMISE :: ft_err where [simp]: "FT_ERR_BROKEN_PROMISE = 24"
definition FT_ERR_SOCKET_CREATION_FAILED :: ft_err where [simp]: "FT_ERR_SOCKET_CREATION_FAILED = 25"
definition FT_ERR_SOCKET_BIND_FAILED :: ft_err where [simp]: "FT_ERR_SOCKET_BIND_FAILED = 26"
definition FT_ERR_SOCKET_LISTEN_FAILED :: ft_err where [simp]: "FT_ERR_SOCKET_LISTEN_FAILED = 27"
definition FT_ERR_SOCKET_CONNECT_FAILED :: ft_err where [simp]: "FT_ERR_SOCKET_CONNECT_FAILED = 28"
definition FT_ERR_NETWORK_CONNECT_FAILED :: ft_err where [simp]: "FT_ERR_NETWORK_CONNECT_FAILED = 29"
definition FT_ERR_INVALID_IP_FORMAT :: ft_err where [simp]: "FT_ERR_INVALID_IP_FORMAT = 30"
definition FT_ERR_SOCKET_ACCEPT_FAILED :: ft_err where [simp]: "FT_ERR_SOCKET_ACCEPT_FAILED = 31"
definition FT_ERR_SOCKET_SEND_FAILED :: ft_err where [simp]: "FT_ERR_SOCKET_SEND_FAILED = 32"
definition FT_ERR_SOCKET_RECEIVE_FAILED :: ft_err where [simp]: "FT_ERR_SOCKET_RECEIVE_FAILED = 33"
definition FT_ERR_SOCKET_CLOSE_FAILED :: ft_err where [simp]: "FT_ERR_SOCKET_CLOSE_FAILED = 34"
definition FT_ERR_SOCKET_JOIN_GROUP_FAILED :: ft_err where [simp]: "FT_ERR_SOCKET_JOIN_GROUP_FAILED = 35"
definition FT_ERR_SOCKET_RESOLVE_FAILED :: ft_err where [simp]: "FT_ERR_SOCKET_RESOLVE_FAILED = 36"
definition FT_ERR_SOCKET_RESOLVE_BAD_FLAGS :: ft_err where [simp]: "FT_ERR_SOCKET_RESOLVE_BAD_FLAGS = 37"
definition FT_ERR_SOCKET_RESOLVE_AGAIN :: ft_err where [simp]: "FT_ERR_SOCKET_RESOLVE_AGAIN = 38"
definition FT_ERR_SOCKET_RESOLVE_FAIL :: ft_err where [simp]: "FT_ERR_SOCKET_RESOLVE_FAIL = 39"
definition FT_ERR_SOCKET_RESOLVE_FAMILY :: ft_err where [simp]: "FT_ERR_SOCKET_RESOLVE_FAMILY = 40"
definition FT_ERR_SOCKET_RESOLVE_SOCKTYPE :: ft_err where [simp]: "FT_ERR_SOCKET_RESOLVE_SOCKTYPE = 41"
definition FT_ERR_SOCKET_RESOLVE_SERVICE :: ft_err where [simp]: "FT_ERR_SOCKET_RESOLVE_SERVICE = 42"
definition FT_ERR_SOCKET_RESOLVE_MEMORY :: ft_err where [simp]: "FT_ERR_SOCKET_RESOLVE_MEMORY = 43"
definition FT_ERR_SOCKET_RESOLVE_NO_NAME :: ft_err where [simp]: "FT_ERR_SOCKET_RESOLVE_NO_NAME = 44"
definition FT_ERR_SOCKET_RESOLVE_OVERFLOW :: ft_err where [simp]: "FT_ERR_SOCKET_RESOLVE_OVERFLOW = 45"
definition FT_ERR_GAME_GENERAL_ERROR :: ft_err where [simp]: "FT_ERR_GAME_GENERAL_ERROR = 46"
definition FT_ERR_GAME_INVALID_MOVE :: ft_err where [simp]: "FT_ERR_GAME_INVALID_MOVE = 47"
definition FT_ERR_THREAD_BUSY :: ft_err where [simp]: "FT_ERR_THREAD_BUSY = 48"
definition FT_ERR_MUTEX_NOT_OWNER :: ft_err where [simp]: "FT_ERR_MUTEX_NOT_OWNER = 49"
definition FT_ERR_MUTEX_ALREADY_LOCKED :: ft_err where [simp]: "FT_ERR_MUTEX_ALREADY_LOCKED = 50"
definition FT_ERR_SSL_WANT_READ :: ft_err where [simp]: "FT_ERR_SSL_WANT_READ = 51"
definition FT_ERR_SSL_WANT_WRITE :: ft_err where [simp]: "FT_ERR_SSL_WANT_WRITE = 52"
definition FT_ERR_SSL_ZERO_RETURN :: ft_err where [simp]: "FT_ERR_SSL_ZERO_RETURN = 53"
definition FT_ERR_PRIORITY_QUEUE_EMPTY :: ft_err where [simp]: "FT_ERR_PRIORITY_QUEUE_EMPTY = 55"
definition FT_ERR_CRYPTO_INVALID_PADDING :: ft_err where [simp]: "FT_ERR_CRYPTO_INVALID_PADDING = 57"
definition FT_ERR_TIMEOUT :: ft_err where [simp]: "FT_ERR_TIMEOUT = 59"
definition FT_ERR_NOT_INITIALISED :: ft_err where [simp]: "FT_ERR_NOT_INITIALISED = 67"
definition FT_ERR_PERMISSION_DENIED :: ft_err where [simp]: "FT_ERR_PERMISSION_DENIED = 68"
definition FT_ERR_NOT_DIRECTORY :: ft_err where [simp]: "FT_ERR_NOT_DIRECTORY = 69"
definition FT_ERR_IS_DIRECTORY :: ft_err where [simp]: "FT_ERR_IS_DIRECTORY = 70"
definition FT_ERR_PATH_TOO_LONG :: ft_err where [simp]: "FT_ERR_PATH_TOO_LONG = 71"
definition FT_ERR_INVALID_PATH :: ft_err where [simp]: "FT_ERR_INVALID_PATH = 72"
definition FT_ERR_DISK_FULL :: ft_err where [simp]: "FT_ERR_DISK_FULL = 73"
definition FT_ERR_HTTP_PROTOCOL_MISMATCH :: ft_err where [simp]: "FT_ERR_HTTP_PROTOCOL_MISMATCH = 2006"
definition FT_ERR_API_CIRCUIT_OPEN :: ft_err where [simp]: "FT_ERR_API_CIRCUIT_OPEN = 2007"

text \<open>The lifecycle states of a class instance (\<^verbatim>\<open>FT_CLASS_STATE_*\<close>).\<close>

datatype class_state = Uninitialised | Destroyed | Initialised

definition FT_ERR_IS_SUCCESS :: "ft_err \<Rightarrow> bool" where
  "FT_ERR_IS_SUCCESS error_code \<longleftrightarrow> error_code = FT_ERR_SUCCESS"

definition FT_ERR_HAS_ERROR :: "ft_err \<Rightarrow> bool" where
  "FT_ERR_HAS_ERROR error_code \<longleftrightarrow> error_code \<noteq> FT_ERR_SUCCESS"

definition FT_ERR_IS_CRITICAL :: "ft_err \<Rightarrow> bool" where
  "FT_ERR_IS_CRITICAL error_code \<longleftrightarrow> error_code < FT_ERR_SUCCESS"

definition FT_ERR_IS_RECOVERABLE :: "ft_err \<Rightarrow> bool" where
  "FT_ERR_IS_RECOVERABLE error_code \<longleftrightarrow> error_code > FT_ERR_SUCCESS"

definition g_error_strings :: "(ft_err \<times> string) list" where
  "g_error_strings =
   [(FT_ERR_SUCCESS, ''Success''),
    (FT_ERR_NO_MEMORY, ''Memory allocation failed''),
    (FT_ERR_FILE_OPEN_FAILED, ''File open failed''),
    (FT_ERR_INVALID_ARGUMENT, ''Invalid argument''),
    (FT_ERR_INVALID_POINTER, ''Invalid pointer''),
    (FT_ERR_INVALID_HANDLE, ''Invalid handle''),
    (FT_ERR_INVALID_OPERATION, ''Invalid operation''),
    (FT_ERR_INVALID_STATE, ''Invalid state''),
    (FT_ERR_NOT_FOUND, ''Object not found''),
    (FT_ERR_ALREADY_EXISTS, ''Resource already exists''),
    (FT_ERR_OUT_OF_RANGE, ''Index out of range''),
    (FT_ERR_EMPTY, ''Container is empty''),
    (FT_ERR_FULL, ''Container is full''),
    (FT_ERR_IO, ''I/O error''),
    (FT_ERR_SYSTEM, ''System error encountered''),
    (FT_ERR_OVERLAP, ''Memory regions overlap''),
    (FT_ERR_TERMINATED, ''Operation terminated''),
    (FT_ERR_INTERNAL, ''Internal error''),
    (FT_ERR_CONFIGURATION, ''Invalid configuration''),
    (FT_ERR_UNSUPPORTED_TYPE, ''Unsupported type''),
    (FT_ERR_ALREADY_INITIALISED, ''Already initialised''),
    (FT_ERR_INITIALIZATION_FAILED, ''Initialization failed''),
    (FT_ERR_END_OF_FILE, ''End of file reached''),
    (FT_ERR_DIVIDE_BY_ZERO, ''Division by zero''),
    (FT_ERR_BROKEN_PROMISE, ''Associated promise was destroyed''),
    (FT_ERR_SOCKET_CREATION_FAILED, ''Failed to create socket''),
    (FT_ERR_SOCKET_BIND_FAILED, ''Failed to bind socket''),
    (FT_ERR_SOCKET_LISTEN_FAILED, ''Failed to listen on socket''),
    (FT_ERR_SOCKET_CONNECT_FAILED, ''Failed to connect to server''),
    (FT_ERR_NETWORK_CONNECT_FAILED, ''Network connection failed''),
    (FT_ERR_INVALID_IP_FORMAT, ''Invalid IP address format''),
    (FT_ERR_SOCKET_ACCEPT_FAILED, ''Failed to accept connection''),
    (FT_ERR_SOCKET_SEND_FAILED, ''Failed to send data through socket''),
    (FT_ERR_SOCKET_RECEIVE_FAILED, ''Failed to receive data from socket''),
    (FT_ERR_SOCKET_CLOSE_FAILED, ''Failed to close socket''),
    (FT_ERR_SOCKET_JOIN_GROUP_FAILED, ''Socket: Join multicast group failed''),
    (FT_ERR_SOCKET_RESOLVE_FAILED, ''Failed to resolve host name''),
    (FT_ERR_SOCKET_RESOLVE_BAD_FLAGS, ''Invalid flags provided to resolver''),
    (FT_ERR_SOCKET_RESOLVE_AGAIN, ''Temporary failure in name resolution''),
    (FT_ERR_SOCKET_RESOLVE_FAIL, ''Non-recoverable failure in name resolution''),
    (FT_ERR_SOCKET_RESOLVE_FAMILY, ''Address family not supported for name''),
    (FT_ERR_SOCKET_RESOLVE_SOCKTYPE, ''Socket type not supported for requested address''),
    (FT_ERR_SOCKET_RESOLVE_SERVICE, ''Service not supported for socket type''),
    (FT_ERR_SOCKET_RESOLVE_MEMORY, ''Memory allocation failure during name resolution''),
    (FT_ERR_SOCKET_RESOLVE_NO_NAME, ''Name or service not known''),
    (FT_ERR_SOCKET_RESOLVE_OVERFLOW, ''Resolver result too large''),
    (FT_ERR_GAME_GENERAL_ERROR, ''General Ingame Error''),
    (FT_ERR_GAME_INVALID_MOVE, ''Invalid Move''),
    (FT_ERR_THREAD_BUSY, ''Thread is currently busy''),
    (FT_ERR_MUTEX_NOT_OWNER, ''Thread is not the owner of the mutex''),
    (FT_ERR_MUTEX_ALREADY_LOCKED, ''Mutex already locked''),
    (FT_ERR_SSL_WANT_READ, ''SSL wants to read''),
    (FT_ERR_SSL_WANT_WRITE, ''SSL wants to write''),
    (FT_ERR_SSL_ZERO_RETURN, ''SSL connection closed''),
    (FT_ERR_BITSET_NO_MEMORY, ''Bitset memory allocation failed''),
    (FT_ERR_PRIORITY_QUEUE_EMPTY, ''Priority queue is empty''),
    (FT_ERR_PRIORITY_QUEUE_NO_MEMORY, ''Priority queue memory allocation failed''),
    (FT_ERR_CRYPTO_INVALID_PADDING, ''Invalid cryptographic padding''),
    (FT_ERR_DATABASE_UNAVAILABLE, ''Database unavailable''),
    (FT_ERR_TIMEOUT, ''Operation timed out''),
    (FT_ERR_SYS_NO_MEMORY, ''System memory allocation failed''),
    (FT_ERR_SYS_INVALID_STATE, ''Invalid internal state''),
    (FT_ERR_SYS_MUTEX_LOCK_FAILED, ''Mutex lock failed''),
    (FT_ERR_SYS_MUTEX_ALREADY_LOCKED, ''Mutex already locked''),
    (FT_ERR_SYS_MUTEX_NOT_OWNER, ''Thread is not the owner of the mutex''),
    (FT_ERR_SYS_MUTEX_UNLOCK_FAILED, ''Mutex unlock failed''),
    (FT_ERR_SYS_INTERNAL, ''Internal system error''),
    (FT_ERR_NOT_INITIALISED, ''Object not initialised''),
    (FT_ERR_SSL_SYSCALL_ERROR, ''SSL system call error''),
    (FT_ERR_HTTP_PROTOCOL_MISMATCH, ''HTTP protocol mismatch''),
    (FT_ERR_API_CIRCUIT_OPEN, ''API circuit breaker is open'')]"

text \<open>The linear search of \<open>ft_find_custom_error\<close>; \<^term>\<open>None\<close> is \<open>ft_nullptr\<close>.\<close>

fun find_custom_error :: "(ft_err \<times> string) list \<Rightarrow> ft_err \<Rightarrow> string option" where
  "find_custom_error [] error_code = None"
| "find_custom_error ((c, m) # rest) error_code =
     (if c = error_code then Some m else find_custom_error rest error_code)"

definition ft_find_custom_error :: "ft_err \<Rightarrow> string option" where
  "ft_find_custom_error error_code = find_custom_error g_error_strings error_code"

text \<open>
  \<open>cmp_system_strerror\<close> asks the operating system and is a parameter.
\<close>

definition ft_strerror :: "(ft_err \<Rightarrow> string option) \<Rightarrow> ft_err \<Rightarrow> string" where
  "ft_strerror cmp_system_strerror error_code =
     (case ft_find_custom_error error_code of
        Some custom_message \<Rightarrow> custom_message
      | None \<Rightarrow> (case cmp_system_strerror error_code of
                   Some system_message \<Rightarrow> system_message
                 | None \<Rightarrow> ''Unrecognized error code''))"

lemma find_custom_error_map_of: "find_custom_error t c = map_of t c"
  by (induction t c rule: find_custom_error.induct) auto

lemma g_error_strings_distinct: "distinct (map fst g_error_strings)"
  by (simp add: g_error_strings_def)

text \<open>Every entry of the table is found: no entry is shadowed by an earlier one.\<close>

lemma ft_strerror_table:
  "(c, m) \<in> set g_error_strings \<Longrightarrow> ft_strerror sys c = m"
  using g_error_strings_distinct
  by (simp add: ft_strerror_def ft_find_custom_error_def find_custom_error_map_of)

lemma err_trichotomy:
  "FT_ERR_HAS_ERROR e \<longleftrightarrow> FT_ERR_IS_CRITICAL e \<or> FT_ERR_IS_RECOVERABLE e"
  by (auto simp: FT_ERR_HAS_ERROR_def FT_ERR_IS_CRITICAL_def FT_ERR_IS_RECOVERABLE_def)

end
