(* ===== verification/Basic_Number.thy ===== *)
theory Basic_Number
  imports Libft_Errno
begin

text \<open>
  Sizes: alignment and checked size arithmetic of \<^verbatim>\<open>src/Modules/Basic\<close>
  (\<^verbatim>\<open>basic_alignment.cpp\<close>, \<^verbatim>\<open>basic_checked_arithmetic.cpp\<close>). Sizes are 64-bit words. An
  out parameter is an \<open>option\<close>: \<^term>\<open>None\<close> for a null pointer, else the cell's content.
\<close>

subsection \<open>Alignment\<close>

definition ft_is_power_of_two :: "u64 \<Rightarrow> bool" where
  "ft_is_power_of_two value =
     (if value = 0 then False
      else if value AND (value - 1) \<noteq> 0 then False
      else True)"

definition ft_align_up_checked :: "u64 \<Rightarrow> u64 \<Rightarrow> u64 option \<Rightarrow> ft_err \<times> u64 option" where
  "ft_align_up_checked value alignment result_pointer =
     (if result_pointer = None then (FT_ERR_INVALID_POINTER, None)
      else if \<not> ft_is_power_of_two alignment then (FT_ERR_INVALID_ARGUMENT, result_pointer)
      else let remainder = value AND (alignment - 1)
           in if remainder = 0 then (FT_ERR_SUCCESS, Some value)
              else let increment = alignment - remainder
                   in if value > (-1) - increment then (FT_ERR_OUT_OF_RANGE, result_pointer)
                      else (FT_ERR_SUCCESS, Some (value + increment)))"

definition ft_size_add_checked :: "u64 \<Rightarrow> u64 \<Rightarrow> u64 option \<Rightarrow> ft_err \<times> u64 option" where
  "ft_size_add_checked left right result_pointer =
     (if result_pointer = None then (FT_ERR_INVALID_POINTER, None)
      else if left > (-1) - right then (FT_ERR_OUT_OF_RANGE, result_pointer)
      else (FT_ERR_SUCCESS, Some (left + right)))"

definition ft_size_multiply_checked :: "u64 \<Rightarrow> u64 \<Rightarrow> u64 option \<Rightarrow> ft_err \<times> u64 option" where
  "ft_size_multiply_checked left right result_pointer =
     (if result_pointer = None then (FT_ERR_INVALID_POINTER, None)
      else if left \<noteq> 0 \<and> right > (-1) div left then (FT_ERR_OUT_OF_RANGE, result_pointer)
      else (FT_ERR_SUCCESS, Some (left * right)))"

lemma nat_and_dec_eq_0_iff: "0 < n \<Longrightarrow> n AND (n - 1) = 0 \<longleftrightarrow> (\<exists>k. n = 2 ^ k)" for n :: nat
proof (induction n rule: nat_bit_induct)
  case (even n)
  then have "2 * n - 1 = Suc (2 * (n - 1))" by (cases n) auto
  then have "(2 * n) AND (2 * n - 1) = 2 * (n AND (n - 1))"
    by (subst and_rec) simp
  moreover have "(\<exists>k. 2 * n = 2 ^ k) \<longleftrightarrow> (\<exists>k. n = 2 ^ k)"
  proof
    assume "\<exists>k. 2 * n = 2 ^ k"
    then obtain k where k: "2 * n = 2 ^ k" ..
    then show "\<exists>k. n = 2 ^ k" by (cases k) auto
  next
    assume "\<exists>k. n = 2 ^ k"
    then show "\<exists>k. 2 * n = 2 ^ k" by (metis power_Suc)
  qed
  ultimately show ?case using even by simp
next
  case (odd n)
  have "Suc (2 * n) AND (2 * n) = 2 * n"
    by (subst and_rec) simp
  moreover have "(\<exists>k. Suc (2 * n) = 2 ^ k) \<longleftrightarrow> n = 0"
  proof
    assume "\<exists>k. Suc (2 * n) = 2 ^ k"
    then obtain k where k: "Suc (2 * n) = 2 ^ k" ..
    then have "k = 0" by (metis even_Suc even_mult_iff even_numeral even_power gr0I)
    then show "n = 0" using k by simp
  next
    assume "n = 0"
    then show "\<exists>k. Suc (2 * n) = 2 ^ k" by (auto intro: exI [of _ 0])
  qed
  ultimately show ?case by simp
qed simp

lemma unat_minus_one_u64: "x \<noteq> 0 \<Longrightarrow> unat (x - 1 :: u64) = unat x - 1"
  by (simp add: unat_minus_one)

lemma ft_is_power_of_two_iff: "ft_is_power_of_two x \<longleftrightarrow> (\<exists>k. unat x = 2 ^ k)"
proof (cases "x = 0")
  case False
  then have pos: "0 < unat x" by (simp add: unat_gt_0)
  have "x AND (x - 1) = 0 \<longleftrightarrow> unat (x AND (x - 1)) = 0" by (simp add: unat_eq_0)
  also have "\<dots> \<longleftrightarrow> unat x AND (unat x - 1) = 0"
    using False by (simp add: unsigned_and_eq unat_minus_one_u64)
  also have "\<dots> \<longleftrightarrow> (\<exists>k. unat x = 2 ^ k)" using pos by (rule nat_and_dec_eq_0_iff)
  finally show ?thesis using False by (simp add: ft_is_power_of_two_def)
qed (simp add: ft_is_power_of_two_def)

lemma unat_and_dec:
  assumes "unat a = 2 ^ k"
  shows "unat (v AND (a - 1) :: u64) = unat v mod unat a"
proof -
  have "a \<noteq> 0" using assms by auto
  then have "unat (v AND (a - 1)) = unat v AND (2 ^ k - 1)"
    by (simp add: unsigned_and_eq unat_minus_one_u64 assms)
  then show ?thesis
    by (simp only: assms take_bit_eq_mod [symmetric] take_bit_eq_mask mask_eq_exp_minus_1)
qed


lemma unat_u64_max: "unat (-1 :: u64) = 2 ^ 64 - 1"
  using unat_minus_one [of "0 :: u64"] by (simp add: unsigned_minus_1_eq_mask mask_eq_exp_minus_1)

lemma u64_max_minus: "unat ((-1) - x :: u64) = 2 ^ 64 - 1 - unat x"
  by (simp add: unat_sub unat_u64_max)

lemma unat_u64_less: "unat (x :: u64) < 2 ^ 64"
  using unsigned_less [of x, where ?'a = nat] by simp

lemma u64_add_fits_iff: "x \<le> (-1) - y \<longleftrightarrow> unat x + unat y < 2 ^ 64" for x y :: u64
  using unat_u64_less [of y] by (auto simp: word_le_nat_alt u64_max_minus)

text \<open>
  \<open>ft_align_up_checked\<close> returns the least multiple of the alignment that is not below
  the value, and reports \<open>FT_ERR_OUT_OF_RANGE\<close> exactly when that multiple does not fit
  in 64 bits.
\<close>

definition align_up_nat :: "nat \<Rightarrow> nat \<Rightarrow> nat" where
  "align_up_nat v a = ((v + a - 1) div a) * a"

lemma align_up_nat_alt:
  assumes "0 < a"
  shows "align_up_nat v a = (if v mod a = 0 then v else v + (a - v mod a))"
proof (cases "v mod a = 0")
  case True
  then obtain q where "v = q * a" by (metis mult.commute mod_0_imp_dvd dvdE)
  then show ?thesis using assms by (simp add: align_up_nat_def add_diff_assoc [symmetric] del: add_diff_assoc)
next
  case False
  define q r where "q = v div a" and "r = v mod a"
  have v: "v = q * a + r" and r: "0 < r" "r < a" using False assms by (simp_all add: q_def r_def)
  have "v + a - 1 = (r - 1) + (q + 1) * a" using r by (simp add: v)
  then have "(v + a - 1) div a = ((r - 1) + (q + 1) * a) div a" by (simp only:)
  also have "\<dots> = q + 1" using r by (subst div_mult_self1) simp_all
  finally have "(v + a - 1) div a = q + 1" .
  then show ?thesis using r False by (simp add: align_up_nat_def v algebra_simps)
qed

lemma align_up_nat_least:
  assumes "0 < a"
  shows "v \<le> align_up_nat v a" "a dvd align_up_nat v a"
    and "a dvd w \<Longrightarrow> v \<le> w \<Longrightarrow> align_up_nat v a \<le> w"
proof -
  show "v \<le> align_up_nat v a" using mod_less_divisor [OF assms, of v] unfolding align_up_nat_alt [OF assms] by auto
  show "a dvd align_up_nat v a" by (simp add: align_up_nat_def)
  assume "a dvd w" "v \<le> w"
  then obtain q where w: "w = q * a" by (metis dvdE mult.commute)
  have "(v + a - 1) div a \<le> ((a - 1) + q * a) div a"
    using \<open>v \<le> w\<close> assms by (intro div_le_mono) (simp add: w)
  also have "\<dots> = q" using assms by (subst div_mult_self1) simp_all
  finally show "align_up_nat v a \<le> w" by (simp add: align_up_nat_def w)
qed

lemma ft_align_up_checked_spec:
  assumes "unat a = 2 ^ k"
  shows "ft_align_up_checked v a (Some old) =
    (if align_up_nat (unat v) (unat a) < 2 ^ 64
     then (FT_ERR_SUCCESS, Some (word_of_nat (align_up_nat (unat v) (unat a))))
     else (FT_ERR_OUT_OF_RANGE, Some old))"
proof -
  have a: "0 < unat a" using assms by simp
  have pow: "ft_is_power_of_two a" using assms by (auto simp: ft_is_power_of_two_iff)
  define r where "r = v AND (a - 1)"
  have r: "unat r = unat v mod unat a" unfolding r_def using assms by (rule unat_and_dec)
  have r0: "r = 0 \<longleftrightarrow> unat v mod unat a = 0" using r by (metis unat_eq_0)
  have inc: "unat (a - r) = unat a - unat v mod unat a"
    using a r by (simp add: unat_sub word_le_nat_alt)
  have le: "v > (-1) - (a - r) \<longleftrightarrow> \<not> unat v + (unat a - unat v mod unat a) < 2 ^ 64"
    using u64_add_fits_iff [of v "a - r"] unfolding inc by (simp only: not_le [symmetric])
  have sum: "v + (a - r) = word_of_nat (unat v + (unat a - unat v mod unat a))"
    by (simp flip: inc)
  show ?thesis
    using a pow r0 le sum unat_u64_less [of v]
    by (simp add: ft_align_up_checked_def Let_def align_up_nat_alt unsigned_less flip: r_def)
qed

lemma ft_size_add_checked_spec:
  "ft_size_add_checked x y (Some old) =
    (if unat x + unat y < 2 ^ 64 then (FT_ERR_SUCCESS, Some (word_of_nat (unat x + unat y)))
     else (FT_ERR_OUT_OF_RANGE, Some old))"
  using u64_add_fits_iff [of x y]
  by (simp add: ft_size_add_checked_def not_le [symmetric])

lemma ft_size_multiply_checked_spec:
  "ft_size_multiply_checked x y (Some old) =
    (if unat x * unat y < 2 ^ 64 then (FT_ERR_SUCCESS, Some (word_of_nat (unat x * unat y)))
     else (FT_ERR_OUT_OF_RANGE, Some old))"
proof (cases "x = 0")
  case False
  then have x: "0 < unat x" by (simp add: unat_gt_0)
  have "y > (-1) div x \<longleftrightarrow> (2 ^ 64 - 1) div unat x < unat y"
    by (simp add: word_less_nat_alt unat_div unat_u64_max)
  also have "\<dots> \<longleftrightarrow> \<not> unat x * unat y < 2 ^ 64"
    using x by (auto simp: div_less_iff_less_mult mult.commute less_Suc_eq_le not_less)
  finally show ?thesis using False by (simp add: ft_size_multiply_checked_def)
qed (simp add: ft_size_multiply_checked_def)

subsection \<open>Main properties\<close>

text \<open>
  \<open>ft_align_up_checked\<close> with a power-of-two alignment stores the least multiple of
  the alignment that is at least the value, and reports \<open>FT_ERR_OUT_OF_RANGE\<close> without
  touching the result exactly when that multiple does not fit 64 bits.
\<close>

theorem align_up_checked_correct:
  assumes "unat a = 2 ^ k"
  shows "(\<exists>r. ft_align_up_checked v a (Some old) = (FT_ERR_SUCCESS, Some r)
        \<and> unat a dvd unat r \<and> unat v \<le> unat r
        \<and> (\<forall>m. unat a dvd m \<and> unat v \<le> m \<longrightarrow> unat r \<le> m))
    \<or> (ft_align_up_checked v a (Some old) = (FT_ERR_OUT_OF_RANGE, Some old)
        \<and> (\<forall>m. unat a dvd m \<and> unat v \<le> m \<longrightarrow> 2 ^ 64 \<le> m))"
proof -
  let ?n = "align_up_nat (unat v) (unat a)"
  have a: "0 < unat a" using assms by simp
  have least: "?n \<le> m" if "unat a dvd m" "unat v \<le> m" for m
    using align_up_nat_least(3) [OF a that] .
  show ?thesis
  proof (cases "?n < 2 ^ 64")
    case True
    then have "unat (word_of_nat ?n :: u64) = ?n" by (simp add: unat_of_nat)
    then show ?thesis
      using True least align_up_nat_least(1,2) [OF a, of "unat v"] ft_align_up_checked_spec [OF assms]
      by auto
  next
    case False
    then have "2 ^ 64 \<le> ?n" by simp
    then show ?thesis
      using False least order_trans ft_align_up_checked_spec [OF assms, of v old]
      by (metis (no_types, lifting))
  qed
qed

theorem align_up_checked_correct_witness:
  "(\<exists>r. ft_align_up_checked 13 8 (Some 0) = (FT_ERR_SUCCESS, Some r)
        \<and> unat (8 :: u64) dvd unat r \<and> unat (13 :: u64) \<le> unat r
        \<and> (\<forall>m. unat (8 :: u64) dvd m \<and> unat (13 :: u64) \<le> m \<longrightarrow> unat r \<le> m))
    \<or> (ft_align_up_checked 13 8 (Some 0) = (FT_ERR_OUT_OF_RANGE, Some 0)
        \<and> (\<forall>m. unat (8 :: u64) dvd m \<and> unat (13 :: u64) \<le> m \<longrightarrow> 2 ^ 64 \<le> m))"
  by (rule align_up_checked_correct [where k = 3]) simp

text \<open>
  \<open>ft_size_multiply_checked\<close> stores the exact product when it fits 64 bits and
  otherwise reports \<open>FT_ERR_OUT_OF_RANGE\<close> and leaves the result cell as it was.
\<close>

theorem size_multiply_checked_exact:
  "ft_size_multiply_checked x y (Some old) =
    (if unat x * unat y < 2 ^ 64 then (FT_ERR_SUCCESS, Some (x * y))
     else (FT_ERR_OUT_OF_RANGE, Some old))"
  by (simp add: ft_size_multiply_checked_spec)

end
