(* ===== verification/Basic_Memory.thy ===== *)
theory Basic_Memory
  imports Libft_Errno
begin

text \<open>
  The memory primitives of \<^verbatim>\<open>src/Modules/Basic/basic_mem*.cpp\<close>,
  \<^verbatim>\<open>basic_bzero.cpp\<close> and \<^verbatim>\<open>basic_constant_time_compare.cpp\<close>. Memory is one byte list;
  a pointer is an offset into it or \<^term>\<open>None\<close>, so that source and destination may
  overlap, which is what distinguishes \<open>ft_memcpy\<close> from \<open>ft_memmove\<close>. The loops are the
  source's loops, one list update per assignment; the lemmas show what a whole loop writes.
\<close>

type_synonym mem = bytes
type_synonym mptr = "nat option"

subsection \<open>Block writes\<close>

text \<open>The effect of writing the bytes \<open>xs\<close> at offset \<open>off\<close>.\<close>

definition write_block :: "mem \<Rightarrow> nat \<Rightarrow> bytes \<Rightarrow> mem" where
  "write_block m off xs = take off m @ xs @ drop (off + length xs) m"

lemma write_block_Nil [simp]: "write_block m off [] = m"
  by (simp add: write_block_def)

lemma length_write_block [simp]:
  "off + length xs \<le> length m \<Longrightarrow> length (write_block m off xs) = length m"
  by (simp add: write_block_def)

lemma nth_write_block:
  assumes "off + length xs \<le> length m" "i < length m"
  shows "write_block m off xs ! i =
    (if off \<le> i \<and> i < off + length xs then xs ! (i - off) else m ! i)"
  using assms by (auto simp: write_block_def nth_append min_def)

lemma take_write_block_before:
  "n \<le> off \<Longrightarrow> off \<le> length m \<Longrightarrow> take n (write_block m off xs) = take n m"
  by (simp add: write_block_def)

lemma take_write_block_append:
  "off \<le> length m \<Longrightarrow> take (off + length xs) (write_block m off xs) = take off m @ xs"
  by (simp add: write_block_def)

lemma drop_take_write_block:
  "off \<le> length m \<Longrightarrow> take (length xs) (drop off (write_block m off xs)) = xs"
  by (simp add: write_block_def)

lemma write_block_step:
  assumes "off + length xs < length m"
  shows "(write_block m off xs)[off + length xs := y] = write_block m off (xs @ [y])"
proof (rule nth_equalityI)
  show "length ((write_block m off xs)[off + length xs := y])
      = length (write_block m off (xs @ [y]))"
    using assms by simp
next
  fix i assume "i < length ((write_block m off xs)[off + length xs := y])"
  then have i: "i < length m" using assms by simp
  show "(write_block m off xs)[off + length xs := y] ! i = write_block m off (xs @ [y]) ! i"
    using assms i by (auto simp: nth_list_update nth_write_block nth_append)
qed

subsection \<open>ft_memset, ft_bzero\<close>

text \<open>The loop from \<open>index\<close> to \<open>number_of_bytes\<close>.\<close>

function memset_loop :: "mem \<Rightarrow> nat \<Rightarrow> u8 \<Rightarrow> nat \<Rightarrow> nat \<Rightarrow> mem" where
  "memset_loop m d fill number_of_bytes index =
     (if index < number_of_bytes
      then memset_loop (m[d + index := fill]) d fill number_of_bytes (index + 1)
      else m)"
  by pat_completeness auto
termination
  by (relation "measure (\<lambda>(m, d, fill, n, i). n - i)") auto

declare memset_loop.simps [simp del]

definition ft_memset :: "mem \<Rightarrow> mptr \<Rightarrow> int \<Rightarrow> nat \<Rightarrow> mptr \<times> mem" where
  "ft_memset m destination value number_of_bytes =
     (case destination of
        None \<Rightarrow> (None, m)
      | Some d \<Rightarrow> (Some d, memset_loop m d (word_of_int value) number_of_bytes 0))"

definition ft_bzero :: "mem \<Rightarrow> mptr \<Rightarrow> nat \<Rightarrow> mem" where
  "ft_bzero m pointer n = snd (ft_memset m pointer 0 n)"

lemma memset_loop_write_block:
  assumes "i \<le> n" "d + n \<le> length m"
  shows "memset_loop (write_block m d (replicate i fill)) d fill n i
           = write_block m d (replicate n fill)"
  using assms
proof (induction "n - i" arbitrary: i)
  case 0
  then show ?case by (simp add: memset_loop.simps)
next
  case (Suc k)
  then have "i < n" by simp
  moreover have "(write_block m d (replicate i fill))[d + i := fill]
      = write_block m d (replicate (Suc i) fill)"
    using write_block_step [of d "replicate i fill" m fill] Suc.prems \<open>i < n\<close>
    by (simp add: replicate_append_same)
  ultimately show ?case
    using Suc.hyps(1) [of "Suc i"] Suc.hyps(2) Suc.prems
    by (subst memset_loop.simps) simp
qed

lemma ft_memset_spec:
  assumes "d + n \<le> length m"
  shows "ft_memset m (Some d) v n = (Some d, write_block m d (replicate n (word_of_int v)))"
  using memset_loop_write_block [of 0 n d m "word_of_int v"] assms
  by (simp add: ft_memset_def)

lemma ft_bzero_spec:
  assumes "d + n \<le> length m"
  shows "ft_bzero m (Some d) n = write_block m d (replicate n 0)"
  using assms by (simp add: ft_bzero_def ft_memset_spec)

subsection \<open>ft_memcpy and ft_memmove\<close>

text \<open>The ascending copy loop shared by \<open>ft_memcpy\<close> and the first branch of \<open>ft_memmove\<close>.\<close>

function copy_up :: "mem \<Rightarrow> nat \<Rightarrow> nat \<Rightarrow> nat \<Rightarrow> nat \<Rightarrow> mem" where
  "copy_up m d s sz index =
     (if index < sz
      then copy_up (m[d + index := m ! (s + index)]) d s sz (index + 1)
      else m)"
  by pat_completeness auto
termination
  by (relation "measure (\<lambda>(m, d, s, n, i). n - i)") auto

text \<open>The descending loop of \<open>ft_memmove\<close>.\<close>

fun copy_down :: "mem \<Rightarrow> nat \<Rightarrow> nat \<Rightarrow> nat \<Rightarrow> mem" where
  "copy_down m d s 0 = m"
| "copy_down m d s (Suc i) = copy_down (m[d + i := m ! (s + i)]) d s i"

declare copy_up.simps [simp del]

definition ft_memcpy :: "mem \<Rightarrow> mptr \<Rightarrow> mptr \<Rightarrow> nat \<Rightarrow> mptr \<times> mem" where
  "ft_memcpy m destination source sz =
     (if sz = 0 then (destination, m)
      else case (destination, source) of
             (Some d, Some s) \<Rightarrow> (destination, copy_up m d s sz 0)
           | _ \<Rightarrow> (None, m))"

definition ft_memmove :: "mem \<Rightarrow> mptr \<Rightarrow> mptr \<Rightarrow> nat \<Rightarrow> mptr \<times> mem" where
  "ft_memmove m destination source sz =
     (if destination = source \<or> sz = 0 then (destination, m)
      else case (destination, source) of
             (Some d, Some s) \<Rightarrow>
               (destination, if d < s then copy_up m d s sz 0 else copy_down m d s sz)
           | _ \<Rightarrow> (None, m))"

text \<open>
  One more element of a block write: the step both loops take. The value read is still
  the original one as long as the source position has not been written yet.
\<close>

lemma write_block_extend:
  assumes "d + i < length m" "s + i < length m" "s + i < d \<or> d + i \<le> s + i"
  shows "(write_block m d (take i (drop s m)))[d + i := write_block m d (take i (drop s m)) ! (s + i)]
           = write_block m d (take (Suc i) (drop s m))"
proof -
  let ?xs = "take i (drop s m)"
  have len: "length ?xs = i" using assms by simp
  have "write_block m d ?xs ! (s + i) = m ! (s + i)"
    using assms by (auto simp: nth_write_block)
  then show ?thesis
    using write_block_step [of d ?xs m "m ! (s + i)"] assms len
    by (simp add: take_Suc_conv_app_nth)
qed

lemma copy_up_write_block:
  assumes "d + n \<le> length m" "s + n \<le> length m" "d \<le> s \<or> s + n \<le> d" "i \<le> n"
  shows "copy_up (write_block m d (take i (drop s m))) d s n i
           = write_block m d (take n (drop s m))"
  using assms(4)
proof (induction "n - i" arbitrary: i)
  case 0
  then show ?case by (simp add: copy_up.simps)
next
  case (Suc k)
  then have i: "i < n" by simp
  from Suc.hyps(1) [of "Suc i"] Suc.hyps(2) i show ?case
    using write_block_extend [of d i m s] assms(1-3)
    by (subst copy_up.simps) auto
qed

lemma write_block_extend_down:
  assumes "i < n" "d + n \<le> length m" "s + n \<le> length m" "s \<le> d"
  shows "(write_block m (d + Suc i) (take (n - Suc i) (drop (s + Suc i) m)))
            [d + i := write_block m (d + Suc i) (take (n - Suc i) (drop (s + Suc i) m)) ! (s + i)]
         = write_block m (d + i) (take (n - i) (drop (s + i) m))" (is "?L = ?R")
proof (rule nth_equalityI)
  show "length ?L = length ?R" using assms by simp
next
  fix j assume "j < length ?L"
  then have j: "j < length m" using assms by simp
  show "?L ! j = ?R ! j"
    using assms j
    by (cases "j = d + i") (auto simp: nth_list_update nth_write_block Suc_diff_Suc)
qed

lemma copy_down_write_block:
  assumes "i \<le> n" "d + n \<le> length m" "s + n \<le> length m" "s \<le> d"
  shows "copy_down (write_block m (d + i) (take (n - i) (drop (s + i) m))) d s i
           = write_block m d (take n (drop s m))"
  using assms(1)
proof (induction i)
  case 0
  then show ?case by simp
next
  case (Suc i)
  then show ?case
    using write_block_extend_down [of i n d m s] assms(2-4) by simp
qed

lemma write_block_self: "d + n \<le> length m \<Longrightarrow> write_block m d (take n (drop d m)) = m"
proof -
  assume "d + n \<le> length m"
  then have "length (take n (drop d m)) = n" by simp
  moreover have "drop (d + n) m = drop n (drop d m)" by (simp add: add.commute)
  ultimately show ?thesis unfolding write_block_def by (metis append_take_drop_id)
qed

lemma ft_memcpy_spec:
  assumes "d + n \<le> length m" "s + n \<le> length m" "d \<le> s \<or> s + n \<le> d"
  shows "ft_memcpy m (Some d) (Some s) n = (Some d, write_block m d (take n (drop s m)))"
  using copy_up_write_block [OF assms, of 0] by (simp add: ft_memcpy_def)

lemma ft_memmove_spec:
  assumes "d + n \<le> length m" "s + n \<le> length m"
  shows "ft_memmove m (Some d) (Some s) n = (Some d, write_block m d (take n (drop s m)))"
proof (cases "d < s")
  case True
  then show ?thesis
    using copy_up_write_block [OF assms, of 0] by (simp add: ft_memmove_def)
next
  case False
  then show ?thesis
    using copy_down_write_block [OF _ assms, of n] write_block_self assms
    by (auto simp: ft_memmove_def)
qed

subsection \<open>ft_memswap\<close>

function memswap_loop :: "mem \<Rightarrow> nat \<Rightarrow> nat \<Rightarrow> nat \<Rightarrow> nat \<Rightarrow> mem" where
  "memswap_loop m l r sz index =
     (if index < sz
      then memswap_loop (let temporary = m ! (l + index);
                             m' = m[l + index := m ! (r + index)]
                         in m'[r + index := temporary]) l r sz (index + 1)
      else m)"
  by pat_completeness auto
termination
  by (relation "measure (\<lambda>(m, l, r, n, i). n - i)") auto

declare memswap_loop.simps [simp del]

definition ft_memswap :: "mem \<Rightarrow> mptr \<Rightarrow> mptr \<Rightarrow> nat \<Rightarrow> mptr \<times> mem" where
  "ft_memswap m left right sz =
     (if sz = 0 then (left, m)
      else case (left, right) of
             (Some l, Some r) \<Rightarrow>
               if l = r then (left, m) else (left, memswap_loop m l r sz 0)
           | _ \<Rightarrow> (None, m))"

lemma length_memswap_loop [simp]: "length (memswap_loop m l r n i) = length m"
  by (induction m l r n i rule: memswap_loop.induct)
    (subst memswap_loop.simps, simp add: Let_def)

lemma nth_memswap_step:
  assumes "l + i < length m" "r + i < length m" "l \<noteq> r" "k < length m"
  shows "(let temporary = m ! (l + i); m' = m[l + i := m ! (r + i)]
          in m'[r + i := temporary]) ! k
    = (if k = l + i then m ! (r + i) else if k = r + i then m ! (l + i) else m ! k)"
  using assms by (auto simp: Let_def nth_list_update)

lemma nth_memswap_loop:
  assumes "l + n \<le> length m" "r + n \<le> length m" "l + n \<le> r \<or> r + n \<le> l" "j < length m"
  shows "memswap_loop m l r n i ! j =
    (if l + i \<le> j \<and> j < l + n then m ! (r + (j - l))
     else if r + i \<le> j \<and> j < r + n then m ! (l + (j - r)) else m ! j)"
  using assms
proof (induction m l r n i rule: memswap_loop.induct)
  case (1 m l r n i)
  define m' where "m' = (let temporary = m ! (l + i); m' = m[l + i := m ! (r + i)]
                         in m'[r + i := temporary])"
  show ?case
  proof (cases "i < n")
    case True
    have len: "length m' = length m" by (simp add: m'_def Let_def)
    have nth: "m' ! k = (if k = l + i then m ! (r + i) else if k = r + i then m ! (l + i)
      else m ! k)" if "k < length m" for k
      unfolding m'_def using that "1.prems" True by (intro nth_memswap_step) auto
    have "memswap_loop m l r n i ! j = memswap_loop m' l r n (i + 1) ! j"
      using True by (subst memswap_loop.simps) (simp add: m'_def)
    also have "\<dots> = (if l + (i + 1) \<le> j \<and> j < l + n then m' ! (r + (j - l))
     else if r + (i + 1) \<le> j \<and> j < r + n then m' ! (l + (j - r)) else m' ! j)"
      unfolding m'_def using "1.prems" len [unfolded m'_def]
      by (intro "1.IH") (use True in simp_all)
    finally have step: "memswap_loop m l r n i ! j = \<dots>" .
    have m: "l + i < length m" "r + i < length m" "j < length m"
      using "1.prems" True by simp_all
    consider (l) "j = l + i" | (r) "j = r + i" | (l') "l + i < j" "j < l + n"
      | (r') "r + i < j" "j < r + n" | (out) "\<not> (l + i \<le> j \<and> j < l + n)"
        "\<not> (r + i \<le> j \<and> j < r + n)" by linarith
    then show ?thesis
    proof cases
      case l
      then have "\<not> (r + (i + 1) \<le> j \<and> j < r + n)" using "1.prems"(3) True by linarith
      with l show ?thesis unfolding step using m True by (auto simp: nth)
    next
      case r
      then have "\<not> (l + i \<le> j \<and> j < l + n)" using "1.prems"(3) True by linarith
      with r show ?thesis unfolding step using m True by (auto simp: nth)
    next
      case l'
      then have "r + (j - l) < length m" "r + (j - l) \<noteq> l + i" "r + (j - l) \<noteq> r + i"
        using "1.prems" by linarith+
      with l' show ?thesis by (simp add: step nth)
    next
      case r'
      then have "l + (j - r) < length m" "l + (j - r) \<noteq> r + i" "l + (j - r) \<noteq> l + i"
        "\<not> (l + i \<le> j \<and> j < l + n)"
        using "1.prems" by linarith+
      with r' show ?thesis by (auto simp: step nth)
    next
      case out
      with True m show ?thesis by (auto simp: step nth)
    qed
  next
    case False
    with 1 show ?thesis by (subst memswap_loop.simps) auto
  qed
qed

lemma ft_memswap_spec:
  assumes "l + n \<le> length m" "r + n \<le> length m" "l + n \<le> r \<or> r + n \<le> l" "0 < n"
  shows "ft_memswap m (Some l) (Some r) n =
    (Some l, write_block (write_block m l (take n (drop r m))) r (take n (drop l m)))"
proof -
  have "memswap_loop m l r n 0 =
      write_block (write_block m l (take n (drop r m))) r (take n (drop l m))" (is "_ = ?R")
  proof (rule nth_equalityI)
    show "length (memswap_loop m l r n 0) = length ?R" using assms by simp
  next
    fix j assume "j < length (memswap_loop m l r n 0)"
    then have j: "j < length m" by simp
    consider (l) "l \<le> j" "j < l + n" | (r) "r \<le> j" "j < r + n"
      | (out) "\<not> (l \<le> j \<and> j < l + n)" "\<not> (r \<le> j \<and> j < r + n)" by linarith
    then show "memswap_loop m l r n 0 ! j = ?R ! j"
      using assms j by cases (auto simp: nth_memswap_loop nth_write_block)
  qed
  then show ?thesis using assms by (auto simp: ft_memswap_def)
qed

subsection \<open>Searching and comparing\<close>

function memchr_loop :: "mem \<Rightarrow> nat \<Rightarrow> u8 \<Rightarrow> nat \<Rightarrow> nat \<Rightarrow> mptr" where
  "memchr_loop m p character sz index =
     (if index < sz
      then if m ! (p + index) = character then Some (p + index)
           else memchr_loop m p character sz (index + 1)
      else None)"
  by pat_completeness auto
termination
  by (relation "measure (\<lambda>(m, p, c, n, i). n - i)") auto

definition ft_memchr :: "mem \<Rightarrow> mptr \<Rightarrow> int \<Rightarrow> nat \<Rightarrow> mptr" where
  "ft_memchr m pointer number sz =
     (case pointer of
        None \<Rightarrow> None
      | Some p \<Rightarrow> if sz = 0 then None else memchr_loop m p (word_of_int number) sz 0)"

fun memrchr_loop :: "mem \<Rightarrow> nat \<Rightarrow> u8 \<Rightarrow> nat \<Rightarrow> mptr" where
  "memrchr_loop m p character 0 = None"
| "memrchr_loop m p character (Suc sz) =
     (if m ! (p + sz) = character then Some (p + sz) else memrchr_loop m p character sz)"

definition ft_memrchr :: "mem \<Rightarrow> mptr \<Rightarrow> int \<Rightarrow> nat \<Rightarrow> mptr" where
  "ft_memrchr m pointer number sz =
     (case pointer of
        None \<Rightarrow> None
      | Some p \<Rightarrow> if sz = 0 then None else memrchr_loop m p (word_of_int number) sz)"

function memcmp_loop :: "mem \<Rightarrow> nat \<Rightarrow> nat \<Rightarrow> nat \<Rightarrow> nat \<Rightarrow> int" where
  "memcmp_loop m p q sz index =
     (if index < sz
      then if m ! (p + index) \<noteq> m ! (q + index)
           then uint (m ! (p + index)) - uint (m ! (q + index))
           else memcmp_loop m p q sz (index + 1)
      else 0)"
  by pat_completeness auto
termination
  by (relation "measure (\<lambda>(m, p, q, n, i). n - i)") auto

definition ft_memcmp :: "mem \<Rightarrow> mptr \<Rightarrow> mptr \<Rightarrow> nat \<Rightarrow> int" where
  "ft_memcmp m pointer1 pointer2 sz =
     (if sz = 0 then 0
      else case (pointer1, pointer2) of
             (Some p, Some q) \<Rightarrow> memcmp_loop m p q sz 0
           | _ \<Rightarrow> 0)"

declare memchr_loop.simps [simp del] memcmp_loop.simps [simp del]

text \<open>\<open>ft_memmem\<close>: the inner loop counts matching bytes, the outer one moves the window.\<close>

function match_length :: "mem \<Rightarrow> nat \<Rightarrow> nat \<Rightarrow> nat \<Rightarrow> nat \<Rightarrow> nat" where
  "match_length m h nd needle_size compare_index =
     (if compare_index < needle_size \<and> m ! (h + compare_index) = m ! (nd + compare_index)
      then match_length m h nd needle_size (compare_index + 1)
      else compare_index)"
  by pat_completeness auto
termination
  by (relation "measure (\<lambda>(m, h, nd, n, i). n - i)") auto

function memmem_loop :: "mem \<Rightarrow> nat \<Rightarrow> nat \<Rightarrow> nat \<Rightarrow> nat \<Rightarrow> nat \<Rightarrow> mptr" where
  "memmem_loop m h haystack_size nd needle_size start_index =
     (if start_index + needle_size \<le> haystack_size
      then if match_length m (h + start_index) nd needle_size 0 = needle_size
           then Some (h + start_index)
           else memmem_loop m h haystack_size nd needle_size (start_index + 1)
      else None)"
  by pat_completeness auto
termination
  by (relation "measure (\<lambda>(m, h, hs, nd, n, i). Suc hs - i)") auto

declare match_length.simps [simp del] memmem_loop.simps [simp del]

definition ft_memmem :: "mem \<Rightarrow> mptr \<Rightarrow> nat \<Rightarrow> mptr \<Rightarrow> nat \<Rightarrow> mptr" where
  "ft_memmem m haystack haystack_size needle needle_size =
     (if needle_size = 0 then haystack
      else case (haystack, needle) of
             (Some h, Some nd) \<Rightarrow>
               if needle_size > haystack_size then None
               else memmem_loop m h haystack_size nd needle_size 0
           | _ \<Rightarrow> None)"

text \<open>
  \<open>ft_constant_time_equal\<close> accumulates the differences of all bytes instead of leaving
  at the first one.
\<close>

fun difference_loop :: "u8 \<Rightarrow> bytes \<Rightarrow> bytes \<Rightarrow> u8" where
  "difference_loop difference (x # xs) (y # ys) =
     difference_loop (difference OR (x XOR y)) xs ys"
| "difference_loop difference _ _ = difference"

definition ft_constant_time_equal :: "ptr \<Rightarrow> ptr \<Rightarrow> nat \<Rightarrow> bool" where
  "ft_constant_time_equal pointer1 pointer2 sz =
     (if sz = 0 then True
      else case (pointer1, pointer2) of
             (Some xs, Some ys) \<Rightarrow> difference_loop 0 (take sz xs) (take sz ys) = 0
           | _ \<Rightarrow> False)"

lemma or_eq_0_u8: "(a OR b = (0::u8)) \<longleftrightarrow> a = 0 \<and> b = 0"
  by (auto simp: or_eq_0_iff)

lemma xor_eq_0_u8: "(a XOR b = (0::u8)) \<longleftrightarrow> a = b"
  by (metis xor.commute xor.left_neutral xor_self_eq xor.assoc)

lemma difference_loop_eq_0:
  "length xs = length ys \<Longrightarrow> difference_loop d xs ys = 0 \<longleftrightarrow> d = 0 \<and> xs = ys"
  by (induction d xs ys rule: difference_loop.induct) (auto simp: or_eq_0_u8 xor_eq_0_u8)

lemma ft_constant_time_equal_iff:
  "n \<le> length xs \<Longrightarrow> n \<le> length ys \<Longrightarrow>
     ft_constant_time_equal (Some xs) (Some ys) n \<longleftrightarrow> take n xs = take n ys"
  by (simp add: ft_constant_time_equal_def difference_loop_eq_0)

lemma memchr_loop_first_index:
  "memchr_loop m p c n i = map_option ((+) p) (first_index (\<lambda>i. m ! (p + i) = c) n i)"
  by (induction m p c n i rule: memchr_loop.induct)
    (simp add: memchr_loop.simps [of _ _ _ _ i for i] first_index.simps [of _ _ i for i])

lemma ft_memchr_Some_iff:
  "ft_memchr m (Some p) c n = Some k \<longleftrightarrow>
     (\<exists>i<n. k = p + i \<and> m ! (p + i) = word_of_int c \<and> (\<forall>j<i. m ! (p + j) \<noteq> word_of_int c))"
  by (auto simp: ft_memchr_def memchr_loop_first_index first_index_Some_iff)

lemma ft_memrchr_Some_iff:
  "ft_memrchr m (Some p) c n = Some k \<longleftrightarrow>
     (\<exists>i<n. k = p + i \<and> m ! (p + i) = word_of_int c
        \<and> (\<forall>j. i < j \<and> j < n \<longrightarrow> m ! (p + j) \<noteq> word_of_int c))"
proof -
  have "memrchr_loop m p c' n = Some k \<longleftrightarrow>
     (\<exists>i<n. k = p + i \<and> m ! (p + i) = c' \<and> (\<forall>j. i < j \<and> j < n \<longrightarrow> m ! (p + j) \<noteq> c'))" for c'
  proof (induction n)
    case (Suc n)
    show ?case
    proof (cases "m ! (p + n) = c'")
      case True
      then have "i = n" if "i < Suc n" "\<forall>j. i < j \<and> j < Suc n \<longrightarrow> m ! (p + j) \<noteq> c'" for i
        using that by (metis less_Suc_eq)
      with True show ?thesis by auto
    next
      case False
      then have "i < Suc n \<and> m ! (p + i) = c' \<and> (\<forall>j. i < j \<and> j < Suc n \<longrightarrow> m ! (p + j) \<noteq> c')
        \<longleftrightarrow> i < n \<and> m ! (p + i) = c' \<and> (\<forall>j. i < j \<and> j < n \<longrightarrow> m ! (p + j) \<noteq> c')" for i
        by (metis less_Suc_eq)
      with False Suc.IH show ?thesis by auto
    qed
  qed simp
  then show ?thesis by (auto simp: ft_memrchr_def)
qed

lemma memcmp_loop_cases:
  "memcmp_loop m p q n i =
     (case first_index (\<lambda>i. m ! (p + i) \<noteq> m ! (q + i)) n i of
        None \<Rightarrow> 0 | Some k \<Rightarrow> uint (m ! (p + k)) - uint (m ! (q + k)))"
  by (induction m p q n i rule: memcmp_loop.induct)
    (simp add: memcmp_loop.simps [of _ _ _ _ i for i] first_index.simps [of _ _ i for i])

lemma ft_memcmp_eq_0_iff:
  assumes "p + n \<le> length m" "q + n \<le> length m"
  shows "ft_memcmp m (Some p) (Some q) n = 0 \<longleftrightarrow> take n (drop p m) = take n (drop q m)"
proof -
  have "ft_memcmp m (Some p) (Some q) n = 0 \<longleftrightarrow> (\<forall>i<n. m ! (p + i) = m ! (q + i))"
    by (auto simp: ft_memcmp_def memcmp_loop_cases first_index_None_iff
        first_index_Some_iff word_uint_eq_iff split: option.splits)
  also have "\<dots> \<longleftrightarrow> take n (drop p m) = take n (drop q m)"
    using assms by (auto simp: list_eq_iff_nth_eq)
  finally show ?thesis .
qed

lemma ft_memcmp_less_0_iff:
  "ft_memcmp m (Some p) (Some q) n < 0 \<longleftrightarrow>
     (\<exists>i<n. m ! (p + i) < m ! (q + i) \<and> (\<forall>j<i. m ! (p + j) = m ! (q + j)))"
proof -
  have "(case first_index (\<lambda>i. m ! (p + i) \<noteq> m ! (q + i)) n 0 of
        None \<Rightarrow> 0 | Some k \<Rightarrow> uint (m ! (p + k)) - uint (m ! (q + k))) < 0 \<longleftrightarrow>
     (\<exists>i<n. m ! (p + i) < m ! (q + i) \<and> (\<forall>j<i. m ! (p + j) = m ! (q + j)))"
  proof (cases "first_index (\<lambda>i. m ! (p + i) \<noteq> m ! (q + i)) n 0")
    case None
    then have "\<forall>i<n. m ! (p + i) = m ! (q + i)" by (simp add: first_index_None_iff)
    with None show ?thesis by auto
  next
    case (Some k)
    then have k: "k < n" "m ! (p + k) \<noteq> m ! (q + k)" "\<forall>j<k. m ! (p + j) = m ! (q + j)"
      by (auto simp: first_index_Some_iff)
    show ?thesis
    proof
      assume "\<exists>i<n. m ! (p + i) < m ! (q + i) \<and> (\<forall>j<i. m ! (p + j) = m ! (q + j))"
      then obtain i where "i < n" "m ! (p + i) < m ! (q + i)" "\<forall>j<i. m ! (p + j) = m ! (q + j)"
        by blast
      moreover from this k have "i = k" by (metis linorder_neqE_nat order_less_irrefl)
      ultimately show "(case first_index (\<lambda>i. m ! (p + i) \<noteq> m ! (q + i)) n 0 of
        None \<Rightarrow> 0 | Some k \<Rightarrow> uint (m ! (p + k)) - uint (m ! (q + k))) < 0"
        using Some by (simp add: word_less_def)
    qed (use Some k in \<open>auto simp: word_less_def\<close>)
  qed
  then show ?thesis by (auto simp: ft_memcmp_def memcmp_loop_cases)
qed

lemma match_length_full_iff:
  "i \<le> n \<Longrightarrow> match_length m h nd n i = n \<longleftrightarrow> (\<forall>j. i \<le> j \<and> j < n \<longrightarrow> m ! (h + j) = m ! (nd + j))"
proof (induction m h nd n i rule: match_length.induct)
  case (1 m h nd n i)
  then show ?case
    by (subst match_length.simps, subst all_range_step) auto
qed

lemma memmem_loop_first_index:
  "n \<le> hs \<Longrightarrow> memmem_loop m h hs nd n i =
     map_option ((+) h) (first_index (\<lambda>i. match_length m (h + i) nd n 0 = n) (Suc hs - n) i)"
  by (induction m h hs nd n i rule: memmem_loop.induct)
    (subst memmem_loop.simps, subst first_index.simps, auto)

text \<open>\<open>ft_memmem\<close> finds the first occurrence of the needle, and only an occurrence.\<close>

lemma ft_memmem_Some_iff:
  assumes "0 < n" "h + hs \<le> length m" "nd + n \<le> length m"
  shows "ft_memmem m (Some h) hs (Some nd) n = Some k \<longleftrightarrow>
    (\<exists>i. i + n \<le> hs \<and> k = h + i \<and> take n (drop (h + i) m) = take n (drop nd m)
       \<and> (\<forall>j<i. take n (drop (h + j) m) \<noteq> take n (drop nd m)))" (is "_ \<longleftrightarrow> ?R")
proof -
  have eq: "match_length m (h + i) nd n 0 = n \<longleftrightarrow> take n (drop (h + i) m) = take n (drop nd m)"
    if "i + n \<le> hs" for i
    using that assms by (auto simp: match_length_full_iff list_eq_iff_nth_eq)
  show ?thesis
  proof (cases "n \<le> hs")
    case True
    then have "ft_memmem m (Some h) hs (Some nd) n = Some k \<longleftrightarrow>
      (\<exists>i. k = h + i \<and> i < Suc hs - n \<and> match_length m (h + i) nd n 0 = n
        \<and> (\<forall>j<i. match_length m (h + j) nd n 0 \<noteq> n))"
      using assms(1) by (auto simp: ft_memmem_def memmem_loop_first_index first_index_Some_iff)
    also have "\<dots> \<longleftrightarrow> (\<exists>i. i + n \<le> hs \<and> k = h + i \<and> match_length m (h + i) nd n 0 = n
        \<and> (\<forall>j<i. match_length m (h + j) nd n 0 \<noteq> n))"
      using True by (intro ex_cong1) auto
    also have "\<dots> \<longleftrightarrow> ?R" by (intro ex_cong1 conj_cong refl) (simp_all add: eq)
    finally show ?thesis .
  next
    case False
    with assms show ?thesis by (auto simp: ft_memmem_def)
  qed
qed

subsection \<open>The bounds-checked variants\<close>

text \<open>The file-local \<open>zero_buffer\<close> of \<^verbatim>\<open>basic_memcpy_s.cpp\<close> and \<^verbatim>\<open>basic_memmove_s.cpp\<close>.\<close>

definition zero_buffer :: "mem \<Rightarrow> mptr \<Rightarrow> nat \<Rightarrow> mem" where
  "zero_buffer m buffer buffer_size =
     (case buffer of
        None \<Rightarrow> m
      | Some d \<Rightarrow> if buffer_size = 0 then m else memset_loop m d 0 buffer_size 0)"

definition ft_memcpy_s :: "mem \<Rightarrow> mptr \<Rightarrow> nat \<Rightarrow> mptr \<Rightarrow> nat \<Rightarrow> ft_err \<times> mem" where
  "ft_memcpy_s m destination destination_size source number_of_bytes =
     (if number_of_bytes = 0 then (FT_ERR_SUCCESS, m)
      else case (destination, source) of
             (Some d, Some s) \<Rightarrow>
               if destination_size < number_of_bytes
               then (FT_ERR_INVALID_ARGUMENT, zero_buffer m destination destination_size)
               else if d < s + number_of_bytes \<and> s < d + number_of_bytes
               then (FT_ERR_OVERLAP, zero_buffer m destination destination_size)
               else (FT_ERR_SUCCESS, snd (ft_memcpy m destination source number_of_bytes))
           | _ \<Rightarrow> (FT_ERR_INVALID_POINTER, zero_buffer m destination destination_size))"

definition ft_memmove_s :: "mem \<Rightarrow> mptr \<Rightarrow> nat \<Rightarrow> mptr \<Rightarrow> nat \<Rightarrow> ft_err \<times> mem" where
  "ft_memmove_s m destination destination_size source number_of_bytes =
     (if number_of_bytes = 0 then (FT_ERR_SUCCESS, m)
      else case (destination, source) of
             (Some d, Some s) \<Rightarrow>
               if destination_size < number_of_bytes
               then (FT_ERR_INVALID_ARGUMENT, zero_buffer m destination destination_size)
               else if d < s + number_of_bytes \<and> s < d + number_of_bytes
               then (FT_ERR_OVERLAP, zero_buffer m destination destination_size)
               else (FT_ERR_SUCCESS, snd (ft_memmove m destination source number_of_bytes))
           | _ \<Rightarrow> (FT_ERR_INVALID_POINTER, zero_buffer m destination destination_size))"

lemma zero_buffer_spec:
  assumes "d + n \<le> length m"
  shows "zero_buffer m (Some d) n = write_block m d (replicate n 0)"
  using memset_loop_write_block [of 0 n d m 0] assms by (simp add: zero_buffer_def)

lemma ft_memcpy_s_spec:
  assumes "d + ds \<le> length m" "s + n \<le> length m" "0 < n"
  shows "ft_memcpy_s m (Some d) ds (Some s) n =
    (if n \<le> ds \<and> (s + n \<le> d \<or> d + n \<le> s)
     then (FT_ERR_SUCCESS, write_block m d (take n (drop s m)))
     else (if n \<le> ds then FT_ERR_OVERLAP else FT_ERR_INVALID_ARGUMENT,
           write_block m d (replicate ds 0)))"
  using assms by (auto simp: ft_memcpy_s_def zero_buffer_spec ft_memcpy_spec)

lemma ft_memmove_s_eq_ft_memcpy_s:
  assumes "d + ds \<le> length m" "s + n \<le> length m"
  shows "ft_memmove_s m (Some d) ds (Some s) n = ft_memcpy_s m (Some d) ds (Some s) n"
  using assms
  by (auto simp: ft_memmove_s_def ft_memcpy_s_def ft_memmove_spec ft_memcpy_spec)

subsection \<open>Main properties\<close>

text \<open>
  \<open>ft_memmove\<close> copies correctly however source and destination overlap: the
  destination range holds the bytes the source range held before the call, every byte
  outside it is unchanged, the memory keeps its length, and the destination is returned.
\<close>

theorem memmove_overlap_safe:
  assumes "d + n \<le> length m" "s + n \<le> length m"
  shows "\<exists>m'. ft_memmove m (Some d) (Some s) n = (Some d, m') \<and> length m' = length m
    \<and> (\<forall>i<length m. m' ! i = (if d \<le> i \<and> i < d + n then m ! (s + (i - d)) else m ! i))"
  using assms by (auto simp: ft_memmove_spec write_block_def nth_append)

theorem memmove_overlap_safe_witness:
  "\<exists>m'. ft_memmove [1, 2, 3, 4, 5] (Some 1) (Some 0) 3 = (Some 1, m') \<and> length m' = length [1, 2, 3, 4, 5 :: u8]
    \<and> (\<forall>i<length [1, 2, 3, 4, 5 :: u8].
         m' ! i = (if 1 \<le> i \<and> i < 1 + 3 then [1, 2, 3, 4, 5] ! (0 + (i - 1)) else [1, 2, 3, 4, 5] ! i))"
  by (rule memmove_overlap_safe) simp_all

text \<open>
  \<open>ft_memcpy_s\<close> on non-null arguments and a positive size: it copies exactly when
  the size fits the destination and the ranges are disjoint; otherwise it reports the
  overlap or the bad size and leaves the whole destination zeroed, never a partial copy.
\<close>

theorem memcpy_s_all_or_zero:
  assumes "d + ds \<le> length m" "s + n \<le> length m" "0 < n"
  shows "\<exists>e m'. ft_memcpy_s m (Some d) ds (Some s) n = (e, m')
    \<and> e = (if ds < n then FT_ERR_INVALID_ARGUMENT
            else if s + n \<le> d \<or> d + n \<le> s then FT_ERR_SUCCESS else FT_ERR_OVERLAP)
    \<and> (if e = FT_ERR_SUCCESS
        then take n (drop d m') = take n (drop s m) \<and> drop (d + n) m' = drop (d + n) m
        else take ds (drop d m') = replicate ds 0 \<and> drop (d + ds) m' = drop (d + ds) m)
    \<and> take d m' = take d m"
  using assms by (auto simp: ft_memcpy_s_spec write_block_def)

theorem memcpy_s_all_or_zero_witness:
  "\<exists>e m'. ft_memcpy_s [1, 2, 3, 4, 5, 6] (Some 0) 3 (Some 3) 2 = (e, m')
    \<and> e = (if (3::nat) < 2 then FT_ERR_INVALID_ARGUMENT
            else if (3::nat) + 2 \<le> 0 \<or> (0::nat) + 2 \<le> 3 then FT_ERR_SUCCESS else FT_ERR_OVERLAP)
    \<and> (if e = FT_ERR_SUCCESS
        then take 2 (drop 0 m') = take 2 (drop 3 [1, 2, 3, 4, 5, 6])
          \<and> drop (0 + 2) m' = drop (0 + 2) [1, 2, 3, 4, 5, 6]
        else take 3 (drop 0 m') = replicate 3 0 \<and> drop (0 + 3) m' = drop (0 + 3) [1, 2, 3, 4, 5, 6])
    \<and> take 0 m' = take 0 [1, 2, 3, 4, 5, 6]"
  by (rule memcpy_s_all_or_zero) simp_all

text \<open>
  \<open>ft_memmem\<close> with a non-empty needle returns the first position at which the
  needle occurs inside the haystack range, and null exactly when it occurs nowhere.
\<close>

theorem memmem_finds_first:
  assumes "0 < n" "h + hs \<le> length m" "nd + n \<le> length m"
  shows "(ft_memmem m (Some h) hs (Some nd) n = Some k \<longleftrightarrow>
      (\<exists>i. i + n \<le> hs \<and> k = h + i \<and> take n (drop (h + i) m) = take n (drop nd m)
         \<and> (\<forall>j<i. take n (drop (h + j) m) \<noteq> take n (drop nd m))))
    \<and> (ft_memmem m (Some h) hs (Some nd) n = None \<longleftrightarrow>
      (\<forall>i. i + n \<le> hs \<longrightarrow> take n (drop (h + i) m) \<noteq> take n (drop nd m)))"
proof -
  let ?eq = "\<lambda>i. take n (drop (h + i) m) = take n (drop nd m)"
  have "\<exists>k. ft_memmem m (Some h) hs (Some nd) n = Some k" if i: "i + n \<le> hs" "?eq i" for i
  proof -
    obtain i0 where "i0 + n \<le> hs \<and> ?eq i0" "\<forall>j<i0. \<not> (j + n \<le> hs \<and> ?eq j)"
      using i exists_least_iff [of "\<lambda>i. i + n \<le> hs \<and> ?eq i"] by blast
    then have "i0 + n \<le> hs" "?eq i0" "\<forall>j<i0. \<not> ?eq j" by auto
    then show ?thesis using ft_memmem_Some_iff [OF assms, of "h + i0"] by blast
  qed
  then have "ft_memmem m (Some h) hs (Some nd) n = None \<longleftrightarrow> (\<forall>i. i + n \<le> hs \<longrightarrow> \<not> ?eq i)"
    using ft_memmem_Some_iff [OF assms] by (metis option.exhaust option.distinct(1))
  then show ?thesis using ft_memmem_Some_iff [OF assms] by simp
qed

theorem memmem_finds_first_witness:
  "(ft_memmem [9, 7, 8, 7, 8 :: u8] (Some 0) 3 (Some 3) 2 = Some 1 \<longleftrightarrow>
      (\<exists>i. i + 2 \<le> 3 \<and> 1 = 0 + i \<and> take 2 (drop (0 + i) [9, 7, 8, 7, 8 :: u8]) = take 2 (drop 3 [9, 7, 8, 7, 8 :: u8])
         \<and> (\<forall>j<i. take 2 (drop (0 + j) [9, 7, 8, 7, 8 :: u8]) \<noteq> take 2 (drop 3 [9, 7, 8, 7, 8 :: u8]))))
    \<and> (ft_memmem [9, 7, 8, 7, 8 :: u8] (Some 0) 3 (Some 3) 2 = None \<longleftrightarrow>
      (\<forall>i. i + 2 \<le> 3 \<longrightarrow> take 2 (drop (0 + i) [9, 7, 8, 7, 8 :: u8]) \<noteq> take 2 (drop 3 [9, 7, 8, 7, 8 :: u8])))"
  by (rule memmem_finds_first) simp_all

text \<open>
  \<open>ft_constant_time_equal\<close>, which accumulates the differences of all bytes
  without leaving early, decides equality of the two ranges.
\<close>

theorem constant_time_equal_correct:
  assumes "n \<le> length xs" "n \<le> length ys"
  shows "ft_constant_time_equal (Some xs) (Some ys) n \<longleftrightarrow> (\<forall>i<n. xs ! i = ys ! i)"
  using assms by (auto simp: ft_constant_time_equal_iff list_eq_iff_nth_eq)

theorem constant_time_equal_correct_witness:
  "ft_constant_time_equal (Some [1, 2, 3]) (Some [1, 2, 4]) 3
     \<longleftrightarrow> (\<forall>i<3. [1, 2, 3] ! i = [1, 2, 4 :: u8] ! i)"
  by (rule constant_time_equal_correct) simp_all

end
