(* ===== verification/Basic_Ascii.thy ===== *)
theory Basic_Ascii
  imports Libft_Errno
begin

text \<open>
  The character classification of \<^verbatim>\<open>src/Modules/Basic/basic_is*.cpp\<close>,
  \<^verbatim>\<open>basic_ascii_classification.cpp\<close> and \<^verbatim>\<open>basic_ascii_utf8_helpers.cpp\<close>: each takes
  an \<open>int32_t\<close> and returns 1 or 0.
\<close>

definition ft_isdigit :: "int \<Rightarrow> int" where
  "ft_isdigit character = (if 0x30 \<le> character \<and> character \<le> 0x39 then 1 else 0)"

definition ft_isalpha :: "int \<Rightarrow> int" where
  "ft_isalpha character =
     (if (0x61 \<le> character \<and> character \<le> 0x7A) \<or> (0x41 \<le> character \<and> character \<le> 0x5A)
      then 1 else 0)"

definition ft_isalnum :: "int \<Rightarrow> int" where
  "ft_isalnum character =
     (if ft_isdigit character \<noteq> 0 \<or> ft_isalpha character \<noteq> 0 then 1 else 0)"

definition ft_islower :: "int \<Rightarrow> int" where
  "ft_islower character = (if 0x61 \<le> character \<and> character \<le> 0x7A then 1 else 0)"

definition ft_isupper :: "int \<Rightarrow> int" where
  "ft_isupper character = (if 0x41 \<le> character \<and> character \<le> 0x5A then 1 else 0)"

definition ft_isprint :: "int \<Rightarrow> int" where
  "ft_isprint character = (if 32 \<le> character \<and> character \<le> 126 then 1 else 0)"

definition ft_isspace :: "int \<Rightarrow> int" where
  "ft_isspace character =
     (if character = 0x20 \<or> character = 0x0C \<or> character = 0x0A \<or> character = 0x0D
         \<or> character = 0x09 \<or> character = 0x0B then 1 else 0)"

definition ft_isxdigit :: "int \<Rightarrow> int" where
  "ft_isxdigit character =
     (if (0x30 \<le> character \<and> character \<le> 0x39) \<or> (0x61 \<le> character \<and> character \<le> 0x66)
         \<or> (0x41 \<le> character \<and> character \<le> 0x46) then 1 else 0)"

definition ft_isgraph :: "int \<Rightarrow> int" where
  "ft_isgraph character = (if 0x21 \<le> character \<and> character \<le> 0x7E then 1 else 0)"

definition ft_ispunct :: "int \<Rightarrow> int" where
  "ft_ispunct character =
     (if ft_isgraph character = 0 \<or> ft_isalnum character \<noteq> 0 then 0 else 1)"

definition ft_iscntrl :: "int \<Rightarrow> int" where
  "ft_iscntrl character =
     (if (0 \<le> character \<and> character \<le> 0x1F) \<or> character = 0x7F then 1 else 0)"

definition ft_isblank :: "int \<Rightarrow> int" where
  "ft_isblank character = (if character = 0x20 \<or> character = 0x09 then 1 else 0)"

definition ft_isascii :: "int \<Rightarrow> int" where
  "ft_isascii character = (if 0 \<le> character \<and> character \<le> 0x7F then 1 else 0)"

definition ft_utf8_is_leading_byte :: "int \<Rightarrow> int" where
  "ft_utf8_is_leading_byte byte_value =
     (if byte_value < 0 \<or> byte_value > 0xFF then 0
      else if byte_value \<le> 0x7F then 1
      else if 0xC2 \<le> byte_value \<and> byte_value \<le> 0xDF then 1
      else if 0xE0 \<le> byte_value \<and> byte_value \<le> 0xEF then 1
      else if 0xF0 \<le> byte_value \<and> byte_value \<le> 0xF4 then 1
      else 0)"

definition ft_utf8_is_trailing_byte :: "int \<Rightarrow> int" where
  "ft_utf8_is_trailing_byte byte_value =
     (if byte_value < 0 \<or> byte_value > 0xFF then 0
      else if (word_of_int byte_value :: u8) AND 0xC0 = 0x80 then 1 else 0)"

lemmas ctype_defs = ft_isdigit_def ft_isalpha_def ft_isalnum_def ft_islower_def ft_isupper_def
  ft_isprint_def ft_isspace_def ft_isxdigit_def ft_isgraph_def ft_ispunct_def ft_iscntrl_def
  ft_isblank_def ft_isascii_def

text \<open>
  The ASCII range is partitioned into control characters, the space, letters, digits
  and punctuation: every code belongs to exactly one of them.
\<close>

lemma ascii_partition:
  "ft_isascii c = ft_iscntrl c + (if c = 0x20 then 1 else 0) + ft_isalpha c + ft_isdigit c
     + ft_ispunct c"
  by (auto simp: ctype_defs)

lemma ft_isalpha_cases: "ft_isalpha c = ft_islower c + ft_isupper c"
  by (auto simp: ctype_defs)

lemma ft_isspace_byte:
  "ft_isspace (uint (c::u8)) \<noteq> 0 \<longleftrightarrow> c = 0x20 \<or> (0x09 \<le> c \<and> c \<le> 0x0D)"
proof -
  have "\<forall>c::u8. ft_isspace (uint c) \<noteq> 0 \<longleftrightarrow> c = 0x20 \<or> (0x09 \<le> c \<and> c \<le> 0x0D)"
    unfolding u8_all_iff by code_simp
  then show ?thesis by blast
qed

end
