(* ===== verification/Basic_String.thy ===== *)
theory Basic_String
  imports Basic_Memory Basic_Ascii "HOL-Library.Sublist"
begin

text \<open>
  The C string functions of \<^verbatim>\<open>src/Modules/Basic/basic_str*.cpp\<close>, \<^verbatim>\<open>basic.hpp\<close>,
  \<^verbatim>\<open>basic_tolower.cpp\<close> and \<^verbatim>\<open>basic_toupper.cpp\<close>. A string argument is the list of bytes
  from the pointer to the end of its object, and the byte after the last one reads as
  \<open>'\0'\<close>; the string itself is the part before the first \<open>'\0'\<close> (\<open>cstr\<close>). A destination
  buffer is the list of its bytes, so a write past its end would be a write outside the
  list. Source and destination are different objects.
\<close>

subsection \<open>Reading strings\<close>

definition c_at :: "bytes \<Rightarrow> nat \<Rightarrow> u8" where
  "c_at s i = (if i < length s then s ! i else 0)"

definition cstr :: "bytes \<Rightarrow> bytes" where
  "cstr s = takeWhile (\<lambda>c. c \<noteq> 0) s"

lemma c_at_Nil [simp]: "c_at [] i = 0"
  by (simp add: c_at_def)

lemma c_at_Cons_0 [simp]: "c_at (x # s) 0 = x"
  by (simp add: c_at_def)

lemma c_at_Cons_Suc [simp]: "c_at (x # s) (Suc i) = c_at s i"
  by (simp add: c_at_def)

lemma c_at_tl: "c_at (tl s) i = c_at s (Suc i)"
  by (cases s) auto

lemma cstr_Nil [simp]: "cstr [] = []"
  by (simp add: cstr_def)

lemma cstr_Cons [simp]: "cstr (x # s) = (if x = 0 then [] else x # cstr s)"
  by (simp add: cstr_def)

lemma zero_notin_cstr [simp]: "0 \<notin> set (cstr s)"
  by (auto simp: cstr_def dest: set_takeWhileD)

lemma length_cstr_le: "length (cstr s) \<le> length s"
  by (simp add: cstr_def length_takeWhile_le)

lemma c_at_cstr: "i < length (cstr s) \<Longrightarrow> c_at s i = cstr s ! i"
  by (induction s arbitrary: i) (auto simp: less_Suc_eq_0_disj split: if_splits)

lemma c_at_length_cstr: "c_at s (length (cstr s)) = 0"
  by (induction s) auto

lemma c_at_neq_0_iff: "i \<le> length (cstr s) \<Longrightarrow> c_at s i \<noteq> 0 \<longleftrightarrow> i < length (cstr s)"
proof (induction s arbitrary: i)
  case (Cons x s)
  then show ?case by (cases i) (auto split: if_splits)
qed simp

text \<open>\<open>ft_strlen_raw\<close> walks to the terminator.\<close>

fun ft_strlen_raw :: "bytes \<Rightarrow> nat" where
  "ft_strlen_raw [] = 0"
| "ft_strlen_raw (c # s) = (if c \<noteq> 0 then 1 + ft_strlen_raw s else 0)"

definition ft_strlen_size_t :: "ptr \<Rightarrow> nat" where
  "ft_strlen_size_t string = (case string of None \<Rightarrow> 0 | Some s \<Rightarrow> ft_strlen_raw s)"

definition ft_strlen :: "ptr \<Rightarrow> nat" where
  "ft_strlen string =
     (case string of
        None \<Rightarrow> 0
      | Some s \<Rightarrow> (let l = ft_strlen_raw s
                  in if l > 2147483647 then 2147483647 else l))"

lemma ft_strlen_raw_cstr: "ft_strlen_raw s = length (cstr s)"
  by (induction s) auto

lemma ft_strlen_size_t_Some [simp]: "ft_strlen_size_t (Some s) = length (cstr s)"
  by (simp add: ft_strlen_size_t_def ft_strlen_raw_cstr)

function strnlen_loop :: "bytes \<Rightarrow> nat \<Rightarrow> nat \<Rightarrow> nat" where
  "strnlen_loop s maximum_length index =
     (if index < maximum_length \<and> c_at s index \<noteq> 0
      then strnlen_loop s maximum_length (index + 1) else index)"
  by pat_completeness auto
termination
  by (relation "measure (\<lambda>(s, m, i). m - i)") auto

declare strnlen_loop.simps [simp del]

definition ft_strnlen :: "ptr \<Rightarrow> nat \<Rightarrow> nat" where
  "ft_strnlen string maximum_length =
     (case string of None \<Rightarrow> 0 | Some s \<Rightarrow> strnlen_loop s maximum_length 0)"

lemma strnlen_loop_eq:
  assumes "i \<le> n" "i \<le> length (cstr s)"
  shows "strnlen_loop s n i = min n (length (cstr s))"
  using assms
proof (induction s n i rule: strnlen_loop.induct)
  case (1 s n i)
  show ?case
  proof (cases "i < n \<and> c_at s i \<noteq> 0")
    case True
    with "1.prems" have "i < length (cstr s)" by (simp add: c_at_neq_0_iff)
    with True 1 show ?thesis by (subst strnlen_loop.simps) simp
  next
    case False
    with "1.prems" show ?thesis
      by (subst strnlen_loop.simps) (auto simp: min_def c_at_neq_0_iff)
  qed
qed

lemma ft_strnlen_spec: "ft_strnlen (Some s) n = min n (length (cstr s))"
  by (simp add: ft_strnlen_def strnlen_loop_eq)

subsection \<open>Comparing strings\<close>

text \<open>\<open>ft_strcmp\<close> advances both pointers while the characters agree.\<close>

function strcmp_loop :: "bytes \<Rightarrow> bytes \<Rightarrow> int" where
  "strcmp_loop s t =
     (if c_at s 0 \<noteq> 0 \<and> c_at t 0 \<noteq> 0 \<and> c_at s 0 = c_at t 0
      then strcmp_loop (tl s) (tl t)
      else uint (c_at s 0) - uint (c_at t 0))"
  by pat_completeness auto
termination
  by (relation "measure (\<lambda>(s, t). length s)") (auto simp: c_at_def split: if_splits)

declare strcmp_loop.simps [simp del]

definition ft_strcmp :: "ptr \<Rightarrow> ptr \<Rightarrow> int" where
  "ft_strcmp string1 string2 =
     (case (string1, string2) of (Some s, Some t) \<Rightarrow> strcmp_loop s t | _ \<Rightarrow> -1)"

function strncmp_loop :: "bytes \<Rightarrow> bytes \<Rightarrow> nat \<Rightarrow> nat \<Rightarrow> int" where
  "strncmp_loop s t maximum_length index =
     (if index < maximum_length
      then if c_at s index \<noteq> c_at t index then uint (c_at s index) - uint (c_at t index)
           else if c_at s index = 0 then 0
           else strncmp_loop s t maximum_length (index + 1)
      else 0)"
  by pat_completeness auto
termination
  by (relation "measure (\<lambda>(s, t, m, i). m - i)") auto

declare strncmp_loop.simps [simp del]

definition ft_strncmp :: "ptr \<Rightarrow> ptr \<Rightarrow> nat \<Rightarrow> int" where
  "ft_strncmp string_1 string_2 maximum_length =
     (if maximum_length = 0 then 0
      else case (string_1, string_2) of
             (Some s, Some t) \<Rightarrow> strncmp_loop s t maximum_length 0
           | _ \<Rightarrow> -1)"

definition ft_ascii_to_lower :: "u8 \<Rightarrow> u8" where
  "ft_ascii_to_lower character =
     (if 0x41 \<le> character \<and> character \<le> 0x5A then character + (0x61 - 0x41) else character)"

function strcasecmp_loop :: "bytes \<Rightarrow> bytes \<Rightarrow> int" where
  "strcasecmp_loop s t =
     (let left_character = ft_ascii_to_lower (c_at s 0);
          right_character = ft_ascii_to_lower (c_at t 0)
      in if c_at s 0 \<noteq> 0 \<and> c_at t 0 \<noteq> 0 \<and> left_character = right_character
         then strcasecmp_loop (tl s) (tl t)
         else uint left_character - uint right_character)"
  by pat_completeness auto
termination
  by (relation "measure (\<lambda>(s, t). length s)") (auto simp: c_at_def split: if_splits)

declare strcasecmp_loop.simps [simp del]

definition ft_strcasecmp :: "ptr \<Rightarrow> ptr \<Rightarrow> int" where
  "ft_strcasecmp left right =
     (case (left, right) of (Some s, Some t) \<Rightarrow> strcasecmp_loop s t | _ \<Rightarrow> -1)"

function strncasecmp_loop :: "bytes \<Rightarrow> bytes \<Rightarrow> nat \<Rightarrow> nat \<Rightarrow> int" where
  "strncasecmp_loop s t maximum_length index =
     (if index < maximum_length
      then let left_character = ft_ascii_to_lower (c_at s index);
               right_character = ft_ascii_to_lower (c_at t index)
           in if left_character \<noteq> right_character
              then uint left_character - uint right_character
              else if left_character = 0 then 0
              else strncasecmp_loop s t maximum_length (index + 1)
      else 0)"
  by pat_completeness auto
termination
  by (relation "measure (\<lambda>(s, t, m, i). m - i)") auto

declare strncasecmp_loop.simps [simp del]

definition ft_strncasecmp :: "ptr \<Rightarrow> ptr \<Rightarrow> nat \<Rightarrow> int" where
  "ft_strncasecmp left right maximum_length =
     (if maximum_length = 0 then 0
      else case (left, right) of
             (Some s, Some t) \<Rightarrow> strncasecmp_loop s t maximum_length 0
           | _ \<Rightarrow> -1)"

text \<open>
  The reference order: strings compare lexicographically, byte by byte as unsigned
  characters, and a proper prefix comes first.
\<close>

fun lex_compare :: "bytes \<Rightarrow> bytes \<Rightarrow> int" where
  "lex_compare [] [] = 0"
| "lex_compare [] (y # ys) = - uint y"
| "lex_compare (x # xs) [] = uint x"
| "lex_compare (x # xs) (y # ys) =
     (if x = y then lex_compare xs ys else uint x - uint y)"

lemma uint_pos_iff: "0 < uint (x::u8) \<longleftrightarrow> x \<noteq> 0"
  using uint_ge_0 [of x] by (simp add: less_le) (metis uint_0_iff)

lemma uint_eq_iff_u8: "uint (x::u8) = uint y \<longleftrightarrow> x = y"
  by (rule word_uint_eq_iff [symmetric])

lemma ft_ascii_to_lower_0 [simp]: "ft_ascii_to_lower 0 = 0"
  by (simp add: ft_ascii_to_lower_def)

lemma ft_ascii_to_lower_0_iff [simp]: "ft_ascii_to_lower c = 0 \<longleftrightarrow> c = 0"
proof -
  have "\<forall>c. ft_ascii_to_lower c = 0 \<longleftrightarrow> c = 0"
    unfolding u8_all_iff by code_simp
  then show ?thesis by blast
qed

lemma strcmp_loop_lex: "strcmp_loop s t = lex_compare (cstr s) (cstr t)"
proof (induction s t rule: strcmp_loop.induct)
  case (1 s t)
  then show ?case
    by (subst strcmp_loop.simps, cases s; cases t) auto
qed

lemma lex_compare_eq_0_iff: "0 \<notin> set xs \<Longrightarrow> 0 \<notin> set ys \<Longrightarrow> lex_compare xs ys = 0 \<longleftrightarrow> xs = ys"
  by (induction xs ys rule: lex_compare.induct)
    (auto simp: uint_eq_iff_u8 uint_0_iff)

lemma lex_compare_antisym: "lex_compare ys xs = - lex_compare xs ys"
  by (induction xs ys rule: lex_compare.induct) auto

lemma lex_compare_less_trans:
  assumes "0 \<notin> set xs" "0 \<notin> set ys" "0 \<notin> set zs" "lex_compare xs ys < 0" "lex_compare ys zs < 0"
  shows "lex_compare xs zs < 0"
  using assms
proof (induction xs ys arbitrary: zs rule: lex_compare.induct)
  case (2 y ys)
  then show ?case by (cases zs) (auto simp: uint_pos_iff)
next
  case (4 x xs y ys)
  then show ?case by (cases zs) (auto split: if_splits)
qed auto

lemma strncmp_loop_lex:
  assumes "i \<le> length (cstr s)" "i \<le> length (cstr t)"
  shows "strncmp_loop s t n i =
    lex_compare (take (n - i) (drop i (cstr s))) (take (n - i) (drop i (cstr t)))"
  using assms
proof (induction s t n i rule: strncmp_loop.induct)
  case (1 s t n i)
  have drop_s: "drop i (cstr s) = (if c_at s i = 0 then [] else c_at s i # drop (Suc i) (cstr s))"
    using "1.prems"(1) c_at_neq_0_iff [of i s] c_at_cstr [of i s]
    by (auto simp: Cons_nth_drop_Suc)
  have drop_t: "drop i (cstr t) = (if c_at t i = 0 then [] else c_at t i # drop (Suc i) (cstr t))"
    using "1.prems"(2) c_at_neq_0_iff [of i t] c_at_cstr [of i t]
    by (auto simp: Cons_nth_drop_Suc)
  show ?case
  proof (cases "i < n \<and> c_at s i = c_at t i \<and> c_at s i \<noteq> 0")
    case True
    with "1.prems" have "Suc i \<le> length (cstr s)" "Suc i \<le> length (cstr t)"
      by (metis c_at_neq_0_iff Suc_leI)+
    moreover obtain k where "n - i = Suc k" "n - Suc i = k"
      using True by (metis Suc_diff_Suc)
    ultimately show ?thesis
      using True "1.IH" drop_s drop_t by (subst strncmp_loop.simps) simp
  next
    case False
    then show ?thesis
      by (subst strncmp_loop.simps) (cases "n - i"; auto simp: drop_s drop_t)
  qed
qed

lemma ft_strcmp_spec: "ft_strcmp (Some s) (Some t) = lex_compare (cstr s) (cstr t)"
  by (simp add: ft_strcmp_def strcmp_loop_lex)

lemma ft_strncmp_spec:
  "ft_strncmp (Some s) (Some t) n = lex_compare (take n (cstr s)) (take n (cstr t))"
  by (simp add: ft_strncmp_def strncmp_loop_lex)

lemma strcasecmp_loop_lex:
  "strcasecmp_loop s t = lex_compare (map ft_ascii_to_lower (cstr s)) (map ft_ascii_to_lower (cstr t))"
proof (induction s t rule: strcasecmp_loop.induct)
  case (1 s t)
  then show ?case
    by (subst strcasecmp_loop.simps, cases s; cases t) (auto simp: Let_def)
qed

subsection \<open>Prefixes, suffixes and occurrences\<close>

function starts_with_loop :: "bytes \<Rightarrow> bytes \<Rightarrow> nat \<Rightarrow> bool" where
  "starts_with_loop string pre index =
     (if c_at pre index \<noteq> 0
      then if c_at string index = 0 \<or> c_at string index \<noteq> c_at pre index then False
           else starts_with_loop string pre (index + 1)
      else True)"
  by pat_completeness auto
termination
  by (relation "measure (\<lambda>(s, p, i). length p - i)") (auto simp: c_at_def split: if_splits)

declare starts_with_loop.simps [simp del]

definition ft_str_starts_with :: "ptr \<Rightarrow> ptr \<Rightarrow> bool" where
  "ft_str_starts_with string pre =
     (case (string, pre) of (Some s, Some p) \<Rightarrow> starts_with_loop s p 0 | _ \<Rightarrow> False)"

function ends_with_loop :: "bytes \<Rightarrow> bytes \<Rightarrow> nat \<Rightarrow> nat \<Rightarrow> nat \<Rightarrow> bool" where
  "ends_with_loop string suf string_length suffix_length index =
     (if index < suffix_length
      then if c_at string (string_length - suffix_length + index) \<noteq> c_at suf index then False
           else ends_with_loop string suf string_length suffix_length (index + 1)
      else True)"
  by pat_completeness auto
termination
  by (relation "measure (\<lambda>(s, p, l, m, i). m - i)") auto

declare ends_with_loop.simps [simp del]

definition ft_str_ends_with :: "ptr \<Rightarrow> ptr \<Rightarrow> bool" where
  "ft_str_ends_with string suf =
     (case (string, suf) of
        (Some s, Some p) \<Rightarrow>
          (let string_length = ft_strlen_size_t string; suffix_length = ft_strlen_size_t suf
           in if suffix_length > string_length then False
              else ends_with_loop s p string_length suffix_length 0)
      | _ \<Rightarrow> False)"

text \<open>The inner loop of \<open>ft_str_contains\<close> and \<open>ft_strstr\<close>.\<close>

function str_match :: "bytes \<Rightarrow> nat \<Rightarrow> bytes \<Rightarrow> nat \<Rightarrow> nat" where
  "str_match haystack haystack_index needle needle_index =
     (if c_at needle needle_index \<noteq> 0
         \<and> c_at haystack (haystack_index + needle_index) = c_at needle needle_index
      then str_match haystack haystack_index needle (needle_index + 1)
      else needle_index)"
  by pat_completeness auto
termination
  by (relation "measure (\<lambda>(h, i, nd, j). length nd - j)") (auto simp: c_at_def split: if_splits)

declare str_match.simps [simp del]

function strstr_loop :: "bytes \<Rightarrow> bytes \<Rightarrow> nat \<Rightarrow> nat \<Rightarrow> nat option" where
  "strstr_loop haystack needle needle_length index =
     (if c_at haystack index \<noteq> 0
      then if str_match haystack index needle 0 = needle_length then Some index
           else strstr_loop haystack needle needle_length (index + 1)
      else None)"
  by pat_completeness auto
termination
  by (relation "measure (\<lambda>(h, nd, n, i). length h - i)") (auto simp: c_at_def split: if_splits)

declare strstr_loop.simps [simp del]

text \<open>A returned pointer into the haystack is its offset.\<close>

definition ft_strstr :: "ptr \<Rightarrow> ptr \<Rightarrow> nat option" where
  "ft_strstr haystack needle =
     (case (haystack, needle) of
        (Some h, Some nd) \<Rightarrow>
          (let needle_length = ft_strlen_size_t needle
           in if needle_length = 0 then Some 0 else strstr_loop h nd needle_length 0)
      | _ \<Rightarrow> None)"

definition ft_str_contains :: "ptr \<Rightarrow> ptr \<Rightarrow> bool" where
  "ft_str_contains haystack needle =
     (case (haystack, needle) of
        (Some h, Some nd) \<Rightarrow>
          (let needle_length = ft_strlen_size_t needle
           in if needle_length = 0 then True
              else strstr_loop h nd needle_length 0 \<noteq> None)
      | _ \<Rightarrow> False)"

fun strchr_loop :: "bytes \<Rightarrow> u8 \<Rightarrow> nat \<Rightarrow> nat option" where
  "strchr_loop [] target_char position = (if target_char = 0 then Some position else None)"
| "strchr_loop (c # s) target_char position =
     (if c \<noteq> 0
      then if c = target_char then Some position else strchr_loop s target_char (position + 1)
      else if target_char = 0 then Some position else None)"

definition ft_strchr :: "ptr \<Rightarrow> int \<Rightarrow> nat option" where
  "ft_strchr string char_to_find =
     (case string of None \<Rightarrow> None | Some s \<Rightarrow> strchr_loop s (word_of_int char_to_find) 0)"

fun strrchr_loop :: "bytes \<Rightarrow> u8 \<Rightarrow> nat \<Rightarrow> nat option" where
  "strrchr_loop s target_char index =
     (if c_at s index = target_char then Some index
      else case index of 0 \<Rightarrow> None | Suc i \<Rightarrow> strrchr_loop s target_char i)"

declare strrchr_loop.simps [simp del]

definition ft_strrchr :: "ptr \<Rightarrow> int \<Rightarrow> nat option" where
  "ft_strrchr string char_to_find =
     (case string of
        None \<Rightarrow> None
      | Some s \<Rightarrow> strrchr_loop s (word_of_int char_to_find) (ft_strlen_size_t string))"

lemma drop_cstr_step:
  assumes "i \<le> length (cstr s)"
  shows "drop i (cstr s) = (if c_at s i = 0 then [] else c_at s i # drop (Suc i) (cstr s))"
  using assms c_at_neq_0_iff [of i s] c_at_cstr [of i s] by (auto simp: Cons_nth_drop_Suc)

lemma Suc_le_length_cstr: "i \<le> length (cstr s) \<Longrightarrow> c_at s i \<noteq> 0 \<Longrightarrow> Suc i \<le> length (cstr s)"
  by (simp add: c_at_neq_0_iff Suc_le_eq)

lemma starts_with_loop_iff:
  assumes "i \<le> length (cstr s)" "i \<le> length (cstr p)"
  shows "starts_with_loop s p i \<longleftrightarrow> prefix (drop i (cstr p)) (drop i (cstr s))"
  using assms
proof (induction s p i rule: starts_with_loop.induct)
  case (1 s p i)
  then show ?case
    by (subst starts_with_loop.simps)
      (auto simp: drop_cstr_step [of i s] drop_cstr_step [of i p] Suc_le_length_cstr)
qed

lemma ft_str_starts_with_iff: "ft_str_starts_with (Some s) (Some p) \<longleftrightarrow> prefix (cstr p) (cstr s)"
  by (simp add: ft_str_starts_with_def starts_with_loop_iff)

lemma ends_with_loop_iff:
  "ends_with_loop s p l m i \<longleftrightarrow> (\<forall>j. i \<le> j \<and> j < m \<longrightarrow> c_at s (l - m + j) = c_at p j)"
proof (induction s p l m i rule: ends_with_loop.induct)
  case (1 s p l m i)
  then show ?case
    by (subst ends_with_loop.simps, subst all_range_step) auto
qed

lemma ft_str_ends_with_iff: "ft_str_ends_with (Some s) (Some p) \<longleftrightarrow> suffix (cstr p) (cstr s)"
proof -
  let ?l = "length (cstr s)" and ?m = "length (cstr p)"
  have "suffix (cstr p) (cstr s) \<longleftrightarrow> ?m \<le> ?l \<and> drop (?l - ?m) (cstr s) = cstr p"
    by (auto simp: suffix_def) (metis append_take_drop_id)
  also have "\<dots> \<longleftrightarrow> ?m \<le> ?l \<and> (\<forall>j<?m. c_at s (?l - ?m + j) = c_at p j)"
    by (auto simp: list_eq_iff_nth_eq c_at_cstr)
  finally show ?thesis
    by (auto simp: ft_str_ends_with_def ends_with_loop_iff Let_def)
qed

lemma str_match_full_iff:
  assumes "i + j \<le> length (cstr h)" "j \<le> length (cstr nd)"
  shows "str_match h i nd j = length (cstr nd) \<longleftrightarrow> prefix (drop j (cstr nd)) (drop (i + j) (cstr h))"
  using assms
proof (induction h i nd j rule: str_match.induct)
  case (1 h i nd j)
  show ?case
  proof (cases "c_at nd j \<noteq> 0 \<and> c_at h (i + j) = c_at nd j")
    case True
    with "1.prems" have "i + (j + 1) \<le> length (cstr h)" "j + 1 \<le> length (cstr nd)"
      using Suc_le_length_cstr [of "i + j" h] Suc_le_length_cstr [of j nd] by auto
    with True "1.IH" "1.prems" show ?thesis
      by (subst str_match.simps)
        (simp add: drop_cstr_step [of j nd] drop_cstr_step [of "i + j" h])
  next
    case False
    with "1.prems" show ?thesis
      by (subst str_match.simps)
        (use c_at_neq_0_iff [of j nd] in
          \<open>auto simp: drop_cstr_step [of j nd] drop_cstr_step [of "i + j" h]\<close>)
  qed
qed

lemma strstr_loop_first_index:
  assumes "i \<le> length (cstr h)"
  shows "strstr_loop h nd (length (cstr nd)) i =
    first_index (\<lambda>i. prefix (cstr nd) (drop i (cstr h))) (length (cstr h)) i"
  using assms
proof (induction h nd "length (cstr nd)" i rule: strstr_loop.induct)
  case (1 h nd i)
  then show ?case
    using str_match_full_iff [of i 0 h nd] c_at_neq_0_iff [of i h]
    by (subst strstr_loop.simps, subst first_index.simps) (auto simp: Suc_le_eq)
qed

lemma ft_strstr_Some_iff:
  assumes "cstr nd \<noteq> []"
  shows "ft_strstr (Some h) (Some nd) = Some i \<longleftrightarrow>
    i < length (cstr h) \<and> prefix (cstr nd) (drop i (cstr h))
      \<and> (\<forall>j<i. \<not> prefix (cstr nd) (drop j (cstr h)))"
  using assms by (simp add: ft_strstr_def strstr_loop_first_index first_index_Some_iff)

lemma ft_str_contains_iff: "ft_str_contains (Some h) (Some nd) \<longleftrightarrow> sublist (cstr nd) (cstr h)"
proof (cases "cstr nd = []")
  case True
  then show ?thesis by (simp add: ft_str_contains_def)
next
  case False
  then have "ft_str_contains (Some h) (Some nd) \<longleftrightarrow>
    (\<exists>i<length (cstr h). prefix (cstr nd) (drop i (cstr h)))"
    by (auto simp: ft_str_contains_def strstr_loop_first_index first_index_None_iff)
  also have "\<dots> \<longleftrightarrow> sublist (cstr nd) (cstr h)"
  proof
    assume "\<exists>i<length (cstr h). prefix (cstr nd) (drop i (cstr h))"
    then show "sublist (cstr nd) (cstr h)"
      by (meson prefix_imp_sublist sublist_drop sublist_order.order_trans)
  next
    assume "sublist (cstr nd) (cstr h)"
    then obtain ps ss where h: "cstr h = ps @ cstr nd @ ss" by (auto simp: sublist_def)
    with False have "length ps < length (cstr h)" "prefix (cstr nd) (drop (length ps) (cstr h))"
      by simp_all
    then show "\<exists>i<length (cstr h). prefix (cstr nd) (drop i (cstr h))" by blast
  qed
  finally show ?thesis .
qed

lemma strchr_loop_shift: "strchr_loop s c n = map_option ((+) n) (strchr_loop s c 0)"
proof (induction s arbitrary: n c)
  case (Cons x s)
  show ?case
    by (simp add: Cons.IH [of _ "Suc n"] Cons.IH [of _ "Suc 0"] option.map_comp comp_def)
qed simp

text \<open>\<open>ft_strchr\<close> finds the first occurrence; searching for \<open>'\0'\<close> finds the terminator.\<close>

lemma strchr_loop_Some_iff:
  "strchr_loop s c 0 = Some i \<longleftrightarrow>
     (if c = 0 then i = length (cstr s)
      else i < length (cstr s) \<and> cstr s ! i = c \<and> c \<notin> set (take i (cstr s)))"
proof (induction s arbitrary: i c)
  case (Cons x s)
  show ?case
    by (cases i) (auto simp: strchr_loop_shift [of s _ "Suc 0"] Cons.IH)
qed auto

subsection \<open>Copying and appending\<close>

text \<open>The copy loop of all the copying functions: one byte of \<open>source\<close> per step.\<close>

function copy_str :: "bytes \<Rightarrow> nat \<Rightarrow> bytes \<Rightarrow> nat \<Rightarrow> nat \<Rightarrow> bytes" where
  "copy_str destination offset source copy_length index =
     (if index < copy_length
      then copy_str (destination[offset + index := c_at source index]) offset source
             copy_length (index + 1)
      else destination)"
  by pat_completeness auto
termination
  by (relation "measure (\<lambda>(d, off, s, n, i). n - i)") auto

declare copy_str.simps [simp del]

definition ft_strlcpy :: "ptr \<Rightarrow> ptr \<Rightarrow> nat \<Rightarrow> nat \<times> ptr" where
  "ft_strlcpy destination source buffer_size =
     (case source of
        None \<Rightarrow> (0, destination)
      | Some src \<Rightarrow>
          (let source_length = ft_strlen_size_t source
           in case destination of
                None \<Rightarrow> (if buffer_size > 0 then (0, None) else (source_length, None))
              | Some dst \<Rightarrow>
                  if buffer_size > 0
                  then let copy_length = (if source_length \<ge> buffer_size then buffer_size - 1
                                          else source_length);
                           dst' = copy_str dst 0 src copy_length 0
                       in (source_length, Some (dst'[copy_length := 0]))
                  else (source_length, destination)))"

text \<open>
  The copy loop of \<open>ft_strlcat\<close> and of \<open>ft_strncpy\<close> also stops at the source's terminator;
  the number of bytes it copies is the bounded length of the source.
\<close>

definition ft_strlcat :: "ptr \<Rightarrow> ptr \<Rightarrow> nat \<Rightarrow> nat \<times> ptr" where
  "ft_strlcat destination source buffer_size =
     (case source of
        None \<Rightarrow> (0, destination)
      | Some src \<Rightarrow>
          (let source_length = ft_strlen_size_t source
           in if buffer_size = 0 then (source_length, destination)
              else case destination of
                     None \<Rightarrow> (0, None)
                   | Some dst \<Rightarrow>
                       (let destination_length = strnlen_loop dst buffer_size 0
                        in if destination_length = buffer_size
                           then (buffer_size + source_length, destination)
                           else let available_space = buffer_size - destination_length - 1;
                                    copy_index = strnlen_loop src available_space 0;
                                    dst' = copy_str dst destination_length src copy_index 0;
                                    dst'' = (if destination_length + copy_index < buffer_size
                                             then dst'[destination_length + copy_index := 0]
                                             else dst')
                                in (destination_length + source_length, Some dst''))))"

definition ft_strncpy :: "ptr \<Rightarrow> ptr \<Rightarrow> nat \<Rightarrow> bool \<times> ptr" where
  "ft_strncpy destination source number_of_characters =
     (if number_of_characters = 0 then (destination \<noteq> None, destination)
      else case (destination, source) of
             (Some dst, Some src) \<Rightarrow>
               (let index = strnlen_loop src number_of_characters 0;
                    dst' = copy_str dst 0 src index 0
                in (True, Some (memset_loop dst' 0 0 number_of_characters index)))
           | _ \<Rightarrow> (False, destination))"

lemma copy_str_write_block:
  assumes "i \<le> n" "n \<le> length (cstr src)" "off + n \<le> length dst"
  shows "copy_str (write_block dst off (take i (cstr src))) off src n i
           = write_block dst off (take n (cstr src))"
  using assms(1)
proof (induction "n - i" arbitrary: i)
  case 0
  then show ?case by (simp add: copy_str.simps)
next
  case (Suc k)
  then have i: "i < n" by simp
  have "(write_block dst off (take i (cstr src)))[off + i := c_at src i]
      = write_block dst off (take (Suc i) (cstr src))"
    using write_block_step [of off "take i (cstr src)" dst "c_at src i"] assms i
    by (simp add: c_at_cstr take_Suc_conv_app_nth)
  with Suc.hyps(1) [of "Suc i"] Suc.hyps(2) i show ?case
    by (subst copy_str.simps) simp
qed

lemma copy_str_spec:
  "n \<le> length (cstr src) \<Longrightarrow> off + n \<le> length dst \<Longrightarrow>
     copy_str dst off src n 0 = write_block dst off (take n (cstr src))"
  using copy_str_write_block [of 0 n src off dst] by simp

lemma write_block_zero:
  assumes "off + length xs < length m"
  shows "(write_block m off xs)[off + length xs := 0] = write_block m off (xs @ [0])"
  using assms by (rule write_block_step)

text \<open>
  \<open>ft_strlcpy\<close> with a buffer that really has \<open>buffer_size\<close> bytes: it writes inside the
  buffer only, always terminates it, truncates exactly when the source does not fit, and
  returns the length it tried to copy.
\<close>

lemma ft_strlcpy_spec:
  assumes "0 < n" "n \<le> length dst"
  shows "ft_strlcpy (Some dst) (Some src) n =
    (length (cstr src), Some (write_block dst 0 (take (n - 1) (cstr src) @ [0])))"
proof -
  define l where "l = (if length (cstr src) \<ge> n then n - 1 else length (cstr src))"
  have l: "l \<le> length (cstr src)" "l < length dst" using assms by (auto simp: l_def)
  have take: "take l (cstr src) = take (n - 1) (cstr src)" by (auto simp: l_def)
  have "(copy_str dst 0 src l 0)[l := 0] = write_block dst 0 (take l (cstr src) @ [0])"
    using copy_str_spec [of l src 0 dst] write_block_zero [of 0 "take l (cstr src)" dst] l by simp
  then show ?thesis
    using assms by (simp add: ft_strlcpy_def Let_def take flip: l_def)
qed

lemma cstr_append_zero: "0 \<notin> set xs \<Longrightarrow> cstr (xs @ 0 # ys) = xs"
  by (induction xs) auto

lemma ft_strlcat_spec:
  assumes "n \<le> length dst" "length (cstr dst) < n"
  shows "ft_strlcat (Some dst) (Some src) n =
    (length (cstr dst) + length (cstr src),
     Some (write_block dst (length (cstr dst))
             (take (n - length (cstr dst) - 1) (cstr src) @ [0])))"
proof -
  let ?d = "length (cstr dst)"
  define a where "a = n - Suc ?d"
  define l where "l = min a (length (cstr src))"
  have l: "l \<le> length (cstr src)" "?d + l < n" using assms by (auto simp: l_def a_def)
  have take: "take l (cstr src) = take a (cstr src)" by (simp add: l_def min_def)
  have dlen: "strnlen_loop dst n 0 = ?d" using assms by (simp add: strnlen_loop_eq)
  have slen: "strnlen_loop src a 0 = l" by (simp add: strnlen_loop_eq l_def)
  have "(copy_str dst ?d src l 0)[?d + l := 0] = write_block dst ?d (take l (cstr src) @ [0])"
    using copy_str_spec [of l src ?d dst] write_block_zero [of ?d "take l (cstr src)" dst] l assms
    by simp
  then show ?thesis
    using assms l
    by (simp add: ft_strlcat_def Let_def dlen slen take flip: a_def)
qed

lemma cstr_write_block_append:
  assumes "0 \<notin> set xs" "length (cstr dst) + length xs < length dst"
  shows "cstr (write_block dst (length (cstr dst)) (xs @ [0])) = cstr dst @ xs"
proof -
  have "take (length (cstr dst)) dst = cstr dst"
    by (simp add: cstr_def takeWhile_eq_take [symmetric])
  then show ?thesis
    using cstr_append_zero [of "cstr dst @ xs"] assms by (simp add: write_block_def)
qed

lemma cstr_write_block_0:
  "0 \<notin> set xs \<Longrightarrow> cstr (write_block dst 0 (xs @ [0])) = xs"
  using cstr_append_zero [of xs] by (simp add: write_block_def)

text \<open>The bounds-checked copies zero the whole destination when they refuse.\<close>

definition zero_string :: "ptr \<Rightarrow> nat \<Rightarrow> ptr" where
  "zero_string buffer buffer_size =
     (case buffer of
        None \<Rightarrow> None
      | Some b \<Rightarrow> if buffer_size = 0 then buffer else Some (memset_loop b 0 0 buffer_size 0))"

definition ft_strcpy_s :: "ptr \<Rightarrow> nat \<Rightarrow> ptr \<Rightarrow> ft_err \<times> ptr" where
  "ft_strcpy_s destination destination_size source =
     (case (destination, source) of
        (Some dst, Some src) \<Rightarrow>
          (if destination_size = 0 then (FT_ERR_INVALID_ARGUMENT, destination)
           else let source_length = ft_strlen_size_t source
                in if source_length + 1 > destination_size
                   then (FT_ERR_INVALID_ARGUMENT, zero_string destination destination_size)
                   else (FT_ERR_SUCCESS,
                         Some ((copy_str dst 0 src source_length 0)[source_length := 0])))
      | _ \<Rightarrow> (FT_ERR_INVALID_POINTER, zero_string destination destination_size))"

definition ft_strncpy_s :: "ptr \<Rightarrow> nat \<Rightarrow> ptr \<Rightarrow> nat \<Rightarrow> ft_err \<times> ptr" where
  "ft_strncpy_s destination destination_size source maximum_copy_length =
     (case (destination, source) of
        (Some dst, Some src) \<Rightarrow>
          (if destination_size = 0 then (FT_ERR_INVALID_ARGUMENT, destination)
           else let source_length = ft_strlen_size_t source
                in if source_length > maximum_copy_length
                   then (FT_ERR_INVALID_ARGUMENT, zero_string destination destination_size)
                   else if source_length + 1 > destination_size
                   then (FT_ERR_INVALID_ARGUMENT, zero_string destination destination_size)
                   else (FT_ERR_SUCCESS,
                         Some ((copy_str dst 0 src source_length 0)[source_length := 0])))
      | _ \<Rightarrow> (FT_ERR_INVALID_POINTER, zero_string destination destination_size))"

definition ft_strcat_s :: "ptr \<Rightarrow> nat \<Rightarrow> ptr \<Rightarrow> ft_err \<times> ptr" where
  "ft_strcat_s destination destination_size source =
     (case (destination, source) of
        (Some dst, Some src) \<Rightarrow>
          (if destination_size = 0 then (FT_ERR_INVALID_ARGUMENT, destination)
           else let destination_length = ft_strlen_size_t destination;
                    source_length = ft_strlen_size_t source
                in if destination_length + source_length + 1 > destination_size
                   then (FT_ERR_INVALID_ARGUMENT, zero_string destination destination_size)
                   else (FT_ERR_SUCCESS,
                         Some ((copy_str dst destination_length src source_length 0)
                                 [destination_length + source_length := 0])))
      | _ \<Rightarrow> (FT_ERR_INVALID_POINTER, zero_string destination destination_size))"

definition ft_strncat_s :: "ptr \<Rightarrow> nat \<Rightarrow> ptr \<Rightarrow> nat \<Rightarrow> ft_err \<times> ptr" where
  "ft_strncat_s destination destination_size source maximum_append_length =
     (case (destination, source) of
        (Some dst, Some src) \<Rightarrow>
          (if destination_size = 0 then (FT_ERR_INVALID_ARGUMENT, destination)
           else let destination_length = ft_strlen_size_t destination;
                    source_length = ft_strlen_size_t source
                in if destination_length \<ge> destination_size
                   then (FT_ERR_INVALID_ARGUMENT, destination)
                   else if source_length > maximum_append_length
                   then (FT_ERR_INVALID_ARGUMENT, zero_string destination destination_size)
                   else if destination_length + source_length + 1 > destination_size
                   then (FT_ERR_INVALID_ARGUMENT, zero_string destination destination_size)
                   else (FT_ERR_SUCCESS,
                         Some ((copy_str dst destination_length src source_length 0)
                                 [destination_length + source_length := 0])))
      | _ \<Rightarrow> (FT_ERR_INVALID_POINTER, zero_string destination destination_size))"

lemma zero_string_spec:
  "n \<le> length b \<Longrightarrow> zero_string (Some b) n = Some (write_block b 0 (replicate n 0))"
  using memset_loop_write_block [of 0 n 0 b 0] by (simp add: zero_string_def)

lemma copy_str_terminated:
  assumes "off + length (cstr src) < length dst"
  shows "(copy_str dst off src (length (cstr src)) 0)[off + length (cstr src) := 0]
           = write_block dst off (cstr src @ [0])"
  using assms copy_str_spec [of "length (cstr src)" src off dst]
    write_block_zero [of off "cstr src" dst] by simp

lemma ft_strcpy_s_spec:
  assumes "0 < n" "n \<le> length dst"
  shows "ft_strcpy_s (Some dst) n (Some src) =
    (if length (cstr src) < n then (FT_ERR_SUCCESS, Some (write_block dst 0 (cstr src @ [0])))
     else (FT_ERR_INVALID_ARGUMENT, Some (write_block dst 0 (replicate n 0))))"
  using assms copy_str_terminated [of 0 src dst]
  by (auto simp: ft_strcpy_s_def Let_def zero_string_spec)

lemma ft_strcat_s_spec:
  assumes "0 < n" "n \<le> length dst"
  shows "ft_strcat_s (Some dst) n (Some src) =
    (if length (cstr dst) + length (cstr src) < n
     then (FT_ERR_SUCCESS, Some (write_block dst (length (cstr dst)) (cstr src @ [0])))
     else (FT_ERR_INVALID_ARGUMENT, Some (write_block dst 0 (replicate n 0))))"
  using assms copy_str_terminated [of "length (cstr dst)" src dst]
  by (auto simp: ft_strcat_s_def Let_def zero_string_spec)

subsection \<open>In-place edits\<close>

abbreviation space_char :: "u8 \<Rightarrow> bool" where
  "space_char c \<equiv> ft_isspace (uint c) \<noteq> 0"

function skip_spaces :: "bytes \<Rightarrow> nat \<Rightarrow> nat" where
  "skip_spaces s source_index =
     (if c_at s source_index \<noteq> 0 \<and> space_char (c_at s source_index)
      then skip_spaces s (source_index + 1) else source_index)"
  by pat_completeness auto
termination
  by (relation "measure (\<lambda>(s, i). length s - i)") (auto simp: c_at_def split: if_splits)

function shift_left :: "bytes \<Rightarrow> nat \<Rightarrow> nat \<Rightarrow> bytes" where
  "shift_left s source_index destination_index =
     (if c_at s source_index \<noteq> 0
      then shift_left (s[destination_index := c_at s source_index])
             (source_index + 1) (destination_index + 1)
      else s[destination_index := 0])"
  by pat_completeness auto
termination
  by (relation "measure (\<lambda>(s, i, j). length s - i)") (auto simp: c_at_def split: if_splits)

declare skip_spaces.simps [simp del] shift_left.simps [simp del]

definition ft_strtrim_left_in_place :: "ptr \<Rightarrow> ptr" where
  "ft_strtrim_left_in_place string =
     (case string of
        None \<Rightarrow> None
      | Some s \<Rightarrow> (let source_index = skip_spaces s 0
                  in if source_index = 0 then Some s else Some (shift_left s source_index 0)))"

fun trim_length :: "bytes \<Rightarrow> nat \<Rightarrow> nat" where
  "trim_length s 0 = 0"
| "trim_length s (Suc n) = (if space_char (c_at s n) then trim_length s n else Suc n)"

definition ft_strtrim_right_in_place :: "ptr \<Rightarrow> ptr" where
  "ft_strtrim_right_in_place string =
     (case string of
        None \<Rightarrow> None
      | Some s \<Rightarrow> Some (s[trim_length s (ft_strlen_size_t string) := 0]))"

definition ft_strtrim_in_place :: "ptr \<Rightarrow> ptr" where
  "ft_strtrim_in_place string =
     (case string of
        None \<Rightarrow> None
      | Some s \<Rightarrow> ft_strtrim_right_in_place (ft_strtrim_left_in_place string))"

fun ft_to_lower :: "bytes \<Rightarrow> bytes" where
  "ft_to_lower [] = []"
| "ft_to_lower (c # s) =
     (if c \<noteq> 0 then (if 0x41 \<le> c \<and> c \<le> 0x5A then c + 32 else c) # ft_to_lower s else c # s)"

fun ft_to_upper :: "bytes \<Rightarrow> bytes" where
  "ft_to_upper [] = []"
| "ft_to_upper (c # s) =
     (if c \<noteq> 0 then (if 0x61 \<le> c \<and> c \<le> 0x7A then c - 32 else c) # ft_to_upper s else c # s)"

lemma skip_spaces_spec:
  "i \<le> length (cstr s) \<Longrightarrow>
     skip_spaces s i = i + length (takeWhile space_char (drop i (cstr s)))"
proof (induction s i rule: skip_spaces.induct)
  case (1 s i)
  then show ?case
    by (subst skip_spaces.simps) (auto simp: drop_cstr_step [of i s] Suc_le_length_cstr)
qed

lemma c_at_update_other: "i \<noteq> j \<Longrightarrow> c_at (s[j := x]) i = c_at s i"
  by (auto simp: c_at_def)

lemma drop_update_other: "j < i \<Longrightarrow> drop i (s[j := x]) = drop i s"
  by (simp add: drop_update_cancel)

lemma cstr_drop: "i \<le> length (cstr s) \<Longrightarrow> cstr (drop i s) = drop i (cstr s)"
proof (induction s arbitrary: i)
  case (Cons x s)
  then show ?case by (cases i) (auto split: if_splits)
qed simp

text \<open>
  The moving loop: what is left of the string from \<open>i\<close> on is copied to \<open>j\<close>.
\<close>

lemma shift_left_spec:
  assumes "j < i" "j < length s" "c_at s i = 0 \<or> i < length s"
  shows "shift_left s i j = write_block s j (cstr (drop i s) @ [0])"
  using assms
proof (induction s i j rule: shift_left.induct)
  case (1 s i j)
  show ?case
  proof (cases "c_at s i \<noteq> 0")
    case True
    then have i: "i < length s" by (auto simp: c_at_def split: if_splits)
    let ?s = "s[j := c_at s i]"
    have d: "drop i s = c_at s i # drop (Suc i) s" using i by (simp add: c_at_def Cons_nth_drop_Suc)
    have lim: "c_at ?s (i + 1) = 0 \<or> i + 1 < length ?s" by (auto simp: c_at_def)
    have "shift_left s i j = shift_left ?s (i + 1) (j + 1)"
      using True by (subst shift_left.simps) simp
    also have "\<dots> = write_block ?s (j + 1) (cstr (drop (i + 1) ?s) @ [0])"
      using True "1.prems" i lim by (intro "1.IH") auto
    also have "\<dots> = write_block s j (c_at s i # cstr (drop (Suc i) s) @ [0])"
      using "1.prems" by (simp add: write_block_def drop_update_other take_Suc_conv_app_nth
          take_update_cancel nth_list_update_eq)
    finally show ?thesis using True by (simp add: d)
  next
    case False
    then have "cstr (drop i s) = []"
      by (cases "drop i s") (auto simp: c_at_def drop_eq_Nil hd_drop_conv_nth dest!: arg_cong [of _ _ hd] split: if_splits)
    with False "1.prems" show ?thesis
      using write_block_step [of j "[]" s 0] by (subst shift_left.simps) simp
  qed
qed

lemma cstr_trim_left:
  "\<exists>s'. ft_strtrim_left_in_place (Some s) = Some s' \<and> cstr s' = dropWhile space_char (cstr s)
     \<and> length s' = length s"
proof (cases "skip_spaces s 0 = 0")
  case True
  then have "takeWhile space_char (cstr s) = []" by (simp add: skip_spaces_spec)
  then have "dropWhile space_char (cstr s) = cstr s" by (metis takeWhile_dropWhile_id append_Nil)
  with True show ?thesis by (simp add: ft_strtrim_left_in_place_def)
next
  case False
  define k where "k = skip_spaces s 0"
  have k: "k = length (takeWhile space_char (cstr s))" by (simp add: k_def skip_spaces_spec)
  then have le: "k \<le> length (cstr s)" by (simp add: length_takeWhile_le)
  with length_cstr_le [of s] have len: "k \<le> length s" by simp
  have lim: "c_at s k = 0 \<or> k < length s" by (auto simp: c_at_def)
  define t where "t = cstr (drop k s)"
  have "shift_left s k 0 = write_block s 0 (t @ [0])"
    unfolding t_def using False lim len by (intro shift_left_spec) (auto simp: k_def)
  then have res: "ft_strtrim_left_in_place (Some s) = Some (write_block s 0 (t @ [0]))"
    using False by (simp add: ft_strtrim_left_in_place_def Let_def flip: k_def)
  have t: "t = dropWhile space_char (cstr s)"
    unfolding t_def using le k by (simp add: cstr_drop dropWhile_eq_drop)
  have "length t < length s"
    using length_cstr_le [of "drop k s"] False len by (simp add: k_def t_def)
  moreover have "0 \<notin> set t" by (simp add: t_def)
  ultimately show ?thesis
    using res t by (intro exI [of _ "write_block s 0 (t @ [0])"]) (simp add: cstr_write_block_0)
qed

lemma trim_length_spec:
  "n \<le> length (cstr s) \<Longrightarrow> trim_length s n \<le> n \<and>
     take (trim_length s n) (cstr s) = rev (dropWhile space_char (rev (take n (cstr s))))"
  by (induction n) (auto simp: take_Suc_conv_app_nth c_at_cstr)

lemma cstr_update_zero: "t \<le> length (cstr s) \<Longrightarrow> cstr (s[t := 0]) = take t (cstr s)"
proof (induction s arbitrary: t)
  case (Cons x s)
  then show ?case by (cases t) (auto split: if_splits)
qed simp

lemma cstr_trim_right:
  "\<exists>s'. ft_strtrim_right_in_place (Some s) = Some s'
     \<and> cstr s' = rev (dropWhile space_char (rev (cstr s)))"
  using trim_length_spec [of "length (cstr s)" s]
  by (simp add: ft_strtrim_right_in_place_def cstr_update_zero)

lemma cstr_ft_to_lower: "cstr (ft_to_lower s) = map ft_ascii_to_lower (cstr s)"
proof (induction s)
  case (Cons c s)
  have "(if 0x41 \<le> c \<and> c \<le> 0x5A then c + 32 else c) = ft_ascii_to_lower c"
    by (simp add: ft_ascii_to_lower_def)
  with Cons show ?case by simp
qed simp

lemma length_ft_to_lower [simp]: "length (ft_to_lower s) = length s"
  by (induction s) auto

subsection \<open>Main properties\<close>

text \<open>
  \<open>ft_strlcat\<close> on a destination of \<open>n\<close> bytes that holds a string: it returns the
  length the full concatenation would have, the result is the longest prefix of the
  concatenation that leaves room for the terminator, it is terminated, and the buffer
  keeps its size.
\<close>

theorem strlcat_truncates:
  assumes "n \<le> length dst" "length (cstr dst) < n"
  shows "\<exists>dst'. ft_strlcat (Some dst) (Some src) n = (length (cstr dst @ cstr src), Some dst')
    \<and> length dst' = length dst \<and> cstr dst' = take (n - 1) (cstr dst @ cstr src)
    \<and> drop n dst' = drop n dst"
proof -
  let ?d = "length (cstr dst)" and ?t = "take (n - length (cstr dst) - 1) (cstr src)"
  have pre: "take ?d dst = cstr dst" unfolding cstr_def by (metis takeWhile_eq_take)
  have zero: "0 \<notin> set (cstr dst @ ?t)"
    by (auto dest: in_set_takeD)
  have "cstr (write_block dst ?d (?t @ [0])) = cstr dst @ ?t"
    using cstr_append_zero [OF zero] pre by (simp add: write_block_def)
  also have "\<dots> = take (n - 1) (cstr dst @ cstr src)" using assms(2) by simp
  finally have cs: "cstr (write_block dst ?d (?t @ [0])) = take (n - 1) (cstr dst @ cstr src)" .
  have fits: "?d + length (?t @ [0]) \<le> n" using assms(2) by auto
  then have "drop n (write_block dst ?d (?t @ [0])) = drop n dst"
    using assms by (intro nth_equalityI) (auto simp: nth_write_block)
  moreover have "length (write_block dst ?d (?t @ [0])) = length dst"
    using fits assms(1) by (intro length_write_block) linarith
  ultimately show ?thesis using cs by (simp add: ft_strlcat_spec [OF assms])
qed

theorem strlcat_truncates_witness:
  "\<exists>dst'. ft_strlcat (Some [65, 0, 0, 0]) (Some [66, 67, 68, 0]) 4
      = (length (cstr [65, 0, 0, 0] @ cstr [66, 67, 68, 0]), Some dst')
    \<and> length dst' = length [65, 0, 0, 0 :: u8]
    \<and> cstr dst' = take (4 - 1) (cstr [65, 0, 0, 0] @ cstr [66, 67, 68, 0])
    \<and> drop 4 dst' = drop 4 [65, 0, 0, 0]"
  by (rule strlcat_truncates) (simp_all add: cstr_def)

text \<open>
  \<open>ft_strstr\<close> with a non-empty needle returns the first index at which the needle
  string is a prefix of the rest of the haystack string, and null exactly when the needle is
  not a substring.
\<close>

theorem strstr_finds_first:
  assumes "cstr nd \<noteq> []"
  shows "(ft_strstr (Some h) (Some nd) = Some i \<longleftrightarrow>
      i < length (cstr h) \<and> prefix (cstr nd) (drop i (cstr h))
      \<and> (\<forall>j<i. \<not> prefix (cstr nd) (drop j (cstr h))))
    \<and> (ft_strstr (Some h) (Some nd) = None \<longleftrightarrow> \<not> sublist (cstr nd) (cstr h))"
proof -
  have "ft_str_contains (Some h) (Some nd) \<longleftrightarrow> ft_strstr (Some h) (Some nd) \<noteq> None"
    using assms by (simp add: ft_str_contains_def ft_strstr_def)
  then show ?thesis using ft_strstr_Some_iff [OF assms] ft_str_contains_iff by blast
qed

theorem strstr_finds_first_witness:
  "(ft_strstr (Some [65, 66, 67, 0]) (Some [66, 67, 0]) = Some 1 \<longleftrightarrow>
      1 < length (cstr [65, 66, 67, 0]) \<and> prefix (cstr [66, 67, 0]) (drop 1 (cstr [65, 66, 67, 0]))
      \<and> (\<forall>j<1. \<not> prefix (cstr [66, 67, 0]) (drop j (cstr [65, 66, 67, 0]))))
    \<and> (ft_strstr (Some [65, 66, 67, 0]) (Some [66, 67, 0]) = None
      \<longleftrightarrow> \<not> sublist (cstr [66, 67, 0]) (cstr [65, 66, 67, 0]))"
  by (rule strstr_finds_first) (simp add: cstr_def)

end
