(* ===== verification/Basic_Parse.thy ===== *)
theory Basic_Parse
  imports Basic_String
begin

text \<open>
  The number parsers of \<^verbatim>\<open>src/Modules/Basic\<close>: \<^verbatim>\<open>basic_atoi.cpp\<close>, \<^verbatim>\<open>basic_atol.cpp\<close>,
  \<^verbatim>\<open>basic_strtol.cpp\<close>, \<^verbatim>\<open>basic_strtoul.cpp\<close>, \<^verbatim>\<open>basic_parse_fixed.cpp\<close> and
  \<^verbatim>\<open>basic_validate_int.cpp\<close>. A cursor is an index into the string. Signed arithmetic that
  leaves its type is undefined in C++ and is the value \<^term>\<open>None\<close> of the model. A result
  that the code stores through an optional end pointer is the second component of the
  model's result, as an index into the string.
\<close>

subsection \<open>Shared loops\<close>

definition in_signed :: "nat \<Rightarrow> int \<Rightarrow> bool" where
  "in_signed w x \<longleftrightarrow> - (2 ^ (w - 1)) \<le> x \<and> x < 2 ^ (w - 1)"

definition signed_result :: "nat \<Rightarrow> int \<Rightarrow> int option" where
  "signed_result w x = (if in_signed w x then Some x else None)"

definition ws_char :: "u8 \<Rightarrow> bool" where
  "ws_char c \<longleftrightarrow> c = 0x20 \<or> (0x09 \<le> c \<and> c \<le> 0x0D)"

definition dec_char :: "u8 \<Rightarrow> bool" where
  "dec_char c \<longleftrightarrow> 0x30 \<le> c \<and> c \<le> 0x39"

function skip_ws :: "bytes \<Rightarrow> nat \<Rightarrow> nat" where
  "skip_ws s i = (if ws_char (c_at s i) then skip_ws s (i + 1) else i)"
  by pat_completeness auto
termination
  by (relation "measure (\<lambda>(s, i). length s - i)") (auto simp: c_at_def ws_char_def split: if_splits)

function skip_isspace :: "bytes \<Rightarrow> nat \<Rightarrow> nat" where
  "skip_isspace s i = (if ft_isspace (uint (c_at s i)) \<noteq> 0 then skip_isspace s (i + 1) else i)"
  by pat_completeness auto
termination
  by (relation "measure (\<lambda>(s, i). length s - i)")
    (auto simp: c_at_def ft_isspace_def split: if_splits)

text \<open>The optional sign: the sign and the index after it.\<close>

definition parse_sign :: "bytes \<Rightarrow> nat \<Rightarrow> int \<times> nat" where
  "parse_sign s i =
     (if c_at s i = 0x2B \<or> c_at s i = 0x2D
      then (if c_at s i = 0x2D then -1 else 1, i + 1)
      else (1, i))"

declare skip_ws.simps [simp del] skip_isspace.simps [simp del]

subsection \<open>ft\_atoi and ft\_atol\<close>

function ato_loop :: "nat \<Rightarrow> bytes \<Rightarrow> nat \<Rightarrow> int \<Rightarrow> int option" where
  "ato_loop w s i value =
     (if dec_char (c_at s i)
      then (let digit = uint (c_at s i) - 0x30
            in case signed_result w (value * 10) of
                 None \<Rightarrow> None
               | Some m \<Rightarrow> (case signed_result w (m + digit) of
                   None \<Rightarrow> None
                 | Some v \<Rightarrow> ato_loop w s (i + 1) v))
      else Some value)"
  by pat_completeness auto
termination
  by (relation "measure (\<lambda>(w, s, i, v). length s - i)")
    (auto simp: c_at_def dec_char_def split: if_splits)

declare ato_loop.simps [simp del]

definition ft_atoi :: "ptr \<Rightarrow> int option" where
  "ft_atoi string =
     (case string of
        None \<Rightarrow> Some 0
      | Some s \<Rightarrow>
         (let (sign, cursor) = parse_sign s (skip_ws s 0)
          in if \<not> dec_char (c_at s cursor) then Some 0
             else (case ato_loop 32 s cursor 0 of
                     None \<Rightarrow> None
                   | Some value \<Rightarrow> if sign = -1 then signed_result 32 (- value) else Some value)))"

definition ft_atol :: "ptr \<Rightarrow> int option" where
  "ft_atol string =
     (case string of
        None \<Rightarrow> Some 0
      | Some s \<Rightarrow>
         (let (sign, cursor) = parse_sign s (skip_ws s 0)
          in if \<not> dec_char (c_at s cursor) then Some 0
             else (case ato_loop 64 s cursor 0 of
                     None \<Rightarrow> None
                   | Some value \<Rightarrow> if sign = -1 then signed_result 64 (- value) else Some value)))"

subsection \<open>ft\_strtol and ft\_strtoul\<close>

definition ft_digit_value :: "u8 \<Rightarrow> int" where
  "ft_digit_value c =
     (if 0x30 \<le> c \<and> c \<le> 0x39 then uint c - 0x30
      else if 0x61 \<le> c \<and> c \<le> 0x7A then uint c - 0x61 + 10
      else if 0x41 \<le> c \<and> c \<le> 0x5A then uint c - 0x41 + 10
      else -1)"

definition base_digit :: "int \<Rightarrow> u8 \<Rightarrow> bool" where
  "base_digit numeric_base c \<longleftrightarrow> ft_digit_value c \<ge> 0 \<and> ft_digit_value c < numeric_base"

definition hex_prefix_at :: "bytes \<Rightarrow> nat \<Rightarrow> bool" where
  "hex_prefix_at s i \<longleftrightarrow> c_at s i = 0x30 \<and> (c_at s (i + 1) = 0x78 \<or> c_at s (i + 1) = 0x58)"

text \<open>The base prefix: the base to use and the index of the first digit.\<close>

definition parse_base :: "bytes \<Rightarrow> int \<Rightarrow> nat \<Rightarrow> int \<times> nat" where
  "parse_base s numeric_base i =
     (if numeric_base = 0
      then if c_at s i = 0x30
           then if hex_prefix_at s i then (16, i + 2) else (8, i)
           else (10, i)
      else if numeric_base = 16 \<and> hex_prefix_at s i then (16, i + 2)
      else (numeric_base, i))"

function skip_digits :: "bytes \<Rightarrow> int \<Rightarrow> nat \<Rightarrow> nat" where
  "skip_digits s numeric_base i =
     (if base_digit numeric_base (c_at s i) then skip_digits s numeric_base (i + 1) else i)"
  by pat_completeness auto
termination
  by (relation "measure (\<lambda>(s, b, i). length s - i)")
    (auto simp: c_at_def base_digit_def ft_digit_value_def split: if_splits)

text \<open>
  The accumulation loop of \<open>ft_strtol\<close>: the overflow flag, the accumulated value and the
  cursor. \<open>digit_processed\<close> is true exactly when the loop body ran, that is, when the
  character at the first cursor is a digit of the base.
\<close>

function strtol_loop :: "bytes \<Rightarrow> int \<Rightarrow> u64 \<Rightarrow> nat \<Rightarrow> u64 \<Rightarrow> bool \<times> u64 \<times> nat" where
  "strtol_loop s numeric_base limit_value i accumulated_value =
     (if base_digit numeric_base (c_at s i)
      then (let base_value = word_of_int numeric_base;
                digit_as_unsigned = word_of_int (ft_digit_value (c_at s i));
                limit_division = limit_value div base_value;
                limit_remainder = limit_value mod base_value
            in if accumulated_value > limit_division
                  \<or> (accumulated_value = limit_division \<and> digit_as_unsigned > limit_remainder)
               then (True, limit_value, skip_digits s numeric_base (i + 1))
               else strtol_loop s numeric_base limit_value (i + 1)
                      (accumulated_value * base_value + digit_as_unsigned))
      else (False, accumulated_value, i))"
  by pat_completeness auto
termination
  by (relation "measure (\<lambda>(s, b, l, i, v). length s - i)")
    (auto simp: c_at_def base_digit_def ft_digit_value_def split: if_splits)

text \<open>
  The result is the value (\<^term>\<open>None\<close> when the negation is undefined) and the end index
  (\<^term>\<open>None\<close> is the null pointer).
\<close>

definition ft_strtol :: "ptr \<Rightarrow> int \<Rightarrow> int option \<times> nat option" where
  "ft_strtol input_string numeric_base =
     (case input_string of
        None \<Rightarrow> (Some 0, None)
      | Some s \<Rightarrow>
         if numeric_base \<noteq> 0 \<and> (numeric_base < 2 \<or> numeric_base > 36) then (Some 0, Some 0)
         else
           (let (sign_value, i) = parse_sign s (skip_ws s 0);
                (base, i) = parse_base s numeric_base i;
                limit_value = (if sign_value < 0 then 0x8000000000000000 else 0x7FFFFFFFFFFFFFFF);
                (overflow_detected, accumulated_value, j) = strtol_loop s base limit_value i 0
            in if \<not> base_digit base (c_at s i) then (Some 0, Some 0)
               else if overflow_detected
               then (Some (if sign_value < 0 then -9223372036854775808 else 9223372036854775807),
                     Some j)
               else if sign_value < 0
               then (signed_result 64 (- sint accumulated_value), Some j)
               else (Some (sint accumulated_value), Some j)))"

text \<open>The loop of \<open>ft_strtoul\<close> stops at the digit that overflows.\<close>

function strtoul_loop :: "bytes \<Rightarrow> int \<Rightarrow> nat \<Rightarrow> u64 \<Rightarrow> bool \<times> u64 \<times> nat" where
  "strtoul_loop s numeric_base i accumulated_value =
     (if base_digit numeric_base (c_at s i)
      then (let base_value = word_of_int numeric_base;
                digit_as_unsigned = word_of_int (ft_digit_value (c_at s i));
                limit_division = (-1) div base_value;
                limit_remainder = (-1) mod base_value
            in if accumulated_value > limit_division
                  \<or> (accumulated_value = limit_division \<and> digit_as_unsigned > limit_remainder)
               then (True, -1, i)
               else strtoul_loop s numeric_base (i + 1)
                      (accumulated_value * base_value + digit_as_unsigned))
      else (False, accumulated_value, i))"
  by pat_completeness auto
termination
  by (relation "measure (\<lambda>(s, b, i, v). length s - i)")
    (auto simp: c_at_def base_digit_def ft_digit_value_def split: if_splits)

declare skip_digits.simps [simp del] strtol_loop.simps [simp del] strtoul_loop.simps [simp del]

definition ft_strtoul :: "ptr \<Rightarrow> int \<Rightarrow> u64 \<times> nat option" where
  "ft_strtoul input_string numeric_base =
     (case input_string of
        None \<Rightarrow> (0, None)
      | Some s \<Rightarrow>
         if numeric_base \<noteq> 0 \<and> (numeric_base < 2 \<or> numeric_base > 36) then (0, Some 0)
         else
           (let (sign_value, i) = parse_sign s (skip_ws s 0);
                (base, i) = parse_base s numeric_base i;
                (overflow_detected, accumulated_value, j) = strtoul_loop s base i 0
            in if \<not> base_digit base (c_at s i) then (0, Some 0)
               else if sign_value < 0 then (-1, Some j)
               else if overflow_detected then (-1, Some j)
               else (accumulated_value, Some j)))"

subsection \<open>ft\_parse\_uint32 and ft\_parse\_int64\<close>

text \<open>
  The digit loop: \<^term>\<open>Inl i\<close> when the digit at \<open>i\<close> leaves the range, else the final index
  and accumulator.
\<close>

function parse_digits_loop :: "bytes \<Rightarrow> u64 \<Rightarrow> nat \<Rightarrow> u64 \<Rightarrow> nat + nat \<times> u64" where
  "parse_digits_loop s magnitude_limit index accumulator =
     (if dec_char (c_at s index)
      then (let digit = word_of_int (uint (c_at s index) - 0x30)
            in if accumulator > (magnitude_limit - digit) div 10 then Inl index
               else parse_digits_loop s magnitude_limit (index + 1) (accumulator * 10 + digit))
      else Inr (index, accumulator))"
  by pat_completeness auto
termination
  by (relation "measure (\<lambda>(s, l, i, v). length s - i)")
    (auto simp: c_at_def dec_char_def split: if_splits)

declare parse_digits_loop.simps [simp del]

text \<open>
  The results are the error code, the end index (\<^term>\<open>None\<close> when the code has not set it)
  and the value cell (\<^term>\<open>None\<close> for a null pointer).
\<close>

definition ft_parse_uint32 :: "ptr \<Rightarrow> u32 option \<Rightarrow> ft_err \<times> nat option \<times> u32 option" where
  "ft_parse_uint32 string value_pointer =
     (case string of
        None \<Rightarrow> (FT_ERR_INVALID_POINTER, None, value_pointer)
      | Some s \<Rightarrow>
         if value_pointer = None then (FT_ERR_INVALID_POINTER, None, value_pointer)
         else
           (let index = skip_isspace s 0
            in if c_at s index = 0x2D then (FT_ERR_INVALID_ARGUMENT, Some 0, value_pointer)
               else
                 (let index = (if c_at s index = 0x2B then index + 1 else index)
                  in if \<not> dec_char (c_at s index)
                     then (FT_ERR_INVALID_ARGUMENT, Some 0, value_pointer)
                     else (case parse_digits_loop s 4294967295 index 0 of
                             Inl i \<Rightarrow> (FT_ERR_OUT_OF_RANGE, Some i, value_pointer)
                           | Inr (i, accumulator) \<Rightarrow>
                               (FT_ERR_SUCCESS, Some i, Some (ucast accumulator))))))"

definition ft_parse_int64 :: "ptr \<Rightarrow> int option \<Rightarrow> ft_err \<times> nat option \<times> int option" where
  "ft_parse_int64 string value_pointer =
     (case string of
        None \<Rightarrow> (FT_ERR_INVALID_POINTER, None, value_pointer)
      | Some s \<Rightarrow>
         if value_pointer = None then (FT_ERR_INVALID_POINTER, None, value_pointer)
         else
           (let (sign, index) = parse_sign s (skip_isspace s 0);
                negative = (sign = -1)
            in if \<not> dec_char (c_at s index)
               then (FT_ERR_INVALID_ARGUMENT, Some 0, value_pointer)
               else
                 (let magnitude_limit =
                        (if negative then 9223372036854775807 + 1 else 9223372036854775807)
                  in case parse_digits_loop s magnitude_limit index 0 of
                       Inl i \<Rightarrow> (FT_ERR_OUT_OF_RANGE, Some i, value_pointer)
                     | Inr (i, accumulator) \<Rightarrow>
                         (FT_ERR_SUCCESS, Some i,
                          Some (if negative
                                then if accumulator = 9223372036854775808 then -9223372036854775808
                                     else - sint accumulator
                                else sint accumulator)))))"

subsection \<open>ft\_validate\_int\<close>

text \<open>Division of signed integers truncates towards zero.\<close>

definition c_div :: "int \<Rightarrow> int \<Rightarrow> int" where
  "c_div a b = (if (a < 0) = (b < 0) then \<bar>a\<bar> div \<bar>b\<bar> else - (\<bar>a\<bar> div \<bar>b\<bar>))"

function validate_int_loop :: "bytes \<Rightarrow> int \<Rightarrow> nat \<Rightarrow> int \<Rightarrow> ft_err" where
  "validate_int_loop s sign index accumulated =
     (if c_at s index \<noteq> 0
      then if \<not> dec_char (c_at s index) then FT_ERR_INVALID_ARGUMENT
           else (let digit = uint (c_at s index) - 0x30
                 in if sign = 1
                    then if accumulated > c_div (2147483647 - digit) 10 then FT_ERR_OUT_OF_RANGE
                         else validate_int_loop s sign (index + 1) (accumulated * 10 + digit)
                    else if accumulated < c_div (-2147483648 + digit) 10 then FT_ERR_OUT_OF_RANGE
                         else validate_int_loop s sign (index + 1) (accumulated * 10 - digit))
      else FT_ERR_SUCCESS)"
  by pat_completeness auto
termination
  by (relation "measure (\<lambda>(s, g, i, a). length s - i)") (auto simp: c_at_def split: if_splits)

declare validate_int_loop.simps [simp del]

definition ft_validate_int :: "ptr \<Rightarrow> ft_err" where
  "ft_validate_int input =
     (case input of
        None \<Rightarrow> FT_ERR_INVALID_POINTER
      | Some s \<Rightarrow>
         (let (sign, index) = parse_sign s 0
          in if c_at s index = 0 then FT_ERR_INVALID_ARGUMENT
             else validate_int_loop s sign index 0))"

subsection \<open>The value of a numeral\<close>

definition num_value :: "int \<Rightarrow> int \<Rightarrow> bytes \<Rightarrow> int" where
  "num_value b acc ds = foldl (\<lambda>a c. a * b + ft_digit_value c) acc ds"

definition numeral_text :: "int \<Rightarrow> bytes \<Rightarrow> bytes \<Rightarrow> bytes \<Rightarrow> bytes \<Rightarrow> bool" where
  "numeral_text b ws sg ds rest \<longleftrightarrow>
     list_all ws_char ws \<and> (sg = [] \<or> sg = [0x2B] \<or> sg = [0x2D])
     \<and> ds \<noteq> [] \<and> list_all (base_digit b) ds \<and> \<not> base_digit b (c_at rest 0)"

definition sign_of :: "bytes \<Rightarrow> int" where
  "sign_of sg = (if sg = [0x2D] then -1 else 1)"

lemma num_value_Nil [simp]: "num_value b acc [] = acc"
  by (simp add: num_value_def)

lemma num_value_Cons [simp]:
  "num_value b acc (c # ds) = num_value b (acc * b + ft_digit_value c) ds"
  by (simp add: num_value_def)

lemma num_value_ge:
  assumes "0 \<le> acc" "1 \<le> b" "list_all (base_digit b) ds"
  shows "acc \<le> num_value b acc ds"
  using assms
proof (induction ds arbitrary: acc)
  case (Cons c ds)
  then have "acc * 1 \<le> acc * b" by (intro mult_left_mono) auto
  moreover have "0 \<le> ft_digit_value c" using Cons.prems by (simp add: base_digit_def)
  ultimately show ?case using Cons.prems Cons.IH [of "acc * b + ft_digit_value c"] by auto
qed simp

lemma c_at_append_length [simp]: "c_at (pre @ rest) (length pre) = c_at rest 0"
  by (simp add: c_at_def nth_append)

lemma c_at_append_length2 [simp]:
  "c_at (p @ q @ rest) (length p + length q) = c_at rest 0"
  using c_at_append_length [of "p @ q" rest] by simp

lemma dec_char_base_digit: "dec_char c \<longleftrightarrow> base_digit 10 c"
  by (auto simp: dec_char_def base_digit_def ft_digit_value_def word_le_def)

lemma dec_char_eq_base_digit: "dec_char = base_digit 10"
  by (rule ext) (rule dec_char_base_digit)

lemma dec_char_value: "dec_char c \<Longrightarrow> uint c - 48 = ft_digit_value c"
  by (simp add: dec_char_def ft_digit_value_def)

lemma base_digit_range:
  assumes "base_digit b c"
  shows "0x30 \<le> c" "0 \<le> ft_digit_value c" "ft_digit_value c < b"
  using assms by (auto simp: base_digit_def ft_digit_value_def word_le_def split: if_splits)

lemma base_digit_not_ws: "base_digit b c \<Longrightarrow> \<not> ws_char c \<and> c \<noteq> 0x2B \<and> c \<noteq> 0x2D \<and> c \<noteq> 0"
  using base_digit_range (1) [of b c] by (auto simp: ws_char_def word_le_def)

lemma skip_ws_spec:
  "list_all ws_char ws \<Longrightarrow> \<not> ws_char (c_at rest 0) \<Longrightarrow>
     skip_ws (pre @ ws @ rest) (length pre) = length pre + length ws"
proof (induction ws arbitrary: pre)
  case (Cons c ws)
  then show ?case using Cons.IH [of "pre @ [c]"] by (subst skip_ws.simps) simp
qed (subst skip_ws.simps, simp)

lemma skip_isspace_eq: "skip_isspace s i = skip_ws s i"
proof (induction s i rule: skip_isspace.induct)
  case (1 s i)
  then show ?case
    by (subst skip_isspace.simps, subst skip_ws.simps) (simp add: ft_isspace_byte ws_char_def)
qed

lemma numeral_text_skip:
  assumes "numeral_text b ws sg ds rest"
  shows "skip_ws (ws @ sg @ ds @ rest) 0 = length ws"
    and "parse_sign (ws @ sg @ ds @ rest) (length ws) = (sign_of sg, length ws + length sg)"
    and "base_digit b (c_at (ds @ rest) 0)"
proof -
  obtain d ds' where ds: "ds = d # ds'" and d: "base_digit b d"
    using assms by (cases ds) (auto simp: numeral_text_def)
  have "\<not> ws_char (c_at (sg @ ds @ rest) 0)"
    using assms base_digit_not_ws [OF d] by (auto simp: numeral_text_def ds ws_char_def)
  then show "skip_ws (ws @ sg @ ds @ rest) 0 = length ws"
    using assms skip_ws_spec [of ws "sg @ ds @ rest" "[]"] by (simp add: numeral_text_def)
  show "parse_sign (ws @ sg @ ds @ rest) (length ws) = (sign_of sg, length ws + length sg)"
    using assms base_digit_not_ws [OF d]
    by (auto simp: numeral_text_def parse_sign_def sign_of_def ds)
  show "base_digit b (c_at (ds @ rest) 0)"
    using d by (simp add: ds)
qed

subsection \<open>ft\_atoi and ft\_atol read decimal numerals\<close>

lemma ato_loop_spec:
  assumes "list_all (base_digit 10) ds" "\<not> base_digit 10 (c_at rest 0)" "0 \<le> v" "in_signed w v"
  shows "ato_loop w (pre @ ds @ rest) (length pre) v = signed_result w (num_value 10 v ds)"
  using assms
proof (induction ds arbitrary: pre v)
  case Nil
  then show ?case by (subst ato_loop.simps) (simp add: dec_char_base_digit signed_result_def)
next
  case (Cons c ds)
  let ?v = "v * 10 + ft_digit_value c"
  have d: "base_digit 10 c" using Cons.prems by simp
  have nonneg: "0 \<le> ?v" and le: "?v \<le> num_value 10 ?v ds" and v10: "v * 10 \<le> ?v" "0 \<le> v * 10"
    using Cons.prems base_digit_range [OF d] num_value_ge [of ?v 10 ds] by auto
  have eval: "ato_loop w (pre @ (c # ds) @ rest) (length pre) v =
     (if in_signed w ?v then ato_loop w (pre @ (c # ds) @ rest) (length pre + 1) ?v else None)"
    using d v10
    by (subst ato_loop.simps)
      (auto simp: dec_char_base_digit dec_char_value signed_result_def in_signed_def Let_def)
  have step: "ato_loop w (pre @ (c # ds) @ rest) (length pre + 1) ?v
      = signed_result w (num_value 10 ?v ds)" if "in_signed w ?v"
    using Cons.IH [of ?v "pre @ [c]"] Cons.prems nonneg that by simp
  have "\<not> in_signed w (num_value 10 ?v ds)" if "\<not> in_signed w ?v"
    using that nonneg le by (auto simp: in_signed_def intro: order_trans)
  with eval step show ?case by (auto simp: signed_result_def)
qed

lemma ato_loop_numeral:
  assumes "numeral_text 10 ws sg ds rest" "0 < w"
  shows "ato_loop w (ws @ sg @ ds @ rest) (length ws + length sg) 0
    = signed_result w (num_value 10 0 ds)"
  using ato_loop_spec [of ds rest 0 w "ws @ sg"] assms
  by (simp add: numeral_text_def in_signed_def)

lemma num_value_nonneg: "numeral_text b ws sg ds rest \<Longrightarrow> 1 \<le> b \<Longrightarrow> 0 \<le> num_value b 0 ds"
  using num_value_ge [of 0 b ds] by (simp add: numeral_text_def)

lemma ft_atoi_spec:
  assumes "numeral_text 10 ws sg ds rest"
  shows "ft_atoi (Some (ws @ sg @ ds @ rest)) =
    (if num_value 10 0 ds < 2 ^ 31 then Some (sign_of sg * num_value 10 0 ds) else None)"
  using num_value_nonneg [OF assms]
  by (auto simp: ft_atoi_def numeral_text_skip [OF assms] ato_loop_numeral [OF assms]
      dec_char_base_digit signed_result_def in_signed_def sign_of_def)

lemma ft_atol_spec:
  assumes "numeral_text 10 ws sg ds rest"
  shows "ft_atol (Some (ws @ sg @ ds @ rest)) =
    (if num_value 10 0 ds < 2 ^ 63 then Some (sign_of sg * num_value 10 0 ds) else None)"
  using num_value_nonneg [OF assms]
  by (auto simp: ft_atol_def numeral_text_skip [OF assms] ato_loop_numeral [OF assms]
      dec_char_base_digit signed_result_def in_signed_def sign_of_def)

subsection \<open>The checked digit loops\<close>

lemma digit_overflow_iff:
  fixes a b d L :: int
  assumes "0 < b" "0 \<le> d" "d < b"
  shows "(L div b < a \<or> a = L div b \<and> L mod b < d) \<longleftrightarrow> L < a * b + d"
proof -
  define q r where "q = L div b" and "r = L mod b"
  have L: "L = q * b + r" and r: "0 \<le> r" "r < b" using assms by (simp_all add: q_def r_def)
  have "(q < a \<or> a = q \<and> r < d) \<longleftrightarrow> q * b + r < a * b + d"
  proof (cases "a < q")
    case True
    then have "(a + 1) * b \<le> q * b" using assms by (intro mult_right_mono) auto
    with True show ?thesis using assms r by (simp add: distrib_right)
  next
    case False
    have "(q + 1) * b \<le> a * b" if "q < a" using that assms by (intro mult_right_mono) auto
    with False show ?thesis using assms r by (cases "a = q") (auto simp: distrib_right)
  qed
  then show ?thesis by (simp only: L [symmetric] q_def [symmetric] r_def [symmetric])
qed

lemma digit_limit_iff:
  fixes a d L :: int
  shows "(L - d) div 10 < a \<longleftrightarrow> L < a * 10 + d"
  by presburger

lemma uint_u64_of_small: "0 \<le> x \<Longrightarrow> x < 2 ^ 64 \<Longrightarrow> uint (word_of_int x :: u64) = x"
  by (simp add: uint_word_of_int)

lemma uint_u64_bound: "uint (x :: u64) < 2 ^ 64"
  using unsigned_less [of x, where ?'a = int] by simp

lemma uint_u64_mul_add:
  fixes x :: u64
  assumes "0 \<le> b" "0 \<le> d" "uint x * b + d < 2 ^ 64"
  shows "uint (x * word_of_int b + word_of_int d) = uint x * b + d"
proof -
  have "x * word_of_int b + word_of_int d = word_of_int (uint x * b + d)" by simp
  then show ?thesis using assms by (simp only:) (rule uint_u64_of_small, auto)
qed

text \<open>
  The overflow guard of \<open>ft_strtol\<close>, read as integers: the loop goes on exactly when the
  next value still fits the limit, and then the 64-bit arithmetic is exact.
\<close>

lemma strtol_guard:
  fixes x L :: u64
  assumes "2 \<le> b" "b \<le> 36" "0 \<le> d" "d < b"
  shows "(L div word_of_int b < x \<or> x = L div word_of_int b \<and> L mod word_of_int b < word_of_int d)
     \<longleftrightarrow> uint L < uint x * b + d"
proof -
  have b: "uint (word_of_int b :: u64) = b" and d: "uint (word_of_int d :: u64) = d"
    using assms by (simp_all add: uint_u64_of_small)
  have "(L div word_of_int b < x \<or> x = L div word_of_int b \<and> L mod word_of_int b < word_of_int d)
    \<longleftrightarrow> (uint L div b < uint x \<or> uint x = uint L div b \<and> uint L mod b < d)"
    by (simp only: word_less_def word_eq_iff_unsigned [where ?'a = int] uint_div uint_mod b d)
  also have "\<dots> \<longleftrightarrow> uint L < uint x * b + d" using assms by (intro digit_overflow_iff) auto
  finally show ?thesis .
qed

lemma skip_digits_spec:
  "list_all (base_digit b) ds \<Longrightarrow> \<not> base_digit b (c_at rest 0) \<Longrightarrow>
     skip_digits (pre @ ds @ rest) b (length pre) = length pre + length ds"
proof (induction ds arbitrary: pre)
  case (Cons c ds)
  then show ?case using Cons.IH [of "pre @ [c]"] by (subst skip_digits.simps) simp
qed (subst skip_digits.simps, simp)

lemma strtol_loop_spec:
  assumes "2 \<le> b" "b \<le> 36" "list_all (base_digit b) ds" "\<not> base_digit b (c_at rest 0)"
    and "uint x \<le> uint L"
  shows "strtol_loop (pre @ ds @ rest) b L (length pre) x =
    (if num_value b (uint x) ds \<le> uint L
     then (False, word_of_int (num_value b (uint x) ds), length pre + length ds)
     else (True, L, length pre + length ds))"
  using assms
proof (induction ds arbitrary: pre x)
  case Nil
  then show ?case by (subst strtol_loop.simps) simp
next
  case (Cons c ds)
  let ?d = "ft_digit_value c"
  let ?v = "uint x * b + ?d"
  have c: "base_digit b c" and ds: "list_all (base_digit b) ds" using Cons.prems by simp_all
  note d = base_digit_range [OF c]
  have v: "0 \<le> ?v" and le: "?v \<le> num_value b ?v ds"
    using Cons.prems d ds num_value_ge [of ?v b ds] by auto
  show ?case
  proof (cases "uint L < ?v")
    case True
    then have "strtol_loop (pre @ (c # ds) @ rest) b L (length pre) x
        = (True, L, skip_digits (pre @ (c # ds) @ rest) b (length pre + 1))"
      using c d Cons.prems
      by (subst strtol_loop.simps) (simp add: Let_def strtol_guard [of b ?d])
    also have "skip_digits (pre @ (c # ds) @ rest) b (length pre + 1)
        = length pre + length (c # ds)"
      using skip_digits_spec [of b ds rest "pre @ [c]"] ds Cons.prems by simp
    finally show ?thesis using True le by simp
  next
    case False
    have eq: "uint (x * word_of_int b + word_of_int ?d) = ?v"
      using False d Cons.prems uint_u64_bound [of L] by (intro uint_u64_mul_add) auto
    have "strtol_loop (pre @ (c # ds) @ rest) b L (length pre) x
        = strtol_loop (pre @ (c # ds) @ rest) b L (length pre + 1)
            (x * word_of_int b + word_of_int ?d)"
      using c d False Cons.prems
      by (subst strtol_loop.simps) (simp add: Let_def strtol_guard [of b ?d])
    also have "\<dots> = (if num_value b ?v ds \<le> uint L
         then (False, word_of_int (num_value b ?v ds), length pre + length (c # ds))
         else (True, L, length pre + length (c # ds)))"
      using Cons.IH [of "x * word_of_int b + word_of_int ?d" "pre @ [c]", unfolded eq]
        Cons.prems False by simp
    finally show ?thesis by simp
  qed
qed

lemma strtoul_loop_fits:
  assumes "2 \<le> b" "b \<le> 36" "list_all (base_digit b) ds" "\<not> base_digit b (c_at rest 0)"
    and "num_value b (uint x) ds < 2 ^ 64"
  shows "strtoul_loop (pre @ ds @ rest) b (length pre) x =
     (False, word_of_int (num_value b (uint x) ds), length pre + length ds)"
  using assms
proof (induction ds arbitrary: pre x)
  case Nil
  then show ?case by (subst strtoul_loop.simps) simp
next
  case (Cons c ds)
  let ?d = "ft_digit_value c"
  let ?v = "uint x * b + ?d"
  have c: "base_digit b c" and ds: "list_all (base_digit b) ds" using Cons.prems by simp_all
  note d = base_digit_range [OF c]
  have "?v \<le> num_value b ?v ds" using Cons.prems d ds num_value_ge [of ?v b ds] by auto
  then have lt: "?v < 2 ^ 64" using Cons.prems by simp
  then have eq: "uint (x * word_of_int b + word_of_int ?d) = ?v"
    using d Cons.prems by (intro uint_u64_mul_add) auto
  have "\<not> uint (-1 :: u64) < ?v"
    using lt by (simp add: unsigned_minus_1_eq_mask mask_eq_exp_minus_1)
  then have "strtoul_loop (pre @ (c # ds) @ rest) b (length pre) x
      = strtoul_loop (pre @ (c # ds) @ rest) b (length pre + 1)
          (x * word_of_int b + word_of_int ?d)"
    using c d Cons.prems
    by (subst strtoul_loop.simps) (simp add: Let_def strtol_guard [of b ?d])
  also have "\<dots> = (False, word_of_int (num_value b ?v ds), length pre + length (c # ds))"
    using Cons.IH [of "x * word_of_int b + word_of_int ?d" "pre @ [c]", unfolded eq] Cons.prems
    by simp
  finally show ?case by simp
qed

lemma parse_base_plain:
  assumes "2 \<le> b" "b = 16 \<longrightarrow> \<not> hex_prefix_at s i"
  shows "parse_base s b i = (b, i)"
  using assms by (simp add: parse_base_def)

text \<open>
  \<open>ft_strtol\<close> on a numeral: the signed value, saturated at the bounds of
  64 bits, with the end pointer after the last digit. The one value it cannot produce is
  the least one, whose negation is undefined. The base of the digits is the base asked for, or, when
  base 0 is asked for, the one the text announces.
\<close>

definition saturate64 :: "int \<Rightarrow> int" where
  "saturate64 x = max (- (2 ^ 63)) (min x (2 ^ 63 - 1))"

definition base_prefix :: "int \<Rightarrow> bytes \<Rightarrow> bytes \<Rightarrow> int \<Rightarrow> bool" where
  "base_prefix asked px tail b \<longleftrightarrow>
     (if px = [0x30, 0x78] \<or> px = [0x30, 0x58] then (asked = 0 \<or> asked = 16) \<and> b = 16
      else px = [] \<and> (if asked = 0
        then \<not> hex_prefix_at tail 0 \<and> b = (if c_at tail 0 = 0x30 then 8 else 10)
        else 2 \<le> asked \<and> asked \<le> 36 \<and> b = asked \<and> \<not> (asked = 16 \<and> hex_prefix_at tail 0)))"

lemma sint_u64_of_small: "- (2 ^ 63) \<le> x \<Longrightarrow> x < 2 ^ 63 \<Longrightarrow> sint (word_of_int x :: u64) = x"
  by (simp add: signed_of_int signed_take_bit_int_eq_self)

lemma hex_prefix_at_append: "hex_prefix_at (pre @ s) (length pre) = hex_prefix_at s 0"
  by (simp add: hex_prefix_at_def c_at_def nth_append)

lemma c_at_hex_prefix: "px = [0x30, 0x78] \<or> px = [0x30, 0x58] \<Longrightarrow> hex_prefix_at (px @ s) 0"
  by (auto simp: hex_prefix_at_def c_at_def)

lemma base_prefix_parse:
  assumes "base_prefix asked px (ds @ rest) b"
  shows "parse_base (pre @ px @ ds @ rest) asked (length pre) = (b, length pre + length px)"
    "2 \<le> b" "b \<le> 36" "asked = 0 \<or> 2 \<le> asked \<and> asked \<le> 36"
proof -
  have h: "hex_prefix_at (pre @ px @ ds @ rest) (length pre) = hex_prefix_at (px @ ds @ rest) 0"
    "c_at (pre @ px @ ds @ rest) (length pre) = c_at (px @ ds @ rest) 0"
    by (rule hex_prefix_at_append) simp
  have z: "hex_prefix_at t 0 \<Longrightarrow> c_at t 0 = 0x30" for t by (simp add: hex_prefix_at_def)
  show "parse_base (pre @ px @ ds @ rest) asked (length pre) = (b, length pre + length px)"
    using assms z [of "px @ ds @ rest"] c_at_hex_prefix [of px "ds @ rest"] unfolding parse_base_def h
    by (auto simp: base_prefix_def split: if_splits)
  show "2 \<le> b" "b \<le> 36" "asked = 0 \<or> 2 \<le> asked \<and> asked \<le> 36"
    using assms by (auto simp: base_prefix_def split: if_splits)
qed

lemma prefixed_sign:
  assumes "numeral_text b ws sg ds rest" "base_prefix asked px (ds @ rest) b"
  shows "parse_sign (ws @ sg @ px @ ds @ rest) (skip_ws (ws @ sg @ px @ ds @ rest) 0) =
    (sign_of sg, length ws + length sg)"
proof (cases "px = []")
  case True
  then show ?thesis using numeral_text_skip [OF assms(1)] by simp
next
  case False
  then obtain x where x: "px = [0x30, x]" "x = 0x78 \<or> x = 0x58" using assms(2) by (auto simp: base_prefix_def split: if_splits)
  have "numeral_text 16 ws sg [0x30] (x # ds @ rest)"
    using assms(1) x(2) by (auto simp: numeral_text_def base_digit_def ft_digit_value_def c_at_def)
  then show ?thesis using numeral_text_skip [of 16 ws sg "[0x30]" "x # ds @ rest"] x(1) by simp
qed

lemma ft_strtol_spec:
  assumes nt: "numeral_text b ws sg ds rest" and px: "base_prefix asked px (ds @ rest) b"
  shows "ft_strtol (Some (ws @ sg @ px @ ds @ rest)) asked =
     (if sign_of sg * num_value b 0 ds = - (2 ^ 63) then None
      else Some (saturate64 (sign_of sg * num_value b 0 ds)),
      Some (length ws + length sg + length px + length ds))"
proof -
  let ?s = "ws @ sg @ px @ ds @ rest"
  let ?v = "num_value b 0 ds"
  note b = base_prefix_parse(2-4) [OF px]
  have v: "0 \<le> ?v" using num_value_nonneg [OF nt] b by simp
  have base: "parse_base ?s asked (length ws + length sg) = (b, length ws + length sg + length px)"
    using base_prefix_parse(1) [OF px, of "ws @ sg"] by simp
  have loop: "strtol_loop ?s b L (length ws + length sg + length px) 0 =
      (if ?v \<le> uint L then (False, word_of_int ?v, length ws + length sg + length px + length ds)
       else (True, L, length ws + length sg + length px + length ds))" for L
    using strtol_loop_spec [of b ds rest 0 L "ws @ sg @ px"] nt b by (simp add: numeral_text_def ac_simps)
  obtain d ds' where ds: "ds = d # ds'" using nt by (cases ds) (auto simp: numeral_text_def)
  have at: "c_at ?s (length ws + length sg + length px) = d"
    using c_at_append_length [of "ws @ sg @ px" "ds @ rest"] ds by (simp add: ac_simps)
  have d: "base_digit b d" using nt ds by (simp add: numeral_text_def)
  have sint: "sint (word_of_int ?v :: u64) = ?v" if "?v < 2 ^ 63"
    using sint_u64_of_small [of ?v] that v by simp
  have least: "sint (word_of_int (2 ^ 63) :: u64) = - (2 ^ 63)" by (simp add: signed_of_int)
  show ?thesis
    using b v sint least d
    by (auto simp: ft_strtol_def prefixed_sign [OF nt px] base loop at saturate64_def
        signed_result_def in_signed_def sign_of_def Let_def)
qed

lemma ft_strtoul_spec:
  assumes nt: "numeral_text b ws sg ds rest" and b: "2 \<le> b" "b \<le> 36"
    and hex: "b = 16 \<longrightarrow> \<not> hex_prefix_at (ds @ rest) 0"
    and fits: "num_value b 0 ds < 2 ^ 64" and pos: "sg \<noteq> [0x2D]"
  shows "ft_strtoul (Some (ws @ sg @ ds @ rest)) b =
     (word_of_int (num_value b 0 ds), Some (length ws + length sg + length ds))"
proof -
  let ?s = "ws @ sg @ ds @ rest"
  have "hex_prefix_at ?s (length ws + length sg) = hex_prefix_at (ds @ rest) 0"
    using c_at_append_length [of "ws @ sg" "ds @ rest"]
    by (simp add: hex_prefix_at_def c_at_def nth_append)
  then have base: "parse_base ?s b (length ws + length sg) = (b, length ws + length sg)"
    using parse_base_plain b hex by simp
  have loop: "strtoul_loop ?s b (length ws + length sg) 0 =
      (False, word_of_int (num_value b 0 ds), length ws + length sg + length ds)"
    using strtoul_loop_fits [of b ds rest 0 "ws @ sg"] nt b fits by (simp add: numeral_text_def)
  show ?thesis
    using b pos
    by (auto simp: ft_strtoul_def numeral_text_skip [OF nt] base loop sign_of_def)
qed

subsection \<open>The range-checked parsers\<close>

lemma parse_digits_guard:
  fixes x L :: u64
  assumes "0 \<le> d" "d \<le> 9" "9 \<le> uint L"
  shows "(L - word_of_int d) div 10 < x \<longleftrightarrow> uint L < uint x * 10 + d"
proof -
  have d: "uint (word_of_int d :: u64) = d" using assms by (simp add: uint_u64_of_small)
  have "uint (L - word_of_int d) = uint L - d"
    using assms by (simp add: uint_sub_lem [THEN iffD1] d)
  then have "(L - word_of_int d) div 10 < x \<longleftrightarrow> (uint L - d) div 10 < uint x"
    by (simp add: word_less_def uint_div)
  then show ?thesis by (simp add: digit_limit_iff)
qed

lemma parse_digits_loop_spec:
  assumes "list_all (base_digit 10) ds" "\<not> base_digit 10 (c_at rest 0)"
    and "uint x \<le> uint L" "9 \<le> uint L"
  shows "if num_value 10 (uint x) ds \<le> uint L
     then parse_digits_loop (pre @ ds @ rest) L (length pre) x
       = Inr (length pre + length ds, word_of_int (num_value 10 (uint x) ds))
     else \<exists>k<length ds. parse_digits_loop (pre @ ds @ rest) L (length pre) x = Inl (length pre + k)
       \<and> num_value 10 (uint x) (take k ds) \<le> uint L
       \<and> uint L < num_value 10 (uint x) (take (Suc k) ds)"
  using assms
proof (induction ds arbitrary: pre x)
  case Nil
  then show ?case by (subst parse_digits_loop.simps) (simp add: dec_char_base_digit)
next
  case (Cons c ds)
  let ?d = "ft_digit_value c"
  let ?v = "uint x * 10 + ?d"
  let ?x = "x * word_of_int 10 + word_of_int ?d"
  have c: "base_digit 10 c" and ds: "list_all (base_digit 10) ds" using Cons.prems by simp_all
  note d = base_digit_range [OF c]
  have le: "?v \<le> num_value 10 ?v ds" using d ds num_value_ge [of ?v 10 ds] by auto
  have eval: "parse_digits_loop (pre @ (c # ds) @ rest) L (length pre) x =
     (if uint L < ?v then Inl (length pre)
      else parse_digits_loop (pre @ (c # ds) @ rest) L (length pre + 1) ?x)"
    using c d Cons.prems
    by (subst parse_digits_loop.simps)
      (simp add: Let_def parse_digits_guard [of ?d] dec_char_base_digit dec_char_value)
  show ?case
  proof (cases "uint L < ?v")
    case True
    then show ?thesis using eval le Cons.prems by (auto intro!: exI [of _ 0])
  next
    case False
    have eq: "uint ?x = ?v"
      using False d Cons.prems uint_u64_bound [of L] by (intro uint_u64_mul_add) auto
    have "parse_digits_loop (pre @ (c # ds) @ rest) L (length pre) x
        = parse_digits_loop ((pre @ [c]) @ ds @ rest) L (length (pre @ [c])) ?x"
      using eval False by simp
    moreover note Cons.IH [of ?x "pre @ [c]", unfolded eq]
    ultimately show ?thesis
      using Cons.prems False by (auto intro: exI [of _ "Suc _"] split: if_splits)
  qed
qed

text \<open>
  \<open>ft_parse_int64\<close> and \<open>ft_parse_uint32\<close> on a decimal numeral: the exact value and the
  index after the last digit when the value is in range, the least one included; else
  \<open>FT_ERR_OUT_OF_RANGE\<close> at the first digit that leaves the range, the cell unchanged.
\<close>

lemma ft_parse_int64_spec:
  assumes nt: "numeral_text 10 ws sg ds rest"
  defines "v \<equiv> sign_of sg * num_value 10 0 ds"
  shows "if in_signed 64 v
     then ft_parse_int64 (Some (ws @ sg @ ds @ rest)) (Some old)
       = (FT_ERR_SUCCESS, Some (length ws + length sg + length ds), Some v)
     else \<exists>k<length ds. ft_parse_int64 (Some (ws @ sg @ ds @ rest)) (Some old)
       = (FT_ERR_OUT_OF_RANGE, Some (length ws + length sg + k), Some old)"
proof -
  let ?s = "ws @ sg @ ds @ rest"
  let ?v = "num_value 10 0 ds"
  let ?L = "if sign_of sg = -1 then 9223372036854775807 + 1 else 9223372036854775807 :: u64"
  have pos: "0 \<le> ?v" using num_value_nonneg [OF nt] by simp
  have fits: "in_signed 64 v \<longleftrightarrow> ?v \<le> uint ?L"
    using pos by (auto simp: v_def in_signed_def sign_of_def)
  have sint: "sint (word_of_int ?v :: u64) = ?v" if "?v < 2 ^ 63"
    using sint_u64_of_small [of ?v] that pos by simp
  have nonmin: "(word_of_int ?v :: u64) = 9223372036854775808 \<longleftrightarrow> ?v = 2 ^ 63" if "?v \<le> 2 ^ 63"
    using that pos uint_u64_of_small [of ?v] by (auto simp: word_eq_iff_unsigned [where ?'a = int])
  have body: "ft_parse_int64 (Some ?s) (Some old) =
     (case parse_digits_loop ?s ?L (length ws + length sg) 0 of
        Inl i \<Rightarrow> (FT_ERR_OUT_OF_RANGE, Some i, Some old)
      | Inr (i, accumulator) \<Rightarrow>
          (FT_ERR_SUCCESS, Some i,
           Some (if sign_of sg = -1
                 then if accumulator = 9223372036854775808 then -9223372036854775808
                      else - sint accumulator
                 else sint accumulator)))"
    by (simp add: ft_parse_int64_def skip_isspace_eq numeral_text_skip [OF nt] dec_char_base_digit
        Let_def)
  have loop: "if ?v \<le> uint ?L
     then parse_digits_loop ?s ?L (length ws + length sg) 0
       = Inr (length ws + length sg + length ds, word_of_int ?v)
     else \<exists>k<length ds. parse_digits_loop ?s ?L (length ws + length sg) 0
       = Inl (length ws + length sg + k)"
    using parse_digits_loop_spec [of ds rest 0 ?L "ws @ sg"] nt
    by (auto simp: numeral_text_def split: if_splits)
  show ?thesis
  proof (cases "?v \<le> uint ?L")
    case True
    with loop have l: "parse_digits_loop ?s ?L (length ws + length sg) 0
       = Inr (length ws + length sg + length ds, word_of_int ?v)" by simp
    have "(if sign_of sg = -1
        then if (word_of_int ?v :: u64) = 9223372036854775808 then -9223372036854775808
             else - sint (word_of_int ?v :: u64)
        else sint (word_of_int ?v :: u64)) = v"
      using True sint nonmin pos by (auto simp: v_def sign_of_def)
    with True fits show ?thesis unfolding body l by simp
  next
    case False
    with loop obtain k where "k < length ds"
      "parse_digits_loop ?s ?L (length ws + length sg) 0 = Inl (length ws + length sg + k)"
      by auto
    with False fits show ?thesis by (auto simp: body)
  qed
qed

lemma ft_parse_uint32_spec:
  assumes nt: "numeral_text 10 ws sg ds rest" and pos: "sg \<noteq> [0x2D]"
  shows "if num_value 10 0 ds < 2 ^ 32
     then ft_parse_uint32 (Some (ws @ sg @ ds @ rest)) (Some old)
       = (FT_ERR_SUCCESS, Some (length ws + length sg + length ds),
          Some (word_of_int (num_value 10 0 ds)))
     else \<exists>k<length ds. ft_parse_uint32 (Some (ws @ sg @ ds @ rest)) (Some old)
       = (FT_ERR_OUT_OF_RANGE, Some (length ws + length sg + k), Some old)"
proof -
  let ?s = "ws @ sg @ ds @ rest"
  let ?v = "num_value 10 0 ds"
  obtain d ds' where ds: "ds = d # ds'" and d: "base_digit 10 d"
    using nt by (cases ds) (auto simp: numeral_text_def)
  have sign: "c_at ?s (length ws) \<noteq> 0x2D"
    "(if c_at ?s (length ws) = 0x2B then length ws + 1 else length ws) = length ws + length sg"
    using nt pos base_digit_not_ws [OF d] by (auto simp: numeral_text_def ds)
  have body: "ft_parse_uint32 (Some ?s) (Some old) =
     (case parse_digits_loop ?s 4294967295 (length ws + length sg) 0 of
        Inl i \<Rightarrow> (FT_ERR_OUT_OF_RANGE, Some i, Some old)
      | Inr (i, accumulator) \<Rightarrow> (FT_ERR_SUCCESS, Some i, Some (ucast accumulator)))"
    using sign numeral_text_skip(3) [OF nt]
    by (simp add: ft_parse_uint32_def skip_isspace_eq numeral_text_skip(1) [OF nt]
        dec_char_base_digit Let_def del: c_at_append_length)
  have "if ?v \<le> 4294967295
     then parse_digits_loop ?s 4294967295 (length ws + length sg) 0
       = Inr (length ws + length sg + length ds, word_of_int ?v)
     else \<exists>k<length ds. parse_digits_loop ?s 4294967295 (length ws + length sg) 0
       = Inl (length ws + length sg + k)"
    using parse_digits_loop_spec [of ds rest 0 4294967295 "ws @ sg"] nt
    by (auto simp: numeral_text_def split: if_splits)
  moreover have "ucast (word_of_int ?v :: u64) = (word_of_int ?v :: u32)"
    by (rule bit_word_eqI) (simp add: bit_simps)
  ultimately show ?thesis by (auto simp: body split: if_splits)
qed

subsection \<open>ft\_validate\_int accepts exactly the 32-bit numerals\<close>

definition int32_magnitude :: "int \<Rightarrow> int" where
  "int32_magnitude sign = (if sign = 1 then 2147483647 else 2147483648)"

lemma c_at_length [simp]: "c_at s (length s) = 0"
  by (simp add: c_at_def)

lemma validate_int_step:
  assumes "sign = 1 \<or> sign = -1" "0 \<le> a" "c \<noteq> 0"
  shows "validate_int_loop (pre @ c # ds) sign (length pre) (sign * a) =
    (if \<not> dec_char c then FT_ERR_INVALID_ARGUMENT
     else if int32_magnitude sign < a * 10 + ft_digit_value c then FT_ERR_OUT_OF_RANGE
     else validate_int_loop ((pre @ [c]) @ ds) sign (length (pre @ [c]))
            (sign * (a * 10 + ft_digit_value c)))"
proof (cases "dec_char c")
  case True
  have d: "0 \<le> ft_digit_value c" "ft_digit_value c \<le> 9"
    using True base_digit_range [of 10 c] by (auto simp: dec_char_base_digit)
  have up: "c_div (2147483647 - ft_digit_value c) 10 < a \<longleftrightarrow> 2147483647 < a * 10 + ft_digit_value c"
    using d digit_limit_iff [of 2147483647 "ft_digit_value c" a] by (simp add: c_div_def)
  have dn: "- a < c_div (-2147483648 + ft_digit_value c) 10
      \<longleftrightarrow> 2147483648 < a * 10 + ft_digit_value c"
    using d digit_limit_iff [of 2147483648 "ft_digit_value c" a] by (simp add: c_div_def)
  have uint: "uint c = ft_digit_value c + 48" using dec_char_value [OF True] by simp
  show ?thesis
    using assms True up dn
    by (subst validate_int_loop.simps)
      (auto simp: uint int32_magnitude_def Let_def distrib_left)
next
  case False
  with assms show ?thesis by (subst validate_int_loop.simps) simp
qed

lemma validate_int_loop_iff:
  assumes "sign = 1 \<or> sign = -1" "0 \<le> a" "a \<le> int32_magnitude sign" "0 \<notin> set ds"
  shows "validate_int_loop (pre @ ds) sign (length pre) (sign * a) = FT_ERR_SUCCESS \<longleftrightarrow>
     list_all dec_char ds \<and> num_value 10 a ds \<le> int32_magnitude sign"
  using assms
proof (induction ds arbitrary: pre a)
  case Nil
  then show ?case by (subst validate_int_loop.simps) simp
next
  case (Cons c ds)
  let ?v = "a * 10 + ft_digit_value c"
  show ?case
  proof (cases "dec_char c \<and> ?v \<le> int32_magnitude sign")
    case True
    moreover have "0 \<le> ?v"
      using True Cons.prems base_digit_range [of 10 c] by (simp add: dec_char_base_digit)
    ultimately show ?thesis
      using Cons.IH [of ?v "pre @ [c]"] Cons.prems validate_int_step [of sign a c pre ds] by simp
  next
    case False
    have "?v \<le> num_value 10 ?v ds" if "dec_char c" "list_all dec_char ds"
      using that Cons.prems num_value_ge [of ?v 10 ds] base_digit_range [of 10 c]
      by (simp add: dec_char_eq_base_digit)
    with False show ?thesis using Cons.prems validate_int_step [of sign a c pre ds] by auto
  qed
qed

lemma validate_int_numeral:
  assumes "0 \<notin> set s" "s = sg @ ds" "sg = [] \<or> sg = [0x2B] \<or> sg = [0x2D]" "ds \<noteq> []"
    and "sg = [] \<Longrightarrow> hd ds \<noteq> 0x2B \<and> hd ds \<noteq> 0x2D"
  shows "ft_validate_int (Some s) = FT_ERR_SUCCESS \<longleftrightarrow>
     list_all dec_char ds \<and> in_signed 32 (sign_of sg * num_value 10 0 ds)"
proof -
  obtain d ds' where ds: "ds = d # ds'" using assms by (cases ds) auto
  have d0: "d \<noteq> 0" using assms ds by auto
  have sign: "parse_sign s 0 = (sign_of sg, length sg)"
    using assms by (auto simp: parse_sign_def sign_of_def ds)
  have at: "c_at s (length sg) = d" using assms by (simp add: ds)
  have "0 \<le> num_value 10 0 ds" if "list_all dec_char ds"
    using that num_value_ge [of 0 10 ds] by (simp add: dec_char_eq_base_digit)
  then have "in_signed 32 (sign_of sg * num_value 10 0 ds) \<longleftrightarrow>
      num_value 10 0 ds \<le> int32_magnitude (sign_of sg)" if "list_all dec_char ds"
    using that by (auto simp: in_signed_def sign_of_def int32_magnitude_def)
  moreover have "ft_validate_int (Some s) = validate_int_loop (sg @ ds) (sign_of sg) (length sg) 0"
    using d0 sign at assms(2) by (simp add: ft_validate_int_def del: c_at_append_length)
  moreover have "sign_of sg = 1 \<or> sign_of sg = -1" by (simp add: sign_of_def)
  moreover have "0 \<notin> set ds" using assms by auto
  ultimately show ?thesis
    using validate_int_loop_iff [of "sign_of sg" 0 ds sg] by (auto simp: int32_magnitude_def)
qed

subsection \<open>Main properties\<close>

text \<open>
  C27: \<open>ft_strtol\<close> on whitespace, an optional sign, an optional base prefix and digits returns the value
  clamped to the range of \<open>int64_t\<close> and sets the end pointer behind the last digit, overflow
  included, for every base from 2 to 36 and for base 0, which reads the base from the text. The one
  exception is the numeral of \<open>INT64_MIN\<close> itself: there the code negates the least value, which is
  undefined, and the end pointer alone is determined.
\<close>

theorem strtol_saturates:
  assumes "numeral_text b ws sg ds rest" "base_prefix asked px (ds @ rest) b"
  shows "ft_strtol (Some (ws @ sg @ px @ ds @ rest)) asked =
     (if sign_of sg * num_value b 0 ds = - (2 ^ 63) then None
      else Some (max (- (2 ^ 63)) (min (sign_of sg * num_value b 0 ds) (2 ^ 63 - 1))),
      Some (length ws + length sg + length px + length ds))"
  using ft_strtol_spec [OF assms] by (simp only: saturate64_def)

theorem strtol_saturates_witness:
  "ft_strtol (Some ([0x20] @ [0x2D] @ [0x30, 0x78] @ [0x31, 0x46] @ [0x7A, 0])) 0 = (Some (- 31), Some 6)
   \<and> ft_strtol (Some ([] @ [0x2D] @ [0x30, 0x78] @ (0x38 # replicate 15 0x30) @ [0])) 16 = (None, Some 19)"
proof -
  have v: "num_value 16 0 [0x31, 0x46] = 31" "num_value 16 0 (0x38 # replicate 15 0x30) = 2 ^ 63" by code_simp+
  have t: "numeral_text 16 [0x20] [0x2D] [0x31, 0x46] [0x7A, 0]" "numeral_text 16 [] [0x2D] (0x38 # replicate 15 0x30) [0]"
    by code_simp+
  have p: "base_prefix 0 [0x30, 0x78] ([0x31, 0x46] @ [0x7A, 0]) 16"
    "base_prefix 16 [0x30, 0x78] ((0x38 # replicate 15 0x30) @ [0]) 16" by code_simp+
  show ?thesis
    using strtol_saturates [OF t(1) p(1)] strtol_saturates [OF t(2) p(2)] v by (simp add: sign_of_def)
qed

text \<open>
  \<open>ft_parse_int64\<close> accepts exactly the numerals in the range of \<open>int64_t\<close>, both
  ends included: it stores the value and the end of the digits, and on any other numeral
  reports \<open>FT_ERR_OUT_OF_RANGE\<close>, stops inside the digits and stores nothing.
\<close>

theorem parse_int64_exact:
  assumes "numeral_text 10 ws sg ds rest"
  shows "if in_signed 64 (sign_of sg * num_value 10 0 ds)
     then ft_parse_int64 (Some (ws @ sg @ ds @ rest)) (Some old)
       = (FT_ERR_SUCCESS, Some (length ws + length sg + length ds),
          Some (sign_of sg * num_value 10 0 ds))
     else \<exists>k<length ds. ft_parse_int64 (Some (ws @ sg @ ds @ rest)) (Some old)
       = (FT_ERR_OUT_OF_RANGE, Some (length ws + length sg + k), Some old)"
  using ft_parse_int64_spec [OF assms] .

theorem parse_int64_exact_witness:
  "if in_signed 64 (sign_of [0x2D] * num_value 10 0 [0x34, 0x32])
     then ft_parse_int64 (Some ([] @ [0x2D] @ [0x34, 0x32] @ [0])) (Some 0)
       = (FT_ERR_SUCCESS, Some (length ([] :: bytes) + length [0x2D :: u8] + length [0x34, 0x32 :: u8]),
          Some (sign_of [0x2D] * num_value 10 0 [0x34, 0x32]))
     else \<exists>k<length [0x34, 0x32 :: u8]. ft_parse_int64 (Some ([] @ [0x2D] @ [0x34, 0x32] @ [0])) (Some 0)
       = (FT_ERR_OUT_OF_RANGE, Some (length ([] :: bytes) + length [0x2D :: u8] + k), Some 0)"
  by (rule parse_int64_exact) code_simp

text \<open>
  \<open>ft_atoi\<close> returns the signed value of a decimal numeral whose magnitude is below
  \<open>2 ^ 31\<close>; on every larger magnitude, the representable \<open>-2147483648\<close> included, its
  arithmetic leaves \<open>int32_t\<close>, which is undefined in C++.
\<close>

theorem atoi_correct:
  assumes "numeral_text 10 ws sg ds rest"
  shows "ft_atoi (Some (ws @ sg @ ds @ rest)) =
    (if num_value 10 0 ds < 2 ^ 31 then Some (sign_of sg * num_value 10 0 ds) else None)"
  using assms by (rule ft_atoi_spec)

theorem atoi_correct_witness:
  "ft_atoi (Some ([] @ [0x2D] @ [0x32, 0x31, 0x34, 0x37, 0x34, 0x38, 0x33, 0x36, 0x34, 0x38] @ [0])) =
    (if num_value 10 0 [0x32, 0x31, 0x34, 0x37, 0x34, 0x38, 0x33, 0x36, 0x34, 0x38] < 2 ^ 31
     then Some (sign_of [0x2D] * num_value 10 0 [0x32, 0x31, 0x34, 0x37, 0x34, 0x38, 0x33, 0x36, 0x34, 0x38])
     else None)"
  by (rule atoi_correct) code_simp

end
