(* ===== verification/Basic_Utf8.thy ===== *)
theory Basic_Utf8
  imports Basic_String
begin

text \<open>
  UTF-8 of \<^verbatim>\<open>src/Modules/Basic/basic_utf8_{decode,encode,length,validate}.cpp\<close>. The three
  out parameters of \<open>ft_utf8_next\<close> are cells (\<^term>\<open>None\<close> for a null pointer) that the
  operation returns updated. The main result is that \<open>ft_utf8_validate\<close> accepts exactly
  the concatenations of encoded Unicode scalar values, so overlong forms, surrogates and
  truncated sequences are all rejected.
\<close>

subsection \<open>Decoding\<close>

definition utf8_trailing :: "u8 \<Rightarrow> bool" where
  "utf8_trailing byte_value \<longleftrightarrow> byte_value AND 0xC0 = 0x80"

text \<open>Expected length, initial value and least value of the sequence a first byte opens.\<close>

definition ft_utf8_detect_sequence :: "u8 \<Rightarrow> (nat \<times> u32 \<times> u32) option" where
  "ft_utf8_detect_sequence first_byte =
     (if first_byte \<le> 0x7F then Some (1, ucast first_byte, 0)
      else if first_byte AND 0xE0 = 0xC0 then Some (2, ucast (first_byte AND 0x1F), 0x80)
      else if first_byte AND 0xF0 = 0xE0 then Some (3, ucast (first_byte AND 0x0F), 0x800)
      else if first_byte AND 0xF8 = 0xF0 then Some (4, ucast (first_byte AND 0x07), 0x10000)
      else None)"

function utf8_continuation_loop :: "bytes \<Rightarrow> nat \<Rightarrow> nat \<Rightarrow> nat \<Rightarrow> u32 \<Rightarrow> u32 option" where
  "utf8_continuation_loop s current_index expected_length processed_bytes decoded_value =
     (if processed_bytes < expected_length
      then (let continuation = c_at s (current_index + processed_bytes)
            in if \<not> utf8_trailing continuation then None
               else utf8_continuation_loop s current_index expected_length (processed_bytes + 1)
                      (push_bit 6 decoded_value OR ucast (continuation AND 0x3F)))
      else Some decoded_value)"
  by pat_completeness auto
termination
  by (relation "measure (\<lambda>(s, i, e, p, v). e - p)") auto

declare utf8_continuation_loop.simps [simp del]

definition utf8_decode_at :: "bytes \<Rightarrow> nat \<Rightarrow> nat \<Rightarrow> ft_err + u32 \<times> nat" where
  "utf8_decode_at s string_length current_index =
     (if current_index \<ge> string_length then Inl FT_ERR_OUT_OF_RANGE
      else case ft_utf8_detect_sequence (c_at s current_index) of
        None \<Rightarrow> Inl FT_ERR_INVALID_ARGUMENT
      | Some (expected_length, initial_value, minimum_value) \<Rightarrow>
          if current_index + expected_length > string_length then Inl FT_ERR_OUT_OF_RANGE
          else case utf8_continuation_loop s current_index expected_length 1 initial_value of
            None \<Rightarrow> Inl FT_ERR_INVALID_ARGUMENT
          | Some decoded_value \<Rightarrow>
              if decoded_value < minimum_value \<or> decoded_value > 0x10FFFF
              then Inl FT_ERR_INVALID_ARGUMENT
              else if decoded_value \<ge> 0xD800 \<and> decoded_value \<le> 0xDFFF
              then Inl FT_ERR_INVALID_ARGUMENT
              else Inr (decoded_value, expected_length))"

definition ft_utf8_next ::
  "ptr \<Rightarrow> nat \<Rightarrow> nat option \<Rightarrow> u32 option \<Rightarrow> nat option
     \<Rightarrow> ft_err \<times> nat option \<times> u32 option \<times> nat option" where
  "ft_utf8_next string string_length index_pointer code_point_pointer sequence_length_pointer =
     (case (string, index_pointer, code_point_pointer) of
        (Some s, Some current_index, Some _) \<Rightarrow>
          (case utf8_decode_at s string_length current_index of
             Inl e \<Rightarrow> (e, index_pointer, code_point_pointer, sequence_length_pointer)
           | Inr (decoded_value, expected_length) \<Rightarrow>
               (FT_ERR_SUCCESS, Some (current_index + expected_length), Some decoded_value,
                map_option (\<lambda>_. expected_length) sequence_length_pointer))
      | _ \<Rightarrow> (FT_ERR_INVALID_POINTER, index_pointer, code_point_pointer, sequence_length_pointer))"

subsection \<open>Encoding\<close>

definition utf8_bytes :: "u32 \<Rightarrow> bytes" where
  "utf8_bytes code_point =
     (if code_point \<le> 0x7F then [ucast code_point]
      else if code_point \<le> 0x7FF
      then [ucast (0xC0 OR (drop_bit 6 code_point AND 0x1F)),
            ucast (0x80 OR (code_point AND 0x3F))]
      else if code_point \<le> 0xFFFF
      then [ucast (0xE0 OR (drop_bit 12 code_point AND 0x0F)),
            ucast (0x80 OR (drop_bit 6 code_point AND 0x3F)),
            ucast (0x80 OR (code_point AND 0x3F))]
      else [ucast (0xF0 OR (drop_bit 18 code_point AND 0x07)),
            ucast (0x80 OR (drop_bit 12 code_point AND 0x3F)),
            ucast (0x80 OR (drop_bit 6 code_point AND 0x3F)),
            ucast (0x80 OR (code_point AND 0x3F))])"

definition ft_utf8_encode :: "u32 \<Rightarrow> ptr \<Rightarrow> nat \<Rightarrow> nat option \<Rightarrow> ft_err \<times> ptr \<times> nat option" where
  "ft_utf8_encode code_point buffer buffer_size encoded_length_pointer =
     (if buffer = None \<and> buffer_size \<noteq> 0
      then (FT_ERR_INVALID_POINTER, buffer, encoded_length_pointer)
      else if code_point > 0x10FFFF then (FT_ERR_OUT_OF_RANGE, buffer, encoded_length_pointer)
      else if code_point \<ge> 0xD800 \<and> code_point \<le> 0xDFFF
      then (FT_ERR_INVALID_ARGUMENT, buffer, encoded_length_pointer)
      else let required_length =
                 (if code_point \<le> 0x7F then 1 else if code_point \<le> 0x7FF then 2
                  else if code_point \<le> 0xFFFF then 3 else 4)
           in if buffer_size \<le> required_length
              then (FT_ERR_OUT_OF_RANGE, buffer, encoded_length_pointer)
              else (FT_ERR_SUCCESS,
                    map_option (\<lambda>b. (write_block b 0 (utf8_bytes code_point))[required_length := 0])
                      buffer,
                    map_option (\<lambda>_. required_length) encoded_length_pointer))"

subsection \<open>Counting and validating\<close>

lemma utf8_decode_at_progress: "utf8_decode_at s n i = Inr (v, l) \<Longrightarrow> i < n \<and> 0 < l \<and> i + l \<le> n"
  by (auto simp: utf8_decode_at_def ft_utf8_detect_sequence_def
      split: if_splits option.splits prod.splits)

lemma utf8_decode_at_error: "utf8_decode_at s n i = Inl e \<Longrightarrow> e \<noteq> FT_ERR_SUCCESS"
  by (auto simp: utf8_decode_at_def split: if_splits option.splits prod.splits)

text \<open>
  The loops call \<open>ft_utf8_next\<close> with valid cells: the local \<open>index\<close>, \<open>code_point\<close> and
  \<open>sequence_length\<close>.
\<close>

function utf8_walk :: "bytes \<Rightarrow> nat \<Rightarrow> nat \<Rightarrow> nat \<Rightarrow> ft_err + nat" where
  "utf8_walk s len index count =
     (if index < len
      then case ft_utf8_next (Some s) len (Some index) (Some 0) (Some 0) of
             (error_code, index_cell, _, _) \<Rightarrow>
               if error_code \<noteq> FT_ERR_SUCCESS then Inl error_code
               else utf8_walk s len (the index_cell) (count + 1)
      else Inr count)"
  by pat_completeness auto
termination
  by (relation "measure (\<lambda>(s, n, i, c). n - i)")
    (auto simp: ft_utf8_next_def split: sum.splits dest!: utf8_decode_at_progress dest: utf8_decode_at_error)

declare utf8_walk.simps [simp del]

definition ft_utf8_count :: "ptr \<Rightarrow> nat option \<Rightarrow> ft_err \<times> nat option" where
  "ft_utf8_count string code_point_count_pointer =
     (case (string, code_point_count_pointer) of
        (Some s, Some _) \<Rightarrow>
          (case utf8_walk s (ft_strlen_size_t string) 0 0 of
             Inl e \<Rightarrow> (e, code_point_count_pointer)
           | Inr count \<Rightarrow> (FT_ERR_SUCCESS, Some count))
      | _ \<Rightarrow> (FT_ERR_INVALID_POINTER, code_point_count_pointer))"

definition ft_utf8_validate :: "ptr \<Rightarrow> nat \<Rightarrow> ft_err" where
  "ft_utf8_validate string len =
     (case string of
        None \<Rightarrow> if len \<noteq> 0 then FT_ERR_INVALID_POINTER else FT_ERR_SUCCESS
      | Some s \<Rightarrow> (case utf8_walk s len 0 0 of Inl e \<Rightarrow> e | Inr _ \<Rightarrow> FT_ERR_SUCCESS))"

subsection \<open>One sequence\<close>

definition scalar_value :: "u32 \<Rightarrow> bool" where
  "scalar_value v \<longleftrightarrow> v \<le> 0x10FFFF \<and> \<not> (0xD800 \<le> v \<and> v \<le> 0xDFFF)"

lemma bit_above_bound:
  assumes "unat (v :: 'a::len word) < 2 ^ n" "n \<le> k"
  shows "\<not> bit v k"
proof -
  have "unat v < 2 ^ k" using assms by (meson less_le_trans one_le_numeral power_increasing)
  then have "\<not> bit (unat v) k" by (simp add: bit_iff_odd)
  then show ?thesis by (auto simp: bit_simps dest: bit_imp_le_length)
qed

lemma u8_bit7_high: "bit (b :: u8) 7 \<Longrightarrow> \<not> b \<le> 0x7F"
  using bit_above_bound [of b 7 7] by (auto simp: word_le_nat_alt)

lemmas utf8_bits = bit_simps upt_rec bit_blast u8_eq_bits utf8_trailing_def

lemma decode2:
  fixes b0 b1 :: u8
  assumes "b0 AND 0xE0 = 0xC0" "b1 AND 0xC0 = 0x80"
  defines "v \<equiv> push_bit 6 (ucast (b0 AND 0x1F)) OR ucast (b1 AND 0x3F) :: u32"
  shows "v AND 0x7FF = v" "ucast (0xC0 OR (drop_bit 6 v AND 0x1F)) = b0"
    "ucast (0x80 OR (v AND 0x3F)) = b1"
  subgoal by (rule u32_eqI) (simp add: v_def bit_simps upt_rec bit_blast)
  subgoal using assms by (simp add: utf8_bits)
  subgoal using assms by (simp add: utf8_bits)
  done

lemma decode3:
  fixes b0 b1 b2 :: u8
  assumes "b0 AND 0xF0 = 0xE0" "b1 AND 0xC0 = 0x80" "b2 AND 0xC0 = 0x80"
  defines "v \<equiv> push_bit 6 (push_bit 6 (ucast (b0 AND 0x0F)) OR ucast (b1 AND 0x3F))
                 OR ucast (b2 AND 0x3F) :: u32"
  shows "v AND 0xFFFF = v" "ucast (0xE0 OR (drop_bit 12 v AND 0x0F)) = b0"
    "ucast (0x80 OR (drop_bit 6 v AND 0x3F)) = b1" "ucast (0x80 OR (v AND 0x3F)) = b2"
  subgoal by (rule u32_eqI) (simp add: v_def bit_simps upt_rec bit_blast)
  subgoal using assms by (simp add: utf8_bits)
  subgoal using assms by (simp add: utf8_bits)
  subgoal using assms by (simp add: utf8_bits)
  done

lemma decode4:
  fixes b0 b1 b2 b3 :: u8
  assumes "b0 AND 0xF8 = 0xF0" "b1 AND 0xC0 = 0x80" "b2 AND 0xC0 = 0x80" "b3 AND 0xC0 = 0x80"
  defines "v \<equiv> push_bit 6 (push_bit 6 (push_bit 6 (ucast (b0 AND 0x07)) OR ucast (b1 AND 0x3F))
                 OR ucast (b2 AND 0x3F)) OR ucast (b3 AND 0x3F) :: u32"
  shows "ucast (0xF0 OR (drop_bit 18 v AND 0x07)) = b0"
    "ucast (0x80 OR (drop_bit 12 v AND 0x3F)) = b1"
    "ucast (0x80 OR (drop_bit 6 v AND 0x3F)) = b2" "ucast (0x80 OR (v AND 0x3F)) = b3"
  subgoal using assms by (simp add: utf8_bits)
  subgoal using assms by (simp add: utf8_bits)
  subgoal using assms by (simp add: utf8_bits)
  subgoal using assms by (simp add: utf8_bits)
  done

lemma encode1:
  fixes v :: u32
  assumes "v \<le> 0x7F"
  shows "(ucast v :: u8) \<le> 0x7F" "ucast (ucast v :: u8) = v"
proof -
  have hi: "\<not> bit v k" if "7 \<le> k" for k
    using bit_above_bound [of v 7 k] assms that by (simp add: word_le_nat_alt)
  show "ucast (ucast v :: u8) = v"
    by (rule u32_eqI) (simp add: bit_simps upt_rec hi bit_blast)
  have "(ucast v :: u8) = ucast v AND 0x7F"
    by (rule u8_eqI) (simp add: bit_simps upt_rec hi bit_blast)
  then show "(ucast v :: u8) \<le> 0x7F" by (metis word_and_le1)
qed

lemma encode2:
  fixes v :: u32
  assumes "v \<le> 0x7FF"
  defines "b0 \<equiv> ucast (0xC0 OR (drop_bit 6 v AND 0x1F)) :: u8"
    and "b1 \<equiv> ucast (0x80 OR (v AND 0x3F)) :: u8"
  shows "b0 AND 0xE0 = 0xC0" "\<not> b0 \<le> 0x7F" "b1 AND 0xC0 = 0x80"
    "push_bit 6 (ucast (b0 AND 0x1F)) OR ucast (b1 AND 0x3F) = v"
proof -
  have hi: "\<not> bit v k" if "11 \<le> k" for k
    using bit_above_bound [of v 11 k] assms that by (simp add: word_le_nat_alt)
  show "b0 AND 0xE0 = 0xC0" unfolding b0_def by (simp add: utf8_bits)
  show "\<not> b0 \<le> 0x7F" unfolding b0_def by (rule u8_bit7_high) (simp add: bit_simps)
  show "b1 AND 0xC0 = 0x80" unfolding b1_def by (simp add: utf8_bits)
  show "push_bit 6 (ucast (b0 AND 0x1F)) OR ucast (b1 AND 0x3F) = v"
    by (rule u32_eqI) (simp add: b0_def b1_def bit_simps upt_rec hi bit_blast)
qed

lemma encode3:
  fixes v :: u32
  assumes "v \<le> 0xFFFF"
  defines "b0 \<equiv> ucast (0xE0 OR (drop_bit 12 v AND 0x0F)) :: u8"
    and "b1 \<equiv> ucast (0x80 OR (drop_bit 6 v AND 0x3F)) :: u8"
    and "b2 \<equiv> ucast (0x80 OR (v AND 0x3F)) :: u8"
  shows "b0 AND 0xF0 = 0xE0" "b0 AND 0xE0 \<noteq> 0xC0" "\<not> b0 \<le> 0x7F"
    "b1 AND 0xC0 = 0x80" "b2 AND 0xC0 = 0x80"
    "push_bit 6 (push_bit 6 (ucast (b0 AND 0x0F)) OR ucast (b1 AND 0x3F)) OR ucast (b2 AND 0x3F) = v"
proof -
  have hi: "\<not> bit v k" if "16 \<le> k" for k
    using bit_above_bound [of v 16 k] assms that by (simp add: word_le_nat_alt)
  show "b0 AND 0xF0 = 0xE0" "b0 AND 0xE0 \<noteq> 0xC0" unfolding b0_def by (simp_all add: utf8_bits)
  show "\<not> b0 \<le> 0x7F" unfolding b0_def by (rule u8_bit7_high) (simp add: bit_simps)
  show "b1 AND 0xC0 = 0x80" "b2 AND 0xC0 = 0x80"
    unfolding b1_def b2_def by (simp_all add: utf8_bits)
  show "push_bit 6 (push_bit 6 (ucast (b0 AND 0x0F)) OR ucast (b1 AND 0x3F))
     OR ucast (b2 AND 0x3F) = v"
    by (rule u32_eqI) (simp add: b0_def b1_def b2_def bit_simps upt_rec hi bit_blast)
qed

lemma encode4:
  fixes v :: u32
  assumes "v \<le> 0x10FFFF"
  defines "b0 \<equiv> ucast (0xF0 OR (drop_bit 18 v AND 0x07)) :: u8"
    and "b1 \<equiv> ucast (0x80 OR (drop_bit 12 v AND 0x3F)) :: u8"
    and "b2 \<equiv> ucast (0x80 OR (drop_bit 6 v AND 0x3F)) :: u8"
    and "b3 \<equiv> ucast (0x80 OR (v AND 0x3F)) :: u8"
  shows "b0 AND 0xF8 = 0xF0" "b0 AND 0xF0 \<noteq> 0xE0" "b0 AND 0xE0 \<noteq> 0xC0" "\<not> b0 \<le> 0x7F"
    "b1 AND 0xC0 = 0x80" "b2 AND 0xC0 = 0x80" "b3 AND 0xC0 = 0x80"
    "push_bit 6 (push_bit 6 (push_bit 6 (ucast (b0 AND 0x07)) OR ucast (b1 AND 0x3F))
       OR ucast (b2 AND 0x3F)) OR ucast (b3 AND 0x3F) = v"
proof -
  have hi: "\<not> bit v k" if "21 \<le> k" for k
    using bit_above_bound [of v 21 k] assms that by (simp add: word_le_nat_alt)
  show "b0 AND 0xF8 = 0xF0" "b0 AND 0xF0 \<noteq> 0xE0" "b0 AND 0xE0 \<noteq> 0xC0"
    unfolding b0_def by (simp_all add: utf8_bits)
  show "\<not> b0 \<le> 0x7F" unfolding b0_def by (rule u8_bit7_high) (simp add: bit_simps)
  show "b1 AND 0xC0 = 0x80" "b2 AND 0xC0 = 0x80" "b3 AND 0xC0 = 0x80"
    unfolding b1_def b2_def b3_def by (simp_all add: utf8_bits)
  show "push_bit 6 (push_bit 6 (push_bit 6 (ucast (b0 AND 0x07)) OR ucast (b1 AND 0x3F))
     OR ucast (b2 AND 0x3F)) OR ucast (b3 AND 0x3F) = v"
    by (rule u32_eqI) (simp add: b0_def b1_def b2_def b3_def bit_simps upt_rec hi bit_blast)
qed

text \<open>The continuation loop, unrolled for the three lengths it runs with.\<close>

lemma utf8_loop_unrolled:
  "utf8_continuation_loop s i (Suc 0) (Suc 0) v = Some v"
  "utf8_continuation_loop s i 2 (Suc 0) v =
     (if utf8_trailing (c_at s (i + 1)) then Some (push_bit 6 v OR ucast (c_at s (i + 1) AND 0x3F))
      else None)"
  "utf8_continuation_loop s i 3 (Suc 0) v =
     (if utf8_trailing (c_at s (i + 1)) \<and> utf8_trailing (c_at s (i + 2))
      then Some (push_bit 6 (push_bit 6 v OR ucast (c_at s (i + 1) AND 0x3F))
             OR ucast (c_at s (i + 2) AND 0x3F))
      else None)"
  "utf8_continuation_loop s i 4 (Suc 0) v =
     (if utf8_trailing (c_at s (i + 1)) \<and> utf8_trailing (c_at s (i + 2))
           \<and> utf8_trailing (c_at s (i + 3))
      then Some (push_bit 6 (push_bit 6 (push_bit 6 v OR ucast (c_at s (i + 1) AND 0x3F))
             OR ucast (c_at s (i + 2) AND 0x3F)) OR ucast (c_at s (i + 3) AND 0x3F))
      else None)"
  by (simp_all add: utf8_continuation_loop.simps Let_def eval_nat_numeral)

lemma take_drop_at:
  "i + 1 \<le> length s \<Longrightarrow> take (Suc 0) (drop i s) = [c_at s i]"
  "i + 2 \<le> length s \<Longrightarrow> take 2 (drop i s) = [c_at s i, c_at s (i + 1)]"
  "i + 3 \<le> length s \<Longrightarrow> take 3 (drop i s) = [c_at s i, c_at s (i + 1), c_at s (i + 2)]"
  "i + 4 \<le> length s \<Longrightarrow>
     take 4 (drop i s) = [c_at s i, c_at s (i + 1), c_at s (i + 2), c_at s (i + 3)]"
  by (simp_all add: c_at_def list_eq_iff_nth_eq less_Suc_eq eval_nat_numeral)

lemma utf8_bytes_len: "length (utf8_bytes v) \<in> {1, 2, 3, 4}"
  by (simp add: utf8_bytes_def)

lemma utf8_decode_at_sound:
  assumes dec: "utf8_decode_at s n i = Inr (v, l)" and n: "n \<le> length s"
  shows "scalar_value v \<and> l = length (utf8_bytes v) \<and> i + l \<le> n \<and> take l (drop i s) = utf8_bytes v"
proof -
  obtain a m where det: "ft_utf8_detect_sequence (c_at s i) = Some (l, a, m)"
    and il: "i + l \<le> n" and loop: "utf8_continuation_loop s i l 1 a = Some v"
    and range: "m \<le> v" and sv: "scalar_value v"
    using dec by (auto simp: utf8_decode_at_def scalar_value_def not_less
        split: if_splits option.splits prod.splits)
  have tk: "i + l \<le> length s" using il n by simp
  let ?b = "\<lambda>k. c_at s (i + k)"
  from det consider
      "?b 0 \<le> 0x7F" "l = 1" "a = ucast (?b 0)"
    | "?b 0 AND 0xE0 = 0xC0" "l = 2" "a = ucast (?b 0 AND 0x1F)" "m = 0x80"
    | "?b 0 AND 0xF0 = 0xE0" "l = 3" "a = ucast (?b 0 AND 0x0F)" "m = 0x800"
    | "?b 0 AND 0xF8 = 0xF0" "l = 4" "a = ucast (?b 0 AND 0x07)" "m = 0x10000"
    by (auto simp: ft_utf8_detect_sequence_def split: if_splits)
  then have "take l (drop i s) = utf8_bytes v \<and> l = length (utf8_bytes v)"
  proof cases
    case 1
    then have v: "v = ucast (?b 0)" using loop by (simp add: utf8_loop_unrolled)
    have "unat (?b 0) < 2 ^ 32" using 1 by (simp add: word_le_nat_alt)
    then have "v \<le> 0x7F" using 1 by (simp add: v word_le_nat_alt unsigned_ucast_eq take_bit_nat_eq_self)
    moreover have "ucast v = ?b 0"
      unfolding v by (rule u8_eqI) (simp add: bit_simps upt_rec bit_blast)
    ultimately show ?thesis using 1 tk by (simp add: utf8_bytes_def take_drop_at)
  next
    case 2
    then have tr: "?b 1 AND 0xC0 = 0x80"
      and v: "v = push_bit 6 (ucast (?b 0 AND 0x1F)) OR ucast (?b 1 AND 0x3F)"
      using loop by (auto simp: utf8_loop_unrolled utf8_trailing_def split: if_splits)
    note d = decode2 [OF 2(1) tr, folded v]
    have "v \<le> 0x7FF" using d(1) by (metis word_and_le1)
    moreover have "\<not> v \<le> 0x7F" using range 2 by (simp add: word_le_nat_alt)
    ultimately show ?thesis using 2 tk d by (simp add: utf8_bytes_def take_drop_at)
  next
    case 3
    then have tr: "?b 1 AND 0xC0 = 0x80" "?b 2 AND 0xC0 = 0x80"
      and v: "v = push_bit 6 (push_bit 6 (ucast (?b 0 AND 0x0F)) OR ucast (?b 1 AND 0x3F))
                    OR ucast (?b 2 AND 0x3F)"
      using loop by (auto simp: utf8_loop_unrolled utf8_trailing_def split: if_splits)
    note d = decode3 [OF 3(1) tr, folded v]
    have "v \<le> 0xFFFF" using d(1) by (metis word_and_le1)
    moreover have "\<not> v \<le> 0x7FF" "\<not> v \<le> 0x7F" using range 3 by (simp_all add: word_le_nat_alt)
    ultimately show ?thesis using 3 tk d by (simp add: utf8_bytes_def take_drop_at)
  next
    case 4
    then have tr: "?b 1 AND 0xC0 = 0x80" "?b 2 AND 0xC0 = 0x80" "?b 3 AND 0xC0 = 0x80"
      and v: "v = push_bit 6 (push_bit 6 (push_bit 6 (ucast (?b 0 AND 0x07)) OR ucast (?b 1 AND 0x3F))
                    OR ucast (?b 2 AND 0x3F)) OR ucast (?b 3 AND 0x3F)"
      using loop by (auto simp: utf8_loop_unrolled utf8_trailing_def split: if_splits)
    note d = decode4 [OF 4(1) tr, folded v]
    have "\<not> v \<le> 0xFFFF" "\<not> v \<le> 0x7FF" "\<not> v \<le> 0x7F"
      using range 4 by (simp_all add: word_le_nat_alt)
    then show ?thesis using 4 tk d by (simp add: utf8_bytes_def take_drop_at)
  qed
  then show ?thesis using sv il by blast
qed

lemma utf8_decode_at_complete:
  assumes sv: "scalar_value v" and n: "i + length (utf8_bytes v) \<le> n" "n \<le> length s"
    and at: "take (length (utf8_bytes v)) (drop i s) = utf8_bytes v"
  shows "utf8_decode_at s n i = Inr (v, length (utf8_bytes v))"
proof -
  have v: "v \<le> 0x10FFFF" "\<not> 0x10FFFF < v" "\<not> (0xD800 \<le> v \<and> v \<le> 0xDFFF)"
    using sv by (auto simp: scalar_value_def)
  consider "v \<le> 0x7F" | "\<not> v \<le> 0x7F" "v \<le> 0x7FF" | "\<not> v \<le> 0x7FF" "v \<le> 0xFFFF" | "\<not> v \<le> 0xFFFF"
    by blast
  then show ?thesis
  proof cases
    case 1
    then have len: "length (utf8_bytes v) = 1" by (simp add: utf8_bytes_def)
    have "c_at s i = ucast v" "i < n" "i + 1 \<le> n"
      using n [unfolded len] at [unfolded len] 1 by (simp_all add: take_drop_at utf8_bytes_def)
    with 1 v encode1 [OF 1] show ?thesis
      by (simp add: utf8_decode_at_def ft_utf8_detect_sequence_def utf8_loop_unrolled utf8_bytes_def)
  next
    case 2
    then have len: "length (utf8_bytes v) = 2" by (simp add: utf8_bytes_def)
    have "c_at s i = ucast (0xC0 OR (drop_bit 6 v AND 0x1F))"
      "c_at s (Suc i) = ucast (0x80 OR (v AND 0x3F))" "i < n" "i + 2 \<le> n"
      using n [unfolded len] at [unfolded len] 2 by (simp_all add: take_drop_at utf8_bytes_def)
    moreover have "\<not> v < 0x80" using 2 by (simp add: word_le_nat_alt word_less_nat_alt)
    ultimately show ?thesis using 2 v encode2 [OF 2(2)]
      by (simp add: utf8_decode_at_def ft_utf8_detect_sequence_def utf8_loop_unrolled
          utf8_trailing_def utf8_bytes_def)
  next
    case 3
    then have nn: "\<not> v \<le> 0x7F" "\<not> v < 0x800" by (simp_all add: word_le_nat_alt word_less_nat_alt)
    then have len: "length (utf8_bytes v) = 3" using 3 by (simp add: utf8_bytes_def)
    have "c_at s i = ucast (0xE0 OR (drop_bit 12 v AND 0x0F))"
      "c_at s (Suc i) = ucast (0x80 OR (drop_bit 6 v AND 0x3F))"
      "c_at s (i + 2) = ucast (0x80 OR (v AND 0x3F))" "i < n" "i + 3 \<le> n"
      using n [unfolded len] at [unfolded len] 3 nn by (simp_all add: take_drop_at utf8_bytes_def)
    then show ?thesis using 3 nn v encode3 [OF 3(2)]
      by (simp add: utf8_decode_at_def ft_utf8_detect_sequence_def utf8_loop_unrolled
          utf8_trailing_def utf8_bytes_def)
  next
    case 4
    then have nn: "\<not> v \<le> 0x7F" "\<not> v \<le> 0x7FF" "\<not> v < 0x10000"
      by (simp_all add: word_le_nat_alt word_less_nat_alt)
    then have len: "length (utf8_bytes v) = 4" using 4 by (simp add: utf8_bytes_def)
    have "c_at s i = ucast (0xF0 OR (drop_bit 18 v AND 0x07))"
      "c_at s (Suc i) = ucast (0x80 OR (drop_bit 12 v AND 0x3F))"
      "c_at s (i + 2) = ucast (0x80 OR (drop_bit 6 v AND 0x3F))"
      "c_at s (i + 3) = ucast (0x80 OR (v AND 0x3F))" "i < n" "i + 4 \<le> n"
      using n [unfolded len] at [unfolded len] 4 nn by (simp_all add: take_drop_at utf8_bytes_def)
    then show ?thesis using 4 nn v encode4 [OF v(1)]
      by (simp add: utf8_decode_at_def ft_utf8_detect_sequence_def utf8_loop_unrolled
          utf8_trailing_def utf8_bytes_def)
  qed
qed

subsection \<open>Whole strings\<close>

definition utf8_text :: "u32 list \<Rightarrow> bytes" where
  "utf8_text cps = concat (map utf8_bytes cps)"

lemma utf8_walk_step:
  assumes "i < n"
  shows "utf8_walk s n i c = (case utf8_decode_at s n i of
     Inl e \<Rightarrow> Inl e | Inr (v, l) \<Rightarrow> utf8_walk s n (i + l) (c + 1))"
  using assms
  by (subst utf8_walk.simps)
    (auto simp: ft_utf8_next_def split: sum.splits dest: utf8_decode_at_error)

lemma utf8_walk_text:
  assumes "list_all scalar_value cps" "take (n - i) (drop i s) = utf8_text cps"
    and "i \<le> n" "n \<le> length s"
  shows "utf8_walk s n i c = Inr (c + length cps)"
  using assms
proof (induction cps arbitrary: i c)
  case Nil
  then have "n \<le> i" by (auto simp: utf8_text_def)
  then show ?case by (subst utf8_walk.simps) simp
next
  case (Cons v cps)
  let ?l = "length (utf8_bytes v)"
  have tx: "take (n - i) (drop i s) = utf8_bytes v @ utf8_text cps"
    using Cons.prems by (simp add: utf8_text_def)
  have len: "n - i = ?l + length (utf8_text cps)"
    using arg_cong [OF tx, of length] Cons.prems(3,4) by simp
  have l: "0 < ?l" using utf8_bytes_len [of v] by auto
  have at: "take ?l (drop i s) = utf8_bytes v"
    using arg_cong [OF tx, of "take ?l"] len by (simp add: min_def)
  have rest: "take (n - (i + ?l)) (drop (i + ?l) s) = utf8_text cps"
    using arg_cong [OF tx, of "drop ?l"] by (simp add: drop_take add.commute)
  have il: "i < n" "i + ?l \<le> n" using len Cons.prems(3) l by linarith+
  have "utf8_decode_at s n i = Inr (v, ?l)"
    using Cons.prems len at by (intro utf8_decode_at_complete) auto
  then show ?case
    using utf8_walk_step [of i n s c] Cons.IH [of "i + ?l" "c + 1"] Cons.prems rest il by auto
qed

lemma utf8_walk_accepts:
  assumes "utf8_walk s n i c = Inr c'" "i \<le> n" "n \<le> length s"
  shows "\<exists>cps. list_all scalar_value cps \<and> take (n - i) (drop i s) = utf8_text cps"
  using assms
proof (induction "n - i" arbitrary: i c rule: less_induct)
  case less
  show ?case
  proof (cases "i < n")
    case False
    with less.prems show ?thesis by (intro exI [of _ "[]"]) (simp add: utf8_text_def)
  next
    case True
    obtain v l where dec: "utf8_decode_at s n i = Inr (v, l)"
      and walk: "utf8_walk s n (i + l) (c + 1) = Inr c'"
      using less.prems utf8_walk_step [OF True, of s c] by (auto split: sum.splits)
    note snd = utf8_decode_at_sound [OF dec less.prems(3)]
    have l: "0 < l" using snd utf8_bytes_len [of v] by auto
    have "n - (i + l) < n - i" using l snd by linarith
    then obtain cps where cps: "list_all scalar_value cps" "take (n - (i + l)) (drop (i + l) s) = utf8_text cps"
      using less.hyps [of "i + l" "c + 1"] walk snd less.prems by blast
    have "n - i = l + (n - (i + l))" using snd by simp
    then have "take (n - i) (drop i s) = take l (drop i s) @ take (n - (i + l)) (drop (i + l) s)"
      by (metis take_add drop_drop add.commute)
    also have "\<dots> = utf8_bytes v @ utf8_text cps" using snd cps by argo
    finally have "take (n - i) (drop i s) = utf8_text (v # cps)" by (simp add: utf8_text_def)
    moreover have "list_all scalar_value (v # cps)" using snd cps by simp
    ultimately show ?thesis by blast
  qed
qed

lemma utf8_walk_error: "utf8_walk s n i c = Inl e \<Longrightarrow> e \<noteq> FT_ERR_SUCCESS"
proof (induction "n - i" arbitrary: i c rule: less_induct)
  case less
  then have i: "i < n" by (subst (asm) utf8_walk.simps) (simp split: if_splits)
  show ?case
  proof (cases "utf8_decode_at s n i")
    case (Inl e')
    then show ?thesis
      using less.prems utf8_walk_step [OF i, of s c] utf8_decode_at_error [OF Inl] by simp
  next
    case (Inr r)
    then obtain v l where dec: "utf8_decode_at s n i = Inr (v, l)" by (cases r) simp
    have "n - (i + l) < n - i" using utf8_decode_at_progress [OF dec] by linarith
    then show ?thesis
      using less.hyps [of "i + l" "c + 1"] less.prems utf8_walk_step [OF i, of s c] dec by simp
  qed
qed

lemma ft_utf8_validate_iff:
  assumes "n \<le> length s"
  shows "ft_utf8_validate (Some s) n = FT_ERR_SUCCESS \<longleftrightarrow>
     (\<exists>cps. list_all scalar_value cps \<and> take n s = utf8_text cps)"
proof (cases "utf8_walk s n 0 0")
  case (Inl e)
  then have "\<not> (list_all scalar_value cps \<and> take n s = utf8_text cps)" for cps
    using utf8_walk_text [of cps n 0 s 0] assms by auto
  with Inl utf8_walk_error [OF Inl] show ?thesis by (simp add: ft_utf8_validate_def)
next
  case (Inr c)
  with utf8_walk_accepts [OF Inr] assms show ?thesis by (simp add: ft_utf8_validate_def)
qed

lemma ft_utf8_count_spec:
  assumes "list_all scalar_value cps" "cstr s = utf8_text cps"
  shows "ft_utf8_count (Some s) (Some old) = (FT_ERR_SUCCESS, Some (length cps))"
proof -
  have "take (length (cstr s)) s = utf8_text cps"
    using assms(2) unfolding cstr_def by (metis takeWhile_eq_take)
  then show ?thesis
    using utf8_walk_text [of cps "length (cstr s)" 0 s 0] assms length_cstr_le [of s]
    by (simp add: ft_utf8_count_def)
qed

lemma ft_utf8_encode_spec:
  assumes "scalar_value v" "length (utf8_bytes v) < n" "n \<le> length b"
  shows "ft_utf8_encode v (Some b) n (Some old) =
     (FT_ERR_SUCCESS, Some (write_block b 0 (utf8_bytes v @ [0])), Some (length (utf8_bytes v)))"
proof -
  have req: "(if v \<le> 0x7F then 1 else if v \<le> 0x7FF then 2 else if v \<le> 0xFFFF then 3 else 4)
      = length (utf8_bytes v)"
    by (simp add: utf8_bytes_def)
  show ?thesis
    using assms write_block_step [of 0 "utf8_bytes v" b 0]
    unfolding ft_utf8_encode_def req Let_def by (auto simp: scalar_value_def)
qed

text \<open>Encoding then decoding one code point, through a buffer.\<close>

lemma utf8_roundtrip:
  assumes "scalar_value v" "length (utf8_bytes v) < n" "n \<le> length b"
    and "ft_utf8_encode v (Some b) n (Some old) = (e, Some b', Some l)"
  shows "e = FT_ERR_SUCCESS \<and>
     ft_utf8_next (Some b') l (Some 0) (Some c) (Some k) = (FT_ERR_SUCCESS, Some l, Some v, Some l)"
proof -
  have eq: "e = FT_ERR_SUCCESS" "b' = write_block b 0 (utf8_bytes v @ [0])" "l = length (utf8_bytes v)"
    using assms by (simp_all add: ft_utf8_encode_spec)
  have "utf8_decode_at b' l 0 = Inr (v, length (utf8_bytes v))"
    unfolding eq using assms(1,2,3) by (intro utf8_decode_at_complete) (auto simp: write_block_def)
  then show ?thesis by (simp add: ft_utf8_next_def eq)
qed

subsection \<open>Main properties\<close>

text \<open>
  C25: \<open>ft_utf8_validate\<close> accepts a range exactly when it is a concatenation of encoded
  Unicode scalar values, so overlong forms, surrogates, values above \<open>U+10FFFF\<close>, stray and
  missing continuation bytes are all rejected.
\<close>

theorem utf8_validate_exact:
  assumes "n \<le> length s"
  shows "ft_utf8_validate (Some s) n = FT_ERR_SUCCESS \<longleftrightarrow>
     (\<exists>cps. (\<forall>v\<in>set cps. v \<le> 0x10FFFF \<and> \<not> (0xD800 \<le> v \<and> v \<le> 0xDFFF))
       \<and> take n s = concat (map utf8_bytes cps))"
  using ft_utf8_validate_iff [OF assms]
  by (simp add: list_all_iff scalar_value_def utf8_text_def)

theorem utf8_validate_exact_witness:
  "ft_utf8_validate (Some [0xC3, 0xA9, 0]) 2 = FT_ERR_SUCCESS \<longleftrightarrow>
     (\<exists>cps. (\<forall>v\<in>set cps. v \<le> 0x10FFFF \<and> \<not> (0xD800 \<le> v \<and> v \<le> 0xDFFF))
       \<and> take 2 [0xC3, 0xA9, 0] = concat (map utf8_bytes cps))"
  by (rule utf8_validate_exact) simp

text \<open>
  \<open>ft_utf8_encode\<close> followed by \<open>ft_utf8_next\<close> on the buffer it filled gives the code
  point back and moves the index behind the encoded bytes.
\<close>

theorem utf8_encode_decode:
  assumes "scalar_value v" "length (utf8_bytes v) < n" "n \<le> length b"
  shows "\<exists>b' l. ft_utf8_encode v (Some b) n (Some old) = (FT_ERR_SUCCESS, Some b', Some l)
     \<and> length b' = length b
     \<and> ft_utf8_next (Some b') l (Some 0) (Some c) (Some k) = (FT_ERR_SUCCESS, Some l, Some v, Some l)"
  using ft_utf8_encode_spec [OF assms, of old] utf8_roundtrip [OF assms] assms(2,3)
  by (simp add: write_block_def)

theorem utf8_encode_decode_witness:
  "\<exists>b' l. ft_utf8_encode 0x20AC (Some [9, 9, 9, 9, 9]) 5 (Some 0) = (FT_ERR_SUCCESS, Some b', Some l)
     \<and> length b' = length [9, 9, 9, 9, 9 :: u8]
     \<and> ft_utf8_next (Some b') l (Some 0) (Some 0) (Some 0) = (FT_ERR_SUCCESS, Some l, Some 0x20AC, Some l)"
  by (rule utf8_encode_decode) (simp_all add: scalar_value_def utf8_bytes_def)

end
