(* ===== verification/Encoding_Base64.thy ===== *)
theory Encoding_Base64
  imports Basic_String
begin

text \<open>
  Base64 and base64url of \<^verbatim>\<open>src/Modules/Encoding/encoding.cpp\<close>. An operation returns the
  pointer it returns, the content of the \<open>output_size\<close> cell where it has one
  (\<^term>\<open>None\<close> for a null pointer), and the value it leaves in \<open>g_encoding_error\<close>. The
  allocator is a parameter, and what is written is written into the block it returned, so
  that a write past the block shows as a block that grew. The input of a function is an
  object in memory, so adding a few to its size does not wrap.
\<close>

subsection \<open>Characters\<close>

definition encoding_base64_value :: "u8 \<Rightarrow> int" where
  "encoding_base64_value c =
     (if 0x41 \<le> c \<and> c \<le> 0x5A then uint c - 0x41
      else if 0x61 \<le> c \<and> c \<le> 0x7A then uint c - 0x61 + 26
      else if 0x30 \<le> c \<and> c \<le> 0x39 then uint c - 0x30 + 52
      else if c = 0x2B \<or> c = 0x2D then 62
      else if c = 0x2F \<or> c = 0x5F then 63
      else -1)"

definition standard_table :: bytes where
  "standard_table =
     map of_char ''ABCDEFGHIJKLMNOPQRSTUVWXYZabcdefghijklmnopqrstuvwxyz0123456789+/''"

definition url_table :: bytes where
  "url_table =
     map of_char ''ABCDEFGHIJKLMNOPQRSTUVWXYZabcdefghijklmnopqrstuvwxyz0123456789-_''"

definition encoding_base64_character :: "u8 \<Rightarrow> bool \<Rightarrow> u8" where
  "encoding_base64_character value url_safe =
     (if url_safe then url_table ! unat value else standard_table ! unat value)"

subsection \<open>Encoding\<close>

text \<open>The four sextets of three bytes.\<close>

definition sextet1 :: "u8 \<Rightarrow> u8" where
  "sextet1 byte_one = drop_bit 2 byte_one"

definition sextet2 :: "u8 \<Rightarrow> u8 \<Rightarrow> u8" where
  "sextet2 byte_one byte_two = push_bit 4 (byte_one AND 0x03) OR drop_bit 4 byte_two"

definition sextet3 :: "u8 \<Rightarrow> u8 \<Rightarrow> u8" where
  "sextet3 byte_two byte_three = push_bit 2 (byte_two AND 0x0F) OR drop_bit 6 byte_three"

definition sextet4 :: "u8 \<Rightarrow> u8" where
  "sextet4 byte_three = byte_three AND 0x3F"

text \<open>One iteration on \<open>n\<close> remaining bytes, the missing ones read as 0.\<close>

definition base64_group :: "bool \<Rightarrow> bool \<Rightarrow> nat \<Rightarrow> u8 \<Rightarrow> u8 \<Rightarrow> u8 \<Rightarrow> bytes" where
  "base64_group url_safe padded n byte_one byte_two byte_three =
     [encoding_base64_character (sextet1 byte_one) url_safe,
      encoding_base64_character (sextet2 byte_one byte_two) url_safe]
     @ (if 1 < n then [encoding_base64_character (sextet3 byte_two byte_three) url_safe]
        else if padded then [0x3D] else [])
     @ (if 2 < n then [encoding_base64_character (sextet4 byte_three) url_safe]
        else if padded then [0x3D] else [])"

function base64_encode_loop :: "bool \<Rightarrow> bool \<Rightarrow> bytes \<Rightarrow> bytes" where
  "base64_encode_loop url_safe padded xs =
     (if xs = [] then []
      else base64_group url_safe padded (length xs) (c_at xs 0) (c_at xs 1) (c_at xs 2)
           @ base64_encode_loop url_safe padded (drop 3 xs))"
  by pat_completeness auto
termination
  by (relation "measure (\<lambda>(u, p, xs). length xs)") auto

declare base64_encode_loop.simps [simp del]

definition base64_output_size :: "bool \<Rightarrow> bool \<Rightarrow> nat \<Rightarrow> nat" where
  "base64_output_size url_safe padded input_size =
     ((input_size + 2) div 3) * 4 -
     (if url_safe \<and> \<not> padded
      then if input_size mod 3 = 1 then 2 else if input_size mod 3 = 2 then 1 else 0
      else 0)"

definition encoding_base64_encode_internal ::
  "alloc \<Rightarrow> ptr \<Rightarrow> nat \<Rightarrow> bool \<Rightarrow> bool \<Rightarrow> ptr \<times> ft_err" where
  "encoding_base64_encode_internal cma_malloc input input_size url_safe padded =
     (if null_span input input_size then (None, FT_ERR_INVALID_ARGUMENT)
      else if input_size > (FT_SYSTEM_SIZE_MAX div 4) * 3 then (None, FT_ERR_OUT_OF_RANGE)
      else case cma_malloc (base64_output_size url_safe padded input_size + 1) of
             None \<Rightarrow> (None, FT_ERR_NO_MEMORY)
           | Some output \<Rightarrow>
               (Some (write_block output 0
                        (base64_encode_loop url_safe padded (span_bytes input input_size) @ [0])),
                FT_ERR_SUCCESS))"

definition encoding_base64_encode :: "alloc \<Rightarrow> ptr \<Rightarrow> nat \<Rightarrow> ptr \<times> ft_err" where
  "encoding_base64_encode cma_malloc input input_size =
     encoding_base64_encode_internal cma_malloc input input_size False True"

definition encoding_base64url_encode :: "alloc \<Rightarrow> ptr \<Rightarrow> nat \<Rightarrow> bool \<Rightarrow> ptr \<times> ft_err" where
  "encoding_base64url_encode cma_malloc input input_size padded =
     encoding_base64_encode_internal cma_malloc input input_size True padded"

subsection \<open>Decoding\<close>

text \<open>The first pass: the number of characters and of \<open>'='\<close>, or a character outside the alphabet.\<close>

fun base64_scan :: "bytes \<Rightarrow> nat \<Rightarrow> nat \<Rightarrow> (nat \<times> nat) option" where
  "base64_scan [] clean_count padding_count = Some (clean_count, padding_count)"
| "base64_scan (c # xs) clean_count padding_count =
     (if c = 0x3D then base64_scan xs (clean_count + 1) (padding_count + 1)
      else if encoding_base64_value c < 0 then None
      else base64_scan xs (clean_count + 1) padding_count)"

definition chunk_at :: "bytes \<Rightarrow> nat \<Rightarrow> u8" where
  "chunk_at xs k = (if k < length xs then xs ! k else 0x3D)"

definition base64_decode_chunk :: "bool \<Rightarrow> u8 \<Rightarrow> u8 \<Rightarrow> u8 \<Rightarrow> u8 \<Rightarrow> bytes option" where
  "base64_decode_chunk url_safe chunk0 chunk1 chunk2 chunk3 =
     (let values0 = encoding_base64_value chunk0;
          values1 = encoding_base64_value chunk1;
          values2 = (if chunk2 \<noteq> 0x3D then encoding_base64_value chunk2 else 0);
          values3 = (if chunk3 \<noteq> 0x3D then encoding_base64_value chunk3 else 0)
      in if values0 < 0 \<or> values1 < 0 \<or> values2 < 0 \<or> values3 < 0 then None
         else if url_safe \<and> (chunk0 = 0x2B \<or> chunk0 = 0x2F \<or> chunk1 = 0x2B \<or> chunk1 = 0x2F
                \<or> chunk2 = 0x2B \<or> chunk2 = 0x2F \<or> chunk3 = 0x2B \<or> chunk3 = 0x2F) then None
         else let triple = push_bit 18 (word_of_int values0) OR push_bit 12 (word_of_int values1)
                           OR push_bit 6 (word_of_int values2) OR (word_of_int values3 :: u32)
              in Some ([ucast (drop_bit 16 triple AND 0xFF)]
                   @ (if chunk2 \<noteq> 0x3D then [ucast (drop_bit 8 triple AND 0xFF)] else [])
                   @ (if chunk3 \<noteq> 0x3D then [ucast (triple AND 0xFF)] else [])))"

function base64_decode_loop :: "bool \<Rightarrow> bytes \<Rightarrow> bytes option" where
  "base64_decode_loop url_safe xs =
     (if xs = [] then Some []
      else case base64_decode_chunk url_safe (chunk_at xs 0) (chunk_at xs 1) (chunk_at xs 2)
                  (chunk_at xs 3) of
             None \<Rightarrow> None
           | Some out \<Rightarrow>
               (case base64_decode_loop url_safe (drop 4 xs) of
                  None \<Rightarrow> None
                | Some rest \<Rightarrow> Some (out @ rest)))"
  by pat_completeness auto
termination
  by (relation "measure (\<lambda>(u, xs). length xs)") auto

declare base64_decode_loop.simps [simp del]

definition encoding_base64_decode_internal ::
  "alloc \<Rightarrow> ptr \<Rightarrow> nat \<Rightarrow> nat option \<Rightarrow> bool \<Rightarrow> ptr \<times> nat option \<times> ft_err" where
  "encoding_base64_decode_internal cma_malloc input input_size output_size url_safe =
     (let none = map_option (\<lambda>_. 0) output_size
      in if null_span input input_size then (None, none, FT_ERR_INVALID_ARGUMENT)
         else case base64_scan (span_bytes input input_size) 0 0 of
           None \<Rightarrow> (None, none, FT_ERR_INVALID_ARGUMENT)
         | Some (clean_count, padding_count) \<Rightarrow>
             if clean_count mod 4 = 1 \<or> padding_count > 2
             then (None, none, FT_ERR_INVALID_ARGUMENT)
             else case cma_malloc (((clean_count + 3) div 4) * 3 + 1) of
               None \<Rightarrow> (None, none, FT_ERR_NO_MEMORY)
             | Some output \<Rightarrow>
                 (case base64_decode_loop url_safe (span_bytes input input_size) of
                    None \<Rightarrow> (None, none, FT_ERR_INVALID_ARGUMENT)
                  | Some out \<Rightarrow>
                      (Some (write_block output 0 out),
                       map_option (\<lambda>_. length out) output_size, FT_ERR_SUCCESS)))"

definition encoding_base64_decode ::
  "alloc \<Rightarrow> ptr \<Rightarrow> nat \<Rightarrow> nat option \<Rightarrow> ptr \<times> nat option \<times> ft_err" where
  "encoding_base64_decode cma_malloc input input_size output_size =
     encoding_base64_decode_internal cma_malloc input input_size output_size False"

definition encoding_base64url_decode ::
  "alloc \<Rightarrow> ptr \<Rightarrow> nat \<Rightarrow> nat option \<Rightarrow> ptr \<times> nat option \<times> ft_err" where
  "encoding_base64url_decode cma_malloc input input_size output_size =
     encoding_base64_decode_internal cma_malloc input input_size output_size True"

subsection \<open>The alphabet\<close>

lemma standard_table_values:
  "map encoding_base64_value standard_table = [0..63]
   \<and> list_all (\<lambda>c. c \<noteq> 0x3D \<and> c \<noteq> 0) standard_table"
  by code_simp

lemma url_table_values:
  "map encoding_base64_value url_table = [0..63]
   \<and> list_all (\<lambda>c. c \<noteq> 0x3D \<and> c \<noteq> 0 \<and> c \<noteq> 0x2B \<and> c \<noteq> 0x2F) url_table"
  by code_simp

lemma table_nth:
  assumes "map f t = [0..63]" "i < 64"
  shows "f (t ! i) = int i" "i < length t"
proof -
  have len: "length t = 64" using arg_cong [OF assms(1), of length] by simp
  show "i < length t" using len assms by simp
  have "f (t ! i) = map f t ! i" using len assms(2) by simp
  also have "\<dots> = int i" unfolding assms(1) using assms(2) by (simp add: nth_upto)
  finally show "f (t ! i) = int i" .
qed

lemma base64_character_props:
  assumes "unat v < 64"
  shows "encoding_base64_value (encoding_base64_character v u) = uint v"
    and "encoding_base64_character v u \<noteq> 0x3D" "encoding_base64_character v u \<noteq> 0"
    and "u \<Longrightarrow> encoding_base64_character v u \<noteq> 0x2B" "u \<Longrightarrow> encoding_base64_character v u \<noteq> 0x2F"
  using table_nth [OF conjunct1 [OF standard_table_values] assms]
    table_nth [OF conjunct1 [OF url_table_values] assms] standard_table_values url_table_values
  by (auto simp: encoding_base64_character_def list_all_length)

subsection \<open>One group\<close>

lemma unat_lt_64: "x AND 0x3F = x \<Longrightarrow> unat (x :: u8) < 64"
  using word_and_le1 [of x "0x3F"] by (simp add: word_le_nat_alt)

lemmas sextet_defs = sextet1_def sextet2_def sextet3_def sextet4_def

lemma base64_sextets:
  "unat (sextet1 b1) < 64" "unat (sextet2 b1 b2) < 64" "unat (sextet3 b2 b3) < 64"
  "unat (sextet4 b3) < 64"
  unfolding sextet_defs by (rule unat_lt_64, rule u8_eqI, simp add: bit_simps upt_rec bit_blast)+

definition join_sextets :: "u8 \<Rightarrow> u8 \<Rightarrow> u8 \<Rightarrow> u8 \<Rightarrow> u32" where
  "join_sextets v0 v1 v2 v3 =
     push_bit 18 (ucast v0) OR push_bit 12 (ucast v1) OR push_bit 6 (ucast v2) OR ucast v3"

lemma base64_join:
  fixes b1 b2 b3 :: u8
  defines "t \<equiv> join_sextets (sextet1 b1) (sextet2 b1 b2) (sextet3 b2 b3) (sextet4 b3)"
  shows "ucast (drop_bit 16 t AND 0xFF) = b1" "ucast (drop_bit 8 t AND 0xFF) = b2"
    "ucast (t AND 0xFF) = b3"
  unfolding t_def join_sextets_def sextet_defs
  by (rule u8_eqI, simp add: bit_simps upt_rec bit_blast)+

lemma sextet_zero [simp]: "sextet3 0 0 = 0" "sextet4 0 = 0"
  by (simp_all add: sextet_defs)

lemma base64_decode_chars:
  assumes "unat v0 < 64" "unat v1 < 64" "unat v2 < 64" "unat v3 < 64"
  defines "t \<equiv> join_sextets v0 v1 v2 v3"
  shows "base64_decode_chunk u (encoding_base64_character v0 u) (encoding_base64_character v1 u)
     (encoding_base64_character v2 u) (encoding_base64_character v3 u)
     = Some [ucast (drop_bit 16 t AND 0xFF), ucast (drop_bit 8 t AND 0xFF), ucast (t AND 0xFF)]"
    and "v3 = 0 \<Longrightarrow> base64_decode_chunk u (encoding_base64_character v0 u)
      (encoding_base64_character v1 u) (encoding_base64_character v2 u) 0x3D
     = Some [ucast (drop_bit 16 t AND 0xFF), ucast (drop_bit 8 t AND 0xFF)]"
    and "v2 = 0 \<Longrightarrow> v3 = 0 \<Longrightarrow> base64_decode_chunk u (encoding_base64_character v0 u)
      (encoding_base64_character v1 u) 0x3D 0x3D
     = Some [ucast (drop_bit 16 t AND 0xFF)]"
  unfolding t_def join_sextets_def using assms
  by (simp_all add: base64_decode_chunk_def Let_def base64_character_props ucast_eq [symmetric])

lemma base64_decode_group:
  "base64_decode_chunk u (encoding_base64_character (sextet1 b1) u)
     (encoding_base64_character (sextet2 b1 b2) u) (encoding_base64_character (sextet3 b2 b3) u)
     (encoding_base64_character (sextet4 b3) u) = Some [b1, b2, b3]"
  by (simp only: base64_decode_chars [OF base64_sextets] base64_join)

lemma base64_decode_group2:
  "base64_decode_chunk u (encoding_base64_character (sextet1 b1) u)
     (encoding_base64_character (sextet2 b1 b2) u) (encoding_base64_character (sextet3 b2 0) u) 0x3D
   = Some [b1, b2]"
  by (simp only: base64_decode_chars(2) [OF base64_sextets sextet_zero(2)] base64_join)

lemma base64_decode_group1:
  "base64_decode_chunk u (encoding_base64_character (sextet1 b1) u)
     (encoding_base64_character (sextet2 b1 0) u) 0x3D 0x3D = Some [b1]"
  by (simp only: base64_decode_chars(3) [OF base64_sextets sextet_zero] base64_join)

subsection \<open>Whole inputs\<close>

lemma base64_encode_Nil [simp]: "base64_encode_loop u p [] = []"
  by (subst base64_encode_loop.simps) simp

lemma base64_encode_Cons3:
  "base64_encode_loop u p (b1 # b2 # b3 # xs) =
     encoding_base64_character (sextet1 b1) u # encoding_base64_character (sextet2 b1 b2) u
     # encoding_base64_character (sextet3 b2 b3) u # encoding_base64_character (sextet4 b3) u
     # base64_encode_loop u p xs"
  by (subst base64_encode_loop.simps) (simp add: base64_group_def numeral_2_eq_2)

lemma base64_encode_2:
  "base64_encode_loop u p [b1, b2] =
     [encoding_base64_character (sextet1 b1) u, encoding_base64_character (sextet2 b1 b2) u,
      encoding_base64_character (sextet3 b2 0) u] @ (if p then [0x3D] else [])"
  by (subst base64_encode_loop.simps) (simp add: base64_group_def numeral_2_eq_2)

lemma base64_encode_1:
  "base64_encode_loop u p [b1] =
     [encoding_base64_character (sextet1 b1) u, encoding_base64_character (sextet2 b1 0) u]
     @ (if p then [0x3D, 0x3D] else [])"
  by (subst base64_encode_loop.simps) (simp add: base64_group_def numeral_2_eq_2)

lemma triple_induct [case_names Nil One Two Three]:
  assumes "P []" "\<And>a. P [a]" "\<And>a b. P [a, b]" "\<And>a b c xs. P xs \<Longrightarrow> P (a # b # c # xs)"
  shows "P xs"
proof (induction "length xs" arbitrary: xs rule: less_induct)
  case less
  consider "xs = []" | a where "xs = [a]" | a b where "xs = [a, b]"
    | a b c ys where "xs = a # b # c # ys"
    by (metis list.exhaust)
  then show ?case using assms less by cases auto
qed

lemma base64_decode_encode_loop:
  "base64_decode_loop u (base64_encode_loop u p xs) = Some xs"
proof (induction xs rule: triple_induct)
  case Nil
  show ?case by (simp add: base64_decode_loop.simps)
next
  case (One a)
  show ?case
    by (cases p; subst base64_decode_loop.simps)
      (simp_all add: base64_encode_1 chunk_at_def base64_decode_group1
        base64_decode_loop.simps [of u "[]"] numeral_2_eq_2 numeral_3_eq_3)
next
  case (Two a b)
  show ?case
    by (cases p; subst base64_decode_loop.simps)
      (simp_all add: base64_encode_2 chunk_at_def base64_decode_group2
        base64_decode_loop.simps [of u "[]"] numeral_2_eq_2 numeral_3_eq_3)
next
  case (Three a b c xs)
  then show ?case
    by (subst base64_decode_loop.simps)
      (simp add: base64_encode_Cons3 chunk_at_def base64_decode_group numeral_2_eq_2 numeral_3_eq_3)
qed

lemma base64_encode_alphabet:
  "c \<in> set (base64_encode_loop u p xs) \<Longrightarrow> c \<noteq> 0 \<and> (c = 0x3D \<or> 0 \<le> encoding_base64_value c)"
proof (induction xs rule: triple_induct)
  case (One a)
  then show ?case
    by (auto simp: base64_encode_1 base64_character_props base64_sextets split: if_splits)
next
  case (Two a b)
  then show ?case
    by (auto simp: base64_encode_2 base64_character_props base64_sextets split: if_splits)
next
  case (Three a b c xs)
  then show ?case
    by (auto simp: base64_encode_Cons3 base64_character_props base64_sextets split: if_splits)
qed simp

lemma base64_encode_padding: "count_list (base64_encode_loop u p xs) 0x3D \<le> 2"
proof (induction xs rule: triple_induct)
  case (One a)
  show ?case by (auto simp: base64_encode_1 base64_character_props base64_sextets)
next
  case (Two a b)
  show ?case by (auto simp: base64_encode_2 base64_character_props base64_sextets)
next
  case (Three a b c xs)
  then show ?case by (auto simp: base64_encode_Cons3 base64_character_props base64_sextets)
qed simp

lemma length_base64_encode:
  "length (base64_encode_loop u p xs) =
     (length xs + 2) div 3 * 4 -
     (if p then 0 else if length xs mod 3 = 1 then 2 else if length xs mod 3 = 2 then 1 else 0)"
proof (induction xs rule: triple_induct)
  case (Three a b c xs)
  have eq: "length (base64_encode_loop u p (a # b # c # xs)) = length (base64_encode_loop u p xs) + 4"
    "length (a # b # c # xs) = length xs + 3"
    by (simp_all add: base64_encode_Cons3)
  have step: "(n + 3 + 2) div 3 * 4 = (n + 2) div 3 * 4 + (4 :: nat)" "(n + 3) mod 3 = n mod (3 :: nat)"
    for n using div_add_self2 [of 3 "n + 2"] by (simp_all add: add.commute add.left_commute)
  have low: "(4 :: nat) \<le> (n + 2) div 3 * 4" if "n mod 3 \<noteq> 0" for n
  proof -
    have "3 \<le> n + 2" using that by (cases n) auto
    then have "3 div 3 \<le> (n + 2) div 3" by (rule div_le_mono)
    then show ?thesis by simp
  qed
  show ?case
    unfolding eq Three step using low [of "length xs"]
    by (auto simp del: mod_mult_self4)
qed (simp_all add: base64_encode_1 base64_encode_2)

lemma base64_scan_ok:
  "(\<forall>c\<in>set xs. c = 0x3D \<or> 0 \<le> encoding_base64_value c) \<Longrightarrow>
     base64_scan xs m k = Some (m + length xs, k + count_list xs 0x3D)"
  by (induction xs arbitrary: m k) auto

interpretation base64: codec "base64_encode_loop False True" "base64_decode_loop False" "\<lambda>_. True"
  by unfold_locales (rule base64_decode_encode_loop)

interpretation base64url: codec "base64_encode_loop True p" "base64_decode_loop True" "\<lambda>_. True"
  for p by unfold_locales (rule base64_decode_encode_loop)

subsection \<open>The operations\<close>

lemma base64_encode_no_zero [simp]: "0 \<notin> set (base64_encode_loop u p xs)"
  using base64_encode_alphabet by blast

text \<open>
  The encoder fills its block exactly: the text, its terminator and nothing past them.
\<close>

lemma base64_encode_internal_spec:
  assumes "length xs \<le> (FT_SYSTEM_SIZE_MAX div 4) * 3" "wf_alloc malloc" "u \<or> p"
  shows "encoding_base64_encode_internal malloc (Some xs) (length xs) u p =
     (case malloc (length (base64_encode_loop u p xs) + 1) of
        None \<Rightarrow> (None, FT_ERR_NO_MEMORY)
      | Some _ \<Rightarrow> (Some (base64_encode_loop u p xs @ [0]), FT_ERR_SUCCESS))"
proof -
  have "base64_output_size u p (length xs) = length (base64_encode_loop u p xs)"
    using assms by (auto simp: base64_output_size_def length_base64_encode)
  then show ?thesis
    using assms
    by (auto simp: encoding_base64_encode_internal_def write_block_def split: option.splits
        dest: wf_allocD)
qed

lemma length_base64_decode:
  "base64_decode_loop u xs = Some out \<Longrightarrow> length out \<le> (length xs + 3) div 4 * 3"
proof (induction u xs arbitrary: out rule: base64_decode_loop.induct)
  case (1 u xs)
  show ?case
  proof (cases "xs = []")
    case True
    then show ?thesis using "1.prems" by (simp add: base64_decode_loop.simps)
  next
    case False
    then obtain o1 o2 where o1: "base64_decode_chunk u (chunk_at xs 0) (chunk_at xs 1) (chunk_at xs 2)
          (chunk_at xs 3) = Some o1" and o2: "base64_decode_loop u (drop 4 xs) = Some o2"
      and out: "out = o1 @ o2"
      using "1.prems" by (subst (asm) base64_decode_loop.simps) (auto split: option.splits)
    have "length o1 \<le> 3"
      using o1 by (auto simp: base64_decode_chunk_def Let_def split: if_splits)
    moreover have "length o2 \<le> (length xs - 4 + 3) div 4 * 3"
      using "1.IH" [OF False o1 o2] by simp
    moreover have "(length xs - 4 + 3) div 4 * 3 + 3 \<le> (length xs + 3) div 4 * 3"
    proof -
      have "(length xs - 4 + 3) div 4 + 1 = (length xs - 4 + 7) div 4" by presburger
      moreover have "(length xs - 4 + 7) div 4 \<le> (length xs + 3) div 4"
      proof (cases "4 \<le> length xs")
        case False
        moreover have "0 < length xs" using \<open>xs \<noteq> []\<close> by simp
        ultimately have "length xs = 1 \<or> length xs = 2 \<or> length xs = 3" by linarith
        then show ?thesis by auto
      qed simp
      ultimately show ?thesis by linarith
    qed
    ultimately show ?thesis by (simp add: out)
  qed
qed

text \<open>
  On every input the decoder returns an error or writes at most the capacity of its
  block.
\<close>

lemma base64_scan_count: "base64_scan xs m k = Some (c, q) \<Longrightarrow> c = m + length xs"
  by (induction xs arbitrary: m k) (fastforce split: if_splits)+

lemma base64_decode_safe:
  assumes "encoding_base64_decode_internal malloc input n cell u = (Some out, cell', e)"
    and "wf_alloc malloc"
  shows "e = FT_ERR_SUCCESS \<and> length out = (length (span_bytes input n) + 3) div 4 * 3 + 1
     \<and> (\<forall>k. cell' = Some k \<longrightarrow> k < length out)"
proof -
  obtain c q block res where
    scan: "base64_scan (span_bytes input n) 0 0 = Some (c, q)"
    and block: "malloc ((c + 3) div 4 * 3 + 1) = Some block"
    and res: "base64_decode_loop u (span_bytes input n) = Some res"
    and r: "out = write_block block 0 res" "cell' = map_option (\<lambda>_. length res) cell"
      "e = FT_ERR_SUCCESS"
    using assms(1)
    by (auto simp: encoding_base64_decode_internal_def Let_def split: if_splits option.splits)
  have c: "c = length (span_bytes input n)" using base64_scan_count [OF scan] by simp
  have "length block = (c + 3) div 4 * 3 + 1" using wf_allocD [OF assms(2) block] .
  moreover have "length res \<le> (c + 3) div 4 * 3" using length_base64_decode [OF res] c by simp
  ultimately show ?thesis by (auto simp: r c)
qed

lemma base64_decode_encoded:
  assumes "total_alloc malloc" "u \<or> p"
  shows "\<exists>out. encoding_base64_decode_internal malloc (Some (base64_encode_loop u p xs @ [0]))
       (length (base64_encode_loop u p xs)) (Some k) u = (Some out, Some (length xs), FT_ERR_SUCCESS)
     \<and> take (length xs) out = xs"
proof -
  let ?e = "base64_encode_loop u p xs"
  have scan: "base64_scan ?e 0 0 = Some (length ?e, count_list ?e 0x3D)"
    using base64_encode_alphabet by (subst base64_scan_ok) auto
  have mod: "length ?e mod 4 \<noteq> 1"
    by (induction xs rule: triple_induct)
      (auto simp: base64_encode_1 base64_encode_2 base64_encode_Cons3 mod_Suc)
  obtain b where b: "malloc ((length ?e + 3) div 4 * 3 + 1) = Some b" "wf_alloc malloc"
    using assms by (auto simp: total_alloc_def)
  show ?thesis
    using mod base64_encode_padding [of u p xs] b
    by (simp add: encoding_base64_decode_internal_def scan base64_decode_encode_loop Let_def
        write_block_def)
qed

text \<open>Encoding then decoding, through the strings the operations exchange.\<close>

lemma base64_internal_roundtrip:
  assumes "total_alloc malloc" "length xs \<le> (FT_SYSTEM_SIZE_MAX div 4) * 3" "u \<or> p"
  shows "\<exists>s out. encoding_base64_encode_internal malloc (Some xs) (length xs) u p
       = (Some s, FT_ERR_SUCCESS)
     \<and> encoding_base64_decode_internal malloc (Some s) (ft_strlen_size_t (Some s)) (Some k) u
       = (Some out, Some (length xs), FT_ERR_SUCCESS)
     \<and> take (length xs) out = xs"
proof -
  have wf: "wf_alloc malloc" and tot: "malloc n \<noteq> None" for n
    using assms by (auto simp: total_alloc_def)
  have enc: "encoding_base64_encode_internal malloc (Some xs) (length xs) u p =
      (Some (base64_encode_loop u p xs @ [0]), FT_ERR_SUCCESS)"
    using base64_encode_internal_spec [OF assms(2) wf assms(3)] tot by (auto split: option.splits)
  then show ?thesis
    using base64_decode_encoded [OF assms(1) assms(3), of xs k] by (auto simp: cstr_append_zero)
qed

subsection \<open>Main properties\<close>

text \<open>
  C14: Base64 and base64url round trip through the public operations: when memory is
  available, decoding the string the encoder returns succeeds and gives back exactly the
  bytes that were encoded, for the standard alphabet and for the URL alphabet with and
  without padding.
\<close>

theorem base64_decode_inverts_encode:
  assumes "total_alloc malloc" "length xs \<le> (FT_SYSTEM_SIZE_MAX div 4) * 3"
  shows "(\<exists>s out. encoding_base64_encode malloc (Some xs) (length xs) = (Some s, FT_ERR_SUCCESS)
       \<and> encoding_base64_decode malloc (Some s) (ft_strlen_size_t (Some s)) (Some k)
         = (Some out, Some (length xs), FT_ERR_SUCCESS) \<and> take (length xs) out = xs)
    \<and> (\<exists>s out. encoding_base64url_encode malloc (Some xs) (length xs) padded = (Some s, FT_ERR_SUCCESS)
       \<and> encoding_base64url_decode malloc (Some s) (ft_strlen_size_t (Some s)) (Some k)
         = (Some out, Some (length xs), FT_ERR_SUCCESS) \<and> take (length xs) out = xs)"
  using base64_internal_roundtrip [OF assms]
  by (simp add: encoding_base64_encode_def encoding_base64_decode_def
      encoding_base64url_encode_def encoding_base64url_decode_def)

theorem base64_decode_inverts_encode_witness:
  "(\<exists>s out. encoding_base64_encode zero_alloc (Some [0xFF, 0xFE]) (length [0xFF, 0xFE :: u8]) = (Some s, FT_ERR_SUCCESS)
       \<and> encoding_base64_decode zero_alloc (Some s) (ft_strlen_size_t (Some s)) (Some 0)
         = (Some out, Some (length [0xFF, 0xFE :: u8]), FT_ERR_SUCCESS) \<and> take (length [0xFF, 0xFE :: u8]) out = [0xFF, 0xFE])
    \<and> (\<exists>s out. encoding_base64url_encode zero_alloc (Some [0xFF, 0xFE]) (length [0xFF, 0xFE :: u8]) False = (Some s, FT_ERR_SUCCESS)
       \<and> encoding_base64url_decode zero_alloc (Some s) (ft_strlen_size_t (Some s)) (Some 0)
         = (Some out, Some (length [0xFF, 0xFE :: u8]), FT_ERR_SUCCESS) \<and> take (length [0xFF, 0xFE :: u8]) out = [0xFF, 0xFE])"
  by (rule base64_decode_inverts_encode) (simp_all add: total_zero_alloc FT_SYSTEM_SIZE_MAX_def)

text \<open>
  On any input, well formed or not, the base64 decoders write only inside the block
  they allocate: when they return a block, it has the computed size, the reported size is
  less than it, and the reported error is success.
\<close>

theorem base64_decode_in_bounds:
  assumes "encoding_base64_decode_internal malloc input n cell u = (Some out, cell', e)"
    and "wf_alloc malloc"
  shows "e = FT_ERR_SUCCESS \<and> length out = (length (span_bytes input n) + 3) div 4 * 3 + 1
     \<and> (\<forall>k. cell' = Some k \<longrightarrow> k < length out)"
  using assms by (rule base64_decode_safe)

theorem base64_decode_in_bounds_witness:
  "\<exists>out cell' e. encoding_base64_decode_internal zero_alloc (Some [0x41, 0x41, 0x3D, 0x3D]) 4 (Some 0) False
      = (Some out, cell', e)
    \<and> (e = FT_ERR_SUCCESS
       \<and> length out = (length (span_bytes (Some [0x41, 0x41, 0x3D, 0x3D]) 4) + 3) div 4 * 3 + 1
       \<and> (\<forall>k. cell' = Some k \<longrightarrow> k < length out))"
proof -
  have wf: "wf_alloc zero_alloc" using total_zero_alloc by (simp add: total_alloc_def)
  have run: "encoding_base64_decode_internal zero_alloc (Some [0x41, 0x41, 0x3D, 0x3D]) 4 (Some 0) False
      = (Some [0, 0, 0, 0], Some 1, FT_ERR_SUCCESS)" by code_simp
  show ?thesis using base64_decode_in_bounds [OF run wf] run by blast
qed

end
