(* ===== verification/Encoding_Base32.thy ===== *)
theory Encoding_Base32
  imports Encoding_Base64
begin

text \<open>
  Base32 of \<^verbatim>\<open>src/Modules/Encoding/encoding.cpp\<close>: the encoder works on groups of five
  bytes, the decoder collects values into a block of at most eight and tracks whether the
  padding has begun. Results are as in base64: the returned pointer, the size cell and
  \<open>g_encoding_error\<close>.
\<close>

subsection \<open>Characters\<close>

definition encoding_base32_value :: "u8 \<Rightarrow> int" where
  "encoding_base32_value c =
     (if 0x41 \<le> c \<and> c \<le> 0x5A then uint c - 0x41
      else if 0x61 \<le> c \<and> c \<le> 0x7A then uint c - 0x61
      else if 0x32 \<le> c \<and> c \<le> 0x37 then uint c - 0x32 + 26
      else -1)"

definition base32_table :: bytes where
  "base32_table = map of_char ''ABCDEFGHIJKLMNOPQRSTUVWXYZ234567''"

definition encoding_base32_character :: "u8 \<Rightarrow> u8" where
  "encoding_base32_character value = base32_table ! unat (value AND 0x1F)"

subsection \<open>Encoding\<close>

text \<open>The eight quintets of five bytes.\<close>

definition quintets :: "u8 \<Rightarrow> u8 \<Rightarrow> u8 \<Rightarrow> u8 \<Rightarrow> u8 \<Rightarrow> u8 list" where
  "quintets b1 b2 b3 b4 b5 =
     [drop_bit 3 b1,
      push_bit 2 (b1 AND 0x07) OR drop_bit 6 b2,
      drop_bit 1 b2 AND 0x1F,
      push_bit 4 (b2 AND 0x01) OR drop_bit 4 b3,
      push_bit 1 (b3 AND 0x0F) OR drop_bit 7 b4,
      drop_bit 2 b4 AND 0x1F,
      push_bit 3 (b4 AND 0x03) OR drop_bit 5 b5,
      b5 AND 0x1F]"

definition base32_group :: "nat \<Rightarrow> u8 \<Rightarrow> u8 \<Rightarrow> u8 \<Rightarrow> u8 \<Rightarrow> u8 \<Rightarrow> bytes" where
  "base32_group remaining_size b1 b2 b3 b4 b5 =
     (let q = quintets b1 b2 b3 b4 b5; c = (\<lambda>i. encoding_base32_character (q ! i))
      in [c 0, c 1]
         @ (if remaining_size \<ge> 2 then [c 2, c 3] else [0x3D, 0x3D])
         @ (if remaining_size \<ge> 3 then [c 4] else [0x3D])
         @ (if remaining_size \<ge> 4 then [c 5, c 6] else [0x3D, 0x3D])
         @ (if remaining_size \<ge> 5 then [c 7] else [0x3D]))"

function base32_encode_loop :: "bytes \<Rightarrow> bytes" where
  "base32_encode_loop xs =
     (if xs = [] then []
      else base32_group (length xs) (c_at xs 0) (c_at xs 1) (c_at xs 2) (c_at xs 3) (c_at xs 4)
           @ base32_encode_loop (drop 5 xs))"
  by pat_completeness auto
termination
  by (relation "measure length") auto

declare base32_encode_loop.simps [simp del]

definition encoding_base32_encode_internal :: "alloc \<Rightarrow> ptr \<Rightarrow> nat \<Rightarrow> ptr \<times> ft_err" where
  "encoding_base32_encode_internal cma_malloc input input_size =
     (if null_span input input_size then (None, FT_ERR_INVALID_ARGUMENT)
      else if input_size > (FT_SYSTEM_SIZE_MAX div 8) * 5 then (None, FT_ERR_OUT_OF_RANGE)
      else case cma_malloc (((input_size + 4) div 5) * 8 + 1) of
             None \<Rightarrow> (None, FT_ERR_NO_MEMORY)
           | Some output \<Rightarrow>
               (Some (write_block output 0
                        (base32_encode_loop (span_bytes input input_size) @ [0])),
                FT_ERR_SUCCESS))"

definition encoding_base32_encode :: "alloc \<Rightarrow> ptr \<Rightarrow> nat \<Rightarrow> ptr \<times> ft_err" where
  "encoding_base32_encode cma_malloc input input_size =
     encoding_base32_encode_internal cma_malloc input input_size"

subsection \<open>Decoding\<close>

text \<open>
  The bytes of a block of 2, 4, 5, 7 or 8 values; \<^term>\<open>None\<close> is
  \<open>FT_ERR_INVALID_ARGUMENT\<close>, for any other length or for bits left over that are not 0.
\<close>

definition base32_byte1 :: "u8 list \<Rightarrow> u8" where
  "base32_byte1 v = push_bit 3 (v ! 0) OR drop_bit 2 (v ! 1)"

definition base32_byte2 :: "u8 list \<Rightarrow> u8" where
  "base32_byte2 v = push_bit 6 (v ! 1 AND 0x03) OR push_bit 1 (v ! 2) OR drop_bit 4 (v ! 3)"

definition base32_byte3 :: "u8 list \<Rightarrow> u8" where
  "base32_byte3 v = push_bit 4 (v ! 3 AND 0x0F) OR drop_bit 1 (v ! 4)"

definition base32_byte4 :: "u8 list \<Rightarrow> u8" where
  "base32_byte4 v = push_bit 7 (v ! 4 AND 0x01) OR push_bit 2 (v ! 5) OR drop_bit 3 (v ! 6)"

definition base32_byte5 :: "u8 list \<Rightarrow> u8" where
  "base32_byte5 v = push_bit 5 (v ! 6 AND 0x07) OR v ! 7"

definition encoding_base32_decode_block :: "u8 list \<Rightarrow> nat \<Rightarrow> bytes option" where
  "encoding_base32_decode_block v data_length =
     (if data_length = 2
      then if v ! 1 AND 0x03 \<noteq> 0 then None else Some [base32_byte1 v]
      else if data_length = 4
      then if v ! 3 AND 0x0F \<noteq> 0 then None else Some [base32_byte1 v, base32_byte2 v]
      else if data_length = 5
      then if v ! 4 AND 0x01 \<noteq> 0 then None
           else Some [base32_byte1 v, base32_byte2 v, base32_byte3 v]
      else if data_length = 7
      then if v ! 6 AND 0x07 \<noteq> 0 then None
           else Some [base32_byte1 v, base32_byte2 v, base32_byte3 v, base32_byte4 v]
      else if data_length = 8
      then Some [base32_byte1 v, base32_byte2 v, base32_byte3 v, base32_byte4 v, base32_byte5 v]
      else None)"

text \<open>
  The loop over the input: the block collected so far, whether the padding began, its
  length, and the bytes written so far. \<^term>\<open>None\<close> is an early return with
  \<open>FT_ERR_INVALID_ARGUMENT\<close>.
\<close>

fun base32_decode_loop ::
  "bytes \<Rightarrow> u8 list \<Rightarrow> bool \<Rightarrow> nat \<Rightarrow> bytes \<Rightarrow> (u8 list \<times> bool \<times> nat \<times> bytes) option" where
  "base32_decode_loop [] block padding_started padding_count out =
     Some (block, padding_started, padding_count, out)"
| "base32_decode_loop (c # xs) block padding_started padding_count out =
     (if c = 0x3D then base32_decode_loop xs block True (padding_count + 1) out
      else if padding_started then None
      else let value = encoding_base32_value c
           in if value < 0 then None
              else let block' = block @ [word_of_int value]
                   in if length block' = 8
                      then case encoding_base32_decode_block block' 8 of
                             None \<Rightarrow> None
                           | Some o8 \<Rightarrow>
                               base32_decode_loop xs [] padding_started padding_count (out @ o8)
                      else base32_decode_loop xs block' padding_started padding_count out)"

definition base32_decode_bytes :: "bytes \<Rightarrow> bytes option" where
  "base32_decode_bytes xs =
     (case base32_decode_loop xs [] False 0 [] of
        None \<Rightarrow> None
      | Some (block, padding_started, padding_count, out) \<Rightarrow>
          let block_index = length block
          in if padding_started \<and> block_index \<noteq> 2 \<and> block_index \<noteq> 4 \<and> block_index \<noteq> 5
                \<and> block_index \<noteq> 7 then None
             else if padding_started \<and> block_index + padding_count \<noteq> 8 then None
             else if block_index \<noteq> 0
             then (case encoding_base32_decode_block block block_index of
                     None \<Rightarrow> None | Some o8 \<Rightarrow> Some (out @ o8))
             else Some out)"

definition encoding_base32_decode_internal ::
  "alloc \<Rightarrow> ptr \<Rightarrow> nat \<Rightarrow> nat option \<Rightarrow> ptr \<times> nat option \<times> ft_err" where
  "encoding_base32_decode_internal cma_malloc input input_size output_size =
     (let none = map_option (\<lambda>_. 0) output_size
      in if null_span input input_size then (None, none, FT_ERR_INVALID_ARGUMENT)
         else case cma_malloc (((input_size + 7) div 8) * 5 + 1) of
           None \<Rightarrow> (None, none, FT_ERR_NO_MEMORY)
         | Some output \<Rightarrow>
             (case base32_decode_bytes (span_bytes input input_size) of
                None \<Rightarrow> (None, none, FT_ERR_INVALID_ARGUMENT)
              | Some out \<Rightarrow>
                  (Some (write_block output 0 (out @ [0])),
                   map_option (\<lambda>_. length out) output_size, FT_ERR_SUCCESS)))"

definition encoding_base32_decode ::
  "alloc \<Rightarrow> ptr \<Rightarrow> nat \<Rightarrow> nat option \<Rightarrow> ptr \<times> nat option \<times> ft_err" where
  "encoding_base32_decode cma_malloc input input_size output_size =
     encoding_base32_decode_internal cma_malloc input input_size output_size"

subsection \<open>The alphabet\<close>

lemma base32_table_values:
  "map encoding_base32_value base32_table = [0..31]
   \<and> list_all (\<lambda>c. c \<noteq> 0x3D \<and> c \<noteq> 0) base32_table"
  by code_simp

lemma base32_character_props:
  assumes "v AND 0x1F = v"
  shows "encoding_base32_value (encoding_base32_character v) = uint v"
    and "encoding_base32_character v \<noteq> 0x3D" "encoding_base32_character v \<noteq> 0"
proof -
  have v: "unat v < 32" using word_and_le1 [of v "0x1F"] assms by (simp add: word_le_nat_alt)
  have tab: "map encoding_base32_value base32_table = [0..31]" using base32_table_values by blast
  have len: "length base32_table = 32" using arg_cong [OF tab, of length] by simp
  have "encoding_base32_value (base32_table ! unat v) = map encoding_base32_value base32_table ! unat v"
    using len v by simp
  also have "\<dots> = int (unat v)" unfolding tab using v by (subst nth_upto) (linarith, simp)
  also have "\<dots> = uint v" by simp
  finally show "encoding_base32_value (encoding_base32_character v) = uint v"
    by (simp add: encoding_base32_character_def assms)
  show "encoding_base32_character v \<noteq> 0x3D" "encoding_base32_character v \<noteq> 0"
    using base32_table_values v len
    by (auto simp: encoding_base32_character_def assms list_all_length)
qed

lemma quintet_bounds: "q \<in> set (quintets b1 b2 b3 b4 b5) \<Longrightarrow> q AND 0x1F = q"
  unfolding quintets_def
  by (rule u8_eqI) (auto simp: bit_simps upt_rec bit_blast simp del: push_bit_Suc)

lemmas base32_byte_defs =
  base32_byte1_def base32_byte2_def base32_byte3_def base32_byte4_def base32_byte5_def

lemma bytes_of_quintets:
  "base32_byte1 (quintets b1 b2 b3 b4 b5) = b1" "base32_byte2 (quintets b1 b2 b3 b4 b5) = b2"
  "base32_byte3 (quintets b1 b2 b3 b4 b5) = b3" "base32_byte4 (quintets b1 b2 b3 b4 b5) = b4"
  "base32_byte5 (quintets b1 b2 b3 b4 b5) = b5"
  unfolding base32_byte_defs quintets_def
  by (rule u8_eqI, simp add: bit_simps upt_rec bit_blast del: push_bit_Suc)+

lemma bytes_of_take:
  "2 \<le> k \<Longrightarrow> base32_byte1 (take k v) = base32_byte1 v"
  "4 \<le> k \<Longrightarrow> base32_byte2 (take k v) = base32_byte2 v"
  "5 \<le> k \<Longrightarrow> base32_byte3 (take k v) = base32_byte3 v"
  "7 \<le> k \<Longrightarrow> base32_byte4 (take k v) = base32_byte4 v"
  by (simp_all add: base32_byte_defs)

lemma quintets_rest:
  "quintets b1 0 b3 b4 b5 ! 1 AND 0x03 = 0" "quintets b1 b2 0 b4 b5 ! 3 AND 0x0F = 0"
  "quintets b1 b2 b3 0 b5 ! 4 AND 0x01 = 0" "quintets b1 b2 b3 b4 0 ! 6 AND 0x07 = 0"
  unfolding quintets_def
  by (rule u8_eqI, simp add: bit_simps upt_rec bit_blast del: push_bit_Suc)+

lemma decode_quintets:
  "encoding_base32_decode_block (quintets b1 b2 b3 b4 b5) 8 = Some [b1, b2, b3, b4, b5]"
  "encoding_base32_decode_block (take 7 (quintets b1 b2 b3 b4 0)) 7 = Some [b1, b2, b3, b4]"
  "encoding_base32_decode_block (take 5 (quintets b1 b2 b3 0 0)) 5 = Some [b1, b2, b3]"
  "encoding_base32_decode_block (take 4 (quintets b1 b2 0 0 0)) 4 = Some [b1, b2]"
  "encoding_base32_decode_block (take 2 (quintets b1 0 0 0 0)) 2 = Some [b1]"
  using quintets_rest
  by (simp_all add: encoding_base32_decode_block_def bytes_of_take bytes_of_quintets)

subsection \<open>The loops\<close>

text \<open>Values below 8 in number are collected; the eighth flushes the block.\<close>

lemma base32_loop_collect:
  assumes "\<forall>q\<in>set qs. q AND 0x1F = q" "length block + length qs < 8"
  shows "base32_decode_loop (map encoding_base32_character qs @ xs) block False n out
    = base32_decode_loop xs (block @ qs) False n out"
  using assms
proof (induction qs arbitrary: block)
  case (Cons q qs)
  then show ?case using Cons.IH [of "block @ [q]"] by (simp add: base32_character_props Let_def)
qed simp

lemma base32_loop_flush:
  assumes "\<forall>q\<in>set qs. q AND 0x1F = q" "length qs = 8"
    and "encoding_base32_decode_block qs 8 = Some o8"
  shows "base32_decode_loop (map encoding_base32_character qs @ xs) [] False n out
    = base32_decode_loop xs [] False n (out @ o8)"
proof -
  obtain q ps where qs: "qs = ps @ [q]" "length ps = 7"
    using assms(2) by (cases qs rule: rev_cases) auto
  have "base32_decode_loop (map encoding_base32_character qs @ xs) [] False n out
      = base32_decode_loop (encoding_base32_character q # xs) ps False n out"
    using base32_loop_collect [of ps "[]"] assms qs by simp
  also have "\<dots> = base32_decode_loop xs [] False n (out @ o8)"
    using assms qs by (simp add: base32_character_props Let_def)
  finally show ?thesis .
qed

lemma base32_loop_padding:
  "base32_decode_loop (replicate k 0x3D) block p n out = Some (block, p \<or> 0 < k, n + k, out)"
  by (induction k arbitrary: n p) auto

text \<open>The encoder in terms of quintets: full groups, and the last one by its length.\<close>

lemma base32_encode_Nil [simp]: "base32_encode_loop [] = []"
  by (subst base32_encode_loop.simps) simp

lemma base32_encode_Cons5:
  "base32_encode_loop (b1 # b2 # b3 # b4 # b5 # xs) =
     map encoding_base32_character (quintets b1 b2 b3 b4 b5) @ base32_encode_loop xs"
  by (subst base32_encode_loop.simps)
    (simp add: base32_group_def quintets_def Let_def eval_nat_numeral del: push_bit_Suc drop_bit_Suc)

definition base32_tail :: "nat \<Rightarrow> u8 list \<Rightarrow> bytes" where
  "base32_tail k q = map encoding_base32_character (take k q) @ replicate (8 - k) 0x3D"

lemma base32_encode_tails:
  "base32_encode_loop [b1] = base32_tail 2 (quintets b1 0 0 0 0)"
  "base32_encode_loop [b1, b2] = base32_tail 4 (quintets b1 b2 0 0 0)"
  "base32_encode_loop [b1, b2, b3] = base32_tail 5 (quintets b1 b2 b3 0 0)"
  "base32_encode_loop [b1, b2, b3, b4] = base32_tail 7 (quintets b1 b2 b3 b4 0)"
  by (subst base32_encode_loop.simps,
      simp add: base32_group_def base32_tail_def quintets_def Let_def numeral_eq_Suc
        del: push_bit_Suc drop_bit_Suc)+

lemma five_induct [case_names Nil One Two Three Four Five]:
  assumes "P []" "\<And>a. P [a]" "\<And>a b. P [a, b]" "\<And>a b c. P [a, b, c]" "\<And>a b c d. P [a, b, c, d]"
    and "\<And>a b c d e xs. P xs \<Longrightarrow> P (a # b # c # d # e # xs)"
  shows "P xs"
proof (induction "length xs" arbitrary: xs rule: less_induct)
  case less
  consider "xs = []" | a where "xs = [a]" | a b where "xs = [a, b]" | a b c where "xs = [a, b, c]"
    | a b c d where "xs = [a, b, c, d]" | a b c d e ys where "xs = a # b # c # d # e # ys"
    by (metis list.exhaust)
  then show ?case using assms less by cases auto
qed

lemma length_quintets [simp]: "length (quintets b1 b2 b3 b4 b5) = 8"
  by (simp add: quintets_def)

lemma quintets_not_Nil [simp]: "quintets b1 b2 b3 b4 b5 \<noteq> []"
  by (simp add: quintets_def)

lemma base32_decode_tail:
  assumes "\<forall>q\<in>set qs. q AND 0x1F = q" "length qs = 8" "k = 2 \<or> k = 4 \<or> k = 5 \<or> k = 7"
  shows "base32_decode_loop (base32_tail k qs) [] False 0 out = Some (take k qs, True, 8 - k, out)"
proof -
  have "\<forall>q\<in>set (take k qs). q AND 0x1F = q" using assms(1) by (meson in_set_takeD)
  moreover have "length ([] :: u8 list) + length (take k qs) < 8" using assms by auto
  ultimately have "base32_decode_loop (base32_tail k qs) [] False 0 out
      = base32_decode_loop (replicate (8 - k) 0x3D) ([] @ take k qs) False 0 out"
    unfolding base32_tail_def by (rule base32_loop_collect)
  also have "\<dots> = Some (take k qs, True, 8 - k, out)"
    using assms(3) by (simp add: base32_loop_padding) auto
  finally show ?thesis .
qed

lemma base32_quintets_ok: "\<forall>q\<in>set (quintets b1 b2 b3 b4 b5). q AND 0x1F = q"
  using quintet_bounds by blast

text \<open>What the loop leaves for the last block, and that the last block decodes.\<close>

lemma base32_tail_decodes:
  assumes "base32_decode_loop txs [] False 0 out = Some (block, True, n, out)"
    and "length block = k" "k = 2 \<or> k = 4 \<or> k = 5 \<or> k = 7" "k + n = 8"
    and "encoding_base32_decode_block block k = Some xs"
  shows "\<exists>block pad n o1 o2. base32_decode_loop txs [] False 0 out = Some (block, pad, n, out @ o1)
     \<and> (pad \<longrightarrow> length block \<in> {2, 4, 5, 7} \<and> length block + n = 8)
     \<and> (if block = [] then o2 = [] else encoding_base32_decode_block block (length block) = Some o2)
     \<and> xs = o1 @ o2"
  using assms
  by (intro exI [of _ block] exI [of _ True] exI [of _ n] exI [of _ "[]"] exI [of _ xs]) auto

lemma base32_decode_encode_loop:
  "\<exists>block pad n o1 o2. base32_decode_loop (base32_encode_loop xs) [] False 0 out
       = Some (block, pad, n, out @ o1)
     \<and> (pad \<longrightarrow> length block \<in> {2, 4, 5, 7} \<and> length block + n = 8)
     \<and> (if block = [] then o2 = [] else encoding_base32_decode_block block (length block) = Some o2)
     \<and> xs = o1 @ o2"
proof (induction xs arbitrary: out rule: five_induct)
  case Nil
  have "base32_decode_loop (base32_encode_loop []) [] False 0 out = Some ([], False, 0, out @ [])"
    by simp
  then show ?case by fastforce
next
  case (One a)
  show ?case
    unfolding base32_encode_tails
    by (rule base32_tail_decodes [OF base32_decode_tail [OF base32_quintets_ok], where k = 2])
      (simp_all add: decode_quintets)
next
  case (Two a b)
  show ?case
    unfolding base32_encode_tails
    by (rule base32_tail_decodes [OF base32_decode_tail [OF base32_quintets_ok], where k = 4])
      (simp_all add: decode_quintets)
next
  case (Three a b c)
  show ?case
    unfolding base32_encode_tails
    by (rule base32_tail_decodes [OF base32_decode_tail [OF base32_quintets_ok], where k = 5])
      (simp_all add: decode_quintets)
next
  case (Four a b c d)
  show ?case
    unfolding base32_encode_tails
    by (rule base32_tail_decodes [OF base32_decode_tail [OF base32_quintets_ok], where k = 7])
      (simp_all add: decode_quintets)
next
  case (Five a b c d e xs)
  have "base32_decode_loop (base32_encode_loop (a # b # c # d # e # xs)) [] False 0 out
      = base32_decode_loop (base32_encode_loop xs) [] False 0 (out @ [a, b, c, d, e])"
    unfolding base32_encode_Cons5
    by (rule base32_loop_flush) (simp_all add: base32_quintets_ok decode_quintets)
  moreover obtain block pad n o1 o2 where
    "base32_decode_loop (base32_encode_loop xs) [] False 0 (out @ [a, b, c, d, e])
       = Some (block, pad, n, (out @ [a, b, c, d, e]) @ o1)"
    "pad \<longrightarrow> length block \<in> {2, 4, 5, 7} \<and> length block + n = 8"
    "if block = [] then o2 = [] else encoding_base32_decode_block block (length block) = Some o2"
    "xs = o1 @ o2"
    using Five by blast
  ultimately show ?case
    by (intro exI [of _ block] exI [of _ pad] exI [of _ n] exI [of _ "[a, b, c, d, e] @ o1"]
        exI [of _ o2]) simp
qed

lemma base32_decode_encode: "base32_decode_bytes (base32_encode_loop xs) = Some xs"
  using base32_decode_encode_loop [of xs "[]"]
  by (auto simp: base32_decode_bytes_def Let_def split: if_splits)

interpretation base32: codec base32_encode_loop base32_decode_bytes "\<lambda>_. True"
  by unfold_locales (rule base32_decode_encode)

subsection \<open>The operations\<close>

lemma base32_character_no_zero: "encoding_base32_character q \<noteq> 0"
  using base32_character_props(3) [of "q AND 0x1F"]
  by (simp add: encoding_base32_character_def and.assoc)

lemma base32_encode_no_zero [simp]: "0 \<notin> set (base32_encode_loop xs)"
  by (induction xs rule: five_induct)
    (auto simp: base32_encode_Cons5 base32_encode_tails base32_tail_def
      dest: base32_character_no_zero [THEN notE, OF sym])

lemma length_base32_encode: "length (base32_encode_loop xs) = (length xs + 4) div 5 * 8"
proof (induction xs rule: five_induct)
  case (Five a b c d e xs)
  have "(length (a # b # c # d # e # xs) + 4) div 5 = (length xs + 4) div 5 + 1"
    using div_add_self2 [of 5 "length xs + 4"] by (simp add: add.commute add.left_commute)
  then show ?case using Five by (simp add: base32_encode_Cons5)
qed (simp_all add: base32_encode_tails base32_tail_def)

lemma base32_encode_spec:
  assumes "length xs \<le> (FT_SYSTEM_SIZE_MAX div 8) * 5" "wf_alloc malloc"
  shows "encoding_base32_encode malloc (Some xs) (length xs) =
     (case malloc (length (base32_encode_loop xs) + 1) of
        None \<Rightarrow> (None, FT_ERR_NO_MEMORY)
      | Some _ \<Rightarrow> (Some (base32_encode_loop xs @ [0]), FT_ERR_SUCCESS))"
  using assms
  by (auto simp: encoding_base32_encode_def encoding_base32_encode_internal_def write_block_def
      length_base32_encode split: option.splits dest: wf_allocD)

text \<open>The decoder never writes more than its block holds, the terminator included.\<close>

lemma base32_block_length: "encoding_base32_decode_block v n = Some o8 \<Longrightarrow> length o8 \<le> 5"
  by (auto simp: encoding_base32_decode_block_def split: if_splits)

lemma base32_loop_length:
  assumes "base32_decode_loop xs block p n out = Some (block', p', n', out')" "length block < 8"
  shows "length block' < 8 \<and> (\<exists>k. length out' \<le> length out + 5 * k
     \<and> 8 * k + length block' \<le> length block + length xs)"
  using assms
proof (induction xs arbitrary: block p n out)
  case Nil
  then show ?case by (auto intro: exI [of _ 0])
next
  case (Cons c xs)
  let ?b = "block @ [word_of_int (encoding_base32_value c)]"
  consider (pad) "base32_decode_loop xs block True (n + 1) out = Some (block', p', n', out')"
    | (val) "base32_decode_loop xs ?b p n out = Some (block', p', n', out')" "length ?b \<noteq> 8"
    | (flush) o8 where "base32_decode_loop xs [] p n (out @ o8) = Some (block', p', n', out')"
        "length o8 \<le> 5" "length ?b = 8"
    using Cons.prems(1)
    by (auto simp: Let_def split: if_splits option.splits dest: base32_block_length)
  then show ?case
  proof cases
    case pad
    then show ?thesis using Cons.IH [OF pad Cons.prems(2)] by fastforce
  next
    case val
    then show ?thesis using Cons.IH [OF val(1)] Cons.prems(2) by auto
  next
    case flush
    then obtain k where k: "length block' < 8" "length out' \<le> length (out @ o8) + 5 * k"
      "8 * k + length block' \<le> length xs"
      using Cons.IH [OF flush(1)] by auto
    then show ?thesis using flush by (auto intro!: exI [of _ "Suc k"])
  qed
qed

lemma length_base32_decode:
  assumes "base32_decode_bytes xs = Some out"
  shows "length out \<le> (length xs + 7) div 8 * 5"
proof -
  obtain block p n o1 where loop: "base32_decode_loop xs [] False 0 [] = Some (block, p, n, o1)"
    using assms by (auto simp: base32_decode_bytes_def split: option.splits)
  have "\<exists>o8. out = o1 @ o8 \<and> (if block = [] then o8 = []
      else encoding_base32_decode_block block (length block) = Some o8)"
    using assms by (auto simp: base32_decode_bytes_def loop Let_def split: option.splits if_splits)
  then have fin: "out = o1 \<or> (block \<noteq> [] \<and> length out \<le> length o1 + 5)"
    using base32_block_length by (auto split: if_splits)
  obtain k where k: "length o1 \<le> 5 * k" "8 * k + length block \<le> length xs"
    using base32_loop_length [OF loop] by auto
  have "k \<le> (length xs + 7) div 8" using k(2) by (simp add: less_eq_div_iff_mult_less_eq)
  moreover have "k + 1 \<le> (length xs + 7) div 8" if "block \<noteq> []"
  proof -
    have "8 * k + 1 \<le> length xs" using k(2) that by (cases block) auto
    then show ?thesis by (simp add: less_eq_div_iff_mult_less_eq)
  qed
  ultimately show ?thesis using fin k by (auto intro: order_trans)
qed

lemma base32_decode_safe:
  assumes "encoding_base32_decode malloc input n cell = (Some out, cell', e)"
    and "wf_alloc malloc" "length (span_bytes input n) = n"
  shows "e = FT_ERR_SUCCESS \<and> length out = (n + 7) div 8 * 5 + 1
     \<and> (\<forall>k. cell' = Some k \<longrightarrow> k < length out \<and> out ! k = 0)"
proof -
  obtain block res where block: "malloc ((n + 7) div 8 * 5 + 1) = Some block"
    and res: "base32_decode_bytes (span_bytes input n) = Some res"
    and r: "out = write_block block 0 (res @ [0])" "cell' = map_option (\<lambda>_. length res) cell"
      "e = FT_ERR_SUCCESS"
    using assms(1)
    by (auto simp: encoding_base32_decode_def encoding_base32_decode_internal_def Let_def
        split: if_splits option.splits)
  have "length block = (n + 7) div 8 * 5 + 1" using wf_allocD [OF assms(2) block] .
  moreover have "length res \<le> (n + 7) div 8 * 5"
    using length_base32_decode [OF res] assms(3) by simp
  ultimately show ?thesis by (auto simp: r write_block_def nth_append)
qed

text \<open>Encoding then decoding, through the strings the operations exchange.\<close>

lemma base32_roundtrip:
  assumes "total_alloc malloc" "length xs \<le> (FT_SYSTEM_SIZE_MAX div 8) * 5"
  shows "\<exists>s out. encoding_base32_encode malloc (Some xs) (length xs) = (Some s, FT_ERR_SUCCESS)
     \<and> encoding_base32_decode malloc (Some s) (ft_strlen_size_t (Some s)) (Some k)
       = (Some out, Some (length xs), FT_ERR_SUCCESS)
     \<and> take (length xs) out = xs"
proof -
  have wf: "wf_alloc malloc" and tot: "malloc n \<noteq> None" for n
    using assms by (auto simp: total_alloc_def)
  let ?e = "base32_encode_loop xs"
  have enc: "encoding_base32_encode malloc (Some xs) (length xs) = (Some (?e @ [0]), FT_ERR_SUCCESS)"
    using base32_encode_spec [OF assms(2) wf] tot by (auto split: option.splits)
  obtain b where b: "malloc ((length ?e + 7) div 8 * 5 + 1) = Some b" using tot by fastforce
  then have "encoding_base32_decode malloc (Some (?e @ [0])) (length ?e) (Some k)
      = (Some (write_block b 0 (xs @ [0])), Some (length xs), FT_ERR_SUCCESS)"
    by (simp add: encoding_base32_decode_def encoding_base32_decode_internal_def base32_decode_encode)
  moreover have "take (length xs) (write_block b 0 (xs @ [0])) = xs" by (simp add: write_block_def)
  ultimately show ?thesis using enc by (auto simp: cstr_append_zero)
qed

subsection \<open>Main properties\<close>

text \<open>
  Base32 round trip: when memory is available, \<open>encoding_base32_decode\<close> of the
  string \<open>encoding_base32_encode\<close> returns succeeds and gives back exactly the bytes that
  were encoded; the text is padded to a multiple of eight characters.
\<close>

theorem base32_decode_inverts_encode:
  assumes "total_alloc malloc" "length xs \<le> (FT_SYSTEM_SIZE_MAX div 8) * 5"
  shows "\<exists>s out. encoding_base32_encode malloc (Some xs) (length xs) = (Some s, FT_ERR_SUCCESS)
     \<and> length s = (length xs + 4) div 5 * 8 + 1
     \<and> encoding_base32_decode malloc (Some s) (ft_strlen_size_t (Some s)) (Some k)
       = (Some out, Some (length xs), FT_ERR_SUCCESS)
     \<and> take (length xs) out = xs"
proof -
  have wf: "wf_alloc malloc" and tot: "malloc n \<noteq> None" for n
    using assms by (auto simp: total_alloc_def)
  have "encoding_base32_encode malloc (Some xs) (length xs)
      = (Some (base32_encode_loop xs @ [0]), FT_ERR_SUCCESS)"
    using base32_encode_spec [OF assms(2) wf] tot by (auto split: option.splits)
  then show ?thesis
    using base32_roundtrip [OF assms, of k] by (auto simp: length_base32_encode)
qed

theorem base32_decode_inverts_encode_witness:
  "\<exists>s out. encoding_base32_encode zero_alloc (Some [1, 2, 3]) (length [1, 2, 3 :: u8]) = (Some s, FT_ERR_SUCCESS)
     \<and> length s = (length [1, 2, 3 :: u8] + 4) div 5 * 8 + 1
     \<and> encoding_base32_decode zero_alloc (Some s) (ft_strlen_size_t (Some s)) (Some 0)
       = (Some out, Some (length [1, 2, 3 :: u8]), FT_ERR_SUCCESS)
     \<and> take (length [1, 2, 3 :: u8]) out = [1, 2, 3]"
  by (rule base32_decode_inverts_encode) (simp_all add: total_zero_alloc FT_SYSTEM_SIZE_MAX_def)

text \<open>
  On any input \<open>encoding_base32_decode\<close> writes only inside the block it allocates:
  the block has the computed size, and the terminator stands at the reported size, inside it.
\<close>

theorem base32_decode_in_bounds:
  assumes "encoding_base32_decode malloc input n cell = (Some out, cell', e)"
    and "wf_alloc malloc" "length (span_bytes input n) = n"
  shows "e = FT_ERR_SUCCESS \<and> length out = (n + 7) div 8 * 5 + 1
     \<and> (\<forall>k. cell' = Some k \<longrightarrow> k < length out \<and> out ! k = 0)"
  using assms by (rule base32_decode_safe)

theorem base32_decode_in_bounds_witness:
  "\<exists>out cell' e. encoding_base32_decode zero_alloc (Some [0x4D, 0x59]) 2 (Some 0) = (Some out, cell', e)
    \<and> (e = FT_ERR_SUCCESS \<and> length out = (2 + 7) div 8 * 5 + 1
       \<and> (\<forall>k. cell' = Some k \<longrightarrow> k < length out \<and> out ! k = 0))"
proof -
  have wf: "wf_alloc zero_alloc" using total_zero_alloc by (simp add: total_alloc_def)
  have run: "encoding_base32_decode zero_alloc (Some [0x4D, 0x59]) 2 (Some 0)
      = (Some [0x66, 0, 0, 0, 0, 0], Some 1, FT_ERR_SUCCESS)" by code_simp
  show ?thesis using base32_decode_in_bounds [OF run wf] run by fastforce
qed

end
