(* ===== verification/Encoding_Text.thy ===== *)
theory Encoding_Text
  imports Encoding_Base32 Basic_Utf8
begin

text \<open>
  The remaining encodings of \<^verbatim>\<open>src/Modules/Encoding/encoding.cpp\<close>: hexadecimal, percent
  encoding, the UTF-8 wrappers and the error accessors. Results are as in base64.
\<close>

subsection \<open>The error state\<close>

definition encoding_set_error :: "ft_err \<Rightarrow> ft_err \<times> ft_err" where
  "encoding_set_error error_code = (error_code, error_code)"

definition encoding_get_error :: "ft_err \<Rightarrow> ft_err" where
  "encoding_get_error g_encoding_error = g_encoding_error"

definition encoding_get_error_str :: "(ft_err \<Rightarrow> string option) \<Rightarrow> ft_err \<Rightarrow> string" where
  "encoding_get_error_str cmp_system_strerror g_encoding_error =
     ft_strerror cmp_system_strerror g_encoding_error"

definition encoding_add_overflows :: "nat \<Rightarrow> nat \<Rightarrow> bool" where
  "encoding_add_overflows left right \<longleftrightarrow> left > FT_SYSTEM_SIZE_MAX - right"

subsection \<open>Hexadecimal\<close>

definition encoding_hex_value :: "u8 \<Rightarrow> int" where
  "encoding_hex_value c =
     (if 0x30 \<le> c \<and> c \<le> 0x39 then uint c - 0x30
      else if 0x61 \<le> c \<and> c \<le> 0x66 then uint c - 0x61 + 10
      else if 0x41 \<le> c \<and> c \<le> 0x46 then uint c - 0x41 + 10
      else -1)"

definition hex_digits :: "bool \<Rightarrow> bytes" where
  "hex_digits uppercase =
     (if uppercase then map of_char ''0123456789ABCDEF'' else map of_char ''0123456789abcdef'')"

fun hex_encode_loop :: "bytes \<Rightarrow> bytes \<Rightarrow> bytes" where
  "hex_encode_loop digits [] = []"
| "hex_encode_loop digits (x # xs) =
     digits ! unat (drop_bit 4 x AND 0x0F) # digits ! unat (x AND 0x0F) # hex_encode_loop digits xs"

definition encoding_hex_encode :: "alloc \<Rightarrow> ptr \<Rightarrow> nat \<Rightarrow> bool \<Rightarrow> ptr \<times> ft_err" where
  "encoding_hex_encode cma_malloc input input_size uppercase =
     (if null_span input input_size then (None, FT_ERR_INVALID_ARGUMENT)
      else if input_size > FT_SYSTEM_SIZE_MAX div 2 then (None, FT_ERR_OUT_OF_RANGE)
      else case cma_malloc (input_size * 2 + 1) of
             None \<Rightarrow> (None, FT_ERR_NO_MEMORY)
           | Some output \<Rightarrow>
               (Some (write_block output 0
                  (hex_encode_loop (hex_digits uppercase) (span_bytes input input_size) @ [0])),
                FT_ERR_SUCCESS))"

text \<open>\<^term>\<open>None\<close> is the early return on a character that is not a hexadecimal digit.\<close>

definition hex_pair :: "u8 \<Rightarrow> u8 \<Rightarrow> u8 option" where
  "hex_pair high low =
     (let high_value = encoding_hex_value high; low_value = encoding_hex_value low
      in if high_value < 0 \<or> low_value < 0 then None
         else Some (push_bit 4 (word_of_int high_value) OR word_of_int low_value))"

fun hex_decode_loop :: "bytes \<Rightarrow> bytes option" where
  "hex_decode_loop [] = Some []"
| "hex_decode_loop [h] = None"
| "hex_decode_loop (h # l # xs) =
     (case hex_pair h l of
        None \<Rightarrow> None
      | Some x \<Rightarrow> (case hex_decode_loop xs of None \<Rightarrow> None | Some out \<Rightarrow> Some (x # out)))"

definition encoding_hex_decode ::
  "alloc \<Rightarrow> ptr \<Rightarrow> nat \<Rightarrow> nat option \<Rightarrow> ptr \<times> nat option \<times> ft_err" where
  "encoding_hex_decode cma_malloc input input_size output_size =
     (let none = map_option (\<lambda>_. 0) output_size
      in if null_span input input_size \<or> input_size mod 2 \<noteq> 0
         then (None, none, FT_ERR_INVALID_ARGUMENT)
         else case cma_malloc (input_size div 2 + 1) of
           None \<Rightarrow> (None, none, FT_ERR_NO_MEMORY)
         | Some output \<Rightarrow>
             (case hex_decode_loop (span_bytes input input_size) of
                None \<Rightarrow> (None, none, FT_ERR_INVALID_ARGUMENT)
              | Some out \<Rightarrow>
                  (Some (write_block output 0 out), map_option (\<lambda>_. length out) output_size,
                   FT_ERR_SUCCESS)))"

subsection \<open>Percent encoding\<close>

definition encoding_is_unreserved_percent_byte :: "u8 \<Rightarrow> bool" where
  "encoding_is_unreserved_percent_byte v \<longleftrightarrow>
     (0x41 \<le> v \<and> v \<le> 0x5A) \<or> (0x61 \<le> v \<and> v \<le> 0x7A) \<or> (0x30 \<le> v \<and> v \<le> 0x39)
     \<or> v = 0x2D \<or> v = 0x5F \<or> v = 0x2E \<or> v = 0x7E"

text \<open>The size pass: \<^term>\<open>None\<close> when the size would not fit.\<close>

fun percent_size :: "bytes \<Rightarrow> nat \<Rightarrow> nat option" where
  "percent_size [] output_size = Some output_size"
| "percent_size (x # xs) output_size =
     (if encoding_is_unreserved_percent_byte x
      then if encoding_add_overflows output_size 1 then None else percent_size xs (output_size + 1)
      else if encoding_add_overflows output_size 3 then None
      else percent_size xs (output_size + 3))"

fun percent_encode_loop :: "bytes \<Rightarrow> bytes" where
  "percent_encode_loop [] = []"
| "percent_encode_loop (x # xs) =
     (if encoding_is_unreserved_percent_byte x then x # percent_encode_loop xs
      else 0x25 # hex_digits True ! unat (drop_bit 4 x AND 0x0F)
             # hex_digits True ! unat (x AND 0x0F) # percent_encode_loop xs)"

definition encoding_percent_encode :: "alloc \<Rightarrow> ptr \<Rightarrow> nat \<Rightarrow> ptr \<times> ft_err" where
  "encoding_percent_encode cma_malloc input input_size =
     (if null_span input input_size then (None, FT_ERR_INVALID_ARGUMENT)
      else case percent_size (span_bytes input input_size) 0 of
        None \<Rightarrow> (None, FT_ERR_OUT_OF_RANGE)
      | Some output_size \<Rightarrow>
          (case cma_malloc (output_size + 1) of
             None \<Rightarrow> (None, FT_ERR_NO_MEMORY)
           | Some output \<Rightarrow>
               (Some (write_block output 0
                        (percent_encode_loop (span_bytes input input_size) @ [0])),
                FT_ERR_SUCCESS)))"

fun percent_decode_loop :: "bytes \<Rightarrow> bytes option" where
  "percent_decode_loop [] = Some []"
| "percent_decode_loop (c # xs) =
     (if c = 0x25
      then (case xs of
              h # l # ys \<Rightarrow>
                (case hex_pair h l of
                   None \<Rightarrow> None
                 | Some x \<Rightarrow>
                     (case percent_decode_loop ys of None \<Rightarrow> None | Some out \<Rightarrow> Some (x # out)))
            | _ \<Rightarrow> None)
      else (case percent_decode_loop xs of None \<Rightarrow> None | Some out \<Rightarrow> Some (c # out)))"

definition encoding_percent_decode ::
  "alloc \<Rightarrow> ptr \<Rightarrow> nat \<Rightarrow> nat option \<Rightarrow> ptr \<times> nat option \<times> ft_err" where
  "encoding_percent_decode cma_malloc input input_size output_size =
     (let none = map_option (\<lambda>_. 0) output_size
      in if null_span input input_size then (None, none, FT_ERR_INVALID_ARGUMENT)
         else case cma_malloc (input_size + 1) of
           None \<Rightarrow> (None, none, FT_ERR_NO_MEMORY)
         | Some output \<Rightarrow>
             (case percent_decode_loop (span_bytes input input_size) of
                None \<Rightarrow> (None, none, FT_ERR_INVALID_ARGUMENT)
              | Some out \<Rightarrow>
                  (Some (write_block output 0 out), map_option (\<lambda>_. length out) output_size,
                   FT_ERR_SUCCESS)))"

subsection \<open>UTF-8\<close>

text \<open>Both return the code they store in \<open>g_encoding_error\<close>.\<close>

definition encoding_utf8_validate :: "ptr \<Rightarrow> nat \<Rightarrow> ft_err" where
  "encoding_utf8_validate input input_size =
     (case input of
        None \<Rightarrow> if input_size \<noteq> 0 then FT_ERR_INVALID_ARGUMENT else FT_ERR_SUCCESS
      | Some s \<Rightarrow> (case utf8_walk s input_size 0 0 of Inl e \<Rightarrow> e | Inr _ \<Rightarrow> FT_ERR_SUCCESS))"

definition encoding_utf8_next_codepoint ::
  "ptr \<Rightarrow> nat \<Rightarrow> nat option \<Rightarrow> u32 option \<Rightarrow> ft_err \<times> nat option \<times> u32 option" where
  "encoding_utf8_next_codepoint input input_size index_pointer code_point_pointer =
     (case ft_utf8_next input input_size index_pointer code_point_pointer (Some 0) of
        (result, index_cell, code_point_cell, _) \<Rightarrow> (result, index_cell, code_point_cell))"

subsection \<open>Round trips\<close>

lemma nibble_lt_16: "unat (x AND 0x0F :: u8) < 16"
  using word_and_le1 [of x "0x0F"] by (simp add: word_le_nat_alt)

lemma hex_digits_values:
  "map encoding_hex_value (hex_digits u) = [0..15] \<and> list_all (\<lambda>c. c \<noteq> 0 \<and> c \<noteq> 0x25) (hex_digits u)"
proof (cases u)
  case True
  have "map encoding_hex_value (hex_digits True) = [0..15]
     \<and> list_all (\<lambda>c. c \<noteq> 0 \<and> c \<noteq> 0x25) (hex_digits True)" by code_simp
  with True show ?thesis by simp
next
  case False
  have "map encoding_hex_value (hex_digits False) = [0..15]
     \<and> list_all (\<lambda>c. c \<noteq> 0 \<and> c \<noteq> 0x25) (hex_digits False)" by code_simp
  with False show ?thesis by simp
qed

lemma hex_digit_props:
  assumes "n < 16"
  shows "encoding_hex_value (hex_digits u ! n) = int n" "hex_digits u ! n \<noteq> 0"
    "hex_digits u ! n \<noteq> 0x25"
proof -
  have tab: "map encoding_hex_value (hex_digits u) = [0..15]" using hex_digits_values by blast
  have len: "length (hex_digits u) = 16" using arg_cong [OF tab, of length] by simp
  have "encoding_hex_value (hex_digits u ! n) = map encoding_hex_value (hex_digits u) ! n"
    using len assms by simp
  also have "\<dots> = int n" unfolding tab using assms by (subst nth_upto) (linarith, simp)
  finally show "encoding_hex_value (hex_digits u ! n) = int n" .
  show "hex_digits u ! n \<noteq> 0" "hex_digits u ! n \<noteq> 0x25"
    using hex_digits_values [of u] assms len by (auto simp: list_all_length)
qed

lemma hex_pair_digits:
  "hex_pair (hex_digits u ! unat (drop_bit 4 x AND 0x0F)) (hex_digits u ! unat (x AND 0x0F)) = Some x"
proof -
  have "push_bit 4 (drop_bit 4 x AND 0x0F) OR (x AND 0x0F) = x"
    by (rule u8_eqI) (simp add: bit_simps upt_rec bit_blast)
  then show ?thesis
    by (simp add: hex_pair_def hex_digit_props nibble_lt_16 Let_def)
qed

lemma hex_decode_encode: "hex_decode_loop (hex_encode_loop (hex_digits u) xs) = Some xs"
  by (induction xs) (simp_all add: hex_pair_digits)

lemma percent_decode_encode: "percent_decode_loop (percent_encode_loop xs) = Some xs"
proof (induction xs)
  case (Cons x xs)
  have "x \<noteq> 0x25" if "encoding_is_unreserved_percent_byte x"
    using that by (auto simp: encoding_is_unreserved_percent_byte_def word_le_nat_alt)
  with Cons show ?case by (simp add: hex_pair_digits)
qed simp

interpretation hex: codec "hex_encode_loop (hex_digits u)" hex_decode_loop "\<lambda>_. True" for u
  by unfold_locales (rule hex_decode_encode)

interpretation percent: codec percent_encode_loop percent_decode_loop "\<lambda>_. True"
  by unfold_locales (rule percent_decode_encode)

lemma length_hex_encode [simp]: "length (hex_encode_loop d xs) = 2 * length xs"
  by (induction xs) simp_all

lemma length_hex_decode: "hex_decode_loop xs = Some out \<Longrightarrow> length xs = 2 * length out"
  by (induction xs arbitrary: out rule: hex_decode_loop.induct) (auto split: option.splits)

lemma hex_encode_no_zero [simp]: "0 \<notin> set (hex_encode_loop (hex_digits u) xs)"
  by (induction xs) (auto simp: hex_digit_props nibble_lt_16 dest!: sym [of 0])

text \<open>The encoder's block is filled exactly, and what it wrote decodes to the input.\<close>

lemma hex_roundtrip:
  assumes "total_alloc malloc" "length xs \<le> FT_SYSTEM_SIZE_MAX div 2"
  shows "\<exists>s out. encoding_hex_encode malloc (Some xs) (length xs) u = (Some s, FT_ERR_SUCCESS)
     \<and> length s = 2 * length xs + 1
     \<and> encoding_hex_decode malloc (Some s) (ft_strlen_size_t (Some s)) (Some k)
       = (Some out, Some (length xs), FT_ERR_SUCCESS)
     \<and> take (length xs) out = xs \<and> length out = length xs + 1"
proof -
  have wf: "wf_alloc malloc" and tot: "malloc n \<noteq> None" for n
    using assms by (auto simp: total_alloc_def)
  let ?e = "hex_encode_loop (hex_digits u) xs"
  obtain b b' where b: "malloc (length xs * 2 + 1) = Some b" "malloc (length xs + 1) = Some b'"
    using tot by (meson not_None_eq)
  note len = wf_allocD [OF wf b(1)] wf_allocD [OF wf b(2)]
  have "encoding_hex_encode malloc (Some xs) (length xs) u = (Some (?e @ [0]), FT_ERR_SUCCESS)"
    using assms(2) b len by (simp add: encoding_hex_encode_def write_block_def)
  moreover have "encoding_hex_decode malloc (Some (?e @ [0])) (length ?e) (Some k)
      = (Some (write_block b' 0 xs), Some (length xs), FT_ERR_SUCCESS)"
    using b by (simp add: encoding_hex_decode_def hex_decode_encode)
  moreover have "take (length xs) (write_block b' 0 xs) = xs" "length (write_block b' 0 xs) = length xs + 1"
    using len by (simp_all add: write_block_def)
  ultimately show ?thesis by (auto simp: cstr_append_zero)
qed

lemma percent_size_exact:
  "percent_size xs n = (if n + length (percent_encode_loop xs) \<le> FT_SYSTEM_SIZE_MAX
     then Some (n + length (percent_encode_loop xs)) else None)" if "n \<le> FT_SYSTEM_SIZE_MAX"
  using that
  by (induction xs arbitrary: n) (auto simp: encoding_add_overflows_def FT_SYSTEM_SIZE_MAX_def)

lemma percent_encode_no_zero [simp]: "0 \<notin> set (percent_encode_loop xs)"
proof (induction xs)
  case (Cons x xs)
  have "\<not> encoding_is_unreserved_percent_byte 0"
    by (simp add: encoding_is_unreserved_percent_byte_def)
  with Cons show ?case by (auto simp: hex_digit_props nibble_lt_16 dest!: sym [of 0])
qed simp

lemma length_percent_decode: "percent_decode_loop xs = Some out \<Longrightarrow> length out \<le> length xs"
proof (induction xs arbitrary: out rule: percent_decode_loop.induct)
  case (2 c xs)
  show ?case
  proof (cases "c = 0x25")
    case True
    then obtain h l ys x o2 where "xs = h # l # ys" "hex_pair h l = Some x"
      "percent_decode_loop ys = Some o2" "out = x # o2"
      using 2(3) by (auto split: list.splits option.splits)
    with True 2(1) show ?thesis by fastforce
  next
    case False
    then obtain o2 where "percent_decode_loop xs = Some o2" "out = c # o2"
      using 2(3) by (auto split: option.splits)
    with False 2(2) show ?thesis by fastforce
  qed
qed simp

lemma percent_roundtrip:
  assumes "total_alloc malloc" "3 * length xs \<le> FT_SYSTEM_SIZE_MAX"
  shows "\<exists>s out. encoding_percent_encode malloc (Some xs) (length xs) = (Some s, FT_ERR_SUCCESS)
     \<and> encoding_percent_decode malloc (Some s) (ft_strlen_size_t (Some s)) (Some k)
       = (Some out, Some (length xs), FT_ERR_SUCCESS)
     \<and> take (length xs) out = xs"
proof -
  have wf: "wf_alloc malloc" and tot: "malloc n \<noteq> None" for n
    using assms by (auto simp: total_alloc_def)
  let ?e = "percent_encode_loop xs"
  have "length ?e \<le> 3 * length xs" by (induction xs) auto
  then have sz: "percent_size xs 0 = Some (length ?e)"
    using assms(2) percent_size_exact [of 0 xs] by simp
  obtain b where b: "malloc (length ?e + 1) = Some b" using tot by (meson not_None_eq)
  have "encoding_percent_encode malloc (Some xs) (length xs) = (Some (?e @ [0]), FT_ERR_SUCCESS)"
    using b sz wf_allocD [OF wf b] by (simp add: encoding_percent_encode_def write_block_def)
  moreover have "encoding_percent_decode malloc (Some (?e @ [0])) (length ?e) (Some k)
      = (Some (write_block b 0 xs), Some (length xs), FT_ERR_SUCCESS)"
    using b by (simp add: encoding_percent_decode_def percent_decode_encode)
  moreover have "take (length xs) (write_block b 0 xs) = xs" by (simp add: write_block_def)
  ultimately show ?thesis by (auto simp: cstr_append_zero)
qed

lemma percent_decode_safe:
  assumes "encoding_percent_decode malloc input n cell = (Some out, cell', e)" "wf_alloc malloc"
    and "length (span_bytes input n) = n"
  shows "e = FT_ERR_SUCCESS \<and> length out = n + 1 \<and> (\<forall>k. cell' = Some k \<longrightarrow> k \<le> n)"
proof -
  obtain block res where block: "malloc (n + 1) = Some block"
    and res: "percent_decode_loop (span_bytes input n) = Some res"
    and r: "out = write_block block 0 res" "cell' = map_option (\<lambda>_. length res) cell"
      "e = FT_ERR_SUCCESS"
    using assms(1)
    by (auto simp: encoding_percent_decode_def Let_def split: if_splits option.splits)
  have "length block = n + 1" using wf_allocD [OF assms(2) block] .
  moreover have "length res \<le> n" using length_percent_decode [OF res] assms(3) by simp
  ultimately show ?thesis by (auto simp: r)
qed

lemma encoding_utf8_validate_eq:
  "encoding_utf8_validate (Some s) n = ft_utf8_validate (Some s) n"
  by (simp add: encoding_utf8_validate_def ft_utf8_validate_def)

subsection \<open>Main properties\<close>

text \<open>
  Percent encoding round trip: the decoder accepts the encoder's output and gives
  back the bytes that were encoded, whatever they are.
\<close>

theorem percent_decode_inverts_encode:
  assumes "total_alloc malloc" "3 * length xs \<le> FT_SYSTEM_SIZE_MAX"
  shows "\<exists>s out. encoding_percent_encode malloc (Some xs) (length xs) = (Some s, FT_ERR_SUCCESS)
     \<and> encoding_percent_decode malloc (Some s) (ft_strlen_size_t (Some s)) (Some k)
       = (Some out, Some (length xs), FT_ERR_SUCCESS)
     \<and> take (length xs) out = xs"
  using assms by (rule percent_roundtrip)

theorem percent_decode_inverts_encode_witness:
  "\<exists>s out. encoding_percent_encode zero_alloc (Some [0x41, 0x2F]) (length [0x41, 0x2F :: u8]) = (Some s, FT_ERR_SUCCESS)
     \<and> encoding_percent_decode zero_alloc (Some s) (ft_strlen_size_t (Some s)) (Some 0)
       = (Some out, Some (length [0x41, 0x2F :: u8]), FT_ERR_SUCCESS)
     \<and> take (length [0x41, 0x2F :: u8]) out = [0x41, 0x2F]"
  by (rule percent_decode_inverts_encode) (simp_all add: total_zero_alloc FT_SYSTEM_SIZE_MAX_def)

text \<open>
  Hexadecimal round trip, in either letter case: the text has two characters per
  byte and decodes to the bytes that were encoded.
\<close>

theorem hex_decode_inverts_encode:
  assumes "total_alloc malloc" "length xs \<le> FT_SYSTEM_SIZE_MAX div 2"
  shows "\<exists>s out. encoding_hex_encode malloc (Some xs) (length xs) u = (Some s, FT_ERR_SUCCESS)
     \<and> length s = 2 * length xs + 1
     \<and> encoding_hex_decode malloc (Some s) (ft_strlen_size_t (Some s)) (Some k)
       = (Some out, Some (length xs), FT_ERR_SUCCESS)
     \<and> take (length xs) out = xs \<and> length out = length xs + 1"
  using assms by (rule hex_roundtrip)

theorem hex_decode_inverts_encode_witness:
  "\<exists>s out. encoding_hex_encode zero_alloc (Some [0xDE, 0xAD]) (length [0xDE, 0xAD :: u8]) True = (Some s, FT_ERR_SUCCESS)
     \<and> length s = 2 * length [0xDE, 0xAD :: u8] + 1
     \<and> encoding_hex_decode zero_alloc (Some s) (ft_strlen_size_t (Some s)) (Some 0)
       = (Some out, Some (length [0xDE, 0xAD :: u8]), FT_ERR_SUCCESS)
     \<and> take (length [0xDE, 0xAD :: u8]) out = [0xDE, 0xAD] \<and> length out = length [0xDE, 0xAD :: u8] + 1"
  by (rule hex_decode_inverts_encode) (simp_all add: total_zero_alloc FT_SYSTEM_SIZE_MAX_def)

end
