(* ===== verification/Buffer_Varint.thy ===== *)
theory Buffer_Varint
  imports Basic_Memory
begin

text \<open>
  The variable-length integers of \<^verbatim>\<open>src/Modules/Buffer/buffer_byte_buffer.cpp\<close>: LEB128
  groups of seven bits, unsigned over \<open>uint64_t\<close> and sign-extended over \<open>int64_t\<close>. A
  buffer argument is a pointer, the size out parameter a cell (\<^term>\<open>None\<close> for null).
\<close>

subsection \<open>Encoding\<close>

text \<open>The loop: the buffer, the index it stopped at, and whether the buffer was too small.\<close>

function encode_varuint_loop :: "u64 \<Rightarrow> bytes \<Rightarrow> nat \<Rightarrow> nat \<Rightarrow> ft_err \<times> bytes \<times> nat" where
  "encode_varuint_loop value buffer buffer_size index =
     (if value \<ge> 0x80
      then if index \<ge> buffer_size then (FT_ERR_OUT_OF_RANGE, buffer, index)
           else encode_varuint_loop (drop_bit 7 value)
                  (buffer[index := ucast (value AND 0x7F) OR 0x80]) buffer_size (index + 1)
      else if index \<ge> buffer_size then (FT_ERR_OUT_OF_RANGE, buffer, index)
      else (FT_ERR_SUCCESS, buffer[index := ucast (value AND 0x7F)], index + 1))"
  by pat_completeness auto
termination
  by (relation "measure (\<lambda>(v, b, n, i). n - i)") auto

declare encode_varuint_loop.simps [simp del]

definition buffer_encode_varuint64 ::
  "u64 \<Rightarrow> ptr \<Rightarrow> nat \<Rightarrow> nat option \<Rightarrow> ft_err \<times> ptr \<times> nat option" where
  "buffer_encode_varuint64 value buffer buffer_size encoded_size =
     (case (buffer, encoded_size) of
        (Some b, Some _) \<Rightarrow>
          (case encode_varuint_loop value b buffer_size 0 of
             (e, b', index) \<Rightarrow>
               (e, Some b', if e = FT_ERR_SUCCESS then Some index else encoded_size))
      | _ \<Rightarrow> (FT_ERR_INVALID_ARGUMENT, buffer, encoded_size))"

text \<open>
  The value of \<open>buffer_encode_varint64\<close> is an \<open>int64_t\<close>: \<open>& 0x7F\<close> is the residue modulo
  128 and \<open>>>\<close> the arithmetic shift.
\<close>

function encode_varint_loop :: "int \<Rightarrow> bytes \<Rightarrow> nat \<Rightarrow> nat \<Rightarrow> ft_err \<times> bytes \<times> nat" where
  "encode_varint_loop value buffer buffer_size index =
     (let byte_value = word_of_int (value AND 0x7F) :: u8;
          value' = drop_bit 7 value;
          sign_bit_set = (byte_value AND 0x40 \<noteq> 0)
      in if index \<ge> buffer_size then (FT_ERR_OUT_OF_RANGE, buffer, index)
         else if value' = 0 \<and> \<not> sign_bit_set \<or> value' = -1 \<and> sign_bit_set
         then (FT_ERR_SUCCESS, buffer[index := byte_value], index + 1)
         else encode_varint_loop value' (buffer[index := byte_value OR 0x80]) buffer_size (index + 1))"
  by pat_completeness auto
termination
  by (relation "measure (\<lambda>(v, b, n, i). n - i)") auto

declare encode_varint_loop.simps [simp del]

definition buffer_encode_varint64 ::
  "int \<Rightarrow> ptr \<Rightarrow> nat \<Rightarrow> nat option \<Rightarrow> ft_err \<times> ptr \<times> nat option" where
  "buffer_encode_varint64 value buffer buffer_size encoded_size =
     (case (buffer, encoded_size) of
        (Some b, Some _) \<Rightarrow>
          (case encode_varint_loop value b buffer_size 0 of
             (e, b', index) \<Rightarrow>
               (e, Some b', if e = FT_ERR_SUCCESS then Some index else encoded_size))
      | _ \<Rightarrow> (FT_ERR_INVALID_ARGUMENT, buffer, encoded_size))"

subsection \<open>Decoding\<close>

text \<open>The loops over the bytes not yet read: the value and the bytes consumed, or too few bytes.\<close>

fun decode_varuint_loop :: "bytes \<Rightarrow> u64 \<Rightarrow> nat \<Rightarrow> nat \<Rightarrow> (u64 \<times> nat) option" where
  "decode_varuint_loop [] value shift index = None"
| "decode_varuint_loop (b # bs) value shift index =
     (if shift \<ge> 64 then None
      else let value' = value OR push_bit shift (ucast (b AND 0x7F))
           in if b AND 0x80 = 0 then Some (value', index + 1)
              else decode_varuint_loop bs value' (shift + 7) (index + 1))"

definition buffer_decode_varuint64 ::
  "ptr \<Rightarrow> nat \<Rightarrow> u64 option \<Rightarrow> nat option \<Rightarrow> ft_err \<times> u64 option \<times> nat option" where
  "buffer_decode_varuint64 buffer buffer_size value_out consumed_size =
     (if buffer = None \<or> value_out = None \<or> consumed_size = None
      then (FT_ERR_INVALID_ARGUMENT, value_out, consumed_size)
      else case decode_varuint_loop (span_bytes buffer buffer_size) 0 0 0 of
             None \<Rightarrow> (FT_ERR_OUT_OF_RANGE, value_out, consumed_size)
           | Some (value, index) \<Rightarrow> (FT_ERR_SUCCESS, Some value, Some index))"

fun decode_varint_loop :: "bytes \<Rightarrow> u64 \<Rightarrow> nat \<Rightarrow> nat \<Rightarrow> (int \<times> nat) option" where
  "decode_varint_loop [] value shift index = None"
| "decode_varint_loop (b # bs) value shift index =
     (if shift \<ge> 64 then None
      else let value' = value OR push_bit shift (ucast (b AND 0x7F)); shift' = shift + 7
           in if b AND 0x80 = 0
              then let value'' = (if shift' < 64 \<and> b AND 0x40 \<noteq> 0
                                  then value' OR push_bit shift' (NOT 0) else value')
                   in Some (sint value'', index + 1)
              else decode_varint_loop bs value' shift' (index + 1))"

definition buffer_decode_varint64 ::
  "ptr \<Rightarrow> nat \<Rightarrow> int option \<Rightarrow> nat option \<Rightarrow> ft_err \<times> int option \<times> nat option" where
  "buffer_decode_varint64 buffer buffer_size value_out consumed_size =
     (if buffer = None \<or> value_out = None \<or> consumed_size = None
      then (FT_ERR_INVALID_ARGUMENT, value_out, consumed_size)
      else case decode_varint_loop (span_bytes buffer buffer_size) 0 0 0 of
             None \<Rightarrow> (FT_ERR_OUT_OF_RANGE, value_out, consumed_size)
           | Some (value, index) \<Rightarrow> (FT_ERR_SUCCESS, Some value, Some index))"

subsection \<open>The encoded bytes\<close>

text \<open>The bytes of a value, without the buffer.\<close>

lemma unat_drop_bit7: "unat (drop_bit 7 v :: u64) = unat v div 128"
  by (simp add: drop_bit_eq_div unat_div)

function varuint_bytes :: "u64 \<Rightarrow> bytes" where
  "varuint_bytes v =
     (if v \<ge> 0x80 then (ucast (v AND 0x7F) OR 0x80) # varuint_bytes (drop_bit 7 v)
      else [ucast (v AND 0x7F)])"
  by pat_completeness auto
termination
  by (relation "measure unat") (auto simp: unat_drop_bit7 word_le_nat_alt)

declare varuint_bytes.simps [simp del]

lemma varuint_bytes_not_Nil [simp]: "varuint_bytes v \<noteq> []"
  by (subst varuint_bytes.simps) simp

lemma length_varuint_bytes: "unat v < 128 ^ Suc k \<Longrightarrow> length (varuint_bytes v) \<le> Suc k"
proof (induction k arbitrary: v)
  case 0
  then show ?case by (subst varuint_bytes.simps) (simp add: word_le_nat_alt)
next
  case (Suc k)
  have "unat (drop_bit 7 v) < 128 ^ Suc k"
    using Suc.prems by (simp add: unat_drop_bit7 div_less_iff_less_mult mult.commute)
  with Suc.IH show ?case by (subst varuint_bytes.simps) simp
qed

lemma length_varuint_bytes_10: "length (varuint_bytes v) \<le> 10"
proof -
  have "unat v < 2 ^ 64" using unsigned_less [of v, where ?'a = nat] by simp
  then show ?thesis using length_varuint_bytes [of v 9] by simp
qed

lemma encode_varuint_loop_spec:
  assumes "length ps + length (varuint_bytes v) \<le> n" "n \<le> length b"
  shows "encode_varuint_loop v (write_block b 0 ps) n (length ps) =
    (FT_ERR_SUCCESS, write_block b 0 (ps @ varuint_bytes v), length ps + length (varuint_bytes v))"
  using assms
proof (induction v arbitrary: ps rule: varuint_bytes.induct)
  case (1 v)
  let ?c = "ucast (v AND 0x7F) :: u8"
  show ?case
  proof (cases "v \<ge> 0x80")
    case True
    then have bytes: "varuint_bytes v = (?c OR 0x80) # varuint_bytes (drop_bit 7 v)"
      by (subst varuint_bytes.simps) simp
    have "encode_varuint_loop v (write_block b 0 ps) n (length ps)
        = encode_varuint_loop (drop_bit 7 v) (write_block b 0 (ps @ [?c OR 0x80])) n
            (length (ps @ [?c OR 0x80]))"
      using True "1.prems" write_block_step [of 0 ps b "?c OR 0x80"]
      by (subst encode_varuint_loop.simps) (simp add: bytes)
    also have "\<dots> = (FT_ERR_SUCCESS, write_block b 0 ((ps @ [?c OR 0x80]) @ varuint_bytes (drop_bit 7 v)),
        length (ps @ [?c OR 0x80]) + length (varuint_bytes (drop_bit 7 v)))"
      using "1.prems" by (intro "1.IH" [OF True]) (simp_all add: bytes)
    finally show ?thesis by (simp add: bytes)
  next
    case False
    then have bytes: "varuint_bytes v = [?c]" by (subst varuint_bytes.simps) simp
    show ?thesis
      using False "1.prems" write_block_step [of 0 ps b ?c]
      by (subst encode_varuint_loop.simps) (simp add: bytes)
  qed
qed

lemma buffer_encode_varuint64_spec:
  assumes "10 \<le> n" "n \<le> length b"
  shows "buffer_encode_varuint64 v (Some b) n (Some k) =
    (FT_ERR_SUCCESS, Some (write_block b 0 (varuint_bytes v)), Some (length (varuint_bytes v)))"
  using encode_varuint_loop_spec [of "[]" v n b] length_varuint_bytes_10 [of v] assms
  by (simp add: buffer_encode_varuint64_def)

lemma seven_bits:
  fixes v :: u64
  defines "c \<equiv> ucast (v AND 0x7F) :: u8"
  shows "c AND 0x7F = c" "c AND 0x80 = 0" "(c OR 0x80) AND 0x7F = c" "(c OR 0x80) AND 0x80 = 0x80"
    "(ucast c :: u64) = v AND 0x7F"
proof -
  show "c AND 0x7F = c" "c AND 0x80 = 0" "(c OR 0x80) AND 0x7F = c" "(c OR 0x80) AND 0x80 = 0x80"
    unfolding c_def by (rule u8_eqI, simp add: bit_simps upt_rec bit_blast)+
  show "(ucast c :: u64) = v AND 0x7F"
    unfolding c_def by (rule u64_eqI) (simp add: bit_simps upt_rec bit_blast)
qed

lemma join_seven: "push_bit s (v AND 0x7F) OR push_bit (s + 7) (drop_bit 7 v) = push_bit s (v :: u64)"
proof -
  have "push_bit s (v AND mask 7) OR push_bit (s + 7) (drop_bit 7 v) = push_bit s v"
  proof (rule bit_word_eqI)
    fix n
    have "7 + (n - (s + 7)) = n - s" if "s + 7 \<le> n" using that by simp
    then show "bit (push_bit s (v AND mask 7) OR push_bit (s + 7) (drop_bit 7 v)) n
        = bit (push_bit s v) n"
      by (cases "s + 7 \<le> n") (auto simp: bit_simps)
  qed
  then show ?thesis by (simp add: mask_eq_exp_minus_1)
qed

lemma decode_varuint_bytes:
  assumes "s < 64" "unat v < 2 ^ (64 - s)"
  shows "decode_varuint_loop (varuint_bytes v @ rest) acc s i
    = Some (acc OR push_bit s v, i + length (varuint_bytes v))"
  using assms
proof (induction v arbitrary: acc s i rule: varuint_bytes.induct)
  case (1 v)
  let ?c = "ucast (v AND 0x7F) :: u8"
  show ?case
  proof (cases "v \<ge> 0x80")
    case True
    then have bytes: "varuint_bytes v = (?c OR 0x80) # varuint_bytes (drop_bit 7 v)"
      by (subst varuint_bytes.simps) simp
    have s: "s + 7 < 64"
    proof (rule ccontr)
      assume "\<not> s + 7 < 64"
      then have "(2 :: nat) ^ (64 - s) \<le> 2 ^ 7" by (intro power_increasing) auto
      then show False using "1.prems" True by (simp add: word_le_nat_alt)
    qed
    have "64 - s = (64 - (s + 7)) + 7" using s by simp
    then have "(2 :: nat) ^ (64 - s) = 2 ^ (64 - (s + 7)) * 128" by (simp only: power_add) simp
    then have up: "unat (drop_bit 7 v) < 2 ^ (64 - (s + 7))"
      using "1.prems"(2) by (simp add: unat_drop_bit7 div_less_iff_less_mult)
    show ?thesis
      using "1.IH" [OF True s up] "1.prems" join_seven [of s v]
      by (simp add: bytes seven_bits or.assoc Let_def)
  next
    case False
    then have bytes: "varuint_bytes v = [?c]" by (subst varuint_bytes.simps) simp
    have "v < 2 ^ 7" using False by simp
    then have "v AND 0x7F = v" using less_mask_eq [of v 7] by (simp add: mask_eq_exp_minus_1)
    then show ?thesis using "1.prems" seven_bits [of v] by (simp add: bytes Let_def)
  qed
qed

subsection \<open>Signed values\<close>

text \<open>The bytes of a signed value, without the buffer; any integer has finitely many.\<close>

definition last_group :: "int \<Rightarrow> bool" where
  "last_group v \<longleftrightarrow> drop_bit 7 v = 0 \<and> (word_of_int (v AND 0x7F) :: u8) AND 0x40 = 0
     \<or> drop_bit 7 v = -1 \<and> (word_of_int (v AND 0x7F) :: u8) AND 0x40 \<noteq> 0"

lemma sign_bit_iff: "(word_of_int (v AND 0x7F) :: u8) AND 0x40 = 0 \<longleftrightarrow> \<not> bit v 6"
  by (simp add: u8_eq_bits bit_simps upt_rec bit_blast)

lemma last_group_iff: "last_group v \<longleftrightarrow> -64 \<le> v \<and> v < 64"
proof -
  define q where "q = v div 64"
  have "v div 2 ^ 7 = q div 2" unfolding q_def using zdiv_zmult2_eq [of 2 v 64] by simp
  then have "last_group v \<longleftrightarrow> q div 2 = 0 \<and> even q \<or> q div 2 = -1 \<and> odd q"
    unfolding last_group_def sign_bit_iff bit_iff_odd drop_bit_eq_div q_def by simp
  also have "\<dots> \<longleftrightarrow> q = 0 \<or> q = -1" by presburger
  also have "\<dots> \<longleftrightarrow> -64 \<le> v \<and> v < 64" unfolding q_def by linarith
  finally show ?thesis .
qed

lemma last_group_bits:
  assumes "last_group v" "6 \<le> n"
  shows "bit v n \<longleftrightarrow> v < 0"
proof -
  have "v div 2 ^ n = (if v < 0 then -1 else 0)"
  proof -
    have "(64 :: int) \<le> 2 ^ n" using power_increasing [of 6 n "2 :: int"] assms by simp
    then have "- (2 ^ n) \<le> v" "v < 2 ^ n" using assms by (auto simp: last_group_iff)
    then show ?thesis by (auto simp: div_pos_pos_trivial intro: int_div_pos_eq [where r = "v + 2 ^ n"])
  qed
  then show ?thesis by (simp add: bit_iff_odd)
qed

function varint_bytes :: "int \<Rightarrow> bytes" where
  "varint_bytes v =
     (if last_group v then [word_of_int (v AND 0x7F)]
      else (word_of_int (v AND 0x7F) OR 0x80) # varint_bytes (drop_bit 7 v))"
  by pat_completeness auto
termination
  by (relation "measure (\<lambda>v. nat \<bar>v\<bar>)") (auto simp: last_group_iff drop_bit_eq_div)

declare varint_bytes.simps [simp del]

lemma length_varint_bytes:
  "- (128 ^ k * 64) \<le> v \<Longrightarrow> v < 128 ^ k * 64 \<Longrightarrow> length (varint_bytes v) \<le> Suc k"
proof (induction k arbitrary: v)
  case 0
  then show ?case by (subst varint_bytes.simps) (simp add: last_group_iff)
next
  case (Suc k)
  have "- (128 ^ k * 64) \<le> drop_bit 7 v" "drop_bit 7 v < 128 ^ k * 64"
    using Suc.prems by (simp_all add: drop_bit_eq_div)
  with Suc.IH show ?case by (subst varint_bytes.simps) simp
qed

lemma length_varint_bytes_10:
  assumes "- (2 ^ 63) \<le> v" "v < 2 ^ 63"
  shows "length (varint_bytes v) \<le> 10"
  using length_varint_bytes [of 9 v] assms by simp

lemma encode_varint_loop_spec:
  assumes "length ps + length (varint_bytes v) \<le> n" "n \<le> length b"
  shows "encode_varint_loop v (write_block b 0 ps) n (length ps) =
    (FT_ERR_SUCCESS, write_block b 0 (ps @ varint_bytes v), length ps + length (varint_bytes v))"
  using assms
proof (induction v arbitrary: ps rule: varint_bytes.induct)
  case (1 v)
  let ?c = "word_of_int (v AND 0x7F) :: u8"
  show ?case
  proof (cases "last_group v")
    case False
    then have bytes: "varint_bytes v = (?c OR 0x80) # varint_bytes (drop_bit 7 v)"
      by (subst varint_bytes.simps) simp
    have "encode_varint_loop v (write_block b 0 ps) n (length ps)
        = encode_varint_loop (drop_bit 7 v) (write_block b 0 (ps @ [?c OR 0x80])) n
            (length (ps @ [?c OR 0x80]))"
      using False "1.prems" write_block_step [of 0 ps b "?c OR 0x80"]
      by (subst encode_varint_loop.simps) (auto simp: bytes Let_def last_group_def)
    also have "\<dots> = (FT_ERR_SUCCESS, write_block b 0 ((ps @ [?c OR 0x80]) @ varint_bytes (drop_bit 7 v)),
        length (ps @ [?c OR 0x80]) + length (varint_bytes (drop_bit 7 v)))"
      using "1.prems" by (intro "1.IH" [OF False]) (simp_all add: bytes)
    finally show ?thesis by (simp add: bytes)
  next
    case True
    then have bytes: "varint_bytes v = [?c]" by (subst varint_bytes.simps) simp
    show ?thesis
      using True "1.prems" write_block_step [of 0 ps b ?c]
      by (subst encode_varint_loop.simps) (auto simp: bytes Let_def last_group_def)
  qed
qed

lemma buffer_encode_varint64_spec:
  assumes "10 \<le> n" "n \<le> length b" "- (2 ^ 63) \<le> v" "v < 2 ^ 63"
  shows "buffer_encode_varint64 v (Some b) n (Some k) =
    (FT_ERR_SUCCESS, Some (write_block b 0 (varint_bytes v)), Some (length (varint_bytes v)))"
  using encode_varint_loop_spec [of "[]" v n b] length_varint_bytes_10 [of v] assms
  by (simp add: buffer_encode_varint64_def)

lemma seven_bits_int:
  defines "c \<equiv> \<lambda>v. word_of_int (v AND 0x7F) :: u8"
  shows "c v AND 0x7F = c v" "c v AND 0x80 = 0" "(c v OR 0x80) AND 0x7F = c v"
    "(c v OR 0x80) AND 0x80 = 0x80" "(ucast (c v) :: u64) = word_of_int (take_bit 7 v)"
proof -
  show "c v AND 0x7F = c v" "c v AND 0x80 = 0" "(c v OR 0x80) AND 0x7F = c v"
    "(c v OR 0x80) AND 0x80 = 0x80"
    unfolding c_def by (rule u8_eqI, simp add: bit_simps upt_rec bit_blast)+
  have "(0x7F :: int) = mask 7" by (simp add: mask_eq_exp_minus_1)
  then have "c v = word_of_int (take_bit 7 v)" unfolding c_def by (simp add: take_bit_eq_mask)
  then show "(ucast (c v) :: u64) = word_of_int (take_bit 7 v)"
    by (intro bit_word_eqI) (auto simp: bit_simps)
qed

lemma join_seven_int:
  "push_bit s (word_of_int (take_bit 7 v)) OR push_bit (s + 7) (word_of_int (drop_bit 7 v))
     = push_bit s (word_of_int v :: u64)"
proof (rule bit_word_eqI)
  fix n assume "n < LENGTH(64)"
  have "7 + (n - (s + 7)) = n - s" if "s + 7 \<le> n" using that by simp
  then show "bit (push_bit s (word_of_int (take_bit 7 v))
        OR push_bit (s + 7) (word_of_int (drop_bit 7 v)) :: u64) n
      = bit (push_bit s (word_of_int v :: u64)) n"
    by (cases "s + 7 \<le> n") (auto simp: bit_simps)
qed

lemma join_last:
  assumes "last_group v"
  shows "(if s + 7 < 64 \<and> v < 0
      then push_bit s (word_of_int (take_bit 7 v)) OR push_bit (s + 7) (NOT 0)
      else push_bit s (word_of_int (take_bit 7 v))) = push_bit s (word_of_int v :: u64)"
proof (rule bit_word_eqI)
  fix n assume "n < LENGTH(64)"
  moreover have "bit v (n - s) \<longleftrightarrow> v < 0" if "s + 7 \<le> n"
    using last_group_bits [OF assms, of "n - s"] that by simp
  ultimately show "bit (if s + 7 < 64 \<and> v < 0
      then push_bit s (word_of_int (take_bit 7 v)) OR push_bit (s + 7) (NOT 0)
      else push_bit s (word_of_int (take_bit 7 v)) :: u64) n = bit (push_bit s (word_of_int v :: u64)) n"
    by (cases "s + 7 \<le> n") (auto simp: bit_simps)
qed

lemma decode_varint_bytes:
  assumes "s < 64" "- (2 ^ (63 - s)) \<le> v" "v < 2 ^ (63 - s)"
  shows "decode_varint_loop (varint_bytes v @ rest) acc s i
    = Some (sint (acc OR push_bit s (word_of_int v)), i + length (varint_bytes v))"
  using assms
proof (induction v arbitrary: acc s i rule: varint_bytes.induct)
  case (1 v)
  let ?c = "word_of_int (v AND 0x7F) :: u8"
  show ?case
  proof (cases "last_group v")
    case False
    then have bytes: "varint_bytes v = (?c OR 0x80) # varint_bytes (drop_bit 7 v)"
      by (subst varint_bytes.simps) simp
    have s: "s + 7 < 64"
    proof (rule ccontr)
      assume "\<not> s + 7 < 64"
      then have "(2 :: int) ^ (63 - s) \<le> 2 ^ 6" by (intro power_increasing) auto
      then show False using "1.prems" False by (simp add: last_group_iff)
    qed
    have "63 - s = (63 - (s + 7)) + 7" using s by simp
    then have "(2 :: int) ^ (63 - s) = 2 ^ (63 - (s + 7)) * 128" by (simp only: power_add) simp
    then have up: "- (2 ^ (63 - (s + 7))) \<le> drop_bit 7 v" "drop_bit 7 v < 2 ^ (63 - (s + 7))"
      using "1.prems"(2,3) by (simp_all add: drop_bit_eq_div)
    show ?thesis
      using "1.IH" [OF False s up] "1.prems" join_seven_int [of s v]
      by (simp add: bytes seven_bits_int or.assoc Let_def)
  next
    case True
    then have bytes: "varint_bytes v = [?c]" by (subst varint_bytes.simps) simp
    have "?c AND 0x40 \<noteq> 0 \<longleftrightarrow> v < 0"
      using last_group_bits [OF True, of 6] by (simp add: sign_bit_iff)
    then show ?thesis
      using "1.prems" join_last [OF True, of s]
      by (auto simp: bytes Let_def seven_bits_int or.assoc split: if_splits)
  qed
qed

text \<open>Round trips: what is decoded, and that exactly the bytes written are consumed.\<close>

lemma varuint_roundtrip:
  "buffer_decode_varuint64 (Some (varuint_bytes v @ rest)) (length (varuint_bytes v @ rest))
     (Some a) (Some k) = (FT_ERR_SUCCESS, Some v, Some (length (varuint_bytes v)))"
proof -
  have "unat v < 2 ^ 64" using unsigned_less [of v, where ?'a = nat] by simp
  then show ?thesis
    using decode_varuint_bytes [of 0 v rest 0 0] by (simp add: buffer_decode_varuint64_def)
qed

lemma varint_roundtrip:
  assumes "- (2 ^ 63) \<le> v" "v < 2 ^ 63"
  shows "buffer_decode_varint64 (Some (varint_bytes v @ rest)) (length (varint_bytes v @ rest))
     (Some a) (Some k) = (FT_ERR_SUCCESS, Some v, Some (length (varint_bytes v)))"
proof -
  have "sint (word_of_int v :: u64) = v"
    using assms by (simp add: signed_of_int signed_take_bit_int_eq_self)
  then show ?thesis
    using decode_varint_bytes [of 0 v rest 0 0] assms by (simp add: buffer_decode_varint64_def)
qed

interpretation varuint: codec varuint_bytes
  "\<lambda>bs. map_option fst (decode_varuint_loop bs 0 0 0)" "\<lambda>_. True"
proof
  fix v :: u64
  have "unat v < 2 ^ 64" using unsigned_less [of v, where ?'a = nat] by simp
  then show "map_option fst (decode_varuint_loop (varuint_bytes v) 0 0 0) = Some v"
    using decode_varuint_bytes [of 0 v "[]" 0 0] by simp
qed

interpretation varint: codec varint_bytes
  "\<lambda>bs. map_option fst (decode_varint_loop bs 0 0 0)" "\<lambda>v. - (2 ^ 63) \<le> v \<and> v < 2 ^ 63"
proof
  fix v :: int assume v: "- (2 ^ 63) \<le> v \<and> v < 2 ^ 63"
  then have "sint (word_of_int v :: u64) = v"
    by (simp add: signed_of_int signed_take_bit_int_eq_self)
  with v show "map_option fst (decode_varint_loop (varint_bytes v) 0 0 0) = Some v"
    using decode_varint_bytes [of 0 v "[]" 0 0] by simp
qed

text \<open>No decoder reads more than ten bytes of its input.\<close>

lemma decode_varuint_consumed:
  "decode_varuint_loop bs acc s i = Some (v, j) \<Longrightarrow> i < j \<and> j \<le> i + length bs \<and> s + 7 * (j - i) < 71"
  by (induction bs arbitrary: acc s i) (fastforce simp: Let_def split: if_splits)+

end
