(* ===== verification/Byte_Buffer.thy ===== *)
theory Byte_Buffer
  imports Buffer_Varint
begin

text \<open>
  \<open>ft_byte_buffer\<close> of \<^verbatim>\<open>src/Modules/Buffer/buffer_byte_buffer.cpp\<close>: a growable byte array
  with a read position, a fixed-capacity mode and a lifecycle. The object is a record; the
  allocation \<open>_data\<close> is the list of its bytes, as long as the capacity. An operation
  returns the new object and the error code it stores in \<open>_last_error\<close> and returns;
  \<^term>\<open>None\<close> is a call that does not return, because the lifecycle check aborts the
  process. The allocator and the mutex are parameters, collected in \<open>buffer_env\<close>.
\<close>

subsection \<open>State\<close>

record byte_buffer =
  bb_data :: ptr
  bb_size :: nat
  bb_capacity :: nat
  bb_read_position :: nat
  bb_fixed_capacity :: bool
  bb_initialised_state :: class_state
  bb_mutex :: bool

text \<open>
  What an operation needs from the rest of the library: \<open>cma_malloc\<close>, \<open>cma_realloc\<close>, the
  result of locking the object's mutex, and the three results that creating and
  destroying a mutex can have.
\<close>

record buffer_env =
  env_malloc :: alloc
  env_realloc :: "ptr \<Rightarrow> nat \<Rightarrow> bytes option"
  env_lock :: ft_err
  env_mutex_new :: bool
  env_mutex_init :: ft_err
  env_mutex_destroy :: ft_err

definition buffer_add_overflows :: "nat \<Rightarrow> nat \<Rightarrow> bool" where
  "buffer_add_overflows left right \<longleftrightarrow> left > FT_SYSTEM_SIZE_MAX - right"

definition reset_fields :: "byte_buffer \<Rightarrow> byte_buffer" where
  "reset_fields b = b\<lparr>bb_data := None, bb_size := 0, bb_capacity := 0, bb_read_position := 0,
     bb_fixed_capacity := False, bb_mutex := False\<rparr>"

definition new_byte_buffer :: byte_buffer where
  "new_byte_buffer = \<lparr>bb_data = None, bb_size = 0, bb_capacity = 0, bb_read_position = 0,
     bb_fixed_capacity = False, bb_initialised_state = Uninitialised, bb_mutex = False\<rparr>"

definition lock_internal :: "buffer_env \<Rightarrow> byte_buffer \<Rightarrow> ft_err" where
  "lock_internal env b = (if bb_mutex b then env_lock env else FT_ERR_SUCCESS)"

text \<open>
  The frame of every operation that works on an initialised object: the lifecycle check,
  the lock, the body, the unlock.
\<close>

definition locked ::
  "buffer_env \<Rightarrow> byte_buffer \<Rightarrow> (byte_buffer \<times> ft_err) option \<Rightarrow> (byte_buffer \<times> ft_err) option" where
  "locked env b body =
     (if bb_initialised_state b \<noteq> Initialised then None
      else if lock_internal env b \<noteq> FT_ERR_SUCCESS then Some (b, lock_internal env b)
      else body)"

subsection \<open>Growing\<close>

text \<open>The doubling loop; \<^term>\<open>None\<close> is a loop that never ends, as it would from capacity 0.\<close>

partial_function (option) reserve_loop :: "nat \<Rightarrow> nat \<Rightarrow> nat option" where
  "reserve_loop new_capacity required_capacity =
     (if new_capacity < required_capacity
      then if new_capacity > FT_SYSTEM_SIZE_MAX div 2 then Some required_capacity
           else reserve_loop (new_capacity * 2) required_capacity
      else Some new_capacity)"

definition reserve_internal ::
  "buffer_env \<Rightarrow> byte_buffer \<Rightarrow> nat \<Rightarrow> (byte_buffer \<times> ft_err) option" where
  "reserve_internal env b required_capacity =
     (if required_capacity \<le> bb_capacity b then Some (b, FT_ERR_SUCCESS)
      else if bb_fixed_capacity b then Some (b, FT_ERR_FULL)
      else case reserve_loop (if bb_capacity b = 0 then 16 else bb_capacity b) required_capacity of
             None \<Rightarrow> None
           | Some new_capacity \<Rightarrow>
               (case env_realloc env (bb_data b) new_capacity of
                  None \<Rightarrow> Some (b, FT_ERR_NO_MEMORY)
                | Some new_data \<Rightarrow>
                    Some (b\<lparr>bb_data := Some new_data, bb_capacity := new_capacity\<rparr>,
                          FT_ERR_SUCCESS)))"

definition append_internal ::
  "buffer_env \<Rightarrow> byte_buffer \<Rightarrow> ptr \<Rightarrow> nat \<Rightarrow> (byte_buffer \<times> ft_err) option" where
  "append_internal env b data len =
     (if len = 0 then Some (b, FT_ERR_SUCCESS)
      else case data of
        None \<Rightarrow> Some (b, FT_ERR_INVALID_ARGUMENT)
      | Some xs \<Rightarrow>
          if buffer_add_overflows (bb_size b) len then Some (b, FT_ERR_OUT_OF_RANGE)
          else case reserve_internal env b (bb_size b + len) of
            None \<Rightarrow> None
          | Some (b', e) \<Rightarrow>
              if e \<noteq> FT_ERR_SUCCESS then Some (b', e)
              else Some (b'\<lparr>bb_data := map_option (\<lambda>d. write_block d (bb_size b') (take len xs))
                                        (bb_data b'),
                            bb_size := bb_size b' + len\<rparr>, FT_ERR_SUCCESS))"

text \<open>\<open>read_internal\<close> also returns the destination it filled.\<close>

definition read_internal :: "byte_buffer \<Rightarrow> ptr \<Rightarrow> nat \<Rightarrow> byte_buffer \<times> ft_err \<times> ptr" where
  "read_internal b data len =
     (if len = 0 then (b, FT_ERR_SUCCESS, data)
      else case data of
        None \<Rightarrow> (b, FT_ERR_INVALID_ARGUMENT, data)
      | Some dest \<Rightarrow>
          if bb_read_position b > bb_size b then (b, FT_ERR_INVALID_STATE, data)
          else if len > bb_size b - bb_read_position b then (b, FT_ERR_OUT_OF_RANGE, data)
          else (b\<lparr>bb_read_position := bb_read_position b + len\<rparr>, FT_ERR_SUCCESS,
                Some (write_block dest 0
                        (take len (drop (bb_read_position b) (the (bb_data b)))))))"

subsection \<open>Lifecycle\<close>

definition bb_initialize_capacity ::
  "buffer_env \<Rightarrow> byte_buffer \<Rightarrow> nat \<Rightarrow> bool \<Rightarrow> (byte_buffer \<times> ft_err) option" where
  "bb_initialize_capacity env b capacity fixed_capacity =
     (if bb_initialised_state b = Initialised then None
      else let b1 = (reset_fields b)\<lparr>bb_fixed_capacity := fixed_capacity\<rparr>
           in if capacity > 0
              then case env_malloc env capacity of
                     None \<Rightarrow> Some (b1\<lparr>bb_initialised_state := Destroyed\<rparr>, FT_ERR_NO_MEMORY)
                   | Some d \<Rightarrow>
                       Some (b1\<lparr>bb_data := Some d, bb_capacity := capacity,
                                bb_initialised_state := Initialised\<rparr>, FT_ERR_SUCCESS)
              else Some (b1\<lparr>bb_initialised_state := Initialised\<rparr>, FT_ERR_SUCCESS))"

definition bb_initialize :: "buffer_env \<Rightarrow> byte_buffer \<Rightarrow> (byte_buffer \<times> ft_err) option" where
  "bb_initialize env b = bb_initialize_capacity env b 0 False"

definition disable_thread_safety :: "buffer_env \<Rightarrow> byte_buffer \<Rightarrow> byte_buffer \<times> ft_err" where
  "disable_thread_safety env b =
     (if \<not> bb_mutex b then (b, FT_ERR_SUCCESS)
      else let b' = b\<lparr>bb_mutex := False\<rparr>
           in if env_mutex_destroy env \<noteq> FT_ERR_SUCCESS then (b', env_mutex_destroy env)
              else (b', FT_ERR_SUCCESS))"

definition enable_thread_safety :: "buffer_env \<Rightarrow> byte_buffer \<Rightarrow> (byte_buffer \<times> ft_err) option" where
  "enable_thread_safety env b =
     (if bb_initialised_state b \<noteq> Initialised then None
      else if bb_mutex b then Some (b, FT_ERR_SUCCESS)
      else if \<not> env_mutex_new env then Some (b, FT_ERR_NO_MEMORY)
      else if env_mutex_init env \<noteq> FT_ERR_SUCCESS then Some (b, env_mutex_init env)
      else Some (b\<lparr>bb_mutex := True\<rparr>, FT_ERR_SUCCESS))"

definition bb_destroy :: "buffer_env \<Rightarrow> byte_buffer \<Rightarrow> byte_buffer \<times> ft_err" where
  "bb_destroy env b =
     (if bb_initialised_state b \<noteq> Initialised
      then (b\<lparr>bb_initialised_state := Destroyed\<rparr>, FT_ERR_SUCCESS)
      else let (b1, destroy_error) = disable_thread_safety env b;
               b2 = (reset_fields b1)\<lparr>bb_initialised_state := Destroyed\<rparr>
           in if destroy_error \<noteq> FT_ERR_SUCCESS then (b2, destroy_error) else (b2, FT_ERR_SUCCESS))"

text \<open>The destructor.\<close>

definition bb_destructor :: "buffer_env \<Rightarrow> byte_buffer \<Rightarrow> byte_buffer" where
  "bb_destructor env b =
     (if bb_initialised_state b = Initialised then fst (bb_destroy env b)
      else (reset_fields b)\<lparr>bb_initialised_state := Uninitialised\<rparr>)"

text \<open>
  Copying from another object. \<open>lock_other\<close> is the result of locking the other object's
  mutex, \<open>same\<close> says whether the two are one object.
\<close>

definition bb_initialize_copy ::
  "buffer_env \<Rightarrow> ft_err \<Rightarrow> bool \<Rightarrow> byte_buffer \<Rightarrow> byte_buffer \<Rightarrow> (byte_buffer \<times> ft_err) option" where
  "bb_initialize_copy env lock_other same b other =
     (if bb_initialised_state other = Uninitialised then None
      else if same then Some (b, FT_ERR_SUCCESS)
      else let (b1, e1) = (if bb_initialised_state b = Initialised then bb_destroy env b
                           else (b, FT_ERR_SUCCESS))
           in if e1 \<noteq> FT_ERR_SUCCESS then Some (b1, e1)
              else if bb_initialised_state other = Destroyed
              then Some ((reset_fields b1)\<lparr>bb_initialised_state := Destroyed\<rparr>, FT_ERR_SUCCESS)
              else if bb_mutex other \<and> lock_other \<noteq> FT_ERR_SUCCESS then Some (b1, lock_other)
              else case bb_initialize_capacity env b1 (bb_capacity other) (bb_fixed_capacity other) of
                None \<Rightarrow> None
              | Some (b2, e2) \<Rightarrow>
                  (case (if e2 = FT_ERR_SUCCESS \<and> bb_size other > 0
                         then append_internal env b2 (bb_data other) (bb_size other)
                         else Some (b2, e2)) of
                     None \<Rightarrow> None
                   | Some (b3, e3) \<Rightarrow>
                       if e3 = FT_ERR_SUCCESS
                       then Some (b3\<lparr>bb_read_position := bb_read_position other\<rparr>, FT_ERR_SUCCESS)
                       else Some ((fst (bb_destroy env b3))\<lparr>bb_initialised_state := Destroyed\<rparr>,
                                  e3)))"

text \<open>Moving: the new destination, the emptied source and the error code.\<close>

definition bb_move ::
  "buffer_env \<Rightarrow> ft_err \<Rightarrow> bool \<Rightarrow> byte_buffer \<Rightarrow> byte_buffer
     \<Rightarrow> (byte_buffer \<times> byte_buffer \<times> ft_err) option" where
  "bb_move env lock_other same b other =
     (if bb_initialised_state other = Uninitialised then None
      else if same then Some (b, other, FT_ERR_SUCCESS)
      else let (b1, e1) = (if bb_initialised_state b = Initialised then bb_destroy env b
                           else (b, FT_ERR_SUCCESS))
           in if e1 \<noteq> FT_ERR_SUCCESS then Some (b1, other, e1)
              else if bb_initialised_state other = Destroyed
              then Some ((reset_fields b1)\<lparr>bb_initialised_state := Destroyed\<rparr>, other,
                         FT_ERR_SUCCESS)
              else if bb_mutex other \<and> lock_other \<noteq> FT_ERR_SUCCESS
              then Some (b1, other, lock_other)
              else Some (other\<lparr>bb_initialised_state := Initialised\<rparr>,
                         (reset_fields other)\<lparr>bb_initialised_state := Destroyed\<rparr>,
                         FT_ERR_SUCCESS))"

text \<open>\<open>initialize(ft_byte_buffer &&)\<close> is the move.\<close>

definition bb_initialize_move ::
  "buffer_env \<Rightarrow> ft_err \<Rightarrow> bool \<Rightarrow> byte_buffer \<Rightarrow> byte_buffer
     \<Rightarrow> (byte_buffer \<times> byte_buffer \<times> ft_err) option" where
  "bb_initialize_move env lock_other same b other = bb_move env lock_other same b other"

subsection \<open>Operations\<close>

definition bb_reserve :: "buffer_env \<Rightarrow> byte_buffer \<Rightarrow> nat \<Rightarrow> (byte_buffer \<times> ft_err) option" where
  "bb_reserve env b required_capacity = locked env b (reserve_internal env b required_capacity)"

definition bb_clear :: "buffer_env \<Rightarrow> byte_buffer \<Rightarrow> (byte_buffer \<times> ft_err) option" where
  "bb_clear env b =
     locked env b (Some (b\<lparr>bb_size := 0, bb_read_position := 0\<rparr>, FT_ERR_SUCCESS))"

definition bb_set_read_position ::
  "buffer_env \<Rightarrow> byte_buffer \<Rightarrow> nat \<Rightarrow> (byte_buffer \<times> ft_err) option" where
  "bb_set_read_position env b position =
     locked env b
       (if position > bb_size b then Some (b, FT_ERR_OUT_OF_RANGE)
        else Some (b\<lparr>bb_read_position := position\<rparr>, FT_ERR_SUCCESS))"

definition bb_reset_read_position :: "buffer_env \<Rightarrow> byte_buffer \<Rightarrow> (byte_buffer \<times> ft_err) option" where
  "bb_reset_read_position env b = bb_set_read_position env b 0"

definition bb_consume :: "buffer_env \<Rightarrow> byte_buffer \<Rightarrow> nat \<Rightarrow> (byte_buffer \<times> ft_err) option" where
  "bb_consume env b len =
     locked env b
       (if bb_read_position b > bb_size b then Some (b, FT_ERR_INVALID_STATE)
        else if len > bb_size b - bb_read_position b then Some (b, FT_ERR_OUT_OF_RANGE)
        else Some (b\<lparr>bb_read_position := bb_read_position b + len\<rparr>, FT_ERR_SUCCESS))"

definition bb_skip :: "buffer_env \<Rightarrow> byte_buffer \<Rightarrow> nat \<Rightarrow> (byte_buffer \<times> ft_err) option" where
  "bb_skip env b len =
     locked env b
       (if bb_read_position b > bb_size b then Some (b, FT_ERR_INVALID_STATE)
        else if len > bb_size b - bb_read_position b then Some (b, FT_ERR_OUT_OF_RANGE)
        else Some (b\<lparr>bb_read_position := bb_read_position b + len\<rparr>, FT_ERR_SUCCESS))"

definition bb_append ::
  "buffer_env \<Rightarrow> byte_buffer \<Rightarrow> ptr \<Rightarrow> nat \<Rightarrow> (byte_buffer \<times> ft_err) option" where
  "bb_append env b data len = locked env b (append_internal env b data len)"

text \<open>
  The two-object operations lock both objects, the one at the lower address first
  (\<open>this_first\<close>). \<open>lock_both\<close> is the first lock error, if any.
\<close>

definition lock_both :: "buffer_env \<Rightarrow> ft_err \<Rightarrow> bool \<Rightarrow> byte_buffer \<Rightarrow> byte_buffer \<Rightarrow> ft_err" where
  "lock_both env lock_other this_first b other =
     (let e_this = lock_internal env b;
          e_other = (if bb_mutex other then lock_other else FT_ERR_SUCCESS);
          e_first = (if this_first then e_this else e_other);
          e_second = (if this_first then e_other else e_this)
      in if e_first \<noteq> FT_ERR_SUCCESS then e_first else e_second)"

definition append_buffer_body ::
  "buffer_env \<Rightarrow> byte_buffer \<Rightarrow> byte_buffer \<Rightarrow> (byte_buffer \<times> ft_err) option" where
  "append_buffer_body env b other =
     (let destination_size = bb_size b; source_size = bb_size other
      in if buffer_add_overflows destination_size source_size then Some (b, FT_ERR_OUT_OF_RANGE)
         else case reserve_internal env b (destination_size + source_size) of
           None \<Rightarrow> None
         | Some (b', e) \<Rightarrow>
             if e = FT_ERR_SUCCESS \<and> source_size > 0
             then (case bb_data other of
                     None \<Rightarrow> Some (b', FT_ERR_INVALID_STATE)
                   | Some src \<Rightarrow>
                       Some (b'\<lparr>bb_data := map_option
                                   (\<lambda>d. write_block d destination_size (take source_size src))
                                   (bb_data b'),
                                bb_size := destination_size + source_size\<rparr>, FT_ERR_SUCCESS))
             else if e = FT_ERR_SUCCESS
             then Some (b'\<lparr>bb_size := destination_size\<rparr>, FT_ERR_SUCCESS)
             else Some (b', e))"

definition bb_append_buffer ::
  "buffer_env \<Rightarrow> ft_err \<Rightarrow> bool \<Rightarrow> byte_buffer \<Rightarrow> byte_buffer \<Rightarrow> (byte_buffer \<times> ft_err) option" where
  "bb_append_buffer env lock_other this_first b other =
     (if bb_initialised_state b \<noteq> Initialised \<or> bb_initialised_state other = Uninitialised then None
      else if lock_both env lock_other this_first b other \<noteq> FT_ERR_SUCCESS
      then Some (b, lock_both env lock_other this_first b other)
      else append_buffer_body env b other)"

text \<open>Appending an object to itself goes through a snapshot.\<close>

definition bb_append_self ::
  "buffer_env \<Rightarrow> bool \<Rightarrow> byte_buffer \<Rightarrow> (byte_buffer \<times> ft_err) option" where
  "bb_append_self env this_first b =
     (if bb_initialised_state b \<noteq> Initialised then None
      else case bb_initialize_copy env (env_lock env) False new_byte_buffer b of
        None \<Rightarrow> None
      | Some (snapshot, e) \<Rightarrow>
          if e \<noteq> FT_ERR_SUCCESS then Some (b, e)
          else bb_append_buffer env FT_ERR_SUCCESS this_first b snapshot)"

definition prepend_buffer_body ::
  "buffer_env \<Rightarrow> byte_buffer \<Rightarrow> byte_buffer \<Rightarrow> (byte_buffer \<times> ft_err) option" where
  "prepend_buffer_body env b other =
     (let destination_size = bb_size b; source_size = bb_size other
      in if buffer_add_overflows destination_size source_size then Some (b, FT_ERR_OUT_OF_RANGE)
         else case reserve_internal env b (destination_size + source_size) of
           None \<Rightarrow> None
         | Some (b', e) \<Rightarrow>
             if e = FT_ERR_SUCCESS \<and> source_size > 0
             then (case bb_data other of
                     None \<Rightarrow> Some (b', FT_ERR_INVALID_STATE)
                   | Some src \<Rightarrow>
                       Some (b'\<lparr>bb_data := map_option
                                   (\<lambda>d. write_block
                                          (if destination_size > 0
                                           then snd (ft_memmove d (Some source_size) (Some 0)
                                                       destination_size)
                                           else d)
                                          0 (take source_size src))
                                   (bb_data b'),
                                bb_size := destination_size + source_size,
                                bb_read_position := bb_read_position b' + source_size\<rparr>,
                             FT_ERR_SUCCESS))
             else Some (b', e))"

definition bb_prepend_buffer ::
  "buffer_env \<Rightarrow> ft_err \<Rightarrow> bool \<Rightarrow> byte_buffer \<Rightarrow> byte_buffer \<Rightarrow> (byte_buffer \<times> ft_err) option" where
  "bb_prepend_buffer env lock_other this_first b other =
     (if bb_initialised_state b \<noteq> Initialised \<or> bb_initialised_state other = Uninitialised then None
      else if lock_both env lock_other this_first b other \<noteq> FT_ERR_SUCCESS
      then Some (b, lock_both env lock_other this_first b other)
      else prepend_buffer_body env b other)"

definition bb_prepend_self ::
  "buffer_env \<Rightarrow> bool \<Rightarrow> byte_buffer \<Rightarrow> (byte_buffer \<times> ft_err) option" where
  "bb_prepend_self env this_first b =
     (if bb_initialised_state b \<noteq> Initialised then None
      else case bb_initialize_copy env (env_lock env) False new_byte_buffer b of
        None \<Rightarrow> None
      | Some (snapshot, e) \<Rightarrow>
          if e \<noteq> FT_ERR_SUCCESS then Some (b, e)
          else bb_prepend_buffer env FT_ERR_SUCCESS this_first b snapshot)"

definition bb_shrink_to_fit :: "buffer_env \<Rightarrow> byte_buffer \<Rightarrow> (byte_buffer \<times> ft_err) option" where
  "bb_shrink_to_fit env b =
     locked env b
       (if bb_capacity b > bb_size b
        then if bb_size b = 0
             then Some (b\<lparr>bb_data := None, bb_capacity := 0\<rparr>, FT_ERR_SUCCESS)
             else case env_realloc env (bb_data b) (bb_size b) of
                    None \<Rightarrow> Some (b, FT_ERR_NO_MEMORY)
                  | Some new_data \<Rightarrow>
                      Some (b\<lparr>bb_data := Some new_data, bb_capacity := bb_size b\<rparr>, FT_ERR_SUCCESS)
        else Some (b, FT_ERR_SUCCESS))"

text \<open>
  Operations that also fill a destination or a value cell return it after the error code.
\<close>

definition bb_read ::
  "buffer_env \<Rightarrow> byte_buffer \<Rightarrow> ptr \<Rightarrow> nat \<Rightarrow> (byte_buffer \<times> ft_err \<times> ptr) option" where
  "bb_read env b data len =
     (if bb_initialised_state b \<noteq> Initialised then None
      else if lock_internal env b \<noteq> FT_ERR_SUCCESS then Some (b, lock_internal env b, data)
      else Some (read_internal b data len))"

definition bb_peek ::
  "buffer_env \<Rightarrow> byte_buffer \<Rightarrow> nat \<Rightarrow> ptr \<Rightarrow> nat \<Rightarrow> (ft_err \<times> ptr) option" where
  "bb_peek env b offset data len =
     (if bb_initialised_state b \<noteq> Initialised then None
      else case data of
        None \<Rightarrow> Some (FT_ERR_INVALID_ARGUMENT, data)
      | Some dest \<Rightarrow>
          if lock_internal env b \<noteq> FT_ERR_SUCCESS then Some (lock_internal env b, data)
          else if bb_read_position b > bb_size b then Some (FT_ERR_INVALID_STATE, data)
          else if offset > bb_size b - bb_read_position b then Some (FT_ERR_OUT_OF_RANGE, data)
          else if len > bb_size b - bb_read_position b - offset
          then Some (FT_ERR_OUT_OF_RANGE, data)
          else if len > 0
          then Some (FT_ERR_SUCCESS,
                     Some (write_block dest 0
                             (take len (drop (bb_read_position b + offset) (the (bb_data b))))))
          else Some (FT_ERR_SUCCESS, data))"

text \<open>\<open>view\<close> returns a pointer into the block, as an offset.\<close>

definition bb_view ::
  "buffer_env \<Rightarrow> byte_buffer \<Rightarrow> nat \<Rightarrow> nat \<Rightarrow> bool \<Rightarrow> (ft_err \<times> nat option) option" where
  "bb_view env b offset len view_out_null =
     (if bb_initialised_state b \<noteq> Initialised then None
      else if view_out_null then Some (FT_ERR_INVALID_ARGUMENT, None)
      else if lock_internal env b \<noteq> FT_ERR_SUCCESS then Some (lock_internal env b, None)
      else if offset > bb_size b then Some (FT_ERR_OUT_OF_RANGE, None)
      else if len > bb_size b - offset then Some (FT_ERR_OUT_OF_RANGE, None)
      else Some (FT_ERR_SUCCESS, Some offset))"

text \<open>
  Searching: the size value \<open>-1\<close> is \<^term>\<open>None\<close>. The two arrays that \<open>ft_memcmp\<close> compares
  lie side by side in one memory.
\<close>

function find_loop :: "bytes \<Rightarrow> bytes \<Rightarrow> nat \<Rightarrow> nat option" where
  "find_loop haystack needle index =
     (if index \<le> length haystack - length needle
      then if ft_memcmp (haystack @ needle) (Some index) (Some (length haystack)) (length needle) = 0
           then Some index
           else find_loop haystack needle (index + 1)
      else None)"
  by pat_completeness auto
termination
  by (relation "measure (\<lambda>(h, n, i). Suc (length h - length n) - i)") auto

declare find_loop.simps [simp del]

definition buffer_find_bytes :: "ptr \<Rightarrow> nat \<Rightarrow> ptr \<Rightarrow> nat \<Rightarrow> nat option" where
  "buffer_find_bytes haystack haystack_size needle needle_size =
     (if needle_size = 0 then Some 0
      else if haystack = None \<or> needle = None then None
      else if needle_size > haystack_size then None
      else find_loop (span_bytes haystack haystack_size) (span_bytes needle needle_size) 0)"

definition bb_find ::
  "buffer_env \<Rightarrow> byte_buffer \<Rightarrow> ptr \<Rightarrow> nat \<Rightarrow> (nat option \<times> ft_err) option" where
  "bb_find env b data len =
     (if bb_initialised_state b \<noteq> Initialised then None
      else if len > 0 \<and> data = None then Some (None, FT_ERR_INVALID_ARGUMENT)
      else if lock_internal env b \<noteq> FT_ERR_SUCCESS then Some (None, lock_internal env b)
      else if bb_read_position b > bb_size b then Some (None, FT_ERR_INVALID_STATE)
      else if len = 0 then Some (Some (bb_read_position b), FT_ERR_SUCCESS)
      else case buffer_find_bytes (map_option (drop (bb_read_position b)) (bb_data b))
                  (bb_size b - bb_read_position b) data len of
             None \<Rightarrow> Some (None, FT_ERR_NOT_FOUND)
           | Some found_index \<Rightarrow> Some (Some (bb_read_position b + found_index), FT_ERR_SUCCESS))"

text \<open>\<open>slice\<close> fills another object with a part of this one, through a temporary.\<close>

definition bb_slice ::
  "buffer_env \<Rightarrow> bool \<Rightarrow> byte_buffer \<Rightarrow> nat \<Rightarrow> nat \<Rightarrow> byte_buffer \<Rightarrow> (byte_buffer \<times> ft_err) option" where
  "bb_slice env same b offset len output =
     (if bb_initialised_state b \<noteq> Initialised then None
      else if same then Some (output, FT_ERR_INVALID_ARGUMENT)
      else if lock_internal env b \<noteq> FT_ERR_SUCCESS then Some (output, lock_internal env b)
      else if offset > bb_size b then Some (output, FT_ERR_OUT_OF_RANGE)
      else if len > bb_size b - offset then Some (output, FT_ERR_OUT_OF_RANGE)
      else case bb_initialize_capacity env new_byte_buffer len True of
        None \<Rightarrow> None
      | Some (t1, e1) \<Rightarrow>
          (case (if e1 = FT_ERR_SUCCESS \<and> len > 0
                 then bb_append env t1 (map_option (drop offset) (bb_data b)) len
                 else Some (t1, e1)) of
             None \<Rightarrow> None
           | Some (t2, e2) \<Rightarrow>
               if e2 = FT_ERR_SUCCESS
               then bb_initialize_copy env FT_ERR_SUCCESS False output t2
               else Some (output, e2)))"

subsection \<open>Accessors\<close>

definition initialised_only :: "byte_buffer \<Rightarrow> 'a \<Rightarrow> 'a option" where
  "initialised_only b v = (if bb_initialised_state b \<noteq> Initialised then None else Some v)"

definition bb_data_of :: "byte_buffer \<Rightarrow> ptr option" where
  "bb_data_of b = initialised_only b (bb_data b)"

definition bb_size_of :: "byte_buffer \<Rightarrow> nat option" where
  "bb_size_of b = initialised_only b (bb_size b)"

definition bb_capacity_of :: "byte_buffer \<Rightarrow> nat option" where
  "bb_capacity_of b = initialised_only b (bb_capacity b)"

definition bb_read_position_of :: "byte_buffer \<Rightarrow> nat option" where
  "bb_read_position_of b = initialised_only b (bb_read_position b)"

definition bb_remaining :: "byte_buffer \<Rightarrow> nat option" where
  "bb_remaining b =
     initialised_only b
       (if bb_read_position b > bb_size b then 0 else bb_size b - bb_read_position b)"

definition bb_is_fixed_capacity :: "byte_buffer \<Rightarrow> bool option" where
  "bb_is_fixed_capacity b = initialised_only b (bb_fixed_capacity b)"

definition bb_is_initialised :: "byte_buffer \<Rightarrow> bool" where
  "bb_is_initialised b = (if bb_initialised_state b = Initialised then True else False)"

definition bb_is_thread_safe :: "byte_buffer \<Rightarrow> bool option" where
  "bb_is_thread_safe b = initialised_only b (if bb_mutex b then True else False)"

definition bb_get_error :: "byte_buffer \<Rightarrow> ft_err \<Rightarrow> ft_err option" where
  "bb_get_error b last_error =
     (if bb_initialised_state b = Uninitialised then None else Some last_error)"

definition bb_get_error_str ::
  "(ft_err \<Rightarrow> string option) \<Rightarrow> byte_buffer \<Rightarrow> ft_err \<Rightarrow> string option" where
  "bb_get_error_str cmp_system_strerror b last_error =
     (if bb_initialised_state b = Uninitialised then None
      else Some (ft_strerror cmp_system_strerror last_error))"

subsection \<open>Fixed-width values\<close>

definition u16_be_bytes :: "u16 \<Rightarrow> bytes" where
  "u16_be_bytes v = [ucast (drop_bit 8 v AND 0xFF), ucast (v AND 0xFF)]"

definition u16_le_bytes :: "u16 \<Rightarrow> bytes" where
  "u16_le_bytes v = [ucast (v AND 0xFF), ucast (drop_bit 8 v AND 0xFF)]"

definition u32_be_bytes :: "u32 \<Rightarrow> bytes" where
  "u32_be_bytes v = [ucast (drop_bit 24 v AND 0xFF), ucast (drop_bit 16 v AND 0xFF),
     ucast (drop_bit 8 v AND 0xFF), ucast (v AND 0xFF)]"

definition u32_le_bytes :: "u32 \<Rightarrow> bytes" where
  "u32_le_bytes v = [ucast (v AND 0xFF), ucast (drop_bit 8 v AND 0xFF),
     ucast (drop_bit 16 v AND 0xFF), ucast (drop_bit 24 v AND 0xFF)]"

definition u64_be_bytes :: "u64 \<Rightarrow> bytes" where
  "u64_be_bytes v = [ucast (drop_bit 56 v AND 0xFF), ucast (drop_bit 48 v AND 0xFF),
     ucast (drop_bit 40 v AND 0xFF), ucast (drop_bit 32 v AND 0xFF),
     ucast (drop_bit 24 v AND 0xFF), ucast (drop_bit 16 v AND 0xFF),
     ucast (drop_bit 8 v AND 0xFF), ucast (v AND 0xFF)]"

definition u64_le_bytes :: "u64 \<Rightarrow> bytes" where
  "u64_le_bytes v = [ucast (v AND 0xFF), ucast (drop_bit 8 v AND 0xFF),
     ucast (drop_bit 16 v AND 0xFF), ucast (drop_bit 24 v AND 0xFF),
     ucast (drop_bit 32 v AND 0xFF), ucast (drop_bit 40 v AND 0xFF),
     ucast (drop_bit 48 v AND 0xFF), ucast (drop_bit 56 v AND 0xFF)]"

definition u16_be_value :: "bytes \<Rightarrow> u16" where
  "u16_be_value x = push_bit 8 (ucast (x ! 0)) OR ucast (x ! 1)"

definition u16_le_value :: "bytes \<Rightarrow> u16" where
  "u16_le_value x = ucast (x ! 0) OR push_bit 8 (ucast (x ! 1))"

definition u32_be_value :: "bytes \<Rightarrow> u32" where
  "u32_be_value x = push_bit 24 (ucast (x ! 0)) OR push_bit 16 (ucast (x ! 1))
     OR push_bit 8 (ucast (x ! 2)) OR ucast (x ! 3)"

definition u32_le_value :: "bytes \<Rightarrow> u32" where
  "u32_le_value x = ucast (x ! 0) OR push_bit 8 (ucast (x ! 1))
     OR push_bit 16 (ucast (x ! 2)) OR push_bit 24 (ucast (x ! 3))"

definition u64_be_value :: "bytes \<Rightarrow> u64" where
  "u64_be_value x = push_bit 56 (ucast (x ! 0)) OR push_bit 48 (ucast (x ! 1))
     OR push_bit 40 (ucast (x ! 2)) OR push_bit 32 (ucast (x ! 3))
     OR push_bit 24 (ucast (x ! 4)) OR push_bit 16 (ucast (x ! 5))
     OR push_bit 8 (ucast (x ! 6)) OR ucast (x ! 7)"

definition u64_le_value :: "bytes \<Rightarrow> u64" where
  "u64_le_value x = ucast (x ! 0) OR push_bit 8 (ucast (x ! 1))
     OR push_bit 16 (ucast (x ! 2)) OR push_bit 24 (ucast (x ! 3))
     OR push_bit 32 (ucast (x ! 4)) OR push_bit 40 (ucast (x ! 5))
     OR push_bit 48 (ucast (x ! 6)) OR push_bit 56 (ucast (x ! 7))"

text \<open>
  Reading a value reads into a local array and combines it; the value cell is
  \<^term>\<open>None\<close> for a null pointer and keeps its content on an error.
\<close>

definition read_value ::
  "buffer_env \<Rightarrow> byte_buffer \<Rightarrow> nat \<Rightarrow> (bytes \<Rightarrow> 'v) \<Rightarrow> 'v option
     \<Rightarrow> (byte_buffer \<times> ft_err \<times> 'v option) option" where
  "read_value env b width combine value_out =
     (if value_out = None then Some (b, FT_ERR_INVALID_ARGUMENT, None)
      else case bb_read env b (Some (replicate width 0)) width of
        None \<Rightarrow> None
      | Some (b', e, out) \<Rightarrow>
          if e \<noteq> FT_ERR_SUCCESS then Some (b', e, value_out)
          else Some (b', FT_ERR_SUCCESS, Some (combine (the out))))"

definition bb_append_u8 :: "buffer_env \<Rightarrow> byte_buffer \<Rightarrow> u8 \<Rightarrow> (byte_buffer \<times> ft_err) option" where
  "bb_append_u8 env b v = bb_append env b (Some [v]) 1"

definition bb_append_u16_be :: "buffer_env \<Rightarrow> byte_buffer \<Rightarrow> u16 \<Rightarrow> (byte_buffer \<times> ft_err) option" where
  "bb_append_u16_be env b v = bb_append env b (Some (u16_be_bytes v)) 2"

definition bb_append_u16_le :: "buffer_env \<Rightarrow> byte_buffer \<Rightarrow> u16 \<Rightarrow> (byte_buffer \<times> ft_err) option" where
  "bb_append_u16_le env b v = bb_append env b (Some (u16_le_bytes v)) 2"

definition bb_append_u32_be :: "buffer_env \<Rightarrow> byte_buffer \<Rightarrow> u32 \<Rightarrow> (byte_buffer \<times> ft_err) option" where
  "bb_append_u32_be env b v = bb_append env b (Some (u32_be_bytes v)) 4"

definition bb_append_u32_le :: "buffer_env \<Rightarrow> byte_buffer \<Rightarrow> u32 \<Rightarrow> (byte_buffer \<times> ft_err) option" where
  "bb_append_u32_le env b v = bb_append env b (Some (u32_le_bytes v)) 4"

definition bb_append_u64_be :: "buffer_env \<Rightarrow> byte_buffer \<Rightarrow> u64 \<Rightarrow> (byte_buffer \<times> ft_err) option" where
  "bb_append_u64_be env b v = bb_append env b (Some (u64_be_bytes v)) 8"

definition bb_append_u64_le :: "buffer_env \<Rightarrow> byte_buffer \<Rightarrow> u64 \<Rightarrow> (byte_buffer \<times> ft_err) option" where
  "bb_append_u64_le env b v = bb_append env b (Some (u64_le_bytes v)) 8"

definition bb_read_u8 ::
  "buffer_env \<Rightarrow> byte_buffer \<Rightarrow> u8 option \<Rightarrow> (byte_buffer \<times> ft_err \<times> u8 option) option" where
  "bb_read_u8 env b value_out =
     (case value_out of
        None \<Rightarrow> Some (b, FT_ERR_INVALID_ARGUMENT, None)
      | Some old \<Rightarrow>
          (case bb_read env b (Some [old]) 1 of
             None \<Rightarrow> None
           | Some (b', e, out) \<Rightarrow> Some (b', e, Some (the out ! 0))))"

definition bb_read_u16_be ::
  "buffer_env \<Rightarrow> byte_buffer \<Rightarrow> u16 option \<Rightarrow> (byte_buffer \<times> ft_err \<times> u16 option) option" where
  "bb_read_u16_be env b value_out = read_value env b 2 u16_be_value value_out"

definition bb_read_u16_le ::
  "buffer_env \<Rightarrow> byte_buffer \<Rightarrow> u16 option \<Rightarrow> (byte_buffer \<times> ft_err \<times> u16 option) option" where
  "bb_read_u16_le env b value_out = read_value env b 2 u16_le_value value_out"

definition bb_read_u32_be ::
  "buffer_env \<Rightarrow> byte_buffer \<Rightarrow> u32 option \<Rightarrow> (byte_buffer \<times> ft_err \<times> u32 option) option" where
  "bb_read_u32_be env b value_out = read_value env b 4 u32_be_value value_out"

definition bb_read_u32_le ::
  "buffer_env \<Rightarrow> byte_buffer \<Rightarrow> u32 option \<Rightarrow> (byte_buffer \<times> ft_err \<times> u32 option) option" where
  "bb_read_u32_le env b value_out = read_value env b 4 u32_le_value value_out"

definition bb_read_u64_be ::
  "buffer_env \<Rightarrow> byte_buffer \<Rightarrow> u64 option \<Rightarrow> (byte_buffer \<times> ft_err \<times> u64 option) option" where
  "bb_read_u64_be env b value_out = read_value env b 8 u64_be_value value_out"

definition bb_read_u64_le ::
  "buffer_env \<Rightarrow> byte_buffer \<Rightarrow> u64 option \<Rightarrow> (byte_buffer \<times> ft_err \<times> u64 option) option" where
  "bb_read_u64_le env b value_out = read_value env b 8 u64_le_value value_out"

subsection \<open>Variable-length values\<close>

definition bb_append_varuint64 ::
  "buffer_env \<Rightarrow> byte_buffer \<Rightarrow> u64 \<Rightarrow> (byte_buffer \<times> ft_err) option" where
  "bb_append_varuint64 env b v =
     (case buffer_encode_varuint64 v (Some (replicate 10 0)) 10 (Some 0) of
        (error_code, buf, encoded_size) \<Rightarrow>
          if error_code \<noteq> FT_ERR_SUCCESS then Some (b, error_code)
          else bb_append env b buf (the encoded_size))"

definition bb_append_varint64 ::
  "buffer_env \<Rightarrow> byte_buffer \<Rightarrow> int \<Rightarrow> (byte_buffer \<times> ft_err) option" where
  "bb_append_varint64 env b v =
     (case buffer_encode_varint64 v (Some (replicate 10 0)) 10 (Some 0) of
        (error_code, buf, encoded_size) \<Rightarrow>
          if error_code \<noteq> FT_ERR_SUCCESS then Some (b, error_code)
          else bb_append env b buf (the encoded_size))"

definition bb_read_varuint64 ::
  "buffer_env \<Rightarrow> byte_buffer \<Rightarrow> u64 option \<Rightarrow> (byte_buffer \<times> ft_err \<times> u64 option) option" where
  "bb_read_varuint64 env b value_out =
     (if bb_initialised_state b \<noteq> Initialised then None
      else if value_out = None then Some (b, FT_ERR_INVALID_ARGUMENT, None)
      else if lock_internal env b \<noteq> FT_ERR_SUCCESS then Some (b, lock_internal env b, value_out)
      else if bb_read_position b > bb_size b then Some (b, FT_ERR_INVALID_STATE, value_out)
      else case buffer_decode_varuint64 (map_option (drop (bb_read_position b)) (bb_data b))
                  (bb_size b - bb_read_position b) value_out (Some 0) of
             (e, v, consumed) \<Rightarrow>
               if e = FT_ERR_SUCCESS
               then Some (b\<lparr>bb_read_position := bb_read_position b + the consumed\<rparr>, e, v)
               else Some (b, e, v))"

definition bb_read_varint64 ::
  "buffer_env \<Rightarrow> byte_buffer \<Rightarrow> int option \<Rightarrow> (byte_buffer \<times> ft_err \<times> int option) option" where
  "bb_read_varint64 env b value_out =
     (if bb_initialised_state b \<noteq> Initialised then None
      else if value_out = None then Some (b, FT_ERR_INVALID_ARGUMENT, None)
      else if lock_internal env b \<noteq> FT_ERR_SUCCESS then Some (b, lock_internal env b, value_out)
      else if bb_read_position b > bb_size b then Some (b, FT_ERR_INVALID_STATE, value_out)
      else case buffer_decode_varint64 (map_option (drop (bb_read_position b)) (bb_data b))
                  (bb_size b - bb_read_position b) value_out (Some 0) of
             (e, v, consumed) \<Rightarrow>
               if e = FT_ERR_SUCCESS
               then Some (b\<lparr>bb_read_position := bb_read_position b + the consumed\<rparr>, e, v)
               else Some (b, e, v))"

end
