(* ===== verification/Byte_Buffer_Spec.thy ===== *)
theory Byte_Buffer_Spec
  imports Byte_Buffer
begin

text \<open>
  What \<open>ft_byte_buffer\<close> promises. The abstract object is a byte string with a read
  position (\<open>contents\<close>, \<open>bb_read_position\<close>); the invariant \<open>wf_bb\<close> relates the fields to
  the allocation. Every operation keeps the invariant, and the operations refine append,
  prepend, read and search on the abstract string. The typed accessors are covered once,
  by the locale \<open>fixed_width\<close>, interpreted for each width and byte order.
\<close>

subsection \<open>Contract of the environment\<close>

definition wf_env :: "buffer_env \<Rightarrow> bool" where
  "wf_env env \<longleftrightarrow> wf_alloc (env_malloc env) \<and> wf_realloc (env_realloc env)"

lemma wf_reallocD:
  assumes "wf_env env" "env_realloc env p n = Some b"
  shows "length b = n" "p = Some xs \<Longrightarrow> k \<le> n \<Longrightarrow> k \<le> length xs \<Longrightarrow> take k b = take k xs"
  using assms by (auto simp: wf_env_def wf_realloc_def)

subsection \<open>Invariant and abstraction\<close>

definition block_size :: "ptr \<Rightarrow> nat" where
  "block_size p = (case p of None \<Rightarrow> 0 | Some d \<Rightarrow> length d)"

lemma block_size_simps [simp]: "block_size None = 0" "block_size (Some d) = length d"
  by (simp_all add: block_size_def)

definition wf_bb :: "byte_buffer \<Rightarrow> bool" where
  "wf_bb b \<longleftrightarrow>
     block_size (bb_data b) = bb_capacity b
     \<and> bb_size b \<le> bb_capacity b \<and> bb_read_position b \<le> bb_size b
     \<and> bb_capacity b \<le> FT_SYSTEM_SIZE_MAX"

definition contents :: "byte_buffer \<Rightarrow> bytes" where
  "contents b = span_bytes (bb_data b) (bb_size b)"

lemma length_contents [simp]: "wf_bb b \<Longrightarrow> length (contents b) = bb_size b"
  by (cases "bb_data b") (auto simp: wf_bb_def contents_def)

lemma wf_new [simp]: "wf_bb new_byte_buffer"
  by (simp add: wf_bb_def new_byte_buffer_def)

lemma wf_reset [simp]: "wf_bb (reset_fields b)"
  by (simp add: wf_bb_def reset_fields_def)

lemma wf_bb_state [simp]: "wf_bb (b\<lparr>bb_initialised_state := s\<rparr>) = wf_bb b"
  by (simp add: wf_bb_def)

lemma wf_bb_mutex [simp]: "wf_bb (b\<lparr>bb_mutex := m\<rparr>) = wf_bb b"
  by (simp add: wf_bb_def)

lemma wf_bb_fixed [simp]: "wf_bb (b\<lparr>bb_fixed_capacity := m\<rparr>) = wf_bb b"
  by (simp add: wf_bb_def)

lemma contents_update [simp]:
  "contents (b\<lparr>bb_initialised_state := s\<rparr>) = contents b" "contents (b\<lparr>bb_mutex := m\<rparr>) = contents b"
  "contents (b\<lparr>bb_read_position := p\<rparr>) = contents b" "contents (b\<lparr>bb_fixed_capacity := f\<rparr>) = contents b"
  by (simp_all add: contents_def)

lemma contents_replace [simp]: "contents (b\<lparr>bb_data := p, bb_size := n\<rparr>) = span_bytes p n"
  by (simp add: contents_def)

lemma contents_new [simp]: "contents new_byte_buffer = []"
  by (simp add: contents_def new_byte_buffer_def)

lemma contents_reset [simp]: "contents (reset_fields b) = []"
  by (simp add: contents_def reset_fields_def)

lemma wf_read_position: "wf_bb b \<Longrightarrow> p \<le> bb_size b \<Longrightarrow> wf_bb (b\<lparr>bb_read_position := p\<rparr>)"
  by (simp add: wf_bb_def)

subsection \<open>Growing terminates and suffices\<close>

lemma reserve_loop_spec:
  assumes "0 < c" "r \<le> FT_SYSTEM_SIZE_MAX" "c \<le> FT_SYSTEM_SIZE_MAX"
  shows "\<exists>n. reserve_loop c r = Some n \<and> r \<le> n \<and> c \<le> n \<and> n \<le> FT_SYSTEM_SIZE_MAX"
  using assms
proof (induction "r - c" arbitrary: c rule: less_induct)
  case less
  show ?case
  proof (cases "c < r \<and> c \<le> FT_SYSTEM_SIZE_MAX div 2")
    case True
    then have "reserve_loop c r = reserve_loop (c * 2) r"
      by (subst reserve_loop.simps) simp
    moreover have "r - c * 2 < r - c" "c * 2 \<le> FT_SYSTEM_SIZE_MAX" using True less.prems by auto
    ultimately show ?thesis using less.hyps [of "c * 2"] less.prems by auto
  next
    case False
    then show ?thesis using less.prems by (subst reserve_loop.simps) auto
  qed
qed

text \<open>Only the size fields and the block change when the buffer grows.\<close>

lemma reserve_internal_spec:
  assumes env: "wf_env env" and b: "wf_bb b" and r: "r \<le> FT_SYSTEM_SIZE_MAX"
  obtains b' e where "reserve_internal env b r = Some (b', e)" "wf_bb b'"
    "contents b' = contents b" "bb_size b' = bb_size b" "bb_read_position b' = bb_read_position b"
    "bb_initialised_state b' = bb_initialised_state b" "bb_mutex b' = bb_mutex b"
    "bb_fixed_capacity b' = bb_fixed_capacity b" "bb_capacity b \<le> bb_capacity b'"
    "e = FT_ERR_SUCCESS \<longrightarrow> r \<le> bb_capacity b'" "e \<noteq> FT_ERR_SUCCESS \<longrightarrow> b' = b"
    "bb_fixed_capacity b \<longrightarrow> b' = b"
    "r \<le> bb_capacity b \<longrightarrow> b' = b \<and> e = FT_ERR_SUCCESS"
proof (cases "r \<le> bb_capacity b \<or> bb_fixed_capacity b")
  case True
  then show ?thesis
    using that [of b "if r \<le> bb_capacity b then FT_ERR_SUCCESS else FT_ERR_FULL"] b
    by (auto simp: reserve_internal_def)
next
  case False
  let ?c = "if bb_capacity b = 0 then 16 else bb_capacity b"
  have "0 < ?c" "?c \<le> FT_SYSTEM_SIZE_MAX"
    using b by (auto simp: wf_bb_def FT_SYSTEM_SIZE_MAX_def)
  then obtain n where n: "reserve_loop ?c r = Some n" "r \<le> n" "?c \<le> n" "n \<le> FT_SYSTEM_SIZE_MAX"
    using reserve_loop_spec r by blast
  show ?thesis
  proof (cases "env_realloc env (bb_data b) n")
    case None
    then show ?thesis
      using that [of b FT_ERR_NO_MEMORY] False n b by (simp add: reserve_internal_def)
  next
    case (Some d)
    let ?b = "b\<lparr>bb_data := Some d, bb_capacity := n\<rparr>"
    note len = wf_reallocD [OF env Some]
    have le: "bb_capacity b \<le> n" using n by (simp split: if_splits)
    have "take (bb_size b) d = contents b"
    proof (cases "bb_data b")
      case None
      then show ?thesis using b by (simp add: wf_bb_def contents_def)
    next
      case (Some xs)
      then show ?thesis using b le len(2) [OF Some, of "bb_size b"] by (simp add: wf_bb_def contents_def)
    qed
    moreover have "wf_bb ?b" using b n le len(1) by (auto simp: wf_bb_def)
    ultimately show ?thesis
      using that [of ?b FT_ERR_SUCCESS] False n le Some
      by (simp add: reserve_internal_def contents_def)
  qed
qed

subsection \<open>Append\<close>

lemma wf_block:
  assumes "wf_bb b" "0 < n" "n \<le> bb_capacity b"
  obtains d where "bb_data b = Some d" "length d = bb_capacity b" "take (bb_size b) d = contents b"
  using assms by (cases "bb_data b") (auto simp: wf_bb_def contents_def)

text \<open>Writing behind the contents extends them; \<open>append\<close> and \<open>append_buffer\<close> share this.\<close>

lemma write_behind:
  assumes "wf_bb b" "0 < length ys" "bb_size b + length ys \<le> bb_capacity b"
  shows "wf_bb (b\<lparr>bb_data := map_option (\<lambda>d. write_block d (bb_size b) ys) (bb_data b),
            bb_size := bb_size b + length ys\<rparr>)"
    and "contents (b\<lparr>bb_data := map_option (\<lambda>d. write_block d (bb_size b) ys) (bb_data b),
            bb_size := bb_size b + length ys\<rparr>) = contents b @ ys"
proof -
  obtain d where d: "bb_data b = Some d" "length d = bb_capacity b" "take (bb_size b) d = contents b"
    using wf_block [of b "bb_size b + length ys"] assms by auto
  show "wf_bb (b\<lparr>bb_data := map_option (\<lambda>d. write_block d (bb_size b) ys) (bb_data b),
            bb_size := bb_size b + length ys\<rparr>)"
    using assms d by (simp add: wf_bb_def)
  show "contents (b\<lparr>bb_data := map_option (\<lambda>d. write_block d (bb_size b) ys) (bb_data b),
            bb_size := bb_size b + length ys\<rparr>) = contents b @ ys"
    using assms d by (simp add: contents_def take_write_block_append)
qed

lemma append_internal_spec:
  assumes env: "wf_env env" and b: "wf_bb b"
    and len: "len \<le> length xs" "len \<le> FT_SYSTEM_SIZE_MAX"
  obtains b' e where "append_internal env b (Some xs) len = Some (b', e)" "wf_bb b'"
    "bb_read_position b' = bb_read_position b"
    "bb_initialised_state b' = bb_initialised_state b" "bb_mutex b' = bb_mutex b"
    "bb_fixed_capacity b' = bb_fixed_capacity b" "bb_capacity b \<le> bb_capacity b'"
    "e = FT_ERR_SUCCESS \<longrightarrow> contents b' = contents b @ take len xs"
    "e \<noteq> FT_ERR_SUCCESS \<longrightarrow> b' = b"
    "bb_fixed_capacity b \<longrightarrow> bb_capacity b' = bb_capacity b"
    "bb_size b + len \<le> bb_capacity b \<longrightarrow> e = FT_ERR_SUCCESS"
proof -
  consider (empty) "len = 0" | (overflow) "0 < len" "FT_SYSTEM_SIZE_MAX < bb_size b + len"
    | (fits) "0 < len" "bb_size b + len \<le> FT_SYSTEM_SIZE_MAX"
    by linarith
  then show ?thesis
  proof cases
    case empty
    then show ?thesis using that [of b FT_ERR_SUCCESS] b by (simp add: append_internal_def)
  next
    case overflow
    then have "buffer_add_overflows (bb_size b) len" using len by (simp add: buffer_add_overflows_def)
    moreover have "\<not> bb_size b + len \<le> bb_capacity b" using overflow b by (simp add: wf_bb_def)
    ultimately show ?thesis
      using that [of b FT_ERR_OUT_OF_RANGE] overflow b by (simp add: append_internal_def)
  next
    case fits
    then have ok: "\<not> buffer_add_overflows (bb_size b) len" by (simp add: buffer_add_overflows_def)
    obtain b' e where r: "reserve_internal env b (bb_size b + len) = Some (b', e)" "wf_bb b'"
      "contents b' = contents b" "bb_size b' = bb_size b" "bb_read_position b' = bb_read_position b"
      "bb_initialised_state b' = bb_initialised_state b" "bb_mutex b' = bb_mutex b"
      "bb_fixed_capacity b' = bb_fixed_capacity b" "bb_capacity b \<le> bb_capacity b'"
      "e = FT_ERR_SUCCESS \<longrightarrow> bb_size b + len \<le> bb_capacity b'" "e \<noteq> FT_ERR_SUCCESS \<longrightarrow> b' = b"
      "bb_fixed_capacity b \<longrightarrow> b' = b"
      "bb_size b + len \<le> bb_capacity b \<longrightarrow> b' = b \<and> e = FT_ERR_SUCCESS"
      using reserve_internal_spec [OF env b fits(2)] by blast
    show ?thesis
    proof (cases "e = FT_ERR_SUCCESS")
      case False
      then show ?thesis
        using that [of b' e] r ok fits by (simp add: append_internal_def)
    next
      case True
      let ?b = "b'\<lparr>bb_data := map_option (\<lambda>d. write_block d (bb_size b') (take len xs)) (bb_data b'),
                   bb_size := bb_size b' + len\<rparr>"
      have "length (take len xs) = len" using len by simp
      then have "wf_bb ?b" "contents ?b = contents b @ take len xs"
        using write_behind [of b' "take len xs"] r True fits by simp_all
      moreover have "append_internal env b (Some xs) len = Some (?b, FT_ERR_SUCCESS)"
        using r ok fits True by (simp add: append_internal_def)
      ultimately show ?thesis using that [of ?b FT_ERR_SUCCESS] r by simp
    qed
  qed
qed

definition usable :: "buffer_env \<Rightarrow> byte_buffer \<Rightarrow> bool" where
  "usable env b \<longleftrightarrow> wf_bb b \<and> bb_initialised_state b = Initialised
     \<and> lock_internal env b = FT_ERR_SUCCESS"

text \<open>The frame: a public operation aborts, reports the lock error or runs its body.\<close>

lemma locked_usable: "usable env b \<Longrightarrow> locked env b body = body"
  by (simp add: locked_def usable_def)

lemma locked_cases:
  "locked env b body = Some r \<Longrightarrow> (r = (b, lock_internal env b) \<or> body = Some r)"
  by (auto simp: locked_def split: if_splits)

lemma usable_update:
  "usable env b \<Longrightarrow> wf_bb b' \<Longrightarrow> bb_initialised_state b' = bb_initialised_state b
     \<Longrightarrow> bb_mutex b' = bb_mutex b \<Longrightarrow> usable env b'"
  by (simp add: usable_def lock_internal_def)

lemma bb_append_spec:
  assumes "wf_env env" "usable env b" "len \<le> length xs" "len \<le> FT_SYSTEM_SIZE_MAX"
  obtains b' e where "bb_append env b (Some xs) len = Some (b', e)" "usable env b'"
    "bb_read_position b' = bb_read_position b"
    "e = FT_ERR_SUCCESS \<longrightarrow> contents b' = contents b @ take len xs"
    "e \<noteq> FT_ERR_SUCCESS \<longrightarrow> b' = b"
    "bb_fixed_capacity b \<longrightarrow> bb_capacity b' = bb_capacity b"
    "bb_size b + len \<le> bb_capacity b \<longrightarrow> e = FT_ERR_SUCCESS"
proof -
  have wf: "wf_bb b" using assms by (simp add: usable_def)
  obtain b' e where r: "append_internal env b (Some xs) len = Some (b', e)" "wf_bb b'"
    "bb_read_position b' = bb_read_position b"
    "bb_initialised_state b' = bb_initialised_state b" "bb_mutex b' = bb_mutex b"
    "e = FT_ERR_SUCCESS \<longrightarrow> contents b' = contents b @ take len xs"
    "e \<noteq> FT_ERR_SUCCESS \<longrightarrow> b' = b"
    "bb_fixed_capacity b \<longrightarrow> bb_capacity b' = bb_capacity b"
    "bb_size b + len \<le> bb_capacity b \<longrightarrow> e = FT_ERR_SUCCESS"
    using append_internal_spec [OF assms(1) wf assms(3,4)] by blast
  then show ?thesis
    using that [of b' e] locked_usable [OF assms(2)] usable_update [OF assms(2)]
    by (simp add: bb_append_def)
qed

subsection \<open>Read\<close>

lemma contents_slice:
  assumes "wf_bb b" "p + n \<le> bb_size b" "0 < n"
  shows "take n (drop p (the (bb_data b))) = take n (drop p (contents b))"
proof -
  obtain d where d: "bb_data b = Some d" "length d = bb_capacity b"
    using wf_block [of b "p + n"] assms by (auto simp: wf_bb_def)
  then have "take n (drop p (contents b)) = take n (drop p (take (bb_size b) d))"
    by (simp add: contents_def)
  also have "\<dots> = take n (drop p d)" using assms by (simp add: drop_take min_def)
  finally show ?thesis by (simp add: d)
qed

lemma bb_read_spec:
  assumes "usable env b" "length dest = n" "0 < n"
  shows "bb_read env b (Some dest) n =
    (if bb_read_position b + n \<le> bb_size b
     then Some (b\<lparr>bb_read_position := bb_read_position b + n\<rparr>, FT_ERR_SUCCESS,
                Some (take n (drop (bb_read_position b) (contents b))))
     else Some (b, FT_ERR_OUT_OF_RANGE, Some dest))"
proof (cases "bb_read_position b + n \<le> bb_size b")
  case True
  have wf: "wf_bb b" using assms by (simp add: usable_def)
  have "length (take n (drop (bb_read_position b) (contents b))) = n"
    using wf True by simp
  then show ?thesis
    using assms True contents_slice [OF wf True assms(3)]
    by (simp add: bb_read_def read_internal_def usable_def write_block_def)
next
  case False
  then show ?thesis
    using assms by (auto simp: bb_read_def read_internal_def usable_def wf_bb_def)
qed

subsection \<open>Prepend, append of objects, shrink\<close>

lemma append_buffer_body_spec:
  assumes env: "wf_env env" and b: "wf_bb b" and o: "wf_bb src"
  obtains b' e where "append_buffer_body env b src = Some (b', e)" "wf_bb b'"
    "bb_read_position b' = bb_read_position b" "bb_initialised_state b' = bb_initialised_state b"
    "bb_mutex b' = bb_mutex b" "e = FT_ERR_SUCCESS \<longrightarrow> contents b' = contents b @ contents src"
    "e \<noteq> FT_ERR_SUCCESS \<longrightarrow> contents b' = contents b"
proof (cases "buffer_add_overflows (bb_size b) (bb_size src)")
  case True
  then show ?thesis
    using that [of b FT_ERR_OUT_OF_RANGE] b by (simp add: append_buffer_body_def Let_def)
next
  case False
  have "bb_size src \<le> FT_SYSTEM_SIZE_MAX" using o by (simp add: wf_bb_def)
  then have le: "bb_size b + bb_size src \<le> FT_SYSTEM_SIZE_MAX"
    using False by (simp add: buffer_add_overflows_def)
  obtain b' e where r: "reserve_internal env b (bb_size b + bb_size src) = Some (b', e)" "wf_bb b'"
    "contents b' = contents b" "bb_size b' = bb_size b" "bb_read_position b' = bb_read_position b"
    "bb_initialised_state b' = bb_initialised_state b" "bb_mutex b' = bb_mutex b"
    "e = FT_ERR_SUCCESS \<longrightarrow> bb_size b + bb_size src \<le> bb_capacity b'"
    using reserve_internal_spec [OF env b le] by metis
  consider "e \<noteq> FT_ERR_SUCCESS" | "e = FT_ERR_SUCCESS" "bb_size src = 0"
    | d where "e = FT_ERR_SUCCESS" "0 < bb_size src" "bb_data src = Some d"
    using wf_block [OF o, of "bb_size src"] o by (auto simp: wf_bb_def)
  then show ?thesis
  proof cases
    case 1
    then show ?thesis
      using that [of b' e] r False by (simp add: append_buffer_body_def Let_def)
  next
    case 2
    have "b'\<lparr>bb_size := bb_size b\<rparr> = b'" using r by simp
    moreover have "contents src = []" using 2 o by (simp flip: length_0_conv)
    ultimately show ?thesis
      using that [of b' FT_ERR_SUCCESS] r 2 False by (simp add: append_buffer_body_def Let_def)
  next
    case 3
    have src: "take (bb_size src) d = contents src" using 3 by (simp add: contents_def)
    have len: "length (contents src) = bb_size src" using o by simp
    let ?b = "b'\<lparr>bb_data := map_option (\<lambda>d. write_block d (bb_size b) (contents src)) (bb_data b'),
                 bb_size := bb_size b + bb_size src\<rparr>"
    have "wf_bb ?b" "contents ?b = contents b @ contents src"
      using write_behind [of b' "contents src"] r 3 by (simp_all add: len)
    moreover have "append_buffer_body env b src = Some (?b, FT_ERR_SUCCESS)"
      using r 3 False by (simp add: append_buffer_body_def Let_def src)
    ultimately show ?thesis using that [of ?b FT_ERR_SUCCESS] r by simp
  qed
qed

text \<open>The move of \<open>prepend_buffer\<close> overlaps; \<open>ft_memmove_spec\<close> covers it.\<close>

lemma write_before:
  assumes "wf_bb b" "0 < length ys" "bb_size b + length ys \<le> bb_capacity b"
  defines "shift \<equiv> \<lambda>d. if bb_size b > 0
      then snd (ft_memmove d (Some (length ys)) (Some 0) (bb_size b)) else d"
  defines "b2 \<equiv> b\<lparr>bb_data := map_option (\<lambda>d. write_block (shift d) 0 ys) (bb_data b),
     bb_size := bb_size b + length ys, bb_read_position := bb_read_position b + length ys\<rparr>"
  shows "wf_bb b2" "contents b2 = ys @ contents b"
proof -
  obtain d where d: "bb_data b = Some d" "length d = bb_capacity b" "take (bb_size b) d = contents b"
    using wf_block [of b "bb_size b + length ys"] assms by auto
  have "shift d = write_block d (length ys) (contents b)"
    using assms d ft_memmove_spec [of "length ys" "bb_size b" d 0]
    by (auto simp: shift_def add.commute)
  then have "write_block (shift d) 0 ys = ys @ contents b @ drop (length ys + bb_size b) d"
    using assms(1,3) d by (simp add: write_block_def)
  moreover have "length (contents b) = bb_size b" using assms(1) by simp
  ultimately show "wf_bb b2" "contents b2 = ys @ contents b"
    using assms(1,3) d by (simp_all add: b2_def wf_bb_def)
qed

lemma prepend_buffer_body_spec:
  assumes env: "wf_env env" and b: "wf_bb b" and o: "wf_bb src"
  obtains b' e where "prepend_buffer_body env b src = Some (b', e)" "wf_bb b'"
    "bb_initialised_state b' = bb_initialised_state b" "bb_mutex b' = bb_mutex b"
    "e = FT_ERR_SUCCESS \<longrightarrow> contents b' = contents src @ contents b
       \<and> bb_read_position b' = bb_size src + bb_read_position b"
    "e \<noteq> FT_ERR_SUCCESS \<longrightarrow> contents b' = contents b \<and> bb_read_position b' = bb_read_position b"
proof (cases "buffer_add_overflows (bb_size b) (bb_size src)")
  case True
  then show ?thesis
    using that [of b FT_ERR_OUT_OF_RANGE] b by (simp add: prepend_buffer_body_def Let_def)
next
  case False
  have "bb_size src \<le> FT_SYSTEM_SIZE_MAX" using o by (simp add: wf_bb_def)
  then have le: "bb_size b + bb_size src \<le> FT_SYSTEM_SIZE_MAX"
    using False by (simp add: buffer_add_overflows_def)
  obtain b' e where r: "reserve_internal env b (bb_size b + bb_size src) = Some (b', e)" "wf_bb b'"
    "contents b' = contents b" "bb_size b' = bb_size b" "bb_read_position b' = bb_read_position b"
    "bb_initialised_state b' = bb_initialised_state b" "bb_mutex b' = bb_mutex b"
    "e = FT_ERR_SUCCESS \<longrightarrow> bb_size b + bb_size src \<le> bb_capacity b'"
    using reserve_internal_spec [OF env b le] by metis
  consider "e \<noteq> FT_ERR_SUCCESS \<or> bb_size src = 0"
    | d where "e = FT_ERR_SUCCESS" "0 < bb_size src" "bb_data src = Some d"
    using wf_block [OF o, of "bb_size src"] o by (auto simp: wf_bb_def)
  then show ?thesis
  proof cases
    case 1
    have "contents src = []" if "bb_size src = 0" using that o by (simp flip: length_0_conv)
    with 1 show ?thesis
      using that [of b' e] r False by (auto simp: prepend_buffer_body_def Let_def)
  next
    case 2
    have src: "take (bb_size src) d = contents src" using 2 by (simp add: contents_def)
    have len: "length (contents src) = bb_size src" using o by simp
    let ?b = "b'\<lparr>bb_data := map_option (\<lambda>d. write_block (if bb_size b' > 0
          then snd (ft_memmove d (Some (bb_size src)) (Some 0) (bb_size b')) else d)
          0 (contents src)) (bb_data b'),
        bb_size := bb_size b' + bb_size src,
        bb_read_position := bb_read_position b' + bb_size src\<rparr>"
    have fit: "bb_size b' + bb_size src \<le> bb_capacity b'" using r 2 by simp
    have w: "wf_bb ?b" "contents ?b = contents src @ contents b'"
      by (fact write_before [of b' "contents src", unfolded len, OF r(2) 2(2) fit])+
    have "prepend_buffer_body env b src = Some (?b, FT_ERR_SUCCESS)"
      using r 2 False by (simp add: prepend_buffer_body_def Let_def src cong: if_cong)
    then show ?thesis using that [of ?b FT_ERR_SUCCESS] w r by simp
  qed
qed

text \<open>
  The public operations on two objects, and the self case, which appends or prepends a
  snapshot of the object: the contents double.
\<close>

lemma lock_both_usable:
  "usable env b \<Longrightarrow> bb_mutex src \<longrightarrow> lo = FT_ERR_SUCCESS
     \<Longrightarrow> lock_both env lo first b src = FT_ERR_SUCCESS"
  by (auto simp: lock_both_def usable_def Let_def)

lemma bb_append_buffer_spec:
  assumes "wf_env env" "usable env b" "wf_bb src" "bb_initialised_state src \<noteq> Uninitialised"
    and "bb_mutex src \<longrightarrow> lo = FT_ERR_SUCCESS"
  obtains b' e where "bb_append_buffer env lo first b src = Some (b', e)" "usable env b'"
    "bb_read_position b' = bb_read_position b"
    "contents b' = (if e = FT_ERR_SUCCESS then contents b @ contents src else contents b)"
proof -
  have wf: "wf_bb b" using assms by (simp add: usable_def)
  obtain b' e where r: "append_buffer_body env b src = Some (b', e)" "wf_bb b'"
    "bb_read_position b' = bb_read_position b" "bb_initialised_state b' = bb_initialised_state b"
    "bb_mutex b' = bb_mutex b" "e = FT_ERR_SUCCESS \<longrightarrow> contents b' = contents b @ contents src"
    "e \<noteq> FT_ERR_SUCCESS \<longrightarrow> contents b' = contents b"
    using append_buffer_body_spec [OF assms(1) wf assms(3)] by blast
  have "bb_append_buffer env lo first b src = Some (b', e)"
    using assms r lock_both_usable [OF assms(2,5), of first]
    by (simp add: bb_append_buffer_def usable_def)
  then show ?thesis using that [of b' e] r usable_update [OF assms(2) r(2,4,5)] by simp
qed

lemma bb_prepend_buffer_spec:
  assumes "wf_env env" "usable env b" "wf_bb src" "bb_initialised_state src \<noteq> Uninitialised"
    and "bb_mutex src \<longrightarrow> lo = FT_ERR_SUCCESS"
  obtains b' e where "bb_prepend_buffer env lo first b src = Some (b', e)" "usable env b'"
    "contents b' = (if e = FT_ERR_SUCCESS then contents src @ contents b else contents b)"
    "drop (bb_read_position b') (contents b') = drop (bb_read_position b) (contents b)"
proof -
  have wf: "wf_bb b" using assms by (simp add: usable_def)
  obtain b' e where r: "prepend_buffer_body env b src = Some (b', e)" "wf_bb b'"
    "bb_initialised_state b' = bb_initialised_state b" "bb_mutex b' = bb_mutex b"
    "e = FT_ERR_SUCCESS \<longrightarrow> contents b' = contents src @ contents b
       \<and> bb_read_position b' = bb_size src + bb_read_position b"
    "e \<noteq> FT_ERR_SUCCESS \<longrightarrow> contents b' = contents b \<and> bb_read_position b' = bb_read_position b"
    using prepend_buffer_body_spec [OF assms(1) wf assms(3)] by blast
  have "bb_prepend_buffer env lo first b src = Some (b', e)"
    using assms r lock_both_usable [OF assms(2,5), of first]
    by (simp add: bb_prepend_buffer_def usable_def)
  then show ?thesis
    using that [of b' e] r usable_update [OF assms(2) r(2,3,4)] assms(3)
    by (cases "e = FT_ERR_SUCCESS") simp_all
qed

lemma bb_shrink_spec:
  assumes "wf_env env" "usable env b"
  obtains b' e where "bb_shrink_to_fit env b = Some (b', e)" "usable env b'"
    "contents b' = contents b" "bb_read_position b' = bb_read_position b"
    "e = FT_ERR_SUCCESS \<longrightarrow> bb_capacity b' = bb_size b"
proof -
  have wf: "wf_bb b" using assms by (simp add: usable_def)
  have run: "bb_shrink_to_fit env b = (if bb_capacity b > bb_size b
        then if bb_size b = 0
             then Some (b\<lparr>bb_data := None, bb_capacity := 0\<rparr>, FT_ERR_SUCCESS)
             else case env_realloc env (bb_data b) (bb_size b) of
                    None \<Rightarrow> Some (b, FT_ERR_NO_MEMORY)
                  | Some new_data \<Rightarrow>
                      Some (b\<lparr>bb_data := Some new_data, bb_capacity := bb_size b\<rparr>, FT_ERR_SUCCESS)
        else Some (b, FT_ERR_SUCCESS))"
    unfolding bb_shrink_to_fit_def using assms(2) by (rule locked_usable)
  consider (tight) "bb_capacity b = bb_size b" | (empty) "bb_size b < bb_capacity b" "bb_size b = 0"
    | (none) "bb_size b < bb_capacity b" "bb_size b \<noteq> 0"
        "env_realloc env (bb_data b) (bb_size b) = None"
    | (some) d where "bb_size b < bb_capacity b" "bb_size b \<noteq> 0"
        "env_realloc env (bb_data b) (bb_size b) = Some d"
    using wf unfolding wf_bb_def by (metis le_neq_implies_less not_None_eq)
  then show ?thesis
  proof cases
    case tight
    then show ?thesis using that [of b FT_ERR_SUCCESS] run assms(2) by simp
  next
    case empty
    let ?b = "b\<lparr>bb_data := None, bb_capacity := 0\<rparr>"
    have "wf_bb ?b" using wf empty by (simp add: wf_bb_def)
    moreover have "contents ?b = contents b"
      using empty wf by (simp add: contents_def span_bytes_def split: option.splits)
    ultimately show ?thesis
      using that [of ?b FT_ERR_SUCCESS] run empty usable_update [OF assms(2), of ?b] by simp
  next
    case none
    then show ?thesis using that [of b FT_ERR_NO_MEMORY] run assms(2) by simp
  next
    case some
    let ?b = "b\<lparr>bb_data := Some d, bb_capacity := bb_size b\<rparr>"
    obtain old where old: "bb_data b = Some old" "length old = bb_capacity b"
      using wf_block [OF wf, of "bb_capacity b"] some by auto
    note d = wf_reallocD [OF assms(1) some(3)]
    have "wf_bb ?b" using wf some d(1) by (simp add: wf_bb_def)
    moreover have "contents ?b = contents b"
      using d(2) [OF old(1), of "bb_size b"] old some by (simp add: contents_def)
    ultimately show ?thesis
      using that [of ?b FT_ERR_SUCCESS] run some usable_update [OF assms(2), of ?b] by simp
  qed
qed

subsection \<open>Copy, move, self-append, slice\<close>

lemma bb_initialize_capacity_spec:
  assumes "wf_env env" "bb_initialised_state b \<noteq> Initialised" "cap \<le> FT_SYSTEM_SIZE_MAX"
  obtains b' e where "bb_initialize_capacity env b cap fixed = Some (b', e)" "wf_bb b'"
    "contents b' = []" "bb_size b' = 0" "bb_read_position b' = 0" "bb_fixed_capacity b' = fixed"
    "\<not> bb_mutex b'"
    "e = FT_ERR_SUCCESS \<longrightarrow> bb_initialised_state b' = Initialised \<and> bb_capacity b' = cap"
    "e \<noteq> FT_ERR_SUCCESS \<longrightarrow> bb_initialised_state b' = Destroyed \<and> e = FT_ERR_NO_MEMORY
       \<and> bb_data b' = None"
    "cap = 0 \<or> env_malloc env cap \<noteq> None \<longrightarrow> e = FT_ERR_SUCCESS"
proof -
  let ?r = "(reset_fields b)\<lparr>bb_fixed_capacity := fixed\<rparr>"
  have r: "wf_bb ?r" "contents ?r = []" "bb_size ?r = 0" "bb_read_position ?r = 0" "\<not> bb_mutex ?r"
    "bb_capacity ?r = 0" "bb_data ?r = None"
    by (simp_all add: reset_fields_def wf_bb_def contents_def)
  consider (zero) "cap = 0" | (none) "0 < cap" "env_malloc env cap = None"
    | (some) d where "0 < cap" "env_malloc env cap = Some d"
    by (cases "env_malloc env cap") auto
  then show ?thesis
  proof cases
    case zero
    then have "bb_initialize_capacity env b cap fixed
        = Some (?r\<lparr>bb_initialised_state := Initialised\<rparr>, FT_ERR_SUCCESS)"
      using assms(2) by (simp add: bb_initialize_capacity_def Let_def)
    then show ?thesis
      using that [of "?r\<lparr>bb_initialised_state := Initialised\<rparr>" FT_ERR_SUCCESS] r zero by simp
  next
    case none
    then have "bb_initialize_capacity env b cap fixed
        = Some (?r\<lparr>bb_initialised_state := Destroyed\<rparr>, FT_ERR_NO_MEMORY)"
      using assms(2) by (simp add: bb_initialize_capacity_def Let_def)
    then show ?thesis
      using that [of "?r\<lparr>bb_initialised_state := Destroyed\<rparr>" FT_ERR_NO_MEMORY] r none by simp
  next
    case some
    let ?b = "?r\<lparr>bb_data := Some d, bb_capacity := cap, bb_initialised_state := Initialised\<rparr>"
    have len: "length d = cap" using assms(1) some by (auto simp: wf_env_def dest: wf_allocD)
    have "bb_initialize_capacity env b cap fixed = Some (?b, FT_ERR_SUCCESS)"
      using some assms(2) by (simp add: bb_initialize_capacity_def Let_def)
    moreover have "wf_bb ?b" using len assms(3) by (simp add: wf_bb_def reset_fields_def)
    moreover have "contents ?b = []" by (simp add: contents_def reset_fields_def)
    ultimately show ?thesis using that [of ?b FT_ERR_SUCCESS] r by simp
  qed
qed

lemma bb_destroy_wf [simp]: "wf_bb b \<Longrightarrow> wf_bb (fst (bb_destroy env b))"
  by (simp add: bb_destroy_def Let_def split: prod.split)

lemma bb_destroy_state [simp]: "bb_initialised_state (fst (bb_destroy env b)) = Destroyed"
  by (simp add: bb_destroy_def Let_def split: prod.split)

lemma bb_destroy_contents: "bb_initialised_state b = Initialised \<Longrightarrow> contents (fst (bb_destroy env b)) = []"
  by (simp add: bb_destroy_def Let_def split: prod.split)

text \<open>A copy has the contents, the position, the capacity and the mode of its source.\<close>

lemma bb_copy_spec:
  assumes env: "wf_env env" and src: "wf_bb src" "bb_initialised_state src = Initialised"
    and lo: "bb_mutex src \<longrightarrow> lo = FT_ERR_SUCCESS" and b: "bb_initialised_state b \<noteq> Initialised"
  obtains b' e where "bb_initialize_copy env lo False b src = Some (b', e)" "wf_bb b'"
    "\<not> bb_mutex b'"
    "e = FT_ERR_SUCCESS \<longrightarrow> bb_initialised_state b' = Initialised \<and> contents b' = contents src
       \<and> bb_read_position b' = bb_read_position src \<and> bb_capacity b' = bb_capacity src
       \<and> bb_fixed_capacity b' = bb_fixed_capacity src"
    "e \<noteq> FT_ERR_SUCCESS \<longrightarrow> bb_initialised_state b' = Destroyed \<and> contents b' = []
       \<and> bb_data b' = None"
    "bb_capacity src = 0 \<or> env_malloc env (bb_capacity src) \<noteq> None \<longrightarrow> e = FT_ERR_SUCCESS"
proof -
  have cap: "bb_capacity src \<le> FT_SYSTEM_SIZE_MAX" using src by (simp add: wf_bb_def)
  obtain b1 e1 where i: "bb_initialize_capacity env b (bb_capacity src) (bb_fixed_capacity src)
      = Some (b1, e1)" "wf_bb b1" "contents b1 = []" "bb_size b1 = 0" "bb_read_position b1 = 0"
    "bb_fixed_capacity b1 = bb_fixed_capacity src" "\<not> bb_mutex b1"
    "e1 = FT_ERR_SUCCESS \<longrightarrow> bb_initialised_state b1 = Initialised \<and> bb_capacity b1 = bb_capacity src"
    "e1 \<noteq> FT_ERR_SUCCESS \<longrightarrow> bb_initialised_state b1 = Destroyed \<and> e1 = FT_ERR_NO_MEMORY
       \<and> bb_data b1 = None"
    "bb_capacity src = 0 \<or> env_malloc env (bb_capacity src) \<noteq> None \<longrightarrow> e1 = FT_ERR_SUCCESS"
    using bb_initialize_capacity_spec [OF env b cap] by blast
  consider (fail) "e1 \<noteq> FT_ERR_SUCCESS" | (empty) "e1 = FT_ERR_SUCCESS" "bb_size src = 0"
    | (full) "e1 = FT_ERR_SUCCESS" "0 < bb_size src" by blast
  then show ?thesis
  proof cases
    case fail
    let ?b = "(fst (bb_destroy env b1))\<lparr>bb_initialised_state := Destroyed\<rparr>"
    have "bb_initialize_copy env lo False b src = Some (?b, e1)"
      using i fail b src lo by (auto simp: bb_initialize_copy_def)
    moreover have "\<not> bb_mutex ?b" "contents ?b = []" "bb_data ?b = None"
      using i fail by (simp_all add: bb_destroy_def)
    ultimately show ?thesis using that [of ?b e1] i fail by simp
  next
    case empty
    let ?b = "b1\<lparr>bb_read_position := bb_read_position src\<rparr>"
    have "bb_read_position src = 0" using src empty by (simp add: wf_bb_def)
    moreover have "contents src = []" using empty src by (simp flip: length_0_conv)
    moreover have "bb_initialize_copy env lo False b src = Some (?b, FT_ERR_SUCCESS)"
      using i empty b src lo by (auto simp: bb_initialize_copy_def)
    ultimately show ?thesis
      using that [of ?b FT_ERR_SUCCESS] i empty wf_read_position [of b1 0] by simp
  next
    case full
    obtain d where d: "bb_data src = Some d" "length d = bb_capacity src"
      "take (bb_size src) d = contents src"
      using wf_block [OF src(1), of "bb_size src"] full src by (auto simp: wf_bb_def)
    have le: "bb_size src \<le> length d" "bb_size src \<le> FT_SYSTEM_SIZE_MAX"
      using src d by (auto simp: wf_bb_def)
    have room: "bb_size b1 + bb_size src \<le> bb_capacity b1" using i full src by (simp add: wf_bb_def)
    obtain b2 where a: "append_internal env b1 (Some d) (bb_size src) = Some (b2, FT_ERR_SUCCESS)"
      "wf_bb b2" "bb_initialised_state b2 = bb_initialised_state b1" "bb_mutex b2 = bb_mutex b1"
      "bb_fixed_capacity b2 = bb_fixed_capacity b1" "contents b2 = contents src"
      using append_internal_spec [OF env i(2) le] room i(3) d(3) by (metis append_Nil)
    have "bb_capacity b2 = bb_capacity b1"
      using a(1) room full by (auto simp: append_internal_def reserve_internal_def split: if_splits)
    moreover have "bb_size b2 = bb_size src"
      using length_contents [OF a(2)] length_contents [OF src(1)] a(6) by simp
    moreover have "bb_initialize_copy env lo False b src
        = Some (b2\<lparr>bb_read_position := bb_read_position src\<rparr>, FT_ERR_SUCCESS)"
      using i full b src lo a d by (auto simp: bb_initialize_copy_def)
    ultimately show ?thesis
      using that [of "b2\<lparr>bb_read_position := bb_read_position src\<rparr>" FT_ERR_SUCCESS] a i full src
        wf_read_position [OF a(2), of "bb_read_position src"]
      by (simp add: wf_bb_def)
  qed
qed

lemma bb_append_self_spec:
  assumes env: "wf_env env" and b: "usable env b"
    and mem: "bb_capacity b = 0 \<or> env_malloc env (bb_capacity b) \<noteq> None"
  obtains b' e where "bb_append_self env first b = Some (b', e)" "usable env b'"
    "bb_read_position b' = bb_read_position b"
    "contents b' = (if e = FT_ERR_SUCCESS then contents b @ contents b else contents b)"
proof -
  have wf: "wf_bb b" "bb_initialised_state b = Initialised" using b by (auto simp: usable_def)
  have lo: "bb_mutex b \<longrightarrow> env_lock env = FT_ERR_SUCCESS"
    using b by (auto simp: usable_def lock_internal_def)
  have new: "bb_initialised_state new_byte_buffer \<noteq> Initialised" by (simp add: new_byte_buffer_def)
  obtain c where c: "bb_initialize_copy env (env_lock env) False new_byte_buffer b
      = Some (c, FT_ERR_SUCCESS)" "wf_bb c" "\<not> bb_mutex c" "bb_initialised_state c = Initialised"
    "contents c = contents b"
    using bb_copy_spec [OF env wf lo new] mem by metis
  obtain b' e where "bb_append_buffer env FT_ERR_SUCCESS first b c = Some (b', e)" "usable env b'"
    "bb_read_position b' = bb_read_position b"
    "contents b' = (if e = FT_ERR_SUCCESS then contents b @ contents c else contents b)"
    using bb_append_buffer_spec [OF env b c(2), of FT_ERR_SUCCESS first] c by auto
  then show ?thesis using that [of b' e] c wf by (simp add: bb_append_self_def)
qed

text \<open>A move hands the contents over and leaves the source destroyed and empty.\<close>

lemma bb_move_spec:
  assumes "wf_bb src" "bb_initialised_state src = Initialised"
    and "bb_mutex src \<longrightarrow> lo = FT_ERR_SUCCESS"
    and "bb_mutex b \<longrightarrow> env_mutex_destroy env = FT_ERR_SUCCESS"
  shows "bb_move env lo False b src
     = Some (src, (reset_fields src)\<lparr>bb_initialised_state := Destroyed\<rparr>, FT_ERR_SUCCESS)"
proof -
  have "snd (bb_destroy env b) = FT_ERR_SUCCESS"
    using assms(4) by (simp add: bb_destroy_def disable_thread_safety_def Let_def)
  moreover have "src\<lparr>bb_initialised_state := Initialised\<rparr> = src" using assms(2) by simp
  ultimately show ?thesis
    using assms by (auto simp: bb_move_def Let_def split: prod.split)
qed

lemma bb_slice_spec:
  assumes env: "wf_env env" and b: "usable env b" and r: "off + len \<le> bb_size b"
    and out: "bb_initialised_state output \<noteq> Initialised"
    and mem: "len = 0 \<or> env_malloc env len \<noteq> None"
  obtains o' where "bb_slice env False b off len output = Some (o', FT_ERR_SUCCESS)" "wf_bb o'"
    "bb_initialised_state o' = Initialised" "contents o' = take len (drop off (contents b))"
    "bb_capacity o' = len" "bb_fixed_capacity o'"
proof -
  have wf: "wf_bb b" using b by (simp add: usable_def)
  have le: "len \<le> FT_SYSTEM_SIZE_MAX" using r wf by (simp add: wf_bb_def)
  have new: "bb_initialised_state new_byte_buffer \<noteq> Initialised" by (simp add: new_byte_buffer_def)
  obtain t1 where t1: "bb_initialize_capacity env new_byte_buffer len True = Some (t1, FT_ERR_SUCCESS)"
    "wf_bb t1" "contents t1 = []" "bb_size t1 = 0" "bb_fixed_capacity t1" "\<not> bb_mutex t1"
    "bb_initialised_state t1 = Initialised" "bb_capacity t1 = len"
    using bb_initialize_capacity_spec [OF env new le, of True] mem by metis
  have u1: "usable env t1" using t1 by (simp add: usable_def lock_internal_def)
  obtain t2 where t2: "(if len > 0 then bb_append env t1 (map_option (drop off) (bb_data b)) len
      else Some (t1, FT_ERR_SUCCESS)) = Some (t2, FT_ERR_SUCCESS)" "usable env t2" "\<not> bb_mutex t2"
    "contents t2 = take len (drop off (contents b))" "bb_capacity t2 = len" "bb_fixed_capacity t2"
  proof (cases "len = 0")
    case True
    then show ?thesis using that [of t1] t1 u1 by simp
  next
    case False
    then obtain d where d: "bb_data b = Some d" "length d = bb_capacity b"
      using wf_block [OF wf, of "off + len"] r wf by (auto simp: wf_bb_def)
    have dl: "len \<le> length (drop off d)" using d r wf by (auto simp: wf_bb_def)
    obtain t2 where a: "append_internal env t1 (Some (drop off d)) len = Some (t2, FT_ERR_SUCCESS)"
      "wf_bb t2" "bb_initialised_state t2 = bb_initialised_state t1" "bb_mutex t2 = bb_mutex t1"
      "bb_fixed_capacity t2 = bb_fixed_capacity t1" "contents t2 = contents t1 @ take len (drop off d)"
      "bb_capacity t2 = bb_capacity t1"
      using append_internal_spec [OF env t1(2) dl le] t1 by (metis add_0 order_refl)
    have "take len (drop off d) = take len (drop off (contents b))"
      using contents_slice [OF wf r] False d by simp
    then show ?thesis
      using that [of t2] a False t1 d locked_usable [OF u1] usable_update [OF u1 a(2,3,4)]
      by (simp add: bb_append_def)
  qed
  have wf2: "wf_bb t2" "bb_initialised_state t2 = Initialised" using t2(2) by (auto simp: usable_def)
  obtain o' where o: "bb_initialize_copy env FT_ERR_SUCCESS False output t2 = Some (o', FT_ERR_SUCCESS)"
    "wf_bb o'" "bb_initialised_state o' = Initialised" "contents o' = contents t2"
    "bb_capacity o' = bb_capacity t2" "bb_fixed_capacity o' = bb_fixed_capacity t2"
    using bb_copy_spec [OF env wf2 _ out, of FT_ERR_SUCCESS] mem t2(3,5) by metis
  have "bb_slice env False b off len output = bb_initialize_copy env FT_ERR_SUCCESS False output t2"
    using b r t1(1) t2(1) by (cases "len = 0") (auto simp: bb_slice_def usable_def)
  then show ?thesis using that [of o'] o t2 by simp
qed

subsection \<open>Find\<close>

lemma find_loop_first_index:
  assumes "length nd \<le> length h"
  shows "find_loop h nd i =
     first_index (\<lambda>j. take (length nd) (drop j h) = nd) (Suc (length h - length nd)) i"
proof (induction "Suc (length h - length nd) - i" arbitrary: i rule: less_induct)
  case less
  show ?case
  proof (cases "i \<le> length h - length nd")
    case True
    then have "ft_memcmp (h @ nd) (Some i) (Some (length h)) (length nd) = 0
        \<longleftrightarrow> take (length nd) (drop i h) = nd"
      using ft_memcmp_eq_0_iff [of i "length nd" "h @ nd" "length h"] assms by simp
    then show ?thesis
      using less [of "i + 1"] True by (subst find_loop.simps, subst first_index.simps) simp
  next
    case False
    then show ?thesis by (subst find_loop.simps, subst first_index.simps) simp
  qed
qed

text \<open>\<open>find\<close> returns the first position, from the read position on, where the bytes occur.\<close>

definition occurs_at :: "bytes \<Rightarrow> bytes \<Rightarrow> nat \<Rightarrow> bool" where
  "occurs_at nd xs k \<longleftrightarrow> k + length nd \<le> length xs \<and> take (length nd) (drop k xs) = nd"

lemma buffer_find_bytes_Some_iff:
  assumes "nd \<noteq> []" "n \<le> length h"
  shows "buffer_find_bytes (Some h) n (Some nd) (length nd) = Some k \<longleftrightarrow>
     occurs_at nd (take n h) k \<and> (\<forall>j<k. \<not> occurs_at nd (take n h) j)"
proof (cases "length nd \<le> n")
  case True
  let ?h = "take n h"
  have le: "length nd \<le> length ?h" using True assms by simp
  have "buffer_find_bytes (Some h) n (Some nd) (length nd) = find_loop ?h nd 0"
    using assms True by (simp add: buffer_find_bytes_def)
  then show ?thesis
    using le
    by (auto simp: find_loop_first_index [OF le] first_index_Some_iff less_Suc_eq_le occurs_at_def)
next
  case False
  then show ?thesis using assms by (auto simp: buffer_find_bytes_def occurs_at_def)
qed

lemma bb_find_spec:
  assumes "usable env b" "nd \<noteq> []" "0 < bb_capacity b"
  shows "bb_find env b (Some nd) (length nd) = Some (Some k, e) \<longleftrightarrow>
     e = FT_ERR_SUCCESS \<and> bb_read_position b \<le> k \<and> occurs_at nd (contents b) k
     \<and> (\<forall>j. bb_read_position b \<le> j \<and> j < k \<longrightarrow> \<not> occurs_at nd (contents b) j)"
proof -
  have wf: "wf_bb b" using assms by (simp add: usable_def)
  let ?p = "bb_read_position b"
  obtain d where d: "bb_data b = Some d" "length d = bb_capacity b" "take (bb_size b) d = contents b"
    using wf_block [OF wf, of "bb_capacity b"] assms by auto
  have n: "bb_size b - ?p \<le> length (drop ?p d)" using wf d by (auto simp: wf_bb_def)
  have view: "take (bb_size b - ?p) (drop ?p d) = drop ?p (contents b)"
    using d(3) by (simp add: drop_take [symmetric])
  have shift: "occurs_at nd (drop ?p (contents b)) j \<longleftrightarrow> occurs_at nd (contents b) (?p + j)" for j
    using wf by (auto simp: occurs_at_def add.commute wf_bb_def)
  have "bb_find env b (Some nd) (length nd) = Some (Some k, e) \<longleftrightarrow> e = FT_ERR_SUCCESS \<and>
      (\<exists>j. k = ?p + j \<and> buffer_find_bytes (Some (drop ?p d)) (bb_size b - ?p) (Some nd) (length nd) = Some j)"
    using assms d wf by (auto simp: bb_find_def usable_def wf_bb_def split: option.splits)
  also have "\<dots> \<longleftrightarrow> e = FT_ERR_SUCCESS \<and> (\<exists>j. k = ?p + j \<and> occurs_at nd (contents b) (?p + j)
      \<and> (\<forall>i<j. \<not> occurs_at nd (contents b) (?p + i)))"
    using buffer_find_bytes_Some_iff [OF assms(2) n] by (simp add: view shift)
  also have "\<dots> \<longleftrightarrow> e = FT_ERR_SUCCESS \<and> ?p \<le> k \<and> occurs_at nd (contents b) k
     \<and> (\<forall>j. ?p \<le> j \<and> j < k \<longrightarrow> \<not> occurs_at nd (contents b) j)"
    by (auto simp: nat_le_iff_add)
  finally show ?thesis .
qed

subsection \<open>Values of fixed width\<close>

text \<open>
  A value type with its bytes: what \<open>append_*\<close> writes, \<open>read_*\<close> gives back, at any place
  of the buffer.
\<close>

locale fixed_width =
  fixes split :: "'v \<Rightarrow> bytes" and join :: "bytes \<Rightarrow> 'v" and width :: nat
  assumes length_split: "length (split v) = width"
    and join_split: "join (split v) = v"
    and width_range: "0 < width" "width \<le> 8"
begin

lemma read_at:
  assumes "usable env b" "contents b = pre @ split v @ post" "bb_read_position b = length pre"
  shows "read_value env b width join (Some old)
    = Some (b\<lparr>bb_read_position := length pre + width\<rparr>, FT_ERR_SUCCESS, Some v)"
proof -
  have "bb_size b = length (contents b)" using assms(1) by (simp add: usable_def)
  then have "bb_read_position b + width \<le> bb_size b" using assms(2,3) by (simp add: length_split)
  moreover have "take width (drop (length pre) (contents b)) = split v"
    using assms(2) by (simp add: length_split)
  ultimately show ?thesis
    using bb_read_spec [OF assms(1), of "replicate width 0" width] width_range assms(3)
    by (simp add: read_value_def join_split)
qed

lemma append_read:
  assumes "wf_env env" "usable env b" "bb_read_position b = bb_size b"
    and "bb_append env b (Some (split v)) width = Some (b', FT_ERR_SUCCESS)"
  shows "read_value env b' width join (Some old)
    = Some (b'\<lparr>bb_read_position := bb_size b + width\<rparr>, FT_ERR_SUCCESS, Some v)"
proof -
  have len: "width \<le> length (split v)" "width \<le> FT_SYSTEM_SIZE_MAX"
    using width_range by (auto simp: length_split FT_SYSTEM_SIZE_MAX_def)
  have "usable env b'" "bb_read_position b' = bb_size b" "contents b' = contents b @ split v @ []"
    using bb_append_spec [OF assms(1,2) len] assms(3,4) by (auto simp: length_split)
  moreover have "length (contents b) = bb_size b" using assms(2) by (simp add: usable_def)
  ultimately show ?thesis using read_at [of env b' "contents b" v "[]"] by simp
qed

lemma append_overflows_fixed:
  assumes "usable env b" "bb_fixed_capacity b" "bb_capacity b < bb_size b + width"
    "bb_size b + width \<le> FT_SYSTEM_SIZE_MAX"
  shows "bb_append env b (Some (split v)) width = Some (b, FT_ERR_FULL)"
  using assms width_range locked_usable [OF assms(1)]
  by (simp add: bb_append_def append_internal_def reserve_internal_def buffer_add_overflows_def)

end

lemmas value_defs = u16_be_bytes_def u16_le_bytes_def u32_be_bytes_def u32_le_bytes_def
  u64_be_bytes_def u64_le_bytes_def u16_be_value_def u16_le_value_def u32_be_value_def
  u32_le_value_def u64_be_value_def u64_le_value_def

interpretation u8_field: fixed_width "\<lambda>v. [v]" "\<lambda>x. x ! 0" 1
  by unfold_locales simp_all

interpretation u16_be: fixed_width u16_be_bytes u16_be_value 2
  by unfold_locales (simp_all add: value_defs, rule u16_eqI, simp add: bit_simps upt_rec bit_blast)

interpretation u16_le: fixed_width u16_le_bytes u16_le_value 2
  by unfold_locales (simp_all add: value_defs, rule u16_eqI, simp add: bit_simps upt_rec bit_blast)

interpretation u32_be: fixed_width u32_be_bytes u32_be_value 4
  by unfold_locales (simp_all add: value_defs, rule u32_eqI, simp add: bit_simps upt_rec bit_blast)

interpretation u32_le: fixed_width u32_le_bytes u32_le_value 4
  by unfold_locales (simp_all add: value_defs, rule u32_eqI, simp add: bit_simps upt_rec bit_blast)

interpretation u64_be: fixed_width u64_be_bytes u64_be_value 8
  by unfold_locales (simp_all add: value_defs, rule u64_eqI, simp add: bit_simps upt_rec bit_blast)

interpretation u64_le: fixed_width u64_le_bytes u64_le_value 8
  by unfold_locales (simp_all add: value_defs, rule u64_eqI, simp add: bit_simps upt_rec bit_blast)

subsection \<open>Variable-length values\<close>

lemma take_write_prefix: "take (length xs) (write_block b 0 xs) = xs"
  by (simp add: write_block_def)

lemma bb_append_varuint64_eq:
  "bb_append_varuint64 env b v
     = bb_append env b (Some (write_block (replicate 10 0) 0 (varuint_bytes v)))
         (length (varuint_bytes v))"
  by (simp add: bb_append_varuint64_def buffer_encode_varuint64_spec)

lemma bb_append_varint64_eq:
  assumes "- (2 ^ 63) \<le> v" "v < 2 ^ 63"
  shows "bb_append_varint64 env b v
     = bb_append env b (Some (write_block (replicate 10 0) 0 (varint_bytes v)))
         (length (varint_bytes v))"
  using assms by (simp add: bb_append_varint64_def buffer_encode_varint64_spec)

text \<open>What an append of encoded bytes leaves to be read.\<close>

lemma append_encoded:
  assumes "wf_env env" "usable env b" "bb_read_position b = bb_size b" "xs \<noteq> []" "length xs \<le> 10"
    and "bb_append env b (Some (write_block (replicate 10 0) 0 xs)) (length xs)
      = Some (b', FT_ERR_SUCCESS)"
  obtains d where "usable env b'" "bb_read_position b' = bb_size b" "bb_size b' = bb_size b + length xs"
    "bb_data b' = Some d" "take (bb_size b' - bb_read_position b') (drop (bb_read_position b') d) = xs"
proof -
  have len: "length xs \<le> length (write_block (replicate 10 (0 :: u8)) 0 xs)"
    "length xs \<le> FT_SYSTEM_SIZE_MAX"
    using assms(5) by (simp_all add: FT_SYSTEM_SIZE_MAX_def)
  have r: "usable env b'" "bb_read_position b' = bb_size b" "contents b' = contents b @ xs"
    using bb_append_spec [OF assms(1,2) len] assms(3,6) by (auto simp: take_write_prefix)
  have wf: "wf_bb b" "wf_bb b'" using assms(2) r(1) by (auto simp: usable_def)
  have sz: "bb_size b' = bb_size b + length xs"
    using length_contents [OF wf(2)] length_contents [OF wf(1)] r(3) by simp
  have pos: "0 < length xs" using assms(4) by simp
  obtain d where d: "bb_data b' = Some d" "length d = bb_capacity b'"
    using wf_block [OF wf(2), of "bb_size b'"] pos sz wf(2) by (auto simp: wf_bb_def)
  have le: "bb_size b + length xs \<le> bb_size b'" using sz by simp
  have "take (length xs) (drop (bb_size b) d) = take (length xs) (drop (bb_size b) (contents b'))"
    using contents_slice [OF wf(2) le pos] d by simp
  also have "\<dots> = xs" using r(3) length_contents [OF wf(1)] by simp
  finally show ?thesis using that [of d] r sz d by simp
qed

lemma bb_varuint64_roundtrip:
  assumes "wf_env env" "usable env b" "bb_read_position b = bb_size b"
    and "bb_append_varuint64 env b v = Some (b', FT_ERR_SUCCESS)"
  shows "bb_read_varuint64 env b' (Some old)
    = Some (b'\<lparr>bb_read_position := bb_size b'\<rparr>, FT_ERR_SUCCESS, Some v)"
proof -
  obtain d where d: "usable env b'" "bb_read_position b' = bb_size b"
    "bb_size b' = bb_size b + length (varuint_bytes v)" "bb_data b' = Some d"
    "take (bb_size b' - bb_read_position b') (drop (bb_read_position b') d) = varuint_bytes v"
    using append_encoded [OF assms(1,2,3) varuint_bytes_not_Nil length_varuint_bytes_10] assms(4)
    unfolding bb_append_varuint64_eq by blast
  have "decode_varuint_loop (varuint_bytes v) 0 0 0 = Some (v, length (varuint_bytes v))"
    using varuint_roundtrip [of v "[]" 0 0]
    by (auto simp: buffer_decode_varuint64_def split: option.splits)
  then show ?thesis
    using d by (simp add: bb_read_varuint64_def usable_def buffer_decode_varuint64_def)
qed

lemma varint_bytes_not_Nil [simp]: "varint_bytes v \<noteq> []"
  by (subst varint_bytes.simps) simp

lemma bb_varint64_roundtrip:
  assumes "wf_env env" "usable env b" "bb_read_position b = bb_size b"
    and v: "- (2 ^ 63) \<le> v" "v < 2 ^ 63"
    and "bb_append_varint64 env b v = Some (b', FT_ERR_SUCCESS)"
  shows "bb_read_varint64 env b' (Some old)
    = Some (b'\<lparr>bb_read_position := bb_size b'\<rparr>, FT_ERR_SUCCESS, Some v)"
proof -
  obtain d where d: "usable env b'" "bb_read_position b' = bb_size b"
    "bb_size b' = bb_size b + length (varint_bytes v)" "bb_data b' = Some d"
    "take (bb_size b' - bb_read_position b') (drop (bb_read_position b') d) = varint_bytes v"
    using append_encoded [OF assms(1,2,3) varint_bytes_not_Nil length_varint_bytes_10 [OF v]] assms(6)
    unfolding bb_append_varint64_eq [OF v] by blast
  have "decode_varint_loop (varint_bytes v) 0 0 0 = Some (v, length (varint_bytes v))"
    using varint_roundtrip [OF v, of "[]" 0 0]
    by (auto simp: buffer_decode_varint64_def split: option.splits)
  then show ?thesis
    using d by (simp add: bb_read_varint64_def usable_def buffer_decode_varint64_def)
qed

subsection \<open>Main properties\<close>

lemma bb_u8_append_read:
  assumes "wf_env env" "usable env b" "bb_read_position b = bb_size b"
    and "bb_append env b (Some [v]) 1 = Some (b', FT_ERR_SUCCESS)"
  shows "bb_read_u8 env b' (Some old)
    = Some (b'\<lparr>bb_read_position := bb_size b + 1\<rparr>, FT_ERR_SUCCESS, Some v)"
proof -
  have "usable env b'" "bb_read_position b' = bb_size b" "contents b' = contents b @ [v]"
    using bb_append_spec [OF assms(1,2), of 1 "[v]"] assms(3,4)
    by (auto simp: FT_SYSTEM_SIZE_MAX_def)
  moreover have "bb_size b' = length (contents b')" "length (contents b) = bb_size b"
    using calculation(1) assms(2) by (simp_all add: usable_def)
  ultimately show ?thesis
    using bb_read_spec [of env b' "[old]" 1] by (simp add: bb_read_u8_def)
qed

lemmas append_read_rules = bb_u8_append_read u16_be.append_read u16_le.append_read
  u32_be.append_read u32_le.append_read u64_be.append_read u64_le.append_read

text \<open>
  A concrete environment for evaluation: memory never runs out, blocks are zeroed, and
  the mutex works. \<open>demo_buffer\<close> is a live buffer that holds four bytes, one already read.
\<close>

definition demo_env :: buffer_env where
  "demo_env = \<lparr>env_malloc = zero_alloc,
     env_realloc = (\<lambda>p n. Some (take n (span_bytes p n @ replicate n 0))),
     env_lock = FT_ERR_SUCCESS, env_mutex_new = True, env_mutex_init = FT_ERR_SUCCESS,
     env_mutex_destroy = FT_ERR_SUCCESS\<rparr>"

definition demo_buffer :: byte_buffer where
  "demo_buffer = \<lparr>bb_data = Some [1, 2, 3, 4, 0, 0], bb_size = 4, bb_capacity = 6,
     bb_read_position = 1, bb_fixed_capacity = False, bb_initialised_state = Initialised,
     bb_mutex = False\<rparr>"

lemma wf_demo_env: "wf_env demo_env"
  using total_zero_alloc
  by (auto simp: demo_env_def wf_env_def wf_realloc_def total_alloc_def span_bytes_def
      split: option.splits)

lemma usable_demo: "usable demo_env demo_buffer"
  by (simp add: usable_def wf_bb_def lock_internal_def demo_buffer_def FT_SYSTEM_SIZE_MAX_def)

definition drained_buffer :: byte_buffer where
  "drained_buffer = \<lparr>bb_data = Some (replicate 16 0), bb_size = 4, bb_capacity = 16,
     bb_read_position = 4, bb_fixed_capacity = True, bb_initialised_state = Initialised,
     bb_mutex = False\<rparr>"

lemma usable_drained: "usable demo_env drained_buffer"
  by (simp add: usable_def wf_bb_def lock_internal_def drained_buffer_def FT_SYSTEM_SIZE_MAX_def)

lemma append_to_drained:
  assumes "n \<le> length xs" "n \<le> 12"
  shows "\<exists>b'. bb_append demo_env drained_buffer (Some xs) n = Some (b', FT_ERR_SUCCESS)"
proof -
  have "n \<le> FT_SYSTEM_SIZE_MAX" "bb_size drained_buffer + n \<le> bb_capacity drained_buffer"
    using assms by (simp_all add: FT_SYSTEM_SIZE_MAX_def drained_buffer_def)
  then show ?thesis
    using bb_append_spec [OF wf_demo_env usable_drained assms(1)] by metis
qed

lemma malloc_demo: "env_malloc demo_env n \<noteq> None"
  by (simp add: demo_env_def zero_alloc_def)

text \<open>
  Growing always ends and suffices: \<open>reserve\<close> on a live buffer returns, keeps the
  bytes, the read position and the invariant, gives the requested capacity when it reports
  success, and changes nothing when it reports an error. A fixed-capacity buffer never
  changes, and a request within the capacity succeeds without touching the object.
\<close>

theorem reserve_grows_or_keeps:
  assumes "wf_env env" "usable env b" "r \<le> FT_SYSTEM_SIZE_MAX"
  shows "\<exists>b' e. bb_reserve env b r = Some (b', e) \<and> usable env b'
    \<and> contents b' = contents b \<and> bb_read_position b' = bb_read_position b
    \<and> (if e = FT_ERR_SUCCESS then r \<le> bb_capacity b' else b' = b)
    \<and> (bb_fixed_capacity b \<or> r \<le> bb_capacity b \<longrightarrow> b' = b)"
proof -
  have wf: "wf_bb b" using assms by (simp add: usable_def)
  show ?thesis
    using reserve_internal_spec [OF assms(1) wf assms(3)] usable_update [OF assms(2)]
    by (simp add: bb_reserve_def locked_usable [OF assms(2)]) metis
qed

theorem reserve_grows_or_keeps_witness:
  "\<exists>b' e. bb_reserve demo_env demo_buffer 40 = Some (b', e) \<and> usable demo_env b'
    \<and> contents b' = contents demo_buffer \<and> bb_read_position b' = bb_read_position demo_buffer
    \<and> (if e = FT_ERR_SUCCESS then 40 \<le> bb_capacity b' else b' = demo_buffer)
    \<and> (bb_fixed_capacity demo_buffer \<or> 40 \<le> bb_capacity demo_buffer \<longrightarrow> b' = demo_buffer)"
  by (rule reserve_grows_or_keeps [OF wf_demo_env usable_demo]) (simp add: FT_SYSTEM_SIZE_MAX_def)

text \<open>
  C3: \<open>append\<close> refines appending to the abstract byte string: on success the contents
  are the old bytes followed by the new ones, on failure the object is unchanged; the read
  position never moves, and the call succeeds whenever the bytes fit the capacity.
\<close>

theorem append_refines:
  assumes "wf_env env" "usable env b" "len \<le> length xs" "len \<le> FT_SYSTEM_SIZE_MAX"
  shows "\<exists>b' e. bb_append env b (Some xs) len = Some (b', e) \<and> usable env b'
    \<and> bb_read_position b' = bb_read_position b
    \<and> (if e = FT_ERR_SUCCESS then contents b' = contents b @ take len xs else b' = b)
    \<and> (bb_fixed_capacity b \<longrightarrow> bb_capacity b' = bb_capacity b)
    \<and> (bb_size b + len \<le> bb_capacity b \<longrightarrow> e = FT_ERR_SUCCESS)"
  using bb_append_spec [OF assms] by metis

theorem append_refines_witness:
  "\<exists>b' e. bb_append demo_env demo_buffer (Some [7, 8, 9]) 3 = Some (b', e) \<and> usable demo_env b'
    \<and> bb_read_position b' = bb_read_position demo_buffer
    \<and> (if e = FT_ERR_SUCCESS then contents b' = contents demo_buffer @ take 3 [7, 8, 9]
        else b' = demo_buffer)
    \<and> (bb_fixed_capacity demo_buffer \<longrightarrow> bb_capacity b' = bb_capacity demo_buffer)
    \<and> (bb_size demo_buffer + 3 \<le> bb_capacity demo_buffer \<longrightarrow> e = FT_ERR_SUCCESS)"
  by (rule append_refines [OF wf_demo_env usable_demo]) (simp_all add: FT_SYSTEM_SIZE_MAX_def)

text \<open>
  \<open>read\<close> is all or nothing: when enough unread bytes are left it delivers exactly the
  next ones and advances the read position by their number, otherwise it reports
  \<open>FT_ERR_OUT_OF_RANGE\<close> and changes neither the buffer nor the destination.
\<close>

theorem read_all_or_nothing:
  assumes "usable env b" "length dest = n" "0 < n"
  shows "bb_read env b (Some dest) n =
    (if bb_read_position b + n \<le> bb_size b
     then Some (b\<lparr>bb_read_position := bb_read_position b + n\<rparr>, FT_ERR_SUCCESS,
                Some (take n (drop (bb_read_position b) (contents b))))
     else Some (b, FT_ERR_OUT_OF_RANGE, Some dest))"
  using assms by (rule bb_read_spec)

theorem read_all_or_nothing_witness:
  "bb_read demo_env demo_buffer (Some [0, 0]) 2 =
    (if bb_read_position demo_buffer + 2 \<le> bb_size demo_buffer
     then Some (demo_buffer\<lparr>bb_read_position := bb_read_position demo_buffer + 2\<rparr>, FT_ERR_SUCCESS,
                Some (take 2 (drop (bb_read_position demo_buffer) (contents demo_buffer))))
     else Some (demo_buffer, FT_ERR_OUT_OF_RANGE, Some [0, 0]))"
  by (rule read_all_or_nothing [OF usable_demo]) simp_all

text \<open>
  \<open>prepend_buffer\<close> puts the other buffer's bytes in front and moves the read position
  with them, so that the bytes still to be read are the same before and after; on failure
  the contents are unchanged.
\<close>

theorem prepend_keeps_unread:
  assumes "wf_env env" "usable env b" "wf_bb src" "bb_initialised_state src \<noteq> Uninitialised"
    and "bb_mutex src \<longrightarrow> lo = FT_ERR_SUCCESS"
  shows "\<exists>b' e. bb_prepend_buffer env lo first b src = Some (b', e) \<and> usable env b'
    \<and> contents b' = (if e = FT_ERR_SUCCESS then contents src @ contents b else contents b)
    \<and> drop (bb_read_position b') (contents b') = drop (bb_read_position b) (contents b)"
  using bb_prepend_buffer_spec [OF assms] by metis

theorem prepend_keeps_unread_witness:
  "\<exists>b' e. bb_prepend_buffer demo_env FT_ERR_SUCCESS True demo_buffer demo_buffer = Some (b', e)
    \<and> usable demo_env b'
    \<and> contents b' = (if e = FT_ERR_SUCCESS then contents demo_buffer @ contents demo_buffer
        else contents demo_buffer)
    \<and> drop (bb_read_position b') (contents b')
        = drop (bb_read_position demo_buffer) (contents demo_buffer)"
  by (rule prepend_keeps_unread [OF wf_demo_env usable_demo])
    (use usable_demo in \<open>simp_all add: usable_def demo_buffer_def\<close>)

text \<open>
  Appending a buffer to itself is safe although growing it may move its block: when
  the snapshot can be allocated, the call returns, and on success the contents are doubled,
  on failure unchanged.
\<close>

theorem append_self_doubles:
  assumes "wf_env env" "usable env b"
    and "bb_capacity b = 0 \<or> env_malloc env (bb_capacity b) \<noteq> None"
  shows "\<exists>b' e. bb_append_self env first b = Some (b', e) \<and> usable env b'
    \<and> bb_read_position b' = bb_read_position b
    \<and> contents b' = (if e = FT_ERR_SUCCESS then contents b @ contents b else contents b)"
  using bb_append_self_spec [OF assms] by metis

theorem append_self_doubles_witness:
  "\<exists>b' e. bb_append_self demo_env True demo_buffer = Some (b', e) \<and> usable demo_env b'
    \<and> bb_read_position b' = bb_read_position demo_buffer
    \<and> contents b' = (if e = FT_ERR_SUCCESS then contents demo_buffer @ contents demo_buffer
        else contents demo_buffer)"
  by (rule append_self_doubles [OF wf_demo_env usable_demo]) (simp add: malloc_demo)

text \<open>
  \<open>initialize(const ft_byte_buffer &)\<close> makes an independent copy: same bytes, read
  position, capacity and mode. It fails only when the block cannot be allocated, and then
  leaves a destroyed object that owns nothing.
\<close>

theorem copy_is_faithful:
  assumes "wf_env env" "wf_bb src" "bb_initialised_state src = Initialised"
    and "bb_mutex src \<longrightarrow> lo = FT_ERR_SUCCESS" "bb_initialised_state b \<noteq> Initialised"
  shows "\<exists>b' e. bb_initialize_copy env lo False b src = Some (b', e) \<and> wf_bb b'
    \<and> (if e = FT_ERR_SUCCESS
        then bb_initialised_state b' = Initialised \<and> contents b' = contents src
          \<and> bb_read_position b' = bb_read_position src \<and> bb_capacity b' = bb_capacity src
          \<and> bb_fixed_capacity b' = bb_fixed_capacity src
        else bb_initialised_state b' = Destroyed \<and> bb_data b' = None
          \<and> env_malloc env (bb_capacity src) = None)"
  using bb_copy_spec [OF assms] by metis

theorem copy_is_faithful_witness:
  "\<exists>b' e. bb_initialize_copy demo_env FT_ERR_SUCCESS False new_byte_buffer demo_buffer = Some (b', e)
    \<and> wf_bb b'
    \<and> (if e = FT_ERR_SUCCESS
        then bb_initialised_state b' = Initialised \<and> contents b' = contents demo_buffer
          \<and> bb_read_position b' = bb_read_position demo_buffer
          \<and> bb_capacity b' = bb_capacity demo_buffer
          \<and> bb_fixed_capacity b' = bb_fixed_capacity demo_buffer
        else bb_initialised_state b' = Destroyed \<and> bb_data b' = None
          \<and> env_malloc demo_env (bb_capacity demo_buffer) = None)"
  by (rule copy_is_faithful [OF wf_demo_env])
    (use usable_demo in \<open>simp_all add: usable_def new_byte_buffer_def\<close>)

text \<open>
  \<open>slice\<close> of a range inside the buffer gives a new live fixed-capacity buffer that
  holds exactly the bytes of the range, and does so whenever the block can be allocated.
\<close>

theorem slice_extracts:
  assumes "wf_env env" "usable env b" "off + len \<le> bb_size b"
    and "bb_initialised_state output \<noteq> Initialised" "len = 0 \<or> env_malloc env len \<noteq> None"
  shows "\<exists>o'. bb_slice env False b off len output = Some (o', FT_ERR_SUCCESS) \<and> wf_bb o'
    \<and> bb_initialised_state o' = Initialised \<and> contents o' = take len (drop off (contents b))
    \<and> bb_capacity o' = len \<and> bb_fixed_capacity o'"
  using bb_slice_spec [OF assms] by metis

theorem slice_extracts_witness:
  "\<exists>o'. bb_slice demo_env False demo_buffer 1 2 new_byte_buffer = Some (o', FT_ERR_SUCCESS) \<and> wf_bb o'
    \<and> bb_initialised_state o' = Initialised \<and> contents o' = take 2 (drop 1 (contents demo_buffer))
    \<and> bb_capacity o' = 2 \<and> bb_fixed_capacity o'"
  by (rule slice_extracts [OF wf_demo_env usable_demo])
    (simp_all add: malloc_demo demo_buffer_def new_byte_buffer_def)

text \<open>
  \<open>find\<close> reports the first occurrence of the pattern at or after the read position,
  as an offset into the buffer.
\<close>

theorem find_first_unread:
  assumes "usable env b" "nd \<noteq> []" "0 < bb_capacity b"
  shows "bb_find env b (Some nd) (length nd) = Some (Some k, e) \<longleftrightarrow>
     e = FT_ERR_SUCCESS \<and> bb_read_position b \<le> k \<and> occurs_at nd (contents b) k
     \<and> (\<forall>j. bb_read_position b \<le> j \<and> j < k \<longrightarrow> \<not> occurs_at nd (contents b) j)"
  using assms by (rule bb_find_spec)

theorem find_first_unread_witness:
  "bb_find demo_env demo_buffer (Some [3, 4]) (length [3, 4 :: u8]) = Some (Some 2, FT_ERR_SUCCESS) \<longleftrightarrow>
     FT_ERR_SUCCESS = FT_ERR_SUCCESS \<and> bb_read_position demo_buffer \<le> 2
     \<and> occurs_at [3, 4] (contents demo_buffer) 2
     \<and> (\<forall>j. bb_read_position demo_buffer \<le> j \<and> j < 2 \<longrightarrow> \<not> occurs_at [3, 4] (contents demo_buffer) j)"
  by (rule find_first_unread [OF usable_demo]) (simp_all add: demo_buffer_def)

text \<open>
  The typed accessors agree in width and byte order: a value of any of the seven types
  appended to a fully read buffer is read back unchanged by the matching accessor, and the
  read position moves behind it.
\<close>

theorem typed_append_read:
  assumes "wf_env env" "usable env b" "bb_read_position b = bb_size b"
  shows "(\<forall>v b' old. bb_append_u8 env b v = Some (b', FT_ERR_SUCCESS) \<longrightarrow>
        bb_read_u8 env b' (Some old)
          = Some (b'\<lparr>bb_read_position := bb_size b + 1\<rparr>, FT_ERR_SUCCESS, Some v))
    \<and> (\<forall>v b' old. bb_append_u16_be env b v = Some (b', FT_ERR_SUCCESS) \<longrightarrow>
        bb_read_u16_be env b' (Some old)
          = Some (b'\<lparr>bb_read_position := bb_size b + 2\<rparr>, FT_ERR_SUCCESS, Some v))
    \<and> (\<forall>v b' old. bb_append_u16_le env b v = Some (b', FT_ERR_SUCCESS) \<longrightarrow>
        bb_read_u16_le env b' (Some old)
          = Some (b'\<lparr>bb_read_position := bb_size b + 2\<rparr>, FT_ERR_SUCCESS, Some v))
    \<and> (\<forall>v b' old. bb_append_u32_be env b v = Some (b', FT_ERR_SUCCESS) \<longrightarrow>
        bb_read_u32_be env b' (Some old)
          = Some (b'\<lparr>bb_read_position := bb_size b + 4\<rparr>, FT_ERR_SUCCESS, Some v))
    \<and> (\<forall>v b' old. bb_append_u32_le env b v = Some (b', FT_ERR_SUCCESS) \<longrightarrow>
        bb_read_u32_le env b' (Some old)
          = Some (b'\<lparr>bb_read_position := bb_size b + 4\<rparr>, FT_ERR_SUCCESS, Some v))
    \<and> (\<forall>v b' old. bb_append_u64_be env b v = Some (b', FT_ERR_SUCCESS) \<longrightarrow>
        bb_read_u64_be env b' (Some old)
          = Some (b'\<lparr>bb_read_position := bb_size b + 8\<rparr>, FT_ERR_SUCCESS, Some v))
    \<and> (\<forall>v b' old. bb_append_u64_le env b v = Some (b', FT_ERR_SUCCESS) \<longrightarrow>
        bb_read_u64_le env b' (Some old)
          = Some (b'\<lparr>bb_read_position := bb_size b + 8\<rparr>, FT_ERR_SUCCESS, Some v))"
  unfolding bb_append_u8_def bb_append_u16_be_def bb_append_u16_le_def bb_append_u32_be_def
    bb_append_u32_le_def bb_append_u64_be_def bb_append_u64_le_def bb_read_u16_be_def
    bb_read_u16_le_def bb_read_u32_be_def bb_read_u32_le_def bb_read_u64_be_def bb_read_u64_le_def
  using append_read_rules [OF assms] by blast

theorem typed_append_read_witness:
  "\<exists>b'. bb_append_u64_be demo_env drained_buffer 0x0102030405060708 = Some (b', FT_ERR_SUCCESS)
    \<and> bb_read_u64_be demo_env b' (Some 0)
      = Some (b'\<lparr>bb_read_position := bb_size drained_buffer + 8\<rparr>, FT_ERR_SUCCESS, Some 0x0102030405060708)"
proof -
  obtain b' where app: "bb_append_u64_be demo_env drained_buffer 0x0102030405060708
      = Some (b', FT_ERR_SUCCESS)"
    using append_to_drained [of 8 "u64_be_bytes 0x0102030405060708"]
    by (auto simp: bb_append_u64_be_def u64_be.length_split)
  then show ?thesis
    using typed_append_read [OF wf_demo_env usable_drained] by (simp add: drained_buffer_def)
qed

text \<open>
  A signed 64-bit value, any value of the type, written as a variable-length integer
  to a fully read buffer is read back unchanged, and the read consumes exactly the bytes
  that were appended.
\<close>

theorem varint_append_read:
  assumes "wf_env env" "usable env b" "bb_read_position b = bb_size b"
    and "- (2 ^ 63) \<le> v" "v < 2 ^ 63"
    and "bb_append_varint64 env b v = Some (b', FT_ERR_SUCCESS)"
  shows "bb_read_varint64 env b' (Some old)
    = Some (b'\<lparr>bb_read_position := bb_size b'\<rparr>, FT_ERR_SUCCESS, Some v)"
  using assms by (rule bb_varint64_roundtrip)

theorem varint_append_read_witness:
  "\<exists>b'. bb_append_varint64 demo_env drained_buffer (-300) = Some (b', FT_ERR_SUCCESS)
    \<and> bb_read_varint64 demo_env b' (Some 0)
      = Some (b'\<lparr>bb_read_position := bb_size b'\<rparr>, FT_ERR_SUCCESS, Some (-300))"
proof -
  have "varint_bytes (-300) = [0xD4, 0x7D]" by code_simp
  then obtain b' where app: "bb_append_varint64 demo_env drained_buffer (-300) = Some (b', FT_ERR_SUCCESS)"
    using append_to_drained [of 2 "write_block (replicate 10 0) 0 [0xD4, 0x7D]"] by (auto simp: bb_append_varint64_eq numeral_2_eq_2)
  show ?thesis
    using varint_append_read [OF wf_demo_env usable_drained _ _ _ app, of 0] app
    by (auto simp: drained_buffer_def)
qed

end
