(* ===== verification/Byte_Buffer_Steps.thy ===== *)
theory Byte_Buffer_Steps
  imports Byte_Buffer_Spec
begin

text \<open>
  The lifecycle of a \<open>ft_byte_buffer\<close> as a transition system: the objects that any sequence
  of calls can produce, with any results of the allocator and of the mutex, and the
  invariant all of them satisfy. An argument pair of pointer and length is one C++ code
  can pass: the length fits \<open>ft_size_t\<close> and the pointer is null or points to that many bytes.
\<close>

definition span_ok :: "ptr \<Rightarrow> nat \<Rightarrow> bool" where
  "span_ok p n \<longleftrightarrow> n \<le> FT_SYSTEM_SIZE_MAX \<and> (case p of None \<Rightarrow> True | Some xs \<Rightarrow> n \<le> length xs)"

text \<open>
  The calls on one object. The environment may differ from call to call; \<open>other\<close> is
  another object.
\<close>

inductive bb_step :: "byte_buffer \<Rightarrow> byte_buffer \<Rightarrow> byte_buffer \<Rightarrow> bool" for other :: byte_buffer where
  initialize: "wf_env env \<Longrightarrow> cap \<le> FT_SYSTEM_SIZE_MAX
    \<Longrightarrow> bb_initialize_capacity env b cap fixed = Some (b', e) \<Longrightarrow> bb_step other b b'"
| copy: "wf_env env \<Longrightarrow> bb_initialize_copy env lo same b other = Some (b', e) \<Longrightarrow> bb_step other b b'"
| move_to: "wf_env env \<Longrightarrow> bb_move env lo same b other = Some (b', other', e) \<Longrightarrow> bb_step other b b'"
| move_from: "wf_env env \<Longrightarrow> bb_move env lo same other b = Some (other', b', e) \<Longrightarrow> bb_step other b b'"
| destroy: "wf_env env \<Longrightarrow> bb_destroy env b = (b', e) \<Longrightarrow> bb_step other b b'"
| destruct: "wf_env env \<Longrightarrow> bb_step other b (bb_destructor env b)"
| reserve: "wf_env env \<Longrightarrow> n \<le> FT_SYSTEM_SIZE_MAX
    \<Longrightarrow> bb_reserve env b n = Some (b', e) \<Longrightarrow> bb_step other b b'"
| clear: "wf_env env \<Longrightarrow> bb_clear env b = Some (b', e) \<Longrightarrow> bb_step other b b'"
| set_position: "wf_env env \<Longrightarrow> bb_set_read_position env b n = Some (b', e) \<Longrightarrow> bb_step other b b'"
| consume: "wf_env env \<Longrightarrow> bb_consume env b n = Some (b', e) \<Longrightarrow> bb_step other b b'"
| skip: "wf_env env \<Longrightarrow> bb_skip env b n = Some (b', e) \<Longrightarrow> bb_step other b b'"
| append: "wf_env env \<Longrightarrow> span_ok data n
    \<Longrightarrow> bb_append env b data n = Some (b', e) \<Longrightarrow> bb_step other b b'"
| append_buffer: "wf_env env
    \<Longrightarrow> bb_append_buffer env lo first b other = Some (b', e) \<Longrightarrow> bb_step other b b'"
| prepend_buffer: "wf_env env
    \<Longrightarrow> bb_prepend_buffer env lo first b other = Some (b', e) \<Longrightarrow> bb_step other b b'"
| append_self: "wf_env env \<Longrightarrow> bb_append_self env first b = Some (b', e) \<Longrightarrow> bb_step other b b'"
| prepend_self: "wf_env env \<Longrightarrow> bb_prepend_self env first b = Some (b', e) \<Longrightarrow> bb_step other b b'"
| read: "wf_env env \<Longrightarrow> bb_read env b data n = Some (b', e, out) \<Longrightarrow> bb_step other b b'"
| shrink: "wf_env env \<Longrightarrow> bb_shrink_to_fit env b = Some (b', e) \<Longrightarrow> bb_step other b b'"
| read_varuint: "wf_env env \<Longrightarrow> bb_read_varuint64 env b u = Some (b', e, u') \<Longrightarrow> bb_step other b b'"
| read_varint: "wf_env env \<Longrightarrow> bb_read_varint64 env b i = Some (b', e, i') \<Longrightarrow> bb_step other b b'"
| slice_of: "wf_env env \<Longrightarrow> bb_slice env same other off len b = Some (b', e) \<Longrightarrow> bb_step other b b'"
| enable: "wf_env env \<Longrightarrow> enable_thread_safety env b = Some (b', e) \<Longrightarrow> bb_step other b b'"
| disable: "wf_env env \<Longrightarrow> disable_thread_safety env b = (b', e) \<Longrightarrow> bb_step other b b'"

inductive bb_reachable :: "byte_buffer \<Rightarrow> bool" where
  start: "bb_reachable new_byte_buffer"
| step: "bb_reachable b \<Longrightarrow> bb_reachable other \<Longrightarrow> bb_step other b b' \<Longrightarrow> bb_reachable b'"

text \<open>The invariant: the fields are consistent, and an object that is not live owns nothing.\<close>

definition bb_inv :: "byte_buffer \<Rightarrow> bool" where
  "bb_inv b \<longleftrightarrow> wf_bb b \<and> (bb_initialised_state b \<noteq> Initialised \<longrightarrow> bb_data b = None \<and> \<not> bb_mutex b)"

lemma bb_inv_new [simp]: "bb_inv new_byte_buffer"
  by (simp add: bb_inv_def) (simp add: new_byte_buffer_def)

lemma bb_inv_reset [simp]: "bb_inv ((reset_fields b)\<lparr>bb_initialised_state := s\<rparr>)"
  by (simp add: bb_inv_def reset_fields_def wf_bb_def)

lemma bb_inv_same:
  "bb_inv b \<Longrightarrow> bb_initialised_state b = Initialised \<Longrightarrow> wf_bb b'
    \<Longrightarrow> bb_initialised_state b' = bb_initialised_state b \<Longrightarrow> bb_inv b'"
  by (simp add: bb_inv_def)

subsection \<open>Each call keeps the invariant\<close>

lemma inv_locked:
  assumes "bb_inv b" "locked env b body = Some (b', e)"
    and "\<And>b'. bb_initialised_state b = Initialised \<Longrightarrow> wf_bb b \<Longrightarrow> body = Some (b', e)
      \<Longrightarrow> wf_bb b' \<and> bb_initialised_state b' = bb_initialised_state b"
  shows "bb_inv b'"
  using assms by (auto simp: locked_def bb_inv_def split: if_splits)

lemma inv_initialize:
  "wf_env env \<Longrightarrow> cap \<le> FT_SYSTEM_SIZE_MAX \<Longrightarrow> bb_initialize_capacity env b cap fixed = Some (b', e)
     \<Longrightarrow> bb_inv b'"
  by (auto simp: bb_initialize_capacity_def bb_inv_def reset_fields_def wf_bb_def wf_env_def Let_def
      dest: wf_allocD split: if_splits option.splits)

lemma inv_destroy: "bb_inv b \<Longrightarrow> bb_inv (fst (bb_destroy env b))"
  by (auto simp: bb_destroy_def bb_inv_def reset_fields_def wf_bb_def Let_def split: prod.split)

lemma inv_append_internal:
  assumes "wf_env env" "wf_bb b" "span_ok data n" "append_internal env b data n = Some (b', e)"
  shows "wf_bb b' \<and> bb_initialised_state b' = bb_initialised_state b \<and> bb_mutex b' = bb_mutex b"
proof (cases data)
  case None
  then show ?thesis using assms by (auto simp: append_internal_def split: if_splits)
next
  case (Some xs)
  then have "n \<le> length xs" "n \<le> FT_SYSTEM_SIZE_MAX" using assms(3) by (auto simp: span_ok_def)
  then show ?thesis
    using append_internal_spec [OF assms(1,2), of n xs] assms(4) Some
    by (metis option.inject prod.inject)
qed

lemma inv_copy:
  assumes "wf_env env" "bb_inv b" "bb_inv src" "bb_initialize_copy env lo same b src = Some (b', e)"
  shows "bb_inv b'"
proof -
  let ?p = "if bb_initialised_state b = Initialised then bb_destroy env b else (b, FT_ERR_SUCCESS)"
  have b1: "bb_inv (fst ?p)" "bb_initialised_state (fst ?p) \<noteq> Initialised"
    using assms(2) inv_destroy by auto
  consider (same) "b' = b" | (early) "b' = fst ?p"
    | (gone) "b' = (reset_fields (fst ?p))\<lparr>bb_initialised_state := Destroyed\<rparr>"
    | (run) "bb_initialised_state src = Initialised" "bb_mutex src \<longrightarrow> lo = FT_ERR_SUCCESS"
        "bb_initialize_copy env lo False (fst ?p) src = Some (b', e)"
    using assms(4) b1(2)
    by (cases "bb_initialised_state src")
      (auto simp: bb_initialize_copy_def Let_def split: if_splits prod.splits)
  then show ?thesis
  proof cases
    case run
    have "wf_bb src" using assms(3) by (simp add: bb_inv_def)
    then have "wf_bb b'" "\<not> bb_mutex b'" "bb_initialised_state b' \<noteq> Initialised \<longrightarrow> bb_data b' = None"
      using bb_copy_spec [OF assms(1) _ run(1,2) b1(2)] run(3) by (metis option.inject prod.inject)+
    then show ?thesis by (simp add: bb_inv_def)
  qed (use assms b1 in simp_all)
qed

lemma inv_move:
  assumes "bb_inv b" "bb_inv src" "bb_move env lo same b src = Some r"
  shows "bb_inv (fst r) \<and> bb_inv (fst (snd r))"
proof -
  let ?p = "if bb_initialised_state b = Initialised then bb_destroy env b else (b, FT_ERR_SUCCESS)"
  have b1: "bb_inv (fst ?p)" using assms(1) inv_destroy by auto
  have run: "bb_inv (src\<lparr>bb_initialised_state := Initialised\<rparr>)"
    if "bb_initialised_state src \<noteq> Uninitialised" "bb_initialised_state src \<noteq> Destroyed"
    using assms(2) that by (cases "bb_initialised_state src") (simp_all add: bb_inv_def)
  have r: "r \<in> {(b, src, FT_ERR_SUCCESS), (fst ?p, src, snd ?p), (fst ?p, src, lo),
      ((reset_fields (fst ?p))\<lparr>bb_initialised_state := Destroyed\<rparr>, src, FT_ERR_SUCCESS)}
    \<or> bb_initialised_state src \<noteq> Uninitialised \<and> bb_initialised_state src \<noteq> Destroyed
      \<and> r = (src\<lparr>bb_initialised_state := Initialised\<rparr>,
             (reset_fields src)\<lparr>bb_initialised_state := Destroyed\<rparr>, FT_ERR_SUCCESS)"
    using assms(3) unfolding bb_move_def Let_def case_prod_beta
    by (simp only: option.inject split: if_splits) simp_all
  show ?thesis using r assms(1,2) b1 run by auto
qed

lemma inv_reserve:
  assumes "wf_env env" "bb_inv b" "n \<le> FT_SYSTEM_SIZE_MAX" "bb_reserve env b n = Some (b', e)"
  shows "bb_inv b'"
  using assms(2) assms(4) [unfolded bb_reserve_def]
proof (rule inv_locked)
  fix b' assume "wf_bb b" "reserve_internal env b n = Some (b', e)"
  then show "wf_bb b' \<and> bb_initialised_state b' = bb_initialised_state b"
    using reserve_internal_spec [OF assms(1) _ assms(3)] by (metis option.inject prod.inject)
qed

lemma inv_append:
  assumes "wf_env env" "bb_inv b" "span_ok data n" "bb_append env b data n = Some (b', e)"
  shows "bb_inv b'"
  using assms(2) assms(4) [unfolded bb_append_def]
  by (rule inv_locked) (use inv_append_internal assms in blast)

lemma inv_small_ops:
  assumes "bb_inv b"
  shows "bb_clear env b = Some (b', e) \<Longrightarrow> bb_inv b'"
    "bb_set_read_position env b n = Some (b', e) \<Longrightarrow> bb_inv b'"
    "bb_consume env b n = Some (b', e) \<Longrightarrow> bb_inv b'"
    "bb_skip env b n = Some (b', e) \<Longrightarrow> bb_inv b'"
    "bb_read env b data n = Some (b', e, out) \<Longrightarrow> bb_inv b'"
    "enable_thread_safety env b = Some (b', e) \<Longrightarrow> bb_inv b'"
    "disable_thread_safety env b = (b', e) \<Longrightarrow> bb_inv b'"
  using assms
  by (auto simp: bb_clear_def bb_set_read_position_def bb_consume_def bb_skip_def bb_read_def
      read_internal_def enable_thread_safety_def disable_thread_safety_def locked_def bb_inv_def
      wf_bb_def Let_def split: if_splits option.splits)

lemma inv_append_buffer:
  assumes "wf_env env" "bb_inv b" "bb_inv src" "bb_append_buffer env lo first b src = Some (b', e)"
  shows "bb_inv b'"
proof -
  have wf: "wf_bb b" "wf_bb src" using assms by (auto simp: bb_inv_def)
  have "bb_initialised_state b = Initialised"
    using assms(4) by (auto simp: bb_append_buffer_def split: if_splits)
  moreover have "b' = b \<or> append_buffer_body env b src = Some (b', e)"
    using assms(4) by (auto simp: bb_append_buffer_def split: if_splits)
  ultimately show ?thesis
    using append_buffer_body_spec [OF assms(1) wf] assms(2) bb_inv_same
    by (metis option.inject prod.inject)
qed

lemma inv_prepend_buffer:
  assumes "wf_env env" "bb_inv b" "bb_inv src" "bb_prepend_buffer env lo first b src = Some (b', e)"
  shows "bb_inv b'"
proof -
  have wf: "wf_bb b" "wf_bb src" using assms by (auto simp: bb_inv_def)
  have "bb_initialised_state b = Initialised"
    using assms(4) by (auto simp: bb_prepend_buffer_def split: if_splits)
  moreover have "b' = b \<or> prepend_buffer_body env b src = Some (b', e)"
    using assms(4) by (auto simp: bb_prepend_buffer_def split: if_splits)
  ultimately show ?thesis
    using prepend_buffer_body_spec [OF assms(1) wf] assms(2) bb_inv_same
    by (metis option.inject prod.inject)
qed

lemma inv_append_self:
  assumes "wf_env env" "bb_inv b" "bb_append_self env first b = Some (b', e)"
  shows "bb_inv b'"
proof -
  obtain snap e1 where c: "bb_initialize_copy env (env_lock env) False new_byte_buffer b = Some (snap, e1)"
    using assms(3) by (auto simp: bb_append_self_def split: if_splits option.splits)
  have "bb_inv snap" using inv_copy [OF assms(1) bb_inv_new assms(2) c] .
  moreover have "b' = b \<or> bb_append_buffer env FT_ERR_SUCCESS first b snap = Some (b', e)"
    using assms(3) c by (auto simp: bb_append_self_def split: if_splits)
  ultimately show ?thesis using inv_append_buffer [OF assms(1,2)] assms(2) by blast
qed

lemma inv_prepend_self:
  assumes "wf_env env" "bb_inv b" "bb_prepend_self env first b = Some (b', e)"
  shows "bb_inv b'"
proof -
  obtain snap e1 where c: "bb_initialize_copy env (env_lock env) False new_byte_buffer b = Some (snap, e1)"
    using assms(3) by (auto simp: bb_prepend_self_def split: if_splits option.splits)
  have "bb_inv snap" using inv_copy [OF assms(1) bb_inv_new assms(2) c] .
  moreover have "b' = b \<or> bb_prepend_buffer env FT_ERR_SUCCESS first b snap = Some (b', e)"
    using assms(3) c by (auto simp: bb_prepend_self_def split: if_splits)
  ultimately show ?thesis using inv_prepend_buffer [OF assms(1,2)] assms(2) by blast
qed

lemma inv_shrink:
  assumes "wf_env env" "bb_inv b" "bb_shrink_to_fit env b = Some (b', e)"
  shows "bb_inv b'"
  using assms(2) assms(3) [unfolded bb_shrink_to_fit_def]
proof (rule inv_locked)
  fix b' assume "wf_bb b"
    "(if bb_capacity b > bb_size b
        then if bb_size b = 0
             then Some (b\<lparr>bb_data := None, bb_capacity := 0\<rparr>, FT_ERR_SUCCESS)
             else case env_realloc env (bb_data b) (bb_size b) of
                    None \<Rightarrow> Some (b, FT_ERR_NO_MEMORY)
                  | Some new_data \<Rightarrow>
                      Some (b\<lparr>bb_data := Some new_data, bb_capacity := bb_size b\<rparr>, FT_ERR_SUCCESS)
        else Some (b, FT_ERR_SUCCESS)) = Some (b', e)"
  then show "wf_bb b' \<and> bb_initialised_state b' = bb_initialised_state b"
    using wf_reallocD(1) [OF assms(1)]
    by (auto simp: wf_bb_def split: if_splits option.splits)
qed

lemma inv_slice:
  assumes "wf_env env" "bb_inv b" "bb_inv src" "bb_slice env same src off len b = Some (b', e)"
  shows "bb_inv b'"
proof (cases "off \<le> bb_size src \<and> len \<le> bb_size src - off \<and> b' \<noteq> b")
  case False
  then have "b' = b"
    using assms(4) by (auto simp: bb_slice_def not_le split: if_splits)
  then show ?thesis using assms(2) by simp
next
  case True
  have le: "len \<le> FT_SYSTEM_SIZE_MAX" using True assms(3) by (auto simp: bb_inv_def wf_bb_def)
  have span: "span_ok (map_option (drop off) (bb_data src)) len"
    using True assms(3) le by (cases "bb_data src") (auto simp: span_ok_def bb_inv_def wf_bb_def)
  obtain t1 e1 where t1: "bb_initialize_capacity env new_byte_buffer len True = Some (t1, e1)"
    using assms(4) True by (auto simp: bb_slice_def split: if_splits option.splits)
  have i1: "bb_inv t1" using inv_initialize [OF assms(1) le t1] .
  obtain t2 e2 where t2: "(if e1 = FT_ERR_SUCCESS \<and> len > 0
      then bb_append env t1 (map_option (drop off) (bb_data src)) len else Some (t1, e1)) = Some (t2, e2)"
    and copy: "bb_initialize_copy env FT_ERR_SUCCESS False b t2 = Some (b', e)"
    using assms(4) True t1 by (auto simp: bb_slice_def split: if_splits option.splits)
  have "bb_inv t2" using t2 i1 inv_append [OF assms(1) i1 span] by (auto split: if_splits)
  then show ?thesis using inv_copy [OF assms(1,2) _ copy] by simp
qed

lemma decode_varint_consumed:
  "decode_varint_loop bs acc s i = Some (v, j) \<Longrightarrow> i < j \<and> j \<le> i + length bs"
  by (induction bs arbitrary: acc s i) (fastforce simp: Let_def split: if_splits)+

lemma inv_read_varuint:
  assumes "bb_inv b" "bb_read_varuint64 env b u = Some (b', e, u')"
  shows "bb_inv b'"
proof (cases "b' = b")
  case False
  then obtain d v j where d: "bb_data b = Some d" "bb_initialised_state b = Initialised"
    "decode_varuint_loop (take (bb_size b - bb_read_position b) (drop (bb_read_position b) d)) 0 0 0
      = Some (v, j)" "b' = b\<lparr>bb_read_position := bb_read_position b + j\<rparr>"
    using assms(2)
    by (auto simp: bb_read_varuint64_def buffer_decode_varuint64_def split: if_splits option.splits)
  then have "bb_read_position b + j \<le> bb_size b"
    using decode_varuint_consumed [OF d(3)] assms(1) by (auto simp: bb_inv_def wf_bb_def)
  then show ?thesis
    using assms(1) d wf_read_position bb_inv_same [OF assms(1) d(2)] by (auto simp: bb_inv_def)
qed (use assms in simp)

lemma inv_read_varint:
  assumes "bb_inv b" "bb_read_varint64 env b u = Some (b', e, u')"
  shows "bb_inv b'"
proof (cases "b' = b")
  case False
  then obtain d v j where d: "bb_data b = Some d" "bb_initialised_state b = Initialised"
    "decode_varint_loop (take (bb_size b - bb_read_position b) (drop (bb_read_position b) d)) 0 0 0
      = Some (v, j)" "b' = b\<lparr>bb_read_position := bb_read_position b + j\<rparr>"
    using assms(2)
    by (auto simp: bb_read_varint64_def buffer_decode_varint64_def split: if_splits option.splits)
  then have "bb_read_position b + j \<le> bb_size b"
    using decode_varint_consumed [OF d(3)] assms(1) by (auto simp: bb_inv_def wf_bb_def)
  then show ?thesis
    using assms(1) d wf_read_position bb_inv_same [OF assms(1) d(2)] by (auto simp: bb_inv_def)
qed (use assms in simp)

lemma inv_destructor: "bb_inv (bb_destructor env b)" if "bb_inv b"
  using that inv_destroy [OF that] by (auto simp: bb_destructor_def)

lemma bb_step_inv:
  assumes "bb_step other b b'" "bb_inv b" "bb_inv other"
  shows "bb_inv b'"
  using assms(1)
proof cases
  case (move_to env lo same other' e)
  then show ?thesis using inv_move [OF assms(2,3)] by fastforce
next
  case (move_from env lo same other' e)
  then show ?thesis using inv_move [OF assms(3,2)] by fastforce
next
  case (destroy env e)
  then show ?thesis using inv_destroy [OF assms(2), of env] by simp
next
  case initialize
  then show ?thesis using assms(2,3) by (blast intro: inv_initialize)
next
  case copy
  then show ?thesis using assms(2,3) by (blast intro: inv_copy)
next
  case destruct
  then show ?thesis using inv_destructor [OF assms(2)] by simp
next
  case reserve
  then show ?thesis using assms(2,3) by (blast intro: inv_reserve)
next
  case clear
  then show ?thesis using assms(2,3) by (blast intro: inv_small_ops(1))
next
  case set_position
  then show ?thesis using assms(2,3) by (blast intro: inv_small_ops(2))
next
  case consume
  then show ?thesis using assms(2,3) by (blast intro: inv_small_ops(3))
next
  case skip
  then show ?thesis using assms(2,3) by (blast intro: inv_small_ops(4))
next
  case append
  then show ?thesis using assms(2,3) by (blast intro: inv_append)
next
  case append_buffer
  then show ?thesis using assms(2,3) by (blast intro: inv_append_buffer)
next
  case prepend_buffer
  then show ?thesis using assms(2,3) by (blast intro: inv_prepend_buffer)
next
  case append_self
  then show ?thesis using assms(2,3) by (blast intro: inv_append_self)
next
  case prepend_self
  then show ?thesis using assms(2,3) by (blast intro: inv_prepend_self)
next
  case read
  then show ?thesis using assms(2,3) by (blast intro: inv_small_ops(5))
next
  case shrink
  then show ?thesis using assms(2,3) by (blast intro: inv_shrink)
next
  case read_varuint
  then show ?thesis using assms(2,3) by (blast intro: inv_read_varuint)
next
  case read_varint
  then show ?thesis using assms(2,3) by (blast intro: inv_read_varint)
next
  case slice_of
  then show ?thesis using assms(2,3) by (blast intro: inv_slice)
next
  case enable
  then show ?thesis using assms(2,3) by (blast intro: inv_small_ops(6))
next
  case disable
  then show ?thesis using assms(2,3) by (blast intro: inv_small_ops(7))
qed

lemma bb_reachable_inv: "bb_reachable b \<Longrightarrow> bb_inv b"
  by (induction rule: bb_reachable.induct) (auto intro: bb_step_inv)

subsection \<open>Main property\<close>

text \<open>
  C1: Consistency over the whole lifecycle: after any sequence of calls, in any order and
  with any allocator and mutex results, the block is as long as the recorded capacity, the
  read position is at most the size and the size at most the capacity, and an object that is
  not live owns neither a block nor a mutex.
\<close>

theorem byte_buffer_lifecycle_safe:
  assumes "bb_reachable b"
  shows "block_size (bb_data b) = bb_capacity b \<and> bb_read_position b \<le> bb_size b
    \<and> bb_size b \<le> bb_capacity b \<and> bb_capacity b \<le> FT_SYSTEM_SIZE_MAX
    \<and> (bb_initialised_state b \<noteq> Initialised \<longrightarrow> bb_data b = None \<and> \<not> bb_mutex b)"
  using bb_reachable_inv [OF assms] by (simp add: bb_inv_def wf_bb_def)

theorem byte_buffer_lifecycle_safe_witness:
  "\<exists>b. bb_initialize_capacity demo_env new_byte_buffer 3 True = Some (b, FT_ERR_SUCCESS)
    \<and> block_size (bb_data b) = bb_capacity b \<and> bb_read_position b \<le> bb_size b
    \<and> bb_size b \<le> bb_capacity b \<and> bb_capacity b \<le> FT_SYSTEM_SIZE_MAX
    \<and> (bb_initialised_state b \<noteq> Initialised \<longrightarrow> bb_data b = None \<and> \<not> bb_mutex b)"
proof -
  let ?b = "\<lparr>bb_data = Some [0, 0, 0], bb_size = 0, bb_capacity = 3, bb_read_position = 0,
    bb_fixed_capacity = True, bb_initialised_state = Initialised, bb_mutex = False\<rparr>"
  have run: "bb_initialize_capacity demo_env new_byte_buffer 3 True = Some (?b, FT_ERR_SUCCESS)"
    by code_simp
  have "bb_step new_byte_buffer new_byte_buffer ?b"
    by (rule bb_step.initialize [OF wf_demo_env _ run]) (simp add: FT_SYSTEM_SIZE_MAX_def)
  then have "bb_reachable ?b" by (rule bb_reachable.step [OF bb_reachable.start bb_reachable.start])
  then show ?thesis using run byte_buffer_lifecycle_safe by blast
qed

end
