(* ===== verification/Template_Vector.thy ===== *)
theory Template_Vector
  imports Libft_Errno
begin

text \<open>
  \<open>ft_vector\<close> of \<^verbatim>\<open>src/Modules/Template/vector.hpp\<close>, for element types whose construction
  from a value cannot fail (the first branch of \<open>construct_element_unlocked\<close>, which covers
  every scalar type). The object is a record: the constructed elements, the capacity, the
  number of bytes behind \<open>_data\<close>, whether \<open>_data\<close> is the inline buffer, the lifecycle state
  and whether a mutex is attached. An operation returns the new object and the code it
  leaves in \<open>_last_error\<close>; \<^term>\<open>None\<close> is a call that does not return normally, because the
  lifecycle check aborts or an element is accessed outside the allocated bytes or after
  the block was freed.
\<close>

subsection \<open>State\<close>

record 'a ft_vector =
  vec_items :: "'a list"
  vec_capacity :: nat
  vec_block :: nat
  vec_small :: bool
  vec_mutex :: bool
  vec_state :: class_state

text \<open>
  What the vector needs from the rest of the library: the element size, whether
  \<open>cma_malloc\<close> grants a number of bytes, and the results of the mutex operations.
\<close>

record vector_env =
  ve_element_size :: nat
  ve_malloc :: "nat \<Rightarrow> bool"
  ve_lock :: ft_err
  ve_mutex_new :: bool
  ve_mutex_init :: ft_err
  ve_mutex_destroy :: ft_err

type_synonym 'a vec_result = "('a ft_vector \<times> ft_err) option"

definition SMALL_CAPACITY :: nat where
  "SMALL_CAPACITY = 8"

text \<open>The lock that every accessor takes when a mutex is attached.\<close>

definition vec_lock_internal :: "vector_env \<Rightarrow> 'a ft_vector \<Rightarrow> ft_err" where
  "vec_lock_internal env v = (if vec_mutex v then ve_lock env else FT_ERR_SUCCESS)"

definition vec_locked :: "vector_env \<Rightarrow> 'a ft_vector \<Rightarrow> 'a vec_result \<Rightarrow> 'a vec_result" where
  "vec_locked env v body =
     (if vec_lock_internal env v \<noteq> FT_ERR_SUCCESS then Some (v, vec_lock_internal env v) else body)"

text \<open>\<open>errno_abort_if_uninitialised_or_destroyed\<close>.\<close>

definition vec_live :: "'a ft_vector \<Rightarrow> 'r option \<Rightarrow> 'r option" where
  "vec_live v body = (if vec_state v \<noteq> Initialised then None else body)"

definition reset_to_small_buffer :: "vector_env \<Rightarrow> 'a ft_vector \<Rightarrow> 'a ft_vector" where
  "reset_to_small_buffer env v =
     v\<lparr>vec_small := True, vec_capacity := SMALL_CAPACITY,
       vec_block := SMALL_CAPACITY * ve_element_size env\<rparr>"

text \<open>
  Writing the elements up to index \<open>n\<close> stays inside the bytes behind \<open>_data\<close>.
\<close>

definition vec_fits :: "vector_env \<Rightarrow> nat \<Rightarrow> nat \<Rightarrow> bool" where
  "vec_fits env block n \<longleftrightarrow> n * ve_element_size env \<le> block"

subsection \<open>Growing\<close>

text \<open>
  The request \<open>new_capacity * sizeof(ElementType)\<close> wraps at 64 bits. The elements are then
  constructed in the new block one by one.
\<close>

definition reserve_internal_unlocked :: "vector_env \<Rightarrow> 'a ft_vector \<Rightarrow> nat \<Rightarrow> 'a vec_result" where
  "reserve_internal_unlocked env v new_capacity =
     (if new_capacity \<le> vec_capacity v then Some (v, FT_ERR_SUCCESS)
      else let bytes = (new_capacity * ve_element_size env) mod 2 ^ 64
           in if \<not> ve_malloc env bytes then Some (v, FT_ERR_NO_MEMORY)
              else if \<not> vec_fits env bytes (length (vec_items v)) then None
              else Some (v\<lparr>vec_small := False, vec_capacity := new_capacity, vec_block := bytes\<rparr>,
                         FT_ERR_SUCCESS))"

subsection \<open>Lifecycle\<close>

definition vec_constructor :: "vector_env \<Rightarrow> nat \<Rightarrow> 'a ft_vector option" where
  "vec_constructor env initial_capacity =
     (let v = reset_to_small_buffer env
                \<lparr>vec_items = [], vec_capacity = 0, vec_block = 0, vec_small = False,
                 vec_mutex = False, vec_state = Uninitialised\<rparr>
      in if initial_capacity > SMALL_CAPACITY
         then map_option fst (reserve_internal_unlocked env v initial_capacity)
         else Some v)"

definition vec_initialize :: "vector_env \<Rightarrow> 'a ft_vector \<Rightarrow> 'a vec_result" where
  "vec_initialize env v =
     (if vec_state v = Initialised then None
      else Some ((reset_to_small_buffer env v)\<lparr>vec_items := [], vec_state := Initialised\<rparr>,
                 FT_ERR_SUCCESS))"

definition vec_disable_thread_safety :: "vector_env \<Rightarrow> 'a ft_vector \<Rightarrow> 'a ft_vector \<times> ft_err" where
  "vec_disable_thread_safety env v =
     (if vec_state v \<noteq> Initialised \<and> vec_state v \<noteq> Destroyed then (v, FT_ERR_INVALID_STATE)
      else if \<not> vec_mutex v then (v, FT_ERR_SUCCESS)
      else (v\<lparr>vec_mutex := False\<rparr>, ve_mutex_destroy env))"

definition vec_enable_thread_safety :: "vector_env \<Rightarrow> 'a ft_vector \<Rightarrow> 'a vec_result" where
  "vec_enable_thread_safety env v =
     vec_live v
       (if vec_mutex v then Some (v, FT_ERR_SUCCESS)
        else if \<not> ve_mutex_new env then Some (v, FT_ERR_NO_MEMORY)
        else if ve_mutex_init env \<noteq> FT_ERR_SUCCESS then Some (v, ve_mutex_init env)
        else Some (v\<lparr>vec_mutex := True\<rparr>, FT_ERR_SUCCESS))"

definition vec_destroy :: "vector_env \<Rightarrow> 'a ft_vector \<Rightarrow> 'a ft_vector \<times> ft_err" where
  "vec_destroy env v =
     (if vec_state v \<noteq> Initialised then (v, FT_ERR_SUCCESS)
      else let (v1, first_error) = vec_disable_thread_safety env v
           in ((reset_to_small_buffer env v1)\<lparr>vec_items := [], vec_state := Destroyed\<rparr>, first_error))"

definition vec_destructor :: "vector_env \<Rightarrow> 'a ft_vector \<Rightarrow> 'a ft_vector" where
  "vec_destructor env v =
     (let v1 = fst (vec_destroy env v)
      in if vec_mutex v1 then fst (vec_disable_thread_safety env v1) else v1)"

text \<open>
  \<open>move\<close>: \<open>lo\<close> is the result of locking the source; the target is destroyed first when it
  is live. The inline buffer is copied element by element, a heap block changes owner.
\<close>

definition vec_move ::
  "vector_env \<Rightarrow> ft_err \<Rightarrow> bool \<Rightarrow> 'a ft_vector \<Rightarrow> 'a ft_vector
     \<Rightarrow> ('a ft_vector \<times> 'a ft_vector \<times> ft_err) option" where
  "vec_move env lo same v other =
     (if same then Some (v, other, FT_ERR_SUCCESS)
      else if vec_state other = Uninitialised then None
      else
        let (v1, destroy_error) =
              (if vec_state v = Initialised then vec_destroy env v else (v, FT_ERR_SUCCESS))
        in if destroy_error \<noteq> FT_ERR_SUCCESS then Some (v1, other, destroy_error)
           else if vec_state other = Destroyed
           then Some (v1\<lparr>vec_state := Destroyed\<rparr>, other, FT_ERR_SUCCESS)
           else case vec_initialize env v1 of
             None \<Rightarrow> None
           | Some (v2, e) \<Rightarrow>
               if vec_mutex other \<and> lo \<noteq> FT_ERR_SUCCESS
               then Some (v2\<lparr>vec_state := Destroyed\<rparr>, other, lo)
               else if vec_small other \<and> \<not> vec_fits env (vec_block v2) (length (vec_items other))
               then None
               else let v3 = (if vec_small other then v2\<lparr>vec_items := vec_items other\<rparr>
                              else v2\<lparr>vec_items := vec_items other, vec_small := False,
                                      vec_capacity := vec_capacity other,
                                      vec_block := vec_block other\<rparr>)
                    in Some (v3\<lparr>vec_mutex := vec_mutex other\<rparr>,
                             (if vec_small other then other else reset_to_small_buffer env other)
                               \<lparr>vec_items := [], vec_mutex := False, vec_state := Destroyed\<rparr>,
                             FT_ERR_SUCCESS))"

definition vec_copy_from ::
  "vector_env \<Rightarrow> ft_err \<Rightarrow> bool \<Rightarrow> 'a ft_vector \<Rightarrow> 'a ft_vector \<Rightarrow> 'a vec_result" where
  "vec_copy_from env lo same v other =
     (if same then Some (v, FT_ERR_SUCCESS)
      else vec_locked env v
        (if vec_mutex other \<and> lo \<noteq> FT_ERR_SUCCESS then Some (v, lo)
         else case reserve_internal_unlocked env
                     ((reset_to_small_buffer env v)\<lparr>vec_items := []\<rparr>) (vec_capacity other) of
           None \<Rightarrow> None
         | Some (v1, e) \<Rightarrow>
             if e \<noteq> FT_ERR_SUCCESS then Some (v1, e)
             else if \<not> vec_fits env (vec_block v1) (length (vec_items other)) then None
             else Some (v1\<lparr>vec_items := vec_items other\<rparr>, FT_ERR_SUCCESS)))"

definition vec_initialize_copy ::
  "vector_env \<Rightarrow> ft_err \<Rightarrow> bool \<Rightarrow> 'a ft_vector \<Rightarrow> 'a ft_vector \<Rightarrow> 'a vec_result" where
  "vec_initialize_copy env lo same v other =
     (case vec_initialize env v of
        None \<Rightarrow> None
      | Some (v1, e) \<Rightarrow>
          if e \<noteq> FT_ERR_SUCCESS then Some (v1, e)
          else vec_copy_from env lo same v1 (if same then v1 else other))"

subsection \<open>Observers\<close>

definition vec_is_initialised :: "'a ft_vector \<Rightarrow> class_state" where
  "vec_is_initialised v = vec_state v"

definition vec_is_thread_safe :: "'a ft_vector \<Rightarrow> bool option" where
  "vec_is_thread_safe v = vec_live v (Some (vec_mutex v))"

text \<open>An observer that cannot take the lock returns its default and reports the lock error.\<close>

definition vec_observe :: "vector_env \<Rightarrow> 'a ft_vector \<Rightarrow> 'r \<Rightarrow> 'r \<Rightarrow> ('r \<times> ft_err) option" where
  "vec_observe env v fallback result =
     vec_live v
       (if vec_lock_internal env v \<noteq> FT_ERR_SUCCESS then Some (fallback, vec_lock_internal env v)
        else Some (result, FT_ERR_SUCCESS))"

definition vec_size :: "vector_env \<Rightarrow> 'a ft_vector \<Rightarrow> (nat \<times> ft_err) option" where
  "vec_size env v = vec_observe env v 0 (length (vec_items v))"

definition vec_capacity_of :: "vector_env \<Rightarrow> 'a ft_vector \<Rightarrow> (nat \<times> ft_err) option" where
  "vec_capacity_of env v = vec_observe env v 0 (vec_capacity v)"

definition vec_empty :: "vector_env \<Rightarrow> 'a ft_vector \<Rightarrow> (bool \<times> ft_err) option" where
  "vec_empty env v = vec_observe env v True (vec_items v = [])"

text \<open>\<open>begin\<close> and \<open>end\<close>, as indices from \<open>_data\<close>; a failed lock only changes the error code.\<close>

definition vec_begin :: "vector_env \<Rightarrow> 'a ft_vector \<Rightarrow> nat \<times> ft_err" where
  "vec_begin env v = (0, vec_lock_internal env v)"

definition vec_end :: "vector_env \<Rightarrow> 'a ft_vector \<Rightarrow> nat \<times> ft_err" where
  "vec_end env v = (length (vec_items v), vec_lock_internal env v)"

text \<open>
  \<open>operator[]\<close>: reading through the returned reference, where \<open>default_instance\<close> is the
  static object the operator falls back to, and assigning through it, which leaves the
  vector alone when the reference is to that static object.
\<close>

definition vec_get :: "vector_env \<Rightarrow> 'a \<Rightarrow> 'a ft_vector \<Rightarrow> nat \<Rightarrow> 'a \<times> ft_err" where
  "vec_get env default_instance v index =
     (if vec_lock_internal env v \<noteq> FT_ERR_SUCCESS then (default_instance, vec_lock_internal env v)
      else if index \<ge> length (vec_items v) then (default_instance, FT_ERR_OUT_OF_RANGE)
      else (vec_items v ! index, FT_ERR_SUCCESS))"

definition vec_set :: "vector_env \<Rightarrow> 'a ft_vector \<Rightarrow> nat \<Rightarrow> 'a \<Rightarrow> 'a ft_vector \<times> ft_err" where
  "vec_set env v index x =
     (if vec_lock_internal env v \<noteq> FT_ERR_SUCCESS then (v, vec_lock_internal env v)
      else if index \<ge> length (vec_items v) then (v, FT_ERR_OUT_OF_RANGE)
      else (v\<lparr>vec_items := (vec_items v)[index := x]\<rparr>, FT_ERR_SUCCESS))"

subsection \<open>Modifiers\<close>

text \<open>
  A value argument is a reference: to an object outside the vector, or to one of the
  vector's own elements, which dangles once the heap block it lives in has been freed.
\<close>

datatype 'a value_ref = Outside 'a | Own nat

definition deref :: "'a ft_vector \<Rightarrow> 'a ft_vector \<Rightarrow> 'a value_ref \<Rightarrow> 'a option" where
  "deref old new r =
     (case r of
        Outside x \<Rightarrow> Some x
      | Own i \<Rightarrow> if i < length (vec_items old) \<and> (vec_small old \<or> \<not> vec_capacity old < vec_capacity new)
                 then Some (vec_items old ! i) else None)"

text \<open>The growth step of \<open>push_back\<close> and \<open>insert\<close>: a full vector doubles its capacity.\<close>

definition vec_grow :: "vector_env \<Rightarrow> 'a ft_vector \<Rightarrow> 'a vec_result" where
  "vec_grow env v =
     (if length (vec_items v) \<ge> vec_capacity v
      then reserve_internal_unlocked env v (if vec_capacity v > 0 then vec_capacity v * 2 else 1)
      else Some (v, FT_ERR_SUCCESS))"

definition vec_push_back ::
  "vector_env \<Rightarrow> 'a ft_vector \<Rightarrow> 'a value_ref \<Rightarrow> 'a vec_result" where
  "vec_push_back env v value_ref =
     vec_live v (vec_locked env v
       (case vec_grow env v of
          None \<Rightarrow> None
        | Some (v1, reserve_error) \<Rightarrow>
            if reserve_error \<noteq> FT_ERR_SUCCESS then Some (v1, reserve_error)
            else if \<not> vec_fits env (vec_block v1) (length (vec_items v1) + 1) then None
            else case deref v v1 value_ref of
                   None \<Rightarrow> None
                 | Some x \<Rightarrow> Some (v1\<lparr>vec_items := vec_items v1 @ [x]\<rparr>, FT_ERR_SUCCESS)))"

definition vec_pop_back :: "vector_env \<Rightarrow> 'a ft_vector \<Rightarrow> 'a vec_result" where
  "vec_pop_back env v =
     vec_live v (vec_locked env v
       (Some (if vec_items v \<noteq> [] then v\<lparr>vec_items := butlast (vec_items v)\<rparr> else v, FT_ERR_SUCCESS)))"

definition vec_clear :: "vector_env \<Rightarrow> 'a ft_vector \<Rightarrow> 'a vec_result" where
  "vec_clear env v = vec_locked env v (Some (v\<lparr>vec_items := []\<rparr>, FT_ERR_SUCCESS))"

definition vec_reserve :: "vector_env \<Rightarrow> 'a ft_vector \<Rightarrow> nat \<Rightarrow> 'a vec_result" where
  "vec_reserve env v new_capacity = vec_locked env v (reserve_internal_unlocked env v new_capacity)"

text \<open>
  \<open>resize\<close> reads its argument once for every new element, after the growth; the slots it fills lie
  behind the elements, so the argument does not change meanwhile.
\<close>

definition vec_resize :: "vector_env \<Rightarrow> 'a ft_vector \<Rightarrow> nat \<Rightarrow> 'a value_ref \<Rightarrow> 'a vec_result" where
  "vec_resize env v new_size value_ref =
     vec_locked env v
       (if new_size \<le> length (vec_items v)
        then Some (v\<lparr>vec_items := take new_size (vec_items v)\<rparr>, FT_ERR_SUCCESS)
        else case reserve_internal_unlocked env v new_size of
               None \<Rightarrow> None
             | Some (v1, reserve_error) \<Rightarrow>
                 if reserve_error \<noteq> FT_ERR_SUCCESS then Some (v1, reserve_error)
                 else if \<not> vec_fits env (vec_block v1) new_size then None
                 else case deref v v1 value_ref of
                        None \<Rightarrow> None
                      | Some x \<Rightarrow> Some (v1\<lparr>vec_items := vec_items v1
                                      @ replicate (new_size - length (vec_items v1)) x\<rparr>, FT_ERR_SUCCESS))"

text \<open>
  The shifting loops of \<open>insert\<close>, \<open>erase\<close> and \<open>release_at\<close>, on the slots of the block:
  \<open>insert_shift\<close> opens a gap at \<open>index\<close> from the end, \<open>erase_shift\<close> closes one.
\<close>

function insert_shift :: "'a list \<Rightarrow> nat \<Rightarrow> nat \<Rightarrow> 'a list" where
  "insert_shift xs index move_index =
     (if move_index > index
      then insert_shift (xs[move_index := xs ! (move_index - 1)]) index (move_index - 1)
      else xs)"
  by pat_completeness auto
termination
  by (relation "measure (\<lambda>(xs, index, m). m - index)") auto

function erase_shift :: "'a list \<Rightarrow> nat \<Rightarrow> nat \<Rightarrow> 'a list" where
  "erase_shift xs shift_index sz =
     (if shift_index < sz - 1
      then erase_shift (xs[shift_index := xs ! (shift_index + 1)]) (shift_index + 1) sz
      else xs)"
  by pat_completeness auto
termination
  by (relation "measure (\<lambda>(xs, s, sz). sz - s)") auto

declare insert_shift.simps [simp del] erase_shift.simps [simp del]

text \<open>
  Iterators are indices from \<open>_data\<close>. The extra slot that \<open>insert\<close> writes is the last
  element of the list the loop works on; its content is never read. The argument is read after the
  loop: one that refers to an element of a block that stayed is then the content of that slot after the
  shift, one that refers to the inline buffer that was left is the old element.
\<close>

definition vec_insert ::
  "vector_env \<Rightarrow> 'a ft_vector \<Rightarrow> nat \<Rightarrow> 'a value_ref \<Rightarrow> ('a ft_vector \<times> nat \<times> ft_err) option" where
  "vec_insert env v index value_ref =
     (let sz = length (vec_items v)
      in if vec_lock_internal env v \<noteq> FT_ERR_SUCCESS then Some (v, sz, vec_lock_internal env v)
         else if index > sz then Some (v, sz, FT_ERR_OUT_OF_RANGE)
         else case vec_grow env v of
                None \<Rightarrow> None
              | Some (v1, reserve_error) \<Rightarrow>
                  if reserve_error \<noteq> FT_ERR_SUCCESS then Some (v1, sz, reserve_error)
                  else if \<not> vec_fits env (vec_block v1) (sz + 1) then None
                  else case deref v v1 value_ref of
                         None \<Rightarrow> None
                       | Some y \<Rightarrow>
                           let slots = insert_shift (vec_items v1 @ [y]) index sz;
                               x = (case value_ref of
                                      Outside z \<Rightarrow> z
                                    | Own i \<Rightarrow> if vec_capacity v < vec_capacity v1 then y else slots ! i)
                           in Some (v1\<lparr>vec_items := slots[index := x]\<rparr>, index, FT_ERR_SUCCESS))"

definition vec_erase ::
  "vector_env \<Rightarrow> 'a ft_vector \<Rightarrow> nat \<Rightarrow> ('a ft_vector \<times> nat \<times> ft_err)" where
  "vec_erase env v index =
     (let sz = length (vec_items v)
      in if vec_lock_internal env v \<noteq> FT_ERR_SUCCESS then (v, sz, vec_lock_internal env v)
         else if index \<ge> sz then (v, sz, FT_ERR_OUT_OF_RANGE)
         else (v\<lparr>vec_items := take (sz - 1) (erase_shift (vec_items v) index sz)\<rparr>,
               if index \<ge> sz - 1 then sz - 1 else index, FT_ERR_SUCCESS))"

text \<open>\<open>release_at\<close> returns the element it detached, or a default one.\<close>

definition vec_release_at :: "vector_env \<Rightarrow> 'a \<Rightarrow> 'a ft_vector \<Rightarrow> nat \<Rightarrow> 'a ft_vector \<times> 'a" where
  "vec_release_at env fallback v index =
     (let sz = length (vec_items v)
      in if vec_lock_internal env v \<noteq> FT_ERR_SUCCESS then (v, fallback)
         else if index \<ge> sz then (v, fallback)
         else (v\<lparr>vec_items := take (sz - 1) (erase_shift (vec_items v) index sz)\<rparr>,
               vec_items v ! index))"

end
