(* ===== verification/Template_Vector_Spec.thy ===== *)
theory Template_Vector_Spec
  imports Template_Vector
begin

text \<open>
  What \<open>ft_vector\<close> promises: it refines the list of its elements. The invariant \<open>wf_vec\<close>
  relates the element count, the capacity and the bytes behind \<open>_data\<close>; under it no
  operation touches memory outside the block. The contract of the allocator
  (\<open>wf_vector_env\<close>) is that no block reaches half of the address space. Clients that only
  append use the locale \<open>growable\<close>.
\<close>

subsection \<open>Invariant\<close>

definition wf_vector_env :: "vector_env \<Rightarrow> bool" where
  "wf_vector_env env \<longleftrightarrow>
     0 < ve_element_size env \<and> SMALL_CAPACITY * ve_element_size env < 2 ^ 63
     \<and> (\<forall>n. ve_malloc env n \<longrightarrow> n < 2 ^ 63)"

definition wf_vec :: "vector_env \<Rightarrow> 'a ft_vector \<Rightarrow> bool" where
  "wf_vec env v \<longleftrightarrow>
     length (vec_items v) \<le> vec_capacity v \<and> vec_fits env (vec_block v) (vec_capacity v)
     \<and> 0 < vec_capacity v \<and> vec_block v < 2 ^ 63"

definition vec_usable :: "vector_env \<Rightarrow> 'a ft_vector \<Rightarrow> bool" where
  "vec_usable env v \<longleftrightarrow>
     wf_vector_env env \<and> wf_vec env v \<and> vec_state v = Initialised
     \<and> vec_lock_internal env v = FT_ERR_SUCCESS"

lemma vec_usableD:
  assumes "vec_usable env v"
  shows "wf_vector_env env" "wf_vec env v" "vec_state v = Initialised"
    "vec_lock_internal env v = FT_ERR_SUCCESS"
  using assms by (auto simp: vec_usable_def)

lemma vec_run [simp]:
  assumes "vec_usable env v"
  shows "vec_live v body = body" "vec_locked env v vbody = vbody"
  using assms by (auto simp: vec_live_def vec_locked_def vec_usable_def)

lemma vec_usable_update:
  "vec_usable env v \<Longrightarrow> wf_vec env v' \<Longrightarrow> vec_state v' = vec_state v \<Longrightarrow> vec_mutex v' = vec_mutex v
     \<Longrightarrow> vec_usable env v'"
  by (simp add: vec_usable_def vec_lock_internal_def)

lemma vec_fits_mono: "vec_fits env b n \<Longrightarrow> m \<le> n \<Longrightarrow> vec_fits env b m"
  unfolding vec_fits_def by (meson le_trans mult_le_mono1)

lemma wf_vec_items:
  "wf_vec env v \<Longrightarrow> length xs \<le> vec_capacity v \<Longrightarrow> wf_vec env (v\<lparr>vec_items := xs\<rparr>)"
  by (simp add: wf_vec_def)

lemma wf_reset_small:
  "wf_vector_env env \<Longrightarrow> length (vec_items v) \<le> SMALL_CAPACITY \<Longrightarrow> wf_vec env (reset_to_small_buffer env v)"
  by (simp add: wf_vec_def wf_vector_env_def reset_to_small_buffer_def vec_fits_def SMALL_CAPACITY_def)

lemma reset_small_simps [simp]:
  "vec_items (reset_to_small_buffer env v) = vec_items v"
  "vec_state (reset_to_small_buffer env v) = vec_state v"
  "vec_mutex (reset_to_small_buffer env v) = vec_mutex v"
  "vec_capacity (reset_to_small_buffer env v) = SMALL_CAPACITY"
  "vec_small (reset_to_small_buffer env v)"
  by (simp_all add: reset_to_small_buffer_def)

lemma wf_vec_meta [simp]:
  "wf_vec env (v\<lparr>vec_state := s\<rparr>) = wf_vec env v" "wf_vec env (v\<lparr>vec_mutex := m\<rparr>) = wf_vec env v"
  by (simp_all add: wf_vec_def)

lemma wf_vec_empty_items: "wf_vec env v \<Longrightarrow> wf_vec env (v\<lparr>vec_items := []\<rparr>)"
  by (simp add: wf_vec_def)

subsection \<open>Growing\<close>

lemma reserve_internal_unlocked_spec:
  assumes env: "wf_vector_env env" and v: "wf_vec env v"
    and n: "n * ve_element_size env < 2 ^ 64"
  obtains v' e where "reserve_internal_unlocked env v n = Some (v', e)" "wf_vec env v'"
    "vec_items v' = vec_items v" "vec_state v' = vec_state v" "vec_mutex v' = vec_mutex v"
    "e = FT_ERR_SUCCESS \<longrightarrow> n \<le> vec_capacity v'" "e \<noteq> FT_ERR_SUCCESS \<longrightarrow> v' = v \<and> e = FT_ERR_NO_MEMORY"
    "n \<le> vec_capacity v \<or> ve_malloc env (n * ve_element_size env) \<longrightarrow> e = FT_ERR_SUCCESS"
proof (cases "n \<le> vec_capacity v \<or> \<not> ve_malloc env (n * ve_element_size env)")
  case True
  then show ?thesis
    using that [of v "if n \<le> vec_capacity v then FT_ERR_SUCCESS else FT_ERR_NO_MEMORY"] v n
    by (auto simp: reserve_internal_unlocked_def)
next
  case False
  let ?v = "v\<lparr>vec_small := False, vec_capacity := n, vec_block := n * ve_element_size env\<rparr>"
  have le: "length (vec_items v) \<le> n" using False v by (simp add: wf_vec_def)
  have "n * ve_element_size env < 2 ^ 63" using False env by (simp add: wf_vector_env_def)
  then have "wf_vec env ?v" using False le v by (simp add: wf_vec_def vec_fits_def)
  moreover have "reserve_internal_unlocked env v n = Some (?v, FT_ERR_SUCCESS)"
    using False n le vec_fits_mono [of env "n * ve_element_size env" n]
    by (simp add: reserve_internal_unlocked_def vec_fits_def)
  ultimately show ?thesis using that [of ?v FT_ERR_SUCCESS] by simp
qed

text \<open>Doubling a capacity that fits its block cannot wrap the request.\<close>

lemma vec_double_no_wrap:
  assumes "wf_vector_env env" "wf_vec env v"
  shows "vec_capacity v * 2 * ve_element_size env < 2 ^ 64"
  using assms by (auto simp: wf_vec_def vec_fits_def)

text \<open>The growth step that \<open>push_back\<close> and \<open>insert\<close> share: afterwards there is room for one more.\<close>

lemma vec_grow_spec:
  assumes u: "vec_usable env v"
  obtains w e where "vec_grow env v = Some (w, e)"
    "wf_vec env w" "vec_items w = vec_items v" "vec_state w = vec_state v" "vec_mutex w = vec_mutex v"
    "e = FT_ERR_SUCCESS \<longrightarrow> length (vec_items v) + 1 \<le> vec_capacity w
       \<and> vec_fits env (vec_block w) (length (vec_items v) + 1)"
    "e \<noteq> FT_ERR_SUCCESS \<longrightarrow> w = v \<and> e = FT_ERR_NO_MEMORY"
    "length (vec_items v) < vec_capacity v
       \<or> ve_malloc env (vec_capacity v * 2 * ve_element_size env) \<longrightarrow> e = FT_ERR_SUCCESS"
proof -
  note uD = vec_usableD [OF u]
  have cap: "0 < vec_capacity v" using uD by (simp add: wf_vec_def)
  have fits: "vec_fits env (vec_block w) n" if "wf_vec env w" "n \<le> vec_capacity w" for n w
    using that vec_fits_mono by (auto simp: wf_vec_def)
  show ?thesis
  proof (cases "length (vec_items v) \<ge> vec_capacity v")
    case True
    obtain v1 e1 where r: "reserve_internal_unlocked env v (vec_capacity v * 2) = Some (v1, e1)"
      "wf_vec env v1" "vec_items v1 = vec_items v" "vec_state v1 = vec_state v" "vec_mutex v1 = vec_mutex v"
      "e1 = FT_ERR_SUCCESS \<longrightarrow> vec_capacity v * 2 \<le> vec_capacity v1"
      "e1 \<noteq> FT_ERR_SUCCESS \<longrightarrow> v1 = v \<and> e1 = FT_ERR_NO_MEMORY"
      "vec_capacity v * 2 \<le> vec_capacity v \<or> ve_malloc env (vec_capacity v * 2 * ve_element_size env)
         \<longrightarrow> e1 = FT_ERR_SUCCESS"
      using reserve_internal_unlocked_spec [OF uD(1,2) vec_double_no_wrap [OF uD(1,2)]] by blast
    have "e1 = FT_ERR_SUCCESS \<longrightarrow> length (vec_items v) + 1 \<le> vec_capacity v1"
      using r(6) cap uD(2) unfolding wf_vec_def by linarith
    then show ?thesis
      using that [of v1 e1] True r cap fits [of v1 "length (vec_items v) + 1"] by (auto simp: vec_grow_def)
  next
    case False
    then show ?thesis
      using that [of v FT_ERR_SUCCESS] uD(2) fits [of v "length (vec_items v) + 1"] by (simp add: vec_grow_def)
  qed
qed

lemma vec_push_back_spec:
  assumes u: "vec_usable env v"
  obtains v' e where "vec_push_back env v (Outside x) = Some (v', e)" "vec_usable env v'"
    "e = FT_ERR_SUCCESS \<longrightarrow> vec_items v' = vec_items v @ [x]"
    "e \<noteq> FT_ERR_SUCCESS \<longrightarrow> v' = v \<and> e = FT_ERR_NO_MEMORY"
    "length (vec_items v) < vec_capacity v
       \<or> ve_malloc env (vec_capacity v * 2 * ve_element_size env) \<longrightarrow> e = FT_ERR_SUCCESS"
proof (rule vec_grow_spec [OF u])
  fix w e
  assume g: "vec_grow env v = Some (w, e)"
    and w: "wf_vec env w" "vec_items w = vec_items v" "vec_state w = vec_state v" "vec_mutex w = vec_mutex v"
    and room: "e = FT_ERR_SUCCESS \<longrightarrow> length (vec_items v) + 1 \<le> vec_capacity w
       \<and> vec_fits env (vec_block w) (length (vec_items v) + 1)"
    and err: "e \<noteq> FT_ERR_SUCCESS \<longrightarrow> w = v \<and> e = FT_ERR_NO_MEMORY"
    and ok: "length (vec_items v) < vec_capacity v
       \<or> ve_malloc env (vec_capacity v * 2 * ve_element_size env) \<longrightarrow> e = FT_ERR_SUCCESS"
  let ?w = "w\<lparr>vec_items := vec_items v @ [x]\<rparr>"
  have run: "vec_push_back env v (Outside x) = (if e \<noteq> FT_ERR_SUCCESS then Some (w, e) else Some (?w, FT_ERR_SUCCESS))"
    unfolding vec_push_back_def vec_run [OF u] Let_def g
    using room w by (simp add: deref_def)
  show ?thesis
  proof (cases "e = FT_ERR_SUCCESS")
    case True
    then have "wf_vec env ?w" using room w(1) by (intro wf_vec_items) auto
    then show ?thesis
      using that [of ?w FT_ERR_SUCCESS] run True w vec_usable_update [OF u, of ?w] by simp
  next
    case False
    then show ?thesis using that [of v e] run u err ok by simp
  qed
qed

lemma vec_resize_spec:
  assumes u: "vec_usable env v" and n: "n * ve_element_size env < 2 ^ 64"
  obtains v' e where "vec_resize env v n (Outside x) = Some (v', e)" "vec_usable env v'"
    "e = FT_ERR_SUCCESS \<longrightarrow> vec_items v' = take n (vec_items v) @ replicate (n - length (vec_items v)) x"
    "e \<noteq> FT_ERR_SUCCESS \<longrightarrow> v' = v \<and> e = FT_ERR_NO_MEMORY"
    "n \<le> vec_capacity v \<or> ve_malloc env (n * ve_element_size env) \<longrightarrow> e = FT_ERR_SUCCESS"
proof (cases "n \<le> length (vec_items v)")
  case True
  let ?v = "v\<lparr>vec_items := take n (vec_items v)\<rparr>"
  have "wf_vec env ?v" using vec_usableD(2) [OF u] by (intro wf_vec_items) (auto simp: wf_vec_def)
  then show ?thesis
    using that [of ?v FT_ERR_SUCCESS] True vec_usable_update [OF u, of ?v] u by (simp add: vec_resize_def deref_def)
next
  case False
  note uD = vec_usableD [OF u]
  obtain v1 e1 where r: "reserve_internal_unlocked env v n = Some (v1, e1)" "wf_vec env v1"
    "vec_items v1 = vec_items v" "vec_state v1 = vec_state v" "vec_mutex v1 = vec_mutex v"
    "e1 = FT_ERR_SUCCESS \<longrightarrow> n \<le> vec_capacity v1" "e1 \<noteq> FT_ERR_SUCCESS \<longrightarrow> v1 = v \<and> e1 = FT_ERR_NO_MEMORY"
    "n \<le> vec_capacity v \<or> ve_malloc env (n * ve_element_size env) \<longrightarrow> e1 = FT_ERR_SUCCESS"
    using reserve_internal_unlocked_spec [OF uD(1,2) n] by blast
  let ?v = "v1\<lparr>vec_items := vec_items v @ replicate (n - length (vec_items v)) x\<rparr>"
  show ?thesis
  proof (cases "e1 = FT_ERR_SUCCESS")
    case True
    then have "wf_vec env ?v" using r False by (intro wf_vec_items) auto
    moreover have "vec_fits env (vec_block v1) n"
      using r(2,6) True vec_fits_mono by (auto simp: wf_vec_def)
    ultimately show ?thesis
      using that [of ?v FT_ERR_SUCCESS] r False True vec_usable_update [OF u, of ?v] u
      by (simp add: vec_resize_def deref_def)
  next
    case e: False
    then show ?thesis using that [of v e1] r False u by (simp add: vec_resize_def deref_def)
  qed
qed

subsection \<open>Inserting and erasing\<close>

lemma length_shift [simp]:
  "length (insert_shift xs i m) = length xs" "length (erase_shift xs i n) = length xs"
proof -
  show "length (insert_shift xs i m) = length xs"
    by (induction xs i m rule: insert_shift.induct) (subst insert_shift.simps, simp)
  show "length (erase_shift xs i n) = length xs"
    by (induction xs i n rule: erase_shift.induct) (subst erase_shift.simps, simp)
qed

lemma nth_insert_shift:
  assumes "m < length xs" "k < length xs"
  shows "insert_shift xs i m ! k = (if i < k \<and> k \<le> m then xs ! (k - 1) else xs ! k)"
  using assms
proof (induction xs i m rule: insert_shift.induct)
  case (1 xs i m)
  then show ?case
    by (subst insert_shift.simps) (auto simp: nth_list_update)
qed

lemma nth_erase_shift:
  assumes "n = length xs" "k < length xs"
  shows "erase_shift xs i n ! k = (if i \<le> k \<and> k < n - 1 then xs ! (k + 1) else xs ! k)"
  using assms
proof (induction xs i n rule: erase_shift.induct)
  case (1 xs i n)
  then show ?case
    by (subst erase_shift.simps) (auto simp: nth_list_update not_less_eq_eq dest: le_antisym)
qed

lemma insert_shift_result:
  assumes "i \<le> length xs"
  shows "(insert_shift (xs @ [x]) i (length xs))[i := x] = take i xs @ x # drop i xs"
proof (rule nth_equalityI)
  show "length ((insert_shift (xs @ [x]) i (length xs))[i := x]) = length (take i xs @ x # drop i xs)"
    using assms by simp
next
  fix k assume "k < length ((insert_shift (xs @ [x]) i (length xs))[i := x])"
  then have k: "k \<le> length xs" by simp
  consider "k < i" | "k = i" | "i < k" by linarith
  then show "(insert_shift (xs @ [x]) i (length xs))[i := x] ! k = (take i xs @ x # drop i xs) ! k"
    using k assms by cases (auto simp: nth_insert_shift nth_append nth_Cons')
qed

lemma erase_shift_result:
  assumes "i < length xs"
  shows "take (length xs - 1) (erase_shift xs i (length xs)) = take i xs @ drop (i + 1) xs"
proof (rule nth_equalityI)
  fix k assume "k < length (take (length xs - 1) (erase_shift xs i (length xs)))"
  then have "k < length xs - 1" by simp
  then show "take (length xs - 1) (erase_shift xs i (length xs)) ! k = (take i xs @ drop (i + 1) xs) ! k"
    using assms by (simp add: nth_erase_shift nth_append)
qed (use assms in simp)

lemma vec_insert_spec:
  assumes u: "vec_usable env v" and i: "i \<le> length (vec_items v)"
  obtains v' k e where "vec_insert env v i (Outside x) = Some (v', k, e)" "vec_usable env v'"
    "e = FT_ERR_SUCCESS \<longrightarrow> k = i \<and> vec_items v' = take i (vec_items v) @ x # drop i (vec_items v)"
    "e \<noteq> FT_ERR_SUCCESS \<longrightarrow> v' = v \<and> e = FT_ERR_NO_MEMORY"
proof (rule vec_grow_spec [OF u])
  fix w e
  assume g: "vec_grow env v = Some (w, e)"
    and w: "wf_vec env w" "vec_items w = vec_items v" "vec_state w = vec_state v" "vec_mutex w = vec_mutex v"
    and room: "e = FT_ERR_SUCCESS \<longrightarrow> length (vec_items v) + 1 \<le> vec_capacity w
       \<and> vec_fits env (vec_block w) (length (vec_items v) + 1)"
    and err: "e \<noteq> FT_ERR_SUCCESS \<longrightarrow> w = v \<and> e = FT_ERR_NO_MEMORY"
  let ?w = "w\<lparr>vec_items := take i (vec_items v) @ x # drop i (vec_items v)\<rparr>"
  have run: "vec_insert env v i (Outside x) = (if e \<noteq> FT_ERR_SUCCESS then Some (w, length (vec_items v), e)
      else Some (?w, i, FT_ERR_SUCCESS))"
    unfolding vec_insert_def Let_def g
    using room w i vec_usableD(4) [OF u] by (simp add: insert_shift_result deref_def)
  show ?thesis
  proof (cases "e = FT_ERR_SUCCESS")
    case True
    then have "wf_vec env ?w" using room w(1) i by (intro wf_vec_items) auto
    then show ?thesis
      using that [of ?w i FT_ERR_SUCCESS] run True w vec_usable_update [OF u, of ?w] by simp
  next
    case False
    then show ?thesis using that [of v "length (vec_items v)" e] run u err by simp
  qed
qed

lemma vec_erase_spec:
  assumes u: "vec_usable env v" and i: "i < length (vec_items v)"
  shows "vec_erase env v i
     = (v\<lparr>vec_items := take i (vec_items v) @ drop (i + 1) (vec_items v)\<rparr>, i, FT_ERR_SUCCESS)"
    "vec_usable env (v\<lparr>vec_items := take i (vec_items v) @ drop (i + 1) (vec_items v)\<rparr>)"
proof -
  show "vec_erase env v i
     = (v\<lparr>vec_items := take i (vec_items v) @ drop (i + 1) (vec_items v)\<rparr>, i, FT_ERR_SUCCESS)"
    using i vec_usableD(4) [OF u] erase_shift_result [OF i] by (auto simp: vec_erase_def Let_def)
  have "wf_vec env (v\<lparr>vec_items := take i (vec_items v) @ drop (i + 1) (vec_items v)\<rparr>)"
    using vec_usableD(2) [OF u] i by (intro wf_vec_items) (auto simp: wf_vec_def)
  then show "vec_usable env (v\<lparr>vec_items := take i (vec_items v) @ drop (i + 1) (vec_items v)\<rparr>)"
    by (rule vec_usable_update [OF u]) simp_all
qed

subsection \<open>Copying and moving\<close>

lemma vec_initialize_spec:
  assumes "wf_vector_env env" "vec_state v \<noteq> Initialised"
  shows "\<exists>v'. vec_initialize env v = Some (v', FT_ERR_SUCCESS) \<and> wf_vec env v' \<and> vec_items v' = []
    \<and> vec_state v' = Initialised \<and> vec_mutex v' = vec_mutex v \<and> vec_small v'
    \<and> vec_capacity v' = SMALL_CAPACITY \<and> vec_block v' = SMALL_CAPACITY * ve_element_size env"
proof -
  have "wf_vec env ((reset_to_small_buffer env v)\<lparr>vec_items := []\<rparr>)"
    using wf_reset_small [OF assms(1), of "v\<lparr>vec_items := []\<rparr>"]
    by (simp add: reset_to_small_buffer_def wf_vec_def)
  then have "wf_vec env ((reset_to_small_buffer env v)\<lparr>vec_items := [], vec_state := Initialised\<rparr>)"
    by (simp add: wf_vec_def)
  then show ?thesis
    using assms(2) by (simp add: vec_initialize_def reset_to_small_buffer_def)
qed

text \<open>
  Moving from a live vector that shares the element type's environment: the target gets
  the elements and the mutex, the source is destroyed and empty.
\<close>

lemma vec_move_spec:
  assumes env: "wf_vector_env env" and o: "wf_vec env other" "vec_state other = Initialised"
    and small: "vec_small other \<longrightarrow> vec_capacity other = SMALL_CAPACITY"
    and lo: "vec_mutex other \<longrightarrow> lo = FT_ERR_SUCCESS"
    and d: "vec_state v = Initialised \<longrightarrow> snd (vec_destroy env v) = FT_ERR_SUCCESS"
  shows "\<exists>v' other'. vec_move env lo False v other = Some (v', other', FT_ERR_SUCCESS)
    \<and> wf_vec env v' \<and> vec_items v' = vec_items other \<and> vec_state v' = Initialised
    \<and> vec_mutex v' = vec_mutex other
    \<and> vec_state other' = Destroyed \<and> vec_items other' = [] \<and> \<not> vec_mutex other' \<and> vec_small other'"
proof -
  define v1 where "v1 = (if vec_state v = Initialised then fst (vec_destroy env v) else v)"
  have pair: "(if vec_state v = Initialised then vec_destroy env v else (v, FT_ERR_SUCCESS)) = (v1, FT_ERR_SUCCESS)"
    using d by (auto simp: v1_def prod_eq_iff)
  have "vec_state v1 \<noteq> Initialised"
    by (auto simp: v1_def vec_destroy_def Let_def split: prod.splits)
  then obtain v2 where v2: "vec_initialize env v1 = Some (v2, FT_ERR_SUCCESS)" "wf_vec env v2"
    "vec_items v2 = []" "vec_state v2 = Initialised" "vec_small v2" "vec_capacity v2 = SMALL_CAPACITY"
    "vec_block v2 = SMALL_CAPACITY * ve_element_size env"
    using vec_initialize_spec [OF env] by blast
  have fits: "vec_small other \<longrightarrow> vec_fits env (vec_block v2) (length (vec_items other))"
    using o(1) small by (auto simp: v2 wf_vec_def vec_fits_def)
  let ?v = "(if vec_small other then v2\<lparr>vec_items := vec_items other\<rparr>
      else v2\<lparr>vec_items := vec_items other, vec_small := False, vec_capacity := vec_capacity other,
              vec_block := vec_block other\<rparr>)\<lparr>vec_mutex := vec_mutex other\<rparr>"
  have "wf_vec env ?v" using o(1) small v2 by (auto simp: wf_vec_def)
  moreover have "vec_move env lo False v other = Some (?v,
      (if vec_small other then other else reset_to_small_buffer env other)
        \<lparr>vec_items := [], vec_mutex := False, vec_state := Destroyed\<rparr>, FT_ERR_SUCCESS)"
    unfolding vec_move_def pair using o(2) lo fits by (auto simp: v2 Let_def)
  ultimately show ?thesis using v2 by auto
qed

lemma vec_copy_from_spec:
  assumes u: "vec_usable env v" and o: "wf_vec env other"
    and lo: "vec_mutex other \<longrightarrow> lo = FT_ERR_SUCCESS"
  obtains v' e where "vec_copy_from env lo False v other = Some (v', e)" "vec_usable env v'"
    "e = FT_ERR_SUCCESS \<longrightarrow> vec_items v' = vec_items other"
    "e \<noteq> FT_ERR_SUCCESS \<longrightarrow> vec_items v' = [] \<and> e = FT_ERR_NO_MEMORY"
proof -
  note uD = vec_usableD [OF u]
  let ?r = "(reset_to_small_buffer env v)\<lparr>vec_items := []\<rparr>"
  have wf: "wf_vec env ?r"
    using wf_reset_small [OF uD(1), of "v\<lparr>vec_items := []\<rparr>"]
    by (simp add: reset_to_small_buffer_def wf_vec_def)
  have n: "vec_capacity other * ve_element_size env < 2 ^ 64"
    using o by (auto simp: wf_vec_def vec_fits_def)
  obtain v1 e1 where r: "reserve_internal_unlocked env ?r (vec_capacity other) = Some (v1, e1)"
    "wf_vec env v1" "vec_items v1 = []" "vec_state v1 = vec_state v" "vec_mutex v1 = vec_mutex v"
    "e1 = FT_ERR_SUCCESS \<longrightarrow> vec_capacity other \<le> vec_capacity v1"
    "e1 \<noteq> FT_ERR_SUCCESS \<longrightarrow> v1 = ?r \<and> e1 = FT_ERR_NO_MEMORY"
    by (rule reserve_internal_unlocked_spec [OF uD(1) wf n]) simp
  let ?v = "v1\<lparr>vec_items := vec_items other\<rparr>"
  have le: "e1 = FT_ERR_SUCCESS \<longrightarrow> length (vec_items other) \<le> vec_capacity v1"
    using r(6) o by (auto simp: wf_vec_def)
  then have fits: "e1 = FT_ERR_SUCCESS \<longrightarrow> vec_fits env (vec_block v1) (length (vec_items other))"
    using r(2) vec_fits_mono by (auto simp: wf_vec_def)
  have run: "vec_copy_from env lo False v other
      = (if e1 \<noteq> FT_ERR_SUCCESS then Some (v1, e1) else Some (?v, FT_ERR_SUCCESS))"
    using r(1) lo fits u by (auto simp: vec_copy_from_def)
  have "vec_usable env v1" using vec_usable_update [OF u] r by simp
  moreover have "vec_usable env ?v" if "e1 = FT_ERR_SUCCESS"
    using vec_usable_update [OF u, of ?v] wf_vec_items [OF r(2)] le that r by simp
  ultimately show ?thesis
    using that [of v1 e1] that [of ?v FT_ERR_SUCCESS] run r(3,7) by (cases "e1 = FT_ERR_SUCCESS") auto
qed

subsection \<open>Appending clients\<close>

text \<open>
  The interface of a client that only appends: a sequence that accepts an element at its
  end or refuses it and stays as it is. Appending a whole list, element by element, then
  appends all of it or stops with a prefix and the error.
\<close>

fun push_all :: "('v \<Rightarrow> 'a \<Rightarrow> ('v \<times> ft_err) option) \<Rightarrow> 'v \<Rightarrow> 'a list \<Rightarrow> ('v \<times> ft_err) option" where
  "push_all push v [] = Some (v, FT_ERR_SUCCESS)"
| "push_all push v (x # xs) =
     (case push v x of
        None \<Rightarrow> None
      | Some (v', e) \<Rightarrow> if e \<noteq> FT_ERR_SUCCESS then Some (v', e) else push_all push v' xs)"

locale growable =
  fixes push :: "'v \<Rightarrow> 'a \<Rightarrow> ('v \<times> ft_err) option"
    and elems :: "'v \<Rightarrow> 'a list"
    and ok :: "'v \<Rightarrow> bool"
  assumes push_law: "ok v \<Longrightarrow> \<exists>v' e. push v x = Some (v', e) \<and> ok v'
      \<and> (if e = FT_ERR_SUCCESS then elems v' = elems v @ [x] else v' = v \<and> e = FT_ERR_NO_MEMORY)"
begin

lemma push_all_law:
  "ok v \<Longrightarrow> \<exists>v' e. push_all push v xs = Some (v', e) \<and> ok v'
     \<and> (\<exists>n\<le>length xs. elems v' = elems v @ take n xs \<and> (e = FT_ERR_SUCCESS \<longrightarrow> n = length xs))
     \<and> (e = FT_ERR_SUCCESS \<or> e = FT_ERR_NO_MEMORY)"
proof (induction xs arbitrary: v)
  case (Cons x xs)
  obtain v1 e1 where p: "push v x = Some (v1, e1)" "ok v1"
    "if e1 = FT_ERR_SUCCESS then elems v1 = elems v @ [x] else v1 = v \<and> e1 = FT_ERR_NO_MEMORY"
    using push_law [OF Cons.prems] by blast
  show ?case
  proof (cases "e1 = FT_ERR_SUCCESS")
    case True
    obtain v' e n where r: "push_all push v1 xs = Some (v', e)" "ok v'" "n \<le> length xs"
      "elems v' = elems v1 @ take n xs" "e = FT_ERR_SUCCESS \<longrightarrow> n = length xs"
      "e = FT_ERR_SUCCESS \<or> e = FT_ERR_NO_MEMORY"
      using Cons.IH [OF p(2)] by blast
    have "push_all push v (x # xs) = Some (v', e)" "elems v' = elems v @ take (Suc n) (x # xs)"
      using p True r by simp_all
    moreover have "Suc n \<le> length (x # xs)" "e = FT_ERR_SUCCESS \<longrightarrow> Suc n = length (x # xs)"
      using r by simp_all
    ultimately show ?thesis using r by blast
  next
    case False
    then show ?thesis using p by (auto intro: exI [of _ 0])
  qed
qed simp

end

interpretation vec: growable "\<lambda>v x. vec_push_back env v (Outside x)" vec_items "vec_usable env" for env
proof
  fix v :: "'a ft_vector" and x
  assume "vec_usable env v"
  then show "\<exists>v' e. vec_push_back env v (Outside x) = Some (v', e) \<and> vec_usable env v'
      \<and> (if e = FT_ERR_SUCCESS then vec_items v' = vec_items v @ [x]
          else v' = v \<and> e = FT_ERR_NO_MEMORY)"
    using vec_push_back_spec [of env v x] by metis
qed

text \<open>
  Appending needs at most twice the final element count: a vector that grew only by
  \<open>push_back\<close> never asks for more, so with that much memory it never refuses.
\<close>

definition vec_slim :: "'a ft_vector \<Rightarrow> bool" where
  "vec_slim v \<longleftrightarrow> vec_capacity v \<le> max SMALL_CAPACITY (2 * length (vec_items v))"

definition grants :: "vector_env \<Rightarrow> nat \<Rightarrow> bool" where
  "grants env n \<longleftrightarrow> (\<forall>k \<le> n * ve_element_size env. ve_malloc env k)"

lemma vec_push_back_slim:
  assumes "vec_usable env v" "vec_slim v" "vec_push_back env v (Outside x) = Some (v', FT_ERR_SUCCESS)"
  shows "vec_slim v'"
  using assms vec_usableD(2) [OF assms(1)]
  by (auto simp: vec_push_back_def vec_grow_def reserve_internal_unlocked_def deref_def
      vec_slim_def wf_vec_def Let_def split: if_splits option.splits)

lemma vec_push_all_success:
  assumes "vec_usable env v" "vec_slim v" "grants env (2 * (length (vec_items v) + length xs))"
  shows "\<exists>v'. push_all (\<lambda>v x. vec_push_back env v (Outside x)) v xs = Some (v', FT_ERR_SUCCESS) \<and> vec_usable env v'
    \<and> vec_slim v' \<and> vec_items v' = vec_items v @ xs"
  using assms
proof (induction xs arbitrary: v)
  case (Cons x xs)
  have room: "length (vec_items v) < vec_capacity v
      \<or> ve_malloc env (vec_capacity v * 2 * ve_element_size env)"
  proof (cases "length (vec_items v) < vec_capacity v")
    case False
    then have "vec_capacity v * 2 \<le> 2 * (length (vec_items v) + length (x # xs))"
      using vec_usableD(2) [OF Cons.prems(1)] by (simp add: wf_vec_def)
    then have "vec_capacity v * 2 * ve_element_size env
        \<le> 2 * (length (vec_items v) + length (x # xs)) * ve_element_size env"
      by (rule mult_le_mono1)
    then show ?thesis using Cons.prems(3) by (simp add: grants_def)
  qed simp
  obtain v1 where v1: "vec_push_back env v (Outside x) = Some (v1, FT_ERR_SUCCESS)" "vec_usable env v1"
    "vec_items v1 = vec_items v @ [x]"
    using vec_push_back_spec [OF Cons.prems(1), of x] room by metis
  moreover have "vec_slim v1" using vec_push_back_slim [OF Cons.prems(1,2) v1(1)] .
  ultimately show ?case using Cons.IH [of v1] Cons.prems(3) by simp
qed simp

end
