(* ===== verification/Template_Vector_Steps.thy ===== *)
theory Template_Vector_Steps
  imports Template_Vector_Spec
begin

text \<open>
  The objects that sequences of \<open>ft_vector\<close> calls can produce, for an element type of
  \<open>es\<close> bytes, with any results of the allocator and the mutex, and the invariant all of
  them satisfy. Requested sizes are those whose byte count fits \<open>ft_size_t\<close>; what the code
  does with larger ones is shown at the end, with the other defects the model exposes.
\<close>

definition vec_env_ok :: "nat \<Rightarrow> vector_env \<Rightarrow> bool" where
  "vec_env_ok es env \<longleftrightarrow> wf_vector_env env \<and> ve_element_size env = es"

inductive vec_step :: "nat \<Rightarrow> 'a ft_vector \<Rightarrow> 'a ft_vector \<Rightarrow> 'a ft_vector \<Rightarrow> bool"
  for es :: nat and other :: "'a ft_vector" where
  initialize: "vec_env_ok es env \<Longrightarrow> vec_initialize env v = Some (v', e) \<Longrightarrow> vec_step es other v v'"
| destroy: "vec_env_ok es env \<Longrightarrow> vec_destroy env v = (v', e) \<Longrightarrow> vec_step es other v v'"
| destruct: "vec_env_ok es env \<Longrightarrow> vec_step es other v (vec_destructor env v)"
| move_to: "vec_env_ok es env \<Longrightarrow> vec_move env lo same v other = Some (v', other', e)
    \<Longrightarrow> vec_step es other v v'"
| move_from: "vec_env_ok es env \<Longrightarrow> vec_move env lo same other v = Some (other', v', e)
    \<Longrightarrow> vec_step es other v v'"
| copy: "vec_env_ok es env \<Longrightarrow> vec_copy_from env lo same v other = Some (v', e) \<Longrightarrow> vec_step es other v v'"
| push_back: "vec_env_ok es env \<Longrightarrow> vec_push_back env v r = Some (v', e) \<Longrightarrow> vec_step es other v v'"
| pop_back: "vec_env_ok es env \<Longrightarrow> vec_pop_back env v = Some (v', e) \<Longrightarrow> vec_step es other v v'"
| clear: "vec_env_ok es env \<Longrightarrow> vec_clear env v = Some (v', e) \<Longrightarrow> vec_step es other v v'"
| reserve: "vec_env_ok es env \<Longrightarrow> n * es < 2 ^ 64 \<Longrightarrow> vec_reserve env v n = Some (v', e)
    \<Longrightarrow> vec_step es other v v'"
| resize: "vec_env_ok es env \<Longrightarrow> n * es < 2 ^ 64 \<Longrightarrow> vec_resize env v n r = Some (v', e)
    \<Longrightarrow> vec_step es other v v'"
| assign: "vec_env_ok es env \<Longrightarrow> vec_set env v i x = (v', e) \<Longrightarrow> vec_step es other v v'"
| insert: "vec_env_ok es env \<Longrightarrow> vec_insert env v i r = Some (v', k, e) \<Longrightarrow> vec_step es other v v'"
| erase: "vec_env_ok es env \<Longrightarrow> vec_erase env v i = (v', k, e) \<Longrightarrow> vec_step es other v v'"
| release: "vec_env_ok es env \<Longrightarrow> vec_release_at env d v i = (v', x) \<Longrightarrow> vec_step es other v v'"
| enable: "vec_env_ok es env \<Longrightarrow> vec_enable_thread_safety env v = Some (v', e) \<Longrightarrow> vec_step es other v v'"
| disable: "vec_env_ok es env \<Longrightarrow> vec_disable_thread_safety env v = (v', e) \<Longrightarrow> vec_step es other v v'"

inductive vec_reachable :: "nat \<Rightarrow> 'a ft_vector \<Rightarrow> bool" for es :: nat where
  start: "vec_env_ok es env \<Longrightarrow> vec_constructor env 0 = Some v \<Longrightarrow> vec_reachable es v"
| step: "vec_reachable es v \<Longrightarrow> vec_reachable es other \<Longrightarrow> vec_step es other v v' \<Longrightarrow> vec_reachable es v'"

definition vec_inv :: "nat \<Rightarrow> 'a ft_vector \<Rightarrow> bool" where
  "vec_inv es v \<longleftrightarrow>
     length (vec_items v) \<le> vec_capacity v \<and> vec_capacity v * es \<le> vec_block v
     \<and> 0 < vec_capacity v \<and> vec_block v < 2 ^ 63
     \<and> (vec_small v \<longrightarrow> vec_capacity v = SMALL_CAPACITY)"

lemma vec_inv_wf: "vec_env_ok es env \<Longrightarrow> vec_inv es v \<Longrightarrow> wf_vec env v"
  by (simp add: vec_inv_def wf_vec_def vec_fits_def vec_env_ok_def)

lemma vec_inv_meta [simp]:
  "vec_inv es (v\<lparr>vec_state := s\<rparr>) = vec_inv es v" "vec_inv es (v\<lparr>vec_mutex := m\<rparr>) = vec_inv es v"
  by (simp_all add: vec_inv_def)

lemma vec_inv_items: "vec_inv es v \<Longrightarrow> length xs \<le> vec_capacity v \<Longrightarrow> vec_inv es (v\<lparr>vec_items := xs\<rparr>)"
  by (simp add: vec_inv_def)

lemma vec_inv_reset:
  "vec_env_ok es env \<Longrightarrow> length (vec_items v) \<le> SMALL_CAPACITY \<Longrightarrow> vec_inv es (reset_to_small_buffer env v)"
  by (simp add: vec_inv_def vec_env_ok_def wf_vector_env_def reset_to_small_buffer_def SMALL_CAPACITY_def)

lemma vec_inv_reset_Nil:
  assumes "vec_env_ok es env"
  shows "vec_inv es ((reset_to_small_buffer env v)\<lparr>vec_items := []\<rparr>)"
  using vec_inv_reset [OF assms, of "v\<lparr>vec_items := []\<rparr>"]
  by (simp add: vec_inv_def reset_to_small_buffer_def)

lemma vec_inv_reset_state:
  "vec_env_ok es env \<Longrightarrow> vec_inv es ((reset_to_small_buffer env v)\<lparr>vec_items := [], vec_state := s\<rparr>)"
  using vec_inv_reset_Nil [of es env v] by (simp add: vec_inv_def)

lemma inv_reserve_internal:
  assumes env: "vec_env_ok es env" and inv: "vec_inv es v" and n: "n * es < 2 ^ 64"
    and r: "reserve_internal_unlocked env v n = Some (v', e)"
  shows "vec_inv es v' \<and> vec_items v' = vec_items v \<and> (e = FT_ERR_SUCCESS \<longrightarrow> n \<le> vec_capacity v')"
proof -
  have "wf_vector_env env" "ve_element_size env = es" using env by (auto simp: vec_env_ok_def)
  then show ?thesis
    using inv n r
    by (auto simp: reserve_internal_unlocked_def vec_inv_def wf_vector_env_def Let_def
        split: if_splits)
qed

lemma inv_grow:
  assumes env: "vec_env_ok es env" and inv: "vec_inv es v"
    and g: "vec_grow env v = Some (w, e)"
  shows "vec_inv es w \<and> vec_items w = vec_items v
    \<and> (e = FT_ERR_SUCCESS \<longrightarrow> length (vec_items v) + 1 \<le> vec_capacity w)"
proof (cases "length (vec_items v) \<ge> vec_capacity v")
  case True
  have n: "vec_capacity v * 2 * es < 2 ^ 64" "0 < vec_capacity v" "length (vec_items v) = vec_capacity v"
    using inv True by (auto simp: vec_inv_def mult.commute [of es])
  then have "reserve_internal_unlocked env v (vec_capacity v * 2) = Some (w, e)"
    using g True by (simp add: vec_grow_def)
  with inv_reserve_internal [OF env inv n(1)] n show ?thesis by fastforce
next
  case False
  then show ?thesis using g inv by (auto simp: vec_grow_def)
qed

lemma vec_inv_destroy: "vec_env_ok es env \<Longrightarrow> vec_inv es v \<Longrightarrow> vec_inv es (fst (vec_destroy env v))"
  by (auto simp: vec_destroy_def vec_inv_reset_Nil Let_def split: prod.split)

lemma vec_inv_move:
  assumes env: "vec_env_ok es env" and inv: "vec_inv es v" "vec_inv es other"
    and m: "vec_move env lo same v other = Some (v', other', e)"
  shows "vec_inv es v' \<and> vec_inv es other'"
proof -
  define p where "p = (if vec_state v = Initialised then vec_destroy env v else (v, FT_ERR_SUCCESS))"
  have p: "vec_inv es (fst p)" using vec_inv_destroy [OF env inv(1)] inv(1) by (simp add: p_def)
  have st: "vec_state (fst p) \<noteq> Initialised"
    by (auto simp: p_def vec_destroy_def Let_def split: prod.splits)
  let ?i = "(reset_to_small_buffer env (fst p))\<lparr>vec_items := [], vec_state := Initialised\<rparr>"
  have i: "vec_inv es ?i" using vec_inv_reset_state [OF env] .
  have o: "vec_inv es ((if vec_small other then other else reset_to_small_buffer env other)
      \<lparr>vec_items := [], vec_mutex := False, vec_state := Destroyed\<rparr>)"
    using inv(2) vec_inv_reset_Nil [OF env, of other] by (auto simp: vec_inv_def)
  let ?w = "(if vec_small other then ?i\<lparr>vec_items := vec_items other\<rparr>
      else ?i\<lparr>vec_items := vec_items other, vec_small := False, vec_capacity := vec_capacity other,
              vec_block := vec_block other\<rparr>)\<lparr>vec_mutex := vec_mutex other\<rparr>"
  have w: "vec_inv es ?w" using i inv(2) by (auto simp: vec_inv_def)
  have "(v', other') \<in> {(v, other), (fst p, other), ((fst p)\<lparr>vec_state := Destroyed\<rparr>, other),
      (?i\<lparr>vec_state := Destroyed\<rparr>, other), (?w, (if vec_small other then other
        else reset_to_small_buffer env other)\<lparr>vec_items := [], vec_mutex := False, vec_state := Destroyed\<rparr>)}"
    using m st unfolding vec_move_def p_def [symmetric] case_prod_beta vec_initialize_def Let_def
    by (simp split: if_splits)
  then show ?thesis using inv p i o w by auto
qed

lemma vec_inv_copy:
  assumes env: "vec_env_ok es env" and inv: "vec_inv es v" "vec_inv es other"
    and c: "vec_copy_from env lo same v other = Some (v', e)"
  shows "vec_inv es v'"
proof -
  let ?r = "(reset_to_small_buffer env v)\<lparr>vec_items := []\<rparr>"
  have n: "vec_capacity other * es < 2 ^ 64" using inv(2) by (auto simp: vec_inv_def)
  have le: "length (vec_items other) \<le> vec_capacity other" using inv(2) by (simp add: vec_inv_def)
  show ?thesis
    using c inv_reserve_internal [OF env vec_inv_reset_Nil [OF env, of v] n] inv(1) le
    by (auto simp: vec_copy_from_def vec_locked_def vec_inv_items split: if_splits option.splits)
qed

lemma inv_push_back:
  assumes env: "vec_env_ok es env" and inv: "vec_inv es v" and r: "vec_push_back env v r = Some (v', e)"
  shows "vec_inv es v'"
proof (cases "vec_grow env v")
  case None
  then show ?thesis
    using r inv by (auto simp: vec_push_back_def vec_live_def vec_locked_def split: if_splits)
next
  case (Some q)
  obtain w e1 where q: "q = (w, e1)" by (cases q)
  have w: "vec_inv es w" "vec_items w = vec_items v"
    "e1 = FT_ERR_SUCCESS \<longrightarrow> length (vec_items w) + 1 \<le> vec_capacity w"
    using inv_grow [OF env inv, of w e1] Some q by auto
  have "v' = v \<or> v' = w \<or> e1 = FT_ERR_SUCCESS \<and> (\<exists>x. v' = w\<lparr>vec_items := vec_items w @ [x]\<rparr>)"
    using r unfolding vec_push_back_def vec_live_def vec_locked_def Some q option.case prod.case
    by (cases "deref v w r") (auto split: if_splits)
  then show ?thesis using w inv by (auto intro: vec_inv_items)
qed

lemma inv_insert:
  assumes env: "vec_env_ok es env" and inv: "vec_inv es v" and r: "vec_insert env v i rf = Some (v', k, e)"
  shows "vec_inv es v'"
proof (cases "vec_grow env v")
  case None
  then show ?thesis
    using r inv by (auto simp: vec_insert_def Let_def split: if_splits)
next
  case (Some q)
  obtain w e1 where q: "q = (w, e1)" by (cases q)
  have w: "vec_inv es w" "vec_items w = vec_items v"
    "e1 = FT_ERR_SUCCESS \<longrightarrow> length (vec_items w) + 1 \<le> vec_capacity w"
    using inv_grow [OF env inv, of w e1] Some q by auto
  have "v' = v \<or> v' = w \<or> e1 = FT_ERR_SUCCESS
      \<and> (\<exists>x y. v' = w\<lparr>vec_items := (insert_shift (vec_items w @ [y]) i (length (vec_items v)))[i := x]\<rparr>)"
    using r unfolding vec_insert_def Let_def Some q option.case prod.case
    by (cases "deref v w rf") (auto split: if_splits)
  then show ?thesis using w inv by (auto intro: vec_inv_items)
qed

lemma inv_resize:
  assumes env: "vec_env_ok es env" and inv: "vec_inv es v" and n: "n * es < 2 ^ 64"
    and r: "vec_resize env v n rf = Some (v', e)"
  shows "vec_inv es v'"
proof (cases "reserve_internal_unlocked env v n")
  case None
  then show ?thesis
    using r inv by (auto simp: vec_resize_def vec_locked_def vec_inv_def split: if_splits)
next
  case (Some q)
  obtain w e1 where q: "q = (w, e1)" by (cases q)
  have w: "vec_inv es w" "vec_items w = vec_items v" "e1 = FT_ERR_SUCCESS \<longrightarrow> n \<le> vec_capacity w"
    using inv_reserve_internal [OF env inv n, of w e1] Some q by auto
  let ?xs = "\<lambda>x. vec_items w @ replicate (n - length (vec_items w)) x"
  have "v' = v \<or> v' = v\<lparr>vec_items := take n (vec_items v)\<rparr> \<or> v' = w
      \<or> e1 = FT_ERR_SUCCESS \<and> (\<exists>x. v' = w\<lparr>vec_items := ?xs x\<rparr>)"
    using r unfolding vec_resize_def vec_locked_def Some q option.case prod.case
    by (cases "deref v w rf") (auto split: if_splits)
  moreover have "vec_inv es (v\<lparr>vec_items := take n (vec_items v)\<rparr>)"
    using inv by (auto simp: vec_inv_def)
  moreover have "vec_inv es (w\<lparr>vec_items := ?xs x\<rparr>)" if "e1 = FT_ERR_SUCCESS" for x
    using w that by (intro vec_inv_items) (auto simp: vec_inv_def)
  ultimately show ?thesis using w inv by blast
qed

lemma inv_simple_ops:
  assumes "vec_inv es v"
  shows "vec_pop_back env v = Some (v', e) \<Longrightarrow> vec_inv es v'"
    "vec_clear env v = Some (v', e) \<Longrightarrow> vec_inv es v'"
    "vec_set env v i x = (v', e) \<Longrightarrow> vec_inv es v'"
    "vec_erase env v i = (v', k, e) \<Longrightarrow> vec_inv es v'"
    "vec_release_at env d v i = (v', y) \<Longrightarrow> vec_inv es v'"
    "vec_enable_thread_safety env v = Some (v', e) \<Longrightarrow> vec_inv es v'"
    "vec_disable_thread_safety env v = (v', e) \<Longrightarrow> vec_inv es v'"
  using assms
  by (auto simp: vec_pop_back_def vec_clear_def vec_set_def vec_erase_def vec_release_at_def
      vec_enable_thread_safety_def vec_disable_thread_safety_def vec_live_def vec_locked_def
      vec_inv_def Let_def split: if_splits)

lemma vec_step_inv:
  assumes "vec_step es other v v'" "vec_inv es v" "vec_inv es other"
  shows "vec_inv es v'"
  using assms(1)
proof cases
  case initialize
  then show ?thesis by (auto simp: vec_initialize_def vec_inv_reset_Nil split: if_splits)
next
  case destroy
  then show ?thesis using vec_inv_destroy [OF _ assms(2)] by (metis fst_conv)
next
  case destruct
  then show ?thesis
    using vec_inv_destroy [OF destruct(2) assms(2)]
    by (auto simp: vec_destructor_def vec_disable_thread_safety_def Let_def)
next
  case move_to
  then show ?thesis using vec_inv_move assms(2,3) by blast
next
  case move_from
  then show ?thesis using vec_inv_move assms(2,3) by blast
next
  case copy
  then show ?thesis using vec_inv_copy assms(2,3) by blast
next
  case push_back
  then show ?thesis using inv_push_back assms(2) by blast
next
  case reserve
  then show ?thesis
    using inv_reserve_internal [OF reserve(1) assms(2) reserve(2)] assms(2)
    by (auto simp: vec_reserve_def vec_locked_def split: if_splits)
next
  case resize
  then show ?thesis by (intro inv_resize [OF resize(1) assms(2) resize(2,3)])
next
  case insert
  then show ?thesis by (intro inv_insert [OF insert(1) assms(2) insert(2)])
qed (erule inv_simple_ops [OF assms(2)])+

lemma vec_reachable_inv: "vec_reachable es v \<Longrightarrow> vec_inv es v"
proof (induction rule: vec_reachable.induct)
  case (start env v)
  then show ?case
    by (auto simp: vec_constructor_def Let_def intro!: vec_inv_reset)
qed (auto intro: vec_step_inv)

subsection \<open>Main properties\<close>

lemma vec_reachable_usable:
  assumes "vec_reachable (ve_element_size env) v" "wf_vector_env env"
    and "vec_state v = Initialised" "vec_lock_internal env v = FT_ERR_SUCCESS"
  shows "vec_usable env v"
  using vec_inv_wf [OF _ vec_reachable_inv [OF assms(1)]] assms
  by (simp add: vec_env_ok_def vec_usable_def)

text \<open>
  An argument that refers to an own element: the growth either frees the heap block it lives in, or leaves
  it readable (the inline buffer, or the same block).
\<close>

lemma deref_own_grow:
  assumes "vec_usable env v" "i < length (vec_items v)"
    and "ve_malloc env (vec_capacity v * 2 * ve_element_size env)"
  obtains w where "vec_grow env v = Some (w, FT_ERR_SUCCESS)" "vec_items w = vec_items v"
    "vec_fits env (vec_block w) (length (vec_items v) + 1)"
    "vec_capacity v < vec_capacity w \<longleftrightarrow> length (vec_items v) = vec_capacity v"
    "deref v w (Own i) = (if length (vec_items v) = vec_capacity v \<and> \<not> vec_small v then None
       else Some (vec_items v ! i))"
proof (rule vec_grow_spec [OF assms(1)])
  fix w e
  assume g: "vec_grow env v = Some (w, e)" and items: "vec_items w = vec_items v"
    and room: "e = FT_ERR_SUCCESS \<longrightarrow> length (vec_items v) + 1 \<le> vec_capacity w
       \<and> vec_fits env (vec_block w) (length (vec_items v) + 1)"
    and ok: "length (vec_items v) < vec_capacity v
       \<or> ve_malloc env (vec_capacity v * 2 * ve_element_size env) \<longrightarrow> e = FT_ERR_SUCCESS"
  have e: "e = FT_ERR_SUCCESS" using ok assms(3) by blast
  have le: "length (vec_items v) \<le> vec_capacity v" using vec_usableD(2) [OF assms(1)] by (simp add: wf_vec_def)
  have c: "vec_capacity v < vec_capacity w \<longleftrightarrow> length (vec_items v) = vec_capacity v"
  proof
    assume "length (vec_items v) = vec_capacity v"
    then show "vec_capacity v < vec_capacity w" using room e by linarith
  next
    assume "vec_capacity v < vec_capacity w"
    then have "w \<noteq> v" by auto
    then show "length (vec_items v) = vec_capacity v" using g le by (auto simp: vec_grow_def split: if_splits)
  qed
  then show thesis using that [of w] g items room e assms(2) by (auto simp: deref_def)
qed

lemma own_push_back:
  assumes "vec_usable env v" "i < length (vec_items v)"
    and "ve_malloc env (vec_capacity v * 2 * ve_element_size env)"
  shows "if length (vec_items v) = vec_capacity v \<and> \<not> vec_small v then vec_push_back env v (Own i) = None
    else \<exists>v'. vec_push_back env v (Own i) = Some (v', FT_ERR_SUCCESS) \<and> vec_items v' = vec_items v @ [vec_items v ! i]"
proof (rule deref_own_grow [OF assms])
  fix w
  assume "vec_grow env v = Some (w, FT_ERR_SUCCESS)" "vec_items w = vec_items v"
    "vec_fits env (vec_block w) (length (vec_items v) + 1)"
    "deref v w (Own i) = (if length (vec_items v) = vec_capacity v \<and> \<not> vec_small v then None
       else Some (vec_items v ! i))"
  then show ?thesis using assms(1) by (auto simp: vec_push_back_def)
qed

lemma insert_shift_update:
  assumes "k \<le> length xs"
  shows "(insert_shift (xs @ [y]) k (length xs))[k := x] = take k xs @ x # drop k xs"
proof -
  have "(insert_shift (xs @ [y]) k (length xs))[k := x] = (insert_shift (xs @ [x]) k (length xs))[k := x]"
    by (rule nth_equalityI) (use assms in \<open>auto simp: nth_list_update nth_insert_shift nth_append\<close>)
  then show ?thesis using insert_shift_result [OF assms, of x] by simp
qed

lemma own_insert:
  assumes "vec_usable env v" "i < length (vec_items v)" "k \<le> length (vec_items v)"
    and "ve_malloc env (vec_capacity v * 2 * ve_element_size env)"
  shows "if length (vec_items v) = vec_capacity v \<and> \<not> vec_small v then vec_insert env v k (Own i) = None
    else \<exists>v'. vec_insert env v k (Own i) = Some (v', k, FT_ERR_SUCCESS)
      \<and> vec_items v' = take k (vec_items v)
          @ vec_items v ! (if length (vec_items v) = vec_capacity v \<or> i \<le> k then i else i - 1)
          # drop k (vec_items v)"
proof (rule deref_own_grow [OF assms(1,2,4)])
  fix w
  assume w: "vec_grow env v = Some (w, FT_ERR_SUCCESS)" "vec_items w = vec_items v"
    "vec_fits env (vec_block w) (length (vec_items v) + 1)"
    "vec_capacity v < vec_capacity w \<longleftrightarrow> length (vec_items v) = vec_capacity v"
    "deref v w (Own i) = (if length (vec_items v) = vec_capacity v \<and> \<not> vec_small v then None
       else Some (vec_items v ! i))"
  have "insert_shift (vec_items v @ [y]) k (length (vec_items v)) ! i = vec_items v ! (if i \<le> k then i else i - 1)" for y
    using assms(2) by (auto simp: nth_insert_shift nth_append)
  then show ?thesis
    using w assms(3) vec_usableD(4) [OF assms(1)] insert_shift_update [OF assms(3)]
    by (auto simp: vec_insert_def Let_def)
qed

lemma own_resize:
  assumes u: "vec_usable env v" and "i < length (vec_items v)"
    and n: "n * ve_element_size env < 2 ^ 64" "ve_malloc env (n * ve_element_size env)"
  shows "if vec_capacity v < n \<and> \<not> vec_small v then vec_resize env v n (Own i) = None
    else \<exists>v'. vec_resize env v n (Own i) = Some (v', FT_ERR_SUCCESS)
      \<and> vec_items v' = take n (vec_items v) @ replicate (n - length (vec_items v)) (vec_items v ! i)"
proof -
  note uD = vec_usableD [OF u]
  obtain w where r: "reserve_internal_unlocked env v n = Some (w, FT_ERR_SUCCESS)" "wf_vec env w"
    "vec_items w = vec_items v" "n \<le> vec_capacity w"
    using reserve_internal_unlocked_spec [OF uD(1,2) n(1)] n(2) by metis
  have fits: "vec_fits env (vec_block w) n" using r(2,4) vec_fits_mono by (auto simp: wf_vec_def)
  have le: "length (vec_items v) \<le> vec_capacity v" using uD(2) by (simp add: wf_vec_def)
  have same: "w = v" if "n \<le> vec_capacity v" using that r(1) by (simp add: reserve_internal_unlocked_def)
  have "deref v w (Own i) = (if vec_capacity v < n \<and> \<not> vec_small v then None else Some (vec_items v ! i))"
    using assms(2) same r(4) by (cases "n \<le> vec_capacity v") (auto simp: deref_def)
  then show ?thesis using r fits le u by (auto simp: vec_resize_def)
qed

text \<open>A concrete environment: one-byte elements, memory below half the address space.\<close>

definition demo_vector_env :: vector_env where
  "demo_vector_env = \<lparr>ve_element_size = 1, ve_malloc = (\<lambda>n. n < 2 ^ 63), ve_lock = FT_ERR_SUCCESS,
     ve_mutex_new = True, ve_mutex_init = FT_ERR_SUCCESS, ve_mutex_destroy = FT_ERR_SUCCESS\<rparr>"

definition demo_vector :: "nat ft_vector" where
  "demo_vector = \<lparr>vec_items = [], vec_capacity = 8, vec_block = 8, vec_small = True,
     vec_mutex = False, vec_state = Initialised\<rparr>"

definition demo_block :: "nat \<Rightarrow> nat ft_vector" where
  "demo_block n = \<lparr>vec_items = [10, 20], vec_capacity = n, vec_block = n, vec_small = False,
     vec_mutex = False, vec_state = Initialised\<rparr>"

lemma wf_demo_vector_env: "wf_vector_env demo_vector_env"
  by (simp add: wf_vector_env_def demo_vector_env_def SMALL_CAPACITY_def)

lemma reachable_demo: "vec_reachable 1 demo_vector"
proof -
  let ?c = "demo_vector\<lparr>vec_state := Uninitialised\<rparr>"
  have env: "vec_env_ok 1 demo_vector_env"
    using wf_demo_vector_env by (simp add: vec_env_ok_def demo_vector_env_def)
  have c: "vec_reachable 1 ?c"
    by (rule vec_reachable.start [OF env])
      (simp add: vec_constructor_def reset_to_small_buffer_def demo_vector_def demo_vector_env_def
        SMALL_CAPACITY_def)
  have "vec_step 1 ?c ?c demo_vector"
    by (rule vec_step.initialize [OF env, where e = FT_ERR_SUCCESS])
      (simp add: vec_initialize_def reset_to_small_buffer_def demo_vector_def demo_vector_env_def
        SMALL_CAPACITY_def)
  then show ?thesis by (rule vec_reachable.step [OF c c])
qed

text \<open>
  Whatever sequence of calls produced a \<open>ft_vector\<close> (with byte counts that fit
  \<open>ft_size_t\<close>), its elements lie inside the bytes it owns: the size is at most the capacity,
  the capacity times the element size is at most the block, and an object on its inline
  buffer has the inline capacity.
\<close>

theorem vector_elements_in_block:
  assumes "vec_reachable es v"
  shows "length (vec_items v) \<le> vec_capacity v \<and> vec_capacity v * es \<le> vec_block v
    \<and> (vec_small v \<longrightarrow> vec_capacity v = SMALL_CAPACITY)"
  using vec_reachable_inv [OF assms] by (simp add: vec_inv_def)

theorem vector_elements_in_block_witness:
  "length (vec_items demo_vector) \<le> vec_capacity demo_vector
    \<and> vec_capacity demo_vector * 1 \<le> vec_block demo_vector
    \<and> vec_capacity demo_vector = SMALL_CAPACITY"
proof -
  have "vec_small demo_vector" by (simp add: demo_vector_def)
  then show ?thesis using vector_elements_in_block [OF reachable_demo] by blast
qed

text \<open>
  C12: A live reachable \<open>ft_vector\<close> refines a list: for a value that is not one of the vector's own elements,
  and a new size whose byte count fits 64 bits, \<open>push_back\<close>, \<open>insert\<close>, \<open>resize\<close> and \<open>erase\<close>
  return, and their result is the list operation applied to the elements, or the unchanged
  object and \<open>FT_ERR_NO_MEMORY\<close>; \<open>push_back\<close> below the capacity never fails.
\<close>

theorem vector_refines_list:
  assumes "vec_reachable (ve_element_size env) v" "wf_vector_env env"
    and "vec_state v = Initialised" "vec_lock_internal env v = FT_ERR_SUCCESS"
    and "i \<le> length (vec_items v)" "n * ve_element_size env < 2 ^ 64"
  shows "(\<exists>v' e. vec_push_back env v (Outside x) = Some (v', e)
      \<and> (if e = FT_ERR_SUCCESS then vec_items v' = vec_items v @ [x] else v' = v \<and> e = FT_ERR_NO_MEMORY)
      \<and> (length (vec_items v) < vec_capacity v \<longrightarrow> e = FT_ERR_SUCCESS))
    \<and> (\<exists>v' k e. vec_insert env v i (Outside x) = Some (v', k, e)
      \<and> (if e = FT_ERR_SUCCESS
          then k = i \<and> vec_items v' = take i (vec_items v) @ x # drop i (vec_items v)
          else v' = v \<and> e = FT_ERR_NO_MEMORY))
    \<and> (\<exists>v' e. vec_resize env v n (Outside x) = Some (v', e)
      \<and> (if e = FT_ERR_SUCCESS
          then vec_items v' = take n (vec_items v) @ replicate (n - length (vec_items v)) x
          else v' = v \<and> e = FT_ERR_NO_MEMORY))
    \<and> (i < length (vec_items v) \<longrightarrow> (\<exists>v'. vec_erase env v i = (v', i, FT_ERR_SUCCESS)
      \<and> vec_items v' = take i (vec_items v) @ drop (i + 1) (vec_items v)))"
proof -
  have u: "vec_usable env v" using vec_reachable_usable assms by blast
  have "\<exists>v' e. vec_push_back env v (Outside x) = Some (v', e)
      \<and> (if e = FT_ERR_SUCCESS then vec_items v' = vec_items v @ [x] else v' = v \<and> e = FT_ERR_NO_MEMORY)
      \<and> (length (vec_items v) < vec_capacity v \<longrightarrow> e = FT_ERR_SUCCESS)"
    using vec_push_back_spec [OF u, of x] by metis
  moreover have "\<exists>v' k e. vec_insert env v i (Outside x) = Some (v', k, e)
      \<and> (if e = FT_ERR_SUCCESS
          then k = i \<and> vec_items v' = take i (vec_items v) @ x # drop i (vec_items v)
          else v' = v \<and> e = FT_ERR_NO_MEMORY)"
    using vec_insert_spec [OF u assms(5), of x] by metis
  moreover have "\<exists>v' e. vec_resize env v n (Outside x) = Some (v', e)
      \<and> (if e = FT_ERR_SUCCESS
          then vec_items v' = take n (vec_items v) @ replicate (n - length (vec_items v)) x
          else v' = v \<and> e = FT_ERR_NO_MEMORY)"
    using vec_resize_spec [OF u assms(6), of x] by metis
  moreover have "i < length (vec_items v) \<longrightarrow> (\<exists>v'. vec_erase env v i = (v', i, FT_ERR_SUCCESS)
      \<and> vec_items v' = take i (vec_items v) @ drop (i + 1) (vec_items v))"
    using vec_erase_spec(1) [OF u] by simp
  ultimately show ?thesis by (intro conjI)
qed

theorem vector_refines_list_witness:
  "\<exists>v'. vec_push_back demo_vector_env demo_vector (Outside 7) = Some (v', FT_ERR_SUCCESS) \<and> vec_items v' = [7]"
proof -
  have "vec_reachable (ve_element_size demo_vector_env) demo_vector" "vec_state demo_vector = Initialised"
    "vec_lock_internal demo_vector_env demo_vector = FT_ERR_SUCCESS"
    "0 \<le> length (vec_items demo_vector)" "0 * ve_element_size demo_vector_env < 2 ^ 64"
    "length (vec_items demo_vector) < vec_capacity demo_vector" "vec_items demo_vector = []"
    using reachable_demo by (simp_all add: demo_vector_env_def demo_vector_def vec_lock_internal_def)
  then show ?thesis
    using vector_refines_list [OF _ wf_demo_vector_env, of demo_vector 0 0 7] by auto
qed

text \<open>
  C28: What an argument that refers to one of the vector's own elements does, with memory granted. When the
  call moves the elements out of a heap block, the block is freed before the argument is read, and the
  call is undefined. When it moves them out of the inline buffer, or does not move them,
  \<open>push_back\<close> and \<open>resize\<close> use the element; \<open>insert\<close> uses it when the elements moved or it lies at or before
  the insertion point, and otherwise the element before it, which the shift has put into its slot.
\<close>

theorem own_element_arguments:
  assumes "vec_usable env v" "i < length (vec_items v)" "k \<le> length (vec_items v)"
    and "ve_malloc env (vec_capacity v * 2 * ve_element_size env)"
    and "n * ve_element_size env < 2 ^ 64" "ve_malloc env (n * ve_element_size env)"
  shows "(if length (vec_items v) = vec_capacity v \<and> \<not> vec_small v then vec_push_back env v (Own i) = None
      else \<exists>v'. vec_push_back env v (Own i) = Some (v', FT_ERR_SUCCESS)
        \<and> vec_items v' = vec_items v @ [vec_items v ! i])
    \<and> (if length (vec_items v) = vec_capacity v \<and> \<not> vec_small v then vec_insert env v k (Own i) = None
      else \<exists>v'. vec_insert env v k (Own i) = Some (v', k, FT_ERR_SUCCESS)
        \<and> vec_items v' = take k (vec_items v)
            @ vec_items v ! (if length (vec_items v) = vec_capacity v \<or> i \<le> k then i else i - 1)
            # drop k (vec_items v))
    \<and> (if vec_capacity v < n \<and> \<not> vec_small v then vec_resize env v n (Own i) = None
      else \<exists>v'. vec_resize env v n (Own i) = Some (v', FT_ERR_SUCCESS)
        \<and> vec_items v' = take n (vec_items v) @ replicate (n - length (vec_items v)) (vec_items v ! i))"
proof (intro conjI)
  show "if length (vec_items v) = vec_capacity v \<and> \<not> vec_small v then vec_push_back env v (Own i) = None
      else \<exists>v'. vec_push_back env v (Own i) = Some (v', FT_ERR_SUCCESS)
        \<and> vec_items v' = vec_items v @ [vec_items v ! i]"
    using own_push_back [OF assms(1,2,4)] by (auto split: if_splits)
  show "if length (vec_items v) = vec_capacity v \<and> \<not> vec_small v then vec_insert env v k (Own i) = None
      else \<exists>v'. vec_insert env v k (Own i) = Some (v', k, FT_ERR_SUCCESS)
        \<and> vec_items v' = take k (vec_items v)
            @ vec_items v ! (if length (vec_items v) = vec_capacity v \<or> i \<le> k then i else i - 1)
            # drop k (vec_items v)"
    using own_insert [OF assms(1-4)] by (auto split: if_splits)
  show "if vec_capacity v < n \<and> \<not> vec_small v then vec_resize env v n (Own i) = None
      else \<exists>v'. vec_resize env v n (Own i) = Some (v', FT_ERR_SUCCESS)
        \<and> vec_items v' = take n (vec_items v) @ replicate (n - length (vec_items v)) (vec_items v ! i)"
    using own_resize [OF assms(1,2,5,6)] by (auto split: if_splits)
qed

theorem own_element_arguments_witness:
  "vec_push_back demo_vector_env (demo_block 2) (Own 0) = None
   \<and> vec_insert demo_vector_env (demo_block 2) 1 (Own 0) = None
   \<and> vec_resize demo_vector_env (demo_block 2) 5 (Own 1) = None
   \<and> (\<exists>v'. vec_insert demo_vector_env (demo_block 4) 0 (Own 1) = Some (v', 0, FT_ERR_SUCCESS)
        \<and> vec_items v' = [10, 10, 20])"
proof -
  have p: "vec_usable demo_vector_env (demo_block n)" if "n = 2 \<or> n = 4" for n
    using that wf_demo_vector_env
    by (auto simp: vec_usable_def wf_vec_def vec_fits_def vec_lock_internal_def demo_vector_env_def demo_block_def)
  show ?thesis
    using own_element_arguments [OF p, of 2 0 1 3] own_element_arguments [OF p, of 2 1 0 5]
      own_element_arguments [OF p, of 4 1 0 3]
    by (simp add: demo_block_def demo_vector_env_def)
qed

text \<open>
  The byte count of a request wraps: for eight-byte elements, \<open>reserve(2 ^ 61 + 1)\<close> asks the
  allocator for eight bytes and then records a capacity of \<open>2 ^ 61 + 1\<close> elements, so the
  invariant is lost.
\<close>

lemma reserve_wraps:
  assumes "ve_element_size env = 8" "ve_malloc env 8" "vec_capacity v \<le> 2 ^ 61" "vec_items v = []"
  shows "reserve_internal_unlocked env v (2 ^ 61 + 1)
    = Some (v\<lparr>vec_small := False, vec_capacity := 2 ^ 61 + 1, vec_block := 8\<rparr>, FT_ERR_SUCCESS)"
  using assms by (simp add: reserve_internal_unlocked_def vec_fits_def)

text \<open>
  A block reserved by the constructor is lost by \<open>initialize\<close>, which points \<open>_data\<close> back to
  the inline buffer without freeing it.
\<close>

lemma initialize_drops_reserved_block:
  assumes "wf_vector_env env" "8 < n" "n * ve_element_size env < 2 ^ 64"
    "ve_malloc env (n * ve_element_size env)"
  shows "\<exists>v v'. vec_constructor env n = Some v \<and> \<not> vec_small v
    \<and> vec_initialize env v = Some (v', FT_ERR_SUCCESS) \<and> vec_small v'"
  using assms
  by (simp add: vec_constructor_def vec_initialize_def reserve_internal_unlocked_def vec_fits_def
      SMALL_CAPACITY_def Let_def)


end
