(* ===== verification/Crypto_Chacha20.thy ===== *)
theory Crypto_Chacha20
  imports Template_Vector_Spec Basic_Memory
begin

text \<open>
  ChaCha20 of \<^verbatim>\<open>src/Modules/Crypto/crypto_chacha20.cpp\<close>. The output is a
  \<open>ft_vector<uint8_t>\<close>; the staging vector is a local object with no mutex. The main result is
  that \<open>crypto_chacha20_xor\<close> combines the input with the key stream whose blocks have
  consecutive counters, that it is its own inverse, and that it never reuses a block: when
  the 32-bit counter would wrap it fails and leaves no output.
\<close>

subsection \<open>The block function\<close>

definition load_u32_le :: "bytes \<Rightarrow> nat \<Rightarrow> u32" where
  "load_u32_le data off =
     ucast (data ! off) OR push_bit 8 (ucast (data ! (off + 1)))
     OR push_bit 16 (ucast (data ! (off + 2))) OR push_bit 24 (ucast (data ! (off + 3)))"

definition store_u32_le :: "u32 \<Rightarrow> bytes" where
  "store_u32_le x = [ucast x, ucast (drop_bit 8 x), ucast (drop_bit 16 x), ucast (drop_bit 24 x)]"

definition rotate_left :: "u32 \<Rightarrow> nat \<Rightarrow> u32" where
  "rotate_left x n = push_bit n x OR drop_bit (32 - n) x"

text \<open>One half of a quarter round, on the four words it touches.\<close>

definition quarter_half :: "u32 list \<Rightarrow> nat \<Rightarrow> nat \<Rightarrow> nat \<Rightarrow> nat \<Rightarrow> nat \<Rightarrow> nat \<Rightarrow> u32 list" where
  "quarter_half s a b c d r1 r2 =
     (let s1 = s[a := s ! a + s ! b];
          s2 = s1[d := rotate_left (s1 ! d XOR s1 ! a) r1];
          s3 = s2[c := s2 ! c + s2 ! d]
      in s3[b := rotate_left (s3 ! b XOR s3 ! c) r2])"

definition quarter_round :: "u32 list \<Rightarrow> nat \<Rightarrow> nat \<Rightarrow> nat \<Rightarrow> nat \<Rightarrow> u32 list" where
  "quarter_round s a b c d = quarter_half (quarter_half s a b c d 16 12) a b c d 8 7"

definition double_round :: "u32 list \<Rightarrow> u32 list" where
  "double_round w0 =
     (let w1 = quarter_round w0 0 4 8 12;
          w2 = quarter_round w1 1 5 9 13;
          w3 = quarter_round w2 2 6 10 14;
          w4 = quarter_round w3 3 7 11 15;
          w5 = quarter_round w4 0 5 10 15;
          w6 = quarter_round w5 1 6 11 12;
          w7 = quarter_round w6 2 7 8 13
      in quarter_round w7 3 4 9 14)"

definition chacha_constants :: "u32 list" where
  "chacha_constants = [0x61707865, 0x3320646e, 0x79622d32, 0x6b206574]"

definition chacha_state :: "bytes \<Rightarrow> u32 \<Rightarrow> bytes \<Rightarrow> u32 list" where
  "chacha_state key counter nonce =
     chacha_constants @ map (\<lambda>index. load_u32_le key (index * 4)) [0..<8]
     @ [counter, load_u32_le nonce 0, load_u32_le nonce 4, load_u32_le nonce 8]"

text \<open>
  The 64 bytes the block function writes. Its own null check (it then returns without writing) is never
  reached from the module, whose functions check their arguments first.
\<close>

definition crypto_chacha20_block :: "bytes \<Rightarrow> u32 \<Rightarrow> bytes \<Rightarrow> bytes" where
  "crypto_chacha20_block key counter nonce =
     (let state = chacha_state key counter nonce;
          working = (double_round ^^ 10) state
      in concat (map (\<lambda>index. store_u32_le (working ! index + state ! index)) [0..<16]))"

subsection \<open>The stream\<close>

text \<open>The inner loop: the staging vector and the number of bytes produced.\<close>

function xor_block_loop ::
  "vector_env \<Rightarrow> u8 ft_vector \<Rightarrow> bytes \<Rightarrow> bytes \<Rightarrow> nat \<Rightarrow> nat \<Rightarrow> nat \<Rightarrow> u8 ft_vector \<times> nat" where
  "xor_block_loop env staging input block offset len block_index =
     (if block_index < 64 \<and> offset + block_index < len
      then xor_block_loop env
             (fst (vec_set env staging (offset + block_index)
                     (input ! (offset + block_index) XOR block ! block_index)))
             input block offset len (block_index + 1)
      else (staging, block_index))"
  by pat_completeness auto
termination
  by (relation "measure (\<lambda>(env, st, i, b, off, len, k). 64 - k)") auto

declare xor_block_loop.simps [simp del]

lemma snd_xor_block_loop:
  "k \<le> 64 \<Longrightarrow> off + k \<le> len \<Longrightarrow> snd (xor_block_loop env st i b off len k) = min 64 (len - off)"
proof (induction env st i b off len k rule: xor_block_loop.induct)
  case (1 env st i b off len k)
  show ?case
  proof (cases "k < 64 \<and> off + k < len")
    case True
    then show ?thesis using 1 by (subst xor_block_loop.simps) auto
  next
    case False
    then show ?thesis using 1(2,3) by (subst xor_block_loop.simps) auto
  qed
qed

text \<open>
  The outer loop: the staging vector, or \<open>Inl\<close> when the counter is exhausted.
\<close>

function chacha_loop ::
  "vector_env \<Rightarrow> bytes \<Rightarrow> bytes \<Rightarrow> u32 \<Rightarrow> bytes \<Rightarrow> nat \<Rightarrow> u8 ft_vector \<Rightarrow> nat \<Rightarrow> u8 ft_vector + u8 ft_vector" where
  "chacha_loop env key nonce counter input len staging offset =
     (if offset < len
      then let (st, block_index) =
                 xor_block_loop env staging input (crypto_chacha20_block key counter nonce) offset len 0;
               offset' = offset + block_index
           in if offset' < len
              then if counter = 0xffffffff then Inl st
                   else chacha_loop env key nonce (counter + 1) input len st offset'
              else Inr st
      else Inr staging)"
  by pat_completeness auto
termination
proof (relation "measure (\<lambda>(env, k, n, c, i, len, st, off). len - off)", goal_cases)
  case (2 env key nonce counter input len staging offset x xa y xb)
  then have "y = min 64 (len - offset)"
    using snd_xor_block_loop [of 0 offset len env staging input] by (metis add_0_right le0 less_imp_le snd_conv)
  then show ?case using 2 by auto
qed simp

declare chacha_loop.simps [simp del]

definition vec_clear_to :: "vector_env \<Rightarrow> u8 ft_vector \<Rightarrow> ft_err \<Rightarrow> u8 vec_result" where
  "vec_clear_to env v result = map_option (\<lambda>(v', _). (v', result)) (vec_clear env v)"

definition crypto_chacha20_xor ::
  "vector_env \<Rightarrow> ptr \<Rightarrow> ptr \<Rightarrow> u32 \<Rightarrow> ptr \<Rightarrow> nat \<Rightarrow> u8 ft_vector \<Rightarrow> u8 vec_result" where
  "crypto_chacha20_xor env key nonce counter input len output =
     (if key = None \<or> nonce = None \<or> null_span input len then Some (output, FT_ERR_INVALID_ARGUMENT)
      else if counter = 0 \<and> len \<noteq> 0 then Some (output, FT_ERR_OUT_OF_RANGE)
      else case (if vec_is_initialised output \<noteq> Initialised then vec_initialize env output
                 else Some (output, FT_ERR_SUCCESS)) of
        None \<Rightarrow> None
      | Some (output, e) \<Rightarrow>
          if e \<noteq> FT_ERR_SUCCESS then Some (output, FT_ERR_INITIALIZATION_FAILED)
          else case Option.bind (vec_constructor env 0) (vec_initialize env) of
            None \<Rightarrow> None
          | Some (staging, result) \<Rightarrow>
              if result \<noteq> FT_ERR_SUCCESS then vec_clear_to env output result
              else case vec_resize env staging len (Outside 0) of
                None \<Rightarrow> None
              | Some (staging, result) \<Rightarrow>
                  if result \<noteq> FT_ERR_SUCCESS then vec_clear_to env output result
                  else case chacha_loop env (the key) (the nonce) counter (span_bytes input len) len
                              staging 0 of
                    Inl staging \<Rightarrow> vec_clear_to env output FT_ERR_OUT_OF_RANGE
                  | Inr staging \<Rightarrow>
                      (case vec_move env FT_ERR_SUCCESS False output staging of
                         None \<Rightarrow> None
                       | Some (output, staging, result) \<Rightarrow>
                           if result \<noteq> FT_ERR_SUCCESS then vec_clear_to env output result
                           else Some (output, result)))"

subsection \<open>The reference\<close>

definition key_stream :: "bytes \<Rightarrow> bytes \<Rightarrow> u32 \<Rightarrow> nat \<Rightarrow> u8" where
  "key_stream key nonce counter i =
     crypto_chacha20_block key (counter + word_of_nat (i div 64)) nonce ! (i mod 64)"

definition chacha20 :: "bytes \<Rightarrow> bytes \<Rightarrow> u32 \<Rightarrow> bytes \<Rightarrow> bytes" where
  "chacha20 key nonce counter xs = map (\<lambda>i. xs ! i XOR key_stream key nonce counter i) [0..<length xs]"

text \<open>How many bytes a counter value leaves: blocks up to and including counter \<open>2 ^ 32 - 1\<close>.\<close>

definition stream_room :: "u32 \<Rightarrow> nat" where
  "stream_room counter = 64 * (2 ^ 32 - unat counter)"

lemma length_chacha20 [simp]: "length (chacha20 key nonce counter xs) = length xs"
  by (simp add: chacha20_def)

lemma chacha20_involution: "chacha20 key nonce counter (chacha20 key nonce counter xs) = xs"
  by (intro nth_equalityI) (simp_all add: chacha20_def xor.assoc)

subsection \<open>The loops\<close>

lemma vec_set_plain:
  assumes "\<not> vec_mutex st" "i < length (vec_items st)"
  shows "vec_set env st i x = (st\<lparr>vec_items := (vec_items st)[i := x]\<rparr>, FT_ERR_SUCCESS)"
  using assms by (simp add: vec_set_def vec_lock_internal_def)

lemma xor_block_loop_spec:
  assumes "\<not> vec_mutex st" "length (vec_items st) = len" "k \<le> 64" "off + k \<le> len"
  shows "\<exists>xs. xor_block_loop env st inp b off len k = (st\<lparr>vec_items := xs\<rparr>, min 64 (len - off))
    \<and> length xs = len
    \<and> (\<forall>j<len. xs ! j = (if off + k \<le> j \<and> j < off + 64 then inp ! j XOR b ! (j - off) else vec_items st ! j))"
  using assms
proof (induction env st inp b off len k rule: xor_block_loop.induct)
  case (1 env st inp b off len k)
  show ?case
  proof (cases "k < 64 \<and> off + k < len")
    case True
    let ?st = "st\<lparr>vec_items := (vec_items st)[off + k := inp ! (off + k) XOR b ! k]\<rparr>"
    have "fst (vec_set env st (off + k) (inp ! (off + k) XOR b ! k)) = ?st"
      using vec_set_plain [OF 1(2), of "off + k"] 1(3) True by simp
    moreover have "xor_block_loop env st inp b off len k
        = xor_block_loop env (fst (vec_set env st (off + k) (inp ! (off + k) XOR b ! k))) inp b off len (k + 1)"
      using True by (subst xor_block_loop.simps) simp
    moreover obtain xs where "xor_block_loop env ?st inp b off len (k + 1)
        = (?st\<lparr>vec_items := xs\<rparr>, min 64 (len - off))" "length xs = len"
      "\<forall>j<len. xs ! j = (if off + (k + 1) \<le> j \<and> j < off + 64 then inp ! j XOR b ! (j - off) else vec_items ?st ! j)"
      using 1(1) [OF True] 1(2,3) True calculation(1) by auto
    moreover have "xs ! j = (if off + k \<le> j \<and> j < off + 64 then inp ! j XOR b ! (j - off) else vec_items st ! j)"
      if "j < len" for j
      using that calculation(5) True 1(3) by (cases "j = off + k") (auto simp: nth_list_update)
    ultimately show ?thesis by auto
  next
    case False
    then have "min 64 (len - off) = k" using 1(4,5) by auto
    moreover have "\<not> (off + k \<le> j \<and> j < off + 64)" if "j < len" for j using that False 1(4) by auto
    ultimately show ?thesis
      using False 1(3) by (subst xor_block_loop.simps) (auto intro: exI [of _ "vec_items st"])
  qed
qed

lemma unat_counter_Suc:
  assumes "counter \<noteq> (0xffffffff :: u32)"
  shows "unat (counter + 1) = Suc (unat counter)"
proof -
  have "(0xffffffff :: u32) = - 1" by simp
  then have "1 + counter \<noteq> 0" using assms by (metis add_eq_0_iff)
  then show ?thesis using unatSuc [of counter] by (simp add: add.commute)
qed

lemma stream_room_step:
  assumes "counter \<noteq> 0xffffffff"
  shows "stream_room counter = 64 + stream_room (counter + 1)"
  using unat_counter_Suc [OF assms] unsigned_less [of "counter + 1", where ?'a = nat]
  by (simp add: stream_room_def)

lemma stream_room_last: "stream_room 0xffffffff = 64"
  by (simp add: stream_room_def)

lemma key_stream_shift:
  assumes "64 \<le> i"
  shows "key_stream key nonce counter i = key_stream key nonce (counter + 1) (i - 64)"
proof -
  obtain j where i: "i = j + 64" using assms le_Suc_ex by (metis add.commute)
  have "(j + 64) div 64 = Suc (j div 64)" by simp
  then show ?thesis by (simp add: i key_stream_def ac_simps)
qed

lemma chacha_loop_spec:
  assumes "\<not> vec_mutex st" "length (vec_items st) = len" "length inp = len" "off \<le> len"
  shows "if len - off \<le> stream_room counter
    then \<exists>xs. chacha_loop env key nonce counter inp len st off = Inr (st\<lparr>vec_items := xs\<rparr>)
      \<and> length xs = len \<and> (\<forall>j<len. xs ! j =
          (if off \<le> j then inp ! j XOR key_stream key nonce counter (j - off) else vec_items st ! j))
    else \<exists>st'. chacha_loop env key nonce counter inp len st off = Inl st'"
  using assms
proof (induction "len - off" arbitrary: off counter st rule: less_induct)
  case less
  show ?case
  proof (cases "off < len")
    case False
    then show ?thesis
      using less.prems by (subst (1 2) chacha_loop.simps) (auto intro: exI [of _ "vec_items st"])
  next
    case True
    let ?b = "crypto_chacha20_block key counter nonce"
    obtain xs where xs: "xor_block_loop env st inp ?b off len 0 = (st\<lparr>vec_items := xs\<rparr>, min 64 (len - off))"
      "length xs = len"
      "\<forall>j<len. xs ! j = (if off \<le> j \<and> j < off + 64 then inp ! j XOR ?b ! (j - off) else vec_items st ! j)"
      using xor_block_loop_spec [OF less.prems(1,2), of 0 off env inp ?b] less.prems(4) by auto
    have ks: "?b ! (j - off) = key_stream key nonce counter (j - off)" if "j < off + 64" "off \<le> j" for j
      using that by (simp add: key_stream_def)
    show ?thesis
    proof (cases "len - off \<le> 64")
      case last: True
      have "chacha_loop env key nonce counter inp len st off = Inr (st\<lparr>vec_items := xs\<rparr>)"
        using True last xs(1) by (subst chacha_loop.simps) (simp add: min_absorb2)
      moreover have "unat counter < 2 ^ 32" using unsigned_less [of counter, where ?'a = nat] by simp
      then have "len - off \<le> stream_room counter" using last by (simp add: stream_room_def)
      moreover have "\<forall>j<len. xs ! j = (if off \<le> j then inp ! j XOR key_stream key nonce counter (j - off)
          else vec_items st ! j)"
        using xs(3) ks last by auto
      ultimately show ?thesis using xs(2) by auto
    next
      case more: False
      then have lt: "off + 64 < len" "min 64 (len - off) = 64" by linarith+
      show ?thesis
      proof (cases "counter = 0xffffffff")
        case full: True
        have "chacha_loop env key nonce counter inp len st off = Inl (st\<lparr>vec_items := xs\<rparr>)"
          using True lt xs(1) full by (subst chacha_loop.simps) (simp add: Let_def)
        then show ?thesis using more full by (simp add: stream_room_last)
      next
        case next_block: False
        let ?st = "st\<lparr>vec_items := xs\<rparr>"
        have step: "chacha_loop env key nonce counter inp len st off
            = chacha_loop env key nonce (counter + 1) inp len ?st (off + 64)"
          using True lt xs(1) next_block by (subst chacha_loop.simps) (simp add: Let_def)
        have room: "len - off \<le> stream_room counter \<longleftrightarrow> len - (off + 64) \<le> stream_room (counter + 1)"
          using stream_room_step [OF next_block] more by auto
        have val: "(if off + 64 \<le> j then inp ! j XOR key_stream key nonce (counter + 1) (j - (off + 64)) else xs ! j)
            = (if off \<le> j then inp ! j XOR key_stream key nonce counter (j - off) else vec_items st ! j)"
          if "j < len" for j
          using that xs(3) ks [of j] key_stream_shift [of "j - off" key nonce counter] by (auto simp: add.commute)
        have "if len - (off + 64) \<le> stream_room (counter + 1)
          then \<exists>ys. chacha_loop env key nonce (counter + 1) inp len ?st (off + 64) = Inr (?st\<lparr>vec_items := ys\<rparr>)
            \<and> length ys = len \<and> (\<forall>j<len. ys ! j = (if off + 64 \<le> j
                then inp ! j XOR key_stream key nonce (counter + 1) (j - (off + 64)) else vec_items ?st ! j))
          else \<exists>st'. chacha_loop env key nonce (counter + 1) inp len ?st (off + 64) = Inl st'"
          using less.prems more xs(2) by (intro less.hyps) auto
        then show ?thesis unfolding step room using val by (simp cong: conj_cong if_cong)
      qed
    qed
  qed
qed

subsection \<open>The whole operation\<close>

text \<open>
  An output parameter: a vector with no mutex that is not live, or live and consistent.
\<close>

definition vec_out :: "vector_env \<Rightarrow> 'a ft_vector \<Rightarrow> bool" where
  "vec_out env v \<longleftrightarrow> wf_vector_env env \<and> \<not> vec_mutex v \<and> (vec_state v = Initialised \<longrightarrow> wf_vec env v)"

lemma vec_out_usable: "vec_out env v \<Longrightarrow> vec_state v = Initialised \<Longrightarrow> vec_usable env v"
  by (simp add: vec_out_def vec_usable_def vec_lock_internal_def)

lemma vec_out_clear:
  assumes "vec_out env v"
  shows "vec_clear_to env v e = Some (v\<lparr>vec_items := []\<rparr>, e)" "vec_out env (v\<lparr>vec_items := []\<rparr>)"
  using assms by (auto simp: vec_clear_to_def vec_clear_def vec_locked_def vec_lock_internal_def vec_out_def wf_vec_def)

lemma vec_out_live:
  assumes "vec_out env v"
  obtains v' where "(if vec_is_initialised v \<noteq> Initialised then vec_initialize env v
      else Some (v, FT_ERR_SUCCESS)) = Some (v', FT_ERR_SUCCESS)"
    "vec_out env v'" "vec_state v' = Initialised"
proof (cases "vec_state v = Initialised")
  case False
  then obtain v' where "vec_initialize env v = Some (v', FT_ERR_SUCCESS)" "wf_vec env v'"
    "vec_state v' = Initialised" "\<not> vec_mutex v'"
    using vec_initialize_spec [of env v] assms unfolding vec_out_def by blast
  then show ?thesis using that [of v'] assms False by (simp add: vec_out_def vec_is_initialised_def)
qed (use that [of v] assms in \<open>simp add: vec_is_initialised_def\<close>)

text \<open>A fresh local vector, as every function of the module declares one.\<close>

lemma fresh_vector:
  assumes "wf_vector_env env"
  shows "\<exists>v. Option.bind (vec_constructor env 0) (vec_initialize env) = Some (v, FT_ERR_SUCCESS)
    \<and> vec_usable env v \<and> vec_items v = [] \<and> \<not> vec_mutex v \<and> vec_small v
    \<and> vec_capacity v = SMALL_CAPACITY"
proof -
  define c :: "'a ft_vector" where "c = reset_to_small_buffer env
    \<lparr>vec_items = [], vec_capacity = 0, vec_block = 0, vec_small = False, vec_mutex = False, vec_state = Uninitialised\<rparr>"
  have "vec_constructor env 0 = Some c" by (simp add: vec_constructor_def c_def)
  moreover have "vec_state c \<noteq> Initialised" "\<not> vec_mutex c" by (simp_all add: c_def)
  moreover obtain v where "vec_initialize env c = Some (v, FT_ERR_SUCCESS)" "wf_vec env v" "vec_items v = []"
    "vec_state v = Initialised" "vec_mutex v = vec_mutex c" "vec_small v" "vec_capacity v = SMALL_CAPACITY"
    using vec_initialize_spec [OF assms calculation(2)] by blast
  ultimately show ?thesis using assms by (auto simp: vec_usable_def vec_lock_internal_def)
qed

lemma vec_resize_small:
  assumes "vec_resize env v n (Outside x) = Some (v', e)" "vec_small v \<longrightarrow> vec_capacity v = SMALL_CAPACITY"
  shows "vec_mutex v' = vec_mutex v \<and> (vec_small v' \<longrightarrow> vec_capacity v' = SMALL_CAPACITY)"
  using assms
  by (auto simp: vec_resize_def deref_def vec_locked_def reserve_internal_unlocked_def Let_def
      split: if_splits option.splits)

lemma chacha20_xor_spec:
  assumes env: "wf_vector_env env" "ve_element_size env = 1" and out: "vec_out env output"
    and inp: "length (span_bytes input len) = len" "len < 2 ^ 64"
  obtains out' e where
    "crypto_chacha20_xor env (Some key) (Some nonce) counter input len output = Some (out', e)"
    "vec_out env out'"
    "e = FT_ERR_SUCCESS \<longrightarrow> vec_state out' = Initialised \<and> (len = 0 \<or> counter \<noteq> 0)
       \<and> len \<le> stream_room counter \<and> vec_items out' = chacha20 key nonce counter (span_bytes input len)"
    "e \<noteq> FT_ERR_SUCCESS \<longrightarrow> (if counter = 0 then out' = output else vec_items out' = [])
       \<and> (e = FT_ERR_OUT_OF_RANGE \<or> e = FT_ERR_NO_MEMORY)"
    "(len = 0 \<or> counter \<noteq> 0) \<and> len \<le> stream_room counter
       \<and> (len \<le> SMALL_CAPACITY \<or> ve_malloc env len) \<longrightarrow> e = FT_ERR_SUCCESS"
proof (cases "counter = 0 \<and> len \<noteq> 0")
  case True
  then show ?thesis
    using that [of "output" FT_ERR_OUT_OF_RANGE] out inp
    by (cases input) (auto simp: crypto_chacha20_xor_def null_span_def)
next
  case False
  have null: "\<not> null_span input len" using inp by (cases input) (auto simp: null_span_def)
  obtain o1 where o1: "(if vec_is_initialised output \<noteq> Initialised then vec_initialize env output
      else Some (output, FT_ERR_SUCCESS)) = Some (o1, FT_ERR_SUCCESS)" "vec_out env o1" "vec_state o1 = Initialised"
    using vec_out_live [OF out] .
  obtain s0 :: "u8 ft_vector" where s0: "Option.bind (vec_constructor env 0) (vec_initialize env) = Some (s0, FT_ERR_SUCCESS)"
    "vec_usable env s0" "vec_items s0 = []" "\<not> vec_mutex s0" "vec_small s0" "vec_capacity s0 = SMALL_CAPACITY"
    using fresh_vector [OF env(1)] by blast
  obtain s1 e1 where s1: "vec_resize env s0 len (Outside 0) = Some (s1, e1)" "vec_usable env s1"
    "e1 = FT_ERR_SUCCESS \<longrightarrow> vec_items s1 = replicate len 0" "e1 \<noteq> FT_ERR_SUCCESS \<longrightarrow> e1 = FT_ERR_NO_MEMORY"
    "len \<le> SMALL_CAPACITY \<or> ve_malloc env len \<longrightarrow> e1 = FT_ERR_SUCCESS"
    by (rule vec_resize_spec [OF s0(2), of len 0]) (use inp(2) env(2) s0(3,6) in auto)
  have s1': "\<not> vec_mutex s1" "vec_small s1 \<longrightarrow> vec_capacity s1 = SMALL_CAPACITY"
    using vec_resize_small [OF s1(1)] s0 by auto
  let ?run = "crypto_chacha20_xor env (Some key) (Some nonce) counter input len output"
  show ?thesis
  proof (cases "e1 = FT_ERR_SUCCESS \<and> len \<le> stream_room counter")
    case True
    have "\<exists>xs. chacha_loop env key nonce counter (span_bytes input len) len s1 0 = Inr (s1\<lparr>vec_items := xs\<rparr>)
        \<and> length xs = len \<and> (\<forall>j<len. xs ! j = span_bytes input len ! j XOR key_stream key nonce counter j)"
      using chacha_loop_spec [OF s1'(1), of len "span_bytes input len" 0 counter env key nonce] s1 inp True by auto
    then obtain xs where xs: "chacha_loop env key nonce counter (span_bytes input len) len s1 0 = Inr (s1\<lparr>vec_items := xs\<rparr>)"
      "length xs = len" "\<forall>j<len. xs ! j = span_bytes input len ! j XOR key_stream key nonce counter j" by blast
    have eq: "xs = chacha20 key nonce counter (span_bytes input len)"
      using xs(2,3) inp by (intro nth_equalityI) (auto simp: chacha20_def)
    have "length xs \<le> vec_capacity s1" using s1(2,3) True xs(2) by (auto simp: vec_usable_def wf_vec_def)
    then have w: "wf_vec env (s1\<lparr>vec_items := xs\<rparr>)" using wf_vec_items s1(2) by (auto simp: vec_usable_def)
    have st: "vec_state (s1\<lparr>vec_items := xs\<rparr>) = Initialised" using s1(2) by (simp add: vec_usable_def)
    have "snd (vec_destroy env o1) = FT_ERR_SUCCESS"
      using o1(2,3) by (simp add: vec_destroy_def vec_disable_thread_safety_def vec_out_def)
    then obtain o2 s2 where m: "vec_move env FT_ERR_SUCCESS False o1 (s1\<lparr>vec_items := xs\<rparr>) = Some (o2, s2, FT_ERR_SUCCESS)"
      "wf_vec env o2" "vec_items o2 = xs" "vec_state o2 = Initialised" "\<not> vec_mutex o2"
      using vec_move_spec [OF env(1) w st, of FT_ERR_SUCCESS o1] s1' by auto
    have "?run = Some (o2, FT_ERR_SUCCESS)"
      unfolding crypto_chacha20_xor_def
      using null False o1(1) s0(1) s1(1) True xs(1) m(1) by (simp add: o1(1))
    then show ?thesis
      using that [of o2 FT_ERR_SUCCESS] m eq True \<open>\<not> (counter = 0 \<and> len \<noteq> 0)\<close> env(1) by (auto simp: vec_out_def)
  next
    case no: False
    define e where "e = (if e1 = FT_ERR_SUCCESS then FT_ERR_OUT_OF_RANGE else e1)"
    have "\<exists>st. chacha_loop env key nonce counter (span_bytes input len) len s1 0 = Inl st"
      if "e1 = FT_ERR_SUCCESS"
      using chacha_loop_spec [OF s1'(1), of len "span_bytes input len" 0 counter env key nonce] s1 inp no that
      by auto
    then have "?run = Some (o1\<lparr>vec_items := []\<rparr>, e)"
      unfolding crypto_chacha20_xor_def
      using null False s0(1) s1(1) vec_out_clear(1) [OF o1(2)] by (auto simp: o1(1) e_def)
    moreover have "counter \<noteq> 0" using False no s1(5) by (auto simp: stream_room_def)
    moreover have "e \<noteq> FT_ERR_SUCCESS" "e = FT_ERR_OUT_OF_RANGE \<or> e = FT_ERR_NO_MEMORY" using s1(4) by (auto simp: e_def)
    moreover have "\<not> (len \<le> stream_room counter \<and> (len \<le> SMALL_CAPACITY \<or> ve_malloc env len))" using s1(5) no by blast
    ultimately show ?thesis
      by (intro that [of "o1\<lparr>vec_items := []\<rparr>" e]) (simp_all add: vec_out_clear(2) [OF o1(2)])
  qed
qed

subsection \<open>Main property\<close>

text \<open>
  \<open>crypto_chacha20_xor\<close> on a readable input and a consistent output vector always returns.
  It succeeds exactly on inputs for which the 32-bit block counter does not run out (and is
  not zero), given the memory for the output; then the output is the
  input combined with the key stream, and the same call on that output gives the input
  back. On failure the output holds no byte of the stream.
\<close>

theorem chacha20_xor_stream:
  assumes "wf_vector_env env" "ve_element_size env = 1" "vec_out env output"
    and "length (span_bytes input len) = len" "len < 2 ^ 64" "counter \<noteq> 0"
  shows "\<exists>out' e. crypto_chacha20_xor env (Some key) (Some nonce) counter input len output = Some (out', e)
    \<and> vec_out env out'
    \<and> (e = FT_ERR_SUCCESS \<longrightarrow> len \<le> 64 * (2 ^ 32 - unat counter)
         \<and> (\<forall>i<len. vec_items out' ! i = span_bytes input len ! i XOR
              crypto_chacha20_block key (counter + word_of_nat (i div 64)) nonce ! (i mod 64))
         \<and> chacha20 key nonce counter (vec_items out') = span_bytes input len)
    \<and> (e \<noteq> FT_ERR_SUCCESS \<longrightarrow> vec_items out' = [])
    \<and> (len \<le> 64 * (2 ^ 32 - unat counter) \<and> (len \<le> SMALL_CAPACITY \<or> ve_malloc env len) \<longrightarrow> e = FT_ERR_SUCCESS)"
proof (rule chacha20_xor_spec [OF assms(1-5), of key nonce counter])
  fix out' e
  assume "crypto_chacha20_xor env (Some key) (Some nonce) counter input len output = Some (out', e)" "vec_out env out'"
    and ok: "e = FT_ERR_SUCCESS \<longrightarrow> vec_state out' = Initialised \<and> (len = 0 \<or> counter \<noteq> 0)
       \<and> len \<le> stream_room counter \<and> vec_items out' = chacha20 key nonce counter (span_bytes input len)"
    and no: "e \<noteq> FT_ERR_SUCCESS \<longrightarrow> (if counter = 0 then out' = output else vec_items out' = [])
       \<and> (e = FT_ERR_OUT_OF_RANGE \<or> e = FT_ERR_NO_MEMORY)"
    and room: "(len = 0 \<or> counter \<noteq> 0) \<and> len \<le> stream_room counter
       \<and> (len \<le> SMALL_CAPACITY \<or> ve_malloc env len) \<longrightarrow> e = FT_ERR_SUCCESS"
  moreover have "e = FT_ERR_SUCCESS \<longrightarrow> (\<forall>i<len. vec_items out' ! i = span_bytes input len ! i XOR
      crypto_chacha20_block key (counter + word_of_nat (i div 64)) nonce ! (i mod 64))"
    using ok assms(4) by (simp add: chacha20_def key_stream_def)
  moreover have "e = FT_ERR_SUCCESS \<longrightarrow> chacha20 key nonce counter (vec_items out') = span_bytes input len"
    using ok by (simp add: chacha20_involution)
  ultimately show ?thesis using assms(6) unfolding stream_room_def
    by (intro exI [of _ out'] exI [of _ e] conjI) simp_all
qed

text \<open>An environment with memory below half the address space, and a fresh output vector.\<close>

definition byte_vector_env :: vector_env where
  "byte_vector_env = \<lparr>ve_element_size = 1, ve_malloc = (\<lambda>n. n < 2 ^ 63), ve_lock = FT_ERR_SUCCESS,
     ve_mutex_new = True, ve_mutex_init = FT_ERR_SUCCESS, ve_mutex_destroy = FT_ERR_SUCCESS\<rparr>"

definition new_byte_vector :: "u8 ft_vector" where
  "new_byte_vector = \<lparr>vec_items = [], vec_capacity = 8, vec_block = 8, vec_small = True,
     vec_mutex = False, vec_state = Uninitialised\<rparr>"

lemma byte_vector_env_ok: "wf_vector_env byte_vector_env" "ve_element_size byte_vector_env = 1"
  "vec_out byte_vector_env new_byte_vector" "ve_malloc byte_vector_env n \<longleftrightarrow> n < 2 ^ 63"
  by (simp_all add: wf_vector_env_def byte_vector_env_def vec_out_def new_byte_vector_def SMALL_CAPACITY_def)

theorem chacha20_xor_stream_witness:
  "\<exists>out' e. crypto_chacha20_xor byte_vector_env (Some (replicate 32 1)) (Some (replicate 12 2)) 1
      (Some [3, 4, 5]) 3 new_byte_vector = Some (out', e) \<and> e = FT_ERR_SUCCESS
    \<and> chacha20 (replicate 32 1) (replicate 12 2) 1 (vec_items out') = [3, 4, 5]"
  using chacha20_xor_stream [OF byte_vector_env_ok(1-3), of "Some [3, 4, 5]" 3 1 "replicate 32 1" "replicate 12 2"]
  by (auto simp: SMALL_CAPACITY_def)

end
