(* ===== verification/Crypto_Poly1305.thy ===== *)
theory Crypto_Poly1305
  imports Crypto_Chacha20
begin

text \<open>
  The Poly1305 authenticator of \<^verbatim>\<open>src/Modules/Crypto/crypto_poly1305.cpp\<close>. The code keeps
  the accumulator in five 26-bit limbs of 32-bit words, multiplies in 64-bit words and
  carries in 32-bit words. The definitions keep every width; the lemmas show that nothing
  ever wraps, that one block step is multiplication modulo \<open>2 ^ 130 - 5\<close>, that the final carry and
  the masked selection give the least residue, and so that the tag is the
  polynomial of the message evaluated at the clamped key, plus the second half of the key, modulo \<open>2 ^ 128\<close>.
\<close>

subsection \<open>The code\<close>

type_synonym limbs = "u32 \<times> u32 \<times> u32 \<times> u32 \<times> u32"

type_synonym wide_limbs = "u64 \<times> u64 \<times> u64 \<times> u64 \<times> u64"

definition poly_key :: "bytes \<Rightarrow> limbs" where
  "poly_key key =
     (load_u32_le key 0 AND 0x3ffffff,
      drop_bit 2 (load_u32_le key 3) AND 0x3ffff03,
      drop_bit 4 (load_u32_le key 6) AND 0x3ffc0ff,
      drop_bit 6 (load_u32_le key 9) AND 0x3f03fff,
      drop_bit 8 (load_u32_le key 12) AND 0x00fffff)"

definition poly_load :: "bytes \<Rightarrow> u32 \<Rightarrow> limbs" where
  "poly_load block high_bit =
     (load_u32_le block 0 AND 0x3ffffff,
      drop_bit 2 (load_u32_le block 3) AND 0x3ffffff,
      drop_bit 4 (load_u32_le block 6) AND 0x3ffffff,
      drop_bit 6 (load_u32_le block 9) AND 0x3ffffff,
      drop_bit 8 (load_u32_le block 12) OR high_bit)"

definition poly_add :: "limbs \<Rightarrow> limbs \<Rightarrow> limbs" where
  "poly_add h t =
     (let (h0, h1, h2, h3, h4) = h; (t0, t1, t2, t3, t4) = t
      in (h0 + t0, h1 + t1, h2 + t2, h3 + t3, h4 + t4))"

definition poly_multiply :: "limbs \<Rightarrow> limbs \<Rightarrow> wide_limbs" where
  "poly_multiply h r =
     (let (h0, h1, h2, h3, h4) = h; (r0, r1, r2, r3, r4) = r in
      (ucast h0 * ucast r0 + ucast h1 * 5 * ucast r4 + ucast h2 * 5 * ucast r3
         + ucast h3 * 5 * ucast r2 + ucast h4 * 5 * ucast r1,
       ucast h0 * ucast r1 + ucast h1 * ucast r0 + ucast h2 * 5 * ucast r4
         + ucast h3 * 5 * ucast r3 + ucast h4 * 5 * ucast r2,
       ucast h0 * ucast r2 + ucast h1 * ucast r1 + ucast h2 * ucast r0
         + ucast h3 * 5 * ucast r4 + ucast h4 * 5 * ucast r3,
       ucast h0 * ucast r3 + ucast h1 * ucast r2 + ucast h2 * ucast r1
         + ucast h3 * ucast r0 + ucast h4 * 5 * ucast r4,
       ucast h0 * ucast r4 + ucast h1 * ucast r3 + ucast h2 * ucast r2
         + ucast h3 * ucast r1 + ucast h4 * ucast r0))"

definition low26 :: "u64 \<Rightarrow> u32" where
  "low26 d = ucast d AND 0x3ffffff"

definition carry26 :: "u64 \<Rightarrow> u32" where
  "carry26 d = ucast (drop_bit 26 d)"

definition poly_reduce :: "wide_limbs \<Rightarrow> limbs" where
  "poly_reduce d =
     (let (d0, d1, d2, d3, d4) = d;
          d1 = d1 + ucast (carry26 d0);
          d2 = d2 + ucast (carry26 d1);
          d3 = d3 + ucast (carry26 d2);
          d4 = d4 + ucast (carry26 d3);
          h0 = low26 d0 + carry26 d4 * 5
      in (h0 AND 0x3ffffff, low26 d1 + drop_bit 26 h0, low26 d2, low26 d3, low26 d4))"

definition poly_step :: "limbs \<Rightarrow> limbs \<Rightarrow> limbs \<Rightarrow> limbs" where
  "poly_step r h t = poly_reduce (poly_multiply (poly_add h t) r)"

function poly_blocks :: "limbs \<Rightarrow> limbs \<Rightarrow> bytes \<Rightarrow> limbs \<times> bytes" where
  "poly_blocks r h message =
     (if 16 \<le> length message
      then poly_blocks r (poly_step r h (poly_load message (push_bit 24 1))) (drop 16 message)
      else (h, message))"
  by pat_completeness auto
termination
  by (relation "measure (\<lambda>(r, h, m). length m)") auto

declare poly_blocks.simps [simp del]

definition poly_partial :: "limbs \<Rightarrow> limbs \<Rightarrow> bytes \<Rightarrow> limbs" where
  "poly_partial r h message =
     (if length message \<noteq> 0
      then poly_step r h (poly_load ((message @ replicate (16 - length message) 0)[length message := 1]) 0)
      else h)"

definition poly_carry :: "limbs \<Rightarrow> limbs" where
  "poly_carry h =
     (let (h0, h1, h2, h3, h4) = h;
          h2 = h2 + drop_bit 26 h1;
          h3 = h3 + drop_bit 26 h2;
          h4 = h4 + drop_bit 26 h3;
          h0 = h0 + drop_bit 26 h4 * 5
      in (h0 AND 0x3ffffff, (h1 AND 0x3ffffff) + drop_bit 26 h0, h2 AND 0x3ffffff,
          h3 AND 0x3ffffff, h4 AND 0x3ffffff))"

definition poly_freeze :: "limbs \<Rightarrow> limbs" where
  "poly_freeze h =
     (let (h0, h1, h2, h3, h4) = h;
          g0 = h0 + 5;
          g1 = h1 + drop_bit 26 g0;
          g2 = h2 + drop_bit 26 g1;
          g3 = h3 + drop_bit 26 g2;
          g4 = h4 + drop_bit 26 g3 - push_bit 26 1;
          mask = drop_bit 31 g4 - 1
      in (((g0 AND 0x3ffffff) AND mask) OR (h0 AND NOT mask),
          ((g1 AND 0x3ffffff) AND mask) OR (h1 AND NOT mask),
          ((g2 AND 0x3ffffff) AND mask) OR (h2 AND NOT mask),
          ((g3 AND 0x3ffffff) AND mask) OR (h3 AND NOT mask),
          (g4 AND mask) OR (h4 AND NOT mask)))"

definition poly_tag :: "limbs \<Rightarrow> bytes \<Rightarrow> bytes" where
  "poly_tag g key =
     (let (g0, g1, g2, g3, g4) = g;
          sum0 = (ucast (g0 OR push_bit 26 g1) :: u64) + ucast (load_u32_le key 16);
          sum1 = (ucast (drop_bit 6 g1 OR push_bit 20 g2) :: u64) + ucast (load_u32_le key 20)
                 + ucast (ucast (drop_bit 32 sum0) :: u32);
          sum2 = (ucast (drop_bit 12 g2 OR push_bit 14 g3) :: u64) + ucast (load_u32_le key 24)
                 + ucast (ucast (drop_bit 32 sum1) :: u32);
          sum3 = (ucast (drop_bit 18 g3 OR push_bit 8 g4) :: u64) + ucast (load_u32_le key 28)
                 + ucast (ucast (drop_bit 32 sum2) :: u32)
      in store_u32_le (ucast sum0) @ store_u32_le (ucast sum1)
         @ store_u32_le (ucast sum2) @ store_u32_le (ucast sum3))"

text \<open>The authenticator: an error code and what the tag buffer holds afterwards.\<close>

definition crypto_poly1305_auth :: "ptr \<Rightarrow> ptr \<Rightarrow> nat \<Rightarrow> ptr \<Rightarrow> ptr \<times> ft_err" where
  "crypto_poly1305_auth tag message len key =
     (if tag = None \<or> key = None \<or> null_span message len then (tag, FT_ERR_INVALID_ARGUMENT)
      else let r = poly_key (the key);
               (h, rest) = poly_blocks r (0, 0, 0, 0, 0) (span_bytes message len);
               g = poly_freeze (poly_carry (poly_partial r h rest))
           in (Some (poly_tag g (the key) @ drop 16 (the tag)), FT_ERR_SUCCESS))"

subsection \<open>The reference\<close>

text \<open>Little-endian numbers, the prime, and the polynomial of the message.\<close>

fun le_num :: "bytes \<Rightarrow> nat" where
  "le_num [] = 0"
| "le_num (b # bs) = unat b + 256 * le_num bs"

fun le_bytes :: "nat \<Rightarrow> nat \<Rightarrow> bytes" where
  "le_bytes 0 x = []"
| "le_bytes (Suc n) x = word_of_nat (x mod 256) # le_bytes n (x div 256)"

definition poly_prime :: nat where
  "poly_prime = 2 ^ 130 - 5"

function poly_eval :: "nat \<Rightarrow> nat \<Rightarrow> bytes \<Rightarrow> nat" where
  "poly_eval r acc m =
     (if m = [] then acc
      else poly_eval r ((acc + le_num (take 16 m @ [1])) * r mod poly_prime) (drop 16 m))"
  by pat_completeness auto
termination
  by (relation "measure (\<lambda>(r, a, m). length m)") auto

declare poly_eval.simps [simp del]

definition clamp :: "nat \<Rightarrow> nat" where
  "clamp x = x AND 0x0ffffffc0ffffffc0ffffffc0fffffff"

definition poly1305 :: "bytes \<Rightarrow> bytes \<Rightarrow> bytes" where
  "poly1305 key m =
     le_bytes 16 ((poly_eval (clamp (le_num (take 16 key))) 0 m
                   + le_num (take 16 (drop 16 key))) mod 2 ^ 128)"

subsection \<open>Words as numbers\<close>

lemma take_bit_nat_mod: "take_bit n (x::nat) = x mod 2 ^ n"
  by (simp add: take_bit_eq_mod)

lemma drop_bit_nat_div: "drop_bit n (x::nat) = x div 2 ^ n"
  by (simp add: drop_bit_eq_div)

lemma unat_and_low26: "unat (x AND 0x3ffffff :: u32) = unat x mod 2 ^ 26"
proof -
  have "(0x3ffffff :: u32) = mask 26" by (simp add: mask_eq_exp_minus_1)
  then have "x AND 0x3ffffff = take_bit 26 x" by (simp add: take_bit_eq_mask)
  then show ?thesis by (simp add: unsigned_take_bit_eq take_bit_nat_mod)
qed

lemma unat_drop_bit32: "unat (drop_bit n (x::u32)) = unat x div 2 ^ n"
  by (simp add: unat_drop_bit_eq drop_bit_nat_div)

lemma unat_low26: "unat (low26 d) = unat d mod 2 ^ 26"
proof -
  have "unat (ucast d :: u32) = unat d mod 2 ^ 32"
    by (simp add: unsigned_ucast_eq take_bit_nat_mod)
  then show ?thesis by (simp add: low26_def unat_and_low26 mod_mod_cancel)
qed

lemma unat_carry26: "unat d < 2 ^ 58 \<Longrightarrow> unat (carry26 d) = unat d div 2 ^ 26"
proof -
  assume "unat d < 2 ^ 58"
  then have "unat d div 2 ^ 26 < 2 ^ 32" by (simp add: less_mult_imp_div_less)
  then show ?thesis
    by (simp add: carry26_def unsigned_ucast_eq unat_drop_bit_eq drop_bit_nat_div take_bit_nat_mod)
qed

lemma unat_wide: "unat (ucast (x::u32) :: u64) = unat x"
proof -
  have "unat x < 2 ^ 32" using unsigned_less [of x, where ?'a = nat] by simp
  then show ?thesis by (simp add: unsigned_ucast_eq take_bit_nat_mod)
qed

lemma wide_of_nat: "(ucast (x::u32) :: u64) = word_of_nat (unat x)"
  by (rule word_unat_eq_iff [THEN iffD2]) (use unsigned_less [of x, where ?'a = nat] in \<open>simp add: unat_wide unat_of_nat\<close>)

subsection \<open>One block\<close>

fun limb_value :: "limbs \<Rightarrow> nat" where
  "limb_value (h0, h1, h2, h3, h4) =
     unat h0 + 2 ^ 26 * unat h1 + 2 ^ 52 * unat h2 + 2 ^ 78 * unat h3 + 2 ^ 104 * unat h4"

fun wide_value :: "wide_limbs \<Rightarrow> nat" where
  "wide_value (d0, d1, d2, d3, d4) =
     unat d0 + 2 ^ 26 * unat d1 + 2 ^ 52 * unat d2 + 2 ^ 78 * unat d3 + 2 ^ 104 * unat d4"

text \<open>
  Limbs of a loaded block, of the clamped key, of the accumulator between blocks (its
  second limb may exceed 26 bits by a small carry), and of a sum of the first and third.
\<close>

fun block_limbs :: "limbs \<Rightarrow> bool" where
  "block_limbs (h0, h1, h2, h3, h4) \<longleftrightarrow>
     unat h0 < 2 ^ 26 \<and> unat h1 < 2 ^ 26 \<and> unat h2 < 2 ^ 26 \<and> unat h3 < 2 ^ 26 \<and> unat h4 < 2 ^ 26"

fun key_limbs :: "limbs \<Rightarrow> bool" where
  "key_limbs (r0, r1, r2, r3, r4) \<longleftrightarrow> block_limbs (r0, r1, r2, r3, r4) \<and> unat r4 < 2 ^ 20"

fun reduced :: "limbs \<Rightarrow> bool" where
  "reduced (h0, h1, h2, h3, h4) \<longleftrightarrow>
     unat h0 < 2 ^ 26 \<and> unat h1 < 2 ^ 26 + 64 \<and> unat h2 < 2 ^ 26 \<and> unat h3 < 2 ^ 26 \<and> unat h4 < 2 ^ 26"

fun loose :: "limbs \<Rightarrow> bool" where
  "loose (h0, h1, h2, h3, h4) \<longleftrightarrow>
     unat h0 \<le> 2 ^ 27 + 64 \<and> unat h1 \<le> 2 ^ 27 + 64 \<and> unat h2 \<le> 2 ^ 27 + 64
     \<and> unat h3 \<le> 2 ^ 27 + 64 \<and> unat h4 \<le> 2 ^ 27 + 64"

lemma unat_add32: "unat (a::u32) + unat b < 2 ^ 32 \<Longrightarrow> unat (a + b) = unat a + unat b"
  using unat_add_lem [of a b] by simp

lemma unat_add64: "unat (a::u64) + unat b < 2 ^ 64 \<Longrightarrow> unat (a + b) = unat a + unat b"
  using unat_add_lem [of a b] by simp

lemma poly_add_spec:
  assumes "reduced h" "block_limbs t"
  shows "loose (poly_add h t)" "limb_value (poly_add h t) = limb_value h + limb_value t"
proof -
  obtain h0 h1 h2 h3 h4 t0 t1 t2 t3 t4 where ht: "h = (h0, h1, h2, h3, h4)" "t = (t0, t1, t2, t3, t4)"
    by (cases h, cases t) auto
  have "unat (h0 + t0) = unat h0 + unat t0" "unat (h1 + t1) = unat h1 + unat t1"
    "unat (h2 + t2) = unat h2 + unat t2" "unat (h3 + t3) = unat h3 + unat t3"
    "unat (h4 + t4) = unat h4 + unat t4"
    using assms by (auto simp: ht intro!: unat_add32)
  then show "loose (poly_add h t)" "limb_value (poly_add h t) = limb_value h + limb_value t"
    using assms by (simp_all add: ht poly_add_def)
qed

lemma unat_of_nat64: "n < 2 ^ 64 \<Longrightarrow> unat (word_of_nat n :: u64) = n"
  by (simp add: unat_of_nat)

lemma product_bound:
  assumes "unat (h::u32) \<le> 2 ^ 27 + 64" "unat (r::u32) < 2 ^ n"
  shows "unat h * unat r \<le> (2 ^ 27 + 64) * 2 ^ n"
  using assms by (intro mult_le_mono) simp_all

lemma dot_product:
  fixes h0 h1 h2 h3 h4 r0 r1 r2 r3 r4 :: u32 and c1 c2 c3 c4 :: nat
  assumes "N = unat h0 * unat r0 + unat h1 * c1 * unat r1 + unat h2 * c2 * unat r2
      + unat h3 * c3 * unat r3 + unat h4 * c4 * unat r4" "N < 2 ^ 64"
  shows "unat ((ucast h0 :: u64) * ucast r0 + ucast h1 * word_of_nat c1 * ucast r1
      + ucast h2 * word_of_nat c2 * ucast r2 + ucast h3 * word_of_nat c3 * ucast r3
      + ucast h4 * word_of_nat c4 * ucast r4) = N"
proof -
  have "(ucast h0 :: u64) * ucast r0 + ucast h1 * word_of_nat c1 * ucast r1
      + ucast h2 * word_of_nat c2 * ucast r2 + ucast h3 * word_of_nat c3 * ucast r3
      + ucast h4 * word_of_nat c4 * ucast r4 = word_of_nat N"
    unfolding assms(1) of_nat_add of_nat_mult wide_of_nat ..
  then show ?thesis using assms(2) by (simp only: unat_of_nat64)
qed

fun wide_bound :: "wide_limbs \<Rightarrow> bool" where
  "wide_bound (d0, d1, d2, d3, d4) \<longleftrightarrow>
     unat d0 < 2 ^ 58 - 2 ^ 32 \<and> unat d1 < 2 ^ 58 - 2 ^ 32 \<and> unat d2 < 2 ^ 58 - 2 ^ 32
     \<and> unat d3 < 2 ^ 58 - 2 ^ 32 \<and> unat d4 < 2 ^ 55 + 2 ^ 48"

lemma poly_multiply_spec:
  assumes "loose h" "key_limbs r"
  shows "wide_bound (poly_multiply h r)"
    "wide_value (poly_multiply h r) mod poly_prime = limb_value h * limb_value r mod poly_prime"
proof -
  obtain h0 h1 h2 h3 h4 r0 r1 r2 r3 r4 where hr: "h = (h0, h1, h2, h3, h4)" "r = (r0, r1, r2, r3, r4)"
    by (cases h, cases r) auto
  obtain d0 d1 d2 d3 d4 where d: "poly_multiply h r = (d0, d1, d2, d3, d4)"
    by (cases "poly_multiply h r") auto
  have b: "unat x * unat y \<le> (2 ^ 27 + 64) * 2 ^ 26"
    if "x \<in> {h0, h1, h2, h3, h4}" "y \<in> {r0, r1, r2, r3}" for x y
    using that assms by (intro product_bound) (auto simp: hr)
  have b4: "unat x * unat r4 \<le> (2 ^ 27 + 64) * 2 ^ 20" if "x \<in> {h0, h1, h2, h3, h4}" for x
    using that assms by (intro product_bound) (auto simp: hr)
  note bs = b [of h0 r0] b [of h0 r1] b [of h0 r2] b [of h0 r3] b4 [of h0]
    b [of h1 r0] b [of h1 r1] b [of h1 r2] b [of h1 r3] b4 [of h1]
    b [of h2 r0] b [of h2 r1] b [of h2 r2] b [of h2 r3] b4 [of h2]
    b [of h3 r0] b [of h3 r1] b [of h3 r2] b [of h3 r3] b4 [of h3]
    b [of h4 r0] b [of h4 r1] b [of h4 r2] b [of h4 r3] b4 [of h4]
  have d0: "unat d0 = unat h0 * unat r0 + unat h1 * 5 * unat r4 + unat h2 * 5 * unat r3
      + unat h3 * 5 * unat r2 + unat h4 * 5 * unat r1"
    using dot_product [OF refl, of h0 r0 h1 5 r4 h2 5 r3 h3 5 r2 h4 5 r1] d bs
    by (simp add: poly_multiply_def hr)
  have d1: "unat d1 = unat h0 * unat r1 + unat h1 * unat r0 + unat h2 * 5 * unat r4
      + unat h3 * 5 * unat r3 + unat h4 * 5 * unat r2"
    using dot_product [OF refl, of h0 r1 h1 1 r0 h2 5 r4 h3 5 r3 h4 5 r2] d bs
    by (simp add: poly_multiply_def hr)
  have d2: "unat d2 = unat h0 * unat r2 + unat h1 * unat r1 + unat h2 * unat r0
      + unat h3 * 5 * unat r4 + unat h4 * 5 * unat r3"
    using dot_product [OF refl, of h0 r2 h1 1 r1 h2 1 r0 h3 5 r4 h4 5 r3] d bs
    by (simp add: poly_multiply_def hr)
  have d3: "unat d3 = unat h0 * unat r3 + unat h1 * unat r2 + unat h2 * unat r1
      + unat h3 * unat r0 + unat h4 * 5 * unat r4"
    using dot_product [OF refl, of h0 r3 h1 1 r2 h2 1 r1 h3 1 r0 h4 5 r4] d bs
    by (simp add: poly_multiply_def hr)
  have d4: "unat d4 = unat h0 * unat r4 + unat h1 * unat r3 + unat h2 * unat r2
      + unat h3 * unat r1 + unat h4 * unat r0"
    using dot_product [OF refl, of h0 r4 h1 1 r3 h2 1 r2 h3 1 r1 h4 1 r0] d bs
    by (simp add: poly_multiply_def hr)
  show "wide_bound (poly_multiply h r)" using bs by (simp add: d d0 d1 d2 d3 d4)
  let ?k = "unat h1 * unat r4 + unat h2 * unat r3 + unat h3 * unat r2 + unat h4 * unat r1
    + 2 ^ 26 * (unat h2 * unat r4 + unat h3 * unat r3 + unat h4 * unat r2)
    + 2 ^ 52 * (unat h3 * unat r4 + unat h4 * unat r3) + 2 ^ 78 * (unat h4 * unat r4)"
  have "limb_value h * limb_value r = wide_value (poly_multiply h r) + poly_prime * ?k"
    unfolding d unfolding hr limb_value.simps wide_value.simps d0 d1 d2 d3 d4
    by (simp add: poly_prime_def algebra_simps)
  then show "wide_value (poly_multiply h r) mod poly_prime = limb_value h * limb_value r mod poly_prime"
    by simp
qed

text \<open>Carrying through five digits of base \<open>2 ^ 26\<close>, as a linear fact.\<close>

lemma carry_chain:
  fixes d0 d1 d2 d3 d4 q0 q1 q2 q3 q4 m0 m1 m2 m3 m4 :: nat
  assumes "q0 * 2 ^ 26 + m0 = d0" "q1 * 2 ^ 26 + m1 = d1 + q0" "q2 * 2 ^ 26 + m2 = d2 + q1"
    "q3 * 2 ^ 26 + m3 = d3 + q2" "q4 * 2 ^ 26 + m4 = d4 + q3"
  shows "d0 + 2 ^ 26 * d1 + 2 ^ 52 * d2 + 2 ^ 78 * d3 + 2 ^ 104 * d4
    = m0 + 2 ^ 26 * m1 + 2 ^ 52 * m2 + 2 ^ 78 * m3 + 2 ^ 104 * m4 + 2 ^ 130 * q4"
  using assms by simp

lemma digits26: "x div 2 ^ 26 * 2 ^ 26 + x mod 2 ^ 26 = (x::nat)"
  by (rule div_mult_mod_eq)

lemma low_carry: "x mod 2 ^ 26 + 2 ^ 26 * (b + x div 2 ^ 26) = x + 2 ^ 26 * (b::nat)"
  using mod_mult_div_eq [of x "2 ^ 26"] unfolding distrib_left by linarith

lemma poly_reduce_spec:
  assumes "wide_bound d"
  shows "reduced (poly_reduce d)" "limb_value (poly_reduce d) mod poly_prime = wide_value d mod poly_prime"
proof -
  obtain d0 d1 d2 d3 d4 where d: "d = (d0, d1, d2, d3, d4)" by (cases d) auto
  define e1 where "e1 = d1 + ucast (carry26 d0)"
  define e2 where "e2 = d2 + ucast (carry26 e1)"
  define e3 where "e3 = d3 + ucast (carry26 e2)"
  define e4 where "e4 = d4 + ucast (carry26 e3)"
  define h0 where "h0 = low26 d0 + carry26 e4 * 5"
  have step: "unat (x + ucast (carry26 y)) = unat x + unat y div 2 ^ 26 \<and> unat (x + ucast (carry26 y)) < unat x + 2 ^ 32"
    if "unat x < 2 ^ 58" "unat y < 2 ^ 58" for x y :: u64
  proof -
    have "unat y div 2 ^ 26 < 2 ^ 32" using that by (simp add: less_mult_imp_div_less)
    then show ?thesis
      using unat_add64 [of x "ucast (carry26 y)"] that by (simp add: unat_wide unat_carry26)
  qed
  have e1: "unat e1 = unat d1 + unat d0 div 2 ^ 26" "unat e1 < 2 ^ 58"
    using step [of d1 d0] assms by (auto simp: e1_def d)
  have e2: "unat e2 = unat d2 + unat e1 div 2 ^ 26" "unat e2 < 2 ^ 58"
    using step [of d2 e1] e1(2) assms by (auto simp: e2_def d)
  have e3: "unat e3 = unat d3 + unat e2 div 2 ^ 26" "unat e3 < 2 ^ 58"
    using step [of d3 e2] e2(2) assms by (auto simp: e3_def d)
  have e4: "unat e4 = unat d4 + unat e3 div 2 ^ 26" "unat e4 < 2 ^ 55 + 2 ^ 48 + 2 ^ 32"
    using step [of d4 e3] e3(2) assms by (auto simp: e4_def d)
  have c: "unat e4 div 2 ^ 26 < 2 ^ 29 + 2 ^ 23"
    using e4(2) by (simp add: less_mult_imp_div_less)
  have "unat (carry26 e4 * 5) = unat e4 div 2 ^ 26 * 5"
    using unat_mult_lem [of "carry26 e4" 5] c e4(2) by (simp add: unat_carry26)
  then have h0: "unat h0 = unat d0 mod 2 ^ 26 + unat e4 div 2 ^ 26 * 5"
    using unat_add32 [of "low26 d0" "carry26 e4 * 5"] c mod_less_divisor [of "2 ^ 26" "unat d0"]
    by (simp add: h0_def unat_low26)
  have h0_le: "unat h0 div 2 ^ 26 < 64"
    using h0 c mod_less_divisor [of "2 ^ 26" "unat d0"] by (simp add: less_mult_imp_div_less)
  have h1: "unat (low26 e1 + drop_bit 26 h0) = unat e1 mod 2 ^ 26 + unat h0 div 2 ^ 26"
    using unat_add32 [of "low26 e1" "drop_bit 26 h0"] h0_le mod_less_divisor [of "2 ^ 26" "unat e1"]
    by (simp add: unat_low26 unat_drop_bit32)
  have r: "poly_reduce d = (h0 AND 0x3ffffff, low26 e1 + drop_bit 26 h0, low26 e2, low26 e3, low26 e4)"
    by (simp add: d poly_reduce_def Let_def e1_def e2_def e3_def e4_def h0_def)
  show "reduced (poly_reduce d)"
    using h0_le h1 mod_less_divisor [of "2 ^ 26" "unat e1"] by (simp add: r unat_and_low26 unat_low26)
  have "wide_value d = unat d0 mod 2 ^ 26 + 2 ^ 26 * (unat e1 mod 2 ^ 26) + 2 ^ 52 * (unat e2 mod 2 ^ 26)
      + 2 ^ 78 * (unat e3 mod 2 ^ 26) + 2 ^ 104 * (unat e4 mod 2 ^ 26) + 2 ^ 130 * (unat e4 div 2 ^ 26)"
    unfolding d wide_value.simps
    by (rule carry_chain [where ?q0.0 = "unat d0 div 2 ^ 26" and ?q1.0 = "unat e1 div 2 ^ 26"
          and ?q2.0 = "unat e2 div 2 ^ 26" and ?q3.0 = "unat e3 div 2 ^ 26"])
      (simp_all only: digits26 e1(1) [symmetric] e2(1) [symmetric] e3(1) [symmetric] e4(1) [symmetric])
  moreover have "2 ^ 130 * k = poly_prime * k + k * 5" for k by (simp add: poly_prime_def)
  moreover have "limb_value (poly_reduce d) = unat h0 + 2 ^ 26 * (unat e1 mod 2 ^ 26) + 2 ^ 52 * (unat e2 mod 2 ^ 26)
      + 2 ^ 78 * (unat e3 mod 2 ^ 26) + 2 ^ 104 * (unat e4 mod 2 ^ 26)"
    unfolding r limb_value.simps h1 unat_and_low26 unat_low26 low_carry ..
  ultimately have "limb_value (poly_reduce d) + poly_prime * (unat e4 div 2 ^ 26) = wide_value d"
    using h0 by simp
  then show "limb_value (poly_reduce d) mod poly_prime = wide_value d mod poly_prime"
    by (metis mod_mult_self2)
qed

lemma poly_step_spec:
  assumes "key_limbs r" "reduced h" "block_limbs t"
  shows "reduced (poly_step r h t)"
    "limb_value (poly_step r h t) mod poly_prime = (limb_value h + limb_value t) * limb_value r mod poly_prime"
  using poly_add_spec [OF assms(2,3)] poly_multiply_spec [OF _ assms(1), of "poly_add h t"]
    poly_reduce_spec [of "poly_multiply (poly_add h t) r"]
  by (simp_all add: poly_step_def)

subsection \<open>Loading\<close>

lemma le_num_append: "le_num (xs @ ys) = le_num xs + 256 ^ length xs * le_num ys"
  by (induction xs) (simp_all add: algebra_simps)

lemma le_num_less: "le_num xs < 256 ^ length xs"
proof (induction xs)
  case (Cons b bs)
  have "unat b < 256" using unsigned_less [of b, where ?'a = nat] by simp
  then show ?case using Cons by simp
qed simp

lemma le_num_zeros [simp]: "le_num (replicate n 0) = 0"
  by (induction n) simp_all

lemma or_push_bit_nat:
  fixes a b :: nat
  assumes "a < 2 ^ n"
  shows "a OR push_bit n b = a + 2 ^ n * b"
proof -
  have "take_bit n (a + 2 ^ n * b) = a" "drop_bit n (a + 2 ^ n * b) = b"
    using assms by (simp_all add: take_bit_nat_mod drop_bit_nat_div)
  moreover have "take_bit n x OR push_bit n (drop_bit n x) = x" for x :: nat
    by (rule bit_eqI) (auto simp: bit_or_iff bit_take_bit_iff bit_push_bit_iff bit_drop_bit_eq,
        metis le_add_diff_inverse not_le)
  ultimately show ?thesis by metis
qed

lemma push_bit_nat_mult: "push_bit n (x::nat) = 2 ^ n * x"
  by (simp add: push_bit_eq_mult)

lemma unat_push_byte: "n \<le> 24 \<Longrightarrow> unat (push_bit n (ucast (b::u8)) :: u32) = push_bit n (unat b)"
proof -
  assume n: "n \<le> 24"
  have b: "unat b < 2 ^ 8" using unsigned_less [of b, where ?'a = nat] by simp
  then have u: "unat (ucast b :: u32) = unat b" by (simp add: unsigned_ucast_eq take_bit_nat_mod)
  have "2 ^ n * unat b < 2 ^ n * 2 ^ 8" using b by simp
  also have "\<dots> \<le> 2 ^ 24 * 2 ^ 8" using n by (intro mult_right_mono power_increasing) simp_all
  finally show ?thesis
    by (simp add: unsigned_push_bit_eq u take_bit_nat_mod push_bit_nat_mult)
qed

lemma unat_load_4: "unat (load_u32_le [a, b, c, d] 0) = le_num [a, b, c, d]"
proof -
  have l: "unat x < 2 ^ 8" for x :: u8 using unsigned_less [of x, where ?'a = nat] by simp
  have "unat (load_u32_le [a, b, c, d] 0)
      = ((unat a OR push_bit 8 (unat b)) OR push_bit 16 (unat c)) OR push_bit 24 (unat d)"
    using unat_push_byte [of 0 a] unat_push_byte [of 8 b] unat_push_byte [of 16 c] unat_push_byte [of 24 d]
    by (simp add: load_u32_le_def unsigned_or_eq or.assoc)
  also have "\<dots> = unat a + 2 ^ 8 * unat b + 2 ^ 16 * unat c + 2 ^ 24 * unat d"
    using l [of a] l [of b] l [of c] l [of d] by (simp add: or_push_bit_nat)
  finally show ?thesis by simp
qed

lemma load_split: "load_u32_le (xs @ [a, b, c, d] @ ys) (length xs) = load_u32_le [a, b, c, d] 0"
  by (simp add: load_u32_le_def nth_append)

lemma unat_load:
  assumes "off + 4 \<le> length data"
  shows "unat (load_u32_le data off) = le_num data div 256 ^ off mod 2 ^ 32"
proof -
  let ?xs = "take off data"
  obtain a b c d ys where "drop off data = [a, b, c, d] @ ys"
  proof -
    have "4 \<le> length (drop off data)" using assms by simp
    then show ?thesis using that
      by (cases "drop off data" rule: list.exhaust; simp add: Suc_le_length_iff numeral_eq_Suc) blast
  qed
  then have data: "data = ?xs @ [a, b, c, d] @ ys" and off: "length ?xs = off"
    using assms by (metis append_take_drop_id, simp)
  have "unat (load_u32_le data off) = le_num [a, b, c, d]"
    using load_split [of ?xs a b c d ys] off data unat_load_4 by metis
  moreover have "le_num data = le_num ?xs + 256 ^ off * (le_num [a, b, c, d] + 2 ^ 32 * le_num ys)"
    using le_num_append [of ?xs "[a, b, c, d] @ ys"] off data by simp
  moreover have "le_num ?xs < 256 ^ off" using le_num_less [of ?xs] off by simp
  moreover have "le_num [a, b, c, d] < 2 ^ 32" using le_num_less [of "[a, b, c, d]"] by simp
  ultimately show ?thesis by simp
qed

text \<open>The five digits of a 128-bit number.\<close>

lemma digits128:
  "x mod 2 ^ 128 = x mod 2 ^ 26 + 2 ^ 26 * (x div 2 ^ 26 mod 2 ^ 26) + 2 ^ 52 * (x div 2 ^ 52 mod 2 ^ 26)
     + 2 ^ 78 * (x div 2 ^ 78 mod 2 ^ 26) + 2 ^ 104 * (x div 2 ^ 104 mod 2 ^ 24)" for x :: nat
  using mod_mult2_eq [of x "2 ^ 26" "2 ^ 26"] mod_mult2_eq [of x "2 ^ 52" "2 ^ 26"]
    mod_mult2_eq [of x "2 ^ 78" "2 ^ 26"] mod_mult2_eq [of x "2 ^ 104" "2 ^ 24"]
  by simp

lemma window:
  assumes "k + n \<le> 32"
  shows "(x div 2 ^ a mod 2 ^ 32) div 2 ^ k mod 2 ^ n = x div 2 ^ (a + k) mod (2 ^ n :: nat)"
proof -
  have "take_bit n (drop_bit k (take_bit 32 (drop_bit a x))) = take_bit n (drop_bit (a + k) x)"
    using assms by (simp add: drop_bit_take_bit take_bit_take_bit add.commute min_absorb1)
  then show ?thesis unfolding take_bit_nat_mod drop_bit_nat_div .
qed

lemma unat_or_shift24:
  assumes "unat (x::u32) < 2 ^ 24"
  shows "unat (x OR push_bit 24 1) = unat x + 2 ^ 24"
proof -
  have "unat (push_bit 24 1 :: u32) = push_bit 24 (1::nat)"
    by (simp add: unsigned_push_bit_eq take_bit_nat_mod push_bit_nat_mult)
  then show ?thesis using or_push_bit_nat [OF assms, of 1] by (simp add: unsigned_or_eq)
qed

lemma le_num_take: "le_num (take n xs) = le_num xs mod 256 ^ n" if "n \<le> length xs"
proof -
  have "le_num xs = le_num (take n xs) + 256 ^ n * le_num (drop n xs)"
    using le_num_append [of "take n xs" "drop n xs"] that by simp
  moreover have "le_num (take n xs) < 256 ^ n" using le_num_less [of "take n xs"] that by simp
  ultimately show ?thesis by simp
qed

lemma load_digits:
  assumes "16 \<le> length data"
  defines "x \<equiv> le_num data"
  shows "unat (load_u32_le data 0) mod 2 ^ 26 = x mod 2 ^ 26"
    "unat (drop_bit 2 (load_u32_le data 3)) mod 2 ^ 26 = x div 2 ^ 26 mod 2 ^ 26"
    "unat (drop_bit 4 (load_u32_le data 6)) mod 2 ^ 26 = x div 2 ^ 52 mod 2 ^ 26"
    "unat (drop_bit 6 (load_u32_le data 9)) mod 2 ^ 26 = x div 2 ^ 78 mod 2 ^ 26"
    "unat (drop_bit 8 (load_u32_le data 12)) = x div 2 ^ 104 mod 2 ^ 24"
proof -
  have w: "unat (drop_bit k (load_u32_le data off)) mod 2 ^ n = x div 2 ^ (8 * off + k) mod 2 ^ n"
    if "off + 4 \<le> 16" "k + n \<le> 32" for k off n
    using that unat_load [of off data] window [of k n x "8 * off"] assms
    by (simp add: unat_drop_bit32 power_mult)
  show "unat (load_u32_le data 0) mod 2 ^ 26 = x mod 2 ^ 26" using w [of 0 0 26] by simp
  show "unat (drop_bit 2 (load_u32_le data 3)) mod 2 ^ 26 = x div 2 ^ 26 mod 2 ^ 26" using w [of 3 2 26] by simp
  show "unat (drop_bit 4 (load_u32_le data 6)) mod 2 ^ 26 = x div 2 ^ 52 mod 2 ^ 26" using w [of 6 4 26] by simp
  show "unat (drop_bit 6 (load_u32_le data 9)) mod 2 ^ 26 = x div 2 ^ 78 mod 2 ^ 26" using w [of 9 6 26] by simp
  have "unat (load_u32_le data 12) < 2 ^ 32" using unsigned_less [of "load_u32_le data 12", where ?'a = nat] by simp
  then have "unat (drop_bit 8 (load_u32_le data 12)) < 2 ^ 24"
    by (simp add: unat_drop_bit32 less_mult_imp_div_less)
  then show "unat (drop_bit 8 (load_u32_le data 12)) = x div 2 ^ 104 mod 2 ^ 24" using w [of 12 8 24] by simp
qed

lemma poly_load_spec:
  assumes "16 \<le> length b"
  shows "block_limbs (poly_load b (push_bit 24 1))"
    "limb_value (poly_load b (push_bit 24 1)) = le_num (take 16 b @ [1])"
    "block_limbs (poly_load b 0)" "limb_value (poly_load b 0) = le_num (take 16 b)"
proof -
  note digits = load_digits [OF assms]
  have t: "le_num (take 16 b) = le_num b mod 2 ^ 128" using le_num_take [OF assms] by simp
  have l4: "unat (drop_bit 8 (load_u32_le b 12)) < 2 ^ 24" by (simp add: digits(5))
  have o4: "unat (drop_bit 8 (load_u32_le b 12) OR push_bit 24 1)
      = le_num b div 2 ^ 104 mod 2 ^ 24 + 2 ^ 24"
    using unat_or_shift24 [OF l4] by (simp only: digits(5))
  have small: "le_num b div 2 ^ 104 mod 2 ^ 24 < 2 ^ 24" by simp
  show "block_limbs (poly_load b 0)"
    unfolding poly_load_def using l4 by (simp add: unat_and_low26)
  show "block_limbs (poly_load b (push_bit 24 1))"
    unfolding poly_load_def block_limbs.simps unat_and_low26 o4 using small by simp
  show v: "limb_value (poly_load b 0) = le_num (take 16 b)"
    unfolding poly_load_def limb_value.simps unat_and_low26 or.right_neutral digits t digits128 ..
  have "limb_value (poly_load b (push_bit 24 1)) = le_num (take 16 b) + 2 ^ 128"
    unfolding poly_load_def limb_value.simps unat_and_low26 o4 digits t digits128 by simp
  then show "limb_value (poly_load b (push_bit 24 1)) = le_num (take 16 b @ [1])"
    using assms by (simp add: le_num_append)
qed

subsection \<open>The clamped key\<close>

lemma and_digit:
  fixes a b c d :: nat
  assumes "a < 2 ^ n" "c < 2 ^ n"
  shows "(a + 2 ^ n * b) AND (c + 2 ^ n * d) = (a AND c) + 2 ^ n * (b AND d)"
proof -
  have "(a OR push_bit n b) AND (c OR push_bit n d) = (a AND c) OR push_bit n (b AND d)"
  proof (rule bit_eqI)
    fix k
    have "\<not> bit a k" "\<not> bit c k" if "n \<le> k"
      using that assms by (metis bit_take_bit_iff take_bit_nat_eq_self not_le)+
    then show "bit ((a OR push_bit n b) AND (c OR push_bit n d)) k = bit ((a AND c) OR push_bit n (b AND d)) k"
      by (auto simp: bit_or_iff bit_and_iff bit_push_bit_iff)
  qed
  moreover have "a AND c < 2 ^ n"
    using assms(1) by (metis take_bit_and take_bit_nat_eq_self_iff take_bit_nat_eq_self assms(2))
  ultimately show ?thesis by (simp only: or_push_bit_nat [OF assms(1)] or_push_bit_nat [OF assms(2)] or_push_bit_nat)
qed

lemma and_less_pow:
  assumes "(b::nat) < 2 ^ n"
  shows "a AND b < 2 ^ n"
proof -
  have "take_bit n (a AND b) = a AND take_bit n b" by (rule bit_eqI) (auto simp: bit_and_iff bit_take_bit_iff)
  then show ?thesis using assms by (metis take_bit_nat_eq_self take_bit_nat_less_exp)
qed

lemma unat_and_digit:
  assumes "unat (m::u32) < 2 ^ n"
  shows "unat (x AND m) = (unat x mod 2 ^ n) AND unat m"
proof -
  have "k < n" if "bit (unat m) k" for k
    using that assms by (metis bit_take_bit_iff take_bit_nat_eq_self)
  then have "unat x AND unat m = take_bit n (unat x) AND unat m"
    by (intro bit_eqI) (auto simp: bit_and_iff bit_take_bit_iff)
  then show ?thesis by (simp add: unsigned_and_eq take_bit_nat_mod)
qed

lemma poly_key_spec:
  assumes "16 \<le> length key"
  shows "key_limbs (poly_key key)" "limb_value (poly_key key) = clamp (le_num (take 16 key))"
proof -
  let ?x = "le_num key"
  note digits = load_digits [OF assms]
  have m: "unat (x AND m) = d AND unat m" if "unat x mod 2 ^ 26 = d" "unat m < 2 ^ 26" for x m :: u32 and d
    using that unat_and_digit by blast
  have r: "unat (load_u32_le key 0 AND 0x3ffffff) = (?x mod 2 ^ 26) AND 0x3ffffff"
    "unat (drop_bit 2 (load_u32_le key 3) AND 0x3ffff03) = (?x div 2 ^ 26 mod 2 ^ 26) AND 0x3ffff03"
    "unat (drop_bit 4 (load_u32_le key 6) AND 0x3ffc0ff) = (?x div 2 ^ 52 mod 2 ^ 26) AND 0x3ffc0ff"
    "unat (drop_bit 6 (load_u32_le key 9) AND 0x3f03fff) = (?x div 2 ^ 78 mod 2 ^ 26) AND 0x3f03fff"
    subgoal using m [OF digits(1), of "0x3ffffff"] by simp
    subgoal using m [OF digits(2), of "0x3ffff03"] by simp
    subgoal using m [OF digits(3), of "0x3ffc0ff"] by simp
    subgoal using m [OF digits(4), of "0x3f03fff"] by simp
    done
  have r4: "unat (drop_bit 8 (load_u32_le key 12) AND 0x00fffff) = (?x div 2 ^ 104 mod 2 ^ 24) AND 0x00fffff"
    using unat_and_digit [of "0xfffff" 24 "drop_bit 8 (load_u32_le key 12)"] digits(5) by simp
  show "key_limbs (poly_key key)"
    unfolding poly_key_def key_limbs.simps block_limbs.simps r r4 by (intro conjI and_less_pow) simp_all
  have "clamp (le_num (take 16 key)) = (?x mod 2 ^ 128) AND 0x0ffffffc0ffffffc0ffffffc0fffffff"
    using le_num_take [OF assms] by (simp add: clamp_def)
  also have "?x mod 2 ^ 128 = ?x mod 2 ^ 26 + 2 ^ 26 * (?x div 2 ^ 26 mod 2 ^ 26 + 2 ^ 26 * (?x div 2 ^ 52 mod 2 ^ 26
     + 2 ^ 26 * (?x div 2 ^ 78 mod 2 ^ 26 + 2 ^ 26 * (?x div 2 ^ 104 mod 2 ^ 24))))"
    unfolding digits128 by simp
  also have "(0x0ffffffc0ffffffc0ffffffc0fffffff :: nat) = 0x3ffffff + 2 ^ 26 * (0x3ffff03 + 2 ^ 26 * (0x3ffc0ff
     + 2 ^ 26 * (0x3f03fff + 2 ^ 26 * 0x00fffff)))" by simp
  finally have cl: "clamp (le_num (take 16 key)) = (?x mod 2 ^ 26 + 2 ^ 26 * (?x div 2 ^ 26 mod 2 ^ 26
     + 2 ^ 26 * (?x div 2 ^ 52 mod 2 ^ 26 + 2 ^ 26 * (?x div 2 ^ 78 mod 2 ^ 26 + 2 ^ 26 * (?x div 2 ^ 104 mod 2 ^ 24)))))
     AND (0x3ffffff + 2 ^ 26 * (0x3ffff03 + 2 ^ 26 * (0x3ffc0ff + 2 ^ 26 * (0x3f03fff + 2 ^ 26 * 0x00fffff))))" .
  have dig: "(d0 + 2 ^ 26 * (d1 + 2 ^ 26 * (d2 + 2 ^ 26 * (d3 + 2 ^ 26 * d4))))
      AND (0x3ffffff + 2 ^ 26 * (0x3ffff03 + 2 ^ 26 * (0x3ffc0ff + 2 ^ 26 * (0x3f03fff + 2 ^ 26 * 0x00fffff))))
    = (d0 AND 0x3ffffff) + 2 ^ 26 * (d1 AND 0x3ffff03) + 2 ^ 52 * (d2 AND 0x3ffc0ff)
      + 2 ^ 78 * (d3 AND 0x3f03fff) + 2 ^ 104 * (d4 AND 0x00fffff)"
    if "d0 < 2 ^ 26" "d1 < 2 ^ 26" "d2 < 2 ^ 26" "d3 < 2 ^ 26" for d0 d1 d2 d3 d4 :: nat
  proof -
    have l: "(0x3ffffff::nat) < 2 ^ 26" "(0x3ffff03::nat) < 2 ^ 26" "(0x3ffc0ff::nat) < 2 ^ 26" "(0x3f03fff::nat) < 2 ^ 26"
      by simp_all
    show ?thesis
      unfolding and_digit [OF that(1) l(1)] and_digit [OF that(2) l(2)] and_digit [OF that(3) l(3)]
        and_digit [OF that(4) l(4)]
      by (simp del: and_numerals)
  qed
  show "limb_value (poly_key key) = clamp (le_num (take 16 key))"
    unfolding cl poly_key_def limb_value.simps r r4 by (rule dig [symmetric]) simp_all
qed

subsection \<open>The whole message\<close>

lemma poly_eval_step:
  "m \<noteq> [] \<Longrightarrow> poly_eval r acc m = poly_eval r ((acc + le_num (take 16 m @ [1])) * r mod poly_prime) (drop 16 m)"
  by (subst poly_eval.simps) simp

lemma poly_eval_Nil [simp]: "poly_eval r acc [] = acc"
  by (simp add: poly_eval.simps)

lemma eval_acc_mod: "(acc mod poly_prime + t) * r mod poly_prime = (acc + t) * r mod poly_prime"
  by (metis mod_add_left_eq mod_mult_left_eq)

lemma poly_blocks_spec:
  assumes "key_limbs r" "reduced h"
  shows "reduced (fst (poly_blocks r h m)) \<and> length (snd (poly_blocks r h m)) < 16
    \<and> poly_eval (limb_value r) (limb_value h mod poly_prime) m
      = poly_eval (limb_value r) (limb_value (fst (poly_blocks r h m)) mod poly_prime) (snd (poly_blocks r h m))"
  using assms
proof (induction r h m rule: poly_blocks.induct)
  case (1 r h m)
  show ?case
  proof (cases "16 \<le> length m")
    case True
    note load = poly_load_spec(1,2) [OF True]
    note step = poly_step_spec [OF 1(2,3) load(1)]
    have ne: "m \<noteq> []" using True by auto
    have "poly_eval (limb_value r) (limb_value h mod poly_prime) m
      = poly_eval (limb_value r) (limb_value (poly_step r h (poly_load m (push_bit 24 1))) mod poly_prime) (drop 16 m)"
      by (simp only: poly_eval_step [OF ne] step(2) load(2) eval_acc_mod)
    moreover have "poly_blocks r h m = poly_blocks r (poly_step r h (poly_load m (push_bit 24 1))) (drop 16 m)"
      using True by (subst poly_blocks.simps) simp
    ultimately show ?thesis using 1(1) [OF True 1(2) step(1)] by simp
  next
    case False
    then show ?thesis using 1(3) by (simp add: poly_blocks.simps [of r h m])
  qed
qed

lemma poly_partial_spec:
  assumes "key_limbs r" "reduced h" "length m < 16"
  shows "reduced (poly_partial r h m)
    \<and> limb_value (poly_partial r h m) mod poly_prime = poly_eval (limb_value r) (limb_value h mod poly_prime) m"
proof (cases "m = []")
  case False
  let ?b = "(m @ replicate (16 - length m) 0)[length m := 1]"
  have b: "?b = m @ [1] @ replicate (15 - length m) 0"
    using assms(3) by (simp add: list_update_append) (simp add: Suc_diff_Suc [symmetric] numeral_eq_Suc)
  have "16 \<le> length ?b" using assms(3) by simp
  note load = poly_load_spec(3,4) [OF this]
  have "take 16 ?b = ?b" using assms(3) by simp
  then have v: "limb_value (poly_load ?b 0) = le_num (take 16 m @ [1])"
    using load(2) assms(3) by (simp add: b le_num_append)
  have e: "drop 16 m = []" using assms(3) by simp
  have "poly_eval (limb_value r) (limb_value h mod poly_prime) m
      = (limb_value h mod poly_prime + le_num (take 16 m @ [1])) * limb_value r mod poly_prime"
    using poly_eval_step [OF False] by (simp add: e)
  also have "\<dots> = (limb_value h + le_num (take 16 m @ [1])) * limb_value r mod poly_prime"
    by (rule eval_acc_mod)
  finally show ?thesis using poly_step_spec [OF assms(1,2) load(1)] False v by (simp add: poly_partial_def)
qed (use assms in \<open>simp add: poly_partial_def\<close>)

lemma add_carry32:
  assumes "unat (x::u32) < 2 ^ 26" "unat (y::u32) < 2 ^ 27"
  shows "unat (x + drop_bit 26 y) = unat x + unat y div 2 ^ 26 \<and> unat y div 2 ^ 26 \<le> 1"
proof -
  have "unat y div 2 ^ 26 < 2" using assms by (simp add: less_mult_imp_div_less)
  then show ?thesis using unat_add32 [of x "drop_bit 26 y"] assms by (simp add: unat_drop_bit32)
qed

lemma four_digits:
  fixes a b c d :: nat
  assumes "a < 2 ^ 26" "b < 2 ^ 26" "c < 2 ^ 26" "d < 2 ^ 26"
  shows "a + 2 ^ 26 * b + 2 ^ 52 * c + 2 ^ 78 * d < 2 ^ 104"
  using assms by simp

lemma poly_carry_spec:
  assumes "reduced h"
  shows "block_limbs (poly_carry h)" "limb_value (poly_carry h) mod poly_prime = limb_value h mod poly_prime"
proof -
  obtain h0 h1 h2 h3 h4 where h: "h = (h0, h1, h2, h3, h4)" by (cases h) auto
  define k2 where "k2 = h2 + drop_bit 26 h1"
  define k3 where "k3 = h3 + drop_bit 26 k2"
  define k4 where "k4 = h4 + drop_bit 26 k3"
  define k0 where "k0 = h0 + drop_bit 26 k4 * 5"
  have k2: "unat k2 = unat h2 + unat h1 div 2 ^ 26" "unat h1 div 2 ^ 26 \<le> 1"
    using add_carry32 [of h2 h1] assms by (auto simp: h k2_def)
  have k3: "unat k3 = unat h3 + unat k2 div 2 ^ 26" "unat k2 div 2 ^ 26 \<le> 1"
    using add_carry32 [of h3 k2] k2 assms by (auto simp: h k3_def)
  have k4: "unat k4 = unat h4 + unat k3 div 2 ^ 26" "unat k3 div 2 ^ 26 \<le> 1"
    using add_carry32 [of h4 k3] k3 assms by (auto simp: h k4_def)
  have c4: "unat k4 div 2 ^ 26 \<le> 1" using add_carry32 [of 0 k4] k4 assms by (auto simp: h)
  have "unat (drop_bit 26 k4 * 5) = unat k4 div 2 ^ 26 * 5"
    using unat_mult_lem [of "drop_bit 26 k4" 5] c4 by (simp add: unat_drop_bit32)
  then have k0: "unat k0 = unat h0 + unat k4 div 2 ^ 26 * 5"
    using unat_add32 [of h0 "drop_bit 26 k4 * 5"] c4 assms by (simp add: h k0_def)
  have c0: "unat k0 div 2 ^ 26 \<le> 1" using add_carry32 [of 0 k0] k0 c4 assms by (auto simp: h)
  have small: "unat x div 2 ^ 26 = 0" if "unat x < 2 ^ 26" for x :: u32 using that by simp
  have l1: "unat h1 mod 2 ^ 26 + unat k0 div 2 ^ 26 < 2 ^ 26"
  proof (cases "unat h1 < 2 ^ 26")
    case True
    then have "unat k2 = unat h2" using k2(1) by simp
    then have "unat k3 = unat h3" using k3(1) assms by (simp add: h)
    then have "unat k4 = unat h4" using k4(1) assms by (simp add: h)
    then have "unat k0 = unat h0" using k0 assms by (simp add: h)
    then show ?thesis using True assms by (simp add: h)
  next
    case False
    moreover have "unat h1 < 2 ^ 26 + 64" using assms by (simp add: h)
    ultimately have "unat h1 mod 2 ^ 26 < 64" by (simp add: le_mod_geq)
    then show ?thesis using c0 by simp
  qed
  have h1: "unat ((h1 AND 0x3ffffff) + drop_bit 26 k0) = unat h1 mod 2 ^ 26 + unat k0 div 2 ^ 26"
    using unat_add32 [of "h1 AND 0x3ffffff" "drop_bit 26 k0"] l1 by (simp add: unat_and_low26 unat_drop_bit32)
  have r: "poly_carry h = (k0 AND 0x3ffffff, (h1 AND 0x3ffffff) + drop_bit 26 k0, k2 AND 0x3ffffff,
      k3 AND 0x3ffffff, k4 AND 0x3ffffff)"
    by (simp add: h poly_carry_def Let_def k2_def k3_def k4_def k0_def)
  show "block_limbs (poly_carry h)"
    unfolding r block_limbs.simps unat_and_low26 h1 using l1 by simp
  have "limb_value h = unat h0 + 2 ^ 26 * (unat h1 mod 2 ^ 26) + 2 ^ 52 * (unat k2 mod 2 ^ 26)
      + 2 ^ 78 * (unat k3 mod 2 ^ 26) + 2 ^ 104 * (unat k4 mod 2 ^ 26) + 2 ^ 130 * (unat k4 div 2 ^ 26)"
    unfolding h limb_value.simps
    by (rule carry_chain [where ?q0.0 = 0 and ?q1.0 = "unat h1 div 2 ^ 26"
          and ?q2.0 = "unat k2 div 2 ^ 26" and ?q3.0 = "unat k3 div 2 ^ 26"])
      (simp_all only: digits26 add_0_right k2(1) [symmetric] k3(1) [symmetric] k4(1) [symmetric] mult_zero_left add_0)
  moreover have "2 ^ 130 * k = poly_prime * k + k * 5" for k by (simp add: poly_prime_def)
  moreover have "limb_value (poly_carry h) = unat k0 + 2 ^ 26 * (unat h1 mod 2 ^ 26) + 2 ^ 52 * (unat k2 mod 2 ^ 26)
      + 2 ^ 78 * (unat k3 mod 2 ^ 26) + 2 ^ 104 * (unat k4 mod 2 ^ 26)"
    unfolding r limb_value.simps h1 unat_and_low26 low_carry ..
  ultimately have "limb_value (poly_carry h) + poly_prime * (unat k4 div 2 ^ 26) = limb_value h"
    using k0 by simp
  then show "limb_value (poly_carry h) mod poly_prime = limb_value h mod poly_prime"
    by (metis mod_mult_self2)
qed

lemma block_value_less: "block_limbs h \<Longrightarrow> limb_value h < 2 ^ 130"
  by (cases h) simp

lemma poly_freeze_spec:
  assumes "block_limbs h"
  shows "block_limbs (poly_freeze h)" "limb_value (poly_freeze h) = limb_value h mod poly_prime"
proof -
  obtain h0 h1 h2 h3 h4 where h: "h = (h0, h1, h2, h3, h4)" by (cases h) auto
  define g0 where "g0 = h0 + 5"
  define g1 where "g1 = h1 + drop_bit 26 g0"
  define g2 where "g2 = h2 + drop_bit 26 g1"
  define g3 where "g3 = h3 + drop_bit 26 g2"
  define s where "s = h4 + drop_bit 26 g3"
  have g0: "unat g0 = unat h0 + 5" using unat_add32 [of h0 5] assms by (simp add: h g0_def)
  have g1: "unat g1 = unat h1 + unat g0 div 2 ^ 26" "unat g0 div 2 ^ 26 \<le> 1"
    using add_carry32 [of h1 g0] g0 assms by (auto simp: h g1_def)
  have g2: "unat g2 = unat h2 + unat g1 div 2 ^ 26" "unat g1 div 2 ^ 26 \<le> 1"
    using add_carry32 [of h2 g1] g1 assms by (auto simp: h g2_def)
  have g3: "unat g3 = unat h3 + unat g2 div 2 ^ 26" "unat g2 div 2 ^ 26 \<le> 1"
    using add_carry32 [of h3 g2] g2 assms by (auto simp: h g3_def)
  have s: "unat s = unat h4 + unat g3 div 2 ^ 26" "unat g3 div 2 ^ 26 \<le> 1"
    using add_carry32 [of h4 g3] g3 assms by (auto simp: h s_def)
  define mask where "mask = drop_bit 31 (s - push_bit 26 1) - 1"
  have r: "poly_freeze h = (((g0 AND 0x3ffffff) AND mask) OR (h0 AND NOT mask),
          ((g1 AND 0x3ffffff) AND mask) OR (h1 AND NOT mask),
          ((g2 AND 0x3ffffff) AND mask) OR (h2 AND NOT mask),
          ((g3 AND 0x3ffffff) AND mask) OR (h3 AND NOT mask),
          ((s - push_bit 26 1) AND mask) OR (h4 AND NOT mask))"
    by (simp add: h poly_freeze_def Let_def g0_def g1_def g2_def g3_def s_def mask_def)
  let ?low = "unat g0 mod 2 ^ 26 + 2 ^ 26 * (unat g1 mod 2 ^ 26) + 2 ^ 52 * (unat g2 mod 2 ^ 26)
      + 2 ^ 78 * (unat g3 mod 2 ^ 26)"
  have "(unat h0 + 5) + 2 ^ 26 * unat h1 + 2 ^ 52 * unat h2 + 2 ^ 78 * unat h3 + 2 ^ 104 * unat h4
      = ?low + 2 ^ 104 * unat s + 2 ^ 130 * 0"
    by (rule carry_chain [where ?q0.0 = "unat g0 div 2 ^ 26" and ?q1.0 = "unat g1 div 2 ^ 26"
          and ?q2.0 = "unat g2 div 2 ^ 26" and ?q3.0 = "unat g3 div 2 ^ 26"])
      (simp_all only: digits26 g0 [symmetric] g1(1) [symmetric] g2(1) [symmetric] g3(1) [symmetric]
        s(1) [symmetric] mult_zero_left add_0)
  then have sum: "limb_value h + 5 = ?low + 2 ^ 104 * unat s" by (simp add: h)
  have low: "?low < 2 ^ 104" by (rule four_digits) simp_all
  have "unat s \<le> 2 ^ 26" using s assms by (simp add: h)
  then consider "unat s = 2 ^ 26" | "unat s < 2 ^ 26" by linarith
  then have "block_limbs (poly_freeze h) \<and> limb_value (poly_freeze h) = limb_value h mod poly_prime"
  proof cases
    case 1
    then have "s = push_bit 26 1" by (simp add: word_unat_eq_iff)
    then have "poly_freeze h = (g0 AND 0x3ffffff, g1 AND 0x3ffffff, g2 AND 0x3ffffff, g3 AND 0x3ffffff, 0)"
      by (simp add: r mask_def)
    moreover have "limb_value h = ?low + poly_prime" using sum 1 unfolding poly_prime_def by simp
    moreover have "?low < poly_prime" using low by (simp add: poly_prime_def)
    ultimately show ?thesis by (simp add: unat_and_low26)
  next
    case 2
    have "unat (s - push_bit 26 1) = 2 ^ 32 - 2 ^ 26 + unat s"
    proof -
      have "(67108864 :: u32) + 4227858432 = 0" by simp
      then have "- push_bit 26 1 = (word_of_nat (2 ^ 32 - 2 ^ 26) :: u32)" by (simp add: minus_equation_iff neg_eq_iff_add_eq_0)
      then have "unat (s - push_bit 26 1) = unat (s + word_of_nat (2 ^ 32 - 2 ^ 26))"
        by (metis diff_conv_add_uminus)
      also have "\<dots> = unat s + (2 ^ 32 - 2 ^ 26)" using 2 by (subst unat_add32) simp_all
      finally show ?thesis by simp
    qed
    then have "unat (drop_bit 31 (s - push_bit 26 1)) = 1" using 2 by (simp add: unat_drop_bit32)
    then have "drop_bit 31 (s - push_bit 26 1) = 1" by (simp add: word_unat_eq_iff)
    then have "mask = 0" by (simp add: mask_def)
    then have "poly_freeze h = h" unfolding r by (simp add: h)
    moreover have "limb_value h < poly_prime" using sum 2 low by (simp add: poly_prime_def)
    ultimately show ?thesis using assms by simp
  qed
  then show "block_limbs (poly_freeze h)" "limb_value (poly_freeze h) = limb_value h mod poly_prime" by auto
qed

subsection \<open>The tag\<close>

lemma unat_or_shift:
  assumes "unat (a::u32) < 2 ^ n" "n \<le> 32"
  shows "unat (a OR push_bit n b) = unat a + 2 ^ n * (unat b mod 2 ^ (32 - n))"
proof -
  have "unat (push_bit n b) = push_bit n (take_bit (32 - n) (unat b))"
    using assms(2) by (simp add: unsigned_push_bit_eq take_bit_push_bit)
  then show ?thesis using or_push_bit_nat [OF assms(1)] by (simp add: unsigned_or_eq take_bit_nat_mod)
qed

text \<open>Five 26-bit digits as four 32-bit ones.\<close>

lemma regroup:
  fixes g0 g1 g2 g3 g4 :: nat
  shows "g0 + 2 ^ 26 * g1 + 2 ^ 52 * g2 + 2 ^ 78 * g3 + 2 ^ 104 * g4
    = (g0 + 2 ^ 26 * (g1 mod 2 ^ 6)) + 2 ^ 32 * (g1 div 2 ^ 6 + 2 ^ 20 * (g2 mod 2 ^ 12))
      + 2 ^ 64 * (g2 div 2 ^ 12 + 2 ^ 14 * (g3 mod 2 ^ 18))
      + 2 ^ 96 * (g3 div 2 ^ 18 + 2 ^ 8 * (g4 mod 2 ^ 24)) + 2 ^ 128 * (g4 div 2 ^ 24)"
proof -
  have "a1 + b1 * 2 ^ 6 = g1 \<Longrightarrow> a2 + b2 * 2 ^ 12 = g2 \<Longrightarrow> a3 + b3 * 2 ^ 18 = g3 \<Longrightarrow> a4 + b4 * 2 ^ 24 = g4
    \<Longrightarrow> g0 + 2 ^ 26 * g1 + 2 ^ 52 * g2 + 2 ^ 78 * g3 + 2 ^ 104 * g4
    = (g0 + 2 ^ 26 * a1) + 2 ^ 32 * (b1 + 2 ^ 20 * a2) + 2 ^ 64 * (b2 + 2 ^ 14 * a3)
      + 2 ^ 96 * (b3 + 2 ^ 8 * a4) + 2 ^ 128 * b4" for a1 a2 a3 a4 b1 b2 b3 b4 :: nat
    by simp
  then show ?thesis using mod_div_mult_eq by blast
qed

lemma add_with_carry:
  fixes w0 w1 w2 w3 p0 p1 p2 p3 :: nat
  assumes "f0 + c0 * 2 ^ 32 = w0 + p0" "f1 + c1 * 2 ^ 32 = w1 + p1 + c0"
    "f2 + c2 * 2 ^ 32 = w2 + p2 + c1" "f3 + c3 * 2 ^ 32 = w3 + p3 + c2"
  shows "(w0 + 2 ^ 32 * w1 + 2 ^ 64 * w2 + 2 ^ 96 * w3) + (p0 + 2 ^ 32 * p1 + 2 ^ 64 * p2 + 2 ^ 96 * p3)
    = f0 + 2 ^ 32 * f1 + 2 ^ 64 * f2 + 2 ^ 96 * f3 + 2 ^ 128 * c3"
  using assms by simp

lemma digits32:
  "x mod 2 ^ 128 = x mod 2 ^ 32 + 2 ^ 32 * (x div 2 ^ 32 mod 2 ^ 32) + 2 ^ 64 * (x div 2 ^ 64 mod 2 ^ 32)
     + 2 ^ 96 * (x div 2 ^ 96 mod 2 ^ 32)" for x :: nat
  using mod_mult2_eq [of x "2 ^ 32" "2 ^ 32"] mod_mult2_eq [of x "2 ^ 64" "2 ^ 32"]
    mod_mult2_eq [of x "2 ^ 96" "2 ^ 32"]
  by simp

lemma le_num_pads:
  assumes "32 \<le> length key"
  shows "le_num (take 16 (drop 16 key)) = unat (load_u32_le key 16) + 2 ^ 32 * unat (load_u32_le key 20)
    + 2 ^ 64 * unat (load_u32_le key 24) + 2 ^ 96 * unat (load_u32_le key 28)"
proof -
  let ?k = "drop 16 key"
  have l: "load_u32_le key (16 + off) = load_u32_le ?k off" if "off + 4 \<le> 16" for off
    using that assms by (simp add: load_u32_le_def add.assoc)
  have "unat (load_u32_le ?k off) = le_num ?k div 256 ^ off mod 2 ^ 32" if "off + 4 \<le> 16" for off
    using that assms by (intro unat_load) simp
  then have "unat (load_u32_le key 16) = le_num ?k mod 2 ^ 32" "unat (load_u32_le key 20) = le_num ?k div 2 ^ 32 mod 2 ^ 32"
    "unat (load_u32_le key 24) = le_num ?k div 2 ^ 64 mod 2 ^ 32" "unat (load_u32_le key 28) = le_num ?k div 2 ^ 96 mod 2 ^ 32"
    using l [of 0] l [of 4] l [of 8] l [of 12] by (auto simp flip: power_mult)
  moreover have "le_num (take 16 ?k) = le_num ?k mod 2 ^ 128" using le_num_take [of 16 ?k] assms by simp
  ultimately show ?thesis by (simp only: digits32)
qed

lemma unat_low_byte: "unat (ucast (drop_bit n x) :: u8) = unat (x::u32) div 2 ^ n mod 2 ^ 8"
  by (simp add: unsigned_ucast_eq unat_drop_bit32 take_bit_nat_mod)

lemma le_num_store [simp]: "le_num (store_u32_le x) = unat x"
proof -
  have "unat x < 2 ^ 32" using unsigned_less [of x, where ?'a = nat] by simp
  then have "unat x = unat x mod 2 ^ 32" by simp
  also have "\<dots> = unat x mod 2 ^ 8 + 2 ^ 8 * (unat x div 2 ^ 8 mod 2 ^ 8) + 2 ^ 16 * (unat x div 2 ^ 16 mod 2 ^ 8)
      + 2 ^ 24 * (unat x div 2 ^ 24 mod 2 ^ 8)"
    using mod_mult2_eq [of "unat x" "2 ^ 8" "2 ^ 8"] mod_mult2_eq [of "unat x" "2 ^ 16" "2 ^ 8"]
      mod_mult2_eq [of "unat x" "2 ^ 24" "2 ^ 8"]
    by simp
  finally show ?thesis
    using unat_low_byte [of 0 x] unat_low_byte [of 8 x] unat_low_byte [of 16 x] unat_low_byte [of 24 x]
    by (simp add: store_u32_le_def)
qed

lemma length_store_u32_le [simp]: "length (store_u32_le x) = 4"
  by (simp add: store_u32_le_def)

lemma length_le_bytes [simp]: "length (le_bytes n x) = n"
  by (induction n arbitrary: x) simp_all

lemma le_num_le_bytes: "le_num (le_bytes n x) = x mod 256 ^ n"
  by (induction n arbitrary: x) (simp_all add: unat_of_nat mod_mult2_eq)

lemma le_bytes_le_num [simp]: "le_bytes (length xs) (le_num xs) = xs"
proof (induction xs)
  case (Cons b bs)
  have "unat b < 256" using unsigned_less [of b, where ?'a = nat] by simp
  then show ?case using Cons by simp
qed simp

lemma poly_tag_spec:
  assumes "block_limbs g" "32 \<le> length key"
  shows "poly_tag g key = le_bytes 16 ((limb_value g + le_num (take 16 (drop 16 key))) mod 2 ^ 128)"
proof -
  obtain g0 g1 g2 g3 g4 where g: "g = (g0, g1, g2, g3, g4)" by (cases g) auto
  let ?w0 = "g0 OR push_bit 26 g1" and ?w1 = "drop_bit 6 g1 OR push_bit 20 g2"
    and ?w2 = "drop_bit 12 g2 OR push_bit 14 g3" and ?w3 = "drop_bit 18 g3 OR push_bit 8 g4"
  let ?p = "\<lambda>i. load_u32_le key i"
  define up where "up x = (ucast (ucast (drop_bit 32 x) :: u32) :: u64)" for x :: u64
  define s0 where "s0 = (ucast ?w0 :: u64) + ucast (?p 16)"
  define s1 where "s1 = (ucast ?w1 :: u64) + ucast (?p 20) + up s0"
  define s2 where "s2 = (ucast ?w2 :: u64) + ucast (?p 24) + up s1"
  define s3 where "s3 = (ucast ?w3 :: u64) + ucast (?p 28) + up s2"
  have tag: "poly_tag g key = store_u32_le (ucast s0) @ store_u32_le (ucast s1)
      @ store_u32_le (ucast s2) @ store_u32_le (ucast s3)"
    by (simp add: g poly_tag_def Let_def s0_def s1_def s2_def s3_def up_def)
  have lt: "unat (x::u32) < 2 ^ 32" for x using unsigned_less [of x, where ?'a = nat] by simp
  have up: "unat (up x) = unat x div 2 ^ 32" for x
  proof -
    have "unat x < 2 ^ 64" using unsigned_less [of x, where ?'a = nat] by simp
    then have "unat x div 2 ^ 32 < 2 ^ 32" by (simp add: less_mult_imp_div_less)
    then show ?thesis
      unfolding up_def unat_wide by (simp add: unsigned_ucast_eq unat_drop_bit_eq take_bit_nat_mod drop_bit_nat_div)
  qed
  have upl: "unat (up x) < 2 ^ 32" for x unfolding up_def unat_wide by (rule lt)
  have sum: "unat ((ucast x :: u64) + ucast y) = unat x + unat y"
    "unat ((ucast x :: u64) + ucast y + up z) = unat x + unat y + unat z div 2 ^ 32" for x y :: u32 and z
  proof -
    show *: "unat ((ucast x :: u64) + ucast y) = unat x + unat y"
      using lt [of x] lt [of y] by (subst unat_add64) (simp_all add: unat_wide)
    show "unat ((ucast x :: u64) + ucast y + up z) = unat x + unat y + unat z div 2 ^ 32"
      using lt [of x] lt [of y] upl [of z] by (subst unat_add64) (simp_all add: * up)
  qed
  have low: "unat (ucast x :: u32) = unat x mod 2 ^ 32" for x :: u64
    by (simp add: unsigned_ucast_eq take_bit_nat_mod)
  let ?f = "\<lambda>x. unat (x::u64) mod 2 ^ 32"
  have total: "le_num (poly_tag g key) = ?f s0 + 2 ^ 32 * ?f s1 + 2 ^ 64 * ?f s2 + 2 ^ 96 * ?f s3"
    by (simp add: tag le_num_append low)
  have words: "unat ?w0 = unat g0 + 2 ^ 26 * (unat g1 mod 2 ^ 6)" "unat ?w1 = unat g1 div 2 ^ 6 + 2 ^ 20 * (unat g2 mod 2 ^ 12)"
    "unat ?w2 = unat g2 div 2 ^ 12 + 2 ^ 14 * (unat g3 mod 2 ^ 18)" "unat ?w3 = unat g3 div 2 ^ 18 + 2 ^ 8 * (unat g4 mod 2 ^ 24)"
    subgoal using assms(1) by (subst unat_or_shift) (simp_all add: g)
    subgoal using assms(1) by (subst unat_or_shift) (simp_all add: g unat_drop_bit32 less_mult_imp_div_less)
    subgoal using assms(1) by (subst unat_or_shift) (simp_all add: g unat_drop_bit32 less_mult_imp_div_less)
    subgoal using assms(1) by (subst unat_or_shift) (simp_all add: g unat_drop_bit32 less_mult_imp_div_less)
    done
  have v: "limb_value g = unat ?w0 + 2 ^ 32 * unat ?w1 + 2 ^ 64 * unat ?w2 + 2 ^ 96 * unat ?w3
      + 2 ^ 128 * (unat g4 div 2 ^ 24)"
    unfolding g limb_value.simps words by (rule regroup)
  have carry: "(unat ?w0 + 2 ^ 32 * unat ?w1 + 2 ^ 64 * unat ?w2 + 2 ^ 96 * unat ?w3) + le_num (take 16 (drop 16 key))
      = le_num (poly_tag g key) + 2 ^ 128 * (unat s3 div 2 ^ 32)"
    unfolding total le_num_pads [OF assms(2)]
    by (rule add_with_carry [where ?c0.0 = "unat s0 div 2 ^ 32" and ?c1.0 = "unat s1 div 2 ^ 32" and ?c2.0 = "unat s2 div 2 ^ 32"])
      (simp_all only: mod_div_mult_eq s0_def s1_def s2_def s3_def sum)
  have "limb_value g + le_num (take 16 (drop 16 key))
      = le_num (poly_tag g key) + 2 ^ 128 * (unat s3 div 2 ^ 32 + unat g4 div 2 ^ 24)"
    using carry unfolding v by (simp add: distrib_left)
  moreover have len: "length (poly_tag g key) = 16" by (simp add: tag)
  then have "le_num (poly_tag g key) < 2 ^ 128" using le_num_less [of "poly_tag g key"] by simp
  ultimately have "(limb_value g + le_num (take 16 (drop 16 key))) mod 2 ^ 128 = le_num (poly_tag g key)"
    by (metis mod_less mod_mult_self2)
  then show ?thesis using le_bytes_le_num [of "poly_tag g key"] len by simp
qed

lemma reduced_zero: "reduced (0, 0, 0, 0, 0)" "limb_value (0, 0, 0, 0, 0) = 0"
  by simp_all

lemma poly_eval_less: "acc < poly_prime \<Longrightarrow> poly_eval r acc m < poly_prime"
proof (induction r acc m rule: poly_eval.induct)
  case (1 r acc m)
  have "0 < poly_prime" by (simp add: poly_prime_def)
  then show ?case using 1 by (subst poly_eval.simps) simp
qed

lemma poly1305_auth_spec:
  assumes "32 \<le> length key" "\<not> null_span message len"
  shows "crypto_poly1305_auth (Some tag) message len (Some key)
    = (Some (poly1305 key (span_bytes message len) @ drop 16 tag), FT_ERR_SUCCESS)"
proof -
  let ?m = "span_bytes message len" and ?r = "poly_key key"
  have k: "key_limbs ?r" "limb_value ?r = clamp (le_num (take 16 key))" using poly_key_spec [of key] assms by auto
  obtain h rest where b: "poly_blocks ?r (0, 0, 0, 0, 0) ?m = (h, rest)" by (cases "poly_blocks ?r (0, 0, 0, 0, 0) ?m")
  then have h: "reduced h" "length rest < 16"
    "poly_eval (limb_value ?r) 0 ?m = poly_eval (limb_value ?r) (limb_value h mod poly_prime) rest"
    using poly_blocks_spec [OF k(1) reduced_zero(1), of ?m] reduced_zero(2) by auto
  note p = poly_partial_spec [OF k(1) h(1,2)]
  note c = poly_carry_spec [OF conjunct1 [OF p]]
  note f = poly_freeze_spec [OF c(1)]
  have "limb_value (poly_freeze (poly_carry (poly_partial ?r h rest))) = poly_eval (limb_value ?r) 0 ?m"
    using f(2) c(2) p h(3) by simp
  then show ?thesis
    using poly_tag_spec [OF f(1) assms(1)] assms(2) b k(2) by (simp add: crypto_poly1305_auth_def poly1305_def)
qed

subsection \<open>Main property\<close>

text \<open>
  C10: \<open>crypto_poly1305_auth\<close> writes the Poly1305 tag: the polynomial of the message blocks,
  each with a one byte appended, evaluated at the clamped first half of the key modulo
  \<open>2 ^ 130 - 5\<close>, plus the second half of the key modulo \<open>2 ^ 128\<close>, in little-endian
  order. So the 26-bit limbs never lose a carry, for any message of any length.
\<close>

theorem poly1305_auth_correct:
  assumes "32 \<le> length key" "readable message len" "16 \<le> length tag"
  shows "\<exists>t. crypto_poly1305_auth (Some tag) message len (Some key) = (Some (t @ drop 16 tag), FT_ERR_SUCCESS)
    \<and> length t = 16
    \<and> le_num t = (poly_eval (clamp (le_num (take 16 key))) 0 (span_bytes message len)
                   + le_num (take 16 (drop 16 key))) mod 2 ^ 128"
proof -
  show ?thesis
    using poly1305_auth_spec [OF assms(1) not_null_readable [OF assms(2)], of tag]
    by (intro exI [of _ "poly1305 key (span_bytes message len)"]) (simp add: poly1305_def le_num_le_bytes)
qed

theorem poly1305_auth_correct_witness:
  "\<exists>t. crypto_poly1305_auth (Some (replicate 16 0)) (Some [1, 2, 3]) 2 (Some (replicate 32 1)) = (Some t, FT_ERR_SUCCESS)
    \<and> le_num t = (poly_eval (clamp (le_num (replicate 16 1))) 0 [1, 2] + le_num (replicate 16 1)) mod 2 ^ 128"
  using poly1305_auth_correct [of "replicate 32 1" "Some [1, 2, 3]" 2 "replicate 16 0"]
  by simp blast

end
