(* ===== verification/Sha256_Standard.thy ===== *)
theory Sha256_Standard
  imports Complex_Main Libft_Prelude
begin

text \<open>
  The hash function SHA-256 as FIPS 180-4 states it, written without reference to the code: the six logical
  functions over rotations of the word library, the constants as fractional parts of cube and
  square roots of the first primes, the message schedule and the working variables as
  recurrences, big-endian words as positional numbers, and the padding as the least number of
  zero bytes. \<open>Crypto_Sha256\<close> proves that the code computes it.
\<close>

subsection \<open>Words and bytes\<close>

text \<open>The number a byte string denotes, and the \<open>n\<close> bytes of a number, most significant byte first.\<close>

definition be_num :: "bytes \<Rightarrow> nat" where
  "be_num bs = foldl (\<lambda>n b. 256 * n + unat b) 0 bs"

definition be_bytes :: "nat \<Rightarrow> nat \<Rightarrow> bytes" where
  "be_bytes n x = map (\<lambda>i. word_of_nat (x div 256 ^ (n - 1 - i))) [0..<n]"

subsection \<open>Functions and constants (sections 4.1.2, 4.2.2 and 5.3.3)\<close>

definition sha_Ch :: "u32 \<Rightarrow> u32 \<Rightarrow> u32 \<Rightarrow> u32" where
  "sha_Ch x y z = (x AND y) XOR (NOT x AND z)"

definition sha_Maj :: "u32 \<Rightarrow> u32 \<Rightarrow> u32 \<Rightarrow> u32" where
  "sha_Maj x y z = (x AND y) XOR (x AND z) XOR (y AND z)"

definition sha_Sigma0 :: "u32 \<Rightarrow> u32" where
  "sha_Sigma0 x = word_rotr 2 x XOR word_rotr 13 x XOR word_rotr 22 x"

definition sha_Sigma1 :: "u32 \<Rightarrow> u32" where
  "sha_Sigma1 x = word_rotr 6 x XOR word_rotr 11 x XOR word_rotr 25 x"

definition sha_sigma0 :: "u32 \<Rightarrow> u32" where
  "sha_sigma0 x = word_rotr 7 x XOR word_rotr 18 x XOR drop_bit 3 x"

definition sha_sigma1 :: "u32 \<Rightarrow> u32" where
  "sha_sigma1 x = word_rotr 17 x XOR word_rotr 19 x XOR drop_bit 10 x"

text \<open>The first 64 primes, by the sieve, and the first 32 bits of the fractional part of a real number.\<close>

function sieve :: "int list \<Rightarrow> int list" where
  "sieve [] = []"
| "sieve (p # xs) = p # sieve (filter (\<lambda>x. \<not> p dvd x) xs)"
  by pat_completeness auto
termination
  by (relation "measure length") (auto simp: le_imp_less_Suc)

definition sha_primes :: "int list" where
  "sha_primes = sieve [2..311]"

definition fractional_bits :: "real \<Rightarrow> u32" where
  "fractional_bits r = word_of_int \<lfloor>2 ^ 32 * frac r\<rfloor>"

definition sha_K :: "nat \<Rightarrow> u32" where
  "sha_K t = fractional_bits (root 3 (real_of_int (sha_primes ! t)))"

definition sha_H0 :: "nat \<Rightarrow> u32" where
  "sha_H0 i = fractional_bits (sqrt (real_of_int (sha_primes ! i)))"

subsection \<open>The compression (section 6.2.2)\<close>

type_synonym sha_vars = "u32 \<times> u32 \<times> u32 \<times> u32 \<times> u32 \<times> u32 \<times> u32 \<times> u32"

text \<open>Word \<open>i\<close> of a block, and the message schedule over it.\<close>

definition block_word :: "bytes \<Rightarrow> nat \<Rightarrow> u32" where
  "block_word block i = word_of_nat (be_num (take 4 (drop (4 * i) block)))"

fun sha_W :: "bytes \<Rightarrow> nat \<Rightarrow> u32" where
  "sha_W block t =
     (if t < 16 then block_word block t
      else sha_sigma1 (sha_W block (t - 2)) + sha_W block (t - 7)
           + sha_sigma0 (sha_W block (t - 15)) + sha_W block (t - 16))"

declare sha_W.simps [simp del]

fun sha_step :: "u32 \<Rightarrow> u32 \<Rightarrow> sha_vars \<Rightarrow> sha_vars" where
  "sha_step k w (a, b, c, d, e, f, g, h) =
     (let t1 = h + sha_Sigma1 e + sha_Ch e f g + k + w; t2 = sha_Sigma0 a + sha_Maj a b c
      in (t1 + t2, a, b, c, d + t1, e, f, g))"

primrec sha_after :: "bytes \<Rightarrow> nat \<Rightarrow> sha_vars \<Rightarrow> sha_vars" where
  "sha_after block 0 v = v"
| "sha_after block (Suc t) v = sha_step (sha_K t) (sha_W block t) (sha_after block t v)"

fun vars_list :: "sha_vars \<Rightarrow> u32 list" where
  "vars_list (a, b, c, d, e, f, g, h) = [a, b, c, d, e, f, g, h]"

fun sha_add :: "sha_vars \<Rightarrow> sha_vars \<Rightarrow> sha_vars" where
  "sha_add (a, b, c, d, e, f, g, h) (a', b', c', d', e', f', g', h') =
     (a + a', b + b', c + c', d + d', e + e', f + f', g + g', h + h')"

definition sha_compress :: "sha_vars \<Rightarrow> bytes \<Rightarrow> sha_vars" where
  "sha_compress v block = sha_add (sha_after block 64 v) v"

subsection \<open>Padding and the digest (sections 5.1.1 and 6.2)\<close>

definition sha_pad :: "bytes \<Rightarrow> bytes" where
  "sha_pad m = m @ [0x80] @ replicate (LEAST k. (length m + 1 + k + 8) mod 64 = 0) 0
     @ be_bytes 8 (8 * length m)"

definition sha_blocks :: "bytes \<Rightarrow> bytes list" where
  "sha_blocks m = map (\<lambda>i. take 64 (drop (64 * i) m)) [0..<length m div 64]"

definition sha256 :: "bytes \<Rightarrow> bytes" where
  "sha256 m = concat (map (\<lambda>x. be_bytes 4 (unat x))
     (vars_list (foldl sha_compress
        (sha_H0 0, sha_H0 1, sha_H0 2, sha_H0 3, sha_H0 4, sha_H0 5, sha_H0 6, sha_H0 7)
        (sha_blocks (sha_pad m)))))"

subsection \<open>The constants\<close>

lemma sha_primes_eq: "sha_primes =
     [2, 3, 5, 7, 11, 13, 17, 19, 23, 29, 31, 37, 41, 43, 47, 53,
      59, 61, 67, 71, 73, 79, 83, 89, 97, 101, 103, 107, 109, 113, 127, 131,
      137, 139, 149, 151, 157, 163, 167, 173, 179, 181, 191, 193, 197, 199, 211, 223,
      227, 229, 233, 239, 241, 251, 257, 263, 269, 271, 277, 281, 283, 293, 307, 311]"
  by code_simp

text \<open>A root is located by comparing powers of integers.\<close>

lemma fractional_bits_root:
  assumes k: "0 < k" and lo: "n ^ k \<le> 2 ^ (32 * k) * p" and hi: "2 ^ (32 * k) * p < (n + 1) ^ k" and n: "0 \<le> n"
  shows "fractional_bits (root k (real_of_int p)) = word_of_int n"
proof -
  let ?r = "root k (real_of_int p)"
  have "0 \<le> 2 ^ (32 * k) * p" using lo zero_le_power [OF n, of k] by linarith
  then have p: "0 \<le> p" by (simp add: zero_le_mult_iff)
  have r: "?r ^ k = real_of_int p" "0 \<le> ?r" using k p by simp_all
  have e: "(2 ^ 32 * ?r) ^ k = real_of_int (2 ^ (32 * k) * p)"
    by (simp add: power_mult_distrib r(1) power_mult)
  have "real_of_int (n ^ k) \<le> real_of_int (2 ^ (32 * k) * p)" using lo by (simp only: of_int_le_iff)
  then have "real_of_int n ^ k \<le> (2 ^ 32 * ?r) ^ k" unfolding e by simp
  then have 1: "real_of_int n \<le> 2 ^ 32 * ?r" using r(2) k n by (subst (asm) power_mono_iff) simp_all
  have "real_of_int (2 ^ (32 * k) * p) < real_of_int ((n + 1) ^ k)" using hi by (simp only: of_int_less_iff)
  then have "(2 ^ 32 * ?r) ^ k < (real_of_int n + 1) ^ k" unfolding e by simp
  then have 2: "2 ^ 32 * ?r < real_of_int n + 1" by (rule power_less_imp_less_base) (use n in simp)
  have "\<lfloor>2 ^ 32 * ?r\<rfloor> = n" using 1 2 by (simp add: floor_eq_iff)
  moreover have "2 ^ 32 * frac ?r = 2 ^ 32 * ?r - real_of_int (2 ^ 32 * \<lfloor>?r\<rfloor>)" by (simp add: frac_def algebra_simps)
  ultimately have "\<lfloor>2 ^ 32 * frac ?r\<rfloor> = n - 2 ^ 32 * \<lfloor>?r\<rfloor>" by (simp only: floor_diff_of_int)
  moreover have "(word_of_int (n - 2 ^ 32 * i) :: u32) = word_of_int n" for i
    using mod_mult_self1 [of n "- i" "2 ^ 32"] by (subst word_of_int_eq_iff) (simp add: take_bit_eq_mod algebra_simps)
  ultimately show ?thesis by (simp only: fractional_bits_def)
qed

definition scaled_cube_roots :: "int list" where
  "scaled_cube_roots =
     [0x1428a2f98, 0x171374491, 0x1b5c0fbcf, 0x1e9b5dba5, 0x23956c25b, 0x259f111f1, 0x2923f82a4, 0x2ab1c5ed5,
      0x2d807aa98, 0x312835b01, 0x3243185be, 0x3550c7dc3, 0x372be5d74, 0x380deb1fe, 0x39bdc06a7, 0x3c19bf174,
      0x3e49b69c1, 0x3efbe4786, 0x40fc19dc6, 0x4240ca1cc, 0x42de92c6f, 0x44a7484aa, 0x45cb0a9dc, 0x476f988da,
      0x4983e5152, 0x4a831c66d, 0x4b00327c8, 0x4bf597fc7, 0x4c6e00bf3, 0x4d5a79147, 0x506ca6351, 0x514292967,
      0x527b70a85, 0x52e1b2138, 0x54d2c6dfc, 0x553380d13, 0x5650a7354, 0x5766a0abb, 0x581c2c92e, 0x592722c85,
      0x5a2bfe8a1, 0x5a81a664b, 0x5c24b8b70, 0x5c76c51a3, 0x5d192e819, 0x5d6990624, 0x5f40e3585, 0x6106aa070,
      0x619a4c116, 0x61e376c08, 0x62748774c, 0x634b0bcb5, 0x6391c0cb3, 0x64ed8aa4a, 0x65b9cca4f, 0x6682e6ff3,
      0x6748f82ee, 0x678a5636f, 0x684c87814, 0x68cc70208, 0x690befffa, 0x6a4506ceb, 0x6bef9a3f7, 0x6c67178f2]"

definition scaled_square_roots :: "int list" where
  "scaled_square_roots =
     [0x16a09e667, 0x1bb67ae85, 0x23c6ef372, 0x2a54ff53a, 0x3510e527f, 0x39b05688c, 0x41f83d9ab, 0x45be0cd19]"

lemma scaled_roots:
  "list_all2 (\<lambda>p n. n ^ 3 \<le> 2 ^ 96 * p \<and> 2 ^ 96 * p < (n + 1) ^ 3 \<and> 0 \<le> n) sha_primes scaled_cube_roots"
  "list_all2 (\<lambda>p n. n ^ 2 \<le> 2 ^ 64 * p \<and> 2 ^ 64 * p < (n + 1) ^ 2 \<and> 0 \<le> n) (take 8 sha_primes) scaled_square_roots"
  unfolding sha_primes_eq scaled_cube_roots_def scaled_square_roots_def by simp_all

lemma sha_K_eq: "t < 64 \<Longrightarrow> sha_K t = word_of_int (scaled_cube_roots ! t)"
  using list_all2_nthD2 [OF scaled_roots(1), of t] fractional_bits_root [of 3 "scaled_cube_roots ! t" "sha_primes ! t"]
  by (simp add: sha_K_def scaled_cube_roots_def)

lemma sha_H0_eq: "i < 8 \<Longrightarrow> sha_H0 i = word_of_int (scaled_square_roots ! i)"
  using list_all2_nthD2 [OF scaled_roots(2), of i] fractional_bits_root [of 2 "scaled_square_roots ! i" "sha_primes ! i"]
  by (simp add: sha_H0_def sqrt_def scaled_square_roots_def)

end
