(* ===== verification/Crypto_Sha256.thy ===== *)
theory Crypto_Sha256
  imports Basic_Memory Sha256_Standard
begin

text \<open>
  SHA-256 of \<^verbatim>\<open>src/Modules/Crypto/crypto_primitives.cpp\<close>: the incremental class
  \<open>crypto_sha256\<close> and the one-shot \<open>crypto_sha256_hash\<close>. The object is a record; an
  operation returns the new object and the error code. A digest parameter is a pointer to
  at least 32 bytes. The reference is \<open>sha256\<close> of \<open>Sha256_Standard\<close>, the standard's own
  definition. The compression of a block is proved equal to the standard's, and the main result
  is that any way of cutting a message into \<open>update\<close> calls gives the standard's digest of it.
\<close>

subsection \<open>Words\<close>

definition crypto_secure_wipe :: "ptr \<Rightarrow> nat \<Rightarrow> ft_err \<times> ptr" where
  "crypto_secure_wipe buffer buffer_size =
     (case buffer of
        None \<Rightarrow> (FT_ERR_INVALID_ARGUMENT, None)
      | Some bytes \<Rightarrow> (FT_ERR_SUCCESS, Some (write_block bytes 0 (replicate buffer_size 0))))"

definition g_sha256_constants :: "u32 list" where
  "g_sha256_constants = concat
     [[0x428a2f98, 0x71374491, 0xb5c0fbcf, 0xe9b5dba5],
      [0x3956c25b, 0x59f111f1, 0x923f82a4, 0xab1c5ed5],
      [0xd807aa98, 0x12835b01, 0x243185be, 0x550c7dc3],
      [0x72be5d74, 0x80deb1fe, 0x9bdc06a7, 0xc19bf174],
      [0xe49b69c1, 0xefbe4786, 0x0fc19dc6, 0x240ca1cc],
      [0x2de92c6f, 0x4a7484aa, 0x5cb0a9dc, 0x76f988da],
      [0x983e5152, 0xa831c66d, 0xb00327c8, 0xbf597fc7],
      [0xc6e00bf3, 0xd5a79147, 0x06ca6351, 0x14292967],
      [0x27b70a85, 0x2e1b2138, 0x4d2c6dfc, 0x53380d13],
      [0x650a7354, 0x766a0abb, 0x81c2c92e, 0x92722c85],
      [0xa2bfe8a1, 0xa81a664b, 0xc24b8b70, 0xc76c51a3],
      [0xd192e819, 0xd6990624, 0xf40e3585, 0x106aa070],
      [0x19a4c116, 0x1e376c08, 0x2748774c, 0x34b0bcb5],
      [0x391c0cb3, 0x4ed8aa4a, 0x5b9cca4f, 0x682e6ff3],
      [0x748f82ee, 0x78a5636f, 0x84c87814, 0x8cc70208],
      [0x90befffa, 0xa4506ceb, 0xbef9a3f7, 0xc67178f2]]"

definition g_sha256_initial_hash :: "u32 list" where
  "g_sha256_initial_hash =
     [0x6a09e667, 0xbb67ae85, 0x3c6ef372, 0xa54ff53a, 0x510e527f, 0x9b05688c, 0x1f83d9ab, 0x5be0cd19]"

definition rotate_right :: "u32 \<Rightarrow> nat \<Rightarrow> u32" where
  "rotate_right x n = drop_bit n x OR push_bit (32 - n) x"

text \<open>The four bytes at an offset, most significant first.\<close>

definition load_u32_be :: "bytes \<Rightarrow> nat \<Rightarrow> u32" where
  "load_u32_be data off =
     push_bit 24 (ucast (data ! off)) OR push_bit 16 (ucast (data ! (off + 1)))
     OR push_bit 8 (ucast (data ! (off + 2))) OR ucast (data ! (off + 3))"

definition store_u32_be :: "u32 \<Rightarrow> bytes" where
  "store_u32_be x = [ucast (drop_bit 24 x), ucast (drop_bit 16 x), ucast (drop_bit 8 x), ucast x]"

definition store_u64_be :: "u64 \<Rightarrow> bytes" where
  "store_u64_be x = map (\<lambda>index. ucast (drop_bit (56 - index * 8) x)) [0..<8]"

subsection \<open>The compression\<close>

definition schedule_word :: "u32 list \<Rightarrow> u32" where
  "schedule_word ws =
     (let index = length ws;
          sigma_zero = rotate_right (ws ! (index - 15)) 7 XOR rotate_right (ws ! (index - 15)) 18
                       XOR drop_bit 3 (ws ! (index - 15));
          sigma_one = rotate_right (ws ! (index - 2)) 17 XOR rotate_right (ws ! (index - 2)) 19
                      XOR drop_bit 10 (ws ! (index - 2))
      in ws ! (index - 16) + sigma_zero + ws ! (index - 7) + sigma_one)"

primrec schedule_loop :: "nat \<Rightarrow> u32 list \<Rightarrow> u32 list" where
  "schedule_loop 0 ws = ws"
| "schedule_loop (Suc n) ws = schedule_loop n (ws @ [schedule_word ws])"

definition sha_round :: "u32 \<Rightarrow> u32 \<Rightarrow> u32 list \<Rightarrow> u32 list" where
  "sha_round constant_word word w =
     (let big_sigma_one = rotate_right (w ! 4) 6 XOR rotate_right (w ! 4) 11 XOR rotate_right (w ! 4) 25;
          chosen = (w ! 4 AND w ! 5) XOR (NOT (w ! 4) AND w ! 6);
          temporary_one = w ! 7 + big_sigma_one + chosen + constant_word + word;
          big_sigma_zero = rotate_right (w ! 0) 2 XOR rotate_right (w ! 0) 13 XOR rotate_right (w ! 0) 22;
          majority = (w ! 0 AND w ! 1) XOR (w ! 0 AND w ! 2) XOR (w ! 1 AND w ! 2);
          temporary_two = big_sigma_zero + majority
      in [temporary_one + temporary_two, w ! 0, w ! 1, w ! 2, w ! 3 + temporary_one, w ! 4, w ! 5, w ! 6])"

primrec rounds_loop :: "u32 list \<Rightarrow> nat \<Rightarrow> u32 list \<Rightarrow> u32 list" where
  "rounds_loop ws 0 w = w"
| "rounds_loop ws (Suc n) w =
     rounds_loop ws n (sha_round (g_sha256_constants ! (63 - n)) (ws ! (63 - n)) w)"

definition process_block :: "u32 list \<Rightarrow> bytes \<Rightarrow> u32 list" where
  "process_block hash block =
     (let ws = schedule_loop 48 (map (\<lambda>index. load_u32_be block (index * 4)) [0..<16]);
          working = rounds_loop ws 64 hash
      in map (\<lambda>index. hash ! index + working ! index) [0..<8])"

subsection \<open>The object\<close>

record crypto_sha256 =
  sha_state :: class_state
  sha_hash :: "u32 list"
  sha_buffer :: bytes
  sha_buffer_size :: nat
  sha_message_length :: u64

definition new_sha256 :: crypto_sha256 where
  "new_sha256 = \<lparr>sha_state = Uninitialised, sha_hash = replicate 8 0, sha_buffer = replicate 64 0,
     sha_buffer_size = 0, sha_message_length = 0\<rparr>"

definition sha256_initialize :: "crypto_sha256 \<Rightarrow> crypto_sha256 \<times> ft_err" where
  "sha256_initialize c =
     (if sha_state c = Initialised then (c, FT_ERR_ALREADY_INITIALISED)
      else (c\<lparr>sha_hash := g_sha256_initial_hash, sha_buffer := replicate 64 0, sha_buffer_size := 0,
             sha_message_length := 0, sha_state := Initialised\<rparr>, FT_ERR_SUCCESS))"

definition sha256_destroy :: "crypto_sha256 \<Rightarrow> crypto_sha256 \<times> ft_err" where
  "sha256_destroy c =
     (if sha_state c = Uninitialised \<or> sha_state c = Destroyed then (c, FT_ERR_SUCCESS)
      else (c\<lparr>sha_hash := replicate 8 0, sha_buffer := replicate 64 0, sha_buffer_size := 0,
             sha_message_length := 0, sha_state := Destroyed\<rparr>, FT_ERR_SUCCESS))"

definition sha256_move ::
  "bool \<Rightarrow> crypto_sha256 \<Rightarrow> crypto_sha256 \<Rightarrow> crypto_sha256 \<times> crypto_sha256 \<times> ft_err" where
  "sha256_move same c other =
     (if same then (c, other, FT_ERR_SUCCESS)
      else if sha_state other \<noteq> Initialised then (c, other, FT_ERR_INVALID_STATE)
      else ((fst (sha256_destroy c))\<lparr>sha_hash := sha_hash other, sha_buffer := sha_buffer other,
              sha_buffer_size := sha_buffer_size other,
              sha_message_length := sha_message_length other, sha_state := Initialised\<rparr>,
            fst (sha256_destroy other), FT_ERR_SUCCESS))"

text \<open>
  The loop of \<open>update\<close>. It makes progress as long as the buffer is not full, which the loop
  keeps; \<^term>\<open>None\<close> is a loop that does not end.
\<close>

definition update_step :: "crypto_sha256 \<Rightarrow> bytes \<Rightarrow> nat \<Rightarrow> crypto_sha256" where
  "update_step c bytes copied =
     (let c1 = c\<lparr>sha_buffer := write_block (sha_buffer c) (sha_buffer_size c) (take copied bytes),
                 sha_buffer_size := sha_buffer_size c + copied\<rparr>
      in if sha_buffer_size c1 = 64
         then c1\<lparr>sha_hash := process_block (sha_hash c1) (sha_buffer c1), sha_buffer_size := 0\<rparr>
         else c1)"

partial_function (option) update_loop :: "crypto_sha256 \<Rightarrow> bytes \<Rightarrow> crypto_sha256 option" where
  "update_loop c bytes =
     (if bytes = [] then Some c
      else let copied = min (64 - sha_buffer_size c) (length bytes)
           in update_loop (update_step c bytes copied) (drop copied bytes))"

declare update_loop.simps [code]

definition sha256_update :: "crypto_sha256 \<Rightarrow> ptr \<Rightarrow> nat \<Rightarrow> (crypto_sha256 \<times> ft_err) option" where
  "sha256_update c data len =
     (if sha_state c \<noteq> Initialised then Some (c, FT_ERR_NOT_INITIALISED)
      else if null_span data len then Some (c, FT_ERR_INVALID_ARGUMENT)
      else if word_of_nat len > 0x1fffffffffffffff - sha_message_length c
      then Some (c, FT_ERR_OUT_OF_RANGE)
      else map_option (\<lambda>c'. (c', FT_ERR_SUCCESS))
             (update_loop (c\<lparr>sha_message_length := sha_message_length c + word_of_nat len\<rparr>)
                (span_bytes data len)))"

definition final_padding :: "crypto_sha256 \<Rightarrow> bytes" where
  "final_padding c =
     (let padded_length = (if sha_buffer_size c < 56 then 64 else 128);
          bit_length = push_bit 3 (sha_message_length c);
          p0 = (replicate 128 0)[0 := 0x80];
          p1 = write_block p0 0 (take (sha_buffer_size c) (sha_buffer c));
          p2 = p1[sha_buffer_size c := 0x80];
          p3 = write_block p2 (sha_buffer_size c + 1)
                 (replicate (padded_length - 8 - (sha_buffer_size c + 1)) 0)
      in write_block p3 (padded_length - 8) (store_u64_be bit_length))"

definition sha256_final :: "crypto_sha256 \<Rightarrow> ptr \<Rightarrow> crypto_sha256 \<times> ft_err \<times> ptr" where
  "sha256_final c digest =
     (if sha_state c \<noteq> Initialised then (c, FT_ERR_NOT_INITIALISED, digest)
      else case digest of
        None \<Rightarrow> (c, FT_ERR_INVALID_ARGUMENT, digest)
      | Some d \<Rightarrow>
          let padding = final_padding c;
              h1 = process_block (sha_hash c) (take 64 padding);
              h2 = (if sha_buffer_size c < 56 then h1 else process_block h1 (drop 64 padding))
          in (fst (sha256_destroy (c\<lparr>sha_hash := h2\<rparr>)), FT_ERR_SUCCESS,
              Some (write_block d 0 (concat (map (\<lambda>index. store_u32_be (h2 ! index)) [0..<8])))))"

definition crypto_sha256_hash :: "ptr \<Rightarrow> nat \<Rightarrow> ptr \<Rightarrow> (ft_err \<times> ptr) option" where
  "crypto_sha256_hash data len digest =
     (let (c0, r0) = sha256_initialize new_sha256
      in if r0 \<noteq> FT_ERR_SUCCESS then Some (r0, digest)
         else case sha256_update c0 data len of
           None \<Rightarrow> None
         | Some (c1, r1) \<Rightarrow>
             if r1 \<noteq> FT_ERR_SUCCESS then Some (r1, digest)
             else Some (snd (sha256_final c1 digest)))"

subsection \<open>The compression against the standard\<close>

lemma rotate_right_rotr: "n < 32 \<Longrightarrow> rotate_right x n = word_rotr n x"
proof (rule bit_word_eqI)
  fix i
  assume n: "n < 32" and i: "i < LENGTH(32)"
  then have "(i + n) mod 32 = (if i + n < 32 then i + n else i + n - 32)" by (auto simp: le_mod_geq)
  moreover have "32 \<le> i + n \<Longrightarrow> \<not> bit x (i + n)" by (simp add: impossible_bit)
  ultimately show "bit (rotate_right x n) i \<longleftrightarrow> bit (word_rotr n x) i"
    using n i by (auto simp: rotate_right_def bit_simps bit_word_rotr_iff add.commute)
qed

lemma disjoint_or_add: "(\<And>n. \<not> bit a n \<or> \<not> bit b n) \<Longrightarrow> a OR b = a + (b :: u32)"
  by (simp add: disjunctive_add)

lemma bytes_or_add:
  fixes a b c d :: u8
  shows "push_bit 24 (ucast a) OR push_bit 16 (ucast b) OR push_bit 8 (ucast c) OR ucast d
    = (word_of_nat (256 * (256 * (256 * unat a + unat b) + unat c) + unat d) :: u32)"
proof -
  have "push_bit 24 (ucast a) OR push_bit 16 (ucast b) OR push_bit 8 (ucast c) OR ucast d
      = push_bit 24 (ucast a) + (push_bit 16 (ucast b) + (push_bit 8 (ucast c) + (ucast d :: u32)))"
    by (subst disjoint_or_add, auto simp: bit_simps dest!: bit_imp_le_length,
      (subst disjoint_or_add, auto simp: bit_simps dest!: bit_imp_le_length)+)
  then show ?thesis by (simp add: push_bit_eq_mult algebra_simps)
qed

lemma load_u32_be_block_word:
  assumes "length block = 64" "i < 16"
  shows "load_u32_be block (i * 4) = block_word block i"
proof -
  have "take 4 (drop (4 * i) block)
      = [block ! (i * 4), block ! (i * 4 + 1), block ! (i * 4 + 2), block ! (i * 4 + 3)]"
    using assms by (intro nth_equalityI) (auto simp: nth_Cons' mult.commute less_Suc_eq numeral_eq_Suc)
  then show ?thesis by (simp add: load_u32_be_def block_word_def be_num_def bytes_or_add)
qed

lemma schedule_loop_std:
  "16 \<le> n \<Longrightarrow> schedule_loop k (map (sha_W block) [0..<n]) = map (sha_W block) [0..<n + k]"
proof (induction k arbitrary: n)
  case (Suc k)
  have "schedule_word (map (sha_W block) [0..<n]) = sha_W block n"
    using Suc.prems
    by (subst sha_W.simps)
      (simp add: schedule_word_def Let_def sha_sigma0_def sha_sigma1_def rotate_right_rotr add_ac)
  then have "map (sha_W block) [0..<n] @ [schedule_word (map (sha_W block) [0..<n])] = map (sha_W block) [0..<Suc n]"
    by simp
  then show ?case using Suc.IH [of "Suc n"] Suc.prems by simp
qed simp

lemma constants_std:
  assumes "t < 64"
  shows "g_sha256_constants ! t = sha_K t"
proof -
  have g: "g_sha256_constants = map word_of_int scaled_cube_roots"
    by (simp add: g_sha256_constants_def scaled_cube_roots_def)
  have "length scaled_cube_roots = 64" by (simp add: scaled_cube_roots_def)
  then show ?thesis using assms unfolding g by (simp add: sha_K_eq)
qed

lemma sha_round_std: "sha_round k w (vars_list v) = vars_list (sha_step k w v)"
  by (cases v rule: vars_list.cases) (simp add: sha_round_def Let_def sha_Sigma0_def sha_Sigma1_def sha_Ch_def sha_Maj_def
    rotate_right_rotr)

lemma rounds_loop_std:
  "n \<le> 64 \<Longrightarrow> rounds_loop (map (sha_W block) [0..<64]) n (vars_list (sha_after block (64 - n) v))
     = vars_list (sha_after block 64 v)"
proof (induction n)
  case (Suc n)
  have t: "64 - n = Suc (63 - n)" "63 - n < 64" "64 - Suc n = 63 - n" using Suc.prems by auto
  have "sha_round (g_sha256_constants ! (63 - n)) (map (sha_W block) [0..<64] ! (63 - n))
      (vars_list (sha_after block (63 - n) v)) = vars_list (sha_after block (64 - n) v)"
    using t(2) by (simp add: constants_std sha_round_std t(1))
  then show ?case using Suc t(3) by simp
qed simp

lemma upt_8: "[0..<8] = [0, 1, 2, 3, 4, 5, 6, 7 :: nat]"
  by (simp add: upt_rec)

lemma process_block_list:
  "map (\<lambda>i. vars_list v ! i + vars_list w ! i) [0..<8] = vars_list (sha_add w v)"
  by (cases v rule: vars_list.cases, cases w rule: vars_list.cases) (simp add: upt_8 add.commute)

lemma process_block_std:
  assumes "length block = 64"
  shows "process_block (vars_list v) block = vars_list (sha_compress v block)"
proof -
  have w: "map (\<lambda>i. load_u32_be block (i * 4)) [0..<16] = map (sha_W block) [0..<16]"
    using assms by (intro map_cong) (auto simp: load_u32_be_block_word sha_W.simps)
  have "schedule_loop 48 (map (\<lambda>i. load_u32_be block (i * 4)) [0..<16]) = map (sha_W block) [0..<64]"
    unfolding w using schedule_loop_std [of 16 48 block] by simp
  then have "process_block (vars_list v) block
      = map (\<lambda>i. vars_list v ! i + vars_list (sha_after block 64 v) ! i) [0..<8]"
    using rounds_loop_std [of 64 block v] by (simp add: process_block_def Let_def)
  also have "\<dots> = vars_list (sha_compress v block)"
    using process_block_list [of v "sha_after block 64 v"] by (simp add: sha_compress_def)
  finally show ?thesis .
qed

subsection \<open>The hash of a padded message\<close>

function hash_blocks :: "u32 list \<Rightarrow> bytes \<Rightarrow> u32 list" where
  "hash_blocks h m =
     (if length m < 64 then h else hash_blocks (process_block h (take 64 m)) (drop 64 m))"
  by pat_completeness auto
termination
  by (relation "measure (\<lambda>(h, m). length m)") auto

declare hash_blocks.simps [simp del]

lemma sha_blocks_step: "64 \<le> length m \<Longrightarrow> sha_blocks m = take 64 m # sha_blocks (drop 64 m)"
proof -
  assume "64 \<le> length m"
  then have "length m div 64 = Suc (length (drop 64 m) div 64)" by (simp add: le_div_geq)
  moreover have "[0..<Suc k] = 0 # map Suc [0..<k]" for k by (simp add: map_Suc_upt upt_conv_Cons)
  ultimately show ?thesis by (simp add: sha_blocks_def add.commute del: upt_Suc)
qed

lemma hash_blocks_std:
  "hash_blocks (vars_list v) m = vars_list (foldl sha_compress v (sha_blocks m))"
proof (induction "length m" arbitrary: v m rule: less_induct)
  case less
  show ?case
  proof (cases "length m < 64")
    case True
    then show ?thesis by (subst hash_blocks.simps) (simp add: sha_blocks_def)
  next
    case False
    then have "hash_blocks (vars_list v) m = hash_blocks (vars_list (sha_compress v (take 64 m))) (drop 64 m)"
      by (subst hash_blocks.simps) (simp add: process_block_std)
    then show ?thesis using False less [of "drop 64 m"] by (simp add: sha_blocks_step)
  qed
qed

lemma initial_hash_std: "g_sha256_initial_hash =
    vars_list (sha_H0 0, sha_H0 1, sha_H0 2, sha_H0 3, sha_H0 4, sha_H0 5, sha_H0 6, sha_H0 7)"
  by (simp add: g_sha256_initial_hash_def sha_H0_eq scaled_square_roots_def)

lemma div_256_power: "n div 256 ^ i = drop_bit (8 * i) (n :: nat)"
  by (simp add: drop_bit_eq_div power_mult)

lemma byte_of_drop: "(ucast (drop_bit k x) :: u8) = word_of_nat (drop_bit k (unat x))" for x :: "'a::len word"
  by (rule bit_word_eqI) (simp add: bit_simps)

lemma store_u32_be_std: "store_u32_be x = be_bytes 4 (unat x)"
proof -
  have "[0..<4] = [0, 1, 2, 3 :: nat]" by (simp add: upt_rec)
  then show ?thesis
    using byte_of_drop [of 24 x] byte_of_drop [of 16 x] byte_of_drop [of 8 x] byte_of_drop [of 0 x]
    by (simp add: store_u32_be_def be_bytes_def div_256_power)
qed

lemma store_u64_be_std: "store_u64_be (word_of_nat n) = be_bytes 8 n"
proof -
  have "(ucast (drop_bit (56 - i * 8) (word_of_nat n :: u64)) :: u8) = word_of_nat (n div 256 ^ (7 - i))" if "i < 8" for i
  proof -
    have "56 - i * 8 = 8 * (7 - i)" by (simp add: algebra_simps)
    then show ?thesis unfolding div_256_power using that by (intro bit_word_eqI) (auto simp: bit_simps)
  qed
  then show ?thesis by (simp add: store_u64_be_def be_bytes_def)
qed

lemma sha256_hash_blocks:
  "sha256 m = concat (map store_u32_be (hash_blocks g_sha256_initial_hash (sha_pad m)))"
proof -
  have "store_u32_be = (\<lambda>x. be_bytes 4 (unat x))" by (rule ext) (rule store_u32_be_std)
  then show ?thesis unfolding sha256_def initial_hash_std hash_blocks_std by (simp only:)
qed

lemma pad_zeros: "(LEAST k. (n + 1 + k + 8) mod 64 = 0) = (119 - n mod 64) mod (64 :: nat)"
proof (rule Least_equality)
  let ?r = "n mod 64"
  have n: "n = 64 * (n div 64) + ?r" "?r < 64" by simp_all
  have e: "(n + 1 + k + 8) mod 64 = (?r + 9 + k) mod 64" for k
    using mod_add_left_eq [of n 64 "9 + k"] by (simp add: ac_simps)
  have c: "(119 - ?r) mod 64 = (if ?r < 56 then 55 - ?r else 119 - ?r)" using n(2) by (auto simp: le_mod_geq)
  show "(n + 1 + (119 - ?r) mod 64 + 8) mod 64 = 0" unfolding e c using n(2) by (auto simp: not_less)
  show "(119 - ?r) mod 64 \<le> k" if "(n + 1 + k + 8) mod 64 = 0" for k
  proof -
    have "64 dvd ?r + 9 + k" using that unfolding e by (simp only: mod_eq_0_iff_dvd)
    then obtain q where q: "?r + 9 + k = 64 * q" by (rule dvdE)
    have "1 \<le> q" using q by (cases q) simp_all
    moreover have "2 \<le> q" if "\<not> ?r < 56" using q that by linarith
    ultimately show ?thesis using q unfolding c by (split if_split) linarith
  qed
qed

subsection \<open>Blocks\<close>

lemma hash_blocks_short [simp]: "length m < 64 \<Longrightarrow> hash_blocks h m = h"
  by (subst hash_blocks.simps) simp

lemma hash_blocks_block: "length b = 64 \<Longrightarrow> hash_blocks h (b @ m) = hash_blocks (process_block h b) m"
  by (subst hash_blocks.simps) simp

lemma hash_blocks_append:
  "length m mod 64 = 0 \<Longrightarrow> hash_blocks h (m @ m') = hash_blocks (hash_blocks h m) m'"
proof (induction h m rule: hash_blocks.induct)
  case (1 h m)
  show ?case
  proof (cases "length m < 64")
    case True
    then have "m = []" using 1(2) by simp
    then show ?thesis by simp
  next
    case False
    then have "length (drop 64 m) mod 64 = 0" using 1(2) by (simp add: le_mod_geq [symmetric])
    then have "hash_blocks (process_block h (take 64 m)) (drop 64 m @ m')
        = hash_blocks (hash_blocks (process_block h (take 64 m)) (drop 64 m)) m'"
      using 1(1) [OF False] by simp
    moreover have "hash_blocks h (m @ m') = hash_blocks (process_block h (take 64 m)) (drop 64 m @ m')"
      using False by (subst hash_blocks.simps) simp
    moreover have "hash_blocks h m = hash_blocks (process_block h (take 64 m)) (drop 64 m)"
      using False by (subst hash_blocks.simps) simp
    ultimately show ?thesis by simp
  qed
qed

lemma length_store_u64_be [simp]: "length (store_u64_be x) = 8"
  by (simp add: store_u64_be_def)

lemma length_store_u32_be [simp]: "length (store_u32_be x) = 4"
  by (simp add: store_u32_be_def)

lemma length_process_block [simp]: "length (process_block h b) = 8"
  by (simp add: process_block_def Let_def)

lemma length_hash_blocks [simp]: "length h = 8 \<Longrightarrow> length (hash_blocks h m) = 8"
  by (induction h m rule: hash_blocks.induct) (subst hash_blocks.simps, simp)

lemma length_initial_hash [simp]: "length g_sha256_initial_hash = 8"
  by (simp add: g_sha256_initial_hash_def)

lemma length_concat_4: "(\<And>x. length (f x) = 4) \<Longrightarrow> length (concat (map f xs)) = 4 * length xs"
  by (induction xs) auto

lemma length_sha256 [simp]: "length (sha256 m) = 32"
  by (simp add: sha256_hash_blocks length_concat_4)

subsection \<open>Absorbing\<close>

text \<open>
  The object has absorbed the message \<open>m\<close>: the chaining value covers its full blocks, the
  buffer holds the rest.
\<close>

definition absorbed :: "crypto_sha256 \<Rightarrow> bytes \<Rightarrow> bool" where
  "absorbed c m \<longleftrightarrow>
     sha_state c = Initialised \<and> length (sha_buffer c) = 64
     \<and> sha_buffer_size c = length m mod 64
     \<and> take (sha_buffer_size c) (sha_buffer c) = drop (length m - length m mod 64) m
     \<and> sha_hash c = hash_blocks g_sha256_initial_hash (take (length m - length m mod 64) m)
     \<and> sha_message_length c = word_of_nat (length m)"

lemma absorbed_initialize:
  "sha_state c \<noteq> Initialised \<Longrightarrow> \<exists>c'. sha256_initialize c = (c', FT_ERR_SUCCESS) \<and> absorbed c' []"
  by (simp add: sha256_initialize_def absorbed_def)

text \<open>One round of the loop, on an object whose length field is already advanced.\<close>

definition absorbing :: "u64 \<Rightarrow> crypto_sha256 \<Rightarrow> bytes \<Rightarrow> bool" where
  "absorbing l c m \<longleftrightarrow> sha_message_length c = l \<and> absorbed (c\<lparr>sha_message_length := word_of_nat (length m)\<rparr>) m"

lemma absorbing_absorbed:
  assumes "absorbing l c m" "l = word_of_nat (length m)"
  shows "absorbed c m"
proof -
  have "c\<lparr>sha_message_length := word_of_nat (length m)\<rparr> = c"
    using assms by (cases c) (simp add: absorbing_def)
  then show ?thesis using assms(1) by (simp add: absorbing_def)
qed

lemma update_step_absorbing:
  assumes a: "absorbing l c m" and xs: "xs \<noteq> []"
    and n: "n = min (64 - sha_buffer_size c) (length xs)"
  shows "absorbing l (update_step c xs n) (m @ take n xs)" "0 < n"
proof -
  let ?k = "length m mod 64" and ?r = "drop (length m - length m mod 64) m"
  have c: "sha_state c = Initialised" "length (sha_buffer c) = 64" "sha_buffer_size c = ?k"
    "take ?k (sha_buffer c) = ?r"
    "sha_hash c = hash_blocks g_sha256_initial_hash (take (length m - ?k) m)"
    "sha_message_length c = l"
    using a by (auto simp: absorbing_def absorbed_def)
  have k: "?k < 64" by simp
  show pos: "0 < n" using n xs k unfolding c(3) by simp
  have len: "length (take n xs) = n" "?k + n \<le> 64" using n k unfolding c(3) by auto
  let ?b = "write_block (sha_buffer c) ?k (take n xs)"
  have b: "length ?b = 64" "take (?k + n) ?b = ?r @ take n xs"
    using len c(2,4) take_write_block_append [of ?k "sha_buffer c" "take n xs"] by auto
  have r: "length ?r = ?k" by simp
  have lm: "length (m @ take n xs) = length m + n" using len(1) by simp
  show "absorbing l (update_step c xs n) (m @ take n xs)"
  proof (cases "?k + n = 64")
    case True
    let ?m = "m @ take n xs"
    have z: "length ?m mod 64 = 0"
    proof -
      have "length ?m = 64 * (length m div 64) + 64"
        using True lm mult_div_mod_eq [of 64 "length m"] by linarith
      then show ?thesis by simp
    qed
    have full: "?b = ?r @ take n xs" using b True by simp
    have "length (take (length m - ?k) m) mod 64 = 0" by (simp add: minus_mod_eq_mult_div)
    then have "hash_blocks g_sha256_initial_hash (take (length m - ?k) m @ (?r @ take n xs))
        = hash_blocks (sha_hash c) (?r @ take n xs)"
      unfolding c(5) by (rule hash_blocks_append)
    also have "\<dots> = process_block (sha_hash c) ?b"
      using hash_blocks_block [of ?b "sha_hash c" "[]"] b(1) full by simp
    finally have "hash_blocks g_sha256_initial_hash ?m = process_block (sha_hash c) ?b"
      by (metis append.assoc append_take_drop_id)
    then show ?thesis
      using z b True c len(1) by (simp add: absorbing_def absorbed_def update_step_def Let_def)
  next
    case False
    let ?m = "m @ take n xs"
    have q: "length ?m = 64 * (length m div 64) + (?k + n)"
      using lm mult_div_mod_eq [of 64 "length m"] by linarith
    have z: "length ?m mod 64 = ?k + n" "length ?m - length ?m mod 64 = length m - ?k"
    proof -
      show 1: "length ?m mod 64 = ?k + n" using False len(2) by (subst q) (metis le_neq_implies_less mod_less mod_mult_self4)
      show "length ?m - length ?m mod 64 = length m - ?k" using 1 lm by linarith
    qed
    have "drop (length m - ?k) ?m = ?r @ take n xs" "take (length m - ?k) ?m = take (length m - ?k) m"
      by simp_all
    then show ?thesis
      using z b False c len(1) by (simp add: absorbing_def absorbed_def update_step_def Let_def)
  qed
qed

lemma update_loop_absorbing:
  "absorbing l c m \<Longrightarrow> \<exists>c'. update_loop c xs = Some c' \<and> absorbing l c' (m @ xs)"
proof (induction "length xs" arbitrary: c m xs rule: less_induct)
  case less
  show ?case
  proof (cases "xs = []")
    case True
    then show ?thesis using less.prems by (subst update_loop.simps) simp
  next
    case False
    define n where "n = min (64 - sha_buffer_size c) (length xs)"
    have s: "absorbing l (update_step c xs n) (m @ take n xs)" "0 < n"
      using update_step_absorbing [OF less.prems False n_def] by auto
    have "length (drop n xs) < length xs" using s(2) False by simp
    then obtain c' where "update_loop (update_step c xs n) (drop n xs) = Some c'"
      "absorbing l c' ((m @ take n xs) @ drop n xs)"
      using less.hyps [OF _ s(1)] by blast
    then show ?thesis using False by (subst update_loop.simps) (simp add: n_def Let_def)
  qed
qed

text \<open>The length guard of \<open>update\<close>: messages of fewer than 2 to the 61 bytes.\<close>

lemma length_guard:
  assumes "m < 2 ^ 61" "n < 2 ^ 64"
  shows "(word_of_nat n :: u64) > 0x1fffffffffffffff - word_of_nat m \<longleftrightarrow> 2 ^ 61 \<le> m + n"
proof -
  have "unat (0x1fffffffffffffff - word_of_nat m :: u64) = 0x1fffffffffffffff - m"
    using assms(1) by (subst unat_sub) (auto simp: word_le_nat_alt unat_of_nat)
  moreover have "unat (word_of_nat n :: u64) = n" using assms(2) by (simp add: unat_of_nat)
  ultimately show ?thesis using assms(1) by (simp add: word_less_nat_alt) linarith
qed

lemma sha256_update_spec:
  assumes "absorbed c m" "length m < 2 ^ 61" "readable p n" "n < 2 ^ 64"
  shows "if length m + n < 2 ^ 61
    then \<exists>c'. sha256_update c p n = Some (c', FT_ERR_SUCCESS) \<and> absorbed c' (m @ span_bytes p n)
    else sha256_update c p n = Some (c, FT_ERR_OUT_OF_RANGE)"
proof -
  have p: "\<not> null_span p n" "length (span_bytes p n) = n"
    using assms(3) by (cases p; auto simp: readable_def null_span_def)+
  have c: "sha_state c = Initialised" "sha_message_length c = word_of_nat (length m)"
    using assms(1) by (auto simp: absorbed_def)
  let ?c = "c\<lparr>sha_message_length := sha_message_length c + word_of_nat n\<rparr>"
  have "absorbing (word_of_nat (length m) + word_of_nat n) ?c m"
    using assms(1) c by (auto simp: absorbing_def absorbed_def)
  then obtain c' where c': "update_loop ?c (span_bytes p n) = Some c'"
    "absorbing (word_of_nat (length m) + word_of_nat n) c' (m @ span_bytes p n)"
    using update_loop_absorbing by blast
  have "absorbed c' (m @ span_bytes p n)"
    using absorbing_absorbed [OF c'(2)] p(2) by simp
  then show ?thesis
    using c c'(1) p(1) length_guard [OF assms(2,4)] by (auto simp: sha256_update_def)
qed

subsection \<open>Finishing\<close>

lemma final_padding_spec:
  assumes "length (sha_buffer c) = 64" "sha_buffer_size c = k" "k < 64"
  defines "pl \<equiv> if k < 56 then 64 else 128"
  shows "take pl (final_padding c) = take k (sha_buffer c) @ [0x80] @ replicate (pl - 9 - k) 0
    @ store_u64_be (push_bit 3 (sha_message_length c))" "length (final_padding c) = 128"
proof -
  let ?r = "take k (sha_buffer c)"
  have pl: "k + 9 \<le> pl" "pl \<le> 128" using assms(3) by (auto simp: pl_def)
  have r: "length ?r = k" using assms by simp
  have p1: "write_block ((replicate 128 0)[0 := 0x80]) 0 ?r = ?r @ drop k ((replicate 128 0)[0 := 0x80])"
    using r by (simp add: write_block_def)
  have p2: "(?r @ drop k ((replicate 128 0)[0 := 0x80]))[k := 0x80] = ?r @ 0x80 # replicate (127 - k) (0::u8)"
    using r assms(3) by (intro nth_equalityI) (auto simp: nth_append nth_list_update nth_Cons')
  have p3: "write_block (?r @ 0x80 # replicate (127 - k) 0) (k + 1) (replicate (pl - 8 - (k + 1)) 0)
      = ?r @ 0x80 # replicate (127 - k) 0"
    using r pl by (intro nth_equalityI) (auto simp: nth_write_block nth_append nth_Cons')
  have fp: "final_padding c = write_block (?r @ 0x80 # replicate (127 - k) 0) (pl - 8)
      (store_u64_be (push_bit 3 (sha_message_length c)))"
    unfolding final_padding_def assms(2) Let_def p1 p2 pl_def [symmetric] p3 by simp
  show "length (final_padding c) = 128" unfolding fp using r pl assms(3) by simp
  have "take (pl - 8) (?r @ 0x80 # replicate (127 - k) 0) = ?r @ [0x80] @ replicate (pl - 9 - k) 0"
    using r pl assms(3)
    by (intro nth_equalityI) (auto simp: nth_append nth_Cons')
  then show "take pl (final_padding c) = ?r @ [0x80] @ replicate (pl - 9 - k) 0
    @ store_u64_be (push_bit 3 (sha_message_length c))"
    unfolding fp using take_write_block_append [of "pl - 8" "?r @ 0x80 # replicate (127 - k) 0"
        "store_u64_be (push_bit 3 (sha_message_length c))"] r pl assms(3) by simp
qed

lemma sha_pad_eq:
  fixes m :: bytes
  defines "k \<equiv> length m mod 64"
  shows "sha_pad m = take (length m - k) m
    @ (drop (length m - k) m @ [0x80] @ replicate ((if k < 56 then 64 else 128) - 9 - k) 0
       @ store_u64_be (push_bit 3 (word_of_nat (length m))))"
proof -
  have "k < 64" by (simp add: k_def)
  then have "(119 - k) mod 64 = (if k < 56 then 64 else 128) - 9 - k"
    by (cases "k < 56") (auto simp: le_mod_geq)
  moreover have "push_bit 3 (word_of_nat (length m)) = (word_of_nat (8 * length m) :: u64)"
    by (simp add: push_bit_eq_mult mult.commute)
  ultimately show ?thesis by (simp add: sha_pad_def k_def pad_zeros [simplified] store_u64_be_std [symmetric])
qed

lemma hash_two_blocks:
  "length p = 128 \<Longrightarrow> hash_blocks h p = process_block (process_block h (take 64 p)) (drop 64 p)"
  using hash_blocks_block [of "take 64 p" h "drop 64 p"] hash_blocks_block [of "drop 64 p" _ "[]"]
  by simp

lemma map_nth_8: "length h = 8 \<Longrightarrow> map (\<lambda>i. f (h ! i)) [0..<8] = map f h"
  by (intro nth_equalityI) auto

lemma sha256_final_spec:
  assumes "absorbed c m"
  shows "\<exists>c'. sha256_final c (Some d) = (c', FT_ERR_SUCCESS, Some (write_block d 0 (sha256 m)))
    \<and> sha_state c' = Destroyed \<and> sha_hash c' = replicate 8 0 \<and> sha_buffer c' = replicate 64 0"
proof -
  let ?k = "length m mod 64"
  have c: "sha_state c = Initialised" "length (sha_buffer c) = 64" "sha_buffer_size c = ?k"
    "take ?k (sha_buffer c) = drop (length m - ?k) m"
    "sha_hash c = hash_blocks g_sha256_initial_hash (take (length m - ?k) m)"
    "sha_message_length c = word_of_nat (length m)"
    using assms by (auto simp: absorbed_def)
  let ?p = "final_padding c"
  let ?h = "if ?k < 56 then process_block (sha_hash c) (take 64 ?p)
    else process_block (process_block (sha_hash c) (take 64 ?p)) (drop 64 ?p)"
  have k: "?k < 64" by simp
  have p: "length ?p = 128" "take (if ?k < 56 then 64 else 128) ?p = drop (length m - ?k) m @ [0x80]
      @ replicate ((if ?k < 56 then 64 else 128) - 9 - ?k) 0
      @ store_u64_be (push_bit 3 (word_of_nat (length m)))"
    using final_padding_spec [OF c(2,3) k] unfolding c(4,6) by auto
  have "sha_pad m = take (length m - ?k) m @ take (if ?k < 56 then 64 else 128) ?p"
    unfolding p(2) by (rule sha_pad_eq)
  then have "hash_blocks g_sha256_initial_hash (sha_pad m)
      = hash_blocks (sha_hash c) (take (if ?k < 56 then 64 else 128) ?p)"
    unfolding c(5) by (simp add: hash_blocks_append minus_mod_eq_mult_div)
  also have "\<dots> = ?h"
  proof (cases "?k < 56")
    case True
    then show ?thesis using hash_blocks_block [of "take 64 ?p" "sha_hash c" "[]"] p(1) by simp
  next
    case False
    then show ?thesis using hash_two_blocks [OF p(1)] p(1) by simp
  qed
  finally have h: "?h = hash_blocks g_sha256_initial_hash (sha_pad m)" by simp
  have "concat (map (\<lambda>i. store_u32_be (?h ! i)) [0..<8]) = sha256 m"
    unfolding h sha256_hash_blocks by (simp add: map_nth_8)
  then show ?thesis
    using c(1) unfolding sha256_final_def c(3) Let_def by (simp add: sha256_destroy_def)
qed

lemma crypto_sha256_hash_spec:
  assumes "readable p n" "n < 2 ^ 64"
  shows "crypto_sha256_hash p n (Some d) =
    (if n < 2 ^ 61 then Some (FT_ERR_SUCCESS, Some (write_block d 0 (sha256 (span_bytes p n))))
     else Some (FT_ERR_OUT_OF_RANGE, Some d))"
proof -
  obtain c where c: "sha256_initialize new_sha256 = (c, FT_ERR_SUCCESS)" "absorbed c []"
    using absorbed_initialize [of new_sha256] by (auto simp: new_sha256_def)
  show ?thesis
  proof (cases "n < 2 ^ 61")
    case True
    then obtain c' where c': "sha256_update c p n = Some (c', FT_ERR_SUCCESS)"
      "absorbed c' (span_bytes p n)"
      using sha256_update_spec [OF c(2) _ assms] by auto
    show ?thesis
      using sha256_final_spec [OF c'(2), of d] c' c True by (auto simp: crypto_sha256_hash_def)
  next
    case False
    then show ?thesis
      using sha256_update_spec [OF c(2) _ assms] c by (auto simp: crypto_sha256_hash_def)
  qed
qed

subsection \<open>Incremental hashing\<close>

text \<open>
  The interface of an incremental consumer: what it holds grows by what it is given, up to
  a limit. Feeding pieces one after the other is feeding their concatenation.
\<close>

fun update_all :: "('s \<Rightarrow> 'p \<Rightarrow> ('s \<times> ft_err) option) \<Rightarrow> 's \<Rightarrow> 'p list \<Rightarrow> ('s \<times> ft_err) option" where
  "update_all update s [] = Some (s, FT_ERR_SUCCESS)"
| "update_all update s (p # ps) =
     (case update s p of
        None \<Rightarrow> None
      | Some (s', e) \<Rightarrow> if e \<noteq> FT_ERR_SUCCESS then Some (s', e) else update_all update s' ps)"

locale absorber =
  fixes update :: "'s \<Rightarrow> 'p \<Rightarrow> ('s \<times> ft_err) option"
    and piece :: "'p \<Rightarrow> 'a list"
    and valid :: "'p \<Rightarrow> bool"
    and holds :: "'s \<Rightarrow> 'a list \<Rightarrow> bool"
    and limit :: nat
  assumes update_law: "holds s m \<Longrightarrow> valid p \<Longrightarrow> length m + length (piece p) < limit
      \<Longrightarrow> \<exists>s'. update s p = Some (s', FT_ERR_SUCCESS) \<and> holds s' (m @ piece p)"
begin

lemma update_all_law:
  "holds s m \<Longrightarrow> list_all valid ps \<Longrightarrow> length m + length (concat (map piece ps)) < limit
     \<Longrightarrow> \<exists>s'. update_all update s ps = Some (s', FT_ERR_SUCCESS) \<and> holds s' (m @ concat (map piece ps))"
proof (induction ps arbitrary: s m)
  case (Cons p ps)
  have fits: "length m + length (piece p) < limit" "valid p" using Cons.prems(2,3) by auto
  obtain s1 where s1: "update s p = Some (s1, FT_ERR_SUCCESS)" "holds s1 (m @ piece p)"
    using update_law [OF Cons.prems(1) fits(2,1)] by blast
  then show ?case using Cons.IH [OF s1(2)] Cons.prems(2,3) by simp
qed simp

end

definition sha256_update_span :: "crypto_sha256 \<Rightarrow> ptr \<times> nat \<Rightarrow> (crypto_sha256 \<times> ft_err) option" where
  "sha256_update_span c p = sha256_update c (fst p) (snd p)"

interpretation sha: absorber sha256_update_span "\<lambda>p. span_bytes (fst p) (snd p)"
  "\<lambda>p. readable (fst p) (snd p)" absorbed "2 ^ 61"
proof
  fix s m and p :: "ptr \<times> nat"
  assume "absorbed s m" "readable (fst p) (snd p)"
    and le: "length m + length (span_bytes (fst p) (snd p)) < 2 ^ 61"
  moreover have "length m < 2 ^ 61" "snd p < 2 ^ 64" "length m + snd p < 2 ^ 61"
    using le length_span_readable [OF calculation(2)] by auto
  ultimately show "\<exists>s'. sha256_update_span s p = Some (s', FT_ERR_SUCCESS)
      \<and> absorbed s' (m @ span_bytes (fst p) (snd p))"
    using sha256_update_spec [of s m "fst p" "snd p"] by (simp add: sha256_update_span_def)
qed

subsection \<open>Main property\<close>

text \<open>
  C26: Incremental hashing is hashing of the whole: after \<open>initialize\<close>, feeding any pieces whose total
  length is below \<open>2 ^ 61\<close> bytes succeeds, and \<open>final\<close> writes the SHA-256 digest of
  their concatenation (message padding and length included), independent of
  how the message was cut. The digest is that of FIPS 180-4 as \<open>Sha256_Standard\<close> defines it, with the
  constants taken from the roots of the first primes.
\<close>

theorem sha256_streaming:
  assumes "list_all (\<lambda>p. readable (fst p) (snd p)) pieces"
    and "length (concat (map (\<lambda>p. span_bytes (fst p) (snd p)) pieces)) < 2 ^ 61"
    and "32 \<le> length digest"
  shows "\<exists>c0 c1 c2. sha256_initialize new_sha256 = (c0, FT_ERR_SUCCESS)
    \<and> update_all sha256_update_span c0 pieces = Some (c1, FT_ERR_SUCCESS)
    \<and> sha256_final c1 (Some digest) = (c2, FT_ERR_SUCCESS,
        Some (sha256 (concat (map (\<lambda>p. span_bytes (fst p) (snd p)) pieces)) @ drop 32 digest))"
proof -
  obtain c0 where c0: "sha256_initialize new_sha256 = (c0, FT_ERR_SUCCESS)" "absorbed c0 []"
    using absorbed_initialize [of new_sha256] by (auto simp: new_sha256_def)
  obtain c1 where c1: "update_all sha256_update_span c0 pieces = Some (c1, FT_ERR_SUCCESS)"
    "absorbed c1 (concat (map (\<lambda>p. span_bytes (fst p) (snd p)) pieces))"
    using sha.update_all_law [OF c0(2) assms(1)] assms(2) by auto
  then show ?thesis
    using c0(1) sha256_final_spec [OF c1(2), of digest] by (auto simp: write_block_def)
qed

theorem sha256_streaming_witness:
  "\<exists>c0 c1 c2. sha256_initialize new_sha256 = (c0, FT_ERR_SUCCESS)
     \<and> update_all sha256_update_span c0 [(Some [97, 98], 2), (None, 0), (Some [99, 0], 1)] = Some (c1, FT_ERR_SUCCESS)
     \<and> sha256_final c1 (Some (replicate 32 0)) = (c2, FT_ERR_SUCCESS, Some (sha256 [97, 98, 99]))"
  using sha256_streaming [of "[(Some [97, 98], 2), (None, 0), (Some [99, 0], 1)]" "replicate 32 0"] by simp

end
