(* ===== verification/Crypto_Aead.thy ===== *)
theory Crypto_Aead
  imports Crypto_Poly1305 Crypto_Sha256
begin

text \<open>
  Authenticated encryption of \<^verbatim>\<open>src/Modules/Crypto/crypto_aead.cpp\<close>, over
  the ChaCha20 and Poly1305 of this library and its vectors. The associated data and the
  ciphertext, each padded to 16 bytes, and their lengths are collected in a vector and
  authenticated under the first key-stream block. The local vector of a call is not part
  of its result.
\<close>

subsection \<open>The authenticated data\<close>

definition store_u64_le :: "u64 \<Rightarrow> bytes" where
  "store_u64_le x = map (\<lambda>index. ucast (drop_bit (index * 8) x)) [0..<8]"

definition append_bytes :: "vector_env \<Rightarrow> u8 ft_vector \<Rightarrow> ptr \<Rightarrow> nat \<Rightarrow> (u8 ft_vector \<times> bool) option" where
  "append_bytes env buffer data sz =
     (if null_span data sz then Some (buffer, False)
      else map_option (\<lambda>(v, e). (v, e = FT_ERR_SUCCESS))
             (push_all (\<lambda>v x. vec_push_back env v (Outside x)) buffer (span_bytes data sz)))"

definition constant_time_equal :: "bytes \<Rightarrow> bytes \<Rightarrow> nat \<Rightarrow> bool" where
  "constant_time_equal left right len \<longleftrightarrow> difference_loop 0 (take len left) (take len right) = 0"

text \<open>The chain of appends, in order, stopped by the first that fails.\<close>

fun append_parts :: "vector_env \<Rightarrow> u8 ft_vector \<Rightarrow> (ptr \<times> nat) list \<Rightarrow> (u8 ft_vector \<times> bool) option" where
  "append_parts env v [] = Some (v, True)"
| "append_parts env v ((data, sz) # parts) =
     (case append_bytes env v data sz of
        None \<Rightarrow> None
      | Some (v', ok) \<Rightarrow> if ok then append_parts env v' parts else Some (v', False))"

definition authentication_parts :: "ptr \<Rightarrow> nat \<Rightarrow> ptr \<Rightarrow> nat \<Rightarrow> (ptr \<times> nat) list" where
  "authentication_parts ad ad_len ct ct_len =
     [(ad, ad_len)]
     @ (if ad_len mod 16 \<noteq> 0 then [(Some (replicate 16 0), 16 - ad_len mod 16)] else [])
     @ [(ct, ct_len)]
     @ (if ct_len mod 16 \<noteq> 0 then [(Some (replicate 16 0), 16 - ct_len mod 16)] else [])
     @ [(Some (store_u64_le (word_of_nat ad_len) @ store_u64_le (word_of_nat ct_len)), 16)]"

definition build_authentication_data ::
  "vector_env \<Rightarrow> ptr \<Rightarrow> nat \<Rightarrow> ptr \<Rightarrow> nat \<Rightarrow> u8 ft_vector \<Rightarrow> u8 vec_result" where
  "build_authentication_data env ad ad_len ct ct_len authenticated =
     (if null_span ad ad_len then Some (authenticated, FT_ERR_INVALID_ARGUMENT)
      else if null_span ct ct_len then Some (authenticated, FT_ERR_INVALID_ARGUMENT)
      else case vec_initialize env authenticated of
             None \<Rightarrow> None
           | Some (v, e) \<Rightarrow>
               (case (if e \<noteq> FT_ERR_SUCCESS then Some (v, False)
                      else append_parts env v (authentication_parts ad ad_len ct ct_len)) of
                  None \<Rightarrow> None
                | Some (v', ok) \<Rightarrow>
                    Some (if ok then (v', FT_ERR_SUCCESS)
                          else (fst (vec_destroy env v'), FT_ERR_NO_MEMORY))))"

text \<open>
  \<open>&v[0]\<close>: the elements; the outer \<^term>\<open>None\<close> is a failed access, whose result is the address of
  a default element, read beyond its end afterwards.
\<close>

definition vec_front :: "vector_env \<Rightarrow> u8 ft_vector \<Rightarrow> ptr option" where
  "vec_front env v =
     (if snd (vec_get env 0 v 0) = FT_ERR_SUCCESS then Some (Some (vec_items v)) else None)"

definition wipe_tag :: "ptr \<Rightarrow> ptr" where
  "wipe_tag tag = map_option (\<lambda>t. replicate 16 0 @ drop 16 t) tag"

text \<open>Poly1305 over the collected bytes under the first key-stream block.\<close>

definition authenticate ::
  "vector_env \<Rightarrow> bytes \<Rightarrow> ptr \<Rightarrow> nat \<Rightarrow> ptr \<Rightarrow> nat \<Rightarrow> ptr \<Rightarrow> (ptr \<times> ft_err) option" where
  "authenticate env key_stream_block ad ad_len ct ct_len tag =
     (case Option.bind (vec_constructor env 0)
             (build_authentication_data env ad ad_len ct ct_len) of
        None \<Rightarrow> None
      | Some (authenticated, result) \<Rightarrow>
          if result \<noteq> FT_ERR_SUCCESS then Some (tag, result)
          else case (vec_front env authenticated, vec_size env authenticated) of
                 (Some front, Some (n, _)) \<Rightarrow>
                   Some (crypto_poly1305_auth tag front n (Some key_stream_block))
               | _ \<Rightarrow> None)"

subsection \<open>Sealing and opening\<close>

definition clear_if_live :: "vector_env \<Rightarrow> u8 ft_vector \<Rightarrow> u8 ft_vector option" where
  "clear_if_live env v =
     (if vec_is_initialised v = Initialised then map_option fst (vec_clear env v) else Some v)"

definition crypto_chacha20_poly1305_seal ::
  "vector_env \<Rightarrow> ptr \<Rightarrow> ptr \<Rightarrow> ptr \<Rightarrow> nat \<Rightarrow> ptr \<Rightarrow> nat \<Rightarrow> u8 ft_vector \<Rightarrow> ptr
     \<Rightarrow> (u8 ft_vector \<times> ptr \<times> ft_err) option" where
  "crypto_chacha20_poly1305_seal env key nonce ad ad_len plaintext len ciphertext tag =
     (if key = None \<or> nonce = None \<or> tag = None \<or> null_span ad ad_len \<or> null_span plaintext len
      then Some (ciphertext, tag, FT_ERR_INVALID_ARGUMENT)
      else case crypto_chacha20_xor env key nonce 1 plaintext len ciphertext of
        None \<Rightarrow> None
      | Some (c, result) \<Rightarrow>
          if result \<noteq> FT_ERR_SUCCESS
          then map_option (\<lambda>c'. (c', wipe_tag tag, result)) (clear_if_live env c)
          else case vec_size env c of
            None \<Rightarrow> None
          | Some (n, _) \<Rightarrow>
              (case (if n \<noteq> 0 then vec_front env c else Some None) of
                 None \<Rightarrow> None
               | Some data \<Rightarrow>
                   (case authenticate env (crypto_chacha20_block (the key) 0 (the nonce)) ad ad_len
                           data n tag of
                      None \<Rightarrow> None
                    | Some (tag', result) \<Rightarrow>
                        if result \<noteq> FT_ERR_SUCCESS
                        then map_option (\<lambda>(c', _). (c', wipe_tag tag', result)) (vec_clear env c)
                        else Some (c, tag', result))))"

definition crypto_chacha20_poly1305_open ::
  "vector_env \<Rightarrow> ptr \<Rightarrow> ptr \<Rightarrow> ptr \<Rightarrow> nat \<Rightarrow> ptr \<Rightarrow> nat \<Rightarrow> ptr \<Rightarrow> u8 ft_vector
     \<Rightarrow> u8 vec_result" where
  "crypto_chacha20_poly1305_open env key nonce ad ad_len ciphertext len tag plaintext =
     (case clear_if_live env plaintext of
        None \<Rightarrow> None
      | Some p \<Rightarrow>
          if key = None \<or> nonce = None \<or> tag = None \<or> null_span ad ad_len \<or> null_span ciphertext len
          then Some (p, FT_ERR_INVALID_ARGUMENT)
          else case authenticate env (crypto_chacha20_block (the key) 0 (the nonce)) ad ad_len
                      ciphertext len (Some (replicate 16 0)) of
            None \<Rightarrow> None
          | Some (expected_tag, result) \<Rightarrow>
              let result = (if result = FT_ERR_SUCCESS
                                \<and> \<not> constant_time_equal (the expected_tag) (the tag) 16
                            then FT_ERR_PERMISSION_DENIED else result)
              in if result \<noteq> FT_ERR_SUCCESS
                 then map_option (\<lambda>p'. (p', result)) (clear_if_live env p)
                 else case crypto_chacha20_xor env key nonce 1 ciphertext len p of
                        None \<Rightarrow> None
                      | Some (p', result) \<Rightarrow>
                          if result \<noteq> FT_ERR_SUCCESS
                          then map_option (\<lambda>p''. (p'', result)) (clear_if_live env p')
                          else Some (p', result))"

subsection \<open>The contract\<close>

definition pad16 :: "bytes \<Rightarrow> bytes" where
  "pad16 xs = xs @ replicate ((16 - length xs mod 16) mod 16) 0"

definition aead_data :: "bytes \<Rightarrow> bytes \<Rightarrow> bytes" where
  "aead_data ad ct = pad16 ad @ pad16 ct
     @ store_u64_le (word_of_nat (length ad)) @ store_u64_le (word_of_nat (length ct))"

definition aead_mac :: "bytes \<Rightarrow> bytes \<Rightarrow> bytes \<Rightarrow> bytes \<Rightarrow> bytes" where
  "aead_mac key nonce ad ct = poly1305 (crypto_chacha20_block key 0 nonce) (aead_data ad ct)"

lemma grants_mono: "grants env n \<Longrightarrow> m \<le> n \<Longrightarrow> grants env m"
  unfolding grants_def by (meson le_trans mult_le_mono1)

lemma append_parts_spec:
  assumes "vec_usable env v" "\<And>data sz. (data, sz) \<in> set parts \<Longrightarrow> readable data sz"
  shows "\<exists>v' ok. append_parts env v parts = Some (v', ok) \<and> vec_usable env v'
    \<and> (ok \<longrightarrow> vec_items v' = vec_items v @ concat (map (\<lambda>(d, s). span_bytes d s) parts))
    \<and> (vec_slim v \<and> grants env (2 * (length (vec_items v)
          + length (concat (map (\<lambda>(d, s). span_bytes d s) parts)))) \<longrightarrow> ok)"
  using assms
proof (induction env v parts rule: append_parts.induct)
  case (2 env v data sz parts)
  have "\<not> null_span data sz" using 2(3) [of data sz] by (simp add: not_null_readable)
  then have a: "append_bytes env v data sz = map_option (\<lambda>(v, e). (v, e = FT_ERR_SUCCESS))
      (push_all (\<lambda>v x. vec_push_back env v (Outside x)) v (span_bytes data sz))"
    by (simp add: append_bytes_def)
  obtain v1 e n where p: "push_all (\<lambda>v x. vec_push_back env v (Outside x)) v (span_bytes data sz) = Some (v1, e)" "vec_usable env v1"
    "vec_items v1 = vec_items v @ take n (span_bytes data sz)" "e = FT_ERR_SUCCESS \<longrightarrow> n = length (span_bytes data sz)"
    using vec.push_all_law [OF 2(2), of "span_bytes data sz"] by blast
  have slim: "e = FT_ERR_SUCCESS \<and> vec_slim v1"
    if "vec_slim v" "grants env (2 * (length (vec_items v) + length (span_bytes data sz)))"
    using vec_push_all_success [OF 2(2) that] p(1) by auto
  show ?case
  proof (cases "e = FT_ERR_SUCCESS")
    case True
    let ?rest = "concat (map (\<lambda>(d, s). span_bytes d s) parts)"
    obtain v' ok where r: "append_parts env v1 parts = Some (v', ok)" "vec_usable env v'"
      "ok \<longrightarrow> vec_items v' = vec_items v1 @ ?rest"
      "vec_slim v1 \<and> grants env (2 * (length (vec_items v1) + length ?rest)) \<longrightarrow> ok"
      using 2(1) [of "(v1, True)" v1 True] a p True 2(3) by force
    moreover have "ok" if "vec_slim v"
      "grants env (2 * (length (vec_items v) + length (span_bytes data sz @ ?rest)))"
    proof -
      have "vec_slim v1" using slim [OF that(1)] grants_mono [OF that(2)] by simp
      then show ?thesis using r(4) that(2) p(3,4) True by (simp add: algebra_simps)
    qed
    ultimately show ?thesis using a p True by auto
  next
    case False
    then have "\<not> (vec_slim v \<and> grants env (2 * (length (vec_items v) + length (span_bytes data sz))))"
      using slim by blast
    then have "\<not> (vec_slim v \<and> grants env (2 * (length (vec_items v)
        + length (concat (map (\<lambda>(d, s). span_bytes d s) ((data, sz) # parts))))))"
      using grants_mono [of env "2 * (length (vec_items v) + length (concat (map (\<lambda>(d, s). span_bytes d s) ((data, sz) # parts))))"
          "2 * (length (vec_items v) + length (span_bytes data sz))"] by auto
    then show ?thesis using a p False by auto
  qed
qed auto

lemma length_store_u64_le [simp]: "length (store_u64_le x) = 8"
  by (simp add: store_u64_le_def)

lemma pad16_parts:
  "length xs = n \<Longrightarrow> xs @ concat (map (\<lambda>(d, s). span_bytes d s)
     (if n mod 16 \<noteq> 0 then [(Some (replicate 16 0), 16 - n mod 16)] else [])) = pad16 xs"
  by (simp add: pad16_def take_replicate)

lemma parts_data:
  assumes "length (span_bytes ad ad_len) = ad_len" "length (span_bytes ct ct_len) = ct_len"
  shows "concat (map (\<lambda>(d, s). span_bytes d s) (authentication_parts ad ad_len ct ct_len))
    = aead_data (span_bytes ad ad_len) (span_bytes ct ct_len)"
  using pad16_parts [OF assms(1)] pad16_parts [OF assms(2)] assms
  by (simp add: authentication_parts_def aead_data_def flip: append_assoc)

lemma length_aead_data: "length (aead_data ad ct) \<le> length ad + length ct + 46" "aead_data ad ct \<noteq> []"
proof -
  have "(16 - k mod 16) mod 16 \<le> (15::nat)" for k by (simp add: less_Suc_eq_le [symmetric])
  then have "length (pad16 xs) \<le> length xs + 15" for xs by (simp add: pad16_def)
  from this [of ad] this [of ct] show "length (aead_data ad ct) \<le> length ad + length ct + 46"
    by (simp add: aead_data_def)
  show "aead_data ad ct \<noteq> []" by (auto simp: aead_data_def store_u64_le_def)
qed

lemma length_chacha20_block [simp]: "length (crypto_chacha20_block key counter nonce) = 64"
  by (simp add: crypto_chacha20_block_def Let_def length_concat_4)

text \<open>What the memory has to grant for the authenticated data.\<close>

definition aead_room :: "vector_env \<Rightarrow> nat \<Rightarrow> nat \<Rightarrow> bool" where
  "aead_room env ad_len ct_len \<longleftrightarrow> grants env (2 * (ad_len + ct_len + 46))"

lemma authenticate_spec:
  assumes env: "wf_vector_env env" and rd: "readable ad ad_len" "readable ct ct_len"
  shows "\<exists>tag' e. authenticate env (crypto_chacha20_block key 0 nonce) ad ad_len ct ct_len (Some tag) = Some (tag', e)
    \<and> (e = FT_ERR_SUCCESS \<longrightarrow> tag' = Some (aead_mac key nonce (span_bytes ad ad_len) (span_bytes ct ct_len) @ drop 16 tag))
    \<and> (e \<noteq> FT_ERR_SUCCESS \<longrightarrow> tag' = Some tag \<and> e = FT_ERR_NO_MEMORY)
    \<and> (aead_room env ad_len ct_len \<longrightarrow> e = FT_ERR_SUCCESS)"
proof -
  let ?ps = "authentication_parts ad ad_len ct ct_len" and ?d = "aead_data (span_bytes ad ad_len) (span_bytes ct ct_len)"
  have d: "concat (map (\<lambda>(d, s). span_bytes d s) ?ps) = ?d" and l: "length ?d \<le> ad_len + ct_len + 46"
    using parts_data length_aead_data(1) [of "span_bytes ad ad_len" "span_bytes ct ct_len"]
    by (simp_all add: rd length_span_readable)
  obtain v :: "u8 ft_vector" where v: "Option.bind (vec_constructor env 0) (vec_initialize env) = Some (v, FT_ERR_SUCCESS)"
    "vec_usable env v" "vec_items v = []" "vec_capacity v = SMALL_CAPACITY"
    using fresh_vector [OF env] by blast
  then obtain c :: "u8 ft_vector" where c: "vec_constructor env 0 = Some c" "vec_initialize env c = Some (v, FT_ERR_SUCCESS)"
    by (auto simp: Option.bind_eq_Some_conv)
  have "readable x n" if "(x, n) \<in> set ?ps" for x n
    using that rd by (auto simp: authentication_parts_def split: if_splits)
  then obtain w ok where w: "append_parts env v ?ps = Some (w, ok)" "vec_usable env w" "ok \<longrightarrow> vec_items w = ?d"
    "vec_slim v \<and> grants env (2 * length ?d) \<longrightarrow> ok"
    using append_parts_spec [OF v(2), of ?ps] v(3) unfolding d by auto
  have b: "build_authentication_data env ad ad_len ct ct_len c
      = Some (if ok then (w, FT_ERR_SUCCESS) else (fst (vec_destroy env w), FT_ERR_NO_MEMORY))"
    using c(2) w(1) by (simp add: build_authentication_data_def rd not_null_readable)
  have room: "ok" if "aead_room env ad_len ct_len"
    using w(4) grants_mono [of env "2 * (ad_len + ct_len + 46)" "2 * length ?d"] l that v(3,4)
    by (simp add: aead_room_def vec_slim_def)
  show ?thesis
  proof (cases ok)
    case True
    then have "vec_front env w = Some (Some ?d)" "vec_size env w = Some (length ?d, FT_ERR_SUCCESS)"
      using w(2,3) length_aead_data(2) by (auto simp: vec_front_def vec_get_def vec_size_def vec_observe_def vec_live_def vec_usable_def)
    then show ?thesis using b c True by (simp add: authenticate_def poly1305_auth_spec aead_mac_def)
  next
    case False
    then show ?thesis using b c room by (auto simp: authenticate_def)
  qed
qed

lemma clear_if_live_spec:
  assumes "vec_out env v"
  shows "\<exists>v'. clear_if_live env v = Some v' \<and> vec_out env v' \<and> vec_state v' = vec_state v
    \<and> (vec_state v = Initialised \<longrightarrow> vec_items v' = []) \<and> (vec_items v = [] \<longrightarrow> vec_items v' = [])"
  using vec_out_clear [OF assms] assms
  by (auto simp: clear_if_live_def vec_is_initialised_def vec_clear_to_def)

text \<open>Enough memory for one call: the output and the authenticated data.\<close>

definition aead_memory :: "vector_env \<Rightarrow> nat \<Rightarrow> nat \<Rightarrow> bool" where
  "aead_memory env ad_len len \<longleftrightarrow>
     (len \<le> SMALL_CAPACITY \<or> ve_malloc env len) \<and> aead_room env ad_len len"

lemma xor_from_one:
  assumes env: "wf_vector_env env" "ve_element_size env = 1" and out: "vec_out env output"
    and rd: "readable input len" "len < 2 ^ 64"
  shows "\<exists>c e. crypto_chacha20_xor env (Some key) (Some nonce) 1 input len output = Some (c, e) \<and> vec_out env c
    \<and> (e = FT_ERR_SUCCESS \<longrightarrow> vec_state c = Initialised \<and> vec_items c = chacha20 key nonce 1 (span_bytes input len))
    \<and> (e \<noteq> FT_ERR_SUCCESS \<longrightarrow> vec_items c = [] \<and> (e = FT_ERR_OUT_OF_RANGE \<or> e = FT_ERR_NO_MEMORY))
    \<and> (len \<le> stream_room 1 \<and> (len \<le> SMALL_CAPACITY \<or> ve_malloc env len) \<longrightarrow> e = FT_ERR_SUCCESS)"
  (is "\<exists>c e. ?P c e")
proof (rule chacha20_xor_spec [OF env out length_span_readable [OF rd(1)] rd(2), of key nonce 1])
  fix c e
  assume *: "crypto_chacha20_xor env (Some key) (Some nonce) 1 input len output = Some (c, e)" "vec_out env c"
    "e = FT_ERR_SUCCESS \<longrightarrow> vec_state c = Initialised \<and> (len = 0 \<or> (1::u32) \<noteq> 0)
       \<and> len \<le> stream_room 1 \<and> vec_items c = chacha20 key nonce 1 (span_bytes input len)"
    "e \<noteq> FT_ERR_SUCCESS \<longrightarrow> (if (1::u32) = 0 then c = output else vec_items c = [])
       \<and> (e = FT_ERR_OUT_OF_RANGE \<or> e = FT_ERR_NO_MEMORY)"
    "(len = 0 \<or> (1::u32) \<noteq> 0) \<and> len \<le> stream_room 1
       \<and> (len \<le> SMALL_CAPACITY \<or> ve_malloc env len) \<longrightarrow> e = FT_ERR_SUCCESS"
  then have "?P c e" by simp
  then show ?thesis by blast
qed

lemma seal_spec:
  assumes env: "wf_vector_env env" "ve_element_size env = 1" and out: "vec_out env ciphertext"
    and rd: "readable ad ad_len" "readable plaintext len" "len < 2 ^ 64"
  shows "\<exists>c tag' e. crypto_chacha20_poly1305_seal env (Some key) (Some nonce) ad ad_len plaintext len ciphertext (Some tag)
      = Some (c, tag', e) \<and> vec_out env c
    \<and> (e = FT_ERR_SUCCESS \<longrightarrow> vec_items c = chacha20 key nonce 1 (span_bytes plaintext len)
         \<and> tag' = Some (aead_mac key nonce (span_bytes ad ad_len) (vec_items c) @ drop 16 tag))
    \<and> (e \<noteq> FT_ERR_SUCCESS \<longrightarrow> vec_items c = [] \<and> tag' = Some (replicate 16 0 @ drop 16 tag)
         \<and> (e = FT_ERR_OUT_OF_RANGE \<or> e = FT_ERR_NO_MEMORY))
    \<and> (len \<le> stream_room 1 \<and> aead_memory env ad_len len \<longrightarrow> e = FT_ERR_SUCCESS)"
proof -
  note [simp] = not_null_readable [OF rd(1)] not_null_readable [OF rd(2)]
  obtain c e where x: "crypto_chacha20_xor env (Some key) (Some nonce) 1 plaintext len ciphertext = Some (c, e)" "vec_out env c"
    "e = FT_ERR_SUCCESS \<longrightarrow> vec_state c = Initialised \<and> vec_items c = chacha20 key nonce 1 (span_bytes plaintext len)"
    "e \<noteq> FT_ERR_SUCCESS \<longrightarrow> vec_items c = [] \<and> (e = FT_ERR_OUT_OF_RANGE \<or> e = FT_ERR_NO_MEMORY)"
    "len \<le> stream_room 1 \<and> (len \<le> SMALL_CAPACITY \<or> ve_malloc env len) \<longrightarrow> e = FT_ERR_SUCCESS"
    using xor_from_one [OF env out rd(2,3)] by blast
  show ?thesis
  proof (cases "e = FT_ERR_SUCCESS")
    case True
    then have u: "vec_usable env c" and n: "length (vec_items c) = len"
      using x vec_out_usable rd by (auto simp: length_span_readable)
    define data where "data = (if len \<noteq> 0 then Some (vec_items c) else None)"
    have front: "vec_size env c = Some (len, FT_ERR_SUCCESS)"
      "(if len \<noteq> 0 then vec_front env c else Some None) = Some data"
      using u n by (auto simp: data_def vec_front_def vec_get_def vec_size_def vec_observe_def vec_live_def vec_usable_def)
    have data: "readable data len" "span_bytes data len = vec_items c" using n by (auto simp: data_def)
    obtain tag' e' where a: "authenticate env (crypto_chacha20_block key 0 nonce) ad ad_len data len (Some tag) = Some (tag', e')"
      "e' = FT_ERR_SUCCESS \<longrightarrow> tag' = Some (aead_mac key nonce (span_bytes ad ad_len) (vec_items c) @ drop 16 tag)"
      "e' \<noteq> FT_ERR_SUCCESS \<longrightarrow> tag' = Some tag \<and> e' = FT_ERR_NO_MEMORY"
      "aead_room env ad_len len \<longrightarrow> e' = FT_ERR_SUCCESS"
      using authenticate_spec [OF env(1) rd(1) data(1), of key nonce tag] unfolding data(2) by blast
    have run: "crypto_chacha20_poly1305_seal env (Some key) (Some nonce) ad ad_len plaintext len ciphertext (Some tag)
        = (if e' \<noteq> FT_ERR_SUCCESS then map_option (\<lambda>(c', _). (c', wipe_tag tag', e')) (vec_clear env c)
           else Some (c, tag', e'))"
      using x(1) True a(1) front by (simp add: crypto_chacha20_poly1305_seal_def)
    show ?thesis
    proof (cases "e' = FT_ERR_SUCCESS")
      case ok: True
      then show ?thesis using run a x True by simp
    next
      case no: False
      have "vec_clear env c = Some (c\<lparr>vec_items := []\<rparr>, FT_ERR_SUCCESS)" using u by (simp add: vec_clear_def)
      then show ?thesis using run a no vec_out_clear(2) [OF x(2)] by (auto simp: wipe_tag_def aead_memory_def)
    qed
  next
    case False
    obtain c' where "clear_if_live env c = Some c'" "vec_out env c'" "vec_items c' = []"
      using clear_if_live_spec [OF x(2)] x(4) False by blast
    then show ?thesis using x False by (auto simp: crypto_chacha20_poly1305_seal_def wipe_tag_def aead_memory_def)
  qed
qed

lemma open_spec:
  fixes key nonce :: bytes
  assumes env: "wf_vector_env env" "ve_element_size env = 1" and out: "vec_out env plaintext"
    and rd: "readable ad ad_len" "readable ciphertext len" "len < 2 ^ 64" and tag: "16 \<le> length tag"
  defines "genuine \<equiv> take 16 tag = aead_mac key nonce (span_bytes ad ad_len) (span_bytes ciphertext len)"
  shows "\<exists>p e. crypto_chacha20_poly1305_open env (Some key) (Some nonce) ad ad_len ciphertext len (Some tag) plaintext
      = Some (p, e) \<and> vec_out env p
    \<and> (e = FT_ERR_SUCCESS \<longrightarrow> genuine \<and> vec_items p = chacha20 key nonce 1 (span_bytes ciphertext len))
    \<and> (e \<noteq> FT_ERR_SUCCESS \<longrightarrow> (vec_state p = Initialised \<longrightarrow> vec_items p = []))
    \<and> (\<not> genuine \<and> aead_room env ad_len len \<longrightarrow> e = FT_ERR_PERMISSION_DENIED)
    \<and> (genuine \<and> len \<le> stream_room 1 \<and> aead_memory env ad_len len \<longrightarrow> e = FT_ERR_SUCCESS)"
proof -
  note [simp] = not_null_readable [OF rd(1)] not_null_readable [OF rd(2)]
  let ?mac = "aead_mac key nonce (span_bytes ad ad_len) (span_bytes ciphertext len)"
  obtain p0 where p0: "clear_if_live env plaintext = Some p0" "vec_out env p0" "vec_state p0 = Initialised \<longrightarrow> vec_items p0 = []"
    using clear_if_live_spec [OF out] by auto
  obtain p1 where p1: "clear_if_live env p0 = Some p1" "vec_out env p1" "vec_state p1 = Initialised \<longrightarrow> vec_items p1 = []"
    using clear_if_live_spec [OF p0(2)] by auto
  obtain t e where a: "authenticate env (crypto_chacha20_block key 0 nonce) ad ad_len ciphertext len (Some (replicate 16 0)) = Some (t, e)"
    "e = FT_ERR_SUCCESS \<longrightarrow> t = Some ?mac" "e \<noteq> FT_ERR_SUCCESS \<longrightarrow> e = FT_ERR_NO_MEMORY"
    "aead_room env ad_len len \<longrightarrow> e = FT_ERR_SUCCESS"
    using authenticate_spec [OF env(1) rd(1,2), of key nonce "replicate 16 0"] by auto
  have "length ?mac = 16" by (simp add: aead_mac_def poly1305_def)
  then have eq: "constant_time_equal ?mac tag 16 \<longleftrightarrow> genuine"
    using tag by (auto simp: constant_time_equal_def difference_loop_eq_0 genuine_def)
  obtain p2 e2 where x: "crypto_chacha20_xor env (Some key) (Some nonce) 1 ciphertext len p0 = Some (p2, e2)" "vec_out env p2"
    "e2 = FT_ERR_SUCCESS \<longrightarrow> vec_state p2 = Initialised \<and> vec_items p2 = chacha20 key nonce 1 (span_bytes ciphertext len)"
    "e2 \<noteq> FT_ERR_SUCCESS \<longrightarrow> vec_items p2 = [] \<and> (e2 = FT_ERR_OUT_OF_RANGE \<or> e2 = FT_ERR_NO_MEMORY)"
    "len \<le> stream_room 1 \<and> (len \<le> SMALL_CAPACITY \<or> ve_malloc env len) \<longrightarrow> e2 = FT_ERR_SUCCESS"
    using xor_from_one [OF env p0(2) rd(2,3)] by blast
  obtain p3 where p3: "clear_if_live env p2 = Some p3" "vec_out env p3" "vec_state p3 = Initialised \<longrightarrow> vec_items p3 = []"
    using clear_if_live_spec [OF x(2)] by auto
  consider "e \<noteq> FT_ERR_SUCCESS" | "e = FT_ERR_SUCCESS" "\<not> genuine" | "e = FT_ERR_SUCCESS" "genuine" "e2 \<noteq> FT_ERR_SUCCESS"
    | "e = FT_ERR_SUCCESS" "genuine" "e2 = FT_ERR_SUCCESS" by blast
  then show ?thesis
  proof cases
    case 1
    then show ?thesis using p0 p1 a by (simp add: crypto_chacha20_poly1305_open_def aead_memory_def)
  next
    case 2
    then show ?thesis using p0 p1 a eq by (simp add: crypto_chacha20_poly1305_open_def Let_def)
  next
    case 3
    then show ?thesis using p0 p3 a eq x by (simp add: crypto_chacha20_poly1305_open_def Let_def aead_memory_def)
  next
    case 4
    then show ?thesis using p0 a eq x by (simp add: crypto_chacha20_poly1305_open_def Let_def)
  qed
qed

subsection \<open>Main properties\<close>

text \<open>
  C9: Opening what was sealed gives the plaintext back: when sealing succeeds, opening the
  ciphertext and tag it produced under the same key, nonce and associated data, with
  memory for the call, succeeds and delivers exactly the plaintext.
\<close>

theorem aead_open_seal:
  assumes env: "wf_vector_env env" "ve_element_size env = 1"
    and vecs: "vec_out env ciphertext" "vec_out env plaintext'"
    and rd: "readable ad ad_len" "readable plaintext len" "len < 2 ^ 64"
    and seal: "crypto_chacha20_poly1305_seal env (Some key) (Some nonce) ad ad_len plaintext len ciphertext
      (Some tag) = Some (c, Some tag', FT_ERR_SUCCESS)"
    and memory: "len \<le> 64 * (2 ^ 32 - 1)" "aead_memory env ad_len len"
  shows "\<exists>p. crypto_chacha20_poly1305_open env (Some key) (Some nonce) ad ad_len (Some (vec_items c)) len
      (Some tag') plaintext' = Some (p, FT_ERR_SUCCESS) \<and> vec_items p = span_bytes plaintext len"
proof -
  have c: "vec_items c = chacha20 key nonce 1 (span_bytes plaintext len)"
    "tag' = aead_mac key nonce (span_bytes ad ad_len) (vec_items c) @ drop 16 tag"
    using seal_spec [OF env vecs(1) rd, of key nonce tag] seal by auto
  have len: "length (vec_items c) = len" using c(1) rd(2) by (simp add: length_span_readable)
  have mac: "length (aead_mac key nonce (span_bytes ad ad_len) (vec_items c)) = 16"
    by (simp add: aead_mac_def poly1305_def)
  have "readable (Some (vec_items c)) len" "16 \<le> length tag'" using len mac c(2) by simp_all
  moreover have "take 16 tag' = aead_mac key nonce (span_bytes ad ad_len) (span_bytes (Some (vec_items c)) len)"
    using len mac c(2) by simp
  moreover have "len \<le> stream_room 1" using memory(1) by (simp add: stream_room_def)
  ultimately obtain p where "crypto_chacha20_poly1305_open env (Some key) (Some nonce) ad ad_len (Some (vec_items c)) len
      (Some tag') plaintext' = Some (p, FT_ERR_SUCCESS)" "vec_items p = chacha20 key nonce 1 (vec_items c)"
    using open_spec [OF env vecs(2) rd(1) _ rd(3), of "Some (vec_items c)" tag' key nonce] memory(2) len by auto
  then show ?thesis using c(1) by (simp add: chacha20_involution)
qed

lemma demo_aead_memory: "aead_memory byte_vector_env 1 3"
  by (simp add: aead_memory_def aead_room_def grants_def byte_vector_env_ok SMALL_CAPACITY_def)

theorem aead_open_seal_witness:
  "\<exists>c tag' p. crypto_chacha20_poly1305_seal byte_vector_env (Some (replicate 32 1)) (Some (replicate 12 2))
       (Some [9]) 1 (Some [3, 4, 5]) 3 new_byte_vector (Some (replicate 16 0)) = Some (c, Some tag', FT_ERR_SUCCESS)
     \<and> crypto_chacha20_poly1305_open byte_vector_env (Some (replicate 32 1)) (Some (replicate 12 2))
         (Some [9]) 1 (Some (vec_items c)) 3 (Some tag') new_byte_vector = Some (p, FT_ERR_SUCCESS)
     \<and> vec_items p = [3, 4, 5]"
proof -
  let ?k = "replicate 32 1 :: bytes" and ?n = "replicate 12 2 :: bytes"
  have "readable (Some [9]) 1" "readable (Some [3, 4, 5]) 3" by simp_all
  note rd = this
  have "(3::nat) \<le> stream_room 1" by (simp add: stream_room_def)
  then obtain c tag' where s: "crypto_chacha20_poly1305_seal byte_vector_env (Some ?k) (Some ?n)
       (Some [9]) 1 (Some [3, 4, 5]) 3 new_byte_vector (Some (replicate 16 0)) = Some (c, Some tag', FT_ERR_SUCCESS)"
    using seal_spec [OF byte_vector_env_ok(1-3) rd, of ?k ?n "replicate 16 0"] demo_aead_memory by auto
  show ?thesis
    using aead_open_seal [OF byte_vector_env_ok(1-3,3) rd _ s _ demo_aead_memory] s by auto
qed

text \<open>
  C22: \<open>open\<close> releases no plaintext without a genuine tag. Whatever the caller passes, the
  call returns; it reports success only when the tag is the one of this ciphertext and associated data
  under this key and nonce; with any other tag it fails with a permission error (given memory for
  the authenticated data), and every failure leaves the live output vector empty.
\<close>

theorem aead_rejects_forgery:
  assumes "wf_vector_env env" "ve_element_size env = 1" "vec_out env plaintext"
    and "readable ad ad_len" "readable ciphertext len" "len < 2 ^ 64" "16 \<le> length tag"
  shows "\<exists>p e. crypto_chacha20_poly1305_open env (Some key) (Some nonce) ad ad_len ciphertext len (Some tag) plaintext
      = Some (p, e)
    \<and> (e = FT_ERR_SUCCESS \<longrightarrow> take 16 tag = aead_mac key nonce (span_bytes ad ad_len) (span_bytes ciphertext len))
    \<and> (e \<noteq> FT_ERR_SUCCESS \<longrightarrow> (vec_state p = Initialised \<longrightarrow> vec_items p = []))
    \<and> (take 16 tag \<noteq> aead_mac key nonce (span_bytes ad ad_len) (span_bytes ciphertext len)
         \<and> grants env (2 * (ad_len + len + 46)) \<longrightarrow> e = FT_ERR_PERMISSION_DENIED)"
  using open_spec [OF assms, of key nonce] unfolding aead_room_def by blast

theorem aead_rejects_forgery_witness:
  "\<exists>tag p. length tag = 16
    \<and> crypto_chacha20_poly1305_open byte_vector_env (Some (replicate 32 1)) (Some (replicate 12 2))
        None 0 (Some [3]) 1 (Some tag) new_byte_vector = Some (p, FT_ERR_PERMISSION_DENIED)"
proof -
  let ?mac = "aead_mac (replicate 32 1) (replicate 12 2) (span_bytes None 0) (span_bytes (Some [3]) 1)"
  have "replicate 16 (0::u8) \<noteq> replicate 16 1" by simp
  then obtain tag :: bytes where tag: "length tag = 16" "take 16 tag \<noteq> ?mac"
    by (metis length_replicate take_all order_refl)
  have "grants byte_vector_env (2 * (0 + 1 + 46))"
    by (simp add: grants_def byte_vector_env_ok)
  moreover have "16 \<le> length tag" using tag(1) by simp
  ultimately show ?thesis
    using aead_rejects_forgery [OF byte_vector_env_ok(1-3), of None 0 "Some [3]" 1 tag "replicate 32 1" "replicate 12 2"] tag
    by auto
qed

end
