(* ===== verification/Crypto_X25519.thy ===== *)
theory Crypto_X25519
  imports Crypto_Poly1305 Crypto_Sha256
begin

text \<open>
  X25519 of \<^verbatim>\<open>src/Modules/Crypto/crypto_x25519.cpp\<close>: arithmetic modulo \<open>2 ^ 255 - 19\<close> on sixteen
  16-bit limbs held in 32-bit words, with 64-bit intermediates, the Montgomery ladder over it and the two
  public functions. Wiping local arrays has no visible effect and is left out.
\<close>

subsection \<open>Reduction\<close>

definition CRYPTO_FIELD_MODULUS :: "u32 list" where
  "CRYPTO_FIELD_MODULUS = 65517 # replicate 14 65535 @ [32767]"

definition CRYPTO_X25519_INVERSE_EXPONENT :: bytes where
  "CRYPTO_X25519_INVERSE_EXPONENT = 0xeb # replicate 30 0xff @ [0x7f]"

definition field_zero :: "u32 list" where
  "field_zero = replicate 16 0"

definition field_one :: "u32 list" where
  "field_one = field_zero[0 := 1]"

text \<open>The inner loop of a pass: the limbs after carrying and the carry out of the last one.\<close>

fun carry_loop :: "u64 \<Rightarrow> u64 list \<Rightarrow> u64 list \<times> u64" where
  "carry_loop carry [] = ([], carry)"
| "carry_loop carry (x # xs) =
     (let v = x + carry; (ys, out) = carry_loop (drop_bit 16 v) xs
      in ((v AND 0xffff) # ys, out))"

definition reduce_pass :: "u64 list \<Rightarrow> u64 list" where
  "reduce_pass value =
     (let (ys, carry) = carry_loop 0 value in ys[0 := ys ! 0 + carry * 38])"

definition field_reduce :: "u64 list \<Rightarrow> u64 list" where
  "field_reduce value = (reduce_pass ^^ 4) value"

text \<open>The subtraction loop shared by \<open>field_normalize\<close> and \<open>field_subtract\<close>.\<close>

fun borrow_loop :: "u32 \<Rightarrow> u64 list \<Rightarrow> u32 list \<Rightarrow> u64 list \<times> u32" where
  "borrow_loop borrow (x # xs) (m # ms) =
     (let difference = x - ucast m - ucast borrow;
          borrow' = ucast (drop_bit 63 difference);
          difference' = difference + ucast borrow' * 65536;
          (ys, out) = borrow_loop borrow' xs ms
      in ((difference' AND 0xffff) # ys, out))"
| "borrow_loop borrow _ _ = ([], borrow)"

definition field_normalize :: "u32 list \<Rightarrow> u32 list" where
  "field_normalize value =
     (let wide = field_reduce (map ucast value);
          (candidate, borrow) = borrow_loop 0 wide CRYPTO_FIELD_MODULUS;
          mask = (0 - (1 - borrow) :: u32)
      in map2 (\<lambda>c w. ucast ((c AND ucast mask) OR (w AND NOT (ucast mask :: u64)))) candidate wide)"

subsection \<open>Field operations\<close>

definition field_add :: "u32 list \<Rightarrow> u32 list \<Rightarrow> u32 list" where
  "field_add left right =
     field_normalize (map ucast (field_reduce (map2 (\<lambda>l r. ucast l + ucast r) left right)))"

fun add_masked_loop :: "u32 \<Rightarrow> u32 \<Rightarrow> u64 list \<Rightarrow> u32 list \<Rightarrow> u32 list" where
  "add_masked_loop msk borrow (x # xs) (m # ms) =
     (let v = x + (ucast m AND ucast msk) + ucast borrow
      in ucast (v AND 0xffff) # add_masked_loop msk (ucast (drop_bit 16 v)) xs ms)"
| "add_masked_loop msk borrow _ _ = []"

definition field_subtract :: "u32 list \<Rightarrow> u32 list \<Rightarrow> u32 list" where
  "field_subtract left right =
     (let (wide, borrow) = borrow_loop 0 (map ucast left) right
      in field_normalize (add_masked_loop (0 - borrow) 0 wide CRYPTO_FIELD_MODULUS))"

text \<open>The two nested loops of the product; \<open>k\<close> is the position \<open>left_index + right_index\<close>.\<close>

fun product_row :: "u64 list \<Rightarrow> nat \<Rightarrow> u32 \<Rightarrow> u32 list \<Rightarrow> u64 list" where
  "product_row product k l (r # rs) =
     product_row (product[k := product ! k + ucast l * ucast r]) (k + 1) l rs"
| "product_row product k l [] = product"

fun product_loop :: "u64 list \<Rightarrow> nat \<Rightarrow> u32 list \<Rightarrow> u32 list \<Rightarrow> u64 list" where
  "product_loop product left_index (l # ls) right =
     product_loop (product_row product left_index l right) (left_index + 1) ls right"
| "product_loop product left_index [] right = product"

text \<open>The folding loop, from \<open>index = 30\<close> down to 16.\<close>

fun fold_loop :: "u64 list \<Rightarrow> nat \<Rightarrow> u64 list" where
  "fold_loop product index =
     (if index < 16 then product
      else fold_loop (product[index - 16 := product ! (index - 16) + product ! index * 38]) (index - 1))"

declare fold_loop.simps [simp del]

definition field_multiply :: "u32 list \<Rightarrow> u32 list \<Rightarrow> u32 list" where
  "field_multiply left right =
     (let product = fold_loop (product_loop (replicate 31 0) 0 left right) 30
      in field_normalize (map ucast (field_reduce (take 16 product))))"

definition field_square :: "u32 list \<Rightarrow> u32 list" where
  "field_square v = field_multiply v v"

definition field_decode :: "bytes \<Rightarrow> u32 list" where
  "field_decode input =
     (let v = map (\<lambda>index. ucast (input ! (index * 2)) OR push_bit 8 (ucast (input ! (index * 2 + 1)))) [0..<16]
      in field_normalize (v[15 := v ! 15 AND 0x7fff]))"

definition field_encode :: "u32 list \<Rightarrow> bytes" where
  "field_encode input =
     (let v = field_normalize input;
          out = concat (map (\<lambda>x. [ucast x, ucast (drop_bit 8 x)]) v)
      in out[31 := out ! 31 AND 0x7f])"

definition conditional_swap :: "u32 list \<Rightarrow> u32 list \<Rightarrow> u32 \<Rightarrow> u32 list \<times> u32 list" where
  "conditional_swap left right swap =
     (let mask = 0 - swap
      in (map2 (\<lambda>l r. l XOR ((l XOR r) AND mask)) left right,
          map2 (\<lambda>l r. r XOR ((l XOR r) AND mask)) left right))"

text \<open>Bit \<open>i\<close> of a little-endian scalar, as the code reads it.\<close>

definition scalar_bit :: "bytes \<Rightarrow> nat \<Rightarrow> u32" where
  "scalar_bit s i = ucast (drop_bit (i mod 8) (s ! (i div 8)) AND 1)"

text \<open>Square and multiply over the bits \<open>n - 1, \<dots>, 0\<close> of the exponent.\<close>

primrec inverse_loop :: "u32 list \<Rightarrow> u32 list \<Rightarrow> nat \<Rightarrow> u32 list" where
  "inverse_loop base result 0 = result"
| "inverse_loop base result (Suc n) =
     (let squared = field_square result
      in inverse_loop base
           (if scalar_bit CRYPTO_X25519_INVERSE_EXPONENT n \<noteq> 0 then field_multiply squared base else squared) n)"

definition field_inverse :: "u32 list \<Rightarrow> u32 list" where
  "field_inverse input = inverse_loop input field_one 255"

subsection \<open>The ladder\<close>

record ladder =
  lad_x2 :: "u32 list"
  lad_z2 :: "u32 list"
  lad_x3 :: "u32 list"
  lad_z3 :: "u32 list"
  lad_swap :: u32

definition swap_points :: "ladder \<Rightarrow> u32 \<Rightarrow> ladder" where
  "swap_points s swap =
     (let (x2, x3) = conditional_swap (lad_x2 s) (lad_x3 s) swap;
          (z2, z3) = conditional_swap (lad_z2 s) (lad_z3 s) swap
      in s\<lparr>lad_x2 := x2, lad_z2 := z2, lad_x3 := x3, lad_z3 := z3\<rparr>)"

definition ladder_step :: "u32 list \<Rightarrow> u32 \<Rightarrow> ladder \<Rightarrow> ladder" where
  "ladder_step x1 b s0 =
     (let s = swap_points s0 (lad_swap s0 XOR b);
          x2 = lad_x2 s; z2 = lad_z2 s; x3 = lad_x3 s; z3 = lad_z3 s;
          a = field_add x2 z2;
          aa = field_square a;
          bv = field_subtract x2 z2;
          bb = field_square bv;
          e = field_subtract aa bb;
          c = field_add x3 z3;
          d = field_subtract x3 z3;
          da = field_multiply d a;
          cb = field_multiply c bv;
          x3' = field_square (field_add da cb);
          z3' = field_multiply x1 (field_square (field_subtract da cb));
          x2' = field_multiply aa bb;
          a24 = field_zero[0 := 121665];
          z2' = field_multiply e (field_add aa (field_multiply a24 e))
      in \<lparr>lad_x2 = x2', lad_z2 = z2', lad_x3 = x3', lad_z3 = z3', lad_swap = b\<rparr>)"

primrec ladder_loop :: "bytes \<Rightarrow> u32 list \<Rightarrow> ladder \<Rightarrow> nat \<Rightarrow> ladder" where
  "ladder_loop scalar x1 s 0 = s"
| "ladder_loop scalar x1 s (Suc n) = ladder_loop scalar x1 (ladder_step x1 (scalar_bit scalar n) s) n"

definition clamp_scalar :: "bytes \<Rightarrow> bytes" where
  "clamp_scalar input =
     (let s = take 32 input; s1 = s[0 := s ! 0 AND 248]; s2 = s1[31 := s1 ! 31 AND 127]
      in s2[31 := s2 ! 31 OR 64])"

definition ladder_result :: "bytes \<Rightarrow> bytes \<Rightarrow> bytes" where
  "ladder_result scalar_input public_input =
     (let scalar = clamp_scalar scalar_input;
          x1 = field_decode public_input;
          s0 = \<lparr>lad_x2 = field_one, lad_z2 = field_zero, lad_x3 = x1, lad_z3 = field_one, lad_swap = 0\<rparr>;
          s1 = ladder_loop scalar x1 s0 255;
          s2 = swap_points s1 (lad_swap s1)
      in field_encode (field_multiply (lad_x2 s2) (field_inverse (lad_z2 s2))))"

definition scalar_multiply :: "ptr \<Rightarrow> ptr \<Rightarrow> ptr \<Rightarrow> ft_err \<times> ptr" where
  "scalar_multiply scalar_input public_input output =
     (case (scalar_input, public_input, output) of
        (Some s, Some p, Some out) \<Rightarrow>
          let r = ladder_result s p
          in (if fold (\<lambda>x b. b OR x) r 0 = 0 then FT_ERR_PERMISSION_DENIED else FT_ERR_SUCCESS,
              Some (r @ drop 32 out))
      | _ \<Rightarrow> (FT_ERR_INVALID_ARGUMENT, output))"

definition crypto_x25519_public_key :: "ptr \<Rightarrow> ptr \<Rightarrow> ft_err \<times> ptr" where
  "crypto_x25519_public_key private_key public_key =
     (if private_key = None \<or> public_key = None then (FT_ERR_INVALID_ARGUMENT, public_key)
      else scalar_multiply private_key (Some ((replicate 32 0)[0 := 9])) public_key)"

definition crypto_x25519_shared_secret :: "ptr \<Rightarrow> ptr \<Rightarrow> ptr \<Rightarrow> ft_err \<times> ptr" where
  "crypto_x25519_shared_secret private_key peer_public_key shared_secret =
     scalar_multiply private_key peer_public_key shared_secret"

end
