(* ===== verification/Crypto_X25519_Field.thy ===== *)
theory Crypto_X25519_Field
  imports Crypto_X25519
begin

text \<open>
  The field arithmetic of \<open>Crypto_X25519\<close> against the integers modulo \<open>2 ^ 255 - 19\<close>: no
  intermediate word wraps around, reduction ends within its four passes, and addition, multiplication,
  inversion and the two conversions are exact modulo the prime. Subtraction is exact
  precisely when its second operand does not exceed the first by more than the prime.
\<close>

subsection \<open>Numbers in base \<open>2 ^ 16\<close>\<close>

fun lv :: "'a::len word list \<Rightarrow> nat" where
  "lv [] = 0"
| "lv (x # xs) = unat x + 2 ^ 16 * lv xs"

definition below :: "nat \<Rightarrow> 'a::len word list \<Rightarrow> bool" where
  "below n xs \<longleftrightarrow> (\<forall>x\<in>set xs. unat x < n)"

definition field_prime :: nat where
  "field_prime = 2 ^ 255 - 19"

lemma two_primes: "2 ^ 256 = 2 * field_prime + 38"
  by (simp add: field_prime_def)

lemma below_simps [simp]: "below n []" "below n (x # xs) \<longleftrightarrow> unat x < n \<and> below n xs"
  by (auto simp: below_def)

lemma below_nth: "below n xs \<Longrightarrow> i < length xs \<Longrightarrow> unat (xs ! i) < n"
  by (simp add: below_def)

lemma below_mono: "below n xs \<Longrightarrow> n \<le> m \<Longrightarrow> below m xs"
  by (auto simp: below_def)

lemma below_u32: "below (2 ^ 32) (xs :: u32 list)"
proof -
  have "unat x < 2 ^ 32" for x :: u32 using unsigned_less [of x, where ?'a = nat] by simp
  then show ?thesis by (simp add: below_def)
qed

lemma lv_less: "below (2 ^ 16) xs \<Longrightarrow> lv xs < 2 ^ (16 * length xs)"
  by (induction xs) (auto simp: power_add)

lemma lv_bound: "below (2 ^ 16 * k) xs \<Longrightarrow> lv xs + 2 * k \<le> 2 * k * 2 ^ (16 * length xs)"
proof (induction xs)
  case (Cons x xs)
  have "2 ^ 16 * (lv xs + 2 * k) \<le> 2 ^ 16 * (2 * k * 2 ^ (16 * length xs))" using Cons by (intro mult_left_mono) auto
  then show ?case using Cons.prems by (simp add: power_add algebra_simps)
qed simp

lemma lv_append: "lv (xs @ ys) = lv xs + 2 ^ (16 * length xs) * lv ys"
  by (induction xs) (simp_all add: power_add algebra_simps)

lemma lv_update:
  "k < length xs \<Longrightarrow> lv (xs[k := y]) + 2 ^ (16 * k) * unat (xs ! k) = lv xs + 2 ^ (16 * k) * unat y"
proof (induction xs arbitrary: k)
  case (Cons x xs)
  then show ?case
  proof (cases k)
    case (Suc j)
    then have "2 ^ 16 * (lv (xs[j := y]) + 2 ^ (16 * j) * unat (xs ! j)) = 2 ^ 16 * (lv xs + 2 ^ (16 * j) * unat y)"
      using Cons by simp
    then show ?thesis using Suc by (simp add: power_add algebra_simps)
  qed simp
qed simp

lemma lv_ucast_up: "lv (map ucast (xs :: u32 list) :: u64 list) = lv xs"
  by (induction xs) (simp_all add: unat_wide)

lemma below_ucast_up: "below n (map ucast (xs :: u32 list) :: u64 list) \<longleftrightarrow> below n xs"
  by (induction xs) (simp_all add: unat_wide)

lemma ucast_down:
  assumes "below (2 ^ 32) (xs :: u64 list)"
  shows "lv (map ucast xs :: u32 list) = lv xs" "below n (map ucast xs :: u32 list) \<longleftrightarrow> below n xs"
proof -
  have "unat (ucast x :: u32) = unat x" if "unat x < 2 ^ 32" for x :: u64
    using that by (simp add: unsigned_ucast_eq take_bit_nat_mod)
  then show "lv (map ucast xs :: u32 list) = lv xs" "below n (map ucast xs :: u32 list) \<longleftrightarrow> below n xs"
    using assms by (induction xs) simp_all
qed

lemma unat_and_16: "unat (x AND 0xffff :: u64) = unat x mod 2 ^ 16"
proof -
  have "(0xffff :: u64) = mask 16" by (simp add: mask_eq_exp_minus_1)
  then have "x AND 0xffff = take_bit 16 x" by (simp add: take_bit_eq_mask)
  then show ?thesis by (simp add: unsigned_take_bit_eq take_bit_nat_mod)
qed

lemma unat_drop_bit64: "unat (drop_bit n (x::u64)) = unat x div 2 ^ n"
  by (simp add: unat_drop_bit_eq drop_bit_nat_div)

subsection \<open>Reduction\<close>

lemma carry_loop_spec:
  "below (2 ^ 63) xs \<Longrightarrow> unat c < 2 ^ 63 \<Longrightarrow> carry_loop c xs = (ys, out) \<Longrightarrow>
     length ys = length xs \<and> below (2 ^ 16) ys \<and> lv ys + 2 ^ (16 * length xs) * unat out = lv xs + unat c"
proof (induction c xs arbitrary: ys out rule: carry_loop.induct)
  case (2 c x xs)
  let ?v = "x + c"
  obtain zs where z: "carry_loop (drop_bit 16 ?v) xs = (zs, out)" "ys = (?v AND 0xffff) # zs"
    using 2(4) by (auto simp: Let_def split: prod.splits)
  have v: "unat ?v = unat x + unat c" using 2(2,3) by (intro unat_add64) simp
  have d: "unat (drop_bit 16 ?v) = unat ?v div 2 ^ 16" by (rule unat_drop_bit64)
  have "unat ?v < 2 ^ 64" using unsigned_less [of ?v, where ?'a = nat] by simp
  then have "unat ?v div 2 ^ 16 < 2 ^ 48" by (simp add: less_mult_imp_div_less)
  then have "unat (drop_bit 16 ?v) < 2 ^ 63" unfolding d by (rule less_trans) simp
  note ih = 2(1) [OF refl _ this z(1)]
  have "lv zs + 2 ^ (16 * length xs) * unat out = lv xs + unat ?v div 2 ^ 16" "length zs = length xs" "below (2 ^ 16) zs"
    using ih 2(2) d by auto
  note t = this
  have "lv ys + 2 ^ (16 * length (x # xs)) * unat out
      = unat ?v mod 2 ^ 16 + 2 ^ 16 * (lv zs + 2 ^ (16 * length xs) * unat out)"
    by (simp add: z(2) unat_and_16 power_add distrib_left)
  also have "\<dots> = 2 ^ 16 * lv xs + unat ?v"
    unfolding t(1) distrib_left using mult_div_mod_eq [of "2 ^ 16" "unat ?v"] by linarith
  finally show ?case using t v by (simp add: z(2) unat_and_16)
qed simp

lemma reduce_pass_spec:
  assumes "length xs = 16" "below (2 ^ 63) xs" "lv xs < 2 ^ 256 * k" "k \<le> 2 ^ 40"
  shows "lv (reduce_pass xs) = lv xs mod 2 ^ 256 + 38 * (lv xs div 2 ^ 256)" "length (reduce_pass xs) = 16"
    "below (2 ^ 63) (reduce_pass xs)" "lv xs < 2 ^ 256 \<Longrightarrow> below (2 ^ 16) (reduce_pass xs)"
proof -
  obtain ys out where y: "carry_loop 0 xs = (ys, out)" by (cases "carry_loop 0 xs")
  then have ys: "length ys = 16" "below (2 ^ 16) ys" "lv ys + 2 ^ 256 * unat out = lv xs"
    using carry_loop_spec [OF assms(2) _ y] assms(1) by auto
  have l: "lv ys < 2 ^ 256" using lv_less [OF ys(2)] ys(1) by simp
  have out: "unat out = lv xs div 2 ^ 256" "lv ys = lv xs mod 2 ^ 256" using l by (simp_all flip: ys(3))
  have "unat out < k" using assms(3) out(1) by (simp add: less_mult_imp_div_less mult.commute)
  then have o40: "unat out < 2 ^ 40" using assms(4) by simp
  obtain z zs where z: "ys = z # zs" using ys(1) by (cases ys) auto
  have "unat (out * 38) = unat out * 38" using unat_mult_lem [of out 38] o40 by simp
  then have head: "unat (z + out * 38) = unat z + unat out * 38"
    using unat_add64 [of z "out * 38"] ys(2) o40 by (simp add: z)
  have r: "reduce_pass xs = (z + out * 38) # zs" by (simp add: reduce_pass_def y z)
  show "length (reduce_pass xs) = 16" using ys(1) by (simp add: r z)
  show "lv (reduce_pass xs) = lv xs mod 2 ^ 256 + 38 * (lv xs div 2 ^ 256)"
    using out unfolding r z by (simp add: head)
  show "below (2 ^ 63) (reduce_pass xs)"
    using ys(2) o40 head below_mono [of "2 ^ 16" zs "2 ^ 63"] by (simp add: r z)
  show "below (2 ^ 16) (reduce_pass xs)" if "lv xs < 2 ^ 256"
    using that ys(2) head out(1) by (simp add: r z)
qed

lemma field_reduce_spec:
  assumes "length xs = 16" "below (2 ^ 44) xs"
  shows "length (field_reduce xs) = 16" "below (2 ^ 16) (field_reduce xs)"
    "lv (field_reduce xs) mod field_prime = lv xs mod field_prime"
    "lv xs < 2 ^ 256 \<Longrightarrow> lv (field_reduce xs) = lv xs"
proof -
  define x1 where "x1 = reduce_pass xs"
  define x2 where "x2 = reduce_pass x1"
  define x3 where "x3 = reduce_pass x2"
  have r: "field_reduce xs = reduce_pass x3"
    by (simp add: field_reduce_def x1_def x2_def x3_def numeral_eq_Suc)
  have b0: "below (2 ^ 63) xs" using below_mono [OF assms(2)] by simp
  have "lv xs + 2 * 2 ^ 28 \<le> 2 * 2 ^ 28 * 2 ^ (16 * length xs)"
    using assms(2) by (intro lv_bound) simp
  then have l0: "lv xs < 2 ^ 256 * 2 ^ 29" using assms(1) by simp
  note p1 = reduce_pass_spec [OF assms(1) b0 l0, folded x1_def]
  have q0: "lv xs div 2 ^ 256 < 2 ^ 29" using l0 by (simp add: less_mult_imp_div_less mult.commute)
  have v1: "lv x1 = lv xs mod 2 ^ 256 + 38 * (lv xs div 2 ^ 256)" using p1(1) by simp
  have l1: "lv x1 < 2 ^ 256 + 38 * 2 ^ 29"
    unfolding v1 using q0 by (intro add_less_le_mono mult_le_mono) simp_all
  note p2 = reduce_pass_spec [of x1 2, folded x2_def]
  have v2: "lv x2 = lv x1 mod 2 ^ 256 + 38 * (lv x1 div 2 ^ 256)" and x2: "length x2 = 16" "below (2 ^ 63) x2"
    using p2 p1 l1 by simp_all
  have l2: "lv x2 < 2 ^ 256"
  proof (cases "lv x1 < 2 ^ 256")
    case False
    then have "lv x1 div 2 ^ 256 = 1" "lv x1 mod 2 ^ 256 = lv x1 - 2 ^ 256"
      using l1 by (auto simp: div_nat_eqI le_mod_geq)
    then show ?thesis using v2 l1 by simp
  qed (simp add: v2)
  note p3 = reduce_pass_spec [of x2 1, folded x3_def]
  have v3: "lv x3 = lv x2" and x3: "length x3 = 16" "below (2 ^ 63) x3" using p3 x2 l2 by simp_all
  note p4 = reduce_pass_spec [of x3 1]
  have v4: "lv (field_reduce xs) = lv x2" using p4 x3 v3 l2 by (simp add: r)
  show "length (field_reduce xs) = 16" "below (2 ^ 16) (field_reduce xs)" using p4 x3 v3 l2 by (simp_all add: r)
  have m: "(x mod 2 ^ 256 + 38 * (x div 2 ^ 256)) mod field_prime = x mod field_prime" for x
  proof -
    have "x = (x mod 2 ^ 256 + 38 * (x div 2 ^ 256)) + field_prime * (2 * (x div 2 ^ 256))"
      using mult_div_mod_eq [of "2 ^ 256" x] unfolding two_primes by (simp add: algebra_simps)
    then show ?thesis by (metis mod_mult_self2)
  qed
  show "lv (field_reduce xs) mod field_prime = lv xs mod field_prime" by (simp only: v4 v2 v1 m)
  show "lv (field_reduce xs) = lv xs" if "lv xs < 2 ^ 256"
    using that by (simp add: v4 v2 v1)
qed

subsection \<open>Subtracting the modulus\<close>

lemma word_diff_cases:
  fixes X Y :: nat
  assumes "X < 2 ^ 16" "Y \<le> 2 ^ 16"
  shows "(word_of_nat X - word_of_nat Y :: u64)
    = word_of_nat (if Y \<le> X then X - Y else 2 ^ 64 + X - Y)"
proof (cases "Y \<le> X")
  case False
  have "(word_of_nat (2 ^ 64 + X - Y) :: u64) = word_of_nat (2 ^ 64 + X) - word_of_nat Y"
    using assms by (simp add: of_nat_diff)
  then show ?thesis using False by simp
qed (simp add: of_nat_diff)

lemma borrow_step:
  fixes x :: u64 and m b :: u32
  assumes "unat x < 2 ^ 16" "unat m < 2 ^ 16" "unat b \<le> 1"
  defines "d \<equiv> x - ucast m - ucast b"
  defines "b' \<equiv> (ucast (drop_bit 63 d) :: u32)"
  shows "unat b' \<le> 1 \<and> unat ((d + ucast b' * 65536) AND 0xffff) + unat m + unat b = unat x + 2 ^ 16 * unat b'"
proof -
  let ?Y = "unat m + unat b"
  have "d = word_of_nat (unat x) - word_of_nat ?Y" by (simp only: d_def wide_of_nat of_nat_add) simp
  then have d: "d = word_of_nat (if ?Y \<le> unat x then unat x - ?Y else 2 ^ 64 + unat x - ?Y)"
    using word_diff_cases [of "unat x" ?Y] assms(1-3) by simp
  show ?thesis
  proof (cases "?Y \<le> unat x")
    case True
    then have u: "unat d = unat x - ?Y" using assms(1) unfolding d by (subst unat_of_nat64) simp_all
    then have "drop_bit 63 d = 0" using assms(1) by (simp add: word_unat_eq_iff unat_drop_bit64)
    then show ?thesis using u True assms(1) by (simp add: b'_def unat_and_16)
  next
    case False
    then have u: "unat d = 2 ^ 64 + unat x - ?Y" using assms(1-3) unfolding d by (subst unat_of_nat64) simp_all
    have "2 ^ 63 \<le> unat d" "unat d < 2 ^ 64" using u False assms(1-3) by auto
    then have "unat (drop_bit 63 d) = 1" unfolding unat_drop_bit64 by (intro div_nat_eqI) simp_all
    then have b': "drop_bit 63 d = 1" by (simp add: word_unat_eq_iff)
    have "d + 65536 = word_of_nat (2 ^ 64 + unat x - ?Y + 65536)" using False by (simp add: d)
    also have "2 ^ 64 + unat x - ?Y + 65536 = 2 ^ 64 + (unat x + 65536 - ?Y)" using assms(1-3) by simp
    finally have "d + 65536 = word_of_nat (unat x + 65536 - ?Y)" by simp
    then have "unat (d + 65536) = unat x + 65536 - ?Y" using False by (simp add: unat_of_nat64 del: of_nat_diff)
    then show ?thesis using False assms(1-3) by (simp add: b' b'_def unat_and_16)
  qed
qed

lemma borrow_loop_spec:
  "length xs = length ms \<Longrightarrow> below (2 ^ 16) xs \<Longrightarrow> below (2 ^ 16) ms \<Longrightarrow> unat b \<le> 1 \<Longrightarrow>
   borrow_loop b xs ms = (ys, out) \<Longrightarrow>
     length ys = length xs \<and> below (2 ^ 16) ys \<and> unat out \<le> 1
     \<and> lv ys + lv ms + unat b = lv xs + 2 ^ (16 * length xs) * unat out"
proof (induction b xs ms arbitrary: ys out rule: borrow_loop.induct)
  case (1 b x xs m ms)
  let ?d = "x - ucast m - ucast b"
  let ?b = "ucast (drop_bit 63 ?d) :: u32"
  obtain zs where z: "borrow_loop ?b xs ms = (zs, out)" "ys = ((?d + ucast ?b * 65536) AND 0xffff) # zs"
    using 1(6) by (auto simp: Let_def split: prod.splits)
  have s: "unat ?b \<le> 1" "unat ((?d + ucast ?b * 65536) AND 0xffff) + unat m + unat b = unat x + 2 ^ 16 * unat ?b"
    using borrow_step [of x m b] 1(3-5) by auto
  have ih: "length zs = length xs" "below (2 ^ 16) zs" "unat out \<le> 1"
    "lv zs + lv ms + unat ?b = lv xs + 2 ^ (16 * length xs) * unat out"
    using 1(1) [OF refl refl refl _ _ _ s(1) z(1)] 1(2-4) by auto
  have "lv ys + lv (m # ms) + unat b = (unat ((?d + ucast ?b * 65536) AND 0xffff) + unat m + unat b) + 2 ^ 16 * (lv zs + lv ms)"
    by (simp add: z(2))
  also have "\<dots> = unat x + 2 ^ 16 * (lv zs + lv ms + unat ?b)" unfolding s(2) by simp
  also have "\<dots> = lv (x # xs) + 2 ^ (16 * length (x # xs)) * unat out" unfolding ih(4) by (simp add: power_add)
  finally show ?case using ih by (simp add: z(2) unat_and_16)
qed simp_all

lemma lv_replicate_ones: "lv (replicate n (0xffff :: u32)) + 1 = 2 ^ (16 * n)"
  by (induction n) (simp_all add: power_add)

lemma lv_modulus: "lv CRYPTO_FIELD_MODULUS = field_prime" "length CRYPTO_FIELD_MODULUS = 16"
  "below (2 ^ 16) CRYPTO_FIELD_MODULUS"
proof -
  have "lv (replicate 14 (0xffff :: u32)) = 2 ^ 224 - 1" using lv_replicate_ones [of 14] by simp
  then show "lv CRYPTO_FIELD_MODULUS = field_prime"
    by (simp add: CRYPTO_FIELD_MODULUS_def field_prime_def lv_append)
  show "length CRYPTO_FIELD_MODULUS = 16" "below (2 ^ 16) CRYPTO_FIELD_MODULUS"
    by (auto simp: CRYPTO_FIELD_MODULUS_def below_def)
qed

definition field_elem :: "u32 list \<Rightarrow> bool" where
  "field_elem v \<longleftrightarrow> length v = 16 \<and> below (2 ^ 16) v \<and> lv v < field_prime + 38"

lemma select_words:
  assumes "below (2 ^ 16) cs" "below (2 ^ 16) ws" "length cs = length ws"
  shows "map2 (\<lambda>c w. ucast ((c AND ucast (- 1 :: u32)) OR (w AND NOT (ucast (- 1 :: u32) :: u64)))) cs ws = (map ucast cs :: u32 list)"
    "map2 (\<lambda>c w. ucast ((c AND ucast (0 :: u32)) OR (w AND NOT (ucast (0 :: u32) :: u64)))) cs ws = (map ucast ws :: u32 list)"
proof -
  have m: "(ucast (- 1 :: u32) :: u64) = mask 32" by (rule bit_word_eqI) (auto simp: bit_simps)
  have "x AND mask 32 = x" "x AND NOT (mask 32) = 0" if "unat x < 2 ^ 16" for x :: u64
  proof -
    have "unat (take_bit 32 x) = unat x" using that by (simp add: unsigned_take_bit_eq take_bit_nat_mod)
    then show a: "x AND mask 32 = x" by (simp add: word_unat_eq_iff take_bit_eq_mask [symmetric])
    show "x AND NOT (mask 32) = 0" by (metis a and.assoc bit.conj_cancel_right and_zero_eq)
  qed
  then show "map2 (\<lambda>c w. ucast ((c AND ucast (- 1 :: u32)) OR (w AND NOT (ucast (- 1 :: u32) :: u64)))) cs ws = (map ucast cs :: u32 list)"
    using assms unfolding m below_def by (intro nth_equalityI) simp_all
  show "map2 (\<lambda>c w. ucast ((c AND ucast (0 :: u32)) OR (w AND NOT (ucast (0 :: u32) :: u64)))) cs ws = (map ucast ws :: u32 list)"
    using assms by (intro nth_equalityI) simp_all
qed

lemma field_normalize_spec:
  assumes "length v = 16"
  shows "field_elem (field_normalize v)" "lv (field_normalize v) mod field_prime = lv v mod field_prime"
    "lv v < 2 * field_prime \<Longrightarrow> lv (field_normalize v) = lv v mod field_prime"
proof -
  let ?w = "field_reduce (map ucast v)"
  have b: "below (2 ^ 44) (map ucast v :: u64 list)"
    using below_mono [OF below_u32 [of v]] by (simp add: below_ucast_up)
  note r = field_reduce_spec [of "map ucast v", unfolded lv_ucast_up length_map, OF assms b]
  obtain c borrow where c: "borrow_loop 0 ?w CRYPTO_FIELD_MODULUS = (c, borrow)" by (cases "borrow_loop 0 ?w CRYPTO_FIELD_MODULUS")
  have s: "length c = 16" "below (2 ^ 16) c" "unat borrow \<le> 1" "lv c + field_prime = lv ?w + 2 ^ 256 * unat borrow"
    using borrow_loop_spec [OF _ r(2) lv_modulus(3) _ c] r(1) lv_modulus by auto
  have lw: "lv ?w < 2 ^ 256" using lv_less [OF r(2)] r(1) by simp
  have b32: "below (2 ^ 32) c" "below (2 ^ 32) ?w" using below_mono [OF s(2)] below_mono [OF r(2)] by simp_all
  have main: "lv (field_normalize v) = (if field_prime \<le> lv ?w then lv ?w - field_prime else lv ?w)
      \<and> length (field_normalize v) = 16 \<and> below (2 ^ 16) (field_normalize v)"
  proof (cases "field_prime \<le> lv ?w")
    case True
    have "unat borrow = 0"
    proof (rule ccontr)
      assume "unat borrow \<noteq> 0"
      then have "unat borrow = 1" using s(3) by simp
      then show False using s(4) True lv_less [OF s(2)] s(1) by simp
    qed
    then have "borrow = 0" by (simp add: unat_eq_0)
    then have "field_normalize v = map ucast c"
      using c select_words(1) [OF s(2) r(2)] s(1) r(1) by (simp add: field_normalize_def)
    then show ?thesis using ucast_down [OF b32(1)] s True \<open>unat borrow = 0\<close> by simp
  next
    case False
    have "unat borrow \<noteq> 0"
    proof
      assume "unat borrow = 0"
      then show False using s(4) False by simp
    qed
    then have "borrow = 1" using s(3) by (simp add: word_unat_eq_iff)
    then have "field_normalize v = map ucast ?w"
      using c select_words(2) [OF s(2) r(2)] s(1) r(1) by (simp add: field_normalize_def)
    then show ?thesis using ucast_down [OF b32(2)] r False by simp
  qed
  then show "field_elem (field_normalize v)" using lw unfolding two_primes by (auto simp: field_elem_def)
  show "lv (field_normalize v) mod field_prime = lv v mod field_prime"
    using main r(3) by (auto simp: le_mod_geq)
  show "lv (field_normalize v) = lv v mod field_prime" if "lv v < 2 * field_prime"
    using that main r(4) unfolding two_primes by (auto simp: le_mod_geq)
qed

subsection \<open>Addition and subtraction\<close>

lemma map2_sum:
  assumes "length xs = length (ys :: u32 list)"
  shows "lv (map2 (\<lambda>l r. ucast l + ucast r :: u64) xs ys) = lv xs + lv ys"
    "below (2 ^ 44) (map2 (\<lambda>l r. ucast (l::u32) + ucast r :: u64) xs ys)"
proof -
  have lt: "unat (x::u32) < 2 ^ 32" for x using unsigned_less [of x, where ?'a = nat] by simp
  have u: "unat (ucast l + ucast r :: u64) = unat l + unat r" for l r :: u32
    using lt [of l] lt [of r] by (subst unat_add64) (simp_all add: unat_wide)
  have "unat l + unat r < 2 ^ 44" for l r :: u32 using lt [of l] lt [of r] by simp
  with assms have "lv (map2 (\<lambda>l r. ucast l + ucast r :: u64) xs ys) = lv xs + lv ys
      \<and> below (2 ^ 44) (map2 (\<lambda>l r. ucast l + ucast r :: u64) xs ys)"
    by (induction xs ys rule: list_induct2) (simp_all add: u)
  then show "lv (map2 (\<lambda>l r. ucast l + ucast r :: u64) xs ys) = lv xs + lv ys"
    "below (2 ^ 44) (map2 (\<lambda>l r. ucast (l::u32) + ucast r :: u64) xs ys)" by auto
qed

lemma normalized_reduce:
  assumes "length xs = 16" "below (2 ^ 44) xs"
  shows "field_elem (field_normalize (map ucast (field_reduce xs)))"
    "lv (field_normalize (map ucast (field_reduce xs))) mod field_prime = lv xs mod field_prime"
    "lv xs < 2 * field_prime \<Longrightarrow> lv (field_normalize (map ucast (field_reduce xs))) < field_prime"
proof -
  note r = field_reduce_spec [OF assms]
  have "below (2 ^ 32) (field_reduce xs)" using below_mono [OF r(2)] by simp
  note u = ucast_down(1) [OF this]
  have l: "length (map ucast (field_reduce xs) :: u32 list) = 16" using r(1) by simp
  note n = field_normalize_spec [OF l]
  show "field_elem (field_normalize (map ucast (field_reduce xs)))" by (rule n(1))
  show "lv (field_normalize (map ucast (field_reduce xs))) mod field_prime = lv xs mod field_prime"
    using n(2) u r(3) by simp
  have "0 < field_prime" by (simp add: field_prime_def)
  then show "lv (field_normalize (map ucast (field_reduce xs))) < field_prime" if "lv xs < 2 * field_prime"
    using that n(3) u r(4) two_primes by simp
qed

lemma field_add_spec:
  assumes "length l = 16" "length r = 16"
  shows "field_elem (field_add l r)" "lv (field_add l r) mod field_prime = (lv l + lv r) mod field_prime"
    "lv l < field_prime \<Longrightarrow> lv r < field_prime \<Longrightarrow> lv (field_add l r) < field_prime"
proof -
  let ?w = "map2 (\<lambda>l r. ucast l + ucast r :: u64) l r"
  have w: "length ?w = 16" "below (2 ^ 44) ?w" "lv ?w = lv l + lv r" using map2_sum [of l r] assms by simp_all
  note n = normalized_reduce [OF w(1,2)]
  show "field_elem (field_add l r)" "lv (field_add l r) mod field_prime = (lv l + lv r) mod field_prime"
    using n(1,2) w(3) by (simp_all add: field_add_def)
  show "lv (field_add l r) < field_prime" if "lv l < field_prime" "lv r < field_prime"
    using n(3) w(3) that by (simp add: field_add_def)
qed

lemma add_masked_spec:
  "length xs = length ms \<Longrightarrow> below (2 ^ 16) xs \<Longrightarrow> below (2 ^ 16) ms \<Longrightarrow> unat b \<le> 1 \<Longrightarrow> mk = 0 \<or> mk = - 1 \<Longrightarrow>
   length (add_masked_loop mk b xs ms) = length xs \<and> below (2 ^ 16) (add_masked_loop mk b xs ms)
   \<and> (\<exists>c. lv (add_masked_loop mk b xs ms) + 2 ^ (16 * length xs) * c
        = lv xs + (if mk = 0 then 0 else lv ms) + unat b)"
proof (induction mk b xs ms rule: add_masked_loop.induct)
  case (1 mk b x xs m ms)
  define y where "y = (ucast m AND ucast mk :: u64)"
  define v where "v = x + y + ucast b"
  have y: "unat y = (if mk = 0 then 0 else unat m)"
  proof -
    have "(ucast (- 1 :: u32) :: u64) = mask 32" by (rule bit_word_eqI) (auto simp: bit_simps)
    then have "ucast m AND (ucast (- 1 :: u32) :: u64) = take_bit 32 (ucast m)" by (simp add: take_bit_eq_mask)
    moreover have "unat m < 2 ^ 32" using unsigned_less [of m, where ?'a = nat] by simp
    then have "unat (take_bit 32 (ucast m :: u64)) = unat m"
      by (simp add: unsigned_take_bit_eq unat_wide take_bit_nat_mod)
    ultimately show ?thesis using 1(6) by (auto simp: y_def)
  qed
  have xy: "unat (x + y) = unat x + unat y" using 1(3,4) y by (intro unat_add64) auto
  then have v: "unat v = unat x + unat y + unat b"
    using 1(3-5) y unfolding v_def by (subst unat_add64) (auto simp: unat_wide)
  have "unat v div 2 ^ 16 \<le> 1" using v y 1(3-5) by (simp add: div_le_mono less_Suc_eq_le [symmetric] less_mult_imp_div_less)
  moreover have "unat (ucast (drop_bit 16 v) :: u32) = unat v div 2 ^ 16"
    using calculation by (simp add: unsigned_ucast_eq unat_drop_bit64 take_bit_nat_mod)
  ultimately have b: "unat (ucast (drop_bit 16 v) :: u32) \<le> 1" and b_eq: "unat (ucast (drop_bit 16 v) :: u32) = unat v div 2 ^ 16"
    by simp_all
  let ?zs = "add_masked_loop mk (ucast (drop_bit 16 v)) xs ms"
  have ih: "length ?zs = length xs" "below (2 ^ 16) ?zs" "\<exists>c. lv ?zs + 2 ^ (16 * length xs) * c
      = lv xs + (if mk = 0 then 0 else lv ms) + unat v div 2 ^ 16"
    using 1(1) [OF v_def [unfolded y_def] _ _ _ b 1(6)] 1(2-4) b_eq by auto
  obtain c where c: "lv ?zs + 2 ^ (16 * length xs) * c = lv xs + (if mk = 0 then 0 else lv ms) + unat v div 2 ^ 16"
    using ih(3) by blast
  have low: "unat (ucast (v AND 0xffff) :: u32) = unat v mod 2 ^ 16"
    by (simp add: unsigned_ucast_eq unat_and_16 take_bit_nat_mod)
  have r: "add_masked_loop mk b (x # xs) (m # ms) = ucast (v AND 0xffff) # ?zs"
    by (simp add: v_def y_def Let_def)
  have "lv (add_masked_loop mk b (x # xs) (m # ms)) + 2 ^ (16 * length (x # xs)) * c
      = unat v mod 2 ^ 16 + 2 ^ 16 * (lv ?zs + 2 ^ (16 * length xs) * c)"
    unfolding r by (simp add: low power_add distrib_left)
  also have "\<dots> = unat v + 2 ^ 16 * (lv xs + (if mk = 0 then 0 else lv ms))"
    unfolding c distrib_left using mult_div_mod_eq [of "2 ^ 16" "unat v"] by linarith
  also have "\<dots> = lv (x # xs) + (if mk = 0 then 0 else lv (m # ms)) + unat b" using v y by simp
  finally show ?case using ih(1,2) unfolding r by (auto simp: low)
qed auto

text \<open>The arithmetic of the two loops of a subtraction, with \<open>z\<close> for \<open>2 ^ 256\<close>.\<close>

lemma subtract_value:
  fixes l r w c b p z o' :: nat
  assumes "w + r = l + z * b" "b \<le> 1" "o' + z * c = w + (if b = 0 then 0 else p)" "o' < z" "w < z"
    and "p < z"
  shows "o' + r = l + (if r \<le> l then 0 else if r \<le> l + p then p else z + p)"
proof (cases "b = 0")
  case True
  then have "c = 0" using assms by (cases c) auto
  then show ?thesis using True assms by auto
next
  case False
  then have b: "b = 1" using assms(2) by simp
  then have e: "o' + r + z * c = l + z + p" "l < r" using assms by auto
  consider "c = 0" | "c = 1" | k where "c = Suc (Suc k)" by (metis One_nat_def not0_implies_Suc)
  then show ?thesis using e assms(4-6) by cases auto
qed

lemma field_subtract_spec:
  assumes l: "field_elem l" and r: "field_elem r"
  shows "field_elem (field_subtract l r)"
    "(lv (field_subtract l r) + lv r) mod field_prime
       = (lv l + (if lv r \<le> lv l + field_prime then 0 else 38)) mod field_prime"
    "lv l < field_prime \<Longrightarrow> lv r < field_prime \<Longrightarrow> lv (field_subtract l r) < field_prime"
proof -
  have len: "length l = 16" "length r = 16" "below (2 ^ 16) (map ucast l :: u64 list)" "below (2 ^ 16) r"
    "lv l < field_prime + 38" "lv r < field_prime + 38"
    using l r by (auto simp: field_elem_def below_ucast_up)
  obtain w b where w: "borrow_loop 0 (map ucast l) r = (w, b)" by (cases "borrow_loop 0 (map ucast l) r")
  have s: "length w = 16" "below (2 ^ 16) w" "unat b \<le> 1" "lv w + lv r = lv l + 2 ^ 256 * unat b"
    using borrow_loop_spec [OF _ len(3,4) _ w] len by (auto simp: lv_ucast_up)
  let ?o = "add_masked_loop (0 - b) 0 w CRYPTO_FIELD_MODULUS"
  have "b = 0 \<or> b = 1" using s(3) by (auto simp: word_unat_eq_iff)
  then have mk: "0 - b = 0 \<or> 0 - b = - 1" "0 - b = 0 \<longleftrightarrow> unat b = 0" by auto
  obtain c where o: "length ?o = 16" "below (2 ^ 16) ?o" "lv ?o + 2 ^ 256 * c = lv w + (if unat b = 0 then 0 else field_prime)"
    using add_masked_spec [OF _ s(2) lv_modulus(3) _ mk(1), of 0] s(1) lv_modulus(1,2) mk(2) by auto
  have lo: "lv ?o < 2 ^ 256" using lv_less [OF o(2)] o(1) by simp
  have lw: "lv w < 2 ^ 256" using lv_less [OF s(2)] s(1) by simp
  have val: "lv ?o + lv r = lv l + (if lv r \<le> lv l then 0 else if lv r \<le> lv l + field_prime then field_prime
      else 2 ^ 256 + field_prime)"
    using subtract_value [OF s(4) s(3) o(3) lo lw] len(5,6) two_primes by simp
  have eq: "field_subtract l r = field_normalize ?o" by (simp add: field_subtract_def w)
  note n = field_normalize_spec [OF o(1)]
  show "field_elem (field_subtract l r)" unfolding eq by (rule n(1))
  have "(lv (field_subtract l r) + lv r) mod field_prime = (lv ?o + lv r) mod field_prime"
    unfolding eq using n(2) by (metis mod_add_left_eq)
  also have "\<dots> = (lv l + (if lv r \<le> lv l + field_prime then 0 else 38)) mod field_prime"
  proof (cases "lv r \<le> lv l + field_prime")
    case True
    then have "lv ?o + lv r = lv l \<or> lv ?o + lv r = lv l + field_prime" using val by presburger
    then show ?thesis using True by auto
  next
    case False
    then have "lv ?o + lv r = lv l + (2 ^ 256 + field_prime)" using val by presburger
    also have "\<dots> = (lv l + 38) + field_prime * 3" unfolding two_primes by simp
    finally have e: "lv ?o + lv r = (lv l + 38) + field_prime * 3" .
    show ?thesis unfolding e mod_mult_self2 using False by (simp only: if_False)
  qed
  finally show "(lv (field_subtract l r) + lv r) mod field_prime
       = (lv l + (if lv r \<le> lv l + field_prime then 0 else 38)) mod field_prime" .
  show "lv (field_subtract l r) < field_prime" if "lv l < field_prime" "lv r < field_prime"
  proof -
    have "lv ?o < 2 * field_prime" using val that by (auto split: if_splits)
    moreover have "0 < field_prime" by (simp add: field_prime_def)
    ultimately show ?thesis unfolding eq using n(3) by simp
  qed
qed

end
