(* ===== verification/Crypto_X25519_Spec.thy ===== *)
theory Crypto_X25519_Spec
  imports Crypto_X25519_Field
begin

text \<open>
  Multiplication, inversion and the conversions of \<open>Crypto_X25519\<close> against the integers modulo
  \<open>2 ^ 255 - 19\<close>, and the state the ladder keeps: whatever the scalar and the point, every
  coordinate has sixteen 16-bit limbs and the encoded result is the least
  residue.
\<close>

subsection \<open>Multiplication\<close>

lemma product_row_spec:
  "k + length rs \<le> length P \<Longrightarrow> unat l < 2 ^ 17 \<Longrightarrow> below (2 ^ 17) rs \<Longrightarrow> \<forall>i<length P. k \<le> i \<longrightarrow> unat (P ! i) < 2 ^ 62 \<Longrightarrow>
   length (product_row P k l rs) = length P
   \<and> lv (product_row P k l rs) = lv P + 2 ^ (16 * k) * (unat l * lv rs)
   \<and> (\<forall>i<length P. unat (product_row P k l rs ! i) \<le> unat (P ! i) + (if k \<le> i then 2 ^ 34 else 0))"
proof (induction P k l rs rule: product_row.induct)
  case (1 P k l r rs)
  let ?P = "P[k := P ! k + ucast l * ucast r]"
  let ?R = "product_row ?P (k + 1) l rs"
  have k: "k < length P" using 1(2) by simp
  have m: "unat l * unat r < 2 ^ 34"
    using mult_strict_mono [of "unat l" "2 ^ 17" "unat r" "2 ^ 17"] 1(3,4) by simp
  have "unat (ucast l * ucast r :: u64) = unat l * unat r"
    using m unat_mult_lem [of "ucast l :: u64" "ucast r"] by (simp add: unat_wide)
  moreover have "unat (P ! k) < 2 ^ 62" using 1(5) k by simp
  ultimately have e: "unat (P ! k + ucast l * ucast r) = unat (P ! k) + unat l * unat r"
    using m unat_add64 [of "P ! k" "ucast l * ucast r"] by simp
  have "\<forall>i<length ?P. k + 1 \<le> i \<longrightarrow> unat (?P ! i) < 2 ^ 62" using 1(5) by auto
  then have ih: "length ?R = length P" "lv ?R = lv ?P + 2 ^ (16 * (k + 1)) * (unat l * lv rs)"
    "\<forall>i<length P. unat (?R ! i) \<le> unat (?P ! i) + (if k + 1 \<le> i then 2 ^ 34 else 0)"
    using 1(1) 1(2-4) by auto
  have "lv ?P = lv P + 2 ^ (16 * k) * (unat l * unat r)"
    using lv_update [OF k, of "P ! k + ucast l * ucast r"] unfolding e distrib_left by linarith
  then have "lv ?R = lv P + 2 ^ (16 * k) * (unat l * lv (r # rs))"
    unfolding ih(2) by (simp add: power_add algebra_simps)
  moreover have "unat (?R ! i) \<le> unat (P ! i) + (if k \<le> i then 2 ^ 34 else 0)" if "i < length P" for i
  proof (cases "i = k")
    case True
    then have "unat (?R ! i) \<le> unat (P ! k) + unat l * unat r" using ih(3) that e by fastforce
    then show ?thesis using True m by simp
  next
    case False
    then have "unat (?R ! i) \<le> unat (P ! i) + (if k + 1 \<le> i then 2 ^ 34 else 0)" using ih(3) that by auto
    also have "\<dots> \<le> unat (P ! i) + (if k \<le> i then 2 ^ 34 else 0)" by simp
    finally show ?thesis .
  qed
  ultimately show ?case using ih(1) by simp
qed simp

lemma product_loop_spec:
  "li + length ls + length rs \<le> length P + 1 \<Longrightarrow> rs \<noteq> [] \<Longrightarrow> below (2 ^ 17) ls \<Longrightarrow> below (2 ^ 17) rs
   \<Longrightarrow> \<forall>i<length P. unat (P ! i) \<le> n * 2 ^ 34 \<Longrightarrow> n + length ls \<le> 2 ^ 27 \<Longrightarrow>
   length (product_loop P li ls rs) = length P
   \<and> lv (product_loop P li ls rs) = lv P + 2 ^ (16 * li) * (lv ls * lv rs)
   \<and> (\<forall>i<length P. unat (product_loop P li ls rs ! i) \<le> (n + length ls) * 2 ^ 34)"
proof (induction P li ls rs arbitrary: n rule: product_loop.induct)
  case (1 P li l ls rs)
  let ?R = "product_row P li l rs"
  have "n * 2 ^ 34 < 2 ^ 62" using 1(7) by simp
  then have "\<forall>i<length P. li \<le> i \<longrightarrow> unat (P ! i) < 2 ^ 62" using 1(6) by (meson le_less_trans)
  then have r: "length ?R = length P" "lv ?R = lv P + 2 ^ (16 * li) * (unat l * lv rs)"
    "\<forall>i<length P. unat (?R ! i) \<le> unat (P ! i) + (if li \<le> i then 2 ^ 34 else 0)"
    using product_row_spec [of li rs P l] 1(2-5) by auto
  have "unat (?R ! i) \<le> (n + 1) * 2 ^ 34" if "i < length P" for i
  proof -
    have "unat (?R ! i) \<le> unat (P ! i) + 2 ^ 34" using r(3) that by (auto split: if_splits)
    also have "\<dots> \<le> (n + 1) * 2 ^ 34" using 1(6) that by simp
    finally show ?thesis .
  qed
  then have ih: "length (product_loop ?R (li + 1) ls rs) = length P"
    "lv (product_loop ?R (li + 1) ls rs) = lv ?R + 2 ^ (16 * (li + 1)) * (lv ls * lv rs)"
    "\<forall>i<length P. unat (product_loop ?R (li + 1) ls rs ! i) \<le> (n + 1 + length ls) * 2 ^ 34"
    using 1(1) [of "n + 1"] 1(2-7) r(1) by auto
  have "lv (product_loop ?R (li + 1) ls rs) = lv P + 2 ^ (16 * li) * (lv (l # ls) * lv rs)"
    unfolding ih(2) r(2) by (simp add: power_add algebra_simps)
  then show ?case using ih(1,3) by simp
qed simp

lemma fold_loop_nth:
  "15 \<le> index \<Longrightarrow> index \<le> 30 \<Longrightarrow> index < length P \<Longrightarrow> length (fold_loop P index) = length P
   \<and> (\<forall>i<16. fold_loop P index ! i = P ! i + (if i + 16 \<le> index then P ! (i + 16) * 38 else 0))"
proof (induction P index rule: fold_loop.induct)
  case (1 P index)
  show ?case
  proof (cases "index < 16")
    case True
    then show ?thesis by (auto simp: fold_loop.simps [of P index])
  next
    case False
    let ?P = "P[index - 16 := P ! (index - 16) + P ! index * 38]"
    have s: "fold_loop P index = fold_loop ?P (index - 1)" using False by (subst fold_loop.simps) simp
    have ih: "length (fold_loop ?P (index - 1)) = length P"
      "\<forall>i<16. fold_loop ?P (index - 1) ! i = ?P ! i + (if i + 16 \<le> index - 1 then ?P ! (i + 16) * 38 else 0)"
      using 1(1) [OF False] 1(2-4) False by auto
    have "fold_loop ?P (index - 1) ! i = P ! i + (if i + 16 \<le> index then P ! (i + 16) * 38 else 0)" if "i < 16" for i
      using ih(2) that False 1(3,4) by (cases "i = index - 16") (auto simp: nth_list_update)
    then show ?thesis using s ih(1) by simp
  qed
qed

lemma map2_fold:
  assumes "length xs = length ys" "below (2 ^ 38 + 1) xs" "below (2 ^ 38 + 1) ys"
  shows "lv (map2 (\<lambda>x y. x + y * 38 :: u64) xs ys) = lv xs + 38 * lv ys"
    "below (2 ^ 44) (map2 (\<lambda>x y. x + y * 38 :: u64) xs ys)"
proof -
  have u: "unat (x + y * 38) = unat x + unat y * 38" if "unat x < 2 ^ 38 + 1" "unat y < 2 ^ 38 + 1" for x y :: u64
    using that unat_mult_lem [of y 38] unat_add64 [of x "y * 38"] by simp
  have "lv (map2 (\<lambda>x y. x + y * 38 :: u64) xs ys) = lv xs + 38 * lv ys
      \<and> below (2 ^ 44) (map2 (\<lambda>x y. x + y * 38 :: u64) xs ys)"
    using assms by (induction xs ys rule: list_induct2) (simp_all add: u)
  then show "lv (map2 (\<lambda>x y. x + y * 38 :: u64) xs ys) = lv xs + 38 * lv ys"
    "below (2 ^ 44) (map2 (\<lambda>x y. x + y * 38 :: u64) xs ys)" by auto
qed

definition mul_operand :: "u32 list \<Rightarrow> bool" where
  "mul_operand v \<longleftrightarrow> length v = 16 \<and> below (2 ^ 17) v"

lemma elem_operand: "field_elem v \<Longrightarrow> mul_operand v"
  using below_mono [of "2 ^ 16" v "2 ^ 17"] by (simp add: field_elem_def mul_operand_def)

lemma fold_take:
  assumes "length P = 31"
  shows "take 16 (fold_loop P 30) = map2 (\<lambda>x y. x + y * 38) (take 16 P) (drop 16 P @ [0])"
proof (rule nth_equalityI)
  show "length (take 16 (fold_loop P 30)) = length (map2 (\<lambda>x y. x + y * 38) (take 16 P) (drop 16 P @ [0]))"
    using assms fold_loop_nth [of 30 P] by simp
  fix i assume "i < length (take 16 (fold_loop P 30))"
  then have i: "i < 16" by simp
  then have "fold_loop P 30 ! i = P ! i + (if i + 16 \<le> 30 then P ! (i + 16) * 38 else 0)"
    using assms fold_loop_nth [of 30 P] by simp
  then show "take 16 (fold_loop P 30) ! i = map2 (\<lambda>x y. x + y * 38) (take 16 P) (drop 16 P @ [0]) ! i"
    using assms i by (auto simp: nth_append add.commute)
qed

lemma field_multiply_spec:
  assumes "mul_operand l" "mul_operand r"
  shows "field_elem (field_multiply l r)"
    "lv (field_multiply l r) mod field_prime = lv l * lv r mod field_prime"
proof -
  let ?P = "product_loop (replicate 31 0) 0 l r"
  have z: "lv (replicate n (0 :: u64)) = 0" for n by (induction n) simp_all
  have ne: "r \<noteq> []" using assms by (auto simp: mul_operand_def)
  have P: "length ?P = 31" "lv ?P = lv l * lv r" "\<forall>i<31. unat (?P ! i) \<le> 16 * 2 ^ 34"
    using product_loop_spec [of 0 l r "replicate 31 0" 0] ne assms by (auto simp: mul_operand_def z)
  have "unat (?P ! i) < 2 ^ 38 + 1" if "i < 31" for i using P(3) that by fastforce
  then have b: "below (2 ^ 38 + 1) ?P" using P(1) by (auto simp: below_def in_set_conv_nth)
  let ?a = "take 16 ?P" and ?b = "drop 16 ?P @ [0]"
  have "below (2 ^ 38 + 1) ?a" using b by (auto simp: below_def dest!: in_set_takeD)
  moreover have "below (2 ^ 38 + 1) ?b" using b by (auto simp: below_def dest!: in_set_dropD)
  ultimately have f: "lv (map2 (\<lambda>x y. x + y * 38) ?a ?b) = lv ?a + 38 * lv ?b" "below (2 ^ 44) (map2 (\<lambda>x y. x + y * 38) ?a ?b)"
    using map2_fold [of ?a ?b] P(1) by auto
  have "lv (?a @ drop 16 ?P) = lv ?a + 2 ^ 256 * lv (drop 16 ?P)" unfolding lv_append using P(1) by simp
  then have v: "lv l * lv r = (lv ?a + 38 * lv ?b) + field_prime * (2 * lv (drop 16 ?P))"
    using P(2) unfolding append_take_drop_id two_primes by (simp add: lv_append algebra_simps)
  have "length (map2 (\<lambda>x y. x + y * 38) ?a ?b) = 16" using P(1) by simp
  note n = normalized_reduce [OF this f(2)]
  have e: "field_multiply l r = field_normalize (map ucast (field_reduce (map2 (\<lambda>x y. x + y * 38) ?a ?b)))"
    by (simp add: field_multiply_def fold_take [OF P(1)])
  show "field_elem (field_multiply l r)" unfolding e by (rule n(1))
  show "lv (field_multiply l r) mod field_prime = lv l * lv r mod field_prime"
    unfolding e n(2) f(1) v mod_mult_self2 ..
qed

subsection \<open>Inversion\<close>

lemma scalar_bit_iff: "i < 8 * length s \<Longrightarrow> scalar_bit s i \<noteq> 0 \<longleftrightarrow> bit (le_num s) i"
proof (induction s arbitrary: i)
  case (Cons b bs)
  have b8: "unat b < 2 ^ 8" using unsigned_less [of b, where ?'a = nat] by simp
  have le: "le_num (b # bs) = unat b OR push_bit 8 (le_num bs)" using or_push_bit_nat [OF b8] by simp
  have one: "(ucast (x AND 1 :: u8) :: u32) \<noteq> 0 \<longleftrightarrow> bit x 0" for x :: u8
    by (cases "odd x") (simp_all add: and_one_eq odd_iff_mod_2_eq_one bit_0)
  show ?case
  proof (cases "i < 8")
    case True
    then show ?thesis unfolding le by (simp add: scalar_bit_def one bit_simps bit_or_iff bit_push_bit_iff)
  next
    case False
    then obtain j where j: "i = j + 8" by (metis add.commute le_Suc_ex not_less)
    have "(j + 8) div 8 = Suc (j div 8)" by simp
    then have "scalar_bit (b # bs) i = scalar_bit bs j" by (simp add: scalar_bit_def j)
    moreover have "\<not> bit (unat b) i" using False by (auto simp: bit_simps dest: bit_imp_le_length)
    ultimately show ?thesis using Cons j unfolding le by (simp add: bit_or_iff bit_push_bit_iff)
  qed
qed simp

lemma le_num_replicate_ones: "le_num (replicate n 0xff) + 1 = 2 ^ (8 * n)"
  by (induction n) (simp_all add: power_add)

lemma exponent: "le_num CRYPTO_X25519_INVERSE_EXPONENT = field_prime - 2"
proof -
  have "le_num (replicate 30 0xff) = 2 ^ 240 - 1" using le_num_replicate_ones [of 30] by simp
  then show ?thesis by (simp add: CRYPTO_X25519_INVERSE_EXPONENT_def field_prime_def le_num_append)
qed

lemma odd_bit: "bit (x::nat) n \<longleftrightarrow> odd (x div 2 ^ n)"
  by (simp add: bit_iff_odd)

lemma inverse_loop_spec:
  assumes "mul_operand base"
  shows "n \<le> 255 \<Longrightarrow> mul_operand result
    \<Longrightarrow> lv result mod field_prime = lv base ^ ((field_prime - 2) div 2 ^ n) mod field_prime
    \<Longrightarrow> (n = 0 \<or> field_elem (inverse_loop base result n))
      \<and> lv (inverse_loop base result n) mod field_prime = lv base ^ (field_prime - 2) mod field_prime"
proof (induction n arbitrary: result)
  case (Suc n)
  let ?e = "field_prime - 2"
  let ?q = "?e div 2 ^ Suc n"
  have bit: "scalar_bit CRYPTO_X25519_INVERSE_EXPONENT n \<noteq> 0 \<longleftrightarrow> odd (?e div 2 ^ n)"
    using scalar_bit_iff [of n CRYPTO_X25519_INVERSE_EXPONENT] Suc.prems(1)
    by (simp add: exponent odd_bit) (simp add: CRYPTO_X25519_INVERSE_EXPONENT_def)
  have half: "?q = ?e div 2 ^ n div 2" by (simp only: power_Suc2 div_mult2_eq)
  define sq where "sq = field_square result"
  note s = field_multiply_spec [OF Suc.prems(2,2), folded field_square_def sq_def]
  have sq: "lv sq mod field_prime = lv base ^ (2 * ?q) mod field_prime"
    using s(2) Suc.prems(3) by (metis mod_mult_eq power_add mult_2)
  define nx where "nx = (if scalar_bit CRYPTO_X25519_INVERSE_EXPONENT n \<noteq> 0 then field_multiply sq base else sq)"
  note m = field_multiply_spec [OF elem_operand [OF s(1)] assms]
  have nx: "field_elem nx \<and> lv nx mod field_prime = lv base ^ (?e div 2 ^ n) mod field_prime"
  proof (cases "odd (?e div 2 ^ n)")
    case True
    then have "?e div 2 ^ n = 2 * ?q + 1" unfolding half by (simp add: odd_two_times_div_two_succ)
    moreover have "lv (field_multiply sq base) mod field_prime = lv base ^ (2 * ?q + 1) mod field_prime"
      using m(2) sq by (metis mod_mult_left_eq power_add power_one_right)
    ultimately show ?thesis using m(1) bit True by (simp add: nx_def)
  next
    case False
    then have "?e div 2 ^ n = 2 * ?q" unfolding half by simp
    then show ?thesis using s(1) sq bit False by (simp add: nx_def)
  qed
  have step: "inverse_loop base result (Suc n) = inverse_loop base nx n"
    by (simp add: nx_def sq_def Let_def)
  have "n \<le> 255" using Suc.prems(1) by simp
  then have ih: "(n = 0 \<or> field_elem (inverse_loop base nx n))
      \<and> lv (inverse_loop base nx n) mod field_prime = lv base ^ ?e mod field_prime"
    using Suc.IH [of nx] nx elem_operand by blast
  show ?case unfolding step using ih nx by (cases n) auto
qed simp

lemma field_one_spec: "mul_operand field_one" "lv field_one = 1"
proof -
  have z: "lv (replicate n (0 :: u32)) = 0" for n by (induction n) simp_all
  have e: "field_one = 1 # replicate 15 0" by (simp add: field_one_def field_zero_def numeral_eq_Suc)
  show "mul_operand field_one" "lv field_one = 1" unfolding e by (auto simp: mul_operand_def below_def z)
qed

lemma field_inverse_spec:
  assumes "mul_operand v"
  shows "field_elem (field_inverse v)"
    "lv (field_inverse v) mod field_prime = lv v ^ (field_prime - 2) mod field_prime"
proof -
  have "(field_prime - 2) div 2 ^ 255 = 0" by (simp add: field_prime_def)
  then have "field_elem (field_inverse v) \<and> lv (field_inverse v) mod field_prime = lv v ^ (field_prime - 2) mod field_prime"
    using inverse_loop_spec [OF assms, of 255 field_one] field_one_spec by (simp add: field_inverse_def)
  then show "field_elem (field_inverse v)"
    "lv (field_inverse v) mod field_prime = lv v ^ (field_prime - 2) mod field_prime" by auto
qed

subsection \<open>Conversions\<close>

lemma le_num_limb_bytes:
  "below (2 ^ 16) v \<Longrightarrow> le_num (concat (map (\<lambda>x::u32. [ucast x, ucast (drop_bit 8 x)]) v)) = lv v"
proof (induction v)
  case (Cons x v)
  have "unat (ucast x :: u8) = unat x mod 2 ^ 8" "unat (ucast (drop_bit 8 x) :: u8) = unat x div 2 ^ 8 mod 2 ^ 8"
    using unat_low_byte [of 0 x] unat_low_byte [of 8 x] by simp_all
  moreover have "unat x div 2 ^ 8 < 2 ^ 8" using Cons.prems by (simp add: less_mult_imp_div_less)
  moreover have "unat x mod 2 ^ 8 + 2 ^ 8 * (unat x div 2 ^ 8) = unat x" by (rule mod_mult_div_eq)
  ultimately show ?case using Cons by simp
qed simp

lemma length_limb_bytes: "length (concat (map (\<lambda>x::u32. [ucast x :: u8, ucast (drop_bit 8 x)]) v)) = 2 * length v"
  by (induction v) simp_all

lemma last_byte_clear:
  assumes "length xs = 32" "le_num xs < 2 ^ 255"
  shows "xs[31 := xs ! 31 AND 0x7f] = xs"
proof -
  have e: "xs = take 31 xs @ [xs ! 31]"
    using take_Suc_conv_app_nth [of 31 xs] assms(1) by simp
  have "le_num xs = le_num (take 31 xs) + 256 ^ 31 * unat (xs ! 31)"
    using le_num_append [of "take 31 xs" "[xs ! 31]"] e assms(1) by simp
  then have "256 ^ 31 * unat (xs ! 31) < 2 ^ 255" using assms(2) by linarith
  then have "unat (xs ! 31) < 2 ^ 7" by simp
  then have "unat (take_bit 7 (xs ! 31)) = unat (xs ! 31)" by (simp add: unsigned_take_bit_eq take_bit_nat_mod)
  then have "take_bit 7 (xs ! 31) = xs ! 31" by (simp add: word_unat_eq_iff)
  moreover have "take_bit 7 (xs ! 31) = xs ! 31 AND 0x7f" by (simp add: take_bit_eq_mask mask_eq_exp_minus_1)
  ultimately show ?thesis by simp
qed

lemma field_encode_spec:
  assumes "length v = 16" "lv v < 2 * field_prime"
  shows "length (field_encode v) = 32" "le_num (field_encode v) = lv v mod field_prime"
proof -
  note n = field_normalize_spec [OF assms(1)]
  let ?o = "concat (map (\<lambda>x. [ucast x :: u8, ucast (drop_bit 8 x)]) (field_normalize v))"
  have "length (field_normalize v) = 16" "below (2 ^ 16) (field_normalize v)" using n(1) by (auto simp: field_elem_def)
  then have o: "length ?o = 32" "le_num ?o = lv v mod field_prime"
    using le_num_limb_bytes [of "field_normalize v"] length_limb_bytes [of "field_normalize v"] n(3) assms(2) by auto
  have "lv v mod field_prime < field_prime" by (simp add: field_prime_def)
  then have "le_num ?o < 2 ^ 255" using o(2) by (simp add: field_prime_def)
  then have "field_encode v = ?o" using last_byte_clear [OF o(1)] by (simp add: field_encode_def Let_def)
  then show "length (field_encode v) = 32" "le_num (field_encode v) = lv v mod field_prime" using o by simp_all
qed

lemma elem_less_twice: "field_elem v \<Longrightarrow> lv v < 2 * field_prime"
  by (simp add: field_elem_def field_prime_def)

lemma field_encode_canonical:
  assumes "field_elem v"
  shows "length (field_encode v) = 32 \<and> le_num (field_encode v) = lv v mod field_prime \<and> le_num (field_encode v) < field_prime"
  using field_encode_spec [of v] elem_less_twice [OF assms] assms by (simp add: field_elem_def field_prime_def)

lemma conditional_swap_spec:
  assumes "length l = length r"
  shows "conditional_swap l r 0 = (l, r)" "conditional_swap l r 1 = (r, l)"
proof -
  have "a XOR (a XOR b) = b" "b XOR (a XOR b) = a" for a b :: u32
    by (metis xor.assoc xor_self_eq xor.left_neutral, metis xor.assoc xor.commute xor_self_eq xor.left_neutral)
  then show "conditional_swap l r 1 = (r, l)"
    using assms by (auto simp: conditional_swap_def intro!: nth_equalityI)
qed (use assms in \<open>auto simp: conditional_swap_def intro!: nth_equalityI\<close>)


subsection \<open>The ladder\<close>

lemma normalize_elem: "length v = 16 \<Longrightarrow> field_elem (field_normalize v)"
  by (rule field_normalize_spec(1))

lemma elem_length: "field_elem v \<Longrightarrow> length v = 16"
  by (simp add: field_elem_def)

lemma length_carry_loop: "length (fst (carry_loop c xs)) = length xs"
  by (induction c xs rule: carry_loop.induct) (auto simp: Let_def split: prod.splits)

lemma length_field_reduce [simp]: "length (field_reduce xs) = length xs"
proof -
  have "length (reduce_pass ys) = length ys" for ys
    using length_carry_loop [of 0 ys] by (cases "carry_loop 0 ys") (simp add: reduce_pass_def)
  then have "length ((reduce_pass ^^ n) xs) = length xs" for n by (induction n) simp_all
  then show ?thesis by (simp add: field_reduce_def)
qed

lemma length_product: "length (product_row P k l rs) = length P" "length (product_loop P k ls rs) = length P"
proof -
  show row: "length (product_row P k l rs) = length P" for P k l rs
    by (induction P k l rs rule: product_row.induct) simp_all
  show "length (product_loop P k ls rs) = length P"
    by (induction P k ls rs rule: product_loop.induct) (simp_all add: row)
qed

lemma length_borrow_loop: "length xs = length ms \<Longrightarrow> length (fst (borrow_loop b xs ms)) = length xs"
  by (induction b xs ms rule: borrow_loop.induct) (auto simp: Let_def split: prod.splits)

lemma length_add_masked: "length xs = length ms \<Longrightarrow> length (add_masked_loop mk b xs ms) = length xs"
  by (induction mk b xs ms rule: add_masked_loop.induct) (auto simp: Let_def)

lemma field_multiply_elem: "field_elem (field_multiply l r)"
proof -
  have "length (fold_loop (product_loop (replicate 31 0) 0 l r) 30) = 31"
    using fold_loop_nth [of 30 "product_loop (replicate 31 0) 0 l r"] by (simp add: length_product)
  then show ?thesis unfolding field_multiply_def Let_def by (intro normalize_elem) simp
qed

lemma field_ops_elem:
  assumes "length l = 16" "length r = 16"
  shows "field_elem (field_add l r)" "field_elem (field_subtract l r)" "field_elem (field_multiply l r)"
    "field_elem (field_square l)"
proof -
  show "field_elem (field_add l r)" using assms by (rule field_add_spec(1))
  obtain w b where w: "borrow_loop 0 (map ucast l) r = (w, b)" by (cases "borrow_loop 0 (map ucast l) r")
  then have "length w = 16" using length_borrow_loop [of "map ucast l" r 0] assms by simp
  then show "field_elem (field_subtract l r)"
    unfolding field_subtract_def w using length_add_masked [of w CRYPTO_FIELD_MODULUS] lv_modulus(2)
    by (simp add: normalize_elem)
  show "field_elem (field_multiply l r)" "field_elem (field_square l)"
    by (simp_all add: field_square_def field_multiply_elem)
qed

definition wf_ladder :: "ladder \<Rightarrow> bool" where
  "wf_ladder s \<longleftrightarrow> field_elem (lad_x2 s) \<and> field_elem (lad_z2 s) \<and> field_elem (lad_x3 s)
     \<and> field_elem (lad_z3 s) \<and> (lad_swap s = 0 \<or> lad_swap s = 1)"

lemma scalar_bit_cases: "scalar_bit s i = 0 \<or> scalar_bit s i = 1"
proof -
  have "x AND 1 = 0 \<or> x AND 1 = 1" for x :: u8 by (cases "odd x") (simp_all add: and_one_eq odd_iff_mod_2_eq_one)
  then consider "drop_bit (i mod 8) (s ! (i div 8)) AND 1 = 0" | "drop_bit (i mod 8) (s ! (i div 8)) AND 1 = 1"
    by blast
  then show ?thesis by cases (simp_all add: scalar_bit_def)
qed

text \<open>A swap exchanges the two points or leaves them.\<close>

lemma swap_points_spec:
  assumes "wf_ladder s" "k = 0 \<or> k = 1"
  shows "swap_points s k = (if k = 0 then s else s\<lparr>lad_x2 := lad_x3 s, lad_z2 := lad_z3 s,
    lad_x3 := lad_x2 s, lad_z3 := lad_z2 s\<rparr>)"
  using assms conditional_swap_spec [of "lad_x2 s" "lad_x3 s"] conditional_swap_spec [of "lad_z2 s" "lad_z3 s"]
  by (auto simp: swap_points_def wf_ladder_def elem_length)

lemma swap_points_wf: "wf_ladder s \<Longrightarrow> k = 0 \<or> k = 1 \<Longrightarrow> wf_ladder (swap_points s k)"
  by (auto simp: swap_points_spec wf_ladder_def)

lemma ladder_step_wf:
  assumes "wf_ladder s" "length x1 = 16" "b = 0 \<or> b = 1"
  shows "wf_ladder (ladder_step x1 b s)"
proof -
  have z: "length (field_zero[0 := 121665]) = 16" by (simp add: field_zero_def)
  have "lad_swap s XOR b = 0 \<or> lad_swap s XOR b = 1" using assms by (auto simp: wf_ladder_def)
  then have "wf_ladder (swap_points s (lad_swap s XOR b))" by (rule swap_points_wf [OF assms(1)])
  then have "length (lad_x2 (swap_points s (lad_swap s XOR b))) = 16" "length (lad_z2 (swap_points s (lad_swap s XOR b))) = 16"
    "length (lad_x3 (swap_points s (lad_swap s XOR b))) = 16" "length (lad_z3 (swap_points s (lad_swap s XOR b))) = 16"
    by (auto simp: wf_ladder_def elem_length)
  then show ?thesis
    using assms(2,3) z by (simp add: ladder_step_def Let_def wf_ladder_def field_ops_elem elem_length)
qed

lemma ladder_loop_wf: "wf_ladder s \<Longrightarrow> length x1 = 16 \<Longrightarrow> wf_ladder (ladder_loop scalar x1 s n)"
  by (induction n arbitrary: s) (simp_all add: ladder_step_wf scalar_bit_cases)

lemma field_zero_one_elem: "field_elem field_zero" "field_elem field_one"
proof -
  have z: "lv (replicate n (0 :: u32)) = 0" for n by (induction n) simp_all
  show "field_elem field_zero" by (auto simp: field_elem_def field_zero_def z below_def)
  have e: "field_one = 1 # replicate 15 0" by (simp add: field_one_def field_zero_def numeral_eq_Suc)
  show "field_elem field_one"
    using field_one_spec unfolding field_elem_def mul_operand_def by (simp add: e below_def field_prime_def)
qed

lemma field_decode_elem: "field_elem (field_decode p)"
  unfolding field_decode_def Let_def by (rule normalize_elem) simp

lemma ladder_result_canonical: "length (ladder_result s p) = 32 \<and> le_num (ladder_result s p) < field_prime"
  unfolding ladder_result_def Let_def using field_encode_canonical [OF field_multiply_elem] by blast

lemma or_all_zero: "fold (\<lambda>x b. b OR x) r b = 0 \<longleftrightarrow> b = 0 \<and> (\<forall>x\<in>set r. x = (0::u8))"
  by (induction r arbitrary: b) (auto simp: or_eq_0_u8)

lemma le_num_eq_0: "le_num r = 0 \<longleftrightarrow> (\<forall>x\<in>set r. x = 0)"
  by (induction r) (auto simp: unat_eq_0)

lemma scalar_multiply_spec:
  "scalar_multiply (Some s) (Some p) (Some out) =
     (if le_num (ladder_result s p) = 0 then FT_ERR_PERMISSION_DENIED else FT_ERR_SUCCESS,
      Some (ladder_result s p @ drop 32 out))"
  by (simp add: scalar_multiply_def Let_def or_all_zero le_num_eq_0)

subsection \<open>Main properties\<close>

text \<open>
  C21: The field arithmetic is that of the integers modulo \<open>2 ^ 255 - 19\<close>: for operands of sixteen 16-bit limbs
  below the prime plus 38, sums and products are exact modulo the prime, inversion raises to the
  power of the prime minus two (by Fermat the inverse, if the modulus is prime; neither is proved here), and
  results are again such operands, so no 32-bit or 64-bit intermediate ever wraps.
\<close>

theorem field_arithmetic_exact:
  assumes "field_elem l" "field_elem r"
  shows "field_elem (field_add l r) \<and> lv (field_add l r) mod (2 ^ 255 - 19) = (lv l + lv r) mod (2 ^ 255 - 19)
    \<and> field_elem (field_multiply l r) \<and> lv (field_multiply l r) mod (2 ^ 255 - 19) = lv l * lv r mod (2 ^ 255 - 19)
    \<and> field_elem (field_inverse l) \<and> lv (field_inverse l) mod (2 ^ 255 - 19) = lv l ^ (2 ^ 255 - 21) mod (2 ^ 255 - 19)"
proof -
  have p: "2 ^ 255 - 19 = field_prime" "2 ^ 255 - 21 = field_prime - 2" by (simp_all add: field_prime_def)
  show ?thesis
    unfolding p using field_add_spec(1,2) [OF elem_length [OF assms(1)] elem_length [OF assms(2)]]
      field_multiply_spec [OF elem_operand [OF assms(1)] elem_operand [OF assms(2)]]
      field_inverse_spec [OF elem_operand [OF assms(1)]]
    by blast
qed

lemma field_one_elem: "field_elem field_one"
  by (rule field_zero_one_elem(2))

theorem field_arithmetic_exact_witness:
  "lv (field_add field_one field_one) mod (2 ^ 255 - 19) = 2
   \<and> lv (field_multiply field_one field_one) mod (2 ^ 255 - 19) = 1
   \<and> lv (field_inverse field_one) mod (2 ^ 255 - 19) = 1"
  using field_arithmetic_exact [OF field_one_elem field_one_elem] by (simp add: field_one_spec)

text \<open>
  C29: Subtraction is exact modulo the prime precisely when the second operand exceeds the first by
  at most the prime. A normalised operand may lie up to 37 above the prime, so there are operands
  for which \<open>field_subtract\<close> returns a value of another residue class.
\<close>

theorem field_subtract_exact_iff:
  assumes "field_elem l" "field_elem r"
  shows "(lv (field_subtract l r) + lv r) mod (2 ^ 255 - 19) = lv l mod (2 ^ 255 - 19)
    \<longleftrightarrow> lv r \<le> lv l + (2 ^ 255 - 19)"
proof -
  have p: "2 ^ 255 - 19 = field_prime" by (simp add: field_prime_def)
  have "(lv l + 38) mod field_prime \<noteq> lv l mod field_prime"
  proof
    assume "(lv l + 38) mod field_prime = lv l mod field_prime"
    then have "field_prime dvd (lv l + 38) - lv l" using mod_eq_dvd_iff_nat [of "lv l" "lv l + 38" field_prime] by simp
    then show False by (auto simp: field_prime_def dest: dvd_imp_le)
  qed
  then show ?thesis unfolding p field_subtract_spec(2) [OF assms] by auto
qed

text \<open>The operand \<open>p + 1\<close>.\<close>

definition prime_plus_one :: "u32 list" where
  "prime_plus_one = 65518 # replicate 14 65535 @ [32767]"

lemma prime_plus_one_elem: "field_elem prime_plus_one" "lv prime_plus_one = field_prime + 1"
proof -
  have r: "lv (replicate 14 (0xffff :: u32)) = 2 ^ 224 - 1" using lv_replicate_ones [of 14] by simp
  then show v: "lv prime_plus_one = field_prime + 1"
    by (simp add: prime_plus_one_def lv_append field_prime_def)
  show "field_elem prime_plus_one" unfolding field_elem_def v by (auto simp: prime_plus_one_def below_def)
qed

theorem field_subtract_exact_iff_witness:
  "field_elem field_zero \<and> field_elem prime_plus_one
   \<and> (lv (field_subtract field_zero prime_plus_one) + lv prime_plus_one) mod (2 ^ 255 - 19) \<noteq> lv field_zero mod (2 ^ 255 - 19)"
proof -
  have z: "lv (replicate n (0 :: u32)) = 0" for n by (induction n) simp_all
  have "\<not> lv prime_plus_one \<le> lv field_zero + (2 ^ 255 - 19)"
    by (simp add: prime_plus_one_elem(2) field_zero_def z field_prime_def)
  then show ?thesis
    using field_subtract_exact_iff [OF field_zero_one_elem(1) prime_plus_one_elem(1)]
      field_zero_one_elem(1) prime_plus_one_elem(1) by blast
qed

text \<open>
  The ladder keeps its state well formed: whatever the scalar, the point and the number of
  steps done, each of the four coordinates has sixteen 16-bit limbs and a
  value below the prime plus 38, and the pending swap is a bit.
\<close>

theorem ladder_state_invariant:
  "wf_ladder (ladder_loop scalar (field_decode point)
     \<lparr>lad_x2 = field_one, lad_z2 = field_zero, lad_x3 = field_decode point, lad_z3 = field_one, lad_swap = 0\<rparr> n)"
  by (rule ladder_loop_wf)
    (simp_all add: wf_ladder_def field_zero_one_elem field_decode_elem elem_length)

end
