(* ===== verification/Crypto_Hmac.thy ===== *)
theory Crypto_Hmac
  imports Crypto_Sha256
begin

text \<open>
  HMAC-SHA-256 and HKDF-SHA-256 of \<^verbatim>\<open>src/Modules/Crypto/crypto_primitives.cpp\<close>, and the
  reference constructions over an arbitrary block hash. The locale \<open>block_hash\<close> is what the
  constructions need of the hash; SHA-256 is its instance.
\<close>

subsection \<open>The code\<close>

text \<open>
  One use of a hash object: initialise, feed the pieces while every call succeeds, finish.
\<close>

definition sha_run :: "(ptr \<times> nat) list \<Rightarrow> ptr \<Rightarrow> (ft_err \<times> ptr) option" where
  "sha_run parts digest =
     (let (c0, r0) = sha256_initialize new_sha256
      in if r0 \<noteq> FT_ERR_SUCCESS then Some (r0, digest)
         else case update_all sha256_update_span c0 parts of
           None \<Rightarrow> None
         | Some (c1, r1) \<Rightarrow>
             if r1 \<noteq> FT_ERR_SUCCESS then Some (r1, digest)
             else Some (snd (sha256_final c1 digest)))"

text \<open>The key block: a long key is replaced by its hash, a short one is padded with zeros.\<close>

definition hmac_key_block :: "ptr \<Rightarrow> nat \<Rightarrow> (ft_err \<times> ptr) option" where
  "hmac_key_block key key_length =
     (if key_length > 64 then crypto_sha256_hash key key_length (Some (replicate 64 0))
      else Some (FT_ERR_SUCCESS, Some (write_block (replicate 64 0) 0 (span_bytes key key_length))))"

definition hmac_sha256_parts ::
  "ptr \<Rightarrow> nat \<Rightarrow> ptr \<Rightarrow> nat \<Rightarrow> ptr \<Rightarrow> nat \<Rightarrow> ptr \<Rightarrow> nat \<Rightarrow> ptr \<Rightarrow> (ft_err \<times> ptr) option" where
  "hmac_sha256_parts key key_length first first_length second second_length third third_length digest =
     (if digest = None \<or> null_span key key_length \<or> null_span first first_length
         \<or> null_span second second_length \<or> null_span third third_length
      then Some (FT_ERR_INVALID_ARGUMENT, digest)
      else case hmac_key_block key key_length of
        None \<Rightarrow> None
      | Some (result, key_block) \<Rightarrow>
          if result \<noteq> FT_ERR_SUCCESS then Some (result, digest)
          else let inner_pad = map (\<lambda>b. b XOR 0x36) (the key_block);
                   outer_pad = map (\<lambda>b. b XOR 0x5c) (the key_block)
               in case sha_run [(Some inner_pad, 64), (first, first_length), (second, second_length),
                                (third, third_length)] (Some (replicate 32 0)) of
                    None \<Rightarrow> None
                  | Some (result, inner_digest) \<Rightarrow>
                      if result \<noteq> FT_ERR_SUCCESS then Some (result, digest)
                      else sha_run [(Some outer_pad, 64), (inner_digest, 32)] digest)"

definition crypto_hmac_sha256 :: "ptr \<Rightarrow> nat \<Rightarrow> ptr \<Rightarrow> nat \<Rightarrow> ptr \<Rightarrow> (ft_err \<times> ptr) option" where
  "crypto_hmac_sha256 key key_length data data_length digest =
     hmac_sha256_parts key key_length data data_length None 0 None 0 digest"

definition crypto_hkdf_sha256_extract ::
  "ptr \<Rightarrow> nat \<Rightarrow> ptr \<Rightarrow> nat \<Rightarrow> ptr \<Rightarrow> (ft_err \<times> ptr) option" where
  "crypto_hkdf_sha256_extract salt salt_length input_key_material input_key_material_length
     pseudorandom_key =
     (if pseudorandom_key = None \<or> null_span salt salt_length
         \<or> null_span input_key_material input_key_material_length
      then Some (FT_ERR_INVALID_ARGUMENT, pseudorandom_key)
      else if salt_length = 0
      then crypto_hmac_sha256 (Some (replicate 32 0)) 32 input_key_material
             input_key_material_length pseudorandom_key
      else crypto_hmac_sha256 salt salt_length input_key_material input_key_material_length
             pseudorandom_key)"

text \<open>The loop of \<open>expand\<close>: the output so far, the offset, the counter byte, the last block.\<close>

function expand_loop ::
  "ptr \<Rightarrow> ptr \<Rightarrow> nat \<Rightarrow> nat \<Rightarrow> bytes \<Rightarrow> nat \<Rightarrow> u8 \<Rightarrow> bytes \<Rightarrow> (ft_err \<times> bytes) option" where
  "expand_loop prk info info_length output_length output offset counter previous =
     (if offset < output_length
      then case hmac_sha256_parts prk 32 (if counter \<noteq> 1 then Some previous else None)
                  (if counter \<noteq> 1 then 32 else 0) info info_length (Some [counter]) 1
                  (Some (replicate 32 0)) of
             None \<Rightarrow> None
           | Some (result, block) \<Rightarrow>
               if result \<noteq> FT_ERR_SUCCESS then Some (result, output)
               else let copy_length = min (output_length - offset) 32
                    in expand_loop prk info info_length output_length
                         (write_block output offset (take copy_length (the block)))
                         (offset + copy_length) (counter + 1) (the block)
      else Some (FT_ERR_SUCCESS, output))"
  by pat_completeness auto
termination
  by (relation "measure (\<lambda>(prk, info, il, ol, out, off, c, p). ol - off)") auto

declare expand_loop.simps [simp del]

definition crypto_hkdf_sha256_expand ::
  "ptr \<Rightarrow> ptr \<Rightarrow> nat \<Rightarrow> ptr \<Rightarrow> nat \<Rightarrow> (ft_err \<times> ptr) option" where
  "crypto_hkdf_sha256_expand pseudorandom_key info info_length output output_length =
     (if pseudorandom_key = None \<or> null_span info info_length \<or> null_span output output_length
      then Some (FT_ERR_INVALID_ARGUMENT, output)
      else if output_length > 255 * 32 then Some (FT_ERR_OUT_OF_RANGE, output)
      else case output of
        None \<Rightarrow> Some (FT_ERR_SUCCESS, None)
      | Some out \<Rightarrow>
          map_option (\<lambda>(e, out'). (e, Some out'))
            (expand_loop pseudorandom_key info info_length output_length out 0 1 (replicate 32 0)))"

subsection \<open>The constructions over a block hash\<close>

definition block_key :: "(bytes \<Rightarrow> bytes) \<Rightarrow> nat \<Rightarrow> bytes \<Rightarrow> bytes" where
  "block_key H B k =
     (let k0 = (if length k > B then H k else k) in k0 @ replicate (B - length k0) 0)"

definition hmac :: "(bytes \<Rightarrow> bytes) \<Rightarrow> nat \<Rightarrow> bytes \<Rightarrow> bytes \<Rightarrow> bytes" where
  "hmac H B k m =
     H (map (\<lambda>b. b XOR 0x5c) (block_key H B k) @ H (map (\<lambda>b. b XOR 0x36) (block_key H B k) @ m))"

primrec hkdf_block :: "(bytes \<Rightarrow> bytes) \<Rightarrow> nat \<Rightarrow> bytes \<Rightarrow> bytes \<Rightarrow> nat \<Rightarrow> bytes" where
  "hkdf_block H B prk info 0 = []"
| "hkdf_block H B prk info (Suc n) =
     hmac H B prk (hkdf_block H B prk info n @ info @ [word_of_nat (Suc n)])"

definition hkdf_expand :: "(bytes \<Rightarrow> bytes) \<Rightarrow> nat \<Rightarrow> bytes \<Rightarrow> bytes \<Rightarrow> nat \<Rightarrow> bytes" where
  "hkdf_expand H B prk info L = take L (concat (map (hkdf_block H B prk info) [1..<256]))"

locale block_hash =
  fixes H :: "bytes \<Rightarrow> bytes" and B L :: nat
  assumes length_hash: "length (H m) = L"
    and digest_fits: "L \<le> B" "0 < L"
begin

lemma length_block_key: "length (block_key H B k) = B"
  using digest_fits by (auto simp: block_key_def Let_def length_hash)

lemma length_hmac: "length (hmac H B k m) = L"
  by (simp add: hmac_def length_hash)

text \<open>Trailing zeros of a key that fits the block do not change the code.\<close>

lemma block_key_zeros:
  assumes "length k + n \<le> B"
  shows "block_key H B (k @ replicate n 0) = block_key H B k"
proof -
  have "block_key H B (k @ replicate n 0) = k @ replicate (n + (B - (length k + n))) 0"
    using assms by (simp add: block_key_def flip: replicate_add)
  also have "n + (B - (length k + n)) = B - length k" using assms by simp
  finally show ?thesis using assms by (simp add: block_key_def)
qed

lemma hmac_key_zeros: "length k + n \<le> B \<Longrightarrow> hmac H B (k @ replicate n 0) m = hmac H B k m"
  by (simp add: hmac_def block_key_zeros)

lemma length_hkdf_block: "length (hkdf_block H B prk info (Suc n)) = L"
  by (simp add: length_hmac)

lemma length_hkdf_blocks:
  "0 < i \<Longrightarrow> length (concat (map (hkdf_block H B prk info) [i..<j])) = L * (j - i)"
proof (induction j)
  case (Suc j)
  have "length (hkdf_block H B prk info j) = L" if "0 < j"
    using that length_hkdf_block by (metis gr0_implies_Suc)
  then show ?case using Suc by (cases "i \<le> j") (auto simp: Suc_diff_le)
qed simp

lemma length_hkdf_expand: "n \<le> 255 * L \<Longrightarrow> length (hkdf_expand H B prk info n) = n"
  using length_hkdf_blocks [of 1 prk info 256] by (simp add: hkdf_expand_def)

end

interpretation sha_hash: block_hash sha256 64 32
  by unfold_locales simp_all

subsection \<open>The code implements the constructions\<close>

lemma sha_run_spec:
  assumes "list_all (\<lambda>p. readable (fst p) (snd p)) parts"
    and "length (concat (map (\<lambda>p. span_bytes (fst p) (snd p)) parts)) < 2 ^ 61"
  shows "sha_run parts (Some d) = Some (FT_ERR_SUCCESS,
    Some (write_block d 0 (sha256 (concat (map (\<lambda>p. span_bytes (fst p) (snd p)) parts)))))"
proof -
  obtain c where c: "sha256_initialize new_sha256 = (c, FT_ERR_SUCCESS)" "absorbed c []"
    using absorbed_initialize [of new_sha256] by (auto simp: new_sha256_def)
  obtain c' where c': "update_all sha256_update_span c parts = Some (c', FT_ERR_SUCCESS)"
    "absorbed c' (concat (map (\<lambda>p. span_bytes (fst p) (snd p)) parts))"
    using sha.update_all_law [OF c(2) assms(1)] assms(2) by auto
  show ?thesis
    using sha256_final_spec [OF c'(2), of d] c' c by (auto simp: sha_run_def)
qed

lemma write_block_all: "length xs = length d \<Longrightarrow> write_block d 0 xs = xs"
  by (simp add: write_block_def)

lemma hmac_key_block_spec:
  assumes "readable key n" "n < 2 ^ 61"
  shows "hmac_key_block key n = Some (FT_ERR_SUCCESS, Some (block_key sha256 64 (span_bytes key n)))"
  using crypto_sha256_hash_spec [OF assms(1), of "replicate 64 0"] assms(2) length_span_readable [OF assms(1)]
  by (auto simp: hmac_key_block_def block_key_def write_block_def)

lemma hmac_sha256_parts_spec:
  assumes r: "readable key kn" "readable a an" "readable b bn" "readable c cn"
    and n: "kn < 2 ^ 61" "64 + an + bn + cn < 2 ^ 61" and d: "32 \<le> length d"
  shows "hmac_sha256_parts key kn a an b bn c cn (Some d) = Some (FT_ERR_SUCCESS,
    Some (write_block d 0 (hmac sha256 64 (span_bytes key kn)
      (span_bytes a an @ span_bytes b bn @ span_bytes c cn))))"
proof -
  let ?k = "block_key sha256 64 (span_bytes key kn)"
  let ?i = "map (\<lambda>b. b XOR 0x36) ?k" and ?o = "map (\<lambda>b. b XOR 0x5c) ?k"
  let ?m = "span_bytes a an @ span_bytes b bn @ span_bytes c cn"
  have len: "length ?i = 64" "length ?o = 64" by (simp_all add: sha_hash.length_block_key)
  have inner: "sha_run [(Some ?i, 64), (a, an), (b, bn), (c, cn)] (Some (replicate 32 0))
      = Some (FT_ERR_SUCCESS, Some (sha256 (?i @ ?m)))"
    using sha_run_spec [of "[(Some ?i, 64), (a, an), (b, bn), (c, cn)]" "replicate 32 0"]
      r n len by (simp add: length_span_readable write_block_all)
  have outer: "sha_run [(Some ?o, 64), (Some (sha256 (?i @ ?m)), 32)] (Some d)
      = Some (FT_ERR_SUCCESS, Some (write_block d 0 (sha256 (?o @ sha256 (?i @ ?m)))))"
    using sha_run_spec [of "[(Some ?o, 64), (Some (sha256 (?i @ ?m)), 32)]" d] len by simp
  show ?thesis
    using not_null_readable [OF r(1)] not_null_readable [OF r(2)] not_null_readable [OF r(3)] not_null_readable [OF r(4)] inner outer
    by (simp add: hmac_sha256_parts_def hmac_key_block_spec [OF r(1) n(1)] hmac_def Let_def)
qed

lemma hkdf_extract_spec:
  assumes "readable salt sn" "readable ikm n" "sn < 2 ^ 61" "64 + n < 2 ^ 61" "32 \<le> length d"
  shows "crypto_hkdf_sha256_extract salt sn ikm n (Some d) = Some (FT_ERR_SUCCESS,
    Some (write_block d 0 (hmac sha256 64 (span_bytes salt sn) (span_bytes ikm n))))"
proof -
  have "span_bytes salt 0 = []" by (cases salt) auto
  moreover have "hmac sha256 64 (replicate 32 0) m = hmac sha256 64 [] m" for m
    using sha_hash.hmac_key_zeros [of "[]" 32 m] by simp
  ultimately show ?thesis
    using not_null_readable [OF assms(1)] not_null_readable [OF assms(2)] assms
      hmac_sha256_parts_spec [of salt sn ikm n None 0 None 0 d]
      hmac_sha256_parts_spec [of "Some (replicate 32 0)" 32 ikm n None 0 None 0 d]
    by (auto simp: crypto_hkdf_sha256_extract_def crypto_hmac_sha256_def)
qed

text \<open>
  The loop from block \<open>i\<close> on: the counter byte is the block number plus one and never wraps
  before the output is complete.
\<close>

lemma write_block_append:
  assumes "off + length xs + length ys \<le> length m"
  shows "write_block (write_block m off xs) (off + length xs) ys = write_block m off (xs @ ys)"
  using assms by (intro nth_equalityI) (auto simp: nth_write_block nth_append)

lemma expand_loop_spec:
  fixes prk info :: ptr and il :: nat
  defines "T \<equiv> hkdf_block sha256 64 (span_bytes prk 32) (span_bytes info il)"
  assumes r: "readable prk 32" "readable info il" and il: "il + 128 < 2 ^ 61"
  shows "L \<le> 255 * 32 \<Longrightarrow> L \<le> length out \<Longrightarrow> 32 * i < L \<Longrightarrow> length prev = 32 \<Longrightarrow> (0 < i \<Longrightarrow> prev = T i)
    \<Longrightarrow> expand_loop prk info il L out (32 * i) (word_of_nat (Suc i)) prev
      = Some (FT_ERR_SUCCESS, write_block out (32 * i) (take (L - 32 * i) (concat (map T [Suc i..<256]))))"
proof (induction "L - 32 * i" arbitrary: i out prev rule: less_induct)
  case less
  have i: "Suc i < 256" using less.prems by simp
  have c: "(word_of_nat (Suc i) :: u8) \<noteq> 1 \<longleftrightarrow> 0 < i"
  proof -
    have "unat (word_of_nat (Suc i) :: u8) = Suc i"
      using i by (simp add: unat_of_nat del: of_nat_Suc)
    moreover have "unat (1 :: u8) = 1" by simp
    ultimately show ?thesis by (metis One_nat_def Suc_inject neq0_conv of_nat_1)
  qed
  have T: "T (Suc i) = hmac sha256 64 (span_bytes prk 32)
      ((if 0 < i then prev else []) @ span_bytes info il @ [word_of_nat (Suc i)])"
    using less.prems(5) by (cases i) (auto simp: T_def)
  have lT: "length (T (Suc i)) = 32" by (simp add: T_def sha_hash.length_hmac)
  have mac: "hmac_sha256_parts prk 32 (if 0 < i then Some prev else None) (if 0 < i then 32 else 0)
      info il (Some [word_of_nat (Suc i)]) 1 (Some (replicate 32 0)) = Some (FT_ERR_SUCCESS, Some (T (Suc i)))"
    using hmac_sha256_parts_spec [OF r(1), of "if 0 < i then Some prev else None" "if 0 < i then 32 else 0"
        info il "Some [word_of_nat (Suc i)]" 1 "replicate 32 0"] r(2) il less.prems(4) T
    by (cases "0 < i") (auto simp: write_block_all sha_hash.length_hmac)
  have split: "concat (map T [Suc i..<256]) = T (Suc i) @ concat (map T [Suc (Suc i)..<256])"
    using i by (simp add: upt_rec)
  show ?case
  proof (cases "L - 32 * i \<le> 32")
    case True
    have "expand_loop prk info il L out (32 * i) (word_of_nat (Suc i)) prev
        = expand_loop prk info il L (write_block out (32 * i) (take (L - 32 * i) (T (Suc i))))
            (32 * i + (L - 32 * i)) (word_of_nat (Suc i) + 1) (T (Suc i))"
      using less.prems(3) True mac by (subst expand_loop.simps) (simp only: c, simp add: min_absorb1)
    also have "\<dots> = Some (FT_ERR_SUCCESS, write_block out (32 * i) (take (L - 32 * i) (T (Suc i))))"
      using less.prems(3) by (subst expand_loop.simps) simp
    finally show ?thesis using True split lT by simp
  next
    case False
    let ?out = "write_block out (32 * i) (T (Suc i))"
    have "expand_loop prk info il L out (32 * i) (word_of_nat (Suc i)) prev
        = expand_loop prk info il L ?out (32 * Suc i) (word_of_nat (Suc (Suc i))) (T (Suc i))"
      using less.prems(3) False mac lT
      by (subst expand_loop.simps) (simp only: c, simp add: min_absorb2 add.commute)
    also have "\<dots> = Some (FT_ERR_SUCCESS, write_block ?out (32 * Suc i)
        (take (L - 32 * Suc i) (concat (map T [Suc (Suc i)..<256]))))"
      using less.prems False lT by (intro less.hyps) auto
    also have "write_block ?out (32 * Suc i) (take (L - 32 * Suc i) (concat (map T [Suc (Suc i)..<256])))
        = write_block out (32 * i) (T (Suc i) @ take (L - 32 * Suc i) (concat (map T [Suc (Suc i)..<256])))"
      using write_block_append [of "32 * i" "T (Suc i)"
          "take (L - 32 * Suc i) (concat (map T [Suc (Suc i)..<256]))" out] lT less.prems(2) False
      by (simp add: add.commute)
    finally show ?thesis using False split lT by (simp add: add.commute)
  qed
qed

lemma hkdf_expand_spec:
  assumes "readable (Some prk) 32" "readable info il" "il + 128 < 2 ^ 61" "L \<le> length out"
  shows "crypto_hkdf_sha256_expand (Some prk) info il (Some out) L =
    (if 255 * 32 < L then Some (FT_ERR_OUT_OF_RANGE, Some out)
     else Some (FT_ERR_SUCCESS, Some (write_block out 0
       (hkdf_expand sha256 64 (take 32 prk) (span_bytes info il) L))))"
proof -
  have null: "\<not> null_span info il" by (rule not_null_readable [OF assms(2)])
  have "expand_loop (Some prk) info il L out 0 1 (replicate 32 0)
      = Some (FT_ERR_SUCCESS, write_block out 0 (hkdf_expand sha256 64 (take 32 prk) (span_bytes info il) L))"
    if "L \<le> 255 * 32"
  proof (cases "L = 0")
    case True
    then show ?thesis by (subst expand_loop.simps) (simp add: hkdf_expand_def)
  next
    case False
    then show ?thesis
      using expand_loop_spec [OF assms(1-3), of L out 0 "replicate 32 0"] that assms(4)
      by (simp add: hkdf_expand_def)
  qed
  then show ?thesis using null by (auto simp: crypto_hkdf_sha256_expand_def)
qed

subsection \<open>Main properties\<close>

text \<open>
  \<open>crypto_hmac_sha256\<close> computes HMAC: for a readable key and message of less than \<open>2 ^ 60\<close>
  bytes each it succeeds and writes the hash of the outer pad and the inner hash,
  under the key padded with zeros or, when it exceeds a block, hashed first.
\<close>

theorem hmac_sha256_correct:
  assumes "readable key kn" "readable m mn" "kn < 2 ^ 60" "mn < 2 ^ 60" "32 \<le> length digest"
  shows "crypto_hmac_sha256 key kn m mn (Some digest) = Some (FT_ERR_SUCCESS,
    Some (hmac sha256 64 (span_bytes key kn) (span_bytes m mn) @ drop 32 digest))"
  using hmac_sha256_parts_spec [of key kn m mn None 0 None 0 digest] assms
  by (simp add: crypto_hmac_sha256_def write_block_def sha_hash.length_hmac)

theorem hmac_sha256_correct_witness:
  "crypto_hmac_sha256 (Some [1, 2, 3]) 3 (Some [4, 5]) 2 (Some (replicate 33 7)) = Some (FT_ERR_SUCCESS,
    Some (hmac sha256 64 [1, 2, 3] [4, 5] @ replicate 1 7))"
  using hmac_sha256_correct [of "Some [1, 2, 3]" 3 "Some [4, 5]" 2 "replicate 33 7"]
  by simp

text \<open>
  \<open>crypto_hkdf_sha256_expand\<close> fills exactly the first \<open>L\<close> bytes of the output with the chained
  blocks of HKDF and leaves the rest; it refuses more than 255 blocks, where the counter byte would repeat,
  and then writes nothing.
\<close>

theorem hkdf_expand_correct:
  assumes "32 \<le> length prk" "readable info il" "il < 2 ^ 60" "L \<le> length out"
  shows "crypto_hkdf_sha256_expand (Some prk) info il (Some out) L =
    (if 255 * 32 < L then Some (FT_ERR_OUT_OF_RANGE, Some out)
     else Some (FT_ERR_SUCCESS,
       Some (hkdf_expand sha256 64 (take 32 prk) (span_bytes info il) L @ drop L out)))"
  using hkdf_expand_spec [of prk info il L out] assms
  by (simp add: write_block_def sha_hash.length_hkdf_expand)

theorem hkdf_expand_correct_witness:
  "crypto_hkdf_sha256_expand (Some (replicate 32 1)) None 0 (Some (replicate 50 2)) 40 =
     Some (FT_ERR_SUCCESS, Some (hkdf_expand sha256 64 (replicate 32 1) [] 40 @ replicate 10 2))
   \<and> crypto_hkdf_sha256_expand (Some (replicate 32 1)) None 0 (Some (replicate 8161 2)) 8161 =
     Some (FT_ERR_OUT_OF_RANGE, Some (replicate 8161 2))"
  using hkdf_expand_correct [of "replicate 32 1" None 0 40 "replicate 50 2"]
    hkdf_expand_correct [of "replicate 32 1" None 0 8161 "replicate 8161 2"]
  by simp

end
