(* ===== verification/Crypto_Session.thy ===== *)
theory Crypto_Session
  imports Crypto_X25519_Spec Crypto_Hmac
begin

text \<open>
  Session keys of \<^verbatim>\<open>src/Modules/Crypto/crypto_session.cpp\<close>: X25519, SHA-256 of the transcript
  and HKDF with one label per direction. Outputs are kept in a record, so that what a failing call
  leaves in the caller's buffers is visible. The main result is that the two ends agree
  crosswise whenever they agree on the shared secret and the transcript.
\<close>

subsection \<open>Deriving session keys\<close>

record session_keys =
  sk_send :: ptr
  sk_receive :: ptr
  sk_send_iv :: ptr
  sk_receive_iv :: ptr

definition CLIENT :: u8 where "CLIENT = 0"

definition SERVER :: u8 where "SERVER = 1"

definition client_to_server_key_label :: bytes where
  "client_to_server_key_label = [0x4c, 0x46, 0x54, 0x01, 0x43, 0x32, 0x53, 0x4b]"

definition server_to_client_key_label :: bytes where
  "server_to_client_key_label = [0x4c, 0x46, 0x54, 0x01, 0x53, 0x32, 0x43, 0x4b]"

definition client_to_server_iv_label :: bytes where
  "client_to_server_iv_label = [0x4c, 0x46, 0x54, 0x01, 0x43, 0x32, 0x53, 0x49]"

definition server_to_client_iv_label :: bytes where
  "server_to_client_iv_label = [0x4c, 0x46, 0x54, 0x01, 0x53, 0x32, 0x43, 0x49]"

text \<open>A step of the chain: it runs while the result is a success and keeps its buffer otherwise.\<close>

definition when_ok :: "ft_err \<Rightarrow> ptr \<Rightarrow> (ft_err \<times> ptr) option \<Rightarrow> (ft_err \<times> ptr) option" where
  "when_ok result buffer step = (if result = FT_ERR_SUCCESS then step else Some (result, buffer))"

definition derive_label :: "ptr \<Rightarrow> bytes \<Rightarrow> nat \<Rightarrow> ptr \<Rightarrow> nat \<Rightarrow> (ft_err \<times> ptr) option" where
  "derive_label pseudorandom_key label label_length output output_length =
     crypto_hkdf_sha256_expand pseudorandom_key (Some label) label_length output output_length"

text \<open>The four expansions of a role, in the code's order.\<close>

definition derive_outputs :: "ft_err \<Rightarrow> ptr \<Rightarrow> u8 \<Rightarrow> session_keys \<Rightarrow> (ft_err \<times> session_keys) option" where
  "derive_outputs result prk role out =
     (let server = (role = SERVER);
          send_key_label = (if server then server_to_client_key_label else client_to_server_key_label);
          receive_key_label = (if server then client_to_server_key_label else server_to_client_key_label);
          send_iv_label = (if server then server_to_client_iv_label else client_to_server_iv_label);
          receive_iv_label = (if server then client_to_server_iv_label else server_to_client_iv_label)
      in case when_ok result (sk_send out) (derive_label prk send_key_label 8 (sk_send out) 32) of
           None \<Rightarrow> None
         | Some (result, send) \<Rightarrow>
      (case when_ok result (sk_receive out) (derive_label prk receive_key_label 8 (sk_receive out) 32) of
           None \<Rightarrow> None
         | Some (result, receive) \<Rightarrow>
      (case when_ok result (sk_send_iv out) (derive_label prk send_iv_label 8 (sk_send_iv out) 12) of
           None \<Rightarrow> None
         | Some (result, send_iv) \<Rightarrow>
      (case when_ok result (sk_receive_iv out) (derive_label prk receive_iv_label 8 (sk_receive_iv out) 12) of
           None \<Rightarrow> None
         | Some (result, receive_iv) \<Rightarrow>
             Some (result, \<lparr>sk_send = send, sk_receive = receive, sk_send_iv = send_iv,
                            sk_receive_iv = receive_iv\<rparr>)))))"

definition wipe_keys :: "session_keys \<Rightarrow> session_keys" where
  "wipe_keys out =
     \<lparr>sk_send = snd (crypto_secure_wipe (sk_send out) 32),
      sk_receive = snd (crypto_secure_wipe (sk_receive out) 32),
      sk_send_iv = snd (crypto_secure_wipe (sk_send_iv out) 12),
      sk_receive_iv = snd (crypto_secure_wipe (sk_receive_iv out) 12)\<rparr>"

definition crypto_derive_session_keys ::
  "ptr \<Rightarrow> ptr \<Rightarrow> ptr \<Rightarrow> nat \<Rightarrow> u8 \<Rightarrow> session_keys \<Rightarrow> (ft_err \<times> session_keys) option" where
  "crypto_derive_session_keys private_key peer_public_key transcript transcript_length role out =
     (if private_key = None \<or> peer_public_key = None \<or> transcript = None \<or> transcript_length = 0
         \<or> sk_send out = None \<or> sk_receive out = None \<or> sk_send_iv out = None \<or> sk_receive_iv out = None
      then Some (FT_ERR_INVALID_ARGUMENT, out)
      else if role \<noteq> CLIENT \<and> role \<noteq> SERVER then Some (FT_ERR_INVALID_ARGUMENT, out)
      else let zeros = Some (replicate 32 0);
               (result, shared_secret) = crypto_x25519_shared_secret private_key peer_public_key zeros
           in case when_ok result zeros (crypto_sha256_hash transcript transcript_length zeros) of
                None \<Rightarrow> None
              | Some (result, transcript_hash) \<Rightarrow>
           (case when_ok result zeros
                   (crypto_hkdf_sha256_extract transcript_hash 32 shared_secret 32 zeros) of
                None \<Rightarrow> None
              | Some (result, prk) \<Rightarrow>
                  map_option (\<lambda>(result, out'). (result, if result \<noteq> FT_ERR_SUCCESS then wipe_keys out' else out'))
                    (derive_outputs result prk role out)))"

subsection \<open>Updating a key\<close>

definition key_update_label :: bytes where
  "key_update_label = map (\<lambda>c. word_of_nat (of_char c)) ''Libft key update''"

definition key_update_info :: "u64 \<Rightarrow> bytes" where
  "key_update_info next_epoch =
     key_update_label @ map (\<lambda>index. ucast (drop_bit (56 - index * 8) next_epoch AND 0xff)) [0..<8]"

definition crypto_derive_key_update ::
  "ptr \<Rightarrow> u64 \<Rightarrow> ptr \<Rightarrow> ptr \<Rightarrow> (ft_err \<times> ptr \<times> ptr) option" where
  "crypto_derive_key_update current_key next_epoch updated_key updated_iv =
     (if current_key = None \<or> updated_key = None \<or> updated_iv = None
      then Some (FT_ERR_INVALID_ARGUMENT, updated_key, updated_iv)
      else case crypto_hkdf_sha256_extract None 0 current_key 32 (Some (replicate 32 0)) of
        None \<Rightarrow> None
      | Some (result, prk) \<Rightarrow>
          (case when_ok result (Some (replicate 44 0))
                  (crypto_hkdf_sha256_expand prk (Some (key_update_info next_epoch)) 24
                     (Some (replicate 44 0)) 44) of
             None \<Rightarrow> None
           | Some (result, expanded) \<Rightarrow>
               let (key', iv') = (if result = FT_ERR_SUCCESS
                                  then (take 32 (the expanded), take 12 (drop 32 (the expanded)))
                                  else (replicate 32 0, replicate 12 0))
               in Some (result, Some (write_block (the updated_key) 0 key'),
                        Some (write_block (the updated_iv) 0 iv'))))"

subsection \<open>The contract\<close>

text \<open>The secret of a session and what a direction derives from it.\<close>

definition session_prk :: "bytes \<Rightarrow> bytes \<Rightarrow> bytes" where
  "session_prk secret transcript = hmac sha256 64 (sha256 transcript) secret"

definition direction_key :: "bytes \<Rightarrow> bool \<Rightarrow> bytes" where
  "direction_key prk from_server = hkdf_expand sha256 64 prk
     (if from_server then server_to_client_key_label else client_to_server_key_label) 32"

definition direction_iv :: "bytes \<Rightarrow> bool \<Rightarrow> bytes" where
  "direction_iv prk from_server = hkdf_expand sha256 64 prk
     (if from_server then server_to_client_iv_label else client_to_server_iv_label) 12"

lemma derive_label_spec:
  assumes "length prk = 32" "length label = 8" "n \<le> length buffer" "n \<le> 32"
  shows "derive_label (Some prk) label 8 (Some buffer) n
    = Some (FT_ERR_SUCCESS, Some (write_block buffer 0 (hkdf_expand sha256 64 prk label n)))"
  using hkdf_expand_spec [of prk "Some label" 8 n buffer] assms by (simp add: derive_label_def)

lemma length_labels [simp]:
  "length client_to_server_key_label = 8" "length server_to_client_key_label = 8"
  "length client_to_server_iv_label = 8" "length server_to_client_iv_label = 8"
  by (simp_all add: client_to_server_key_label_def server_to_client_key_label_def
      client_to_server_iv_label_def server_to_client_iv_label_def)

definition session_buffers :: "session_keys \<Rightarrow> bytes \<Rightarrow> bytes \<Rightarrow> bytes \<Rightarrow> bytes \<Rightarrow> bool" where
  "session_buffers out a b c d \<longleftrightarrow> out = \<lparr>sk_send = Some a, sk_receive = Some b, sk_send_iv = Some c, sk_receive_iv = Some d\<rparr>
     \<and> length a = 32 \<and> length b = 32 \<and> length c = 12 \<and> length d = 12"

lemma derive_outputs_spec:
  assumes "session_buffers out a b c d" "length prk = 32" "role = CLIENT \<or> role = SERVER"
  shows "derive_outputs FT_ERR_SUCCESS (Some prk) role out = Some (FT_ERR_SUCCESS,
    \<lparr>sk_send = Some (direction_key prk (role = SERVER)), sk_receive = Some (direction_key prk (role = CLIENT)),
     sk_send_iv = Some (direction_iv prk (role = SERVER)), sk_receive_iv = Some (direction_iv prk (role = CLIENT))\<rparr>)"
proof -
  have distinct: "CLIENT \<noteq> SERVER" by (simp add: CLIENT_def SERVER_def)
  have w: "write_block m 0 (hkdf_expand sha256 64 prk label n) = hkdf_expand sha256 64 prk label n"
    if "length m = n" "n \<le> 32" for m label n
    using that sha_hash.length_hkdf_expand [of n prk label] by (simp add: write_block_def)
  show ?thesis
    using assms distinct
    by (auto simp: session_buffers_def derive_outputs_def when_ok_def derive_label_spec direction_key_def
        direction_iv_def w Let_def)
qed

lemma derive_failed:
  "e \<noteq> FT_ERR_SUCCESS \<Longrightarrow> derive_outputs e prk role out = Some (e, out)"
  by (simp add: derive_outputs_def when_ok_def Let_def)

definition zero_keys :: session_keys where
  "zero_keys = \<lparr>sk_send = Some (replicate 32 0), sk_receive = Some (replicate 32 0),
     sk_send_iv = Some (replicate 12 0), sk_receive_iv = Some (replicate 12 0)\<rparr>"

lemma wipe_keys_zero: "session_buffers out a b c d \<Longrightarrow> wipe_keys out = zero_keys"
  by (simp add: session_buffers_def wipe_keys_def zero_keys_def crypto_secure_wipe_def write_block_def)

lemma derive_session_keys_spec:
  fixes key peer transcript :: bytes and n :: nat
  assumes out: "session_buffers out a b c d" and role: "role = CLIENT \<or> role = SERVER"
    and n: "0 < n" "n \<le> length transcript" "n < 2 ^ 61"
  defines "prk \<equiv> session_prk (ladder_result key peer) (take n transcript)"
  shows "crypto_derive_session_keys (Some key) (Some peer) (Some transcript) n role out =
    (if le_num (ladder_result key peer) = 0 then Some (FT_ERR_PERMISSION_DENIED, zero_keys)
     else Some (FT_ERR_SUCCESS,
       \<lparr>sk_send = Some (direction_key prk (role = SERVER)), sk_receive = Some (direction_key prk (role = CLIENT)),
        sk_send_iv = Some (direction_iv prk (role = SERVER)), sk_receive_iv = Some (direction_iv prk (role = CLIENT))\<rparr>))"
proof -
  let ?s = "ladder_result key peer" and ?z = "Some (replicate 32 (0::u8))"
  have s: "length ?s = 32" using ladder_result_canonical by simp
  have x: "crypto_x25519_shared_secret (Some key) (Some peer) ?z
      = (if le_num ?s = 0 then FT_ERR_PERMISSION_DENIED else FT_ERR_SUCCESS, Some ?s)"
    using scalar_multiply_spec [of key peer "replicate 32 0"] by (simp add: crypto_x25519_shared_secret_def)
  have h: "crypto_sha256_hash (Some transcript) n ?z = Some (FT_ERR_SUCCESS, Some (sha256 (take n transcript)))"
    using crypto_sha256_hash_spec [of "Some transcript" n "replicate 32 0"] n by (simp add: write_block_all)
  have k: "crypto_hkdf_sha256_extract (Some (sha256 (take n transcript))) 32 (Some ?s) 32 ?z = Some (FT_ERR_SUCCESS, Some prk)"
    using hkdf_extract_spec [of "Some (sha256 (take n transcript))" 32 "Some ?s" 32 "replicate 32 0"] s
    by (simp add: prk_def session_prk_def write_block_all sha_hash.length_hmac)
  have lp: "length prk = 32" by (simp add: prk_def session_prk_def sha_hash.length_hmac)
  have nulls: "sk_send out \<noteq> None" "sk_receive out \<noteq> None" "sk_send_iv out \<noteq> None" "sk_receive_iv out \<noteq> None"
    using out by (auto simp: session_buffers_def)
  show ?thesis
    using role nulls n(1) x h k derive_outputs_spec [OF out lp role] derive_failed wipe_keys_zero [OF out]
    by (auto simp: crypto_derive_session_keys_def when_ok_def Let_def)
qed

lemma length_key_update_info: "length (key_update_info e) = 24"
  by (simp add: key_update_info_def key_update_label_def)

lemma key_update_spec:
  fixes epoch :: u64
  assumes "length key = 32" "length k = 32" "length v = 12"
  defines "m \<equiv> hkdf_expand sha256 64 (hmac sha256 64 [] key) (key_update_info epoch) 44"
  shows "crypto_derive_key_update (Some key) epoch (Some k) (Some v)
    = Some (FT_ERR_SUCCESS, Some (take 32 m), Some (drop 32 m))"
proof -
  let ?prk = "hmac sha256 64 [] key"
  have p: "crypto_hkdf_sha256_extract None 0 (Some key) 32 (Some (replicate 32 0)) = Some (FT_ERR_SUCCESS, Some ?prk)"
    using hkdf_extract_spec [of None 0 "Some key" 32 "replicate 32 0"] assms
    by (simp add: write_block_all sha_hash.length_hmac)
  have l: "length m = 44" unfolding m_def by (rule sha_hash.length_hkdf_expand) simp
  have "crypto_hkdf_sha256_expand (Some ?prk) (Some (key_update_info epoch)) 24 (Some (replicate 44 0)) 44
      = Some (FT_ERR_SUCCESS, Some m)"
    using hkdf_expand_spec [of ?prk "Some (key_update_info epoch)" 24 44 "replicate 44 0"] l
    by (simp add: m_def write_block_all sha_hash.length_hmac length_key_update_info)
  then show ?thesis using p assms(2,3) l by (simp add: crypto_derive_key_update_def when_ok_def write_block_def)
qed

subsection \<open>Main properties\<close>

text \<open>
  The two ends of a session agree. When the client's and the server's X25519 computations give the same
  secret and both use the same transcript, both calls return the same code; on success the client's
  send key and initialisation vector are the server's receive key and vector and conversely;
  otherwise (a zero secret) both are refused and all buffers are zeroed.
\<close>

theorem session_keys_agree:
  assumes "ladder_result client_key server_public = ladder_result server_key client_public"
    and "session_buffers co a b c d" "session_buffers so a' b' c' d'"
    and "0 < n" "n \<le> length transcript" "n < 2 ^ 61"
  shows "\<exists>e ck sk. crypto_derive_session_keys (Some client_key) (Some server_public) (Some transcript) n CLIENT co = Some (e, ck)
    \<and> crypto_derive_session_keys (Some server_key) (Some client_public) (Some transcript) n SERVER so = Some (e, sk)
    \<and> sk_send ck = sk_receive sk \<and> sk_receive ck = sk_send sk
    \<and> sk_send_iv ck = sk_receive_iv sk \<and> sk_receive_iv ck = sk_send_iv sk
    \<and> (e = FT_ERR_SUCCESS \<longleftrightarrow> le_num (ladder_result client_key server_public) \<noteq> 0)
    \<and> (e \<noteq> FT_ERR_SUCCESS \<longrightarrow> ck = zero_keys \<and> sk = zero_keys)"
proof -
  have "CLIENT \<noteq> SERVER" by (simp add: CLIENT_def SERVER_def)
  then show ?thesis
    using derive_session_keys_spec [OF assms(2) _ assms(4-6), of CLIENT client_key server_public]
      derive_session_keys_spec [OF assms(3) _ assms(4-6), of SERVER server_key client_public] assms(1)
    by (auto simp: zero_keys_def)
qed

theorem session_keys_agree_witness:
  "\<exists>e ck sk. crypto_derive_session_keys (Some (replicate 32 1)) (Some (replicate 32 9)) (Some [7]) 1 CLIENT zero_keys = Some (e, ck)
    \<and> crypto_derive_session_keys (Some (replicate 32 1)) (Some (replicate 32 9)) (Some [7]) 1 SERVER zero_keys = Some (e, sk)
    \<and> sk_send ck = sk_receive sk \<and> sk_receive ck = sk_send sk"
proof -
  have "session_buffers zero_keys (replicate 32 0) (replicate 32 0) (replicate 12 0) (replicate 12 0)"
    by (simp add: session_buffers_def zero_keys_def)
  note z = this
  show ?thesis
    using session_keys_agree [OF refl z z, of 1 "[7]" "replicate 32 1" "replicate 32 9"] by auto
qed

end
