(* ===== verification/Crypto_X25519_Ladder.thy ===== *)
theory Crypto_X25519_Ladder
  imports Crypto_X25519_Spec
begin

text \<open>
  The ladder of \<open>Crypto_X25519\<close> against the X25519 function of RFC 7748. The reference is the Montgomery ladder on pairs
  of integers modulo \<open>2 ^ 255 - 19\<close>, with neither limbs nor masks nor deferred swaps: a bit of the
  scalar chooses which of the two points is doubled. The code follows it as long as its
  subtractions are exact (\<open>field_subtract_exact_iff\<close> says when), which \<open>x25519_exact\<close>
  states of a whole run.
\<close>

subsection \<open>The reference\<close>

definition p25519 :: int where "p25519 = 2 ^ 255 - 19"

type_synonym xz = "int \<times> int"

fun mont_double :: "xz \<Rightarrow> xz" where
  "mont_double (x, z) =
     (let a = (x + z)\<^sup>2; b = (x - z)\<^sup>2; e = a - b
      in (a * b mod p25519, e * (a + 121665 * e) mod p25519))"

fun mont_add :: "int \<Rightarrow> xz \<Rightarrow> xz \<Rightarrow> xz" where
  "mont_add u (x2, z2) (x3, z3) =
     (let s = (x3 - z3) * (x2 + z2); t = (x3 + z3) * (x2 - z2)
      in ((s + t)\<^sup>2 mod p25519, u * (s - t)\<^sup>2 mod p25519))"

primrec mont_ladder :: "nat \<Rightarrow> int \<Rightarrow> nat \<Rightarrow> xz \<Rightarrow> xz \<Rightarrow> xz" where
  "mont_ladder k u 0 P Q = P"
| "mont_ladder k u (Suc t) P Q =
     (if odd (k div 2 ^ t) then mont_ladder k u t (mont_add u P Q) (mont_double Q)
      else mont_ladder k u t (mont_double P) (mont_add u P Q))"

definition x25519_scalar :: "nat \<Rightarrow> nat" where
  "x25519_scalar k = 2 ^ 254 + 8 * (k div 8 mod 2 ^ 251)"

definition x25519_function :: "nat \<Rightarrow> nat \<Rightarrow> int" where
  "x25519_function k u =
     (let x1 = int (u mod 2 ^ 255) mod p25519; (x, z) = mont_ladder (x25519_scalar k) x1 255 (1, 0) (x1, 1)
      in x * z ^ (2 ^ 255 - 21) mod p25519)"

subsection \<open>Exact runs\<close>

text \<open>A subtraction is exact when the operands are at most the prime apart; a step has four of them.\<close>

definition subtract_exact :: "u32 list \<Rightarrow> u32 list \<Rightarrow> bool" where
  "subtract_exact l r \<longleftrightarrow> lv r \<le> lv l + (2 ^ 255 - 19)"

definition step_exact :: "u32 \<Rightarrow> ladder \<Rightarrow> bool" where
  "step_exact b s0 \<longleftrightarrow>
     (let s = swap_points s0 (lad_swap s0 XOR b);
          x2 = lad_x2 s; z2 = lad_z2 s; x3 = lad_x3 s; z3 = lad_z3 s;
          a = field_add x2 z2; bv = field_subtract x2 z2
      in subtract_exact x2 z2 \<and> subtract_exact (field_square a) (field_square bv) \<and> subtract_exact x3 z3
         \<and> subtract_exact (field_multiply (field_subtract x3 z3) a) (field_multiply (field_add x3 z3) bv))"

primrec ladder_exact :: "bytes \<Rightarrow> u32 list \<Rightarrow> ladder \<Rightarrow> nat \<Rightarrow> bool" where
  "ladder_exact scalar x1 s 0 \<longleftrightarrow> True"
| "ladder_exact scalar x1 s (Suc n) \<longleftrightarrow>
     step_exact (scalar_bit scalar n) s \<and> ladder_exact scalar x1 (ladder_step x1 (scalar_bit scalar n) s) n"

definition ladder_start :: "u32 list \<Rightarrow> ladder" where
  "ladder_start x1 = \<lparr>lad_x2 = field_one, lad_z2 = field_zero, lad_x3 = x1, lad_z3 = field_one, lad_swap = 0\<rparr>"

definition x25519_exact :: "bytes \<Rightarrow> bytes \<Rightarrow> bool" where
  "x25519_exact key peer \<longleftrightarrow>
     ladder_exact (clamp_scalar key) (field_decode peer) (ladder_start (field_decode peer)) 255"

subsection \<open>Residues\<close>

text \<open>The residue that sixteen limbs stand for, and the operations on it.\<close>

definition fe :: "u32 list \<Rightarrow> int" where
  "fe v = int (lv v) mod p25519"

lemma p25519_prime: "p25519 = int field_prime"
  by (simp add: p25519_def field_prime_def)

lemma fe_int: "fe v = int (lv v mod field_prime)"
  by (simp add: fe_def p25519_prime zmod_int)

lemma fe_mod [simp]: "fe v mod p25519 = fe v"
  by (simp add: fe_def)

lemma fe_add: "length l = 16 \<Longrightarrow> length r = 16 \<Longrightarrow> fe (field_add l r) = (fe l + fe r) mod p25519"
  by (simp add: fe_int field_add_spec(2)) (simp add: p25519_prime zmod_int mod_simps)

lemma fe_multiply: "mul_operand l \<Longrightarrow> mul_operand r \<Longrightarrow> fe (field_multiply l r) = fe l * fe r mod p25519"
  by (simp add: fe_int field_multiply_spec(2)) (simp add: p25519_prime zmod_int mod_simps)

lemma fe_square: "mul_operand l \<Longrightarrow> fe (field_square l) = (fe l)\<^sup>2 mod p25519"
  by (simp add: field_square_def fe_multiply power2_eq_square)

lemma fe_subtract:
  assumes "field_elem l" "field_elem r" "subtract_exact l r"
  shows "fe (field_subtract l r) = (fe l - fe r) mod p25519"
proof -
  have "(lv (field_subtract l r) + lv r) mod field_prime = lv l mod field_prime"
    using field_subtract_spec(2) [OF assms(1,2)] assms(3) by (simp add: subtract_exact_def field_prime_def)
  then have "(int (lv (field_subtract l r)) + int (lv r)) mod p25519 = int (lv l) mod p25519"
    unfolding p25519_prime by (metis of_nat_add zmod_int)
  then have "(int (lv (field_subtract l r)) + int (lv r) - int (lv r)) mod p25519 = (int (lv l) - int (lv r)) mod p25519"
    by (metis mod_diff_left_eq)
  then show ?thesis by (simp add: fe_def mod_simps)
qed

subsection \<open>The ladder\<close>

text \<open>
  The state stands for the pair of points of the reference, exchanged when a swap is pending.
\<close>

definition ladder_rel :: "ladder \<Rightarrow> xz \<Rightarrow> xz \<Rightarrow> bool" where
  "ladder_rel s P Q \<longleftrightarrow>
     (if lad_swap s = 0 then (fe (lad_x2 s), fe (lad_z2 s)) = P \<and> (fe (lad_x3 s), fe (lad_z3 s)) = Q
      else (fe (lad_x2 s), fe (lad_z2 s)) = Q \<and> (fe (lad_x3 s), fe (lad_z3 s)) = P)"

lemma mont_add_commute: "mont_add u P Q = mont_add u Q P"
  by (cases P; cases Q) (simp add: Let_def power2_eq_square algebra_simps)

lemma a24_operand: "mul_operand (field_zero[0 := 121665])" "fe (field_zero[0 := 121665]) = 121665"
proof -
  have e: "field_zero[0 := 121665] = 121665 # replicate 15 0" by (simp add: field_zero_def numeral_eq_Suc)
  have z: "lv (replicate n (0 :: u32)) = 0" for n by (induction n) simp_all
  show "mul_operand (field_zero[0 := 121665])" unfolding e by (auto simp: mul_operand_def below_def)
  show "fe (field_zero[0 := 121665]) = 121665" unfolding e fe_def by (simp add: z p25519_def)
qed

lemma ladder_step_values:
  assumes "wf_ladder s0" "field_elem x1" "b = 0 \<or> b = 1" "step_exact b s0"
  defines "s \<equiv> swap_points s0 (lad_swap s0 XOR b)" and "s' \<equiv> ladder_step x1 b s0"
  shows "(fe (lad_x2 s'), fe (lad_z2 s')) = mont_double (fe (lad_x2 s), fe (lad_z2 s))"
    "(fe (lad_x3 s'), fe (lad_z3 s')) = mont_add (fe x1) (fe (lad_x2 s), fe (lad_z2 s)) (fe (lad_x3 s), fe (lad_z3 s))"
proof -
  have "lad_swap s0 XOR b = 0 \<or> lad_swap s0 XOR b = 1" using assms(1,3) by (auto simp: wf_ladder_def)
  then have "wf_ladder s" unfolding s_def by (rule swap_points_wf [OF assms(1)])
  then have e: "field_elem (lad_x2 s)" "field_elem (lad_z2 s)" "field_elem (lad_x3 s)" "field_elem (lad_z3 s)"
    by (auto simp: wf_ladder_def)
  note len = elem_length [OF e(1)] elem_length [OF e(2)] elem_length [OF e(3)] elem_length [OF e(4)]
  note x = assms(4) [unfolded step_exact_def Let_def, folded s_def]
  define a where "a = field_add (lad_x2 s) (lad_z2 s)"
  define bv where "bv = field_subtract (lad_x2 s) (lad_z2 s)"
  define c where "c = field_add (lad_x3 s) (lad_z3 s)"
  define d where "d = field_subtract (lad_x3 s) (lad_z3 s)"
  have el: "field_elem a" "field_elem bv" "field_elem c" "field_elem d"
    unfolding a_def bv_def c_def d_def using len by (simp_all add: field_ops_elem)
  have fe1: "fe a = (fe (lad_x2 s) + fe (lad_z2 s)) mod p25519" "fe bv = (fe (lad_x2 s) - fe (lad_z2 s)) mod p25519"
    "fe c = (fe (lad_x3 s) + fe (lad_z3 s)) mod p25519" "fe d = (fe (lad_x3 s) - fe (lad_z3 s)) mod p25519"
    unfolding a_def bv_def c_def d_def using len e x by (simp_all add: fe_add fe_subtract)
  define aa where "aa = field_square a"
  define bb where "bb = field_square bv"
  define da where "da = field_multiply d a"
  define cb where "cb = field_multiply c bv"
  have el2: "field_elem aa" "field_elem bb" "field_elem da" "field_elem cb"
    unfolding aa_def bb_def da_def cb_def field_square_def by (simp_all add: field_multiply_elem)
  have fe2: "fe aa = (fe a)\<^sup>2 mod p25519" "fe bb = (fe bv)\<^sup>2 mod p25519" "fe da = fe d * fe a mod p25519"
    "fe cb = fe c * fe bv mod p25519"
    unfolding aa_def bb_def da_def cb_def using el by (simp_all add: fe_square fe_multiply elem_operand)
  define e where "e = field_subtract aa bb"
  define df where "df = field_subtract da cb"
  have x2: "subtract_exact aa bb" "subtract_exact da cb"
    using x by (simp_all add: aa_def bb_def da_def cb_def a_def bv_def c_def d_def)
  have el3: "field_elem e" "field_elem df" "field_elem (field_add da cb)"
    unfolding e_def df_def using el2 by (simp_all add: field_ops_elem elem_length)
  have fe3: "fe e = (fe aa - fe bb) mod p25519" "fe df = (fe da - fe cb) mod p25519"
    unfolding e_def df_def using fe_subtract [OF el2(1,2) x2(1)] fe_subtract [OF el2(3,4) x2(2)] by simp_all
  have s': "lad_x2 s' = field_multiply aa bb"
    "lad_z2 s' = field_multiply e (field_add aa (field_multiply (field_zero[0 := 121665]) e))"
    "lad_x3 s' = field_square (field_add da cb)" "lad_z3 s' = field_multiply x1 (field_square df)"
    by (simp_all add: s'_def ladder_step_def Let_def s_def a_def bv_def c_def d_def aa_def bb_def da_def cb_def
        e_def df_def)
  have m: "field_elem (field_multiply (field_zero[0 := 121665]) e)" "field_elem (field_square df)"
    by (simp_all add: field_multiply_elem field_square_def)
  have m2: "field_elem (field_add aa (field_multiply (field_zero[0 := 121665]) e))"
    using el2(1) m(1) by (simp add: field_ops_elem elem_length)
  note ops = fe_add fe_multiply fe_square elem_operand elem_length el el2 el3 m m2 assms(2) a24_operand
  show "(fe (lad_x2 s'), fe (lad_z2 s')) = mont_double (fe (lad_x2 s), fe (lad_z2 s))"
    unfolding s' by (simp add: ops fe3 fe2 fe1 Let_def mod_simps)
  show "(fe (lad_x3 s'), fe (lad_z3 s')) = mont_add (fe x1) (fe (lad_x2 s), fe (lad_z2 s)) (fe (lad_x3 s), fe (lad_z3 s))"
    unfolding s' by (simp add: ops fe3 fe2 fe1 Let_def mod_simps)
qed

lemma ladder_step_rel:
  assumes "wf_ladder s" "field_elem x1" "b = 0 \<or> b = 1" "step_exact b s" "ladder_rel s P Q"
  shows "ladder_rel (ladder_step x1 b s)
    (if b = 0 then mont_double P else mont_add (fe x1) P Q) (if b = 0 then mont_add (fe x1) P Q else mont_double Q)"
proof -
  define w where "w = swap_points s (lad_swap s XOR b)"
  have sw: "lad_swap s = 0 \<or> lad_swap s = 1" "lad_swap s XOR b = 0 \<or> lad_swap s XOR b = 1"
    using assms(1,3) by (auto simp: wf_ladder_def)
  have w: "(fe (lad_x2 w), fe (lad_z2 w)) = (if b = 0 then P else Q)" "(fe (lad_x3 w), fe (lad_z3 w)) = (if b = 0 then Q else P)"
    using assms(3,5) sw swap_points_spec [OF assms(1) sw(2)] unfolding w_def ladder_rel_def by (auto split: if_splits)
  note v = ladder_step_values [OF assms(1-4), folded w_def]
  have "lad_swap (ladder_step x1 b s) = b" by (simp add: ladder_step_def Let_def)
  then show ?thesis using v w assms(3) mont_add_commute [of "fe x1" P Q] by (auto simp: ladder_rel_def)
qed

lemma ladder_loop_rel:
  assumes "field_elem x1" "n \<le> 8 * length scalar"
  shows "wf_ladder s \<Longrightarrow> ladder_exact scalar x1 s n \<Longrightarrow> ladder_rel s P Q
    \<Longrightarrow> \<exists>R. ladder_rel (ladder_loop scalar x1 s n) (mont_ladder (le_num scalar) (fe x1) n P Q) R"
  using assms(2)
proof (induction n arbitrary: s P Q)
  case (Suc n)
  let ?b = "scalar_bit scalar n"
  have bit: "?b = 0 \<longleftrightarrow> even (le_num scalar div 2 ^ n)"
    using scalar_bit_iff [of n scalar] Suc.prems(4) by (simp add: odd_bit)
  have r: "ladder_rel (ladder_step x1 ?b s) (if ?b = 0 then mont_double P else mont_add (fe x1) P Q)
      (if ?b = 0 then mont_add (fe x1) P Q else mont_double Q)"
    using ladder_step_rel [OF Suc.prems(1) assms(1) scalar_bit_cases _ Suc.prems(3)] Suc.prems(2) by simp
  have "wf_ladder (ladder_step x1 ?b s)"
    using ladder_step_wf [OF Suc.prems(1) elem_length [OF assms(1)] scalar_bit_cases] .
  then show ?case using Suc.IH [OF _ _ r] Suc.prems(2,4) bit by (auto split: if_splits)
qed auto

subsection \<open>Decoding the arguments\<close>

lemma lv_bytes_pairs:
  "length bs = 2 * n \<Longrightarrow> lv (map (\<lambda>i. ucast (bs ! (i * 2)) OR push_bit 8 (ucast (bs ! (i * 2 + 1))) :: u32) [0..<n]) = le_num bs
     \<and> below (2 ^ 16) (map (\<lambda>i. ucast (bs ! (i * 2)) OR push_bit 8 (ucast (bs ! (i * 2 + 1))) :: u32) [0..<n])"
proof (induction n arbitrary: bs)
  case (Suc n)
  obtain a b cs where bs: "bs = a # b # cs" "length cs = 2 * n"
    using Suc.prems by (cases bs; cases "tl bs") auto
  have v: "unat (ucast a OR push_bit 8 (ucast b) :: u32) = unat a + 256 * unat b"
  proof -
    have "(ucast a OR push_bit 8 (ucast b) :: u32) = word_of_nat (unat a + 256 * unat b)"
      using bytes_or_add [of 0 0 b a] by (simp add: or.commute add.commute)
    moreover have "unat a + 256 * unat b < 2 ^ 32"
      using unsigned_less [of a, where ?'a = nat] unsigned_less [of b, where ?'a = nat] by simp
    ultimately show ?thesis by (simp only: unat_of_nat) simp
  qed
  have "[0..<Suc n] = 0 # map Suc [0..<n]" by (simp add: map_Suc_upt upt_conv_Cons)
  then have e: "map (\<lambda>i. ucast (bs ! (i * 2)) OR push_bit 8 (ucast (bs ! (i * 2 + 1))) :: u32) [0..<Suc n]
      = (ucast a OR push_bit 8 (ucast b)) # map (\<lambda>i. ucast (cs ! (i * 2)) OR push_bit 8 (ucast (cs ! (i * 2 + 1)))) [0..<n]"
    by (simp add: bs(1) del: upt_Suc)
  have "unat a < 256" "unat b < 256" using unsigned_less [of a, where ?'a = nat] unsigned_less [of b, where ?'a = nat] by simp_all
  then show ?case unfolding e using Suc.IH [OF bs(2)] v by (simp add: bs(1))
qed simp

lemma field_decode_spec_32:
  assumes "length peer = 32"
  shows "fe (field_decode peer) = int (le_num peer mod 2 ^ 255) mod p25519"
proof -
  define v where "v = map (\<lambda>i. ucast (peer ! (i * 2)) OR push_bit 8 (ucast (peer ! (i * 2 + 1))) :: u32) [0..<16]"
  have v: "length v = 16" "lv v = le_num peer" "below (2 ^ 16) v" using lv_bytes_pairs [of peer 16] assms by (simp_all add: v_def)
  let ?w = "v[15 := v ! 15 AND 0x7fff]"
  have h: "unat (v ! 15 AND 0x7fff) = unat (v ! 15) mod 2 ^ 15"
  proof -
    have "v ! 15 AND 0x7fff = take_bit 15 (v ! 15)" by (simp add: take_bit_eq_mask mask_eq_exp_minus_1)
    then show ?thesis by (simp only: unsigned_take_bit_eq take_bit_nat_mod)
  qed
  have spl: "lv v = lv (take 15 v) + 2 ^ 240 * unat (v ! 15)"
    using lv_append [of "take 15 v" "[v ! 15]"] take_Suc_conv_app_nth [of 15 v] v(1) by simp
  have "lv ?w = lv (take 15 v) + 2 ^ 240 * (unat (v ! 15) mod 2 ^ 15)"
    using lv_update [of 15 v "v ! 15 AND 0x7fff"] v(1) spl h by simp
  moreover have "lv (take 15 v) < 2 ^ 240"
    using lv_less [of "take 15 v"] v(1,3) by (auto simp: below_def dest: in_set_takeD)
  ultimately have "lv ?w = le_num peer mod 2 ^ 255"
    unfolding v(2) [symmetric] spl using mod_mult2_eq [of "lv (take 15 v) + 2 ^ 240 * unat (v ! 15)" "2 ^ 240" "2 ^ 15"]
    by simp
  moreover have "field_decode peer = field_normalize ?w" by (simp add: field_decode_def Let_def v_def)
  ultimately show ?thesis
    using field_normalize_spec(2) [of ?w] v(1) by (simp add: fe_int p25519_prime zmod_int)
qed

lemma clamp_byte_table:
  "list_all (\<lambda>n. uint (word_of_int n AND 248 :: u8) = 8 * (n div 8)
     \<and> uint ((word_of_int n AND 127) OR 64 :: u8) = 64 + n mod 64) [0..255]"
  by code_simp

lemma clamp_bytes:
  fixes a :: u8
  shows "unat (a AND 248) = 8 * (unat a div 8)" "unat ((a AND 127) OR 64) = 64 + unat a mod 64"
proof -
  have "uint a \<in> set [0..255]" using uint_bounded [of a] by simp
  then have "uint (a AND 248) = 8 * (uint a div 8)" "uint ((a AND 127) OR 64) = 64 + uint a mod 64"
    using clamp_byte_table [unfolded list_all_iff, THEN bspec, of "uint a"] by simp_all
  then have "int (unat (a AND 248)) = int (8 * (unat a div 8))" "int (unat ((a AND 127) OR 64)) = int (64 + unat a mod 64)"
    by (simp_all add: zdiv_int zmod_int)
  then show "unat (a AND 248) = 8 * (unat a div 8)" "unat ((a AND 127) OR 64) = 64 + unat a mod 64"
    by (simp_all only: of_nat_eq_iff)
qed

lemma clamp_value:
  fixes a b m :: nat
  assumes "a < 256" "m < 2 ^ 240"
  shows "8 * (a div 8) + 256 * m + 2 ^ 248 * (64 + b mod 64) = x25519_scalar (a + 256 * m + 2 ^ 248 * b)"
proof -
  have "a + 256 * m + 2 ^ 248 * b = a + 8 * (32 * m + 2 ^ 245 * b)" by simp
  then have "(a + 256 * m + 2 ^ 248 * b) div 8 = a div 8 + (32 * m + 2 ^ 245 * b)" by (simp only: div_mult_self2)
  moreover have "a div 8 + (32 * m + 2 ^ 245 * b) = (a div 8 + 32 * m + 2 ^ 245 * (b mod 64)) + 2 ^ 251 * (b div 64)"
  proof -
    have "2 ^ 245 * b = 2 ^ 245 * (64 * (b div 64) + b mod 64)" by (simp only: mult_div_mod_eq)
    also have "\<dots> = 2 ^ 251 * (b div 64) + 2 ^ 245 * (b mod 64)" by (simp only: distrib_left mult.assoc [symmetric]) simp
    finally show ?thesis by linarith
  qed
  moreover have "a div 8 + 32 * m + 2 ^ 245 * (b mod 64) < 2 ^ 251"
  proof -
    have "a div 8 < 32" using assms(1) by (simp add: less_mult_imp_div_less)
    then have "a div 8 + 32 * m < 2 ^ 245" using assms(2) by simp
    moreover have "2 ^ 245 * (b mod 64) \<le> 2 ^ 245 * 63" by simp
    ultimately show ?thesis by simp
  qed
  ultimately have "(a + 256 * m + 2 ^ 248 * b) div 8 mod 2 ^ 251 = a div 8 + 32 * m + 2 ^ 245 * (b mod 64)"
    by (simp only: mod_mult_self2 mod_less)
  then show ?thesis by (simp add: x25519_scalar_def)
qed

lemma clamp_scalar_spec:
  assumes "32 \<le> length key"
  shows "length (clamp_scalar key) = 32" "le_num (clamp_scalar key) = x25519_scalar (le_num (take 32 key))"
proof -
  have "length (take 32 key) = 32" using assms by simp
  then obtain a m b where k: "take 32 key = a # m @ [b]" "length m = 30"
    by (cases "take 32 key"; cases "tl (take 32 key)" rule: rev_cases) simp_all
  have c: "clamp_scalar key = (a AND 248) # m @ [(b AND 127) OR 64]"
    using k by (simp add: clamp_scalar_def Let_def list_update_append nth_append numeral_eq_Suc)
  show "length (clamp_scalar key) = 32" using c k(2) by simp
  have m: "le_num m < 2 ^ 240" using le_num_less [of m] k(2) by simp
  have "unat a < 256" using unsigned_less [of a, where ?'a = nat] by simp
  moreover have "le_num (clamp_scalar key) = 8 * (unat a div 8) + 256 * le_num m + 2 ^ 248 * (64 + unat b mod 64)"
    unfolding c using clamp_bytes [of a] clamp_bytes [of b] k(2) by (simp add: le_num_append algebra_simps)
  moreover have "le_num (take 32 key) = unat a + 256 * le_num m + 2 ^ 248 * unat b"
    unfolding k(1) using k(2) by (simp add: le_num_append algebra_simps)
  ultimately show "le_num (clamp_scalar key) = x25519_scalar (le_num (take 32 key))"
    using clamp_value [OF _ m] by simp
qed

subsection \<open>The result\<close>

lemma ladder_start_wf: "wf_ladder (ladder_start (field_decode peer))"
  by (simp add: ladder_start_def wf_ladder_def field_zero_one_elem field_decode_elem)

lemma fe_zero_one [simp]: "fe field_zero = 0" "fe field_one = 1"
proof -
  have z: "lv (replicate n (0 :: u32)) = 0" for n by (induction n) simp_all
  show "fe field_zero = 0" by (simp add: fe_def field_zero_def z)
  show "fe field_one = 1" by (simp add: fe_def field_one_spec(2) p25519_def)
qed

lemma field_decode_spec:
  assumes "32 \<le> length peer"
  shows "fe (field_decode peer) = int (le_num (take 32 peer) mod 2 ^ 255) mod p25519"
proof -
  have "field_decode peer = field_decode (take 32 peer)"
    unfolding field_decode_def Let_def by (intro arg_cong [of _ _ field_normalize] arg_cong2 [of _ _ _ _ "\<lambda>v w. v[15 := w ! 15 AND 0x7fff]"] map_cong)
      simp_all
  then show ?thesis using field_decode_spec_32 [of "take 32 peer"] assms by simp
qed

lemma ladder_result_exact:
  assumes "32 \<le> length key" "32 \<le> length peer" "x25519_exact key peer"
  shows "int (le_num (ladder_result key peer)) = x25519_function (le_num (take 32 key)) (le_num (take 32 peer))"
proof -
  let ?x1 = "field_decode peer"
  let ?k = "x25519_scalar (le_num (take 32 key))"
  let ?s = "ladder_loop (clamp_scalar key) ?x1 (ladder_start ?x1) 255"
  have u: "int (le_num (take 32 peer) mod 2 ^ 255) mod p25519 = fe ?x1" using field_decode_spec [OF assms(2)] by simp
  have "ladder_rel (ladder_start ?x1) (1, 0) (fe ?x1, 1)" by (simp add: ladder_rel_def ladder_start_def)
  then obtain R where r: "ladder_rel ?s (mont_ladder ?k (fe ?x1) 255 (1, 0) (fe ?x1, 1)) R"
    using ladder_loop_rel [OF field_decode_elem, of 255 "clamp_scalar key" "ladder_start ?x1" peer "(1, 0)" "(fe ?x1, 1)"]
      clamp_scalar_spec [OF assms(1)] ladder_start_wf assms(3) by (auto simp: x25519_exact_def)
  define w where "w = swap_points ?s (lad_swap ?s)"
  have wf: "wf_ladder ?s" by (rule ladder_loop_wf [OF ladder_start_wf elem_length [OF field_decode_elem]])
  have sw: "lad_swap ?s = 0 \<or> lad_swap ?s = 1" using wf by (simp add: wf_ladder_def)
  have ww: "wf_ladder w" unfolding w_def by (rule swap_points_wf [OF wf sw])
  have w: "mont_ladder ?k (fe ?x1) 255 (1, 0) (fe ?x1, 1) = (fe (lad_x2 w), fe (lad_z2 w))"
    using r sw swap_points_spec [OF wf sw] unfolding w_def ladder_rel_def by (auto split: if_splits)
  have e: "field_elem (lad_x2 w)" "field_elem (lad_z2 w)" using ww by (auto simp: wf_ladder_def)
  note inv = field_inverse_spec [OF elem_operand [OF e(2)]]
  have "fe (field_inverse (lad_z2 w)) = fe (lad_z2 w) ^ (2 ^ 255 - 21) mod p25519"
  proof -
    have e21: "2 ^ 255 - 21 = field_prime - 2" by (simp add: field_prime_def)
    show ?thesis unfolding e21 fe_int inv(2) p25519_prime by (simp only: zmod_int of_nat_power power_mod)
  qed
  then have "fe (field_multiply (lad_x2 w) (field_inverse (lad_z2 w)))
      = fe (lad_x2 w) * fe (lad_z2 w) ^ (2 ^ 255 - 21) mod p25519"
    using fe_multiply [OF elem_operand [OF e(1)] elem_operand [OF inv(1)]] by (simp only: mod_mult_right_eq)
  moreover have "int (le_num (ladder_result key peer)) = fe (field_multiply (lad_x2 w) (field_inverse (lad_z2 w)))"
    unfolding ladder_result_def Let_def ladder_start_def [symmetric] w_def [symmetric]
    using field_encode_canonical [OF field_multiply_elem] by (simp add: fe_int)
  ultimately show ?thesis by (simp only: x25519_function_def Let_def u w prod.case)
qed

text \<open>The number determines the bytes.\<close>

lemma le_num_inj: "length a = length b \<Longrightarrow> le_num a = le_num b \<Longrightarrow> a = b"
proof (induction a b rule: list_induct2)
  case (Cons x xs y ys)
  have "unat x < 256" "unat y < 256"
    using unsigned_less [of x, where ?'a = nat] unsigned_less [of y, where ?'a = nat] by simp_all
  moreover have "unat x + 256 * le_num xs = unat y + 256 * le_num ys" using Cons.prems by simp
  ultimately have "unat x = unat y" "le_num xs = le_num ys"
    by (metis mod_less mod_mult_self2, metis add.commute div_less div_mult_self4 add_0 zero_neq_numeral)
  then show ?case using Cons.IH by (simp add: word_unat_eq_iff)
qed simp

lemma ladder_result_bytes:
  "ladder_result key peer = le_bytes 32 (le_num (ladder_result key peer))"
proof (rule le_num_inj)
  have l: "length (ladder_result key peer) = 32" using ladder_result_canonical by blast
  then show "length (ladder_result key peer) = length (le_bytes 32 (le_num (ladder_result key peer)))" by simp
  show "le_num (ladder_result key peer) = le_num (le_bytes 32 (le_num (ladder_result key peer)))"
    using le_num_less [of "ladder_result key peer"] l by (simp add: le_num_le_bytes)
qed

subsection \<open>A run that is exact\<close>

text \<open>
  The peer key zero, the point of order two: after the first step the state holds residues 0 and 1 only.
\<close>

definition small_residues :: "ladder \<Rightarrow> bool" where
  "small_residues s \<longleftrightarrow> fe (lad_z2 s) = 0 \<and> fe (lad_z3 s) = 0
     \<and> (fe (lad_x2 s) = 0 \<or> fe (lad_x2 s) = 1) \<and> (fe (lad_x3 s) = 0 \<or> fe (lad_x3 s) = 1)
     \<and> (fe (lad_x2 s) = 0 \<or> fe (lad_x3 s) = 0)"

lemma subtract_exact_cases:
  assumes "field_elem r" "fe r = 0 \<or> 38 \<le> fe r \<or> fe r = 1 \<and> fe l \<noteq> 0"
  shows "subtract_exact l r"
proof -
  have r: "lv r < field_prime + 38" using assms(1) by (simp add: field_elem_def)
  have p: "38 < field_prime" by (simp add: field_prime_def)
  have v: "fe r = int (if lv r < field_prime then lv r else lv r - field_prime)"
    using r p by (simp add: fe_int le_mod_geq)
  have l: "fe l \<noteq> 0 \<Longrightarrow> 0 < lv l" by (cases "lv l = 0") (simp_all add: fe_def)
  have "lv r \<le> lv l + field_prime" using assms(2) l v r by (auto split: if_splits)
  then show ?thesis by (simp add: subtract_exact_def field_prime_def)
qed

lemma field_square_elem: "field_elem (field_square v)"
  by (simp add: field_square_def field_multiply_elem)

lemma small_residues_step:
  assumes wf: "wf_ladder s" and x1: "field_elem x1" "fe x1 = 0" and b: "b = 0 \<or> b = 1" and sm: "small_residues s"
  shows "step_exact b s" "small_residues (ladder_step x1 b s)"
proof -
  define w where "w = swap_points s (lad_swap s XOR b)"
  have sw: "lad_swap s XOR b = 0 \<or> lad_swap s XOR b = 1" using wf b by (auto simp: wf_ladder_def)
  have ww: "wf_ladder w" unfolding w_def by (rule swap_points_wf [OF wf sw])
  have w: "small_residues w" using sm swap_points_spec [OF wf sw] unfolding w_def small_residues_def by auto
  have e: "field_elem (lad_x2 w)" "field_elem (lad_z2 w)" "field_elem (lad_x3 w)" "field_elem (lad_z3 w)"
    using ww by (auto simp: wf_ladder_def)
  have r: "fe (lad_z2 w) = 0" "fe (lad_z3 w) = 0" "fe (lad_x2 w) = 0 \<or> fe (lad_x2 w) = 1" "fe (lad_x3 w) = 0 \<or> fe (lad_x3 w) = 1"
    "fe (lad_x2 w) = 0 \<or> fe (lad_x3 w) = 0" using w by (auto simp: small_residues_def)
  have x: "subtract_exact (lad_x2 w) (lad_z2 w)" "subtract_exact (lad_x3 w) (lad_z3 w)"
    using subtract_exact_cases e r by blast+
  have el: "field_elem (field_add (lad_x2 w) (lad_z2 w))" "field_elem (field_subtract (lad_x2 w) (lad_z2 w))"
    "field_elem (field_add (lad_x3 w) (lad_z3 w))"
    using e by (simp_all add: field_ops_elem elem_length)
  have one: "(1 :: int) mod p25519 = 1" by (simp add: p25519_def)
  have f: "fe (field_square (field_add (lad_x2 w) (lad_z2 w))) = fe (lad_x2 w)"
    "fe (field_square (field_subtract (lad_x2 w) (lad_z2 w))) = fe (lad_x2 w)"
    "fe (field_multiply (field_add (lad_x3 w) (lad_z3 w)) (field_subtract (lad_x2 w) (lad_z2 w))) = 0"
  proof -
    have 1: "fe (field_add (lad_x2 w) (lad_z2 w)) = fe (lad_x2 w)" "fe (field_subtract (lad_x2 w) (lad_z2 w)) = fe (lad_x2 w)"
      "fe (field_add (lad_x3 w) (lad_z3 w)) = fe (lad_x3 w)"
      using r(1,2) e x by (simp_all add: fe_add fe_subtract elem_length)
    have 2: "(fe (lad_x2 w))\<^sup>2 mod p25519 = fe (lad_x2 w)" using r(3) one by fastforce
    show "fe (field_square (field_add (lad_x2 w) (lad_z2 w))) = fe (lad_x2 w)"
      "fe (field_square (field_subtract (lad_x2 w) (lad_z2 w))) = fe (lad_x2 w)"
      using el by (simp_all add: fe_square elem_operand 1 2)
    show "fe (field_multiply (field_add (lad_x3 w) (lad_z3 w)) (field_subtract (lad_x2 w) (lad_z2 w))) = 0"
      using el r(5) by (auto simp: fe_multiply elem_operand 1)
  qed
  show ex: "step_exact b s"
    unfolding step_exact_def Let_def w_def [symmetric] using x f r(3)
    by (auto intro!: subtract_exact_cases simp: field_multiply_elem field_square_elem)
  have "mont_double (fe (lad_x2 w), fe (lad_z2 w)) = (fe (lad_x2 w), 0)"
    using r(1,3) one by (auto simp: Let_def)
  moreover have "mont_add (fe x1) (fe (lad_x2 w), fe (lad_z2 w)) (fe (lad_x3 w), fe (lad_z3 w)) = (0, 0)"
    using r(1,2,5) x1(2) by (auto simp: Let_def)
  ultimately show "small_residues (ladder_step x1 b s)"
    using ladder_step_values [OF wf x1(1) b ex, folded w_def] r(3) by (simp add: small_residues_def)
qed

lemma small_residues_loop:
  assumes "field_elem x1" "fe x1 = 0"
  shows "wf_ladder s \<Longrightarrow> small_residues s \<Longrightarrow> ladder_exact scalar x1 s n"
proof (induction n arbitrary: s)
  case (Suc n)
  note st = small_residues_step [OF Suc.prems(1) assms scalar_bit_cases Suc.prems(2)]
  show ?case using st Suc.IH [OF ladder_step_wf [OF Suc.prems(1) elem_length [OF assms(1)] scalar_bit_cases]] by simp
qed simp

lemma first_step_small:
  assumes "field_elem x1" "fe x1 = 0"
  shows "step_exact 1 (ladder_start x1)" "small_residues (ladder_step x1 1 (ladder_start x1))"
proof -
  have wf: "wf_ladder (ladder_start x1)" using assms by (simp add: ladder_start_def wf_ladder_def field_zero_one_elem)
  define w where "w = swap_points (ladder_start x1) 1"
  have lad_start_swap: "lad_swap (ladder_start x1) = 0" by (simp add: ladder_start_def)
  have w: "lad_x2 w = x1" "lad_z2 w = field_one" "lad_x3 w = field_one" "lad_z3 w = field_zero"
    using swap_points_spec [OF wf, of 1] by (simp_all add: w_def ladder_start_def)
  note el = field_zero_one_elem assms(1)
  have x: "subtract_exact x1 field_one" "subtract_exact field_one field_zero"
    using el subtract_exact_cases [of field_zero field_one] by (simp_all add: subtract_exact_def [of x1] field_one_spec)
  have e: "field_elem (field_add x1 field_one)" "field_elem (field_subtract x1 field_one)"
    "field_elem (field_add field_one field_zero)"
    using el by (simp_all add: field_ops_elem elem_length)
  have one: "(1 :: int) mod p25519 = 1" "(- 1 :: int) mod p25519 = 2 ^ 255 - 20"
    by (simp_all add: p25519_def)
  have f: "fe (field_square (field_add x1 field_one)) = 1" "fe (field_square (field_subtract x1 field_one)) = 1"
    "fe (field_multiply (field_add field_one field_zero) (field_subtract x1 field_one)) = 2 ^ 255 - 20"
  proof -
    have 1: "fe (field_add x1 field_one) = 1" "fe (field_subtract x1 field_one) = - 1 mod p25519"
      "fe (field_add field_one field_zero) = 1"
      using el x assms(2) by (simp_all add: fe_add fe_subtract elem_length one(1))
    show "fe (field_square (field_add x1 field_one)) = 1" "fe (field_square (field_subtract x1 field_one)) = 1"
      using e by (simp_all only: fe_square elem_operand 1 power_mod) (simp_all add: one(1))
    show "fe (field_multiply (field_add field_one field_zero) (field_subtract x1 field_one)) = 2 ^ 255 - 20"
      using e by (simp only: fe_multiply elem_operand 1 mult_1 mod_mod_trivial one(2)) (simp add: p25519_def)
  qed
  show ex: "step_exact 1 (ladder_start x1)"
    unfolding step_exact_def Let_def using x f
    by (auto simp: w [unfolded w_def] lad_start_swap field_multiply_elem field_square_elem intro!: subtract_exact_cases)
  show "small_residues (ladder_step x1 1 (ladder_start x1))"
    using ladder_step_values [OF wf assms(1) _ ex] assms(2)
    by (simp add: small_residues_def w [unfolded w_def] lad_start_swap one)
qed

text \<open>With the peer key zero the reference gives zero: both points have a zero second coordinate.\<close>

lemma mont_ladder_zero: "snd P = 0 \<Longrightarrow> snd Q = 0 \<Longrightarrow> snd (mont_ladder k 0 n P Q) = 0"
proof (induction n arbitrary: P Q)
  case (Suc n)
  have "snd (mont_add 0 P Q) = 0" "snd (mont_double P) = 0" "snd (mont_double Q) = 0"
    using Suc.prems by (cases P; cases Q; simp add: Let_def)+
  then show ?case using Suc.IH by simp
qed simp

lemma x25519_function_zero: "x25519_function k 0 = 0"
proof -
  have e: "mont_ladder j 0 255 (1, 0) (0, 1) = (if odd (j div 2 ^ 254) then mont_ladder j 0 254 (mont_add 0 (1, 0) (0, 1)) (mont_double (0, 1))
      else mont_ladder j 0 254 (mont_double (1, 0)) (mont_add 0 (1, 0) (0, 1)))" for j
    using mont_ladder.simps(2) [of j 0 254] by simp
  have "snd (mont_ladder j 0 255 (1, 0) (0, 1)) = 0" for j
    unfolding e using mont_ladder_zero [of _ _ j 254] by simp
  then show ?thesis by (simp add: x25519_function_def Let_def case_prod_beta)
qed

subsection \<open>Main property\<close>

text \<open>
  C30: The shared secret is the X25519 function of the two keys: the low and high bits of the private key are
  clamped, the peer's key is read modulo \<open>2 ^ 255\<close>, the Montgomery ladder is run over the integers
  modulo \<open>2 ^ 255 - 19\<close>, and the affine coordinate is written as 32 little-endian bytes; the
  call reports a permission error exactly when it is zero. This holds for every run in which no subtraction of
  the ladder meets operands more than the prime apart, the case in which \<open>field_subtract\<close> is off by 38. A
  null argument is refused and nothing is written, and the public key is the secret shared with the base point 9.
\<close>

theorem x25519_shared_secret_exact:
  assumes "32 \<le> length key" "32 \<le> length peer" "x25519_exact key peer"
  shows "crypto_x25519_shared_secret (Some key) (Some peer) (Some out)
      = (if x25519_function (le_num (take 32 key)) (le_num (take 32 peer)) = 0
         then FT_ERR_PERMISSION_DENIED else FT_ERR_SUCCESS,
         Some (le_bytes 32 (nat (x25519_function (le_num (take 32 key)) (le_num (take 32 peer)))) @ drop 32 out))
    \<and> crypto_x25519_shared_secret None p q = (FT_ERR_INVALID_ARGUMENT, q)
    \<and> crypto_x25519_shared_secret k None q = (FT_ERR_INVALID_ARGUMENT, q)
    \<and> crypto_x25519_shared_secret k p None = (FT_ERR_INVALID_ARGUMENT, None)
    \<and> crypto_x25519_public_key (Some key) (Some out)
      = crypto_x25519_shared_secret (Some key) (Some (9 # replicate 31 0)) (Some out)"
proof -
  let ?X = "x25519_function (le_num (take 32 key)) (le_num (take 32 peer))"
  have r: "int (le_num (ladder_result key peer)) = ?X" using ladder_result_exact [OF assms] .
  then have z: "le_num (ladder_result key peer) = nat ?X" "le_num (ladder_result key peer) = 0 \<longleftrightarrow> ?X = 0" by linarith+
  have "scalar_multiply (Some key) (Some peer) (Some out)
      = (if ?X = 0 then FT_ERR_PERMISSION_DENIED else FT_ERR_SUCCESS, Some (le_bytes 32 (nat ?X) @ drop 32 out))"
    unfolding scalar_multiply_spec using z ladder_result_bytes [of key peer] by simp
  moreover have "(replicate 32 (0 :: u8))[0 := 9] = 9 # replicate 31 0" by (simp add: numeral_eq_Suc)
  ultimately show ?thesis
    by (simp add: crypto_x25519_shared_secret_def crypto_x25519_public_key_def scalar_multiply_def
        split: option.splits)
qed

lemma zero_keys_exact: "x25519_exact (replicate 32 0) (replicate 32 0)"
proof -
  let ?k = "replicate 32 (0 :: u8)"
  have d: "fe (field_decode ?k) = 0" using field_decode_spec [of ?k] by simp
  have c: "length (clamp_scalar ?k) = 32" "le_num (clamp_scalar ?k) = 2 ^ 254"
    using clamp_scalar_spec [of ?k] by (simp_all add: x25519_scalar_def)
  have "scalar_bit (clamp_scalar ?k) 254 \<noteq> 0" using scalar_bit_iff [of 254 "clamp_scalar ?k"] c by (simp add: odd_bit)
  then have b: "scalar_bit (clamp_scalar ?k) 254 = 1" using scalar_bit_cases by blast
  have wf: "wf_ladder (ladder_step (field_decode ?k) 1 (ladder_start (field_decode ?k)))"
    using ladder_step_wf [OF ladder_start_wf elem_length [OF field_decode_elem]] by blast
  have "ladder_exact (clamp_scalar ?k) (field_decode ?k) (ladder_start (field_decode ?k)) (Suc 254)"
    unfolding ladder_exact.simps(2) b
    using first_step_small [OF field_decode_elem d] small_residues_loop [OF field_decode_elem d wf] by blast
  then show ?thesis by (simp add: x25519_exact_def)
qed

theorem x25519_shared_secret_exact_witness:
  "crypto_x25519_shared_secret (Some (replicate 32 0)) (Some (replicate 32 0)) (Some (replicate 32 7))
     = (FT_ERR_PERMISSION_DENIED, Some (replicate 32 0))"
proof -
  have z: "le_bytes n 0 = replicate n 0" for n by (induction n) simp_all
  show ?thesis
    using x25519_shared_secret_exact [of "replicate 32 0" "replicate 32 0" "replicate 32 7"] zero_keys_exact
    by (simp add: x25519_function_zero z)
qed

end
