(* ===== verification/Big_Number.thy ===== *)
theory Big_Number
  imports Basic_Memory Libft_Errno "HOL-Library.Monad_Syntax"
begin

text \<open>
  \<open>ft_big_number\<close> of \<^verbatim>\<open>src/Modules/CPP_class/cpp_class_big_number.cpp\<close>: a decimal integer of
  arbitrary size. The object is a record; \<open>_digits\<close> is the block behind the pointer, as long
  as the capacity, with the characters of the number (most significant first) and their
  terminator at its start. Every operation is in the option monad: \<^term>\<open>None\<close> is a call that
  does not return normally, because the lifecycle check aborts, the block is accessed
  outside its bounds or through a null pointer, or a loop does not end. The second
  component of a result is the code left in the thread's \<open>_last_error\<close>; operations that
  read it take it as the argument \<open>last_error\<close>. Sizes are natural numbers: they are bounded by
  the memory of the machine, and the code only compares them with \<open>ft_size_t\<close> limits.
\<close>

subsection \<open>State\<close>

record big_number =
  bn_digits :: ptr
  bn_size :: nat
  bn_capacity :: nat
  bn_is_negative :: bool
  bn_mutex :: bool
  bn_state :: class_state
  bn_operation_error :: ft_err

text \<open>
  What the class needs from the rest of the library: \<open>cma_malloc\<close>, \<open>cma_realloc\<close>, whether
  \<open>new (std::nothrow)\<close> grants an object, the results of locking, creating and
  destroying a mutex, and whether an \<open>ft_string\<close> of a given length can take one more character.
\<close>

record number_env =
  ne_malloc :: alloc
  ne_realloc :: "ptr \<Rightarrow> nat \<Rightarrow> bytes option"
  ne_new :: bool
  ne_lock :: ft_err
  ne_mutex_init :: ft_err
  ne_mutex_destroy :: ft_err
  ne_append :: "nat \<Rightarrow> bool"

text \<open>The characters of the number.\<close>

definition bn_text :: "big_number \<Rightarrow> bytes" where
  "bn_text b = span_bytes (bn_digits b) (bn_size b)"

text \<open>Writing one character of the block.\<close>

definition bn_put :: "big_number \<Rightarrow> nat \<Rightarrow> u8 \<Rightarrow> big_number option" where
  "bn_put b i c =
     (case bn_digits b of
        None \<Rightarrow> None
      | Some d \<Rightarrow> if i < length d then Some (b\<lparr>bn_digits := Some (d[i := c])\<rparr>) else None)"

subsection \<open>Digit tables\<close>

definition g_big_number_digit_to_value_table :: "(u8 \<times> int) list" where
  "g_big_number_digit_to_value_table =
     [(48, 0), (49, 1), (50, 2), (51, 3), (52, 4), (53, 5), (54, 6), (55, 7), (56, 8), (57, 9),
      (65, 10), (66, 11), (67, 12), (68, 13), (69, 14), (70, 15),
      (97, 10), (98, 11), (99, 12), (100, 13), (101, 14), (102, 15), (0, -1)]"

definition g_big_number_value_to_digit_table :: bytes where
  "g_big_number_value_to_digit_table =
     [48, 49, 50, 51, 52, 53, 54, 55, 56, 57, 65, 66, 67, 68, 69, 70, 0]"

fun digit_value_loop :: "(u8 \<times> int) list \<Rightarrow> u8 \<Rightarrow> int" where
  "digit_value_loop [] digit = -1"
| "digit_value_loop ((symbol, v) # rest) digit =
     (if symbol = 0 then -1 else if symbol = digit then v else digit_value_loop rest digit)"

definition ft_big_number_digit_value :: "u8 \<Rightarrow> int" where
  "ft_big_number_digit_value digit = digit_value_loop g_big_number_digit_to_value_table digit"

definition ft_big_number_digit_symbol :: "int \<Rightarrow> u8" where
  "ft_big_number_digit_symbol v =
     (if v < 0 \<or> v > 15 then 0 else g_big_number_value_to_digit_table ! nat v)"

subsection \<open>Locks\<close>

text \<open>
  \<open>lock_pair\<close> on two different objects: attempt \<open>i\<close> has a result for the object at the lower
  address and one for the object at the higher address. The result is the code together with
  the locks that are held on return; a pair that is always busy is never obtained.
\<close>

partial_function (option) lock_pair_loop ::
  "(nat \<Rightarrow> ft_err \<times> ft_err) \<Rightarrow> nat \<Rightarrow> (ft_err \<times> bool \<times> bool) option" where
  "lock_pair_loop attempts i =
     (let lower_error = fst (attempts i); upper_error = snd (attempts i)
      in if lower_error \<noteq> FT_ERR_SUCCESS then Some (lower_error, False, False)
         else if upper_error = FT_ERR_SUCCESS then Some (FT_ERR_SUCCESS, True, True)
         else if upper_error \<noteq> FT_ERR_MUTEX_ALREADY_LOCKED then Some (upper_error, False, False)
         else lock_pair_loop attempts (i + 1))"

declare lock_pair_loop.simps [code]

text \<open>
  In the operations below a lock yields one code; an object without a mutex is always locked.
\<close>

definition bn_lock :: "number_env \<Rightarrow> big_number \<Rightarrow> ft_err" where
  "bn_lock env b = (if bn_mutex b then ne_lock env else FT_ERR_SUCCESS)"

definition bn_lock_pair :: "number_env \<Rightarrow> big_number \<Rightarrow> big_number \<Rightarrow> ft_err" where
  "bn_lock_pair env a b = (if bn_mutex a \<or> bn_mutex b then ne_lock env else FT_ERR_SUCCESS)"

definition bn_enable_thread_safety ::
  "number_env \<Rightarrow> big_number \<Rightarrow> (big_number \<times> ft_err) option" where
  "bn_enable_thread_safety env b =
     (if bn_state b \<noteq> Initialised then None
      else if bn_mutex b then Some (b, FT_ERR_SUCCESS)
      else if \<not> ne_new env then Some (b, FT_ERR_NO_MEMORY)
      else if ne_mutex_init env \<noteq> FT_ERR_SUCCESS then Some (b, ne_mutex_init env)
      else Some (b\<lparr>bn_mutex := True\<rparr>, FT_ERR_SUCCESS))"

definition bn_disable_thread_safety ::
  "number_env \<Rightarrow> big_number \<Rightarrow> (big_number \<times> ft_err) option" where
  "bn_disable_thread_safety env b =
     (if bn_state b \<noteq> Initialised then None
      else if \<not> bn_mutex b then Some (b, FT_ERR_SUCCESS)
      else Some (b\<lparr>bn_mutex := False\<rparr>, ne_mutex_destroy env))"

definition bn_is_thread_safe :: "big_number \<Rightarrow> (bool \<times> ft_err) option" where
  "bn_is_thread_safe b =
     (if bn_state b \<noteq> Initialised then None else Some (bn_mutex b, FT_ERR_SUCCESS))"

text \<open>
  The error accessors; \<open>last_state\<close> is the lifecycle state the thread recorded last.
\<close>

definition bn_get_error :: "class_state \<Rightarrow> ft_err \<Rightarrow> ft_err option" where
  "bn_get_error last_state last_error = (if last_state = Uninitialised then None else Some last_error)"

definition bn_get_error_str ::
  "(ft_err \<Rightarrow> string option) \<Rightarrow> class_state \<Rightarrow> ft_err \<Rightarrow> string option" where
  "bn_get_error_str cmp_system_strerror last_state last_error =
     (if last_state = Uninitialised then None
      else let error_string = ft_strerror cmp_system_strerror last_error
           in Some (if error_string = [] then ''unknown error'' else error_string))"

subsection \<open>The block\<close>

definition bn_reserve :: "number_env \<Rightarrow> big_number \<Rightarrow> nat \<Rightarrow> big_number" where
  "bn_reserve env b new_capacity =
     (if new_capacity \<le> bn_capacity b then b
      else let n1 = (if new_capacity < bn_size b + 1 then bn_size b + 1 else new_capacity);
               n2 = (if n1 < 16 then 16 else n1)
           in case (case bn_digits b of
                      Some d \<Rightarrow> ne_realloc env (Some d) n2
                    | None \<Rightarrow> ne_malloc env n2) of
                None \<Rightarrow> b
              | Some new_digits \<Rightarrow> b\<lparr>bn_digits := Some new_digits, bn_capacity := n2\<rparr>)"

definition bn_shrink_capacity :: "number_env \<Rightarrow> big_number \<Rightarrow> big_number" where
  "bn_shrink_capacity env b =
     (case bn_digits b of
        None \<Rightarrow> b
      | Some d \<Rightarrow>
          if bn_size b = 0 then b\<lparr>bn_digits := None, bn_capacity := 0\<rparr>
          else let desired = (if bn_size b + 1 < 16 then 16 else bn_size b + 1);
                   threshold = (if desired \<le> FT_SYSTEM_SIZE_MAX div 2 then desired * 2
                                else FT_SYSTEM_SIZE_MAX)
               in if bn_capacity b \<le> threshold then b
                  else case ne_realloc env (Some d) desired of
                         None \<Rightarrow> b
                       | Some new_digits \<Rightarrow>
                           b\<lparr>bn_digits := Some new_digits, bn_capacity := desired\<rparr>)"

definition clear_unlocked :: "number_env \<Rightarrow> big_number \<Rightarrow> big_number option" where
  "clear_unlocked env b =
     do {
       b1 \<leftarrow> (if bn_digits b = None then Some (b\<lparr>bn_size := 0\<rparr>)
              else bn_put (b\<lparr>bn_size := 0\<rparr>) 0 0);
       Some (bn_shrink_capacity env (b1\<lparr>bn_is_negative := False\<rparr>))
     }"

text \<open>
  \<open>append_digit_unlocked\<close>: a character that is not a digit is ignored. The terminator is
  written behind the new digit, so the block needs two more bytes than the digits kept.
\<close>

definition append_digit_unlocked :: "number_env \<Rightarrow> big_number \<Rightarrow> u8 \<Rightarrow> big_number option" where
  "append_digit_unlocked env b digit =
     (if digit < 48 \<or> digit > 57 then Some b
      else
        let required = bn_size b + 2;
            b1 = (if required > bn_capacity b \<or> bn_digits b = None
                  then bn_reserve env b
                         (if bn_capacity b < required then required else bn_capacity b)
                  else b);
            b2 = (if bn_digits b1 = None then bn_reserve env b1 required else b1)
        in case bn_digits b2 of
             None \<Rightarrow> Some b2
           | Some d \<Rightarrow>
               let b3 = (if bn_size b2 = 1 \<and> d ! 0 = 48 then b2\<lparr>bn_size := 0\<rparr> else b2)
               in do {
                    b4 \<leftarrow> bn_put b3 (bn_size b3) digit;
                    bn_put (b4\<lparr>bn_size := bn_size b4 + 1\<rparr>) (bn_size b4 + 1) 0
                  })"

text \<open>The loop over a C string; a block without terminator is read past its end.\<close>

fun append_loop :: "number_env \<Rightarrow> big_number \<Rightarrow> bytes \<Rightarrow> big_number option" where
  "append_loop env b [] = None"
| "append_loop env b (c # cs) =
     (if c = 0 then Some b
      else do { b1 \<leftarrow> append_digit_unlocked env b c; append_loop env b1 cs })"

definition append_unlocked :: "number_env \<Rightarrow> big_number \<Rightarrow> ptr \<Rightarrow> big_number option" where
  "append_unlocked env b digits =
     (case digits of None \<Rightarrow> Some b | Some cs \<Rightarrow> append_loop env b cs)"

text \<open>The digits of a machine integer, least significant first, as the local buffer holds them.\<close>

fun unsigned_digits :: "nat \<Rightarrow> bytes" where
  "unsigned_digits v = (if v > 0 then word_of_nat (48 + v mod 10) # unsigned_digits (v div 10) else [])"

declare unsigned_digits.simps [simp del]

fun append_digits :: "number_env \<Rightarrow> big_number \<Rightarrow> bytes \<Rightarrow> big_number option" where
  "append_digits env b [] = Some b"
| "append_digits env b (c # cs) =
     do { b1 \<leftarrow> append_digit_unlocked env b c; append_digits env b1 cs }"

definition append_unsigned_unlocked ::
  "number_env \<Rightarrow> big_number \<Rightarrow> u64 \<Rightarrow> big_number option" where
  "append_unsigned_unlocked env b v =
     (let digit_buffer = (if v = 0 then [48] else unsigned_digits (unat v))
      in append_digits env b (rev digit_buffer))"

fun leading_zeros :: "bytes \<Rightarrow> nat" where
  "leading_zeros (c # c' # cs) = (if c = 48 then Suc (leading_zeros (c' # cs)) else 0)"
| "leading_zeros cs = 0"

definition trim_leading_zeros_unlocked :: "number_env \<Rightarrow> big_number \<Rightarrow> big_number option" where
  "trim_leading_zeros_unlocked env b =
     (case bn_digits b of
        None \<Rightarrow> Some b
      | Some d \<Rightarrow>
          if bn_size b = 0 then Some b
          else let leading_index = leading_zeros (bn_text b);
                   new_size = bn_size b - leading_index
               in if leading_index = 0 then Some b
                  else do {
                    b1 \<leftarrow> bn_put (b\<lparr>bn_digits := Some (write_block d 0
                                      (take new_size (drop leading_index d))),
                                    bn_size := new_size\<rparr>) new_size 0;
                    Some (bn_shrink_capacity env b1)
                  })"

definition reduce_to_unlocked :: "number_env \<Rightarrow> big_number \<Rightarrow> nat \<Rightarrow> big_number option" where
  "reduce_to_unlocked env b new_size =
     (if new_size \<ge> bn_size b then Some b
      else let b1 = b\<lparr>bn_size := new_size\<rparr>
           in do {
                b2 \<leftarrow> (if bn_digits b1 = None then Some b1 else bn_put b1 new_size 0);
                Some (bn_shrink_capacity env b2)
              })"

subsection \<open>Lifecycle\<close>

definition bn_constructor :: big_number where
  "bn_constructor = \<lparr>bn_digits = None, bn_size = 0, bn_capacity = 0, bn_is_negative = False,
     bn_mutex = False, bn_state = Uninitialised, bn_operation_error = FT_ERR_SUCCESS\<rparr>"

text \<open>The assignments that every initialisation and \<open>destroy\<close> makes.\<close>

definition bn_reset :: "class_state \<Rightarrow> big_number \<Rightarrow> big_number" where
  "bn_reset s b = b\<lparr>bn_digits := None, bn_size := 0, bn_capacity := 0, bn_is_negative := False,
     bn_operation_error := FT_ERR_SUCCESS, bn_state := s\<rparr>"

definition bn_initialize :: "big_number \<Rightarrow> (big_number \<times> ft_err) option" where
  "bn_initialize b =
     (if bn_state b = Initialised then None
      else Some (bn_reset Initialised b, FT_ERR_SUCCESS))"

definition bn_destroy :: "number_env \<Rightarrow> big_number \<Rightarrow> big_number \<times> ft_err" where
  "bn_destroy env b =
     (if bn_state b \<noteq> Initialised then (b\<lparr>bn_state := Destroyed\<rparr>, FT_ERR_SUCCESS)
      else let (b1, disable_error) =
                 (if bn_mutex b then (b\<lparr>bn_mutex := False\<rparr>, ne_mutex_destroy env)
                  else (b, FT_ERR_SUCCESS))
           in (bn_reset Destroyed b1, disable_error))"

text \<open>
  The destructor of a local variable: an initialised number is destroyed, which leaves the
  result of \<open>destroy\<close> in \<open>_last_error\<close>.
\<close>

definition bn_leave :: "number_env \<Rightarrow> big_number \<Rightarrow> ft_err \<Rightarrow> ft_err" where
  "bn_leave env b last_error = (if bn_state b = Initialised then snd (bn_destroy env b) else last_error)"

definition bn_destructor :: "number_env \<Rightarrow> big_number \<Rightarrow> big_number" where
  "bn_destructor env b =
     (if bn_state b \<noteq> Initialised
      then (if bn_state b = Uninitialised then b\<lparr>bn_state := Destroyed\<rparr> else b)
      else fst (bn_destroy env b))"

definition bn_copy_assign ::
  "number_env \<Rightarrow> bool \<Rightarrow> big_number \<Rightarrow> big_number \<Rightarrow> (big_number \<times> ft_err) option" where
  "bn_copy_assign env same b other =
     (if same then Some (b, FT_ERR_SUCCESS)
      else if bn_lock_pair env b other \<noteq> FT_ERR_SUCCESS then Some (b, bn_lock_pair env b other)
      else case (if bn_capacity other > 0 then bn_digits other else None) of
        None \<Rightarrow> Some (b\<lparr>bn_digits := None, bn_size := bn_size other,
                      bn_capacity := bn_capacity other, bn_is_negative := bn_is_negative other\<rparr>,
                    FT_ERR_SUCCESS)
      | Some d \<Rightarrow>
          (case ne_malloc env (bn_capacity other) of
             None \<Rightarrow> Some (b, FT_ERR_NO_MEMORY)
           | Some new_digits \<Rightarrow>
               if bn_size other + 1 \<le> length d \<and> bn_size other + 1 \<le> length new_digits
               then Some (b\<lparr>bn_digits := Some (write_block (replicate (length new_digits) 0) 0
                                                (take (bn_size other + 1) d)),
                            bn_size := bn_size other, bn_capacity := bn_capacity other,
                            bn_is_negative := bn_is_negative other\<rparr>, FT_ERR_SUCCESS)
               else None))"

text \<open>
  \<open>initialize(const ft_big_number &)\<close> ignores the outcome of the assignment it makes.
\<close>

definition bn_initialize_copy ::
  "number_env \<Rightarrow> bool \<Rightarrow> big_number \<Rightarrow> big_number \<Rightarrow> (big_number \<times> ft_err) option" where
  "bn_initialize_copy env same b other =
     (if bn_state other = Uninitialised then None
      else
        let (b1, destroy_error) =
              (if bn_state b = Initialised \<and> (bn_state other = Destroyed \<or> \<not> same)
               then bn_destroy env b else (b, FT_ERR_SUCCESS))
        in if bn_state other = Destroyed
           then if destroy_error \<noteq> FT_ERR_SUCCESS then Some (b1, destroy_error)
                else Some (bn_reset Destroyed b1, FT_ERR_SUCCESS)
           else if same then Some (b, FT_ERR_SUCCESS)
           else if destroy_error \<noteq> FT_ERR_SUCCESS then Some (b1, destroy_error)
           else do {
             (b2, assign_error) \<leftarrow> bn_copy_assign env False (bn_reset Initialised b1) other;
             Some (b2, FT_ERR_SUCCESS)
           })"

text \<open>
  \<open>move\<close>: the block and the mutex change owner, the source is left destroyed.
\<close>

definition bn_move ::
  "number_env \<Rightarrow> bool \<Rightarrow> big_number \<Rightarrow> big_number \<Rightarrow> (big_number \<times> big_number \<times> ft_err) option" where
  "bn_move env same b other =
     (if bn_state other = Uninitialised then None
      else if same then Some (b, other, FT_ERR_SUCCESS)
      else if bn_state other = Destroyed
      then let (b1, destroy_error) =
                 (if bn_state b = Initialised then bn_destroy env b else (b, FT_ERR_SUCCESS))
           in if destroy_error \<noteq> FT_ERR_SUCCESS then Some (b1, other, destroy_error)
              else Some (bn_reset Destroyed b1, other, FT_ERR_SUCCESS)
      else
        let b1 = (if bn_state b \<noteq> Initialised then bn_reset Initialised b else b)
        in if bn_lock_pair env b1 other \<noteq> FT_ERR_SUCCESS
           then Some (b1, other, bn_lock_pair env b1 other)
           else Some (b1\<lparr>bn_digits := bn_digits other, bn_size := bn_size other,
                         bn_capacity := bn_capacity other,
                         bn_is_negative := bn_is_negative other,
                         bn_operation_error := bn_operation_error other,
                         bn_mutex := bn_mutex other\<rparr>,
                      (bn_reset Destroyed other)\<lparr>bn_mutex := False\<rparr>, FT_ERR_SUCCESS))"

definition bn_initialize_move ::
  "number_env \<Rightarrow> bool \<Rightarrow> big_number \<Rightarrow> big_number \<Rightarrow> (big_number \<times> big_number \<times> ft_err) option" where
  "bn_initialize_move env same b other =
     (if bn_state other = Uninitialised then None
      else
        let (b1, destroy_error) =
              (if bn_state b = Initialised \<and> (bn_state other = Destroyed \<or> \<not> same)
               then bn_destroy env b else (b, FT_ERR_SUCCESS))
        in if bn_state other = Destroyed
           then if destroy_error \<noteq> FT_ERR_SUCCESS then Some (b1, other, destroy_error)
                else Some (bn_reset Destroyed b1, other, FT_ERR_SUCCESS)
           else if same then Some (b, other, FT_ERR_SUCCESS)
           else if destroy_error \<noteq> FT_ERR_SUCCESS then Some (b1, other, destroy_error)
           else do {
             (b2, other', move_error) \<leftarrow> bn_move env False (bn_reset Initialised b1) other;
             if move_error \<noteq> FT_ERR_SUCCESS then Some (fst (bn_destroy env b2), other', move_error)
             else Some (b2, other', FT_ERR_SUCCESS)
           })"

text \<open>\<open>operator=(ft_big_number &&)\<close> stores the outcome of \<open>move\<close> as the last error.\<close>

definition bn_move_assign ::
  "number_env \<Rightarrow> bool \<Rightarrow> big_number \<Rightarrow> big_number \<Rightarrow> (big_number \<times> big_number \<times> ft_err) option" where
  "bn_move_assign env same b other =
     do { (b1, other1, move_error) \<leftarrow> bn_move env same b other; Some (b1, other1, move_error) }"

end
