(* ===== verification/Big_Number_Ops.thy ===== *)
theory Big_Number_Ops
  imports Big_Number
begin

text \<open>
  The arithmetic of \<open>ft_big_number\<close>: comparison, addition, subtraction and multiplication of
  magnitudes digit by digit on the block, the signed operators, schoolbook division,
  remainder, the comparison operators and the proxy that carries a result or an error.
\<close>

subsection \<open>Magnitudes\<close>

text \<open>The value of a digit character, \<open>character - '0'\<close>; the digits of an object are decimal.\<close>

definition digit_of :: "u8 \<Rightarrow> nat" where
  "digit_of c = unat c - 48"

definition digit_char :: "nat \<Rightarrow> u8" where
  "digit_char n = word_of_nat (48 + n)"

definition is_zero_value :: "big_number \<Rightarrow> bool" where
  "is_zero_value b \<longleftrightarrow>
     bn_size b = 0 \<or> bn_digits b = None \<or> list_all (\<lambda>c. c = 48) (bn_text b)"

fun compare_digits :: "bytes \<Rightarrow> bytes \<Rightarrow> int" where
  "compare_digits (l # ls) (r # rs) =
     (if l > r then 1 else if l < r then -1 else compare_digits ls rs)"
| "compare_digits _ _ = 0"

definition compare_magnitude :: "big_number \<Rightarrow> big_number \<Rightarrow> int" where
  "compare_magnitude a b =
     (if is_zero_value a \<and> is_zero_value b then 0
      else if is_zero_value a then -1
      else if is_zero_value b then 1
      else if bn_size a > bn_size b then 1
      else if bn_size a < bn_size b then -1
      else compare_digits (bn_text a) (bn_text b))"

text \<open>\<open>new (std::nothrow) ft_big_number()\<close> followed by \<open>initialize()\<close>.\<close>

definition bn_new :: "number_env \<Rightarrow> big_number option" where
  "bn_new env = (if ne_new env then Some (bn_reset Initialised bn_constructor) else None)"

text \<open>The branch that copies the other operand when one operand is zero.\<close>

definition copy_digits :: "number_env \<Rightarrow> big_number \<Rightarrow> big_number \<Rightarrow> big_number option" where
  "copy_digits env result source =
     (if bn_size source > 0 \<and> bn_digits source \<noteq> None
      then case (bn_digits (bn_reserve env result (bn_size source + 1)), bn_digits source) of
             (Some d, Some s) \<Rightarrow>
               if bn_size source + 1 \<le> length d \<and> bn_size source + 1 \<le> length s
               then bn_put ((bn_reserve env result (bn_size source + 1))
                             \<lparr>bn_digits := Some (write_block d 0 (take (bn_size source + 1) s)),
                              bn_size := bn_size source, bn_is_negative := False\<rparr>)
                      (bn_size source) 0
               else None
           | _ \<Rightarrow> None
      else if bn_digits result = None then Some (result\<lparr>bn_size := 0, bn_is_negative := False\<rparr>)
      else bn_put (result\<lparr>bn_size := 0, bn_is_negative := False\<rparr>) 0 0)"

text \<open>
  The addition loop, from the right: \<open>left_index\<close>, \<open>right_index\<close>, \<open>write_index\<close>, the carry and
  the block of the result.
\<close>

function add_loop ::
  "bytes \<Rightarrow> bytes \<Rightarrow> nat \<Rightarrow> nat \<Rightarrow> nat \<Rightarrow> nat \<Rightarrow> bytes \<Rightarrow> nat \<times> bytes" where
  "add_loop left right left_index right_index write_index carry d =
     (if left_index > 0 \<or> right_index > 0 \<or> carry > 0
      then let digit_sum = carry
                 + (if left_index > 0 then digit_of (left ! (left_index - 1)) else 0)
                 + (if right_index > 0 then digit_of (right ! (right_index - 1)) else 0)
           in add_loop left right (left_index - 1) (right_index - 1) (write_index - 1)
                (digit_sum div 10) (d[write_index - 1 := digit_char (digit_sum mod 10)])
      else (write_index, d))"
  by pat_completeness auto
termination
  by (relation "measures [\<lambda>(l, r, i, j, w, c, d). i + j, \<lambda>(l, r, i, j, w, c, d). c]") auto

declare add_loop.simps [simp del]

text \<open>
  \<open>add_magnitude\<close>; the inner \<^term>\<open>None\<close> is a null pointer, with \<open>FT_ERR_NO_MEMORY\<close> in
  \<open>_last_error\<close>, which is \<open>FT_ERR_SUCCESS\<close> otherwise.
\<close>

definition add_magnitude :: "number_env \<Rightarrow> big_number \<Rightarrow> big_number \<Rightarrow> big_number option option" where
  "add_magnitude env a b =
     (case bn_new env of
        None \<Rightarrow> Some None
      | Some result \<Rightarrow>
          if is_zero_value a then map_option Some (copy_digits env result b)
          else if is_zero_value b then map_option Some (copy_digits env result a)
          else
            let max_length = (if bn_size a < bn_size b then bn_size b else bn_size a) + 1;
                r = bn_reserve env result (max_length + 1)
            in case bn_digits r of
                 None \<Rightarrow> None
               | Some d \<Rightarrow>
                   if length d < max_length + 1 then None
                   else
                     let (write_index, d1) =
                           add_loop (bn_text a) (bn_text b) (bn_size a) (bn_size b) max_length 0
                             (d[max_length := 0]);
                         used_digits = max_length - write_index;
                         d2 = (if used_digits = 0 then d1[0 := 48, 1 := 0]
                               else (write_block d1 0 (take used_digits (drop write_index d1)))
                                      [used_digits := 0])
                     in Some (Some ((bn_shrink_capacity env
                          (r\<lparr>bn_digits := Some d2,
                             bn_size := (if used_digits = 0 then 1 else used_digits)\<rparr>))
                          \<lparr>bn_is_negative := False\<rparr>)))"

fun subtract_loop :: "bytes \<Rightarrow> bytes \<Rightarrow> nat \<Rightarrow> nat \<Rightarrow> nat \<Rightarrow> bytes \<Rightarrow> bytes" where
  "subtract_loop left right 0 right_index borrow d = d"
| "subtract_loop left right (Suc left_index) right_index borrow d =
     (let difference = int (digit_of (left ! left_index)) - (if borrow > 0 then 1 else 0)
            - (if right_index > 0 then int (digit_of (right ! (right_index - 1))) else 0)
      in if difference < 0
         then subtract_loop left right left_index (right_index - 1) 1
                (d[left_index := digit_char (nat (difference + 10))])
         else subtract_loop left right left_index (right_index - 1) 0
                (d[left_index := digit_char (nat difference)]))"

definition subtract_magnitude ::
  "number_env \<Rightarrow> big_number \<Rightarrow> big_number \<Rightarrow> big_number option option" where
  "subtract_magnitude env a b =
     (case bn_new env of
        None \<Rightarrow> Some None
      | Some result \<Rightarrow>
          if compare_magnitude a b \<le> 0 then Some (Some result)
          else if is_zero_value b then map_option Some (copy_digits env result a)
          else
            let r = bn_reserve env result (bn_size a + 1)
            in case bn_digits r of
                 None \<Rightarrow> None
               | Some d \<Rightarrow>
                   if length d < bn_size a + 1 then None
                   else
                     let d1 = subtract_loop (bn_text a) (bn_text b) (bn_size a) (bn_size b) 0
                                (d[bn_size a := 0])
                     in do {
                          r1 \<leftarrow> trim_leading_zeros_unlocked env
                                  (r\<lparr>bn_digits := Some d1, bn_size := bn_size a\<rparr>);
                          Some (Some (r1\<lparr>bn_is_negative := False\<rparr>))
                        })"

subsection \<open>Multiplication\<close>

text \<open>
  One row: the digit of the left operand at \<open>left_offset\<close> from the right times every digit of
  the right operand, added into the result.
\<close>

function multiply_row ::
  "bytes \<Rightarrow> nat \<Rightarrow> nat \<Rightarrow> nat \<Rightarrow> nat \<Rightarrow> nat \<Rightarrow> bytes \<Rightarrow> nat \<times> bytes" where
  "multiply_row right left_digit left_offset result_length right_offset carry d =
     (if right_offset < length right
      then let right_digit = digit_of (right ! (length right - 1 - right_offset));
               position = result_length - 1 - (left_offset + right_offset);
               total = left_digit * right_digit + digit_of (d ! position) + carry
           in multiply_row right left_digit left_offset result_length (right_offset + 1)
                (total div 10) (d[position := digit_char (total mod 10)])
      else (carry, d))"
  by pat_completeness auto
termination
  by (relation "measure (\<lambda>(r, x, lo, n, ro, c, d). length r - ro)") auto

declare multiply_row.simps [simp del]

fun product_carry_loop :: "nat \<Rightarrow> nat \<Rightarrow> bytes \<Rightarrow> bytes" where
  "product_carry_loop carry position d =
     (if carry > 0
      then let total = digit_of (d ! position) + carry;
               d1 = d[position := digit_char (total mod 10)]
           in if position = 0 then d1 else product_carry_loop (total div 10) (position - 1) d1
      else d)"

declare product_carry_loop.simps [simp del]

function multiply_rows :: "bytes \<Rightarrow> bytes \<Rightarrow> nat \<Rightarrow> bytes \<Rightarrow> bytes" where
  "multiply_rows left right left_offset d =
     (if left_offset < length left
      then let result_length = length left + length right;
               (carry, d1) = multiply_row right
                  (digit_of (left ! (length left - 1 - left_offset))) left_offset result_length 0 0 d
           in multiply_rows left right (left_offset + 1)
                (product_carry_loop carry (result_length - 1 - (left_offset + length right)) d1)
      else d)"
  by pat_completeness auto
termination
  by (relation "measure (\<lambda>(l, r, lo, d). length l - lo)") auto

declare multiply_rows.simps [simp del]

text \<open>The product of two magnitudes that are not zero, in the local \<open>result\<close>.\<close>

definition multiply_magnitude ::
  "number_env \<Rightarrow> big_number \<Rightarrow> big_number \<Rightarrow> big_number \<Rightarrow> big_number option" where
  "multiply_magnitude env result a b =
     (let result_length = bn_size a + bn_size b;
          r = bn_reserve env result (result_length + 1)
      in case bn_digits r of
           None \<Rightarrow> None
         | Some d \<Rightarrow>
             if length d < result_length + 1 then None
             else let d1 = multiply_rows (bn_text a) (bn_text b) 0
                             (write_block d 0 (replicate result_length 48 @ [0]))
                  in trim_leading_zeros_unlocked env
                       (r\<lparr>bn_digits := Some d1, bn_size := result_length\<rparr>))"

subsection \<open>The proxy\<close>

record number_proxy =
  px_value :: big_number
  px_error :: ft_err

definition proxy_default :: number_proxy where
  "proxy_default = \<lparr>px_value = bn_constructor, px_error = FT_ERR_SUCCESS\<rparr>"

definition proxy_of_error :: "ft_err \<Rightarrow> number_proxy" where
  "proxy_of_error error_code = \<lparr>px_value = bn_constructor, px_error = error_code\<rparr>"

text \<open>\<open>ft_big_number_proxy(const ft_big_number &, int32_t)\<close>; the other constructor passes no error.\<close>

definition proxy_of_value_error ::
  "number_env \<Rightarrow> big_number \<Rightarrow> ft_err \<Rightarrow> number_proxy option" where
  "proxy_of_value_error env b error_code =
     do {
       (v, initialization_error) \<leftarrow> bn_initialize_copy env False bn_constructor b;
       Some \<lparr>px_value = v, px_error = (if initialization_error \<noteq> FT_ERR_SUCCESS
                                       then initialization_error else error_code)\<rparr>
     }"

definition proxy_of_value :: "number_env \<Rightarrow> big_number \<Rightarrow> number_proxy option" where
  "proxy_of_value env b = proxy_of_value_error env b FT_ERR_SUCCESS"

definition proxy_copy :: "number_env \<Rightarrow> number_proxy \<Rightarrow> number_proxy option" where
  "proxy_copy env p =
     (if bn_state (px_value p) = Initialised then proxy_of_value_error env (px_value p) (px_error p)
      else Some (proxy_of_error (px_error p)))"

definition proxy_move :: "number_env \<Rightarrow> number_proxy \<Rightarrow> (number_proxy \<times> number_proxy) option" where
  "proxy_move env p =
     (if bn_state (px_value p) = Initialised
      then do {
        (v, v', initialization_error) \<leftarrow> bn_initialize_move env False bn_constructor (px_value p);
        Some (\<lparr>px_value = v, px_error = (if initialization_error \<noteq> FT_ERR_SUCCESS
                                         then initialization_error else px_error p)\<rparr>,
              \<lparr>px_value = v', px_error = FT_ERR_SUCCESS\<rparr>)
      }
      else Some (proxy_of_error (px_error p), p\<lparr>px_error := FT_ERR_SUCCESS\<rparr>))"

text \<open>\<open>operator ft_big_number *()\<close>: a fresh object, or null.\<close>

definition proxy_to_number ::
  "number_env \<Rightarrow> number_proxy \<Rightarrow> (big_number option \<times> ft_err) option" where
  "proxy_to_number env p =
     (case bn_new env of
        None \<Rightarrow> Some (None, FT_ERR_NO_MEMORY)
      | Some zero \<Rightarrow>
          if px_error p \<noteq> FT_ERR_SUCCESS then Some (Some zero, px_error p)
          else if bn_state (px_value p) \<noteq> Initialised then Some (Some zero, FT_ERR_INVALID_STATE)
          else do {
            (result, initialization_error) \<leftarrow>
              bn_initialize_copy env False bn_constructor (px_value p);
            if initialization_error \<noteq> FT_ERR_SUCCESS then Some (None, initialization_error)
            else Some (Some result, px_error p)
          })"

text \<open>
  \<open>operator=(const ft_big_number_proxy &)\<close>: the number is copied and the temporary destroyed,
  which overwrites \<open>_last_error\<close>.
\<close>

definition bn_assign_proxy ::
  "number_env \<Rightarrow> big_number \<Rightarrow> number_proxy \<Rightarrow> (big_number \<times> ft_err) option" where
  "bn_assign_proxy env b p =
     do {
       (other_value, e) \<leftarrow> proxy_to_number env p;
       (case other_value of
          None \<Rightarrow> Some (b, FT_ERR_NO_MEMORY)
        | Some v \<Rightarrow> do {
            (b1, assign_error) \<leftarrow> bn_copy_assign env False b v;
            Some (b1, snd (bn_destroy env v))
          })
     }"

text \<open>The statement \<open>b = p;\<close> where the proxy is a temporary that dies at its end.\<close>

definition bn_store :: "number_env \<Rightarrow> big_number \<Rightarrow> number_proxy \<Rightarrow> (big_number \<times> ft_err) option" where
  "bn_store env b p =
     do {
       (b1, last_error) \<leftarrow> bn_assign_proxy env b p;
       Some (b1, bn_leave env (px_value p) last_error)
     }"

subsection \<open>Signed operators\<close>

text \<open>\<open>result = *magnitude_result\<close>, after which the temporary is destroyed and deleted.\<close>

definition take_magnitude ::
  "number_env \<Rightarrow> big_number \<Rightarrow> big_number \<Rightarrow> (big_number \<times> ft_err) option" where
  "take_magnitude env result m =
     do {
       (r, assign_error) \<leftarrow> bn_copy_assign env False result m;
       Some (r, snd (bn_destroy env m))
     }"

text \<open>
  What \<open>operator+\<close> and \<open>operator-\<close> do between locking and their \<open>finalize\<close> labels, for the signs
  \<open>left_negative\<close> and \<open>right_negative\<close>: the result, \<open>operation_error\<close> and \<open>_last_error\<close>.
\<close>

definition signed_result ::
  "number_env \<Rightarrow> bool \<Rightarrow> big_number \<Rightarrow> big_number option option
     \<Rightarrow> (big_number \<times> ft_err \<times> ft_err) option" where
  "signed_result env negative result magnitude =
     do {
       m \<leftarrow> magnitude;
       (case m of
          None \<Rightarrow> Some (result, FT_ERR_NO_MEMORY, FT_ERR_NO_MEMORY)
        | Some magnitude_result \<Rightarrow> do {
            (r, last_error) \<leftarrow> take_magnitude env result magnitude_result;
            (if last_error = FT_ERR_SUCCESS
             then Some (r\<lparr>bn_is_negative :=
                            (if is_zero_value r then False else negative)\<rparr>, FT_ERR_SUCCESS, last_error)
             else Some (r, last_error, last_error))
          })
     }"

definition combine_magnitudes ::
  "number_env \<Rightarrow> bool \<Rightarrow> bool \<Rightarrow> big_number \<Rightarrow> big_number \<Rightarrow> big_number
     \<Rightarrow> (big_number \<times> ft_err \<times> ft_err) option" where
  "combine_magnitudes env left_negative right_negative result a b =
     (if left_negative = right_negative
      then signed_result env left_negative result (add_magnitude env a b)
      else let comparison = compare_magnitude a b
           in if comparison = 0 then Some (result, FT_ERR_SUCCESS, FT_ERR_SUCCESS)
              else if comparison > 0
              then signed_result env left_negative result (subtract_magnitude env a b)
              else signed_result env right_negative result (subtract_magnitude env b a))"

text \<open>The \<open>finalize\<close> part of \<open>operator+\<close> and \<open>operator-\<close>; the local \<open>result\<close> dies on return.\<close>

definition finalize_result ::
  "number_env \<Rightarrow> big_number \<times> ft_err \<times> ft_err \<Rightarrow> (number_proxy \<times> ft_err) option" where
  "finalize_result env s =
     (case s of (result, operation_error, last_error) \<Rightarrow>
        let error = (if operation_error = FT_ERR_SUCCESS then last_error else operation_error)
        in if error \<noteq> FT_ERR_SUCCESS
           then Some (proxy_of_error error, bn_leave env result error)
           else do {
             p \<leftarrow> proxy_of_value env result;
             Some (p, bn_leave env result FT_ERR_SUCCESS)
           })"

definition bn_add :: "number_env \<Rightarrow> big_number \<Rightarrow> big_number \<Rightarrow> (number_proxy \<times> ft_err) option" where
  "bn_add env a b =
     (let result = bn_reset Initialised bn_constructor; lock_error = bn_lock_pair env a b
      in if lock_error \<noteq> FT_ERR_SUCCESS then finalize_result env (result, lock_error, lock_error)
         else do {
           s \<leftarrow> combine_magnitudes env (bn_is_negative a) (bn_is_negative b) result a b;
           finalize_result env s
         })"

definition bn_subtract ::
  "number_env \<Rightarrow> big_number \<Rightarrow> big_number \<Rightarrow> (number_proxy \<times> ft_err) option" where
  "bn_subtract env a b =
     (let result = bn_reset Initialised bn_constructor; lock_error = bn_lock_pair env a b;
          right_negative = (if is_zero_value b then False else \<not> bn_is_negative b)
      in if lock_error \<noteq> FT_ERR_SUCCESS then finalize_result env (result, lock_error, lock_error)
         else do {
           s \<leftarrow> combine_magnitudes env (bn_is_negative a) right_negative result a b;
           finalize_result env s
         })"

text \<open>
  \<open>operator*\<close> locks before it initialises its result, and returns the result on every path:
  after a failed lock the proxy is made from an object that was never initialised.
\<close>

definition bn_multiply ::
  "number_env \<Rightarrow> big_number \<Rightarrow> big_number \<Rightarrow> (number_proxy \<times> ft_err) option" where
  "bn_multiply env a b =
     (if bn_lock_pair env a b \<noteq> FT_ERR_SUCCESS
      then do {
        p \<leftarrow> proxy_of_value env bn_constructor;
        Some (p, FT_ERR_SUCCESS)
      }
      else do {
        result \<leftarrow> (if \<not> is_zero_value a \<and> \<not> is_zero_value b
          then do {
            r \<leftarrow> multiply_magnitude env (bn_reset Initialised bn_constructor) a b;
            Some (r\<lparr>bn_is_negative := (if is_zero_value r then False
                                       else bn_is_negative a \<noteq> bn_is_negative b)\<rparr>)
          }
          else Some (bn_reset Initialised bn_constructor));
        p \<leftarrow> proxy_of_value env result;
        Some (p, bn_leave env result FT_ERR_SUCCESS)
      })"

end
