(* ===== verification/Big_Number_Digits.thy ===== *)
theory Big_Number_Digits
  imports Big_Number_Ops
begin

text \<open>
  Decimal digit strings as natural numbers: the value \<open>dec\<close> of a string, the canonical form
  that the comparison of sizes relies on, and what the digit loops of
  \<open>Big_Number_Ops\<close> compute on a block, in terms of \<open>dec\<close>.
\<close>

named_theorems dec_simps "equations for the value of a digit string"

subsection \<open>Digits\<close>

definition is_dec :: "u8 \<Rightarrow> bool" where
  "is_dec c \<longleftrightarrow> 48 \<le> c \<and> c \<le> 57"

definition decimal :: "bytes \<Rightarrow> bool" where
  "decimal cs \<longleftrightarrow> list_all is_dec cs"

definition dec :: "bytes \<Rightarrow> nat" where
  "dec cs = foldl (\<lambda>n c. n * 10 + digit_of c) 0 cs"

lemma is_dec_unat: "is_dec c \<longleftrightarrow> 48 \<le> unat c \<and> unat c \<le> 57"
  by (simp add: is_dec_def word_le_nat_alt)

lemma digit_of_less: "is_dec c \<Longrightarrow> digit_of c < 10"
  by (auto simp: is_dec_unat digit_of_def)

lemma digit_of_le: "is_dec c \<Longrightarrow> digit_of c \<le> 9"
  using digit_of_less [of c] by simp

lemma unat_digit_char: "n < 10 \<Longrightarrow> unat (digit_char n) = 48 + n"
  unfolding digit_char_def by (subst unat_of_nat) simp

lemma digit_of_digit_char [simp]: "n < 10 \<Longrightarrow> digit_of (digit_char n) = n"
  by (simp add: digit_of_def unat_digit_char)

lemma is_dec_digit_char [simp]: "n < 10 \<Longrightarrow> is_dec (digit_char n)"
  by (simp add: is_dec_unat unat_digit_char)

lemma digit_char_digit_of: "is_dec c \<Longrightarrow> digit_char (digit_of c) = c"
  by (simp add: is_dec_unat digit_of_def digit_char_def)

lemma digit_of_eq_iff: "is_dec c \<Longrightarrow> is_dec c' \<Longrightarrow> digit_of c = digit_of c' \<longleftrightarrow> c = c'"
  by (metis digit_char_digit_of)

lemma digit_of_less_iff: "is_dec c \<Longrightarrow> is_dec c' \<Longrightarrow> digit_of c < digit_of c' \<longleftrightarrow> c < c'"
  by (auto simp: is_dec_unat digit_of_def word_less_nat_alt)

lemma digit_of_48 [simp]: "digit_of 48 = 0" "is_dec 48"
  by (simp_all add: digit_of_def is_dec_def)

lemma digit_of_pos: "is_dec c \<Longrightarrow> c \<noteq> 48 \<Longrightarrow> 0 < digit_of c"
  using digit_of_eq_iff [of c 48] by simp

lemma is_dec_not_0: "is_dec c \<Longrightarrow> c \<noteq> 0"
  by (auto simp: is_dec_def)

lemma decimal_simps [simp]:
  "decimal []" "decimal (c # cs) \<longleftrightarrow> is_dec c \<and> decimal cs"
  "decimal (cs @ ds) \<longleftrightarrow> decimal cs \<and> decimal ds"
  by (simp_all add: decimal_def)

lemma decimal_nth: "decimal cs \<Longrightarrow> i < length cs \<Longrightarrow> is_dec (cs ! i)"
  by (simp add: decimal_def list_all_length)

lemma decimal_take: "decimal cs \<Longrightarrow> decimal (take n cs)"
  by (metis append_take_drop_id decimal_simps(3))

lemma decimal_drop: "decimal cs \<Longrightarrow> decimal (drop n cs)"
  by (metis append_take_drop_id decimal_simps(3))

lemma decimal_replicate [simp]: "decimal (replicate n 48)"
  by (induction n) simp_all

lemma dec_Nil [simp, dec_simps]: "dec [] = 0"
  by (simp add: dec_def)

lemma dec_snoc [dec_simps]: "dec (cs @ [c]) = dec cs * 10 + digit_of c"
  by (simp add: dec_def)

lemma dec_append [dec_simps]: "dec (cs @ ds) = dec cs * 10 ^ length ds + dec ds"
  by (induction ds rule: rev_induct)
    (simp_all add: dec_snoc append_assoc [symmetric] algebra_simps del: append_assoc)

lemma dec_Cons [dec_simps]: "dec (c # cs) = digit_of c * 10 ^ length cs + dec cs"
  using dec_append [of "[c]" cs] dec_snoc [of "[]" c] by simp

lemma dec_less: "decimal cs \<Longrightarrow> dec cs < 10 ^ length cs"
proof (induction cs rule: rev_induct)
  case (snoc c cs)
  then have "dec cs + 1 \<le> 10 ^ length cs" and "digit_of c \<le> 9" by (auto simp: digit_of_le)
  then have "(dec cs + 1) * 10 \<le> 10 ^ length cs * 10" by (simp only: mult_le_mono1)
  with \<open>digit_of c \<le> 9\<close> show ?case by (simp add: dec_snoc algebra_simps)
qed simp

lemma dec_ge: "decimal (c # cs) \<Longrightarrow> c \<noteq> 48 \<Longrightarrow> 10 ^ length cs \<le> dec (c # cs)"
  using digit_of_pos [of c] by (simp add: dec_Cons trans_le_add1)

lemma dec_replicate [simp]: "dec (replicate n 48) = 0"
  by (induction n) (simp_all add: dec_Cons)

lemma dec_zero_iff: "decimal cs \<Longrightarrow> dec cs = 0 \<longleftrightarrow> list_all (\<lambda>c. c = 48) cs"
  by (induction cs) (auto simp: dec_Cons dest: digit_of_pos)

lemma dec_take_Suc:
  "i < length cs \<Longrightarrow> dec (take (Suc i) cs) = dec (take i cs) * 10 + digit_of (cs ! i)"
  by (simp add: take_Suc_conv_app_nth dec_snoc)

lemma dec_take_pred:
  "0 < i \<Longrightarrow> i \<le> length cs \<Longrightarrow>
    dec (take i cs) = dec (take (i - 1) cs) * 10 + digit_of (cs ! (i - 1))"
  using dec_take_Suc [of "i - 1" cs] by simp

subsection \<open>Canonical strings\<close>

text \<open>No leading zero, except in the string \<open>0\<close> itself; zero is also the empty string.\<close>

definition canonical :: "bytes \<Rightarrow> bool" where
  "canonical cs \<longleftrightarrow> decimal cs \<and> (cs = [] \<or> cs = [48] \<or> hd cs \<noteq> 48)"

lemma canonical_Nil [simp]: "canonical []"
  by (simp add: canonical_def)

lemma canonical_decimal: "canonical cs \<Longrightarrow> decimal cs"
  by (simp add: canonical_def)

lemma canonical_dec_ge:
  assumes "canonical cs" "dec cs \<noteq> 0"
  shows "cs \<noteq> []" "10 ^ (length cs - 1) \<le> dec cs"
  using assms dec_ge by (cases cs; auto simp: canonical_def dec_Cons)+

lemma canonicalI:
  assumes "decimal cs" "cs = [] \<or> 10 ^ (length cs - 1) \<le> dec cs"
  shows "canonical cs"
proof (cases cs)
  case (Cons c cs')
  have "c \<noteq> 48"
  proof
    assume "c = 48"
    with Cons have "dec cs = dec cs'" by (simp add: dec_Cons)
    moreover have "dec cs' < 10 ^ length cs'" using assms Cons by (simp add: dec_less)
    ultimately show False using assms Cons by simp
  qed
  with assms Cons show ?thesis by (simp add: canonical_def)
qed simp

lemma canonical_length_less:
  assumes "canonical cs" "canonical ds" "dec ds \<noteq> 0" "length cs < length ds"
  shows "dec cs < dec ds"
proof -
  have "dec cs < 10 ^ length cs" using assms by (simp add: canonical_decimal dec_less)
  also have "\<dots> \<le> 10 ^ (length ds - 1)" using assms by (intro power_increasing) auto
  also have "\<dots> \<le> dec ds" by (rule canonical_dec_ge(2) [OF assms(2,3)])
  finally show ?thesis .
qed

lemma dec_Cons_less:
  assumes "digit_of c < digit_of d" "length cs = length ds" "decimal cs"
  shows "dec (c # cs) < dec (d # ds)"
proof -
  have "dec (c # cs) < (digit_of c + 1) * 10 ^ length ds"
    using assms dec_less [of cs] by (simp add: dec_Cons algebra_simps)
  also have "\<dots> \<le> digit_of d * 10 ^ length ds" using assms by (intro mult_le_mono1) simp
  finally show ?thesis by (simp add: dec_Cons)
qed

lemma dec_inject:
  assumes "length cs = length ds" "decimal cs" "decimal ds" "dec cs = dec ds"
  shows "cs = ds"
  using assms
proof (induction cs ds rule: list_induct2)
  case (Cons c cs d ds)
  then have "\<not> digit_of c < digit_of d" "\<not> digit_of d < digit_of c"
    using dec_Cons_less [of c d cs ds] dec_Cons_less [of d c ds cs] by auto
  then have "digit_of c = digit_of d" by simp
  with Cons show ?case by (simp add: dec_Cons digit_of_eq_iff)
qed simp

lemma canonical_inject:
  assumes "canonical cs" "canonical ds" "dec cs = dec ds" "dec cs \<noteq> 0"
  shows "cs = ds"
proof (rule dec_inject)
  show "length cs = length ds"
    using assms canonical_length_less [of cs ds] canonical_length_less [of ds cs]
    by (metis less_irrefl linorder_neqE_nat)
qed (use assms canonical_decimal in auto)

lemma compare_digits_sgn:
  assumes "length ls = length rs" "decimal ls" "decimal rs"
  shows "compare_digits ls rs = sgn (int (dec ls) - int (dec rs))"
  using assms
proof (induction ls rs rule: list_induct2)
  case (Cons l ls r rs)
  consider "l > r" | "l < r" | "l = r" by fastforce
  then show ?case
  proof cases
    case 1
    then have "dec (r # rs) < dec (l # ls)"
      using Cons by (intro dec_Cons_less) (auto simp: digit_of_less_iff)
    with 1 show ?thesis by simp
  next
    case 2
    then have "dec (l # ls) < dec (r # rs)"
      using Cons by (intro dec_Cons_less) (auto simp: digit_of_less_iff)
    with 2 show ?thesis by (simp add: sgn_if not_less_iff_gr_or_eq)
  next
    case 3
    with Cons show ?thesis by (simp add: dec_Cons)
  qed
qed simp

lemma leading_zeros_less: "cs \<noteq> [] \<Longrightarrow> leading_zeros cs < length cs"
  by (induction cs rule: leading_zeros.induct) auto

lemma trim_canonical: "decimal cs \<Longrightarrow> canonical (drop (leading_zeros cs) cs)"
  by (induction cs rule: leading_zeros.induct) (auto simp: canonical_def)

lemma trim_dec: "decimal cs \<Longrightarrow> dec (drop (leading_zeros cs) cs) = dec cs"
  by (induction cs rule: leading_zeros.induct) (auto simp: dec_Cons)

subsection \<open>Addition\<close>

text \<open>
  The room the addition loop needs: one position more than the longer operand while digits
  are left, one for a last carry.
\<close>

definition add_room :: "nat \<Rightarrow> nat \<Rightarrow> nat \<Rightarrow> nat \<Rightarrow> bool" where
  "add_room i j c w \<longleftrightarrow> max i j < w \<or> (i = 0 \<and> j = 0 \<and> c \<le> w)"

text \<open>What the loop has written between its first and its current position.\<close>

definition written :: "nat \<Rightarrow> nat \<Rightarrow> bytes \<Rightarrow> bytes" where
  "written w' w d = take (w - w') (drop w' d)"

lemma written_snoc:
  assumes "w' \<le> w - 1" "0 < w" "w \<le> length d" "drop (w - 1) d = c # ds"
  shows "written w' w d = written w' (w - 1) d @ [c]"
proof -
  have c: "c = d ! (w - 1)" using assms by (metis Cons_nth_drop_Suc diff_less list.inject
    less_le_trans zero_less_one)
  have "Suc (w - Suc 0 - w') = w - w'" using assms by simp
  moreover have "w - Suc 0 - w' < length (drop w' d)" using assms by simp
  ultimately have "take (w - w') (drop w' d)
      = take (w - Suc 0 - w') (drop w' d) @ [drop w' d ! (w - Suc 0 - w')]"
    by (metis take_Suc_conv_app_nth)
  then show ?thesis using assms c by (simp add: written_def)
qed

lemma digit_sum_div:
  assumes "x \<le> (9::nat)" "y \<le> 9" "c \<le> 1"
  shows "(c + x + y) div 10 \<le> 1"
  using assms by simp

lemma digit_sum_scale:
  assumes "p \<le> a + b + (c + x + y) div (10::nat)"
  shows "10 * p \<le> a * 10 + x + (b * 10 + y) + c"
proof -
  have "(c + x + y) div 10 * 10 \<le> c + x + y" by simp
  with assms show ?thesis by linarith
qed

lemma add_loop_correct:
  assumes "decimal left" "decimal right" "i \<le> length left" "j \<le> length right"
    "c \<le> 1" "add_room i j c w" "w \<le> length d"
    "add_loop left right i j w c d = (w', d')"
  shows "w' \<le> w \<and> length d' = length d \<and> drop w d' = drop w d
    \<and> decimal (written w' w d')
    \<and> dec (written w' w d') = dec (take i left) + dec (take j right) + c
    \<and> (w - w' = max i j
        \<or> (w - w' = max i j + 1 \<and> 10 ^ max i j \<le> dec (take i left) + dec (take j right) + c))"
  using assms
proof (induction left right i j w c d arbitrary: w' d' rule: add_loop.induct)
  case (1 left right i j w c d)
  show ?case
  proof (cases "i > 0 \<or> j > 0 \<or> c > 0")
    case False
    with "1.prems" show ?thesis by (simp add: add_loop.simps written_def)
  next
    case True
    define x where "x = (if i > 0 then digit_of (left ! (i - 1)) else 0)"
    define y where "y = (if j > 0 then digit_of (right ! (j - 1)) else 0)"
    define t where "t = c + x + y"
    let ?d = "d[w - 1 := digit_char (t mod 10)]"
    have xy: "x \<le> 9" "y \<le> 9"
      using "1.prems"(1-4) by (auto simp: x_def y_def intro!: digit_of_le decimal_nth)
    have w: "0 < w" using True "1.prems"(6) by (auto simp: add_room_def)
    have loop: "add_loop left right (i - 1) (j - 1) (w - 1) (t div 10) ?d = (w', d')"
      using "1.prems"(8) True by (subst (asm) add_loop.simps) (simp add: Let_def x_def y_def t_def)
    have room: "add_room (i - 1) (j - 1) (t div 10) (w - 1)"
      using "1.prems"(5,6) True xy by (auto simp: add_room_def t_def x_def y_def)
    have dl: "dec (take i left) = dec (take (i - 1) left) * 10 + x"
      using "1.prems"(3) dec_take_pred [of i left] by (simp add: x_def)
    have dr: "dec (take j right) = dec (take (j - 1) right) * 10 + y"
      using "1.prems"(4) dec_take_pred [of j right] by (simp add: y_def)
    have IH: "w' \<le> w - 1 \<and> length d' = length ?d \<and> drop (w - 1) d' = drop (w - 1) ?d
      \<and> decimal (written w' (w - 1) d')
      \<and> dec (written w' (w - 1) d') = dec (take (i - 1) left) + dec (take (j - 1) right) + t div 10
      \<and> (w - 1 - w' = max (i - 1) (j - 1)
        \<or> (w - 1 - w' = max (i - 1) (j - 1) + 1
           \<and> 10 ^ max (i - 1) (j - 1) \<le> dec (take (i - 1) left) + dec (take (j - 1) right) + t div 10))"
      by (rule "1.IH" [OF True, of t, OF _ "1.prems"(1,2)])
        (use "1.prems" loop room digit_sum_div [OF xy "1.prems"(5)] in
          \<open>simp_all add: x_def y_def t_def\<close>)
    have dr1: "drop (w - 1) d' = digit_char (t mod 10) # drop w d"
      using IH w "1.prems"(7) by (simp add: drop_update_swap Cons_nth_drop_Suc [symmetric])
    then have dw: "drop w d' = drop w d" using w
      by (metis Suc_diff_1 drop_Suc list.sel(3) tl_drop)
    have wr: "written w' w d' = written w' (w - 1) d' @ [digit_char (t mod 10)]"
      using IH w "1.prems"(7) dr1 by (intro written_snoc) auto
    have val: "dec (written w' w d') = dec (take i left) + dec (take j right) + c"
      using IH by (simp add: wr dec_snoc dl dr t_def)
    have used: "w - w' = max i j
        \<or> (w - w' = max i j + 1 \<and> 10 ^ max i j \<le> dec (take i left) + dec (take j right) + c)"
    proof (cases "max i j = 0")
      case True
      with xy \<open>i > 0 \<or> j > 0 \<or> c > 0\<close> "1.prems"(5) have "c = 1" "i = 0" "j = 0" "t = 1"
        by (auto simp: t_def x_def y_def)
      with loop have "w' = w - 1" by (simp add: add_loop.simps)
      with w \<open>c = 1\<close> \<open>i = 0\<close> \<open>j = 0\<close> show ?thesis by simp
    next
      case False
      then have m: "max i j = Suc (max (i - 1) (j - 1))" by (auto simp: max_def)
      have "10 ^ max i j \<le> dec (take i left) + dec (take j right) + c"
        if "10 ^ max (i - 1) (j - 1) \<le> dec (take (i - 1) left) + dec (take (j - 1) right) + t div 10"
        using digit_sum_scale [OF that [unfolded t_def]] by (simp only: m dl dr power_Suc)
      moreover have "w - w' = Suc (w - 1 - w')" using conjunct1 [OF IH] w by arith
      ultimately show ?thesis using IH by (auto simp only: m Suc_eq_plus1)
    qed
    have "w' \<le> w" using conjunct1 [OF IH] by simp
    with IH dw wr val used show ?thesis by simp
  qed
qed

subsection \<open>Subtraction\<close>

text \<open>The subtraction loop computes the difference modulo \<open>10 ^ i\<close>; \<open>k\<close> is the last borrow.\<close>

lemma subtract_loop_correct:
  assumes "decimal left" "decimal right" "i \<le> length left" "j \<le> length right" "j \<le> i"
    "c \<le> 1" "i \<le> length d"
  shows "length (subtract_loop left right i j c d) = length d
    \<and> drop i (subtract_loop left right i j c d) = drop i d
    \<and> decimal (take i (subtract_loop left right i j c d))
    \<and> (\<exists>k\<ge>0. int (dec (take i (subtract_loop left right i j c d)))
         = int (dec (take i left)) - int (dec (take j right)) - int c + k * 10 ^ i)"
  using assms
proof (induction i arbitrary: j c d)
  case 0
  then show ?case by (auto intro: exI [of _ "int c"])
next
  case (Suc i)
  define y where "y = (if j > 0 then digit_of (right ! (j - 1)) else 0)"
  define x where "x = digit_of (left ! i)"
  define t where "t = int x - int c - int y"
  define b :: nat where "b = (if t < 0 then 1 else 0)"
  define q where "q = nat (t + 10 * int b)"
  let ?d = "d[i := digit_char q]"
  let ?s = "subtract_loop left right i (j - 1) b ?d"
  have xy: "x \<le> 9" "y \<le> 9"
    using Suc.prems by (auto simp: x_def y_def intro!: digit_of_le decimal_nth)
  have q: "q < 10" "int q = t + 10 * int b"
    using xy Suc.prems(6) by (auto simp: q_def t_def b_def)
  have c: "int c = (if c > 0 then 1 else 0)" using Suc.prems(6) by auto
  have step: "subtract_loop left right (Suc i) j c d = ?s"
    by (auto simp: Let_def t_def x_def y_def b_def q_def c algebra_simps)
  have IH: "length ?s = length ?d \<and> drop i ?s = drop i ?d \<and> decimal (take i ?s)
    \<and> (\<exists>k\<ge>0. int (dec (take i ?s))
         = int (dec (take i left)) - int (dec (take (j - 1) right)) - int b + k * 10 ^ i)"
    using Suc.prems by (intro Suc.IH) (auto simp: b_def)
  then obtain k where k: "k \<ge> 0" "int (dec (take i ?s))
      = int (dec (take i left)) - int (dec (take (j - 1) right)) - int b + k * 10 ^ i" by blast
  have dr: "drop i ?s = digit_char q # drop (Suc i) d"
    using IH Suc.prems(7) by (simp add: drop_update_swap Cons_nth_drop_Suc [symmetric])
  then have nth: "?s ! i = digit_char q" and dr': "drop (Suc i) ?s = drop (Suc i) d"
    using Suc.prems(7) IH by (metis hd_drop_conv_nth length_list_update less_eq_Suc_le list.sel(1),
      metis drop_Suc list.sel(3) tl_drop)
  have tk: "take (Suc i) ?s = take i ?s @ [digit_char q]"
    using Suc.prems(7) IH nth by (simp add: take_Suc_conv_app_nth)
  have dl: "dec (take (Suc i) left) = dec (take i left) * 10 + x"
    using Suc.prems(3) by (simp add: dec_take_Suc x_def)
  have dj: "dec (take j right) = dec (take (j - 1) right) * 10 + y"
    using Suc.prems(4) dec_take_pred [of j right] by (simp add: y_def)
  have val: "int (dec (take (Suc i) ?s))
      = int (dec (take (Suc i) left)) - int (dec (take j right)) - int c + k * 10 ^ Suc i"
    unfolding tk dec_snoc digit_of_digit_char [OF q(1)] of_nat_add of_nat_mult k(2) q(2) dl dj t_def
    by (simp add: algebra_simps)
  have "decimal (take (Suc i) ?s)" unfolding tk using IH q(1) by simp
  with val k(1) IH dr' show ?case unfolding step by (metis length_list_update)
qed

lemma subtract_loop_exact:
  assumes "decimal left" "decimal right" "length right \<le> length left" "length left \<le> length d"
    "dec right \<le> dec left"
  shows "dec (take (length left) (subtract_loop left right (length left) (length right) 0 d))
    = dec left - dec right"
proof -
  let ?s = "subtract_loop left right (length left) (length right) 0 d"
  obtain k where k: "k \<ge> 0" "int (dec (take (length left) ?s))
      = int (dec left) - int (dec right) + k * 10 ^ length left"
    and s: "decimal (take (length left) ?s)" "length ?s = length d"
    using subtract_loop_correct [of left right "length left" "length right" 0 d] assms by auto
  have "int (dec (take (length left) ?s)) < 10 ^ length left"
    using dec_less [OF s(1)] s(2) assms(4) by (simp add: min_absorb2)
  with k assms(5) have "k * 10 ^ length left < 1 * 10 ^ length left" by linarith
  then have "k < 1" by (rule mult_right_less_imp_less) simp
  with k(1) have "k = 0" by simp
  with k(2) assms(5) show ?thesis by simp
qed

subsection \<open>Multiplication\<close>

text \<open>Changing one digit of the first \<open>n\<close> characters changes their value at its weight.\<close>

lemma take_update_split:
  assumes "i < n" "n \<le> length d"
  shows "take n (d[i := c]) = take i d @ c # drop (Suc i) (take n d)"
    and "take n d = take i d @ d ! i # drop (Suc i) (take n d)"
  using assms upd_conv_take_nth_drop [of i "take n d" c] id_take_nth_drop [of i "take n d"]
  by (simp_all add: take_update_swap min_absorb1)

lemma dec_take_update:
  assumes "k < n" "n \<le> length d"
  shows "dec (take n (d[n - 1 - k := c])) + digit_of (d ! (n - 1 - k)) * 10 ^ k
    = dec (take n d) + digit_of c * 10 ^ k"
proof -
  define i where "i = n - 1 - k"
  have i: "i < n" "length (drop (Suc i) (take n d)) = k" using assms by (auto simp: i_def)
  have "dec (take n (d[i := c]))
      = dec (take i d) * 10 ^ Suc k + (digit_of c * 10 ^ k + dec (drop (Suc i) (take n d)))"
    unfolding take_update_split(1) [OF i(1) assms(2)] dec_append dec_Cons length_Cons i(2) ..
  moreover have "dec (take n d)
      = dec (take i d) * 10 ^ Suc k + (digit_of (d ! i) * 10 ^ k + dec (drop (Suc i) (take n d)))"
    by (subst take_update_split(2) [OF i(1) assms(2)]) (simp only: dec_append dec_Cons length_Cons i(2))
  ultimately show ?thesis by (simp add: i_def)
qed

lemma decimal_take_update:
  assumes "i < n" "n \<le> length d" "decimal (take n d)" "is_dec c"
  shows "decimal (take n (d[i := c]))"
proof -
  have "decimal (take i d @ d ! i # drop (Suc i) (take n d))"
    using assms(3) take_update_split(2) [OF assms(1,2)] by simp
  with assms(4) show ?thesis by (simp add: take_update_split(1) [OF assms(1,2)])
qed

text \<open>The arithmetic of one step, at the weight \<open>P\<close> of the position.\<close>

lemma column_step:
  assumes "T1 + e * P = T + (t mod 10) * P" "t = (m + e + c :: nat)"
  shows "T1 + (t div 10) * (10 * P) = T + (m + c) * P"
proof -
  have "(t mod 10) * P + (t div 10) * (10 * P) = t * P"
    by (metis add.commute add_mult_distrib div_mult_mod_eq mult.assoc)
  then have "T1 + (t div 10) * (10 * P) + e * P = T + t * P" using assms(1) by linarith
  then show ?thesis by (simp add: assms(2) algebra_simps)
qed

lemma row_step:
  assumes "T1 + e * P = T + (t mod 10) * P" "t = (x * r + e + c :: nat)"
    "S = T1 + (t div 10) * (10 * P) + x * A * (10 * P)"
  shows "S = T + c * P + x * (A * 10 + r) * P"
  using column_step [OF assms(1,2)] assms(3) by (simp add: algebra_simps)

lemma multiply_row_correct:
  assumes "multiply_row right x lo n ro c d = (c', d')"
    "decimal right" "x \<le> 9" "c \<le> 9" "ro \<le> length right" "lo + length right \<le> n"
    "n \<le> length d" "decimal (take n d)"
  shows "length d' = length d \<and> drop n d' = drop n d \<and> decimal (take n d') \<and> c' \<le> 9
    \<and> dec (take n d') + c' * 10 ^ (lo + length right)
      = dec (take n d) + c * 10 ^ (lo + ro)
        + x * dec (take (length right - ro) right) * 10 ^ (lo + ro)"
  using assms
proof (induction right x lo n ro c d arbitrary: c' d' rule: multiply_row.induct)
  case (1 right x lo n ro c d)
  show ?case
  proof (cases "ro < length right")
    case False
    with "1.prems" show ?thesis by (simp add: multiply_row.simps)
  next
    case True
    define k where "k = lo + ro"
    define r where "r = digit_of (right ! (length right - 1 - ro))"
    define e where "e = digit_of (d ! (n - 1 - k))"
    define t where "t = x * r + e + c"
    let ?d = "d[n - 1 - k := digit_char (t mod 10)]"
    have k: "k < n" "n - 1 - k < n" using True "1.prems"(6) by (auto simp: k_def)
    have re: "r \<le> 9" "e \<le> 9"
      using True k "1.prems"(2,7,8) decimal_nth [of "take n d" "n - 1 - k"]
      by (auto simp: r_def e_def intro!: digit_of_le decimal_nth)
    have "x * r \<le> 9 * 9" using "1.prems"(3) re(1) by (rule mult_le_mono)
    then have t: "t div 10 \<le> 9" using re(2) "1.prems"(4) by (simp add: t_def)
    have row: "multiply_row right x lo n (ro + 1) (t div 10) ?d = (c', d')"
      using "1.prems"(1) True
      by (subst (asm) multiply_row.simps) (simp add: Let_def r_def e_def t_def k_def)
    have dd: "decimal (take n ?d)" using "1.prems"(7,8) k by (intro decimal_take_update) simp_all
    have IH: "length d' = length ?d \<and> drop n d' = drop n ?d \<and> decimal (take n d') \<and> c' \<le> 9
      \<and> dec (take n d') + c' * 10 ^ (lo + length right)
        = dec (take n ?d) + t div 10 * 10 ^ (lo + (ro + 1))
          + x * dec (take (length right - (ro + 1)) right) * 10 ^ (lo + (ro + 1))"
      using "1.IH" [OF True refl refl refl, of c' d'] "1.prems" True row t dd
      by (simp add: r_def e_def t_def k_def)
    have tk: "dec (take (length right - ro) right)
        = dec (take (length right - (ro + 1)) right) * 10 + r"
      using dec_take_pred [of "length right - ro" right] True by (simp add: r_def)
    have upd: "dec (take n ?d) + e * 10 ^ k = dec (take n d) + (t mod 10) * 10 ^ k"
      using dec_take_update [OF k(1) "1.prems"(7), of "digit_char (t mod 10)"] by (simp add: e_def)
    have "dec (take n d') + c' * 10 ^ (lo + length right)
        = dec (take n d) + c * 10 ^ k
          + x * (dec (take (length right - (ro + 1)) right) * 10 + r) * 10 ^ k"
      using IH by (intro row_step [OF upd t_def]) (simp add: k_def)
    then show ?thesis using IH k by (simp add: tk k_def)
  qed
qed

lemma product_carry_loop_correct:
  assumes "p < n" "n \<le> length d" "decimal (take n d)"
  shows "length (product_carry_loop c p d) = length d \<and> drop n (product_carry_loop c p d) = drop n d
    \<and> decimal (take n (product_carry_loop c p d))
    \<and> (\<exists>k. dec (take n (product_carry_loop c p d)) + k * 10 ^ n = dec (take n d) + c * 10 ^ (n - 1 - p))"
  using assms
proof (induction c p d rule: product_carry_loop.induct)
  case (1 c p d)
  define w where "w = n - 1 - p"
  define e where "e = digit_of (d ! p)"
  define t where "t = 0 + e + c"
  let ?d = "d[p := digit_char (t mod 10)]"
  have w: "w < n" "p = n - 1 - w" using "1.prems"(1) by (auto simp: w_def)
  have upd: "dec (take n ?d) + e * 10 ^ w = dec (take n d) + (t mod 10) * 10 ^ w"
    using dec_take_update [OF w(1) "1.prems"(2), of "digit_char (t mod 10)"]
    unfolding w(2) [symmetric] e_def by simp
  have col: "dec (take n ?d) + (t div 10) * (10 * 10 ^ w) = dec (take n d) + c * 10 ^ w"
    using column_step [OF upd t_def] by simp
  have dd: "decimal (take n ?d)" using "1.prems" by (intro decimal_take_update) simp_all
  consider "c = 0" | "c > 0" "p = 0" | "c > 0" "p > 0" by auto
  then show ?case
  proof cases
    case 1
    with "1.prems" show ?thesis by (auto simp: product_carry_loop.simps intro: exI [of _ 0])
  next
    case 2
    then have "product_carry_loop c p d = ?d" by (subst product_carry_loop.simps) (simp add: Let_def e_def t_def)
    moreover have "10 * 10 ^ w = (10::nat) ^ n"
      using 2 "1.prems"(1) power_Suc [of "10::nat" w] by (simp add: w_def)
    ultimately show ?thesis using col dd "1.prems" 2 by (auto simp: w_def)
  next
    case 3
    have eq: "product_carry_loop c p d = product_carry_loop (t div 10) (p - 1) ?d"
      using 3 by (subst product_carry_loop.simps) (simp add: Let_def e_def t_def)
    have w': "n - 1 - (p - 1) = Suc w" using 3 "1.prems"(1) by (simp add: w_def)
    have IH: "length (product_carry_loop (t div 10) (p - 1) ?d) = length ?d
        \<and> drop n (product_carry_loop (t div 10) (p - 1) ?d) = drop n ?d
        \<and> decimal (take n (product_carry_loop (t div 10) (p - 1) ?d))
        \<and> (\<exists>k. dec (take n (product_carry_loop (t div 10) (p - 1) ?d)) + k * 10 ^ n
             = dec (take n ?d) + t div 10 * 10 ^ (n - 1 - (p - 1)))"
      using "1.IH" [OF 3(1) refl refl] 3 "1.prems" dd by (simp add: e_def t_def)
    show ?thesis using IH col 3 "1.prems" unfolding eq w' w_def [symmetric] by simp
  qed
qed

lemma multiply_rows_correct:
  assumes "decimal left" "decimal right" "lo \<le> length left"
    "length left + length right \<le> length d" "decimal (take (length left + length right) d)"
    "dec (take (length left + length right) d) = dec (drop (length left - lo) left) * dec right"
  shows "length (multiply_rows left right lo d) = length d
    \<and> drop (length left + length right) (multiply_rows left right lo d)
        = drop (length left + length right) d
    \<and> decimal (take (length left + length right) (multiply_rows left right lo d))
    \<and> dec (take (length left + length right) (multiply_rows left right lo d)) = dec left * dec right"
  using assms
proof (induction left right lo d rule: multiply_rows.induct)
  case (1 left right lo d)
  define n where "n = length left + length right"
  show ?case
  proof (cases "lo < length left")
    case False
    with "1.prems" show ?thesis by (simp add: multiply_rows.simps)
  next
    case True
    define x where "x = digit_of (left ! (length left - 1 - lo))"
    obtain c d1 where row: "multiply_row right x lo n 0 0 d = (c, d1)" by fastforce
    define d2 where "d2 = product_carry_loop c (n - 1 - (lo + length right)) d1"
    have rows: "multiply_rows left right lo d = multiply_rows left right (lo + 1) d2"
      using True row by (subst multiply_rows.simps) (simp add: n_def x_def d2_def)
    have x: "x \<le> 9" using True "1.prems"(1) by (auto simp: x_def intro!: digit_of_le decimal_nth)
    have r: "length d1 = length d" "drop n d1 = drop n d" "decimal (take n d1)"
      "dec (take n d1) + c * 10 ^ (lo + length right)
        = dec (take n d) + x * dec right * 10 ^ lo"
      using multiply_row_correct [OF row "1.prems"(2) x] True "1.prems" by (simp_all add: n_def)
    have p: "n - 1 - (lo + length right) < n" "n - 1 - (n - 1 - (lo + length right)) = lo + length right"
      using True by (auto simp: n_def)
    obtain k where c: "length d2 = length d1" "drop n d2 = drop n d1" "decimal (take n d2)"
      "dec (take n d2) + k * 10 ^ n = dec (take n d1) + c * 10 ^ (lo + length right)"
      using product_carry_loop_correct [OF p(1), of d1 c, unfolded p(2), folded d2_def] r(1,3) "1.prems"(4)
      by (auto simp: n_def)
    have split: "drop (length left - (lo + 1)) left
        = left ! (length left - 1 - lo) # drop (length left - lo) left"
      using True Cons_nth_drop_Suc [of "length left - (lo + 1)" left] by (simp add: Suc_diff_Suc)
    have "dec (drop (length left - (lo + 1)) left) = x * 10 ^ lo + dec (drop (length left - lo) left)"
      using True unfolding split by (simp add: dec_Cons x_def)
    then have total: "dec (take n d2) + k * 10 ^ n
        = dec (drop (length left - (lo + 1)) left) * dec right"
      using c(4) r(4) "1.prems"(6) by (simp add: n_def algebra_simps)
    have "dec (drop (length left - (lo + 1)) left) < 10 ^ (lo + 1)"
      using dec_less [OF decimal_drop [OF "1.prems"(1)], of "length left - (lo + 1)"] True by simp
    then have "dec (drop (length left - (lo + 1)) left) * dec right < 10 ^ (lo + 1) * 10 ^ length right"
      using dec_less [OF "1.prems"(2)] by (intro mult_strict_mono) simp_all
    also have "\<dots> \<le> 10 ^ n"
      unfolding power_add [symmetric] n_def using True by (intro power_increasing) simp_all
    finally have "k * 10 ^ n < 1 * 10 ^ n" using total by linarith
    then have "k = 0" by (simp only: mult_less_cancel2) simp
    with total have "dec (take n d2) = dec (drop (length left - (lo + 1)) left) * dec right" by simp
    then show ?thesis
      using "1.IH" [OF True refl row [symmetric, unfolded x_def n_def] refl] True "1.prems" c r
      unfolding rows by (simp add: n_def x_def d2_def)
  qed
qed

end
