(* ===== verification/Big_Number_Api.thy ===== *)
theory Big_Number_Api
  imports Big_Number_Ops
begin

text \<open>
  The public operations of \<open>ft_big_number\<close> that are built from the ones before: the locked
  editors, division and remainder, comparison, the accessors, decimal and positional
  parsing, printing in a base, modular exponentiation, the operators of the proxy, and the
  hexadecimal helpers of \<^verbatim>\<open>src/Modules/CPP_class/cpp_class_big_number_serialization.cpp\<close>.
\<close>

subsection \<open>Editors\<close>

text \<open>
  \<open>append_digit\<close>, \<open>append\<close> and \<open>append_unsigned\<close> keep an error that was stored before the call.
\<close>

definition bn_append_digit ::
  "number_env \<Rightarrow> ft_err \<Rightarrow> big_number \<Rightarrow> u8 \<Rightarrow> (big_number \<times> ft_err) option" where
  "bn_append_digit env last_error b digit =
     (if bn_lock env b \<noteq> FT_ERR_SUCCESS then Some (b, bn_lock env b)
      else do {
        b1 \<leftarrow> append_digit_unlocked env b digit;
        Some (b1, if last_error \<noteq> FT_ERR_SUCCESS then last_error else FT_ERR_SUCCESS)
      })"

definition bn_append ::
  "number_env \<Rightarrow> ft_err \<Rightarrow> big_number \<Rightarrow> ptr \<Rightarrow> (big_number \<times> ft_err) option" where
  "bn_append env last_error b digits =
     (if bn_lock env b \<noteq> FT_ERR_SUCCESS then Some (b, bn_lock env b)
      else if digits = None then Some (b, FT_ERR_INVALID_ARGUMENT)
      else do {
        b1 \<leftarrow> append_unlocked env b digits;
        Some (b1, if last_error \<noteq> FT_ERR_SUCCESS then last_error else FT_ERR_SUCCESS)
      })"

definition bn_append_unsigned ::
  "number_env \<Rightarrow> ft_err \<Rightarrow> big_number \<Rightarrow> u64 \<Rightarrow> (big_number \<times> ft_err) option" where
  "bn_append_unsigned env last_error b v =
     (if bn_lock env b \<noteq> FT_ERR_SUCCESS then Some (b, bn_lock env b)
      else do {
        b1 \<leftarrow> append_unsigned_unlocked env b v;
        Some (b1, if last_error \<noteq> FT_ERR_SUCCESS then last_error else FT_ERR_SUCCESS)
      })"

definition bn_trim_leading_zeros :: "number_env \<Rightarrow> big_number \<Rightarrow> (big_number \<times> ft_err) option" where
  "bn_trim_leading_zeros env b =
     (if bn_lock env b \<noteq> FT_ERR_SUCCESS then Some (b, bn_lock env b)
      else do { b1 \<leftarrow> trim_leading_zeros_unlocked env b; Some (b1, FT_ERR_SUCCESS) })"

definition bn_reduce_to ::
  "number_env \<Rightarrow> big_number \<Rightarrow> nat \<Rightarrow> (big_number \<times> ft_err) option" where
  "bn_reduce_to env b new_size =
     (if bn_lock env b \<noteq> FT_ERR_SUCCESS then Some (b, bn_lock env b)
      else do { b1 \<leftarrow> reduce_to_unlocked env b new_size; Some (b1, FT_ERR_SUCCESS) })"

definition bn_clear :: "number_env \<Rightarrow> big_number \<Rightarrow> (big_number \<times> ft_err) option" where
  "bn_clear env b =
     (if bn_lock env b \<noteq> FT_ERR_SUCCESS then Some (b, bn_lock env b)
      else do { b1 \<leftarrow> clear_unlocked env b; Some (b1, FT_ERR_SUCCESS) })"

subsection \<open>Division\<close>

abbreviation bn_zero :: big_number where
  "bn_zero \<equiv> bn_reset Initialised bn_constructor"

text \<open>
  The search for the next digit of the quotient. The result starts with the error that
  leaves the division, \<open>FT_ERR_SUCCESS\<close> when the search ends.
\<close>

function candidate_loop ::
  "number_env \<Rightarrow> big_number \<Rightarrow> big_number \<Rightarrow> nat \<Rightarrow> nat \<Rightarrow> big_number
     \<Rightarrow> (ft_err \<times> nat \<times> big_number) option" where
  "candidate_loop env other remainder candidate best best_product =
     (if candidate \<le> 9
      then do {
        (multiplier, e1) \<leftarrow> bn_append_digit env FT_ERR_SUCCESS bn_zero (digit_char candidate);
        (if e1 \<noteq> FT_ERR_SUCCESS then Some (e1, best, best_product)
         else do {
           (p, e2) \<leftarrow> bn_multiply env other multiplier;
           (product, e3) \<leftarrow> bn_store env bn_zero p;
           (if e3 \<noteq> FT_ERR_SUCCESS then Some (e3, best, best_product)
            else
              let comparison = compare_magnitude product remainder
              in if comparison \<le> 0
                 then do {
                   (best_product', e4) \<leftarrow> bn_copy_assign env False best_product product;
                   candidate_loop env other remainder
                     (if comparison = 0 then 10 else candidate + 1) candidate best_product'
                 }
                 else candidate_loop env other remainder 10 best best_product)
         })
      }
      else Some (FT_ERR_SUCCESS, best, best_product))"
  by pat_completeness auto
termination
  by (relation "measure (\<lambda>(env, other, r, c, b, p). 10 - c)") auto

declare candidate_loop.simps [simp del]

text \<open>One quotient digit and the remainder that is left.\<close>

definition divide_step ::
  "number_env \<Rightarrow> big_number \<Rightarrow> big_number \<Rightarrow> (ft_err \<times> nat \<times> big_number) option" where
  "divide_step env other remainder =
     (if compare_magnitude remainder other \<ge> 0
      then do {
        (e, best, best_product) \<leftarrow> candidate_loop env other remainder 1 0 bn_zero;
        (if e \<noteq> FT_ERR_SUCCESS then Some (e, best, remainder)
         else if best > 0
         then do {
           m \<leftarrow> subtract_magnitude env remainder best_product;
           (case m of
              None \<Rightarrow> Some (FT_ERR_NO_MEMORY, best, remainder)
            | Some magnitude_result \<Rightarrow> do {
                (r, e2) \<leftarrow> take_magnitude env remainder magnitude_result;
                Some (e2, best, r)
              })
         }
         else Some (FT_ERR_SUCCESS, best, remainder))
      }
      else Some (FT_ERR_SUCCESS, 0, remainder))"

fun divide_loop ::
  "number_env \<Rightarrow> big_number \<Rightarrow> bytes \<Rightarrow> big_number \<Rightarrow> big_number \<Rightarrow> (ft_err \<times> big_number) option" where
  "divide_loop env other [] remainder result = Some (FT_ERR_SUCCESS, result)"
| "divide_loop env other (c # cs) remainder result =
     do {
       (r1, e1) \<leftarrow> bn_append_digit env FT_ERR_SUCCESS remainder c;
       (if e1 \<noteq> FT_ERR_SUCCESS then Some (e1, result)
        else do {
          (r2, e2) \<leftarrow> bn_trim_leading_zeros env r1;
          (if e2 \<noteq> FT_ERR_SUCCESS then Some (e2, result)
           else do {
             (e3, best, r3) \<leftarrow> divide_step env other r2;
             (if e3 \<noteq> FT_ERR_SUCCESS then Some (e3, result)
              else do {
                (result1, e4) \<leftarrow> bn_append_digit env FT_ERR_SUCCESS result (digit_char best);
                (if e4 \<noteq> FT_ERR_SUCCESS then Some (e4, result1)
                 else divide_loop env other cs r3 result1)
              })
           })
        })
     }"

text \<open>The signs of a quotient: \<open>result\<close> is not negative unless the operands differ in sign.\<close>

definition quotient_sign :: "big_number \<Rightarrow> big_number \<Rightarrow> big_number \<Rightarrow> big_number" where
  "quotient_sign a b result =
     result\<lparr>bn_is_negative := (if is_zero_value result then False
                               else if bn_is_negative a \<noteq> bn_is_negative b then True
                               else bn_is_negative result)\<rparr>"

definition divide_body ::
  "number_env \<Rightarrow> big_number \<Rightarrow> big_number \<Rightarrow> (ft_err \<times> big_number) option" where
  "divide_body env a b =
     (if is_zero_value b then Some (FT_ERR_DIVIDE_BY_ZERO, bn_zero)
      else if is_zero_value a then Some (FT_ERR_SUCCESS, bn_zero)
      else if compare_magnitude a b < 0 then Some (FT_ERR_SUCCESS, bn_zero)
      else if compare_magnitude a b = 0
      then do {
        (r, e) \<leftarrow> bn_append_digit env FT_ERR_SUCCESS bn_zero 49;
        Some (e, if e = FT_ERR_SUCCESS then quotient_sign a b r else r)
      }
      else do {
        (e1, r1) \<leftarrow> divide_loop env b (bn_text a) bn_zero bn_zero;
        (if e1 \<noteq> FT_ERR_SUCCESS then Some (e1, r1)
         else do {
           (r2, e2) \<leftarrow> bn_trim_leading_zeros env r1;
           Some (e2, if e2 = FT_ERR_SUCCESS then quotient_sign a b r2 else r2)
         })
      })"

definition bn_divide ::
  "number_env \<Rightarrow> big_number \<Rightarrow> big_number \<Rightarrow> (number_proxy \<times> ft_err) option" where
  "bn_divide env a b =
     do {
       (operation_error, result) \<leftarrow>
         (if bn_lock_pair env a b \<noteq> FT_ERR_SUCCESS then Some (bn_lock_pair env a b, bn_zero)
          else divide_body env a b);
       (if operation_error \<noteq> FT_ERR_SUCCESS
        then Some (proxy_of_error operation_error, bn_leave env result operation_error)
        else do {
          p \<leftarrow> proxy_of_value env result;
          Some (p, bn_leave env result FT_ERR_SUCCESS)
        })
     }"

text \<open>
  \<open>operator%\<close> computes \<open>a - (a / b) * b\<close> and checks \<open>_last_error\<close> after each assignment.
\<close>

definition bn_modulo ::
  "number_env \<Rightarrow> big_number \<Rightarrow> big_number \<Rightarrow> (number_proxy \<times> ft_err) option" where
  "bn_modulo env a b =
     do {
       (p1, l1) \<leftarrow> bn_divide env a b;
       (quotient, e1) \<leftarrow> bn_store env bn_zero p1;
       (if e1 \<noteq> FT_ERR_SUCCESS then Some (proxy_of_error e1, bn_leave env quotient e1)
        else do {
          (p2, l2) \<leftarrow> bn_multiply env quotient b;
          (product, e2) \<leftarrow> bn_store env bn_zero p2;
          (if e2 \<noteq> FT_ERR_SUCCESS then Some (proxy_of_error e2, bn_leave env product e2)
           else do {
             (p3, l3) \<leftarrow> bn_subtract env a product;
             (r1, e3) \<leftarrow> bn_store env bn_zero p3;
             (if e3 \<noteq> FT_ERR_SUCCESS then Some (proxy_of_error e3, bn_leave env r1 e3)
              else do {
                (r2, e4) \<leftarrow> bn_trim_leading_zeros env r1;
                (if e4 \<noteq> FT_ERR_SUCCESS then Some (proxy_of_error e4, bn_leave env r2 e4)
                 else do {
                   p \<leftarrow> proxy_of_value env
                         (if is_zero_value r2 then r2\<lparr>bn_is_negative := False\<rparr> else r2);
                   Some (p, bn_leave env r2 FT_ERR_SUCCESS)
                 })
              })
           })
        })
     }"

subsection \<open>Comparison operators\<close>

text \<open>
  \<open>operator<\<close> and \<open>operator==\<close> answer \<^term>\<open>False\<close> when an earlier operation left an error, and
  clear that error.
\<close>

definition bn_less :: "number_env \<Rightarrow> ft_err \<Rightarrow> big_number \<Rightarrow> big_number \<Rightarrow> bool \<times> ft_err" where
  "bn_less env last_error a b =
     ((if bn_lock_pair env a b \<noteq> FT_ERR_SUCCESS then False
       else if last_error \<noteq> FT_ERR_SUCCESS then False
       else if is_zero_value a \<and> is_zero_value b then False
       else if bn_is_negative a \<and> \<not> bn_is_negative b then True
       else if \<not> bn_is_negative a \<and> bn_is_negative b then False
       else if bn_is_negative a \<and> bn_is_negative b then compare_magnitude a b > 0
       else compare_magnitude a b < 0),
      FT_ERR_SUCCESS)"

definition bn_equal :: "number_env \<Rightarrow> ft_err \<Rightarrow> big_number \<Rightarrow> big_number \<Rightarrow> bool \<times> ft_err" where
  "bn_equal env last_error a b =
     ((if bn_lock_pair env a b \<noteq> FT_ERR_SUCCESS then False
       else if last_error \<noteq> FT_ERR_SUCCESS then False
       else if is_zero_value a \<and> is_zero_value b then True
       else if bn_is_negative a \<noteq> bn_is_negative b then False
       else if bn_size a \<noteq> bn_size b then False
       else if bn_size a = 0 then True
       else if bn_digits a = None \<or> bn_digits b = None then False
       else bn_text a = bn_text b),
      FT_ERR_SUCCESS)"

definition bn_not_equal :: "number_env \<Rightarrow> ft_err \<Rightarrow> big_number \<Rightarrow> big_number \<Rightarrow> bool \<times> ft_err" where
  "bn_not_equal env last_error a b =
     (let (eq, e) = bn_equal env last_error a b in (\<not> eq, e))"

definition bn_less_equal :: "number_env \<Rightarrow> ft_err \<Rightarrow> big_number \<Rightarrow> big_number \<Rightarrow> bool \<times> ft_err" where
  "bn_less_equal env last_error a b =
     (let (lt, e) = bn_less env last_error a b in if lt then (True, e) else bn_equal env e a b)"

definition bn_greater :: "number_env \<Rightarrow> ft_err \<Rightarrow> big_number \<Rightarrow> big_number \<Rightarrow> bool \<times> ft_err" where
  "bn_greater env last_error a b = bn_less env last_error b a"

definition bn_greater_equal ::
  "number_env \<Rightarrow> ft_err \<Rightarrow> big_number \<Rightarrow> big_number \<Rightarrow> bool \<times> ft_err" where
  "bn_greater_equal env last_error a b =
     (let (gt, e) = bn_greater env last_error a b in if gt then (True, e) else bn_equal env e a b)"

subsection \<open>Accessors\<close>

text \<open>\<open>c_str\<close> returns the block itself, or the string \<open>"0"\<close>.\<close>

definition bn_c_str :: "number_env \<Rightarrow> big_number \<Rightarrow> bytes \<times> ft_err" where
  "bn_c_str env b =
     (if bn_lock env b \<noteq> FT_ERR_SUCCESS then ([48, 0], bn_lock env b)
      else (case bn_digits b of
              Some d \<Rightarrow> if bn_size b > 0 then d else [48, 0]
            | None \<Rightarrow> [48, 0], FT_ERR_SUCCESS))"

definition bn_observe :: "number_env \<Rightarrow> big_number \<Rightarrow> 'r \<Rightarrow> 'r \<Rightarrow> 'r \<times> ft_err" where
  "bn_observe env b fallback result =
     (if bn_lock env b \<noteq> FT_ERR_SUCCESS then (fallback, bn_lock env b)
      else (result, FT_ERR_SUCCESS))"

definition bn_size_of :: "number_env \<Rightarrow> big_number \<Rightarrow> nat \<times> ft_err" where
  "bn_size_of env b = bn_observe env b 0 (bn_size b)"

definition bn_empty :: "number_env \<Rightarrow> big_number \<Rightarrow> bool \<times> ft_err" where
  "bn_empty env b = bn_observe env b True (bn_size b = 0)"

definition bn_negative :: "number_env \<Rightarrow> big_number \<Rightarrow> bool \<times> ft_err" where
  "bn_negative env b =
     bn_observe env b False (if is_zero_value b then False else bn_is_negative b)"

definition bn_positive :: "number_env \<Rightarrow> big_number \<Rightarrow> bool \<times> ft_err" where
  "bn_positive env b =
     bn_observe env b False (if is_zero_value b then False else \<not> bn_is_negative b)"

subsection \<open>Parsing\<close>

text \<open>
  The validation loop of \<open>assign\<close>: the number of digits, \<^term>\<open>Some None\<close> for another character.
\<close>

fun scan_digits :: "bytes \<Rightarrow> nat option option" where
  "scan_digits [] = None"
| "scan_digits (c # cs) =
     (if c = 0 then Some (Some 0)
      else if c < 48 \<or> c > 57 then Some None
      else map_option (map_option Suc) (scan_digits cs))"

text \<open>\<open>assign\<close> reports nothing: an argument it does not accept leaves the object as it was.\<close>

definition bn_assign :: "number_env \<Rightarrow> big_number \<Rightarrow> ptr \<Rightarrow> big_number option" where
  "bn_assign env b number =
     (if bn_lock env b \<noteq> FT_ERR_SUCCESS then Some b
      else case number of
        None \<Rightarrow> Some b
      | Some [] \<Rightarrow> None
      | Some (c # cs) \<Rightarrow>
          let parsed_negative = (c = 45); digits = (if parsed_negative then cs else c # cs)
          in do {
               scanned \<leftarrow> scan_digits digits;
               (case scanned of
                  None \<Rightarrow> Some b
                | Some len \<Rightarrow>
                    if len = 0 then (if parsed_negative then Some b else clear_unlocked env b)
                    else
                      let b1 = (if len + 1 > bn_capacity b \<or> bn_digits b = None
                                then bn_reserve env b (len + 1) else b)
                      in case bn_digits b1 of
                           None \<Rightarrow> Some b1
                         | Some d \<Rightarrow>
                             if length d < len + 1 then None
                             else do {
                               b2 \<leftarrow> trim_leading_zeros_unlocked env
                                       (b1\<lparr>bn_digits := Some ((write_block d 0 (take len digits))[len := 0]),
                                           bn_size := len, bn_is_negative := parsed_negative\<rparr>);
                               Some (if is_zero_value b2 then b2\<lparr>bn_is_negative := False\<rparr> else b2)
                             })
             })"

fun assign_base_loop ::
  "number_env \<Rightarrow> int \<Rightarrow> big_number \<Rightarrow> bytes \<Rightarrow> big_number \<Rightarrow> (ft_err \<times> big_number) option" where
  "assign_base_loop env base base_number [] result = None"
| "assign_base_loop env base base_number (c # cs) result =
     (if c = 0 then Some (FT_ERR_SUCCESS, result)
      else let digit_value = ft_big_number_digit_value c
      in if digit_value < 0 \<or> digit_value \<ge> base then Some (FT_ERR_INVALID_ARGUMENT, result)
      else do {
        (p1, l1) \<leftarrow> bn_multiply env result base_number;
        (product, e1) \<leftarrow> bn_store env bn_zero p1;
        (if e1 \<noteq> FT_ERR_SUCCESS then Some (e1, result)
         else do {
           (r1, e2) \<leftarrow> bn_copy_assign env False result product;
           (if e2 \<noteq> FT_ERR_SUCCESS then Some (e2, r1)
            else do {
              (addend, e3) \<leftarrow> bn_append_unsigned env FT_ERR_SUCCESS bn_zero (word_of_int digit_value);
              (if e3 \<noteq> FT_ERR_SUCCESS then Some (e3, r1)
               else do {
                 (p2, l2) \<leftarrow> bn_add env r1 addend;
                 (sum, e4) \<leftarrow> bn_store env bn_zero p2;
                 (if e4 \<noteq> FT_ERR_SUCCESS then Some (e4, r1)
                  else do {
                    (r2, e5) \<leftarrow> bn_copy_assign env False r1 sum;
                    (if e5 \<noteq> FT_ERR_SUCCESS then Some (e5, r2)
                     else assign_base_loop env base base_number cs r2)
                  })
               })
            })
         })
      })"

text \<open>The last part of \<open>assign_base\<close>: the digits of the parsed number are copied into the object.\<close>

definition assign_base_store ::
  "number_env \<Rightarrow> big_number \<Rightarrow> bool \<Rightarrow> big_number \<Rightarrow> big_number option" where
  "assign_base_store env b parsed_negative result =
     (let b1 = (if bn_size result + 1 > bn_capacity b \<or> bn_digits b = None
                then bn_reserve env b (bn_size result + 1) else b)
      in do {
           b2 \<leftarrow> (if bn_size result > 0 \<and> bn_digits result \<noteq> None
                  then case (bn_digits b1, bn_digits result) of
                         (Some d, Some s) \<Rightarrow>
                           if bn_size result + 1 \<le> length d \<and> bn_size result + 1 \<le> length s
                           then Some (b1\<lparr>bn_digits :=
                                  Some (write_block d 0 (take (bn_size result + 1) s))\<rparr>)
                           else None
                       | _ \<Rightarrow> None
                  else if bn_digits b1 = None then Some b1 else bn_put b1 0 0);
           (let b3 = b2\<lparr>bn_size := bn_size result,
                        bn_is_negative := (parsed_negative \<and> \<not> is_zero_value result)\<rparr>;
                b4 = (if is_zero_value b3 then b3\<lparr>bn_is_negative := False\<rparr> else b3)
            in do {
                 b5 \<leftarrow> (if bn_digits b4 = None then Some b4 else bn_put b4 (bn_size b4) 0);
                 Some (bn_shrink_capacity env b5)
               })
         })"

text \<open>
  \<open>assign_base\<close> returns its error; \<open>_last_error\<close> is \<open>FT_ERR_SUCCESS\<close> afterwards unless the lock failed.
\<close>

definition bn_assign_base ::
  "number_env \<Rightarrow> big_number \<Rightarrow> ptr \<Rightarrow> int \<Rightarrow> (big_number \<times> ft_err \<times> ft_err) option" where
  "bn_assign_base env b digits base =
     (if bn_lock env b \<noteq> FT_ERR_SUCCESS then Some (b, bn_lock env b, bn_lock env b)
      else if digits = None \<or> base < 2 \<or> base > 16
      then Some (b, FT_ERR_INVALID_ARGUMENT, FT_ERR_SUCCESS)
      else case the digits of
        [] \<Rightarrow> None
      | c # cs \<Rightarrow>
          let parsed_negative = (c = 45); rest = (if parsed_negative then cs else c # cs)
          in case rest of
               [] \<Rightarrow> None
             | c' # cs' \<Rightarrow>
                 if c' = 0 then Some (b, FT_ERR_INVALID_ARGUMENT, FT_ERR_SUCCESS)
                 else do {
                   (base_number, e1) \<leftarrow>
                     bn_append_unsigned env FT_ERR_SUCCESS bn_zero (word_of_int base);
                   (if e1 \<noteq> FT_ERR_SUCCESS then Some (b, e1, FT_ERR_SUCCESS)
                    else do {
                      (e2, result) \<leftarrow> assign_base_loop env base base_number (c' # cs') bn_zero;
                      (if e2 \<noteq> FT_ERR_SUCCESS then Some (b, e2, FT_ERR_SUCCESS)
                       else do {
                         b1 \<leftarrow> assign_base_store env b parsed_negative result;
                         Some (b1, FT_ERR_SUCCESS, FT_ERR_SUCCESS)
                       })
                    })
                 })"

subsection \<open>Printing\<close>

text \<open>
  The \<open>ft_string\<close> that \<open>to_string_base\<close> returns: null, one that carries an error, or its
  characters. A string that cannot take a character is left as it is and notes the error in its own
  \<open>_last_error\<close>; the code tests that of the big number instead, so the character is
  missing and the conversion goes on.
\<close>

datatype number_string = String_null | String_error ft_err | String_text bytes

definition string_append :: "number_env \<Rightarrow> bytes \<Rightarrow> u8 \<Rightarrow> bytes" where
  "string_append env s c = (if ne_append env (length s) then s @ [c] else s)"

text \<open>Reading the decimal characters of a remainder up to the terminator.\<close>

fun remainder_value_loop :: "bytes \<Rightarrow> int \<Rightarrow> int option" where
  "remainder_value_loop [] v = None"
| "remainder_value_loop (c # cs) v =
     (if c = 0 then Some v else remainder_value_loop cs (v * 10 + (sint c - 48)))"

text \<open>The digits, least significant first, or the error that ends the conversion.\<close>

partial_function (option) to_string_loop ::
  "number_env \<Rightarrow> big_number \<Rightarrow> big_number \<Rightarrow> bytes \<Rightarrow> (ft_err \<times> bytes) option" where
  "to_string_loop env base_value magnitude digits =
     (if is_zero_value magnitude then Some (FT_ERR_SUCCESS, digits)
      else do {
        (p1, l1) \<leftarrow> bn_divide env magnitude base_value;
        (quotient, e1) \<leftarrow> bn_store env bn_zero p1;
        (if e1 \<noteq> FT_ERR_SUCCESS then Some (e1, digits)
         else do {
           (p2, l2) \<leftarrow> bn_multiply env quotient base_value;
           (product, e2) \<leftarrow> bn_store env bn_zero p2;
           (if e2 \<noteq> FT_ERR_SUCCESS then Some (e2, digits)
            else do {
              (p3, l3) \<leftarrow> bn_subtract env magnitude product;
              (remainder_number, e3) \<leftarrow> bn_store env bn_zero p3;
              (if e3 \<noteq> FT_ERR_SUCCESS then Some (e3, digits)
               else do {
                 remainder_value \<leftarrow> remainder_value_loop (fst (bn_c_str env remainder_number)) 0;
                 (let digit_symbol = ft_big_number_digit_symbol remainder_value
                  in if digit_symbol = 0 then Some (FT_ERR_INVALID_ARGUMENT, digits)
                     else do {
                       (m1, e4) \<leftarrow> bn_copy_assign env False magnitude quotient;
                       (if e4 \<noteq> FT_ERR_SUCCESS then Some (e4, string_append env digits digit_symbol)
                        else to_string_loop env base_value (m1\<lparr>bn_is_negative := False\<rparr>)
                               (string_append env digits digit_symbol))
                     })
               })
            })
         })
      })"

declare to_string_loop.simps [code]

definition bn_to_string_base ::
  "number_env \<Rightarrow> ft_err \<Rightarrow> big_number \<Rightarrow> int \<Rightarrow> (number_string \<times> ft_err) option" where
  "bn_to_string_base env last_error b base =
     (if base < 2 \<or> base > 16
      then Some (String_error FT_ERR_INVALID_ARGUMENT, FT_ERR_INVALID_ARGUMENT)
      else if bn_lock env b \<noteq> FT_ERR_SUCCESS
      then Some (String_error (bn_lock env b), bn_lock env b)
      else if last_error \<noteq> FT_ERR_SUCCESS then Some (String_error last_error, last_error)
      else if is_zero_value b
      then Some (if ne_new env then (String_text (string_append env [] 48), FT_ERR_SUCCESS)
                 else (String_null, FT_ERR_NO_MEMORY))
      else do {
        (magnitude, e0) \<leftarrow> bn_initialize_copy env False bn_constructor b;
        (base_value, e1) \<leftarrow> bn_append_unsigned env FT_ERR_SUCCESS bn_zero (word_of_int base);
        (if e1 \<noteq> FT_ERR_SUCCESS then Some (String_error e1, bn_leave env magnitude e1)
         else do {
           (e2, digits) \<leftarrow> to_string_loop env base_value (magnitude\<lparr>bn_is_negative := False\<rparr>) [];
           (if e2 \<noteq> FT_ERR_SUCCESS then Some (String_error e2, bn_leave env magnitude e2)
            else if \<not> ne_new env
            then Some (String_null, bn_leave env magnitude FT_ERR_NO_MEMORY)
            else Some (String_text (foldl (string_append env)
                         (if bn_is_negative b then string_append env [] 45 else []) (rev digits)),
                       bn_leave env magnitude FT_ERR_SUCCESS))
         })
      })"

subsection \<open>Modular exponentiation\<close>

definition mod_pow_error :: "number_env \<Rightarrow> ft_err \<Rightarrow> big_number option" where
  "mod_pow_error env error_code =
     map_option (\<lambda>r. r\<lparr>bn_operation_error := (if error_code = FT_ERR_SUCCESS
                                              then FT_ERR_INVALID_STATE else error_code)\<rparr>)
       (bn_new env)"

text \<open>Both loops return the error that leaves \<open>mod_pow\<close>, or \<open>FT_ERR_SUCCESS\<close>, and a number.\<close>

partial_function (option) mod_pow_adjust ::
  "number_env \<Rightarrow> big_number \<Rightarrow> big_number \<Rightarrow> (ft_err \<times> big_number) option" where
  "mod_pow_adjust env modulus_value base_remainder =
     (if fst (bn_negative env base_remainder)
      then do {
        (p, l) \<leftarrow> bn_add env base_remainder modulus_value;
        (adjusted_base, e) \<leftarrow> bn_store env bn_zero p;
        (if e \<noteq> FT_ERR_SUCCESS then Some (e, base_remainder)
         else do {
           (r, e2) \<leftarrow> bn_copy_assign env False base_remainder adjusted_base;
           mod_pow_adjust env modulus_value r
         })
      }
      else Some (FT_ERR_SUCCESS, base_remainder))"

partial_function (option) mod_pow_loop ::
  "number_env \<Rightarrow> big_number \<Rightarrow> big_number \<Rightarrow> big_number \<Rightarrow> big_number \<Rightarrow> big_number
     \<Rightarrow> (ft_err \<times> big_number) option" where
  "mod_pow_loop env base_remainder modulus_value one exponent_value accumulator =
     (if is_zero_value exponent_value then Some (FT_ERR_SUCCESS, accumulator)
      else do {
        (p1, l1) \<leftarrow> bn_multiply env accumulator base_remainder;
        (product_value, e1) \<leftarrow> bn_store env bn_zero p1;
        (if e1 \<noteq> FT_ERR_SUCCESS then Some (e1, accumulator)
         else do {
           (p2, l2) \<leftarrow> bn_modulo env product_value modulus_value;
           (reduced_value, e2) \<leftarrow> bn_store env bn_zero p2;
           (if e2 \<noteq> FT_ERR_SUCCESS then Some (e2, accumulator)
            else do {
              (a1, e3) \<leftarrow> bn_copy_assign env False accumulator reduced_value;
              (p3, l3) \<leftarrow> bn_subtract env exponent_value one;
              (next_exponent, e4) \<leftarrow> bn_store env bn_zero p3;
              (if e4 \<noteq> FT_ERR_SUCCESS then Some (e4, a1)
               else do {
                 (x1, e5) \<leftarrow> bn_copy_assign env False exponent_value next_exponent;
                 (x2, e6) \<leftarrow> bn_trim_leading_zeros env (x1\<lparr>bn_is_negative := False\<rparr>);
                 mod_pow_loop env base_remainder modulus_value one x2 a1
               })
            })
         })
      })"

declare mod_pow_adjust.simps [code] mod_pow_loop.simps [code]

text \<open>A fresh object with the value that is returned: null when \<open>new\<close> fails twice.\<close>

definition mod_pow_result :: "number_env \<Rightarrow> big_number \<Rightarrow> big_number option option" where
  "mod_pow_result env accumulator =
     do {
       (a1, e1) \<leftarrow> bn_trim_leading_zeros env (accumulator\<lparr>bn_is_negative := False\<rparr>);
       (case bn_new env of
          None \<Rightarrow> Some (mod_pow_error env FT_ERR_NO_MEMORY)
        | Some r \<Rightarrow> do {
            (r1, e2) \<leftarrow> bn_initialize_copy env False bn_constructor a1;
            Some (if e2 \<noteq> FT_ERR_SUCCESS then mod_pow_error env e2 else Some r1)
          })
     }"

text \<open>
  \<open>mod_pow\<close>: the pointer it returns and \<open>_last_error\<close>, which the destructors of its locals set.
\<close>

definition bn_mod_pow ::
  "number_env \<Rightarrow> big_number \<Rightarrow> big_number \<Rightarrow> big_number \<Rightarrow> (big_number option \<times> ft_err) option" where
  "bn_mod_pow env b exponent modulus =
     do {
       (base_value, i1) \<leftarrow> bn_initialize_copy env False bn_constructor b;
       (exponent_value, i2) \<leftarrow> bn_initialize_copy env False bn_constructor exponent;
       (modulus_value, i3) \<leftarrow> bn_initialize_copy env False bn_constructor modulus;
       result \<leftarrow>
         (if is_zero_value modulus_value then Some (mod_pow_error env FT_ERR_DIVIDE_BY_ZERO)
          else if fst (bn_negative env modulus_value) \<or> fst (bn_negative env exponent_value)
          then Some (mod_pow_error env FT_ERR_INVALID_ARGUMENT)
          else do {
            (modulus1, e1) \<leftarrow> bn_trim_leading_zeros env (modulus_value\<lparr>bn_is_negative := False\<rparr>);
            (p, l) \<leftarrow> bn_modulo env base_value modulus1;
            (base_remainder, e2) \<leftarrow> bn_store env bn_zero p;
            (if e2 \<noteq> FT_ERR_SUCCESS then Some (mod_pow_error env e2)
             else do {
               (e3, adjusted) \<leftarrow> mod_pow_adjust env modulus1 base_remainder;
               (if e3 \<noteq> FT_ERR_SUCCESS then Some (mod_pow_error env e3)
                else do {
                  (remainder1, e4) \<leftarrow> bn_trim_leading_zeros env adjusted;
                  (exponent1, e5) \<leftarrow>
                    bn_trim_leading_zeros env (exponent_value\<lparr>bn_is_negative := False\<rparr>);
                  (one, e6) \<leftarrow> bn_append_digit env FT_ERR_SUCCESS bn_zero 49;
                  (if e6 \<noteq> FT_ERR_SUCCESS then Some (mod_pow_error env e6)
                   else if is_zero_value exponent1
                   then (case bn_new env of
                           None \<Rightarrow> Some (mod_pow_error env FT_ERR_NO_MEMORY)
                         | Some identity_result \<Rightarrow> do {
                             (p2, l2) \<leftarrow> bn_modulo env one modulus1;
                             (r1, e7) \<leftarrow> bn_store env identity_result p2;
                             (if e7 \<noteq> FT_ERR_SUCCESS then Some (mod_pow_error env (snd (bn_destroy env r1)))
                              else do {
                                (r2, e8) \<leftarrow>
                                  bn_trim_leading_zeros env (r1\<lparr>bn_is_negative := False\<rparr>);
                                Some (Some r2)
                              })
                           })
                   else do {
                     (accumulator, i4) \<leftarrow> bn_initialize_copy env False bn_constructor one;
                     (e9, a) \<leftarrow> mod_pow_loop env remainder1 modulus1 one exponent1 accumulator;
                     (if e9 \<noteq> FT_ERR_SUCCESS then Some (mod_pow_error env e9)
                      else mod_pow_result env a)
                   })
                })
             })
          });
       Some (result, bn_leave env base_value FT_ERR_SUCCESS)
     }"

subsection \<open>Operators of the proxy\<close>

definition proxy_operator ::
  "(number_env \<Rightarrow> big_number \<Rightarrow> big_number \<Rightarrow> (number_proxy \<times> ft_err) option)
     \<Rightarrow> number_env \<Rightarrow> number_proxy \<Rightarrow> big_number \<Rightarrow> (number_proxy \<times> ft_err) option" where
  "proxy_operator operator env left right =
     (if px_error left \<noteq> FT_ERR_SUCCESS then Some (proxy_of_error (px_error left), px_error left)
      else operator env (px_value left) right)"

definition proxy_add where "proxy_add = proxy_operator bn_add"
definition proxy_subtract where "proxy_subtract = proxy_operator bn_subtract"
definition proxy_multiply where "proxy_multiply = proxy_operator bn_multiply"
definition proxy_divide where "proxy_divide = proxy_operator bn_divide"
definition proxy_modulo where "proxy_modulo = proxy_operator bn_modulo"

definition proxy_get_error :: "number_proxy \<Rightarrow> ft_err" where
  "proxy_get_error p = px_error p"

subsection \<open>Hexadecimal strings\<close>

definition big_number_to_hex_string ::
  "number_env \<Rightarrow> big_number \<Rightarrow> number_string option" where
  "big_number_to_hex_string env number =
     do {
       (number_copy, e) \<leftarrow> bn_initialize_copy env False bn_constructor number;
       (if e \<noteq> FT_ERR_SUCCESS then Some (String_error e)
        else map_option fst (bn_to_string_base env FT_ERR_SUCCESS number_copy 16))
     }"

text \<open>The prefix that \<open>big_number_from_hex_string\<close> skips: the sign and \<open>0x\<close> or \<open>0X\<close>.\<close>

definition hex_prefix :: "bytes \<Rightarrow> bool \<times> bytes" where
  "hex_prefix hex_digits =
     (let has_negative_sign = (take 1 hex_digits = [45]);
          digits = (if has_negative_sign \<or> take 1 hex_digits = [43] then drop 1 hex_digits
                    else hex_digits)
      in (has_negative_sign,
          if take 2 digits = [48, 120] \<or> take 2 digits = [48, 88] then drop 2 digits else digits))"

text \<open>\<open>big_number_from_hex_string\<close>; the inner \<^term>\<open>None\<close> is a null pointer.\<close>

definition big_number_from_hex_string ::
  "number_env \<Rightarrow> ptr \<Rightarrow> big_number option option" where
  "big_number_from_hex_string env hex_digits =
     (case bn_new env of
        None \<Rightarrow> Some None
      | Some result \<Rightarrow>
          (case hex_digits of
             None \<Rightarrow> do {
               (r, e, l) \<leftarrow> bn_assign_base env result (Some [0]) 16;
               Some (Some r)
             }
           | Some cs \<Rightarrow>
               let (has_negative_sign, digits) = hex_prefix cs
               in do {
                    (r, assign_error, l) \<leftarrow> bn_assign_base env result (Some digits) 16;
                    (if assign_error \<noteq> FT_ERR_SUCCESS \<or> \<not> has_negative_sign then Some (Some r)
                     else do {
                       zero_reference \<leftarrow> bn_assign env bn_zero (Some [48, 0]);
                       (p, l1) \<leftarrow> bn_subtract env zero_reference r;
                       (r1, l2) \<leftarrow> bn_store env r p;
                       Some (Some r1)
                     })
                  }))"

end
