(* ===== verification/Big_Number_Spec.thy ===== *)
theory Big_Number_Spec
  imports Big_Number_Digits Big_Number_Api
begin

text \<open>
  What \<open>ft_big_number\<close> promises. The invariant \<open>bn_ok\<close> relates the fields to the block and asks
  for a canonical digit string; \<open>bn_value\<close> is the integer an object stands for. In an
  environment that grants memory and locks, every operation returns, keeps the invariant and
  computes its integer operation; the locale \<open>exact_operator\<close> states that contract once for the
  five arithmetic operators, and what follows from it for the assignment of a result.
\<close>

subsection \<open>Contract of the environment\<close>

definition number_env_ok :: "number_env \<Rightarrow> bool" where
  "number_env_ok env \<longleftrightarrow>
     total_alloc (ne_malloc env) \<and> wf_realloc (ne_realloc env)
     \<and> (\<forall>p n. ne_realloc env p n \<noteq> None) \<and> ne_new env \<and> ne_lock env = FT_ERR_SUCCESS
     \<and> (\<forall>n. ne_append env n)"

lemma env_malloc_ok:
  assumes "number_env_ok env"
  obtains d where "ne_malloc env n = Some d" "length d = n"
proof -
  obtain d where "ne_malloc env n = Some d"
    using assms unfolding number_env_ok_def total_alloc_def by blast
  with assms that [of d] show ?thesis by (simp add: number_env_ok_def total_alloc_def wf_alloc_def)
qed

lemma env_realloc_ok:
  assumes "number_env_ok env"
  obtains d' where "ne_realloc env (Some d) n = Some d'" "length d' = n"
    "\<And>k. k \<le> n \<Longrightarrow> k \<le> length d \<Longrightarrow> take k d' = take k d"
proof -
  have "ne_realloc env (Some d) n \<noteq> None" using assms by (simp add: number_env_ok_def)
  then obtain d' where "ne_realloc env (Some d) n = Some d'" by blast
  moreover have "wf_realloc (ne_realloc env)" using assms by (simp add: number_env_ok_def)
  ultimately show ?thesis by (intro that [of d']) (auto simp: wf_realloc_def)
qed

lemma env_lock_ok [simp]:
  assumes "number_env_ok env"
  shows "bn_lock env b = 0" "bn_lock_pair env a b = 0" "ne_new env"
  using assms by (auto simp: number_env_ok_def bn_lock_def bn_lock_pair_def)

subsection \<open>Invariant and abstraction\<close>

definition bn_block :: "big_number \<Rightarrow> bool" where
  "bn_block b \<longleftrightarrow>
     (case bn_digits b of
        None \<Rightarrow> bn_size b = 0 \<and> bn_capacity b = 0
      | Some d \<Rightarrow> length d = bn_capacity b \<and> bn_size b < length d)"

definition bn_terminated :: "big_number \<Rightarrow> bool" where
  "bn_terminated b \<longleftrightarrow> (case bn_digits b of None \<Rightarrow> True | Some d \<Rightarrow> d ! bn_size b = 0)"

definition bn_ok :: "big_number \<Rightarrow> bool" where
  "bn_ok b \<longleftrightarrow> bn_block b \<and> bn_terminated b \<and> canonical (bn_text b)"

definition bn_magnitude :: "big_number \<Rightarrow> nat" where
  "bn_magnitude b = dec (bn_text b)"

definition signed_int :: "bool \<Rightarrow> nat \<Rightarrow> int" where
  "signed_int s n = (if s then - int n else int n)"

definition bn_value :: "big_number \<Rightarrow> int" where
  "bn_value b = signed_int (bn_is_negative b) (bn_magnitude b)"

lemma signed_int_simps [simp]:
  "signed_int s 0 = 0" "signed_int False n = int n" "signed_int True n = - int n"
  "signed_int s n = 0 \<longleftrightarrow> n = 0"
  by (simp_all add: signed_int_def)

text \<open>
  A live object without a mutex that stands for \<open>v\<close> and is marked negative only when \<open>v\<close> is:
  what the operators return.
\<close>

definition fresh :: "big_number \<Rightarrow> int \<Rightarrow> bool" where
  "fresh b v \<longleftrightarrow> bn_ok b \<and> bn_state b = Initialised \<and> \<not> bn_mutex b \<and> bn_value b = v
     \<and> (bn_is_negative b \<longleftrightarrow> v < 0)"

lemmas bn_inv_defs = bn_block_def bn_terminated_def bn_text_def

lemma length_bn_text [simp]: "bn_block b \<Longrightarrow> length (bn_text b) = bn_size b"
  by (auto simp: bn_inv_defs split: option.splits)

lemma bn_okD:
  assumes "bn_ok b"
  shows "bn_block b" "bn_terminated b" "canonical (bn_text b)" "decimal (bn_text b)"
    "length (bn_text b) = bn_size b"
  using assms by (auto simp: bn_ok_def canonical_decimal)

lemma bn_text_update [simp]:
  "bn_text (b\<lparr>bn_is_negative := s\<rparr>) = bn_text b" "bn_text (b\<lparr>bn_mutex := m\<rparr>) = bn_text b"
  "bn_text (b\<lparr>bn_state := st\<rparr>) = bn_text b" "bn_text (b\<lparr>bn_operation_error := e\<rparr>) = bn_text b"
  by (simp_all add: bn_text_def)

lemma bn_ok_update [simp]:
  "bn_ok (b\<lparr>bn_is_negative := s\<rparr>) = bn_ok b" "bn_ok (b\<lparr>bn_mutex := m\<rparr>) = bn_ok b"
  "bn_ok (b\<lparr>bn_state := st\<rparr>) = bn_ok b" "bn_ok (b\<lparr>bn_operation_error := e\<rparr>) = bn_ok b"
  by (simp_all add: bn_ok_def bn_block_def bn_terminated_def split: option.split)

lemma bn_magnitude_update [simp]:
  "bn_magnitude (b\<lparr>bn_is_negative := s\<rparr>) = bn_magnitude b"
  "bn_magnitude (b\<lparr>bn_operation_error := e\<rparr>) = bn_magnitude b"
  by (simp_all add: bn_magnitude_def)

lemma is_zero_update [simp]: "is_zero_value (b\<lparr>bn_is_negative := s\<rparr>) = is_zero_value b"
  by (simp add: is_zero_value_def)

lemma bn_zero_simps [simp]:
  "bn_ok (bn_reset s bn_constructor)" "bn_text (bn_reset s b) = []" "bn_block (bn_reset s b)"
  "bn_state (bn_reset s b) = s" "bn_mutex (bn_reset s b) = bn_mutex b"
  "bn_is_negative (bn_reset s b) = False" "bn_digits (bn_reset s b) = None"
  "bn_size (bn_reset s b) = 0" "bn_capacity (bn_reset s b) = 0" "bn_ok (bn_reset s b)"
  "bn_mutex bn_constructor = False" "bn_state bn_constructor = Uninitialised"
  by (simp_all add: bn_ok_def bn_inv_defs bn_reset_def bn_constructor_def)

lemma fresh_zero [simp]: "fresh bn_zero 0"
  by (simp add: fresh_def bn_value_def bn_magnitude_def)

lemma freshD:
  assumes "fresh b v"
  shows "bn_ok b" "bn_state b = Initialised" "\<not> bn_mutex b" "bn_value b = v"
    "bn_is_negative b \<longleftrightarrow> v < 0"
  using assms by (simp_all add: fresh_def)

lemma fresh_magnitude: "fresh b v \<Longrightarrow> bn_magnitude b = nat \<bar>v\<bar>"
  by (cases "bn_is_negative b") (auto simp: fresh_def bn_value_def)

lemma is_zero_iff: "bn_ok b \<Longrightarrow> is_zero_value b \<longleftrightarrow> bn_magnitude b = 0"
  using dec_zero_iff [of "bn_text b"]
  by (auto simp: is_zero_value_def bn_magnitude_def dest: bn_okD(4,5))
    (auto simp: bn_text_def)

lemma bn_value_zero_iff: "bn_value b = 0 \<longleftrightarrow> bn_magnitude b = 0"
  by (simp add: bn_value_def)

lemma compare_magnitude_sgn:
  assumes "bn_ok a" "bn_ok b"
  shows "compare_magnitude a b = sgn (int (bn_magnitude a) - int (bn_magnitude b))"
proof -
  note ok = bn_okD [OF assms(1)] bn_okD [OF assms(2)]
  have longer: "bn_magnitude y < bn_magnitude x"
    if "bn_ok x" "bn_ok y" "bn_magnitude x \<noteq> 0" "bn_size y < bn_size x" for x y
    using canonical_length_less [of "bn_text y" "bn_text x"] that
    by (simp add: bn_okD bn_magnitude_def)
  consider "bn_magnitude a = 0" | "bn_magnitude b = 0" | "bn_magnitude a \<noteq> 0" "bn_magnitude b \<noteq> 0"
    by blast
  then show ?thesis
  proof cases
    case 3
    show ?thesis
      using 3 assms ok longer [of a b] longer [of b a]
        compare_digits_sgn [of "bn_text a" "bn_text b"]
      by (auto simp: compare_magnitude_def is_zero_iff sgn_if bn_magnitude_def)
  qed (use assms in \<open>auto simp: compare_magnitude_def is_zero_iff sgn_if\<close>)
qed

subsection \<open>The block\<close>

lemma bn_reserve_frame [simp]:
  "bn_size (bn_reserve env b n) = bn_size b" "bn_is_negative (bn_reserve env b n) = bn_is_negative b"
  "bn_mutex (bn_reserve env b n) = bn_mutex b" "bn_state (bn_reserve env b n) = bn_state b"
  by (simp_all add: bn_reserve_def Let_def split: option.splits)

lemma bn_shrink_frame [simp]:
  "bn_size (bn_shrink_capacity env b) = bn_size b"
  "bn_is_negative (bn_shrink_capacity env b) = bn_is_negative b"
  "bn_mutex (bn_shrink_capacity env b) = bn_mutex b"
  "bn_state (bn_shrink_capacity env b) = bn_state b"
  by (simp_all add: bn_shrink_capacity_def Let_def split: option.splits)

lemma bn_reserve_ok:
  assumes "number_env_ok env" "bn_block b" "0 < n"
  obtains d where "bn_digits (bn_reserve env b n) = Some d"
    "bn_capacity (bn_reserve env b n) = length d" "n \<le> length d" "bn_size b < length d"
    "bn_text (bn_reserve env b n) = bn_text b"
proof (cases "n \<le> bn_capacity b")
  case True
  with assms obtain d where "bn_digits b = Some d" "length d = bn_capacity b" "bn_size b < length d"
    by (auto simp: bn_block_def split: option.splits)
  with True show ?thesis by (intro that [of d]) (simp_all add: bn_reserve_def)
next
  case False
  define m where "m = max 16 (max n (bn_size b + 1))"
  have m: "(if (if n < bn_size b + 1 then bn_size b + 1 else n) < 16 then 16
      else if n < bn_size b + 1 then bn_size b + 1 else n) = m"
    by (simp add: m_def max_def)
  show ?thesis
  proof (cases "bn_digits b")
    case None
    obtain d where d: "ne_malloc env m = Some d" "length d = m" by (rule env_malloc_ok [OF assms(1)])
    have "bn_reserve env b n = b\<lparr>bn_digits := Some d, bn_capacity := m\<rparr>"
      using False None d unfolding bn_reserve_def Let_def m by simp
    with d None assms(2) show ?thesis by (intro that [of d]) (auto simp: m_def bn_inv_defs)
  next
    case (Some d0)
    obtain d where d: "ne_realloc env (Some d0) m = Some d" "length d = m"
      "\<And>k. k \<le> m \<Longrightarrow> k \<le> length d0 \<Longrightarrow> take k d = take k d0"
      by (rule env_realloc_ok [OF assms(1), of d0 m]) blast
    have "bn_reserve env b n = b\<lparr>bn_digits := Some d, bn_capacity := m\<rparr>"
      using False Some d unfolding bn_reserve_def Let_def m by simp
    with d Some assms(2) show ?thesis by (intro that [of d]) (auto simp: m_def bn_inv_defs)
  qed
qed

lemma bn_shrink_ok:
  assumes "number_env_ok env" "bn_block b" "bn_terminated b"
  shows "bn_block (bn_shrink_capacity env b)" "bn_terminated (bn_shrink_capacity env b)"
    "bn_text (bn_shrink_capacity env b) = bn_text b"
proof -
  have "bn_block (bn_shrink_capacity env b) \<and> bn_terminated (bn_shrink_capacity env b)
    \<and> bn_text (bn_shrink_capacity env b) = bn_text b"
  proof (cases "bn_shrink_capacity env b = b")
    case False
    then obtain d0 where d0: "bn_digits b = Some d0"
      by (auto simp: bn_shrink_capacity_def split: option.splits)
    show ?thesis
    proof (cases "bn_size b = 0")
      case True
      with d0 show ?thesis by (simp add: bn_shrink_capacity_def bn_inv_defs)
    next
      case False
      define m where "m = (if bn_size b + 1 < 16 then 16 else bn_size b + 1)"
      obtain d where d: "ne_realloc env (Some d0) m = Some d" "length d = m"
        "\<And>k. k \<le> m \<Longrightarrow> k \<le> length d0 \<Longrightarrow> take k d = take k d0"
        by (rule env_realloc_ok [OF assms(1), of d0 m]) blast
      have eq: "bn_shrink_capacity env b = b\<lparr>bn_digits := Some d, bn_capacity := m\<rparr>"
        using \<open>bn_shrink_capacity env b \<noteq> b\<close> False d0 d(1)
        by (auto simp: bn_shrink_capacity_def Let_def m_def split: if_splits)
      have n: "bn_size b < m" "bn_size b < length d0"
        using assms(2) d0 by (auto simp: m_def bn_block_def)
      have "take (Suc (bn_size b)) d = take (Suc (bn_size b)) d0" using d(3) n by simp
      then have "d ! bn_size b = d0 ! bn_size b" by (metis lessI nth_take)
      with d n d0 assms(2,3) show ?thesis by (simp add: eq bn_inv_defs)
    qed
  qed (use assms in simp)
  then show "bn_block (bn_shrink_capacity env b)" "bn_terminated (bn_shrink_capacity env b)"
    "bn_text (bn_shrink_capacity env b) = bn_text b" by simp_all
qed

text \<open>An object whose block holds \<open>cs\<close> and a terminator.\<close>

lemma bn_holds:
  assumes "bn_digits b = Some d" "length d = bn_capacity b" "bn_size b < length d"
    "take (bn_size b) d = cs" "d ! bn_size b = 0"
  shows "bn_block b" "bn_terminated b" "bn_text b = cs"
  using assms by (simp_all add: bn_inv_defs)

lemma trim_ok:
  assumes "number_env_ok env" "bn_block b" "bn_terminated b" "decimal (bn_text b)"
  obtains r where "trim_leading_zeros_unlocked env b = Some r" "bn_ok r"
    "bn_magnitude r = bn_magnitude b" "bn_is_negative r = bn_is_negative b"
    "bn_state r = bn_state b" "bn_mutex r = bn_mutex b"
proof (cases "bn_digits b = None \<or> bn_size b = 0 \<or> leading_zeros (bn_text b) = 0")
  case True
  then have "trim_leading_zeros_unlocked env b = Some b"
    by (auto simp: trim_leading_zeros_unlocked_def split: option.splits)
  moreover have "canonical (bn_text b)"
    using True trim_canonical [OF assms(4)] by (cases "bn_digits b") (auto simp: bn_text_def)
  ultimately show ?thesis using assms by (intro that) (simp_all add: bn_ok_def)
next
  case False
  then obtain d where d: "bn_digits b = Some d" by auto
  define k where "k = leading_zeros (bn_text b)"
  define n where "n = bn_size b - k"
  define d1 where "d1 = (write_block d 0 (take n (drop k d)))[n := 0]"
  define b1 where "b1 = b\<lparr>bn_size := n, bn_digits := Some d1\<rparr>"
  have len: "length (bn_text b) = bn_size b" "bn_size b < length d" "length d = bn_capacity b"
    using assms(2) d by (auto simp: bn_block_def)
  have k: "0 < k" "k < bn_size b"
    using False leading_zeros_less [of "bn_text b"] len by (cases "bn_text b"; auto simp: k_def)+
  have n: "0 < n" "n < length d" "length d1 = length d" "n + k = bn_size b"
    using k len by (auto simp: n_def d1_def)
  have tk: "take n d1 = drop k (bn_text b)"
    using n len d by (simp add: d1_def write_block_def bn_text_def min_absorb1 take_drop)
  have b1: "bn_block b1" "bn_terminated b1" "bn_text b1 = drop k (bn_text b)"
    using bn_holds [of b1 d1 "drop k (bn_text b)"] n tk len by (simp_all add: b1_def d1_def)
  have eq: "trim_leading_zeros_unlocked env b = Some (bn_shrink_capacity env b1)"
    using d False n len by (simp add: trim_leading_zeros_unlocked_def Let_def bn_put_def b1_def d1_def
      flip: k_def n_def)
  show ?thesis
  proof (rule that [OF eq])
    show "bn_ok (bn_shrink_capacity env b1)"
      using bn_shrink_ok [OF assms(1) b1(1,2)] trim_canonical [OF assms(4)] b1(3)
      by (simp add: bn_ok_def k_def)
    show "bn_magnitude (bn_shrink_capacity env b1) = bn_magnitude b"
      using bn_shrink_ok(3) [OF assms(1) b1(1,2)] trim_dec [OF assms(4)] b1(3)
      by (simp add: bn_magnitude_def k_def)
  qed (simp_all add: b1_def)
qed

subsection \<open>Copies\<close>

lemma bn_value_eqI:
  "bn_text a = bn_text b \<Longrightarrow> bn_is_negative a = bn_is_negative b \<Longrightarrow> bn_value a = bn_value b"
  by (simp add: bn_value_def bn_magnitude_def)

lemma bn_copy_assign_ok:
  assumes "number_env_ok env" "bn_ok other"
  obtains r where "bn_copy_assign env False b other = Some (r, FT_ERR_SUCCESS)" "bn_ok r"
    "bn_text r = bn_text other" "bn_is_negative r = bn_is_negative other"
    "bn_state r = bn_state b" "bn_mutex r = bn_mutex b"
proof (cases "bn_digits other")
  case None
  with assms show ?thesis
    by (intro that [of "b\<lparr>bn_digits := None, bn_size := bn_size other,
          bn_capacity := bn_capacity other, bn_is_negative := bn_is_negative other\<rparr>"])
      (auto simp: bn_copy_assign_def bn_ok_def bn_inv_defs)
next
  case (Some d)
  have len: "length d = bn_capacity other" "bn_size other < length d" "d ! bn_size other = 0"
    using assms(2) Some by (auto simp: bn_ok_def bn_inv_defs)
  obtain m where m: "ne_malloc env (bn_capacity other) = Some m" "length m = bn_capacity other"
    by (rule env_malloc_ok [OF assms(1)])
  define d1 where "d1 = write_block (replicate (length m) 0) 0 (take (bn_size other + 1) d)"
  define r where "r = b\<lparr>bn_digits := Some d1, bn_size := bn_size other,
    bn_capacity := bn_capacity other, bn_is_negative := bn_is_negative other\<rparr>"
  have d1: "length d1 = length d" "take (bn_size other) d1 = take (bn_size other) d"
    "d1 ! bn_size other = 0"
    using len m by (simp_all add: d1_def write_block_def nth_append min_absorb1)
  have r: "bn_block r" "bn_terminated r" "bn_text r = bn_text other"
    using bn_holds [of r d1 "bn_text other"] d1 len Some by (simp_all add: r_def bn_text_def)
  show ?thesis
  proof (rule that [of r])
    show "bn_copy_assign env False b other = Some (r, FT_ERR_SUCCESS)"
      using assms(1) Some len m by (simp add: bn_copy_assign_def r_def d1_def)
    show "bn_ok r" using r bn_okD(3) [OF assms(2)] by (simp add: bn_ok_def)
  qed (use r in \<open>simp_all add: r_def\<close>)
qed

lemma bn_copy_fresh:
  assumes "number_env_ok env" "fresh other v" "fresh b w"
  obtains r where "bn_copy_assign env False b other = Some (r, 0)" "fresh r v"
proof -
  obtain r where "bn_copy_assign env False b other = Some (r, FT_ERR_SUCCESS)" "bn_ok r"
    "bn_text r = bn_text other" "bn_is_negative r = bn_is_negative other"
    "bn_state r = bn_state b" "bn_mutex r = bn_mutex b"
    by (rule bn_copy_assign_ok [OF assms(1) freshD(1) [OF assms(2)]])
  with assms(2,3) show ?thesis
    by (intro that [of r]) (simp_all add: fresh_def bn_value_eqI [of r other])
qed

lemma bn_initialize_copy_ok:
  assumes "number_env_ok env" "bn_ok other" "bn_state other = Initialised"
  obtains r where "bn_initialize_copy env False bn_constructor other = Some (r, 0)" "bn_ok r"
    "bn_value r = bn_value other" "bn_is_negative r = bn_is_negative other"
    "bn_state r = Initialised" "\<not> bn_mutex r"
proof -
  obtain r where r: "bn_copy_assign env False bn_zero other = Some (r, FT_ERR_SUCCESS)" "bn_ok r"
    "bn_text r = bn_text other" "bn_is_negative r = bn_is_negative other"
    "bn_state r = bn_state bn_zero" "bn_mutex r = bn_mutex bn_zero"
    by (rule bn_copy_assign_ok [OF assms(1,2)])
  with assms(3) show ?thesis
    by (intro that [of r]) (simp_all add: bn_initialize_copy_def bn_value_eqI [of r other])
qed

lemma bn_initialize_copy_fresh:
  assumes "number_env_ok env" "fresh other v"
  obtains r where "bn_initialize_copy env False bn_constructor other = Some (r, 0)" "fresh r v"
  by (rule bn_initialize_copy_ok [OF assms(1) freshD(1,2) [OF assms(2)]])
    (use freshD(4,5) [OF assms(2)] in \<open>auto simp: fresh_def\<close>)

lemma bn_new_ok [simp]: "number_env_ok env \<Longrightarrow> bn_new env = Some bn_zero"
  by (simp add: bn_new_def)

lemma bn_destroy_ok [simp]: "\<not> bn_mutex b \<Longrightarrow> snd (bn_destroy env b) = 0"
  by (simp add: bn_destroy_def)

lemma bn_leave_ok [simp]: "\<not> bn_mutex b \<Longrightarrow> bn_leave env b 0 = 0"
  by (simp add: bn_leave_def bn_destroy_def)

lemma bn_leave_fresh: "fresh b v \<Longrightarrow> bn_leave env b e = FT_ERR_SUCCESS"
  by (simp add: bn_leave_def bn_destroy_def fresh_def)

text \<open>A fresh block of \<open>n\<close> bytes or more for the local \<open>result\<close>.\<close>

lemma bn_zero_reserve:
  assumes "number_env_ok env" "0 < n"
  obtains d where "bn_digits (bn_reserve env bn_zero n) = Some d"
    "bn_capacity (bn_reserve env bn_zero n) = length d" "n \<le> length d"
  using bn_reserve_ok [OF assms(1) _ assms(2), of bn_zero] by auto

text \<open>A result whose block was filled: the digits \<open>cs\<close> and the terminator.\<close>

lemma fresh_filled:
  assumes "r = bn_reserve env bn_zero n" "bn_capacity r = length d" "k < length d"
    "take k d = cs" "d ! k = 0" "canonical cs"
  shows "fresh (r\<lparr>bn_digits := Some d, bn_size := k\<rparr>) (int (dec cs))"
proof -
  note h = bn_holds [of "r\<lparr>bn_digits := Some d, bn_size := k\<rparr>" d cs]
  show ?thesis using h assms by (simp add: fresh_def bn_ok_def bn_value_def bn_magnitude_def)
qed

lemma copy_digits_ok:
  assumes "number_env_ok env" "bn_ok source"
  obtains r where "copy_digits env bn_zero source = Some r" "fresh r (int (bn_magnitude source))"
proof (cases "bn_size source > 0 \<and> bn_digits source \<noteq> None")
  case False
  then have "bn_magnitude source = 0"
    using is_zero_iff [OF assms(2)] by (auto simp: is_zero_value_def)
  moreover have "bn_zero\<lparr>bn_size := 0, bn_is_negative := False\<rparr> = bn_zero"
    by (simp add: bn_reset_def)
  ultimately show ?thesis using False by (intro that [of bn_zero]) (auto simp: copy_digits_def)
next
  case True
  then obtain s where s: "bn_digits source = Some s" by blast
  have len: "bn_size source < length s" "s ! bn_size source = 0"
    using assms(2) s by (auto simp: bn_ok_def bn_inv_defs)
  define r where "r = bn_reserve env bn_zero (bn_size source + 1)"
  obtain d where d: "bn_digits r = Some d" "bn_capacity r = length d" "bn_size source + 1 \<le> length d"
    unfolding r_def by (rule bn_zero_reserve [OF assms(1), of "bn_size source + 1"]) auto
  define d1 where "d1 = (write_block d 0 (take (bn_size source + 1) s))[bn_size source := 0]"
  have d1: "length d1 = length d" "take (bn_size source) d1 = bn_text source" "d1 ! bn_size source = 0"
    using len d(3) s by (simp_all add: d1_def write_block_def bn_text_def min_absorb1)
  have "fresh (r\<lparr>bn_digits := Some d1, bn_size := bn_size source\<rparr>) (int (dec (bn_text source)))"
    using d d1 bn_okD(3) [OF assms(2)] by (intro fresh_filled [OF r_def]) simp_all
  moreover have "copy_digits env bn_zero source
      = Some (r\<lparr>bn_digits := Some d1, bn_size := bn_size source\<rparr>)"
  proof -
    have "(r\<lparr>bn_digits := x, bn_size := bn_size source, bn_is_negative := False\<rparr>)\<lparr>bn_digits := y\<rparr>
        = r\<lparr>bn_digits := y, bn_size := bn_size source\<rparr>" for x y
      by (rule big_number.equality) (simp_all add: r_def)
    then show ?thesis
      using True s d len unfolding copy_digits_def r_def [symmetric] by (simp add: bn_put_def d1_def)
  qed
  ultimately show ?thesis by (intro that) (simp_all add: bn_magnitude_def)
qed

subsection \<open>Magnitudes\<close>

lemma fresh_unsigned: "fresh b (int n) \<Longrightarrow> fresh (b\<lparr>bn_is_negative := False\<rparr>) (int n)"
  by (cases "bn_is_negative b") (auto simp: fresh_def bn_value_def)

lemma fresh_shrink:
  assumes "number_env_ok env" "fresh b v"
  shows "fresh (bn_shrink_capacity env b) v"
  using bn_shrink_ok [OF assms(1), of b] freshD [OF assms(2)]
    bn_value_eqI [of "bn_shrink_capacity env b" b]
  by (simp add: fresh_def bn_ok_def)

lemma drop_eq_nth: "drop n xs = drop n ys \<Longrightarrow> n < length xs \<Longrightarrow> n < length ys \<Longrightarrow> xs ! n = ys ! n"
  by (metis hd_drop_conv_nth)

lemma add_magnitude_ok:
  assumes "number_env_ok env" "bn_ok a" "bn_ok b"
  obtains r where "add_magnitude env a b = Some (Some r)"
    "fresh r (int (bn_magnitude a + bn_magnitude b))"
proof (cases "is_zero_value a \<or> is_zero_value b")
  case True
  define s where "s = (if is_zero_value a then b else a)"
  obtain r where r: "copy_digits env bn_zero s = Some r" "fresh r (int (bn_magnitude s))"
    using assms by (metis copy_digits_ok s_def)
  have "bn_magnitude s = bn_magnitude a + bn_magnitude b"
    using True assms by (auto simp: s_def is_zero_iff)
  with r True assms(1) show ?thesis by (intro that [of r]) (auto simp: add_magnitude_def s_def)
next
  case False
  define m where "m = max (bn_size a) (bn_size b) + 1"
  have m: "(if bn_size a < bn_size b then bn_size b else bn_size a) + 1 = m" by (simp add: m_def)
  define r where "r = bn_reserve env bn_zero (m + 1)"
  obtain d where d: "bn_digits r = Some d" "bn_capacity r = length d" "m + 1 \<le> length d"
    unfolding r_def by (rule bn_zero_reserve [OF assms(1), of "m + 1"]) auto
  obtain w d1 where loop: "add_loop (bn_text a) (bn_text b) (bn_size a) (bn_size b) m 0 (d[m := 0])
      = (w, d1)" by fastforce
  note ok = bn_okD [OF assms(2)] bn_okD [OF assms(3)]
  have L: "w \<le> m" "length d1 = length d" "decimal (written w m d1)"
    "dec (written w m d1) = bn_magnitude a + bn_magnitude b"
    "m - w = max (bn_size a) (bn_size b)
      \<or> (m - w = max (bn_size a) (bn_size b) + 1
          \<and> 10 ^ max (bn_size a) (bn_size b) \<le> bn_magnitude a + bn_magnitude b)"
    using add_loop_correct [OF ok(4) ok(9) _ _ _ _ _ loop] ok d(3)
    by (auto simp: add_room_def m_def bn_magnitude_def)
  have nz: "bn_magnitude a \<noteq> 0" "bn_magnitude b \<noteq> 0" using False assms by (auto simp: is_zero_iff)
  have pos: "0 < bn_size a" "0 < bn_size b" using False by (auto simp: is_zero_value_def)
  define u where "u = m - w"
  have u: "0 < u" "u \<le> m" using L(5) pos by (auto simp: u_def)
  have len: "length (written w m d1) = u" using L(1,2) d(3) by (simp add: written_def u_def)
  have "10 ^ (max (bn_size a) (bn_size b) - 1) \<le> bn_magnitude a + bn_magnitude b"
    using canonical_dec_ge(2) [OF ok(3)] canonical_dec_ge(2) [OF ok(8)] nz ok
    by (auto simp: bn_magnitude_def max_def intro: trans_le_add1 trans_le_add2)
  with L(5) have "10 ^ (u - 1) \<le> dec (written w m d1)"
    unfolding u_def [symmetric] L(4) by auto
  with L(3) have can: "canonical (written w m d1)" by (intro canonicalI) (simp_all add: len)
  define d2 where "d2 = (write_block d1 0 (take u (drop w d1)))[u := 0]"
  have d2: "length d2 = length d" "take u d2 = written w m d1" "d2 ! u = 0"
    using L(1,2) d(3) u by (simp_all add: d2_def write_block_def written_def u_def min_absorb1)
  have f: "fresh (r\<lparr>bn_digits := Some d2, bn_size := u\<rparr>) (int (bn_magnitude a + bn_magnitude b))"
    using fresh_filled [OF r_def, of d2 u "written w m d1"] d d2 u can L(4) by simp
  have eq: "add_magnitude env a b = Some (Some ((bn_shrink_capacity env
      (r\<lparr>bn_digits := Some d2, bn_size := u\<rparr>))\<lparr>bn_is_negative := False\<rparr>))"
    using False assms(1) d loop u unfolding r_def add_magnitude_def m
    by (simp add: Let_def d2_def u_def)
  show ?thesis by (rule that [OF eq fresh_unsigned [OF fresh_shrink [OF assms(1) f]]])
qed

lemma subtract_magnitude_ok:
  assumes "number_env_ok env" "bn_ok a" "bn_ok b"
  obtains r where "subtract_magnitude env a b = Some (Some r)"
    "fresh r (int (bn_magnitude a - bn_magnitude b))"
proof -
  consider "bn_magnitude a \<le> bn_magnitude b" | "bn_magnitude b = 0" "bn_magnitude a > 0"
    | "0 < bn_magnitude b" "bn_magnitude b < bn_magnitude a" by linarith
  then show ?thesis
  proof cases
    case 1
    then show ?thesis using assms
      by (intro that [of bn_zero]) (auto simp: subtract_magnitude_def compare_magnitude_sgn sgn_if)
  next
    case 2
    obtain r where "copy_digits env bn_zero a = Some r" "fresh r (int (bn_magnitude a))"
      using assms by (metis copy_digits_ok)
    with 2 assms show ?thesis
      by (intro that [of r]) (auto simp: subtract_magnitude_def compare_magnitude_sgn is_zero_iff)
  next
    case 3
    note ok = bn_okD [OF assms(2)] bn_okD [OF assms(3)]
    define r where "r = bn_reserve env bn_zero (bn_size a + 1)"
    obtain d where d: "bn_digits r = Some d" "bn_capacity r = length d" "bn_size a + 1 \<le> length d"
      unfolding r_def by (rule bn_zero_reserve [OF assms(1), of "bn_size a + 1"]) auto
    define d1 where "d1 = subtract_loop (bn_text a) (bn_text b) (bn_size a) (bn_size b) 0
      (d[bn_size a := 0])"
    define b1 where "b1 = r\<lparr>bn_digits := Some d1, bn_size := bn_size a\<rparr>"
    have le: "bn_size b \<le> bn_size a"
      using canonical_length_less [of "bn_text a" "bn_text b"] 3 ok
      by (fastforce simp: bn_magnitude_def)
    have "length d1 = length d \<and> drop (bn_size a) d1 = drop (bn_size a) (d[bn_size a := 0])
        \<and> decimal (take (bn_size a) d1)"
      unfolding d1_def using subtract_loop_correct [OF ok(4,9), of "bn_size a" "bn_size b" 0] le ok d(3)
      by simp
    then have d1: "length d1 = length d" "d1 ! bn_size a = 0" "decimal (take (bn_size a) d1)"
      using d(3) drop_eq_nth [of "bn_size a" d1 "d[bn_size a := 0]"] by simp_all
    have val: "dec (take (bn_size a) d1) = bn_magnitude a - bn_magnitude b"
      unfolding d1_def using subtract_loop_exact [OF ok(4,9), of "d[bn_size a := 0]"] 3 le ok d(3)
      by (simp add: bn_magnitude_def)
    have b1: "bn_block b1" "bn_terminated b1" "bn_text b1 = take (bn_size a) d1"
      using bn_holds [of b1 d1 "take (bn_size a) d1"] d d1 by (simp_all add: b1_def)
    have f: "bn_state b1 = Initialised" "\<not> bn_mutex b1" by (simp_all add: b1_def r_def)
    obtain r1 where r1: "trim_leading_zeros_unlocked env b1 = Some r1" "bn_ok r1"
      "bn_magnitude r1 = bn_magnitude b1" "bn_state r1 = bn_state b1" "bn_mutex r1 = bn_mutex b1"
      by (rule trim_ok [OF assms(1) b1(1,2)]) (use d1(3) b1(3) in auto)
    have eq: "subtract_magnitude env a b = Some (Some (r1\<lparr>bn_is_negative := False\<rparr>))"
      using 3 assms d r1(1) unfolding subtract_magnitude_def b1_def d1_def r_def
      by (simp add: compare_magnitude_sgn is_zero_iff Let_def)
    have "bn_magnitude r1 = bn_magnitude a - bn_magnitude b"
      using r1(3) b1(3) val by (simp add: bn_magnitude_def [of b1])
    with r1 f show ?thesis by (intro that [OF eq]) (simp add: fresh_def bn_value_def)
  qed
qed

lemma multiply_magnitude_ok:
  assumes "number_env_ok env" "bn_ok a" "bn_ok b"
  obtains r where "multiply_magnitude env bn_zero a b = Some r"
    "fresh r (int (bn_magnitude a * bn_magnitude b))"
proof -
  note ok = bn_okD [OF assms(2)] bn_okD [OF assms(3)]
  define n where "n = bn_size a + bn_size b"
  define r where "r = bn_reserve env bn_zero (n + 1)"
  obtain d where d: "bn_digits r = Some d" "bn_capacity r = length d" "n + 1 \<le> length d"
    unfolding r_def by (rule bn_zero_reserve [OF assms(1), of "n + 1"]) auto
  define d0 where "d0 = write_block d 0 (replicate n 48 @ [0])"
  define d1 where "d1 = multiply_rows (bn_text a) (bn_text b) 0 d0"
  define b1 where "b1 = r\<lparr>bn_digits := Some d1, bn_size := n\<rparr>"
  have d0: "length d0 = length d" "take n d0 = replicate n 48" "d0 ! n = 0"
    using d(3) by (simp_all add: d0_def write_block_def nth_append)
  have R: "length d1 = length d" "drop n d1 = drop n d0" "decimal (take n d1)"
    "dec (take n d1) = bn_magnitude a * bn_magnitude b"
    unfolding d1_def using multiply_rows_correct [OF ok(4) ok(9), of 0 d0] d0 d(3) ok(5) ok(10)
    by (simp_all add: n_def bn_magnitude_def)
  have z: "d1 ! n = 0" using drop_eq_nth [OF R(2)] R(1) d0 d(3) by simp
  have b1: "bn_block b1" "bn_terminated b1" "bn_text b1 = take n d1"
    using bn_holds [of b1 d1 "take n d1"] d R z by (simp_all add: b1_def)
  obtain r1 where r1: "trim_leading_zeros_unlocked env b1 = Some r1" "bn_ok r1"
    "bn_magnitude r1 = bn_magnitude b1" "bn_is_negative r1 = bn_is_negative b1"
    "bn_state r1 = bn_state b1" "bn_mutex r1 = bn_mutex b1"
    by (rule trim_ok [OF assms(1) b1(1,2)]) (use R(3) b1(3) in auto)
  have eq: "multiply_magnitude env bn_zero a b = Some r1"
    using d r1(1) unfolding multiply_magnitude_def b1_def d1_def d0_def r_def n_def [symmetric]
    by (simp add: Let_def)
  have f: "bn_state b1 = Initialised" "\<not> bn_mutex b1" "\<not> bn_is_negative b1"
    by (simp_all add: b1_def r_def)
  have "bn_magnitude r1 = bn_magnitude a * bn_magnitude b"
    using r1(3) b1(3) R(4) by (simp add: bn_magnitude_def [of b1])
  with r1 f show ?thesis by (intro that [OF eq]) (simp add: fresh_def bn_value_def)
qed

subsection \<open>Results of operators\<close>

definition yields :: "number_proxy \<Rightarrow> int \<Rightarrow> bool" where
  "yields p v \<longleftrightarrow> px_error p = FT_ERR_SUCCESS \<and> fresh (px_value p) v"

lemma proxy_of_value_ok:
  assumes "number_env_ok env" "fresh b v"
  obtains p where "proxy_of_value env b = Some p" "yields p v"
proof -
  obtain r where "bn_initialize_copy env False bn_constructor b = Some (r, 0)" "fresh r v"
    by (rule bn_initialize_copy_fresh [OF assms])
  then show ?thesis
    by (intro that [of "\<lparr>px_value = r, px_error = FT_ERR_SUCCESS\<rparr>"])
      (simp_all add: proxy_of_value_def proxy_of_value_error_def yields_def)
qed

lemma take_magnitude_ok:
  assumes "number_env_ok env" "fresh m v" "fresh b w"
  obtains r where "take_magnitude env b m = Some (r, 0)" "fresh r v"
proof -
  obtain r where "bn_copy_assign env False b m = Some (r, 0)" "fresh r v"
    by (rule bn_copy_fresh [OF assms])
  with freshD(3) [OF assms(2)] show ?thesis
    by (intro that [of r]) (simp_all add: take_magnitude_def)
qed

lemma fresh_signed:
  assumes "fresh b (int n)"
  shows "fresh (b\<lparr>bn_is_negative := (if is_zero_value b then False else s)\<rparr>)
    (signed_int s n)"
proof -
  have "bn_magnitude b = n" using fresh_magnitude [OF assms] by simp
  with assms show ?thesis by (auto simp: fresh_def bn_value_def is_zero_iff signed_int_def)
qed

lemma signed_result_ok:
  assumes "number_env_ok env" "magnitude = Some (Some m)" "fresh m (int n)"
  obtains r where "signed_result env s bn_zero magnitude = Some (r, FT_ERR_SUCCESS, FT_ERR_SUCCESS)"
    "fresh r (signed_int s n)"
proof -
  obtain r where "take_magnitude env bn_zero m = Some (r, 0)" "fresh r (int n)"
    by (rule take_magnitude_ok [OF assms(1,3) fresh_zero])
  with assms(2) fresh_signed [of r n s] show ?thesis by (intro that) (auto simp: signed_result_def)
qed

lemma combine_magnitudes_ok:
  assumes "number_env_ok env" "bn_ok a" "bn_ok b"
  obtains r where "combine_magnitudes env s t bn_zero a b = Some (r, FT_ERR_SUCCESS, FT_ERR_SUCCESS)"
    "fresh r (signed_int s (bn_magnitude a) + signed_int t (bn_magnitude b))"
proof -
  consider "s = t" | "s \<noteq> t" "bn_magnitude a = bn_magnitude b" | "s \<noteq> t" "bn_magnitude a > bn_magnitude b"
    | "s \<noteq> t" "bn_magnitude a < bn_magnitude b" by linarith
  then show ?thesis
  proof cases
    case 1
    obtain m where m: "add_magnitude env a b = Some (Some m)"
      "fresh m (int (bn_magnitude a + bn_magnitude b))" by (rule add_magnitude_ok [OF assms])
    obtain r where r: "signed_result env s bn_zero (add_magnitude env a b)
        = Some (r, FT_ERR_SUCCESS, FT_ERR_SUCCESS)"
      "fresh r (signed_int s (bn_magnitude a + bn_magnitude b))"
      by (rule signed_result_ok [OF assms(1) m])
    show ?thesis using 1 r by (intro that [of r]) (auto simp: combine_magnitudes_def signed_int_def split: if_splits)
  next
    case 2
    then show ?thesis using assms
      by (intro that [of bn_zero]) (auto simp: combine_magnitudes_def compare_magnitude_sgn signed_int_def)
  next
    case 3
    obtain m where m: "subtract_magnitude env a b = Some (Some m)"
      "fresh m (int (bn_magnitude a - bn_magnitude b))" by (rule subtract_magnitude_ok [OF assms])
    obtain r where r: "signed_result env s bn_zero (subtract_magnitude env a b)
        = Some (r, FT_ERR_SUCCESS, FT_ERR_SUCCESS)"
      "fresh r (signed_int s (bn_magnitude a - bn_magnitude b))"
      by (rule signed_result_ok [OF assms(1) m])
    show ?thesis using 3 r assms
      by (intro that [of r])
        (auto simp: combine_magnitudes_def compare_magnitude_sgn of_nat_diff signed_int_def split: if_splits)
  next
    case 4
    obtain m where m: "subtract_magnitude env b a = Some (Some m)"
      "fresh m (int (bn_magnitude b - bn_magnitude a))"
      by (rule subtract_magnitude_ok [OF assms(1,3,2)])
    obtain r where r: "signed_result env t bn_zero (subtract_magnitude env b a)
        = Some (r, FT_ERR_SUCCESS, FT_ERR_SUCCESS)"
      "fresh r (signed_int t (bn_magnitude b - bn_magnitude a))"
      by (rule signed_result_ok [OF assms(1) m])
    show ?thesis using 4 r assms
      by (intro that [of r])
        (auto simp: combine_magnitudes_def compare_magnitude_sgn of_nat_diff signed_int_def split: if_splits)
  qed
qed

lemma finalize_result_ok:
  assumes "number_env_ok env" "fresh r v"
  obtains p where "finalize_result env (r, FT_ERR_SUCCESS, FT_ERR_SUCCESS) = Some (p, FT_ERR_SUCCESS)"
    "yields p v"
proof -
  obtain p where "proxy_of_value env r = Some p" "yields p v" by (rule proxy_of_value_ok [OF assms])
  with freshD(3) [OF assms(2)] show ?thesis by (intro that [of p]) (simp_all add: finalize_result_def)
qed

lemma bn_add_ok:
  assumes "number_env_ok env" "bn_ok a" "bn_ok b"
  obtains p where "bn_add env a b = Some (p, FT_ERR_SUCCESS)" "yields p (bn_value a + bn_value b)"
proof -
  obtain r where r: "combine_magnitudes env (bn_is_negative a) (bn_is_negative b) bn_zero a b
      = Some (r, FT_ERR_SUCCESS, FT_ERR_SUCCESS)" "fresh r (bn_value a + bn_value b)"
    unfolding bn_value_def by (rule combine_magnitudes_ok [OF assms])
  obtain p where "finalize_result env (r, FT_ERR_SUCCESS, FT_ERR_SUCCESS) = Some (p, FT_ERR_SUCCESS)"
    "yields p (bn_value a + bn_value b)" by (rule finalize_result_ok [OF assms(1) r(2)])
  with r(1) assms(1) show ?thesis by (intro that [of p]) (simp_all add: bn_add_def Let_def)
qed

lemma bn_subtract_ok:
  assumes "number_env_ok env" "bn_ok a" "bn_ok b"
  obtains p where "bn_subtract env a b = Some (p, FT_ERR_SUCCESS)" "yields p (bn_value a - bn_value b)"
proof -
  define t where "t = (if is_zero_value b then False else \<not> bn_is_negative b)"
  have t: "signed_int t (bn_magnitude b) = - bn_value b"
    using assms(3) by (auto simp: t_def bn_value_def signed_int_def is_zero_iff)
  obtain r where "combine_magnitudes env (bn_is_negative a) t bn_zero a b
      = Some (r, FT_ERR_SUCCESS, FT_ERR_SUCCESS)"
    "fresh r (signed_int (bn_is_negative a) (bn_magnitude a) + signed_int t (bn_magnitude b))"
    by (rule combine_magnitudes_ok [OF assms])
  then have r: "combine_magnitudes env (bn_is_negative a) t bn_zero a b
      = Some (r, FT_ERR_SUCCESS, FT_ERR_SUCCESS)" "fresh r (bn_value a - bn_value b)"
    by (simp_all add: t flip: bn_value_def)
  obtain p where "finalize_result env (r, FT_ERR_SUCCESS, FT_ERR_SUCCESS) = Some (p, FT_ERR_SUCCESS)"
    "yields p (bn_value a - bn_value b)" by (rule finalize_result_ok [OF assms(1) r(2)])
  with r(1) assms(1) show ?thesis
    by (intro that [of p]) (simp_all add: bn_subtract_def Let_def flip: t_def)
qed

lemma bn_multiply_ok:
  assumes "number_env_ok env" "bn_ok a" "bn_ok b"
  obtains p where "bn_multiply env a b = Some (p, FT_ERR_SUCCESS)" "yields p (bn_value a * bn_value b)"
proof -
  define s where "s = (bn_is_negative a \<noteq> bn_is_negative b)"
  define x where "x = (if \<not> is_zero_value a \<and> \<not> is_zero_value b
    then do {
      r \<leftarrow> multiply_magnitude env bn_zero a b;
      Some (r\<lparr>bn_is_negative := (if is_zero_value r then False else s)\<rparr>)
    } else Some bn_zero)"
  have "\<exists>r. x = Some r \<and> fresh r (bn_value a * bn_value b)"
  proof (cases "\<not> is_zero_value a \<and> \<not> is_zero_value b")
    case True
    obtain r where "multiply_magnitude env bn_zero a b = Some r"
      "fresh r (int (bn_magnitude a * bn_magnitude b))" by (rule multiply_magnitude_ok [OF assms])
    moreover have "signed_int s (bn_magnitude a * bn_magnitude b) = bn_value a * bn_value b"
      by (simp add: s_def bn_value_def signed_int_def)
    ultimately show ?thesis
      using True fresh_signed [of r "bn_magnitude a * bn_magnitude b" s] by (simp add: x_def)
  next
    case False
    then have "bn_value a * bn_value b = 0" "x = Some bn_zero"
      using assms by (auto simp: is_zero_iff bn_value_zero_iff x_def)
    with fresh_zero show ?thesis by metis
  qed
  then obtain r where r: "x = Some r" "fresh r (bn_value a * bn_value b)" by blast
  obtain p where "proxy_of_value env r = Some p" "yields p (bn_value a * bn_value b)"
    by (rule proxy_of_value_ok [OF assms(1) r(2)])
  moreover have "bn_multiply env a b
      = x \<bind> (\<lambda>r. proxy_of_value env r \<bind> (\<lambda>p. Some (p, bn_leave env r FT_ERR_SUCCESS)))"
    unfolding bn_multiply_def x_def s_def using assms(1) by simp
  ultimately show ?thesis using r(1) freshD(3) [OF r(2)] by (intro that [of p]) simp_all
qed

text \<open>Storing a proxy gives an object its value, whatever the object held before.\<close>

lemma bn_store_any:
  assumes "number_env_ok env" "yields p v"
  obtains r where "bn_store env b p = Some (r, 0)" "bn_ok r" "bn_value r = v"
    "bn_is_negative r \<longleftrightarrow> v < 0" "bn_state r = bn_state b" "bn_mutex r = bn_mutex b"
proof -
  have p: "px_error p = 0" "fresh (px_value p) v" using assms(2) by (simp_all add: yields_def)
  obtain c where c: "bn_initialize_copy env False bn_constructor (px_value p) = Some (c, 0)"
    "fresh c v"
    by (rule bn_initialize_copy_fresh [OF assms(1) p(2)])
  obtain r where r: "bn_copy_assign env False b c = Some (r, FT_ERR_SUCCESS)" "bn_ok r"
    "bn_text r = bn_text c" "bn_is_negative r = bn_is_negative c"
    "bn_state r = bn_state b" "bn_mutex r = bn_mutex b"
    by (rule bn_copy_assign_ok [OF assms(1) freshD(1) [OF c(2)]])
  have eq: "bn_store env b p = Some (r, 0)"
    using assms(1) p(1) freshD(2,3) [OF p(2)] freshD(3) [OF c(2)] c(1) r(1)
    by (simp add: bn_store_def bn_assign_proxy_def proxy_to_number_def)
  show ?thesis
    using freshD(4,5) [OF c(2)] bn_value_eqI [OF r(3,4)] r by (intro that [OF eq]) simp_all
qed

lemma bn_store_ok:
  assumes "number_env_ok env" "yields p v" "fresh b w"
  obtains r where "bn_store env b p = Some (r, 0)" "fresh r v"
  by (rule bn_store_any [OF assms(1,2), of b]) (use assms(3) in \<open>auto simp: fresh_def\<close>)

text \<open>
  The contract of an arithmetic operator: for a right operand in \<open>accepts\<close> it returns a proxy
  for the integer operation \<open>f\<close>, with no error. Storing the proxy in a variable, and going on
  from the proxy with another operator, then has the value one expects.
\<close>

locale exact_operator =
  fixes operator :: "number_env \<Rightarrow> big_number \<Rightarrow> big_number \<Rightarrow> (number_proxy \<times> ft_err) option"
    and f :: "int \<Rightarrow> int \<Rightarrow> int"
    and accepts :: "int \<Rightarrow> bool"
  assumes exact: "\<lbrakk>number_env_ok env; bn_ok a; bn_ok b; accepts (bn_value b)\<rbrakk>
    \<Longrightarrow> \<exists>p. operator env a b = Some (p, 0) \<and> yields p (f (bn_value a) (bn_value b))"
begin

lemma stored:
  assumes "number_env_ok env" "bn_ok a" "bn_ok b" "accepts (bn_value b)" "fresh c w"
  obtains p r where "operator env a b = Some (p, 0)" "bn_store env c p = Some (r, 0)"
    "fresh r (f (bn_value a) (bn_value b))"
proof -
  obtain p where p: "operator env a b = Some (p, 0)" "yields p (f (bn_value a) (bn_value b))"
    using exact [OF assms(1-4)] by blast
  obtain r where "bn_store env c p = Some (r, 0)" "fresh r (f (bn_value a) (bn_value b))"
    by (rule bn_store_ok [OF assms(1) p(2) assms(5)])
  with p(1) show ?thesis by (rule that)
qed

lemma chained:
  assumes "number_env_ok env" "yields p v" "bn_ok b" "accepts (bn_value b)"
  shows "\<exists>q. proxy_operator operator env p b = Some (q, 0) \<and> yields q (f v (bn_value b))"
  using exact [OF assms(1) _ assms(3,4), of "px_value p"] assms(2)
  by (auto simp: proxy_operator_def yields_def fresh_def)

end

interpretation add: exact_operator bn_add "(+)" "\<lambda>_. True"
proof
  fix env a b assume "number_env_ok env" "bn_ok a" "bn_ok b"
  then show "\<exists>p. bn_add env a b = Some (p, 0) \<and> yields p (bn_value a + bn_value b)"
    by (rule bn_add_ok) auto
qed

interpretation subtract: exact_operator bn_subtract "(-)" "\<lambda>_. True"
proof
  fix env a b assume "number_env_ok env" "bn_ok a" "bn_ok b"
  then show "\<exists>p. bn_subtract env a b = Some (p, 0) \<and> yields p (bn_value a - bn_value b)"
    by (rule bn_subtract_ok) auto
qed

interpretation multiply: exact_operator bn_multiply "(*)" "\<lambda>_. True"
proof
  fix env a b assume "number_env_ok env" "bn_ok a" "bn_ok b"
  then show "\<exists>p. bn_multiply env a b = Some (p, 0) \<and> yields p (bn_value a * bn_value b)"
    by (rule bn_multiply_ok) auto
qed

end
