(* ===== verification/Big_Number_Div.thy ===== *)
theory Big_Number_Div
  imports Big_Number_Spec "HOL-Library.Signed_Division"
begin

text \<open>
  Division and remainder of \<open>ft_big_number\<close>: appending digits, the candidate search, the long
  division, and the operators, which compute truncated division. The last part gives the
  comparison operators their meaning.
\<close>

subsection \<open>Appending digits\<close>

lemma append_canonical:
  assumes "canonical cs" "is_dec c"
  shows "canonical ((if cs = [48] then [] else cs) @ [c])"
    "dec ((if cs = [48] then [] else cs) @ [c]) = dec cs * 10 + digit_of c"
  using assms by (cases cs; auto simp: canonical_def dec_snoc dec_Cons)+

lemma append_digit_unlocked_ok:
  assumes "number_env_ok env" "bn_ok b" "is_dec c"
  obtains r where "append_digit_unlocked env b c = Some r" "bn_ok r"
    "bn_magnitude r = bn_magnitude b * 10 + digit_of c" "bn_is_negative r = bn_is_negative b"
    "bn_state r = bn_state b" "bn_mutex r = bn_mutex b"
proof -
  note ok = bn_okD [OF assms(2)]
  define n where "n = bn_size b"
  define b1 where "b1 = bn_reserve env b (n + 2)"
  obtain d where d: "bn_digits b1 = Some d" "bn_capacity b1 = length d" "n + 2 \<le> length d"
    "bn_text b1 = bn_text b"
    unfolding b1_def by (rule bn_reserve_ok [OF assms(1) ok(1), of "n + 2"]) auto
  have sz: "bn_size b1 = n" by (simp add: b1_def n_def)
  have res: "(if n + 2 > bn_capacity b \<or> bn_digits b = None
      then bn_reserve env b (if bn_capacity b < n + 2 then n + 2 else bn_capacity b) else b) = b1"
    using ok(1) by (auto simp: b1_def bn_reserve_def bn_block_def)
  have tx: "take n d = bn_text b" using d(1,4) sz by (simp add: bn_text_def)
  define k where "k = (if n = 1 \<and> d ! 0 = 48 then 0 else n)"
  have one: "n = 1 \<and> d ! 0 = 48 \<longleftrightarrow> bn_text b = [48]"
    unfolding tx [symmetric] using d(3) by (cases d) (auto simp: take_Cons split: nat.splits)
  have k: "k \<le> n" "take k d = (if bn_text b = [48] then [] else bn_text b)"
    using one tx by (auto simp: k_def)
  define d2 where "d2 = d[k := c, k + 1 := 0]"
  define r where "r = b1\<lparr>bn_size := k + 1, bn_digits := Some d2\<rparr>"
  have d2: "length d2 = length d" "take (k + 1) d2 = (if bn_text b = [48] then [] else bn_text b) @ [c]"
    "d2 ! (k + 1) = 0"
    unfolding k(2) [symmetric] using k(1) d(3) by (simp_all add: d2_def take_Suc_conv_app_nth)
  have r: "bn_block r" "bn_terminated r" "bn_text r = (if bn_text b = [48] then [] else bn_text b) @ [c]"
    using bn_holds [of r d2] d d2 k by (simp_all add: r_def)
  have eq: "append_digit_unlocked env b c = Some r"
  proof -
    have "\<not> (c < 48 \<or> c > 57)" using assms(3) by (auto simp: is_dec_def)
    moreover have "bn_put ((if n = 1 \<and> d ! 0 = 48 then b1\<lparr>bn_size := 0\<rparr> else b1)) k c
        = Some (b1\<lparr>bn_size := k, bn_digits := Some (d[k := c])\<rparr>)"
      using d k sz by (auto simp: bn_put_def k_def)
    moreover have "bn_put (b1\<lparr>bn_digits := Some (d[k := c]), bn_size := k + 1\<rparr>) (k + 1) 0 = Some r"
      using d(3) k by (simp add: bn_put_def r_def d2_def)
    moreover have "bn_size (if n = 1 \<and> d ! 0 = 48 then b1\<lparr>bn_size := 0\<rparr> else b1) = k"
      by (simp add: k_def sz)
    ultimately show ?thesis
      unfolding append_digit_unlocked_def Let_def n_def [symmetric] res using d(1) sz
      by (cases "n = 1 \<and> d ! 0 = 48") auto
  qed
  show ?thesis
    using append_canonical [OF ok(3) assms(3)] r
    by (intro that [OF eq]) (simp_all add: bn_ok_def bn_magnitude_def, simp_all add: r_def b1_def)
qed

lemma bn_append_digit_ok:
  assumes "number_env_ok env" "fresh b (int n)" "is_dec c"
  obtains r where "bn_append_digit env 0 b c = Some (r, 0)" "fresh r (int (n * 10 + digit_of c))"
proof -
  note f = freshD [OF assms(2)]
  obtain r where r: "append_digit_unlocked env b c = Some r" "bn_ok r"
    "bn_magnitude r = bn_magnitude b * 10 + digit_of c" "bn_is_negative r = bn_is_negative b"
    "bn_state r = bn_state b" "bn_mutex r = bn_mutex b"
    by (rule append_digit_unlocked_ok [OF assms(1) f(1) assms(3)])
  show ?thesis
    using r f assms(1) fresh_magnitude [OF assms(2)]
    by (intro that [of r]) (simp_all add: bn_append_digit_def fresh_def bn_value_def)
qed

lemma bn_trim_ok:
  assumes "number_env_ok env" "fresh b v"
  obtains r where "bn_trim_leading_zeros env b = Some (r, 0)" "fresh r v"
proof -
  note f = freshD [OF assms(2)] and ok = bn_okD [OF freshD(1) [OF assms(2)]]
  obtain r where r: "trim_leading_zeros_unlocked env b = Some r" "bn_ok r"
    "bn_magnitude r = bn_magnitude b" "bn_is_negative r = bn_is_negative b"
    "bn_state r = bn_state b" "bn_mutex r = bn_mutex b"
    by (rule trim_ok [OF assms(1) ok(1,2,4)])
  show ?thesis
    using r f assms(1) by (intro that [of r])
      (simp_all add: bn_trim_leading_zeros_def fresh_def bn_value_def)
qed

subsection \<open>Long division\<close>

text \<open>
  The search ends with the greatest digit whose product does not exceed the remainder.
\<close>

lemma candidate_loop_end: "9 < c \<Longrightarrow> candidate_loop env other remainder c best p = Some (0, best, p)"
  by (simp add: candidate_loop.simps)

lemma digit_char_bounds: "n < 10 \<Longrightarrow> is_dec (digit_char n)"
  by simp

lemma nat_abs_mult_int: "nat \<bar>v * int k\<bar> = nat \<bar>v\<bar> * k"
  by (simp add: abs_mult nat_mult_distrib)

lemma candidate_loop_ok:
  assumes "number_env_ok env" "bn_ok other" "bn_ok remainder"
    "bn_magnitude other = d" "bn_magnitude remainder = n" "n < 10 * d"
    "best \<le> 9" "best * d \<le> n" "fresh best_product w" "bn_magnitude best_product = best * d"
  shows "\<exists>p v. candidate_loop env other remainder (best + 1) best best_product = Some (0, n div d, p)
    \<and> fresh p v \<and> bn_magnitude p = n div d * d"
  using assms(7-10)
proof (induction "9 - best" arbitrary: best best_product w)
  case 0
  then have "best = 9" by simp
  moreover from this 0 assms(6) have "n div d = 9" by (intro div_nat_eqI) simp_all
  ultimately show ?case using 0 by (auto simp: candidate_loop_end)
next
  case (Suc k)
  define c where "c = best + 1"
  have c: "c < 10" "c \<le> 9" using Suc.hyps(2) by (auto simp: c_def)
  obtain m where m: "bn_append_digit env 0 bn_zero (digit_char c) = Some (m, 0)"
    "fresh m (int c)"
    by (rule bn_append_digit_ok [OF assms(1) _ digit_char_bounds [OF c(1)], of bn_zero 0])
      (use c in auto)
  obtain p r where p: "bn_multiply env other m = Some (p, 0)" "bn_store env bn_zero p = Some (r, 0)"
    "fresh r (bn_value other * int c)"
    using multiply.stored [OF assms(1,2) freshD(1) [OF m(2)] _ fresh_zero] freshD(4) [OF m(2)] by auto
  have mr: "bn_magnitude r = d * c"
    using fresh_magnitude [OF p(3)] assms(4) by (simp add: nat_abs_mult_int bn_value_def signed_int_def)
  have cmp: "compare_magnitude r remainder = sgn (int (d * c) - int n)"
    using compare_magnitude_sgn [OF freshD(1) [OF p(3)] assms(3)] mr assms(5) by simp
  have unfold: "candidate_loop env other remainder c best best_product =
    (if compare_magnitude r remainder \<le> 0
     then do {
       (q, e4) \<leftarrow> bn_copy_assign env False best_product r;
       candidate_loop env other remainder (if compare_magnitude r remainder = 0 then 10 else c + 1) c q
     }
     else candidate_loop env other remainder 10 best best_product)"
    using c m(1) p(1,2) by (subst candidate_loop.simps) (simp add: Let_def)
  obtain q where q: "bn_copy_assign env False best_product r = Some (q, 0)"
    "fresh q (bn_value other * int c)"
    by (rule bn_copy_fresh [OF assms(1) p(3) Suc.prems(3)])
  have mq: "bn_magnitude q = d * c"
    using fresh_magnitude [OF q(2)] fresh_magnitude [OF p(3)] mr by simp
  consider "d * c = n" | "d * c < n" | "n < d * c" by linarith
  then show ?case
  proof cases
    case 1
    then have "n div d = c" using assms(6) by (intro div_nat_eqI) (auto simp: c_def)
    with 1 q mq cmp unfold show ?thesis by (auto simp: candidate_loop_end c_def mult.commute)
  next
    case 2
    then have "\<exists>p v. candidate_loop env other remainder (c + 1) c q = Some (0, n div d, p)
        \<and> fresh p v \<and> bn_magnitude p = n div d * d"
      using Suc.hyps(2) c q mq
      by (intro Suc.hyps(1) [of c q "bn_value other * int c"]) (simp_all add: c_def mult.commute)
    moreover have "compare_magnitude r remainder = -1"
      unfolding cmp using 2 by (simp add: sgn_if flip: of_nat_mult)
    ultimately show ?thesis using q(1) unfold by (simp add: c_def)
  next
    case 3
    then have "n div d = best" using Suc.prems(2) by (intro div_nat_eqI) (simp_all add: c_def mult.commute)
    moreover have "compare_magnitude r remainder = 1"
      unfolding cmp using 3 by (simp add: sgn_if flip: of_nat_mult)
    ultimately show ?thesis using unfold Suc.prems(3,4) by (auto simp: candidate_loop_end c_def)
  qed
qed

lemma divide_step_ok:
  assumes "number_env_ok env" "bn_ok other" "bn_magnitude other = d" "fresh remainder (int n)"
    "n < 10 * d"
  shows "\<exists>r. divide_step env other remainder = Some (0, n div d, r) \<and> fresh r (int (n mod d))"
proof (cases "n < d")
  case True
  have "compare_magnitude remainder other = -1"
    using compare_magnitude_sgn [OF freshD(1) [OF assms(4)] assms(2)] True assms(3)
      fresh_magnitude [OF assms(4)] by (simp add: sgn_if)
  with True assms(4) show ?thesis by (simp add: divide_step_def)
next
  case False
  have mag: "bn_magnitude remainder = n" using fresh_magnitude [OF assms(4)] by simp
  have cmp: "compare_magnitude remainder other \<ge> 0"
    using compare_magnitude_sgn [OF freshD(1) [OF assms(4)] assms(2)] False assms(3) mag
    by (simp add: sgn_if)
  have q: "0 < n div d" using False assms(5) by (simp add: div_greater_zero_iff)
  obtain p v where p: "candidate_loop env other remainder 1 0 bn_zero = Some (0, n div d, p)"
    "fresh p v" "bn_magnitude p = n div d * d"
    using candidate_loop_ok [OF assms(1,2) freshD(1) [OF assms(4)] assms(3) mag assms(5), of 0 bn_zero 0]
      fresh_magnitude [OF fresh_zero] by auto
  obtain m where m: "subtract_magnitude env remainder p = Some (Some m)"
    "fresh m (int (n - n div d * d))"
    using subtract_magnitude_ok [OF assms(1) freshD(1) [OF assms(4)] freshD(1) [OF p(2)]]
    unfolding mag p(3) by blast
  obtain r where "take_magnitude env remainder m = Some (r, 0)" "fresh r (int (n - n div d * d))"
    by (rule take_magnitude_ok [OF assms(1) m(2) assms(4)])
  with cmp q p(1) m(1) show ?thesis by (simp add: divide_step_def minus_div_mult_eq_mod)
qed

lemma long_division_step:
  fixes d :: nat
  assumes "0 < d"
  shows "(q * 10 + n div d) * t + (n mod d * t + x) div d = q * (10 * t) + (n * t + x) div d"
proof -
  have "n * t + x = (n mod d * t + x) + d * (n div d * t)"
    by (metis (no_types, lifting) add.commute add.left_commute add_mult_distrib mult.assoc mult_div_mod_eq)
  then have "(n * t + x) div d = n div d * t + (n mod d * t + x) div d"
    using assms by (metis div_mult_self2 add.commute less_numeral_extra(3))
  then show ?thesis by (simp add: algebra_simps)
qed

lemma divide_loop_ok:
  assumes "number_env_ok env" "bn_ok other" "bn_magnitude other = d" "0 < d"
    "decimal cs" "fresh remainder (int n)" "n < d" "fresh result (int q)"
  shows "\<exists>r. divide_loop env other cs remainder result = Some (0, r)
    \<and> fresh r (int (q * 10 ^ length cs + (n * 10 ^ length cs + dec cs) div d))"
  using assms(5-8)
proof (induction cs arbitrary: remainder n result q)
  case Nil
  then show ?case using assms(4) by simp
next
  case (Cons c cs)
  define n1 where "n1 = n * 10 + digit_of c"
  have c: "is_dec c" "decimal cs" using Cons.prems(1) by simp_all
  have n1: "n1 < 10 * d" using digit_of_le [OF c(1)] Cons.prems(3) by (simp add: n1_def)
  then have q1: "n1 div d < 10" by (simp add: div_less_iff_less_mult assms(4))
  obtain r1 where r1: "bn_append_digit env 0 remainder c = Some (r1, 0)" "fresh r1 (int n1)"
    unfolding n1_def by (rule bn_append_digit_ok [OF assms(1) Cons.prems(2) c(1)])
  obtain r2 where r2: "bn_trim_leading_zeros env r1 = Some (r2, 0)" "fresh r2 (int n1)"
    by (rule bn_trim_ok [OF assms(1) r1(2)])
  obtain r3 where r3: "divide_step env other r2 = Some (0, n1 div d, r3)" "fresh r3 (int (n1 mod d))"
    using divide_step_ok [OF assms(1-3) r2(2) n1] by blast
  obtain s where s: "bn_append_digit env 0 result (digit_char (n1 div d)) = Some (s, 0)"
    "fresh s (int (q * 10 + digit_of (digit_char (n1 div d))))"
    by (rule bn_append_digit_ok [OF assms(1) Cons.prems(4) is_dec_digit_char [OF q1]])
  have "\<exists>r. divide_loop env other cs r3 s = Some (0, r)
    \<and> fresh r (int ((q * 10 + n1 div d) * 10 ^ length cs
        + (n1 mod d * 10 ^ length cs + dec cs) div d))"
    using s(2) q1 c(2) r3(2) assms(4) by (intro Cons.IH) simp_all
  moreover have "n1 * 10 ^ length cs + dec cs = n * 10 ^ length (c # cs) + dec (c # cs)"
    by (simp add: n1_def dec_Cons algebra_simps)
  ultimately show ?case
    using r1(1) r2(1) r3(1) s(1)
    unfolding long_division_step [OF assms(4)] by simp
qed

text \<open>Truncated division of integers in terms of the magnitudes.\<close>

lemma sdiv_value:
  "bn_value a sdiv bn_value b
    = signed_int (bn_is_negative a \<noteq> bn_is_negative b) (bn_magnitude a div bn_magnitude b)"
  by (auto simp: signed_divide_int_def bn_value_def signed_int_def zdiv_int sgn_if)

lemma fresh_quotient:
  assumes "fresh r (int (bn_magnitude a div bn_magnitude b))"
  shows "fresh (quotient_sign a b r) (bn_value a sdiv bn_value b)"
proof -
  have "bn_is_negative (quotient_sign a b r)
      = (if is_zero_value r then False else bn_is_negative a \<noteq> bn_is_negative b)"
    using freshD(5) [OF assms] by (simp add: quotient_sign_def)
  then have "quotient_sign a b r
      = r\<lparr>bn_is_negative := (if is_zero_value r then False else bn_is_negative a \<noteq> bn_is_negative b)\<rparr>"
    by (intro big_number.equality) (simp_all add: quotient_sign_def)
  then show ?thesis using fresh_signed [OF assms] by (simp only: sdiv_value)
qed

lemma divide_body_ok:
  assumes "number_env_ok env" "bn_ok a" "bn_ok b" "bn_value b \<noteq> 0"
  obtains r where "divide_body env a b = Some (0, r)" "fresh r (bn_value a sdiv bn_value b)"
proof -
  have b: "0 < bn_magnitude b" "\<not> is_zero_value b"
    using assms(3,4) by (simp_all add: bn_value_zero_iff is_zero_iff)
  note cmp = compare_magnitude_sgn [OF assms(2,3)]
  consider "bn_magnitude a < bn_magnitude b" | "bn_magnitude a = bn_magnitude b"
    | "bn_magnitude b < bn_magnitude a" by linarith
  then show ?thesis
  proof cases
    case 1
    then have "divide_body env a b = Some (0, bn_zero)"
      using b by (simp add: divide_body_def cmp)
    moreover have "bn_value a sdiv bn_value b = 0" using 1 by (simp add: sdiv_value)
    ultimately show ?thesis using fresh_zero by (intro that) auto
  next
    case 2
    obtain r where r: "bn_append_digit env 0 bn_zero 49 = Some (r, 0)"
      "fresh r (int (0 * 10 + digit_of 49))"
      by (rule bn_append_digit_ok [OF assms(1) _, of bn_zero 0 49]) (auto simp: is_dec_def)
    have "fresh r (int (bn_magnitude a div bn_magnitude b))"
      using r(2) 2 b by (simp add: digit_of_def)
    then have "fresh (quotient_sign a b r) (bn_value a sdiv bn_value b)" by (rule fresh_quotient)
    moreover have "divide_body env a b = Some (0, quotient_sign a b r)"
      using r(1) 2 b assms(2) by (simp add: divide_body_def cmp is_zero_iff)
    ultimately show ?thesis by (rule that [rotated])
  next
    case 3
    obtain r1 where r1: "divide_loop env b (bn_text a) bn_zero bn_zero = Some (0, r1)"
      "fresh r1 (int (bn_magnitude a div bn_magnitude b))"
      using divide_loop_ok [OF assms(1,3) refl b(1) bn_okD(4) [OF assms(2)], of bn_zero 0 bn_zero 0] b(1)
      by (auto simp: bn_magnitude_def [of a])
    obtain r2 where r2: "bn_trim_leading_zeros env r1 = Some (r2, 0)"
      "fresh r2 (int (bn_magnitude a div bn_magnitude b))"
      by (rule bn_trim_ok [OF assms(1) r1(2)])
    have "divide_body env a b = Some (0, quotient_sign a b r2)"
      using r1(1) r2(1) 3 b assms(2) by (simp add: divide_body_def cmp is_zero_iff)
    then show ?thesis using fresh_quotient [OF r2(2)] by (rule that)
  qed
qed

interpretation divide: exact_operator bn_divide "(sdiv)" "\<lambda>v. v \<noteq> 0"
proof
  fix env a b assume *: "number_env_ok env" "bn_ok a" "bn_ok b" "bn_value b \<noteq> 0"
  obtain r where r: "divide_body env a b = Some (0, r)" "fresh r (bn_value a sdiv bn_value b)"
    by (rule divide_body_ok [OF *])
  obtain p where "proxy_of_value env r = Some p" "yields p (bn_value a sdiv bn_value b)"
    by (rule proxy_of_value_ok [OF *(1) r(2)])
  with r(1) *(1) freshD(3) [OF r(2)]
  show "\<exists>p. bn_divide env a b = Some (p, 0) \<and> yields p (bn_value a sdiv bn_value b)"
    by (simp add: bn_divide_def)
qed

lemma bn_divide_by_zero:
  assumes "number_env_ok env" "bn_ok b" "bn_value b = 0"
  shows "bn_divide env a b = Some (proxy_of_error FT_ERR_DIVIDE_BY_ZERO, 0)"
  using assms by (simp add: bn_divide_def divide_body_def is_zero_iff bn_value_zero_iff
    bn_leave_def bn_destroy_def)

text \<open>Storing a proxy that carries an error stores zero and reports success.\<close>

lemma bn_store_error:
  assumes "number_env_ok env" "e \<noteq> 0" "fresh b w"
  obtains r where "bn_store env b (proxy_of_error e) = Some (r, 0)" "fresh r 0"
proof -
  obtain r where "bn_copy_assign env False b bn_zero = Some (r, 0)" "fresh r 0"
    by (rule bn_copy_fresh [OF assms(1) fresh_zero assms(3)])
  with assms(1,2) show ?thesis
    by (intro that [of r]) (simp_all add: bn_store_def bn_assign_proxy_def proxy_to_number_def
      proxy_of_error_def bn_leave_def bn_destroy_def)
qed

text \<open>The remainder, from a quo \<open>q\<close> that was stored.\<close>

lemma bn_modulo_from_quotient:
  assumes "number_env_ok env" "bn_ok a" "bn_ok b"
    "bn_divide env a b = Some (p1, 0)" "bn_store env bn_zero p1 = Some (quo, 0)"
    "fresh quo q"
  shows "\<exists>p. bn_modulo env a b = Some (p, 0) \<and> yields p (bn_value a - q * bn_value b)"
proof -
  obtain p2 product where m: "bn_multiply env quo b = Some (p2, 0)"
    "bn_store env bn_zero p2 = Some (product, 0)" "fresh product (q * bn_value b)"
    using multiply.stored [OF assms(1) freshD(1) [OF assms(6)] assms(3) _ fresh_zero]
      freshD(4) [OF assms(6)] by auto
  obtain p3 r1 where d: "bn_subtract env a product = Some (p3, 0)"
    "bn_store env bn_zero p3 = Some (r1, 0)" "fresh r1 (bn_value a - q * bn_value b)"
    using subtract.stored [OF assms(1,2) freshD(1) [OF m(3)] _ fresh_zero]
      freshD(4) [OF m(3)] by auto
  obtain r2 where t: "bn_trim_leading_zeros env r1 = Some (r2, 0)"
    "fresh r2 (bn_value a - q * bn_value b)"
    by (rule bn_trim_ok [OF assms(1) d(3)])
  have "(if is_zero_value r2 then r2\<lparr>bn_is_negative := False\<rparr> else r2) = r2"
    using is_zero_iff [OF freshD(1) [OF t(2)]] bn_value_zero_iff [of r2] freshD(4,5) [OF t(2)]
    by (auto intro!: big_number.equality)
  moreover obtain p where "proxy_of_value env r2 = Some p" "yields p (bn_value a - q * bn_value b)"
    by (rule proxy_of_value_ok [OF assms(1) t(2)])
  ultimately show ?thesis
    using assms(4,5) m(1,2) d(1,2) t(1) freshD(3) [OF t(2)] by (simp add: bn_modulo_def)
qed

interpretation modulo: exact_operator bn_modulo "(smod)" "\<lambda>v. v \<noteq> 0"
proof
  fix env a b assume *: "number_env_ok env" "bn_ok a" "bn_ok b" "bn_value b \<noteq> 0"
  obtain p r where "bn_divide env a b = Some (p, 0)" "bn_store env bn_zero p = Some (r, 0)"
    "fresh r (bn_value a sdiv bn_value b)"
    by (rule divide.stored [OF * fresh_zero])
  then show "\<exists>p. bn_modulo env a b = Some (p, 0) \<and> yields p (bn_value a smod bn_value b)"
    using bn_modulo_from_quotient [OF *(1-3)] by (metis minus_sdiv_mult_eq_smod)
qed

lemma bn_modulo_by_zero:
  assumes "number_env_ok env" "bn_ok a" "bn_ok b" "bn_value b = 0"
  shows "\<exists>p. bn_modulo env a b = Some (p, 0) \<and> yields p (bn_value a)"
proof -
  obtain r where "bn_store env bn_zero (proxy_of_error FT_ERR_DIVIDE_BY_ZERO) = Some (r, 0)"
    "fresh r 0"
    by (rule bn_store_error [OF assms(1) _ fresh_zero, of FT_ERR_DIVIDE_BY_ZERO]) auto
  from bn_modulo_from_quotient [OF assms(1-3) bn_divide_by_zero [OF assms(1,3,4)] this]
  show ?thesis by simp
qed

subsection \<open>Comparison\<close>

lemma bn_less_ok:
  assumes "number_env_ok env" "bn_ok a" "bn_ok b"
  shows "bn_less env 0 a b = (bn_value a < bn_value b, 0)"
  using assms compare_magnitude_sgn [OF assms(2,3)]
  by (auto simp: bn_less_def is_zero_iff bn_value_def signed_int_def sgn_if)

lemma bn_equal_ok:
  assumes "number_env_ok env" "bn_ok a" "bn_ok b"
  shows "bn_equal env 0 a b = (bn_value a = bn_value b, 0)"
proof (cases "bn_magnitude a = 0 \<and> bn_magnitude b = 0")
  case True
  then show ?thesis using assms by (simp add: bn_equal_def is_zero_iff bn_value_def)
next
  case False
  note ok = bn_okD [OF assms(2)] bn_okD [OF assms(3)]
  have "bn_value a = bn_value b \<longleftrightarrow>
      bn_is_negative a = bn_is_negative b \<and> bn_magnitude a = bn_magnitude b"
    using False by (auto simp: bn_value_def signed_int_def)
  also have "\<dots> \<longleftrightarrow> bn_is_negative a = bn_is_negative b \<and> bn_text a = bn_text b"
    using canonical_inject [OF ok(3) ok(8)] False by (auto simp: bn_magnitude_def)
  finally have val: "bn_value a = bn_value b \<longleftrightarrow>
      bn_is_negative a = bn_is_negative b \<and> bn_text a = bn_text b" .
  have nz: "\<not> (is_zero_value a \<and> is_zero_value b)" using False assms by (auto simp: is_zero_iff)
  have sz: "bn_text a = bn_text b \<Longrightarrow> bn_size a = bn_size b" using ok(5,10) by metis
  have "bn_text a = bn_text b \<Longrightarrow> bn_digits a \<noteq> None \<and> bn_digits b \<noteq> None \<and> bn_size a \<noteq> 0"
    using False is_zero_iff [OF assms(2)] is_zero_iff [OF assms(3)]
    by (auto simp: is_zero_value_def bn_magnitude_def)
  moreover have "\<not> (bn_size a = 0 \<and> bn_size b = 0)" using nz by (auto simp: is_zero_value_def)
  ultimately show ?thesis
    using assms(1) nz sz unfolding bn_equal_def val by auto
qed

end
