(* ===== verification/Big_Number_Convert.thy ===== *)
theory Big_Number_Convert
  imports Big_Number_Div
begin

text \<open>
  Conversions and powers of \<open>ft_big_number\<close>: decimal and positional parsing, printing in a
  base, and modular exponentiation. The loops of the last two are partial functions; that
  they end is part of what is shown.
\<close>

subsection \<open>Decimal strings\<close>

lemma scan_digits_decimal: "decimal ds \<Longrightarrow> scan_digits (ds @ 0 # rest) = Some (Some (length ds))"
  by (induction ds) (auto simp: is_dec_def dest: is_dec_not_0)

lemma scan_digits_other:
  assumes "decimal ds" "\<not> is_dec c" "c \<noteq> 0"
  shows "scan_digits (ds @ c # rest) = Some None"
  using assms by (induction ds) (auto simp: is_dec_def)

text \<open>The decimal text of an integer, with a sign.\<close>

definition signed_text :: "bool \<Rightarrow> bytes \<Rightarrow> bytes" where
  "signed_text s ds = (if s then 45 # ds else ds)"

lemma is_zero_sign:
  assumes "bn_ok b" "bn_magnitude b = n"
  shows "bn_is_negative (if is_zero_value b then b\<lparr>bn_is_negative := False\<rparr> else b)
    \<longleftrightarrow> bn_is_negative b \<and> n \<noteq> 0"
  using assms by (auto simp: is_zero_iff)

lemma bn_assign_ok:
  assumes "number_env_ok env" "bn_ok b" "decimal ds" "ds \<noteq> []"
  obtains r where "bn_assign env b (Some (signed_text s ds @ 0 # rest)) = Some r" "bn_ok r"
    "bn_value r = signed_int s (dec ds)" "bn_is_negative r \<longleftrightarrow> s \<and> dec ds \<noteq> 0"
    "bn_state r = bn_state b" "bn_mutex r = bn_mutex b"
proof -
  note ok = bn_okD [OF assms(2)]
  define n where "n = length ds"
  have n: "0 < n" using assms(4) by (simp add: n_def)
  define b1 where "b1 = bn_reserve env b (n + 1)"
  obtain d where d: "bn_digits b1 = Some d" "bn_capacity b1 = length d" "n + 1 \<le> length d"
    unfolding b1_def by (rule bn_reserve_ok [OF assms(1) ok(1), of "n + 1"]) auto
  have res: "(if n + 1 > bn_capacity b \<or> bn_digits b = None then bn_reserve env b (n + 1) else b) = b1"
    by (auto simp: b1_def bn_reserve_def)
  define d1 where "d1 = (write_block d 0 (take n (ds @ 0 # rest)))[n := 0]"
  define b2 where "b2 = b1\<lparr>bn_digits := Some d1, bn_size := n, bn_is_negative := s\<rparr>"
  have d1: "length d1 = length d" "take n d1 = ds" "d1 ! n = 0"
    using d(3) by (simp_all add: d1_def write_block_def n_def)
  have b2: "bn_block b2" "bn_terminated b2" "bn_text b2 = ds"
    using bn_holds [of b2 d1 ds] d d1 by (simp_all add: b2_def)
  obtain r where r: "trim_leading_zeros_unlocked env b2 = Some r" "bn_ok r"
    "bn_magnitude r = bn_magnitude b2" "bn_is_negative r = bn_is_negative b2"
    "bn_state r = bn_state b2" "bn_mutex r = bn_mutex b2"
    by (rule trim_ok [OF assms(1) b2(1,2)]) (use assms(3) b2(3) in auto)
  have mag: "bn_magnitude r = dec ds" using r(3) b2(3) by (simp add: bn_magnitude_def)
  define z where "z = (if is_zero_value r then r\<lparr>bn_is_negative := False\<rparr> else r)"
  obtain c cs where c: "ds = c # cs" "is_dec c" using assms(3,4) by (cases ds) auto
  have split: "signed_text s ds @ 0 # rest = (if s then 45 else c) # (if s then ds else cs) @ 0 # rest"
    by (simp add: signed_text_def c(1))
  have par: "((if s then 45 else c) = 45) = s" using c(2) by (auto simp: is_dec_def)
  have sc: "scan_digits (ds @ 0 # rest) = Some (Some n)"
    using scan_digits_decimal [OF assms(3)] by (simp add: n_def)
  have pick: "(if s then (if s then ds else cs) @ 0 # rest
      else (if s then 45 else c) # (if s then ds else cs) @ 0 # rest) = ds @ 0 # rest"
    by (simp add: c(1))
  have eq: "bn_assign env b (Some (signed_text s ds @ 0 # rest)) = Some z"
    using assms(1) n d(1,3) r(1) sc unfolding split bn_assign_def
    by (simp only: list.case option.case Let_def par pick)
      (simp add: res [simplified] z_def d1_def [simplified] b2_def)
  show ?thesis
  proof (rule that [OF eq])
    show "bn_value z = signed_int s (dec ds)"
      using mag r(2,4) by (auto simp: z_def bn_value_def is_zero_iff b2_def)
    show "bn_is_negative z \<longleftrightarrow> s \<and> dec ds \<noteq> 0"
      using is_zero_sign [OF r(2) mag] r(4) by (simp add: z_def b2_def)
  qed (use r in \<open>simp_all add: z_def b2_def b1_def\<close>)
qed

text \<open>The C string that \<open>c_str\<close> points to.\<close>

definition c_string :: "bytes \<Rightarrow> bytes" where
  "c_string cs = takeWhile (\<lambda>c. c \<noteq> 0) cs"

lemma c_string_append: "decimal ds \<Longrightarrow> c_string (ds @ 0 # rest) = ds"
  by (induction ds) (auto simp: c_string_def dest: is_dec_not_0)

lemma bn_c_str_ok:
  assumes "number_env_ok env" "bn_ok b"
  shows "\<exists>rest. fst (bn_c_str env b) = (if bn_text b = [] then [48] else bn_text b) @ 0 # rest"
    and "snd (bn_c_str env b) = 0"
proof -
  note ok = bn_okD [OF assms(2)]
  show "\<exists>rest. fst (bn_c_str env b) = (if bn_text b = [] then [48] else bn_text b) @ 0 # rest"
  proof (cases "bn_text b = []")
    case True
    then have "bn_size b = 0" using ok(5) by simp
    with assms(1) True show ?thesis by (auto simp: bn_c_str_def split: option.splits)
  next
    case False
    then obtain d where d: "bn_digits b = Some d" by (cases "bn_digits b") (auto simp: bn_text_def)
    have len: "bn_size b < length d" "d ! bn_size b = 0" using ok(1,2) d by (auto simp: bn_inv_defs)
    have "0 < bn_size b" using False ok(5) by (metis length_greater_0_conv)
    moreover have "d = take (bn_size b) d @ 0 # drop (Suc (bn_size b)) d"
      using id_take_nth_drop [OF len(1)] len(2) by simp
    ultimately show ?thesis
      using assms(1) d False by (simp add: bn_c_str_def bn_text_def) metis
  qed
  show "snd (bn_c_str env b) = 0" using assms(1) by (simp add: bn_c_str_def)
qed

lemma bn_c_str_text:
  assumes "number_env_ok env" "bn_ok b"
  shows "c_string (fst (bn_c_str env b)) = (if bn_text b = [] then [48] else bn_text b)"
proof -
  obtain rest where "fst (bn_c_str env b) = (if bn_text b = [] then [48] else bn_text b) @ 0 # rest"
    using bn_c_str_ok(1) [OF assms] by blast
  then show ?thesis using c_string_append [of "if bn_text b = [] then [48] else bn_text b" rest]
    bn_okD(4) [OF assms(2)] by simp
qed

subsection \<open>Machine integers\<close>

lemma append_digits_ok:
  assumes "number_env_ok env" "decimal cs" "fresh b (int n)"
  shows "\<exists>r. append_digits env b cs = Some r \<and> fresh r (int (n * 10 ^ length cs + dec cs))"
  using assms(2,3)
proof (induction cs arbitrary: b n)
  case (Cons c cs)
  then obtain r where "bn_append_digit env 0 b c = Some (r, 0)" "fresh r (int (n * 10 + digit_of c))"
    using bn_append_digit_ok [OF assms(1), of b n c] by auto
  moreover from this have "append_digit_unlocked env b c = Some r"
    using assms(1) by (auto simp: bn_append_digit_def split: bind_splits)
  ultimately show ?case
    using Cons.IH [of r "n * 10 + digit_of c"] Cons.prems(1) by (simp add: dec_Cons algebra_simps)
qed simp

lemma unsigned_digits_ok: "decimal (rev (unsigned_digits v))" "dec (rev (unsigned_digits v)) = v"
proof (induction v rule: unsigned_digits.induct)
  case (1 v)
  have "is_dec (word_of_nat (48 + v mod 10))" "digit_of (word_of_nat (48 + v mod 10)) = v mod 10"
    using is_dec_digit_char [of "v mod 10"] digit_of_digit_char [of "v mod 10"]
    by (simp_all add: digit_char_def)
  with 1 show "decimal (rev (unsigned_digits v))" "dec (rev (unsigned_digits v)) = v"
    by (subst unsigned_digits.simps; simp add: dec_snoc)+
qed

lemma bn_append_unsigned_ok:
  assumes "number_env_ok env"
  obtains r where "bn_append_unsigned env 0 bn_zero v = Some (r, 0)" "fresh r (int (unat v))"
proof -
  define cs where "cs = rev (if v = 0 then [48] else unsigned_digits (unat v))"
  have cs: "decimal cs" "dec cs = unat v"
    using unsigned_digits_ok [of "unat v"] by (auto simp: cs_def dec_Cons)
  obtain r where "append_digits env bn_zero cs = Some r" "fresh r (int (unat v))"
    using append_digits_ok [OF assms cs(1), of bn_zero 0] cs(2) by auto
  with assms show ?thesis
    by (intro that [of r]) (simp_all add: bn_append_unsigned_def append_unsigned_unlocked_def cs_def)
qed

subsection \<open>Positional parsing\<close>

text \<open>The number that a digit string means in a base, and the digits that are valid in it.\<close>

definition base_number_of :: "nat \<Rightarrow> bytes \<Rightarrow> nat" where
  "base_number_of base cs = foldl (\<lambda>n c. n * base + nat (ft_big_number_digit_value c)) 0 cs"

definition base_digit :: "nat \<Rightarrow> u8 \<Rightarrow> bool" where
  "base_digit base c \<longleftrightarrow>
     0 \<le> ft_big_number_digit_value c \<and> ft_big_number_digit_value c < int base"

lemma digit_value_0 [simp]: "ft_big_number_digit_value 0 = -1"
  by (simp add: ft_big_number_digit_value_def g_big_number_digit_to_value_table_def)

lemma base_digit_not_0: "base_digit base c \<Longrightarrow> c \<noteq> 0"
  by (auto simp: base_digit_def)

lemma digit_value_bounds: "ft_big_number_digit_value c < 16"
  by (simp add: ft_big_number_digit_value_def g_big_number_digit_to_value_table_def)

text \<open>One round of the loop: the result is multiplied by the base and the digit is added.\<close>

lemma assign_base_round:
  assumes "number_env_ok env" "fresh result (int n)" "fresh base_number (int base)" "base_digit base c"
  obtains r where "fresh r (int (n * base + nat (ft_big_number_digit_value c)))"
    "\<And>cs. assign_base_loop env (int base) base_number (c # cs) result
      = assign_base_loop env (int base) base_number cs r"
proof -
  define v where "v = ft_big_number_digit_value c"
  have v: "0 \<le> v" "v < int base" "v < 16"
    using assms(4) digit_value_bounds [of c] by (auto simp: base_digit_def v_def)
  obtain p1 product where m: "bn_multiply env result base_number = Some (p1, 0)"
    "bn_store env bn_zero p1 = Some (product, 0)" "fresh product (int (n * base))"
    using multiply.stored [OF assms(1) freshD(1) [OF assms(2)] freshD(1) [OF assms(3)] _ fresh_zero]
      freshD(4) [OF assms(2)] freshD(4) [OF assms(3)] by auto
  obtain r1 where r1: "bn_copy_assign env False result product = Some (r1, 0)"
    "fresh r1 (int (n * base))"
    by (rule bn_copy_fresh [OF assms(1) m(3) assms(2)])
  obtain addend where a: "bn_append_unsigned env 0 bn_zero (word_of_int v) = Some (addend, 0)"
    "fresh addend (int (unat (word_of_int v :: u64)))"
    by (rule bn_append_unsigned_ok [OF assms(1)])
  have uv: "unat (word_of_int v :: u64) = nat v"
    using v by (simp add: unat_eq_nat_uint uint_word_of_int)
  obtain p2 sum where s: "bn_add env r1 addend = Some (p2, 0)"
    "bn_store env bn_zero p2 = Some (sum, 0)" "fresh sum (int (n * base + nat v))"
    using add.stored [OF assms(1) freshD(1) [OF r1(2)] freshD(1) [OF a(2)] _ fresh_zero]
      freshD(4) [OF r1(2)] freshD(4) [OF a(2)] uv v(1) by auto
  obtain r2 where r2: "bn_copy_assign env False r1 sum = Some (r2, 0)"
    "fresh r2 (int (n * base + nat v))"
    by (rule bn_copy_fresh [OF assms(1) s(3) r1(2)])
  have "assign_base_loop env (int base) base_number (c # cs) result
      = assign_base_loop env (int base) base_number cs r2" for cs
    using v(1,2) m(1,2) r1(1) a(1) s(1,2) r2(1) base_digit_not_0 [OF assms(4)]
    by (simp add: Let_def flip: v_def)
  with r2(2) show ?thesis by (intro that) (simp_all add: v_def)
qed

lemma assign_base_loop_ok:
  assumes "number_env_ok env" "fresh base_number (int base)" "list_all (base_digit base) cs"
    "fresh result (int n)"
  shows "\<exists>r. assign_base_loop env (int base) base_number (cs @ 0 # rest) result = Some (0, r)
    \<and> fresh r (int (foldl (\<lambda>n c. n * base + nat (ft_big_number_digit_value c)) n cs))"
  using assms(3,4)
proof (induction cs arbitrary: n result)
  case (Cons c cs)
  then obtain r where "fresh r (int (n * base + nat (ft_big_number_digit_value c)))"
    "\<And>cs. assign_base_loop env (int base) base_number (c # cs) result
      = assign_base_loop env (int base) base_number cs r"
    using assign_base_round [OF assms(1) _ assms(2), of result n c] by auto
  with Cons show ?case by simp
qed simp

lemma assign_base_loop_bad:
  assumes "number_env_ok env" "fresh base_number (int base)" "list_all (base_digit base) cs"
    "\<not> base_digit base c" "c \<noteq> 0" "fresh result (int n)"
  shows "\<exists>r. assign_base_loop env (int base) base_number (cs @ c # rest) result
    = Some (FT_ERR_INVALID_ARGUMENT, r)"
  using assms(3,6)
proof (induction cs arbitrary: n result)
  case Nil
  with assms(4,5) show ?case by (auto simp: base_digit_def Let_def)
next
  case (Cons c' cs)
  then obtain r where "fresh r (int (n * base + nat (ft_big_number_digit_value c')))"
    "\<And>cs. assign_base_loop env (int base) base_number (c' # cs) result
      = assign_base_loop env (int base) base_number cs r"
    using assign_base_round [OF assms(1) _ assms(2), of result n c'] by auto
  with Cons.IH Cons.prems show ?case by (metis append_Cons list.pred_inject(2))
qed

lemma assign_base_store_ok:
  assumes "number_env_ok env" "bn_ok b" "fresh result (int n)"
  obtains r where "assign_base_store env b s result = Some r" "bn_ok r"
    "bn_value r = signed_int s n" "bn_is_negative r \<longleftrightarrow> s \<and> n \<noteq> 0"
    "bn_state r = bn_state b" "bn_mutex r = bn_mutex b"
proof -
  note ok = bn_okD [OF assms(2)] and rf = freshD [OF assms(3)]
  note rok = bn_okD [OF rf(1)]
  have mag: "bn_magnitude result = n" using fresh_magnitude [OF assms(3)] by simp
  define k where "k = bn_size result"
  define b1 where "b1 = bn_reserve env b (k + 1)"
  obtain d where d: "bn_digits b1 = Some d" "bn_capacity b1 = length d" "k + 1 \<le> length d"
    unfolding b1_def by (rule bn_reserve_ok [OF assms(1) ok(1), of "k + 1"]) auto
  have res: "(if k + 1 > bn_capacity b \<or> bn_digits b = None then bn_reserve env b (k + 1) else b) = b1"
    by (auto simp: b1_def bn_reserve_def)
  define copied where "copied = (if k > 0 \<and> bn_digits result \<noteq> None
    then case (bn_digits b1, bn_digits result) of
           (Some d, Some s) \<Rightarrow>
             if k + 1 \<le> length d \<and> k + 1 \<le> length s
             then Some (b1\<lparr>bn_digits := Some (write_block d 0 (take (k + 1) s))\<rparr>)
             else None
         | _ \<Rightarrow> None
    else if bn_digits b1 = None then Some b1 else bn_put b1 0 0)"
  have "\<exists>d2. copied = Some (b1\<lparr>bn_digits := Some d2\<rparr>) \<and> length d2 = length d
    \<and> take k d2 = bn_text result \<and> d2 ! k = 0"
  proof (cases "k > 0")
    case True
    then obtain ds where ds: "bn_digits result = Some ds" "k < length ds" "ds ! k = 0"
      using rok(1,2) by (auto simp: k_def bn_inv_defs split: option.splits)
    then show ?thesis
      using True d by (auto simp: copied_def k_def bn_text_def write_block_def nth_append min_absorb1)
  next
    case False
    then have "bn_text result = []" using rok(5) by (simp add: k_def)
    with False d show ?thesis
      by (cases d) (auto simp: copied_def bn_put_def intro: exI [of _ "d[0 := 0]"])
  qed
  then obtain d2 where d2: "copied = Some (b1\<lparr>bn_digits := Some d2\<rparr>)" "length d2 = length d"
    "take k d2 = bn_text result" "d2 ! k = 0" by blast
  define b3 where "b3 = b1\<lparr>bn_digits := Some d2, bn_size := k,
    bn_is_negative := (s \<and> \<not> is_zero_value result)\<rparr>"
  have b3: "bn_block b3" "bn_terminated b3" "bn_text b3 = bn_text result"
    using bn_holds [of b3 d2 "bn_text result"] d d2 by (simp_all add: b3_def)
  have neg: "bn_is_negative b3 \<longleftrightarrow> s \<and> n \<noteq> 0" using mag rf(1) by (simp add: b3_def is_zero_iff)
  have z: "(if is_zero_value b3 then b3\<lparr>bn_is_negative := False\<rparr> else b3) = b3"
    using b3 rok(3) mag neg is_zero_iff [of b3]
    by (auto simp: bn_ok_def bn_magnitude_def intro!: big_number.equality)
  have put: "bn_put b3 k 0 = Some b3"
    using d(3) d2 by (auto simp: bn_put_def b3_def list_update_id [of d2 k, unfolded d2(4)]
      intro!: big_number.equality)
  have size3: "bn_size b3 = k" "bn_digits b3 = Some d2" by (simp_all add: b3_def)
  define r where "r = bn_shrink_capacity env b3"
  have r: "bn_block r" "bn_terminated r" "bn_text r = bn_text result"
    using bn_shrink_ok [OF assms(1) b3(1,2)] b3(3) by (simp_all add: r_def)
  have "assign_base_store env b s result = Some r"
    unfolding assign_base_store_def Let_def k_def [symmetric] res copied_def [symmetric] d2(1)
      Option.bind.simps b3_def [symmetric] z
    using put size3 by (simp add: r_def)
  moreover have "bn_value r = signed_int s n"
    using neg mag r(3) by (auto simp: r_def bn_value_def bn_magnitude_def signed_int_def)
  ultimately show ?thesis
    using r rok(3) neg by (intro that [of r]) (simp_all add: bn_ok_def r_def, simp_all add: b3_def b1_def)
qed

lemma base_value_ok:
  assumes "number_env_ok env" "base \<le> 16"
  obtains r where "bn_append_unsigned env 0 bn_zero (word_of_int (int base)) = Some (r, 0)"
    "fresh r (int base)"
proof -
  have "unat (word_of_int (int base) :: u64) = base"
    using assms(2) by (simp add: unat_of_nat)
  moreover obtain r where "bn_append_unsigned env 0 bn_zero (word_of_int (int base)) = Some (r, 0)"
    "fresh r (int (unat (word_of_int (int base) :: u64)))"
    by (rule bn_append_unsigned_ok [OF assms(1)])
  ultimately show ?thesis using that by simp
qed

lemma not_base_digit_minus: "\<not> base_digit base 45"
  by (simp add: base_digit_def ft_big_number_digit_value_def g_big_number_digit_to_value_table_def)

text \<open>\<open>assign_base\<close> up to its loop, on a text whose digits do not start with the terminator.\<close>

lemma assign_base_parsed:
  assumes "number_env_ok env" "2 \<le> base" "base \<le> 16" "c \<noteq> 0" "s \<or> c \<noteq> 45"
    "bn_append_unsigned env 0 bn_zero (word_of_int (int base)) = Some (base_number, 0)"
    "assign_base_loop env (int base) base_number (c # cs) bn_zero = Some (e, result)"
  shows "bn_assign_base env b (Some (signed_text s (c # cs))) (int base) =
    (if e \<noteq> 0 then Some (b, e, 0)
     else map_option (\<lambda>b1. (b1, 0, 0)) (assign_base_store env b s result))"
proof -
  have sign: "signed_text s (c # cs) = (if s then 45 else c) # (if s then c # cs else cs)"
    "((if s then 45 else c) = 45) = s"
    "(if s then if s then c # cs else cs else (if s then 45 else c) # (if s then c # cs else cs)) = c # cs"
    using assms(5) by (auto simp: signed_text_def)
  show ?thesis
    unfolding bn_assign_base_def Let_def option.sel sign list.case
    using assms by (cases "assign_base_store env b s result") (simp_all del: assign_base_loop.simps)
qed

lemma bn_assign_base_ok:
  assumes "number_env_ok env" "bn_ok b" "2 \<le> base" "base \<le> 16"
    "list_all (base_digit base) cs" "cs \<noteq> []"
  obtains r where
    "bn_assign_base env b (Some (signed_text s cs @ 0 # rest)) (int base) = Some (r, 0, 0)" "bn_ok r"
    "bn_value r = signed_int s (base_number_of base cs)"
    "bn_is_negative r \<longleftrightarrow> s \<and> base_number_of base cs \<noteq> 0"
    "bn_state r = bn_state b" "bn_mutex r = bn_mutex b"
proof -
  obtain bv where bv: "bn_append_unsigned env 0 bn_zero (word_of_int (int base)) = Some (bv, 0)"
    "fresh bv (int base)"
    by (rule base_value_ok [OF assms(1,4)])
  obtain c ds where c: "cs = c # ds" "base_digit base c" using assms(5,6) by (cases cs) auto
  obtain v where v: "assign_base_loop env (int base) bv (c # ds @ 0 # rest) bn_zero = Some (0, v)"
    "fresh v (int (base_number_of base cs))"
    using assign_base_loop_ok [OF assms(1) bv(2) assms(5), of bn_zero 0 rest]
    by (auto simp: base_number_of_def c(1) simp del: assign_base_loop.simps)
  obtain r where r: "assign_base_store env b s v = Some r" "bn_ok r"
    "bn_value r = signed_int s (base_number_of base cs)"
    "bn_is_negative r \<longleftrightarrow> s \<and> base_number_of base cs \<noteq> 0"
    "bn_state r = bn_state b" "bn_mutex r = bn_mutex b"
    using assign_base_store_ok [OF assms(1,2) v(2), of s] by blast
  have txt_eq: "signed_text s cs @ 0 # rest = signed_text s (c # ds @ 0 # rest)"
    by (simp add: signed_text_def c(1))
  have "bn_assign_base env b (Some (signed_text s cs @ 0 # rest)) (int base) = Some (r, 0, 0)"
    unfolding txt_eq
    using assign_base_parsed [OF assms(1,3,4) base_digit_not_0 [OF c(2)] _ bv(1) v(1), of s b]
      c(2) not_base_digit_minus r(1) by auto
  then show ?thesis using r(2-6) by (rule that)
qed

lemma bn_assign_base_rejects:
  assumes "number_env_ok env" "2 \<le> base" "base \<le> 16" "list_all (base_digit base) cs"
    "\<not> base_digit base c" "c \<noteq> 0" "s \<or> cs \<noteq> [] \<or> c \<noteq> 45"
  shows "bn_assign_base env b (Some (signed_text s (cs @ c # rest))) (int base)
    = Some (b, FT_ERR_INVALID_ARGUMENT, 0)"
proof -
  obtain bv where bv: "bn_append_unsigned env 0 bn_zero (word_of_int (int base)) = Some (bv, 0)"
    "fresh bv (int base)"
    by (rule base_value_ok [OF assms(1,3)])
  obtain v where v: "assign_base_loop env (int base) bv (cs @ c # rest) bn_zero
      = Some (FT_ERR_INVALID_ARGUMENT, v)"
    using assign_base_loop_bad [OF assms(1) bv(2) assms(4-6), of bn_zero 0 rest] by auto
  obtain x xs where x: "cs @ c # rest = x # xs" "x \<noteq> 0" "s \<or> x \<noteq> 45"
    using assms(4-7) base_digit_not_0 not_base_digit_minus by (cases cs) auto
  show ?thesis
    using assign_base_parsed [OF assms(1-3) x(2,3) bv(1), of xs] v unfolding x(1) by simp
qed

subsection \<open>Printing in a base\<close>

function base_digits :: "nat \<Rightarrow> nat \<Rightarrow> bytes" where
  "base_digits base n =
     (if 2 \<le> base \<and> 0 < n
      then ft_big_number_digit_symbol (int (n mod base)) # base_digits base (n div base) else [])"
  by pat_completeness auto
termination
  by (relation "measure snd") auto

declare base_digits.simps [simp del]

lemma all_less_16: "(\<forall>n<16. P n) \<longleftrightarrow> (\<forall>n\<in>set [0..<16]. P (n::nat))"
  by auto

lemma digit_symbol_value:
  assumes "n < 16"
  shows "ft_big_number_digit_symbol (int n) \<noteq> 0"
    "ft_big_number_digit_value (ft_big_number_digit_symbol (int n)) = int n"
proof -
  have "\<forall>n<16. ft_big_number_digit_symbol (int n) \<noteq> 0
      \<and> ft_big_number_digit_value (ft_big_number_digit_symbol (int n)) = int n"
    unfolding all_less_16
    by (simp add: upt_conv_Cons ft_big_number_digit_symbol_def ft_big_number_digit_value_def
      g_big_number_digit_to_value_table_def g_big_number_value_to_digit_table_def)
  with assms show "ft_big_number_digit_symbol (int n) \<noteq> 0"
    "ft_big_number_digit_value (ft_big_number_digit_symbol (int n)) = int n" by auto
qed

lemma base_digits_ok:
  assumes "2 \<le> base" "base \<le> 16"
  shows "list_all (base_digit base) (rev (base_digits base n))"
    "base_number_of base (rev (base_digits base n)) = n" "0 < n \<Longrightarrow> base_digits base n \<noteq> []"
proof -
  have "list_all (base_digit base) (rev (base_digits base n))
      \<and> base_number_of base (rev (base_digits base n)) = n"
  proof (induction n rule: less_induct)
    case (less n)
    show ?case
    proof (cases "n = 0")
      case False
      have m: "n mod base < base" "n mod base < 16" using assms mod_less_divisor [of base n] by linarith+
      have "n div base < n" using assms False by simp
      with less have IH: "list_all (base_digit base) (rev (base_digits base (n div base)))"
        "base_number_of base (rev (base_digits base (n div base))) = n div base" by simp_all
      have "base_digits base n
          = ft_big_number_digit_symbol (int (n mod base)) # base_digits base (n div base)"
        using assms False by (subst base_digits.simps) simp
      moreover have "base_digit base (ft_big_number_digit_symbol (int (n mod base)))"
        using m digit_symbol_value(2) [OF m(2)] by (simp add: base_digit_def)
      ultimately show ?thesis
        using IH digit_symbol_value(2) [OF m(2)] by (simp add: base_number_of_def)
    qed (simp add: base_digits.simps base_number_of_def)
  qed
  then show "list_all (base_digit base) (rev (base_digits base n))"
    "base_number_of base (rev (base_digits base n)) = n" by simp_all
  show "0 < n \<Longrightarrow> base_digits base n \<noteq> []" using assms by (simp add: base_digits.simps)
qed

lemma sint_dec: "is_dec c \<Longrightarrow> sint c - 48 = int (digit_of c)"
proof -
  assume c: "is_dec c"
  then have "uint c < 58" "48 \<le> uint c" by (simp_all add: is_dec_def word_less_def word_le_def)
  moreover from this have "sint c = uint c" by (simp add: sint_uint signed_take_bit_int_eq_self_iff)
  moreover have "uint c = int (unat c)" by simp
  ultimately show ?thesis unfolding digit_of_def by linarith
qed

lemma remainder_value_loop_ok:
  assumes "decimal ds"
  shows "remainder_value_loop (ds @ 0 # rest) v = Some (v * 10 ^ length ds + int (dec ds))"
  using assms
proof (induction ds arbitrary: v)
  case (Cons c ds)
  then have "c \<noteq> 0" by (auto dest: is_dec_not_0)
  with Cons sint_dec [of c] show ?case by (simp add: dec_Cons algebra_simps)
qed simp

lemma remainder_value_ok:
  assumes "number_env_ok env" "fresh b (int n)"
  shows "remainder_value_loop (fst (bn_c_str env b)) 0 = Some (int n)"
proof -
  note ok = bn_okD [OF freshD(1) [OF assms(2)]]
  obtain rest where "fst (bn_c_str env b) = (if bn_text b = [] then [48] else bn_text b) @ 0 # rest"
    using bn_c_str_ok(1) [OF assms(1) freshD(1) [OF assms(2)]] by blast
  moreover have "dec (bn_text b) = n" using fresh_magnitude [OF assms(2)] by (simp add: bn_magnitude_def)
  ultimately show ?thesis
    using remainder_value_loop_ok [of "if bn_text b = [] then [48] else bn_text b" rest 0] ok(4)
    by (auto simp: dec_Cons)
qed

text \<open>One round prints the least significant digit and divides.\<close>

lemma string_append_ok: "number_env_ok env \<Longrightarrow> string_append env s c = s @ [c]"
  by (simp add: string_append_def number_env_ok_def)

lemma append_all_ok: "number_env_ok env \<Longrightarrow> foldl (string_append env) s cs = s @ cs"
  by (induction cs arbitrary: s) (simp_all add: string_append_ok)

lemma to_string_round:
  assumes "number_env_ok env" "2 \<le> base" "base \<le> 16" "fresh base_value (int base)"
    "fresh magnitude (int n)" "0 < n"
  obtains m where "fresh m (int (n div base))"
    "\<And>ds. to_string_loop env base_value magnitude ds
      = to_string_loop env base_value m (ds @ [ft_big_number_digit_symbol (int (n mod base))])"
proof -
  note bv = freshD [OF assms(4)] and mf = freshD [OF assms(5)]
  have nz: "\<not> is_zero_value magnitude"
    using is_zero_iff [OF mf(1)] fresh_magnitude [OF assms(5)] assms(6) by simp
  have q: "int n sdiv int base = int (n div base)"
    by (cases "n = 0"; cases "base = 0") (simp_all add: signed_divide_int_def zdiv_int)
  obtain p1 quo where d: "bn_divide env magnitude base_value = Some (p1, 0)"
    "bn_store env bn_zero p1 = Some (quo, 0)" "fresh quo (int (n div base))"
    using divide.stored [OF assms(1) mf(1) bv(1) _ fresh_zero] mf(4) bv(4) q assms(2) by auto
  obtain p2 product where m: "bn_multiply env quo base_value = Some (p2, 0)"
    "bn_store env bn_zero p2 = Some (product, 0)" "fresh product (int (n div base * base))"
    using multiply.stored [OF assms(1) freshD(1) [OF d(3)] bv(1) _ fresh_zero] freshD(4) [OF d(3)] bv(4)
    by auto
  have rem: "int n - int (n div base * base) = int (n mod base)"
    by (metis add_diff_cancel_left' div_mult_mod_eq of_nat_add)
  obtain p3 r where s: "bn_subtract env magnitude product = Some (p3, 0)"
    "bn_store env bn_zero p3 = Some (r, 0)" "fresh r (int (n mod base))"
    using subtract.stored [OF assms(1) mf(1) freshD(1) [OF m(3)] _ fresh_zero]
      mf(4) freshD(4) [OF m(3)] rem by auto
  obtain m1 where c: "bn_copy_assign env False magnitude quo = Some (m1, 0)" "fresh m1 (int (n div base))"
    by (rule bn_copy_fresh [OF assms(1) d(3) assms(5)])
  have sym: "ft_big_number_digit_symbol (int (n mod base)) \<noteq> 0"
    using assms(2,3) mod_less_divisor [of base n] by (intro digit_symbol_value(1)) linarith
  have "to_string_loop env base_value magnitude ds
      = to_string_loop env base_value (m1\<lparr>bn_is_negative := False\<rparr>)
          (ds @ [ft_big_number_digit_symbol (int (n mod base))])" for ds
    using nz d(1,2) m(1,2) s(1,2) c(1) sym remainder_value_ok [OF assms(1) s(3)]
    by (subst to_string_loop.simps) (simp add: Let_def string_append_ok [OF assms(1)])
  with fresh_unsigned [OF c(2)] show ?thesis by (rule that)
qed

lemma to_string_loop_ok:
  assumes "number_env_ok env" "2 \<le> base" "base \<le> 16" "fresh base_value (int base)"
    "fresh magnitude (int n)"
  shows "to_string_loop env base_value magnitude ds = Some (0, ds @ base_digits base n)"
  using assms(5)
proof (induction n arbitrary: magnitude ds rule: less_induct)
  case (less n)
  show ?case
  proof (cases "n = 0")
    case True
    with less.prems show ?thesis
      using is_zero_iff [OF freshD(1) [OF less.prems]] fresh_magnitude [OF less.prems]
      by (subst to_string_loop.simps) (simp add: base_digits.simps)
  next
    case False
    then obtain m where m: "fresh m (int (n div base))"
      "\<And>ds. to_string_loop env base_value magnitude ds
        = to_string_loop env base_value m (ds @ [ft_big_number_digit_symbol (int (n mod base))])"
      using to_string_round [OF assms(1-4) less.prems] by auto
    have "n div base < n" using False assms(2) by simp
    from less.IH [OF this m(1)] False assms(2) show ?thesis
      by (subst base_digits.simps) (simp add: m(2))
  qed
qed

text \<open>The text of a value in a base, as \<open>to_string_base\<close> prints it.\<close>

definition base_text :: "nat \<Rightarrow> int \<Rightarrow> bytes" where
  "base_text base v =
     (if v = 0 then [48] else signed_text (v < 0) (rev (base_digits base (nat \<bar>v\<bar>))))"

lemma bn_to_string_base_ok:
  assumes "number_env_ok env" "bn_ok b" "bn_state b = Initialised" "2 \<le> base" "base \<le> 16"
  shows "bn_to_string_base env 0 b (int base) = Some (String_text (base_text base (bn_value b)), 0)"
proof (cases "bn_value b = 0")
  case True
  then show ?thesis
    using assms(1,4,5) is_zero_iff [OF assms(2)] bn_value_zero_iff [of b]
    by (simp add: bn_to_string_base_def base_text_def string_append_ok)
next
  case False
  have mag: "bn_magnitude b = nat \<bar>bn_value b\<bar>" and neg: "bn_is_negative b \<longleftrightarrow> bn_value b < 0"
    using False by (auto simp: bn_value_def signed_int_def)
  obtain m where m: "bn_initialize_copy env False bn_constructor b = Some (m, 0)" "fresh m (bn_value b)"
    using bn_initialize_copy_ok [OF assms(1-3)] neg by (auto simp: fresh_def)
  have um: "fresh (m\<lparr>bn_is_negative := False\<rparr>) (int (bn_magnitude b))"
    using freshD(1-3) [OF m(2)] fresh_magnitude [OF m(2), folded mag] by (simp add: fresh_def bn_value_def)
  obtain bv where bv: "bn_append_unsigned env 0 bn_zero (word_of_int (int base)) = Some (bv, 0)"
    "fresh bv (int base)"
    by (rule base_value_ok [OF assms(1,5)])
  have "\<not> is_zero_value b" using False is_zero_iff [OF assms(2)] bn_value_zero_iff [of b] by simp
  then show ?thesis
    using assms(1,4,5) m(1) bv(1) to_string_loop_ok [OF assms(1,4,5) bv(2) um, of "[]"] False mag neg
      freshD(3) [OF m(2)]
    by (simp add: bn_to_string_base_def base_text_def signed_text_def string_append_ok append_all_ok)
qed

text \<open>Parsing what was printed gives the value back, in any base from 2 to 16.\<close>

lemma base_text_parsed:
  assumes "2 \<le> base" "base \<le> 16"
  obtains cs where "base_text base v = signed_text (v < 0) cs" "cs \<noteq> []"
    "list_all (base_digit base) cs" "signed_int (v < 0) (base_number_of base cs) = v"
proof (cases "v = 0")
  case True
  have "ft_big_number_digit_value 48 = 0"
    by (simp add: ft_big_number_digit_value_def g_big_number_digit_to_value_table_def)
  with True assms show ?thesis
    by (intro that [of "[48]"]) (simp_all add: base_text_def signed_text_def base_digit_def base_number_of_def)
next
  case False
  with base_digits_ok [OF assms, of "nat \<bar>v\<bar>"] show ?thesis
    by (intro that [of "rev (base_digits base (nat \<bar>v\<bar>))"]) (auto simp: base_text_def signed_int_def)
qed

lemma assign_base_text:
  assumes "number_env_ok env" "bn_ok b" "2 \<le> base" "base \<le> 16"
  obtains r where "bn_assign_base env b (Some (base_text base v @ 0 # rest)) (int base) = Some (r, 0, 0)"
    "bn_ok r" "bn_value r = v" "bn_state r = bn_state b" "bn_mutex r = bn_mutex b"
proof -
  obtain cs where cs: "base_text base v = signed_text (v < 0) cs" "cs \<noteq> []"
    "list_all (base_digit base) cs" "signed_int (v < 0) (base_number_of base cs) = v"
    by (rule base_text_parsed [OF assms(3,4)])
  show ?thesis
    by (rule bn_assign_base_ok [OF assms cs(3,2), where s = "v < 0" and rest = rest])
      (use cs(1,4) in \<open>auto intro: that\<close>)
qed

end
