(* ===== verification/Big_Number_Power.thy ===== *)
theory Big_Number_Power
  imports Big_Number_Convert
begin

text \<open>
  Modular exponentiation of \<open>ft_big_number\<close>. The loop that makes the base non-negative and the
  loop over the exponent are partial functions; that both end, and with which number, is what
  the lemmas show.
\<close>

lemma bn_negative_ok:
  assumes "number_env_ok env" "bn_ok b"
  shows "bn_negative env b = (bn_value b < 0, 0)"
  using assms by (auto simp: bn_negative_def bn_observe_def is_zero_iff bn_value_def signed_int_def)

lemma smod_adjusted:
  fixes a m :: int
  assumes "0 < m"
  shows "(if a smod m < 0 then a smod m + m else a smod m) = a mod m" "- m < a smod m" "a smod m < m"
proof -
  have s: "a smod m = (if a < 0 then - ((- a) mod m) else a mod m)"
    using assms by (auto simp: smod_int_alt_def sgn_if)
  have b: "0 \<le> a mod m" "a mod m < m" "0 \<le> (- a) mod m" "(- a) mod m < m" using assms by simp_all
  then show "- m < a smod m" "a smod m < m" unfolding s using assms
    by (cases "a < 0"; simp only: if_True if_False; linarith)+
  define u where "u = a mod m"
  show "(if a smod m < 0 then a smod m + m else a smod m) = a mod m"
    unfolding s zmod_zminus1_eq_if u_def [symmetric] using b(1,2) [folded u_def] by auto
qed

lemma mod_pow_adjust_ok:
  assumes "number_env_ok env" "fresh modulus_value m" "fresh base_remainder v" "- m < v"
  shows "\<exists>r. mod_pow_adjust env modulus_value base_remainder = Some (0, r)
    \<and> fresh r (if v < 0 then v + m else v)"
proof (cases "v < 0")
  case False
  then show ?thesis
    using assms(3) bn_negative_ok [OF assms(1) freshD(1) [OF assms(3)]] freshD(4) [OF assms(3)]
    by (subst mod_pow_adjust.simps) simp
next
  case True
  obtain p adjusted where a: "bn_add env base_remainder modulus_value = Some (p, 0)"
    "bn_store env bn_zero p = Some (adjusted, 0)" "fresh adjusted (v + m)"
    using add.stored [OF assms(1) freshD(1) [OF assms(3)] freshD(1) [OF assms(2)] _ fresh_zero]
      freshD(4) [OF assms(3)] freshD(4) [OF assms(2)] by auto
  obtain r where r: "bn_copy_assign env False base_remainder adjusted = Some (r, 0)" "fresh r (v + m)"
    by (rule bn_copy_fresh [OF assms(1) a(3) assms(3)])
  have "mod_pow_adjust env modulus_value r = Some (0, r)"
    using assms(4) bn_negative_ok [OF assms(1) freshD(1) [OF r(2)]] freshD(4) [OF r(2)]
    by (subst mod_pow_adjust.simps) simp
  then show ?thesis
    using True a(1,2) r bn_negative_ok [OF assms(1) freshD(1) [OF assms(3)]] freshD(4) [OF assms(3)]
    by (subst mod_pow_adjust.simps) simp
qed

text \<open>One round: the accumulator is multiplied and reduced, the exponent goes down by one.\<close>

lemma mod_pow_round:
  assumes "number_env_ok env" "fresh base_remainder r" "fresh modulus_value m" "fresh one 1"
    "fresh exponent_value (int (Suc e))" "fresh accumulator acc" "0 < m" "0 \<le> acc" "0 \<le> r"
  obtains x a where "fresh x (int e)" "fresh a (acc * r mod m)"
    "mod_pow_loop env base_remainder modulus_value one exponent_value accumulator
      = mod_pow_loop env base_remainder modulus_value one x a"
proof -
  note rf = freshD [OF assms(2)] and mf = freshD [OF assms(3)] and ef = freshD [OF assms(5)]
    and af = freshD [OF assms(6)] and onef = freshD [OF assms(4)]
  have nz: "\<not> is_zero_value exponent_value"
    using is_zero_iff [OF ef(1)] fresh_magnitude [OF assms(5)] by simp
  obtain p1 product where m: "bn_multiply env accumulator base_remainder = Some (p1, 0)"
    "bn_store env bn_zero p1 = Some (product, 0)" "fresh product (acc * r)"
    using multiply.stored [OF assms(1) af(1) rf(1) _ fresh_zero] af(4) rf(4) by auto
  have nn: "(acc * r) smod m = acc * r mod m"
    using assms(7-9) by (simp add: smod_int_alt_def sgn_if)
  obtain p2 reduced where d: "bn_modulo env product modulus_value = Some (p2, 0)"
    "bn_store env bn_zero p2 = Some (reduced, 0)" "fresh reduced (acc * r mod m)"
    using modulo.stored [OF assms(1) freshD(1) [OF m(3)] mf(1) _ fresh_zero]
      freshD(4) [OF m(3)] mf(4) assms(7) nn by auto
  obtain a1 where a1: "bn_copy_assign env False accumulator reduced = Some (a1, 0)"
    "fresh a1 (acc * r mod m)"
    by (rule bn_copy_fresh [OF assms(1) d(3) assms(6)])
  obtain p3 nxt where s: "bn_subtract env exponent_value one = Some (p3, 0)"
    "bn_store env bn_zero p3 = Some (nxt, 0)" "fresh nxt (int e)"
    using subtract.stored [OF assms(1) ef(1) onef(1) _ fresh_zero] ef(4) onef(4) by auto
  obtain x1 where x1: "bn_copy_assign env False exponent_value nxt = Some (x1, 0)" "fresh x1 (int e)"
    by (rule bn_copy_fresh [OF assms(1) s(3) assms(5)])
  obtain x2 where x2: "bn_trim_leading_zeros env (x1\<lparr>bn_is_negative := False\<rparr>) = Some (x2, 0)"
    "fresh x2 (int e)"
    by (rule bn_trim_ok [OF assms(1) fresh_unsigned [OF x1(2)]])
  have "mod_pow_loop env base_remainder modulus_value one exponent_value accumulator
      = mod_pow_loop env base_remainder modulus_value one x2 a1"
    using nz m(1,2) d(1,2) a1(1) s(1,2) x1(1) x2(1) by (subst mod_pow_loop.simps) simp
  with x2(2) a1(2) show ?thesis by (rule that)
qed

lemma mod_pow_loop_ok:
  assumes "number_env_ok env" "fresh base_remainder r" "fresh modulus_value m" "fresh one 1"
    "0 < m" "0 \<le> r" "fresh exponent_value (int e)" "fresh accumulator acc" "0 \<le> acc"
  shows "\<exists>a. mod_pow_loop env base_remainder modulus_value one exponent_value accumulator = Some (0, a)
    \<and> fresh a (if e = 0 then acc else acc * r ^ e mod m)"
  using assms(7-9)
proof (induction e arbitrary: exponent_value accumulator acc)
  case 0
  then have "is_zero_value exponent_value"
    using is_zero_iff [OF freshD(1) [OF 0(1)]] fresh_magnitude [OF 0(1)] by simp
  with 0(2) show ?case by (subst mod_pow_loop.simps) simp
next
  case (Suc e)
  obtain x a where xa: "fresh x (int e)" "fresh a (acc * r mod m)"
    "mod_pow_loop env base_remainder modulus_value one exponent_value accumulator
      = mod_pow_loop env base_remainder modulus_value one x a"
    by (rule mod_pow_round [OF assms(1-4) Suc.prems(1,2) assms(5) Suc.prems(3) assms(6)])
  have "(if e = 0 then acc * r mod m else acc * r mod m * r ^ e mod m) = acc * r ^ Suc e mod m"
    by (simp add: mod_mult_left_eq mult.assoc)
  moreover have "0 \<le> acc * r mod m" using assms(5) by simp
  ultimately show ?case using Suc.IH [OF xa(1,2)] xa(3) by auto
qed

lemma fresh_copy:
  assumes "number_env_ok env" "bn_ok b" "bn_state b = Initialised" "0 \<le> bn_value b"
  obtains r where "bn_initialize_copy env False bn_constructor b = Some (r, 0)"
    "bn_ok r" "bn_value r = bn_value b" "fresh (r\<lparr>bn_is_negative := False\<rparr>) (bn_value b)"
proof -
  obtain r where r: "bn_initialize_copy env False bn_constructor b = Some (r, 0)" "bn_ok r"
    "bn_value r = bn_value b" "bn_state r = Initialised" "\<not> bn_mutex r"
    by (rule bn_initialize_copy_ok [OF assms(1-3)])
  moreover have "int (bn_magnitude r) = bn_value b"
    using r(3) assms(4) by (auto simp: bn_value_def signed_int_def split: if_splits)
  ultimately show ?thesis by (intro that [of r]) (simp_all add: fresh_def bn_value_def)
qed

lemma mod_pow_result_ok:
  assumes "number_env_ok env" "fresh a (int n)"
  obtains r where "mod_pow_result env a = Some (Some r)" "fresh r (int n)"
proof -
  obtain a1 where a1: "bn_trim_leading_zeros env (a\<lparr>bn_is_negative := False\<rparr>) = Some (a1, 0)"
    "fresh a1 (int n)"
    by (rule bn_trim_ok [OF assms(1) fresh_unsigned [OF assms(2)]])
  obtain r where r: "bn_initialize_copy env False bn_constructor a1 = Some (r, 0)" "fresh r (int n)"
    by (rule bn_initialize_copy_fresh [OF assms(1) a1(2)])
  show ?thesis
    using a1(1) r assms(1) by (intro that [of r])
      (simp_all add: mod_pow_result_def bn_new_def number_env_ok_def)
qed

text \<open>
  \<open>mod_pow\<close> behind its guards: the base is reduced and made non-negative, then raised.
\<close>

lemma mod_pow_identity:
  assumes "number_env_ok env" "fresh modulus m" "fresh one 1" "0 < m"
  obtains p r1 r2 where "bn_modulo env one modulus = Some (p, 0)" "bn_store env bn_zero p = Some (r1, 0)"
    "bn_trim_leading_zeros env (r1\<lparr>bn_is_negative := False\<rparr>) = Some (r2, 0)" "fresh r2 (1 mod m)"
proof -
  have one: "1 smod m = 1 mod m" using assms(4) by (simp add: smod_int_alt_def sgn_if)
  obtain p r1 where r1: "bn_modulo env one modulus = Some (p, 0)" "bn_store env bn_zero p = Some (r1, 0)"
    "fresh r1 (1 mod m)"
    using modulo.stored [OF assms(1) freshD(1) [OF assms(3)] freshD(1) [OF assms(2)] _ fresh_zero]
      freshD(4) [OF assms(3)] freshD(4) [OF assms(2)] assms(4) one by auto
  have "1 mod m = int (nat (1 mod m))" using assms(4) by simp
  then obtain r2 where "bn_trim_leading_zeros env (r1\<lparr>bn_is_negative := False\<rparr>) = Some (r2, 0)"
    "fresh r2 (1 mod m)"
    using bn_trim_ok [OF assms(1) fresh_unsigned [of r1 "nat (1 mod m)"]] r1(3) by metis
  with r1(1,2) show ?thesis by (rule that)
qed

lemma bn_mod_pow_ok:
  assumes "number_env_ok env" "bn_ok b" "bn_state b = Initialised"
    "bn_ok x" "bn_state x = Initialised" "bn_ok y" "bn_state y = Initialised"
    "0 \<le> bn_value x" "0 < bn_value y"
  obtains r where "bn_mod_pow env b x y = Some (Some r, 0)"
    "fresh r (bn_value b ^ nat (bn_value x) mod bn_value y)"
proof -
  define m where "m = bn_value y"
  define e where "e = nat (bn_value x)"
  have m0: "0 < m" using assms(9) by (simp add: m_def)
  have e: "bn_value x = int e" using assms(8) by (simp add: e_def)
  obtain b1 where b1: "bn_initialize_copy env False bn_constructor b = Some (b1, 0)" "bn_ok b1"
    "bn_value b1 = bn_value b" "\<not> bn_mutex b1" "bn_state b1 = Initialised"
    by (rule bn_initialize_copy_ok [OF assms(1-3)])
  obtain x1 where x1: "bn_initialize_copy env False bn_constructor x = Some (x1, 0)" "bn_ok x1"
    "bn_value x1 = int e" "fresh (x1\<lparr>bn_is_negative := False\<rparr>) (int e)"
    using fresh_copy [OF assms(1,4,5,8)] e by metis
  obtain y1 where y1: "bn_initialize_copy env False bn_constructor y = Some (y1, 0)" "bn_ok y1"
    "bn_value y1 = m" "fresh (y1\<lparr>bn_is_negative := False\<rparr>) m"
    using fresh_copy [OF assms(1,6,7)] assms(9) m_def by (metis less_imp_le)
  have guards: "\<not> is_zero_value y1" "\<not> fst (bn_negative env y1)" "\<not> fst (bn_negative env x1)"
    using m0 y1(2,3) x1(2,3) is_zero_iff [OF y1(2)] bn_value_zero_iff [of y1]
      bn_negative_ok [OF assms(1)] by auto
  obtain y2 where y2: "bn_trim_leading_zeros env (y1\<lparr>bn_is_negative := False\<rparr>) = Some (y2, 0)"
    "fresh y2 m"
    by (rule bn_trim_ok [OF assms(1) y1(4)])
  obtain p r1 where r1: "bn_modulo env b1 y2 = Some (p, 0)" "bn_store env bn_zero p = Some (r1, 0)"
    "fresh r1 (bn_value b smod m)"
    using modulo.stored [OF assms(1) b1(2) freshD(1) [OF y2(2)] _ fresh_zero]
      b1(3) freshD(4) [OF y2(2)] m0 by auto
  obtain r2 where r2: "mod_pow_adjust env y2 r1 = Some (0, r2)" "fresh r2 (bn_value b mod m)"
    using mod_pow_adjust_ok [OF assms(1) y2(2) r1(3) smod_adjusted(2) [OF m0]]
      smod_adjusted(1) [OF m0] by auto
  obtain r3 where r3: "bn_trim_leading_zeros env r2 = Some (r3, 0)" "fresh r3 (bn_value b mod m)"
    by (rule bn_trim_ok [OF assms(1) r2(2)])
  obtain x2 where x2: "bn_trim_leading_zeros env (x1\<lparr>bn_is_negative := False\<rparr>) = Some (x2, 0)"
    "fresh x2 (int e)"
    by (rule bn_trim_ok [OF assms(1) x1(4)])
  obtain one where one: "bn_append_digit env 0 bn_zero 49 = Some (one, 0)" "fresh one 1"
    using bn_append_digit_ok [OF assms(1), of bn_zero 0 49] by (auto simp: is_dec_def digit_of_def)
  have x2z: "is_zero_value x2 \<longleftrightarrow> e = 0"
    using is_zero_iff [OF freshD(1) [OF x2(2)]] fresh_magnitude [OF x2(2)] by simp
  note steps = b1(1) x1(1) y1(1) guards y2(1) r1(1,2) r2(1) r3(1) x2(1) one(1)
  have lv: "bn_leave env b1 0 = 0" using b1(4,5) by (simp add: bn_leave_def bn_destroy_def)
  show ?thesis
  proof (cases "e = 0")
    case True
    obtain p r4 r5 where "bn_modulo env one y2 = Some (p, 0)" "bn_store env bn_zero p = Some (r4, 0)"
      "bn_trim_leading_zeros env (r4\<lparr>bn_is_negative := False\<rparr>) = Some (r5, 0)" "fresh r5 (1 mod m)"
      by (rule mod_pow_identity [OF assms(1) y2(2) one(2) m0])
    then show ?thesis
      using steps True x2z assms(1) lv
      by (intro that [of r5]) (simp_all add: bn_mod_pow_def bn_new_def flip: m_def e_def)
  next
    case False
    obtain acc where acc: "bn_initialize_copy env False bn_constructor one = Some (acc, 0)" "fresh acc 1"
      by (rule bn_initialize_copy_fresh [OF assms(1) one(2)])
    have "bn_value b ^ e mod m = int (nat (bn_value b ^ e mod m))" using m0 by simp
    then obtain a where a: "mod_pow_loop env r3 y2 one x2 acc = Some (0, a)"
      "fresh a (int (nat (bn_value b ^ e mod m)))"
      using mod_pow_loop_ok [OF assms(1) r3(2) y2(2) one(2) m0 _ x2(2) acc(2)] m0 False
      by (auto simp: power_mod)
    obtain r where "mod_pow_result env a = Some (Some r)" "fresh r (int (nat (bn_value b ^ e mod m)))"
      by (rule mod_pow_result_ok [OF assms(1) a(2)])
    then show ?thesis
      using steps False x2z lv acc(1) a(1) m0
      by (intro that [of r]) (simp_all add: bn_mod_pow_def flip: m_def e_def)
  qed
qed

text \<open>
  A modulus that is zero or negative, or a negative exponent: the object that is returned is
  zero, its error is in a field that nothing reads, and the last error is \<open>FT_ERR_SUCCESS\<close>.
\<close>

lemma bn_mod_pow_rejects:
  assumes "number_env_ok env" "bn_ok b" "bn_state b = Initialised"
    "bn_ok x" "bn_state x = Initialised" "bn_ok y" "bn_state y = Initialised"
    "bn_value x < 0 \<or> bn_value y \<le> 0"
  obtains r where "bn_mod_pow env b x y = Some (Some r, 0)" "fresh r 0"
    "bn_operation_error r = (if bn_value y = 0 then FT_ERR_DIVIDE_BY_ZERO else FT_ERR_INVALID_ARGUMENT)"
proof -
  obtain b1 where b1: "bn_initialize_copy env False bn_constructor b = Some (b1, 0)"
    "\<not> bn_mutex b1" "bn_state b1 = Initialised"
    by (rule bn_initialize_copy_ok [OF assms(1-3)])
  obtain x1 where x1: "bn_initialize_copy env False bn_constructor x = Some (x1, 0)" "bn_ok x1"
    "bn_value x1 = bn_value x"
    by (rule bn_initialize_copy_ok [OF assms(1,4,5)])
  obtain y1 where y1: "bn_initialize_copy env False bn_constructor y = Some (y1, 0)" "bn_ok y1"
    "bn_value y1 = bn_value y"
    by (rule bn_initialize_copy_ok [OF assms(1,6,7)])
  define err where "err = (if bn_value y = 0 then FT_ERR_DIVIDE_BY_ZERO else FT_ERR_INVALID_ARGUMENT)"
  have err: "err \<noteq> 0" by (simp add: err_def)
  have lv: "bn_leave env b1 0 = 0" using b1(2,3) by (simp add: bn_leave_def bn_destroy_def)
  have z: "is_zero_value y1 \<longleftrightarrow> bn_value y = 0"
    using is_zero_iff [OF y1(2)] bn_value_zero_iff [of y1] y1(3) by simp
  have "bn_mod_pow env b x y = Some (mod_pow_error env err, 0)"
    using b1(1) x1(1) y1(1) z assms(8) lv bn_negative_ok [OF assms(1) x1(2)]
      bn_negative_ok [OF assms(1) y1(2)] x1(3) y1(3)
    by (auto simp: bn_mod_pow_def err_def)
  then have "bn_mod_pow env b x y = Some (Some (bn_zero\<lparr>bn_operation_error := err\<rparr>), 0)"
    using assms(1) err by (simp add: mod_pow_error_def bn_new_def)
  moreover have "fresh (bn_zero\<lparr>bn_operation_error := err\<rparr>) 0"
    by (simp add: fresh_def bn_value_def bn_magnitude_def)
  ultimately show ?thesis by (rule that) (simp add: err_def)
qed

end
