(* ===== verification/Big_Number_Steps.thy ===== *)
theory Big_Number_Steps
  imports Big_Number_Power
begin

text \<open>
  Programs that edit one \<open>ft_big_number\<close>: a sequence of calls is interpreted by the model of the
  class and by arithmetic on a sign and a natural number, and the first refines the second.
  The sign is kept apart because the class can hold a negative zero: \<open>reduce_to\<close> keeps the sign
  of the digits it drops.
\<close>

subsection \<open>Calls\<close>

text \<open>
  A C string is given without its terminator; \<open>Set_sum y\<close> is the statement \<open>x = x + y;\<close>, and so on.
\<close>

datatype number_call =
    Append_digit u8
  | Append bytes
  | Append_unsigned u64
  | Trim_leading_zeros
  | Reduce_to nat
  | Clear
  | Assign bytes
  | Assign_base bytes int
  | Set_copy big_number
  | Set_sum big_number
  | Set_difference big_number
  | Set_product big_number
  | Set_quotient big_number
  | Set_remainder big_number

definition operate_and_store ::
  "(number_env \<Rightarrow> big_number \<Rightarrow> big_number \<Rightarrow> (number_proxy \<times> ft_err) option)
     \<Rightarrow> number_env \<Rightarrow> big_number \<Rightarrow> big_number \<Rightarrow> big_number option" where
  "operate_and_store operator env x y =
     do { (p, l) \<leftarrow> operator env x y; (r, e) \<leftarrow> bn_store env x p; Some r }"

fun bn_call :: "number_env \<Rightarrow> big_number \<Rightarrow> number_call \<Rightarrow> big_number option" where
  "bn_call env x (Append_digit c) = map_option fst (bn_append_digit env FT_ERR_SUCCESS x c)"
| "bn_call env x (Append cs) = map_option fst (bn_append env FT_ERR_SUCCESS x (Some (cs @ [0])))"
| "bn_call env x (Append_unsigned v) = map_option fst (bn_append_unsigned env FT_ERR_SUCCESS x v)"
| "bn_call env x Trim_leading_zeros = map_option fst (bn_trim_leading_zeros env x)"
| "bn_call env x (Reduce_to k) = map_option fst (bn_reduce_to env x k)"
| "bn_call env x Clear = map_option fst (bn_clear env x)"
| "bn_call env x (Assign cs) = bn_assign env x (Some (cs @ [0]))"
| "bn_call env x (Assign_base cs base) = map_option fst (bn_assign_base env x (Some (cs @ [0])) base)"
| "bn_call env x (Set_copy y) = map_option fst (bn_copy_assign env False x y)"
| "bn_call env x (Set_sum y) = operate_and_store bn_add env x y"
| "bn_call env x (Set_difference y) = operate_and_store bn_subtract env x y"
| "bn_call env x (Set_product y) = operate_and_store bn_multiply env x y"
| "bn_call env x (Set_quotient y) = operate_and_store bn_divide env x y"
| "bn_call env x (Set_remainder y) = operate_and_store bn_modulo env x y"

fun bn_calls :: "number_env \<Rightarrow> big_number \<Rightarrow> number_call list \<Rightarrow> big_number option" where
  "bn_calls env x [] = Some x"
| "bn_calls env x (c # cs) = do { x1 \<leftarrow> bn_call env x c; bn_calls env x1 cs }"

subsection \<open>Arithmetic\<close>

type_synonym signed_nat = "bool \<times> nat"

definition bn_abs :: "big_number \<Rightarrow> signed_nat" where
  "bn_abs b = (bn_is_negative b, bn_magnitude b)"

definition to_int :: "signed_nat \<Rightarrow> int" where
  "to_int a = signed_int (fst a) (snd a)"

definition of_int_signed :: "int \<Rightarrow> signed_nat" where
  "of_int_signed v = (v < 0, nat \<bar>v\<bar>)"

function digit_count :: "nat \<Rightarrow> nat" where
  "digit_count n = (if n = 0 then 0 else Suc (digit_count (n div 10)))"
  by pat_completeness auto
termination
  by (relation "measure id") auto

declare digit_count.simps [simp del]

definition abs_digit :: "signed_nat \<Rightarrow> u8 \<Rightarrow> signed_nat" where
  "abs_digit a c = (if is_dec c then (fst a, snd a * 10 + digit_of c) else a)"

definition split_sign :: "bytes \<Rightarrow> bool \<times> bytes" where
  "split_sign cs = (case cs of [] \<Rightarrow> (False, []) | c # ds \<Rightarrow> if c = 45 then (True, ds) else (False, cs))"

text \<open>A text that is not a number changes nothing; the empty text is zero.\<close>

definition abs_assign :: "signed_nat \<Rightarrow> bytes \<Rightarrow> signed_nat" where
  "abs_assign a cs =
     (let (s, ds) = split_sign cs
      in if \<not> decimal ds then a
         else if ds = [] then (if s then a else (False, 0))
         else (s \<and> dec ds \<noteq> 0, dec ds))"

definition abs_assign_base :: "signed_nat \<Rightarrow> bytes \<Rightarrow> int \<Rightarrow> signed_nat" where
  "abs_assign_base a cs base =
     (let (s, ds) = split_sign cs; n = base_number_of (nat base) ds
      in if base < 2 \<or> base > 16 \<or> ds = [] \<or> \<not> list_all (base_digit (nat base)) ds then a
         else (s \<and> n \<noteq> 0, n))"

fun abs_call :: "signed_nat \<Rightarrow> number_call \<Rightarrow> signed_nat" where
  "abs_call a (Append_digit c) = abs_digit a c"
| "abs_call a (Append cs) = foldl abs_digit a cs"
| "abs_call a (Append_unsigned v) = (fst a, snd a * 10 ^ max 1 (digit_count (unat v)) + unat v)"
| "abs_call a Trim_leading_zeros = a"
| "abs_call a (Reduce_to k) = (fst a, snd a div 10 ^ (digit_count (snd a) - k))"
| "abs_call a Clear = (False, 0)"
| "abs_call a (Assign cs) = abs_assign a cs"
| "abs_call a (Assign_base cs base) = abs_assign_base a cs base"
| "abs_call a (Set_copy y) = bn_abs y"
| "abs_call a (Set_sum y) = of_int_signed (to_int a + bn_value y)"
| "abs_call a (Set_difference y) = of_int_signed (to_int a - bn_value y)"
| "abs_call a (Set_product y) = of_int_signed (to_int a * bn_value y)"
| "abs_call a (Set_quotient y) = of_int_signed (to_int a sdiv bn_value y)"
| "abs_call a (Set_remainder y) = of_int_signed (to_int a smod bn_value y)"

text \<open>What a call may be given: C strings, well-formed operands, divisors other than zero.\<close>

fun call_ok :: "number_call \<Rightarrow> bool" where
  "call_ok (Append cs) = (0 \<notin> set cs)"
| "call_ok (Assign cs) = (0 \<notin> set cs)"
| "call_ok (Assign_base cs base) = (0 \<notin> set cs)"
| "call_ok (Set_copy y) = bn_ok y"
| "call_ok (Set_sum y) = bn_ok y"
| "call_ok (Set_difference y) = bn_ok y"
| "call_ok (Set_product y) = bn_ok y"
| "call_ok (Set_quotient y) = (bn_ok y \<and> bn_value y \<noteq> 0)"
| "call_ok (Set_remainder y) = (bn_ok y \<and> bn_value y \<noteq> 0)"
| "call_ok c = True"

subsection \<open>Each call refines its arithmetic\<close>

text \<open>\<open>r\<close> is the same object as \<open>b\<close>, well formed, with the number \<open>a\<close>.\<close>

definition holds_number :: "big_number \<Rightarrow> signed_nat \<Rightarrow> big_number \<Rightarrow> bool" where
  "holds_number b a r \<longleftrightarrow>
     bn_ok r \<and> bn_abs r = a \<and> bn_state r = bn_state b \<and> bn_mutex r = bn_mutex b"

lemma holds_number_self: "bn_ok b \<Longrightarrow> holds_number b (bn_abs b) b"
  by (simp add: holds_number_def)

lemma holds_number_trans:
  "holds_number b a r \<Longrightarrow> holds_number r a' r' \<Longrightarrow> holds_number b a' r'"
  by (simp add: holds_number_def)

lemma append_digit_refines:
  assumes "number_env_ok env" "bn_ok b"
  shows "\<exists>r. append_digit_unlocked env b c = Some r \<and> holds_number b (abs_digit (bn_abs b) c) r"
proof (cases "is_dec c")
  case True
  show ?thesis
    by (rule append_digit_unlocked_ok [OF assms True])
      (auto simp: holds_number_def bn_abs_def abs_digit_def True)
next
  case False
  then have "append_digit_unlocked env b c = Some b"
    by (auto simp: append_digit_unlocked_def is_dec_def not_le)
  with False assms(2) show ?thesis by (simp add: abs_digit_def holds_number_self)
qed

lemma append_loop_refines:
  assumes "number_env_ok env" "bn_ok b" "0 \<notin> set cs"
  shows "\<exists>r. append_loop env b (cs @ [0]) = Some r \<and> holds_number b (foldl abs_digit (bn_abs b) cs) r"
  using assms(2,3)
proof (induction cs arbitrary: b)
  case (Cons c cs)
  obtain b1 where b1: "append_digit_unlocked env b c = Some b1"
    "holds_number b (abs_digit (bn_abs b) c) b1"
    using append_digit_refines [OF assms(1) Cons.prems(1)] by blast
  then have "bn_ok b1" "bn_abs b1 = abs_digit (bn_abs b) c" by (simp_all add: holds_number_def)
  with Cons b1 show ?case using holds_number_trans [OF b1(2)] by fastforce
qed (simp add: holds_number_self)

lemma append_digits_refines:
  assumes "number_env_ok env" "bn_ok b"
  shows "\<exists>r. append_digits env b cs = Some r \<and> holds_number b (foldl abs_digit (bn_abs b) cs) r"
  using assms(2)
proof (induction cs arbitrary: b)
  case (Cons c cs)
  obtain b1 where b1: "append_digit_unlocked env b c = Some b1"
    "holds_number b (abs_digit (bn_abs b) c) b1"
    using append_digit_refines [OF assms(1) Cons.prems(1)] by blast
  then have "bn_ok b1" "bn_abs b1 = abs_digit (bn_abs b) c" by (simp_all add: holds_number_def)
  with Cons b1 show ?case using holds_number_trans [OF b1(2)] by fastforce
qed (simp add: holds_number_self)

lemma foldl_abs_digit: "decimal cs \<Longrightarrow> foldl abs_digit a cs = (fst a, snd a * 10 ^ length cs + dec cs)"
  by (induction cs arbitrary: a) (auto simp: abs_digit_def dec_Cons algebra_simps)

lemma length_unsigned_digits: "length (unsigned_digits n) = digit_count n"
  by (induction n rule: digit_count.induct) (subst unsigned_digits.simps, subst digit_count.simps, simp)

lemma digit_count_dec:
  assumes "canonical cs" "dec cs \<noteq> 0"
  shows "digit_count (dec cs) = length cs"
  using assms
proof (induction cs rule: rev_induct)
  case (snoc c cs)
  then have c: "is_dec c" "decimal cs" by (auto simp: canonical_def)
  have step: "dec (cs @ [c]) div 10 = dec cs" using digit_of_less [OF c(1)] by (simp add: dec_snoc)
  have "digit_count (dec cs) = length cs"
  proof (cases cs)
    case (Cons d ds)
    then have "d \<noteq> 48" "is_dec d" using snoc.prems(1) by (auto simp: canonical_def)
    with Cons c show ?thesis
      using digit_of_pos [of d] by (intro snoc.IH) (auto simp: canonical_def dec_Cons)
  qed (simp add: digit_count.simps)
  with snoc.prems(2) step show ?case by (subst digit_count.simps) simp
qed simp

lemma append_unsigned_refines:
  assumes "number_env_ok env" "bn_ok b"
  shows "\<exists>r. append_unsigned_unlocked env b v = Some r
    \<and> holds_number b (abs_call (bn_abs b) (Append_unsigned v)) r"
proof -
  define cs where "cs = rev (if v = 0 then [48] else unsigned_digits (unat v))"
  have "decimal cs" "dec cs = unat v"
    using unsigned_digits_ok [of "unat v"] by (auto simp: cs_def dec_Cons)
  moreover have "length cs = max 1 (digit_count (unat v))"
  proof (cases "v = 0")
    case False
    then have "0 < digit_count (unat v)" by (subst digit_count.simps) (simp add: unat_eq_zero)
    with False show ?thesis by (simp add: cs_def length_unsigned_digits)
  qed (simp add: cs_def digit_count.simps)
  ultimately show ?thesis
    using append_digits_refines [OF assms, of cs] foldl_abs_digit [of cs "bn_abs b"]
    by (simp add: append_unsigned_unlocked_def cs_def)
qed

lemma clear_refines:
  assumes "number_env_ok env" "bn_ok b"
  shows "\<exists>r. clear_unlocked env b = Some r \<and> holds_number b (False, 0) r"
proof -
  note ok = bn_okD [OF assms(2)]
  define b1 where "b1 = b\<lparr>bn_size := 0, bn_digits := map_option (\<lambda>d. d[0 := 0]) (bn_digits b)\<rparr>"
  have b1: "(if bn_digits b = None then Some (b\<lparr>bn_size := 0\<rparr>)
      else bn_put (b\<lparr>bn_size := 0\<rparr>) 0 0) = Some b1" "bn_block b1" "bn_terminated b1" "bn_size b1 = 0"
      "bn_state b1 = bn_state b" "bn_mutex b1 = bn_mutex b"
    using ok(1) by (cases "bn_digits b";
      auto simp: b1_def bn_put_def bn_block_def bn_terminated_def intro!: big_number.equality)+
  define b2 where "b2 = b1\<lparr>bn_is_negative := False\<rparr>"
  have b2: "bn_block b2" "bn_terminated b2" "bn_text b2 = []"
    using b1(2-4) by (auto simp: b2_def bn_block_def bn_terminated_def bn_text_def split: option.splits)
  have "bn_ok (bn_shrink_capacity env b2)" "bn_magnitude (bn_shrink_capacity env b2) = 0"
    using bn_shrink_ok [OF assms(1) b2(1,2)] b2(3) by (simp_all add: bn_ok_def bn_magnitude_def)
  with b1 show ?thesis
    by (simp add: clear_unlocked_def holds_number_def bn_abs_def flip: b2_def) (simp add: b2_def)
qed

lemma dec_take_div:
  assumes "decimal cs" "k \<le> length cs"
  shows "dec (take k cs) = dec cs div 10 ^ (length cs - k)"
proof -
  have "dec cs = dec (take k cs) * 10 ^ (length cs - k) + dec (drop k cs)"
    using dec_append [of "take k cs" "drop k cs"] by simp
  moreover have "dec (drop k cs) < 10 ^ (length cs - k)"
    using dec_less [OF decimal_drop [OF assms(1)], of k] by simp
  ultimately show ?thesis by simp
qed

lemma canonical_take: "canonical cs \<Longrightarrow> k < length cs \<Longrightarrow> canonical (take k cs)"
  by (cases cs; cases k) (auto simp: canonical_def decimal_take)

lemma reduce_to_refines:
  assumes "number_env_ok env" "bn_ok b"
  shows "\<exists>r. reduce_to_unlocked env b k = Some r
    \<and> holds_number b (abs_call (bn_abs b) (Reduce_to k)) r"
proof -
  note ok = bn_okD [OF assms(2)]
  define n where "n = bn_magnitude b"
  have n: "n = dec (bn_text b)" by (simp add: n_def bn_magnitude_def)
  have cnt: "n \<noteq> 0 \<Longrightarrow> digit_count n = bn_size b" using digit_count_dec [OF ok(3)] ok(5) n by simp
  show ?thesis
  proof (cases "bn_size b \<le> k")
    case True
    then have "n div 10 ^ (digit_count n - k) = n" using cnt by (cases "n = 0") simp_all
    with True assms(2) show ?thesis
      by (simp add: reduce_to_unlocked_def holds_number_def bn_abs_def n_def)
  next
    case False
    then obtain d where d: "bn_digits b = Some d" "length d = bn_capacity b" "bn_size b < length d"
      using ok(1) by (auto simp: bn_block_def split: option.splits)
    define b2 where "b2 = b\<lparr>bn_size := k, bn_digits := Some (d[k := 0])\<rparr>"
    have b2: "bn_block b2" "bn_terminated b2" "bn_text b2 = take k (bn_text b)"
      using bn_holds [of b2 "d[k := 0]" "take k (bn_text b)"] False d
      by (simp_all add: b2_def bn_text_def min_absorb1)
    have val: "dec (take k (bn_text b)) = n div 10 ^ (digit_count n - k)"
      using dec_take_div [OF ok(4), of k] False ok(5) cnt n by (cases "n = 0") simp_all
    have eq: "reduce_to_unlocked env b k = Some (bn_shrink_capacity env b2)"
      using False d by (simp add: reduce_to_unlocked_def bn_put_def b2_def)
    have "bn_ok (bn_shrink_capacity env b2)"
      using bn_shrink_ok [OF assms(1) b2(1,2)] b2(3) canonical_take [OF ok(3), of k] False ok(5)
      by (simp add: bn_ok_def)
    moreover have "bn_magnitude (bn_shrink_capacity env b2) = n div 10 ^ (digit_count n - k)"
      using bn_shrink_ok(3) [OF assms(1) b2(1,2)] b2(3) val by (simp add: bn_magnitude_def)
    ultimately show ?thesis
      using eq by (simp add: holds_number_def bn_abs_def n_def) (simp add: b2_def)
  qed
qed

subsubsection \<open>Parsing\<close>

lemma scan_digits_string:
  "0 \<notin> set cs \<Longrightarrow> scan_digits (cs @ [0]) = Some (if decimal cs then Some (length cs) else None)"
  by (induction cs) (auto simp: is_dec_def not_le not_less)

lemma split_sign_text: "split_sign cs = (s, ds) \<Longrightarrow> cs = signed_text s ds"
  by (auto simp: split_sign_def signed_text_def split: list.splits if_splits)

lemma bn_assign_split:
  assumes "number_env_ok env" "split_sign cs = (s, ds)" "0 \<notin> set cs" "\<not> decimal ds \<or> ds = []"
  shows "bn_assign env b (Some (cs @ [0])) =
    (if \<not> decimal ds \<or> s then Some b else clear_unlocked env b)"
proof -
  have ds: "0 \<notin> set ds" "cs = signed_text s ds" using split_sign_text [OF assms(2)] assms(3)
    by (auto simp: signed_text_def split: if_splits)
  show ?thesis
  proof (cases cs)
    case Nil
    with assms(1,2) show ?thesis by (auto simp: bn_assign_def split_sign_def)
  next
    case (Cons c cs')
    have cs: "(c = 45) = s" "(if s then cs' @ [0] else c # cs' @ [0]) = ds @ [0]"
      using assms(2) Cons by (auto simp: split_sign_def split: if_splits)
    show ?thesis
      using assms(1,4) scan_digits_string [OF ds(1)]
      unfolding bn_assign_def Cons append_Cons option.case list.case Let_def cs by auto
  qed
qed

lemma assign_refines:
  assumes "number_env_ok env" "bn_ok b" "0 \<notin> set cs"
  shows "\<exists>r. bn_assign env b (Some (cs @ [0])) = Some r
    \<and> holds_number b (abs_assign (bn_abs b) cs) r"
proof -
  obtain s ds where sd: "split_sign cs = (s, ds)" by (cases "split_sign cs")
  show ?thesis
  proof (cases "decimal ds \<and> ds \<noteq> []")
    case True
    obtain r where "bn_assign env b (Some (signed_text s ds @ 0 # [])) = Some r" "bn_ok r"
      "bn_value r = signed_int s (dec ds)" "bn_is_negative r \<longleftrightarrow> s \<and> dec ds \<noteq> 0"
      "bn_state r = bn_state b" "bn_mutex r = bn_mutex b"
      using bn_assign_ok [OF assms(1,2), of ds s "[]"] True by blast
    moreover from this have "bn_magnitude r = dec ds"
      by (auto simp: bn_value_def signed_int_def split: if_splits)
    moreover have "abs_assign (bn_abs b) cs = (s \<and> dec ds \<noteq> 0, dec ds)"
      using True by (simp add: abs_assign_def sd)
    ultimately show ?thesis
      unfolding split_sign_text [OF sd, symmetric] by (auto simp: holds_number_def bn_abs_def)
  next
    case False
    then have "bn_assign env b (Some (cs @ [0]))
        = (if \<not> decimal ds \<or> s then Some b else clear_unlocked env b)"
      using bn_assign_split [OF assms(1) sd assms(3)] by auto
    with False clear_refines [OF assms(1,2)] holds_number_self [OF assms(2)] show ?thesis
      by (auto simp: abs_assign_def sd)
  qed
qed

text \<open>What \<open>assign_base\<close> refuses leaves the object alone.\<close>

lemma assign_base_unchanged:
  assumes "number_env_ok env" "split_sign cs = (s, ds)" "0 \<notin> set cs"
    "base < 2 \<or> base > 16 \<or> ds = [] \<or> \<not> list_all (base_digit (nat base)) ds"
  shows "map_option fst (bn_assign_base env b (Some (cs @ [0])) base) = Some b"
proof (cases "base < 2 \<or> base > 16 \<or> ds = []")
  case True
  then consider "base < 2 \<or> base > 16" | "ds = []" by blast
  then show ?thesis
  proof cases
    case 2
    with split_sign_text [OF assms(2)] assms(1) show ?thesis
      by (cases s) (simp_all add: bn_assign_base_def signed_text_def)
  qed (use assms(1) in \<open>auto simp: bn_assign_base_def\<close>)
next
  case False
  then have "\<exists>c\<in>set ds. \<not> base_digit (nat base) c" using assms(4) by (auto simp: list_all_iff)
  then obtain p c rest where ds: "ds = p @ c # rest" "\<not> base_digit (nat base) c"
    and p: "list_all (base_digit (nat base)) p"
    using split_list_first_prop [of ds "\<lambda>c. \<not> base_digit (nat base) c"] by (auto simp: list_all_iff)
  have cs: "cs = signed_text s (p @ c # rest)" using split_sign_text [OF assms(2)] ds(1) by simp
  have "c \<noteq> 0" using assms(3) cs by (auto simp: signed_text_def split: if_splits)
  moreover have "s \<or> p \<noteq> [] \<or> c \<noteq> 45"
    using assms(2) cs by (auto simp: split_sign_def signed_text_def ds(1) split: if_splits)
  ultimately have "bn_assign_base env b (Some (signed_text s (p @ c # rest @ [0]))) (int (nat base))
      = Some (b, FT_ERR_INVALID_ARGUMENT, 0)"
    using False p ds(2) by (intro bn_assign_base_rejects [OF assms(1)]) auto
  moreover have "cs @ [0] = signed_text s (p @ c # rest @ [0])" by (simp add: cs signed_text_def)
  ultimately show ?thesis using False by simp
qed

lemma assign_base_refines:
  assumes "number_env_ok env" "bn_ok b" "0 \<notin> set cs"
  shows "\<exists>r. map_option fst (bn_assign_base env b (Some (cs @ [0])) base) = Some r
    \<and> holds_number b (abs_assign_base (bn_abs b) cs base) r"
proof -
  obtain s ds where sd: "split_sign cs = (s, ds)" by (cases "split_sign cs")
  show ?thesis
  proof (cases "base < 2 \<or> base > 16 \<or> ds = [] \<or> \<not> list_all (base_digit (nat base)) ds")
    case True
    then have "abs_assign_base (bn_abs b) cs base = bn_abs b" by (simp add: abs_assign_base_def sd)
    with assign_base_unchanged [OF assms(1) sd assms(3) True] holds_number_self [OF assms(2)]
    show ?thesis by metis
  next
    case False
    define n where "n = base_number_of (nat base) ds"
    have base: "2 \<le> nat base" "nat base \<le> 16" using False by auto
    obtain r where "bn_assign_base env b (Some (signed_text s ds @ 0 # [])) (int (nat base))
        = Some (r, 0, 0)" "bn_ok r" "bn_value r = signed_int s n" "bn_is_negative r \<longleftrightarrow> s \<and> n \<noteq> 0"
      "bn_state r = bn_state b" "bn_mutex r = bn_mutex b"
      using bn_assign_base_ok [OF assms(1,2) base, of ds s "[]"] False unfolding n_def by blast
    moreover from this have "bn_magnitude r = n"
      by (auto simp: bn_value_def signed_int_def split: if_splits)
    moreover have "abs_assign_base (bn_abs b) cs base = (s \<and> n \<noteq> 0, n)" "int (nat base) = base"
      using False by (simp_all add: abs_assign_base_def sd n_def Let_def)
    ultimately show ?thesis
      unfolding split_sign_text [OF sd, symmetric] by (auto simp: holds_number_def bn_abs_def)
  qed
qed

subsubsection \<open>Operators\<close>

lemma holds_number_int:
  assumes "bn_ok r" "bn_value r = v" "bn_is_negative r \<longleftrightarrow> v < 0"
    "bn_state r = bn_state b" "bn_mutex r = bn_mutex b"
  shows "holds_number b (of_int_signed v) r"
proof -
  have "bn_magnitude r = nat \<bar>v\<bar>" using assms(2) by (auto simp: bn_value_def signed_int_def)
  with assms show ?thesis by (simp add: holds_number_def bn_abs_def of_int_signed_def)
qed

lemma to_int_abs: "to_int (bn_abs b) = bn_value b"
  by (simp add: to_int_def bn_abs_def bn_value_def)

context exact_operator
begin

lemma stored_any:
  assumes "number_env_ok env" "bn_ok a" "bn_ok b" "accepts (bn_value b)"
  shows "\<exists>p r. operator env a b = Some (p, 0) \<and> bn_store env x p = Some (r, 0) \<and> bn_ok r
    \<and> bn_value r = f (bn_value a) (bn_value b)"
proof -
  obtain p where p: "operator env a b = Some (p, 0)" "yields p (f (bn_value a) (bn_value b))"
    using exact [OF assms] by blast
  obtain r where "bn_store env x p = Some (r, 0)" "bn_ok r" "bn_value r = f (bn_value a) (bn_value b)"
    by (rule bn_store_any [OF assms(1) p(2)])
  with p(1) show ?thesis by blast
qed

lemma refines:
  assumes "number_env_ok env" "bn_ok x" "bn_ok y" "accepts (bn_value y)"
  shows "\<exists>r. operate_and_store operator env x y = Some r
    \<and> holds_number x (of_int_signed (f (to_int (bn_abs x)) (bn_value y))) r"
proof -
  obtain p where p: "operator env x y = Some (p, 0)" "yields p (f (bn_value x) (bn_value y))"
    using exact [OF assms] by blast
  obtain r where r: "bn_store env x p = Some (r, 0)" "bn_ok r"
    "bn_value r = f (bn_value x) (bn_value y)"
    "bn_is_negative r \<longleftrightarrow> f (bn_value x) (bn_value y) < 0" "bn_state r = bn_state x"
    "bn_mutex r = bn_mutex x"
    by (rule bn_store_any [OF assms(1) p(2)])
  from p(1) r(1) holds_number_int [OF r(2-6)] show ?thesis
    by (simp add: operate_and_store_def to_int_abs)
qed

end

lemma trim_refines:
  assumes "number_env_ok env" "bn_ok b"
  shows "\<exists>r. trim_leading_zeros_unlocked env b = Some r \<and> holds_number b (bn_abs b) r"
proof -
  note ok = bn_okD [OF assms(2)]
  show ?thesis
    by (rule trim_ok [OF assms(1) ok(1,2,4)]) (auto simp: holds_number_def bn_abs_def)
qed

lemma copy_refines:
  assumes "number_env_ok env" "bn_ok y"
  shows "\<exists>r. bn_copy_assign env False b y = Some (r, 0) \<and> holds_number b (bn_abs y) r"
  by (rule bn_copy_assign_ok [OF assms]) (auto simp: holds_number_def bn_abs_def bn_magnitude_def)

lemma bn_call_refines:
  assumes "number_env_ok env" "bn_ok b" "call_ok c"
  shows "\<exists>r. bn_call env b c = Some r \<and> holds_number b (abs_call (bn_abs b) c) r"
proof (cases c)
  case (Append_digit d)
  with append_digit_refines [OF assms(1,2), of d] assms(1) show ?thesis
    by (auto simp: bn_append_digit_def)
next
  case (Append cs)
  with append_loop_refines [OF assms(1,2), of cs] assms(1,3) show ?thesis
    by (auto simp: bn_append_def append_unlocked_def)
next
  case (Append_unsigned v)
  with append_unsigned_refines [OF assms(1,2), of v] assms(1) show ?thesis
    by (auto simp: bn_append_unsigned_def)
next
  case Trim_leading_zeros
  with trim_refines [OF assms(1,2)] assms(1) show ?thesis by (auto simp: bn_trim_leading_zeros_def)
next
  case (Reduce_to k)
  with reduce_to_refines [OF assms(1,2), of k] assms(1) show ?thesis by (auto simp: bn_reduce_to_def)
next
  case Clear
  with clear_refines [OF assms(1,2)] assms(1) show ?thesis by (auto simp: bn_clear_def)
next
  case (Assign cs)
  with assign_refines [OF assms(1,2), of cs] assms(3) show ?thesis by simp
next
  case (Assign_base cs base)
  with assign_base_refines [OF assms(1,2), of cs base] assms(3) show ?thesis by simp
next
  case (Set_copy y)
  with copy_refines [OF assms(1), of y b] assms(3) show ?thesis by auto
next
  case (Set_sum y)
  with add.refines [OF assms(1,2), of y] assms(3) show ?thesis by simp
next
  case (Set_difference y)
  with subtract.refines [OF assms(1,2), of y] assms(3) show ?thesis by simp
next
  case (Set_product y)
  with multiply.refines [OF assms(1,2), of y] assms(3) show ?thesis by simp
next
  case (Set_quotient y)
  with divide.refines [OF assms(1,2), of y] assms(3) show ?thesis by simp
next
  case (Set_remainder y)
  with modulo.refines [OF assms(1,2), of y] assms(3) show ?thesis by simp
qed

lemma bn_calls_refine:
  assumes "number_env_ok env" "bn_ok b" "list_all call_ok cs"
  shows "\<exists>r. bn_calls env b cs = Some r \<and> holds_number b (foldl abs_call (bn_abs b) cs) r"
  using assms(2,3)
proof (induction cs arbitrary: b)
  case (Cons c cs)
  obtain b1 where b1: "bn_call env b c = Some b1" "holds_number b (abs_call (bn_abs b) c) b1"
    using bn_call_refines [OF assms(1) Cons.prems(1)] Cons.prems(2) by auto
  then have "bn_ok b1" "bn_abs b1 = abs_call (bn_abs b) c" by (simp_all add: holds_number_def)
  with Cons b1 show ?case using holds_number_trans [OF b1(2)] by fastforce
qed (simp add: holds_number_self)

end
