(* ===== verification/Big_Number_Props.thy ===== *)
theory Big_Number_Props
  imports Big_Number_Steps
begin

text \<open>
  The contract of \<open>ft_big_number\<close>: what its operators compute, what a sequence of calls leaves in
  an object, the round trips between numbers and text, modular powers, the locks of two
  operands, and what happens when memory runs out or a divisor is zero.
\<close>

subsection \<open>An environment and numbers for evaluation\<close>

definition plain_env :: number_env where
  "plain_env = \<lparr>ne_malloc = (\<lambda>n. Some (replicate n 0)),
     ne_realloc = (\<lambda>p n. Some (take n (span_bytes p n @ replicate n 0))),
     ne_new = True, ne_lock = FT_ERR_SUCCESS, ne_mutex_init = FT_ERR_SUCCESS,
     ne_mutex_destroy = FT_ERR_SUCCESS, ne_append = (\<lambda>n. True)\<rparr>"

lemma plain_env_ok: "number_env_ok plain_env"
  by (auto simp: number_env_ok_def plain_env_def total_alloc_def wf_alloc_def wf_realloc_def
      span_bytes_def split: option.splits)

definition number_of_text :: "bool \<Rightarrow> bytes \<Rightarrow> big_number" where
  "number_of_text s ds = \<lparr>bn_digits = Some (ds @ [0]), bn_size = length ds,
     bn_capacity = length ds + 1, bn_is_negative = s, bn_mutex = False, bn_state = Initialised,
     bn_operation_error = FT_ERR_SUCCESS\<rparr>"

lemma number_of_text_ok:
  "bn_text (number_of_text s ds) = ds"
  "canonical ds \<Longrightarrow> bn_ok (number_of_text s ds)"
  "bn_value (number_of_text s ds) = signed_int s (dec ds)"
  "bn_state (number_of_text s ds) = Initialised"
  by (simp_all add: number_of_text_def bn_ok_def bn_inv_defs bn_value_def bn_magnitude_def)

lemma canonical_Cons: "canonical (c # cs) \<longleftrightarrow> is_dec c \<and> decimal cs \<and> (c = 48 \<longrightarrow> cs = [])"
  by (auto simp: canonical_def)

definition number_17 :: big_number where "number_17 = number_of_text False [49, 55]"
definition number_minus_5 :: big_number where "number_minus_5 = number_of_text True [53]"

lemma demo_numbers:
  "bn_ok number_17" "bn_ok number_minus_5" "bn_value number_17 = 17" "bn_value number_minus_5 = -5"
  "bn_state number_17 = Initialised" "bn_state number_minus_5 = Initialised"
  by (simp_all add: number_17_def number_minus_5_def number_of_text_ok canonical_Cons is_dec_def
      dec_Cons digit_of_def)

subsection \<open>Operators\<close>

text \<open>
  C11: The statements \<open>x = a + b;\<close>, \<open>x = a - b;\<close> and \<open>x = a * b;\<close> leave in \<open>x\<close> the exact integer,
  whatever \<open>x\<close> held, with no error: the schoolbook loops on decimal characters, the case
  analysis on the signs, the trimming and the copies through the proxy are correct for
  numbers of every size. Memory is granted and the mutexes can be locked.
\<close>

theorem number_ring_exact:
  assumes "number_env_ok env" "bn_ok a" "bn_ok b"
  shows "(\<exists>p r. bn_add env a b = Some (p, 0) \<and> bn_store env x p = Some (r, 0) \<and> bn_ok r
           \<and> bn_value r = bn_value a + bn_value b)
       \<and> (\<exists>p r. bn_subtract env a b = Some (p, 0) \<and> bn_store env x p = Some (r, 0) \<and> bn_ok r
           \<and> bn_value r = bn_value a - bn_value b)
       \<and> (\<exists>p r. bn_multiply env a b = Some (p, 0) \<and> bn_store env x p = Some (r, 0) \<and> bn_ok r
           \<and> bn_value r = bn_value a * bn_value b)"
  by (intro conjI add.stored_any [OF assms] subtract.stored_any [OF assms]
      multiply.stored_any [OF assms] TrueI)

theorem number_ring_exact_witness:
  "\<exists>p r. bn_multiply plain_env number_17 number_minus_5 = Some (p, 0)
     \<and> bn_store plain_env number_17 p = Some (r, 0) \<and> bn_ok r \<and> bn_value r = -85"
  using number_ring_exact [OF plain_env_ok demo_numbers(1,2), of number_17] by (simp add: demo_numbers)

text \<open>
  C15: \<open>x = a / b;\<close> truncates towards zero and \<open>x = a % b;\<close> has the sign of the dividend, as
  C++ defines them for machine integers, for every divisor other than zero: the long
  division finds each digit of the quotient and ends. Memory is granted and the mutexes can be locked.
\<close>

theorem number_division_exact:
  assumes "number_env_ok env" "bn_ok a" "bn_ok b" "bn_value b \<noteq> 0"
  shows "(\<exists>p r. bn_divide env a b = Some (p, 0) \<and> bn_store env x p = Some (r, 0) \<and> bn_ok r
           \<and> bn_value r = bn_value a sdiv bn_value b)
       \<and> (\<exists>p r. bn_modulo env a b = Some (p, 0) \<and> bn_store env x p = Some (r, 0) \<and> bn_ok r
           \<and> bn_value r = bn_value a smod bn_value b)"
  by (intro conjI divide.stored_any [OF assms] modulo.stored_any [OF assms])

theorem number_division_exact_witness:
  "\<exists>p r. bn_divide plain_env number_17 number_minus_5 = Some (p, 0)
     \<and> bn_store plain_env number_17 p = Some (r, 0) \<and> bn_ok r \<and> bn_value r = -3"
  using number_division_exact [OF plain_env_ok demo_numbers(1,2), of number_17]
  by (simp add: demo_numbers signed_divide_int_def)

text \<open>
  Operators go on from a proxy: \<open>x = (a + b) * c - d;\<close> leaves the exact integer in \<open>x\<close>,
  while a proxy that carries an error passes it on and computes nothing.
\<close>

theorem number_expression_exact:
  assumes "number_env_ok env" "bn_ok a" "bn_ok b" "bn_ok c" "bn_ok d"
  shows "\<exists>p q t r. bn_add env a b = Some (p, 0) \<and> proxy_multiply env p c = Some (q, 0)
    \<and> proxy_subtract env q d = Some (t, 0) \<and> bn_store env x t = Some (r, 0) \<and> bn_ok r
    \<and> bn_value r = (bn_value a + bn_value b) * bn_value c - bn_value d
    \<and> proxy_subtract env (proxy_of_error FT_ERR_DIVIDE_BY_ZERO) d
        = Some (proxy_of_error FT_ERR_DIVIDE_BY_ZERO, FT_ERR_DIVIDE_BY_ZERO)"
proof -
  obtain p where p: "bn_add env a b = Some (p, 0)" "yields p (bn_value a + bn_value b)"
    using add.exact [OF assms(1-3)] by auto
  obtain q where q: "proxy_multiply env p c = Some (q, 0)"
    "yields q ((bn_value a + bn_value b) * bn_value c)"
    using multiply.chained [OF assms(1) p(2) assms(4)] by (auto simp: proxy_multiply_def)
  obtain t where t: "proxy_subtract env q d = Some (t, 0)"
    "yields t ((bn_value a + bn_value b) * bn_value c - bn_value d)"
    using subtract.chained [OF assms(1) q(2) assms(5)] by (auto simp: proxy_subtract_def)
  obtain r where "bn_store env x t = Some (r, 0)" "bn_ok r"
    "bn_value r = (bn_value a + bn_value b) * bn_value c - bn_value d"
    by (rule bn_store_any [OF assms(1) t(2)])
  with p(1) q(1) t(1) show ?thesis
    by (simp add: proxy_subtract_def proxy_operator_def proxy_of_error_def)
qed

theorem number_expression_exact_witness:
  "\<exists>p q t r. bn_add plain_env number_17 number_minus_5 = Some (p, 0)
    \<and> proxy_multiply plain_env p number_17 = Some (q, 0)
    \<and> proxy_subtract plain_env q number_minus_5 = Some (t, 0)
    \<and> bn_store plain_env number_17 t = Some (r, 0) \<and> bn_value r = 209"
proof -
  obtain p q t r where "bn_add plain_env number_17 number_minus_5 = Some (p, 0)"
    "proxy_multiply plain_env p number_17 = Some (q, 0)"
    "proxy_subtract plain_env q number_minus_5 = Some (t, 0)"
    "bn_store plain_env number_17 t = Some (r, 0)" "bn_value r = 209"
    using number_expression_exact [OF plain_env_ok demo_numbers(1,2,1,2), of number_17]
    by (auto simp: demo_numbers)
  then show ?thesis by blast
qed

text \<open>
  C32: Division by zero is reported by the proxy of \<open>a / b\<close>, but the assignment from the proxy
  resets the error that \<open>operator%\<close> checks: \<open>x = a % b;\<close> with a zero divisor stores \<open>a\<close> itself
  and leaves no error.
\<close>

theorem modulo_by_zero_is_dividend:
  assumes "number_env_ok env" "bn_ok a" "bn_ok b" "bn_value b = 0"
  shows "bn_divide env a b = Some (proxy_of_error FT_ERR_DIVIDE_BY_ZERO, 0)
    \<and> (\<exists>p r. bn_modulo env a b = Some (p, 0) \<and> proxy_get_error p = 0
        \<and> bn_store env x p = Some (r, 0) \<and> bn_value r = bn_value a)"
proof -
  obtain p where p: "bn_modulo env a b = Some (p, 0)" "yields p (bn_value a)"
    using bn_modulo_by_zero [OF assms] by blast
  obtain r where "bn_store env x p = Some (r, 0)" "bn_value r = bn_value a"
    by (rule bn_store_any [OF assms(1) p(2)])
  with p bn_divide_by_zero [OF assms(1,3,4)] show ?thesis
    by (auto simp: proxy_get_error_def yields_def)
qed

theorem modulo_by_zero_is_dividend_witness:
  "bn_value (number_of_text False [48]) = 0
   \<and> (\<exists>p r. bn_modulo plain_env number_17 (number_of_text False [48]) = Some (p, 0)
        \<and> bn_store plain_env number_17 p = Some (r, 0) \<and> bn_value r = 17)"
proof -
  have zero: "bn_ok (number_of_text False [48])" "bn_value (number_of_text False [48]) = 0"
    by (simp_all add: number_of_text_ok canonical_Cons dec_Cons)
  from modulo_by_zero_is_dividend [OF plain_env_ok demo_numbers(1) zero, of number_17] zero(2)
  show ?thesis by (auto simp: demo_numbers)
qed

text \<open>
  C31: With no pending error the six comparison operators decide the order of the integers, a
  negative zero included. When an earlier operation left an error, the first comparison an operator makes is
  false whatever the operands are, and clears the error: \<open><\<close>, \<open>>\<close> and \<open>==\<close> are false, \<open>!=\<close> is true, and
  \<open><=\<close> and \<open>>=\<close>, whose second comparison is \<open>==\<close>, hold exactly for equal operands.
\<close>

theorem number_comparisons:
  assumes "number_env_ok env" "bn_ok a" "bn_ok b" "e \<noteq> 0"
  shows "bn_less env 0 a b = (bn_value a < bn_value b, 0)
    \<and> bn_equal env 0 a b = (bn_value a = bn_value b, 0)
    \<and> bn_not_equal env 0 a b = (bn_value a \<noteq> bn_value b, 0)
    \<and> bn_less_equal env 0 a b = (bn_value a \<le> bn_value b, 0)
    \<and> bn_greater env 0 a b = (bn_value a > bn_value b, 0)
    \<and> bn_greater_equal env 0 a b = (bn_value a \<ge> bn_value b, 0)
    \<and> bn_less env e a b = (False, 0) \<and> bn_equal env e a b = (False, 0)
    \<and> bn_not_equal env e a b = (True, 0) \<and> bn_greater env e a b = (False, 0)
    \<and> bn_less_equal env e a b = (bn_value a = bn_value b, 0)
    \<and> bn_greater_equal env e a b = (bn_value a = bn_value b, 0)"
  using assms(4) bn_less_ok [OF assms(1-3)] bn_less_ok [OF assms(1,3,2)] bn_equal_ok [OF assms(1-3)]
  by (auto simp: bn_not_equal_def bn_less_equal_def bn_greater_def bn_greater_equal_def)
    (simp_all add: bn_less_def [of _ e] bn_equal_def [of _ e])

theorem number_comparisons_witness:
  "bn_greater plain_env 0 number_17 number_minus_5 = (True, 0)
   \<and> bn_greater_equal plain_env FT_ERR_NO_MEMORY number_17 number_minus_5 = (False, 0)
   \<and> bn_equal plain_env FT_ERR_NO_MEMORY number_17 number_17 = (False, 0)"
  using number_comparisons [OF plain_env_ok demo_numbers(1,2), of FT_ERR_NO_MEMORY]
    number_comparisons [OF plain_env_ok demo_numbers(1,1), of FT_ERR_NO_MEMORY]
  by (simp add: demo_numbers)

subsection \<open>Text\<close>

text \<open>
  Parsing and printing in decimal: \<open>assign\<close> of a number, with or without a sign and with
  any leading zeros, gives its value, and \<open>c_str\<close> then shows the digits without the leading
  zeros and without the sign.
\<close>

theorem decimal_text_round_trip:
  assumes "number_env_ok env" "bn_ok b" "decimal ds" "ds \<noteq> []"
  shows "\<exists>r. bn_assign env b (Some (signed_text s ds @ [0])) = Some r
    \<and> bn_value r = signed_int s (dec ds) \<and> canonical (c_string (fst (bn_c_str env r)))
    \<and> dec (c_string (fst (bn_c_str env r))) = dec ds"
proof -
  obtain r where r: "bn_assign env b (Some (signed_text s ds @ 0 # [])) = Some r" "bn_ok r"
    "bn_value r = signed_int s (dec ds)" "bn_is_negative r \<longleftrightarrow> s \<and> dec ds \<noteq> 0"
    by (rule bn_assign_ok [OF assms])
  have "bn_magnitude r = dec ds" using r(3) by (auto simp: bn_value_def signed_int_def split: if_splits)
  then have "dec (bn_text r) = dec ds" by (simp add: bn_magnitude_def)
  with r bn_c_str_text [OF assms(1) r(2)] bn_okD(3) [OF r(2)] show ?thesis
    by (auto simp: canonical_Cons dec_Cons)
qed

theorem decimal_text_round_trip_witness:
  "\<exists>r. bn_assign plain_env number_17 (Some [45, 48, 48, 52, 50, 0]) = Some r \<and> bn_value r = -42
    \<and> dec (c_string (fst (bn_c_str plain_env r))) = 42"
proof -
  have "decimal [48, 48, 52, 50]" "[48, 48, 52, 50 :: u8] \<noteq> []" by (simp_all add: is_dec_def)
  from decimal_text_round_trip [OF plain_env_ok demo_numbers(1) this, of True]
  show ?thesis by (auto simp: signed_text_def dec_Cons digit_of_def)
qed

text \<open>
  C24: In every base from 2 to 16 \<open>to_string_base\<close> returns, although its loop has no bound, and
  \<open>assign_base\<close> reads the text back to the same integer, with no error. Memory is granted and
  no error of an earlier operation is pending.
\<close>

theorem base_text_round_trip:
  assumes "number_env_ok env" "bn_ok a" "bn_state a = Initialised" "bn_ok b" "2 \<le> base" "base \<le> 16"
  shows "\<exists>cs r. bn_to_string_base env 0 a (int base) = Some (String_text cs, 0)
    \<and> bn_assign_base env b (Some (cs @ [0])) (int base) = Some (r, 0, 0)
    \<and> bn_ok r \<and> bn_value r = bn_value a"
proof -
  obtain r where "bn_assign_base env b (Some (base_text base (bn_value a) @ 0 # [])) (int base)
      = Some (r, 0, 0)" "bn_ok r" "bn_value r = bn_value a"
    by (rule assign_base_text [OF assms(1,4-6)])
  with bn_to_string_base_ok [OF assms(1-3,5,6)] show ?thesis by blast
qed

theorem base_text_round_trip_witness:
  "\<exists>cs r. bn_to_string_base plain_env 0 number_17 2 = Some (String_text cs, 0)
    \<and> bn_assign_base plain_env number_minus_5 (Some (cs @ [0])) 2 = Some (r, 0, 0) \<and> bn_value r = 17"
  using base_text_round_trip [OF plain_env_ok demo_numbers(1,5,2), of 2] by (auto simp: demo_numbers)

lemma not_base_digit: "\<not> base_digit base 43" "\<not> base_digit base 120" "\<not> base_digit base 88"
  by (simp_all add: base_digit_def ft_big_number_digit_value_def g_big_number_digit_to_value_table_def)

lemma hex_prefix_text:
  assumes "list_all (base_digit 16) ds" "ds \<noteq> []"
  shows "hex_prefix (signed_text s ds @ [0]) = (s, ds @ [0])"
proof -
  obtain c rest where c: "ds = c # rest" "base_digit 16 c" "list_all (base_digit 16) rest"
    using assms by (cases ds) auto
  then have "c \<noteq> 45" "c \<noteq> 43" using not_base_digit_minus not_base_digit(1) by auto
  moreover have "take 2 (ds @ [0]) \<noteq> [48, 120]" "take 2 (ds @ [0]) \<noteq> [48, 88]"
    using c not_base_digit(2,3) by (cases rest; auto)+
  ultimately show ?thesis using c(1) by (cases s) (auto simp: hex_prefix_def signed_text_def Let_def)
qed

text \<open>The subtraction from zero that gives a negative number its sign.\<close>

lemma negate_ok:
  assumes "number_env_ok env" "bn_ok b"
  shows "\<exists>z p r. bn_assign env bn_zero (Some [48, 0]) = Some z \<and> bn_subtract env z b = Some (p, 0)
    \<and> bn_store env b p = Some (r, 0) \<and> bn_ok r \<and> bn_value r = - bn_value b"
proof -
  obtain z where z: "bn_assign env bn_zero (Some (signed_text False [48] @ 0 # [])) = Some z" "bn_ok z"
    "bn_value z = signed_int False (dec [48])"
    by (rule bn_assign_ok [OF assms(1), of bn_zero "[48]" False "[]"]) auto
  with subtract.stored_any [OF assms(1) z(2) assms(2), of b] show ?thesis
    by (auto simp: signed_text_def dec_Cons)
qed

text \<open>
  The hexadecimal helpers: \<open>big_number_to_hex_string\<close> prints every integer and
  \<open>big_number_from_hex_string\<close> reads it back, the sign included.
\<close>

theorem hex_string_round_trip:
  assumes "number_env_ok env" "bn_ok a" "bn_state a = Initialised"
  shows "\<exists>cs r. big_number_to_hex_string env a = Some (String_text cs)
    \<and> big_number_from_hex_string env (Some (cs @ [0])) = Some (Some r)
    \<and> bn_ok r \<and> bn_value r = bn_value a"
proof -
  define v where "v = bn_value a"
  obtain c where c: "bn_initialize_copy env False bn_constructor a = Some (c, 0)" "bn_ok c"
    "bn_value c = v" "bn_state c = Initialised"
    using bn_initialize_copy_ok [OF assms] v_def by metis
  have printed: "big_number_to_hex_string env a = Some (String_text (base_text 16 v))"
    using c(1,3) bn_to_string_base_ok [OF assms(1) c(2,4), of 16]
    by (simp add: big_number_to_hex_string_def)
  obtain ds where ds: "base_text 16 v = signed_text (v < 0) ds" "ds \<noteq> []"
    "list_all (base_digit 16) ds" "signed_int (v < 0) (base_number_of 16 ds) = v"
    by (rule base_text_parsed [of 16 v]) auto
  obtain r where r: "bn_assign_base env bn_zero (Some (signed_text False ds @ 0 # [])) (int 16)
      = Some (r, 0, 0)" "bn_ok r" "bn_value r = signed_int False (base_number_of 16 ds)"
    using bn_assign_base_ok [OF assms(1), of bn_zero 16 ds False "[]"] ds(2,3) by auto
  then have parsed: "bn_assign_base env bn_zero (Some (ds @ [0])) 16 = Some (r, 0, 0)"
    by (simp add: signed_text_def)
  have new: "bn_new env = Some bn_zero" using assms(1) by (simp add: bn_new_def)
  have "\<exists>r. big_number_from_hex_string env (Some (base_text 16 v @ [0])) = Some (Some r)
      \<and> bn_ok r \<and> bn_value r = v"
  proof (cases "v < 0")
    case True
    then show ?thesis
      using negate_ok [OF assms(1) r(2)] r(3) ds(4) hex_prefix_text [OF ds(3,2)] parsed new
      unfolding big_number_from_hex_string_def ds(1) by auto
  next
    case False
    then show ?thesis
      using r(2,3) ds(4) hex_prefix_text [OF ds(3,2)] parsed new
      unfolding big_number_from_hex_string_def ds(1) by auto
  qed
  with printed show ?thesis by (auto simp: v_def)
qed

theorem hex_string_round_trip_witness:
  "\<exists>cs r. big_number_to_hex_string plain_env number_minus_5 = Some (String_text cs)
    \<and> big_number_from_hex_string plain_env (Some (cs @ [0])) = Some (Some r) \<and> bn_value r = -5"
  using hex_string_round_trip [OF plain_env_ok demo_numbers(2,6)] by (auto simp: demo_numbers)

subsection \<open>Powers\<close>

text \<open>
  C23: \<open>mod_pow\<close> returns for every base, every exponent that is not negative and every positive
  modulus, with the canonical residue of the power. Memory is granted.
\<close>

theorem mod_pow_correct:
  assumes "number_env_ok env" "bn_ok b" "bn_state b = Initialised"
    "bn_ok x" "bn_state x = Initialised" "bn_ok y" "bn_state y = Initialised"
    "0 \<le> bn_value x" "0 < bn_value y"
  shows "\<exists>r. bn_mod_pow env b x y = Some (Some r, 0) \<and> bn_ok r
    \<and> bn_value r = bn_value b ^ nat (bn_value x) mod bn_value y"
  by (rule bn_mod_pow_ok [OF assms]) (auto simp: fresh_def)

theorem mod_pow_correct_witness:
  "\<exists>r. bn_mod_pow plain_env number_minus_5 number_17 number_17 = Some (Some r, 0)
     \<and> bn_value r = (-5) ^ 17 mod 17"
  using mod_pow_correct [OF plain_env_ok demo_numbers(2,6,1,5,1,5)]
  by (auto simp: demo_numbers simp del: power_numeral)

text \<open>
  A modulus that is not positive or a negative exponent gives the number zero and no last
  error; the code of the failure is in a field that the class has no accessor for.
\<close>

theorem mod_pow_error_is_hidden:
  assumes "number_env_ok env" "bn_ok b" "bn_state b = Initialised"
    "bn_ok x" "bn_state x = Initialised" "bn_ok y" "bn_state y = Initialised"
    "bn_value x < 0 \<or> bn_value y \<le> 0"
  shows "\<exists>r. bn_mod_pow env b x y = Some (Some r, 0) \<and> bn_value r = 0
    \<and> bn_operation_error r
        = (if bn_value y = 0 then FT_ERR_DIVIDE_BY_ZERO else FT_ERR_INVALID_ARGUMENT)"
  by (rule bn_mod_pow_rejects [OF assms]) (auto simp: fresh_def)

theorem mod_pow_error_is_hidden_witness:
  "\<exists>r. bn_mod_pow plain_env number_17 number_minus_5 number_17 = Some (Some r, 0)
     \<and> bn_value r = 0 \<and> bn_operation_error r = FT_ERR_INVALID_ARGUMENT"
  using mod_pow_error_is_hidden [OF plain_env_ok demo_numbers(1,5,2,6,1,5)] by (auto simp: demo_numbers)

subsection \<open>Sequences of calls\<close>

text \<open>
  C13: Any sequence of editing calls on one object (appending, trimming, cutting, clearing,
  parsing, assigning, and the five operators) returns, keeps the object well formed, its
  lifecycle and its mutex, and computes what arithmetic on a sign and a natural number says. Memory is
  granted and the mutexes can be locked.
\<close>

theorem number_calls_refine:
  assumes "number_env_ok env" "bn_ok b" "list_all call_ok cs"
  shows "\<exists>r. bn_calls env b cs = Some r \<and> bn_ok r \<and> bn_abs r = foldl abs_call (bn_abs b) cs
    \<and> bn_state r = bn_state b \<and> bn_mutex r = bn_mutex b"
  using bn_calls_refine [OF assms] by (auto simp: holds_number_def)

theorem number_calls_refine_witness:
  "\<exists>r. bn_calls plain_env number_minus_5 [Reduce_to 0, Append_digit 51, Set_sum number_17] = Some r
     \<and> bn_abs r = (False, 14)"
proof -
  have "list_all call_ok [Reduce_to 0, Append_digit 51, Set_sum number_17]" by (simp add: demo_numbers)
  from number_calls_refine [OF plain_env_ok demo_numbers(2) this]
  obtain r where r: "bn_calls plain_env number_minus_5 [Reduce_to 0, Append_digit 51, Set_sum number_17]
      = Some r" "bn_abs r = foldl abs_call (bn_abs number_minus_5)
        [Reduce_to 0, Append_digit 51, Set_sum number_17]" by blast
  have "bn_abs number_minus_5 = (True, 5)"
    by (simp add: bn_abs_def bn_magnitude_def number_minus_5_def number_of_text_ok dec_Cons digit_of_def)
      (simp add: number_of_text_def)
  with r show ?thesis
    by (simp add: digit_count.simps abs_digit_def is_dec_def digit_of_def to_int_def of_int_signed_def
        demo_numbers)
qed

subsection \<open>Failures\<close>

text \<open>
  C33: \<open>reserve\<close> reports nothing, and \<open>operator*\<close> writes the product through the pointer it left:
  when \<open>cma_malloc\<close> fails, multiplying two numbers other than zero writes through null.
\<close>

theorem multiply_without_memory:
  assumes "bn_lock_pair env a b = 0" "\<not> is_zero_value a" "\<not> is_zero_value b"
    "\<forall>n. ne_malloc env n = None"
  shows "bn_multiply env a b = None"
  using assms
  by (simp add: bn_multiply_def multiply_magnitude_def bn_reserve_def Let_def)

theorem multiply_without_memory_witness:
  "bn_multiply (plain_env\<lparr>ne_malloc := (\<lambda>n. None)\<rparr>) number_17 number_minus_5 = None"
proof (rule multiply_without_memory)
  show "\<not> is_zero_value number_17" "\<not> is_zero_value number_minus_5"
    using is_zero_iff [OF demo_numbers(1)] is_zero_iff [OF demo_numbers(2)]
      bn_value_zero_iff [of number_17] bn_value_zero_iff [of number_minus_5]
    by (simp_all add: demo_numbers)
qed (simp_all add: bn_lock_pair_def plain_env_def number_17_def number_minus_5_def number_of_text_def)

lemma lock_pair_loop_returns:
  assumes "lock_pair_loop attempts i = Some r"
  shows "\<exists>j. attempts (i + j) \<noteq> (0, FT_ERR_MUTEX_ALREADY_LOCKED)"
  using _ assms
proof (rule lock_pair_loop.raw_induct)
  fix loop :: "(nat \<Rightarrow> ft_err \<times> ft_err) \<Rightarrow> nat \<Rightarrow> (ft_err \<times> bool \<times> bool) option" and attempts i r
  assume IH: "\<And>attempts i r. loop attempts i = Some r
      \<Longrightarrow> \<exists>j. attempts (i + j) \<noteq> (0, FT_ERR_MUTEX_ALREADY_LOCKED)"
    and body: "(let lower_error = fst (attempts i); upper_error = snd (attempts i)
      in if lower_error \<noteq> FT_ERR_SUCCESS then Some (lower_error, False, False)
         else if upper_error = FT_ERR_SUCCESS then Some (FT_ERR_SUCCESS, True, True)
         else if upper_error \<noteq> FT_ERR_MUTEX_ALREADY_LOCKED then Some (upper_error, False, False)
         else loop attempts (i + 1)) = Some r"
  show "\<exists>j. attempts (i + j) \<noteq> (0, FT_ERR_MUTEX_ALREADY_LOCKED)"
  proof (cases "attempts i = (0, FT_ERR_MUTEX_ALREADY_LOCKED)")
    case True
    then obtain j where "attempts (i + 1 + j) \<noteq> (0, FT_ERR_MUTEX_ALREADY_LOCKED)"
      using body IH [of attempts "i + 1" r] by (auto simp: Let_def)
    then show ?thesis by (intro exI [of _ "1 + j"]) (simp add: add.assoc)
  next
    case False
    then show ?thesis by (intro exI [of _ 0]) simp
  qed
qed

lemma lock_pair_loop_first:
  assumes "\<And>k. k < j \<Longrightarrow> attempts (i + k) = (0, FT_ERR_MUTEX_ALREADY_LOCKED)"
    "attempts (i + j) = (l, u)" "(l, u) \<noteq> (0, FT_ERR_MUTEX_ALREADY_LOCKED)"
  shows "lock_pair_loop attempts i = Some (if l \<noteq> 0 then (l, False, False) else (u, u = 0, u = 0))"
  using assms(1,2)
proof (induction j arbitrary: i)
  case 0
  with assms(3) show ?case by (subst lock_pair_loop.simps) (auto simp: Let_def)
next
  case (Suc j)
  have "lock_pair_loop attempts (i + 1)
      = Some (if l \<noteq> 0 then (l, False, False) else (u, u = 0, u = 0))"
    using Suc.prems(1) [of "Suc k" for k] Suc.prems(2) by (intro Suc.IH) auto
  moreover have "attempts i = (0, FT_ERR_MUTEX_ALREADY_LOCKED)" using Suc.prems(1) [of 0] by simp
  ultimately show ?case by (subst lock_pair_loop.simps) (simp add: Let_def)
qed

text \<open>
  Locking two objects: \<open>lock_pair\<close> returns if and only if some attempt does not find the
  second mutex busy, with the outcome of the first such attempt, and on return it holds both
  locks or none.
\<close>

theorem lock_pair_live:
  "lock_pair_loop attempts i =
     (if \<exists>j. attempts (i + j) \<noteq> (0, FT_ERR_MUTEX_ALREADY_LOCKED)
      then let (l, u) = attempts (i + (LEAST j. attempts (i + j) \<noteq> (0, FT_ERR_MUTEX_ALREADY_LOCKED)))
           in Some (if l \<noteq> 0 then (l, False, False) else (u, u = 0, u = 0))
      else None)"
proof (cases "\<exists>j. attempts (i + j) \<noteq> (0, FT_ERR_MUTEX_ALREADY_LOCKED)")
  case True
  define j where "j = (LEAST j. attempts (i + j) \<noteq> (0, FT_ERR_MUTEX_ALREADY_LOCKED))"
  obtain l u where lu: "attempts (i + j) = (l, u)" by (cases "attempts (i + j)")
  have "attempts (i + j) \<noteq> (0, FT_ERR_MUTEX_ALREADY_LOCKED)" unfolding j_def by (rule LeastI_ex [OF True])
  moreover have "attempts (i + k) = (0, FT_ERR_MUTEX_ALREADY_LOCKED)" if "k < j" for k
    using not_less_Least [OF that [unfolded j_def]] by simp
  ultimately have "lock_pair_loop attempts i
      = Some (if l \<noteq> 0 then (l, False, False) else (u, u = 0, u = 0))"
    using lu by (intro lock_pair_loop_first [of j]) auto
  then show ?thesis using True lu unfolding j_def [symmetric] by simp
next
  case False
  then have "lock_pair_loop attempts i = None" using lock_pair_loop_returns by (metis not_Some_eq)
  with False show ?thesis by simp
qed

end
