(* ===== verification/Lock_Tracking.thy ===== *)
theory Lock_Tracking
  imports Libft_Errno
begin

text \<open>
  The deadlock detector of \<^verbatim>\<open>src/Modules/PThread/pthread_lock_tracking.cpp\<close> and the growable
  buffers of \<^verbatim>\<open>pt_buffer.hpp\<close> it is built on. Threads and mutexes are numbers, \<open>0\<close> is the null
  pointer and the identifier of no thread. The global tables and the thread-local states
  of all threads are one record; \<open>self\<close> is the thread that executes an operation. Each operation runs
  under the registry mutex, except for its accesses to the caller's own state, so it is one
  step of the system. What the code gets from the platform (whether an allocation succeeds,
  and the clock) is a parameter.
\<close>

subsection \<open>Buffers\<close>

record 'a pt_buffer =
  pb_items :: "'a list"
  pb_capacity :: nat

definition pt_buffer_init :: "'a pt_buffer" where
  "pt_buffer_init = \<lparr>pb_items = [], pb_capacity = 0\<rparr>"

definition pt_buffer_reserve :: "(nat \<Rightarrow> bool) \<Rightarrow> 'a pt_buffer \<Rightarrow> nat \<Rightarrow> 'a pt_buffer \<times> ft_err" where
  "pt_buffer_reserve grants buffer required =
     (if required \<le> pb_capacity buffer then (buffer, FT_ERR_SUCCESS)
      else let doubled = (if pb_capacity buffer \<noteq> 0 then pb_capacity buffer * 2 else 4);
               new_capacity = (if doubled < required then required else doubled)
           in if grants new_capacity then (buffer\<lparr>pb_capacity := new_capacity\<rparr>, FT_ERR_SUCCESS)
              else (buffer, FT_ERR_NO_MEMORY))"

definition pt_buffer_push :: "(nat \<Rightarrow> bool) \<Rightarrow> 'a pt_buffer \<Rightarrow> 'a \<Rightarrow> 'a pt_buffer \<times> ft_err" where
  "pt_buffer_push grants buffer v =
     (let (buffer1, reserve_error) = pt_buffer_reserve grants buffer (length (pb_items buffer) + 1)
      in if reserve_error \<noteq> FT_ERR_SUCCESS then (buffer1, reserve_error)
         else (buffer1\<lparr>pb_items := pb_items buffer1 @ [v]\<rparr>, FT_ERR_SUCCESS))"

definition pt_buffer_clear :: "'a pt_buffer \<Rightarrow> 'a pt_buffer" where
  "pt_buffer_clear buffer = buffer\<lparr>pb_items := []\<rparr>"

definition pt_buffer_copy ::
  "(nat \<Rightarrow> bool) \<Rightarrow> 'a pt_buffer \<Rightarrow> 'a pt_buffer \<Rightarrow> 'a pt_buffer \<times> ft_err" where
  "pt_buffer_copy grants dest source =
     (let (dest1, reserve_error) = pt_buffer_reserve grants dest (length (pb_items source))
      in if reserve_error \<noteq> FT_ERR_SUCCESS then (dest1, reserve_error)
         else (dest1\<lparr>pb_items := pb_items source\<rparr>, FT_ERR_SUCCESS))"

definition pt_buffer_erase :: "'a pt_buffer \<Rightarrow> nat \<Rightarrow> 'a pt_buffer" where
  "pt_buffer_erase buffer index =
     (if index \<ge> length (pb_items buffer) then buffer
      else buffer\<lparr>pb_items := take index (pb_items buffer) @ drop (index + 1) (pb_items buffer)\<rparr>)"

text \<open>The loops that erase the first element with a property.\<close>

fun first_match :: "('a \<Rightarrow> bool) \<Rightarrow> 'a list \<Rightarrow> nat option" where
  "first_match P [] = None"
| "first_match P (x # xs) = (if P x then Some 0 else map_option Suc (first_match P xs))"

definition erase_first :: "('a \<Rightarrow> bool) \<Rightarrow> 'a pt_buffer \<Rightarrow> 'a pt_buffer" where
  "erase_first P buffer =
     (case first_match P (pb_items buffer) of None \<Rightarrow> buffer | Some i \<Rightarrow> pt_buffer_erase buffer i)"

subsection \<open>State\<close>

record thread_lock_info =
  ti_thread :: nat
  ti_generation :: nat
  ti_owned :: "nat pt_buffer"
  ti_waiting :: nat
  ti_wait_started :: int

record mutex_owner_info =
  mo_mutex :: nat
  mo_thread :: nat

record local_lock_state =
  ls_initialised :: bool
  ls_published :: bool
  ls_required :: bool
  ls_owned :: "nat pt_buffer"
  ls_waiting :: nat
  ls_wait_started :: int
  ls_armed :: bool
  ls_generation :: nat

record lock_tracking =
  lt_threads :: "thread_lock_info pt_buffer"
  lt_owners :: "mutex_owner_info pt_buffer"
  lt_cache :: "nat pt_buffer"
  lt_next_generation :: nat
  lt_local :: "nat \<Rightarrow> local_lock_state"

text \<open>
  The allocations of the registry mutex, of the two tables and of the buffer cache, made once;
  the allocation of a buffer with a capacity; and the clock.
\<close>

record tracking_env =
  te_registry :: bool
  te_infos :: bool
  te_owner_table :: bool
  te_buffer_cache :: bool
  te_grants :: "nat \<Rightarrow> bool"
  te_now :: int

definition local_lock_state_initial :: local_lock_state where
  "local_lock_state_initial = \<lparr>ls_initialised = False, ls_published = False, ls_required = False,
     ls_owned = pt_buffer_init, ls_waiting = 0, ls_wait_started = 0, ls_armed = False,
     ls_generation = 0\<rparr>"

definition lock_tracking_initial :: lock_tracking where
  "lock_tracking_initial = \<lparr>lt_threads = pt_buffer_init, lt_owners = pt_buffer_init,
     lt_cache = pt_buffer_init, lt_next_generation = 1, lt_local = (\<lambda>t. local_lock_state_initial)\<rparr>"

definition update_local ::
  "nat \<Rightarrow> (local_lock_state \<Rightarrow> local_lock_state) \<Rightarrow> lock_tracking \<Rightarrow> lock_tracking" where
  "update_local self f w = w\<lparr>lt_local := (lt_local w)(self := f (lt_local w self))\<rparr>"

definition update_info ::
  "nat \<Rightarrow> (thread_lock_info \<Rightarrow> thread_lock_info) \<Rightarrow> lock_tracking \<Rightarrow> lock_tracking" where
  "update_info i f w =
     w\<lparr>lt_threads := (lt_threads w)\<lparr>pb_items :=
         (pb_items (lt_threads w))[i := f (pb_items (lt_threads w) ! i)]\<rparr>\<rparr>"

subsection \<open>Thread-local state\<close>

definition pt_lock_tracking_arm_thread_exit_cleanup :: "nat \<Rightarrow> lock_tracking \<Rightarrow> lock_tracking" where
  "pt_lock_tracking_arm_thread_exit_cleanup self w =
     (if ls_armed (lt_local w self) then w
      else update_local self (\<lambda>l. l\<lparr>ls_armed := True, ls_generation := lt_next_generation w\<rparr>)
             (w\<lparr>lt_next_generation := lt_next_generation w + 1\<rparr>))"

definition pt_lock_tracking_get_local_state :: "nat \<Rightarrow> lock_tracking \<Rightarrow> lock_tracking" where
  "pt_lock_tracking_get_local_state self w =
     (if ls_initialised (lt_local w self) then w
      else update_local self (\<lambda>l. l\<lparr>ls_initialised := True\<rparr>)
             (pt_lock_tracking_arm_thread_exit_cleanup self
               (update_local self (\<lambda>l. l\<lparr>ls_owned := pt_buffer_init, ls_waiting := 0,
                  ls_wait_started := 0, ls_published := False, ls_required := False\<rparr>) w)))"

definition pt_lock_tracking_reset_local_state :: "nat \<Rightarrow> lock_tracking \<Rightarrow> lock_tracking" where
  "pt_lock_tracking_reset_local_state self w =
     update_local self (\<lambda>l. l\<lparr>ls_owned := pt_buffer_init, ls_initialised := False,
       ls_published := False, ls_required := False, ls_waiting := 0, ls_wait_started := 0\<rparr>) w"

subsection \<open>The table of owners\<close>

definition pt_lock_tracking_lookup_mutex_owner ::
  "tracking_env \<Rightarrow> lock_tracking \<Rightarrow> nat \<Rightarrow> mutex_owner_info option \<times> ft_err" where
  "pt_lock_tracking_lookup_mutex_owner env w mutex_pointer =
     (if \<not> te_owner_table env then (None, FT_ERR_INVALID_STATE)
      else (find (\<lambda>o'. mo_mutex o' = mutex_pointer) (pb_items (lt_owners w)), FT_ERR_SUCCESS))"

fun replace_owner :: "nat \<Rightarrow> nat \<Rightarrow> mutex_owner_info list \<Rightarrow> mutex_owner_info list" where
  "replace_owner mutex_pointer owner_thread [] = []"
| "replace_owner mutex_pointer owner_thread (o' # os) =
     (if mo_mutex o' = mutex_pointer then o'\<lparr>mo_thread := owner_thread\<rparr> # os
      else o' # replace_owner mutex_pointer owner_thread os)"

definition pt_lock_tracking_set_mutex_owner ::
  "tracking_env \<Rightarrow> lock_tracking \<Rightarrow> nat \<Rightarrow> nat \<Rightarrow> lock_tracking \<times> ft_err" where
  "pt_lock_tracking_set_mutex_owner env w mutex_pointer owner_thread =
     (let (owner_info, error_code) = pt_lock_tracking_lookup_mutex_owner env w mutex_pointer
      in if error_code \<noteq> FT_ERR_SUCCESS then (w, error_code)
         else if owner_info \<noteq> None
         then (w\<lparr>lt_owners := (lt_owners w)\<lparr>pb_items :=
                 replace_owner mutex_pointer owner_thread (pb_items (lt_owners w))\<rparr>\<rparr>,
               FT_ERR_SUCCESS)
         else let (owners, push_error) = pt_buffer_push (te_grants env) (lt_owners w)
                    \<lparr>mo_mutex = mutex_pointer, mo_thread = owner_thread\<rparr>
              in (w\<lparr>lt_owners := owners\<rparr>, push_error))"

definition pt_lock_tracking_clear_mutex_owner ::
  "tracking_env \<Rightarrow> lock_tracking \<Rightarrow> nat \<Rightarrow> lock_tracking" where
  "pt_lock_tracking_clear_mutex_owner env w mutex_pointer =
     (if \<not> te_owner_table env then w
      else w\<lparr>lt_owners := erase_first (\<lambda>o'. mo_mutex o' = mutex_pointer) (lt_owners w)\<rparr>)"

definition pt_lock_tracking_clear_mutex_owners_for_thread ::
  "tracking_env \<Rightarrow> lock_tracking \<Rightarrow> nat \<Rightarrow> lock_tracking" where
  "pt_lock_tracking_clear_mutex_owners_for_thread env w thread_identifier =
     (if \<not> te_owner_table env then w
      else w\<lparr>lt_owners := (lt_owners w)\<lparr>pb_items :=
             filter (\<lambda>o'. mo_thread o' \<noteq> thread_identifier) (pb_items (lt_owners w))\<rparr>\<rparr>)"

subsection \<open>The table of threads\<close>

text \<open>
  The search of \<open>find_thread_info\<close>: entries of an earlier thread with the same identifier are
  erased on the way. The result is the position of the entry, the entries that stay, and
  whether one was erased.
\<close>

fun find_info_loop ::
  "nat \<Rightarrow> nat \<Rightarrow> thread_lock_info list \<Rightarrow> nat option \<times> thread_lock_info list \<times> bool" where
  "find_info_loop generation t [] = (None, [], False)"
| "find_info_loop generation t (info # infos) =
     (if ti_thread info = t \<and> ti_generation info = generation then (Some 0, info # infos, False)
      else let (i, rest, erased) = find_info_loop generation t infos
           in if ti_thread info = t then (i, rest, True)
              else (map_option Suc i, info # rest, erased))"

definition search_infos ::
  "tracking_env \<Rightarrow> nat \<Rightarrow> nat \<Rightarrow> lock_tracking \<Rightarrow> lock_tracking \<times> nat option" where
  "search_infos env self thread_identifier w =
     (let (index, infos, erased) =
            find_info_loop (ls_generation (lt_local w self)) thread_identifier
              (pb_items (lt_threads w));
          w1 = w\<lparr>lt_threads := (lt_threads w)\<lparr>pb_items := infos\<rparr>\<rparr>
      in (if erased then pt_lock_tracking_clear_mutex_owners_for_thread env w1 thread_identifier
          else w1, index))"

definition add_thread_info ::
  "tracking_env \<Rightarrow> nat \<Rightarrow> nat \<Rightarrow> lock_tracking \<Rightarrow> lock_tracking \<times> ft_err \<times> nat option" where
  "add_thread_info env self thread_identifier w =
     (if \<not> te_buffer_cache env then (w, FT_ERR_NO_MEMORY, None)
      else
        let owned = pt_buffer_clear (lt_cache w);
            new_info = \<lparr>ti_thread = thread_identifier,
              ti_generation = ls_generation (lt_local w self), ti_owned = owned,
              ti_waiting = 0, ti_wait_started = 0\<rparr>;
            (threads, push_error) = pt_buffer_push (te_grants env) (lt_threads w) new_info
        in if push_error \<noteq> FT_ERR_SUCCESS
           then (w\<lparr>lt_threads := threads, lt_cache := owned\<rparr>, push_error, None)
           else (w\<lparr>lt_threads := threads, lt_cache := pt_buffer_init\<rparr>, FT_ERR_SUCCESS,
                 Some (length (pb_items threads) - 1)))"

definition find_thread_info ::
  "tracking_env \<Rightarrow> nat \<Rightarrow> nat \<Rightarrow> lock_tracking \<Rightarrow> lock_tracking \<times> ft_err \<times> nat option" where
  "find_thread_info env self thread_identifier w =
     (if \<not> te_infos env then (w, FT_ERR_INVALID_STATE, None)
      else let (w1, index) = search_infos env self thread_identifier w
           in (case index of
               Some i \<Rightarrow> (w1, FT_ERR_SUCCESS, Some i)
             | None \<Rightarrow> add_thread_info env self thread_identifier w1))"

definition lookup_thread_info ::
  "tracking_env \<Rightarrow> lock_tracking \<Rightarrow> nat \<Rightarrow> thread_lock_info option \<times> ft_err" where
  "lookup_thread_info env w thread_identifier =
     (if \<not> te_infos env then (None, FT_ERR_INVALID_STATE)
      else (find (\<lambda>i. ti_thread i = thread_identifier) (pb_items (lt_threads w)), FT_ERR_SUCCESS))"

fun vector_contains :: "nat list \<Rightarrow> nat \<Rightarrow> bool" where
  "vector_contains [] x = False"
| "vector_contains (y # ys) x = (y = x \<or> vector_contains ys x)"

lemma vector_contains_iff [simp]: "vector_contains xs x \<longleftrightarrow> x \<in> set xs"
  by (induction xs) auto

subsection \<open>Cycle detection\<close>

lemma find_mem: "find P xs = Some x \<Longrightarrow> x \<in> set xs \<and> P x"
  by (induction xs) (auto split: if_splits)

text \<open>The entry of the thread that owns a mutex, when that thread is another one and waits.\<close>

definition waiting_owner ::
  "tracking_env \<Rightarrow> lock_tracking \<Rightarrow> thread_lock_info \<Rightarrow> nat \<Rightarrow> ft_err \<times> thread_lock_info option" where
  "waiting_owner env w origin requested_mutex =
     (let (owner_info, error_code) = pt_lock_tracking_lookup_mutex_owner env w requested_mutex
      in if error_code \<noteq> FT_ERR_SUCCESS then (error_code, None)
         else (case owner_info of
             None \<Rightarrow> (FT_ERR_SUCCESS, None)
           | Some owner \<Rightarrow>
               if mo_thread owner = ti_thread origin then (FT_ERR_SUCCESS, None)
               else let (found, info_error) = lookup_thread_info env w (mo_thread owner)
                    in if info_error \<noteq> FT_ERR_SUCCESS then (info_error, None)
                       else (case found of
                           None \<Rightarrow> (FT_ERR_SUCCESS, None)
                         | Some info \<Rightarrow>
                             if ti_waiting info = 0 then (FT_ERR_SUCCESS, None)
                             else (FT_ERR_SUCCESS, Some info))))"

lemma waiting_owner_owned:
  assumes "waiting_owner env w origin m = (e, Some info)"
  shows "m \<in> mo_mutex ` set (pb_items (lt_owners w))"
proof -
  obtain owner where "find (\<lambda>o'. mo_mutex o' = m) (pb_items (lt_owners w)) = Some owner"
    using assms by (auto simp: waiting_owner_def pt_lock_tracking_lookup_mutex_owner_def
      split: if_splits option.splits)
  then show ?thesis using find_mem by fastforce
qed

lemma push_items:
  "pt_buffer_push grants b x = (b1, 0) \<Longrightarrow> pb_items b1 = pb_items b @ [x]"
  by (auto simp: pt_buffer_push_def pt_buffer_reserve_def Let_def split: if_splits prod.splits)

lemma visited_decreases:
  assumes "waiting_owner env w origin m = (e, Some info)" "m \<notin> set (pb_items vm)"
    "pt_buffer_push grants vm m = (vm1, 0)"
  shows "card (mo_mutex ` set (pb_items (lt_owners w)) - set (pb_items vm1))
    < card (mo_mutex ` set (pb_items (lt_owners w)) - set (pb_items vm))"
  unfolding push_items [OF assms(3)] using waiting_owner_owned [OF assms(1)] assms(2)
  by (intro psubset_card_mono) auto

text \<open>
  \<open>detect_cycle\<close> follows the owner of the requested mutex and the mutex that owner waits for. It
  ends because a mutex is visited once and only an owned mutex is followed.
\<close>

function detect_cycle ::
  "tracking_env \<Rightarrow> lock_tracking \<Rightarrow> thread_lock_info \<Rightarrow> nat \<Rightarrow> nat pt_buffer \<Rightarrow> nat pt_buffer
     \<Rightarrow> ft_err \<times> bool" where
  "detect_cycle env w origin requested_mutex visited_mutexes visited_threads =
     (if vector_contains (pb_items visited_mutexes) requested_mutex then (FT_ERR_SUCCESS, False)
      else
        let (visited_mutexes1, push_error) =
              pt_buffer_push (te_grants env) visited_mutexes requested_mutex
        in if push_error \<noteq> FT_ERR_SUCCESS then (FT_ERR_NO_MEMORY, False)
           else (case waiting_owner env w origin requested_mutex of
               (error_code, None) \<Rightarrow> (error_code, False)
             | (error_code, Some info) \<Rightarrow>
                 if vector_contains (pb_items (ti_owned origin)) (ti_waiting info)
                 then (FT_ERR_SUCCESS, True)
                 else if vector_contains (pb_items visited_threads) (ti_thread info)
                 then (FT_ERR_SUCCESS, False)
                 else
                   let (visited_threads1, thread_error) =
                         pt_buffer_push (te_grants env) visited_threads (ti_thread info)
                   in if thread_error \<noteq> FT_ERR_SUCCESS then (FT_ERR_NO_MEMORY, False)
                      else detect_cycle env w origin (ti_waiting info)
                             visited_mutexes1 visited_threads1))"
  by pat_completeness auto

termination
  by (relation "measure (\<lambda>(env, w, origin, m, vm, vt).
        card (mo_mutex ` set (pb_items (lt_owners w)) - set (pb_items vm)))")
    (auto intro: visited_decreases [OF sym _ sym])

declare detect_cycle.simps [simp del]

subsection \<open>Notifications\<close>

fun publish_owners ::
  "tracking_env \<Rightarrow> lock_tracking \<Rightarrow> nat \<Rightarrow> nat list \<Rightarrow> lock_tracking \<times> ft_err" where
  "publish_owners env w t [] = (w, FT_ERR_SUCCESS)"
| "publish_owners env w t (m # ms) =
     (let (w1, owner_error) = pt_lock_tracking_set_mutex_owner env w m t
      in if owner_error \<noteq> FT_ERR_SUCCESS then (w1, owner_error) else publish_owners env w1 t ms)"

definition pt_lock_tracking_publish_local_state ::
  "tracking_env \<Rightarrow> lock_tracking \<Rightarrow> nat \<Rightarrow> local_lock_state \<Rightarrow> lock_tracking \<times> ft_err" where
  "pt_lock_tracking_publish_local_state env w i local_state =
     (let info = pb_items (lt_threads w) ! i;
          (owned, copy_error) = pt_buffer_copy (te_grants env) (ti_owned info) (ls_owned local_state);
          w1 = update_info i (\<lambda>info. info\<lparr>ti_owned := owned\<rparr>) w
      in if copy_error \<noteq> FT_ERR_SUCCESS then (w1, copy_error)
         else publish_owners env w1 (ti_thread info) (pb_items (ls_owned local_state)))"

text \<open>
  \<open>notify_wait\<close>: the caller's own state is published to the table, then the wait is recorded and
  the cycle search runs.
\<close>

definition wait_published ::
  "tracking_env \<Rightarrow> nat \<Rightarrow> nat \<Rightarrow> nat \<Rightarrow> nat \<Rightarrow> lock_tracking \<Rightarrow> lock_tracking \<times> ft_err" where
  "wait_published env self thread_identifier requested_mutex i w =
     (if thread_identifier = self
      then let w1 = pt_lock_tracking_get_local_state self w;
               (w2, publish_error) = pt_lock_tracking_publish_local_state env w1 i (lt_local w1 self)
           in if publish_error \<noteq> FT_ERR_SUCCESS then (w2, publish_error)
              else (update_local self (\<lambda>l. l\<lparr>ls_waiting := requested_mutex,
                      ls_wait_started := te_now env, ls_published := True\<rparr>) w2, FT_ERR_SUCCESS)
      else (w, FT_ERR_SUCCESS))"

definition wait_recorded :: "tracking_env \<Rightarrow> nat \<Rightarrow> thread_lock_info \<Rightarrow> thread_lock_info" where
  "wait_recorded env requested_mutex info =
     info\<lparr>ti_wait_started := (if ti_waiting info \<noteq> requested_mutex \<or> ti_wait_started info = 0
                             then te_now env else ti_wait_started info),
          ti_waiting := requested_mutex\<rparr>"

definition wait_checked ::
  "tracking_env \<Rightarrow> nat \<Rightarrow> nat \<Rightarrow> lock_tracking \<Rightarrow> lock_tracking \<times> ft_err" where
  "wait_checked env requested_mutex i w =
     (let w1 = update_info i (wait_recorded env requested_mutex) w;
          (detect_error, cycle_detected) =
            detect_cycle env w1 (pb_items (lt_threads w1) ! i) requested_mutex
              pt_buffer_init pt_buffer_init
      in (w1, if detect_error \<noteq> FT_ERR_SUCCESS then detect_error
              else if cycle_detected then FT_ERR_MUTEX_ALREADY_LOCKED else FT_ERR_SUCCESS))"

definition notify_wait ::
  "tracking_env \<Rightarrow> nat \<Rightarrow> nat \<Rightarrow> nat \<Rightarrow> lock_tracking \<Rightarrow> lock_tracking \<times> ft_err" where
  "notify_wait env self thread_identifier requested_mutex w =
     (let w0 = pt_lock_tracking_arm_thread_exit_cleanup self w
      in if \<not> te_registry env then (w0, FT_ERR_NO_MEMORY)
         else (case find_thread_info env self thread_identifier w0 of
             (w1, error_code, None) \<Rightarrow> (w1, error_code)
           | (w1, error_code, Some i) \<Rightarrow>
               let (w2, result_code) = wait_published env self thread_identifier requested_mutex i w1
               in if result_code \<noteq> FT_ERR_SUCCESS then (w2, result_code)
                  else wait_checked env requested_mutex i w2))"

text \<open>Adding a mutex to a list of owned mutexes unless it is there.\<close>

definition push_owned :: "tracking_env \<Rightarrow> nat pt_buffer \<Rightarrow> nat \<Rightarrow> nat pt_buffer \<times> ft_err" where
  "push_owned env owned mutex_pointer =
     (if vector_contains (pb_items owned) mutex_pointer then (owned, FT_ERR_SUCCESS)
      else pt_buffer_push (te_grants env) owned mutex_pointer)"

definition acquired_noted ::
  "tracking_env \<Rightarrow> nat \<Rightarrow> nat \<Rightarrow> lock_tracking \<Rightarrow> lock_tracking \<times> ft_err" where
  "acquired_noted env self mutex_pointer w =
     (let (owned, push_error) = push_owned env (ls_owned (lt_local w self)) mutex_pointer
      in (update_local self (\<lambda>l. l\<lparr>ls_owned := owned\<rparr>) w, push_error))"

definition acquired_registered ::
  "tracking_env \<Rightarrow> nat \<Rightarrow> nat \<Rightarrow> nat \<Rightarrow> nat \<Rightarrow> lock_tracking \<Rightarrow> lock_tracking \<times> ft_err" where
  "acquired_registered env self thread_identifier mutex_pointer i w =
     (let (owned, push_error) =
            push_owned env (ti_owned (pb_items (lt_threads w) ! i)) mutex_pointer;
          w1 = update_info i (\<lambda>info. info\<lparr>ti_owned := owned\<rparr>) w
      in if push_error \<noteq> FT_ERR_SUCCESS then (w1, push_error)
         else
           let (w2, owner_error) =
                 pt_lock_tracking_set_mutex_owner env w1 mutex_pointer thread_identifier
           in if owner_error \<noteq> FT_ERR_SUCCESS then (w2, owner_error)
              else
                let w3 = update_info i (\<lambda>info. info\<lparr>ti_waiting := 0, ti_wait_started := 0\<rparr>) w2
                in if thread_identifier \<noteq> self then (w3, FT_ERR_SUCCESS)
                   else acquired_noted env self mutex_pointer
                          (update_local self (\<lambda>l. l\<lparr>ls_waiting := 0, ls_wait_started := 0\<rparr>) w3))"

definition notify_acquired ::
  "tracking_env \<Rightarrow> nat \<Rightarrow> nat \<Rightarrow> nat \<Rightarrow> lock_tracking \<Rightarrow> lock_tracking \<times> ft_err" where
  "notify_acquired env self thread_identifier mutex_pointer w =
     (let w0 = pt_lock_tracking_get_local_state self (pt_lock_tracking_arm_thread_exit_cleanup self w);
          l = lt_local w0 self
      in if thread_identifier = self \<and> ls_waiting l = 0 \<and> \<not> ls_published l \<and> \<not> ls_required l
         then acquired_noted env self mutex_pointer w0
         else if \<not> te_registry env then (w0, FT_ERR_NO_MEMORY)
         else (case find_thread_info env self thread_identifier w0 of
             (w1, error_code, None) \<Rightarrow> (w1, error_code)
           | (w1, error_code, Some i) \<Rightarrow>
               acquired_registered env self thread_identifier mutex_pointer i w1))"

text \<open>\<open>notify_released\<close> on the caller's own state, and on the tables.\<close>

definition release_local :: "nat \<Rightarrow> local_lock_state \<Rightarrow> local_lock_state" where
  "release_local mutex_pointer l =
     l\<lparr>ls_owned := erase_first (\<lambda>m. m = mutex_pointer) (ls_owned l),
       ls_wait_started := (if ls_waiting l = mutex_pointer then 0 else ls_wait_started l),
       ls_waiting := (if ls_waiting l = mutex_pointer then 0 else ls_waiting l)\<rparr>"

definition released_registered ::
  "tracking_env \<Rightarrow> nat \<Rightarrow> nat \<Rightarrow> nat \<Rightarrow> nat \<Rightarrow> lock_tracking \<Rightarrow> lock_tracking" where
  "released_registered env self thread_identifier mutex_pointer i w =
     (let w1 = update_info i (\<lambda>info. info\<lparr>
                 ti_owned := erase_first (\<lambda>m. m = mutex_pointer) (ti_owned info)\<rparr>) w;
          w2 = pt_lock_tracking_clear_mutex_owner env w1 mutex_pointer;
          w3 = update_info i (\<lambda>info. if ti_waiting info = mutex_pointer
                 then info\<lparr>ti_waiting := 0, ti_wait_started := 0\<rparr> else info) w2;
          l = lt_local w3 self
      in if thread_identifier = self \<and> pb_items (ls_owned l) = [] \<and> ls_waiting l = 0
         then update_local self (\<lambda>l. l\<lparr>ls_published := False\<rparr>) w3 else w3)"

definition notify_released ::
  "tracking_env \<Rightarrow> nat \<Rightarrow> nat \<Rightarrow> nat \<Rightarrow> lock_tracking \<Rightarrow> lock_tracking \<times> ft_err" where
  "notify_released env self thread_identifier mutex_pointer w =
     (let w0 = pt_lock_tracking_arm_thread_exit_cleanup self w;
          w1 = (if thread_identifier = self
                then update_local self (release_local mutex_pointer)
                       (pt_lock_tracking_get_local_state self w0)
                else w0)
      in if thread_identifier = self \<and> \<not> ls_published (lt_local w1 self) then (w1, FT_ERR_SUCCESS)
         else if \<not> te_registry env then (w1, FT_ERR_NO_MEMORY)
         else (case find_thread_info env self thread_identifier w1 of
             (w2, error_code, None) \<Rightarrow> (w2, error_code)
           | (w2, error_code, Some i) \<Rightarrow>
               (released_registered env self thread_identifier mutex_pointer i w2, FT_ERR_SUCCESS)))"

definition notify_thread_enter ::
  "nat \<Rightarrow> nat \<Rightarrow> lock_tracking \<Rightarrow> lock_tracking \<times> ft_err" where
  "notify_thread_enter self thread_identifier w =
     (let w0 = pt_lock_tracking_get_local_state self (pt_lock_tracking_arm_thread_exit_cleanup self w)
      in (if thread_identifier = self then update_local self (\<lambda>l. l\<lparr>ls_required := True\<rparr>) w0 else w0,
          FT_ERR_SUCCESS))"

definition notify_thread_exit ::
  "tracking_env \<Rightarrow> nat \<Rightarrow> nat \<Rightarrow> lock_tracking \<Rightarrow> lock_tracking \<times> ft_err" where
  "notify_thread_exit env self thread_identifier w =
     (if \<not> te_registry env then (w, FT_ERR_NO_MEMORY)
      else
        let w1 = pt_lock_tracking_clear_mutex_owners_for_thread env w thread_identifier
        in if \<not> te_infos env then (w1, FT_ERR_INVALID_STATE)
           else
             let w2 = w1\<lparr>lt_threads := erase_first (\<lambda>i. ti_thread i = thread_identifier) (lt_threads w1)\<rparr>
             in (if thread_identifier = self then pt_lock_tracking_reset_local_state self w2 else w2,
                 FT_ERR_SUCCESS))"

subsection \<open>Queries\<close>

record lock_wait_snapshot =
  ws_mutex :: nat
  ws_owner :: nat
  ws_waiter :: nat
  ws_wait_started :: int

fun snapshot_loop ::
  "tracking_env \<Rightarrow> lock_tracking \<Rightarrow> thread_lock_info list \<Rightarrow> lock_wait_snapshot pt_buffer
     \<Rightarrow> lock_wait_snapshot pt_buffer \<times> ft_err" where
  "snapshot_loop env w [] snapshot = (snapshot, FT_ERR_SUCCESS)"
| "snapshot_loop env w (info # infos) snapshot =
     (if ti_waiting info \<noteq> 0
      then let (owner_info, error_code) = pt_lock_tracking_lookup_mutex_owner env w (ti_waiting info)
           in if error_code \<noteq> FT_ERR_SUCCESS then (snapshot, error_code)
              else let entry = \<lparr>ws_mutex = ti_waiting info,
                         ws_owner = (case owner_info of None \<Rightarrow> 0 | Some o' \<Rightarrow> mo_thread o'),
                         ws_waiter = ti_thread info, ws_wait_started = ti_wait_started info\<rparr>;
                       (snapshot1, push_error) = pt_buffer_push (te_grants env) snapshot entry
                   in if push_error \<noteq> FT_ERR_SUCCESS then (snapshot1, push_error)
                      else snapshot_loop env w infos snapshot1
      else snapshot_loop env w infos snapshot)"

definition snapshot_waiters ::
  "tracking_env \<Rightarrow> lock_tracking \<Rightarrow> lock_wait_snapshot pt_buffer
     \<Rightarrow> lock_wait_snapshot pt_buffer \<times> ft_err" where
  "snapshot_waiters env w snapshot =
     (if \<not> te_registry env then (pt_buffer_clear snapshot, FT_ERR_NO_MEMORY)
      else if \<not> te_infos env then (pt_buffer_clear snapshot, FT_ERR_INVALID_STATE)
      else snapshot_loop env w (pb_items (lt_threads w)) (pt_buffer_clear snapshot))"

record thread_lock_report =
  tr_thread :: nat
  tr_owned :: "nat pt_buffer"
  tr_waiting :: nat
  tr_wait_started :: int

definition get_thread_state ::
  "tracking_env \<Rightarrow> nat \<Rightarrow> lock_tracking \<Rightarrow> nat \<Rightarrow> thread_lock_report
     \<Rightarrow> thread_lock_report \<times> ft_err" where
  "get_thread_state env self w thread_identifier state =
     (if \<not> te_registry env then (state, FT_ERR_NO_MEMORY)
      else
        let state0 = \<lparr>tr_thread = thread_identifier, tr_owned = pt_buffer_clear (tr_owned state),
                       tr_waiting = 0, tr_wait_started = 0\<rparr>;
            l = lt_local w self
        in if thread_identifier = self \<and> ls_initialised l
           then let (owned, e) = pt_buffer_copy (te_grants env) (tr_owned state0) (ls_owned l)
                in (state0\<lparr>tr_owned := owned, tr_waiting := ls_waiting l,
                      tr_wait_started := ls_wait_started l\<rparr>, e)
           else case lookup_thread_info env w thread_identifier of
             (None, error_code) \<Rightarrow> (state0, error_code)
           | (Some info, error_code) \<Rightarrow>
               let (owned, e) = pt_buffer_copy (te_grants env) (tr_owned state0) (ti_owned info)
               in (state0\<lparr>tr_owned := owned, tr_waiting := ti_waiting info,
                     tr_wait_started := ti_wait_started info\<rparr>, e))"

definition get_owned_mutexes ::
  "tracking_env \<Rightarrow> nat \<Rightarrow> lock_tracking \<Rightarrow> nat \<Rightarrow> nat pt_buffer \<times> ft_err" where
  "get_owned_mutexes env self w thread_identifier =
     (if thread_identifier = self \<and> ls_initialised (lt_local w self)
      then let (owned, copy_error) =
                 pt_buffer_copy (te_grants env) pt_buffer_init (ls_owned (lt_local w self))
           in (if copy_error \<noteq> FT_ERR_SUCCESS then pt_buffer_init else owned, copy_error)
      else if \<not> te_registry env then (pt_buffer_init, FT_ERR_NO_MEMORY)
      else case lookup_thread_info env w thread_identifier of
        (None, error_code) \<Rightarrow> (pt_buffer_init, error_code)
      | (Some info, error_code) \<Rightarrow>
          let (owned, copy_error) = pt_buffer_copy (te_grants env) pt_buffer_init (ti_owned info)
          in (if copy_error \<noteq> FT_ERR_SUCCESS then pt_buffer_init else owned, copy_error))"

end
