(* ===== verification/Lock_System.thy ===== *)
theory Lock_System
  imports Lock_Tracking
begin

text \<open>
  \<open>pt_mutex\<close> and \<open>pt_recursive_mutex\<close> (\<^verbatim>\<open>src/Modules/PThread/pthread_mutex.cpp\<close>,
  \<^verbatim>\<open>pthread_recursive_mutex.cpp\<close> and the files of their \<open>lock\<close>, \<open>try_lock\<close> and \<open>unlock\<close>), and a
  system of threads that call them. \<open>lock\<close> and \<open>unlock\<close> change the native mutex and notify
  the lock tracking in separate moments, and other threads run in between, so each call is
  two steps: the part up to the notification or the blocking native call, and the rest. The
  native mutex is assumed to work: \<open>lock\<close> of the standard library returns once the mutex is free.
\<close>

subsection \<open>Mutexes\<close>

text \<open>
  \<open>mx_native\<close> is the standard mutex behind the pointer, with whether it is locked. The depth is used
  by the recursive class only.
\<close>

record pt_mutex =
  mx_recursive :: bool
  mx_owner :: nat
  mx_lock :: bool
  mx_depth :: nat
  mx_native :: "bool option"
  mx_state :: class_state
  mx_valid :: bool

definition pt_mutex_constructor :: "bool \<Rightarrow> pt_mutex" where
  "pt_mutex_constructor is_recursive = \<lparr>mx_recursive = is_recursive, mx_owner = 0, mx_lock = False,
     mx_depth = 0, mx_native = None, mx_state = Uninitialised, mx_valid = False\<rparr>"

definition pt_mutex_initialize :: "bool \<Rightarrow> pt_mutex \<Rightarrow> (pt_mutex \<times> ft_err) option" where
  "pt_mutex_initialize granted mx =
     (if mx_state mx = Initialised then None
      else if granted
      then Some (mx\<lparr>mx_native := Some False, mx_state := Initialised, mx_valid := True\<rparr>, FT_ERR_SUCCESS)
      else Some (mx\<lparr>mx_native := None, mx_state := Destroyed, mx_valid := False\<rparr>, FT_ERR_NO_MEMORY))"

definition pt_mutex_destroy :: "pt_mutex \<Rightarrow> pt_mutex \<times> ft_err" where
  "pt_mutex_destroy mx =
     (if mx_state mx \<noteq> Initialised \<or> mx_native mx = None
      then (mx\<lparr>mx_state := Destroyed\<rparr>, FT_ERR_SUCCESS)
      else if mx_lock mx then (mx, FT_ERR_THREAD_BUSY)
      else (mx\<lparr>mx_native := None, mx_state := Destroyed, mx_valid := False, mx_lock := False,
              mx_owner := 0\<rparr>, FT_ERR_SUCCESS))"

definition pt_recursive_mutex_destroy :: "pt_mutex \<Rightarrow> (pt_mutex \<times> ft_err) option" where
  "pt_recursive_mutex_destroy mx =
     (if mx_state mx \<noteq> Initialised then Some (mx, FT_ERR_SUCCESS)
      else if mx_native mx = None then None
      else if mx_lock mx \<or> mx_depth mx \<noteq> 0 then Some (mx, FT_ERR_THREAD_BUSY)
      else Some (mx\<lparr>mx_native := None, mx_state := Destroyed, mx_valid := False, mx_lock := False,
                   mx_owner := 0, mx_depth := 0\<rparr>, FT_ERR_SUCCESS))"

text \<open>\<^term>\<open>None\<close> where the lifecycle check aborts.\<close>

definition ensure_native_mutex :: "pt_mutex \<Rightarrow> bool option" where
  "ensure_native_mutex mx = (if mx_state mx \<noteq> Initialised then None else mx_native mx)"

text \<open>The assignments after the native mutex was locked, and those that undo them.\<close>

definition take_native :: "nat \<Rightarrow> pt_mutex \<Rightarrow> pt_mutex" where
  "take_native thread_id mx =
     mx\<lparr>mx_native := Some True, mx_owner := thread_id, mx_lock := True,
        mx_depth := (if mx_recursive mx then 1 else mx_depth mx)\<rparr>"

definition free_native :: "pt_mutex \<Rightarrow> pt_mutex" where
  "free_native mx =
     mx\<lparr>mx_lock := False, mx_owner := 0, mx_native := Some False,
        mx_depth := (if mx_recursive mx then 0 else mx_depth mx)\<rparr>"

datatype lock_outcome = Lock_returns ft_err | Lock_taken | Lock_must_wait

definition lock_attempt :: "nat \<Rightarrow> pt_mutex \<Rightarrow> (pt_mutex \<times> lock_outcome) option" where
  "lock_attempt thread_id mx =
     (case ensure_native_mutex mx of
        None \<Rightarrow> None
      | Some locked \<Rightarrow>
          if mx_lock mx \<and> mx_owner mx = thread_id
          then Some (if mx_recursive mx
                     then (mx\<lparr>mx_depth := mx_depth mx + 1\<rparr>, Lock_returns FT_ERR_SUCCESS)
                     else (mx, Lock_returns FT_ERR_MUTEX_ALREADY_LOCKED))
          else if \<not> mx_lock mx \<and> \<not> locked then Some (take_native thread_id mx, Lock_taken)
          else Some (mx, Lock_must_wait))"

text \<open>\<open>try_lock\<close>: two attempts on the native mutex, with nothing in between.\<close>

definition try_lock_attempt :: "nat \<Rightarrow> pt_mutex \<Rightarrow> (pt_mutex \<times> lock_outcome) option" where
  "try_lock_attempt thread_id mx =
     (case ensure_native_mutex mx of
        None \<Rightarrow> None
      | Some locked \<Rightarrow>
          if mx_lock mx \<and> mx_owner mx = thread_id
          then Some (if mx_recursive mx
                     then (mx\<lparr>mx_depth := mx_depth mx + 1\<rparr>, Lock_returns FT_ERR_SUCCESS)
                     else (mx, Lock_returns FT_ERR_MUTEX_ALREADY_LOCKED))
          else if \<not> locked then Some (take_native thread_id mx, Lock_taken)
          else Some (mx, Lock_returns FT_ERR_MUTEX_ALREADY_LOCKED))"

text \<open>\<open>unlock\<close> up to its notification, with the code when it returns early.\<close>

definition unlock_native :: "nat \<Rightarrow> pt_mutex \<Rightarrow> (pt_mutex \<times> ft_err option) option" where
  "unlock_native thread_id mx =
     (case ensure_native_mutex mx of
        None \<Rightarrow> None
      | Some locked \<Rightarrow>
          if \<not> mx_lock mx then Some (mx, Some FT_ERR_INVALID_STATE)
          else if mx_owner mx \<noteq> thread_id then Some (mx, Some FT_ERR_INVALID_ARGUMENT)
          else if mx_recursive mx \<and> mx_depth mx > 1
          then Some (mx\<lparr>mx_depth := mx_depth mx - 1\<rparr>, Some FT_ERR_SUCCESS)
          else Some (free_native mx, None))"

definition is_owned_by_thread ::
  "tracking_env \<Rightarrow> nat \<Rightarrow> lock_tracking \<Rightarrow> nat \<Rightarrow> pt_mutex \<Rightarrow> nat \<Rightarrow> bool option" where
  "is_owned_by_thread env self w mutex_handle mx thread_id =
     (if mx_state mx \<noteq> Initialised then None
      else if \<not> mx_lock mx then Some False
      else if mx_owner mx \<noteq> 0 then Some (mx_owner mx = thread_id)
      else let (owned, tracking_error) = get_owned_mutexes env self w thread_id
           in Some (tracking_error = FT_ERR_SUCCESS \<and> vector_contains (pb_items owned) mutex_handle))"

subsection \<open>Threads\<close>

text \<open>
  Where a thread is: outside the operations, between taking a native mutex and its
  notification, in the blocking call, between freeing a native mutex and its notification
  (with the code the call will return), or at its end.
\<close>

datatype thread_phase =
    Running
  | Taken nat
  | Blocked nat
  | Freed nat ft_err
  | Ended

record lock_system =
  sy_tracking :: lock_tracking
  sy_mutex :: "nat \<Rightarrow> pt_mutex"
  sy_phase :: "nat \<Rightarrow> thread_phase"

datatype lock_event =
    Enter nat
  | Lock nat nat
  | Try_lock nat nat
  | Wake nat
  | Confirm_taken nat
  | Unlock nat nat
  | Confirm_freed nat
  | Exit nat
  | Join nat nat

definition set_phase :: "nat \<Rightarrow> thread_phase \<Rightarrow> lock_system \<Rightarrow> lock_system" where
  "set_phase t ph s = s\<lparr>sy_phase := (sy_phase s)(t := ph)\<rparr>"

definition set_mutex :: "nat \<Rightarrow> pt_mutex \<Rightarrow> lock_system \<Rightarrow> lock_system" where
  "set_mutex m mx s = s\<lparr>sy_mutex := (sy_mutex s)(m := mx)\<rparr>"

definition set_tracking :: "lock_tracking \<Rightarrow> lock_system \<Rightarrow> lock_system" where
  "set_tracking w s = s\<lparr>sy_tracking := w\<rparr>"

text \<open>What a thread does after an attempt to take a mutex.\<close>

definition after_attempt ::
  "tracking_env \<Rightarrow> nat \<Rightarrow> nat \<Rightarrow> lock_system \<Rightarrow> pt_mutex \<times> lock_outcome
     \<Rightarrow> lock_system \<times> ft_err option" where
  "after_attempt env t m s attempt =
     (case attempt of
        (mx, Lock_returns e) \<Rightarrow> (set_mutex m mx s, Some e)
      | (mx, Lock_taken) \<Rightarrow> (set_phase t (Taken m) (set_mutex m mx s), None)
      | (mx, Lock_must_wait) \<Rightarrow>
          let (w, wait_result) = notify_wait env t t m (sy_tracking s)
          in if wait_result \<noteq> FT_ERR_SUCCESS then (set_tracking w s, Some wait_result)
             else (set_phase t (Blocked m) (set_tracking w s), None))"

text \<open>
  A step of the system, with the code that a call returns in it. \<^term>\<open>None\<close> when the thread
  cannot make the step: it is elsewhere, or the mutex it waits for is not free.
\<close>

fun lock_step :: "tracking_env \<Rightarrow> lock_system \<Rightarrow> lock_event \<Rightarrow> (lock_system \<times> ft_err option) option" where
  "lock_step env s (Enter t) =
     (if t \<noteq> 0 \<and> sy_phase s t = Running
      then Some (set_tracking (fst (notify_thread_enter t t (sy_tracking s))) s, None) else None)"
| "lock_step env s (Lock t m) =
     (if t \<noteq> 0 \<and> m \<noteq> 0 \<and> sy_phase s t = Running
      then map_option (after_attempt env t m s) (lock_attempt t (sy_mutex s m)) else None)"
| "lock_step env s (Try_lock t m) =
     (if t \<noteq> 0 \<and> m \<noteq> 0 \<and> sy_phase s t = Running
      then map_option (after_attempt env t m s) (try_lock_attempt t (sy_mutex s m)) else None)"
| "lock_step env s (Wake t) =
     (case sy_phase s t of
        Blocked m \<Rightarrow>
          if mx_native (sy_mutex s m) = Some False
          then Some (set_phase t (Taken m) (set_mutex m (take_native t (sy_mutex s m)) s), None)
          else None
      | _ \<Rightarrow> None)"
| "lock_step env s (Confirm_taken t) =
     (case sy_phase s t of
        Taken m \<Rightarrow>
          let (w, notify_error) = notify_acquired env t t m (sy_tracking s)
          in Some (if notify_error \<noteq> FT_ERR_SUCCESS
                   then (set_phase t (Freed m notify_error)
                           (set_mutex m (free_native (sy_mutex s m)) (set_tracking w s)), None)
                   else (set_phase t Running (set_tracking w s), Some FT_ERR_SUCCESS))
      | _ \<Rightarrow> None)"
| "lock_step env s (Unlock t m) =
     (if t \<noteq> 0 \<and> m \<noteq> 0 \<and> sy_phase s t = Running
      then map_option (\<lambda>(mx, result).
             case result of
               Some e \<Rightarrow> (set_mutex m mx s, Some e)
             | None \<Rightarrow> (set_phase t (Freed m FT_ERR_SUCCESS) (set_mutex m mx s), None))
             (unlock_native t (sy_mutex s m))
      else None)"
| "lock_step env s (Confirm_freed t) =
     (case sy_phase s t of
        Freed m result \<Rightarrow>
          Some (set_phase t Running
                  (set_tracking (fst (notify_released env t t m (sy_tracking s))) s), Some result)
      | _ \<Rightarrow> None)"
| "lock_step env s (Exit t) =
     (if t \<noteq> 0 \<and> sy_phase s t = Running
      then Some (set_phase t Ended
                   (set_tracking (fst (notify_thread_exit env t t (sy_tracking s))) s), None)
      else None)"
| "lock_step env s (Join t u) =
     (if t \<noteq> 0 \<and> sy_phase s t = Running \<and> sy_phase s u = Ended
      then let (w, tracking_error) = notify_thread_exit env t u (sy_tracking s)
           in Some (set_tracking w s, Some tracking_error)
      else None)"

definition mutex_ready :: "bool \<Rightarrow> pt_mutex" where
  "mutex_ready is_recursive =
     (pt_mutex_constructor is_recursive)\<lparr>mx_native := Some False, mx_state := Initialised, mx_valid := True\<rparr>"

definition lock_system_initial :: "(nat \<Rightarrow> bool) \<Rightarrow> lock_system" where
  "lock_system_initial kinds = \<lparr>sy_tracking = lock_tracking_initial,
     sy_mutex = (\<lambda>m. mutex_ready (kinds m)), sy_phase = (\<lambda>t. Running)\<rparr>"

fun lock_steps ::
  "tracking_env \<Rightarrow> lock_system \<Rightarrow> lock_event list \<Rightarrow> (lock_system \<times> ft_err option list) option" where
  "lock_steps env s [] = Some (s, [])"
| "lock_steps env s (ev # evs) =
     (case lock_step env s ev of
        None \<Rightarrow> None
      | Some (s1, r) \<Rightarrow> map_option (\<lambda>(s2, rs). (s2, r # rs)) (lock_steps env s1 evs))"

end
