(* ===== verification/Lock_Effects.thy ===== *)
theory Lock_Effects
  imports Lock_Tracking
begin

text \<open>
  What the operations of the lock tracking do. Its tables are read as two functions, the owner of
  a mutex and the entry of a thread, with the list of mutexes a thread has noted for itself;
  each notification is described by its effect on them, and the cycle search is
  shown to find exactly the circular waits of the tables.
\<close>

subsection \<open>Reading the tables\<close>

definition owner_of :: "lock_tracking \<Rightarrow> nat \<Rightarrow> nat option" where
  "owner_of w x = map_option mo_thread (find (\<lambda>o'. mo_mutex o' = x) (pb_items (lt_owners w)))"

definition info_of :: "lock_tracking \<Rightarrow> nat \<Rightarrow> thread_lock_info option" where
  "info_of w t = find (\<lambda>i. ti_thread i = t) (pb_items (lt_threads w))"

text \<open>The mutexes a thread has noted for itself.\<close>

definition noted :: "lock_tracking \<Rightarrow> nat \<Rightarrow> nat list" where
  "noted w t = (if ls_initialised (lt_local w t) then pb_items (ls_owned (lt_local w t)) else [])"

lemma info_of_thread: "info_of w t = Some i \<Longrightarrow> ti_thread i = t"
  by (auto simp: info_of_def dest: find_mem)

text \<open>
  An operation of thread \<open>u\<close> that may change the owners of the mutexes in \<open>A\<close> leaves everything
  else that is recorded for the other threads as it was.
\<close>

definition spares :: "nat \<Rightarrow> nat set \<Rightarrow> lock_tracking \<Rightarrow> lock_tracking \<Rightarrow> bool" where
  "spares u A w w1 \<longleftrightarrow>
     (\<forall>t. t \<noteq> u \<longrightarrow> lt_local w1 t = lt_local w t \<and> info_of w1 t = info_of w t)
     \<and> (\<forall>x t. owner_of w x = Some t \<and> t \<noteq> u \<and> x \<notin> A \<longrightarrow> owner_of w1 x = Some t)"

lemma spares_refl [simp, intro]: "spares u A w w"
  by (simp add: spares_def)

lemma spares_trans: "spares u A w w1 \<Longrightarrow> spares u A w1 w2 \<Longrightarrow> spares u A w w2"
  by (simp add: spares_def)

lemma spares_mono: "spares u A w w1 \<Longrightarrow> A \<subseteq> B \<Longrightarrow> spares u B w w1"
  by (auto simp: spares_def)

lemma spares_tables:
  "\<lbrakk>lt_threads w1 = lt_threads w; lt_owners w1 = lt_owners w;
    \<And>t. t \<noteq> u \<Longrightarrow> lt_local w1 t = lt_local w t\<rbrakk> \<Longrightarrow> spares u A w w1"
  by (simp add: spares_def owner_of_def info_of_def)

lemma update_local_simps [simp]:
  "lt_threads (update_local u f w) = lt_threads w" "lt_owners (update_local u f w) = lt_owners w"
  "lt_local (update_local u f w) t = (if t = u then f (lt_local w u) else lt_local w t)"
  by (simp_all add: update_local_def)

lemma arm_simps [simp]:
  "lt_threads (pt_lock_tracking_arm_thread_exit_cleanup u w) = lt_threads w"
  "lt_owners (pt_lock_tracking_arm_thread_exit_cleanup u w) = lt_owners w"
  "t \<noteq> u \<Longrightarrow> lt_local (pt_lock_tracking_arm_thread_exit_cleanup u w) t = lt_local w t"
  "ls_owned (lt_local (pt_lock_tracking_arm_thread_exit_cleanup u w) t) = ls_owned (lt_local w t)"
  "ls_initialised (lt_local (pt_lock_tracking_arm_thread_exit_cleanup u w) t)
    = ls_initialised (lt_local w t)"
  by (simp_all add: pt_lock_tracking_arm_thread_exit_cleanup_def)

lemma get_local_simps [simp]:
  "lt_threads (pt_lock_tracking_get_local_state u w) = lt_threads w"
  "lt_owners (pt_lock_tracking_get_local_state u w) = lt_owners w"
  "t \<noteq> u \<Longrightarrow> lt_local (pt_lock_tracking_get_local_state u w) t = lt_local w t"
  "ls_initialised (lt_local (pt_lock_tracking_get_local_state u w) u)"
  "pb_items (ls_owned (lt_local (pt_lock_tracking_get_local_state u w) u)) = noted w u"
  by (simp_all add: pt_lock_tracking_get_local_state_def noted_def pt_buffer_init_def)

lemma noted_simps [simp]:
  "noted (pt_lock_tracking_arm_thread_exit_cleanup u w) t = noted w t"
  "noted (pt_lock_tracking_get_local_state u w) t = noted w t"
  by (simp_all add: noted_def) (cases "t = u"; simp add: noted_def)

subsection \<open>Tables\<close>

lemma find_replace_owner:
  "map_option mo_thread (find (\<lambda>o'. mo_mutex o' = x) (replace_owner m t os)) =
     (if x = m \<and> find (\<lambda>o'. mo_mutex o' = m) os \<noteq> None then Some t
      else map_option mo_thread (find (\<lambda>o'. mo_mutex o' = x) os))"
  by (induction os) auto

lemma find_append: "find P (xs @ ys) = (case find P xs of None \<Rightarrow> find P ys | Some x \<Rightarrow> Some x)"
  by (induction xs) auto

lemma push_failed: "pt_buffer_push grants b x = (b1, e) \<Longrightarrow> e \<noteq> 0 \<Longrightarrow> pb_items b1 = pb_items b"
  by (auto simp: pt_buffer_push_def pt_buffer_reserve_def Let_def split: if_splits prod.splits)

lemma push_cases:
  assumes "pt_buffer_push grants b x = (b1, e)"
  shows "pb_items b1 = (if e = 0 then pb_items b @ [x] else pb_items b)"
  using assms push_items push_failed by (cases "e = 0") auto

lemma copy_items: "pt_buffer_copy grants d s = (d1, 0) \<Longrightarrow> pb_items d1 = pb_items s"
  by (auto simp: pt_buffer_copy_def pt_buffer_reserve_def Let_def split: if_splits prod.splits)

lemma set_mutex_owner_effect:
  assumes "pt_lock_tracking_set_mutex_owner env w m t = (w1, e)"
  shows "lt_threads w1 = lt_threads w" "lt_local w1 = lt_local w"
    "x \<noteq> m \<Longrightarrow> owner_of w1 x = owner_of w x" "e = 0 \<Longrightarrow> owner_of w1 m = Some t"
proof -
  have cases: "(lt_threads w1 = lt_threads w \<and> lt_local w1 = lt_local w)
    \<and> (\<forall>x. x \<noteq> m \<longrightarrow> owner_of w1 x = owner_of w x) \<and> (e = 0 \<longrightarrow> owner_of w1 m = Some t)"
  proof (cases "te_owner_table env \<and> find (\<lambda>o'. mo_mutex o' = m) (pb_items (lt_owners w)) \<noteq> None")
    case True
    then have "w1 = w\<lparr>lt_owners := (lt_owners w)\<lparr>pb_items := replace_owner m t (pb_items (lt_owners w))\<rparr>\<rparr>"
      using assms by (auto simp: pt_lock_tracking_set_mutex_owner_def pt_lock_tracking_lookup_mutex_owner_def)
    with True show ?thesis
      using find_replace_owner [of _ m t "pb_items (lt_owners w)"] by (simp add: owner_of_def)
  next
    case False
    with assms show ?thesis
      by (auto simp: pt_lock_tracking_set_mutex_owner_def pt_lock_tracking_lookup_mutex_owner_def
          owner_of_def find_append dest!: push_cases split: if_splits prod.splits option.splits)
  qed
  then show "lt_threads w1 = lt_threads w" "lt_local w1 = lt_local w"
    "x \<noteq> m \<Longrightarrow> owner_of w1 x = owner_of w x" "e = 0 \<Longrightarrow> owner_of w1 m = Some t" by auto
qed

lemma spares_set_mutex_owner:
  assumes "pt_lock_tracking_set_mutex_owner env w m t = (w1, e)"
  shows "spares u {m} w w1"
  using set_mutex_owner_effect [OF assms] by (simp add: spares_def info_of_def)

lemma first_match_find:
  "find P xs = (case first_match P xs of None \<Rightarrow> None | Some i \<Rightarrow> Some (xs ! i))"
  by (induction xs) (auto split: option.splits)

lemma erase_first_Cons:
  "pb_items (erase_first P b) =
     (case pb_items b of [] \<Rightarrow> [] | x # xs \<Rightarrow>
        if P x then xs else x # pb_items (erase_first P (b\<lparr>pb_items := xs\<rparr>)))"
  by (auto simp: erase_first_def pt_buffer_erase_def split: list.splits option.splits)

lemma find_erase_first:
  assumes "\<And>x. Q x \<Longrightarrow> \<not> P x"
  shows "find Q (pb_items (erase_first P b)) = find Q (pb_items b)"
proof (induction "pb_items b" arbitrary: b)
  case Nil
  then show ?case by (simp add: erase_first_Cons)
next
  case (Cons y ys)
  have "find Q (pb_items (erase_first P (b\<lparr>pb_items := ys\<rparr>))) = find Q ys"
    using Cons(1) [of "b\<lparr>pb_items := ys\<rparr>"] by simp
  with Cons(2) assms show ?case by (subst erase_first_Cons) (auto simp: Cons(2) [symmetric])
qed

lemma erase_first_remove1: "pb_items (erase_first (\<lambda>m. m = x) b) = remove1 x (pb_items b)"
proof (induction "pb_items b" arbitrary: b)
  case Nil
  then show ?case by (simp add: erase_first_Cons)
next
  case (Cons y ys)
  have "pb_items (erase_first (\<lambda>m. m = x) (b\<lparr>pb_items := ys\<rparr>)) = remove1 x ys"
    using Cons(1) [of "b\<lparr>pb_items := ys\<rparr>"] by simp
  then show ?case by (subst erase_first_Cons) (simp add: Cons(2) [symmetric])
qed

lemma clear_mutex_owner_effect [simp]:
  "lt_threads (pt_lock_tracking_clear_mutex_owner env w m) = lt_threads w"
  "lt_local (pt_lock_tracking_clear_mutex_owner env w m) = lt_local w"
  "x \<noteq> m \<Longrightarrow> owner_of (pt_lock_tracking_clear_mutex_owner env w m) x = owner_of w x"
  by (auto simp: pt_lock_tracking_clear_mutex_owner_def owner_of_def
      intro!: arg_cong [where f = "map_option mo_thread"] find_erase_first)

lemma find_filter: "find P xs = Some x \<Longrightarrow> Q x \<Longrightarrow> find P (filter Q xs) = Some x"
  by (induction xs) (auto split: if_splits)

lemma clear_for_thread_effect [simp]:
  "lt_threads (pt_lock_tracking_clear_mutex_owners_for_thread env w u) = lt_threads w"
  "lt_local (pt_lock_tracking_clear_mutex_owners_for_thread env w u) = lt_local w"
  by (simp_all add: pt_lock_tracking_clear_mutex_owners_for_thread_def)

lemma clear_for_thread_keeps:
  assumes "owner_of w x = Some t" "t \<noteq> u"
  shows "owner_of (pt_lock_tracking_clear_mutex_owners_for_thread env w u) x = Some t"
  using assms find_filter [of "\<lambda>o'. mo_mutex o' = x" _ _ "\<lambda>o'. mo_thread o' \<noteq> u"]
  by (auto simp: pt_lock_tracking_clear_mutex_owners_for_thread_def owner_of_def)

lemma spares_clear_for_thread: "spares u A w (pt_lock_tracking_clear_mutex_owners_for_thread env w u)"
  by (simp add: spares_def info_of_def clear_for_thread_keeps)

subsection \<open>Entries of threads\<close>

text \<open>Position \<open>i\<close> is the first entry of thread \<open>u\<close>.\<close>

definition info_at :: "lock_tracking \<Rightarrow> nat \<Rightarrow> nat \<Rightarrow> bool" where
  "info_at w i u \<longleftrightarrow> first_match (\<lambda>x. ti_thread x = u) (pb_items (lt_threads w)) = Some i"

lemma first_match_Some:
  "first_match P xs = Some i \<longleftrightarrow> i < length xs \<and> P (xs ! i) \<and> (\<forall>j<i. \<not> P (xs ! j))"
proof (induction xs arbitrary: i)
  case (Cons x xs)
  then show ?case by (cases i) (auto simp: All_less_Suc2)
qed simp

lemma first_match_append:
  "first_match P (xs @ ys) =
     (case first_match P xs of Some i \<Rightarrow> Some i
      | None \<Rightarrow> map_option (\<lambda>i. i + length xs) (first_match P ys))"
  by (induction xs) (auto split: option.splits simp: option.map_comp comp_def option.map_ident)

lemma info_atD:
  assumes "info_at w i u"
  shows "i < length (pb_items (lt_threads w))" "ti_thread (pb_items (lt_threads w) ! i) = u"
    "info_of w u = Some (pb_items (lt_threads w) ! i)"
  using assms by (simp_all add: info_at_def info_of_def first_match_find) (simp_all add: first_match_Some)

lemma find_list_update:
  assumes "\<not> P (xs ! i)" "\<not> P y"
  shows "find P (xs[i := y]) = find P xs"
  using assms by (induction xs arbitrary: i) (auto split: nat.splits)

lemma update_info_simps [simp]:
  "lt_owners (update_info i f w) = lt_owners w" "lt_local (update_info i f w) = lt_local w"
  "owner_of (update_info i f w) x = owner_of w x" "noted (update_info i f w) t = noted w t"
  by (simp_all add: update_info_def owner_of_def noted_def)

lemma update_info_effect:
  assumes "info_at w i u" "\<And>x. ti_thread (f x) = ti_thread x"
  shows "info_at (update_info i f w) i u"
    "pb_items (lt_threads (update_info i f w)) ! i = f (pb_items (lt_threads w) ! i)"
    "t \<noteq> u \<Longrightarrow> info_of (update_info i f w) t = info_of w t"
  using assms info_atD [OF assms(1)]
  by (auto simp: update_info_def info_at_def info_of_def first_match_Some nth_list_update
      intro!: find_list_update)

lemma spares_update_info:
  assumes "info_at w i u" "\<And>x. ti_thread (f x) = ti_thread x"
  shows "spares u A w (update_info i f w)"
  using update_info_effect(3) [OF assms] by (simp add: spares_def)

lemma find_info_loop_effect:
  assumes "find_info_loop g u xs = (idx, ys, erased)"
  shows "t \<noteq> u \<Longrightarrow> find (\<lambda>i. ti_thread i = t) ys = find (\<lambda>i. ti_thread i = t) xs"
    "first_match (\<lambda>i. ti_thread i = u) ys = idx"
  using assms by (induction xs arbitrary: idx ys erased) (auto split: if_splits prod.splits)

lemma search_infos_effect:
  assumes "search_infos env self u w = (w1, idx)"
  shows "spares u A w w1" "lt_local w1 = lt_local w"
    "first_match (\<lambda>i. ti_thread i = u) (pb_items (lt_threads w1)) = idx"
proof -
  obtain idx0 ys erased where loop:
    "find_info_loop (ls_generation (lt_local w self)) u (pb_items (lt_threads w)) = (idx0, ys, erased)"
    by (cases "find_info_loop (ls_generation (lt_local w self)) u (pb_items (lt_threads w))")
  define w0 where "w0 = w\<lparr>lt_threads := (lt_threads w)\<lparr>pb_items := ys\<rparr>\<rparr>"
  have w1: "w1 = (if erased then pt_lock_tracking_clear_mutex_owners_for_thread env w0 u else w0)"
    "idx = idx0"
    using assms unfolding search_infos_def loop Let_def prod.case w0_def [symmetric] by simp_all
  have "spares u A w w0"
    using find_info_loop_effect(1) [OF loop] by (simp add: spares_def w0_def info_of_def owner_of_def)
  then show "spares u A w w1" using spares_clear_for_thread spares_trans by (auto simp: w1)
  show "lt_local w1 = lt_local w" by (simp add: w1 w0_def)
  show "first_match (\<lambda>i. ti_thread i = u) (pb_items (lt_threads w1)) = idx"
    using find_info_loop_effect(2) [OF loop] by (simp add: w1) (simp add: w0_def)
qed

lemma add_thread_info_effect:
  assumes "add_thread_info env self u w = (w1, e, idx)"
    "first_match (\<lambda>i. ti_thread i = u) (pb_items (lt_threads w)) = None"
  shows "spares u A w w1" "lt_local w1 = lt_local w"
    "case idx of None \<Rightarrow> e \<noteq> 0 | Some i \<Rightarrow> info_at w1 i u"
  using assms
  by (auto simp: add_thread_info_def Let_def spares_def info_of_def owner_of_def find_append info_at_def
      first_match_append dest!: push_cases split: if_splits prod.splits option.splits)

lemma find_thread_info_effect:
  assumes "find_thread_info env self u w = (w1, e, idx)"
  shows "spares u A w w1" "lt_local w1 = lt_local w"
    "case idx of None \<Rightarrow> e \<noteq> 0 | Some i \<Rightarrow> info_at w1 i u"
proof -
  obtain w0 idx0 where search: "search_infos env self u w = (w0, idx0)"
    by (cases "search_infos env self u w")
  note se = search_infos_effect [OF search]
  have "spares u A w w1 \<and> lt_local w1 = lt_local w
    \<and> (case idx of None \<Rightarrow> e \<noteq> 0 | Some i \<Rightarrow> info_at w1 i u)"
  proof (cases "te_infos env \<and> idx0 = None")
    case True
    then have add: "add_thread_info env self u w0 = (w1, e, idx)"
      using assms search by (simp add: find_thread_info_def)
    show ?thesis
      using add_thread_info_effect [OF add] se True spares_trans [OF se(1)] by auto
  next
    case False
    show ?thesis
    proof (cases "te_infos env")
      case True
      show ?thesis
      proof (cases idx0)
        case (Some i)
        with True assms search have w1: "w1 = w0" "idx = Some i" by (simp_all add: find_thread_info_def)
        show ?thesis unfolding w1 option.case info_at_def using se Some by simp
      qed (use True False in simp)
    qed (use assms in \<open>auto simp: find_thread_info_def\<close>)
  qed
  then show "spares u A w w1" "lt_local w1 = lt_local w"
    "case idx of None \<Rightarrow> e \<noteq> 0 | Some i \<Rightarrow> info_at w1 i u" by auto
qed

subsection \<open>Notifications\<close>

lemma noted_update_local:
  "noted (update_local u f w) t =
     (if t = u then if ls_initialised (f (lt_local w u)) then pb_items (ls_owned (f (lt_local w u))) else []
      else noted w t)"
  by (simp add: noted_def)

lemma noted_cong: "lt_local w1 = lt_local w \<Longrightarrow> noted w1 = noted w"
  by (simp add: noted_def fun_eq_iff)

lemma spares_local:
  "spares u A w (update_local u f w)" "spares u A w (pt_lock_tracking_arm_thread_exit_cleanup u w)"
  "spares u A w (pt_lock_tracking_get_local_state u w)"
  by (rule spares_tables; simp)+

lemma info_at_cong: "lt_threads w1 = lt_threads w \<Longrightarrow> info_at w1 i u = info_at w i u"
  by (simp add: info_at_def)

lemma publish_owners_effect:
  assumes "publish_owners env w t ms = (w1, e)"
  shows "lt_threads w1 = lt_threads w" "lt_local w1 = lt_local w" "spares u (set ms) w w1"
    "e = 0 \<Longrightarrow> x \<in> set ms \<Longrightarrow> owner_of w1 x = Some t"
proof -
  have "lt_threads w1 = lt_threads w \<and> lt_local w1 = lt_local w \<and> spares u (set ms) w w1
    \<and> (e = 0 \<longrightarrow> (\<forall>x. x \<in> set ms \<longrightarrow> owner_of w1 x = Some t)
        \<and> (\<forall>x. owner_of w x = Some t \<longrightarrow> owner_of w1 x = Some t))"
    using assms
  proof (induction ms arbitrary: w)
    case (Cons m ms)
    obtain w2 e2 where set: "pt_lock_tracking_set_mutex_owner env w m t = (w2, e2)"
      by (cases "pt_lock_tracking_set_mutex_owner env w m t")
    note se = set_mutex_owner_effect [OF set]
    have sp: "spares u (set (m # ms)) w w2"
      using spares_mono [OF spares_set_mutex_owner [OF set]] by simp
    show ?case
    proof (cases "e2 = 0")
      case True
      with Cons.prems set have pub: "publish_owners env w2 t ms = (w1, e)" by simp
      note IH = Cons.IH [OF pub]
      have "spares u (set (m # ms)) w2 w1" using IH spares_mono [of u "set ms" w2 w1] by auto
      with IH se sp True show ?thesis using spares_trans [OF sp] by (auto, metis+)
    next
      case False
      with Cons.prems set se sp show ?thesis by auto
    qed
  qed auto
  then show "lt_threads w1 = lt_threads w" "lt_local w1 = lt_local w" "spares u (set ms) w w1"
    "e = 0 \<Longrightarrow> x \<in> set ms \<Longrightarrow> owner_of w1 x = Some t" by auto
qed

lemma publish_effect:
  assumes "pt_lock_tracking_publish_local_state env w i l = (w1, e)" "info_at w i u"
  shows "spares u (set (pb_items (ls_owned l))) w w1" "lt_local w1 = lt_local w" "info_at w1 i u"
    "e = 0 \<Longrightarrow> pb_items (ti_owned (pb_items (lt_threads w1) ! i)) = pb_items (ls_owned l)"
    "e = 0 \<Longrightarrow> x \<in> set (pb_items (ls_owned l)) \<Longrightarrow> owner_of w1 x = Some u"
proof -
  obtain owned ce where copy: "pt_buffer_copy (te_grants env)
      (ti_owned (pb_items (lt_threads w) ! i)) (ls_owned l) = (owned, ce)"
    by (cases "pt_buffer_copy (te_grants env) (ti_owned (pb_items (lt_threads w) ! i)) (ls_owned l)")
  define w2 where "w2 = update_info i (\<lambda>info. info\<lparr>ti_owned := owned\<rparr>) w"
  have w2: "info_at w2 i u" "pb_items (lt_threads w2) ! i = (pb_items (lt_threads w) ! i)\<lparr>ti_owned := owned\<rparr>"
    "spares u A w w2" "lt_local w2 = lt_local w" for A
    using update_info_effect [OF assms(2)] spares_update_info [OF assms(2)] by (simp_all add: w2_def)
  have eq: "(if ce \<noteq> 0 then (w2, ce) else publish_owners env w2 u (pb_items (ls_owned l))) = (w1, e)"
    using assms(1) unfolding pt_lock_tracking_publish_local_state_def Let_def copy prod.case
      w2_def [symmetric] info_atD(2) [OF assms(2)] by simp
  have "spares u (set (pb_items (ls_owned l))) w w1 \<and> lt_local w1 = lt_local w \<and> info_at w1 i u
    \<and> (e = 0 \<longrightarrow> pb_items (ti_owned (pb_items (lt_threads w1) ! i)) = pb_items (ls_owned l)
        \<and> (\<forall>x \<in> set (pb_items (ls_owned l)). owner_of w1 x = Some u))"
  proof (cases "ce = 0")
    case True
    with eq have pub: "publish_owners env w2 u (pb_items (ls_owned l)) = (w1, e)" by simp
    note pe = publish_owners_effect [OF pub]
    have "spares u (set (pb_items (ls_owned l))) w w1" using spares_trans [OF w2(3) pe(3)] .
    moreover have "info_at w1 i u" using w2(1) info_at_cong [OF pe(1)] by simp
    moreover have "pb_items owned = pb_items (ls_owned l)" using copy True copy_items by blast
    ultimately show ?thesis using pe w2(2,4) by simp
  next
    case False
    with eq have "w1 = w2" "e \<noteq> 0" by auto
    with w2 show ?thesis by simp
  qed
  then show "spares u (set (pb_items (ls_owned l))) w w1" "lt_local w1 = lt_local w" "info_at w1 i u"
    "e = 0 \<Longrightarrow> pb_items (ti_owned (pb_items (lt_threads w1) ! i)) = pb_items (ls_owned l)"
    "e = 0 \<Longrightarrow> x \<in> set (pb_items (ls_owned l)) \<Longrightarrow> owner_of w1 x = Some u" by auto
qed

lemma released_registered_effect:
  assumes "info_at w i u"
  shows "spares u {m} w (released_registered env u u m i w)"
    "noted (released_registered env u u m i w) u = noted w u"
proof -
  define w1 where "w1 = update_info i
    (\<lambda>info. info\<lparr>ti_owned := erase_first (\<lambda>m'. m' = m) (ti_owned info)\<rparr>) w"
  define w2 where "w2 = pt_lock_tracking_clear_mutex_owner env w1 m"
  define w3 where "w3 = update_info i (\<lambda>info. if ti_waiting info = m
    then info\<lparr>ti_waiting := 0, ti_wait_started := 0\<rparr> else info) w2"
  have at1: "info_at w1 i u" unfolding w1_def by (rule update_info_effect(1) [OF assms]) simp
  moreover have "lt_threads w2 = lt_threads w1" by (simp add: w2_def)
  ultimately have at2: "info_at w2 i u" using info_at_cong by blast
  have "spares u {m} w w1" unfolding w1_def by (rule spares_update_info [OF assms]) simp
  moreover have "spares u {m} w1 w2" by (simp add: spares_def w2_def info_of_def)
  moreover have "spares u {m} w2 w3" unfolding w3_def by (rule spares_update_info [OF at2]) simp
  ultimately have s3: "spares u {m} w w3" using spares_trans by blast
  have l3: "lt_local w3 = lt_local w" by (simp add: w3_def w2_def w1_def)
  have eq: "released_registered env u u m i w = (if pb_items (ls_owned (lt_local w3 u)) = []
      \<and> ls_waiting (lt_local w3 u) = 0 then update_local u (\<lambda>l. l\<lparr>ls_published := False\<rparr>) w3 else w3)"
    unfolding released_registered_def Let_def w1_def [symmetric] w2_def [symmetric] w3_def [symmetric]
    by simp
  show "spares u {m} w (released_registered env u u m i w)"
    using s3 spares_trans [OF s3 spares_local(1)] by (simp add: eq)
  show "noted (released_registered env u u m i w) u = noted w u"
    unfolding eq using l3 by (simp add: noted_def)
qed

lemma notify_released_effect:
  assumes "notify_released env u u m w = (w1, e)"
  shows "spares u {m} w w1" "noted w1 u = remove1 m (noted w u)"
proof -
  define w0 where "w0 = update_local u (release_local m)
    (pt_lock_tracking_get_local_state u (pt_lock_tracking_arm_thread_exit_cleanup u w))"
  have s0: "spares u {m} w w0"
    unfolding w0_def by (rule spares_tables) simp_all
  have n0: "noted w0 u = remove1 m (noted w u)"
    by (simp add: w0_def noted_update_local release_local_def erase_first_remove1)
  obtain w2 e2 idx where f: "find_thread_info env u u w0 = (w2, e2, idx)"
    by (cases "find_thread_info env u u w0")
  note fe = find_thread_info_effect [OF f]
  have s2: "spares u {m} w w2" using fe(1) s0 spares_trans by blast
  have n2: "noted w2 u = noted w0 u" using noted_cong [OF fe(2)] by simp
  have "(if \<not> ls_published (lt_local w0 u) then (w0, FT_ERR_SUCCESS)
      else if \<not> te_registry env then (w0, FT_ERR_NO_MEMORY)
      else case idx of None \<Rightarrow> (w2, e2) | Some i \<Rightarrow> (released_registered env u u m i w2, FT_ERR_SUCCESS))
    = (w1, e)"
    using assms unfolding notify_released_def Let_def simp_thms if_True w0_def [symmetric] f
    by (cases idx) (auto split: if_splits)
  then show "spares u {m} w w1" "noted w1 u = remove1 m (noted w u)"
    using s0 n0 s2 n2 fe(3) released_registered_effect [where w = w2 and u = u and m = m and env = env] spares_trans [OF s2]
    by (auto split: if_splits option.splits)
qed

lemma push_owned_cases:
  assumes "push_owned env b m = (b1, e)"
  shows "pb_items b1 = (if e = 0 then (if m \<in> set (pb_items b) then pb_items b else pb_items b @ [m]) else pb_items b)"
  using assms push_cases [of "te_grants env" b m b1 e]
  by (auto simp: push_owned_def split: if_splits)

lemma acquired_noted_effect:
  assumes "acquired_noted env u m w = (w1, e)" "ls_initialised (lt_local w u)"
  shows "spares u A w w1"
    "noted w1 u = (if e = 0 \<and> m \<notin> set (noted w u) then noted w u @ [m] else noted w u)"
proof -
  obtain owned where push: "push_owned env (ls_owned (lt_local w u)) m = (owned, e)"
    and w1: "w1 = update_local u (\<lambda>l. l\<lparr>ls_owned := owned\<rparr>) w"
    using assms(1) by (auto simp: acquired_noted_def split: prod.splits)
  show "spares u A w w1" by (simp add: w1 spares_local)
  show "noted w1 u = (if e = 0 \<and> m \<notin> set (noted w u) then noted w u @ [m] else noted w u)"
    using push_owned_cases [OF push] assms(2) by (auto simp: w1 noted_def)
qed

lemma acquired_registered_effect:
  assumes "acquired_registered env u u m i w = (w1, e)" "info_at w i u" "ls_initialised (lt_local w u)"
  shows "spares u {m} w w1"
    "noted w1 u = (if e = 0 \<and> m \<notin> set (noted w u) then noted w u @ [m] else noted w u)"
proof -
  obtain owned pe where push: "push_owned env (ti_owned (pb_items (lt_threads w) ! i)) m = (owned, pe)"
    by (cases "push_owned env (ti_owned (pb_items (lt_threads w) ! i)) m")
  define w2 where "w2 = update_info i (\<lambda>info. info\<lparr>ti_owned := owned\<rparr>) w"
  obtain w3 oe where set: "pt_lock_tracking_set_mutex_owner env w2 m u = (w3, oe)"
    by (cases "pt_lock_tracking_set_mutex_owner env w2 m u")
  note se = set_mutex_owner_effect [OF set]
  define w4 where "w4 = update_info i (\<lambda>info. info\<lparr>ti_waiting := 0, ti_wait_started := 0\<rparr>) w3"
  define w5 where "w5 = update_local u (\<lambda>l. l\<lparr>ls_waiting := 0, ls_wait_started := 0\<rparr>) w4"
  have at2: "info_at w2 i u" "spares u {m} w w2"
    unfolding w2_def using update_info_effect(1) [OF assms(2)] spares_update_info [OF assms(2)] by simp_all
  have at3: "info_at w3 i u" "spares u {m} w w3"
    using at2 info_at_cong [OF se(1)] spares_trans [OF at2(2) spares_set_mutex_owner [OF set]] by simp_all
  have "spares u {m} w3 w4"
    unfolding w4_def by (rule spares_update_info [OF at3(1)]) simp
  then have s5: "spares u {m} w w5"
    using at3(2) spares_trans spares_local(1) unfolding w5_def by blast
  have n: "noted w2 u = noted w u" "noted w3 u = noted w u" "noted w5 u = noted w u"
    using se(2) by (simp_all add: w5_def w4_def w2_def noted_def)
  have i5: "ls_initialised (lt_local w5 u)" using assms(3) se(2) by (simp add: w5_def w4_def w2_def)
  have "(if pe \<noteq> FT_ERR_SUCCESS then (w2, pe) else if oe \<noteq> FT_ERR_SUCCESS then (w3, oe)
      else acquired_noted env u m w5) = (w1, e)"
    using assms(1) unfolding acquired_registered_def Let_def push prod.case w2_def [symmetric] set
      w4_def [symmetric] w5_def [symmetric] by (auto split: if_splits)
  then consider "w1 = w2" "e \<noteq> 0" | "w1 = w3" "e \<noteq> 0" | "acquired_noted env u m w5 = (w1, e)"
    by (auto split: if_splits)
  then have "spares u {m} w w1 \<and>
    noted w1 u = (if e = 0 \<and> m \<notin> set (noted w u) then noted w u @ [m] else noted w u)"
  proof cases
    case 3
    show ?thesis
      using acquired_noted_effect [OF 3 i5] spares_trans [OF s5] n(3) by simp
  qed (simp_all add: at2 at3 n)
  then show "spares u {m} w w1"
    "noted w1 u = (if e = 0 \<and> m \<notin> set (noted w u) then noted w u @ [m] else noted w u)"
    by blast+
qed

lemma notify_acquired_effect:
  assumes "notify_acquired env u u m w = (w1, e)"
  shows "spares u {m} w w1"
    "noted w1 u = (if e = 0 \<and> m \<notin> set (noted w u) then noted w u @ [m] else noted w u)"
proof -
  define w0 where
    "w0 = pt_lock_tracking_get_local_state u (pt_lock_tracking_arm_thread_exit_cleanup u w)"
  have s0: "spares u {m} w w0" unfolding w0_def by (rule spares_tables) simp_all
  have n0: "noted w0 u = noted w u" "ls_initialised (lt_local w0 u)" by (simp_all add: w0_def)
  obtain w2 e2 idx where f: "find_thread_info env u u w0 = (w2, e2, idx)"
    by (cases "find_thread_info env u u w0")
  note fe = find_thread_info_effect [OF f]
  have s2: "spares u {m} w w2" using fe(1) s0 spares_trans by blast
  have n2: "noted w2 u = noted w u" "ls_initialised (lt_local w2 u)"
    using noted_cong [OF fe(2)] fe(2) n0 by simp_all
  have "(if ls_waiting (lt_local w0 u) = 0 \<and> \<not> ls_published (lt_local w0 u) \<and> \<not> ls_required (lt_local w0 u)
      then acquired_noted env u m w0 else if \<not> te_registry env then (w0, FT_ERR_NO_MEMORY)
      else case idx of None \<Rightarrow> (w2, e2) | Some i \<Rightarrow> acquired_registered env u u m i w2) = (w1, e)"
    using assms unfolding notify_acquired_def Let_def simp_thms if_True w0_def [symmetric] f
    by (cases idx) (auto split: if_splits)
  then consider "acquired_noted env u m w0 = (w1, e)" | "w1 = w0" "e \<noteq> 0" | "w1 = w2" "e \<noteq> 0"
    | i where "idx = Some i" "acquired_registered env u u m i w2 = (w1, e)"
    using fe(3) by (auto split: if_splits option.splits)
  then have "spares u {m} w w1 \<and>
    noted w1 u = (if e = 0 \<and> m \<notin> set (noted w u) then noted w u @ [m] else noted w u)"
  proof cases
    case 1
    show ?thesis using acquired_noted_effect [OF 1 n0(2)] spares_trans [OF s0] n0(1) by simp
  next
    case (4 i)
    then have "info_at w2 i u" using fe(3) by simp
    then show ?thesis
      using acquired_registered_effect [OF 4(2) _ n2(2)] spares_trans [OF s2] n2(1) by simp
  qed (simp_all add: s0 s2 n0 n2)
  then show "spares u {m} w w1"
    "noted w1 u = (if e = 0 \<and> m \<notin> set (noted w u) then noted w u @ [m] else noted w u)"
    by blast+
qed

lemma wait_published_effect:
  assumes "wait_published env u u m i w = (w1, e)" "info_at w i u"
  shows "spares u (set (noted w u)) w w1" "noted w1 u = noted w u" "info_at w1 i u"
    "e = 0 \<Longrightarrow> pb_items (ti_owned (pb_items (lt_threads w1) ! i)) = noted w u"
    "e = 0 \<Longrightarrow> x \<in> set (noted w u) \<Longrightarrow> owner_of w1 x = Some u"
proof -
  define w0 where "w0 = pt_lock_tracking_get_local_state u w"
  have w0: "info_at w0 i u" "pb_items (ls_owned (lt_local w0 u)) = noted w u"
    "noted w0 u = noted w u"
    using assms(2) info_at_cong [of w0 w] by (simp_all add: w0_def)
  obtain w2 pe where pub: "pt_lock_tracking_publish_local_state env w0 i (lt_local w0 u) = (w2, pe)"
    by (cases "pt_lock_tracking_publish_local_state env w0 i (lt_local w0 u)")
  note pe = publish_effect [OF pub w0(1), unfolded w0(2)]
  have s2: "spares u (set (noted w u)) w w2"
    using spares_trans [OF spares_local(3) pe(1) [unfolded w0_def]] .
  have n2: "noted w2 u = noted w u" using noted_cong [OF pe(2)] w0(3) by simp
  define w3 where "w3 = update_local u (\<lambda>l. l\<lparr>ls_waiting := m, ls_wait_started := te_now env,
    ls_published := True\<rparr>) w2"
  have w3: "spares u (set (noted w u)) w w3" "noted w3 u = noted w u" "lt_threads w3 = lt_threads w2"
    "lt_owners w3 = lt_owners w2"
    using spares_trans [OF s2 spares_local(1)] n2 noted_def [of w2 u]
    by (auto simp: w3_def noted_update_local split: if_splits)
  have "(if pe \<noteq> FT_ERR_SUCCESS then (w2, pe) else (w3, FT_ERR_SUCCESS)) = (w1, e)"
    using assms(1) unfolding wait_published_def Let_def simp_thms if_True w0_def [symmetric] pub prod.case
      w3_def [symmetric] .
  then consider "w1 = w2" "e \<noteq> 0" | "w1 = w3" "e = 0" "pe = 0" by (auto split: if_splits)
  then have "spares u (set (noted w u)) w w1 \<and> noted w1 u = noted w u \<and> info_at w1 i u
    \<and> (e = 0 \<longrightarrow> pb_items (ti_owned (pb_items (lt_threads w1) ! i)) = noted w u
        \<and> (\<forall>x \<in> set (noted w u). owner_of w1 x = Some u))"
  proof cases
    case 1
    then show ?thesis using s2 n2 pe(3) by simp
  next
    case 2
    then show ?thesis
      using w3 pe(3-5) info_at_cong [OF w3(3)] by (simp add: owner_of_def)
  qed
  then show "spares u (set (noted w u)) w w1" "noted w1 u = noted w u" "info_at w1 i u"
    "e = 0 \<Longrightarrow> pb_items (ti_owned (pb_items (lt_threads w1) ! i)) = noted w u"
    "e = 0 \<Longrightarrow> x \<in> set (noted w u) \<Longrightarrow> owner_of w1 x = Some u" by auto
qed

subsection \<open>Circular waits\<close>

text \<open>
  A request of \<open>origin\<close> for a mutex closes a circle when following owners and the mutexes
  they wait for leads to a mutex that \<open>origin\<close> owns.
\<close>

inductive circular_wait :: "lock_tracking \<Rightarrow> thread_lock_info \<Rightarrow> nat \<Rightarrow> bool"
  for w :: lock_tracking and origin :: thread_lock_info where
  close: "\<lbrakk>owner_of w m = Some t; t \<noteq> ti_thread origin; info_of w t = Some info; ti_waiting info \<noteq> 0;
     ti_waiting info \<in> set (pb_items (ti_owned origin))\<rbrakk> \<Longrightarrow> circular_wait w origin m"
| follow: "\<lbrakk>owner_of w m = Some t; t \<noteq> ti_thread origin; info_of w t = Some info; ti_waiting info \<noteq> 0;
     circular_wait w origin (ti_waiting info)\<rbrakk> \<Longrightarrow> circular_wait w origin m"

text \<open>The search of one owner, over the two functions the tables stand for.\<close>

lemma waiting_owner_cases:
  "waiting_owner env w origin m =
     (if \<not> te_owner_table env then (FT_ERR_INVALID_STATE, None)
      else case owner_of w m of None \<Rightarrow> (FT_ERR_SUCCESS, None)
      | Some t \<Rightarrow> if t = ti_thread origin then (FT_ERR_SUCCESS, None)
          else if \<not> te_infos env then (FT_ERR_INVALID_STATE, None)
          else (case info_of w t of None \<Rightarrow> (FT_ERR_SUCCESS, None)
            | Some i \<Rightarrow> if ti_waiting i = 0 then (FT_ERR_SUCCESS, None) else (FT_ERR_SUCCESS, Some i)))"
proof (cases "find (\<lambda>o'. mo_mutex o' = m) (pb_items (lt_owners w))")
  case None
  then show ?thesis
    by (simp add: waiting_owner_def pt_lock_tracking_lookup_mutex_owner_def owner_of_def)
next
  case (Some own)
  then show ?thesis
    by (simp add: waiting_owner_def pt_lock_tracking_lookup_mutex_owner_def owner_of_def
        lookup_thread_info_def info_of_def)
qed

lemma waiting_owner_Some:
  assumes "waiting_owner env w origin m = (e, Some info)"
  shows "owner_of w m = Some (ti_thread info)" "ti_thread info \<noteq> ti_thread origin"
    "info_of w (ti_thread info) = Some info" "ti_waiting info \<noteq> 0" "e = 0"
proof -
  obtain t where "owner_of w m = Some t" "t \<noteq> ti_thread origin" "info_of w t = Some info"
    "ti_waiting info \<noteq> 0" "e = 0"
    using assms unfolding waiting_owner_cases by (auto split: if_splits option.splits)
  then show "owner_of w m = Some (ti_thread info)" "ti_thread info \<noteq> ti_thread origin"
    "info_of w (ti_thread info) = Some info" "ti_waiting info \<noteq> 0" "e = 0"
    using info_of_thread by auto
qed

lemma waiting_owner_None:
  assumes "waiting_owner env w origin m = (0, None)"
  shows "owner_of w m = Some t \<and> t \<noteq> ti_thread origin \<and> info_of w t = Some info \<longrightarrow> ti_waiting info = 0"
  using assms unfolding waiting_owner_cases by (auto split: if_splits)

text \<open>A set of mutexes that no step leaves and in which none closes a circle.\<close>

definition harmless :: "lock_tracking \<Rightarrow> thread_lock_info \<Rightarrow> nat set \<Rightarrow> nat set \<Rightarrow> bool" where
  "harmless w origin S M \<longleftrightarrow>
     (\<forall>x t info. x \<in> S \<and> owner_of w x = Some t \<and> t \<noteq> ti_thread origin \<and> info_of w t = Some info
        \<and> ti_waiting info \<noteq> 0
        \<longrightarrow> ti_waiting info \<notin> set (pb_items (ti_owned origin)) \<and> ti_waiting info \<in> M)"

lemma harmless_not_circular:
  assumes "harmless w origin M M" "x \<in> M"
  shows "\<not> circular_wait w origin x"
proof
  assume "circular_wait w origin x"
  then show False using assms by induction (auto simp: harmless_def)
qed

lemma detect_cycle_sound:
  assumes "detect_cycle env w origin m vm vt = (e, True)"
  shows "circular_wait w origin m"
  using assms
proof (induction env w origin m vm vt rule: detect_cycle.induct)
  case (1 env w origin m vm vt)
  obtain we found where wo: "waiting_owner env w origin m = (we, found)"
    by (cases "waiting_owner env w origin m")
  obtain vm1 pe where push: "pt_buffer_push (te_grants env) vm m = (vm1, pe)"
    by (cases "pt_buffer_push (te_grants env) vm m")
  obtain info where info: "found = Some info"
    using 1(2) wo push by (cases found) (auto simp: detect_cycle.simps split: if_splits)
  note ws = waiting_owner_Some [OF wo [unfolded info]]
  obtain vt1 te where pusht: "pt_buffer_push (te_grants env) vt (ti_thread info) = (vt1, te)"
    by (cases "pt_buffer_push (te_grants env) vt (ti_thread info)")
  show ?case
  proof (cases "ti_waiting info \<in> set (pb_items (ti_owned origin))")
    case True
    then show ?thesis using ws close by blast
  next
    case False
    then have "circular_wait w origin (ti_waiting info)"
      using 1 wo push pusht info by (simp add: detect_cycle.simps [of env w origin m] split: if_splits)
    then show ?thesis using ws follow by blast
  qed
qed

lemma detect_cycle_complete:
  assumes "detect_cycle env w origin m vm vt = (0, False)"
    "harmless w origin (set (pb_items vm)) (insert m (set (pb_items vm)))"
    "\<forall>t \<in> set (pb_items vt). \<forall>i. info_of w t = Some i \<longrightarrow> ti_waiting i \<in> insert m (set (pb_items vm))"
  shows "\<not> circular_wait w origin m"
  using assms
proof (induction env w origin m vm vt rule: detect_cycle.induct)
  case (1 env w origin m vm vt)
  let ?M = "insert m (set (pb_items vm))"
  show ?case
  proof (cases "m \<in> set (pb_items vm)")
    case True
    then show ?thesis using 1(3) harmless_not_circular [of w origin "set (pb_items vm)"]
      by (simp add: insert_absorb)
  next
    case new: False
    obtain we found where wo: "waiting_owner env w origin m = (we, found)"
      by (cases "waiting_owner env w origin m")
    obtain vm1 pe where push: "pt_buffer_push (te_grants env) vm m = (vm1, pe)"
      by (cases "pt_buffer_push (te_grants env) vm m")
    have "pe = 0" using 1(2) new push by (auto simp: detect_cycle.simps split: if_splits)
    then have vm1: "set (pb_items vm1) = ?M" using push_items push by fastforce
    show ?thesis
    proof (cases found)
      case None
      then have "waiting_owner env w origin m = (0, None)"
        using 1(2) new wo push \<open>pe = 0\<close> by (simp add: detect_cycle.simps)
      then have none: "ti_waiting info = 0"
        if "owner_of w m = Some t" "t \<noteq> ti_thread origin" "info_of w t = Some info" for t info
        using waiting_owner_None that by blast
      show ?thesis
      proof
        assume "circular_wait w origin m"
        then show False by cases (simp_all add: none)
      qed
    next
      case (Some info)
      note ws = waiting_owner_Some [OF wo [unfolded Some]]
      have closed: "ti_waiting info \<notin> set (pb_items (ti_owned origin))"
        using 1(2) new wo push \<open>pe = 0\<close> Some by (auto simp: detect_cycle.simps split: if_splits)
      have harm: "harmless w origin ?M (insert (ti_waiting info) ?M)"
        using 1(3) ws closed by (auto simp: harmless_def)
      show ?thesis
      proof (cases "ti_thread info \<in> set (pb_items vt)")
        case True
        then have "ti_waiting info \<in> ?M" using 1(4) ws(3) by blast
        then show ?thesis using harm harmless_not_circular [of w origin ?M m] by (simp add: insert_absorb)
      next
        case False
        obtain vt1 te where pusht: "pt_buffer_push (te_grants env) vt (ti_thread info) = (vt1, te)"
          by (cases "pt_buffer_push (te_grants env) vt (ti_thread info)")
        have "(if te \<noteq> FT_ERR_SUCCESS then (FT_ERR_NO_MEMORY, False)
            else detect_cycle env w origin (ti_waiting info) vm1 vt1) = (0, False)"
          using 1(2) new wo push \<open>pe = 0\<close> Some closed False pusht
          unfolding detect_cycle.simps [of env w origin m] by simp
        then have rec: "detect_cycle env w origin (ti_waiting info) vm1 vt1 = (0, False)" "te = 0"
          by (auto split: if_splits)
        have vt1: "set (pb_items vt1) = insert (ti_thread info) (set (pb_items vt))"
          using push_items pusht rec(2) by fastforce
        have "\<not> circular_wait w origin (ti_waiting info)"
        proof (rule 1(1))
          show "harmless w origin (set (pb_items vm1)) (insert (ti_waiting info) (set (pb_items vm1)))"
            using harm by (simp add: vm1)
          show "\<forall>t \<in> set (pb_items vt1). \<forall>i. info_of w t = Some i \<longrightarrow>
              ti_waiting i \<in> insert (ti_waiting info) (set (pb_items vm1))"
            using 1(4) ws(3) by (auto simp: vm1 vt1)
        qed (use new wo push \<open>pe = 0\<close> Some closed False pusht rec in auto)
        with ws closed show ?thesis by (auto elim: circular_wait.cases)
      qed
    qed
  qed
qed

lemma detect_cycle_circular:
  assumes "detect_cycle env w origin m pt_buffer_init pt_buffer_init = (0, found)"
  shows "found \<longleftrightarrow> circular_wait w origin m"
  using assms detect_cycle_sound detect_cycle_complete [of env w origin m pt_buffer_init pt_buffer_init]
  by (cases found) (auto simp: harmless_def pt_buffer_init_def)

subsection \<open>Waiting\<close>

lemma notify_wait_effect:
  assumes "notify_wait env u u m w = (w1, e)"
  shows "spares u (set (noted w u)) w w1" "noted w1 u = noted w u"
    "e = 0 \<Longrightarrow> \<exists>info. info_of w1 u = Some info \<and> ti_waiting info = m
       \<and> pb_items (ti_owned info) = noted w u \<and> \<not> circular_wait w1 info m"
    "e = 0 \<Longrightarrow> x \<in> set (noted w u) \<Longrightarrow> owner_of w1 x = Some u"
proof -
  define w0 where "w0 = pt_lock_tracking_arm_thread_exit_cleanup u w"
  let ?A = "set (noted w u)"
  have w0: "spares u ?A w w0" "noted w0 u = noted w u" by (simp_all add: w0_def spares_local)
  obtain w2 e2 idx where f: "find_thread_info env u u w0 = (w2, e2, idx)"
    by (cases "find_thread_info env u u w0")
  note fe = find_thread_info_effect [OF f]
  have w2: "spares u ?A w w2" "noted w2 u = noted w u"
    using spares_trans [OF w0(1) fe(1)] noted_cong [OF fe(2)] w0(2) by simp_all
  define g where "g i = (case wait_published env u u m i w2 of (w3, e3) \<Rightarrow>
    if e3 \<noteq> FT_ERR_SUCCESS then (w3, e3) else wait_checked env m i w3)" for i
  have eq: "(if \<not> te_registry env then (w0, FT_ERR_NO_MEMORY)
      else case idx of None \<Rightarrow> (w2, e2) | Some i \<Rightarrow> g i) = (w1, e)"
    using assms unfolding notify_wait_def Let_def w0_def [symmetric] f g_def
    by (cases idx; cases "te_registry env") (simp_all only: if_True if_False not_True_eq_False
        not_False_eq_True prod.case option.case)
  have "spares u ?A w w1 \<and> noted w1 u = noted w u
    \<and> (e = 0 \<longrightarrow> (\<exists>info. info_of w1 u = Some info \<and> ti_waiting info = m
          \<and> pb_items (ti_owned info) = noted w u \<and> \<not> circular_wait w1 info m)
        \<and> (\<forall>x \<in> ?A. owner_of w1 x = Some u))"
  proof (cases "te_registry env \<and> idx \<noteq> None")
    case False
    then show ?thesis using eq w0 w2 fe(3) by (auto split: option.splits if_splits)
  next
    case True
    then obtain i where i: "idx = Some i" by auto
    obtain w3 e3 where wp: "wait_published env u u m i w2 = (w3, e3)"
      by (cases "wait_published env u u m i w2")
    have at2: "info_at w2 i u" using fe(3) i by simp
    note pe = wait_published_effect [OF wp at2, unfolded w2(2)]
    have s3: "spares u ?A w w3" using spares_trans [OF w2(1) pe(1)] .
    have g: "(if e3 \<noteq> FT_ERR_SUCCESS then (w3, e3) else wait_checked env m i w3) = (w1, e)"
      using eq True i wp by (simp add: g_def)
    show ?thesis
    proof (cases "e3 = 0")
      case False
      with g s3 pe(2) show ?thesis by auto
    next
      case True
      define w4 where "w4 = update_info i (wait_recorded env m) w3"
      have keep: "ti_thread (wait_recorded env m y) = ti_thread y"
        "ti_owned (wait_recorded env m y) = ti_owned y" "ti_waiting (wait_recorded env m y) = m" for y
        by (simp_all add: wait_recorded_def)
      have w4: "info_at w4 i u" "spares u ?A w w4" "noted w4 u = noted w u"
        "pb_items (lt_threads w4) ! i = wait_recorded env m (pb_items (lt_threads w3) ! i)"
        "owner_of w4 x = owner_of w3 x" for x
        using update_info_effect(1,2) [where f = "wait_recorded env m", OF pe(3) keep(1)]
          spares_trans [OF s3 spares_update_info [where f = "wait_recorded env m", OF pe(3) keep(1)]]
          pe(2)
        by (simp_all add: w4_def)
      let ?info = "pb_items (lt_threads w4) ! i"
      obtain de found where dc: "detect_cycle env w4 ?info m pt_buffer_init pt_buffer_init = (de, found)"
        by (cases "detect_cycle env w4 ?info m pt_buffer_init pt_buffer_init")
      have w1: "w1 = w4" "e = (if de \<noteq> FT_ERR_SUCCESS then de
          else if found then FT_ERR_MUTEX_ALREADY_LOCKED else FT_ERR_SUCCESS)"
        using g True unfolding wait_checked_def Let_def w4_def [symmetric] dc by simp_all
      have "\<not> circular_wait w4 ?info m" if "e = 0"
        using that w1(2) dc detect_cycle_circular by (auto split: if_splits)
      then show ?thesis
        unfolding w1(1) using w4 pe(4,5) True info_atD(3) [OF w4(1)] keep by simp
    qed
  qed
  then show "spares u ?A w w1" "noted w1 u = noted w u"
    "e = 0 \<Longrightarrow> \<exists>info. info_of w1 u = Some info \<and> ti_waiting info = m
       \<and> pb_items (ti_owned info) = noted w u \<and> \<not> circular_wait w1 info m"
    "e = 0 \<Longrightarrow> x \<in> ?A \<Longrightarrow> owner_of w1 x = Some u" by auto
qed

lemma notify_thread_enter_effect:
  "spares u A w (fst (notify_thread_enter u u w))"
  "noted (fst (notify_thread_enter u u w)) u = noted w u"
  by (auto simp: notify_thread_enter_def Let_def noted_update_local intro: spares_tables)

lemma notify_thread_exit_effect:
  "spares u A w (fst (notify_thread_exit env self u w))"
  "t \<noteq> u \<Longrightarrow> noted (fst (notify_thread_exit env self u w)) t = noted w t"
proof -
  define w1 where "w1 = pt_lock_tracking_clear_mutex_owners_for_thread env w u"
  define w2 where "w2 = w1\<lparr>lt_threads := erase_first (\<lambda>i. ti_thread i = u) (lt_threads w1)\<rparr>"
  define w3 where "w3 = pt_lock_tracking_reset_local_state u w2"
  have s1: "spares u A w w1" by (simp add: w1_def spares_clear_for_thread)
  have "spares u A w1 w2"
    by (auto simp: spares_def w2_def owner_of_def info_of_def intro!: find_erase_first)
  with s1 have s2: "spares u A w w2" by (rule spares_trans)
  have s3: "spares u A w w3"
    using spares_trans [OF s2 spares_local(1)] by (simp add: w3_def pt_lock_tracking_reset_local_state_def)
  have n: "noted w1 t = noted w t" "noted w2 t = noted w t" "t \<noteq> u \<Longrightarrow> noted w3 t = noted w t" for t
    by (simp_all add: w3_def w2_def w1_def noted_def pt_lock_tracking_reset_local_state_def)
  have "fst (notify_thread_exit env self u w) \<in> {w, w1, w2, w3}"
    unfolding notify_thread_exit_def Let_def w1_def [symmetric] w2_def [symmetric] w3_def
    by (cases "u = self") auto
  then show "spares u A w (fst (notify_thread_exit env self u w))"
    "t \<noteq> u \<Longrightarrow> noted (fst (notify_thread_exit env self u w)) t = noted w t"
    using s1 s2 s3 n by auto
qed

end
