(* ===== verification/Lock_Deadlock.thy ===== *)
theory Lock_Deadlock
  imports Lock_System Lock_Effects
begin

text \<open>
  Whether threads that lock \<open>pt_mutex\<close> and \<open>pt_recursive_mutex\<close> objects can wait for each other in a
  circle. The invariant relates the mutexes to the tables of the lock tracking; it holds on
  the runs in which no thread takes a mutex between its release and the notification of that
  release. The last section has runs in which the tracking is wrong.
\<close>

subsection \<open>The invariant\<close>

definition held :: "lock_system \<Rightarrow> nat \<Rightarrow> nat set" where
  "held s t = {m. mx_lock (sy_mutex s m) \<and> mx_owner (sy_mutex s m) = t}"

definition waits_for :: "lock_system \<Rightarrow> (nat \<times> nat) set" where
  "waits_for s = {(t, u). \<exists>m. sy_phase s t = Blocked m \<and> m \<in> held s u}"

text \<open>What the tracking must know of a thread that is in a phase and holds the mutexes \<open>H\<close>.\<close>

definition tracked_at :: "lock_tracking \<Rightarrow> nat \<Rightarrow> thread_phase \<Rightarrow> nat set \<Rightarrow> bool" where
  "tracked_at w t ph H \<longleftrightarrow> ph \<noteq> Ended \<longrightarrow> distinct (noted w t) \<and>
     (case ph of
        Taken m \<Rightarrow> m \<in> H \<and> set (noted w t) = H - {m}
      | Freed m e \<Rightarrow> m \<notin> H \<and> set (noted w t) - {m} = H
      | Blocked m \<Rightarrow> set (noted w t) = H \<and> m \<noteq> 0
          \<and> (\<exists>info. info_of w t = Some info \<and> ti_waiting info = m)
          \<and> (\<forall>x \<in> H. owner_of w x = Some t)
      | _ \<Rightarrow> set (noted w t) = H)"

definition mutexes_ok :: "lock_system \<Rightarrow> bool" where
  "mutexes_ok s \<longleftrightarrow>
     (\<forall>m. mx_state (sy_mutex s m) = Initialised
        \<and> mx_native (sy_mutex s m) = Some (mx_lock (sy_mutex s m)))
     \<and> (\<forall>t m e. sy_phase s t = Freed m e \<longrightarrow> \<not> mx_lock (sy_mutex s m))"

definition lock_invariant :: "lock_system \<Rightarrow> bool" where
  "lock_invariant s \<longleftrightarrow> mutexes_ok s
     \<and> (\<forall>t. tracked_at (sy_tracking s) t (sy_phase s t) (held s t)) \<and> acyclic (waits_for s)"

lemma lock_invariantD:
  assumes "lock_invariant s"
  shows "mutexes_ok s" "tracked_at (sy_tracking s) t (sy_phase s t) (held s t)" "acyclic (waits_for s)"
  using assms by (auto simp: lock_invariant_def)

lemma system_simps [simp]:
  "sy_phase (set_phase t ph s) = (sy_phase s)(t := ph)" "sy_mutex (set_phase t ph s) = sy_mutex s"
  "sy_tracking (set_phase t ph s) = sy_tracking s"
  "sy_phase (set_mutex m mx s) = sy_phase s" "sy_mutex (set_mutex m mx s) = (sy_mutex s)(m := mx)"
  "sy_tracking (set_mutex m mx s) = sy_tracking s"
  "sy_phase (set_tracking w s) = sy_phase s" "sy_mutex (set_tracking w s) = sy_mutex s"
  "sy_tracking (set_tracking w s) = w"
  by (simp_all add: set_phase_def set_mutex_def set_tracking_def)

lemma held_simps [simp]:
  "held (set_phase t ph s) u = held s u" "held (set_tracking w s) u = held s u"
  "held (set_mutex m mx s) u =
     (if mx_lock mx \<and> mx_owner mx = u then insert m (held s u) else held s u - {m})"
  by (auto simp: held_def)

lemma held_disjoint: "x \<in> held s t \<Longrightarrow> x \<in> held s u \<Longrightarrow> t = u"
  by (simp add: held_def)

lemma native_simps [simp]:
  "mx_lock (take_native t mx)" "mx_owner (take_native t mx) = t" "mx_native (take_native t mx) = Some True"
  "mx_state (take_native t mx) = mx_state mx"
  "\<not> mx_lock (free_native mx)" "mx_native (free_native mx) = Some False"
  "mx_state (free_native mx) = mx_state mx"
  by (simp_all add: take_native_def free_native_def)

text \<open>A thread that another thread's operation spares stays tracked.\<close>

lemma tracked_at_spares:
  assumes "tracked_at w t ph H" "spares u A w w1" "t \<noteq> u" "A \<inter> H = {}"
  shows "tracked_at w1 t ph H"
proof -
  have "noted w1 t = noted w t" "info_of w1 t = info_of w t"
    using assms(2,3) by (simp_all add: spares_def noted_def)
  moreover have "owner_of w1 x = Some t" if "x \<in> H" "owner_of w x = Some t" for x
    using assms(2-4) that by (auto simp: spares_def)
  ultimately show ?thesis using assms(1) by (cases ph) (auto simp: tracked_at_def)
qed

text \<open>Edges into a thread that does not wait do not close a circle.\<close>

lemma acyclic_sink:
  assumes "acyclic R" "R1 \<subseteq> R \<union> UNIV \<times> {t}" "t \<notin> Domain R1"
  shows "acyclic R1"
proof -
  have step: "y = t \<or> (x, y) \<in> R\<^sup>+" if "(x, y) \<in> R1\<^sup>+" for x y
    using that
  proof induction
    case (step y z)
    then have "y \<noteq> t" using assms(3) by auto
    with step assms(2) show ?case by (auto intro: trancl_into_trancl)
  qed (use assms(2) in auto)
  show ?thesis
  proof (rule acyclicI, rule allI, rule notI)
    fix x
    assume "(x, x) \<in> R1\<^sup>+"
    moreover from this have "x \<noteq> t" using assms(3) by (metis Domain.DomainI trancl_domain)
    ultimately show False using step assms(1) by (auto simp: acyclic_def)
  qed
qed

lemma waits_for_no_edge: "sy_phase s t = Running \<Longrightarrow> (t, u) \<notin> waits_for s"
  by (simp add: waits_for_def)

subsection \<open>Steps\<close>

text \<open>A step of thread \<open>t\<close> that only changes the tracking, and its phase.\<close>

lemma invariant_tracking:
  assumes inv: "lock_invariant s" and sp: "spares t A (sy_tracking s) w"
    and A: "\<And>u. u \<noteq> t \<Longrightarrow> A \<inter> held s u = {}"
    and tr: "tracked_at w t ph (held s t)" and ph: "\<And>m. ph \<noteq> Blocked m" "\<And>m e. ph \<noteq> Freed m e"
  shows "lock_invariant (set_phase t ph (set_tracking w s))"
proof -
  note D = lock_invariantD [OF inv]
  have "acyclic (waits_for (set_phase t ph (set_tracking w s)))"
    by (rule acyclic_subset [OF D(3)]) (auto simp: waits_for_def ph split: if_splits)
  moreover have "tracked_at w u (sy_phase s u) (held s u)" if "u \<noteq> t" for u
    using tracked_at_spares [OF D(2) sp that A [OF that]] .
  moreover have "mutexes_ok (set_phase t ph (set_tracking w s))"
    using D(1) ph by (auto simp: mutexes_ok_def)
  ultimately show ?thesis using tr by (simp add: lock_invariant_def)
qed

lemma invariant_take:
  assumes inv: "lock_invariant s" and free: "\<not> mx_lock (sy_mutex s m)"
    and ph: "sy_phase s t = Running \<or> sy_phase s t = Blocked m"
    and quiet: "\<And>u e. sy_phase s u \<noteq> Freed m e"
  shows "lock_invariant (set_phase t (Taken m) (set_mutex m (take_native t (sy_mutex s m)) s))"
    (is "lock_invariant ?s1")
proof -
  note D = lock_invariantD [OF inv]
  have m: "m \<notin> held s u" for u using free by (simp add: held_def)
  have "acyclic (waits_for ?s1)"
    by (rule acyclic_sink [OF D(3), where t = t]) (auto simp: waits_for_def split: if_splits)
  moreover have "mutexes_ok ?s1"
    using D(1) quiet by (auto simp: mutexes_ok_def)
  moreover have "tracked_at (sy_tracking s) t (Taken m) (insert m (held s t))"
    using D(2) [of t] m ph by (auto simp: tracked_at_def)
  ultimately show ?thesis using D(2) m by (auto simp: lock_invariant_def)
qed

text \<open>The owner, the lock and the native mutex are as before.\<close>

lemma invariant_depth:
  assumes inv: "lock_invariant s"
    and mx: "mx_lock mx = mx_lock (sy_mutex s m)" "mx_owner mx = mx_owner (sy_mutex s m)"
      "mx_native mx = mx_native (sy_mutex s m)" "mx_state mx = mx_state (sy_mutex s m)"
  shows "lock_invariant (set_mutex m mx s)"
proof -
  have "held (set_mutex m mx s) u = held s u" for u using mx by (auto simp: held_def)
  then show ?thesis
    using lock_invariantD [OF inv] mx unfolding lock_invariant_def mutexes_ok_def waits_for_def
    by (simp only: system_simps fun_upd_apply) auto
qed

lemma invariant_free:
  assumes inv: "lock_invariant s" and own: "m \<in> held s t"
    and tr: "tracked_at (sy_tracking s) t (Freed m e) (held s t - {m})"
  shows "lock_invariant (set_phase t (Freed m e) (set_mutex m (free_native (sy_mutex s m)) s))"
    (is "lock_invariant ?s1")
proof -
  note D = lock_invariantD [OF inv]
  have m: "held s u - {m} = held s u" if "u \<noteq> t" for u using own that by (auto simp: held_def)
  have "acyclic (waits_for ?s1)"
    by (rule acyclic_subset [OF D(3)]) (auto simp: waits_for_def split: if_splits)
  moreover have "mutexes_ok ?s1" using D(1) by (auto simp: mutexes_ok_def)
  ultimately show ?thesis using D(2) tr m by (simp add: lock_invariant_def)
qed

text \<open>The tables know every thread that waits, and what it holds.\<close>

lemma hop_is_seen:
  assumes inv: "lock_invariant s" and run: "sy_phase s t = Running"
    and wait: "notify_wait env t t m (sy_tracking s) = (w1, e)"
    and edge: "(x, y) \<in> waits_for s" and b: "b \<in> held s x"
  shows "\<exists>c i. owner_of w1 b = Some x \<and> x \<noteq> t \<and> info_of w1 x = Some i \<and> ti_waiting i = c
    \<and> c \<noteq> 0 \<and> c \<in> held s y"
proof -
  note D = lock_invariantD [OF inv]
  note sp = notify_wait_effect(1) [OF wait]
  obtain c where c: "sy_phase s x = Blocked c" "c \<in> held s y" using edge by (auto simp: waits_for_def)
  then have xt: "x \<noteq> t" using run by auto
  have "b \<notin> set (noted (sy_tracking s) t)"
    using D(2) [of t] run b xt held_disjoint by (auto simp: tracked_at_def)
  moreover have "owner_of (sy_tracking s) b = Some x" "c \<noteq> 0"
    "\<exists>i. info_of (sy_tracking s) x = Some i \<and> ti_waiting i = c"
    using D(2) [of x] c(1) b by (auto simp: tracked_at_def)
  ultimately show ?thesis using sp xt c(2) by (auto simp: spares_def)
qed

text \<open>An accepted wait: had it closed a circle, the tables would have shown it.\<close>

lemma circle_is_seen:
  assumes inv: "lock_invariant s" and run: "sy_phase s t = Running"
    and wait: "notify_wait env t t m (sy_tracking s) = (w1, 0)" and info: "info_of w1 t = Some info"
    and path: "(x, t) \<in> (waits_for s)\<^sup>+" and x: "b \<in> held s x"
  shows "circular_wait w1 info b"
  using path x
proof (induction arbitrary: b rule: converse_trancl_induct)
  case (base x)
  note hop = hop_is_seen [OF inv run wait base(1,2)]
  then obtain c i where "owner_of w1 b = Some x" "x \<noteq> t" "info_of w1 x = Some i" "ti_waiting i = c"
    "c \<noteq> 0" "c \<in> held s t" by blast
  moreover have "set (pb_items (ti_owned info)) = held s t"
    using notify_wait_effect(3) [OF wait] info lock_invariantD(2) [OF inv, of t] run
    by (auto simp: tracked_at_def)
  ultimately show ?case using close [of w1 b x info] info_of_thread [OF info] by auto
next
  case (step x y)
  obtain c i where "owner_of w1 b = Some x" "x \<noteq> t" "info_of w1 x = Some i" "ti_waiting i = c"
    "c \<noteq> 0" "c \<in> held s y" using hop_is_seen [OF inv run wait step(1,4)] by blast
  then show ?case using follow [of w1 b x info] step.IH info_of_thread [OF info] by auto
qed

lemma invariant_wait:
  assumes inv: "lock_invariant s" and run: "sy_phase s t = Running" and m: "m \<noteq> 0"
    and other: "m \<in> held s u" "u \<noteq> t" and wait: "notify_wait env t t m (sy_tracking s) = (w1, 0)"
  shows "lock_invariant (set_phase t (Blocked m) (set_tracking w1 s))" (is "lock_invariant ?s1")
proof -
  note D = lock_invariantD [OF inv]
  note we = notify_wait_effect [OF wait]
  have noted: "set (noted (sy_tracking s) t) = held s t" "distinct (noted (sy_tracking s) t)"
    using D(2) [of t] run by (simp_all add: tracked_at_def)
  obtain info where info: "info_of w1 t = Some info" "ti_waiting info = m" "\<not> circular_wait w1 info m"
    using we(3) by auto
  have "(u, t) \<notin> (waits_for s)\<^sup>*"
  proof
    assume "(u, t) \<in> (waits_for s)\<^sup>*"
    then have "(u, t) \<in> (waits_for s)\<^sup>+" using other(2) by (simp add: rtrancl_eq_or_trancl)
    then show False using circle_is_seen [OF inv run wait info(1) _ other(1)] info(3) by blast
  qed
  then have "acyclic (insert (t, u) (waits_for s))" using D(3) by (simp add: acyclic_insert)
  moreover have "waits_for ?s1 \<subseteq> insert (t, u) (waits_for s)"
    using other(1) by (auto simp: waits_for_def held_def split: if_splits)
  ultimately have "acyclic (waits_for ?s1)" by (rule acyclic_subset)
  moreover have "mutexes_ok ?s1" using D(1) by (auto simp: mutexes_ok_def)
  moreover have "tracked_at w1 t (Blocked m) (held s t)"
    using we(2,4) noted info m by (auto simp: tracked_at_def)
  moreover have "tracked_at w1 v (sy_phase s v) (held s v)" if "v \<noteq> t" for v
    using tracked_at_spares [OF D(2) we(1) that] held_disjoint that by (auto simp: noted)
  ultimately show ?thesis by (simp add: lock_invariant_def)
qed

lemma invariant_refused:
  assumes inv: "lock_invariant s" and run: "sy_phase s t = Running"
    and wait: "notify_wait env t t m (sy_tracking s) = (w1, e)"
  shows "lock_invariant (set_tracking w1 s)"
proof -
  note we = notify_wait_effect [OF wait]
  have noted: "set (noted (sy_tracking s) t) = held s t" "distinct (noted (sy_tracking s) t)"
    using lock_invariantD(2) [OF inv, of t] run by (simp_all add: tracked_at_def)
  have "lock_invariant (set_phase t Running (set_tracking w1 s))"
    by (rule invariant_tracking [OF inv we(1)])
      (auto simp: noted we(2) tracked_at_def dest: held_disjoint)
  moreover have "set_phase t Running (set_tracking w1 s) = set_tracking w1 s"
    using run by (simp add: set_phase_def set_tracking_def fun_upd_idem)
  ultimately show ?thesis by simp
qed

lemma invariant_confirm_taken:
  assumes inv: "lock_invariant s" and ph: "sy_phase s t = Taken m"
    and acq: "notify_acquired env t t m (sy_tracking s) = (w1, e)"
  shows "e = 0 \<Longrightarrow> lock_invariant (set_phase t Running (set_tracking w1 s))"
    "e \<noteq> 0 \<Longrightarrow> lock_invariant (set_phase t (Freed m e')
       (set_mutex m (free_native (sy_mutex s m)) (set_tracking w1 s)))"
proof -
  note D = lock_invariantD [OF inv]
  note ae = notify_acquired_effect [OF acq]
  have tr: "m \<in> held s t" "set (noted (sy_tracking s) t) = held s t - {m}"
    "distinct (noted (sy_tracking s) t)"
    using D(2) [of t] ph by (simp_all add: tracked_at_def)
  have A: "{m} \<inter> held s u = {}" if "u \<noteq> t" for u using tr(1) that held_disjoint by auto
  show "lock_invariant (set_phase t Running (set_tracking w1 s))" if "e = 0"
    by (rule invariant_tracking [OF inv ae(1) A]) (use ae(2) tr that in \<open>auto simp: tracked_at_def\<close>)
  assume e: "e \<noteq> 0"
  have "lock_invariant (set_phase t (Taken m) (set_tracking w1 s))"
    by (rule invariant_tracking [OF inv ae(1) A]) (use ae(2) tr e in \<open>auto simp: tracked_at_def\<close>)
  then have inv1: "lock_invariant (set_tracking w1 s)"
    using ph by (simp add: set_phase_def set_tracking_def fun_upd_idem)
  have "tracked_at w1 t (Freed m e') (held s t - {m})"
    using ae(2) tr e by (auto simp: tracked_at_def)
  with invariant_free [OF inv1, of m t e'] tr(1)
  show "lock_invariant (set_phase t (Freed m e')
       (set_mutex m (free_native (sy_mutex s m)) (set_tracking w1 s)))" by simp
qed

lemma invariant_confirm_freed:
  assumes inv: "lock_invariant s" and ph: "sy_phase s t = Freed m e"
    and rel: "notify_released env t t m (sy_tracking s) = (w1, e')"
  shows "lock_invariant (set_phase t Running (set_tracking w1 s))"
proof -
  note D = lock_invariantD [OF inv]
  note re = notify_released_effect [OF rel]
  have "m \<notin> held s u" for u using D(1) ph by (auto simp: mutexes_ok_def held_def)
  then show ?thesis
    using D(2) [of t] ph
    by (intro invariant_tracking [OF inv re(1)]) (auto simp: tracked_at_def re(2))
qed

text \<open>
  No thread takes a mutex that another has freed but not yet reported as released.
\<close>

definition orderly :: "lock_system \<Rightarrow> lock_system \<Rightarrow> bool" where
  "orderly s s1 \<longleftrightarrow>
     (\<forall>t m u e. sy_phase s1 t = Taken m \<and> sy_phase s t \<noteq> Taken m \<longrightarrow> sy_phase s u \<noteq> Freed m e)"

lemma ensure_native_ok: "mutexes_ok s \<Longrightarrow> ensure_native_mutex (sy_mutex s m) = Some (mx_lock (sy_mutex s m))"
  by (simp add: mutexes_ok_def ensure_native_mutex_def)

text \<open>The outcomes of \<open>lock\<close> and \<open>try_lock\<close> before a notification.\<close>

lemma attempt_cases:
  assumes "mutexes_ok s"
    "lock_attempt t (sy_mutex s m) = Some (mx, r) \<or> try_lock_attempt t (sy_mutex s m) = Some (mx, r)"
  obtains e where "r = Lock_returns e" "mx_lock mx = mx_lock (sy_mutex s m)"
      "mx_owner mx = mx_owner (sy_mutex s m)" "mx_native mx = mx_native (sy_mutex s m)"
      "mx_state mx = mx_state (sy_mutex s m)"
  | "r = Lock_taken" "mx = take_native t (sy_mutex s m)" "\<not> mx_lock (sy_mutex s m)"
  | "r = Lock_must_wait" "m \<in> held s (mx_owner (sy_mutex s m))" "mx_owner (sy_mutex s m) \<noteq> t"
  using assms(2) ensure_native_ok [OF assms(1), of m]
  by (auto simp: lock_attempt_def try_lock_attempt_def held_def split: if_splits)

lemma invariant_attempt:
  assumes inv: "lock_invariant s" and run: "sy_phase s t = Running" "m \<noteq> 0"
    and att: "lock_attempt t (sy_mutex s m) = Some a \<or> try_lock_attempt t (sy_mutex s m) = Some a"
    and ord: "orderly s (fst (after_attempt env t m s a))"
  shows "lock_invariant (fst (after_attempt env t m s a))"
proof -
  obtain mx r where a: "a = (mx, r)" by (cases a)
  note D = lock_invariantD [OF inv]
  from D(1) att [unfolded a] show ?thesis
  proof (cases rule: attempt_cases)
    case (1 e)
    then show ?thesis using invariant_depth [OF inv] by (simp add: a after_attempt_def)
  next
    case 2
    have quiet: "sy_phase s u \<noteq> Freed m e" for u e
    proof -
      have "sy_phase (fst (after_attempt env t m s a)) t = Taken m"
        by (simp add: a after_attempt_def 2)
      then show ?thesis using ord run(1) unfolding orderly_def by (metis thread_phase.distinct(1))
    qed
    show ?thesis using invariant_take [OF inv 2(3) disjI1 [OF run(1)] quiet] by (simp add: a after_attempt_def 2)
  next
    case 3
    obtain w1 e where wait: "notify_wait env t t m (sy_tracking s) = (w1, e)"
      by (cases "notify_wait env t t m (sy_tracking s)")
    show ?thesis
    proof (cases "e = 0")
      case True
      with wait show ?thesis
        using invariant_wait [OF inv run 3(2,3), of env w1] by (simp add: a after_attempt_def 3(1))
    next
      case False
      with wait show ?thesis
        using invariant_refused [OF inv run(1) wait] by (simp add: a after_attempt_def 3(1))
    qed
  qed
qed

lemma invariant_unlock:
  assumes inv: "lock_invariant s" and run: "sy_phase s t = Running"
    and un: "unlock_native t (sy_mutex s m) = Some (mx, r)"
  shows "r = Some e \<Longrightarrow> lock_invariant (set_mutex m mx s)"
    "r = None \<Longrightarrow> lock_invariant (set_phase t (Freed m e') (set_mutex m mx s))"
proof -
  note D = lock_invariantD [OF inv]
  note un' = un [unfolded unlock_native_def ensure_native_ok [OF D(1)]]
  show "lock_invariant (set_mutex m mx s)" if "r = Some e"
    using un' that by (intro invariant_depth [OF inv]) (auto split: if_splits)
  assume "r = None"
  then have mx: "mx = free_native (sy_mutex s m)" "m \<in> held s t"
    using un' by (auto simp: held_def split: if_splits)
  have "tracked_at (sy_tracking s) t (Freed m e') (held s t - {m})"
    using D(2) [of t] run mx(2) by (auto simp: tracked_at_def)
  then show "lock_invariant (set_phase t (Freed m e') (set_mutex m mx s))"
    using invariant_free [OF inv mx(2)] mx(1) by simp
qed

lemma running_idle: "sy_phase s t = Running \<Longrightarrow> set_phase t Running (set_tracking w s) = set_tracking w s"
  by (simp add: set_phase_def set_tracking_def fun_upd_idem)

lemma invariant_step:
  assumes inv: "lock_invariant s" and step: "lock_step env s ev = Some (s1, r)" and ord: "orderly s s1"
  shows "lock_invariant s1"
proof (cases ev)
  case (Enter t)
  then have run: "sy_phase s t = Running"
    and s1: "s1 = set_tracking (fst (notify_thread_enter t t (sy_tracking s))) s"
    using step by (auto split: if_splits)
  have "lock_invariant (set_phase t Running s1)"
    using lock_invariantD(2) [OF inv, of t] run unfolding s1
    by (intro invariant_tracking [OF inv notify_thread_enter_effect(1) [where A = "{}"]])
      (auto simp: tracked_at_def notify_thread_enter_effect(2))
  then show ?thesis using run running_idle s1 by simp
next
  case (Lock t m)
  then obtain a where "sy_phase s t = Running" "m \<noteq> 0" "lock_attempt t (sy_mutex s m) = Some a"
    "after_attempt env t m s a = (s1, r)"
    using step by (auto split: if_splits)
  then show ?thesis using ord invariant_attempt [OF inv, of t m a env] by simp
next
  case (Try_lock t m)
  then obtain a where "sy_phase s t = Running" "m \<noteq> 0" "try_lock_attempt t (sy_mutex s m) = Some a"
    "after_attempt env t m s a = (s1, r)"
    using step by (auto split: if_splits)
  then show ?thesis using ord invariant_attempt [OF inv, of t m a env] by simp
next
  case (Wake t)
  then obtain m where ph: "sy_phase s t = Blocked m" and free: "mx_native (sy_mutex s m) = Some False"
    and s1: "s1 = set_phase t (Taken m) (set_mutex m (take_native t (sy_mutex s m)) s)"
    using step by (auto split: thread_phase.splits if_splits)
  have quiet: "sy_phase s u \<noteq> Freed m e" for u e
    using ord ph unfolding orderly_def s1 by (metis fun_upd_same system_simps(1) thread_phase.distinct(9))
  have "\<not> mx_lock (sy_mutex s m)" using lock_invariantD(1) [OF inv] free by (simp add: mutexes_ok_def)
  from invariant_take [OF inv this disjI2 [OF ph] quiet] show ?thesis by (simp add: s1)
next
  case (Confirm_taken t)
  then obtain m where ph: "sy_phase s t = Taken m" using step by (auto split: thread_phase.splits)
  obtain w e where acq: "notify_acquired env t t m (sy_tracking s) = (w, e)"
    by (cases "notify_acquired env t t m (sy_tracking s)")
  show ?thesis
    using step Confirm_taken ph acq invariant_confirm_taken [OF inv ph acq] by (auto split: if_splits)
next
  case (Unlock t m)
  then obtain mx r' where run: "sy_phase s t = Running" and un: "unlock_native t (sy_mutex s m) = Some (mx, r')"
    using step by (auto split: if_splits)
  show ?thesis
    using step Unlock run un invariant_unlock [OF inv run un] by (auto split: if_splits option.splits)
next
  case (Confirm_freed t)
  then obtain m e where ph: "sy_phase s t = Freed m e" using step by (auto split: thread_phase.splits)
  obtain w e' where rel: "notify_released env t t m (sy_tracking s) = (w, e')"
    by (cases "notify_released env t t m (sy_tracking s)")
  show ?thesis using step Confirm_freed ph rel invariant_confirm_freed [OF inv ph rel] by auto
next
  case (Exit t)
  then have s1: "s1 = set_phase t Ended (set_tracking (fst (notify_thread_exit env t t (sy_tracking s))) s)"
    using step by (auto split: if_splits)
  show ?thesis
    unfolding s1 by (rule invariant_tracking [OF inv notify_thread_exit_effect(1) [where A = "{}"]])
      (auto simp: tracked_at_def)
next
  case (Join t u)
  then have ph: "sy_phase s u = Ended"
    and s1: "s1 = set_tracking (fst (notify_thread_exit env t u (sy_tracking s))) s"
    using step by (auto split: if_splits prod.splits)
  have "lock_invariant (set_phase u Ended s1)"
    unfolding s1 by (rule invariant_tracking [OF inv notify_thread_exit_effect(1) [where A = "{}"]])
      (auto simp: tracked_at_def)
  then show ?thesis using ph by (simp add: s1 set_phase_def set_tracking_def fun_upd_idem)
qed

subsection \<open>Runs\<close>

inductive orderly_run :: "(nat \<Rightarrow> bool) \<Rightarrow> lock_system \<Rightarrow> bool" for kinds :: "nat \<Rightarrow> bool" where
  start: "orderly_run kinds (lock_system_initial kinds)"
| step: "\<lbrakk>orderly_run kinds s; lock_step env s ev = Some (s1, r); orderly s s1\<rbrakk> \<Longrightarrow> orderly_run kinds s1"

lemma invariant_initial: "lock_invariant (lock_system_initial kinds)"
  by (simp add: lock_invariant_def mutexes_ok_def tracked_at_def waits_for_def held_def
      lock_system_initial_def mutex_ready_def pt_mutex_constructor_def lock_tracking_initial_def
      local_lock_state_initial_def noted_def acyclic_def)

lemma orderly_run_invariant: "orderly_run kinds s \<Longrightarrow> lock_invariant s"
  by (induction rule: orderly_run.induct) (auto intro: invariant_initial invariant_step)

lemma finite_update: "finite {u. (f(t := x)) u \<noteq> f u}"
  by (rule finite_subset [of _ "{t}"]) auto

lemma step_phase:
  assumes "lock_step env s ev = Some (s1, r)"
  shows "finite {u. sy_phase s1 u \<noteq> sy_phase s u}"
proof -
  have att: "finite {u. sy_phase s1 u \<noteq> sy_phase s u}" if "after_attempt env t m s a = (s1, r)" for t m a
    using that finite_update [of "sy_phase s" t]
    by (cases "snd a") (auto simp: after_attempt_def Let_def split: prod.splits if_splits)
  show ?thesis
    using assms att finite_update [of "sy_phase s"]
    by (cases ev) (auto simp: Let_def split: if_splits thread_phase.splits prod.splits option.splits)
qed

lemma finite_waiting:
  assumes "orderly_run kinds s"
  shows "finite {t. sy_phase s t \<noteq> Running}"
  using assms
proof induction
  case (step s env ev s1 r)
  have "{u. sy_phase s1 u \<noteq> Running} \<subseteq> {u. sy_phase s1 u \<noteq> sy_phase s u} \<union> {u. sy_phase s u \<noteq> Running}"
    by auto
  then show ?case using step.IH step_phase [OF step(2)] finite_subset by blast
qed (simp add: lock_system_initial_def)

lemma acyclic_waits_end:
  assumes "acyclic (waits_for s)" "finite {t. sy_phase s t \<noteq> Running}" "sy_phase s t = Blocked m"
  obtains t' m' where "sy_phase s t' = Blocked m'" "\<And>u b. m' \<in> held s u \<Longrightarrow> sy_phase s u \<noteq> Blocked b"
proof -
  let ?B = "{t. sy_phase s t \<noteq> Running}"
  have "waits_for s \<subseteq> (\<lambda>t. (t, mx_owner (sy_mutex s (THE m. sy_phase s t = Blocked m)))) ` ?B"
    by (auto simp: waits_for_def held_def image_iff)
  then have "finite (waits_for s)" using assms(2) finite_surj by blast
  then have "wf ((waits_for s)\<inverse>)" using assms(1) by (rule finite_acyclic_wf_converse)
  then obtain z where z: "z \<in> {t. \<exists>m. sy_phase s t = Blocked m}"
    "\<And>y. (y, z) \<in> (waits_for s)\<inverse> \<Longrightarrow> y \<notin> {t. \<exists>m. sy_phase s t = Blocked m}"
    using assms(3) wfE_min [of "(waits_for s)\<inverse>" t "{t. \<exists>m. sy_phase s t = Blocked m}"] by blast
  then obtain b where b: "sy_phase s z = Blocked b" by blast
  show thesis
    by (rule that [OF b]) (use z(2) b in \<open>auto simp: waits_for_def\<close>)
qed

subsection \<open>Concrete runs\<close>

definition ample :: tracking_env where
  "ample = \<lparr>te_registry = True, te_infos = True, te_owner_table = True, te_buffer_cache = True,
     te_grants = (\<lambda>n. True), te_now = 1\<rparr>"

text \<open>A run in which no call of \<open>unlock\<close> is made and every notification succeeds.\<close>

fun calm_steps :: "tracking_env \<Rightarrow> lock_system \<Rightarrow> lock_event list \<Rightarrow> lock_system option" where
  "calm_steps env s [] = Some s"
| "calm_steps env s (ev # evs) =
     (case lock_step env s ev of
        None \<Rightarrow> None
      | Some (s1, r) \<Rightarrow>
          if (case ev of Lock u m \<Rightarrow> True | Confirm_taken u \<Rightarrow> r \<noteq> None | _ \<Rightarrow> False)
          then calm_steps env s1 evs else None)"

lemma calm_step_phase:
  assumes "lock_step env s ev = Some (s1, r)" "\<forall>u m e. sy_phase s u \<noteq> Freed m e"
    "case ev of Lock u m \<Rightarrow> True | Confirm_taken u \<Rightarrow> r \<noteq> None | _ \<Rightarrow> False"
  shows "\<forall>u m e. sy_phase s1 u \<noteq> Freed m e"
proof (cases ev)
  case (Lock t m)
  then obtain a where "after_attempt env t m s a = (s1, r)" using assms(1) by (auto split: if_splits)
  then show ?thesis
    using assms(2) by (cases a; cases "snd a") (auto simp: after_attempt_def split: prod.splits if_splits)
next
  case (Confirm_taken t)
  then show ?thesis
    using assms by (auto split: thread_phase.splits prod.splits if_splits)
qed (use assms in auto)

lemma calm_steps_orderly:
  assumes "calm_steps env s evs = Some s1" "orderly_run kinds s" "\<forall>u m e. sy_phase s u \<noteq> Freed m e"
  shows "orderly_run kinds s1"
  using assms
proof (induction env s evs rule: calm_steps.induct)
  case (2 env s ev evs)
  obtain s2 r where st: "lock_step env s ev = Some (s2, r)"
    and calm: "case ev of Lock u m \<Rightarrow> True | Confirm_taken u \<Rightarrow> r \<noteq> None | _ \<Rightarrow> False"
    and rest: "calm_steps env s2 evs = Some s1"
    using 2(2) by (auto split: option.splits if_splits)
  have "orderly_run kinds s2"
    by (rule orderly_run.step [OF 2(3) st]) (use 2(4) in \<open>simp add: orderly_def\<close>)
  moreover have "\<forall>u m e. sy_phase s2 u \<noteq> Freed m e"
    by (rule calm_step_phase [OF st 2(4) calm])
  ultimately show ?case using 2(1) [OF st refl] calm rest by simp
qed simp

text \<open>Thread 1 takes mutex 5, thread 2 takes mutex 6 and waits for mutex 5.\<close>

lemma waiting_run:
  "\<exists>s. orderly_run (\<lambda>m. False) s \<and> sy_phase s 2 = Blocked 5 \<and> sy_phase s 1 = Running
     \<and> mx_lock (sy_mutex s 5) \<and> mx_owner (sy_mutex s 5) = 1
     \<and> ls_initialised (lt_local (sy_tracking s) 1)
     \<and> get_owned_mutexes ample 1 (sy_tracking s) 1 = (\<lparr>pb_items = [5], pb_capacity = 4\<rparr>, FT_ERR_SUCCESS)"
proof -
  define evs where "evs = [Lock 1 5, Confirm_taken 1, Lock 2 6, Confirm_taken 2, Lock 2 5]"
  have "case calm_steps ample (lock_system_initial (\<lambda>m. False)) evs of None \<Rightarrow> False
    | Some s \<Rightarrow> sy_phase s 2 = Blocked 5 \<and> sy_phase s 1 = Running
     \<and> mx_lock (sy_mutex s 5) \<and> mx_owner (sy_mutex s 5) = 1
     \<and> ls_initialised (lt_local (sy_tracking s) 1)
     \<and> get_owned_mutexes ample 1 (sy_tracking s) 1 = (\<lparr>pb_items = [5], pb_capacity = 4\<rparr>, FT_ERR_SUCCESS)"
    unfolding evs_def by code_simp
  then obtain s where s: "calm_steps ample (lock_system_initial (\<lambda>m. False)) evs = Some s"
    "sy_phase s 2 = Blocked 5 \<and> sy_phase s 1 = Running
     \<and> mx_lock (sy_mutex s 5) \<and> mx_owner (sy_mutex s 5) = 1
     \<and> ls_initialised (lt_local (sy_tracking s) 1)
     \<and> get_owned_mutexes ample 1 (sy_tracking s) 1 = (\<lparr>pb_items = [5], pb_capacity = 4\<rparr>, FT_ERR_SUCCESS)"
    by (auto split: option.splits)
  have "orderly_run (\<lambda>m. False) s"
    by (rule calm_steps_orderly [OF s(1) orderly_run.start]) (simp add: lock_system_initial_def)
  with s(2) show ?thesis by blast
qed

subsection \<open>What holds\<close>

lemma push_granted: "(\<And>n. grants n) \<Longrightarrow> snd (pt_buffer_push grants b x) = 0"
  by (simp add: pt_buffer_push_def pt_buffer_reserve_def Let_def)

lemma detect_cycle_granted:
  assumes "te_owner_table env" "te_infos env" "\<And>n. te_grants env n"
  shows "fst (detect_cycle env w origin m vm vt) = 0"
  using assms
proof (induction env w origin m vm vt rule: detect_cycle.induct)
  case (1 env w origin m vm vt)
  obtain vm1 where push: "pt_buffer_push (te_grants env) vm m = (vm1, 0)"
    using push_granted [of "te_grants env" vm m] 1(4) by (cases "pt_buffer_push (te_grants env) vm m") simp
  have "fst (waiting_owner env w origin m) = 0"
    using 1(2,3) by (simp add: waiting_owner_cases split: option.splits)
  then obtain found where wo: "waiting_owner env w origin m = (0, found)"
    by (cases "waiting_owner env w origin m") simp
  show ?case
  proof (cases found)
    case None
    then show ?thesis using push wo by (subst detect_cycle.simps) simp
  next
    case (Some info)
    obtain vt1 where pusht: "pt_buffer_push (te_grants env) vt (ti_thread info) = (vt1, 0)"
      using push_granted [of "te_grants env" vt "ti_thread info"] 1(4)
      by (cases "pt_buffer_push (te_grants env) vt (ti_thread info)") simp
    show ?thesis
    proof (cases "m \<in> set (pb_items vm) \<or> ti_waiting info \<in> set (pb_items (ti_owned origin))
        \<or> ti_thread info \<in> set (pb_items vt)")
      case True
      then show ?thesis using push wo Some by (subst detect_cycle.simps) auto
    next
      case False
      have "fst (detect_cycle env w origin (ti_waiting info) vm1 vt1) = 0"
        by (rule 1(1)) (use False push wo Some pusht 1 in auto)
      then show ?thesis using False push wo Some pusht by (subst detect_cycle.simps) simp
    qed
  qed
qed

text \<open>
  C19: When its allocations succeed, the cycle search of the lock tracking returns without an
  error, and reports a deadlock exactly when following the recorded owners and the mutexes they
  wait for leads from the requested mutex to one that the requesting thread owns.
\<close>

theorem detect_cycle_exact:
  assumes "te_owner_table env" "te_infos env" "\<forall>n. te_grants env n"
  shows "detect_cycle env w origin m pt_buffer_init pt_buffer_init = (FT_ERR_SUCCESS, circular_wait w origin m)"
proof -
  obtain e found where dc: "detect_cycle env w origin m pt_buffer_init pt_buffer_init = (e, found)"
    by (cases "detect_cycle env w origin m pt_buffer_init pt_buffer_init")
  have "e = 0" using detect_cycle_granted [of env w origin m pt_buffer_init pt_buffer_init] assms dc by simp
  then show ?thesis using dc detect_cycle_circular by simp
qed

theorem detect_cycle_exact_witness:
  "detect_cycle ample lock_tracking_initial \<lparr>ti_thread = 1, ti_generation = 1, ti_owned = pt_buffer_init,
     ti_waiting = 5, ti_wait_started = 1\<rparr> 5 pt_buffer_init pt_buffer_init
   = (FT_ERR_SUCCESS, circular_wait lock_tracking_initial \<lparr>ti_thread = 1, ti_generation = 1,
       ti_owned = pt_buffer_init, ti_waiting = 5, ti_wait_started = 1\<rparr> 5)"
  by (rule detect_cycle_exact) (simp_all add: ample_def)

text \<open>
  C4: On every run in which no thread takes a mutex between its native release and the
  notification of that release, the threads inside blocking \<open>lock\<close> calls never wait for each other
  in a circle: a wait that would close a circle is refused, whatever allocations fail, for
  any number of threads and of plain and recursive mutexes.
\<close>

theorem waits_never_circular:
  assumes "orderly_run kinds s"
  shows "acyclic (waits_for s)"
  using lock_invariantD(3) [OF orderly_run_invariant [OF assms]] .

theorem waits_never_circular_witness:
  "\<exists>s. orderly_run (\<lambda>m. False) s \<and> (2, 1) \<in> waits_for s \<and> acyclic (waits_for s)"
proof -
  obtain s where s: "orderly_run (\<lambda>m. False) s" "sy_phase s 2 = Blocked 5" "mx_lock (sy_mutex s 5)"
    "mx_owner (sy_mutex s 5) = 1" using waiting_run by blast
  have "(2, 1) \<in> waits_for s" using s by (simp add: waits_for_def held_def)
  with waits_never_circular [OF s(1)] s(1) show ?thesis by blast
qed

text \<open>
  C20: On such a run, whenever some thread is blocked in \<open>lock\<close>, there is a blocked thread whose
  mutex is free, so that it can take it now, or is held by a thread that is not blocked.
\<close>

theorem blocked_threads_progress:
  assumes "orderly_run kinds s" "sy_phase s t = Blocked m"
  shows "\<exists>t' m'. sy_phase s t' = Blocked m' \<and>
    (lock_step env s (Wake t') \<noteq> None \<or> (\<exists>u. m' \<in> held s u \<and> (\<forall>b. sy_phase s u \<noteq> Blocked b)))"
proof -
  note inv = orderly_run_invariant [OF assms(1)]
  obtain t' m' where b: "sy_phase s t' = Blocked m'" "\<And>u b. m' \<in> held s u \<Longrightarrow> sy_phase s u \<noteq> Blocked b"
    using acyclic_waits_end [OF lock_invariantD(3) [OF inv] finite_waiting [OF assms(1)] assms(2)] by blast
  have "lock_step env s (Wake t') \<noteq> None" if "\<not> mx_lock (sy_mutex s m')"
    using lock_invariantD(1) [OF inv] that b(1) by (simp add: mutexes_ok_def)
  moreover have "m' \<in> held s (mx_owner (sy_mutex s m'))" if "mx_lock (sy_mutex s m')"
    using that by (simp add: held_def)
  ultimately show ?thesis using b by blast
qed

theorem blocked_threads_progress_witness:
  "\<exists>s. orderly_run (\<lambda>m. False) s \<and> sy_phase s 2 = Blocked 5 \<and>
     (\<exists>t' m'. sy_phase s t' = Blocked m' \<and>
       (lock_step ample s (Wake t') \<noteq> None
        \<or> (\<exists>u. m' \<in> held s u \<and> (\<forall>b. sy_phase s u \<noteq> Blocked b))))"
proof -
  obtain s where s: "orderly_run (\<lambda>m. False) s" "sy_phase s 2 = Blocked 5" using waiting_run by blast
  with blocked_threads_progress [OF s, of ample] show ?thesis by blast
qed

text \<open>
  On such a run, a thread outside the operations that asks the lock tracking for its own
  mutexes gets exactly those it holds, each once, when the copy succeeds.
\<close>

theorem own_mutexes_exact:
  assumes "orderly_run kinds s" "sy_phase s t = Running" "ls_initialised (lt_local (sy_tracking s) t)"
    "get_owned_mutexes env t (sy_tracking s) t = (owned, FT_ERR_SUCCESS)"
  shows "set (pb_items owned) = held s t \<and> distinct (pb_items owned)"
proof -
  have "pb_items owned = noted (sy_tracking s) t"
    using assms(3,4) copy_items by (auto simp: get_owned_mutexes_def noted_def split: if_splits prod.splits)
  then show ?thesis
    using lock_invariantD(2) [OF orderly_run_invariant [OF assms(1)], of t] assms(2)
    by (simp add: tracked_at_def)
qed

theorem own_mutexes_exact_witness:
  "\<exists>s. orderly_run (\<lambda>m. False) s \<and> held s 1 = {5}"
proof -
  obtain s where s: "orderly_run (\<lambda>m. False) s" "sy_phase s 1 = Running"
    "ls_initialised (lt_local (sy_tracking s) 1)"
    "get_owned_mutexes ample 1 (sy_tracking s) 1 = (\<lparr>pb_items = [5], pb_capacity = 4\<rparr>, FT_ERR_SUCCESS)"
    using waiting_run by blast
  with own_mutexes_exact [OF s] show ?thesis by auto
qed

subsection \<open>Outcomes of the notifications\<close>





















subsection \<open>What does not hold\<close>

text \<open>The end of a run, with the code of its last call.\<close>

definition run_end :: "lock_event list \<Rightarrow> (lock_system \<times> ft_err option) option" where
  "run_end evs = map_option (\<lambda>(s, rs). (s, last rs))
     (lock_steps ample (lock_system_initial (\<lambda>m. False)) evs)"





text \<open>
  A thread started through the library records its mutexes in the table of owners at once, but its
  releases skip that table until it has waited, so thread 3 stays recorded as the owner of mutex 1 after
  releasing it. When thread 3 waits for thread 2, the request of thread 2 for mutex 1, which the
  running thread 1 holds, is refused as a deadlock.
\<close>

theorem stale_owner_raises_false_alarm:
  "case run_end [Enter 3, Lock 3 1, Confirm_taken 3, Unlock 3 1, Confirm_freed 3, Lock 1 1, Confirm_taken 1,
      Lock 2 2, Confirm_taken 2, Lock 3 2, Lock 2 1] of
     None \<Rightarrow> False
   | Some (s, r) \<Rightarrow> r = Some FT_ERR_MUTEX_ALREADY_LOCKED
       \<and> sy_phase s 1 = Running \<and> mx_lock (sy_mutex s 1) \<and> mx_owner (sy_mutex s 1) = 1
       \<and> noted (sy_tracking s) 3 = []"
  by code_simp

end
