(* ===== verification/Scma.thy ===== *)
theory Scma
  imports Libft_Errno "HOL-Library.Monad_Syntax"
begin

text \<open>
  The bookkeeping of the compacting allocator, \<^verbatim>\<open>src/Modules/SCMA/scma_state.cpp\<close>. Clients hold handles; a
  handle names a descriptor in an array of blocks, and a block is a range of one byte heap.
  Descriptors in use form a doubly linked list and free ones a singly linked list, both threaded
  through the array by index. An index that the code sets to \<open>FT_SYSTEM_SIZE_MAX\<close> for ``none''
  is \<^term>\<open>None\<close> here. The global variables are one record. An access outside the heap or the array and a
  loop that does not end are \<^term>\<open>None\<close>.
\<close>

subsection \<open>State\<close>

record scma_block =
  sb_offset :: nat
  sb_size :: nat
  sb_in_use :: bool
  sb_generation :: u64
  sb_prev :: "nat option"
  sb_next :: "nat option"
  sb_next_free :: "nat option"

record scma_handle =
  sh_index :: u64
  sh_generation :: u64

text \<open>The length of \<open>sc_heap\<close> is the heap capacity, that of \<open>sc_blocks\<close> the block count.\<close>

record scma_state =
  sc_heap :: bytes
  sc_blocks :: "scma_block list"
  sc_block_capacity :: nat
  sc_used :: nat
  sc_live :: nat
  sc_head :: "nat option"
  sc_tail :: "nat option"
  sc_free :: "nat option"
  sc_needed :: bool
  sc_cursor :: "nat option"
  sc_target :: nat
  sc_initialised :: bool

text \<open>
  What the allocator gets from its surroundings: whether its mutex can be locked, the result of
  enabling thread safety, and \<open>malloc\<close> and \<open>realloc\<close> for the heap and for the array of descriptors.
\<close>

record scma_env =
  se_lock :: bool
  se_thread_safety :: ft_err
  se_malloc :: "nat \<Rightarrow> bytes option"
  se_realloc :: "bytes \<Rightarrow> nat \<Rightarrow> bytes option"
  se_blocks :: "nat \<Rightarrow> bool"

definition sizeof_scma_block :: nat where
  "sizeof_scma_block = 56"

definition scma_state_initial :: scma_state where
  "scma_state_initial = \<lparr>sc_heap = [], sc_blocks = [], sc_block_capacity = 0, sc_used = 0, sc_live = 0,
     sc_head = None, sc_tail = None, sc_free = None, sc_needed = False, sc_cursor = None, sc_target = 0,
     sc_initialised = False\<rparr>"

definition update_block :: "nat \<Rightarrow> (scma_block \<Rightarrow> scma_block) \<Rightarrow> scma_state \<Rightarrow> scma_state" where
  "update_block i f s = s\<lparr>sc_blocks := (sc_blocks s)[i := f (sc_blocks s ! i)]\<rparr>"

definition scma_invalid_handle :: scma_handle where
  "scma_invalid_handle = \<lparr>sh_index = -1, sh_generation = -1\<rparr>"

definition scma_handle_is_invalid :: "scma_handle \<Rightarrow> bool" where
  "scma_handle_is_invalid handle \<longleftrightarrow> sh_index handle = -1 \<or> sh_generation handle = -1"

subsection \<open>Bytes of the heap\<close>

definition scma_secure_bzero :: "nat \<Rightarrow> nat \<Rightarrow> scma_state \<Rightarrow> scma_state option" where
  "scma_secure_bzero offset sz s =
     (if offset + sz \<le> length (sc_heap s)
      then Some (s\<lparr>sc_heap := take offset (sc_heap s) @ replicate sz 0 @ drop (offset + sz) (sc_heap s)\<rparr>)
      else None)"

definition heap_store :: "nat \<Rightarrow> bytes \<Rightarrow> scma_state \<Rightarrow> scma_state option" where
  "heap_store offset xs s =
     (if offset + length xs \<le> length (sc_heap s)
      then Some (s\<lparr>sc_heap := take offset (sc_heap s) @ xs @ drop (offset + length xs) (sc_heap s)\<rparr>)
      else None)"

definition heap_load :: "nat \<Rightarrow> nat \<Rightarrow> scma_state \<Rightarrow> bytes option" where
  "heap_load offset sz s =
     (if offset + sz \<le> length (sc_heap s) then Some (take sz (drop offset (sc_heap s))) else None)"

text \<open>\<open>memmove\<close> inside the heap.\<close>

definition heap_move :: "nat \<Rightarrow> nat \<Rightarrow> nat \<Rightarrow> scma_state \<Rightarrow> scma_state option" where
  "heap_move destination source sz s =
     do { xs \<leftarrow> heap_load source sz s; heap_store destination xs s }"

subsection \<open>Sizes\<close>

fun max_end_loop :: "scma_block list \<Rightarrow> nat \<Rightarrow> nat" where
  "max_end_loop [] maximum_end = maximum_end"
| "max_end_loop (b # bs) maximum_end =
     max_end_loop bs
       (if sb_in_use b \<and> sb_size b \<le> FT_SYSTEM_SIZE_MAX - sb_offset b
        then let block_end = sb_offset b + sb_size b
             in if block_end > maximum_end then block_end else maximum_end
        else maximum_end)"

definition scma_recompute_used_size :: "scma_state \<Rightarrow> scma_state" where
  "scma_recompute_used_size s = s\<lparr>sc_used := max_end_loop (sc_blocks s) 0\<rparr>"

definition scma_reset_compaction :: "scma_state \<Rightarrow> scma_state" where
  "scma_reset_compaction s = s\<lparr>sc_cursor := None, sc_target := 0\<rparr>"

definition scma_next_generation :: "u64 \<Rightarrow> u64" where
  "scma_next_generation generation =
     (let next_generation = generation + 1;
          next_generation1 = (if next_generation = -1 then 1 else next_generation)
      in if next_generation1 = 0 then 1 else next_generation1)"

text \<open>The growth of both arrays: doubling until the request fits.\<close>

partial_function (option) scma_grow_loop :: "nat \<Rightarrow> nat \<Rightarrow> nat option" where
  "scma_grow_loop new_capacity required =
     (if new_capacity < required
      then if new_capacity > required div 2 then scma_grow_loop required required
           else if new_capacity > FT_SYSTEM_SIZE_MAX div 2 then scma_grow_loop required required
           else scma_grow_loop (new_capacity * 2) required
      else Some new_capacity)"

definition scma_ensure_block_capacity ::
  "scma_env \<Rightarrow> nat \<Rightarrow> scma_state \<Rightarrow> (scma_state \<times> bool) option" where
  "scma_ensure_block_capacity env required_count s =
     (if sc_block_capacity s \<ge> required_count then Some (s, True)
      else do {
        new_capacity \<leftarrow> scma_grow_loop
          (if sc_block_capacity s = 0 then required_count else sc_block_capacity s) required_count;
        Some (if new_capacity > FT_SYSTEM_SIZE_MAX then (s, False)
              else if new_capacity > FT_SYSTEM_SIZE_MAX div sizeof_scma_block then (s, False)
              else if se_blocks env (new_capacity * sizeof_scma_block)
              then (s\<lparr>sc_block_capacity := new_capacity\<rparr>, True)
              else (s, False)) })"

definition scma_ensure_capacity ::
  "scma_env \<Rightarrow> nat \<Rightarrow> scma_state \<Rightarrow> (scma_state \<times> bool) option" where
  "scma_ensure_capacity env required_size s =
     (if required_size \<ge> FT_SYSTEM_SIZE_MAX then Some (s, False)
      else if length (sc_heap s) \<ge> required_size then Some (s, True)
      else do {
        new_capacity \<leftarrow> scma_grow_loop
          (if length (sc_heap s) = 0 then required_size else length (sc_heap s)) required_size;
        Some (if new_capacity > FT_SYSTEM_SIZE_MAX then (s, False)
              else case se_realloc env (sc_heap s) new_capacity of
                None \<Rightarrow> (s, False)
              | Some new_data \<Rightarrow> (s\<lparr>sc_heap := new_data\<rparr>, True)) })"

subsection \<open>The list of live blocks\<close>

definition scma_link_block_at_tail :: "nat \<Rightarrow> scma_state \<Rightarrow> scma_state" where
  "scma_link_block_at_tail index s =
     (if index \<ge> length (sc_blocks s) then s
      else if \<not> sb_in_use (sc_blocks s ! index) then s
      else
        let refused = (case sc_tail s of
              None \<Rightarrow> False
            | Some t \<Rightarrow> t \<ge> length (sc_blocks s) \<or> \<not> sb_in_use (sc_blocks s ! t)
                        \<or> sb_next (sc_blocks s ! t) \<noteq> None)
        in if refused then s
           else
             let s1 = update_block index (\<lambda>b. b\<lparr>sb_prev := sc_tail s, sb_next := None\<rparr>) s;
                 s2 = (case sc_tail s of
                     None \<Rightarrow> s1\<lparr>sc_head := Some index\<rparr>
                   | Some t \<Rightarrow> update_block t (\<lambda>b. b\<lparr>sb_next := Some index\<rparr>) s1)
             in s2\<lparr>sc_tail := Some index\<rparr>)"

definition scma_unlink_block :: "nat \<Rightarrow> scma_state \<Rightarrow> scma_state" where
  "scma_unlink_block index s =
     (if index \<ge> length (sc_blocks s) then s
      else
        let block = sc_blocks s ! index;
            refused_prev = (case sb_prev block of
                None \<Rightarrow> False
              | Some p \<Rightarrow> p \<ge> length (sc_blocks s) \<or> sb_next (sc_blocks s ! p) \<noteq> Some index);
            refused_next = (case sb_next block of
                None \<Rightarrow> False
              | Some n \<Rightarrow> n \<ge> length (sc_blocks s) \<or> sb_prev (sc_blocks s ! n) \<noteq> Some index)
        in if \<not> sb_in_use block then s
           else if refused_prev then s
           else if refused_next then s
           else
             let s1 = (case sb_prev block of
                     None \<Rightarrow> s\<lparr>sc_head := sb_next block\<rparr>
                   | Some p \<Rightarrow> update_block p (\<lambda>b. b\<lparr>sb_next := sb_next block\<rparr>) s);
                 s2 = (case sb_next block of
                     None \<Rightarrow> s1\<lparr>sc_tail := sb_prev block\<rparr>
                   | Some n \<Rightarrow> update_block n (\<lambda>b. b\<lparr>sb_prev := sb_prev block\<rparr>) s1)
             in update_block index (\<lambda>b. b\<lparr>sb_prev := None, sb_next := None\<rparr>) s2)"

text \<open>
  The check of the list before a compaction: the walk along the links, with the last index, the number
  of blocks and their size, and the same totals over the array. \<^term>\<open>None\<close> is \<open>FT_ERR_INVALID_STATE\<close>.
\<close>

function live_list_loop ::
  "scma_block list \<Rightarrow> nat \<Rightarrow> nat option \<Rightarrow> nat option \<Rightarrow> nat \<Rightarrow> nat \<Rightarrow> (nat option \<times> nat \<times> nat) option" where
  "live_list_loop blocks used None previous visited_count linked_size =
     Some (previous, visited_count, linked_size)"
| "live_list_loop blocks used (Some i) previous visited_count linked_size =
     (if i \<ge> length blocks \<or> visited_count \<ge> length blocks then None
      else
        let block = blocks ! i
        in if \<not> sb_in_use block \<or> sb_prev block \<noteq> previous then None
           else if sb_offset block > used \<or> sb_size block > used - sb_offset block then None
           else if linked_size > FT_SYSTEM_SIZE_MAX - sb_size block then None
           else live_list_loop blocks used (sb_next block) (Some i) (visited_count + 1)
                  (linked_size + sb_size block))"
  by pat_completeness auto
termination
  by (relation "measure (\<lambda>(blocks, used, current, previous, visited, linked). length blocks - visited)") auto

fun live_totals_loop :: "scma_block list \<Rightarrow> nat \<Rightarrow> nat \<Rightarrow> (nat \<times> nat) option" where
  "live_totals_loop [] in_use_count in_use_size = Some (in_use_count, in_use_size)"
| "live_totals_loop (b # bs) in_use_count in_use_size =
     (if sb_in_use b
      then if in_use_size > FT_SYSTEM_SIZE_MAX - sb_size b then None
           else live_totals_loop bs (in_use_count + 1) (in_use_size + sb_size b)
      else live_totals_loop bs in_use_count in_use_size)"

definition scma_validate_live_list :: "scma_state \<Rightarrow> ft_err" where
  "scma_validate_live_list s =
     (if (sc_head s = None) \<noteq> (sc_tail s = None) then FT_ERR_INVALID_STATE
      else case live_list_loop (sc_blocks s) (sc_used s) (sc_head s) None 0 0 of
        None \<Rightarrow> FT_ERR_INVALID_STATE
      | Some (previous, visited_count, linked_size) \<Rightarrow>
          if previous \<noteq> sc_tail s then FT_ERR_INVALID_STATE
          else (case live_totals_loop (sc_blocks s) 0 0 of
              None \<Rightarrow> FT_ERR_INVALID_STATE
            | Some (in_use_count, in_use_size) \<Rightarrow>
                if visited_count \<noteq> in_use_count \<or> linked_size \<noteq> in_use_size \<or> linked_size \<noteq> sc_live s
                then FT_ERR_INVALID_STATE else FT_ERR_SUCCESS))"

subsection \<open>Compaction\<close>

fun find_first_loop :: "scma_block list \<Rightarrow> nat \<Rightarrow> nat option \<Rightarrow> nat \<Rightarrow> nat option" where
  "find_first_loop [] index selected_index selected_offset = selected_index"
| "find_first_loop (b # bs) index selected_index selected_offset =
     (if sb_in_use b \<and> sb_offset b < selected_offset
      then find_first_loop bs (index + 1) (Some index) (sb_offset b)
      else find_first_loop bs (index + 1) selected_index selected_offset)"

definition scma_find_first_compaction_block :: "scma_state \<Rightarrow> nat option" where
  "scma_find_first_compaction_block s = find_first_loop (sc_blocks s) 0 None FT_SYSTEM_SIZE_MAX"

fun find_next_loop :: "nat \<Rightarrow> scma_block list \<Rightarrow> nat \<Rightarrow> nat option \<Rightarrow> nat \<Rightarrow> nat option" where
  "find_next_loop previous_offset [] index selected_index selected_offset = selected_index"
| "find_next_loop previous_offset (b # bs) index selected_index selected_offset =
     (if sb_in_use b \<and> sb_offset b > previous_offset \<and> sb_offset b < selected_offset
      then find_next_loop previous_offset bs (index + 1) (Some index) (sb_offset b)
      else find_next_loop previous_offset bs (index + 1) selected_index selected_offset)"

definition scma_find_next_compaction_block :: "nat \<Rightarrow> scma_state \<Rightarrow> nat option" where
  "scma_find_next_compaction_block previous_offset s =
     find_next_loop previous_offset (sc_blocks s) 0 None FT_SYSTEM_SIZE_MAX"

text \<open>Both ends of a compaction empty the list of free blocks and forget their ranges.\<close>

definition forget_free_blocks :: "scma_state \<Rightarrow> scma_state" where
  "forget_free_blocks s = s\<lparr>sc_free := None,
     sc_blocks := map (\<lambda>b. if sb_in_use b then b else b\<lparr>sb_size := 0, sb_next_free := None\<rparr>) (sc_blocks s)\<rparr>"

text \<open>The body of the loop: the block at the cursor slides down to the target offset.\<close>

definition compact_block :: "nat \<Rightarrow> scma_state \<Rightarrow> scma_state option" where
  "compact_block i s =
     (let block = sc_blocks s ! i; source_offset = sb_offset block
      in do {
        s1 \<leftarrow> (if source_offset \<noteq> sc_target s
              then do { s0 \<leftarrow> heap_move (sc_target s) source_offset (sb_size block) s;
                        Some (update_block i (\<lambda>b. b\<lparr>sb_offset := sc_target s\<rparr>) s0) }
              else Some s);
        let s2 = s1\<lparr>sc_target := sc_target s1 + sb_size block\<rparr>;
        Some (s2\<lparr>sc_cursor := scma_find_next_compaction_block source_offset s2\<rparr>) })"

partial_function (option) compact_loop ::
  "nat \<Rightarrow> nat \<Rightarrow> scma_state \<Rightarrow> (scma_state \<times> ft_err) option" where
  "compact_loop byte_budget moved_bytes s =
     (case sc_cursor s of
        None \<Rightarrow> Some (s, FT_ERR_SUCCESS)
      | Some i \<Rightarrow>
          if \<not> (moved_bytes < byte_budget \<or> moved_bytes = 0) then Some (s, FT_ERR_SUCCESS)
          else if i \<ge> length (sc_blocks s) then Some (s, FT_ERR_INVALID_STATE)
          else do {
            s1 \<leftarrow> compact_block i s;
            compact_loop byte_budget (moved_bytes + sb_size (sc_blocks s ! i)) s1 })"

definition compact_begin :: "scma_state \<Rightarrow> scma_state" where
  "compact_begin s =
     (if sc_cursor s = None
      then let s1 = forget_free_blocks s
           in s1\<lparr>sc_cursor := scma_find_first_compaction_block s1, sc_target := 0\<rparr>
      else s)"

definition compact_finish :: "nat \<Rightarrow> scma_state \<Rightarrow> scma_state option" where
  "compact_finish previous_used_size s =
     (if sc_cursor s = None
      then do {
        s1 \<leftarrow> (if previous_used_size > sc_target s
              then scma_secure_bzero (sc_target s) (previous_used_size - sc_target s)
                     (s\<lparr>sc_used := sc_target s\<rparr>)
              else Some (s\<lparr>sc_used := sc_target s\<rparr>));
        Some (scma_reset_compaction ((forget_free_blocks s1)\<lparr>sc_needed := False\<rparr>)) }
      else Some s)"

definition scma_compact_incremental :: "nat \<Rightarrow> scma_state \<Rightarrow> (scma_state \<times> ft_err) option" where
  "scma_compact_incremental byte_budget s =
     (if \<not> sc_initialised s then Some (s, FT_ERR_INVALID_STATE)
      else if length (sc_blocks s) = 0
      then if sc_head s \<noteq> None \<or> sc_tail s \<noteq> None \<or> sc_live s \<noteq> 0 then Some (s, FT_ERR_INVALID_STATE)
           else Some (scma_reset_compaction (s\<lparr>sc_used := 0, sc_needed := False\<rparr>), FT_ERR_SUCCESS)
      else do {
        (s1, e) \<leftarrow> compact_loop byte_budget 0 (compact_begin s);
        if e \<noteq> FT_ERR_SUCCESS then Some (s1, e)
        else do { s2 \<leftarrow> compact_finish (sc_used s) s1; Some (s2, FT_ERR_SUCCESS) } })"

partial_function (option) compact_until :: "scma_state \<Rightarrow> (scma_state \<times> ft_err) option" where
  "compact_until s =
     (if \<not> sc_needed s then Some (s, FT_ERR_SUCCESS)
      else do {
        (s1, e) \<leftarrow> scma_compact_incremental 65536 s;
        if e \<noteq> FT_ERR_SUCCESS then Some (s1, FT_ERR_INVALID_STATE) else compact_until s1 })"

definition scma_compact :: "scma_state \<Rightarrow> (scma_state \<times> ft_err) option" where
  "scma_compact s =
     (if length (sc_blocks s) \<noteq> 0 \<and> scma_validate_live_list s \<noteq> FT_ERR_SUCCESS
      then Some (s, FT_ERR_INVALID_STATE)
      else if length (sc_blocks s) = 0 \<and> sc_live s \<noteq> 0 then Some (s, FT_ERR_INVALID_STATE)
      else compact_until (s\<lparr>sc_needed := True\<rparr>))"

subsection \<open>The list of free blocks\<close>

definition scma_push_free_block :: "nat \<Rightarrow> scma_state \<Rightarrow> scma_state" where
  "scma_push_free_block index s =
     (if index \<ge> length (sc_blocks s) then s
      else (update_block index (\<lambda>b. b\<lparr>sb_next_free := sc_free s\<rparr>) s)\<lparr>sc_free := Some index\<rparr>)"

partial_function (option) remove_free_loop ::
  "nat \<Rightarrow> nat option \<Rightarrow> nat option \<Rightarrow> scma_state \<Rightarrow> scma_state option" where
  "remove_free_loop index current previous s =
     (case current of
        None \<Rightarrow> Some s
      | Some c \<Rightarrow>
          if c \<ge> length (sc_blocks s) then Some s
          else if c = index
          then let s1 = (case previous of
                     None \<Rightarrow> s\<lparr>sc_free := sb_next_free (sc_blocks s ! c)\<rparr>
                   | Some p \<Rightarrow> update_block p (\<lambda>b. b\<lparr>sb_next_free := sb_next_free (sc_blocks s ! c)\<rparr>) s)
               in Some (update_block c (\<lambda>b. b\<lparr>sb_next_free := None\<rparr>) s1)
          else remove_free_loop index (sb_next_free (sc_blocks s ! c)) (Some c) s)"

definition scma_remove_free_block :: "nat \<Rightarrow> scma_state \<Rightarrow> scma_state option" where
  "scma_remove_free_block index s = remove_free_loop index (sc_free s) None s"

definition scma_discard_free_block :: "nat \<Rightarrow> scma_state \<Rightarrow> scma_state option" where
  "scma_discard_free_block index s =
     (if index \<ge> length (sc_blocks s) then Some s
      else do { s1 \<leftarrow> scma_remove_free_block index s;
                Some (update_block index (\<lambda>b. b\<lparr>sb_size := 0, sb_next_free := None\<rparr>) s1) })"

text \<open>A walk along the list of free blocks that discards those with a property.\<close>

partial_function (option) discard_loop ::
  "(scma_block list \<Rightarrow> scma_block \<Rightarrow> bool) \<Rightarrow> nat option \<Rightarrow> scma_state \<Rightarrow> scma_state option" where
  "discard_loop useless current s =
     (case current of
        None \<Rightarrow> Some s
      | Some c \<Rightarrow>
          if c \<ge> length (sc_blocks s) then Some s
          else do {
            s1 \<leftarrow> (if useless (sc_blocks s) (sc_blocks s ! c) then scma_discard_free_block c s else Some s);
            discard_loop useless (sb_next_free (sc_blocks s ! c)) s1 })"

definition reaches_beyond :: "nat \<Rightarrow> scma_block list \<Rightarrow> scma_block \<Rightarrow> bool" where
  "reaches_beyond offset blocks b \<longleftrightarrow>
     sb_offset b \<ge> offset
     \<or> (sb_size b > 0 \<and> sb_offset b \<le> FT_SYSTEM_SIZE_MAX - sb_size b \<and> sb_offset b + sb_size b > offset)"

definition scma_discard_free_spans_from :: "nat \<Rightarrow> scma_state \<Rightarrow> scma_state option" where
  "scma_discard_free_spans_from offset s = discard_loop (reaches_beyond offset) (sc_free s) s"

fun overlap_loop :: "nat \<Rightarrow> nat \<Rightarrow> scma_block list \<Rightarrow> bool" where
  "overlap_loop free_offset free_end [] = False"
| "overlap_loop free_offset free_end (b # bs) =
     (if sb_in_use b \<and> sb_size b \<le> FT_SYSTEM_SIZE_MAX - sb_offset b
         \<and> free_offset < sb_offset b + sb_size b \<and> sb_offset b < free_end
      then True else overlap_loop free_offset free_end bs)"

definition scma_free_span_overlaps_live :: "scma_block list \<Rightarrow> scma_block \<Rightarrow> bool" where
  "scma_free_span_overlaps_live blocks free_block =
     (if sb_size free_block = 0 then True
      else if sb_offset free_block > FT_SYSTEM_SIZE_MAX - sb_size free_block then True
      else overlap_loop (sb_offset free_block) (sb_offset free_block + sb_size free_block) blocks)"

definition scma_reconcile_free_spans :: "scma_state \<Rightarrow> scma_state option" where
  "scma_reconcile_free_spans s = discard_loop scma_free_span_overlaps_live (sc_free s) s"

text \<open>
  The search for a free block that fits: \<open>Found c expands_tail\<close>, none, or a damaged list.
\<close>

datatype span_search = Found nat bool | Not_found | Damaged

partial_function (option) find_span_loop ::
  "nat \<Rightarrow> nat option \<Rightarrow> scma_state \<Rightarrow> span_search option" where
  "find_span_loop sz current s =
     (case current of
        None \<Rightarrow> Some Not_found
      | Some c \<Rightarrow>
          if c \<ge> length (sc_blocks s) then Some Damaged
          else
            let block = sc_blocks s ! c
            in if sb_in_use block then Some Damaged
               else if sb_size block \<ge> sz then Some (Found c False)
               else if sb_offset block = sc_used s \<and> sb_offset block \<le> length (sc_heap s)
                       \<and> sz \<le> length (sc_heap s) - sb_offset block
               then Some (Found c True)
               else find_span_loop sz (sb_next_free block) s)"

text \<open>Taking a found block: it is cut to the size, and a remainder becomes a new free block.\<close>

definition take_found_span ::
  "scma_env \<Rightarrow> nat \<Rightarrow> nat \<Rightarrow> bool \<Rightarrow> scma_state \<Rightarrow> (scma_state \<times> ft_err \<times> nat option) option" where
  "take_found_span env sz c expands_tail s =
     (let block = sc_blocks s ! c;
          remainder_size = (if expands_tail then 0 else sb_size block - sz);
          remainder_offset = (if expands_tail then sb_offset block
                              else (sb_offset block + sz) mod 2 ^ 64)
      in if remainder_offset < sb_offset block then Some (s, FT_ERR_OUT_OF_RANGE, None)
         else do {
           (s1, granted) \<leftarrow> (if remainder_size > 0
                            then scma_ensure_block_capacity env (length (sc_blocks s) + 1) s
                            else Some (s, True));
           if \<not> granted then Some (s1, FT_ERR_NO_MEMORY, None)
           else do {
             s2 \<leftarrow> scma_remove_free_block c s1;
             if expands_tail
             then do {
               s3 \<leftarrow> scma_discard_free_spans_from (sb_offset (sc_blocks s2 ! c)) s2;
               Some (update_block c (\<lambda>b. b\<lparr>sb_size := sz\<rparr>) s3, FT_ERR_SUCCESS, Some c) }
             else if remainder_size > 0
             then
               let remainder_block = \<lparr>sb_offset = remainder_offset, sb_size = remainder_size,
                     sb_in_use = False, sb_generation = 1, sb_prev = None, sb_next = None,
                     sb_next_free = None\<rparr>;
                   s3 = s2\<lparr>sc_blocks := sc_blocks s2 @ [remainder_block]\<rparr>;
                   s4 = scma_push_free_block (length (sc_blocks s2)) s3
               in Some (update_block c (\<lambda>b. b\<lparr>sb_size := sz\<rparr>) s4, FT_ERR_SUCCESS, Some c)
             else Some (s2, FT_ERR_SUCCESS, Some c) } })"

definition scma_take_free_span ::
  "scma_env \<Rightarrow> nat \<Rightarrow> scma_state \<Rightarrow> (scma_state \<times> ft_err \<times> nat option) option" where
  "scma_take_free_span env sz s =
     (if sz = 0 then Some (s, FT_ERR_INVALID_ARGUMENT, None)
      else do {
        s1 \<leftarrow> scma_reconcile_free_spans s;
        found \<leftarrow> find_span_loop sz (sc_free s1) s1;
        (case found of
           Not_found \<Rightarrow> Some (s1, FT_ERR_SUCCESS, None)
         | Damaged \<Rightarrow> Some (s1, FT_ERR_INVALID_STATE, None)
         | Found c expands_tail \<Rightarrow> take_found_span env sz c expands_tail s1) })"

text \<open>
  Joining a freed block with its neighbours. The loop does not check the index it follows.
\<close>

definition absorb_neighbour :: "nat \<Rightarrow> nat \<Rightarrow> scma_state \<Rightarrow> scma_state option" where
  "absorb_neighbour index c s =
     (let block = sc_blocks s ! index; other = sc_blocks s ! c
      in if c = index \<or> sb_in_use other \<or> sb_size other = 0 then Some s
         else if sb_offset block > FT_SYSTEM_SIZE_MAX - sb_size block
              \<or> sb_offset other > FT_SYSTEM_SIZE_MAX - sb_size other then Some s
         else if sb_offset other + sb_size other = sb_offset block
         then if sb_size block > FT_SYSTEM_SIZE_MAX - sb_size other then Some s
              else do {
                s1 \<leftarrow> scma_remove_free_block c
                  (update_block index (\<lambda>b. b\<lparr>sb_offset := sb_offset other,
                     sb_size := sb_size b + sb_size other\<rparr>) s);
                Some (update_block c (\<lambda>b. b\<lparr>sb_size := 0\<rparr>) s1) }
         else if sb_offset block + sb_size block = sb_offset other
         then if sb_size block > FT_SYSTEM_SIZE_MAX - sb_size other then Some s
              else do {
                s1 \<leftarrow> scma_remove_free_block c
                  (update_block index (\<lambda>b. b\<lparr>sb_size := sb_size b + sb_size other\<rparr>) s);
                Some (update_block c (\<lambda>b. b\<lparr>sb_size := 0\<rparr>) s1) }
         else Some s)"

partial_function (option) coalesce_loop ::
  "nat \<Rightarrow> nat option \<Rightarrow> scma_state \<Rightarrow> scma_state option" where
  "coalesce_loop index current s =
     (case current of
        None \<Rightarrow> Some s
      | Some c \<Rightarrow>
          if c \<ge> length (sc_blocks s) then None
          else do {
            s1 \<leftarrow> absorb_neighbour index c s;
            coalesce_loop index (sb_next_free (sc_blocks s ! c)) s1 })"

definition scma_coalesce_free_block :: "nat \<Rightarrow> scma_state \<Rightarrow> scma_state option" where
  "scma_coalesce_free_block index s =
     (if index \<ge> length (sc_blocks s) \<or> sb_in_use (sc_blocks s ! index) then Some s
      else coalesce_loop index (sc_free s) s)"

definition scma_pop_free_block :: "scma_state \<Rightarrow> scma_state \<times> nat option" where
  "scma_pop_free_block s =
     (case sc_free s of
        None \<Rightarrow> (s, None)
      | Some i \<Rightarrow>
          if i \<ge> length (sc_blocks s) \<or> sb_in_use (sc_blocks s ! i) then (s\<lparr>sc_free := None\<rparr>, None)
          else
            let nxt = sb_next_free (sc_blocks s ! i);
                s1 = s\<lparr>sc_free := (case nxt of
                    None \<Rightarrow> None | Some n \<Rightarrow> if n \<ge> length (sc_blocks s) then None else Some n)\<rparr>
            in (update_block i (\<lambda>b. b\<lparr>sb_next_free := None\<rparr>) s1, Some i))"

subsection \<open>Handles\<close>

definition scma_validate_handle :: "scma_handle \<Rightarrow> scma_state \<Rightarrow> nat option" where
  "scma_validate_handle handle s =
     (if \<not> sc_initialised s then None
      else if scma_handle_is_invalid handle then None
      else if unat (sh_index handle) \<ge> length (sc_blocks s) then None
      else
        let block = sc_blocks s ! unat (sh_index handle)
        in if \<not> sb_in_use block then None
           else if sb_generation block \<noteq> sh_generation handle then None
           else Some (unat (sh_index handle)))"

lemmas [code] = scma_grow_loop.simps compact_loop.simps compact_until.simps remove_free_loop.simps
  discard_loop.simps find_span_loop.simps coalesce_loop.simps

end
