(* ===== verification/Scma_Lists.thy ===== *)
theory Scma_Lists
  imports Scma
begin

text \<open>
  The two lists threaded through the array of descriptors. A list is described by the sequence of its
  indices, as paths in a heap are; the operations of \<open>Scma\<close> on the list of free blocks are shown to
  return, to keep it a list, and to leave everything about live blocks alone.
\<close>

subsection \<open>What an operation may change\<close>

definition strip :: "scma_block \<Rightarrow> scma_block" where
  "strip b = b\<lparr>sb_next_free := None\<rparr>"

definition frozen :: "scma_block \<Rightarrow> scma_block" where
  "frozen b = b\<lparr>sb_next_free := None, sb_offset := (if sb_in_use b then sb_offset b else 0),
     sb_size := (if sb_in_use b then sb_size b else 0)\<rparr>"

text \<open>Only links of the free list change; or also the ranges of free blocks.\<close>

definition link_change :: "scma_state \<Rightarrow> scma_state \<Rightarrow> bool" where
  "link_change s s1 \<longleftrightarrow> map strip (sc_blocks s1) = map strip (sc_blocks s)
     \<and> s1\<lparr>sc_blocks := [], sc_free := None\<rparr> = s\<lparr>sc_blocks := [], sc_free := None\<rparr>"

definition free_change :: "scma_state \<Rightarrow> scma_state \<Rightarrow> bool" where
  "free_change s s1 \<longleftrightarrow> map frozen (sc_blocks s1) = map frozen (sc_blocks s)
     \<and> s1\<lparr>sc_blocks := [], sc_free := None\<rparr> = s\<lparr>sc_blocks := [], sc_free := None\<rparr>"

lemma frozen_strip: "frozen b = frozen (strip b)"
  by (simp add: frozen_def strip_def)

lemma link_free_change: "link_change s s1 \<Longrightarrow> free_change s s1"
proof -
  have "map frozen xs = map frozen (map strip xs)" for xs
    by (simp add: frozen_strip [symmetric] comp_def)
  then show "link_change s s1 \<Longrightarrow> free_change s s1"
    unfolding link_change_def free_change_def by metis
qed

lemma change_refl [simp, intro]: "link_change s s" "free_change s s"
  by (simp_all add: link_change_def free_change_def)

lemma free_change_trans: "free_change s s1 \<Longrightarrow> free_change s1 s2 \<Longrightarrow> free_change s s2"
  by (simp add: free_change_def)

lemma free_change_fields:
  assumes "free_change s s1"
  shows "sc_heap s1 = sc_heap s" "sc_block_capacity s1 = sc_block_capacity s" "sc_used s1 = sc_used s"
    "sc_live s1 = sc_live s" "sc_head s1 = sc_head s" "sc_tail s1 = sc_tail s"
    "sc_needed s1 = sc_needed s" "sc_cursor s1 = sc_cursor s" "sc_target s1 = sc_target s"
    "sc_initialised s1 = sc_initialised s" "length (sc_blocks s1) = length (sc_blocks s)"
  using assms map_eq_imp_length_eq [of frozen "sc_blocks s1" frozen "sc_blocks s"]
  by (cases s; cases s1; simp add: free_change_def)+

lemma nth_map_eq: "map f xs = map f ys \<Longrightarrow> i < length xs \<Longrightarrow> f (xs ! i) = f (ys ! i)"
  by (metis length_map nth_map)

text \<open>What \<open>frozen\<close> keeps of a block.\<close>

lemma free_change_block:
  assumes "free_change s s1" "i < length (sc_blocks s)"
  shows "sb_in_use (sc_blocks s1 ! i) = sb_in_use (sc_blocks s ! i)"
    "sb_generation (sc_blocks s1 ! i) = sb_generation (sc_blocks s ! i)"
    "sb_prev (sc_blocks s1 ! i) = sb_prev (sc_blocks s ! i)"
    "sb_next (sc_blocks s1 ! i) = sb_next (sc_blocks s ! i)"
    "sb_in_use (sc_blocks s ! i) \<Longrightarrow> sb_offset (sc_blocks s1 ! i) = sb_offset (sc_blocks s ! i)"
    "sb_in_use (sc_blocks s ! i) \<Longrightarrow> sb_size (sc_blocks s1 ! i) = sb_size (sc_blocks s ! i)"
proof -
  have "frozen (sc_blocks s1 ! i) = frozen (sc_blocks s ! i)"
    using assms free_change_fields(11) [OF assms(1)] nth_map_eq [of frozen "sc_blocks s1" "sc_blocks s" i]
    by (simp add: free_change_def)
  then show "sb_in_use (sc_blocks s1 ! i) = sb_in_use (sc_blocks s ! i)"
    "sb_generation (sc_blocks s1 ! i) = sb_generation (sc_blocks s ! i)"
    "sb_prev (sc_blocks s1 ! i) = sb_prev (sc_blocks s ! i)"
    "sb_next (sc_blocks s1 ! i) = sb_next (sc_blocks s ! i)"
    "sb_in_use (sc_blocks s ! i) \<Longrightarrow> sb_offset (sc_blocks s1 ! i) = sb_offset (sc_blocks s ! i)"
    "sb_in_use (sc_blocks s ! i) \<Longrightarrow> sb_size (sc_blocks s1 ! i) = sb_size (sc_blocks s ! i)"
    by (cases "sc_blocks s1 ! i"; cases "sc_blocks s ! i"; auto simp: frozen_def split: if_splits)+
qed

lemma update_block_simps [simp]:
  "sc_heap (update_block i f s) = sc_heap s" "sc_block_capacity (update_block i f s) = sc_block_capacity s"
  "sc_used (update_block i f s) = sc_used s" "sc_live (update_block i f s) = sc_live s"
  "sc_head (update_block i f s) = sc_head s" "sc_tail (update_block i f s) = sc_tail s"
  "sc_free (update_block i f s) = sc_free s" "sc_needed (update_block i f s) = sc_needed s"
  "sc_cursor (update_block i f s) = sc_cursor s" "sc_target (update_block i f s) = sc_target s"
  "sc_initialised (update_block i f s) = sc_initialised s"
  "length (sc_blocks (update_block i f s)) = length (sc_blocks s)"
  by (simp_all add: update_block_def)

lemma update_block_nth:
  "j < length (sc_blocks s) \<Longrightarrow>
     sc_blocks (update_block i f s) ! j = (if i = j then f (sc_blocks s ! j) else sc_blocks s ! j)"
  by (simp add: update_block_def nth_list_update)

lemma map_update_idem: "i < length xs \<Longrightarrow> g y = g (xs ! i) \<Longrightarrow> map g (xs[i := y]) = map g xs"
  by (metis list_update_id map_update)

lemma link_change_update:
  assumes "i < length (sc_blocks s)" "strip (f (sc_blocks s ! i)) = strip (sc_blocks s ! i)"
  shows "link_change s (update_block i f s)"
  using assms by (simp add: link_change_def update_block_def map_update_idem)

lemma free_change_update:
  assumes "i < length (sc_blocks s)" "frozen (f (sc_blocks s ! i)) = frozen (sc_blocks s ! i)"
  shows "free_change s (update_block i f s)"
  using assms by (simp add: free_change_def update_block_def map_update_idem)

lemma free_change_head: "free_change s (s\<lparr>sc_free := p\<rparr>)" "link_change s (s\<lparr>sc_free := p\<rparr>)"
  by (simp_all add: free_change_def link_change_def)

lemma link_change_trans: "link_change s s1 \<Longrightarrow> link_change s1 s2 \<Longrightarrow> link_change s s2"
  by (simp add: link_change_def)

lemma link_change_length: "link_change s s1 \<Longrightarrow> length (sc_blocks s1) = length (sc_blocks s)"
  by (rule free_change_fields(11) [OF link_free_change])

lemma link_change_block:
  assumes "link_change s s1" "i < length (sc_blocks s)"
  shows "strip (sc_blocks s1 ! i) = strip (sc_blocks s ! i)"
  using assms link_change_length [OF assms(1)] nth_map_eq [of strip "sc_blocks s1" "sc_blocks s" i]
  by (simp add: link_change_def)

lemma strip_eqD:
  assumes "strip a = strip b"
  shows "sb_offset a = sb_offset b" "sb_size a = sb_size b" "sb_in_use a = sb_in_use b"
  using assms by (cases a; cases b; simp add: strip_def)+

subsection \<open>Chains\<close>

primrec chain :: "scma_block list \<Rightarrow> nat option \<Rightarrow> nat list \<Rightarrow> bool" where
  "chain blocks p [] \<longleftrightarrow> p = None"
| "chain blocks p (x # xs) \<longleftrightarrow> p = Some x \<and> x < length blocks \<and> chain blocks (sb_next_free (blocks ! x)) xs"

lemma chain_head: "chain blocks p xs \<Longrightarrow> p = (case xs of [] \<Rightarrow> None | x # _ \<Rightarrow> Some x)"
  by (cases xs) auto

lemma chain_cong:
  assumes "chain blocks p xs" "length blocks \<le> length blocks1"
    "\<And>x. x \<in> set xs \<Longrightarrow> sb_next_free (blocks1 ! x) = sb_next_free (blocks ! x)"
  shows "chain blocks1 p xs"
  using assms by (induction xs arbitrary: p) auto

lemma chain_update: "chain blocks p xs \<Longrightarrow> c \<notin> set xs \<Longrightarrow> chain (blocks[c := b]) p xs"
  by (induction xs arbitrary: p) auto

lemma chain_update_block:
  "chain (sc_blocks s) p xs \<Longrightarrow> c \<notin> set xs \<Longrightarrow> chain (sc_blocks (update_block c f s)) p xs"
  by (simp add: update_block_def chain_update)

lemma chain_bound: "chain blocks p xs \<Longrightarrow> x \<in> set xs \<Longrightarrow> x < length blocks"
  by (induction xs arbitrary: p) auto

lemma chain_append:
  "chain blocks p (xs @ ys) \<Longrightarrow> \<exists>q. chain blocks q ys"
  by (induction xs arbitrary: p) auto

lemma chain_unique: "chain blocks p xs \<Longrightarrow> chain blocks p ys \<Longrightarrow> xs = ys"
  by (induction xs arbitrary: p ys) (case_tac ys; auto)+

lemma chain_distinct: "chain blocks p xs \<Longrightarrow> distinct xs"
proof (induction xs arbitrary: p)
  case (Cons x xs)
  have "x \<notin> set xs"
  proof
    assume "x \<in> set xs"
    then obtain as bs where xs: "xs = as @ x # bs" by (meson split_list)
    then obtain q where "chain blocks q (x # bs)" using Cons.prems chain_append by fastforce
    with Cons.prems have "bs = xs" using chain_unique by auto
    with xs have "length xs = length as + Suc (length xs)" by (metis length_Cons length_append)
    then show False by simp
  qed
  with Cons show ?case by auto
qed simp

subsection \<open>Removing from the list of free blocks\<close>

lemma chain_bypass:
  assumes "chain blocks p (ps @ [q] @ c # rest)" "blocks1 = blocks[q := (blocks ! q)\<lparr>sb_next_free := n\<rparr>]"
    "chain blocks n rest"
  shows "chain blocks1 p (ps @ [q] @ rest)"
proof -
  have d: "distinct (ps @ [q] @ c # rest)" using assms(1) by (rule chain_distinct)
  have q: "q < length blocks" using chain_bound [OF assms(1)] by simp
  have rest: "chain blocks1 n rest"
    using chain_update [OF assms(3)] d by (simp add: assms(2))
  have "chain blocks1 p (ps @ [q] @ rest)" if "chain blocks p (ps @ [q] @ c # rest)" "q \<notin> set ps" for p
    using that
  proof (induction ps arbitrary: p)
    case Nil
    then show ?case using rest q by (simp add: assms(2))
  next
    case (Cons a ps)
    then show ?case using q by (simp add: assms(2))
  qed
  then show ?thesis using assms(1) d by simp
qed

lemma remove_loop_effect:
  assumes "chain (sc_blocks s) (sc_free s) (ps @ rest)" "c \<notin> set ps" "chain (sc_blocks s) cur rest"
    "prev = (if ps = [] then None else Some (last ps))"
  shows "\<exists>s1. remove_free_loop c cur prev s = Some s1 \<and> link_change s s1
    \<and> chain (sc_blocks s1) (sc_free s1) (ps @ remove1 c rest)"
  using assms
proof (induction rest arbitrary: ps cur prev)
  case Nil
  then show ?case by (subst remove_free_loop.simps) simp
next
  case (Cons x rest)
  then have cur: "cur = Some x" "x < length (sc_blocks s)" "chain (sc_blocks s) (sb_next_free (sc_blocks s ! x)) rest"
    by auto
  show ?case
  proof (cases "x = c")
    case False
    have "\<exists>s1. remove_free_loop c (sb_next_free (sc_blocks s ! x)) (Some x) s = Some s1 \<and> link_change s s1
      \<and> chain (sc_blocks s1) (sc_free s1) ((ps @ [x]) @ remove1 c rest)"
      by (rule Cons.IH) (use Cons.prems cur False in auto)
    then show ?thesis using cur False by (subst remove_free_loop.simps) simp
  next
    case True
    let ?n = "sb_next_free (sc_blocks s ! c)"
    define s0 where "s0 = (case prev of None \<Rightarrow> s\<lparr>sc_free := ?n\<rparr>
      | Some p \<Rightarrow> update_block p (\<lambda>b. b\<lparr>sb_next_free := ?n\<rparr>) s)"
    define s1 where "s1 = update_block c (\<lambda>b. b\<lparr>sb_next_free := None\<rparr>) s0"
    have d: "distinct (ps @ c # rest)" using Cons.prems(1) True chain_distinct by blast
    have s0: "link_change s s0 \<and> chain (sc_blocks s0) (sc_free s0) (ps @ rest)"
    proof (cases ps rule: rev_cases)
      case Nil
      then show ?thesis
        using Cons.prems True cur free_change_head by (simp add: s0_def)
    next
      case (snoc qs q)
      then have q: "q < length (sc_blocks s)" using chain_bound [OF Cons.prems(1)] by simp
      have s0: "s0 = update_block q (\<lambda>b. b\<lparr>sb_next_free := ?n\<rparr>) s"
        using Cons.prems snoc by (simp add: s0_def)
      have "link_change s s0" unfolding s0 by (rule link_change_update [OF q]) (simp add: strip_def)
      moreover have "chain (sc_blocks s0) (sc_free s0) (qs @ [q] @ rest)"
        by (rule chain_bypass [of "sc_blocks s" _ qs q c]) (use Cons.prems snoc True cur s0 in \<open>auto simp: update_block_def\<close>)
      ultimately show ?thesis using snoc by simp
    qed
    have len: "length (sc_blocks s0) = length (sc_blocks s)" using s0 link_change_length by blast
    have "link_change s0 s1"
      unfolding s1_def by (rule link_change_update) (use cur True len in \<open>auto simp: strip_def\<close>)
    moreover have "chain (sc_blocks s1) (sc_free s1) (ps @ rest)"
      using s0 d chain_update_block [of s0] by (simp add: s1_def)
    moreover have "remove_free_loop c cur prev s = Some s1"
      using cur True by (subst remove_free_loop.simps) (simp add: s1_def s0_def Let_def)
    ultimately show ?thesis using s0 True link_change_trans by auto
  qed
qed

lemma remove_free_block_effect:
  assumes "chain (sc_blocks s) (sc_free s) fs"
  obtains s1 where "scma_remove_free_block c s = Some s1" "link_change s s1"
    "chain (sc_blocks s1) (sc_free s1) (remove1 c fs)"
  using remove_loop_effect [of s "[]" fs c "sc_free s" None] assms
  by (auto simp: scma_remove_free_block_def)

text \<open>A block that is not in the list any more loses its range.\<close>

lemma discard_free_block_effect:
  assumes "chain (sc_blocks s) (sc_free s) fs" "c < length (sc_blocks s)" "\<not> sb_in_use (sc_blocks s ! c)"
  obtains s1 where "scma_discard_free_block c s = Some s1" "free_change s s1"
    "chain (sc_blocks s1) (sc_free s1) (remove1 c fs)"
    "\<And>i. i < length (sc_blocks s) \<Longrightarrow> i \<noteq> c \<Longrightarrow> strip (sc_blocks s1 ! i) = strip (sc_blocks s ! i)"
proof -
  obtain s0 where r: "scma_remove_free_block c s = Some s0" "link_change s s0"
    "chain (sc_blocks s0) (sc_free s0) (remove1 c fs)"
    using remove_free_block_effect [OF assms(1)] by blast
  have len: "length (sc_blocks s0) = length (sc_blocks s)" using link_change_length [OF r(2)] .
  have nu: "\<not> sb_in_use (sc_blocks s0 ! c)"
    using link_change_block [OF r(2) assms(2)] strip_eqD(3) assms(3) by blast
  define s1 where "s1 = update_block c (\<lambda>b. b\<lparr>sb_size := 0, sb_next_free := None\<rparr>) s0"
  have "free_change s0 s1"
    unfolding s1_def by (rule free_change_update) (use nu assms(2) len in \<open>auto simp: frozen_def\<close>)
  then have "free_change s s1" using link_free_change [OF r(2)] free_change_trans by blast
  moreover have "c \<notin> set (remove1 c fs)" using chain_distinct [OF assms(1)] by simp
  then have "chain (sc_blocks s1) (sc_free s1) (remove1 c fs)"
    using r(3) chain_update_block [of s0] by (simp add: s1_def)
  moreover have "strip (sc_blocks s1 ! i) = strip (sc_blocks s ! i)" if "i < length (sc_blocks s)" "i \<noteq> c" for i
    using link_change_block [OF r(2) that(1)] that len by (simp add: s1_def update_block_nth)
  moreover have "scma_discard_free_block c s = Some s1"
    using assms(2) r(1) by (simp add: scma_discard_free_block_def s1_def)
  ultimately show thesis using that by blast
qed

subsection \<open>Walks along the list of free blocks\<close>

text \<open>The property by which a walk discards looks at live blocks and at the range of the free block.\<close>

definition stable_test :: "(scma_block list \<Rightarrow> scma_block \<Rightarrow> bool) \<Rightarrow> bool" where
  "stable_test useless \<longleftrightarrow> (\<forall>blocks blocks1 a b. map frozen blocks1 = map frozen blocks \<and> strip a = strip b
     \<longrightarrow> useless blocks1 a = useless blocks b)"

lemma free_change_frozen: "free_change s s1 \<Longrightarrow> map frozen (sc_blocks s1) = map frozen (sc_blocks s)"
  by (simp add: free_change_def)

lemma chain_suffix:
  assumes "chain blocks p (ps @ rest)" "chain blocks1 q rest"
  shows "chain blocks q rest"
proof -
  obtain r where r: "chain blocks r rest" using chain_append [OF assms(1)] by blast
  then have "r = q" using chain_head [OF r] chain_head [OF assms(2)] by simp
  with r show ?thesis by simp
qed

lemma discard_loop_effect:
  assumes "stable_test useless" "chain (sc_blocks s) (sc_free s) (ps @ rest)"
    "chain (sc_blocks s) cur rest" "\<And>x. x \<in> set (ps @ rest) \<Longrightarrow> \<not> sb_in_use (sc_blocks s ! x)"
    "\<And>x. x \<in> set ps \<Longrightarrow> \<not> useless (sc_blocks s) (sc_blocks s ! x)"
  shows "\<exists>s1 fs. discard_loop useless cur s = Some s1 \<and> free_change s s1
    \<and> chain (sc_blocks s1) (sc_free s1) fs \<and> set fs \<subseteq> set (ps @ rest)
    \<and> (\<forall>x \<in> set fs. \<not> useless (sc_blocks s1) (sc_blocks s1 ! x)
        \<and> strip (sc_blocks s1 ! x) = strip (sc_blocks s ! x))
    \<and> (\<forall>x < length (sc_blocks s). x \<notin> set (ps @ rest) \<longrightarrow> strip (sc_blocks s1 ! x) = strip (sc_blocks s ! x))"
  using assms(2-)
proof (induction rest arbitrary: ps cur s)
  case Nil
  then show ?case by (subst discard_loop.simps) auto
next
  case (Cons c rest)
  let ?n = "sb_next_free (sc_blocks s ! c)"
  have cur: "cur = Some c" "c < length (sc_blocks s)" "chain (sc_blocks s) ?n rest"
    "\<not> sb_in_use (sc_blocks s ! c)"
    using Cons.prems by auto
  have d: "distinct (ps @ c # rest)" using Cons.prems(1) by (rule chain_distinct)
  show ?case
  proof (cases "useless (sc_blocks s) (sc_blocks s ! c)")
    case False
    have "\<exists>s1 fs. discard_loop useless ?n s = Some s1 \<and> free_change s s1
      \<and> chain (sc_blocks s1) (sc_free s1) fs \<and> set fs \<subseteq> set ((ps @ [c]) @ rest)
      \<and> (\<forall>x \<in> set fs. \<not> useless (sc_blocks s1) (sc_blocks s1 ! x)
          \<and> strip (sc_blocks s1 ! x) = strip (sc_blocks s ! x))
    \<and> (\<forall>x < length (sc_blocks s). x \<notin> set ((ps @ [c]) @ rest) \<longrightarrow> strip (sc_blocks s1 ! x) = strip (sc_blocks s ! x))"
      by (rule Cons.IH) (use Cons.prems cur False in auto)
    then show ?thesis using cur False by (subst discard_loop.simps) simp
  next
    case True
    obtain s0 where r: "scma_discard_free_block c s = Some s0" "free_change s s0"
      "chain (sc_blocks s0) (sc_free s0) (remove1 c (ps @ c # rest))"
      "\<And>i. i < length (sc_blocks s) \<Longrightarrow> i \<noteq> c \<Longrightarrow> strip (sc_blocks s0 ! i) = strip (sc_blocks s ! i)"
      using discard_free_block_effect [OF Cons.prems(1) cur(2,4)] by blast
    have fs: "remove1 c (ps @ c # rest) = ps @ rest" using d by (simp add: remove1_append)
    have same: "strip (sc_blocks s0 ! x) = strip (sc_blocks s ! x)" if "x \<in> set (ps @ rest)" for x
      using r(4) chain_bound [OF Cons.prems(1)] that d by auto
    have test: "useless (sc_blocks s0) (sc_blocks s0 ! x) = useless (sc_blocks s) (sc_blocks s ! x)"
      if "x \<in> set (ps @ rest)" for x
      using assms(1) [unfolded stable_test_def, rule_format, OF conjI,
        OF free_change_frozen [OF r(2)] same [OF that]] .
    have "\<exists>s1 fs. discard_loop useless ?n s0 = Some s1 \<and> free_change s0 s1
      \<and> chain (sc_blocks s1) (sc_free s1) fs \<and> set fs \<subseteq> set (ps @ rest)
      \<and> (\<forall>x \<in> set fs. \<not> useless (sc_blocks s1) (sc_blocks s1 ! x)
          \<and> strip (sc_blocks s1 ! x) = strip (sc_blocks s0 ! x))
    \<and> (\<forall>x < length (sc_blocks s0). x \<notin> set (ps @ rest) \<longrightarrow> strip (sc_blocks s1 ! x) = strip (sc_blocks s0 ! x))"
    proof (rule Cons.IH)
      show c0: "chain (sc_blocks s0) (sc_free s0) (ps @ rest)" using r(3) fs by simp
      show "chain (sc_blocks s0) ?n rest" using chain_suffix [OF c0 cur(3)] .
      show "\<not> sb_in_use (sc_blocks s0 ! x)" if "x \<in> set (ps @ rest)" for x
        using strip_eqD(3) [OF same [OF that]] Cons.prems(3) that by auto
      show "\<not> useless (sc_blocks s0) (sc_blocks s0 ! x)" if "x \<in> set ps" for x
        using test [of x] Cons.prems(4) that by simp
    qed
    then obtain s1 fs where s1: "discard_loop useless ?n s0 = Some s1" "free_change s0 s1"
      "chain (sc_blocks s1) (sc_free s1) fs" "set fs \<subseteq> set (ps @ rest)"
      "\<forall>x \<in> set fs. \<not> useless (sc_blocks s1) (sc_blocks s1 ! x)
          \<and> strip (sc_blocks s1 ! x) = strip (sc_blocks s0 ! x)"
      "\<forall>x < length (sc_blocks s0). x \<notin> set (ps @ rest) \<longrightarrow> strip (sc_blocks s1 ! x) = strip (sc_blocks s0 ! x)"
      by blast
    have "discard_loop useless cur s = Some s1"
      using cur True r(1) s1(1) by (subst discard_loop.simps) simp
    moreover have "free_change s s1" using r(2) s1(2) by (rule free_change_trans)
    moreover have "\<forall>x \<in> set fs. strip (sc_blocks s1 ! x) = strip (sc_blocks s ! x)"
      using s1(4,5) same by auto
    moreover have "\<forall>x < length (sc_blocks s). x \<notin> set (ps @ c # rest) \<longrightarrow>
        strip (sc_blocks s1 ! x) = strip (sc_blocks s ! x)"
      using s1(6) r(4) free_change_fields(11) [OF r(2)] by auto
    ultimately show ?thesis using s1 by auto
  qed
qed

text \<open>The free blocks are not in use and lie in the heap.\<close>

definition free_ok :: "scma_state \<Rightarrow> nat list \<Rightarrow> bool" where
  "free_ok s fs \<longleftrightarrow> chain (sc_blocks s) (sc_free s) fs
     \<and> (\<forall>x \<in> set fs. \<not> sb_in_use (sc_blocks s ! x)
          \<and> sb_offset (sc_blocks s ! x) + sb_size (sc_blocks s ! x) \<le> length (sc_heap s))"

lemma free_okD:
  assumes "free_ok s fs"
  shows "chain (sc_blocks s) (sc_free s) fs" "x \<in> set fs \<Longrightarrow> \<not> sb_in_use (sc_blocks s ! x)"
    "x \<in> set fs \<Longrightarrow> sb_offset (sc_blocks s ! x) + sb_size (sc_blocks s ! x) \<le> length (sc_heap s)"
    "x \<in> set fs \<Longrightarrow> x < length (sc_blocks s)"
  using assms chain_bound by (auto simp: free_ok_def)

lemma free_ok_subset:
  assumes "free_ok s fs" "free_change s s1" "chain (sc_blocks s1) (sc_free s1) gs" "set gs \<subseteq> set fs"
    "\<And>x. x \<in> set gs \<Longrightarrow> strip (sc_blocks s1 ! x) = strip (sc_blocks s ! x)"
  shows "free_ok s1 gs"
  unfolding free_ok_def
proof (intro conjI ballI)
  fix x
  assume x: "x \<in> set gs"
  note eq = strip_eqD [OF assms(5) [OF x]]
  have "x \<in> set fs" using x assms(4) by blast
  then show "\<not> sb_in_use (sc_blocks s1 ! x)"
    "sb_offset (sc_blocks s1 ! x) + sb_size (sc_blocks s1 ! x) \<le> length (sc_heap s1)"
    using free_okD(2,3) [OF assms(1)] eq free_change_fields(1) [OF assms(2)] by simp_all
qed (rule assms(3))

lemma discard_loop_ok:
  assumes "stable_test useless" "free_ok s fs"
  obtains s1 gs where "discard_loop useless (sc_free s) s = Some s1" "free_change s s1" "free_ok s1 gs"
    "set gs \<subseteq> set fs" "\<forall>x \<in> set gs. \<not> useless (sc_blocks s1) (sc_blocks s1 ! x)
        \<and> strip (sc_blocks s1 ! x) = strip (sc_blocks s ! x)"
    "\<forall>x < length (sc_blocks s). x \<notin> set fs \<longrightarrow> strip (sc_blocks s1 ! x) = strip (sc_blocks s ! x)"
proof -
  obtain s1 gs where r: "discard_loop useless (sc_free s) s = Some s1" "free_change s s1"
    "chain (sc_blocks s1) (sc_free s1) gs" "set gs \<subseteq> set fs"
    "\<forall>x \<in> set gs. \<not> useless (sc_blocks s1) (sc_blocks s1 ! x)
        \<and> strip (sc_blocks s1 ! x) = strip (sc_blocks s ! x)"
    "\<forall>x < length (sc_blocks s). x \<notin> set fs \<longrightarrow> strip (sc_blocks s1 ! x) = strip (sc_blocks s ! x)"
    using discard_loop_effect [OF assms(1), of s "[]" fs "sc_free s"] free_okD [OF assms(2)] by auto
  then show thesis using free_ok_subset [OF assms(2) r(2-4)] that by blast
qed

lemma free_ok_update:
  assumes "free_ok s fs" "c \<notin> set fs"
  shows "free_ok (update_block c f s) fs"
  using assms chain_update_block [of s "sc_free s" fs c f] free_okD(4) [OF assms(1)]
  by (auto simp: free_ok_def update_block_nth)

lemma stable_reaches: "stable_test (reaches_beyond offset)"
  unfolding stable_test_def reaches_beyond_def by (metis strip_eqD(1,2))

lemma frozen_live:
  assumes "frozen a = frozen b"
  shows "sb_in_use a = sb_in_use b" "sb_in_use a \<Longrightarrow> sb_offset a = sb_offset b"
    "sb_in_use a \<Longrightarrow> sb_size a = sb_size b"
  using assms by (cases a; cases b; auto simp: frozen_def split: if_splits)+

lemma overlap_loop_frozen:
  assumes "map frozen xs = map frozen ys"
  shows "overlap_loop o' e xs = overlap_loop o' e ys"
  using assms
proof (induction xs arbitrary: ys)
  case (Cons x xs)
  then obtain y ys' where ys: "ys = y # ys'" "frozen x = frozen y" "map frozen xs = map frozen ys'" by auto
  then show ?case using Cons.IH [OF ys(3)] frozen_live [OF ys(2)] by auto
qed simp

lemma stable_overlaps: "stable_test scma_free_span_overlaps_live"
  unfolding stable_test_def
proof clarify
  fix blocks blocks1 a b
  assume eq: "map frozen blocks1 = map frozen blocks" "strip a = strip b"
  show "scma_free_span_overlaps_live blocks1 a = scma_free_span_overlaps_live blocks b"
    unfolding scma_free_span_overlaps_live_def overlap_loop_frozen [OF eq(1)] strip_eqD(1,2) [OF eq(2)] ..
qed

definition span_fits :: "scma_state \<Rightarrow> nat \<Rightarrow> nat list \<Rightarrow> span_search \<Rightarrow> bool" where
  "span_fits s sz fs r =
     (case r of
        Found c expands_tail \<Rightarrow> c \<in> set fs
          \<and> (if expands_tail then sb_offset (sc_blocks s ! c) = sc_used s
               \<and> sb_offset (sc_blocks s ! c) + sz \<le> length (sc_heap s)
             else sz \<le> sb_size (sc_blocks s ! c))
      | Not_found \<Rightarrow> True
      | Damaged \<Rightarrow> False)"

lemma span_fits_mono: "span_fits s sz fs r \<Longrightarrow> set fs \<subseteq> set gs \<Longrightarrow> span_fits s sz gs r"
  by (auto simp: span_fits_def split: span_search.splits)

lemma find_span_loop_effect:
  assumes "chain (sc_blocks s) cur fs" "\<And>x. x \<in> set fs \<Longrightarrow> \<not> sb_in_use (sc_blocks s ! x)"
  shows "\<exists>r. find_span_loop sz cur s = Some r \<and> span_fits s sz fs r"
  using assms
proof (induction fs arbitrary: cur)
  case Nil
  then show ?case by (subst find_span_loop.simps) (simp add: span_fits_def)
next
  case (Cons x fs)
  then have cur: "cur = Some x" "x < length (sc_blocks s)" "chain (sc_blocks s) (sb_next_free (sc_blocks s ! x)) fs"
    "\<not> sb_in_use (sc_blocks s ! x)" by auto
  let ?b = "sc_blocks s ! x"
  consider "sz \<le> sb_size ?b" | "\<not> sz \<le> sb_size ?b" "sb_offset ?b = sc_used s"
      "sb_offset ?b \<le> length (sc_heap s)" "sz \<le> length (sc_heap s) - sb_offset ?b"
    | "\<not> sz \<le> sb_size ?b" "\<not> (sb_offset ?b = sc_used s \<and> sb_offset ?b \<le> length (sc_heap s)
        \<and> sz \<le> length (sc_heap s) - sb_offset ?b)" by blast
  then show ?case
  proof cases
    case 3
    then have "find_span_loop sz cur s = find_span_loop sz (sb_next_free ?b) s"
      using cur by (subst find_span_loop.simps) (auto simp: Let_def)
    moreover obtain r where "find_span_loop sz (sb_next_free ?b) s = Some r" "span_fits s sz fs r"
      using Cons.IH [OF cur(3)] Cons.prems(2) by auto
    ultimately show ?thesis using span_fits_mono [of s sz fs r "x # fs"] by auto
  qed (use cur in \<open>subst find_span_loop.simps, auto simp: Let_def span_fits_def\<close>)+
qed

subsection \<open>Freeing and joining\<close>

lemma push_free_effect:
  assumes "free_ok s fs" "i < length (sc_blocks s)" "\<not> sb_in_use (sc_blocks s ! i)" "i \<notin> set fs"
    "sb_offset (sc_blocks s ! i) + sb_size (sc_blocks s ! i) \<le> length (sc_heap s)"
  shows "link_change s (scma_push_free_block i s)" "free_ok (scma_push_free_block i s) (i # fs)"
proof -
  define s1 where "s1 = update_block i (\<lambda>b. b\<lparr>sb_next_free := sc_free s\<rparr>) s"
  have push: "scma_push_free_block i s = s1\<lparr>sc_free := Some i\<rparr>"
    using assms(2) by (simp add: scma_push_free_block_def s1_def)
  have "link_change s s1"
    unfolding s1_def by (rule link_change_update [OF assms(2)]) (simp add: strip_def)
  then show "link_change s (scma_push_free_block i s)"
    unfolding push using free_change_head(2) link_change_trans by blast
  have "chain (sc_blocks s1) (sc_free s) fs"
    unfolding s1_def using chain_update_block [OF free_okD(1) [OF assms(1)] assms(4)] .
  moreover have "sc_blocks s1 ! x = sc_blocks s ! x" if "x \<in> set fs" for x
    using that assms(4) free_okD(4) [OF assms(1) that] by (auto simp: s1_def update_block_nth)
  ultimately show "free_ok (scma_push_free_block i s) (i # fs)"
    unfolding push free_ok_def using assms free_okD [OF assms(1)]
    by (auto simp: s1_def update_block_nth)
qed

text \<open>Absorbing: the other block leaves the list, and its range is added to the first one.\<close>

lemma free_ok_absorb:
  assumes ok: "free_ok s fs" and mem: "index \<in> set fs" "c \<in> set fs" "c \<noteq> index"
    and f: "\<And>b. sb_in_use (f b) = sb_in_use b" "\<And>b. frozen b = frozen (f b) \<or> sb_in_use b"
      "\<And>b. sb_next_free (f b) = sb_next_free b"
    and fit: "sb_offset (f (sc_blocks s ! index)) + sb_size (f (sc_blocks s ! index)) \<le> length (sc_heap s)"
  shows "\<exists>s1. scma_remove_free_block c (update_block index f s) = Some s1
    \<and> free_change s (update_block c (\<lambda>b. b\<lparr>sb_size := 0\<rparr>) s1)
    \<and> free_ok (update_block c (\<lambda>b. b\<lparr>sb_size := 0\<rparr>) s1) (remove1 c fs)"
proof -
  define s0 where "s0 = update_block index f s"
  note D = free_okD [OF ok]
  have ilen: "index < length (sc_blocks s)" "c < length (sc_blocks s)" using D(4) mem by auto
  have c0: "free_change s s0"
    unfolding s0_def by (rule free_change_update [OF ilen(1)]) (use f(2) D(2) mem(1) in metis)
  have ch: "chain (sc_blocks s0) (sc_free s0) fs"
    using D(1) unfolding s0_def
    by (simp, intro chain_cong [OF D(1)]) (use D(4) f(3) in \<open>auto simp: update_block_nth\<close>)
  obtain s1 where r: "scma_remove_free_block c s0 = Some s1" "link_change s0 s1"
    "chain (sc_blocks s1) (sc_free s1) (remove1 c fs)"
    using remove_free_block_effect [OF ch] by blast
  define s2 where "s2 = update_block c (\<lambda>b. b\<lparr>sb_size := 0\<rparr>) s1"
  have len: "length (sc_blocks s1) = length (sc_blocks s)"
    using link_change_length [OF r(2)] by (simp add: s0_def)
  have eq1: "strip (sc_blocks s1 ! x) = strip (if x = index then f (sc_blocks s ! x) else sc_blocks s ! x)"
    if "x < length (sc_blocks s)" for x
    using link_change_block [OF r(2), of x] that by (simp add: s0_def update_block_nth)
  have d: "distinct fs" using chain_distinct [OF D(1)] .
  have nu: "\<not> sb_in_use (sc_blocks s1 ! x)" if "x \<in> set fs" for x
    using strip_eqD(3) [OF eq1 [OF D(4) [OF that]]] D(2) [OF that] f(1) by (simp split: if_splits)
  have "free_change s1 s2"
    unfolding s2_def by (rule free_change_update) (use nu [OF mem(2)] ilen len in \<open>auto simp: frozen_def\<close>)
  then have fc: "free_change s s2" using c0 link_free_change [OF r(2)] free_change_trans by blast
  have heap: "length (sc_heap s2) = length (sc_heap s)" using free_change_fields(1) [OF fc] by simp
  have "free_ok s2 (remove1 c fs)"
    unfolding free_ok_def
  proof (intro conjI ballI)
    show "chain (sc_blocks s2) (sc_free s2) (remove1 c fs)"
      using chain_update_block [OF r(3)] d by (simp add: s2_def)
    fix x
    assume "x \<in> set (remove1 c fs)"
    then have x: "x \<in> set fs" "x \<noteq> c" using d by auto
    have s2x: "sc_blocks s2 ! x = sc_blocks s1 ! x"
      using D(4) [OF x(1)] x(2) len by (simp add: s2_def update_block_nth)
    show "\<not> sb_in_use (sc_blocks s2 ! x)" using nu [OF x(1)] s2x by simp
    show "sb_offset (sc_blocks s2 ! x) + sb_size (sc_blocks s2 ! x) \<le> length (sc_heap s2)"
      using strip_eqD(1,2) [OF eq1 [OF D(4) [OF x(1)]]] D(3) [OF x(1)] fit heap s2x
      by (simp split: if_splits)
  qed
  with r(1) fc show ?thesis by (simp add: s0_def s2_def)
qed

lemma absorb_neighbour_effect:
  assumes ok: "free_ok s fs" and mem: "index \<in> set fs" "c \<in> set fs"
  shows "\<exists>s1. absorb_neighbour index c s = Some s1 \<and> free_change s s1
    \<and> (free_ok s1 fs \<or> c \<noteq> index \<and> free_ok s1 (remove1 c fs))"
proof -
  let ?b = "sc_blocks s ! index" and ?o = "sc_blocks s ! c"
  let ?f = "\<lambda>b. b\<lparr>sb_offset := sb_offset ?o, sb_size := sb_size b + sb_size ?o\<rparr>"
  let ?g = "\<lambda>b. b\<lparr>sb_size := sb_size b + sb_size ?o\<rparr>"
  note D = free_okD [OF ok]
  have fit: "sb_offset ?o + sb_size ?o \<le> length (sc_heap s)" "sb_offset ?b + sb_size ?b \<le> length (sc_heap s)"
    using D(3) mem by auto
  define y where "y = do { s1 \<leftarrow> scma_remove_free_block c (update_block index ?f s);
         Some (update_block c (\<lambda>b. b\<lparr>sb_size := 0\<rparr>) s1) }"
  define z where "z = do { s1 \<leftarrow> scma_remove_free_block c (update_block index ?g s);
         Some (update_block c (\<lambda>b. b\<lparr>sb_size := 0\<rparr>) s1) }"
  have "absorb_neighbour index c s = Some s
    \<or> (c \<noteq> index \<and> sb_offset ?o + sb_size ?o = sb_offset ?b \<and> absorb_neighbour index c s = y)
    \<or> (c \<noteq> index \<and> sb_offset ?b + sb_size ?b = sb_offset ?o \<and> absorb_neighbour index c s = z)"
    unfolding absorb_neighbour_def Let_def y_def [symmetric] z_def [symmetric] by (simp split: if_split)
  then consider "absorb_neighbour index c s = Some s"
    | "c \<noteq> index" "sb_offset ?o + sb_size ?o = sb_offset ?b" "absorb_neighbour index c s = y"
    | "c \<noteq> index" "sb_offset ?b + sb_size ?b = sb_offset ?o" "absorb_neighbour index c s = z" by blast
  then show ?thesis
  proof cases
    case 1
    then show ?thesis using ok by blast
  next
    case 2
    have "\<exists>s1. scma_remove_free_block c (update_block index ?f s) = Some s1
      \<and> free_change s (update_block c (\<lambda>b. b\<lparr>sb_size := 0\<rparr>) s1)
      \<and> free_ok (update_block c (\<lambda>b. b\<lparr>sb_size := 0\<rparr>) s1) (remove1 c fs)"
      by (rule free_ok_absorb [OF ok mem 2(1)]) (use fit 2(2) in \<open>auto simp: frozen_def\<close>)
    then show ?thesis using 2 by (auto simp: y_def)
  next
    case 3
    have "\<exists>s1. scma_remove_free_block c (update_block index ?g s) = Some s1
      \<and> free_change s (update_block c (\<lambda>b. b\<lparr>sb_size := 0\<rparr>) s1)
      \<and> free_ok (update_block c (\<lambda>b. b\<lparr>sb_size := 0\<rparr>) s1) (remove1 c fs)"
      by (rule free_ok_absorb [OF ok mem 3(1)]) (use fit 3(2) in \<open>auto simp: frozen_def\<close>)
    then show ?thesis using 3 by (auto simp: z_def)
  qed
qed

lemma coalesce_loop_effect:
  assumes "free_ok s (ps @ rest)" "index \<in> set (ps @ rest)" "chain (sc_blocks s) cur rest"
  shows "\<exists>s1 fs. coalesce_loop index cur s = Some s1 \<and> free_change s s1 \<and> free_ok s1 fs
    \<and> index \<in> set fs \<and> set fs \<subseteq> set (ps @ rest)"
  using assms
proof (induction rest arbitrary: ps cur s)
  case Nil
  then show ?case by (subst coalesce_loop.simps) auto
next
  case (Cons c rest)
  let ?n = "sb_next_free (sc_blocks s ! c)"
  have cur: "cur = Some c" "c < length (sc_blocks s)" "chain (sc_blocks s) ?n rest" using Cons.prems by auto
  have d: "distinct (ps @ c # rest)" using free_okD(1) [OF Cons.prems(1)] by (rule chain_distinct)
  obtain s0 where s0: "absorb_neighbour index c s = Some s0" "free_change s s0"
    "free_ok s0 (ps @ c # rest) \<or> c \<noteq> index \<and> free_ok s0 (remove1 c (ps @ c # rest))"
    using absorb_neighbour_effect [OF Cons.prems(1,2), of c] by auto
  define qs where "qs = (if free_ok s0 (ps @ c # rest) then ps @ [c] else ps)"
  have qs: "free_ok s0 (qs @ rest)" "index \<in> set (qs @ rest)" "set (qs @ rest) \<subseteq> set (ps @ c # rest)"
    using s0(3) Cons.prems(2) d by (auto simp: qs_def remove1_append)
  have "\<exists>s1 fs. coalesce_loop index ?n s0 = Some s1 \<and> free_change s0 s1 \<and> free_ok s1 fs
    \<and> index \<in> set fs \<and> set fs \<subseteq> set (qs @ rest)"
    by (rule Cons.IH [OF qs(1,2) chain_suffix [OF free_okD(1) [OF qs(1)] cur(3)]])
  then obtain s1 fs where s1: "coalesce_loop index ?n s0 = Some s1" "free_change s0 s1" "free_ok s1 fs"
    "index \<in> set fs" "set fs \<subseteq> set (qs @ rest)" by blast
  have "coalesce_loop index cur s = Some s1"
    using cur s0(1) s1(1) by (subst coalesce_loop.simps) simp
  then show ?case using s1 qs(3) free_change_trans [OF s0(2) s1(2)] by blast
qed

end
