(* ===== verification/Scma_Live.thy ===== *)
theory Scma_Live
  imports Scma_Lists
begin

text \<open>
  The doubly linked list of live blocks, and the invariant of the allocator's state: live blocks lie one
  beside another in the used part of the heap, and the counters agree with them.
\<close>

subsection \<open>Segments of the list\<close>

definition first_of :: "nat list \<Rightarrow> nat option" where
  "first_of xs = (case xs of [] \<Rightarrow> None | x # _ \<Rightarrow> Some x)"

definition last_of :: "nat list \<Rightarrow> nat option" where
  "last_of xs = (if xs = [] then None else Some (last xs))"

lemma end_simps [simp]:
  "first_of [] = None" "first_of (x # xs) = Some x" "last_of [] = None" "last_of (xs @ [x]) = Some x"
  "last_of [x] = Some x"
  by (simp_all add: first_of_def last_of_def)

lemma end_append:
  "first_of (xs @ ys) = (if xs = [] then first_of ys else first_of xs)"
  "last_of (xs @ ys) = (if ys = [] then last_of xs else last_of ys)"
  "last_of (x # xs) = (if xs = [] then Some x else last_of xs)"
  by (cases xs; simp add: first_of_def last_of_def)+

fun seg :: "scma_block list \<Rightarrow> nat option \<Rightarrow> nat list \<Rightarrow> nat option \<Rightarrow> bool" where
  "seg blocks p [] n = True"
| "seg blocks p (x # xs) n = (x < length blocks \<and> sb_prev (blocks ! x) = p
     \<and> sb_next (blocks ! x) = (if xs = [] then n else first_of xs) \<and> seg blocks (Some x) xs n)"

lemma seg_append:
  "seg blocks p (xs @ ys) n \<longleftrightarrow> seg blocks p xs (if ys = [] then n else first_of ys)
     \<and> seg blocks (if xs = [] then p else last_of xs) ys n"
proof (induction xs arbitrary: p)
  case (Cons x xs)
  then show ?case by (cases xs) (auto simp: last_of_def first_of_def)
qed simp

lemma seg_cong:
  assumes "seg blocks p xs n" "length blocks \<le> length blocks1"
    "\<And>x. x \<in> set xs \<Longrightarrow> sb_prev (blocks1 ! x) = sb_prev (blocks ! x) \<and> sb_next (blocks1 ! x) = sb_next (blocks ! x)"
  shows "seg blocks1 p xs n"
  using assms by (induction xs arbitrary: p) auto

lemma seg_update: "seg blocks p xs n \<Longrightarrow> c \<notin> set xs \<Longrightarrow> seg (blocks[c := b]) p xs n"
  by (induction xs arbitrary: p) auto

lemma seg_bound: "seg blocks p xs n \<Longrightarrow> x \<in> set xs \<Longrightarrow> x < length blocks"
  by (induction xs arbitrary: p) auto

lemma seg_set_next:
  assumes "seg blocks p (xs @ [q]) n" "q \<notin> set xs"
  shows "seg (blocks[q := (blocks ! q)\<lparr>sb_next := m\<rparr>]) p (xs @ [q]) m"
  using assms by (simp add: seg_append seg_update)

lemma seg_set_prev:
  assumes "seg blocks p (y # ys) n" "y \<notin> set ys"
  shows "seg (blocks[y := (blocks ! y)\<lparr>sb_prev := q\<rparr>]) q (y # ys) n"
  using assms by (simp add: seg_update)

subsection \<open>The list of live blocks\<close>

definition live_set :: "scma_block list \<Rightarrow> nat set" where
  "live_set blocks = {i. i < length blocks \<and> sb_in_use (blocks ! i)}"

lemma finite_live_set [simp, intro]: "finite (live_set blocks)"
  by (simp add: live_set_def)

definition dlist :: "scma_state \<Rightarrow> nat list \<Rightarrow> bool" where
  "dlist s ls \<longleftrightarrow> seg (sc_blocks s) None ls None \<and> sc_head s = first_of ls \<and> sc_tail s = last_of ls \<and> distinct ls"

text \<open>What linking and unlinking leave alone.\<close>

definition unlinked :: "scma_block \<Rightarrow> scma_block" where
  "unlinked b = b\<lparr>sb_prev := None, sb_next := None\<rparr>"

definition list_change :: "scma_state \<Rightarrow> scma_state \<Rightarrow> bool" where
  "list_change s s1 \<longleftrightarrow> map unlinked (sc_blocks s1) = map unlinked (sc_blocks s)
     \<and> s1\<lparr>sc_blocks := [], sc_head := None, sc_tail := None\<rparr> = s\<lparr>sc_blocks := [], sc_head := None, sc_tail := None\<rparr>"

lemma list_change_refl [simp, intro]: "list_change s s"
  by (simp add: list_change_def)

lemma list_change_trans: "list_change s s1 \<Longrightarrow> list_change s1 s2 \<Longrightarrow> list_change s s2"
  by (simp add: list_change_def)

lemma list_change_fields:
  assumes "list_change s s1"
  shows "sc_heap s1 = sc_heap s" "sc_block_capacity s1 = sc_block_capacity s" "sc_used s1 = sc_used s"
    "sc_live s1 = sc_live s" "sc_free s1 = sc_free s"
    "sc_needed s1 = sc_needed s" "sc_cursor s1 = sc_cursor s" "sc_target s1 = sc_target s"
    "sc_initialised s1 = sc_initialised s" "length (sc_blocks s1) = length (sc_blocks s)"
  using assms map_eq_imp_length_eq [of unlinked "sc_blocks s1" unlinked "sc_blocks s"]
  by (cases s; cases s1; simp add: list_change_def)+

lemma list_change_block:
  assumes "list_change s s1" "i < length (sc_blocks s)"
  shows "sb_in_use (sc_blocks s1 ! i) = sb_in_use (sc_blocks s ! i)"
    "sb_generation (sc_blocks s1 ! i) = sb_generation (sc_blocks s ! i)"
    "sb_offset (sc_blocks s1 ! i) = sb_offset (sc_blocks s ! i)"
    "sb_size (sc_blocks s1 ! i) = sb_size (sc_blocks s ! i)"
    "sb_next_free (sc_blocks s1 ! i) = sb_next_free (sc_blocks s ! i)"
proof -
  have "unlinked (sc_blocks s1 ! i) = unlinked (sc_blocks s ! i)"
    using assms list_change_fields(10) [OF assms(1)] nth_map_eq [of unlinked "sc_blocks s1" "sc_blocks s" i]
    by (simp add: list_change_def)
  then show "sb_in_use (sc_blocks s1 ! i) = sb_in_use (sc_blocks s ! i)"
    "sb_generation (sc_blocks s1 ! i) = sb_generation (sc_blocks s ! i)"
    "sb_offset (sc_blocks s1 ! i) = sb_offset (sc_blocks s ! i)"
    "sb_size (sc_blocks s1 ! i) = sb_size (sc_blocks s ! i)"
    "sb_next_free (sc_blocks s1 ! i) = sb_next_free (sc_blocks s ! i)"
    by (cases "sc_blocks s1 ! i"; cases "sc_blocks s ! i"; simp add: unlinked_def)+
qed

lemma list_change_update:
  assumes "i < length (sc_blocks s)" "unlinked (f (sc_blocks s ! i)) = unlinked (sc_blocks s ! i)"
  shows "list_change s (update_block i f s)"
  using assms by (simp add: list_change_def update_block_def map_update_idem)

lemma list_change_ends: "list_change s (s\<lparr>sc_head := p\<rparr>)" "list_change s (s\<lparr>sc_tail := p\<rparr>)"
  by (simp_all add: list_change_def)

lemma list_change_live: "list_change s s1 \<Longrightarrow> live_set (sc_blocks s1) = live_set (sc_blocks s)"
  using list_change_fields(10) list_change_block(1) by (auto simp: live_set_def)

lemma link_block_effect:
  assumes "dlist s ls" "i < length (sc_blocks s)" "sb_in_use (sc_blocks s ! i)" "i \<notin> set ls"
    "\<And>x. x \<in> set ls \<Longrightarrow> sb_in_use (sc_blocks s ! x)"
  shows "list_change s (scma_link_block_at_tail i s)" "dlist (scma_link_block_at_tail i s) (ls @ [i])"
proof -
  define s1 where "s1 = update_block i (\<lambda>b. b\<lparr>sb_prev := sc_tail s, sb_next := None\<rparr>) s"
  have c1: "list_change s s1" unfolding s1_def by (rule list_change_update [OF assms(2)]) (simp add: unlinked_def)
  have seg1: "seg (sc_blocks s1) None ls None"
    using assms(1,4) by (simp add: dlist_def s1_def update_block_def seg_update)
  have i1: "i < length (sc_blocks s1)" "sb_prev (sc_blocks s1 ! i) = last_of ls" "sb_next (sc_blocks s1 ! i) = None"
    using assms(1,2) by (simp_all add: s1_def update_block_nth dlist_def)
  have both: "list_change s (scma_link_block_at_tail i s) \<and> dlist (scma_link_block_at_tail i s) (ls @ [i])"
  proof (cases ls rule: rev_cases)
    case Nil
    then have eq: "scma_link_block_at_tail i s = s1\<lparr>sc_head := Some i, sc_tail := Some i\<rparr>"
      using assms by (simp add: scma_link_block_at_tail_def s1_def dlist_def)
    have "list_change s1 (s1\<lparr>sc_head := Some i, sc_tail := Some i\<rparr>)" by (simp add: list_change_def)
    then show ?thesis unfolding eq using list_change_trans [OF c1] i1 Nil by (simp add: dlist_def)
  next
    case (snoc qs q)
    then have q: "sc_tail s = Some q" "q < length (sc_blocks s)" "sb_next (sc_blocks s ! q) = None"
      "sb_in_use (sc_blocks s ! q)" "q \<noteq> i"
      using assms by (auto simp: dlist_def seg_append)
    define s2 where "s2 = update_block q (\<lambda>b. b\<lparr>sb_next := Some i\<rparr>) s1"
    have eq: "scma_link_block_at_tail i s = s2\<lparr>sc_tail := Some i\<rparr>"
      using assms(2,3) q by (simp add: scma_link_block_at_tail_def s1_def s2_def)
    have c2: "list_change s1 s2"
      unfolding s2_def by (rule list_change_update) (use q(2) in \<open>simp_all add: s1_def unlinked_def\<close>)
    have c3: "list_change s (s2\<lparr>sc_tail := Some i\<rparr>)"
      using list_change_trans [OF list_change_trans [OF c1 c2] list_change_ends(2)] .
    have "q \<notin> set qs" using assms(1) snoc by (simp add: dlist_def)
    then have "seg (sc_blocks s2) None (qs @ [q]) (Some i)"
      using seg_set_next [of "sc_blocks s1" None qs q None] seg1 snoc
      by (simp add: s2_def update_block_def)
    moreover have "sc_blocks s2 ! i = sc_blocks s1 ! i" "length (sc_blocks s2) = length (sc_blocks s1)"
      using i1(1) q(5) by (simp_all add: s2_def update_block_nth)
    ultimately show ?thesis
      unfolding eq using c3 i1 snoc assms(1,4) by (auto simp: dlist_def seg_append s2_def s1_def end_append)
  qed
  then show "list_change s (scma_link_block_at_tail i s)" "dlist (scma_link_block_at_tail i s) (ls @ [i])"
    by auto
qed

lemma unlink_block_effect:
  assumes "dlist s ls" "i \<in> set ls" "sb_in_use (sc_blocks s ! i)"
  shows "list_change s (scma_unlink_block i s)" "dlist (scma_unlink_block i s) (remove1 i ls)"
proof -
  obtain as cs where ls: "ls = as @ i # cs" using assms(2) by (meson split_list)
  have d: "distinct (as @ i # cs)" and sg: "seg (sc_blocks s) None (as @ i # cs) None"
    using assms(1) ls by (simp_all add: dlist_def)
  have parts: "seg (sc_blocks s) None as (Some i)" "i < length (sc_blocks s)"
    "sb_prev (sc_blocks s ! i) = last_of as" "sb_next (sc_blocks s ! i) = first_of cs"
    "seg (sc_blocks s) (Some i) cs None"
    using sg by (auto simp: seg_append split: if_splits)
  define s1 where "s1 = (case last_of as of None \<Rightarrow> s\<lparr>sc_head := first_of cs\<rparr>
    | Some p \<Rightarrow> update_block p (\<lambda>b. b\<lparr>sb_next := first_of cs\<rparr>) s)"
  define s2 where "s2 = (case first_of cs of None \<Rightarrow> s1\<lparr>sc_tail := last_of as\<rparr>
    | Some n \<Rightarrow> update_block n (\<lambda>b. b\<lparr>sb_prev := last_of as\<rparr>) s1)"
  define s3 where "s3 = update_block i (\<lambda>b. b\<lparr>sb_prev := None, sb_next := None\<rparr>) s2"
  have s1: "list_change s s1 \<and> seg (sc_blocks s1) None as (first_of cs) \<and> seg (sc_blocks s1) (Some i) cs None
    \<and> sc_head s1 = first_of (as @ cs) \<and> sc_tail s1 = sc_tail s"
  proof (cases as rule: rev_cases)
    case Nil
    then show ?thesis using parts list_change_ends by (simp add: s1_def)
  next
    case (snoc ps p)
    have p: "p < length (sc_blocks s)" "p \<notin> set ps" "p \<notin> set cs"
      using d snoc seg_bound [OF sg, of p] by auto
    have eq: "s1 = update_block p (\<lambda>b. b\<lparr>sb_next := first_of cs\<rparr>) s" using snoc by (simp add: s1_def)
    have "list_change s s1" unfolding eq by (rule list_change_update [OF p(1)]) (simp add: unlinked_def)
    moreover have "seg (sc_blocks s1) None (ps @ [p]) (first_of cs)"
      unfolding eq update_block_def using seg_set_next [OF _ p(2)] parts(1) snoc by simp
    moreover have "seg (sc_blocks s1) (Some i) cs None"
      unfolding eq update_block_def using seg_update [OF parts(5) p(3)] by simp
    moreover have "sc_head s1 = first_of (as @ cs)"
      using assms(1) ls snoc unfolding eq by (cases ps) (simp_all add: dlist_def)
    ultimately show ?thesis using snoc eq by simp
  qed
  have len1: "length (sc_blocks s1) = length (sc_blocks s)" using s1 list_change_fields(10) by blast
  have s2: "list_change s s2 \<and> seg (sc_blocks s2) None as (first_of cs) \<and> seg (sc_blocks s2) (last_of as) cs None
    \<and> sc_head s2 = first_of (as @ cs) \<and> sc_tail s2 = last_of (as @ cs)"
  proof (cases cs)
    case Nil
    then show ?thesis using s1 list_change_trans [OF _ list_change_ends(2)] by (simp add: s2_def)
  next
    case (Cons n ns)
    have n: "n < length (sc_blocks s1)" "n \<notin> set ns" "n \<notin> set as"
      using d Cons seg_bound [OF sg, of n] len1 by auto
    have eq: "s2 = update_block n (\<lambda>b. b\<lparr>sb_prev := last_of as\<rparr>) s1" using Cons by (simp add: s2_def)
    have "list_change s1 s2" unfolding eq by (rule list_change_update [OF n(1)]) (simp add: unlinked_def)
    then have "list_change s s2" using s1 list_change_trans by blast
    moreover have "seg (sc_blocks s2) None as (first_of cs)"
      unfolding eq update_block_def using seg_update s1 n(3) by simp
    moreover have "seg (sc_blocks s2) (last_of as) (n # ns) None"
      unfolding eq update_block_def using seg_set_prev [OF _ n(2)] s1 Cons by simp
    moreover have "sc_tail s2 = last_of (as @ cs)"
      using assms(1) ls s1 Cons unfolding eq by (simp add: dlist_def last_of_def)
    ultimately show ?thesis using s1 Cons eq by simp
  qed
  have len2: "length (sc_blocks s2) = length (sc_blocks s)" using s2 list_change_fields(10) by blast
  have "scma_unlink_block i s = s3"
  proof -
    have "p < length (sc_blocks s) \<and> sb_next (sc_blocks s ! p) = Some i" if "last_of as = Some p" for p
      using that parts(1) by (cases as rule: rev_cases) (auto simp: seg_append)
    moreover have "n < length (sc_blocks s) \<and> sb_prev (sc_blocks s ! n) = Some i" if "first_of cs = Some n" for n
      using that parts(5) by (cases cs) auto
    ultimately show ?thesis
      unfolding scma_unlink_block_def using parts(2-4) assms(3)
      by (cases "last_of as"; cases "first_of cs") (auto simp: Let_def s3_def s2_def s1_def not_le)
  qed
  moreover have "list_change s2 s3"
    unfolding s3_def by (rule list_change_update) (use parts(2) len2 in \<open>simp_all add: unlinked_def\<close>)
  moreover have "dlist s3 (as @ cs)"
    using s2 d by (auto simp: dlist_def s3_def update_block_def seg_append intro: seg_update)
  moreover have "remove1 i ls = as @ cs" using d ls by (simp add: remove1_append)
  ultimately show "list_change s (scma_unlink_block i s)" "dlist (scma_unlink_block i s) (remove1 i ls)"
    using s2 list_change_trans by auto
qed

subsection \<open>The layout of the heap\<close>

definition block_end :: "scma_block list \<Rightarrow> nat \<Rightarrow> nat" where
  "block_end blocks i = sb_offset (blocks ! i) + sb_size (blocks ! i)"

definition extent :: "scma_block list \<Rightarrow> nat \<Rightarrow> nat set" where
  "extent blocks i = {sb_offset (blocks ! i)..<block_end blocks i}"

definition total_size :: "scma_block list \<Rightarrow> nat" where
  "total_size blocks = (\<Sum>i \<in> live_set blocks. sb_size (blocks ! i))"

definition apart :: "scma_block list \<Rightarrow> nat \<Rightarrow> nat \<Rightarrow> bool" where
  "apart blocks i j \<longleftrightarrow> block_end blocks i \<le> sb_offset (blocks ! j) \<or> block_end blocks j \<le> sb_offset (blocks ! i)"

definition layout :: "scma_block list \<Rightarrow> nat \<Rightarrow> bool" where
  "layout blocks used \<longleftrightarrow>
     (\<forall>i \<in> live_set blocks. 0 < sb_size (blocks ! i) \<and> block_end blocks i \<le> used)
     \<and> (\<forall>i \<in> live_set blocks. \<forall>j \<in> live_set blocks. i \<noteq> j \<longrightarrow> apart blocks i j)"

lemma layoutD:
  assumes "layout blocks used" "i \<in> live_set blocks"
  shows "0 < sb_size (blocks ! i)" "block_end blocks i \<le> used"
    "j \<in> live_set blocks \<Longrightarrow> i \<noteq> j \<Longrightarrow> apart blocks i j"
  using assms by (auto simp: layout_def)

lemma apart_disjoint: "apart blocks i j \<Longrightarrow> extent blocks i \<inter> extent blocks j = {}"
  by (auto simp: apart_def extent_def)

lemma card_extents:
  assumes "layout blocks used"
  shows "card (\<Union>i \<in> live_set blocks. extent blocks i) = total_size blocks"
proof -
  have "card (\<Union>i \<in> live_set blocks. extent blocks i) = (\<Sum>i \<in> live_set blocks. card (extent blocks i))"
  proof (rule card_UN_disjoint)
    show "\<forall>i \<in> live_set blocks. finite (extent blocks i)" by (simp add: extent_def)
    show "\<forall>i \<in> live_set blocks. \<forall>j \<in> live_set blocks. i \<noteq> j \<longrightarrow> extent blocks i \<inter> extent blocks j = {}"
      using layoutD(3) [OF assms] apart_disjoint by blast
  qed simp
  then show ?thesis by (simp add: total_size_def extent_def block_end_def)
qed

lemma total_size_bound:
  assumes "layout blocks used"
  shows "total_size blocks \<le> used"
proof -
  have "(\<Union>i \<in> live_set blocks. extent blocks i) \<subseteq> {..<used}"
    using assms by (fastforce simp: layout_def extent_def)
  then have "card (\<Union>i \<in> live_set blocks. extent blocks i) \<le> used"
    using card_mono [of "{..<used}"] by fastforce
  then show ?thesis using card_extents [OF assms] by simp
qed

text \<open>Without gaps the blocks cover the used part.\<close>

lemma extents_cover:
  assumes "layout blocks used" "total_size blocks = used" "p < used"
  shows "\<exists>i \<in> live_set blocks. p \<in> extent blocks i"
proof -
  have "(\<Union>i \<in> live_set blocks. extent blocks i) = {..<used}"
  proof (rule card_subset_eq)
    show "(\<Union>i \<in> live_set blocks. extent blocks i) \<subseteq> {..<used}"
      using assms(1) by (fastforce simp: layout_def extent_def)
  qed (use card_extents [OF assms(1)] assms(2) in auto)
  then show ?thesis using assms(3) by blast
qed

lemma max_end_loop_le:
  "m \<le> u \<Longrightarrow> (\<And>b. b \<in> set bs \<Longrightarrow> sb_in_use b \<Longrightarrow> sb_offset b + sb_size b \<le> u) \<Longrightarrow> max_end_loop bs m \<le> u"
  by (induction bs arbitrary: m) (auto simp: Let_def)

lemma max_end_loop_ge:
  assumes "\<And>b. b \<in> set bs \<Longrightarrow> sb_in_use b \<Longrightarrow> sb_offset b + sb_size b \<le> FT_SYSTEM_SIZE_MAX"
  shows "m \<le> max_end_loop bs m"
    "b \<in> set bs \<Longrightarrow> sb_in_use b \<Longrightarrow> sb_offset b + sb_size b \<le> max_end_loop bs m"
proof -
  have both: "m \<le> max_end_loop bs m \<and> (\<forall>b \<in> set bs. sb_in_use b \<longrightarrow> sb_offset b + sb_size b \<le> max_end_loop bs m)"
    using assms
  proof (induction bs arbitrary: m)
    case (Cons a bs)
    define m1 where "m1 = (if sb_in_use a \<and> sb_size a \<le> FT_SYSTEM_SIZE_MAX - sb_offset a
      then let block_end = sb_offset a + sb_size a in if block_end > m then block_end else m else m)"
    have "m \<le> m1" by (simp add: m1_def Let_def)
    moreover have "sb_offset a + sb_size a \<le> m1" if "sb_in_use a"
      using Cons.prems [of a] that by (auto simp: m1_def Let_def)
    moreover have "max_end_loop (a # bs) m = max_end_loop bs m1" by (simp add: m1_def)
    ultimately show ?case using Cons.IH [of m1] Cons.prems le_trans by fastforce
  qed simp
  then show "m \<le> max_end_loop bs m"
    "b \<in> set bs \<Longrightarrow> sb_in_use b \<Longrightarrow> sb_offset b + sb_size b \<le> max_end_loop bs m" by auto
qed

lemma recompute_simps [simp]:
  "sc_heap (scma_recompute_used_size s) = sc_heap s" "sc_blocks (scma_recompute_used_size s) = sc_blocks s"
  "sc_block_capacity (scma_recompute_used_size s) = sc_block_capacity s"
  "sc_live (scma_recompute_used_size s) = sc_live s" "sc_head (scma_recompute_used_size s) = sc_head s"
  "sc_tail (scma_recompute_used_size s) = sc_tail s" "sc_free (scma_recompute_used_size s) = sc_free s"
  "sc_needed (scma_recompute_used_size s) = sc_needed s" "sc_cursor (scma_recompute_used_size s) = sc_cursor s"
  "sc_target (scma_recompute_used_size s) = sc_target s"
  "sc_initialised (scma_recompute_used_size s) = sc_initialised s"
  by (simp_all add: scma_recompute_used_size_def)

lemma live_set_iff: "(\<forall>b \<in> set bs. sb_in_use b \<longrightarrow> P b) \<longleftrightarrow> (\<forall>i \<in> live_set bs. P (bs ! i))"
  by (fastforce simp: live_set_def in_set_conv_nth)

lemma recompute_layout:
  assumes "layout (sc_blocks s) u" "u \<le> FT_SYSTEM_SIZE_MAX"
  shows "layout (sc_blocks s) (sc_used (scma_recompute_used_size s))"
    "sc_used (scma_recompute_used_size s) \<le> u"
proof -
  have u: "\<forall>b \<in> set (sc_blocks s). sb_in_use b \<longrightarrow> sb_offset b + sb_size b \<le> u"
    unfolding live_set_iff using assms(1) by (simp add: layout_def block_end_def)
  then have ge: "\<forall>b \<in> set (sc_blocks s). sb_in_use b \<longrightarrow>
      sb_offset b + sb_size b \<le> sc_used (scma_recompute_used_size s)"
    using max_end_loop_ge(2) [of "sc_blocks s" _ 0] assms(2) unfolding scma_recompute_used_size_def
    by fastforce
  show "layout (sc_blocks s) (sc_used (scma_recompute_used_size s))"
    using ge [unfolded live_set_iff] assms(1) by (simp add: layout_def block_end_def)
  show "sc_used (scma_recompute_used_size s) \<le> u"
    using u max_end_loop_le [of 0 u "sc_blocks s"] by (simp add: scma_recompute_used_size_def)
qed

subsection \<open>The invariant\<close>

definition core :: "scma_state \<Rightarrow> nat list \<Rightarrow> bool" where
  "core s ls \<longleftrightarrow> sc_initialised s \<and> layout (sc_blocks s) (sc_used s) \<and> sc_used s \<le> length (sc_heap s)
     \<and> length (sc_heap s) \<le> FT_SYSTEM_SIZE_MAX \<and> dlist s ls \<and> set ls = live_set (sc_blocks s)
     \<and> sc_live s = total_size (sc_blocks s) \<and> length (sc_blocks s) \<le> sc_block_capacity s
     \<and> sc_block_capacity s \<le> FT_SYSTEM_SIZE_MAX div sizeof_scma_block
     \<and> (\<forall>b \<in> set (sc_blocks s). sb_generation b \<noteq> 0 \<and> sb_generation b \<noteq> -1)"

lemma coreD:
  assumes "core s ls"
  shows "sc_initialised s" "layout (sc_blocks s) (sc_used s)" "sc_used s \<le> length (sc_heap s)"
    "length (sc_heap s) \<le> FT_SYSTEM_SIZE_MAX" "dlist s ls" "set ls = live_set (sc_blocks s)"
    "sc_live s = total_size (sc_blocks s)" "length (sc_blocks s) \<le> sc_block_capacity s"
    "sc_block_capacity s \<le> FT_SYSTEM_SIZE_MAX div sizeof_scma_block"
    "i < length (sc_blocks s) \<Longrightarrow> sb_generation (sc_blocks s ! i) \<noteq> 0 \<and> sb_generation (sc_blocks s ! i) \<noteq> -1"
  using assms by (auto simp: core_def)

text \<open>The bytes of a block.\<close>

definition block_bytes :: "scma_state \<Rightarrow> nat \<Rightarrow> bytes" where
  "block_bytes s i = take (sb_size (sc_blocks s ! i)) (drop (sb_offset (sc_blocks s ! i)) (sc_heap s))"

text \<open>Two states with the same live blocks, which hold the same bytes under the same handles.\<close>

definition same_blocks :: "scma_state \<Rightarrow> scma_state \<Rightarrow> bool" where
  "same_blocks s s1 \<longleftrightarrow> sc_initialised s1 = sc_initialised s \<and> live_set (sc_blocks s1) = live_set (sc_blocks s)
     \<and> (\<forall>i \<in> live_set (sc_blocks s). sb_generation (sc_blocks s1 ! i) = sb_generation (sc_blocks s ! i)
          \<and> block_bytes s1 i = block_bytes s i)"

lemma same_blocks_refl [simp, intro]: "same_blocks s s"
  by (simp add: same_blocks_def)

lemma same_blocks_trans: "same_blocks s s1 \<Longrightarrow> same_blocks s1 s2 \<Longrightarrow> same_blocks s s2"
  by (auto simp: same_blocks_def)

lemma free_change_live: "free_change s s1 \<Longrightarrow> live_set (sc_blocks s1) = live_set (sc_blocks s)"
  using free_change_fields(11) free_change_block(1) by (auto simp: live_set_def)

lemma live_setD: "i \<in> live_set blocks \<Longrightarrow> i < length blocks \<and> sb_in_use (blocks ! i)"
  by (simp add: live_set_def)

lemma layout_cong:
  assumes "live_set bs1 = live_set bs" "\<And>i. i \<in> live_set bs \<Longrightarrow> sb_offset (bs1 ! i) = sb_offset (bs ! i)"
    "\<And>i. i \<in> live_set bs \<Longrightarrow> sb_size (bs1 ! i) = sb_size (bs ! i)"
  shows "layout bs1 u = layout bs u" "total_size bs1 = total_size bs"
  using assms by (auto simp: layout_def total_size_def apart_def block_end_def cong: sum.cong)

lemma core_free_change:
  assumes "core s ls" "free_change s s1"
  shows "core s1 ls" "same_blocks s s1"
proof -
  note F = free_change_fields [OF assms(2)] and B = free_change_block [OF assms(2)]
  note C = coreD [OF assms(1)]
  have live: "live_set (sc_blocks s1) = live_set (sc_blocks s)" using free_change_live [OF assms(2)] .
  have off: "sb_offset (sc_blocks s1 ! i) = sb_offset (sc_blocks s ! i)"
    "sb_size (sc_blocks s1 ! i) = sb_size (sc_blocks s ! i)" if "i \<in> live_set (sc_blocks s)" for i
    using B(5,6) live_setD [OF that] by auto
  have "dlist s1 ls"
    using C(5) F(5,6) unfolding dlist_def
    by (auto intro!: seg_cong [of "sc_blocks s"] simp: F(11) B(3,4) seg_bound)
  moreover have "\<forall>b \<in> set (sc_blocks s1). sb_generation b \<noteq> 0 \<and> sb_generation b \<noteq> -1"
    using C(10) B(2) F(11) by (auto simp: in_set_conv_nth)
  ultimately show "core s1 ls"
    using C F live layout_cong [OF live off] by (simp add: core_def)
  show "same_blocks s s1"
    using live off F(1,10) B(2) live_setD by (auto simp: same_blocks_def block_bytes_def)
qed

lemma core_list_change:
  assumes "core s ls" "list_change s s1" "dlist s1 ls1" "set ls1 = set ls"
  shows "core s1 ls1" "same_blocks s s1"
proof -
  note F = list_change_fields [OF assms(2)] and B = list_change_block [OF assms(2)]
  note C = coreD [OF assms(1)]
  have live: "live_set (sc_blocks s1) = live_set (sc_blocks s)" using list_change_live [OF assms(2)] .
  have off: "sb_offset (sc_blocks s1 ! i) = sb_offset (sc_blocks s ! i)"
    "sb_size (sc_blocks s1 ! i) = sb_size (sc_blocks s ! i)" if "i \<in> live_set (sc_blocks s)" for i
    using B(3,4) live_setD [OF that] by auto
  have "\<forall>b \<in> set (sc_blocks s1). sb_generation b \<noteq> 0 \<and> sb_generation b \<noteq> -1"
    using C(10) B(2) F(10) by (auto simp: in_set_conv_nth)
  then show "core s1 ls1"
    using C F live layout_cong [OF live off] assms(3,4) by (simp add: core_def)
  show "same_blocks s s1"
    using live off F(1,9) B(2) live_setD by (auto simp: same_blocks_def block_bytes_def)
qed

lemma free_ok_list_change:
  assumes "free_ok s fs" "list_change s s1"
  shows "free_ok s1 fs"
proof -
  note F = list_change_fields [OF assms(2)] and B = list_change_block [OF assms(2)]
  have "chain (sc_blocks s1) (sc_free s1) fs"
    by (rule chain_cong [of "sc_blocks s"]) (use free_okD [OF assms(1)] F B in auto)
  then show ?thesis using free_okD [OF assms(1)] F(1) B by (auto simp: free_ok_def)
qed

text \<open>Changes of the counters alone.\<close>

lemma core_used:
  assumes "core s ls" "layout (sc_blocks s) u" "u \<le> length (sc_heap s)"
  shows "core (s\<lparr>sc_used := u\<rparr>) ls"
  using assms by (simp add: core_def dlist_def)

lemma core_recompute:
  assumes "core s ls"
  shows "core (scma_recompute_used_size s) ls" "same_blocks s (scma_recompute_used_size s)"
    "sc_used (scma_recompute_used_size s) \<le> sc_used s"
proof -
  note C = coreD [OF assms]
  note R = recompute_layout [OF C(2) order_trans [OF C(3,4)]]
  have "core (s\<lparr>sc_used := sc_used (scma_recompute_used_size s)\<rparr>) ls"
    by (rule core_used [OF assms R(1)]) (use R(2) C(3) in simp)
  then show "core (scma_recompute_used_size s) ls" by (simp add: scma_recompute_used_size_def)
  show "same_blocks s (scma_recompute_used_size s)" by (simp add: same_blocks_def block_bytes_def)
  show "sc_used (scma_recompute_used_size s) \<le> sc_used s" by (rule R(2))
qed

lemma grow_loop_returns:
  assumes "0 < c" "r \<le> FT_SYSTEM_SIZE_MAX"
  shows "\<exists>n. scma_grow_loop c r = Some n \<and> r \<le> n \<and> c \<le> n \<and> n \<le> max c r"
  using assms
proof (induction "r - c" arbitrary: c rule: less_induct)
  case less
  have r: "scma_grow_loop r r = Some r" by (subst scma_grow_loop.simps) simp
  show ?case
  proof (cases "c < r \<and> \<not> c > r div 2 \<and> \<not> c > FT_SYSTEM_SIZE_MAX div 2")
    case True
    have "\<exists>n. scma_grow_loop (c * 2) r = Some n \<and> r \<le> n \<and> c * 2 \<le> n \<and> n \<le> max (c * 2) r"
      by (rule less.hyps) (use True less.prems in auto)
    moreover have "c * 2 \<le> r" using True by linarith
    ultimately show ?thesis using True by (subst scma_grow_loop.simps) auto
  next
    case False
    then show ?thesis using r by (subst scma_grow_loop.simps) auto
  qed
qed

text \<open>
  What \<open>realloc\<close> promises: the new block has the size asked for and starts with the old bytes. Memory that
  is new holds bytes of some set; to follow where bytes come from, any set that covers them may be taken.
\<close>

definition scma_env_ok :: "scma_env \<Rightarrow> bool" where
  "scma_env_ok env \<longleftrightarrow> (\<forall>n b. se_malloc env n = Some b \<longrightarrow> length b = n)
     \<and> (\<forall>h n b. se_realloc env h n = Some b \<longrightarrow> length b = n \<and> take (min n (length h)) b = take (min n (length h)) h)"

definition fresh_from :: "scma_env \<Rightarrow> u8 set \<Rightarrow> bool" where
  "fresh_from env D \<longleftrightarrow> (\<forall>n b. se_malloc env n = Some b \<longrightarrow> set b \<subseteq> D)
     \<and> (\<forall>h n b. se_realloc env h n = Some b \<longrightarrow> set (drop (length h) b) \<subseteq> D)"

lemma block_bytes_prefix:
  assumes "take n h1 = take n h" "block_end (sc_blocks s) i \<le> n"
  shows "block_bytes (s\<lparr>sc_heap := h1\<rparr>) i = block_bytes (s\<lparr>sc_heap := h\<rparr>) i"
proof -
  let ?o = "sb_offset (sc_blocks s ! i)" and ?z = "sb_size (sc_blocks s ! i)"
  have eq: "take ?z (drop ?o xs) = drop ?o (take (?o + ?z) (take n xs))" for xs :: bytes
    using assms(2) by (simp add: block_end_def take_drop add.commute min_def)
  show ?thesis using eq [of h1] eq [of h] assms(1) by (simp add: block_bytes_def)
qed

lemma ensure_capacity_effect:
  assumes env: "scma_env_ok env" and co: "core s ls" and fr: "free_ok s fs"
  obtains h granted where "scma_ensure_capacity env n s = Some (s\<lparr>sc_heap := h\<rparr>, granted)"
    "length (sc_heap s) \<le> length h" "take (length (sc_heap s)) h = sc_heap s"
    "core (s\<lparr>sc_heap := h\<rparr>) ls" "free_ok (s\<lparr>sc_heap := h\<rparr>) fs" "same_blocks s (s\<lparr>sc_heap := h\<rparr>)"
    "granted \<longrightarrow> n \<le> length h \<and> n < FT_SYSTEM_SIZE_MAX"
    "\<forall>D. fresh_from env D \<longrightarrow> set (drop (length (sc_heap s)) h) \<subseteq> D"
    "(\<forall>x k. se_realloc env x k \<noteq> None) \<and> n < FT_SYSTEM_SIZE_MAX \<longrightarrow> granted"
proof -
  note C = coreD [OF co]
  let ?H = "length (sc_heap s)"
  have "\<exists>h granted. scma_ensure_capacity env n s = Some (s\<lparr>sc_heap := h\<rparr>, granted)
    \<and> ?H \<le> length h \<and> take ?H h = sc_heap s \<and> length h \<le> FT_SYSTEM_SIZE_MAX
    \<and> (granted \<longrightarrow> n \<le> length h \<and> n < FT_SYSTEM_SIZE_MAX)
    \<and> (\<forall>D. fresh_from env D \<longrightarrow> set (drop ?H h) \<subseteq> D)
    \<and> ((\<forall>x k. se_realloc env x k \<noteq> None) \<and> n < FT_SYSTEM_SIZE_MAX \<longrightarrow> granted)"
  proof (cases "n < FT_SYSTEM_SIZE_MAX \<and> ?H < n")
    case False
    then have "scma_ensure_capacity env n s = Some (s\<lparr>sc_heap := sc_heap s\<rparr>, n < FT_SYSTEM_SIZE_MAX)"
      by (auto simp: scma_ensure_capacity_def)
    with False C(4) show ?thesis by (intro exI [of _ "sc_heap s"] exI [of _ "n < FT_SYSTEM_SIZE_MAX"]) auto
  next
    case True
    define c where "c = (if ?H = 0 then n else ?H)"
    have c: "0 < c" "c \<le> FT_SYSTEM_SIZE_MAX" using True C(4) by (auto simp: c_def)
    obtain m where m: "scma_grow_loop c n = Some m" "n \<le> m" "m \<le> max c n"
      using grow_loop_returns [OF c(1), of n] True by auto
    have mb: "m \<le> FT_SYSTEM_SIZE_MAX" using m(3) c(2) True by linarith
    have eq: "scma_ensure_capacity env n s = Some (case se_realloc env (sc_heap s) m of
        None \<Rightarrow> (s, False) | Some h \<Rightarrow> (s\<lparr>sc_heap := h\<rparr>, True))"
      unfolding scma_ensure_capacity_def c_def [symmetric] using True m(1) mb by simp
    show ?thesis
    proof (cases "se_realloc env (sc_heap s) m")
      case None
      then show ?thesis using eq C(4) by (intro exI [of _ "sc_heap s"] exI [of _ False]) auto
    next
      case (Some h)
      have "length h = m \<and> take (min m ?H) h = take (min m ?H) (sc_heap s)"
        using env Some unfolding scma_env_ok_def by blast
      moreover have "min m ?H = ?H" using True m(2) by simp
      ultimately have h: "length h = m" "take ?H h = sc_heap s" by simp_all
      have "\<forall>D. fresh_from env D \<longrightarrow> set (drop ?H h) \<subseteq> D" using Some unfolding fresh_from_def by blast
      then show ?thesis using Some eq h True m(2) mb by (intro exI [of _ h] exI [of _ True]) auto
    qed
  qed
  then obtain h granted where h: "scma_ensure_capacity env n s = Some (s\<lparr>sc_heap := h\<rparr>, granted)"
    "?H \<le> length h" "take ?H h = sc_heap s" "length h \<le> FT_SYSTEM_SIZE_MAX"
    "granted \<longrightarrow> n \<le> length h \<and> n < FT_SYSTEM_SIZE_MAX"
    "\<forall>D. fresh_from env D \<longrightarrow> set (drop ?H h) \<subseteq> D"
    "(\<forall>x k. se_realloc env x k \<noteq> None) \<and> n < FT_SYSTEM_SIZE_MAX \<longrightarrow> granted" by blast
  have "core (s\<lparr>sc_heap := h\<rparr>) ls" using co h(2,4) by (simp add: core_def dlist_def)
  moreover have "free_ok (s\<lparr>sc_heap := h\<rparr>) fs" using fr h(2) by (auto simp: free_ok_def)
  moreover have "block_bytes (s\<lparr>sc_heap := h\<rparr>) i = block_bytes s i" if "i \<in> live_set (sc_blocks s)" for i
    using block_bytes_prefix [of ?H h "sc_heap s" s i] h(3) layoutD(2) [OF C(2) that] C(3) by simp
  then have "same_blocks s (s\<lparr>sc_heap := h\<rparr>)" by (simp add: same_blocks_def)
  ultimately show thesis using that h by blast
qed

lemma ensure_block_capacity_effect:
  assumes co: "core s ls" and n: "n \<le> length (sc_blocks s) + 1"
  obtains k granted where "scma_ensure_block_capacity env n s = Some (s\<lparr>sc_block_capacity := k\<rparr>, granted)"
    "sc_block_capacity s \<le> k" "k \<le> FT_SYSTEM_SIZE_MAX div sizeof_scma_block" "granted \<longrightarrow> n \<le> k"
    "core (s\<lparr>sc_block_capacity := k\<rparr>) ls"
    "(\<forall>m. se_blocks env m) \<and> n \<le> FT_SYSTEM_SIZE_MAX div sizeof_scma_block \<longrightarrow> granted"
proof -
  note C = coreD [OF co]
  let ?K = "sc_block_capacity s"
  have "\<exists>k granted. scma_ensure_block_capacity env n s = Some (s\<lparr>sc_block_capacity := k\<rparr>, granted)
    \<and> ?K \<le> k \<and> k \<le> FT_SYSTEM_SIZE_MAX div sizeof_scma_block \<and> (granted \<longrightarrow> n \<le> k)
    \<and> ((\<forall>m. se_blocks env m) \<and> n \<le> FT_SYSTEM_SIZE_MAX div sizeof_scma_block \<longrightarrow> granted)"
  proof (cases "?K < n")
    case False
    then show ?thesis using C(9)
      by (intro exI [of _ ?K] exI [of _ True]) (auto simp: scma_ensure_block_capacity_def)
  next
    case True
    define c where "c = (if ?K = 0 then n else ?K)"
    have c: "0 < c" using True by (simp add: c_def)
    have "n \<le> FT_SYSTEM_SIZE_MAX" using n C(8,9) by (simp add: FT_SYSTEM_SIZE_MAX_def sizeof_scma_block_def)
    then obtain m where m: "scma_grow_loop c n = Some m" "n \<le> m" "m \<le> max c n"
      using grow_loop_returns [OF c, of n] by auto
    have mn: "m = n" using m(2,3) True by (auto simp: c_def split: if_splits)
    show ?thesis
    proof (cases "m \<le> FT_SYSTEM_SIZE_MAX div sizeof_scma_block \<and> se_blocks env (m * sizeof_scma_block)")
      case fits: True
      moreover from fits have "m \<le> FT_SYSTEM_SIZE_MAX" by (auto simp: sizeof_scma_block_def)
      ultimately have "scma_ensure_block_capacity env n s = Some (s\<lparr>sc_block_capacity := m\<rparr>, True)"
        unfolding scma_ensure_block_capacity_def c_def [symmetric] using True m(1) by simp
      then show ?thesis using fits m(2) True by (intro exI [of _ m] exI [of _ True]) auto
    next
      case False
      then have "scma_ensure_block_capacity env n s = Some (s\<lparr>sc_block_capacity := ?K\<rparr>, False)"
        unfolding scma_ensure_block_capacity_def c_def [symmetric] using True m(1) by auto
      moreover have "\<not> ((\<forall>m. se_blocks env m) \<and> n \<le> FT_SYSTEM_SIZE_MAX div sizeof_scma_block)"
        using False mn by blast
      ultimately show ?thesis using C(9) by (intro exI [of _ ?K] exI [of _ False]) auto
    qed
  qed
  then obtain k granted where k: "scma_ensure_block_capacity env n s = Some (s\<lparr>sc_block_capacity := k\<rparr>, granted)"
    "?K \<le> k" "k \<le> FT_SYSTEM_SIZE_MAX div sizeof_scma_block" "granted \<longrightarrow> n \<le> k"
    "(\<forall>m. se_blocks env m) \<and> n \<le> FT_SYSTEM_SIZE_MAX div sizeof_scma_block \<longrightarrow> granted" by blast
  have "core (s\<lparr>sc_block_capacity := k\<rparr>) ls" using co k(2,3) by (simp add: core_def dlist_def)
  then show thesis using that k by blast
qed

end
