(* ===== verification/Scma_Compact.thy ===== *)
theory Scma_Compact
  imports Scma_Live
begin

text \<open>
  Compaction slides the live blocks together, lowest first. Each step keeps the blocks apart and their
  bytes, the loops end, and at the end there is no gap and nothing readable behind the blocks.
\<close>

subsection \<open>Choosing the next block\<close>

fun least_loop :: "(nat \<Rightarrow> bool) \<Rightarrow> scma_block list \<Rightarrow> nat \<Rightarrow> nat option \<Rightarrow> nat \<Rightarrow> nat option" where
  "least_loop P [] index selected so = selected"
| "least_loop P (b # bs) index selected so =
     (if sb_in_use b \<and> P (sb_offset b) \<and> sb_offset b < so
      then least_loop P bs (index + 1) (Some index) (sb_offset b)
      else least_loop P bs (index + 1) selected so)"

lemma find_loops:
  "find_first_loop bs index selected so = least_loop (\<lambda>o'. True) bs index selected so"
  "find_next_loop prev bs index selected so = least_loop (\<lambda>o'. prev < o') bs index selected so"
  by (induction bs arbitrary: index selected so) auto

lemma least_loop_spec:
  shows "(\<forall>b \<in> set bs. \<not> (sb_in_use b \<and> P (sb_offset b) \<and> sb_offset b < so))
      \<Longrightarrow> least_loop P bs index selected so = selected"
    "\<exists>b \<in> set bs. sb_in_use b \<and> P (sb_offset b) \<and> sb_offset b < so \<Longrightarrow>
      \<exists>k < length bs. sb_in_use (bs ! k) \<and> P (sb_offset (bs ! k)) \<and> sb_offset (bs ! k) < so
        \<and> least_loop P bs index selected so = Some (index + k)
        \<and> (\<forall>b \<in> set bs. sb_in_use b \<and> P (sb_offset b) \<longrightarrow> sb_offset (bs ! k) \<le> sb_offset b)"
proof (induction bs arbitrary: index selected so)
  case (Cons b bs)
  {
    case 1
    then show ?case using Cons.IH(1) by auto
  next
    case 2
    define so1 where "so1 = (if sb_in_use b \<and> P (sb_offset b) \<and> sb_offset b < so then sb_offset b else so)"
    show ?case
    proof (cases "\<exists>a \<in> set bs. sb_in_use a \<and> P (sb_offset a) \<and> sb_offset a < so1")
      case True
      obtain k where k: "k < length bs" "sb_in_use (bs ! k)" "P (sb_offset (bs ! k))" "sb_offset (bs ! k) < so1"
        "least_loop P bs (index + 1) (if sb_in_use b \<and> P (sb_offset b) \<and> sb_offset b < so
           then Some index else selected) so1 = Some (index + 1 + k)"
        "\<forall>b \<in> set bs. sb_in_use b \<and> P (sb_offset b) \<longrightarrow> sb_offset (bs ! k) \<le> sb_offset b"
        using Cons.IH(2) [OF True] by blast
      then show ?thesis by (intro exI [of _ "Suc k"]) (auto simp: so1_def split: if_splits)
    next
      case False
      then have b: "sb_in_use b \<and> P (sb_offset b) \<and> sb_offset b < so" using 2 by (auto simp: so1_def split: if_splits)
      then show ?thesis
        using False Cons.IH(1) [of so1 "index + 1" "Some index"]
        by (intro exI [of _ 0]) (auto simp: so1_def not_less)
    qed
  }
qed simp_all

lemma least_block:
  fixes P :: "nat \<Rightarrow> bool" and blocks :: "scma_block list"
  assumes "layout blocks used" "used \<le> FT_SYSTEM_SIZE_MAX"
  defines "r \<equiv> least_loop P blocks 0 None FT_SYSTEM_SIZE_MAX"
  shows "r = None \<Longrightarrow> j \<in> live_set blocks \<Longrightarrow> \<not> P (sb_offset (blocks ! j))"
    "r = Some k \<Longrightarrow> k \<in> live_set blocks \<and> P (sb_offset (blocks ! k))"
    "r = Some k \<Longrightarrow> j \<in> live_set blocks \<Longrightarrow> P (sb_offset (blocks ! j)) \<Longrightarrow>
       sb_offset (blocks ! k) \<le> sb_offset (blocks ! j)"
proof -
  have small: "sb_offset (blocks ! j) < FT_SYSTEM_SIZE_MAX" if "j \<in> live_set blocks" for j
    using layoutD(1,2) [OF assms(1) that] assms(2) by (simp add: block_end_def)
  let ?C = "\<exists>b \<in> set blocks. sb_in_use b \<and> P (sb_offset b) \<and> sb_offset b < FT_SYSTEM_SIZE_MAX"
  have mem: "blocks ! j \<in> set blocks" "sb_in_use (blocks ! j)" if "j \<in> live_set blocks" for j
    using live_setD [OF that] by auto
  have none: "\<not> ?C \<Longrightarrow> r = None"
    unfolding r_def using least_loop_spec(1) [of blocks P FT_SYSTEM_SIZE_MAX] by blast
  have some: "\<exists>k. r = Some k \<and> k \<in> live_set blocks \<and> P (sb_offset (blocks ! k))
      \<and> (\<forall>b \<in> set blocks. sb_in_use b \<and> P (sb_offset b) \<longrightarrow> sb_offset (blocks ! k) \<le> sb_offset b)" if ?C
    unfolding r_def using least_loop_spec(2) [OF that, of 0 None] by (auto simp: live_set_def)
  show "r = None \<Longrightarrow> j \<in> live_set blocks \<Longrightarrow> \<not> P (sb_offset (blocks ! j))"
    using some small mem by fastforce
  show "r = Some k \<Longrightarrow> k \<in> live_set blocks \<and> P (sb_offset (blocks ! k))"
    using none some by (cases ?C) auto
  show "r = Some k \<Longrightarrow> j \<in> live_set blocks \<Longrightarrow> P (sb_offset (blocks ! j)) \<Longrightarrow>
       sb_offset (blocks ! k) \<le> sb_offset (blocks ! j)"
    using none some mem by (cases ?C) auto
qed

subsection \<open>Bytes\<close>

lemma slice_store:
  fixes h :: "'a list"
  assumes "d + length xs \<le> length h" "a + n \<le> d \<or> d + length xs \<le> a"
  shows "take n (drop a (take d h @ xs @ drop (d + length xs) h)) = take n (drop a h)"
  using assms by (auto simp: drop_append take_append drop_take min_def)

lemma slice_stored:
  fixes h :: "'a list"
  assumes "d \<le> length h"
  shows "take (length xs) (drop d (take d h @ xs @ drop (d + length xs) h)) = xs"
  using assms by simp

lemma store_self:
  fixes h :: "'a list"
  assumes "a + n \<le> length h"
  shows "take a h @ take n (drop a h) @ drop (a + n) h = h"
  using assms by (metis append_take_drop_id drop_drop add.commute)

subsection \<open>Sliding one block\<close>

text \<open>
  The state between two steps: the blocks below the cursor are done, and fill the heap up to the target.
\<close>

definition done_blocks :: "scma_state \<Rightarrow> nat set" where
  "done_blocks s = {j \<in> live_set (sc_blocks s). case sc_cursor s of None \<Rightarrow> True
     | Some i \<Rightarrow> sb_offset (sc_blocks s ! j) < sb_offset (sc_blocks s ! i)}"

definition sliding :: "scma_state \<Rightarrow> bool" where
  "sliding s \<longleftrightarrow> sc_target s = (\<Sum>j \<in> done_blocks s. sb_size (sc_blocks s ! j))
     \<and> (\<forall>j \<in> done_blocks s. block_end (sc_blocks s) j \<le> sc_target s)
     \<and> (case sc_cursor s of None \<Rightarrow> True
        | Some i \<Rightarrow> i \<in> live_set (sc_blocks s) \<and> sc_target s \<le> sb_offset (sc_blocks s ! i))"

definition slide_heap :: "scma_state \<Rightarrow> nat \<Rightarrow> bytes" where
  "slide_heap s i = take (sc_target s) (sc_heap s) @ block_bytes s i
     @ drop (sc_target s + sb_size (sc_blocks s ! i)) (sc_heap s)"

definition slide :: "nat \<Rightarrow> scma_state \<Rightarrow> scma_state" where
  "slide i s = s\<lparr>sc_heap := slide_heap s i,
     sc_blocks := (sc_blocks s)[i := (sc_blocks s ! i)\<lparr>sb_offset := sc_target s\<rparr>],
     sc_target := sc_target s + sb_size (sc_blocks s ! i)\<rparr>"

lemma compact_block_slide:
  assumes "sc_target s \<le> sb_offset (sc_blocks s ! i)" "block_end (sc_blocks s) i \<le> length (sc_heap s)"
  shows "compact_block i s = Some ((slide i s)\<lparr>sc_cursor :=
    scma_find_next_compaction_block (sb_offset (sc_blocks s ! i)) (slide i s)\<rparr>)"
proof (cases "sb_offset (sc_blocks s ! i) = sc_target s")
  case True
  then have h: "slide_heap s i = sc_heap s"
    using store_self [of "sc_target s" "sb_size (sc_blocks s ! i)" "sc_heap s"] assms(2)
    by (simp add: slide_heap_def block_bytes_def block_end_def)
  have "(sc_blocks s ! i)\<lparr>sb_offset := sc_target s\<rparr> = sc_blocks s ! i" unfolding True [symmetric] by simp
  then have "(sc_blocks s)[i := (sc_blocks s ! i)\<lparr>sb_offset := sc_target s\<rparr>] = sc_blocks s" by simp
  then have "slide i s = s\<lparr>sc_target := sc_target s + sb_size (sc_blocks s ! i)\<rparr>"
    unfolding slide_def h by simp
  with True show ?thesis by (simp add: compact_block_def Let_def)
next
  case False
  have "length (block_bytes s i) = sb_size (sc_blocks s ! i)"
    using assms(2) by (simp add: block_bytes_def block_end_def)
  then have "heap_move (sc_target s) (sb_offset (sc_blocks s ! i)) (sb_size (sc_blocks s ! i)) s
    = Some (s\<lparr>sc_heap := slide_heap s i\<rparr>)"
    using assms by (simp add: heap_move_def heap_load_def heap_store_def slide_heap_def block_end_def
      block_bytes_def [symmetric])
  with False show ?thesis by (simp add: compact_block_def Let_def slide_def update_block_def)
qed

text \<open>What a step of the compaction keeps.\<close>

definition compaction_kept :: "scma_state \<Rightarrow> scma_state \<Rightarrow> bool" where
  "compaction_kept s s1 \<longleftrightarrow> same_blocks s s1 \<and> sc_used s1 = sc_used s \<and> sc_live s1 = sc_live s
     \<and> sc_free s1 = sc_free s \<and> sc_needed s1 = sc_needed s \<and> length (sc_blocks s1) = length (sc_blocks s)
     \<and> length (sc_heap s1) = length (sc_heap s) \<and> drop (sc_used s) (sc_heap s1) = drop (sc_used s) (sc_heap s)"

lemma compaction_kept_refl [simp, intro]: "compaction_kept s s"
  by (simp add: compaction_kept_def)

lemma compaction_kept_trans: "compaction_kept s s1 \<Longrightarrow> compaction_kept s1 s2 \<Longrightarrow> compaction_kept s s2"
  using same_blocks_trans by (auto simp: compaction_kept_def)

lemma nth_update_if: "j < length xs \<Longrightarrow> xs[i := x] ! j = (if i = j then x else xs ! j)"
  by (cases "i = j") auto

lemma live_set_slide: "live_set (sc_blocks (slide i s)) = live_set (sc_blocks s)"
  by (auto simp: live_set_def slide_def nth_update_if split: if_splits)

lemma slide_block:
  "j < length (sc_blocks s) \<Longrightarrow> sc_blocks (slide i s) ! j =
     (if j = i then (sc_blocks s ! i)\<lparr>sb_offset := sc_target s\<rparr> else sc_blocks s ! j)"
  by (auto simp: slide_def nth_update_if)

lemma offsets_differ:
  assumes "layout blocks used" "i \<in> live_set blocks" "j \<in> live_set blocks" "i \<noteq> j"
  shows "sb_offset (blocks ! i) \<noteq> sb_offset (blocks ! j)"
  using layoutD(1) [OF assms(1,2)] layoutD(3) [OF assms(1,2), of j] layoutD(1) [OF assms(1,3)] assms(3,4)
  by (auto simp: apart_def block_end_def)

text \<open>The other blocks are below the target or behind the block that moves.\<close>

lemma slide_apart:
  assumes "core s ls" "sliding s" "sc_cursor s = Some i" "j \<in> live_set (sc_blocks s)" "j \<noteq> i"
  shows "j \<in> done_blocks s \<and> sb_offset (sc_blocks s ! j) < sb_offset (sc_blocks s ! i)
        \<and> block_end (sc_blocks s) j \<le> sc_target s
    \<or> j \<notin> done_blocks s \<and> sb_offset (sc_blocks s ! i) < sb_offset (sc_blocks s ! j)
        \<and> block_end (sc_blocks s) i \<le> sb_offset (sc_blocks s ! j)"
proof -
  have i: "i \<in> live_set (sc_blocks s)" using assms(2,3) by (simp add: sliding_def)
  note L = coreD(2) [OF assms(1)]
  have ne: "sb_offset (sc_blocks s ! i) \<noteq> sb_offset (sc_blocks s ! j)"
    using offsets_differ [OF L i assms(4)] assms(5) by blast
  have ap: "apart (sc_blocks s) i j" using layoutD(3) [OF L i assms(4)] assms(5) by blast
  show ?thesis
  proof (cases "j \<in> done_blocks s")
    case True
    then show ?thesis using assms(2,3) by (auto simp: sliding_def done_blocks_def)
  next
    case False
    then have "sb_offset (sc_blocks s ! i) < sb_offset (sc_blocks s ! j)"
      using ne assms(3,4) by (simp add: done_blocks_def)
    moreover from this have "block_end (sc_blocks s) i \<le> sb_offset (sc_blocks s ! j)"
      using ap layoutD(1) [OF L assms(4)] by (auto simp: apart_def block_end_def)
    ultimately show ?thesis using False by simp
  qed
qed

lemma slide_bytes:
  assumes co: "core s ls" and sl: "sliding s" "sc_cursor s = Some i"
  shows "length (slide_heap s i) = length (sc_heap s)"
    "drop (sc_used s) (slide_heap s i) = drop (sc_used s) (sc_heap s)"
    "j \<in> live_set (sc_blocks s) \<Longrightarrow> block_bytes (slide i s) j = block_bytes s j"
proof -
  let ?T = "sc_target s" and ?z = "sb_size (sc_blocks s ! i)" and ?o = "sb_offset (sc_blocks s ! i)"
  have i: "i \<in> live_set (sc_blocks s)" "?T \<le> ?o" using sl by (auto simp: sliding_def)
  have e: "?o + ?z \<le> sc_used s" "sc_used s \<le> length (sc_heap s)"
    using layoutD(2) [OF coreD(2) [OF co] i(1)] coreD(3) [OF co] by (auto simp: block_end_def)
  have len: "length (block_bytes s i) = ?z" using e by (simp add: block_bytes_def)
  show "length (slide_heap s i) = length (sc_heap s)"
    "drop (sc_used s) (slide_heap s i) = drop (sc_used s) (sc_heap s)"
    using e i(2) len by (simp_all add: slide_heap_def)
  show "block_bytes (slide i s) j = block_bytes s j" if j: "j \<in> live_set (sc_blocks s)"
  proof (cases "j = i")
    case True
    have "?T \<le> length (sc_heap s)" using e i(2) by simp
    then show ?thesis
      using slice_stored [of ?T "sc_heap s" "block_bytes s i"] len True live_setD [OF i(1)]
      by (simp add: block_bytes_def [of "slide i s"] slide_block) (simp add: slide_def slide_heap_def)
  next
    case False
    have "block_end (sc_blocks s) j \<le> ?T \<or> ?T + ?z \<le> sb_offset (sc_blocks s ! j)"
      using slide_apart [OF co sl j False] i(2) by (auto simp: block_end_def)
    then have "take (sb_size (sc_blocks s ! j)) (drop (sb_offset (sc_blocks s ! j)) (slide_heap s i))
      = take (sb_size (sc_blocks s ! j)) (drop (sb_offset (sc_blocks s ! j)) (sc_heap s))"
      using slice_store [of ?T "block_bytes s i" "sc_heap s"] len e i(2)
      by (simp add: slide_heap_def block_end_def)
    then show ?thesis
      using False live_setD [OF j] by (simp add: block_bytes_def slide_block) (simp add: slide_def)
  qed
qed

lemma slide_layout:
  assumes co: "core s ls" and sl: "sliding s" "sc_cursor s = Some i"
  shows "layout (sc_blocks (slide i s)) (sc_used s)"
proof -
  let ?b = "sc_blocks s" and ?b1 = "sc_blocks (slide i s)"
  note L = layoutD [OF coreD(2) [OF co]]
  have i: "i \<in> live_set ?b" "sc_target s \<le> sb_offset (?b ! i)" using sl by (auto simp: sliding_def)
  have blk: "?b1 ! j = (if j = i then (?b ! i)\<lparr>sb_offset := sc_target s\<rparr> else ?b ! j)" if "j \<in> live_set ?b" for j
    using slide_block live_setD [OF that] by simp
  have ib: "block_end ?b1 i \<le> block_end ?b i" "sb_offset (?b1 ! i) = sc_target s"
    using blk [OF i(1)] i(2) by (simp_all add: block_end_def)
  have other: "sb_offset (?b1 ! j) = sb_offset (?b ! j)" "block_end ?b1 j = block_end ?b j"
    if "j \<in> live_set ?b" "j \<noteq> i" for j using blk [OF that(1)] that(2) by (simp_all add: block_end_def)
  have api: "apart ?b1 i j" if "j \<in> live_set ?b" "j \<noteq> i" for j
    using slide_apart [OF co sl that] other [OF that] ib unfolding apart_def by linarith
  show ?thesis
    unfolding layout_def live_set_slide
  proof (intro conjI ballI impI)
    fix j assume j: "j \<in> live_set ?b"
    show "0 < sb_size (?b1 ! j)" using L(1) [OF j] L(1) [OF i(1)] blk [OF j] by simp
    show "block_end ?b1 j \<le> sc_used s"
      using L(2) [OF j] L(2) [OF i(1)] ib(1) other(2) [OF j] by (cases "j = i") auto
    fix k assume k: "k \<in> live_set ?b" "j \<noteq> k"
    show "apart ?b1 j k"
    proof (cases "j = i \<or> k = i")
      case True
      then show ?thesis using api j k unfolding apart_def by blast
    next
      case False
      then show ?thesis using L(3) [OF j k] other [OF j] other [OF k(1)] by (simp add: apart_def)
    qed
  qed
qed

lemma slide_core:
  assumes co: "core s ls" and sl: "sliding s" "sc_cursor s = Some i"
  shows "core (slide i s) ls" "compaction_kept s (slide i s)"
proof -
  note C = coreD [OF co] and B = slide_bytes [OF co sl]
  have i: "i < length (sc_blocks s)" using sl live_setD by (fastforce simp: sliding_def)
  have "total_size (sc_blocks (slide i s)) = total_size (sc_blocks s)"
    unfolding total_size_def live_set_slide
    by (rule sum.cong) (use slide_block live_setD in fastforce)+
  moreover have "dlist (slide i s) ls"
    using C(5) unfolding dlist_def
    by (auto intro!: seg_cong [of "sc_blocks s"] simp: slide_def nth_list_update i)
  moreover have "\<forall>b \<in> set (sc_blocks (slide i s)). sb_generation b \<noteq> 0 \<and> sb_generation b \<noteq> -1"
    using C(10) by (auto simp: in_set_conv_nth slide_def nth_update_if split: if_splits)
  ultimately show "core (slide i s) ls"
    using C slide_layout [OF co sl] live_set_slide [of i s] B(1) by (simp add: core_def) (simp add: slide_def)
  have "sb_generation (sc_blocks (slide i s) ! j) = sb_generation (sc_blocks s ! j)"
    if "j \<in> live_set (sc_blocks s)" for j using slide_block live_setD [OF that] by simp
  then have "same_blocks s (slide i s)"
    using B(3) live_set_slide [of i s] by (simp add: same_blocks_def) (simp add: slide_def)
  then show "compaction_kept s (slide i s)"
    using B(1,2) by (simp add: compaction_kept_def) (simp add: slide_def)
qed

lemma slide_done:
  assumes co: "core s ls" and sl: "sliding s" "sc_cursor s = Some i"
  defines "s1 \<equiv> (slide i s)\<lparr>sc_cursor :=
    scma_find_next_compaction_block (sb_offset (sc_blocks s ! i)) (slide i s)\<rparr>"
  shows "done_blocks s1 = insert i (done_blocks s)" "i \<notin> done_blocks s" "sliding s1"
proof -
  let ?b = "sc_blocks s" and ?b1 = "sc_blocks (slide i s)" and ?o = "sb_offset (sc_blocks s ! i)"
  have i: "i \<in> live_set ?b" "sc_target s \<le> ?o" using sl by (auto simp: sliding_def)
  have blk: "?b1 ! j = (if j = i then (?b ! i)\<lparr>sb_offset := sc_target s\<rparr> else ?b ! j)" if "j \<in> live_set ?b" for j
    using slide_block live_setD [OF that] by simp
  have above: "?o < sb_offset (?b1 ! j) \<longleftrightarrow> j \<noteq> i \<and> j \<notin> done_blocks s" if "j \<in> live_set ?b" for j
    using slide_apart [OF co sl that] blk [OF that] i(2) by (cases "j = i") auto
  have u: "sc_used s \<le> FT_SYSTEM_SIZE_MAX" using coreD(3,4) [OF co] by simp
  note least = least_block [OF slide_layout [OF co sl] u, where P = "\<lambda>x. ?o < x",
      folded find_loops(2), folded scma_find_next_compaction_block_def, unfolded live_set_slide]
  show ni: "i \<notin> done_blocks s" using sl(2) by (simp add: done_blocks_def)
  have sub: "done_blocks s \<subseteq> live_set ?b" by (auto simp: done_blocks_def)
  show eq: "done_blocks s1 = insert i (done_blocks s)"
  proof (cases "sc_cursor s1")
    case None
    then have "\<not> ?o < sb_offset (?b1 ! j)" if "j \<in> live_set ?b" for j using least(1) that by (simp add: s1_def)
    then have "j = i \<or> j \<in> done_blocks s" if "j \<in> live_set ?b" for j using above that by blast
    then show ?thesis using None i(1) sub live_set_slide [of i s] by (auto simp: done_blocks_def s1_def)
  next
    case (Some k)
    then have k: "k \<in> live_set ?b" "?o < sb_offset (?b1 ! k)" using least(2) [of k] by (auto simp: s1_def)
    have "sb_offset (?b1 ! j) < sb_offset (?b1 ! k) \<longleftrightarrow> j = i \<or> j \<in> done_blocks s" if "j \<in> live_set ?b" for j
      using above [OF that] k(2) least(3) [of k j] Some that by (fastforce simp: s1_def)
    then show ?thesis using Some i(1) sub live_set_slide [of i s] by (auto simp: done_blocks_def s1_def)
  qed
  show "sliding s1"
    unfolding sliding_def eq
  proof (intro conjI ballI)
    have b1: "sc_blocks s1 = ?b1" "sc_target s1 = sc_target s + sb_size (?b ! i)" by (simp_all add: s1_def slide_def)
    have "(\<Sum>j \<in> done_blocks s. sb_size (?b1 ! j)) = (\<Sum>j \<in> done_blocks s. sb_size (?b ! j))"
      by (rule sum.cong) (use blk sub ni in auto)
    moreover have "finite (done_blocks s)" using sub finite_live_set finite_subset by blast
    ultimately show "sc_target s1 = (\<Sum>j \<in> insert i (done_blocks s). sb_size (sc_blocks s1 ! j))"
      using ni sl(1) b1 blk [OF i(1)] by (simp add: sliding_def)
    show "block_end (sc_blocks s1) j \<le> sc_target s1" if j: "j \<in> insert i (done_blocks s)" for j
    proof (cases "j = i")
      case True
      then show ?thesis using b1 blk [OF i(1)] by (simp add: block_end_def)
    next
      case False
      then have "block_end ?b j \<le> sc_target s" using j sl(1) unfolding sliding_def by blast
      then show ?thesis using False j sub blk [of j] b1 by (auto simp: block_end_def)
    qed
    show "case sc_cursor s1 of None \<Rightarrow> True
      | Some k \<Rightarrow> k \<in> live_set (sc_blocks s1) \<and> sc_target s1 \<le> sb_offset (sc_blocks s1 ! k)"
    proof (cases "sc_cursor s1")
      case (Some k)
      then have k: "k \<in> live_set ?b" "?o < sb_offset (?b1 ! k)" using least(2) [of k] by (auto simp: s1_def)
      then have "k \<noteq> i" "k \<notin> done_blocks s" using above by auto
      then have "block_end ?b i \<le> sb_offset (?b ! k)" using slide_apart [OF co sl k(1)] by blast
      then show ?thesis using Some k(1) b1 i(2) blk [OF k(1)] \<open>k \<noteq> i\<close> live_set_slide [of i s]
        by (simp add: block_end_def)
    qed simp
  qed
qed

subsection \<open>The loops\<close>

lemma compact_loop_effect:
  assumes "core s ls" "sliding s"
  shows "\<exists>s1. compact_loop byte_budget moved s = Some (s1, FT_ERR_SUCCESS) \<and> core s1 ls \<and> sliding s1
    \<and> compaction_kept s s1 \<and> done_blocks s \<subseteq> done_blocks s1
    \<and> (sc_cursor s \<noteq> None \<and> moved = 0 \<longrightarrow> done_blocks s \<noteq> done_blocks s1)"
  using assms
proof (induction "card (live_set (sc_blocks s) - done_blocks s)" arbitrary: s moved rule: less_induct)
  case less
  show ?case
  proof (cases "sc_cursor s = None \<or> \<not> (moved < byte_budget \<or> moved = 0)")
    case True
    then have "compact_loop byte_budget moved s = Some (s, FT_ERR_SUCCESS)"
      by (subst compact_loop.simps) (auto split: option.split)
    then show ?thesis using less.prems True by auto
  next
    case False
    then obtain i where i: "sc_cursor s = Some i" by (cases "sc_cursor s") auto
    note co = less.prems(1) and sl = less.prems(2) i
    have live: "i \<in> live_set (sc_blocks s)" "sc_target s \<le> sb_offset (sc_blocks s ! i)"
      using sl by (auto simp: sliding_def)
    define s1 where "s1 = (slide i s)\<lparr>sc_cursor :=
      scma_find_next_compaction_block (sb_offset (sc_blocks s ! i)) (slide i s)\<rparr>"
    have step: "compact_block i s = Some s1"
      unfolding s1_def
      by (rule compact_block_slide) (use live layoutD(2) [OF coreD(2) [OF co] live(1)] coreD(3) [OF co] in auto)
    have c1: "core s1 ls" "compaction_kept s s1"
      using slide_core [OF co sl] by (auto simp: s1_def core_def dlist_def compaction_kept_def same_blocks_def
        block_bytes_def)
    note done1 = slide_done [OF co sl, folded s1_def]
    have lv: "live_set (sc_blocks s1) = live_set (sc_blocks s)"
      using c1(2) by (simp add: compaction_kept_def same_blocks_def)
    have "live_set (sc_blocks s1) - done_blocks s1 \<subset> live_set (sc_blocks s) - done_blocks s"
      unfolding lv done1(1) using live(1) done1(2) by blast
    then have "card (live_set (sc_blocks s1) - done_blocks s1) < card (live_set (sc_blocks s) - done_blocks s)"
      by (rule psubset_card_mono [rotated]) simp
    from less.hyps [OF this c1(1) done1(3)]
    obtain s2 where s2: "compact_loop byte_budget (moved + sb_size (sc_blocks s ! i)) s1 = Some (s2, FT_ERR_SUCCESS)"
      "core s2 ls" "sliding s2" "compaction_kept s1 s2" "done_blocks s1 \<subseteq> done_blocks s2" by blast
    have "compact_loop byte_budget moved s = Some (s2, FT_ERR_SUCCESS)"
      using False i live_setD [OF live(1)] step s2(1) by (subst compact_loop.simps) auto
    moreover have "done_blocks s \<subseteq> done_blocks s2 \<and> done_blocks s \<noteq> done_blocks s2"
      using s2(5) done1(1,2) by blast
    ultimately show ?thesis using s2 compaction_kept_trans [OF c1(2)] by blast
  qed
qed

lemma forget_free_change: "free_change s (forget_free_blocks s)" "free_ok (forget_free_blocks s) []"
  by (simp_all add: free_change_def forget_free_blocks_def frozen_def free_ok_def)

text \<open>At rest, or interrupted with the free blocks already forgotten.\<close>

definition interrupted_ok :: "scma_state \<Rightarrow> bool" where
  "interrupted_ok s \<longleftrightarrow> sc_cursor s \<noteq> None \<longrightarrow> sliding s \<and> sc_free s = None"

lemma compaction_kept_free_change:
  assumes "core s ls" "free_change s s1" "sc_free s1 = None"
  shows "same_blocks s s1" "compaction_kept (s\<lparr>sc_free := None\<rparr>) s1"
  using core_free_change(2) [OF assms(1,2)] free_change_fields [OF assms(2)] assms(3)
  by (auto simp: compaction_kept_def same_blocks_def block_bytes_def)

lemma compact_begin_effect:
  assumes co: "core s ls" and ok: "interrupted_ok s"
  shows "core (compact_begin s) ls" "sliding (compact_begin s)" "sc_free (compact_begin s) = None"
    "compaction_kept (s\<lparr>sc_free := None\<rparr>) (compact_begin s)"
    "sc_cursor s \<noteq> None \<Longrightarrow> compact_begin s = s"
proof -
  show "sc_cursor s \<noteq> None \<Longrightarrow> compact_begin s = s" unfolding compact_begin_def by (rule if_not_P)
  have all: "core (compact_begin s) ls \<and> sliding (compact_begin s) \<and> sc_free (compact_begin s) = None
    \<and> compaction_kept (s\<lparr>sc_free := None\<rparr>) (compact_begin s)"
  proof (cases "sc_cursor s = None")
    case False
    then show ?thesis using co ok
      by (auto simp: compact_begin_def interrupted_ok_def compaction_kept_def same_blocks_def block_bytes_def)
  next
    case True
    define s0 where "s0 = forget_free_blocks s"
    define s1 where "s1 = s0\<lparr>sc_cursor := scma_find_first_compaction_block s0, sc_target := 0\<rparr>"
    have eq: "compact_begin s = s1" using True by (simp add: compact_begin_def s1_def s0_def Let_def)
    have fc: "free_change s s0" "sc_free s0 = None"
      using forget_free_change(1) by (simp_all add: s0_def forget_free_blocks_def)
    have c0: "core s0 ls" using core_free_change(1) [OF co fc(1)] .
    then have c1: "core s1 ls" by (simp add: core_def dlist_def s1_def)
    have "sc_used s0 \<le> FT_SYSTEM_SIZE_MAX" using coreD(3,4) [OF c0] by simp
    note least = least_block [OF coreD(2) [OF c0] this, where P = "\<lambda>x. True",
        folded find_loops(1), folded scma_find_first_compaction_block_def]
    have "done_blocks s1 = {}"
      using least(1,3) by (cases "sc_cursor s1") (auto simp: done_blocks_def s1_def not_less)
    moreover have "case sc_cursor s1 of None \<Rightarrow> True
        | Some i \<Rightarrow> i \<in> live_set (sc_blocks s1) \<and> sc_target s1 \<le> sb_offset (sc_blocks s1 ! i)"
      using least(2) by (cases "sc_cursor s1") (auto simp: s1_def)
    ultimately have "sliding s1" by (simp add: sliding_def) (simp add: s1_def)
    moreover have "compaction_kept (s\<lparr>sc_free := None\<rparr>) s1"
      using compaction_kept_free_change(2) [OF co fc]
      by (simp add: s1_def compaction_kept_def same_blocks_def block_bytes_def)
    ultimately show ?thesis unfolding eq using c1 fc(2) by (simp add: s1_def)
  qed
  then show "core (compact_begin s) ls" "sliding (compact_begin s)" "sc_free (compact_begin s) = None"
    "compaction_kept (s\<lparr>sc_free := None\<rparr>) (compact_begin s)" by auto
qed

text \<open>The end of a compaction: no gaps, no free blocks, and zeros behind the blocks.\<close>

definition compacted :: "scma_state \<Rightarrow> scma_state \<Rightarrow> bool" where
  "compacted s s1 \<longleftrightarrow> same_blocks s s1 \<and> total_size (sc_blocks s1) = sc_used s1 \<and> sc_used s1 \<le> sc_used s
     \<and> sc_live s1 = sc_live s \<and> sc_cursor s1 = None \<and> \<not> sc_needed s1 \<and> sc_free s1 = None
     \<and> length (sc_blocks s1) = length (sc_blocks s)
     \<and> length (sc_heap s1) = length (sc_heap s)
     \<and> drop (sc_used s1) (sc_heap s1) = replicate (sc_used s - sc_used s1) 0 @ drop (sc_used s) (sc_heap s)"

lemma compact_finish_effect:
  assumes co: "core s ls" and sl: "sliding s" and c: "sc_cursor s = None"
  shows "\<exists>s1. compact_finish (sc_used s) s = Some s1 \<and> core s1 ls \<and> compacted s s1"
proof -
  note C = coreD [OF co]
  let ?T = "sc_target s" and ?u = "sc_used s"
  have all: "done_blocks s = live_set (sc_blocks s)" using c by (simp add: done_blocks_def)
  have T: "?T = total_size (sc_blocks s)" using sl all by (simp add: sliding_def total_size_def)
  have lay: "layout (sc_blocks s) ?T" using C(2) sl all unfolding layout_def sliding_def by auto
  have Tu: "?T \<le> ?u" unfolding T by (rule total_size_bound [OF C(2)])
  define h where "h = take ?T (sc_heap s) @ replicate (?u - ?T) 0 @ drop ?u (sc_heap s)"
  have h: "length h = length (sc_heap s)" "drop ?T h = replicate (?u - ?T) 0 @ drop ?u (sc_heap s)"
    "take ?T h = take ?T (sc_heap s)" using Tu C(3) by (simp_all add: h_def)
  define s0 where "s0 = s\<lparr>sc_used := ?T, sc_heap := h, sc_needed := False, sc_cursor := None, sc_target := 0\<rparr>"
  have wipe: "(if ?u > ?T then scma_secure_bzero ?T (?u - ?T) (s\<lparr>sc_used := ?T\<rparr>) else Some (s\<lparr>sc_used := ?T\<rparr>))
    = Some (s\<lparr>sc_used := ?T, sc_heap := h\<rparr>)"
    using Tu C(3) by (cases "?T < ?u") (auto simp: scma_secure_bzero_def h_def)
  have fin: "compact_finish ?u s = Some (forget_free_blocks s0)"
    unfolding compact_finish_def wipe using c
    by (simp add: s0_def scma_reset_compaction_def forget_free_blocks_def)
  have c0: "core s0 ls" using co lay Tu C(3) h(1) by (simp add: core_def dlist_def s0_def)
  have "block_bytes (s\<lparr>sc_heap := h\<rparr>) i = block_bytes s i" if "i \<in> live_set (sc_blocks s)" for i
    using block_bytes_prefix [of ?T h "sc_heap s" s i] h(3) layoutD(2) [OF lay that] by simp
  then have "same_blocks s s0" by (simp add: same_blocks_def s0_def block_bytes_def)
  then have sb: "same_blocks s (forget_free_blocks s0)"
    using same_blocks_trans core_free_change(2) [OF c0 forget_free_change(1)] by blast
  have "total_size (sc_blocks (forget_free_blocks s0)) = ?T"
    using coreD(7) [OF core_free_change(1) [OF c0 forget_free_change(1)]] C(7) T
    by (simp add: forget_free_blocks_def s0_def)
  then show ?thesis
    using fin core_free_change(1) [OF c0 forget_free_change(1)] sb Tu h
    by (auto simp: compacted_def forget_free_blocks_def s0_def)
qed

subsection \<open>The list check\<close>

lemma live_list_loop_seg:
  assumes "seg blocks p ls None" "\<And>x. x \<in> set ls \<Longrightarrow> sb_in_use (blocks ! x) \<and> block_end blocks x \<le> used"
    "visited + length ls \<le> length blocks"
    "linked + sum_list (map (\<lambda>x. sb_size (blocks ! x)) ls) \<le> FT_SYSTEM_SIZE_MAX"
  shows "live_list_loop blocks used (first_of ls) p visited linked =
    Some (if ls = [] then p else last_of ls, visited + length ls,
          linked + sum_list (map (\<lambda>x. sb_size (blocks ! x)) ls))"
  using assms
proof (induction ls arbitrary: p visited linked)
  case (Cons x ls)
  have x: "sb_in_use (blocks ! x)" "sb_offset (blocks ! x) + sb_size (blocks ! x) \<le> used"
    "x < length blocks" "sb_prev (blocks ! x) = p" "sb_next (blocks ! x) = first_of ls"
    using Cons.prems(1) Cons.prems(2) [of x] by (auto simp: block_end_def split: if_splits)
  have "live_list_loop blocks used (first_of (x # ls)) p visited linked =
    live_list_loop blocks used (first_of ls) (Some x) (visited + 1) (linked + sb_size (blocks ! x))"
    using x Cons.prems(3,4) by (auto simp: Let_def not_less)
  also have "\<dots> = Some (if ls = [] then Some x else last_of ls, visited + 1 + length ls,
      linked + sb_size (blocks ! x) + sum_list (map (\<lambda>x. sb_size (blocks ! x)) ls))"
    by (rule Cons.IH) (use Cons.prems in auto)
  finally show ?case by (simp add: end_append(3))
qed simp

lemma live_totals_loop_eq:
  "z + sum_list (map sb_size (filter sb_in_use bs)) \<le> FT_SYSTEM_SIZE_MAX \<Longrightarrow>
     live_totals_loop bs c z = Some (c + length (filter sb_in_use bs), z + sum_list (map sb_size (filter sb_in_use bs)))"
  by (induction bs arbitrary: c z) auto

lemma total_size_list: "total_size bs = sum_list (map sb_size (filter sb_in_use bs))"
proof (induction bs rule: rev_induct)
  case (snoc b bs)
  have live: "live_set (bs @ [b]) = (if sb_in_use b then insert (length bs) (live_set bs) else live_set bs)"
    by (auto simp: live_set_def nth_append less_Suc_eq)
  have new: "length bs \<notin> live_set bs" by (simp add: live_set_def)
  have "(\<Sum>i \<in> live_set bs. sb_size ((bs @ [b]) ! i)) = total_size bs"
    unfolding total_size_def by (rule sum.cong) (auto dest: live_setD simp: nth_append)
  then show ?case using snoc.IH new by (simp add: total_size_def live)
qed (simp add: total_size_def live_set_def)

lemma card_live: "card (live_set bs) = length (filter sb_in_use bs)"
  by (simp add: live_set_def length_filter_conv_card)

lemma validate_live_list_ok:
  assumes "core s ls"
  shows "scma_validate_live_list s = FT_ERR_SUCCESS"
proof -
  note C = coreD [OF assms]
  let ?b = "sc_blocks s"
  have seg: "seg ?b None ls None" "sc_head s = first_of ls" "sc_tail s = last_of ls" "distinct ls"
    using C(5) by (simp_all add: dlist_def)
  have sum: "sum_list (map (\<lambda>x. sb_size (?b ! x)) ls) = total_size ?b"
    using seg(4) C(6) by (simp add: sum_list_distinct_conv_sum_set total_size_def)
  have len: "length ls = length (filter sb_in_use ?b)"
    using distinct_card [OF seg(4)] C(6) card_live by simp
  have tot: "total_size ?b \<le> FT_SYSTEM_SIZE_MAX" using total_size_bound [OF C(2)] C(3,4) by simp
  have "live_list_loop ?b (sc_used s) (first_of ls) None 0 0 =
    Some (if ls = [] then None else last_of ls, 0 + length ls, 0 + sum_list (map (\<lambda>x. sb_size (?b ! x)) ls))"
    by (rule live_list_loop_seg [OF seg(1)])
      (use C(2,6) live_setD sum tot len length_filter_le [of sb_in_use ?b] in \<open>auto simp: layout_def\<close>)
  moreover have "live_totals_loop ?b 0 0 = Some (length ls, total_size ?b)"
    using live_totals_loop_eq [of 0 ?b 0] tot len by (simp add: total_size_list)
  moreover have "(first_of ls = None) = (last_of ls = None)" by (cases ls) (auto simp: last_of_def)
  moreover have "(if ls = [] then None else last_of ls) = last_of ls" by simp
  ultimately show ?thesis
    using seg sum C(7) by (simp add: scma_validate_live_list_def)
qed

subsection \<open>A whole compaction\<close>

lemma compacted_kept:
  assumes "compaction_kept (s\<lparr>sc_free := None\<rparr>) s1" "compacted s1 s2"
  shows "compacted s s2"
proof -
  have "same_blocks s s2"
    using assms by (auto simp: compaction_kept_def compacted_def same_blocks_def block_bytes_def)
  then show ?thesis using assms unfolding compaction_kept_def compacted_def by auto
qed

text \<open>
  One call with a budget: it ends the compaction, or stops at a block further on.
\<close>

lemma compact_incremental_effect:
  assumes co: "core s ls" and ok: "interrupted_ok s" and fr: "free_ok s fs"
    and used: "sc_blocks s = [] \<Longrightarrow> sc_used s = 0"
  shows "\<exists>s1. scma_compact_incremental byte_budget s = Some (s1, FT_ERR_SUCCESS) \<and> core s1 ls
    \<and> (compacted s s1
       \<or> interrupted_ok s1 \<and> sc_cursor s1 \<noteq> None \<and> compaction_kept (s\<lparr>sc_free := None\<rparr>) s1
         \<and> (sc_cursor s \<noteq> None \<longrightarrow> done_blocks s \<subset> done_blocks s1))"
proof (cases "sc_blocks s = []")
  case True
  define s1 where "s1 = scma_reset_compaction (s\<lparr>sc_used := 0, sc_needed := False\<rparr>)"
  note C = coreD [OF co]
  have none: "ls = []" "total_size (sc_blocks s) = 0" using C(6) True by (auto simp: live_set_def total_size_def)
  then have "sc_head s = None" "sc_tail s = None" "sc_live s = 0" using C(5,7) by (auto simp: dlist_def)
  then have "scma_compact_incremental byte_budget s = Some (s1, FT_ERR_SUCCESS)"
    using True C(1) by (simp add: scma_compact_incremental_def s1_def)
  moreover have "core s1 ls"
    using co used [OF True] by (simp add: core_def dlist_def s1_def scma_reset_compaction_def)
  moreover have "sc_free s = None" using free_okD(1) [OF fr] True by (cases fs) auto
  then have "compacted s s1"
    using none used [OF True] by (simp add: compacted_def s1_def scma_reset_compaction_def same_blocks_def block_bytes_def)
  ultimately show ?thesis by blast
next
  case False
  note B = compact_begin_effect [OF co ok]
  obtain s1 where s1: "compact_loop byte_budget 0 (compact_begin s) = Some (s1, FT_ERR_SUCCESS)" "core s1 ls"
    "sliding s1" "compaction_kept (compact_begin s) s1" "done_blocks (compact_begin s) \<subseteq> done_blocks s1"
    "sc_cursor (compact_begin s) \<noteq> None \<longrightarrow> done_blocks (compact_begin s) \<noteq> done_blocks s1"
    using compact_loop_effect [OF B(1,2), of byte_budget 0] by blast
  have kept: "compaction_kept (s\<lparr>sc_free := None\<rparr>) s1" using compaction_kept_trans [OF B(4) s1(4)] .
  then have used1: "sc_used s1 = sc_used s" by (simp add: compaction_kept_def)
  have init: "sc_initialised s" using coreD(1) [OF co] .
  show ?thesis
  proof (cases "sc_cursor s1")
    case None
    then obtain s2 where s2: "compact_finish (sc_used s) s1 = Some s2" "core s2 ls" "compacted s1 s2"
      using compact_finish_effect [OF s1(2,3)] used1 by auto
    then have "scma_compact_incremental byte_budget s = Some (s2, FT_ERR_SUCCESS)"
      using s1(1) init False by (simp add: scma_compact_incremental_def)
    then show ?thesis using s2 compacted_kept [OF kept] by blast
  next
    case (Some i)
    then have "scma_compact_incremental byte_budget s = Some (s1, FT_ERR_SUCCESS)"
      using s1(1) init False by (simp add: scma_compact_incremental_def compact_finish_def)
    moreover have "interrupted_ok s1" using s1(3) kept by (simp add: interrupted_ok_def compaction_kept_def)
    moreover have "sc_cursor s \<noteq> None \<longrightarrow> done_blocks s \<subset> done_blocks s1" using B(5) s1(5,6) by auto
    ultimately show ?thesis using s1(2) kept Some by blast
  qed
qed

lemma free_ok_none: "sc_free s = None \<Longrightarrow> free_ok s []"
  by (simp add: free_ok_def)

lemma compact_until_interrupted:
  assumes "core s ls" "interrupted_ok s" "sc_cursor s \<noteq> None" "sc_needed s"
  shows "\<exists>s1. compact_until s = Some (s1, FT_ERR_SUCCESS) \<and> core s1 ls \<and> compacted s s1"
  using assms
proof (induction "card (live_set (sc_blocks s) - done_blocks s)" arbitrary: s rule: less_induct)
  case less
  have fr: "free_ok s []" using less.prems(2,3) free_ok_none by (simp add: interrupted_ok_def)
  have ne: "sc_blocks s \<noteq> []" using less.prems(2,3) by (auto simp: interrupted_ok_def sliding_def live_set_def)
  obtain s1 where s1: "scma_compact_incremental 65536 s = Some (s1, FT_ERR_SUCCESS)" "core s1 ls"
    "compacted s s1 \<or> interrupted_ok s1 \<and> sc_cursor s1 \<noteq> None \<and> compaction_kept (s\<lparr>sc_free := None\<rparr>) s1
       \<and> done_blocks s \<subset> done_blocks s1"
    using compact_incremental_effect [OF less.prems(1,2) fr, of 65536] ne less.prems(3) by blast
  have step: "compact_until s = compact_until s1"
    using less.prems(4) s1(1) by (subst compact_until.simps) simp
  from s1(3) show ?case
  proof
    assume c: "compacted s s1"
    then have "compact_until s1 = Some (s1, FT_ERR_SUCCESS)"
      by (subst compact_until.simps) (simp add: compacted_def)
    then show ?thesis using step s1(2) c by auto
  next
    assume c: "interrupted_ok s1 \<and> sc_cursor s1 \<noteq> None \<and> compaction_kept (s\<lparr>sc_free := None\<rparr>) s1
       \<and> done_blocks s \<subset> done_blocks s1"
    have live: "live_set (sc_blocks s1) = live_set (sc_blocks s)" "sc_needed s1"
      using c less.prems(4) by (auto simp: compaction_kept_def same_blocks_def)
    have "done_blocks s1 \<subseteq> live_set (sc_blocks s)" using live(1) by (auto simp: done_blocks_def)
    then have "live_set (sc_blocks s1) - done_blocks s1 \<subset> live_set (sc_blocks s) - done_blocks s"
      unfolding live using c by blast
    then have "card (live_set (sc_blocks s1) - done_blocks s1) < card (live_set (sc_blocks s) - done_blocks s)"
      by (rule psubset_card_mono [rotated]) simp
    then obtain s2 where "compact_until s1 = Some (s2, FT_ERR_SUCCESS)" "core s2 ls" "compacted s1 s2"
      using less.hyps s1(2) c live(2) by blast
    then show ?thesis using step compacted_kept c by metis
  qed
qed

lemma compact_until_effect:
  assumes co: "core s ls" and ok: "interrupted_ok s" and fr: "free_ok s fs"
    and used: "sc_blocks s = [] \<Longrightarrow> sc_used s = 0" and n: "sc_needed s"
  shows "\<exists>s1. compact_until s = Some (s1, FT_ERR_SUCCESS) \<and> core s1 ls \<and> compacted s s1"
proof -
  obtain s1 where s1: "scma_compact_incremental 65536 s = Some (s1, FT_ERR_SUCCESS)" "core s1 ls"
    "compacted s s1 \<or> interrupted_ok s1 \<and> sc_cursor s1 \<noteq> None \<and> compaction_kept (s\<lparr>sc_free := None\<rparr>) s1"
    using compact_incremental_effect [OF co ok fr used, of 65536] by blast
  have step: "compact_until s = compact_until s1"
    using n s1(1) by (subst compact_until.simps) simp
  from s1(3) show ?thesis
  proof
    assume c: "compacted s s1"
    then have "compact_until s1 = Some (s1, FT_ERR_SUCCESS)"
      by (subst compact_until.simps) (simp add: compacted_def)
    then show ?thesis using step s1(2) c by auto
  next
    assume c: "interrupted_ok s1 \<and> sc_cursor s1 \<noteq> None \<and> compaction_kept (s\<lparr>sc_free := None\<rparr>) s1"
    then have "sc_needed s1" using n by (simp add: compaction_kept_def)
    then obtain s2 where "compact_until s1 = Some (s2, FT_ERR_SUCCESS)" "core s2 ls" "compacted s1 s2"
      using compact_until_interrupted [OF s1(2)] c by blast
    then show ?thesis using step compacted_kept c by metis
  qed
qed

lemma compact_effect:
  assumes co: "core s ls" and ok: "interrupted_ok s" and fr: "free_ok s fs"
    and used: "sc_blocks s = [] \<Longrightarrow> sc_used s = 0"
  shows "\<exists>s1. scma_compact s = Some (s1, FT_ERR_SUCCESS) \<and> core s1 ls \<and> compacted s s1"
proof -
  let ?n = "s\<lparr>sc_needed := True\<rparr>"
  have "core ?n ls" using co by (simp add: core_def dlist_def)
  moreover have "done_blocks ?n = done_blocks s" by (cases "sc_cursor s") (simp_all add: done_blocks_def)
  then have "interrupted_ok ?n"
    using ok unfolding interrupted_ok_def sliding_def by (cases "sc_cursor s") auto
  moreover have "free_ok ?n fs" using fr by (simp add: free_ok_def)
  ultimately obtain s1 where "compact_until ?n = Some (s1, FT_ERR_SUCCESS)" "core s1 ls" "compacted ?n s1"
    using compact_until_effect [of ?n ls fs] used by auto
  moreover have "compacted s s1" if "compacted ?n s1"
    using that unfolding compacted_def same_blocks_def block_bytes_def by simp
  moreover have "sc_blocks s = [] \<Longrightarrow> sc_live s = 0"
    using coreD(7) [OF co] by (simp add: total_size_def live_set_def)
  ultimately show ?thesis using validate_live_list_ok [OF co] by (auto simp: scma_compact_def)
qed

end
