(* ===== verification/Scma_Api.thy ===== *)
theory Scma_Api
  imports Scma
begin

text \<open>
  The calls of the compacting allocator: \<^verbatim>\<open>src/Modules/SCMA/scma_allocator.cpp\<close>, \<^verbatim>\<open>scma_io.cpp\<close> and the
  statistics of \<^verbatim>\<open>scma_debug.cpp\<close>. Each takes the allocator's mutex; when that fails it returns at once.
\<close>

subsection \<open>Lifecycle\<close>

definition scma_initialize :: "scma_env \<Rightarrow> nat \<Rightarrow> scma_state \<Rightarrow> scma_state \<times> ft_err" where
  "scma_initialize env initial_capacity s =
     (if se_thread_safety env \<noteq> FT_ERR_SUCCESS then (s, se_thread_safety env)
      else if \<not> se_lock env then (s, FT_ERR_SYS_MUTEX_LOCK_FAILED)
      else if sc_initialised s then (s, FT_ERR_ALREADY_INITIALISED)
      else
        let capacity = (if initial_capacity = 0 then 1024 else initial_capacity)
        in if capacity > FT_SYSTEM_SIZE_MAX then (s, FT_ERR_OUT_OF_RANGE)
           else (case se_malloc env capacity of
               None \<Rightarrow> (s\<lparr>sc_heap := []\<rparr>, FT_ERR_NO_MEMORY)
             | Some heap \<Rightarrow> (\<lparr>sc_heap = heap, sc_blocks = [], sc_block_capacity = 0, sc_used = 0,
                 sc_live = 0, sc_head = None, sc_tail = None, sc_free = None, sc_needed = False,
                 sc_cursor = None, sc_target = 0, sc_initialised = True\<rparr>, FT_ERR_SUCCESS)))"

definition scma_shutdown :: "scma_env \<Rightarrow> scma_state \<Rightarrow> scma_state" where
  "scma_shutdown env s =
     (if \<not> se_lock env then s
      else if \<not> sc_initialised s then s
      else scma_state_initial)"

definition scma_is_initialised :: "scma_env \<Rightarrow> scma_state \<Rightarrow> bool" where
  "scma_is_initialised env s \<longleftrightarrow> se_lock env \<and> sc_initialised s"

subsection \<open>Allocation\<close>

text \<open>A free block becomes a live one.\<close>

definition activate_block :: "nat \<Rightarrow> nat \<Rightarrow> scma_state \<Rightarrow> scma_state \<times> scma_handle" where
  "activate_block sz index s =
     (let generation = scma_next_generation (sb_generation (sc_blocks s ! index));
          s1 = update_block index (\<lambda>b. b\<lparr>sb_in_use := True, sb_generation := generation,
                 sb_prev := None, sb_next := None\<rparr>) s;
          s2 = scma_recompute_used_size (scma_link_block_at_tail index s1)
      in (s2\<lparr>sc_live := sc_live s2 + sz\<rparr>, \<lparr>sh_index = of_nat index, sh_generation = generation\<rparr>))"

text \<open>A new block behind the used part of the heap.\<close>

definition append_block ::
  "scma_env \<Rightarrow> nat \<Rightarrow> scma_state \<Rightarrow> (scma_state \<times> scma_handle) option" where
  "append_block env sz s =
     do {
       s1 \<leftarrow> scma_discard_free_spans_from (sc_used s) s;
       (s2, granted) \<leftarrow> scma_ensure_block_capacity env (length (sc_blocks s1) + 1) s1;
       if \<not> granted then Some (s2, scma_invalid_handle)
       else
         let new_index = length (sc_blocks s2);
             block = \<lparr>sb_offset = sc_used s2, sb_size = sz, sb_in_use = True, sb_generation = 1,
               sb_prev = None, sb_next = None, sb_next_free = None\<rparr>;
             s3 = scma_link_block_at_tail new_index (s2\<lparr>sc_blocks := sc_blocks s2 @ [block]\<rparr>)
         in Some (s3\<lparr>sc_used := sc_used s3 + sz, sc_live := sc_live s3 + sz\<rparr>,
                  \<lparr>sh_index = of_nat new_index, sh_generation = 1\<rparr>) }"

text \<open>
  The compaction an allocation asks for, with the size the heap must then have; \<^term>\<open>None\<close> in the
  second component when the allocation gives up.
\<close>

definition compact_if_needed ::
  "nat \<Rightarrow> scma_state \<Rightarrow> (scma_state \<times> nat option) option" where
  "compact_if_needed sz s =
     (if \<not> sc_needed s then Some (s, Some ((sc_used s + sz) mod 2 ^ 64))
      else do {
        (s1, e1) \<leftarrow> scma_compact_incremental 65536 s;
        if e1 \<noteq> FT_ERR_SUCCESS then Some (s1, None)
        else do {
          (s2, e2) \<leftarrow> (if sc_needed s1 then scma_compact s1 else Some (s1, FT_ERR_SUCCESS));
          if e2 \<noteq> FT_ERR_SUCCESS then Some (s2, None)
          else
            let required_size = (sc_used s2 + sz) mod 2 ^ 64
            in Some (s2, if required_size < sc_used s2 then None else Some required_size) } })"

definition compact_if_full ::
  "nat \<Rightarrow> nat \<Rightarrow> scma_state \<Rightarrow> (scma_state \<times> nat option) option" where
  "compact_if_full sz required_size s =
     (if required_size > length (sc_heap s) \<and> sc_needed s
      then do {
        (s1, e) \<leftarrow> scma_compact s;
        if e \<noteq> FT_ERR_SUCCESS then Some (s1, None)
        else if sz > FT_SYSTEM_SIZE_MAX - sc_used s1 then Some (s1, None)
        else Some (s1, Some (sc_used s1 + sz)) }
      else Some (s, Some required_size))"

definition allocate_fresh ::
  "scma_env \<Rightarrow> nat \<Rightarrow> scma_state \<Rightarrow> (scma_state \<times> scma_handle) option" where
  "allocate_fresh env sz s =
     do {
       (s1, r1) \<leftarrow> compact_if_needed sz s;
       (case r1 of
          None \<Rightarrow> Some (s1, scma_invalid_handle)
        | Some required1 \<Rightarrow> do {
            (s2, r2) \<leftarrow> compact_if_full sz required1 s1;
            (case r2 of
               None \<Rightarrow> Some (s2, scma_invalid_handle)
             | Some required2 \<Rightarrow> do {
                 (s3, granted) \<leftarrow> scma_ensure_capacity env required2 s2;
                 if \<not> granted then Some (s3, scma_invalid_handle) else append_block env sz s3 }) }) }"

definition scma_allocate ::
  "scma_env \<Rightarrow> nat \<Rightarrow> scma_state \<Rightarrow> (scma_state \<times> scma_handle) option" where
  "scma_allocate env sz s =
     (if \<not> se_lock env then Some (s, scma_invalid_handle)
      else if \<not> sc_initialised s then Some (s, scma_invalid_handle)
      else if sz = 0 then Some (s, scma_invalid_handle)
      else if sz > FT_SYSTEM_SIZE_MAX then Some (s, scma_invalid_handle)
      else if (sc_used s + sz) mod 2 ^ 64 < sc_used s then Some (s, scma_invalid_handle)
      else do {
        (s1, e, found) \<leftarrow> scma_take_free_span env sz s;
        if e \<noteq> FT_ERR_SUCCESS then Some (s1, scma_invalid_handle)
        else (case found of
            Some index \<Rightarrow> Some (activate_block sz index s1)
          | None \<Rightarrow> allocate_fresh env sz s1) })"

definition scma_free :: "scma_env \<Rightarrow> scma_handle \<Rightarrow> scma_state \<Rightarrow> (scma_state \<times> ft_err) option" where
  "scma_free env handle s =
     (if \<not> se_lock env then Some (s, FT_ERR_SYS_MUTEX_LOCK_FAILED)
      else case scma_validate_handle handle s of
        None \<Rightarrow> Some (s, FT_ERR_INVALID_HANDLE)
      | Some i \<Rightarrow>
          let block_size = sb_size (sc_blocks s ! i)
          in do {
            s1 \<leftarrow> scma_secure_bzero (sb_offset (sc_blocks s ! i)) block_size s;
            let s2 = update_block i (\<lambda>b. b\<lparr>sb_in_use := False,
                       sb_generation := scma_next_generation (sb_generation b)\<rparr>) (scma_unlink_block i s1);
            let s3 = s2\<lparr>sc_live := (if sc_live s2 \<ge> block_size then sc_live s2 - block_size else 0)\<rparr>;
            s4 \<leftarrow> scma_coalesce_free_block i (scma_push_free_block i s3);
            let block = sc_blocks s4 ! i;
            let was_tail = (sb_offset block \<le> sc_used s4 \<and> sb_size block = sc_used s4 - sb_offset block);
            Some (if was_tail then scma_recompute_used_size s4
                  else (scma_reset_compaction (scma_recompute_used_size s4))\<lparr>sc_needed := True\<rparr>,
                  FT_ERR_SUCCESS) })"

subsection \<open>Resizing\<close>

definition is_last_block :: "nat \<Rightarrow> scma_state \<Rightarrow> bool" where
  "is_last_block i s \<longleftrightarrow> sb_offset (sc_blocks s ! i) \<le> sc_used s
     \<and> sb_size (sc_blocks s ! i) = sc_used s - sb_offset (sc_blocks s ! i)"

definition resize_shrink ::
  "nat \<Rightarrow> nat \<Rightarrow> scma_state \<Rightarrow> (scma_state \<times> ft_err) option" where
  "resize_shrink i new_size s =
     (let old_size = sb_size (sc_blocks s ! i); old_offset = sb_offset (sc_blocks s ! i)
      in do {
        s1 \<leftarrow> scma_secure_bzero (old_offset + new_size) (old_size - new_size) s;
        let s2 = update_block i (\<lambda>b. b\<lparr>sb_size := new_size\<rparr>) s1;
        let s3 = s2\<lparr>sc_live := (if sc_live s2 \<ge> old_size - new_size
                               then sc_live s2 - (old_size - new_size) else 0)\<rparr>;
        let s4 = (if is_last_block i s then s3\<lparr>sc_used := old_offset + new_size\<rparr>
                  else (scma_reset_compaction s3)\<lparr>sc_needed := True\<rparr>);
        Some (scma_recompute_used_size s4, FT_ERR_SUCCESS) })"

text \<open>The last block grows in place; \<open>discard\<close> when free blocks behind it are to be forgotten.\<close>

definition resize_in_place ::
  "scma_env \<Rightarrow> bool \<Rightarrow> nat \<Rightarrow> nat \<Rightarrow> scma_state \<Rightarrow> (scma_state \<times> ft_err) option" where
  "resize_in_place env discard i new_size s =
     (let old_size = sb_size (sc_blocks s ! i); old_offset = sb_offset (sc_blocks s ! i)
      in if new_size > FT_SYSTEM_SIZE_MAX - old_offset then Some (s, FT_ERR_OUT_OF_RANGE)
         else do {
           (s1, granted) \<leftarrow> scma_ensure_capacity env (old_offset + new_size) s;
           if \<not> granted then Some (s1, FT_ERR_NO_MEMORY)
           else do {
             s2 \<leftarrow> (if discard then scma_discard_free_spans_from (sc_used s1) s1 else Some s1);
             let s3 = scma_recompute_used_size (update_block i (\<lambda>b. b\<lparr>sb_size := new_size\<rparr>) s2);
             Some (s3\<lparr>sc_live := sc_live s3 + (new_size - old_size)\<rparr>, FT_ERR_SUCCESS) } })"

text \<open>Another block moves behind the used part.\<close>

definition resize_move ::
  "scma_env \<Rightarrow> nat \<Rightarrow> nat \<Rightarrow> nat \<Rightarrow> scma_state \<Rightarrow> (scma_state \<times> ft_err) option" where
  "resize_move env i new_size required_size s =
     (let old_size = sb_size (sc_blocks s ! i); old_offset = sb_offset (sc_blocks s ! i)
      in do {
        (s1, granted) \<leftarrow> scma_ensure_capacity env required_size s;
        if \<not> granted then Some (s1, FT_ERR_NO_MEMORY)
        else do {
          s2 \<leftarrow> scma_discard_free_spans_from (sc_used s1) s1;
          s3 \<leftarrow> heap_move (sc_used s2) old_offset old_size s2;
          s4 \<leftarrow> scma_secure_bzero old_offset old_size s3;
          let s5 = update_block i (\<lambda>b. b\<lparr>sb_offset := sc_used s4, sb_size := new_size\<rparr>)
                     (scma_unlink_block i s4);
          let s6 = scma_recompute_used_size (scma_link_block_at_tail i s5);
          Some (scma_reset_compaction (s6\<lparr>sc_live := sc_live s6 + (new_size - old_size),
                  sc_needed := True\<rparr>), FT_ERR_SUCCESS) } })"

definition resize_grow ::
  "scma_env \<Rightarrow> nat \<Rightarrow> nat \<Rightarrow> scma_state \<Rightarrow> (scma_state \<times> ft_err) option" where
  "resize_grow env i new_size s =
     (if new_size > FT_SYSTEM_SIZE_MAX - sc_used s then Some (s, FT_ERR_OUT_OF_RANGE)
      else if sc_used s + new_size > length (sc_heap s) \<and> sc_needed s
      then do {
        (s1, e) \<leftarrow> scma_compact s;
        if e \<noteq> FT_ERR_SUCCESS then Some (s1, FT_ERR_INVALID_STATE)
        else if is_last_block i s1 then resize_in_place env False i new_size s1
        else if new_size > FT_SYSTEM_SIZE_MAX - sc_used s1 then Some (s1, FT_ERR_OUT_OF_RANGE)
        else resize_move env i new_size (sc_used s1 + new_size) s1 }
      else resize_move env i new_size (sc_used s + new_size) s)"

definition scma_resize ::
  "scma_env \<Rightarrow> scma_handle \<Rightarrow> nat \<Rightarrow> scma_state \<Rightarrow> (scma_state \<times> ft_err) option" where
  "scma_resize env handle new_size s =
     (if \<not> se_lock env then Some (s, FT_ERR_SYS_MUTEX_LOCK_FAILED)
      else if new_size = 0 then Some (s, FT_ERR_INVALID_ARGUMENT)
      else case scma_validate_handle handle s of
        None \<Rightarrow> Some (s, FT_ERR_INVALID_HANDLE)
      | Some i \<Rightarrow>
          let old_size = sb_size (sc_blocks s ! i); s1 = scma_recompute_used_size s
          in if new_size = old_size then Some (s1, FT_ERR_SUCCESS)
             else if new_size < old_size then resize_shrink i new_size s1
             else if is_last_block i s1 then resize_in_place env True i new_size s1
             else resize_grow env i new_size s1)"

subsection \<open>Queries\<close>

definition scma_get_size :: "scma_env \<Rightarrow> scma_handle \<Rightarrow> scma_state \<Rightarrow> nat" where
  "scma_get_size env handle s =
     (if \<not> se_lock env then 0
      else case scma_validate_handle handle s of None \<Rightarrow> 0 | Some i \<Rightarrow> sb_size (sc_blocks s ! i))"

definition scma_handle_is_valid :: "scma_env \<Rightarrow> scma_handle \<Rightarrow> scma_state \<Rightarrow> bool" where
  "scma_handle_is_valid env handle s \<longleftrightarrow> se_lock env \<and> scma_validate_handle handle s \<noteq> None"

record scma_stats =
  ss_block_count :: nat
  ss_used_size :: nat
  ss_heap_capacity :: nat

definition scma_get_stats :: "scma_env \<Rightarrow> bool \<Rightarrow> scma_state \<Rightarrow> scma_stats option \<times> ft_err" where
  "scma_get_stats env out_stats s =
     (if \<not> se_lock env then (None, FT_ERR_SYS_MUTEX_LOCK_FAILED)
      else if \<not> sc_initialised s then (None, FT_ERR_NOT_INITIALISED)
      else if \<not> out_stats then (None, FT_ERR_INVALID_ARGUMENT)
      else (Some \<lparr>ss_block_count = length (sc_blocks s), ss_used_size = sc_live s,
                  ss_heap_capacity = length (sc_heap s)\<rparr>, FT_ERR_SUCCESS))"

subsection \<open>Reading and writing\<close>

text \<open>
  The source of a write and the destination of a read are buffers of the caller, outside the
  allocator's heap; a read returns what the destinations hold afterwards.
\<close>

record scma_write_request =
  sw_handle :: scma_handle
  sw_offset :: nat
  sw_source :: ptr
  sw_size :: nat

record scma_read_request =
  sr_handle :: scma_handle
  sr_offset :: nat
  sr_destination :: ptr
  sr_size :: nat

text \<open>The block index, or the error.\<close>

definition validate_access ::
  "scma_handle \<Rightarrow> ptr \<Rightarrow> nat \<Rightarrow> nat \<Rightarrow> scma_state \<Rightarrow> ft_err + nat" where
  "validate_access handle pointer offset sz s =
     (case scma_validate_handle handle s of
        None \<Rightarrow> Inl FT_ERR_INVALID_HANDLE
      | Some i \<Rightarrow>
          if pointer = None then Inl FT_ERR_INVALID_POINTER
          else if offset > sb_size (sc_blocks s ! i) then Inl FT_ERR_OUT_OF_RANGE
          else if sz > sb_size (sc_blocks s ! i) - offset then Inl FT_ERR_OUT_OF_RANGE
          else Inr i)"

definition scma_validate_write_request :: "scma_write_request \<Rightarrow> scma_state \<Rightarrow> ft_err + nat" where
  "scma_validate_write_request r s = validate_access (sw_handle r) (sw_source r) (sw_offset r) (sw_size r) s"

definition scma_validate_read_request :: "scma_read_request \<Rightarrow> scma_state \<Rightarrow> ft_err + nat" where
  "scma_validate_read_request r s =
     validate_access (sr_handle r) (sr_destination r) (sr_offset r) (sr_size r) s"

fun validate_writes :: "scma_write_request list \<Rightarrow> scma_state \<Rightarrow> ft_err" where
  "validate_writes [] s = FT_ERR_SUCCESS"
| "validate_writes (r # rs) s =
     (case scma_validate_write_request r s of Inl e \<Rightarrow> e | Inr i \<Rightarrow> validate_writes rs s)"

fun validate_reads :: "scma_read_request list \<Rightarrow> scma_state \<Rightarrow> ft_err" where
  "validate_reads [] s = FT_ERR_SUCCESS"
| "validate_reads (r # rs) s =
     (case scma_validate_read_request r s of Inl e \<Rightarrow> e | Inr i \<Rightarrow> validate_reads rs s)"

text \<open>
  The second pass copies. Its own validation is the one already made, so the block is the one the
  handle names; reading a source of fewer bytes than its request says is undefined.
\<close>

fun copy_writes :: "scma_write_request list \<Rightarrow> scma_state \<Rightarrow> scma_state option" where
  "copy_writes [] s = Some s"
| "copy_writes (r # rs) s =
     (case scma_validate_write_request r s of
        Inl e \<Rightarrow> None
      | Inr i \<Rightarrow>
          if readable (sw_source r) (sw_size r)
          then do { s1 \<leftarrow> heap_store (sb_offset (sc_blocks s ! i) + sw_offset r)
                            (span_bytes (sw_source r) (sw_size r)) s;
                    copy_writes rs s1 }
          else None)"

fun copy_reads :: "scma_read_request list \<Rightarrow> scma_state \<Rightarrow> bytes list option" where
  "copy_reads [] s = Some []"
| "copy_reads (r # rs) s =
     (case (scma_validate_read_request r s, sr_destination r) of
        (Inr i, Some destination) \<Rightarrow>
          if sr_size r \<le> length destination
          then do { xs \<leftarrow> heap_load (sb_offset (sc_blocks s ! i) + sr_offset r) (sr_size r) s;
                    rest \<leftarrow> copy_reads rs s;
                    Some ((xs @ drop (sr_size r) destination) # rest) }
          else None
      | _ \<Rightarrow> None)"

text \<open>The array of requests may be null; a count beyond the array is undefined.\<close>

definition scma_write_batch ::
  "scma_env \<Rightarrow> scma_write_request list option \<Rightarrow> nat \<Rightarrow> scma_state \<Rightarrow> (scma_state \<times> ft_err) option" where
  "scma_write_batch env requests request_count s =
     (if \<not> se_lock env then Some (s, FT_ERR_SYS_MUTEX_LOCK_FAILED)
      else case requests of
        None \<Rightarrow> Some (s, if request_count \<noteq> 0 then FT_ERR_INVALID_POINTER else FT_ERR_SUCCESS)
      | Some rs \<Rightarrow>
          if length rs < request_count then None
          else
            let e = validate_writes (take request_count rs) s
            in if e \<noteq> FT_ERR_SUCCESS then Some (s, e)
               else do { s1 \<leftarrow> copy_writes (take request_count rs) s; Some (s1, FT_ERR_SUCCESS) })"

definition scma_read_batch ::
  "scma_env \<Rightarrow> scma_read_request list option \<Rightarrow> nat \<Rightarrow> scma_state \<Rightarrow> (bytes list \<times> ft_err) option" where
  "scma_read_batch env requests request_count s =
     (if \<not> se_lock env then Some ([], FT_ERR_SYS_MUTEX_LOCK_FAILED)
      else case requests of
        None \<Rightarrow> Some ([], if request_count \<noteq> 0 then FT_ERR_INVALID_POINTER else FT_ERR_SUCCESS)
      | Some rs \<Rightarrow>
          if length rs < request_count then None
          else
            let e = validate_reads (take request_count rs) s
            in if e \<noteq> FT_ERR_SUCCESS then Some ([], e)
               else do { out \<leftarrow> copy_reads (take request_count rs) s; Some (out, FT_ERR_SUCCESS) })"

definition scma_write ::
  "scma_env \<Rightarrow> scma_handle \<Rightarrow> nat \<Rightarrow> ptr \<Rightarrow> nat \<Rightarrow> scma_state \<Rightarrow> (scma_state \<times> ft_err) option" where
  "scma_write env handle offset source sz s =
     scma_write_batch env (Some [\<lparr>sw_handle = handle, sw_offset = offset, sw_source = source,
       sw_size = sz\<rparr>]) 1 s"

definition scma_read ::
  "scma_env \<Rightarrow> scma_handle \<Rightarrow> nat \<Rightarrow> ptr \<Rightarrow> nat \<Rightarrow> scma_state \<Rightarrow> (bytes list \<times> ft_err) option" where
  "scma_read env handle offset destination sz s =
     scma_read_batch env (Some [\<lparr>sr_handle = handle, sr_offset = offset, sr_destination = destination,
       sr_size = sz\<rparr>]) 1 s"

end
