(* ===== verification/Scma_Rest.thy ===== *)
theory Scma_Rest
  imports Scma_Compact Scma_Api
begin

text \<open>
  The allocator between two calls. What a client sees is the map from handles to bytes; the invariant
  adds to the layout of the heap that bytes outside live blocks are old news: they are zero or come from
  \<open>malloc\<close> and \<open>realloc\<close>, never from a block that was freed or moved.
\<close>

subsection \<open>What a client sees\<close>

definition scma_contents :: "scma_state \<Rightarrow> scma_handle \<Rightarrow> bytes option" where
  "scma_contents s h = map_option (block_bytes s) (scma_validate_handle h s)"

lemma validate_handle_iff:
  "scma_validate_handle h s = Some i \<longleftrightarrow> sc_initialised s \<and> \<not> scma_handle_is_invalid h
     \<and> i = unat (sh_index h) \<and> i \<in> live_set (sc_blocks s) \<and> sb_generation (sc_blocks s ! i) = sh_generation h"
  by (auto simp: scma_validate_handle_def Let_def live_set_def)

lemma option_eqI: "(\<And>x. a = Some x \<longleftrightarrow> b = Some x) \<Longrightarrow> a = b"
  by (cases a; cases b) auto

text \<open>The state changes at most at one block.\<close>

definition others_kept :: "nat \<Rightarrow> scma_state \<Rightarrow> scma_state \<Rightarrow> bool" where
  "others_kept i s s1 \<longleftrightarrow> sc_initialised s1 = sc_initialised s
     \<and> (\<forall>j. j \<noteq> i \<longrightarrow> (j \<in> live_set (sc_blocks s1) \<longleftrightarrow> j \<in> live_set (sc_blocks s))
          \<and> (j \<in> live_set (sc_blocks s) \<longrightarrow> sb_generation (sc_blocks s1 ! j) = sb_generation (sc_blocks s ! j)
               \<and> block_bytes s1 j = block_bytes s j))"

lemma same_others_kept: "same_blocks s s1 \<Longrightarrow> others_kept i s s1"
  by (auto simp: same_blocks_def others_kept_def)

lemma others_kept_trans: "others_kept i s s1 \<Longrightarrow> others_kept i s1 s2 \<Longrightarrow> others_kept i s s2"
  unfolding others_kept_def by auto

lemma validate_others:
  assumes "others_kept i s s1" "unat (sh_index h) \<noteq> i"
  shows "scma_validate_handle h s1 = scma_validate_handle h s"
proof (rule option_eqI)
  fix k
  show "scma_validate_handle h s1 = Some k \<longleftrightarrow> scma_validate_handle h s = Some k"
    using assms unfolding validate_handle_iff others_kept_def by auto
qed

lemma same_blocks_validate:
  assumes "same_blocks s s1"
  shows "scma_validate_handle h s1 = scma_validate_handle h s"
proof (rule option_eqI)
  fix k
  show "scma_validate_handle h s1 = Some k \<longleftrightarrow> scma_validate_handle h s = Some k"
    using assms unfolding validate_handle_iff same_blocks_def by auto
qed

lemma same_blocks_contents:
  assumes "same_blocks s s1"
  shows "scma_contents s1 = scma_contents s"
proof
  fix h
  have "block_bytes s1 k = block_bytes s k" if "scma_validate_handle h s = Some k" for k
    using that assms unfolding validate_handle_iff same_blocks_def by blast
  then show "scma_contents s1 h = scma_contents s h"
    unfolding scma_contents_def same_blocks_validate [OF assms] by (cases "scma_validate_handle h s") auto
qed

lemma contents_change:
  assumes "others_kept i s s1" "sc_initialised s" "\<not> scma_handle_is_invalid h" "unat (sh_index h) = i"
    "i \<in> live_set (sc_blocks s) \<Longrightarrow> sb_generation (sc_blocks s ! i) = sh_generation h"
    "i \<in> live_set (sc_blocks s1) \<Longrightarrow> sb_generation (sc_blocks s1 ! i) = sh_generation h"
  shows "scma_contents s1 = (scma_contents s)(h := (if i \<in> live_set (sc_blocks s1) then Some (block_bytes s1 i) else None))"
proof
  fix g
  have init: "sc_initialised s1" using assms(1,2) by (simp add: others_kept_def)
  consider "g = h" | "g \<noteq> h" "unat (sh_index g) = i" | "g \<noteq> h" "unat (sh_index g) \<noteq> i" by blast
  then show "scma_contents s1 g = ((scma_contents s)(h := (if i \<in> live_set (sc_blocks s1) then Some (block_bytes s1 i) else None))) g"
  proof cases
    case 1
    have "scma_validate_handle h s1 = (if i \<in> live_set (sc_blocks s1) then Some i else None)"
    proof (cases "i \<in> live_set (sc_blocks s1)")
      case True
      then show ?thesis using validate_handle_iff [of h s1 i] assms(3,4,6) init by simp
    next
      case False
      then show ?thesis using validate_handle_iff [of h s1] assms(4) by (cases "scma_validate_handle h s1") auto
    qed
    then show ?thesis using 1 by (simp add: scma_contents_def)
  next
    case 2
    then have "sh_index g = sh_index h" using assms(4) by (metis word_unat_eq_iff)
    then have gen: "sh_generation g \<noteq> sh_generation h" using 2(1) by (cases g; cases h) auto
    have "scma_validate_handle g s1 \<noteq> Some k" "scma_validate_handle g s \<noteq> Some k" for k
      using gen 2(2) assms(5,6) unfolding validate_handle_iff by auto
    then have "scma_validate_handle g s1 = None" "scma_validate_handle g s = None" by blast+
    then show ?thesis using 2(1) by (simp add: scma_contents_def)
  next
    case 3
    have "block_bytes s1 k = block_bytes s k" if "scma_validate_handle g s = Some k" for k
      using that assms(1) 3(2) unfolding validate_handle_iff others_kept_def by blast
    then show ?thesis
      using 3 validate_others [OF assms(1) 3(2)] by (cases "scma_validate_handle g s") (auto simp: scma_contents_def)
  qed
qed

subsection \<open>The invariant between calls\<close>

definition wiped :: "u8 set \<Rightarrow> scma_state \<Rightarrow> bool" where
  "wiped D s \<longleftrightarrow> (\<forall>p < length (sc_heap s). (\<forall>i \<in> live_set (sc_blocks s). p \<notin> extent (sc_blocks s) i)
     \<longrightarrow> sc_heap s ! p \<in> D)"

definition settled :: "u8 set \<Rightarrow> scma_state \<Rightarrow> nat list \<Rightarrow> nat list \<Rightarrow> bool" where
  "settled D s ls fs \<longleftrightarrow> core s ls \<and> free_ok s fs \<and> sc_cursor s = None
     \<and> (sc_blocks s = [] \<longrightarrow> sc_used s = 0) \<and> wiped D s"

lemma settledD:
  assumes "settled D s ls fs"
  shows "core s ls" "free_ok s fs" "sc_cursor s = None" "sc_blocks s = [] \<Longrightarrow> sc_used s = 0" "wiped D s"
  using assms by (simp_all add: settled_def)

text \<open>Live blocks that cover at least as much, over a heap with the same bytes elsewhere.\<close>

lemma wiped_mono:
  assumes "wiped D s" "length (sc_heap s1) = length (sc_heap s)"
    "\<And>p. p < length (sc_heap s) \<Longrightarrow> \<forall>i \<in> live_set (sc_blocks s1). p \<notin> extent (sc_blocks s1) i \<Longrightarrow>
       (\<forall>i \<in> live_set (sc_blocks s). p \<notin> extent (sc_blocks s) i) \<and> sc_heap s1 ! p = sc_heap s ! p
       \<or> sc_heap s1 ! p \<in> D"
  shows "wiped D s1"
  using assms unfolding wiped_def by metis

lemma extent_cong:
  "sb_offset (bs1 ! i) = sb_offset (bs ! i) \<Longrightarrow> sb_size (bs1 ! i) = sb_size (bs ! i) \<Longrightarrow> extent bs1 i = extent bs i"
  by (simp add: extent_def block_end_def)

lemma settled_free_change:
  assumes "settled D s ls fs" "free_change s s1" "free_ok s1 gs"
  shows "settled D s1 ls gs" "same_blocks s s1"
proof -
  note S = settledD [OF assms(1)] and F = free_change_fields [OF assms(2)]
  note B = free_change_block [OF assms(2)]
  show "same_blocks s s1" using core_free_change(2) [OF S(1) assms(2)] .
  have live: "live_set (sc_blocks s1) = live_set (sc_blocks s)" using free_change_live [OF assms(2)] .
  have "extent (sc_blocks s1) i = extent (sc_blocks s) i" if "i \<in> live_set (sc_blocks s)" for i
    using extent_cong B(5,6) live_setD [OF that] by blast
  then have "wiped D s1" using S(5) live F(1) by (simp add: wiped_def)
  moreover have "sc_blocks s1 = [] \<Longrightarrow> sc_used s1 = 0" using S(4) F(3,11) by (metis length_0_conv)
  ultimately show "settled D s1 ls gs"
    using core_free_change(1) [OF S(1) assms(2)] assms(3) S(3) F(8) by (simp add: settled_def)
qed

lemma settled_compacted:
  assumes "settled D s ls fs" "core s1 ls" "compacted s s1" "0 \<in> D"
  shows "settled D s1 ls []"
proof -
  note S = settledD [OF assms(1)]
  have K: "total_size (sc_blocks s1) = sc_used s1" "sc_used s1 \<le> sc_used s" "sc_cursor s1 = None" "sc_free s1 = None"
    "length (sc_blocks s1) = length (sc_blocks s)" "length (sc_heap s1) = length (sc_heap s)"
    "drop (sc_used s1) (sc_heap s1) = replicate (sc_used s - sc_used s1) 0 @ drop (sc_used s) (sc_heap s)"
    using assms(3) by (simp_all add: compacted_def)
  have "set (drop (sc_used s) (sc_heap s)) \<subseteq> D"
  proof
    fix x assume "x \<in> set (drop (sc_used s) (sc_heap s))"
    then obtain k where k: "sc_used s + k < length (sc_heap s)" "x = sc_heap s ! (sc_used s + k)"
      by (auto simp: in_set_conv_nth less_diff_conv add.commute)
    have "sc_used s + k \<notin> extent (sc_blocks s) i" if "i \<in> live_set (sc_blocks s)" for i
      using layoutD(2) [OF coreD(2) [OF S(1)] that] by (simp add: extent_def)
    then show "x \<in> D" using S(5) k by (simp add: wiped_def)
  qed
  then have high: "set (drop (sc_used s1) (sc_heap s1)) \<subseteq> D"
    unfolding K(7) using assms(4) by (auto simp: set_replicate_conv_if)
  have "wiped D s1"
    unfolding wiped_def
  proof (intro allI impI)
    fix p assume p: "p < length (sc_heap s1)" "\<forall>i \<in> live_set (sc_blocks s1). p \<notin> extent (sc_blocks s1) i"
    then have "sc_used s1 \<le> p" using extents_cover [OF coreD(2) [OF assms(2)] K(1)] by (meson not_le)
    then have "sc_heap s1 ! p \<in> set (drop (sc_used s1) (sc_heap s1))"
      using p(1) by (auto simp: in_set_conv_nth intro!: exI [of _ "p - sc_used s1"])
    then show "sc_heap s1 ! p \<in> D" using high by blast
  qed
  moreover have "sc_blocks s1 = [] \<Longrightarrow> sc_used s1 = 0" using S(4) K(2,5) by (metis length_0_conv le_zero_eq)
  ultimately show ?thesis using assms(2) K(3,4) free_ok_none by (simp add: settled_def)
qed

lemma settled_heap:
  assumes "settled D s ls fs" "core (s\<lparr>sc_heap := h\<rparr>) ls" "free_ok (s\<lparr>sc_heap := h\<rparr>) fs"
    "take (length (sc_heap s)) h = sc_heap s" "set (drop (length (sc_heap s)) h) \<subseteq> D"
  shows "settled D (s\<lparr>sc_heap := h\<rparr>) ls fs"
proof -
  note S = settledD [OF assms(1)]
  have "h ! p \<in> D" if p: "p < length h" "\<forall>i \<in> live_set (sc_blocks s). p \<notin> extent (sc_blocks s) i" for p
  proof (cases "p < length (sc_heap s)")
    case True
    then have "h ! p = sc_heap s ! p" using assms(4) by (metis nth_take)
    then show ?thesis using S(5) p True by (simp add: wiped_def)
  next
    case False
    then have "h ! p \<in> set (drop (length (sc_heap s)) h)"
      using p(1) by (auto simp: in_set_conv_nth intro!: exI [of _ "p - length (sc_heap s)"])
    then show ?thesis using assms(5) by blast
  qed
  then have "wiped D (s\<lparr>sc_heap := h\<rparr>)" by (simp add: wiped_def)
  then show ?thesis using S assms(2,3) by (simp add: settled_def)
qed

text \<open>Bytes of a range outside the live blocks.\<close>

lemma wiped_range:
  assumes "wiped D s" "n + z \<le> length (sc_heap s)"
    "\<And>i. i \<in> live_set (sc_blocks s) \<Longrightarrow> block_end (sc_blocks s) i \<le> n \<or> n + z \<le> sb_offset (sc_blocks s ! i)"
  shows "set (take z (drop n (sc_heap s))) \<subseteq> D"
proof
  fix x assume "x \<in> set (take z (drop n (sc_heap s)))"
  then obtain k where k: "k < z" "x = sc_heap s ! (n + k)" "n + k < length (sc_heap s)"
    using assms(2) by (auto simp: in_set_conv_nth)
  have "n + k \<notin> extent (sc_blocks s) i" if "i \<in> live_set (sc_blocks s)" for i
    using assms(3) [OF that] k(1) by (auto simp: extent_def)
  then show "x \<in> D" using assms(1) k by (simp add: wiped_def)
qed

end
