(* ===== verification/Scma_Alloc.thy ===== *)
theory Scma_Alloc
  imports Scma_Rest
begin

text \<open>
  Allocation: a free span is reused or a block is put behind the others, after a compaction when one is
  due. A new handle appears, for bytes no other block ever held since they were last wiped; no other
  block changes.
\<close>

subsection \<open>A new live block\<close>

lemma link_new_block:
  assumes st: "settled D s ls fs"
    and len: "length (sc_blocks s) \<le> length bs" "length bs \<le> sc_block_capacity s"
    and others: "\<forall>j < length bs. j \<noteq> i \<longrightarrow> j < length (sc_blocks s) \<and> bs ! j = sc_blocks s ! j"
    and i: "i < length bs" "i \<notin> live_set (sc_blocks s)" "i \<notin> set fs"
    and b: "sb_in_use (bs ! i)" "0 < sb_size (bs ! i)" "sb_generation (bs ! i) \<noteq> 0" "sb_generation (bs ! i) \<noteq> -1"
      "block_end bs i \<le> length (sc_heap s)"
    and ap: "\<forall>j \<in> live_set (sc_blocks s).
      block_end bs i \<le> sb_offset (sc_blocks s ! j) \<or> block_end (sc_blocks s) j \<le> sb_offset (bs ! i)"
  defines "s2 \<equiv> scma_link_block_at_tail i (s\<lparr>sc_blocks := bs\<rparr>)"
  shows "layout (sc_blocks s2) (length (sc_heap s))"
    "\<lbrakk>layout (sc_blocks s2) u; u \<le> length (sc_heap s)\<rbrakk> \<Longrightarrow>
       settled D (s2\<lparr>sc_used := u, sc_live := sc_live s2 + sb_size (bs ! i)\<rparr>) (ls @ [i]) fs"
    "list_change (s\<lparr>sc_blocks := bs\<rparr>) s2"
    "others_kept i s s2" "live_set (sc_blocks s2) = insert i (live_set (sc_blocks s))"
    "set (block_bytes s2 i) \<subseteq> D"
proof -
  let ?b = "sc_blocks s"
  note S = settledD [OF st]
  note C = coreD [OF S(1)]
  have "j \<in> live_set bs \<longleftrightarrow> j = i \<or> j \<in> live_set ?b" for j
    using others [rule_format, of j] i(1) b(1) len(1) by (cases "j = i") (auto simp: live_set_def)
  then have live1: "live_set bs = insert i (live_set ?b)" by blast
  have old: "bs ! j = ?b ! j" "j \<noteq> i" if "j \<in> live_set ?b" for j
    using that others [rule_format, of j] live_setD [OF that] len(1) i(2) by auto
  have ls: "set ls = live_set ?b" "seg ?b None ls None" "sc_head s = first_of ls" "sc_tail s = last_of ls" "distinct ls"
    using C(5,6) by (simp_all add: dlist_def)
  have "seg bs None ls None" by (rule seg_cong [OF ls(2) len(1)]) (use old ls(1) in simp)
  then have d1: "dlist (s\<lparr>sc_blocks := bs\<rparr>) ls" using ls by (simp add: dlist_def)
  have inls: "i \<notin> set ls" using ls(1) i(2) by simp
  have use: "sb_in_use (sc_blocks (s\<lparr>sc_blocks := bs\<rparr>) ! x)" if "x \<in> set ls" for x
    using old [of x] ls(1) that live_setD by fastforce
  have L: "list_change (s\<lparr>sc_blocks := bs\<rparr>) s2" "dlist s2 (ls @ [i])"
    using link_block_effect [OF d1 _ _ inls use] i(1) b(1) by (simp_all add: s2_def)
  show "list_change (s\<lparr>sc_blocks := bs\<rparr>) s2" by (rule L(1))
  note F = list_change_fields [OF L(1), simplified] and B = list_change_block [OF L(1), simplified]
  have len2: "length (sc_blocks s2) = length bs" using F by simp
  show live2: "live_set (sc_blocks s2) = insert i (live_set ?b)" using list_change_live [OF L(1)] live1 by simp
  have off: "sb_offset (sc_blocks s2 ! j) = sb_offset (bs ! j)" "sb_size (sc_blocks s2 ! j) = sb_size (bs ! j)"
    "sb_generation (sc_blocks s2 ! j) = sb_generation (bs ! j)" if "j \<in> live_set bs" for j
    using B live_setD [OF that] by auto
  have end1: "block_end bs j = block_end ?b j" if "j \<in> live_set ?b" for j using old [OF that] by (simp add: block_end_def)
  have api: "apart bs i j" if "j \<in> live_set ?b" for j
    using ap [rule_format, OF that] old [OF that] end1 [OF that] by (simp add: apart_def)
  have apj: "apart bs j k" if "j \<in> live_set ?b" "k \<in> live_set ?b" "j \<noteq> k" for j k
    using layoutD(3) [OF C(2) that] old(1) [OF that(1)] old(1) [OF that(2)] by (simp add: apart_def block_end_def)
  have sym: "apart bs j i" if "j \<in> live_set ?b" for j using api [OF that] unfolding apart_def by blast
  have "layout bs (length (sc_heap s))"
    unfolding layout_def live1 ball_simps(7)
    using b(2,5) api apj sym layoutD(1,2) [OF C(2)] C(3) old end1 by fastforce
  moreover have lc: "layout (sc_blocks s2) v = layout bs v" "total_size (sc_blocks s2) = total_size bs" for v
    using layout_cong [of "sc_blocks s2" bs] off list_change_live [OF L(1)] by auto
  ultimately show "layout (sc_blocks s2) (length (sc_heap s))" by simp
  have "(\<Sum>j \<in> live_set ?b. sb_size (bs ! j)) = total_size ?b"
    unfolding total_size_def by (rule sum.cong) (use old in auto)
  moreover have "total_size bs = sb_size (bs ! i) + (\<Sum>j \<in> live_set ?b. sb_size (bs ! j))"
    unfolding total_size_def live1 using i(2) by simp
  ultimately have tot: "total_size (sc_blocks s2) = sc_live s + sb_size (bs ! i)" using lc(2) C(7) by simp
  have gens: "\<forall>x \<in> set (sc_blocks s2). sb_generation x \<noteq> 0 \<and> sb_generation x \<noteq> -1"
  proof -
    have "sb_generation (bs ! j) \<noteq> 0 \<and> sb_generation (bs ! j) \<noteq> -1" if "j < length bs" for j
      using C(10) [of j] others [rule_format, OF that] b(3,4) by (cases "j = i") auto
    then show ?thesis using B(2) len2 by (auto simp: in_set_conv_nth)
  qed
  have "bs ! x = ?b ! x" if "x \<in> set fs" for x
  proof -
    have "x \<noteq> i" "x < length bs" using that i(3) free_okD(4) [OF S(2) that] len(1) by auto
    then show ?thesis using others by blast
  qed
  then have "free_ok (s\<lparr>sc_blocks := bs\<rparr>) fs"
    using S(2) len(1) unfolding free_ok_def by (auto intro!: chain_cong [of ?b])
  then have fr: "free_ok s2 fs" using free_ok_list_change [OF _ L(1)] by blast
  have ext: "extent (sc_blocks s2) j = extent ?b j" if "j \<in> live_set ?b" for j
    using off [of j] old [OF that] live1 that by (auto simp: extent_def block_end_def)
  have wi: "wiped D s2"
    by (rule wiped_mono [OF S(5)]) (use F live2 ext in auto)
  have cap: "length (sc_blocks s2) \<le> sc_block_capacity s2" "sc_blocks s2 \<noteq> []"
    using len(2) len2 i(1) F(2) by auto
  show "settled D (s2\<lparr>sc_used := u, sc_live := sc_live s2 + sb_size (bs ! i)\<rparr>) (ls @ [i]) fs"
    if u: "layout (sc_blocks s2) u" "u \<le> length (sc_heap s)"
  proof -
    have "core (s2\<lparr>sc_used := u, sc_live := sc_live s2 + sb_size (bs ! i)\<rparr>) (ls @ [i])"
      using u C(1,4,9) L(2) F(1,2,4,9) cap(1) tot gens live2 ls(1) by (simp add: core_def dlist_def)
    then show ?thesis using fr wi S(3) F(7) cap(2) by (simp add: settled_def free_ok_def wiped_def)
  qed
  have kept: "sb_generation (sc_blocks s2 ! j) = sb_generation (?b ! j) \<and> block_bytes s2 j = block_bytes s j"
    if "j \<in> live_set ?b" for j
    using off [of j] old [OF that] live1 that F by (simp add: block_bytes_def)
  then show "others_kept i s s2" using F live2 by (auto simp: others_kept_def)
  have bi: "block_bytes s2 i = take (sb_size (bs ! i)) (drop (sb_offset (bs ! i)) (sc_heap s))"
    using off [of i] live1 F by (simp add: block_bytes_def)
  show "set (block_bytes s2 i) \<subseteq> D"
    unfolding bi by (rule wiped_range [OF S(5)]) (use b(5) ap in \<open>auto simp: block_end_def\<close>)
qed

subsection \<open>Taking a free span\<close>

text \<open>A descriptor that can become a live block of the given size.\<close>

definition ready :: "scma_state \<Rightarrow> nat list \<Rightarrow> nat \<Rightarrow> nat \<Rightarrow> bool" where
  "ready s fs sz c \<longleftrightarrow> c < length (sc_blocks s) \<and> \<not> sb_in_use (sc_blocks s ! c) \<and> c \<notin> set fs
     \<and> sb_size (sc_blocks s ! c) = sz \<and> block_end (sc_blocks s) c \<le> length (sc_heap s)
     \<and> (\<forall>j \<in> live_set (sc_blocks s). apart (sc_blocks s) c j)"

lemma readyI:
  assumes "free_change s s1" "c < length (sc_blocks s)" "\<not> sb_in_use (sc_blocks s ! c)" "c \<notin> set fs"
    "sb_offset (sc_blocks s1 ! c) = sb_offset (sc_blocks s ! c)" "sb_size (sc_blocks s1 ! c) = sz"
    "sb_offset (sc_blocks s ! c) + sz \<le> length (sc_heap s)"
    "\<And>j. j \<in> live_set (sc_blocks s) \<Longrightarrow> sb_offset (sc_blocks s ! c) + sz \<le> sb_offset (sc_blocks s ! j)
       \<or> block_end (sc_blocks s) j \<le> sb_offset (sc_blocks s ! c)"
  shows "ready s1 fs sz c"
proof -
  note F = free_change_fields [OF assms(1)] and B = free_change_block [OF assms(1)]
  have "apart (sc_blocks s1) c j" if "j \<in> live_set (sc_blocks s)" for j
    using assms(5,6) assms(8) [OF that] B(5,6) live_setD [OF that] by (simp add: apart_def block_end_def)
  then show ?thesis
    using assms(2-7) F(1,11) B(1) free_change_live [OF assms(1)] by (simp add: ready_def block_end_def)
qed

lemma settled_remove:
  assumes "settled D s ls fs"
  obtains s1 where "scma_remove_free_block c s = Some s1" "link_change s s1" "settled D s1 ls (remove1 c fs)"
    "same_blocks s s1" "c \<notin> set (remove1 c fs)"
proof -
  note S = settledD [OF assms]
  obtain s1 where r: "scma_remove_free_block c s = Some s1" "link_change s s1"
    "chain (sc_blocks s1) (sc_free s1) (remove1 c fs)"
    using remove_free_block_effect [OF free_okD(1) [OF S(2)]] by blast
  have sub: "set (remove1 c fs) \<subseteq> set fs" by (rule set_remove1_subset)
  have "free_ok s1 (remove1 c fs)"
  proof (rule free_ok_subset [OF S(2) link_free_change [OF r(2)] r(3) sub])
    fix x assume "x \<in> set (remove1 c fs)"
    then have "x < length (sc_blocks s)" using sub free_okD(4) [OF S(2)] by blast
    then show "strip (sc_blocks s1 ! x) = strip (sc_blocks s ! x)" by (rule link_change_block [OF r(2)])
  qed
  then show thesis
    using that r settled_free_change [OF assms link_free_change [OF r(2)]] chain_distinct [OF free_okD(1) [OF S(2)]]
    by simp
qed

lemma settled_discard:
  assumes "settled D s ls fs"
  obtains s1 gs where "scma_discard_free_spans_from n s = Some s1" "free_change s s1" "settled D s1 ls gs"
    "same_blocks s s1" "set gs \<subseteq> set fs"
    "\<forall>x < length (sc_blocks s). x \<notin> set fs \<longrightarrow> strip (sc_blocks s1 ! x) = strip (sc_blocks s ! x)"
proof -
  note S = settledD [OF assms]
  obtain s1 gs where r: "discard_loop (reaches_beyond n) (sc_free s) s = Some s1" "free_change s s1" "free_ok s1 gs"
    "set gs \<subseteq> set fs" "\<forall>x \<in> set gs. \<not> reaches_beyond n (sc_blocks s1) (sc_blocks s1 ! x)
        \<and> strip (sc_blocks s1 ! x) = strip (sc_blocks s ! x)"
    "\<forall>x < length (sc_blocks s). x \<notin> set fs \<longrightarrow> strip (sc_blocks s1 ! x) = strip (sc_blocks s ! x)"
    by (rule discard_loop_ok [OF stable_reaches [of n] S(2)])
  show thesis
    by (rule that [OF _ r(2) settled_free_change [OF assms r(2,3)] r(4,6)])
      (use r(1) in \<open>simp_all add: scma_discard_free_spans_from_def\<close>)
qed

text \<open>Changing the range of a free descriptor that is in no list.\<close>

lemma settled_resize_free:
  assumes "settled D s ls fs" "c < length (sc_blocks s)" "\<not> sb_in_use (sc_blocks s ! c)" "c \<notin> set fs"
  shows "settled D (update_block c (\<lambda>b. b\<lparr>sb_size := z\<rparr>) s) ls fs"
    "free_change s (update_block c (\<lambda>b. b\<lparr>sb_size := z\<rparr>) s)"
proof -
  show fc: "free_change s (update_block c (\<lambda>b. b\<lparr>sb_size := z\<rparr>) s)"
    by (rule free_change_update [OF assms(2)]) (use assms(3) in \<open>simp add: frozen_def\<close>)
  show "settled D (update_block c (\<lambda>b. b\<lparr>sb_size := z\<rparr>) s) ls fs"
    using settled_free_change(1) [OF assms(1) fc] free_ok_update [OF settledD(2) [OF assms(1)] assms(4)] by blast
qed

lemma settled_append_free:
  assumes st: "settled D s ls fs" and b: "\<not> sb_in_use b" "sb_generation b \<noteq> 0" "sb_generation b \<noteq> -1"
    and cap: "length (sc_blocks s) + 1 \<le> sc_block_capacity s"
  shows "settled D (s\<lparr>sc_blocks := sc_blocks s @ [b]\<rparr>) ls fs" "same_blocks s (s\<lparr>sc_blocks := sc_blocks s @ [b]\<rparr>)"
proof -
  let ?b = "sc_blocks s" and ?s = "s\<lparr>sc_blocks := sc_blocks s @ [b]\<rparr>"
  note S = settledD [OF st]
  note C = coreD [OF S(1)]
  have live: "live_set (?b @ [b]) = live_set ?b"
    using b(1) by (auto simp: live_set_def nth_append less_Suc_eq)
  have nth: "(?b @ [b]) ! j = ?b ! j" if "j \<in> live_set ?b" for j using live_setD [OF that] by (simp add: nth_append)
  have lay: "layout (?b @ [b]) u = layout ?b u" "total_size (?b @ [b]) = total_size ?b" for u
    using layout_cong [OF live] nth by auto
  have seg: "seg ?b None ls None" using C(5) by (simp add: dlist_def)
  have "seg (?b @ [b]) None ls None"
    by (rule seg_cong [OF seg]) (use seg_bound [OF seg] in \<open>auto simp: nth_append\<close>)
  then have "core ?s ls"
    using C b(2,3) cap lay live S(1) by (simp add: core_def dlist_def)
  moreover have "chain (?b @ [b]) (sc_free s) fs"
    by (rule chain_cong [OF free_okD(1) [OF S(2)]]) (use free_okD(4) [OF S(2)] in \<open>auto simp: nth_append\<close>)
  then have "free_ok ?s fs" using free_okD(2-4) [OF S(2)] by (auto simp: free_ok_def nth_append)
  moreover have "extent (?b @ [b]) j = extent ?b j" if "j \<in> live_set ?b" for j
    using nth [OF that] by (simp add: extent_def block_end_def)
  then have "wiped D ?s" using S(5) live by (simp add: wiped_def)
  ultimately show "settled D ?s ls fs" using S(3) by (simp add: settled_def)
  show "same_blocks s ?s" using live nth by (simp add: same_blocks_def block_bytes_def)
qed

lemma settled_push:
  assumes "settled D s ls fs" "i < length (sc_blocks s)" "\<not> sb_in_use (sc_blocks s ! i)" "i \<notin> set fs"
    "block_end (sc_blocks s) i \<le> length (sc_heap s)"
  shows "settled D (scma_push_free_block i s) ls (i # fs)" "link_change s (scma_push_free_block i s)"
    "same_blocks s (scma_push_free_block i s)"
proof -
  note P = push_free_effect [OF settledD(2) [OF assms(1)] assms(2-4)] 
  show l: "link_change s (scma_push_free_block i s)" using P(1) assms(5) by (simp add: block_end_def)
  show "settled D (scma_push_free_block i s) ls (i # fs)" "same_blocks s (scma_push_free_block i s)"
    using settled_free_change [OF assms(1) link_free_change [OF l]] P(2) assms(5) by (auto simp: block_end_def)
qed

text \<open>The block is taken as it is, its range stretched at the end of the used part, or cut in two.\<close>

lemma take_expanding:
  assumes st: "settled D s ls fs" and c: "c \<in> set fs" "sb_offset (sc_blocks s ! c) = sc_used s"
    "sc_used s + sz \<le> length (sc_heap s)"
  shows "\<exists>s1 gs. take_found_span env sz c True s = Some (s1, FT_ERR_SUCCESS, Some c)
    \<and> settled D s1 ls gs \<and> free_change s s1 \<and> ready s1 gs sz c"
proof -
  note S = settledD [OF st]
  have cl: "c < length (sc_blocks s)" "\<not> sb_in_use (sc_blocks s ! c)" using free_okD(2,4) [OF S(2) c(1)] by auto
  obtain s2 where s2: "scma_remove_free_block c s = Some s2" "link_change s s2" "settled D s2 ls (remove1 c fs)"
    "same_blocks s s2" "c \<notin> set (remove1 c fs)" by (rule settled_remove [OF st])
  note fc2 = link_free_change [OF s2(2)]
  have c2: "c < length (sc_blocks s2)" "sb_offset (sc_blocks s2 ! c) = sc_used s"
    using free_change_fields(11) [OF fc2] cl(1) strip_eqD(1) [OF link_change_block [OF s2(2) cl(1)]] c(2) by auto
  obtain s3 gs where s3: "scma_discard_free_spans_from (sc_used s) s2 = Some s3" "free_change s2 s3"
    "settled D s3 ls gs" "same_blocks s2 s3" "set gs \<subseteq> set (remove1 c fs)"
    "\<forall>x < length (sc_blocks s2). x \<notin> set (remove1 c fs) \<longrightarrow> strip (sc_blocks s3 ! x) = strip (sc_blocks s2 ! x)"
    by (rule settled_discard [OF s2(3), of "sc_used s"])
  have fc3: "free_change s s3" using free_change_trans [OF fc2 s3(2)] .
  have c3: "c < length (sc_blocks s3)" "\<not> sb_in_use (sc_blocks s3 ! c)" "c \<notin> set gs"
    "sb_offset (sc_blocks s3 ! c) = sc_used s"
    using free_change_fields(11) [OF fc3] free_change_block(1) [OF fc3] cl s3(5) s2(5)
      strip_eqD(1) [OF s3(6) [rule_format, OF c2(1) s2(5)]] c2(2) by auto
  define s4 where "s4 = update_block c (\<lambda>b. b\<lparr>sb_size := sz\<rparr>) s3"
  note R = settled_resize_free [OF s3(3) c3(1-3), of sz, folded s4_def]
  have fc4: "free_change s s4" using free_change_trans [OF fc3 R(2)] .
  have "ready s4 gs sz c"
    by (rule readyI [OF fc4 cl c3(3)])
      (use c3(1,4) c(2,3) layoutD(2) [OF coreD(2) [OF S(1)]] in \<open>simp_all add: s4_def update_block_nth\<close>)
  moreover have "take_found_span env sz c True s = Some (s4, FT_ERR_SUCCESS, Some c)"
    using s2(1) s3(1) c(2) c2(2) by (simp add: take_found_span_def Let_def s4_def)
  ultimately show ?thesis using R(1) fc4 by blast
qed

lemma take_exact:
  assumes st: "settled D s ls fs" and c: "c \<in> set fs" "sb_size (sc_blocks s ! c) = sz"
    and ap: "\<And>j. j \<in> live_set (sc_blocks s) \<Longrightarrow> apart (sc_blocks s) c j"
  shows "\<exists>s1 gs. take_found_span env sz c False s = Some (s1, FT_ERR_SUCCESS, Some c)
    \<and> settled D s1 ls gs \<and> free_change s s1 \<and> ready s1 gs sz c"
proof -
  note S = settledD [OF st]
  have cl: "c < length (sc_blocks s)" "\<not> sb_in_use (sc_blocks s ! c)"
    "sb_offset (sc_blocks s ! c) + sz \<le> length (sc_heap s)" using free_okD(2-4) [OF S(2) c(1)] c(2) by auto
  obtain s2 where s2: "scma_remove_free_block c s = Some s2" "link_change s s2" "settled D s2 ls (remove1 c fs)"
    "same_blocks s s2" "c \<notin> set (remove1 c fs)" by (rule settled_remove [OF st])
  note fc2 = link_free_change [OF s2(2)] and eq = strip_eqD(1,2) [OF link_change_block [OF s2(2) cl(1)]]
  have "ready s2 (remove1 c fs) sz c"
    by (rule readyI [OF fc2 cl(1,2) s2(5)]) (use eq c(2) cl(3) ap in \<open>auto simp: apart_def block_end_def\<close>)
  moreover have "(sb_offset (sc_blocks s ! c) + sz) mod 2 ^ 64 = sb_offset (sc_blocks s ! c) + sz"
    using cl(3) coreD(4) [OF S(1)] by (simp add: FT_SYSTEM_SIZE_MAX_def)
  then have "take_found_span env sz c False s = Some (s2, FT_ERR_SUCCESS, Some c)"
    using s2(1) c(2) by (simp add: take_found_span_def Let_def)
  ultimately show ?thesis using s2(3) fc2 by blast
qed

lemma settled_capacity:
  "settled D s ls fs \<Longrightarrow> core (s\<lparr>sc_block_capacity := k\<rparr>) ls \<Longrightarrow> settled D (s\<lparr>sc_block_capacity := k\<rparr>) ls fs"
  by (simp add: settled_def free_ok_def wiped_def)

lemma same_blocks_capacity: "same_blocks s (s\<lparr>sc_block_capacity := k\<rparr>)"
  by (simp add: same_blocks_def block_bytes_def)

definition cut_span :: "nat \<Rightarrow> nat \<Rightarrow> scma_state \<Rightarrow> scma_state \<Rightarrow> scma_state" where
  "cut_span sz c s s2 = update_block c (\<lambda>b. b\<lparr>sb_size := sz\<rparr>) (scma_push_free_block (length (sc_blocks s2))
     (s2\<lparr>sc_blocks := sc_blocks s2 @ [\<lparr>sb_offset = sb_offset (sc_blocks s ! c) + sz,
        sb_size = sb_size (sc_blocks s ! c) - sz, sb_in_use = False, sb_generation = 1,
        sb_prev = None, sb_next = None, sb_next_free = None\<rparr>]\<rparr>))"

lemma take_split:
  assumes st: "settled D s ls fs" and c: "c \<in> set fs" "sz < sb_size (sc_blocks s ! c)"
    and ap: "\<And>j. j \<in> live_set (sc_blocks s) \<Longrightarrow> apart (sc_blocks s) c j"
    and cap: "length (sc_blocks s) + 1 \<le> sc_block_capacity s"
  shows "\<exists>s2 gs. scma_remove_free_block c s = Some s2 \<and> settled D (cut_span sz c s s2) ls gs
    \<and> same_blocks s (cut_span sz c s s2) \<and> sc_heap (cut_span sz c s s2) = sc_heap s
    \<and> sc_used (cut_span sz c s s2) = sc_used s \<and> sc_needed (cut_span sz c s s2) = sc_needed s
    \<and> ready (cut_span sz c s s2) gs sz c"
proof -
  note S = settledD [OF st]
  have cl: "c < length (sc_blocks s)" "\<not> sb_in_use (sc_blocks s ! c)"
    "sb_offset (sc_blocks s ! c) + sb_size (sc_blocks s ! c) \<le> length (sc_heap s)"
    using free_okD(2-4) [OF S(2) c(1)] by auto
  obtain s2 where s2: "scma_remove_free_block c s = Some s2" "link_change s s2" "settled D s2 ls (remove1 c fs)"
    "same_blocks s s2" "c \<notin> set (remove1 c fs)" by (rule settled_remove [OF st])
  note fc2 = link_free_change [OF s2(2)] and eq = strip_eqD [OF link_change_block [OF s2(2) cl(1)]]
  note F2 = free_change_fields [OF fc2]
  define b where "b = \<lparr>sb_offset = sb_offset (sc_blocks s ! c) + sz, sb_size = sb_size (sc_blocks s ! c) - sz,
     sb_in_use = False, sb_generation = 1, sb_prev = None, sb_next = None, sb_next_free = None\<rparr>"
  define s3 where "s3 = s2\<lparr>sc_blocks := sc_blocks s2 @ [b]\<rparr>"
  define n where "n = length (sc_blocks s2)"
  define s4 where "s4 = scma_push_free_block n s3"
  define s5 where "s5 = update_block c (\<lambda>b. b\<lparr>sb_size := sz\<rparr>) s4"
  have cap2: "length (sc_blocks s2) + 1 \<le> sc_block_capacity s2" using cap F2(2,11) by simp
  have s3: "settled D s3 ls (remove1 c fs)" "same_blocks s2 s3"
    unfolding s3_def by (rule settled_append_free [OF s2(3) _ _ _ cap2]; simp add: b_def)+
  have nfs: "n \<notin> set (remove1 c fs)" using free_okD(4) [OF settledD(2) [OF s2(3)], of n] by (auto simp: n_def)
  have n3: "n < length (sc_blocks s3)" "sc_blocks s3 ! n = b" "sc_heap s3 = sc_heap s"
    "sc_blocks s3 ! c = sc_blocks s2 ! c" "c < n" "length (sc_blocks s3) = n + 1"
    using cl(1) F2(1,11) by (simp_all add: s3_def n_def nth_append)
  have s4: "settled D s4 ls (n # remove1 c fs)" "link_change s3 s4" "same_blocks s3 s4"
    unfolding s4_def by (rule settled_push [OF s3(1) n3(1) _ nfs]; use n3 cl(3) c(2) in \<open>simp add: b_def block_end_def\<close>)+
  note F4 = free_change_fields [OF link_free_change [OF s4(2)]]
  have c4: "c < length (sc_blocks s4)" "\<not> sb_in_use (sc_blocks s4 ! c)"
    "sb_offset (sc_blocks s4 ! c) = sb_offset (sc_blocks s ! c)" "c \<notin> set (n # remove1 c fs)"
    using strip_eqD [OF link_change_block [OF s4(2), of c]] n3 F4(11) eq cl(2) s2(5) by auto
  note R = settled_resize_free [OF s4(1) c4(1,2,4), of sz, folded s5_def]
  have sb: "same_blocks s s5"
    using same_blocks_trans [OF same_blocks_trans [OF s2(4) s3(2)]
      same_blocks_trans [OF s4(3) core_free_change(2) [OF settledD(1) [OF s4(1)] R(2)]]] .
  have "live_set (sc_blocks s4) = live_set (sc_blocks s)"
    using s4(3) s3(2) s2(4) by (simp add: same_blocks_def)
  moreover have old: "sb_offset (sc_blocks s4 ! j) = sb_offset (sc_blocks s ! j)
      \<and> sb_size (sc_blocks s4 ! j) = sb_size (sc_blocks s ! j)" if "j < length (sc_blocks s)" for j
    using strip_eqD(1,2) [OF link_change_block [OF s4(2), of j]] strip_eqD(1,2) [OF link_change_block [OF s2(2) that]]
      that F2(11) n3(6) by (simp add: s3_def n_def nth_append)
  ultimately have apart4: "sb_offset (sc_blocks s4 ! c) + sz \<le> sb_offset (sc_blocks s4 ! j)
      \<or> block_end (sc_blocks s4) j \<le> sb_offset (sc_blocks s4 ! c)" if "j \<in> live_set (sc_blocks s4)" for j
    using ap [of j] old [of j] old [OF cl(1)] live_setD [of j "sc_blocks s"] that c(2)
    by (auto simp: apart_def block_end_def)
  have "ready s5 (n # remove1 c fs) sz c"
    by (rule readyI [OF R(2) c4(1,2,4)])
      (use c4(1,3) cl(3) c(2) F4(1) n3(3) apart4 in \<open>simp_all add: s5_def update_block_nth\<close>)
  moreover have "sc_heap s5 = sc_heap s" "sc_used s5 = sc_used s" "sc_needed s5 = sc_needed s"
    using F2 F4 by (simp_all add: s5_def s3_def)
  moreover have "cut_span sz c s s2 = s5" by (simp add: cut_span_def s5_def s4_def s3_def n_def b_def)
  ultimately show ?thesis using s2(1) R(1) sb by metis
qed

lemma overlap_loop_iff:
  "overlap_loop o' e bs \<longleftrightarrow> (\<exists>b \<in> set bs. sb_in_use b \<and> sb_size b \<le> FT_SYSTEM_SIZE_MAX - sb_offset b
     \<and> o' < sb_offset b + sb_size b \<and> sb_offset b < e)"
  by (induction bs) auto

lemma not_overlapping:
  assumes "\<not> scma_free_span_overlaps_live blocks (blocks ! c)" "layout blocks used" "used \<le> FT_SYSTEM_SIZE_MAX"
    "j \<in> live_set blocks"
  shows "apart blocks c j"
proof -
  have "block_end blocks j \<le> FT_SYSTEM_SIZE_MAX" using layoutD(2) [OF assms(2,4)] assms(3) by simp
  then have fit: "sb_size (blocks ! j) \<le> FT_SYSTEM_SIZE_MAX - sb_offset (blocks ! j)" by (simp add: block_end_def)
  have j: "blocks ! j \<in> set blocks" "sb_in_use (blocks ! j)" using live_setD [OF assms(4)] by auto
  have "\<not> (sb_offset (blocks ! c) < sb_offset (blocks ! j) + sb_size (blocks ! j)
      \<and> sb_offset (blocks ! j) < sb_offset (blocks ! c) + sb_size (blocks ! c))"
    using assms(1) j fit by (auto simp: scma_free_span_overlaps_live_def overlap_loop_iff split: if_splits)
  then show ?thesis by (auto simp: apart_def block_end_def)
qed

definition span_taken :: "u8 set \<Rightarrow> scma_state \<Rightarrow> nat list \<Rightarrow> nat \<Rightarrow> scma_state \<Rightarrow> ft_err \<Rightarrow> nat option \<Rightarrow> bool" where
  "span_taken D s ls sz s1 e r \<longleftrightarrow> same_blocks s s1 \<and> sc_used s1 = sc_used s \<and> sc_needed s1 = sc_needed s
     \<and> sc_heap s1 = sc_heap s \<and> (e \<noteq> FT_ERR_SUCCESS \<longrightarrow> r = None)
     \<and> (\<exists>gs. settled D s1 ls gs \<and> (case r of None \<Rightarrow> length (sc_blocks s1) = length (sc_blocks s)
          | Some c \<Rightarrow> ready s1 gs sz c))"

lemma span_takenI:
  assumes "settled D s ls fs" "free_change s s1" "settled D s1 ls gs" "ready s1 gs sz c"
  shows "span_taken D s ls sz s1 FT_ERR_SUCCESS (Some c)"
  using assms(3,4) core_free_change(2) [OF settledD(1) [OF assms(1)] assms(2)] free_change_fields [OF assms(2)]
  unfolding span_taken_def by auto

lemma take_found_span_effect:
  assumes st: "settled D s ls fs" and c: "span_fits s sz fs (Found c x)"
    and ap: "\<And>j. j \<in> live_set (sc_blocks s) \<Longrightarrow> apart (sc_blocks s) c j"
  shows "\<exists>s1 e r. take_found_span env sz c x s = Some (s1, e, r) \<and> span_taken D s ls sz s1 e r
    \<and> ((\<forall>m. se_blocks env m) \<and> length (sc_blocks s) < FT_SYSTEM_SIZE_MAX div sizeof_scma_block
         \<longrightarrow> e = FT_ERR_SUCCESS)"
proof -
  note S = settledD [OF st]
  have cf: "c \<in> set fs" using c by (simp add: span_fits_def)
  consider "x" "sb_offset (sc_blocks s ! c) = sc_used s" "sc_used s + sz \<le> length (sc_heap s)"
    | "\<not> x" "sb_size (sc_blocks s ! c) = sz" | "\<not> x" "sz < sb_size (sc_blocks s ! c)"
    using c by (cases x; simp add: span_fits_def; fastforce simp: order_le_less)
  then show ?thesis
  proof cases
    case 1
    then show ?thesis using take_expanding [OF st cf 1(2,3), of env] span_takenI [OF st] by auto
  next
    case 2
    then show ?thesis using take_exact [OF st cf 2(2) ap, of env] span_takenI [OF st] by auto
  next
    case 3
    let ?b = "sc_blocks s ! c"
    have cl: "sb_offset ?b + sb_size ?b \<le> length (sc_heap s)" using free_okD(3) [OF S(2) cf] .
    have md: "(sb_offset ?b + sz) mod 2 ^ 64 = sb_offset ?b + sz"
      using cl 3(2) coreD(4) [OF S(1)] by (simp add: FT_SYSTEM_SIZE_MAX_def)
    obtain k granted where k: "scma_ensure_block_capacity env (length (sc_blocks s) + 1) s =
        Some (s\<lparr>sc_block_capacity := k\<rparr>, granted)"
      "sc_block_capacity s \<le> k" "k \<le> FT_SYSTEM_SIZE_MAX div sizeof_scma_block"
      "granted \<longrightarrow> length (sc_blocks s) + 1 \<le> k" "core (s\<lparr>sc_block_capacity := k\<rparr>) ls"
      "(\<forall>m. se_blocks env m) \<and> length (sc_blocks s) + 1 \<le> FT_SYSTEM_SIZE_MAX div sizeof_scma_block \<longrightarrow> granted"
      by (rule ensure_block_capacity_effect [OF S(1) order_refl])
    let ?s = "s\<lparr>sc_block_capacity := k\<rparr>"
    have st1: "settled D ?s ls fs" using settled_capacity [OF st k(5)] .
    have sb1: "same_blocks s ?s" by (rule same_blocks_capacity)
    show ?thesis
    proof (cases granted)
      case False
      then have "take_found_span env sz c x s = Some (?s, FT_ERR_NO_MEMORY, None)"
        using 3 md k(1) by (simp add: take_found_span_def Let_def)
      moreover have "span_taken D s ls sz ?s FT_ERR_NO_MEMORY None"
        using st1 sb1 by (auto simp: span_taken_def)
      ultimately show ?thesis using False k(6) by auto
    next
      case True
      obtain s2 gs where s2: "scma_remove_free_block c ?s = Some s2" "settled D (cut_span sz c ?s s2) ls gs"
        "same_blocks ?s (cut_span sz c ?s s2)" "sc_heap (cut_span sz c ?s s2) = sc_heap ?s"
        "sc_used (cut_span sz c ?s s2) = sc_used ?s" "sc_needed (cut_span sz c ?s s2) = sc_needed ?s"
        "ready (cut_span sz c ?s s2) gs sz c"
        using take_split [OF st1 cf, of sz] 3(2) ap k(4) True by auto
      have "take_found_span env sz c x s = Some (cut_span sz c ?s s2, FT_ERR_SUCCESS, Some c)"
        using 3 md k(1) True s2(1) by (simp add: take_found_span_def Let_def cut_span_def)
      moreover have "span_taken D s ls sz (cut_span sz c ?s s2) FT_ERR_SUCCESS (Some c)"
        using s2(2-) same_blocks_trans [OF sb1] unfolding span_taken_def by auto
      ultimately show ?thesis by auto
    qed
  qed
qed

lemma span_taken_trans:
  assumes "same_blocks s s0" "sc_used s0 = sc_used s" "sc_needed s0 = sc_needed s" "sc_heap s0 = sc_heap s"
    "length (sc_blocks s0) = length (sc_blocks s)" "span_taken D s0 ls sz s1 e r"
  shows "span_taken D s ls sz s1 e r"
  using assms same_blocks_trans [OF assms(1), of s1] by (cases r) (auto simp: span_taken_def)

lemma take_free_span_effect:
  assumes st: "settled D s ls fs" and sz: "0 < sz"
  shows "\<exists>s1 e r. scma_take_free_span env sz s = Some (s1, e, r) \<and> span_taken D s ls sz s1 e r
    \<and> ((\<forall>m. se_blocks env m) \<and> length (sc_blocks s) < FT_SYSTEM_SIZE_MAX div sizeof_scma_block
         \<longrightarrow> e = FT_ERR_SUCCESS)"
proof -
  note S = settledD [OF st]
  obtain s0 gs where r: "discard_loop scma_free_span_overlaps_live (sc_free s) s = Some s0" "free_change s s0"
    "free_ok s0 gs" "set gs \<subseteq> set fs" "\<forall>x \<in> set gs. \<not> scma_free_span_overlaps_live (sc_blocks s0) (sc_blocks s0 ! x)
        \<and> strip (sc_blocks s0 ! x) = strip (sc_blocks s ! x)"
    "\<forall>x < length (sc_blocks s). x \<notin> set fs \<longrightarrow> strip (sc_blocks s0 ! x) = strip (sc_blocks s ! x)"
    by (rule discard_loop_ok [OF stable_overlaps S(2)])
  note st0 = settled_free_change [OF st r(2,3)] and F0 = free_change_fields [OF r(2)]
  note C0 = coreD [OF settledD(1) [OF st0(1)]]
  obtain found where found: "find_span_loop sz (sc_free s0) s0 = Some found" "span_fits s0 sz gs found"
    using find_span_loop_effect [OF free_okD(1,2) [OF r(3)]] by auto
  have eq: "scma_take_free_span env sz s = (case found of Not_found \<Rightarrow> Some (s0, FT_ERR_SUCCESS, None)
      | Damaged \<Rightarrow> Some (s0, FT_ERR_INVALID_STATE, None) | Found c x \<Rightarrow> take_found_span env sz c x s0)"
    using sz r(1) found(1)
    by (simp add: scma_take_free_span_def scma_reconcile_free_spans_def split: span_search.split)
  show ?thesis
  proof (cases found)
    case (Found c x)
    have "c \<in> set gs" using found(2) Found by (simp add: span_fits_def)
    then have "apart (sc_blocks s0) c j" if "j \<in> live_set (sc_blocks s0)" for j
      using not_overlapping [OF _ C0(2) _ that] r(5) C0(3,4) by auto
    then obtain s1 e q where "take_found_span env sz c x s0 = Some (s1, e, q)" "span_taken D s0 ls sz s1 e q"
      "(\<forall>m. se_blocks env m) \<and> length (sc_blocks s0) < FT_SYSTEM_SIZE_MAX div sizeof_scma_block
         \<longrightarrow> e = FT_ERR_SUCCESS"
      using take_found_span_effect [OF st0(1), of sz c x env] found(2) Found by blast
    then show ?thesis using eq Found span_taken_trans [OF st0(2) F0(3,7,1,11)] F0(11) by auto
  next
    case Not_found
    then have "span_taken D s ls sz s0 FT_ERR_SUCCESS None"
      using st0 F0 by (auto simp: span_taken_def)
    then show ?thesis using eq Not_found by auto
  next
    case Damaged
    then show ?thesis using found(2) by (simp add: span_fits_def)
  qed
qed

subsection \<open>The new handle\<close>

definition allocated :: "u8 set \<Rightarrow> scma_state \<Rightarrow> nat \<Rightarrow> scma_state \<Rightarrow> scma_handle \<Rightarrow> bool" where
  "allocated D s sz s1 h \<longleftrightarrow> \<not> scma_handle_is_invalid h \<and> scma_contents s h = None
     \<and> (\<exists>bs. length bs = sz \<and> set bs \<subseteq> D \<and> scma_contents s1 = (scma_contents s)(h \<mapsto> bs))"

lemma contents_cong:
  "sc_heap s1 = sc_heap s \<Longrightarrow> sc_blocks s1 = sc_blocks s \<Longrightarrow> sc_initialised s1 = sc_initialised s \<Longrightarrow> scma_contents s1 = scma_contents s"
  by (rule same_blocks_contents) (simp add: same_blocks_def block_bytes_def)

lemma next_generation_valid: "scma_next_generation g \<noteq> 0" "scma_next_generation g \<noteq> -1"
  by (simp_all add: scma_next_generation_def Let_def)

lemma unat_index: "i < FT_SYSTEM_SIZE_MAX \<Longrightarrow> unat (of_nat i :: u64) = i"
  "i < FT_SYSTEM_SIZE_MAX \<Longrightarrow> (of_nat i :: u64) \<noteq> -1"
proof -
  assume i: "i < FT_SYSTEM_SIZE_MAX"
  then show u: "unat (of_nat i :: u64) = i" by (simp add: unat_of_nat FT_SYSTEM_SIZE_MAX_def)
  have "unat (-1 :: u64) = FT_SYSTEM_SIZE_MAX" by (simp add: FT_SYSTEM_SIZE_MAX_def unsigned_minus_1_eq_mask mask_eq_exp_minus_1)
  then show "(of_nat i :: u64) \<noteq> -1" using u i by auto
qed

lemma core_index: "core s ls \<Longrightarrow> i < length (sc_blocks s) \<Longrightarrow> i < FT_SYSTEM_SIZE_MAX"
  using coreD(8,9) [of s ls] by (simp add: sizeof_scma_block_def FT_SYSTEM_SIZE_MAX_def)

lemma allocatedI:
  assumes ini: "sc_initialised s" and small: "i < FT_SYSTEM_SIZE_MAX" and i: "i \<notin> live_set (sc_blocks s)"
    and ok: "others_kept i s s2" and live: "i \<in> live_set (sc_blocks s2)"
    and gen: "sb_generation (sc_blocks s2 ! i) = g" "g \<noteq> -1"
    and bytes: "set (block_bytes s2 i) \<subseteq> D" "length (block_bytes s2 i) = sz" and cs: "scma_contents s1 = scma_contents s2"
  shows "allocated D s sz s1 \<lparr>sh_index = of_nat i, sh_generation = g\<rparr>"
proof -
  let ?h = "\<lparr>sh_index = of_nat i, sh_generation = g\<rparr> :: scma_handle"
  note U = unat_index [OF small]
  have inv: "\<not> scma_handle_is_invalid ?h" using U(2) gen(2) by (simp add: scma_handle_is_invalid_def)
  have "scma_validate_handle ?h s \<noteq> Some k" for k using i U(1) by (auto simp: validate_handle_iff)
  then have "scma_validate_handle ?h s = None" by blast
  then have "scma_contents s ?h = None" by (simp add: scma_contents_def)
  moreover have "scma_contents s2 = (scma_contents s)(?h \<mapsto> block_bytes s2 i)"
    using contents_change [OF ok ini inv] U(1) i live gen(1) by simp
  ultimately show ?thesis using inv bytes cs unfolding allocated_def by auto
qed

lemma activate_block_effect:
  assumes st: "settled D s ls fs" and rd: "ready s fs sz c" and sz: "0 < sz"
  shows "\<exists>s1 h. activate_block sz c s = (s1, h) \<and> settled D s1 (ls @ [c]) fs \<and> allocated D s sz s1 h"
proof -
  note S = settledD [OF st]
  note C = coreD [OF S(1)]
  define g where "g = scma_next_generation (sb_generation (sc_blocks s ! c))"
  define bs where "bs = (sc_blocks s)[c := (sc_blocks s ! c)\<lparr>sb_in_use := True, sb_generation := g,
    sb_prev := None, sb_next := None\<rparr>]"
  have c: "c < length (sc_blocks s)" "c \<notin> live_set (sc_blocks s)" "c \<notin> set fs" "sb_size (sc_blocks s ! c) = sz"
    "block_end (sc_blocks s) c \<le> length (sc_heap s)" using rd by (auto simp: ready_def live_set_def)
  have bsc: "bs ! c = (sc_blocks s ! c)\<lparr>sb_in_use := True, sb_generation := g, sb_prev := None, sb_next := None\<rparr>"
    "length bs = length (sc_blocks s)" using c(1) by (simp_all add: bs_def)
  define s2 where "s2 = scma_link_block_at_tail c (s\<lparr>sc_blocks := bs\<rparr>)"
  have others: "\<forall>j < length bs. j \<noteq> c \<longrightarrow> j < length (sc_blocks s) \<and> bs ! j = sc_blocks s ! j"
    by (simp add: bs_def)
  have ap: "\<forall>j \<in> live_set (sc_blocks s).
      block_end bs c \<le> sb_offset (sc_blocks s ! j) \<or> block_end (sc_blocks s) j \<le> sb_offset (bs ! c)"
    using rd bsc(1) unfolding ready_def apart_def block_end_def by auto
  have gv: "g \<noteq> 0" "g \<noteq> -1" using next_generation_valid by (simp_all add: g_def)
  have b: "sb_in_use (bs ! c)" "0 < sb_size (bs ! c)" "sb_generation (bs ! c) \<noteq> 0" "sb_generation (bs ! c) \<noteq> -1"
    "block_end bs c \<le> length (sc_heap s)" using bsc(1) gv c(4,5) sz by (simp_all add: block_end_def)
  have len: "length (sc_blocks s) \<le> length bs" "length bs \<le> sc_block_capacity s" "c < length bs"
    using bsc(2) C(8) c(1) by auto
  note N = link_new_block [OF st len(1,2) others len(3) c(2,3) b ap, folded s2_def]
  note F = list_change_fields [OF N(3), simplified] and B = list_change_block [OF N(3), simplified]
  define u where "u = sc_used (scma_recompute_used_size s2)"
  have u: "layout (sc_blocks s2) u" "u \<le> length (sc_heap s)"
    using recompute_layout [OF N(1) C(4)] by (simp_all add: u_def)
  define s3 where "s3 = s2\<lparr>sc_used := u, sc_live := sc_live s2 + sz\<rparr>"
  have "settled D s3 (ls @ [c]) fs" using N(2) [OF u] bsc(1) c(4) by (simp add: s3_def)
  moreover have "activate_block sz c s = (s3, \<lparr>sh_index = of_nat c, sh_generation = g\<rparr>)"
    by (simp add: activate_block_def Let_def s3_def s2_def u_def bs_def g_def update_block_def
      scma_recompute_used_size_def)
  moreover have "allocated D s sz s3 \<lparr>sh_index = of_nat c, sh_generation = g\<rparr>"
  proof (rule allocatedI [OF C(1) core_index [OF S(1) c(1)] c(2) N(4) _ _ gv(2) N(6)])
    show "c \<in> live_set (sc_blocks s2)" using N(5) by simp
    show "sb_generation (sc_blocks s2 ! c) = g" using B(2) [OF len(3)] bsc(1) by simp
    show "length (block_bytes s2 c) = sz"
      using B(3,4) [OF len(3)] F(1) c(4,5) bsc(1) by (simp add: block_bytes_def block_end_def)
    show "scma_contents s3 = scma_contents s2" by (rule contents_cong) (simp_all add: s3_def)
  qed
  ultimately show ?thesis by blast
qed

lemma append_block_effect:
  assumes st: "settled D s ls fs" and sz: "0 < sz" and fit: "sc_used s + sz \<le> length (sc_heap s)"
  shows "\<exists>s1 h ms gs. append_block env sz s = Some (s1, h) \<and> settled D s1 ms gs
    \<and> (h = scma_invalid_handle \<and> same_blocks s s1
       \<or> allocated D s sz s1 h \<and> length (sc_blocks s1) = length (sc_blocks s) + 1)
    \<and> ((\<forall>m. se_blocks env m) \<and> length (sc_blocks s) < FT_SYSTEM_SIZE_MAX div sizeof_scma_block
         \<longrightarrow> allocated D s sz s1 h)"
proof -
  obtain s1 gs where s1: "scma_discard_free_spans_from (sc_used s) s = Some s1" "free_change s s1" "settled D s1 ls gs"
    "same_blocks s s1" "set gs \<subseteq> set fs"
    "\<forall>x < length (sc_blocks s). x \<notin> set fs \<longrightarrow> strip (sc_blocks s1 ! x) = strip (sc_blocks s ! x)"
    by (rule settled_discard [OF st, of "sc_used s"])
  note F1 = free_change_fields [OF s1(2)] and S1 = settledD [OF s1(3)]
  obtain k granted where k: "scma_ensure_block_capacity env (length (sc_blocks s1) + 1) s1 =
      Some (s1\<lparr>sc_block_capacity := k\<rparr>, granted)"
    "sc_block_capacity s1 \<le> k" "k \<le> FT_SYSTEM_SIZE_MAX div sizeof_scma_block"
    "granted \<longrightarrow> length (sc_blocks s1) + 1 \<le> k" "core (s1\<lparr>sc_block_capacity := k\<rparr>) ls"
    "(\<forall>m. se_blocks env m) \<and> length (sc_blocks s1) + 1 \<le> FT_SYSTEM_SIZE_MAX div sizeof_scma_block \<longrightarrow> granted"
    by (rule ensure_block_capacity_effect [OF S1(1) order_refl])
  define s2 where "s2 = s1\<lparr>sc_block_capacity := k\<rparr>"
  have st2: "settled D s2 ls gs" using settled_capacity [OF s1(3) k(5)] by (simp add: s2_def)
  have sb2: "same_blocks s s2" using same_blocks_trans [OF s1(4) same_blocks_capacity] by (simp add: s2_def)
  show ?thesis
  proof (cases granted)
    case False
    then have "append_block env sz s = Some (s2, scma_invalid_handle)"
      using s1(1) k(1) by (simp add: append_block_def s2_def)
    then show ?thesis using False st2 sb2 k(6) F1(11) by auto
  next
    case True
    note S2 = settledD [OF st2]
    note C2 = coreD [OF S2(1)]
    define i where "i = length (sc_blocks s2)"
    define b where "b = \<lparr>sb_offset = sc_used s2, sb_size = sz, sb_in_use = True, sb_generation = 1,
      sb_prev = None, sb_next = None, sb_next_free = None\<rparr>"
    define bs where "bs = sc_blocks s2 @ [b]"
    define s3 where "s3 = scma_link_block_at_tail i (s2\<lparr>sc_blocks := bs\<rparr>)"
    have used2: "sc_used s2 + sz \<le> length (sc_heap s2)" using fit F1(1,3) by (simp add: s2_def)
    have bi: "bs ! i = b" "length bs = i + 1" "i \<notin> live_set (sc_blocks s2)" "i \<notin> set gs"
      using free_okD(4) [OF S2(2), of i] by (auto simp: bs_def i_def live_set_def)
    have others: "\<forall>j < length bs. j \<noteq> i \<longrightarrow> j < length (sc_blocks s2) \<and> bs ! j = sc_blocks s2 ! j"
      by (auto simp: bs_def i_def nth_append)
    have be: "block_end bs i = sc_used s2 + sz" "sb_offset (bs ! i) = sc_used s2" by (simp_all add: block_end_def bi(1) b_def)
    have ap: "\<forall>j \<in> live_set (sc_blocks s2).
        block_end bs i \<le> sb_offset (sc_blocks s2 ! j) \<or> block_end (sc_blocks s2) j \<le> sb_offset (bs ! i)"
      using layoutD(2) [OF C2(2)] be(2) by simp
    have b: "sb_in_use (bs ! i)" "0 < sb_size (bs ! i)" "sb_generation (bs ! i) \<noteq> 0" "sb_generation (bs ! i) \<noteq> -1"
      "block_end bs i \<le> length (sc_heap s2)" using be(1) used2 sz bi(1) by (simp_all add: b_def)
    have len: "length (sc_blocks s2) \<le> length bs" "length bs \<le> sc_block_capacity s2" "i < length bs"
      using bi(2) True k(4) by (simp_all add: i_def s2_def)
    note N = link_new_block [OF st2 len(1,2) others len(3) bi(3,4) b ap, folded s3_def]
    note F = list_change_fields [OF N(3), simplified] and B = list_change_block [OF N(3), simplified]
    have "layout (sc_blocks s3) (sc_used s2 + sz)"
    proof -
      have "block_end (sc_blocks s3) j \<le> sc_used s2 + sz" if "j \<in> live_set (sc_blocks s3)" for j
      proof (cases "j = i")
        case True
        then show ?thesis using B(3,4) [OF len(3)] be(1) by (simp add: block_end_def)
      next
        case False
        then have "j \<in> live_set (sc_blocks s2)" using that N(5) by simp
        moreover from this have "bs ! j = sc_blocks s2 ! j" "j < length bs"
          using others [rule_format, of j] live_setD [of j "sc_blocks s2"] False len(1) by auto
        ultimately show ?thesis using B(3,4) [of j] layoutD(2) [OF C2(2), of j] by (simp add: block_end_def)
      qed
      then show ?thesis using N(1) by (simp add: layout_def)
    qed
    note st3 = N(2) [OF this used2]
    define s4 where "s4 = s3\<lparr>sc_used := sc_used s3 + sz, sc_live := sc_live s3 + sz\<rparr>"
    have st4: "settled D s4 (ls @ [i]) gs" using st3 F(3) bi(1) by (simp add: s4_def b_def)
    have eq: "append_block env sz s = Some (s4, \<lparr>sh_index = of_nat i, sh_generation = 1\<rparr>)"
      using s1(1) k(1) True
      by (simp add: append_block_def Let_def s4_def s3_def s2_def [symmetric] bs_def b_def i_def)
    have small: "i < FT_SYSTEM_SIZE_MAX"
      using core_index [OF settledD(1) [OF st4], of i] F(10) bi(2) by (simp add: s4_def)
    have "allocated D s2 sz s4 \<lparr>sh_index = of_nat i, sh_generation = 1\<rparr>"
    proof (rule allocatedI [OF C2(1) small bi(3) N(4) _ _ _ N(6)])
      show "i \<in> live_set (sc_blocks s3)" using N(5) by simp
      show "sb_generation (sc_blocks s3 ! i) = 1" using B(2) [OF len(3)] bi(1) by (simp add: b_def)
      show "length (block_bytes s3 i) = sz"
        using B(3,4) [OF len(3)] F(1) be used2 bi(1) by (simp add: block_bytes_def b_def)
      show "scma_contents s4 = scma_contents s3" by (rule contents_cong) (simp_all add: s4_def)
    qed simp
    then have "allocated D s sz s4 \<lparr>sh_index = of_nat i, sh_generation = 1\<rparr>"
      using same_blocks_contents [OF sb2] by (simp add: allocated_def)
    moreover have "length (sc_blocks s4) = length (sc_blocks s) + 1"
      using F(10) bi(2) F1(11) by (simp add: s4_def i_def s2_def)
    ultimately show ?thesis using eq st4 by blast
  qed
qed

subsection \<open>The call\<close>

lemma incremental_then_compact:
  assumes st: "settled D s ls fs" and z: "0 \<in> D"
  obtains s1 s2 where "scma_compact_incremental 65536 s = Some (s1, FT_ERR_SUCCESS)"
    "(if sc_needed s1 then scma_compact s1 else Some (s1, FT_ERR_SUCCESS)) = Some (s2, FT_ERR_SUCCESS)
     \<or> \<not> sc_needed s"
    "sc_needed s \<longrightarrow> settled D s2 ls [] \<and> compacted s s2"
proof -
  note S = settledD [OF st]
  have ok: "interrupted_ok s" using S(3) by (simp add: interrupted_ok_def)
  obtain s1 where s1: "scma_compact_incremental 65536 s = Some (s1, FT_ERR_SUCCESS)" "core s1 ls"
    "compacted s s1 \<or> interrupted_ok s1 \<and> sc_cursor s1 \<noteq> None \<and> compaction_kept (s\<lparr>sc_free := None\<rparr>) s1"
    using compact_incremental_effect [OF S(1) ok S(2,4), of 65536] by blast
  from s1(3) show thesis
  proof
    assume c: "compacted s s1"
    then have "\<not> sc_needed s1" by (simp add: compacted_def)
    then show thesis using that [OF s1(1), of s1] c settled_compacted [OF st s1(2) c z] by simp
  next
    assume c: "interrupted_ok s1 \<and> sc_cursor s1 \<noteq> None \<and> compaction_kept (s\<lparr>sc_free := None\<rparr>) s1"
    then have free1: "sc_free s1 = None" "sc_needed s1 = sc_needed s" "sc_blocks s1 \<noteq> []"
      by (auto simp: interrupted_ok_def compaction_kept_def sliding_def live_set_def)
    obtain s2 where s2: "scma_compact s1 = Some (s2, FT_ERR_SUCCESS)" "core s2 ls" "compacted s1 s2"
      using compact_effect [OF s1(2) _ free_ok_none [OF free1(1)]] c free1(3) by blast
    then have c2: "compacted s s2" using compacted_kept c by blast
    show thesis using that [OF s1(1), of s2] free1(2) s2 c2 settled_compacted [OF st s2(2) c2 z] by simp
  qed
qed

lemma compact_if_needed_effect:
  assumes st: "settled D s ls fs" and z: "0 \<in> D" and fit: "sc_used s + sz \<le> FT_SYSTEM_SIZE_MAX"
  shows "\<exists>s1 gs. compact_if_needed sz s = Some (s1, Some (sc_used s1 + sz)) \<and> settled D s1 ls gs \<and> same_blocks s s1
    \<and> \<not> sc_needed s1 \<and> sc_used s1 \<le> sc_used s \<and> length (sc_blocks s1) = length (sc_blocks s)"
proof (cases "sc_needed s")
  case False
  moreover have "(sc_used s + sz) mod 2 ^ 64 = sc_used s + sz" using fit by (simp add: FT_SYSTEM_SIZE_MAX_def)
  ultimately show ?thesis using st by (auto simp: compact_if_needed_def)
next
  case True
  obtain s1 s2 where s1: "scma_compact_incremental 65536 s = Some (s1, FT_ERR_SUCCESS)"
    "(if sc_needed s1 then scma_compact s1 else Some (s1, FT_ERR_SUCCESS)) = Some (s2, FT_ERR_SUCCESS)
     \<or> \<not> sc_needed s"
    "sc_needed s \<longrightarrow> settled D s2 ls [] \<and> compacted s s2" by (rule incremental_then_compact [OF st z])
  have c: "same_blocks s s2" "\<not> sc_needed s2" "sc_used s2 \<le> sc_used s" "length (sc_blocks s2) = length (sc_blocks s)"
    using s1(3) True by (simp_all add: compacted_def)
  have "(sc_used s2 + sz) mod 2 ^ 64 = sc_used s2 + sz" using fit c(3) by (simp add: FT_SYSTEM_SIZE_MAX_def)
  then have "compact_if_needed sz s = Some (s2, Some (sc_used s2 + sz))"
    using s1(1,2) True by (simp add: compact_if_needed_def Let_def)
  then show ?thesis using s1(3) True c by blast
qed

definition memory_granted :: "scma_env \<Rightarrow> bool" where
  "memory_granted env \<longleftrightarrow> se_lock env \<and> (\<forall>m. se_blocks env m) \<and> (\<forall>x k. se_realloc env x k \<noteq> None)"

lemma allocate_fresh_effect:
  assumes env: "scma_env_ok env" "fresh_from env D" and st: "settled D s ls fs" and z: "0 \<in> D" and sz: "0 < sz"
    and fit: "sc_used s + sz \<le> FT_SYSTEM_SIZE_MAX"
  shows "\<exists>s1 h ms gs. allocate_fresh env sz s = Some (s1, h) \<and> settled D s1 ms gs
    \<and> (h = scma_invalid_handle \<and> same_blocks s s1
       \<or> allocated D s sz s1 h \<and> length (sc_blocks s1) = length (sc_blocks s) + 1)
    \<and> (memory_granted env \<and> sc_used s + sz < FT_SYSTEM_SIZE_MAX
         \<and> length (sc_blocks s) < FT_SYSTEM_SIZE_MAX div sizeof_scma_block \<longrightarrow> allocated D s sz s1 h)"
proof -
  obtain s1 gs where s1: "compact_if_needed sz s = Some (s1, Some (sc_used s1 + sz))" "settled D s1 ls gs"
    "same_blocks s s1" "\<not> sc_needed s1" "sc_used s1 \<le> sc_used s" "length (sc_blocks s1) = length (sc_blocks s)"
    using compact_if_needed_effect [OF st z fit] by blast
  note S1 = settledD [OF s1(2)]
  let ?n = "sc_used s1 + sz"
  obtain h granted where h: "scma_ensure_capacity env ?n s1 = Some (s1\<lparr>sc_heap := h\<rparr>, granted)"
    "length (sc_heap s1) \<le> length h" "take (length (sc_heap s1)) h = sc_heap s1"
    "core (s1\<lparr>sc_heap := h\<rparr>) ls" "free_ok (s1\<lparr>sc_heap := h\<rparr>) gs" "same_blocks s1 (s1\<lparr>sc_heap := h\<rparr>)"
    "granted \<longrightarrow> ?n \<le> length h \<and> ?n < FT_SYSTEM_SIZE_MAX"
    "\<forall>D. fresh_from env D \<longrightarrow> set (drop (length (sc_heap s1)) h) \<subseteq> D"
    "(\<forall>x k. se_realloc env x k \<noteq> None) \<and> ?n < FT_SYSTEM_SIZE_MAX \<longrightarrow> granted"
    by (rule ensure_capacity_effect [OF env(1) S1(1,2)])
  let ?s = "s1\<lparr>sc_heap := h\<rparr>"
  have st2: "settled D ?s ls gs" using settled_heap [OF s1(2) h(4,5,3)] h(8) env(2) by blast
  have sb: "same_blocks s ?s" using same_blocks_trans [OF s1(3) h(6)] .
  have eq: "allocate_fresh env sz s = (if \<not> granted then Some (?s, scma_invalid_handle) else append_block env sz ?s)"
    using s1(1,4) h(1) by (simp add: allocate_fresh_def compact_if_full_def)
  show ?thesis
  proof (cases granted)
    case False
    then have "\<not> (memory_granted env \<and> sc_used s + sz < FT_SYSTEM_SIZE_MAX)"
      using h(9) s1(5) unfolding memory_granted_def by fastforce
    then show ?thesis using False eq st2 sb by auto
  next
    case True
    have "allocated D ?s sz t g \<Longrightarrow> allocated D s sz t g" for t g
      using same_blocks_contents [OF sb] by (simp add: allocated_def)
    moreover have "sc_used ?s + sz \<le> length (sc_heap ?s)" using h(7) True by simp
    then obtain t g ms fs1 where t: "append_block env sz ?s = Some (t, g)" "settled D t ms fs1"
      "g = scma_invalid_handle \<and> same_blocks ?s t
       \<or> allocated D ?s sz t g \<and> length (sc_blocks t) = length (sc_blocks ?s) + 1"
      "(\<forall>m. se_blocks env m) \<and> length (sc_blocks ?s) < FT_SYSTEM_SIZE_MAX div sizeof_scma_block
         \<longrightarrow> allocated D ?s sz t g"
      using append_block_effect [OF st2 sz, of env] by blast
    ultimately show ?thesis
      using eq True same_blocks_trans [OF sb] s1(6) unfolding memory_granted_def by auto
  qed
qed

text \<open>The overflow test of the call.\<close>

lemma no_wrap:
  assumes "core s ls" "sz \<le> FT_SYSTEM_SIZE_MAX" "\<not> (sc_used s + sz) mod 2 ^ 64 < sc_used s"
  shows "sc_used s + sz \<le> FT_SYSTEM_SIZE_MAX"
proof (rule ccontr)
  assume a: "\<not> sc_used s + sz \<le> FT_SYSTEM_SIZE_MAX"
  have u: "sc_used s \<le> FT_SYSTEM_SIZE_MAX" using coreD(3,4) [OF assms(1)] by simp
  obtain d where d: "sc_used s + sz = 2 ^ 64 + d" using a le_Suc_ex [of "2 ^ 64" "sc_used s + sz"]
    by (auto simp: FT_SYSTEM_SIZE_MAX_def)
  moreover have "d < sc_used s" "d < 2 ^ 64" using d u assms(2) by (auto simp: FT_SYSTEM_SIZE_MAX_def)
  ultimately show False using assms(3) by simp
qed

lemma allocate_effect:
  assumes env: "scma_env_ok env" "fresh_from env D" and st: "settled D s ls fs" and z: "0 \<in> D"
  shows "\<exists>s1 h ms gs. scma_allocate env sz s = Some (s1, h) \<and> settled D s1 ms gs
    \<and> (h = scma_invalid_handle \<and> same_blocks s s1 \<or> se_lock env \<and> 0 < sz \<and> allocated D s sz s1 h)
    \<and> (memory_granted env \<and> 0 < sz \<and> sc_used s + sz < FT_SYSTEM_SIZE_MAX
         \<and> length (sc_blocks s) < FT_SYSTEM_SIZE_MAX div sizeof_scma_block \<longrightarrow> allocated D s sz s1 h)"
proof (cases "se_lock env \<and> 0 < sz \<and> sz \<le> FT_SYSTEM_SIZE_MAX \<and> \<not> (sc_used s + sz) mod 2 ^ 64 < sc_used s")
  case False
  have "(sc_used s + sz) mod 2 ^ 64 = sc_used s + sz" if "sc_used s + sz < FT_SYSTEM_SIZE_MAX"
    using that by (simp add: FT_SYSTEM_SIZE_MAX_def)
  then have "\<not> (memory_granted env \<and> 0 < sz \<and> sc_used s + sz < FT_SYSTEM_SIZE_MAX)"
    using False unfolding memory_granted_def by auto
  moreover have "scma_allocate env sz s = Some (s, scma_invalid_handle)"
    using False by (auto simp: scma_allocate_def)
  ultimately show ?thesis using st by auto
next
  case True
  note S = settledD [OF st]
  have fit: "sc_used s + sz \<le> FT_SYSTEM_SIZE_MAX" using no_wrap [OF S(1)] True by simp
  obtain s1 e r where s1: "scma_take_free_span env sz s = Some (s1, e, r)" "span_taken D s ls sz s1 e r"
    "(\<forall>m. se_blocks env m) \<and> length (sc_blocks s) < FT_SYSTEM_SIZE_MAX div sizeof_scma_block \<longrightarrow> e = FT_ERR_SUCCESS"
    using take_free_span_effect [OF st, of sz env] True by blast
  have T: "same_blocks s s1" "sc_used s1 = sc_used s" using s1(2) by (simp_all add: span_taken_def)
  have eq: "scma_allocate env sz s = (if e \<noteq> FT_ERR_SUCCESS then Some (s1, scma_invalid_handle)
      else case r of Some c \<Rightarrow> Some (activate_block sz c s1) | None \<Rightarrow> allocate_fresh env sz s1)"
    using True s1(1) coreD(1) [OF S(1)] by (simp add: scma_allocate_def)
  have up: "allocated D s1 sz t g \<Longrightarrow> allocated D s sz t g" for t g
    using same_blocks_contents [OF T(1)] by (simp add: allocated_def)
  show ?thesis
  proof (cases "e = FT_ERR_SUCCESS")
    case False
    moreover obtain gs where "settled D s1 ls gs" using s1(2) unfolding span_taken_def by blast
    ultimately show ?thesis using eq T(1) s1(3) unfolding memory_granted_def by auto
  next
    case ok: True
    show ?thesis
    proof (cases r)
      case None
      then obtain gs where gs: "settled D s1 ls gs" "length (sc_blocks s1) = length (sc_blocks s)"
        using s1(2) by (auto simp: span_taken_def)
      obtain t g ms fs1 where t: "allocate_fresh env sz s1 = Some (t, g)" "settled D t ms fs1"
        "g = scma_invalid_handle \<and> same_blocks s1 t
         \<or> allocated D s1 sz t g \<and> length (sc_blocks t) = length (sc_blocks s1) + 1"
        "memory_granted env \<and> sc_used s1 + sz < FT_SYSTEM_SIZE_MAX
           \<and> length (sc_blocks s1) < FT_SYSTEM_SIZE_MAX div sizeof_scma_block \<longrightarrow> allocated D s1 sz t g"
        using allocate_fresh_effect [OF env gs(1) z, of sz] True fit T(2) by auto
      then show ?thesis using eq ok None up same_blocks_trans [OF T(1)] True T(2) gs(2) by auto
    next
      case (Some c)
      then obtain gs where gs: "settled D s1 ls gs" "ready s1 gs sz c" using s1(2) by (auto simp: span_taken_def)
      obtain t g where "activate_block sz c s1 = (t, g)" "settled D t (ls @ [c]) gs" "allocated D s1 sz t g"
        using activate_block_effect [OF gs] True by blast
      then show ?thesis using eq ok Some up True by auto
    qed
  qed
qed

end
