(* ===== verification/Scma_Calls.thy ===== *)
theory Scma_Calls
  imports Scma_Alloc
begin

text \<open>
  Freeing, resizing, writing and reading. Each changes the bytes of one handle and of no other; a freed
  or shrunk range, and the place a block has left, are wiped.
\<close>

subsection \<open>Changing one block\<close>

definition agree_off :: "nat \<Rightarrow> scma_block list \<Rightarrow> scma_block list \<Rightarrow> bool" where
  "agree_off i bs bs1 \<longleftrightarrow> length bs1 = length bs
     \<and> (\<forall>j < length bs. j \<noteq> i \<longrightarrow> unlinked (bs1 ! j) = unlinked (bs ! j))"

lemma unlinkedD:
  assumes "unlinked a = unlinked b"
  shows "sb_offset a = sb_offset b" "sb_size a = sb_size b" "sb_in_use a = sb_in_use b"
    "sb_generation a = sb_generation b" "sb_next_free a = sb_next_free b"
  using assms by (cases a; cases b; simp add: unlinked_def)+

lemma agree_block:
  assumes "agree_off i bs bs1" "j \<noteq> i" "j < length bs"
  shows "sb_offset (bs1 ! j) = sb_offset (bs ! j)" "sb_size (bs1 ! j) = sb_size (bs ! j)"
    "sb_in_use (bs1 ! j) = sb_in_use (bs ! j)" "sb_generation (bs1 ! j) = sb_generation (bs ! j)"
    "sb_next_free (bs1 ! j) = sb_next_free (bs ! j)"
  using assms unlinkedD unfolding agree_off_def by blast+

lemma agree_live:
  assumes "agree_off i bs bs1" "j \<noteq> i"
  shows "j \<in> live_set bs1 \<longleftrightarrow> j \<in> live_set bs"
  using agree_block(3) [OF assms] assms(1) by (auto simp: live_set_def agree_off_def)

lemma agree_end: "agree_off i bs bs1 \<Longrightarrow> j \<noteq> i \<Longrightarrow> j < length bs \<Longrightarrow> block_end bs1 j = block_end bs j"
  using agree_block(1,2) by (simp add: block_end_def)

lemma agree_uncovered:
  assumes "agree_off i bs bs1" "\<forall>j \<in> live_set bs1. p \<notin> extent bs1 j" "j \<in> live_set bs" "j \<noteq> i"
  shows "p \<notin> extent bs j"
  using assms agree_live [OF assms(1,4)] extent_cong [OF agree_block(1,2) [OF assms(1,4)]] live_setD [OF assms(3)]
  by blast

lemma agree_layout:
  assumes lay: "layout bs u" and ag: "agree_off i bs bs1"
    and i: "i \<in> live_set bs1 \<longrightarrow> 0 < sb_size (bs1 ! i) \<and> block_end bs1 i \<le> v
      \<and> (\<forall>j \<in> live_set bs. j \<noteq> i \<longrightarrow> block_end bs1 i \<le> sb_offset (bs ! j) \<or> block_end bs j \<le> sb_offset (bs1 ! i))"
    and v: "\<forall>j \<in> live_set bs. j \<noteq> i \<longrightarrow> block_end bs j \<le> v"
  shows "layout bs1 v"
proof -
  have old: "j \<in> live_set bs" "sb_offset (bs1 ! j) = sb_offset (bs ! j)" "sb_size (bs1 ! j) = sb_size (bs ! j)"
    "block_end bs1 j = block_end bs j" if "j \<in> live_set bs1" "j \<noteq> i" for j
  proof -
    show j: "j \<in> live_set bs" using agree_live [OF ag that(2)] that(1) by simp
    show "sb_offset (bs1 ! j) = sb_offset (bs ! j)" "sb_size (bs1 ! j) = sb_size (bs ! j)"
      "block_end bs1 j = block_end bs j"
      using agree_block(1,2) [OF ag that(2)] agree_end [OF ag that(2)] live_setD [OF j] by auto
  qed
  have api: "apart bs1 i j" if "i \<in> live_set bs1" "j \<in> live_set bs1" "j \<noteq> i" for j
    using i that(1) old [OF that(2,3)] that(3) by (simp add: apart_def)
  show ?thesis
    unfolding layout_def
  proof (intro conjI ballI impI)
    fix j assume j: "j \<in> live_set bs1"
    show "0 < sb_size (bs1 ! j)" using i j old [OF j] layoutD(1) [OF lay] by (cases "j = i") auto
    show "block_end bs1 j \<le> v" using i j old [OF j] v by (cases "j = i") auto
    fix k assume k: "k \<in> live_set bs1" "j \<noteq> k"
    consider "j = i" | "k = i" | "j \<noteq> i" "k \<noteq> i" by blast
    then show "apart bs1 j k"
    proof cases
      case 1
      then show ?thesis using api j k by blast
    next
      case 2
      then show ?thesis using api [of j] j k unfolding apart_def by blast
    next
      case 3
      then show ?thesis using old [OF j] old [OF k(1)] layoutD(3) [OF lay] k(2) by (simp add: apart_def)
    qed
  qed
qed

lemma agree_total:
  assumes ag: "agree_off i bs bs1"
  shows "total_size bs1 + (if i \<in> live_set bs then sb_size (bs ! i) else 0)
    = total_size bs + (if i \<in> live_set bs1 then sb_size (bs1 ! i) else 0)"
proof -
  have "live_set bs1 - {i} = live_set bs - {i}" using agree_live [OF ag] by blast
  then have "(\<Sum>j \<in> live_set bs1 - {i}. sb_size (bs1 ! j)) = (\<Sum>j \<in> live_set bs - {i}. sb_size (bs ! j))"
    by (rule sum.cong) (use agree_block(2) [OF ag] live_setD in auto)
  moreover have "total_size cs = (if i \<in> live_set cs then sb_size (cs ! i) else 0)
      + (\<Sum>j \<in> live_set cs - {i}. sb_size (cs ! j))" for cs
    unfolding total_size_def by (simp add: sum.remove)
  ultimately show ?thesis by simp
qed

lemma others_keptI:
  assumes ag: "agree_off i (sc_blocks s) (sc_blocks s1)" and ini: "sc_initialised s1 = sc_initialised s"
    and heap: "\<And>j. j \<in> live_set (sc_blocks s) \<Longrightarrow> j \<noteq> i \<Longrightarrow>
      take (sb_size (sc_blocks s ! j)) (drop (sb_offset (sc_blocks s ! j)) (sc_heap s1)) = block_bytes s j"
  shows "others_kept i s s1"
  using agree_live [OF ag] agree_block(1,2,4) [OF ag] ini heap live_setD
  unfolding others_kept_def by (auto simp: block_bytes_def)

lemma settled_change:
  assumes st: "settled D s ls fs" and ag: "agree_off i (sc_blocks s) (sc_blocks s1)" and i: "i \<notin> set fs"
    and gen: "sb_generation (sc_blocks s1 ! i) \<noteq> 0" "sb_generation (sc_blocks s1 ! i) \<noteq> -1"
    and same: "sc_initialised s1 = sc_initialised s" "length (sc_heap s1) = length (sc_heap s)"
      "sc_block_capacity s1 = sc_block_capacity s" "sc_free s1 = sc_free s" "sc_cursor s1 = None" "sc_blocks s \<noteq> []"
    and list: "dlist s1 ms" "set ms = live_set (sc_blocks s1)"
    and lay: "layout (sc_blocks s1) (sc_used s1)" "sc_used s1 \<le> length (sc_heap s)"
    and live: "sc_live s1 = total_size (sc_blocks s1)" and wi: "wiped D s1"
  shows "settled D s1 ms fs"
proof -
  note S = settledD [OF st]
  note C = coreD [OF S(1)]
  have len: "length (sc_blocks s1) = length (sc_blocks s)" using ag by (simp add: agree_off_def)
  have "sb_generation (sc_blocks s1 ! j) \<noteq> 0 \<and> sb_generation (sc_blocks s1 ! j) \<noteq> -1"
    if "j < length (sc_blocks s)" for j
    using gen agree_block(4) [OF ag _ that] C(10) [OF that] by (cases "j = i") auto
  then have "core s1 ms"
    using C(1,4,8,9) same list lay live len by (auto simp: core_def in_set_conv_nth)
  moreover have "free_ok s1 fs"
  proof -
    have b: "sb_next_free (sc_blocks s1 ! x) = sb_next_free (sc_blocks s ! x)"
      "sb_offset (sc_blocks s1 ! x) = sb_offset (sc_blocks s ! x)" "sb_size (sc_blocks s1 ! x) = sb_size (sc_blocks s ! x)"
      "sb_in_use (sc_blocks s1 ! x) = sb_in_use (sc_blocks s ! x)" if "x \<in> set fs" for x
      using agree_block [OF ag _ free_okD(4) [OF S(2) that]] i that by auto
    have "chain (sc_blocks s1) (sc_free s) fs"
      by (rule chain_cong [OF free_okD(1) [OF S(2)]]) (use b len in auto)
    then show ?thesis using b free_okD(2,3) [OF S(2)] same(2,4) by (simp add: free_ok_def)
  qed
  ultimately show ?thesis using same(5,6) wi len by (auto simp: settled_def)
qed

text \<open>Counters and flags.\<close>

lemma settled_recompute:
  assumes "settled D s ls fs"
  shows "settled D (scma_recompute_used_size s) ls fs" "same_blocks s (scma_recompute_used_size s)"
proof -
  note S = settledD [OF assms]
  note R = core_recompute [OF S(1)]
  show "same_blocks s (scma_recompute_used_size s)" by (rule R(2))
  show "settled D (scma_recompute_used_size s) ls fs"
    using R(1,3) S by (auto simp: settled_def free_ok_def wiped_def)
qed

lemma settled_flags:
  "settled D s ls fs \<Longrightarrow> settled D ((scma_reset_compaction s)\<lparr>sc_needed := b\<rparr>) ls fs"
  "same_blocks s ((scma_reset_compaction s)\<lparr>sc_needed := b\<rparr>)"
  by (simp_all add: settled_def core_def dlist_def free_ok_def wiped_def scma_reset_compaction_def
    same_blocks_def block_bytes_def)

text \<open>Overwriting a range of the heap.\<close>

definition store :: "nat \<Rightarrow> 'a list \<Rightarrow> 'a list \<Rightarrow> 'a list" where
  "store a xs h = take a h @ xs @ drop (a + length xs) h"

lemma store_simps:
  assumes "a + length xs \<le> length h"
  shows "length (store a xs h) = length h"
    "p < length h \<Longrightarrow> store a xs h ! p = (if a \<le> p \<and> p < a + length xs then xs ! (p - a) else h ! p)"
    "b + n \<le> a \<or> a + length xs \<le> b \<Longrightarrow> take n (drop b (store a xs h)) = take n (drop b h)"
    "take (length xs) (drop a (store a xs h)) = xs"
  using assms slice_store [OF assms, of b n] slice_stored [of a h xs]
  by (auto simp: store_def nth_append)

lemma bzero_store:
  "offset + sz \<le> length (sc_heap s) \<Longrightarrow>
     scma_secure_bzero offset sz s = Some (s\<lparr>sc_heap := store offset (replicate sz 0) (sc_heap s)\<rparr>)"
  by (simp add: scma_secure_bzero_def store_def)

subsection \<open>Freeing\<close>

lemma validate_live:
  assumes "settled D s ls fs" "scma_validate_handle h s = Some i"
  shows "i \<in> live_set (sc_blocks s)" "i < length (sc_blocks s)" "i \<in> set ls" "i \<notin> set fs" "sb_in_use (sc_blocks s ! i)"
    "i = unat (sh_index h)" "\<not> scma_handle_is_invalid h" "sb_generation (sc_blocks s ! i) = sh_generation h"
    "block_end (sc_blocks s) i \<le> sc_used s" "sc_used s \<le> length (sc_heap s)" "sc_blocks s \<noteq> []"
    "0 < sb_size (sc_blocks s ! i)" "scma_contents s h = Some (block_bytes s i)"
    "length (block_bytes s i) = sb_size (sc_blocks s ! i)"
proof -
  note S = settledD [OF assms(1)]
  note C = coreD [OF S(1)]
  have v: "i \<in> live_set (sc_blocks s)" "i = unat (sh_index h)" "\<not> scma_handle_is_invalid h"
    "sb_generation (sc_blocks s ! i) = sh_generation h" using assms(2) by (auto simp: validate_handle_iff)
  show "i \<in> live_set (sc_blocks s)" "i = unat (sh_index h)" "\<not> scma_handle_is_invalid h"
    "sb_generation (sc_blocks s ! i) = sh_generation h" by (fact v)+
  show l: "i < length (sc_blocks s)" "sb_in_use (sc_blocks s ! i)" using live_setD [OF v(1)] by auto
  then show "sc_blocks s \<noteq> []" by auto
  show "i \<in> set ls" using v(1) C(6) by simp
  show "i \<notin> set fs" using free_okD(2) [OF S(2), of i] l by blast
  show e: "block_end (sc_blocks s) i \<le> sc_used s" "sc_used s \<le> length (sc_heap s)" "0 < sb_size (sc_blocks s ! i)"
    using layoutD(1,2) [OF C(2) v(1)] C(3) by auto
  show "scma_contents s h = Some (block_bytes s i)" using assms(2) by (simp add: scma_contents_def)
  show "length (block_bytes s i) = sb_size (sc_blocks s ! i)" using e by (simp add: block_bytes_def block_end_def)
qed

lemma set_remove1_dlist: "dlist s ls \<Longrightarrow> set (remove1 i ls) = set ls - {i}"
  by (simp add: dlist_def)

text \<open>A wiped and unlinked block, no longer in use.\<close>

definition retire :: "nat \<Rightarrow> scma_state \<Rightarrow> scma_state" where
  "retire i s = (update_block i (\<lambda>b. b\<lparr>sb_in_use := False, sb_generation := scma_next_generation (sb_generation b)\<rparr>)
     (scma_unlink_block i (s\<lparr>sc_heap := store (sb_offset (sc_blocks s ! i))
        (replicate (sb_size (sc_blocks s ! i)) 0) (sc_heap s)\<rparr>)))\<lparr>sc_live := sc_live s - sb_size (sc_blocks s ! i)\<rparr>"

lemma retire_effect:
  assumes st: "settled D s ls fs" and v: "scma_validate_handle h s = Some i" and z: "0 \<in> D"
  shows "settled D (retire i s) (remove1 i ls) fs" "scma_contents (retire i s) = (scma_contents s)(h := None)"
    "i < length (sc_blocks (retire i s))" "\<not> sb_in_use (sc_blocks (retire i s) ! i)"
    "block_end (sc_blocks (retire i s)) i \<le> length (sc_heap (retire i s))"
proof -
  note S = settledD [OF st] and V = validate_live [OF st v]
  note C = coreD [OF S(1)]
  let ?b = "sc_blocks s" and ?o = "sb_offset (sc_blocks s ! i)" and ?z = "sb_size (sc_blocks s ! i)"
  define hp where "hp = store ?o (replicate ?z 0) (sc_heap s)"
  have fit: "?o + length (replicate ?z (0 :: u8)) \<le> length (sc_heap s)" using V(9,10) by (simp add: block_end_def)
  note H = store_simps [OF fit, folded hp_def]
  define s1 where "s1 = s\<lparr>sc_heap := hp\<rparr>"
  define s2 where "s2 = scma_unlink_block i s1"
  have "dlist s1 ls" using C(5) by (simp add: s1_def dlist_def)
  then have L: "list_change s1 s2" "dlist s2 (remove1 i ls)"
    unfolding s2_def using unlink_block_effect [of s1 ls i] V(3,5) by (simp_all add: s1_def)
  note F = list_change_fields [OF L(1)] and B = list_change_block [OF L(1)]
  have R: "retire i s = (update_block i (\<lambda>b. b\<lparr>sb_in_use := False,
      sb_generation := scma_next_generation (sb_generation b)\<rparr>) s2)\<lparr>sc_live := sc_live s - ?z\<rparr>"
    by (simp add: retire_def s2_def s1_def hp_def)
  let ?r = "retire i s"
  have len: "length (sc_blocks s2) = length ?b" using F(10) by (simp add: s1_def)
  have un: "unlinked (sc_blocks s2 ! j) = unlinked (?b ! j)" if "j < length ?b" for j
    using L(1) nth_map_eq [of unlinked "sc_blocks s2" ?b j] that len by (simp add: list_change_def s1_def)
  have ag: "agree_off i ?b (sc_blocks ?r)"
    using un len by (simp add: agree_off_def R update_block_nth)
  have ri: "sc_blocks ?r ! i = (sc_blocks s2 ! i)\<lparr>sb_in_use := False,
      sb_generation := scma_next_generation (sb_generation (sc_blocks s2 ! i))\<rparr>"
    using V(2) len by (simp add: R update_block_nth)
  show "i < length (sc_blocks ?r)" "\<not> sb_in_use (sc_blocks ?r ! i)" using V(2) len ri by (simp_all add: R)
  have nl: "i \<notin> live_set (sc_blocks ?r)" using ri by (simp add: live_set_def)
  have "j \<in> live_set (sc_blocks ?r) \<longleftrightarrow> j \<in> live_set ?b - {i}" for j
    using agree_live [OF ag, of j] nl by (cases "j = i") auto
  then have live: "live_set (sc_blocks ?r) = live_set ?b - {i}" by (rule set_eqI)
  have heap: "sc_heap ?r = hp" using F(1) by (simp add: R s1_def)
  show "block_end (sc_blocks ?r) i \<le> length (sc_heap ?r)"
    using unlinkedD(1,2) [OF un [OF V(2)]] ri fit heap H(1) by (simp add: block_end_def)
  have ok: "others_kept i s ?r"
  proof (rule others_keptI [OF ag])
    show "sc_initialised ?r = sc_initialised s" using F(9) by (simp add: R s1_def)
    fix j assume j: "j \<in> live_set ?b" "j \<noteq> i"
    show "take (sb_size (?b ! j)) (drop (sb_offset (?b ! j)) (sc_heap ?r)) = block_bytes s j"
      unfolding heap block_bytes_def
      by (rule H(3)) (use layoutD(3) [OF C(2) V(1) j(1)] j(2) in \<open>auto simp: apart_def block_end_def\<close>)
  qed
  show "scma_contents ?r = (scma_contents s)(h := None)"
    using contents_change [OF ok C(1) V(7) V(6) [symmetric]] V(8) nl by simp
  show "settled D ?r (remove1 i ls) fs"
  proof (rule settled_change [OF st ag V(4)])
    show "sb_generation (sc_blocks ?r ! i) \<noteq> 0" "sb_generation (sc_blocks ?r ! i) \<noteq> -1"
      using ri next_generation_valid by simp_all
    show "dlist ?r (remove1 i ls)"
      using L(2) V(3) C(5) by (auto simp: R dlist_def update_block_def intro!: seg_update)
    show "set (remove1 i ls) = live_set (sc_blocks ?r)" using set_remove1_dlist [OF C(5)] C(6) live by simp
    show "layout (sc_blocks ?r) (sc_used ?r)"
      by (rule agree_layout [OF C(2) ag]) (use nl layoutD(2) [OF C(2)] F(3) in \<open>auto simp: R s1_def\<close>)
    show "sc_live ?r = total_size (sc_blocks ?r)" using agree_total [OF ag] nl V(1) C(7) by (simp add: R)
    show "wiped D ?r"
    proof (rule wiped_mono [OF S(5)])
      fix p assume p: "p < length (sc_heap s)" "\<forall>j \<in> live_set (sc_blocks ?r). p \<notin> extent (sc_blocks ?r) j"
      have "p \<notin> extent ?b j" if "j \<in> live_set ?b" "j \<noteq> i" for j by (rule agree_uncovered [OF ag p(2) that])
      then show "(\<forall>j \<in> live_set ?b. p \<notin> extent ?b j) \<and> sc_heap ?r ! p = sc_heap s ! p \<or> sc_heap ?r ! p \<in> D"
        unfolding heap using H(2) [OF p(1)] z by (auto simp: extent_def block_end_def)
    qed (use heap H(1) in simp)
  qed (use F V(10,11) C(3) S(3) heap H(1) in \<open>simp_all add: R s1_def\<close>)
qed

lemma free_effect:
  assumes st: "settled D s ls fs" and z: "0 \<in> D" and v: "scma_validate_handle h s = Some i" and lk: "se_lock env"
  shows "\<exists>s1 ms gs. scma_free env h s = Some (s1, FT_ERR_SUCCESS) \<and> settled D s1 ms gs
    \<and> scma_contents s1 = (scma_contents s)(h := None)"
proof -
  note S = settledD [OF st] and V = validate_live [OF st v]
  note R = retire_effect [OF st v z]
  let ?z = "sb_size (sc_blocks s ! i)"
  define s1 where "s1 = s\<lparr>sc_heap := store (sb_offset (sc_blocks s ! i)) (replicate ?z 0) (sc_heap s)\<rparr>"
  have wipe: "scma_secure_bzero (sb_offset (sc_blocks s ! i)) ?z s = Some s1"
    using bzero_store [of "sb_offset (sc_blocks s ! i)" ?z s] V(9,10) by (simp add: s1_def block_end_def)
  define s2 where "s2 = update_block i (\<lambda>b. b\<lparr>sb_in_use := False,
     sb_generation := scma_next_generation (sb_generation b)\<rparr>) (scma_unlink_block i s1)"
  have ge: "?z \<le> sc_live s"
    using coreD(7) [OF S(1)] member_le_sum [OF V(1), of "\<lambda>j. sb_size (sc_blocks s ! j)"] by (simp add: total_size_def)
  have sl: "sc_live s2 = sc_live s"
    using list_change_fields(4) [OF unlink_block_effect(1) [of s1 ls i]] coreD(5) [OF S(1)] V(3,5)
    by (simp add: s2_def s1_def dlist_def)
  have r: "s2\<lparr>sc_live := if ?z \<le> sc_live s2 then sc_live s2 - ?z else 0\<rparr> = retire i s"
    using ge sl by (simp add: retire_def s2_def s1_def)
  have nf: "i \<notin> set fs" by (rule V(4))
  note P = settled_push [OF R(1,3,4) nf R(5)]
  define s3 where "s3 = scma_push_free_block i (retire i s)"
  have i3: "i < length (sc_blocks s3)" "\<not> sb_in_use (sc_blocks s3 ! i)"
    using free_okD(2,4) [OF settledD(2) [OF P(1)], of i] by (auto simp: s3_def)
  obtain s4 gs where s4: "coalesce_loop i (sc_free s3) s3 = Some s4" "free_change s3 s4" "free_ok s4 gs"
    using coalesce_loop_effect [of s3 "[]" "i # fs" i "sc_free s3"] free_okD(1) [OF settledD(2) [OF P(1)]]
      settledD(2) [OF P(1)] by (auto simp: s3_def)
  have st4: "settled D s4 (remove1 i ls) gs" "same_blocks s3 s4"
    using settled_free_change [OF P(1) [folded s3_def] s4(2,3)] by auto
  have c4: "scma_contents s4 = (scma_contents s)(h := None)"
    using same_blocks_contents [OF st4(2)] same_blocks_contents [OF P(3)] R(2) by (simp add: s3_def)
  define s5 where "s5 = scma_recompute_used_size s4"
  have st5: "settled D s5 (remove1 i ls) gs" "scma_contents s5 = (scma_contents s)(h := None)"
    using settled_recompute [OF st4(1)] same_blocks_contents c4 by (simp_all add: s5_def)
  define s6 where "s6 = (scma_reset_compaction s5)\<lparr>sc_needed := True\<rparr>"
  have st6: "settled D s6 (remove1 i ls) gs" "scma_contents s6 = (scma_contents s)(h := None)"
    using settled_flags(1) [OF st5(1)] same_blocks_contents [OF settled_flags(2)] st5(2) by (simp_all add: s6_def)
  have "scma_coalesce_free_block i s3 = Some s4" using i3 s4(1) by (simp add: scma_coalesce_free_block_def)
  then have "scma_free env h s = Some (if sb_offset (sc_blocks s4 ! i) \<le> sc_used s4
      \<and> sb_size (sc_blocks s4 ! i) = sc_used s4 - sb_offset (sc_blocks s4 ! i) then s5 else s6, FT_ERR_SUCCESS)"
    using lk v wipe r unfolding scma_free_def Let_def s5_def s6_def s3_def s2_def by simp
  then show ?thesis using st5 st6 by (auto split: if_splits)
qed

subsection \<open>Resizing\<close>

definition resized :: "u8 set \<Rightarrow> scma_state \<Rightarrow> scma_handle \<Rightarrow> nat \<Rightarrow> scma_state \<Rightarrow> bool" where
  "resized D s h n s1 \<longleftrightarrow> (\<exists>old bs. scma_contents s h = Some old \<and> length bs = n \<and> take n old = take (length old) bs
     \<and> set (drop (length old) bs) \<subseteq> D \<and> scma_contents s1 = (scma_contents s)(h \<mapsto> bs))"

lemma resizedI:
  assumes st: "settled D s ls fs" and v: "scma_validate_handle h s = Some i" and ok: "others_kept i s s1"
    and live: "i \<in> live_set (sc_blocks s1)" "sb_generation (sc_blocks s1 ! i) = sb_generation (sc_blocks s ! i)"
    and bytes: "length (block_bytes s1 i) = n" "take n (block_bytes s i) = take (sb_size (sc_blocks s ! i)) (block_bytes s1 i)"
      "set (drop (sb_size (sc_blocks s ! i)) (block_bytes s1 i)) \<subseteq> D"
  shows "resized D s h n s1"
proof -
  note V = validate_live [OF st v] and C = coreD [OF settledD(1) [OF st]]
  have "scma_contents s1 = (scma_contents s)(h \<mapsto> block_bytes s1 i)"
    using contents_change [OF ok C(1) V(7) V(6) [symmetric]] V(8) live by simp
  then show ?thesis using V(13,14) bytes unfolding resized_def by metis
qed

text \<open>The last step of a resize counts the used size again.\<close>

lemma recount:
  fixes s :: scma_state
  assumes "layout (sc_blocks s) (length (sc_heap s))" "length (sc_heap s) \<le> FT_SYSTEM_SIZE_MAX"
  shows "layout (sc_blocks s) (max_end_loop (sc_blocks s) 0)" "max_end_loop (sc_blocks s) 0 \<le> length (sc_heap s)"
  using recompute_layout [OF assms] by (simp_all add: scma_recompute_used_size_def)

lemma shrink_effect:
  assumes st: "settled D s ls fs" and z: "0 \<in> D" and v: "scma_validate_handle h s = Some i"
    and n: "0 < n" "n < sb_size (sc_blocks s ! i)"
  shows "\<exists>t. resize_shrink i n s = Some (t, FT_ERR_SUCCESS) \<and> settled D t ls fs \<and> resized D s h n t"
proof -
  note S = settledD [OF st] and V = validate_live [OF st v]
  note C = coreD [OF S(1)]
  let ?b = "sc_blocks s" and ?o = "sb_offset (sc_blocks s ! i)" and ?z = "sb_size (sc_blocks s ! i)"
  define hp where "hp = store (?o + n) (replicate (?z - n) 0) (sc_heap s)"
  have e: "?o + ?z \<le> length (sc_heap s)" using V(9,10) by (simp add: block_end_def)
  then have fit: "?o + n + length (replicate (?z - n) (0 :: u8)) \<le> length (sc_heap s)" using n by simp
  note H = store_simps [OF fit, folded hp_def]
  have wipe: "scma_secure_bzero (?o + n) (?z - n) s = Some (s\<lparr>sc_heap := hp\<rparr>)"
    using bzero_store [of "?o + n" "?z - n" s] fit by (simp add: hp_def)
  have ge: "?z \<le> sc_live s"
    using C(7) member_le_sum [OF V(1), of "\<lambda>j. sb_size (?b ! j)"] by (simp add: total_size_def)
  define bs where "bs = ?b[i := (?b ! i)\<lparr>sb_size := n\<rparr>]"
  define t where "t = scma_recompute_used_size (if is_last_block i s
    then s\<lparr>sc_heap := hp, sc_blocks := bs, sc_live := sc_live s - (?z - n), sc_used := ?o + n\<rparr>
    else (scma_reset_compaction (s\<lparr>sc_heap := hp, sc_blocks := bs, sc_live := sc_live s - (?z - n)\<rparr>))\<lparr>sc_needed := True\<rparr>)"
  have "resize_shrink i n s = Some (t, FT_ERR_SUCCESS)"
    using wipe ge by (simp add: resize_shrink_def Let_def t_def update_block_def bs_def)
  have T: "sc_blocks t = bs" "sc_heap t = hp" "sc_live t = sc_live s - (?z - n)" "sc_used t = max_end_loop bs 0"
    "sc_initialised t = sc_initialised s" "sc_block_capacity t = sc_block_capacity s" "sc_free t = sc_free s"
    "sc_cursor t = None" "sc_head t = sc_head s" "sc_tail t = sc_tail s"
    using S(3) by (simp_all add: t_def scma_reset_compaction_def scma_recompute_used_size_def)
  have ag: "agree_off i ?b (sc_blocks t)" using T(1) by (simp add: agree_off_def bs_def)
  have bi: "bs ! i = (?b ! i)\<lparr>sb_size := n\<rparr>" using V(2) by (simp add: bs_def)
  have li: "i \<in> live_set bs" using V(2,5) bi by (simp add: live_set_def bs_def)
  have lay: "layout bs (length (sc_heap s))"
    by (rule agree_layout [OF C(2) ag [unfolded T(1)]])
      (use layoutD(2,3) [OF C(2)] C(3) bi n e V(1) in \<open>fastforce simp: apart_def block_end_def\<close>)+
  have hl: "layout (sc_blocks t) (length (sc_heap t))" "length (sc_heap t) \<le> FT_SYSTEM_SIZE_MAX"
    using lay H(1) C(4) by (simp_all add: T)
  note U = recount [OF hl]
  have slice: "take n (drop ?o hp) = take n (drop ?o (sc_heap s))" using H(3) [of ?o n] by simp
  have ok: "others_kept i s t"
  proof (rule others_keptI [OF ag T(5)])
    fix j assume j: "j \<in> live_set ?b" "j \<noteq> i"
    show "take (sb_size (?b ! j)) (drop (sb_offset (?b ! j)) (sc_heap t)) = block_bytes s j"
      unfolding T(2) block_bytes_def
      by (rule H(3)) (use layoutD(3) [OF C(2) V(1) j(1)] j(2) n in \<open>auto simp: apart_def block_end_def\<close>)
  qed
  have bb: "block_bytes t i = take n (block_bytes s i)"
    using slice n bi by (simp add: block_bytes_def T min_def)
  have "resized D s h n t"
    by (rule resizedI [OF st v ok]) (use li bi bb V(14) n T(1) in simp_all)
  moreover have "settled D t ls fs"
  proof (rule settled_change [OF st ag V(4)])
    show "sb_generation (sc_blocks t ! i) \<noteq> 0" "sb_generation (sc_blocks t ! i) \<noteq> -1"
      using T(1) bi C(10) [OF V(2)] by simp_all
    show "dlist t ls"
      using C(5) V(2) T(1,9,10) unfolding dlist_def
      by (auto intro!: seg_cong [of ?b] simp: bs_def nth_list_update)
    show "set ls = live_set (sc_blocks t)"
      using C(6) agree_live [OF ag] li V(1) T(1) by (metis set_eqI)
    show "layout (sc_blocks t) (sc_used t)" "sc_used t \<le> length (sc_heap s)" using U H(1) by (simp_all add: T)
    show "sc_live t = total_size (sc_blocks t)" using agree_total [OF ag] li V(1) C(7) n ge bi by (simp add: T)
    show "wiped D t"
    proof (rule wiped_mono [OF S(5)])
      fix p assume p: "p < length (sc_heap s)" "\<forall>j \<in> live_set (sc_blocks t). p \<notin> extent (sc_blocks t) j"
      have "p \<notin> extent ?b j" if "j \<in> live_set ?b" "j \<noteq> i" for j by (rule agree_uncovered [OF ag p(2) that])
      moreover have "p \<notin> extent bs i" using p(2) li T(1) by simp
      ultimately show "(\<forall>j \<in> live_set ?b. p \<notin> extent ?b j) \<and> sc_heap t ! p = sc_heap s ! p \<or> sc_heap t ! p \<in> D"
        unfolding T(2) using H(2) [OF p(1)] z n bi by (auto simp: extent_def block_end_def)
    qed (use H(1) T(2) in simp)
  qed (use V(11) H(1) T in simp_all)
  ultimately show ?thesis using \<open>resize_shrink i n s = Some (t, FT_ERR_SUCCESS)\<close> by blast
qed

text \<open>The last block grows where it is.\<close>

lemma last_block_behind:
  assumes "layout bs u" "i \<in> live_set bs" "block_end bs i = u" "j \<in> live_set bs" "j \<noteq> i"
  shows "block_end bs j \<le> sb_offset (bs ! i)"
  using layoutD(3) [OF assms(1,2,4)] layoutD(1,2) [OF assms(1,4)] assms(3,5)
  by (auto simp: apart_def block_end_def)

lemma grow_in_place:
  assumes st: "settled D s ls fs" and v: "scma_validate_handle h s = Some i"
    and n: "sb_size (sc_blocks s ! i) < n" and last: "block_end (sc_blocks s) i = sc_used s"
    and fit: "sb_offset (sc_blocks s ! i) + n \<le> length (sc_heap s)"
  defines "t \<equiv> (scma_recompute_used_size (update_block i (\<lambda>b. b\<lparr>sb_size := n\<rparr>) s))\<lparr>sc_live :=
    sc_live s + (n - sb_size (sc_blocks s ! i))\<rparr>"
  shows "settled D t ls fs" "resized D s h n t"
proof -
  note S = settledD [OF st] and V = validate_live [OF st v]
  note C = coreD [OF S(1)]
  let ?b = "sc_blocks s" and ?o = "sb_offset (sc_blocks s ! i)" and ?z = "sb_size (sc_blocks s ! i)"
  define bs where "bs = ?b[i := (?b ! i)\<lparr>sb_size := n\<rparr>]"
  have T: "sc_blocks t = bs" "sc_heap t = sc_heap s" "sc_live t = sc_live s + (n - ?z)" "sc_used t = max_end_loop bs 0"
    "sc_initialised t = sc_initialised s" "sc_block_capacity t = sc_block_capacity s" "sc_free t = sc_free s"
    "sc_cursor t = None" "sc_head t = sc_head s" "sc_tail t = sc_tail s"
    using S(3) by (simp_all add: t_def scma_recompute_used_size_def update_block_def bs_def)
  have ag: "agree_off i ?b (sc_blocks t)" using T(1) by (simp add: agree_off_def bs_def)
  have bi: "bs ! i = (?b ! i)\<lparr>sb_size := n\<rparr>" using V(2) by (simp add: bs_def)
  have li: "i \<in> live_set bs" using V(2,5) bi by (simp add: live_set_def bs_def)
  note behind = last_block_behind [OF C(2) V(1) last]
  have lay: "layout bs (length (sc_heap s))"
    by (rule agree_layout [OF C(2) ag [unfolded T(1)]])
      (use layoutD(2) [OF C(2)] C(3) bi n fit behind in \<open>fastforce simp: block_end_def\<close>)+
  have hl: "layout (sc_blocks t) (length (sc_heap t))" "length (sc_heap t) \<le> FT_SYSTEM_SIZE_MAX"
    using lay C(4) by (simp_all add: T)
  note U = recount [OF hl]
  have ok: "others_kept i s t"
    by (rule others_keptI [OF ag T(5)]) (simp add: T(2) block_bytes_def)
  have bb: "block_bytes t i = take n (drop ?o (sc_heap s))" using bi by (simp add: block_bytes_def T)
  show "resized D s h n t"
  proof (rule resizedI [OF st v ok])
    show "length (block_bytes t i) = n" using bb fit by simp
    show "take n (block_bytes s i) = take ?z (block_bytes t i)" using bb n by (simp add: block_bytes_def min_def)
    have "drop ?z (block_bytes t i) = take (n - ?z) (drop (sc_used s) (sc_heap s))"
      using bb last by (simp add: drop_take block_end_def add.commute)
    moreover have "set (take (n - ?z) (drop (sc_used s) (sc_heap s))) \<subseteq> D"
      by (rule wiped_range [OF S(5)]) (use last fit n layoutD(2) [OF C(2)] in \<open>auto simp: block_end_def\<close>)
    ultimately show "set (drop ?z (block_bytes t i)) \<subseteq> D" by simp
  qed (use li bi T(1) in simp_all)
  show "settled D t ls fs"
  proof (rule settled_change [OF st ag V(4)])
    show "sb_generation (sc_blocks t ! i) \<noteq> 0" "sb_generation (sc_blocks t ! i) \<noteq> -1"
      using T(1) bi C(10) [OF V(2)] by simp_all
    show "dlist t ls"
      using C(5) V(2) T(1,9,10) unfolding dlist_def
      by (auto intro!: seg_cong [of ?b] simp: bs_def nth_list_update)
    show "set ls = live_set (sc_blocks t)"
      using C(6) agree_live [OF ag] li V(1) T(1) by (metis set_eqI)
    show "layout (sc_blocks t) (sc_used t)" "sc_used t \<le> length (sc_heap s)" using U by (simp_all add: T)
    show "sc_live t = total_size (sc_blocks t)" using agree_total [OF ag] li V(1) C(7) n bi by (simp add: T)
    show "wiped D t"
    proof (rule wiped_mono [OF S(5)])
      fix p assume p: "p < length (sc_heap s)" "\<forall>j \<in> live_set (sc_blocks t). p \<notin> extent (sc_blocks t) j"
      have "p \<notin> extent ?b j" if "j \<in> live_set ?b" "j \<noteq> i" for j by (rule agree_uncovered [OF ag p(2) that])
      moreover have "p \<notin> extent bs i" using p(2) li T(1) by simp
      then have "p \<notin> extent ?b i" using n bi by (auto simp: extent_def block_end_def)
      ultimately show "(\<forall>j \<in> live_set ?b. p \<notin> extent ?b j) \<and> sc_heap t ! p = sc_heap s ! p \<or> sc_heap t ! p \<in> D"
        using T(2) by auto
    qed (simp add: T(2))
  qed (use V(11) T in simp_all)
qed

text \<open>Another block moves behind the used part.\<close>

definition moved :: "nat \<Rightarrow> nat \<Rightarrow> scma_state \<Rightarrow> scma_state" where
  "moved i n s = (let o' = sb_offset (sc_blocks s ! i); z = sb_size (sc_blocks s ! i);
      s1 = s\<lparr>sc_heap := store o' (replicate z 0) (store (sc_used s) (block_bytes s i) (sc_heap s))\<rparr>;
      s2 = update_block i (\<lambda>b. b\<lparr>sb_offset := sc_used s, sb_size := n\<rparr>) (scma_unlink_block i s1);
      s3 = scma_recompute_used_size (scma_link_block_at_tail i s2)
    in scma_reset_compaction (s3\<lparr>sc_live := sc_live s + (n - z), sc_needed := True\<rparr>))"

lemma moved_effect:
  assumes st: "settled D s ls fs" and z: "0 \<in> D" and v: "scma_validate_handle h s = Some i"
    and n: "sb_size (sc_blocks s ! i) < n" and fit: "sc_used s + n \<le> length (sc_heap s)"
  shows "settled D (moved i n s) (remove1 i ls @ [i]) fs" "resized D s h n (moved i n s)"
proof -
  note S = settledD [OF st] and V = validate_live [OF st v]
  note C = coreD [OF S(1)]
  let ?b = "sc_blocks s" and ?o = "sb_offset (sc_blocks s ! i)" and ?z = "sb_size (sc_blocks s ! i)" and ?u = "sc_used s"
  let ?t = "moved i n s"
  have oz: "?o + ?z \<le> ?u" using V(9) by (simp add: block_end_def)
  define h1 where "h1 = store ?u (block_bytes s i) (sc_heap s)"
  define h2 where "h2 = store ?o (replicate ?z 0) h1"
  have f1: "?u + length (block_bytes s i) \<le> length (sc_heap s)" using fit n V(14) by simp
  note H1 = store_simps [OF f1, folded h1_def, unfolded V(14)]
  have f2: "?o + length (replicate ?z (0 :: u8)) \<le> length h1" using oz fit H1(1) by simp
  note H2 = store_simps [OF f2, folded h2_def, unfolded length_replicate H1(1)]
  define s1 where "s1 = s\<lparr>sc_heap := h2\<rparr>"
  define s2 where "s2 = update_block i (\<lambda>b. b\<lparr>sb_offset := ?u, sb_size := n\<rparr>) (scma_unlink_block i s1)"
  define s3 where "s3 = scma_link_block_at_tail i s2"
  have "dlist s1 ls" using C(5) by (simp add: s1_def dlist_def)
  then have L1: "list_change s1 (scma_unlink_block i s1)" "dlist (scma_unlink_block i s1) (remove1 i ls)"
    using unlink_block_effect [of s1 ls i] V(3,5) by (simp_all add: s1_def)
  note F1 = list_change_fields [OF L1(1)] and B1 = list_change_block [OF L1(1)]
  have len1: "length (sc_blocks (scma_unlink_block i s1)) = length ?b" using F1(10) by (simp add: s1_def)
  have un1: "unlinked (sc_blocks (scma_unlink_block i s1) ! j) = unlinked (?b ! j)" if "j < length ?b" for j
    using L1(1) nth_map_eq [of unlinked "sc_blocks (scma_unlink_block i s1)" ?b j] that len1
    by (simp add: list_change_def s1_def)
  have s2i: "sb_offset (sc_blocks s2 ! i) = ?u" "sb_size (sc_blocks s2 ! i) = n" "sb_in_use (sc_blocks s2 ! i)"
    "sb_generation (sc_blocks s2 ! i) = sb_generation (?b ! i)"
    using V(2,5) len1 unlinkedD(3,4) [OF un1 [OF V(2)]] by (simp_all add: s2_def update_block_nth)
  have s2j: "unlinked (sc_blocks s2 ! j) = unlinked (?b ! j)" if "j < length ?b" "j \<noteq> i" for j
    using that un1 len1 by (simp add: s2_def update_block_nth)
  have len2: "length (sc_blocks s2) = length ?b" using len1 by (simp add: s2_def)
  have ni: "i \<notin> set (remove1 i ls)" using C(5) by (simp add: dlist_def)
  have d2: "dlist s2 (remove1 i ls)"
    using L1(2) ni by (auto simp: s2_def dlist_def update_block_def intro!: seg_update)
  have use2: "sb_in_use (sc_blocks s2 ! x)" if "x \<in> set (remove1 i ls)" for x
  proof -
    have "x \<in> live_set ?b" "x \<noteq> i" using that C(5,6) by (auto simp: dlist_def)
    then show ?thesis using unlinkedD(3) [OF s2j] live_setD by blast
  qed
  have i2: "i < length (sc_blocks s2)" using V(2) len2 by simp
  have L2: "list_change s2 s3" "dlist s3 (remove1 i ls @ [i])"
    unfolding s3_def using link_block_effect [OF d2 i2 s2i(3) ni] use2 by blast+
  note F2 = list_change_fields [OF L2(1)] and B2 = list_change_block [OF L2(1)]
  have T: "sc_blocks ?t = sc_blocks s3" "sc_heap ?t = h2" "sc_live ?t = sc_live s + (n - ?z)"
    "sc_used ?t = max_end_loop (sc_blocks s3) 0" "sc_initialised ?t = sc_initialised s"
    "sc_block_capacity ?t = sc_block_capacity s" "sc_free ?t = sc_free s" "sc_cursor ?t = None"
    "sc_head ?t = sc_head s3" "sc_tail ?t = sc_tail s3"
    using F1 F2 by (simp_all add: moved_def Let_def scma_reset_compaction_def scma_recompute_used_size_def
      s3_def s2_def s1_def h2_def h1_def)
  have len3: "length (sc_blocks s3) = length ?b" using F2(10) len2 by simp
  have s3j: "unlinked (sc_blocks s3 ! j) = unlinked (sc_blocks s2 ! j)" if "j < length ?b" for j
    using L2(1) nth_map_eq [of unlinked "sc_blocks s3" "sc_blocks s2" j] that len3 by (simp add: list_change_def)
  have ag: "agree_off i ?b (sc_blocks ?t)" using s3j s2j len3 T(1) by (simp add: agree_off_def)
  note B = B2 [OF i2]
  have li: "i \<in> live_set (sc_blocks ?t)" using B(1) s2i(3) V(2) len3 T(1) by (simp add: live_set_def)
  have ti: "sb_offset (sc_blocks ?t ! i) = ?u" "sb_size (sc_blocks ?t ! i) = n"
    "sb_generation (sc_blocks ?t ! i) = sb_generation (?b ! i)" using B(2-4) s2i T(1) by simp_all
  have lay: "layout (sc_blocks ?t) (length (sc_heap ?t))"
    by (rule agree_layout [OF C(2) ag])
      (use layoutD(2) [OF C(2)] C(3) ti n fit T(2) H2(1) in \<open>fastforce simp: block_end_def\<close>)+
  have "length (sc_heap ?t) \<le> FT_SYSTEM_SIZE_MAX" using C(4) H2(1) T(2) by simp
  note U = recount [OF lay this]
  have keep: "take m (drop a h2) = take m (drop a (sc_heap s))"
    if "a + m \<le> ?u \<or> ?u + ?z \<le> a" "a + m \<le> ?o \<or> ?o + ?z \<le> a" for a m
    using H2(3) [of a m] H1(3) [of a m] that by simp
  have ok: "others_kept i s ?t"
  proof (rule others_keptI [OF ag T(5)])
    fix j assume j: "j \<in> live_set ?b" "j \<noteq> i"
    show "take (sb_size (?b ! j)) (drop (sb_offset (?b ! j)) (sc_heap ?t)) = block_bytes s j"
      unfolding T(2) block_bytes_def
      by (rule keep) (use layoutD(3) [OF C(2) V(1) j(1)] layoutD(2) [OF C(2) j(1)] j(2)
        in \<open>auto simp: apart_def block_end_def\<close>)
  qed
  have bb: "block_bytes ?t i = take n (drop ?u h2)" using ti by (simp add: block_bytes_def T(2))
  show "resized D s h n ?t"
  proof (rule resizedI [OF st v ok li ti(3)])
    show "length (block_bytes ?t i) = n" using bb fit H2(1) by simp
    have "take ?z (drop ?u h2) = block_bytes s i" using H2(3) [of ?u ?z] H1(4) oz by simp
    then show "take n (block_bytes s i) = take ?z (block_bytes ?t i)" using bb n V(14) by (simp add: min_def)
    have "drop ?z (block_bytes ?t i) = take (n - ?z) (drop (?u + ?z) h2)" using bb by (simp add: drop_take add.commute)
    also have "\<dots> = take (n - ?z) (drop (?u + ?z) (sc_heap s))" by (rule keep) (use oz in auto)
    finally have "drop ?z (block_bytes ?t i) = take (n - ?z) (drop (?u + ?z) (sc_heap s))" .
    moreover have "set (take (n - ?z) (drop (?u + ?z) (sc_heap s))) \<subseteq> D"
      by (rule wiped_range [OF S(5)]) (use fit n layoutD(2) [OF C(2)] in fastforce)+
    ultimately show "set (drop ?z (block_bytes ?t i)) \<subseteq> D" by simp
  qed
  show "settled D ?t (remove1 i ls @ [i]) fs"
  proof (rule settled_change [OF st ag V(4)])
    show "sb_generation (sc_blocks ?t ! i) \<noteq> 0" "sb_generation (sc_blocks ?t ! i) \<noteq> -1"
      using ti(3) C(10) [OF V(2)] by simp_all
    show "dlist ?t (remove1 i ls @ [i])" using L2(2) T(1,9,10) by (simp add: dlist_def)
    show "set (remove1 i ls @ [i]) = live_set (sc_blocks ?t)"
      using set_remove1_dlist [OF C(5), of i] C(6) agree_live [OF ag] li by auto
    show "layout (sc_blocks ?t) (sc_used ?t)" "sc_used ?t \<le> length (sc_heap s)" using U H2(1) by (simp_all add: T)
    show "sc_live ?t = total_size (sc_blocks ?t)" using agree_total [OF ag] li V(1) C(7) n ti(2) T(3) by simp
    show "wiped D ?t"
    proof (rule wiped_mono [OF S(5)])
      fix p assume p: "p < length (sc_heap s)" "\<forall>j \<in> live_set (sc_blocks ?t). p \<notin> extent (sc_blocks ?t) j"
      have "p \<notin> extent ?b j" if "j \<in> live_set ?b" "j \<noteq> i" for j by (rule agree_uncovered [OF ag p(2) that])
      moreover have "p \<notin> extent (sc_blocks ?t) i" using p(2) li by blast
      then have "\<not> (?u \<le> p \<and> p < ?u + ?z)" using n ti by (auto simp: extent_def block_end_def)
      ultimately show "(\<forall>j \<in> live_set ?b. p \<notin> extent ?b j) \<and> sc_heap ?t ! p = sc_heap s ! p \<or> sc_heap ?t ! p \<in> D"
        unfolding T(2) using H2(2) [OF p(1)] H1(2) [OF p(1)] z by (auto simp: extent_def block_end_def)
    qed (use H2(1) T(2) in simp)
  qed (use V(11) H2(1) T in simp_all)
qed

text \<open>Growing: it succeeds, or nothing a client sees has changed.\<close>

definition resize_outcome :: "u8 set \<Rightarrow> scma_state \<Rightarrow> scma_handle \<Rightarrow> nat \<Rightarrow> scma_state \<Rightarrow> ft_err \<Rightarrow> bool" where
  "resize_outcome D s h n t e \<longleftrightarrow> (\<exists>ms gs. settled D t ms gs)
     \<and> (e = FT_ERR_SUCCESS \<and> resized D s h n t
        \<or> e \<in> {FT_ERR_NO_MEMORY, FT_ERR_OUT_OF_RANGE} \<and> scma_contents t = scma_contents s)"

lemma resize_outcome_same:
  assumes "same_blocks s s1" "resize_outcome D s1 h n t e"
  shows "resize_outcome D s h n t e"
  using assms(2) same_blocks_contents [OF assms(1)] by (simp add: resize_outcome_def resized_def)

lemma ensure_settled:
  assumes env: "scma_env_ok env" "fresh_from env D" and st: "settled D s ls fs"
  obtains h granted where "scma_ensure_capacity env n s = Some (s\<lparr>sc_heap := h\<rparr>, granted)"
    "settled D (s\<lparr>sc_heap := h\<rparr>) ls fs" "same_blocks s (s\<lparr>sc_heap := h\<rparr>)" "granted \<longrightarrow> n \<le> length h"
proof -
  note S = settledD [OF st]
  obtain h granted where h: "scma_ensure_capacity env n s = Some (s\<lparr>sc_heap := h\<rparr>, granted)"
    "length (sc_heap s) \<le> length h" "take (length (sc_heap s)) h = sc_heap s"
    "core (s\<lparr>sc_heap := h\<rparr>) ls" "free_ok (s\<lparr>sc_heap := h\<rparr>) fs" "same_blocks s (s\<lparr>sc_heap := h\<rparr>)"
    "granted \<longrightarrow> n \<le> length h \<and> n < FT_SYSTEM_SIZE_MAX"
    "\<forall>D. fresh_from env D \<longrightarrow> set (drop (length (sc_heap s)) h) \<subseteq> D"
    "(\<forall>x k. se_realloc env x k \<noteq> None) \<and> n < FT_SYSTEM_SIZE_MAX \<longrightarrow> granted"
    by (rule ensure_capacity_effect [OF env(1) S(1,2)])
  show thesis
    by (rule that [OF h(1) settled_heap [OF st h(4,5,3)] h(6)]) (use h(7,8) env(2) in auto)
qed

lemma settled_maybe_discard:
  assumes "settled D s ls fs"
  obtains s1 gs where "(if b then scma_discard_free_spans_from n s else Some s) = Some s1" "free_change s s1"
    "settled D s1 ls gs" "same_blocks s s1"
proof (cases b)
  case True
  obtain s1 gs where "scma_discard_free_spans_from n s = Some s1" "free_change s s1" "settled D s1 ls gs"
    "same_blocks s s1" "set gs \<subseteq> set fs"
    "\<forall>x < length (sc_blocks s). x \<notin> set fs \<longrightarrow> strip (sc_blocks s1 ! x) = strip (sc_blocks s ! x)"
    by (rule settled_discard [OF assms, of n])
  then show thesis using that True by simp
next
  case False
  then show thesis using that [of s fs] assms by simp
qed

lemma resize_in_place_effect:
  assumes env: "scma_env_ok env" "fresh_from env D" and st: "settled D s ls fs"
    and v: "scma_validate_handle h s = Some i" and n: "sb_size (sc_blocks s ! i) < n" and last: "is_last_block i s"
  shows "\<exists>t e. resize_in_place env d i n s = Some (t, e) \<and> resize_outcome D s h n t e"
proof (cases "n > FT_SYSTEM_SIZE_MAX - sb_offset (sc_blocks s ! i)")
  case True
  then show ?thesis using st by (auto simp: resize_in_place_def Let_def resize_outcome_def)
next
  case False
  let ?o = "sb_offset (sc_blocks s ! i)" and ?z = "sb_size (sc_blocks s ! i)"
  note V = validate_live [OF st v]
  obtain hp granted where h: "scma_ensure_capacity env (?o + n) s = Some (s\<lparr>sc_heap := hp\<rparr>, granted)"
    "settled D (s\<lparr>sc_heap := hp\<rparr>) ls fs" "same_blocks s (s\<lparr>sc_heap := hp\<rparr>)" "granted \<longrightarrow> ?o + n \<le> length hp"
    by (rule ensure_settled [OF env st])
  let ?s = "s\<lparr>sc_heap := hp\<rparr>"
  obtain s2 gs where s2: "(if d then scma_discard_free_spans_from (sc_used ?s) ?s else Some ?s) = Some s2"
    "free_change ?s s2" "settled D s2 ls gs" "same_blocks ?s s2" by (rule settled_maybe_discard [OF h(2)])
  show ?thesis
  proof (cases granted)
    case False
    with \<open>\<not> n > FT_SYSTEM_SIZE_MAX - ?o\<close> have "resize_in_place env d i n s = Some (?s, FT_ERR_NO_MEMORY)"
      using h(1) by (simp add: resize_in_place_def Let_def)
    then show ?thesis using h(2) same_blocks_contents [OF h(3)] by (auto simp: resize_outcome_def)
  next
    case True
    have b2: "sb_size (sc_blocks s2 ! i) = ?z" "sb_offset (sc_blocks s2 ! i) = ?o" "sc_used s2 = sc_used s"
      "sc_live s2 = sc_live s" "sc_heap s2 = hp"
      using free_change_block(5,6) [OF s2(2), of i] free_change_fields [OF s2(2)] V(2,5) by simp_all
    define t where "t = (scma_recompute_used_size (update_block i (\<lambda>b. b\<lparr>sb_size := n\<rparr>) s2))\<lparr>sc_live :=
      sc_live s2 + (n - sb_size (sc_blocks s2 ! i))\<rparr>"
    have sb: "same_blocks s s2" using same_blocks_trans [OF h(3) s2(4)] .
    have v2: "scma_validate_handle h s2 = Some i" using same_blocks_validate [OF sb] v by simp
    have l2: "block_end (sc_blocks s2) i = sc_used s2" using last b2 by (simp add: is_last_block_def block_end_def)
    have "settled D t ls gs" "resized D s2 h n t"
      unfolding t_def by (rule grow_in_place [OF s2(3) v2 _ l2]; use b2 n h(4) True in simp)+
    moreover have "resize_in_place env d i n s = Some (t, FT_ERR_SUCCESS)"
      using \<open>\<not> n > FT_SYSTEM_SIZE_MAX - ?o\<close> h(1) True s2(1) b2 by (simp add: resize_in_place_def Let_def t_def)
    ultimately have "resize_outcome D s2 h n t FT_ERR_SUCCESS" by (auto simp: resize_outcome_def)
    then show ?thesis using resize_outcome_same [OF sb] \<open>resize_in_place env d i n s = Some (t, FT_ERR_SUCCESS)\<close> by blast
  qed
qed

lemma resize_move_effect:
  assumes env: "scma_env_ok env" "fresh_from env D" and st: "settled D s ls fs" and z: "0 \<in> D"
    and v: "scma_validate_handle h s = Some i" and n: "sb_size (sc_blocks s ! i) < n"
  shows "\<exists>t e. resize_move env i n (sc_used s + n) s = Some (t, e) \<and> resize_outcome D s h n t e"
proof -
  let ?o = "sb_offset (sc_blocks s ! i)" and ?z = "sb_size (sc_blocks s ! i)"
  note V = validate_live [OF st v]
  obtain hp granted where h: "scma_ensure_capacity env (sc_used s + n) s = Some (s\<lparr>sc_heap := hp\<rparr>, granted)"
    "settled D (s\<lparr>sc_heap := hp\<rparr>) ls fs" "same_blocks s (s\<lparr>sc_heap := hp\<rparr>)" "granted \<longrightarrow> sc_used s + n \<le> length hp"
    by (rule ensure_settled [OF env st])
  let ?s = "s\<lparr>sc_heap := hp\<rparr>"
  show ?thesis
  proof (cases granted)
    case False
    then have "resize_move env i n (sc_used s + n) s = Some (?s, FT_ERR_NO_MEMORY)"
      using h(1) by (simp add: resize_move_def Let_def)
    then show ?thesis using h(2) same_blocks_contents [OF h(3)] by (auto simp: resize_outcome_def)
  next
    case True
    obtain s2 gs where s2: "scma_discard_free_spans_from (sc_used s) ?s = Some s2" "free_change ?s s2"
      "settled D s2 ls gs" "same_blocks ?s s2" "set gs \<subseteq> set fs"
      "\<forall>x < length (sc_blocks ?s). x \<notin> set fs \<longrightarrow> strip (sc_blocks s2 ! x) = strip (sc_blocks ?s ! x)"
      by (rule settled_discard [OF h(2), of "sc_used s"])
    have b2: "sb_size (sc_blocks s2 ! i) = ?z" "sb_offset (sc_blocks s2 ! i) = ?o" "sc_used s2 = sc_used s"
      "sc_live s2 = sc_live s" "sc_heap s2 = hp"
      using free_change_block(5,6) [OF s2(2), of i] free_change_fields [OF s2(2)] V(2,5) by simp_all
    have sb: "same_blocks s s2" using same_blocks_trans [OF h(3) s2(4)] .
    have v2: "scma_validate_handle h s2 = Some i" using same_blocks_validate [OF sb] v by simp
    note V2 = validate_live [OF s2(3) v2]
    have fit: "sc_used s2 + n \<le> length (sc_heap s2)" using h(4) True b2 by simp
    have n2: "sb_size (sc_blocks s2 ! i) < n" using n b2 by simp
    note M = moved_effect [OF s2(3) z v2 n2 fit]
    have oz: "?o + ?z \<le> sc_used s" using V(9) by (simp add: block_end_def)
    define h1 where "h1 = store (sc_used s) (block_bytes s2 i) hp"
    define s3 where "s3 = s2\<lparr>sc_heap := h1\<rparr>"
    define h2 where "h2 = store ?o (replicate ?z 0) h1"
    define s4 where "s4 = s2\<lparr>sc_heap := h2\<rparr>"
    have lb: "length (block_bytes s2 i) = ?z" using V2(14) b2(1) by simp
    have l1: "length h1 = length hp" using fit n2 b2 lb by (simp add: h1_def store_simps(1))
    have "heap_load ?o ?z s2 = Some (block_bytes s2 i)"
      using oz fit b2 by (simp add: heap_load_def block_bytes_def)
    then have move: "heap_move (sc_used s2) ?o ?z s2 = Some s3"
      using fit n2 b2 lb by (simp add: heap_move_def heap_store_def s3_def h1_def store_def)
    have wipe: "scma_secure_bzero ?o ?z s3 = Some s4"
      using bzero_store [of ?o ?z s3] oz fit b2 l1 by (simp add: s3_def s4_def h2_def)
    have sl: "sc_live (scma_unlink_block i s4) = sc_live s2" "sc_used (scma_unlink_block i s4) = sc_used s2"
      using unlink_block_effect(1) [of s4 ls i] coreD(5) [OF settledD(1) [OF s2(3)]] V2(3,5) list_change_fields(3,4)
      by (auto simp: s4_def dlist_def)
    define s5 where "s5 = update_block i (\<lambda>b. b\<lparr>sb_offset := sc_used s2, sb_size := n\<rparr>) (scma_unlink_block i s4)"
    have link: "sc_live (scma_link_block_at_tail i s5) = sc_live s5"
      by (simp add: scma_link_block_at_tail_def Let_def split: option.split)
    have "resize_move env i n (sc_used s + n) s = Some (moved i n s2, FT_ERR_SUCCESS)"
      using h(1) True s2(1) move wipe b2 sl link
      by (simp add: resize_move_def Let_def moved_def s5_def s4_def h2_def h1_def)
    moreover have "resize_outcome D s2 h n (moved i n s2) FT_ERR_SUCCESS"
      using M by (auto simp: resize_outcome_def)
    ultimately show ?thesis using resize_outcome_same [OF sb] by blast
  qed
qed

lemma resize_grow_effect:
  assumes env: "scma_env_ok env" "fresh_from env D" and st: "settled D s ls fs" and z: "0 \<in> D"
    and v: "scma_validate_handle h s = Some i" and n: "sb_size (sc_blocks s ! i) < n"
  shows "\<exists>t e. resize_grow env i n s = Some (t, e) \<and> resize_outcome D s h n t e"
proof -
  note S = settledD [OF st]
  consider "n > FT_SYSTEM_SIZE_MAX - sc_used s"
    | "\<not> n > FT_SYSTEM_SIZE_MAX - sc_used s" "\<not> (sc_used s + n > length (sc_heap s) \<and> sc_needed s)"
    | "\<not> n > FT_SYSTEM_SIZE_MAX - sc_used s" "sc_used s + n > length (sc_heap s) \<and> sc_needed s" by blast
  then show ?thesis
  proof cases
    case 1
    then show ?thesis using st by (auto simp: resize_grow_def resize_outcome_def)
  next
    case 2
    then have "resize_grow env i n s = resize_move env i n (sc_used s + n) s" by (auto simp: resize_grow_def)
    then show ?thesis using resize_move_effect [OF env st z v n] by simp
  next
    case 3
    have ok: "interrupted_ok s" using S(3) by (simp add: interrupted_ok_def)
    obtain s1 where s1: "scma_compact s = Some (s1, FT_ERR_SUCCESS)" "core s1 ls" "compacted s s1"
      using compact_effect [OF S(1) ok S(2,4)] by blast
    have st1: "settled D s1 ls []" using settled_compacted [OF st s1(2,3) z] .
    have sb: "same_blocks s s1" using s1(3) by (simp add: compacted_def)
    have v1: "scma_validate_handle h s1 = Some i" using same_blocks_validate [OF sb] v by simp
    have "sb_size (sc_blocks s1 ! i) = sb_size (sc_blocks s ! i)"
      using validate_live(13,14) [OF st1 v1] validate_live(13,14) [OF st v] same_blocks_contents [OF sb] by simp
    then have n1: "sb_size (sc_blocks s1 ! i) < n" using n by simp
    have eq: "resize_grow env i n s = (if is_last_block i s1 then resize_in_place env False i n s1
        else if n > FT_SYSTEM_SIZE_MAX - sc_used s1 then Some (s1, FT_ERR_OUT_OF_RANGE)
        else resize_move env i n (sc_used s1 + n) s1)"
      using 3 s1(1) by (simp add: resize_grow_def)
    have "\<exists>t e. resize_grow env i n s = Some (t, e) \<and> resize_outcome D s1 h n t e"
    proof (cases "is_last_block i s1")
      case True
      then show ?thesis using eq resize_in_place_effect [OF env st1 v1 n1 True, of False] by simp
    next
      case False
      then show ?thesis
        using eq resize_move_effect [OF env st1 z v1 n1] st1 by (auto simp: resize_outcome_def)
    qed
    then show ?thesis using resize_outcome_same [OF sb] by blast
  qed
qed

lemma resize_effect:
  assumes env: "scma_env_ok env" "fresh_from env D" and st: "settled D s ls fs" and z: "0 \<in> D"
    and v: "scma_validate_handle h s = Some i" and lk: "se_lock env" and n: "0 < n"
  shows "\<exists>t e. scma_resize env h n s = Some (t, e) \<and> resize_outcome D s h n t e
    \<and> (n \<le> sb_size (sc_blocks s ! i) \<longrightarrow> e = FT_ERR_SUCCESS)"
proof -
  let ?s = "scma_recompute_used_size s" and ?z = "sb_size (sc_blocks s ! i)"
  note R = settled_recompute [OF st]
  have v1: "scma_validate_handle h ?s = Some i" using same_blocks_validate [OF R(2)] v by simp
  have eq: "scma_resize env h n s = (if n = ?z then Some (?s, FT_ERR_SUCCESS)
      else if n < ?z then resize_shrink i n ?s
      else if is_last_block i ?s then resize_in_place env True i n ?s else resize_grow env i n ?s)"
    using lk n v by (simp add: scma_resize_def)
  have "\<exists>t e. scma_resize env h n s = Some (t, e) \<and> resize_outcome D ?s h n t e \<and> (n \<le> ?z \<longrightarrow> e = FT_ERR_SUCCESS)"
  proof -
    consider "n = ?z" | "n < ?z" | "?z < n" "is_last_block i ?s" | "?z < n" "\<not> is_last_block i ?s" by linarith
    then show ?thesis
    proof cases
      case 1
      note V = validate_live [OF R(1) v1]
      have "(scma_contents ?s)(h \<mapsto> block_bytes ?s i) = scma_contents ?s" using V(13) by auto
      then have "resized D ?s h n ?s" using V(13,14) 1 unfolding resized_def by fastforce
      then show ?thesis using eq 1 R(1) by (auto simp: resize_outcome_def)
    next
      case 2
      then show ?thesis using eq shrink_effect [OF R(1) z v1 n] by (fastforce simp: resize_outcome_def)
    next
      case 3
      then show ?thesis using eq resize_in_place_effect [OF env R(1) v1 _ 3(2), of n True] by simp
    next
      case 4
      then show ?thesis using eq resize_grow_effect [OF env R(1) z v1, of n] by simp
    qed
  qed
  then show ?thesis using resize_outcome_same [OF R(2)] by blast
qed

subsection \<open>Writing and reading\<close>

text \<open>What a request does to the map of scma_contents, and what it returns.\<close>

definition write_request :: "scma_write_request \<Rightarrow> (scma_handle \<Rightarrow> bytes option) \<Rightarrow> (scma_handle \<Rightarrow> bytes option)" where
  "write_request r m = (case m (sw_handle r) of None \<Rightarrow> m
     | Some old \<Rightarrow> m(sw_handle r \<mapsto> store (sw_offset r) (span_bytes (sw_source r) (sw_size r)) old))"

definition request_error :: "scma_handle \<Rightarrow> ptr \<Rightarrow> nat \<Rightarrow> nat \<Rightarrow> (scma_handle \<Rightarrow> bytes option) \<Rightarrow> ft_err" where
  "request_error h pointer offset sz m = (case m h of None \<Rightarrow> FT_ERR_INVALID_HANDLE
     | Some old \<Rightarrow> if pointer = None then FT_ERR_INVALID_POINTER
         else if length old < offset + sz then FT_ERR_OUT_OF_RANGE else FT_ERR_SUCCESS)"

lemma validate_access_contents:
  assumes st: "settled D s ls fs"
  shows "validate_access h pointer offset sz s = Inl e \<Longrightarrow> e = request_error h pointer offset sz (scma_contents s) \<and> e \<noteq> FT_ERR_SUCCESS"
    "validate_access h pointer offset sz s = Inr i \<Longrightarrow> request_error h pointer offset sz (scma_contents s) = FT_ERR_SUCCESS
       \<and> scma_validate_handle h s = Some i \<and> pointer \<noteq> None \<and> offset + sz \<le> sb_size (sc_blocks s ! i)"
proof -
  have both: "case validate_access h pointer offset sz s of
      Inl e \<Rightarrow> e = request_error h pointer offset sz (scma_contents s) \<and> e \<noteq> FT_ERR_SUCCESS
    | Inr i \<Rightarrow> request_error h pointer offset sz (scma_contents s) = FT_ERR_SUCCESS
        \<and> scma_validate_handle h s = Some i \<and> pointer \<noteq> None \<and> offset + sz \<le> sb_size (sc_blocks s ! i)"
  proof (cases "scma_validate_handle h s")
    case None
    then show ?thesis by (simp add: validate_access_def request_error_def scma_contents_def)
  next
    case (Some i)
    note V = validate_live(13,14) [OF st Some]
    have "sb_size (sc_blocks s ! i) < offset + sz \<longleftrightarrow>
        sb_size (sc_blocks s ! i) < offset \<or> sb_size (sc_blocks s ! i) - offset < sz" by auto
    then show ?thesis using Some V by (auto simp: validate_access_def request_error_def)
  qed
  show "validate_access h pointer offset sz s = Inl e \<Longrightarrow> e = request_error h pointer offset sz (scma_contents s) \<and> e \<noteq> FT_ERR_SUCCESS"
    "validate_access h pointer offset sz s = Inr i \<Longrightarrow> request_error h pointer offset sz (scma_contents s) = FT_ERR_SUCCESS
       \<and> scma_validate_handle h s = Some i \<and> pointer \<noteq> None \<and> offset + sz \<le> sb_size (sc_blocks s ! i)"
    using both by auto
qed

definition write_error :: "(scma_handle \<Rightarrow> bytes option) \<Rightarrow> scma_write_request \<Rightarrow> ft_err" where
  "write_error m r = request_error (sw_handle r) (sw_source r) (sw_offset r) (sw_size r) m"

definition read_error :: "(scma_handle \<Rightarrow> bytes option) \<Rightarrow> scma_read_request \<Rightarrow> ft_err" where
  "read_error m r = request_error (sr_handle r) (sr_destination r) (sr_offset r) (sr_size r) m"

definition first_error :: "ft_err list \<Rightarrow> ft_err" where
  "first_error es = (case dropWhile (\<lambda>e. e = FT_ERR_SUCCESS) es of [] \<Rightarrow> FT_ERR_SUCCESS | e # _ \<Rightarrow> e)"

lemma first_error_success: "first_error es = FT_ERR_SUCCESS \<longleftrightarrow> (\<forall>e \<in> set es. e = FT_ERR_SUCCESS)"
  by (induction es) (auto simp: first_error_def)

lemma validate_batches:
  assumes "settled D s ls fs"
  shows "validate_writes ws s = first_error (map (write_error (scma_contents s)) ws)"
    "validate_reads rs s = first_error (map (read_error (scma_contents s)) rs)"
proof -
  note A = validate_access_contents [OF assms]
  show "validate_writes ws s = first_error (map (write_error (scma_contents s)) ws)"
  proof (induction ws)
    case (Cons w ws)
    then show ?case
      using A [of "sw_handle w" "sw_source w" "sw_offset w" "sw_size w"]
      by (cases "scma_validate_write_request w s")
        (auto simp: scma_validate_write_request_def write_error_def first_error_def)
  qed (simp add: first_error_def)
  show "validate_reads rs s = first_error (map (read_error (scma_contents s)) rs)"
  proof (induction rs)
    case (Cons r rs)
    then show ?case
      using A [of "sr_handle r" "sr_destination r" "sr_offset r" "sr_size r"]
      by (cases "scma_validate_read_request r s")
        (auto simp: scma_validate_read_request_def read_error_def first_error_def)
  qed (simp add: first_error_def)
qed

lemma access_granted:
  assumes "settled D s ls fs" "request_error h p offset sz (scma_contents s) = FT_ERR_SUCCESS"
  obtains i where "validate_access h p offset sz s = Inr i" "scma_validate_handle h s = Some i"
    "offset + sz \<le> sb_size (sc_blocks s ! i)"
  using validate_access_contents [OF assms(1), of h p offset sz] assms(2)
  by (cases "validate_access h p offset sz s") auto

text \<open>A store inside a block.\<close>

lemma store_slice:
  fixes h :: "'a list"
  assumes "a + z \<le> length h" "k + length xs \<le> z"
  shows "take z (drop a (store (a + k) xs h)) = store k xs (take z (drop a h))"
proof (rule nth_equalityI)
  have fit: "a + k + length xs \<le> length h" "k + length xs \<le> length (take z (drop a h))" using assms by simp_all
  show "length (take z (drop a (store (a + k) xs h))) = length (store k xs (take z (drop a h)))"
    using store_simps(1) [OF fit(1)] store_simps(1) [OF fit(2)] by simp
  fix p assume "p < length (take z (drop a (store (a + k) xs h)))"
  then have p: "p < z" "a + p < length h" using store_simps(1) [OF fit(1)] assms(1) by simp_all
  have "store k xs (take z (drop a h)) ! p = (if k \<le> p \<and> p < k + length xs then xs ! (p - k) else take z (drop a h) ! p)"
    by (rule store_simps(2) [OF fit(2)]) (use p in simp)
  then show "take z (drop a (store (a + k) xs h)) ! p = store k xs (take z (drop a h)) ! p"
    using store_simps(2) [OF fit(1) p(2)] store_simps(1) [OF fit(1)] p assms(1) by auto
qed

lemma store_effect:
  assumes st: "settled D s ls fs" and v: "scma_validate_handle h s = Some i"
    and fit: "k + length xs \<le> sb_size (sc_blocks s ! i)"
  defines "s1 \<equiv> s\<lparr>sc_heap := store (sb_offset (sc_blocks s ! i) + k) xs (sc_heap s)\<rparr>"
  shows "heap_store (sb_offset (sc_blocks s ! i) + k) xs s = Some s1" "settled D s1 ls fs"
    "scma_contents s1 = (scma_contents s)(h \<mapsto> store k xs (block_bytes s i))"
proof -
  note S = settledD [OF st] and V = validate_live [OF st v]
  note C = coreD [OF S(1)]
  let ?b = "sc_blocks s" and ?o = "sb_offset (sc_blocks s ! i)" and ?z = "sb_size (sc_blocks s ! i)"
  have e: "?o + ?z \<le> length (sc_heap s)" using V(9,10) by (simp add: block_end_def)
  have f: "?o + k + length xs \<le> length (sc_heap s)" using e fit by simp
  note H = store_simps [OF f]
  show "heap_store (?o + k) xs s = Some s1" using f by (simp add: heap_store_def s1_def store_def)
  have "core s1 ls" using S(1) H(1) by (simp add: core_def dlist_def s1_def)
  moreover have "free_ok s1 fs" using S(2) H(1) by (simp add: free_ok_def s1_def)
  moreover have "wiped D s1"
    by (rule wiped_mono [OF S(5)]) (use H(1,2) V(1) fit in \<open>auto simp: s1_def extent_def block_end_def\<close>)
  ultimately show "settled D s1 ls fs" using S(3,4) by (simp add: settled_def s1_def)
  have ok: "others_kept i s s1"
  proof (rule others_keptI)
    show "agree_off i ?b (sc_blocks s1)" by (simp add: agree_off_def s1_def)
    fix j assume j: "j \<in> live_set ?b" "j \<noteq> i"
    have "take (sb_size (?b ! j)) (drop (sb_offset (?b ! j)) (store (?o + k) xs (sc_heap s))) = block_bytes s j"
      unfolding block_bytes_def
      by (rule H(3)) (use layoutD(3) [OF C(2) V(1) j(1)] j(2) fit in \<open>auto simp: apart_def block_end_def\<close>)
    then show "take (sb_size (?b ! j)) (drop (sb_offset (?b ! j)) (sc_heap s1)) = block_bytes s j" by (simp add: s1_def)
  qed (simp add: s1_def)
  have "scma_contents s1 = (scma_contents s)(h \<mapsto> block_bytes s1 i)"
    using contents_change [OF ok C(1) V(7) V(6) [symmetric]] V(1,8) by (simp add: s1_def)
  moreover have "block_bytes s1 i = store k xs (block_bytes s i)"
    using store_slice [OF e fit] by (simp add: block_bytes_def s1_def)
  ultimately show "scma_contents s1 = (scma_contents s)(h \<mapsto> store k xs (block_bytes s i))" by simp
qed

lemma request_error_write:
  assumes "write_error m w = FT_ERR_SUCCESS" "readable (sw_source w) (sw_size w)"
  shows "request_error h p offset sz (write_request w m) = request_error h p offset sz m"
proof -
  obtain old where old: "m (sw_handle w) = Some old" "sw_offset w + sw_size w \<le> length old"
    using assms(1) by (auto simp: write_error_def request_error_def split: option.splits if_splits)
  have "length (store (sw_offset w) (span_bytes (sw_source w) (sw_size w)) old) = length old"
    by (rule store_simps(1)) (use old(2) assms(2) in \<open>simp add: readable_def\<close>)
  then show ?thesis using old(1) by (auto simp: write_request_def request_error_def)
qed

lemma copy_writes_effect:
  assumes "settled D s ls fs" "\<forall>w \<in> set ws. write_error (scma_contents s) w = FT_ERR_SUCCESS"
    "\<forall>w \<in> set ws. readable (sw_source w) (sw_size w)"
  shows "\<exists>s1. copy_writes ws s = Some s1 \<and> settled D s1 ls fs \<and> scma_contents s1 = fold write_request ws (scma_contents s)"
  using assms
proof (induction ws arbitrary: s)
  case (Cons w ws)
  have w: "write_error (scma_contents s) w = FT_ERR_SUCCESS" "readable (sw_source w) (sw_size w)" using Cons.prems by auto
  have we: "request_error (sw_handle w) (sw_source w) (sw_offset w) (sw_size w) (scma_contents s) = FT_ERR_SUCCESS"
    using w(1) by (simp add: write_error_def)
  obtain i where i: "validate_access (sw_handle w) (sw_source w) (sw_offset w) (sw_size w) s = Inr i"
    "scma_validate_handle (sw_handle w) s = Some i" "sw_offset w + sw_size w \<le> sb_size (sc_blocks s ! i)"
    by (rule access_granted [OF Cons.prems(1) we])
  let ?xs = "span_bytes (sw_source w) (sw_size w)"
  have "length ?xs = sw_size w" using w(2) by (simp add: readable_def)
  then have fit: "sw_offset w + length ?xs \<le> sb_size (sc_blocks s ! i)" using i(3) by simp
  define s1 where "s1 = s\<lparr>sc_heap := store (sb_offset (sc_blocks s ! i) + sw_offset w) ?xs (sc_heap s)\<rparr>"
  note E = store_effect [OF Cons.prems(1) i(2) fit, folded s1_def]
  have m1: "scma_contents s1 = write_request w (scma_contents s)"
    using E(3) validate_live(13) [OF Cons.prems(1) i(2)] by (simp add: write_request_def)
  have "\<forall>v \<in> set ws. write_error (scma_contents s1) v = FT_ERR_SUCCESS"
    using Cons.prems(2) request_error_write [OF w] unfolding m1 write_error_def by simp
  then obtain s2 where "copy_writes ws s1 = Some s2" "settled D s2 ls fs" "scma_contents s2 = fold write_request ws (scma_contents s1)"
    using Cons.IH [OF E(2)] Cons.prems(3) by auto
  then show ?case using i(1) w(2) E(1) m1 by (simp add: scma_validate_write_request_def)
qed simp

definition read_result :: "(scma_handle \<Rightarrow> bytes option) \<Rightarrow> scma_read_request \<Rightarrow> bytes" where
  "read_result m r = take (sr_size r) (drop (sr_offset r) (the (m (sr_handle r))))
     @ drop (sr_size r) (the (sr_destination r))"

lemma copy_reads_effect:
  assumes "settled D s ls fs" "\<forall>r \<in> set rs. read_error (scma_contents s) r = FT_ERR_SUCCESS"
    "\<forall>r \<in> set rs. readable (sr_destination r) (sr_size r)"
  shows "copy_reads rs s = Some (map (read_result (scma_contents s)) rs)"
  using assms(2,3)
proof (induction rs)
  case (Cons r rs)
  have re: "request_error (sr_handle r) (sr_destination r) (sr_offset r) (sr_size r) (scma_contents s) = FT_ERR_SUCCESS"
    using Cons.prems(1) by (simp add: read_error_def)
  obtain i where i: "validate_access (sr_handle r) (sr_destination r) (sr_offset r) (sr_size r) s = Inr i"
    "scma_validate_handle (sr_handle r) s = Some i" "sr_offset r + sr_size r \<le> sb_size (sc_blocks s ! i)"
    by (rule access_granted [OF assms(1) re])
  note V = validate_live [OF assms(1) i(2)]
  obtain d where d: "sr_destination r = Some d" using re by (auto simp: request_error_def split: option.splits if_splits)
  have len: "sr_size r \<le> length d" using Cons.prems(2) d by simp
  have "sb_offset (sc_blocks s ! i) + sb_size (sc_blocks s ! i) \<le> length (sc_heap s)"
    using V(9,10) by (simp add: block_end_def)
  then have "heap_load (sb_offset (sc_blocks s ! i) + sr_offset r) (sr_size r) s =
      Some (take (sr_size r) (drop (sr_offset r) (block_bytes s i)))"
    using i(3) by (simp add: heap_load_def block_bytes_def drop_take min_def add.commute)
  then show ?case
    using Cons i(1) d len V(13) by (simp add: scma_validate_read_request_def read_result_def)
qed simp

end
