(* ===== verification/Scma_Spec.thy ===== *)
theory Scma_Spec
  imports Scma_Calls
begin

text \<open>
  The contract of the compacting allocator: a map from handles to byte strings. Every call of \<open>Scma_Api\<close>
  is a step of the contract, whatever the order of calls and wherever memory runs out, the mutex cannot be
  locked or a handle is stale.
\<close>

subsection \<open>Calls\<close>

datatype scma_call =
    Initialize nat
  | Shutdown
  | Allocate nat
  | Free scma_handle
  | Resize scma_handle nat
  | Write_batch "scma_write_request list option" nat
  | Read_batch "scma_read_request list option" nat
  | Get_size scma_handle
  | Handle_is_valid scma_handle

datatype scma_result = Code ft_err | Done | Handle scma_handle | Data "bytes list" ft_err | Size nat | Valid bool

definition scma_exec :: "scma_env \<Rightarrow> scma_call \<Rightarrow> scma_state \<Rightarrow> (scma_state \<times> scma_result) option" where
  "scma_exec env c s =
     (case c of
        Initialize n \<Rightarrow> Some (map_prod id Code (scma_initialize env n s))
      | Shutdown \<Rightarrow> Some (scma_shutdown env s, Done)
      | Allocate sz \<Rightarrow> map_option (map_prod id Handle) (scma_allocate env sz s)
      | Free h \<Rightarrow> map_option (map_prod id Code) (scma_free env h s)
      | Resize h n \<Rightarrow> map_option (map_prod id Code) (scma_resize env h n s)
      | Write_batch rs k \<Rightarrow> map_option (map_prod id Code) (scma_write_batch env rs k s)
      | Read_batch rs k \<Rightarrow> map_option (\<lambda>(out, e). (s, Data out e)) (scma_read_batch env rs k s)
      | Get_size h \<Rightarrow> Some (s, Size (scma_get_size env h s))
      | Handle_is_valid h \<Rightarrow> Some (s, Valid (scma_handle_is_valid env h s)))"

fun run_calls :: "('c \<Rightarrow> 's \<Rightarrow> ('s \<times> 'r) option) \<Rightarrow> 'c list \<Rightarrow> 's \<Rightarrow> ('s \<times> 'r list) option" where
  "run_calls exec [] s = Some (s, [])"
| "run_calls exec (c # cs) s =
     (case exec c s of
        None \<Rightarrow> None
      | Some (s1, r) \<Rightarrow>
          (case run_calls exec cs s1 of None \<Rightarrow> None | Some (s2, rs) \<Rightarrow> Some (s2, r # rs)))"

text \<open>
  A caller passes arrays at least as long as the counts it gives, and buffers that can be read or written.
\<close>

definition request_ok :: "scma_call \<Rightarrow> bool" where
  "request_ok c \<longleftrightarrow> (case c of
       Write_batch (Some ws) k \<Rightarrow> k \<le> length ws \<and> (\<forall>w \<in> set (take k ws). sw_source w = None \<or> readable (sw_source w) (sw_size w))
     | Read_batch (Some rs) k \<Rightarrow> k \<le> length rs \<and> (\<forall>r \<in> set (take k rs). sr_destination r = None \<or> readable (sr_destination r) (sr_size r))
     | _ \<Rightarrow> True)"

definition legal_call :: "u8 set \<Rightarrow> scma_env \<times> scma_call \<Rightarrow> bool" where
  "legal_call D ec \<longleftrightarrow> 0 \<in> D \<and> scma_env_ok (fst ec) \<and> fresh_from (fst ec) D \<and> request_ok (snd ec)"

subsection \<open>The contract\<close>

type_synonym scma_view = "bool \<times> (scma_handle \<Rightarrow> bytes option)"

definition unlocked_result :: "scma_call \<Rightarrow> scma_result" where
  "unlocked_result c = (case c of Shutdown \<Rightarrow> Done | Allocate sz \<Rightarrow> Handle scma_invalid_handle
     | Read_batch rs k \<Rightarrow> Data [] FT_ERR_SYS_MUTEX_LOCK_FAILED | Get_size h \<Rightarrow> Size 0 | Handle_is_valid h \<Rightarrow> Valid False
     | _ \<Rightarrow> Code FT_ERR_SYS_MUTEX_LOCK_FAILED)"

text \<open>
  One step: \<open>lk\<close> tells whether the mutex can be locked, \<open>D\<close> which bytes new memory may hold.
\<close>

inductive scma_step :: "u8 set \<Rightarrow> bool \<Rightarrow> scma_call \<Rightarrow> scma_result \<Rightarrow> scma_view \<Rightarrow> scma_view \<Rightarrow> bool" for D where
  Init: "scma_step D True (Initialize n) (Code FT_ERR_SUCCESS) (False, m) (True, Map.empty)"
| Init_fail: "e \<noteq> FT_ERR_SUCCESS \<Longrightarrow> scma_step D lk (Initialize n) (Code e) a a"
| Shut: "scma_step D True Shutdown Done a (False, Map.empty)"
| Alloc: "\<lbrakk>0 < sz; \<not> scma_handle_is_invalid h; m h = None; length bs = sz; set bs \<subseteq> D\<rbrakk> \<Longrightarrow>
    scma_step D True (Allocate sz) (Handle h) (True, m) (True, m(h \<mapsto> bs))"
| Alloc_fail: "scma_step D lk (Allocate sz) (Handle scma_invalid_handle) a a"
| Freed: "m h = Some old \<Longrightarrow> scma_step D True (Free h) (Code FT_ERR_SUCCESS) (True, m) (True, m(h := None))"
| Free_stale: "snd a h = None \<Longrightarrow> scma_step D True (Free h) (Code FT_ERR_INVALID_HANDLE) a a"
| Resized: "\<lbrakk>0 < n; m h = Some old; length bs = n; take n old = take (length old) bs; set (drop (length old) bs) \<subseteq> D\<rbrakk> \<Longrightarrow>
    scma_step D True (Resize h n) (Code FT_ERR_SUCCESS) (True, m) (True, m(h \<mapsto> bs))"
| Resize_fail: "\<lbrakk>snd a h = Some old; length old < n; e \<in> {FT_ERR_NO_MEMORY, FT_ERR_OUT_OF_RANGE}\<rbrakk> \<Longrightarrow>
    scma_step D True (Resize h n) (Code e) a a"
| Resize_zero: "scma_step D True (Resize h 0) (Code FT_ERR_INVALID_ARGUMENT) a a"
| Resize_stale: "0 < n \<Longrightarrow> snd a h = None \<Longrightarrow> scma_step D True (Resize h n) (Code FT_ERR_INVALID_HANDLE) a a"
| Written: "first_error (map (write_error m) (take k ws)) = FT_ERR_SUCCESS \<Longrightarrow>
    scma_step D True (Write_batch (Some ws) k) (Code FT_ERR_SUCCESS) (on, m) (on, fold write_request (take k ws) m)"
| Write_refused: "\<lbrakk>e = first_error (map (write_error (snd a)) (take k ws)); e \<noteq> FT_ERR_SUCCESS\<rbrakk> \<Longrightarrow>
    scma_step D True (Write_batch (Some ws) k) (Code e) a a"
| Write_null: "scma_step D True (Write_batch None k) (Code (if k = 0 then FT_ERR_SUCCESS else FT_ERR_INVALID_POINTER)) a a"
| Read: "first_error (map (read_error (snd a)) (take k rs)) = FT_ERR_SUCCESS \<Longrightarrow>
    scma_step D True (Read_batch (Some rs) k) (Data (map (read_result (snd a)) (take k rs)) FT_ERR_SUCCESS) a a"
| Read_refused: "\<lbrakk>e = first_error (map (read_error (snd a)) (take k rs)); e \<noteq> FT_ERR_SUCCESS\<rbrakk> \<Longrightarrow>
    scma_step D True (Read_batch (Some rs) k) (Data [] e) a a"
| Read_null: "scma_step D True (Read_batch None k) (Data [] (if k = 0 then FT_ERR_SUCCESS else FT_ERR_INVALID_POINTER)) a a"
| Size_of: "scma_step D True (Get_size h) (Size (case snd a h of None \<Rightarrow> 0 | Some bs \<Rightarrow> length bs)) a a"
| Valid_if: "scma_step D True (Handle_is_valid h) (Valid (snd a h \<noteq> None)) a a"
| Unlocked: "scma_step D False c (unlocked_result c) a a"

fun trace :: "('c \<Rightarrow> 'r \<Rightarrow> 'a \<Rightarrow> 'a \<Rightarrow> bool) \<Rightarrow> 'c list \<Rightarrow> 'r list \<Rightarrow> 'a \<Rightarrow> 'a \<Rightarrow> bool" where
  "trace step [] [] a b \<longleftrightarrow> a = b"
| "trace step (c # cs) (r # rs) a b \<longleftrightarrow> (\<exists>m. step c r a m \<and> trace step cs rs m b)"
| "trace step _ _ a b \<longleftrightarrow> False"

subsection \<open>Components that refine a contract, call by call\<close>

locale refining_calls =
  fixes ok :: "'s \<Rightarrow> bool" and legal :: "'c \<Rightarrow> bool" and exec :: "'c \<Rightarrow> 's \<Rightarrow> ('s \<times> 'r) option"
    and view :: "'s \<Rightarrow> 'a" and step :: "'c \<Rightarrow> 'r \<Rightarrow> 'a \<Rightarrow> 'a \<Rightarrow> bool"
  assumes refines: "ok s \<Longrightarrow> legal c \<Longrightarrow> \<exists>s1 r. exec c s = Some (s1, r) \<and> ok s1 \<and> step c r (view s) (view s1)"
begin

lemma run_refines:
  assumes "ok s" "\<forall>c \<in> set cs. legal c"
  shows "\<exists>s1 rs. run_calls exec cs s = Some (s1, rs) \<and> ok s1 \<and> trace step cs rs (view s) (view s1)"
  using assms
proof (induction cs arbitrary: s)
  case (Cons c cs)
  obtain s1 r where "exec c s = Some (s1, r)" "ok s1" "step c r (view s) (view s1)"
    using refines [of s c] Cons.prems by auto
  moreover obtain s2 rs where "run_calls exec cs s1 = Some (s2, rs)" "ok s2" "trace step cs rs (view s1) (view s2)"
    using Cons.IH [OF \<open>ok s1\<close>] Cons.prems(2) by auto
  ultimately show ?case by auto
qed simp

lemma run_ok: "ok s \<Longrightarrow> \<forall>c \<in> set cs. legal c \<Longrightarrow> run_calls exec cs s = Some (s1, rs) \<Longrightarrow> ok s1"
  using run_refines by fastforce

end

subsection \<open>The allocator refines its contract\<close>

definition scma_ok :: "u8 set \<Rightarrow> scma_state \<Rightarrow> bool" where
  "scma_ok D s \<longleftrightarrow> s = scma_state_initial \<or> (\<exists>ls fs. settled D s ls fs)"

definition scma_view :: "scma_state \<Rightarrow> scma_view" where
  "scma_view s = (sc_initialised s, scma_contents s)"

lemma contents_off: "\<not> sc_initialised s \<Longrightarrow> scma_contents s = Map.empty"
  by (rule ext) (simp add: scma_contents_def scma_validate_handle_def)

lemma initial_off [simp]: "\<not> sc_initialised scma_state_initial" "scma_validate_handle h scma_state_initial = None"
  by (simp_all add: scma_state_initial_def scma_validate_handle_def)

lemma scma_ok_cases:
  assumes "scma_ok D s"
  obtains "s = scma_state_initial" "\<not> sc_initialised s" "scma_contents s = Map.empty"
    | ls fs where "settled D s ls fs" "sc_initialised s"
  using assms contents_off [of scma_state_initial] coreD(1) settledD(1) unfolding scma_ok_def
  by (metis initial_off(1))

lemma view_simps:
  "sc_initialised s \<Longrightarrow> scma_view s = (True, scma_contents s)"
  "snd (scma_view s) = scma_contents s" "same_blocks s s1 \<Longrightarrow> scma_view s1 = scma_view s"
  using same_blocks_contents by (auto simp: scma_view_def same_blocks_def)

definition call_refined :: "u8 set \<Rightarrow> scma_env \<Rightarrow> scma_call \<Rightarrow> scma_state \<Rightarrow> bool" where
  "call_refined D env c s \<longleftrightarrow> (\<exists>s1 r. scma_exec env c s = Some (s1, r) \<and> scma_ok D s1
     \<and> scma_step D (se_lock env) c r (scma_view s) (scma_view s1))"

lemma call_refinedI:
  "scma_exec env c s = Some (s1, r) \<Longrightarrow> scma_ok D s1 \<Longrightarrow>
     scma_step D (se_lock env) c r (scma_view s) (scma_view s1) \<Longrightarrow> call_refined D env c s"
  by (auto simp: call_refined_def)

text \<open>Lifecycle.\<close>

lemma initialize_settled:
  assumes "scma_env_ok env" "fresh_from env D" "se_malloc env n = Some hp" "n \<le> FT_SYSTEM_SIZE_MAX"
  defines "s \<equiv> \<lparr>sc_heap = hp, sc_blocks = [], sc_block_capacity = 0, sc_used = 0, sc_live = 0, sc_head = None,
    sc_tail = None, sc_free = None, sc_needed = False, sc_cursor = None, sc_target = 0, sc_initialised = True\<rparr>"
  shows "settled D s [] []" "scma_contents s = Map.empty"
proof -
  have len: "length hp = n" "set hp \<subseteq> D" using assms(1-3) by (auto simp: scma_env_ok_def fresh_from_def)
  have "core s []"
    using len assms(4) by (simp add: core_def s_def layout_def live_set_def dlist_def total_size_def)
  moreover have "wiped D s" using len by (auto simp: wiped_def s_def live_set_def)
  ultimately show "settled D s [] []" by (simp add: settled_def free_ok_def s_def)
  show "scma_contents s = Map.empty"
    by (rule ext) (simp add: scma_contents_def scma_validate_handle_def s_def)
qed

lemma initialize_refined:
  assumes ok: "scma_ok D s" and env: "scma_env_ok env" "fresh_from env D"
  shows "call_refined D env (Initialize n) s"
proof (rule scma_ok_cases [OF ok])
  assume s: "s = scma_state_initial" "\<not> sc_initialised s" "scma_contents s = Map.empty"
  define c where "c = (if n = 0 then 1024 else n)"
  have fail: "call_refined D env (Initialize n) s" if "scma_initialize env n s = (s, e)" "e \<noteq> FT_ERR_SUCCESS" for e
    by (rule call_refinedI [of _ _ _ s "Code e"])
      (use that ok scma_step.Init_fail in \<open>auto simp: scma_exec_def\<close>)
  show ?thesis
  proof (cases "se_thread_safety env = FT_ERR_SUCCESS \<and> se_lock env \<and> c \<le> FT_SYSTEM_SIZE_MAX \<and> se_malloc env c \<noteq> None")
    case True
    then obtain hp where hp: "se_malloc env c = Some hp" "c \<le> FT_SYSTEM_SIZE_MAX" by auto
    note I = initialize_settled [OF env hp]
    show ?thesis
    proof (rule call_refinedI)
      show "scma_exec env (Initialize n) s = Some (\<lparr>sc_heap = hp, sc_blocks = [], sc_block_capacity = 0, sc_used = 0,
          sc_live = 0, sc_head = None, sc_tail = None, sc_free = None, sc_needed = False, sc_cursor = None,
          sc_target = 0, sc_initialised = True\<rparr>, Code FT_ERR_SUCCESS)"
        using True hp s(2) by (simp add: scma_exec_def scma_initialize_def Let_def c_def [symmetric])
    qed (use I True s scma_step.Init in \<open>auto simp: scma_ok_def scma_view_def\<close>)
  next
    case False
    have "s\<lparr>sc_heap := []\<rparr> = s" using s(1) by (simp add: scma_state_initial_def)
    then have "\<exists>e. scma_initialize env n s = (s, e) \<and> e \<noteq> FT_ERR_SUCCESS"
      using False s(2) by (auto simp: scma_initialize_def Let_def c_def [symmetric] split: option.splits)
    then show ?thesis using fail by blast
  qed
next
  fix ls fs assume "settled D s ls fs" "sc_initialised s"
  then obtain e where "scma_initialize env n s = (s, e)" "e \<noteq> FT_ERR_SUCCESS"
    by (cases "se_thread_safety env = FT_ERR_SUCCESS"; cases "se_lock env") (auto simp: scma_initialize_def)
  then show ?thesis
    by (intro call_refinedI [of _ _ _ s "Code e"]) (use ok scma_step.Init_fail in \<open>auto simp: scma_exec_def\<close>)
qed

lemma shutdown_refined:
  assumes ok: "scma_ok D s"
  shows "call_refined D env Shutdown s"
proof -
  have v: "scma_view scma_state_initial = (False, Map.empty)"
    using contents_off [of scma_state_initial] by (simp add: scma_view_def)
  show ?thesis
  proof (cases "se_lock env")
    case True
    have "scma_shutdown env s = scma_state_initial"
      using True ok by (auto simp: scma_shutdown_def elim: scma_ok_cases)
    then show ?thesis
      using True v scma_step.Shut [of D "scma_view s"] by (intro call_refinedI) (auto simp: scma_exec_def scma_ok_def)
  next
    case False
    then have "scma_shutdown env s = s" "unlocked_result Shutdown = Done"
      by (simp_all add: scma_shutdown_def unlocked_result_def)
    then show ?thesis
      using False ok scma_step.Unlocked [of D Shutdown "scma_view s"]
      by (intro call_refinedI [of _ _ _ s Done]) (auto simp: scma_exec_def)
  qed
qed

lemma allocate_refined:
  assumes ok: "scma_ok D s" and env: "scma_env_ok env" "fresh_from env D" "0 \<in> D"
  shows "call_refined D env (Allocate sz) s"
proof (rule scma_ok_cases [OF ok])
  assume "s = scma_state_initial" "\<not> sc_initialised s"
  then show ?thesis
    using ok scma_step.Alloc_fail
    by (intro call_refinedI [of _ _ _ s "Handle scma_invalid_handle"]) (auto simp: scma_exec_def scma_allocate_def)
next
  fix ls fs assume st: "settled D s ls fs" "sc_initialised s"
  obtain s1 h ms gs where a: "scma_allocate env sz s = Some (s1, h)" "settled D s1 ms gs"
    "h = scma_invalid_handle \<and> same_blocks s s1 \<or> se_lock env \<and> 0 < sz \<and> allocated D s sz s1 h"
    using allocate_effect [OF env(1,2) st(1) env(3)] by blast
  have ex: "scma_exec env (Allocate sz) s = Some (s1, Handle h)" "scma_ok D s1"
    using a(1,2) by (auto simp: scma_exec_def scma_ok_def)
  have v1: "scma_view s1 = (True, scma_contents s1)" using view_simps(1) coreD(1) settledD(1) a(2) by blast
  from a(3) show ?thesis
  proof
    assume "h = scma_invalid_handle \<and> same_blocks s s1"
    then show ?thesis using call_refinedI [OF ex] scma_step.Alloc_fail view_simps(3) [of s s1] by auto
  next
    assume al: "se_lock env \<and> 0 < sz \<and> allocated D s sz s1 h"
    then obtain bs where "length bs = sz" "set bs \<subseteq> D" "scma_contents s1 = (scma_contents s)(h \<mapsto> bs)"
      unfolding allocated_def by blast
    then have "scma_step D True (Allocate sz) (Handle h) (True, scma_contents s) (True, scma_contents s1)"
      using al scma_step.Alloc [of sz h "scma_contents s" bs] by (simp add: allocated_def)
    then show ?thesis using call_refinedI [OF ex] al v1 view_simps(1) [OF st(2)] by simp
  qed
qed

text \<open>A call that returns an error and changes nothing.\<close>

lemma unchanged:
  assumes "scma_ok D s" "scma_exec env c s = Some (s, r)" "scma_step D (se_lock env) c r (scma_view s) (scma_view s)"
  shows "call_refined D env c s"
  using call_refinedI [OF assms(2,1,3)] .

lemma unlocked_refined:
  assumes "scma_ok D s" "\<not> se_lock env" "\<And>n. c \<noteq> Initialize n"
  shows "call_refined D env c s"
proof (rule unchanged [OF assms(1)])
  show "scma_exec env c s = Some (s, unlocked_result c)"
    using assms(2,3) by (cases c) (auto simp: scma_exec_def unlocked_result_def scma_shutdown_def scma_allocate_def
      scma_free_def scma_resize_def scma_write_batch_def scma_read_batch_def scma_get_size_def scma_handle_is_valid_def)
  show "scma_step D (se_lock env) c (unlocked_result c) (scma_view s) (scma_view s)"
    using assms(2) scma_step.Unlocked by auto
qed

lemma stale_contents: "scma_contents s h = None \<longleftrightarrow> scma_validate_handle h s = None"
  by (simp add: scma_contents_def)

lemma free_refined:
  assumes ok: "scma_ok D s" and z: "0 \<in> D"
  shows "call_refined D env (Free h) s"
proof -
  consider "\<not> se_lock env" | "se_lock env" "scma_validate_handle h s = None"
    | i where "se_lock env" "scma_validate_handle h s = Some i" by (cases "scma_validate_handle h s") auto
  then show ?thesis
  proof cases
    case 1
    then show ?thesis by (intro unlocked_refined [OF ok]) simp_all
  next
    case 2
    have "scma_exec env (Free h) s = Some (s, Code FT_ERR_INVALID_HANDLE)"
      using 2 by (simp add: scma_exec_def scma_free_def)
    moreover have "scma_step D True (Free h) (Code FT_ERR_INVALID_HANDLE) (scma_view s) (scma_view s)"
      by (rule scma_step.Free_stale) (use 2 in \<open>simp add: view_simps(2) stale_contents\<close>)
    ultimately show ?thesis using 2 by (intro unchanged [OF ok]) auto
  next
    case 3
    obtain ls fs where st: "settled D s ls fs" "sc_initialised s"
      by (rule scma_ok_cases [OF ok]) (use 3 in \<open>auto simp: validate_handle_iff\<close>)
    obtain s1 ms gs where f: "scma_free env h s = Some (s1, FT_ERR_SUCCESS)" "settled D s1 ms gs"
      "scma_contents s1 = (scma_contents s)(h := None)" using free_effect [OF st(1) z 3(2,1)] by blast
    have "scma_view s1 = (True, (scma_contents s)(h := None))"
      using view_simps(1) coreD(1) settledD(1) [OF f(2)] f(3) by metis
    moreover have "scma_step D True (Free h) (Code FT_ERR_SUCCESS) (True, scma_contents s) (True, (scma_contents s)(h := None))"
      by (rule scma_step.Freed) (rule validate_live(13) [OF st(1) 3(2)])
    ultimately show ?thesis
      using f(1,2) 3(1) view_simps(1) [OF st(2)] by (intro call_refinedI) (auto simp: scma_exec_def scma_ok_def)
  qed
qed

lemma resize_refined:
  assumes ok: "scma_ok D s" and env: "scma_env_ok env" "fresh_from env D" "0 \<in> D"
  shows "call_refined D env (Resize h n) s"
proof -
  consider "\<not> se_lock env" | "se_lock env" "n = 0" | "se_lock env" "0 < n" "scma_validate_handle h s = None"
    | i where "se_lock env" "0 < n" "scma_validate_handle h s = Some i" by (cases "scma_validate_handle h s") auto
  then show ?thesis
  proof cases
    case 1
    then show ?thesis by (intro unlocked_refined [OF ok]) simp_all
  next
    case 2
    have "scma_exec env (Resize h n) s = Some (s, Code FT_ERR_INVALID_ARGUMENT)"
      using 2 by (simp add: scma_exec_def scma_resize_def)
    then show ?thesis using 2 scma_step.Resize_zero [of D h "scma_view s"] by (intro unchanged [OF ok]) auto
  next
    case 3
    have "scma_exec env (Resize h n) s = Some (s, Code FT_ERR_INVALID_HANDLE)"
      using 3 by (simp add: scma_exec_def scma_resize_def)
    moreover have "scma_step D True (Resize h n) (Code FT_ERR_INVALID_HANDLE) (scma_view s) (scma_view s)"
      by (rule scma_step.Resize_stale) (use 3 in \<open>simp_all add: view_simps(2) stale_contents\<close>)
    ultimately show ?thesis using 3 by (intro unchanged [OF ok]) auto
  next
    case 4
    obtain ls fs where st: "settled D s ls fs" "sc_initialised s"
      by (rule scma_ok_cases [OF ok]) (use 4 in \<open>auto simp: validate_handle_iff\<close>)
    note V = validate_live(13,14) [OF st(1) 4(3)]
    obtain t e where t: "scma_resize env h n s = Some (t, e)" "resize_outcome D s h n t e"
      "n \<le> sb_size (sc_blocks s ! i) \<longrightarrow> e = FT_ERR_SUCCESS"
      using resize_effect [OF env(1,2) st(1) env(3) 4(3,1,2)] by blast
    obtain ms gs where st1: "settled D t ms gs" using t(2) by (auto simp: resize_outcome_def)
    have vt: "scma_view t = (True, scma_contents t)" using view_simps(1) coreD(1) settledD(1) [OF st1] by blast
    have "scma_step D True (Resize h n) (Code e) (True, scma_contents s) (True, scma_contents t)"
    proof (cases "e = FT_ERR_SUCCESS")
      case True
      then obtain old bs where "scma_contents s h = Some old" "length bs = n" "take n old = take (length old) bs"
        "set (drop (length old) bs) \<subseteq> D" "scma_contents t = (scma_contents s)(h \<mapsto> bs)"
        using t(2) unfolding resize_outcome_def resized_def by auto
      then show ?thesis using True 4(2) scma_step.Resized [of n "scma_contents s" h old bs] by simp
    next
      case False
      then have e: "e \<in> {FT_ERR_NO_MEMORY, FT_ERR_OUT_OF_RANGE}" "scma_contents t = scma_contents s"
        using t(2) unfolding resize_outcome_def by blast+
      have "length (block_bytes s i) < n" using False t(3) V(2) by auto
      then show ?thesis
        using scma_step.Resize_fail [of "(True, scma_contents s)" h "block_bytes s i" n e] V(1) e by simp
    qed
    then show ?thesis
      using t(1) st1 4(1) vt view_simps(1) [OF st(2)] by (intro call_refinedI) (auto simp: scma_exec_def scma_ok_def)
  qed
qed

text \<open>Before the first initialisation every request is stale.\<close>

lemma off_batches:
  "validate_writes ws scma_state_initial = first_error (map (write_error Map.empty) ws)"
  "validate_reads rs scma_state_initial = first_error (map (read_error Map.empty) rs)"
proof -
  show "validate_writes ws scma_state_initial = first_error (map (write_error Map.empty) ws)"
    by (cases ws) (simp_all add: first_error_def scma_validate_write_request_def validate_access_def write_error_def
      request_error_def)
  show "validate_reads rs scma_state_initial = first_error (map (read_error Map.empty) rs)"
    by (cases rs) (simp_all add: first_error_def scma_validate_read_request_def validate_access_def read_error_def
      request_error_def)
qed

lemma ok_batches:
  assumes "scma_ok D s"
  shows "validate_writes ws s = first_error (map (write_error (scma_contents s)) ws)"
    "validate_reads rs s = first_error (map (read_error (scma_contents s)) rs)"
  using assms validate_batches off_batches contents_off [of scma_state_initial] by (auto simp: scma_ok_def)

lemma ok_copy_writes:
  assumes ok: "scma_ok D s" and e: "first_error (map (write_error (scma_contents s)) ws) = FT_ERR_SUCCESS"
    and src: "\<forall>w \<in> set ws. sw_source w = None \<or> readable (sw_source w) (sw_size w)"
  shows "\<exists>s1. copy_writes ws s = Some s1 \<and> scma_ok D s1 \<and> sc_initialised s1 = sc_initialised s
    \<and> scma_contents s1 = fold write_request ws (scma_contents s)"
proof -
  have all: "\<forall>w \<in> set ws. write_error (scma_contents s) w = FT_ERR_SUCCESS" using e unfolding first_error_success by auto
  then have rd: "\<forall>w \<in> set ws. readable (sw_source w) (sw_size w)"
    using src by (fastforce simp: write_error_def request_error_def split: option.splits)
  show ?thesis
  proof (rule scma_ok_cases [OF ok])
    assume "s = scma_state_initial" "\<not> sc_initialised s" "scma_contents s = Map.empty"
    then have "ws = []" using all by (cases ws) (auto simp: write_error_def request_error_def)
    then show ?thesis using ok by simp
  next
    fix ls fs assume st: "settled D s ls fs" "sc_initialised s"
    then show ?thesis
      using copy_writes_effect [OF st(1) all rd] coreD(1) settledD(1) unfolding scma_ok_def by blast
  qed
qed

lemma ok_copy_reads:
  assumes ok: "scma_ok D s" and e: "first_error (map (read_error (scma_contents s)) rs) = FT_ERR_SUCCESS"
    and dst: "\<forall>r \<in> set rs. sr_destination r = None \<or> readable (sr_destination r) (sr_size r)"
  shows "copy_reads rs s = Some (map (read_result (scma_contents s)) rs)"
proof -
  have all: "\<forall>r \<in> set rs. read_error (scma_contents s) r = FT_ERR_SUCCESS" using e unfolding first_error_success by auto
  then have rd: "\<forall>r \<in> set rs. readable (sr_destination r) (sr_size r)"
    using dst by (fastforce simp: read_error_def request_error_def split: option.splits)
  show ?thesis
  proof (rule scma_ok_cases [OF ok])
    assume "s = scma_state_initial" "\<not> sc_initialised s" "scma_contents s = Map.empty"
    then have "rs = []" using all by (cases rs) (auto simp: read_error_def request_error_def)
    then show ?thesis by simp
  qed (use copy_reads_effect [OF _ all rd] in blast)
qed

lemma write_refined:
  assumes ok: "scma_ok D s" and c: "request_ok (Write_batch rs k)"
  shows "call_refined D env (Write_batch rs k) s"
proof (cases "se_lock env")
  case False
  then show ?thesis by (intro unlocked_refined [OF ok]) simp_all
next
  case lk: True
  show ?thesis
  proof (cases rs)
    case None
    then have "scma_exec env (Write_batch rs k) s = Some (s, Code (if k = 0 then FT_ERR_SUCCESS else FT_ERR_INVALID_POINTER))"
      using lk by (simp add: scma_exec_def scma_write_batch_def)
    then show ?thesis using lk None scma_step.Write_null [of D k "scma_view s"] by (intro unchanged [OF ok]) simp_all
  next
    case (Some ws)
    let ?ws = "take k ws"
    define e where "e = first_error (map (write_error (scma_contents s)) ?ws)"
    have k: "k \<le> length ws" "\<forall>w \<in> set ?ws. sw_source w = None \<or> readable (sw_source w) (sw_size w)"
      using c Some by (simp_all add: request_ok_def)
    have eq: "scma_write_batch env rs k s = (if e \<noteq> FT_ERR_SUCCESS then Some (s, e)
        else do { s1 \<leftarrow> copy_writes ?ws s; Some (s1, FT_ERR_SUCCESS) })"
      using lk Some k(1) ok_batches(1) [OF ok, of ?ws] by (simp add: scma_write_batch_def Let_def e_def)
    show ?thesis
    proof (cases "e = FT_ERR_SUCCESS")
      case True
      obtain s1 where s1: "copy_writes ?ws s = Some s1" "scma_ok D s1" "sc_initialised s1 = sc_initialised s"
        "scma_contents s1 = fold write_request ?ws (scma_contents s)"
        using ok_copy_writes [OF ok _ k(2)] True by (auto simp: e_def)
      have "scma_step D True (Write_batch (Some ws) k) (Code FT_ERR_SUCCESS) (scma_view s) (scma_view s1)"
        unfolding scma_view_def s1(3,4) by (rule scma_step.Written) (use True in \<open>simp add: e_def\<close>)
      then show ?thesis
        using eq True s1(1,2) lk Some by (intro call_refinedI [of _ _ _ s1 "Code FT_ERR_SUCCESS"]) (simp_all add: scma_exec_def)
    next
      case False
      have "scma_step D True (Write_batch (Some ws) k) (Code e) (scma_view s) (scma_view s)"
        by (rule scma_step.Write_refused) (use False in \<open>simp_all add: e_def view_simps(2)\<close>)
      then show ?thesis
        using eq False lk Some by (intro unchanged [OF ok, of _ _ "Code e"]) (simp_all add: scma_exec_def)
    qed
  qed
qed

lemma read_refined:
  assumes ok: "scma_ok D s" and c: "request_ok (Read_batch rs k)"
  shows "call_refined D env (Read_batch rs k) s"
proof (cases "se_lock env")
  case False
  then show ?thesis by (intro unlocked_refined [OF ok]) simp_all
next
  case lk: True
  show ?thesis
  proof (cases rs)
    case None
    then have "scma_exec env (Read_batch rs k) s = Some (s, Data [] (if k = 0 then FT_ERR_SUCCESS else FT_ERR_INVALID_POINTER))"
      using lk by (simp add: scma_exec_def scma_read_batch_def)
    then show ?thesis using lk None scma_step.Read_null [of D k "scma_view s"] by (intro unchanged [OF ok]) simp_all
  next
    case (Some qs)
    let ?qs = "take k qs"
    define e where "e = first_error (map (read_error (scma_contents s)) ?qs)"
    have k: "k \<le> length qs" "\<forall>r \<in> set ?qs. sr_destination r = None \<or> readable (sr_destination r) (sr_size r)"
      using c Some by (simp_all add: request_ok_def)
    have eq: "scma_read_batch env rs k s = (if e \<noteq> FT_ERR_SUCCESS then Some ([], e)
        else do { out \<leftarrow> copy_reads ?qs s; Some (out, FT_ERR_SUCCESS) })"
      using lk Some k(1) ok_batches(2) [OF ok, of ?qs] by (simp add: scma_read_batch_def Let_def e_def)
    show ?thesis
    proof (cases "e = FT_ERR_SUCCESS")
      case True
      have "copy_reads ?qs s = Some (map (read_result (scma_contents s)) ?qs)"
        using ok_copy_reads [OF ok _ k(2)] True by (simp add: e_def)
      moreover have "scma_step D True (Read_batch (Some qs) k) (Data (map (read_result (snd (scma_view s))) ?qs) FT_ERR_SUCCESS)
          (scma_view s) (scma_view s)"
        by (rule scma_step.Read) (use True in \<open>simp add: e_def view_simps(2)\<close>)
      ultimately show ?thesis
        using eq True lk Some
        by (intro unchanged [OF ok, of _ _ "Data (map (read_result (scma_contents s)) ?qs) FT_ERR_SUCCESS"])
          (simp_all add: scma_exec_def view_simps(2))
    next
      case False
      have "scma_step D True (Read_batch (Some qs) k) (Data [] e) (scma_view s) (scma_view s)"
        by (rule scma_step.Read_refused) (use False in \<open>simp_all add: e_def view_simps(2)\<close>)
      then show ?thesis
        using eq False lk Some by (intro unchanged [OF ok, of _ _ "Data [] e"]) (simp_all add: scma_exec_def)
    qed
  qed
qed

lemma query_refined:
  assumes ok: "scma_ok D s"
  shows "call_refined D env (Get_size h) s" "call_refined D env (Handle_is_valid h) s"
proof -
  have len: "(case scma_contents s h of None \<Rightarrow> 0 | Some bs \<Rightarrow> length bs)
      = (case scma_validate_handle h s of None \<Rightarrow> 0 | Some i \<Rightarrow> sb_size (sc_blocks s ! i))"
  proof (cases "scma_validate_handle h s")
    case None
    then show ?thesis by (simp add: scma_contents_def)
  next
    case (Some i)
    obtain ls fs where "settled D s ls fs"
      by (rule scma_ok_cases [OF ok]) (use Some in \<open>auto simp: validate_handle_iff\<close>)
    then show ?thesis using validate_live(13,14) Some by fastforce
  qed
  show "call_refined D env (Get_size h) s"
  proof (cases "se_lock env")
    case True
    then show ?thesis
      using scma_step.Size_of [of D h "scma_view s"] len
      by (intro unchanged [OF ok, of _ _ "Size (scma_get_size env h s)"])
        (simp_all add: scma_exec_def scma_get_size_def view_simps(2))
  qed (intro unlocked_refined [OF ok]; simp)
  show "call_refined D env (Handle_is_valid h) s"
  proof (cases "se_lock env")
    case True
    then show ?thesis
      using scma_step.Valid_if [of D h "scma_view s"]
      by (intro unchanged [OF ok, of _ _ "Valid (scma_handle_is_valid env h s)"])
        (simp_all add: scma_exec_def scma_handle_is_valid_def view_simps(2) stale_contents)
  qed (intro unlocked_refined [OF ok]; simp)
qed

lemma every_call_refined:
  assumes ok: "scma_ok D s" and legal: "legal_call D (env, c)"
  shows "call_refined D env c s"
proof -
  have env: "scma_env_ok env" "fresh_from env D" "0 \<in> D" "request_ok c" using legal by (simp_all add: legal_call_def)
  show ?thesis
  proof (cases c)
    case (Initialize n)
    then show ?thesis using initialize_refined [OF ok env(1,2)] by simp
  next
    case Shutdown
    then show ?thesis using shutdown_refined [OF ok] by simp
  next
    case (Allocate sz)
    then show ?thesis using allocate_refined [OF ok env(1-3)] by simp
  next
    case (Free h)
    then show ?thesis using free_refined [OF ok env(3)] by simp
  next
    case (Resize h n)
    then show ?thesis using resize_refined [OF ok env(1-3)] by simp
  next
    case (Write_batch rs k)
    then show ?thesis using write_refined [OF ok] env(4) by simp
  next
    case (Read_batch rs k)
    then show ?thesis using read_refined [OF ok] env(4) by simp
  qed (use query_refined [OF ok] in simp_all)
qed

definition exec_call :: "scma_env \<times> scma_call \<Rightarrow> scma_state \<Rightarrow> (scma_state \<times> scma_result) option" where
  "exec_call ec = scma_exec (fst ec) (snd ec)"

definition spec_call :: "u8 set \<Rightarrow> scma_env \<times> scma_call \<Rightarrow> scma_result \<Rightarrow> scma_view \<Rightarrow> scma_view \<Rightarrow> bool" where
  "spec_call D ec = scma_step D (se_lock (fst ec)) (snd ec)"

interpretation scma_calls: refining_calls "scma_ok D" "legal_call D" exec_call scma_view "spec_call D" for D
proof unfold_locales
  fix s ec
  assume "scma_ok D s" "legal_call D ec"
  then show "\<exists>s1 r. exec_call ec s = Some (s1, r) \<and> scma_ok D s1 \<and> spec_call D ec r (scma_view s) (scma_view s1)"
    using every_call_refined [of D s "fst ec" "snd ec"] by (simp add: call_refined_def exec_call_def spec_call_def)
qed

end
