(* ===== verification/Scma_Generations.thy ===== *)
theory Scma_Generations
  imports Scma_Spec
begin

text \<open>
  Generations. A descriptor keeps its index for ever and its generation changes when its block is freed or
  reused, one step at a time; a handle that was freed is not valid again until the counter has come round.
\<close>

subsection \<open>What each operation does to the generations\<close>

definition gens :: "scma_state \<Rightarrow> u64 list" where
  "gens s = map sb_generation (sc_blocks s)"

lemma gens_cong: "sc_blocks s1 = sc_blocks s \<Longrightarrow> gens s1 = gens s"
  by (simp add: gens_def)

lemma gens_update: "(\<And>b. sb_generation (f b) = sb_generation b) \<Longrightarrow> gens (update_block i f s) = gens s"
  by (rule nth_equalityI) (auto simp: gens_def update_block_def nth_update_if)

lemma gens_simps [simp]:
  "gens (scma_recompute_used_size s) = gens s" "gens (scma_reset_compaction s) = gens s"
  "gens (s\<lparr>sc_free := p\<rparr>) = gens s" "gens (s\<lparr>sc_live := n\<rparr>) = gens s" "gens (s\<lparr>sc_used := n\<rparr>) = gens s"
  "gens (s\<lparr>sc_heap := h\<rparr>) = gens s" "gens (s\<lparr>sc_needed := b\<rparr>) = gens s" "gens (s\<lparr>sc_cursor := p\<rparr>) = gens s"
  "gens (s\<lparr>sc_target := n\<rparr>) = gens s" "gens (s\<lparr>sc_head := p\<rparr>) = gens s" "gens (s\<lparr>sc_tail := p\<rparr>) = gens s"
  "gens (s\<lparr>sc_block_capacity := n\<rparr>) = gens s" "gens (forget_free_blocks s) = gens s"
  "gens (s\<lparr>sc_blocks := sc_blocks s @ [x]\<rparr>) = gens s @ [sb_generation x]"
  by (simp_all add: gens_def scma_recompute_used_size_def scma_reset_compaction_def forget_free_blocks_def)

lemma gens_links [simp]:
  "gens (scma_push_free_block i s) = gens s" "gens (scma_link_block_at_tail i s) = gens s"
  "gens (scma_unlink_block i s) = gens s"
  by (simp_all add: scma_push_free_block_def scma_link_block_at_tail_def scma_unlink_block_def gens_update Let_def
    split: option.split)

lemma gens_remove_loop:
  assumes "remove_free_loop i c p s = Some s1"
  shows "gens s1 = gens s"
  by (rule remove_free_loop.raw_induct [where P = "\<lambda>i c p s s1. gens s1 = gens s", rotated, OF assms]) (auto simp: gens_update Let_def split: option.splits if_splits)

lemma gens_remove: "scma_remove_free_block i s = Some s1 \<Longrightarrow> gens s1 = gens s"
  by (simp add: scma_remove_free_block_def gens_remove_loop)

lemma gens_discard: "scma_discard_free_block i s = Some s1 \<Longrightarrow> gens s1 = gens s"
  by (auto simp: scma_discard_free_block_def gens_update Option.bind_eq_Some_conv dest!: gens_remove split: if_splits)

lemma gens_discard_loop:
  assumes "discard_loop u c s = Some s1"
  shows "gens s1 = gens s"
  by (rule discard_loop.raw_induct [where P = "\<lambda>u c s s1. gens s1 = gens s", rotated, OF assms]) (fastforce simp: Option.bind_eq_Some_conv dest: gens_discard split: option.splits if_splits)

lemma gens_absorb: "absorb_neighbour i c s = Some s1 \<Longrightarrow> gens s1 = gens s"
  by (auto simp: absorb_neighbour_def gens_update Option.bind_eq_Some_conv Let_def dest!: gens_remove split: if_splits)

lemma gens_coalesce_loop:
  assumes "coalesce_loop i c s = Some s1"
  shows "gens s1 = gens s"
  by (rule coalesce_loop.raw_induct [where P = "\<lambda>i c s s1. gens s1 = gens s", rotated, OF assms]) (fastforce simp: Option.bind_eq_Some_conv dest: gens_absorb split: option.splits if_splits)

lemma gens_coalesce: "scma_coalesce_free_block i s = Some s1 \<Longrightarrow> gens s1 = gens s"
  by (auto simp: scma_coalesce_free_block_def dest: gens_coalesce_loop split: if_splits)

lemma gens_heap:
  "scma_secure_bzero a n s = Some s1 \<Longrightarrow> gens s1 = gens s" "heap_store a xs s = Some s1 \<Longrightarrow> gens s1 = gens s"
  "heap_move d a n s = Some s1 \<Longrightarrow> gens s1 = gens s"
  by (auto simp: scma_secure_bzero_def heap_store_def heap_move_def Option.bind_eq_Some_conv split: if_splits)

lemma gens_compact_block: "compact_block i s = Some s1 \<Longrightarrow> gens s1 = gens s"
  by (auto simp: compact_block_def Let_def Option.bind_eq_Some_conv gens_update dest!: gens_heap(3) split: if_splits)

lemma gens_compact_loop:
  assumes "compact_loop b m s = Some r"
  shows "gens (fst r) = gens s"
  by (rule compact_loop.raw_induct [where P = "\<lambda>b m s r. gens (fst r) = gens s", rotated, OF assms]) (fastforce simp: Option.bind_eq_Some_conv dest: gens_compact_block split: option.splits if_splits)

lemma gens_compact_ends:
  "gens (compact_begin s) = gens s" "compact_finish n s = Some s1 \<Longrightarrow> gens s1 = gens s"
  by (auto simp: compact_begin_def compact_finish_def Let_def Option.bind_eq_Some_conv dest!: gens_heap(1)
    split: if_splits)

lemma gens_compact_incremental: "scma_compact_incremental b s = Some (s1, e) \<Longrightarrow> gens s1 = gens s"
  by (auto simp: scma_compact_incremental_def Option.bind_eq_Some_conv gens_compact_ends(1)
    dest!: gens_compact_loop gens_compact_ends(2) split: if_splits)

lemma gens_compact_until:
  assumes "compact_until s = Some r"
  shows "gens (fst r) = gens s"
  by (rule compact_until.raw_induct [where P = "\<lambda>s r. gens (fst r) = gens s", rotated, OF assms]) (fastforce simp: Option.bind_eq_Some_conv dest: gens_compact_incremental split: if_splits)

lemma gens_compact: "scma_compact s = Some (s1, e) \<Longrightarrow> gens s1 = gens s"
  by (auto simp: scma_compact_def dest!: gens_compact_until split: if_splits)

lemma gens_capacity:
  "scma_ensure_block_capacity env n s = Some (s1, g) \<Longrightarrow> gens s1 = gens s"
  "scma_ensure_capacity env n s = Some (s1, g) \<Longrightarrow> gens s1 = gens s"
  by (auto simp: scma_ensure_block_capacity_def scma_ensure_capacity_def Option.bind_eq_Some_conv
    split: if_splits option.splits)

subsection \<open>Calls advance a generation by at most one step\<close>

definition gens_next :: "u64 list \<Rightarrow> u64 list \<Rightarrow> bool" where
  "gens_next xs ys \<longleftrightarrow> length xs \<le> length ys
     \<and> (\<forall>j < length xs. ys ! j = xs ! j \<or> ys ! j = scma_next_generation (xs ! j))"

lemma gens_nextI:
  "gens_next xs xs" "gens_next xs (xs @ zs)" "gens_next xs (xs[i := scma_next_generation (xs ! i)])"
  "gens_next xs ((xs @ zs)[i := scma_next_generation ((xs @ zs) ! i)])"
  by (auto simp: gens_next_def nth_append nth_update_if)

lemma gens_found:
  assumes "take_found_span env sz c x s = Some (s1, e, r)"
  shows "\<exists>zs. gens s1 = gens s @ zs"
  using assms
  by (auto simp: take_found_span_def Let_def Option.bind_eq_Some_conv gens_update scma_discard_free_spans_from_def
    dest!: gens_remove gens_capacity(1) gens_discard_loop split: if_splits)

lemma gens_take:
  assumes "scma_take_free_span env sz s = Some (s1, e, r)"
  shows "\<exists>zs. gens s1 = gens s @ zs"
proof (cases "sz = 0")
  case False
  then obtain s0 found where t: "scma_reconcile_free_spans s = Some s0" "find_span_loop sz (sc_free s0) s0 = Some found"
    using assms by (auto simp: scma_take_free_span_def Option.bind_eq_Some_conv)
  have g: "gens s0 = gens s" using t(1) gens_discard_loop by (simp add: scma_reconcile_free_spans_def)
  show ?thesis
  proof (cases found)
    case (Found c x)
    then have "take_found_span env sz c x s0 = Some (s1, e, r)"
      using assms False t by (simp add: scma_take_free_span_def)
    then show ?thesis using gens_found g by metis
  qed (use assms False t g in \<open>auto simp: scma_take_free_span_def\<close>)
qed (use assms in \<open>simp add: scma_take_free_span_def\<close>)

lemma gens_generation:
  "(\<And>b. sb_generation (f b) = scma_next_generation (sb_generation b)) \<Longrightarrow>
     gens (update_block i f s) = (gens s)[i := scma_next_generation (gens s ! i)]"
  by (rule nth_equalityI) (auto simp: gens_def update_block_def nth_update_if)

lemma gens_activate: "gens (fst (activate_block sz i s)) = (gens s)[i := scma_next_generation (gens s ! i)]"
proof -
  have "gens (update_block i (\<lambda>b. b\<lparr>sb_in_use := True, sb_generation := scma_next_generation (sb_generation (sc_blocks s ! i)),
      sb_prev := None, sb_next := None\<rparr>) s) = (gens s)[i := scma_next_generation (gens s ! i)]"
    by (rule nth_equalityI) (auto simp: gens_def update_block_def nth_update_if)
  then show ?thesis by (simp add: activate_block_def Let_def)
qed

lemma gens_append: "append_block env sz s = Some (s1, h) \<Longrightarrow> \<exists>zs. gens s1 = gens s @ zs"
  by (auto simp: append_block_def Let_def Option.bind_eq_Some_conv scma_discard_free_spans_from_def
    dest!: gens_discard_loop gens_capacity(1) split: if_splits)

lemma gens_compact_if_needed:
  assumes "compact_if_needed sz s = Some (s1, r)"
  shows "gens s1 = gens s"
proof (cases "sc_needed s")
  case True
  then obtain t e where t: "scma_compact_incremental 65536 s = Some (t, e)" "gens t = gens s"
    using assms gens_compact_incremental by (fastforce simp: compact_if_needed_def Option.bind_eq_Some_conv)
  show ?thesis
  proof (cases "e = FT_ERR_SUCCESS \<and> sc_needed t")
    case both: True
    then obtain u f where u: "scma_compact t = Some (u, f)" "gens u = gens s"
      using assms True t gens_compact by (fastforce simp: compact_if_needed_def Option.bind_eq_Some_conv)
    then have "s1 = u" using assms True t(1) both by (simp add: compact_if_needed_def Let_def split: if_splits)
    then show ?thesis using u(2) by simp
  next
    case False
    then have "s1 = t" using assms True t(1) by (simp add: compact_if_needed_def Let_def split: if_splits)
    then show ?thesis using t(2) by simp
  qed
qed (use assms in \<open>simp add: compact_if_needed_def\<close>)

lemma gens_compact_if_full:
  assumes "compact_if_full sz n s = Some (s1, r)"
  shows "gens s1 = gens s"
proof (cases "n > length (sc_heap s) \<and> sc_needed s")
  case True
  then obtain t e where t: "scma_compact s = Some (t, e)"
    using assms by (cases "scma_compact s") (auto simp: compact_if_full_def)
  then have "s1 = t" using assms True by (simp add: compact_if_full_def split: if_splits)
  then show ?thesis using gens_compact [OF t] by simp
next
  case False
  then show ?thesis using assms by (simp add: compact_if_full_def split: if_splits)
qed

lemma gens_allocate_fresh:
  assumes "allocate_fresh env sz s = Some (s1, h)"
  shows "\<exists>zs. gens s1 = gens s @ zs"
proof -
  obtain t1 r1 where t1: "compact_if_needed sz s = Some (t1, r1)" "gens t1 = gens s"
    using assms gens_compact_if_needed by (auto simp: allocate_fresh_def Option.bind_eq_Some_conv)
  show ?thesis
  proof (cases r1)
    case None
    then show ?thesis using assms t1 by (simp add: allocate_fresh_def)
  next
    case (Some n1)
    then obtain t2 r2 where t2: "compact_if_full sz n1 t1 = Some (t2, r2)" "gens t2 = gens s"
      using assms t1 gens_compact_if_full by (auto simp: allocate_fresh_def Option.bind_eq_Some_conv)
    show ?thesis
    proof (cases r2)
      case None
      then show ?thesis using assms t1 t2 Some by (simp add: allocate_fresh_def)
    next
      case (Some n2)
      then obtain t3 g where t3: "scma_ensure_capacity env n2 t2 = Some (t3, g)" "gens t3 = gens s"
        "(if \<not> g then Some (t3, scma_invalid_handle) else append_block env sz t3) = Some (s1, h)"
        using assms t1(1) t2 \<open>r1 = Some n1\<close> gens_capacity(2)
        by (auto simp: allocate_fresh_def Option.bind_eq_Some_conv)
      then show ?thesis using gens_append [of env sz t3 s1 h] by (cases g) auto
    qed
  qed
qed

lemma gens_allocate:
  assumes "scma_allocate env sz s = Some (s1, h)"
  shows "gens_next (gens s) (gens s1)"
proof (cases "s1 = s")
  case False
  then obtain s0 e r where t: "scma_take_free_span env sz s = Some (s0, e, r)"
    "(if e \<noteq> FT_ERR_SUCCESS then Some (s0, scma_invalid_handle)
      else case r of Some i \<Rightarrow> Some (activate_block sz i s0) | None \<Rightarrow> allocate_fresh env sz s0) = Some (s1, h)"
    using assms by (auto simp: scma_allocate_def Option.bind_eq_Some_conv split: if_splits)
  obtain zs where zs: "gens s0 = gens s @ zs" using gens_take [OF t(1)] by blast
  consider "s1 = s0" | i where "activate_block sz i s0 = (s1, h)" | "allocate_fresh env sz s0 = Some (s1, h)"
    using t(2) by (auto split: if_splits option.splits)
  then show ?thesis
  proof cases
    case 1
    then show ?thesis using zs gens_nextI(2) by simp
  next
    case 2
    then have "gens s1 = (gens s0)[i := scma_next_generation (gens s0 ! i)]" using gens_activate [of sz i s0] by (metis fst_conv)
    then show ?thesis using zs gens_nextI(4) by simp
  next
    case 3
    then show ?thesis using gens_allocate_fresh [OF 3] zs gens_nextI(2) by (metis append_assoc)
  qed
qed (simp add: gens_nextI)

lemma gens_free:
  assumes "scma_free env h s = Some (s1, e)" "e = FT_ERR_SUCCESS"
  shows "gens s1 = (gens s)[unat (sh_index h) := scma_next_generation (gens s ! unat (sh_index h))]"
  using assms
  by (auto simp: scma_free_def Let_def Option.bind_eq_Some_conv gens_generation validate_handle_iff
    dest!: gens_heap(1) gens_coalesce split: if_splits option.splits)

lemma gens_resize:
  assumes "scma_resize env h n s = Some (s1, e)"
  shows "gens s1 = gens s"
proof -
  have shrink: "resize_shrink i n t = Some (s1, e) \<Longrightarrow> gens s1 = gens t" for i t
    by (auto simp: resize_shrink_def Let_def Option.bind_eq_Some_conv gens_update dest!: gens_heap(1))
  have place: "resize_in_place env d i n t = Some (s1, e) \<Longrightarrow> gens s1 = gens t" for d i t
    by (auto simp: resize_in_place_def Let_def Option.bind_eq_Some_conv gens_update scma_discard_free_spans_from_def
      dest!: gens_capacity(2) gens_discard_loop split: if_splits)
  have move: "resize_move env i n r t = Some (s1, e) \<Longrightarrow> gens s1 = gens t" for i r t
    by (auto simp: resize_move_def Let_def Option.bind_eq_Some_conv gens_update scma_discard_free_spans_from_def
      dest!: gens_capacity(2) gens_discard_loop gens_heap split: if_splits)
  have grow: "resize_grow env i n t = Some (s1, e) \<Longrightarrow> gens s1 = gens t" for i t
    by (auto simp: resize_grow_def Option.bind_eq_Some_conv dest!: gens_compact place move split: if_splits)
  show ?thesis
    using assms by (auto simp: scma_resize_def Let_def dest!: shrink place grow split: if_splits option.splits)
qed

lemma gens_write: "copy_writes ws s = Some s1 \<Longrightarrow> gens s1 = gens s"
  by (induction ws arbitrary: s)
    (auto simp: Option.bind_eq_Some_conv dest!: gens_heap(2) split: sum.splits if_splits)

lemma gens_call:
  assumes "scma_exec env c s = Some (s1, r)" "sc_initialised s" "c \<noteq> Shutdown"
  shows "gens_next (gens s) (gens s1)"
proof (cases c)
  case (Initialize n)
  then have "s1 = s" using assms(1,2) by (auto simp: scma_exec_def scma_initialize_def split: if_splits)
  then show ?thesis by (simp add: gens_nextI)
next
  case (Allocate sz)
  then show ?thesis using assms(1) gens_allocate by (auto simp: scma_exec_def)
next
  case (Free h)
  then obtain e where e: "scma_free env h s = Some (s1, e)" using assms(1) by (auto simp: scma_exec_def)
  show ?thesis
  proof (cases "e = FT_ERR_SUCCESS")
    case True
    then show ?thesis using gens_free [OF e] gens_nextI(3) by simp
  next
    case False
    then have "s1 = s" using e by (auto simp: scma_free_def Let_def Option.bind_eq_Some_conv split: if_splits option.splits)
    then show ?thesis by (simp add: gens_nextI)
  qed
next
  case (Resize h n)
  then show ?thesis using assms(1) by (auto simp: scma_exec_def gens_nextI dest!: gens_resize)
next
  case (Write_batch ws k)
  then show ?thesis using assms(1)
    by (auto simp: scma_exec_def scma_write_batch_def Let_def Option.bind_eq_Some_conv gens_nextI dest!: gens_write
      split: if_splits option.splits)
qed (use assms(1,3) in \<open>auto simp: scma_exec_def gens_nextI\<close>)

subsection \<open>Histories without a shutdown\<close>

lemma step_initialised: "scma_step D lk c r a b \<Longrightarrow> fst a \<Longrightarrow> c \<noteq> Shutdown \<Longrightarrow> fst b"
  by (induction rule: scma_step.induct) auto

lemma call_initialised:
  assumes "scma_ok D s" "sc_initialised s" "legal_call D ec" "snd ec \<noteq> Shutdown" "exec_call ec s = Some (s1, r)"
  shows "scma_ok D s1" "sc_initialised s1" "gens_next (gens s) (gens s1)"
proof -
  obtain t q where t: "exec_call ec s = Some (t, q)" "scma_ok D t" "spec_call D ec q (scma_view s) (scma_view t)"
    using scma_calls.refines [OF assms(1,3)] by blast
  then show "scma_ok D s1" "sc_initialised s1"
    using assms(5) step_initialised [of D _ "snd ec" q "scma_view s" "scma_view t"] assms(2,4)
    by (auto simp: spec_call_def scma_view_def)
  show "gens_next (gens s) (gens s1)"
    using gens_call assms(2,4,5) by (simp add: exec_call_def)
qed

lemma run_generations:
  assumes "scma_ok D s" "sc_initialised s" "\<forall>ec \<in> set cs. legal_call D ec \<and> snd ec \<noteq> Shutdown"
    "run_calls exec_call cs s = Some (s1, rs)" "j < length (gens s)"
  shows "\<exists>m \<le> length cs. j < length (gens s1) \<and> gens s1 ! j = (scma_next_generation ^^ m) (gens s ! j)"
  using assms
proof (induction cs arbitrary: s rs)
  case (Cons ec cs)
  obtain t r where t: "exec_call ec s = Some (t, r)" using Cons.prems(4) by (auto split: option.splits)
  then obtain qs where qs: "run_calls exec_call cs t = Some (s1, qs)" using Cons.prems(4) by (auto split: option.splits)
  have T: "scma_ok D t" "sc_initialised t" "gens_next (gens s) (gens t)"
    using call_initialised [OF Cons.prems(1,2) _ _ t] Cons.prems(3) by auto
  have j: "j < length (gens t)" "gens t ! j = gens s ! j \<or> gens t ! j = scma_next_generation (gens s ! j)"
    using T(3) Cons.prems(5) by (auto simp: gens_next_def)
  have "\<exists>m \<le> length cs. j < length (gens s1) \<and> gens s1 ! j = (scma_next_generation ^^ m) (gens t ! j)"
    by (rule Cons.IH [OF T(1,2) _ qs j(1)]) (use Cons.prems(3) in simp)
  then obtain m where m: "m \<le> length cs" "j < length (gens s1)" "gens s1 ! j = (scma_next_generation ^^ m) (gens t ! j)"
    by blast
  show ?case
  proof (cases "gens t ! j = gens s ! j")
    case True
    then show ?thesis using m by (intro exI [of _ m]) simp
  next
    case False
    then have "gens s1 ! j = (scma_next_generation ^^ Suc m) (gens s ! j)" using j(2) m(3) by (simp add: funpow_swap1)
    then show ?thesis using m by (intro exI [of _ "Suc m"]) simp
  qed
qed simp

text \<open>The counter runs through all values but the two reserved ones.\<close>

abbreviation generation_count :: nat where
  "generation_count \<equiv> 2 ^ 64 - 2"

lemma generation_range:
  fixes g :: u64
  assumes "g \<noteq> 0" "g \<noteq> -1"
  shows "0 < unat g" "unat g \<le> generation_count" "g + 1 = -1 \<longleftrightarrow> unat g = generation_count" "unat (g + 1) = unat g + 1"
proof -
  have max: "unat (-1 :: u64) = 2 ^ 64 - 1" by (simp add: unsigned_minus_1_eq_mask mask_eq_exp_minus_1)
  have "unat g < 2 ^ 64" using unsigned_less [of g] by simp
  moreover have "unat g \<noteq> 2 ^ 64 - 1" using assms(2) max by (metis word_unat_eq_iff)
  ultimately show r: "unat g \<le> generation_count" by simp
  show "0 < unat g" using assms(1) by (simp add: unat_gt_0)
  show s: "unat (g + 1) = unat g + 1" using r by (simp add: unat_word_ariths)
  have "g + 1 = -1 \<longleftrightarrow> unat (g + 1) = 2 ^ 64 - 1" unfolding word_unat_eq_iff max ..
  then show "g + 1 = -1 \<longleftrightarrow> unat g = generation_count" using s by auto
qed

lemma next_generation_unat:
  assumes "g \<noteq> 0" "g \<noteq> -1"
  shows "unat (scma_next_generation g) = unat g mod generation_count + 1"
proof (cases "unat g = generation_count")
  case True
  then show ?thesis using generation_range(3) [OF assms] by (simp add: scma_next_generation_def)
next
  case False
  note R = generation_range [OF assms]
  have "g + 1 \<noteq> 0" using R(4) by auto
  moreover have "unat g mod generation_count = unat g" using False R(2) by simp
  ultimately show ?thesis using False R(3,4) by (simp add: scma_next_generation_def Let_def)
qed

lemma generations_unat:
  assumes "g \<noteq> 0" "g \<noteq> -1"
  shows "unat ((scma_next_generation ^^ m) g) = (unat g - 1 + m) mod generation_count + 1"
proof (induction m)
  case 0
  show ?case using generation_range(1,2) [OF assms] by simp
next
  case (Suc m)
  let ?h = "(scma_next_generation ^^ m) g"
  have "?h \<noteq> 0 \<and> ?h \<noteq> -1" using assms next_generation_valid by (cases m) auto
  then have "unat (scma_next_generation ?h) = unat ?h mod generation_count + 1" using next_generation_unat by blast
  then show ?case using Suc.IH by (simp add: mod_Suc_eq)
qed

lemma generations_differ:
  assumes "g \<noteq> 0" "g \<noteq> -1" "0 < m" "m < generation_count"
  shows "(scma_next_generation ^^ m) g \<noteq> g"
proof
  assume same: "(scma_next_generation ^^ m) g = g"
  define x where "x = unat g - 1"
  have x: "unat g = x + 1" "x < generation_count" using generation_range(1,2) [OF assms(1,2)] by (simp_all add: x_def)
  have eq: "(x + m) mod generation_count = x"
    using generations_unat [OF assms(1,2), of m, folded x_def] same x(1) by simp
  show False
  proof (cases "x + m < generation_count")
    case True
    then show False using eq assms(3) by simp
  next
    case False
    then have "(x + m) mod generation_count = (x + m - generation_count) mod generation_count"
      by (intro le_mod_geq) simp
    moreover have "x + m - generation_count < generation_count" using x(2) assms(4) by linarith
    ultimately have "x + m - generation_count = x" using eq by simp
    then show False using False assms(4) x(2) by linarith
  qed
qed

lemma gens_nth: "j < length (sc_blocks s) \<Longrightarrow> gens s ! j = sb_generation (sc_blocks s ! j)"
  by (simp add: gens_def)

end
