(* ===== verification/Scma_Props.thy ===== *)
theory Scma_Props
  imports Scma_Generations
begin

text \<open>
  What the compacting allocator guarantees after any sequence of calls, from the contract and the invariant.
\<close>

subsection \<open>Histories\<close>

text \<open>A state reached from the start by legal calls, new memory holding bytes of \<open>D\<close>.\<close>

definition scma_reached :: "u8 set \<Rightarrow> (scma_env \<times> scma_call) list \<Rightarrow> scma_state \<Rightarrow> bool" where
  "scma_reached D calls s \<longleftrightarrow> (\<forall>ec \<in> set calls. legal_call D ec)
     \<and> map_option fst (run_calls exec_call calls scma_state_initial) = Some s"

lemma initial_ok: "scma_ok D scma_state_initial"
  by (simp add: scma_ok_def)

lemma initial_view: "scma_view scma_state_initial = (False, Map.empty)"
  using contents_off [of scma_state_initial] by (simp add: scma_view_def)

lemma reached_ok: "scma_reached D calls s \<Longrightarrow> scma_ok D s"
  using scma_calls.run_ok [OF initial_ok, of calls D s] by (auto simp: scma_reached_def)

lemma reached_settled:
  assumes "scma_reached D calls s" "sc_initialised s"
  obtains ls fs where "settled D s ls fs"
  using reached_ok [OF assms(1)] assms(2) by (auto elim: scma_ok_cases)

lemma reached_zero: "scma_reached D calls s \<Longrightarrow> sc_initialised s \<Longrightarrow> 0 \<in> D"
  by (cases calls) (auto simp: scma_reached_def legal_call_def)

text \<open>Surroundings that grant everything and deliver zeros, and a short history in them.\<close>

definition calm_env :: scma_env where
  "calm_env = \<lparr>se_lock = True, se_thread_safety = FT_ERR_SUCCESS, se_malloc = (\<lambda>n. Some (replicate n 0)),
     se_realloc = (\<lambda>h n. Some (take n h @ replicate (n - length h) 0)), se_blocks = (\<lambda>n. True)\<rparr>"

lemma calm_legal: "request_ok c \<Longrightarrow> legal_call {0} (calm_env, c)"
  by (auto simp: legal_call_def scma_env_ok_def fresh_from_def calm_env_def set_replicate_conv_if)

text \<open>
  A history to try the properties on: two blocks, bytes written to the first, then the first freed.
\<close>

definition first_handle :: scma_handle where
  "first_handle = \<lparr>sh_index = 0, sh_generation = 1\<rparr>"

definition second_handle :: scma_handle where
  "second_handle = \<lparr>sh_index = 1, sh_generation = 1\<rparr>"

definition demo_write :: scma_call where
  "demo_write = Write_batch (Some [\<lparr>sw_handle = first_handle, sw_offset = 0, sw_source = Some [1, 2, 3], sw_size = 3\<rparr>]) 1"

definition demo_start :: "scma_call list" where
  "demo_start = [Initialize 4, Allocate 3, Allocate 5]"

definition demo_history :: "(scma_env \<times> scma_call) list" where
  "demo_history = map (Pair calm_env) (demo_start @ [demo_write] @ [Free first_handle])"

definition two_blocks :: scma_state where
  "two_blocks = \<lparr>sc_heap = replicate 8 0,
     sc_blocks = [\<lparr>sb_offset = 0, sb_size = 3, sb_in_use = True, sb_generation = 1, sb_prev = None, sb_next = Some 1,
         sb_next_free = None\<rparr>,
       \<lparr>sb_offset = 3, sb_size = 5, sb_in_use = True, sb_generation = 1, sb_prev = Some 0, sb_next = None,
         sb_next_free = None\<rparr>],
     sc_block_capacity = 2, sc_used = 8, sc_live = 8, sc_head = Some 0, sc_tail = Some 1, sc_free = None,
     sc_needed = False, sc_cursor = None, sc_target = 0, sc_initialised = True\<rparr>"

definition demo_state :: scma_state where
  "demo_state = \<lparr>sc_heap = replicate 8 0,
     sc_blocks = [\<lparr>sb_offset = 0, sb_size = 3, sb_in_use = False, sb_generation = 2, sb_prev = None, sb_next = None,
         sb_next_free = None\<rparr>,
       \<lparr>sb_offset = 3, sb_size = 5, sb_in_use = True, sb_generation = 1, sb_prev = None, sb_next = None,
         sb_next_free = None\<rparr>],
     sc_block_capacity = 2, sc_used = 8, sc_live = 5, sc_head = Some 1, sc_tail = Some 1, sc_free = Some 0,
     sc_needed = True, sc_cursor = None, sc_target = 0, sc_initialised = True\<rparr>"

lemma loop_ends:
  "discard_loop u None s = Some s" "find_span_loop sz None s = Some Not_found" "remove_free_loop i None p s = Some s"
  "coalesce_loop i None s = Some s"
  by (subst discard_loop.simps find_span_loop.simps remove_free_loop.simps coalesce_loop.simps; simp)+

lemma coalesce_some:
  "coalesce_loop i (Some c) s = (if c \<ge> length (sc_blocks s) then None
     else absorb_neighbour i c s \<bind> coalesce_loop i (sb_next_free (sc_blocks s ! c)))"
  by (subst coalesce_loop.simps) simp

lemma grow_loop_exact: "0 < c \<Longrightarrow> c \<le> r \<Longrightarrow> r \<le> FT_SYSTEM_SIZE_MAX \<Longrightarrow> scma_grow_loop c r = Some r"
  using grow_loop_returns [of c r] by auto

lemmas exec_simps = exec_call_def scma_exec_def scma_initialize_def calm_env_def scma_state_initial_def
  FT_SYSTEM_SIZE_MAX_def scma_allocate_def scma_take_free_span_def scma_reconcile_free_spans_def allocate_fresh_def
  compact_if_needed_def compact_if_full_def scma_ensure_capacity_def append_block_def scma_discard_free_spans_from_def
  scma_ensure_block_capacity_def sizeof_scma_block_def scma_link_block_at_tail_def update_block_def Let_def
  grow_loop_exact loop_ends

lemma demo_start_run:
  "map_option fst (run_calls exec_call (map (Pair calm_env) demo_start) scma_state_initial) = Some two_blocks"
  by (simp add: demo_start_def exec_simps two_blocks_def replicate_add [symmetric])

lemma demo_write_run:
  "exec_call (calm_env, demo_write) two_blocks = Some (two_blocks\<lparr>sc_heap := [1, 2, 3] @ replicate 5 0\<rparr>, Code FT_ERR_SUCCESS)"
  by (simp add: exec_call_def scma_exec_def demo_write_def two_blocks_def scma_write_batch_def calm_env_def Let_def
    scma_validate_write_request_def validate_access_def scma_validate_handle_def scma_handle_is_invalid_def
    first_handle_def heap_store_def)

lemma demo_free_run:
  "exec_call (calm_env, Free first_handle) (two_blocks\<lparr>sc_heap := [1, 2, 3] @ replicate 5 0\<rparr>)
     = Some (demo_state, Code FT_ERR_SUCCESS)"
  by (simp add: exec_call_def scma_exec_def demo_state_def two_blocks_def first_handle_def scma_free_def
    scma_validate_handle_def scma_handle_is_invalid_def scma_secure_bzero_def scma_unlink_block_def
    scma_next_generation_def scma_push_free_block_def scma_coalesce_free_block_def coalesce_some absorb_neighbour_def
    loop_ends scma_recompute_used_size_def scma_reset_compaction_def FT_SYSTEM_SIZE_MAX_def update_block_def Let_def
    calm_env_def replicate_add [symmetric])

lemma run_calls_append:
  "run_calls exec (cs @ ds) s = (case run_calls exec cs s of None \<Rightarrow> None
     | Some (s1, rs) \<Rightarrow> map_option (map_prod id ((@) rs)) (run_calls exec ds s1))"
proof (induction cs arbitrary: s)
  case Nil
  then show ?case by (cases "run_calls exec ds s") auto
next
  case (Cons c cs)
  show ?case
  proof (cases "exec c s")
    case (Some p)
    obtain s1 r where "p = (s1, r)" by (cases p)
    then show ?thesis
      using Some Cons.IH [of s1] by (auto simp: option.map_comp split: option.splits)
  qed simp
qed

lemma demo_reached: "scma_reached {0} demo_history demo_state" "scma_reached {0} (map (Pair calm_env) demo_start) two_blocks"
  "scma_reached {0} (map (Pair calm_env) (demo_start @ [demo_write])) (two_blocks\<lparr>sc_heap := [1, 2, 3] @ replicate 5 0\<rparr>)"
proof -
  obtain rs where "run_calls exec_call (map (Pair calm_env) demo_start) scma_state_initial = Some (two_blocks, rs)"
    using demo_start_run by auto
  then have "map_option fst (run_calls exec_call demo_history scma_state_initial) = Some demo_state"
    "map_option fst (run_calls exec_call (map (Pair calm_env) (demo_start @ [demo_write])) scma_state_initial)
       = Some (two_blocks\<lparr>sc_heap := [1, 2, 3] @ replicate 5 0\<rparr>)"
    by (simp_all add: demo_history_def run_calls_append demo_write_run demo_free_run [simplified])
  moreover have "legal_call {0} (calm_env, c)" if "c \<in> set (demo_start @ [demo_write, Free first_handle])" for c
    by (rule calm_legal) (use that in \<open>auto simp: demo_start_def demo_write_def request_ok_def\<close>)
  ultimately show "scma_reached {0} demo_history demo_state"
    "scma_reached {0} (map (Pair calm_env) demo_start) two_blocks"
    "scma_reached {0} (map (Pair calm_env) (demo_start @ [demo_write])) (two_blocks\<lparr>sc_heap := [1, 2, 3] @ replicate 5 0\<rparr>)"
    using demo_start_run by (auto simp: scma_reached_def demo_history_def)
qed

subsection \<open>Properties\<close>

text \<open>
  C2: Every sequence of calls, with the mutex failing and memory running out anywhere, returns, and is a run
  of the contract: handles name byte strings, only the handle a call is given changes, failed calls change
  nothing.
\<close>

theorem scma_histories_refine:
  assumes "\<forall>ec \<in> set calls. legal_call D ec"
  shows "\<exists>s rs. run_calls exec_call calls scma_state_initial = Some (s, rs)
    \<and> trace (spec_call D) calls rs (False, Map.empty) (scma_view s)"
  using scma_calls.run_refines [OF initial_ok assms] initial_view by auto

theorem scma_histories_refine_witness:
  "\<exists>s rs. run_calls exec_call demo_history scma_state_initial = Some (s, rs)
    \<and> trace (spec_call {0}) demo_history rs (False, Map.empty) (scma_view s)"
  by (rule scma_histories_refine) (use demo_reached(1) in \<open>simp add: scma_reached_def\<close>)

text \<open>
  C16: In every state so reached the live blocks lie apart inside the used part of the heap, the list of
  live blocks holds exactly the blocks in use, the list of free ones none of them, and the counter of live
  bytes is exact.
\<close>

theorem scma_layout_invariant:
  assumes "scma_reached D calls s" "sc_initialised s"
  shows "layout (sc_blocks s) (sc_used s) \<and> sc_used s \<le> length (sc_heap s) \<and> sc_live s = total_size (sc_blocks s)
    \<and> (\<exists>ls. dlist s ls \<and> set ls = live_set (sc_blocks s))
    \<and> (\<exists>fs. chain (sc_blocks s) (sc_free s) fs \<and> set fs \<inter> live_set (sc_blocks s) = {})"
proof -
  obtain ls fs where st: "settled D s ls fs" using reached_settled [OF assms] .
  note S = settledD [OF st]
  have "set fs \<inter> live_set (sc_blocks s) = {}" using free_okD(2) [OF S(2)] live_setD by blast
  then show ?thesis using coreD [OF S(1)] free_okD(1) [OF S(2)] by blast
qed

theorem scma_layout_invariant_witness:
  "layout (sc_blocks demo_state) (sc_used demo_state) \<and> sc_used demo_state \<le> length (sc_heap demo_state)
    \<and> sc_live demo_state = total_size (sc_blocks demo_state)
    \<and> (\<exists>ls. dlist demo_state ls \<and> set ls = live_set (sc_blocks demo_state))
    \<and> (\<exists>fs. chain (sc_blocks demo_state) (sc_free demo_state) fs \<and> set fs \<inter> live_set (sc_blocks demo_state) = {})"
  by (rule scma_layout_invariant [OF demo_reached(1)]) (simp add: demo_state_def)

text \<open>
  C5: A compaction ends, keeps the bytes of every handle, and leaves no gap: the live blocks are exactly the
  first bytes of the heap.
\<close>

theorem scma_compact_gap_free:
  assumes "scma_reached D calls s" "sc_initialised s"
  shows "\<exists>s1. scma_compact s = Some (s1, FT_ERR_SUCCESS) \<and> scma_contents s1 = scma_contents s
    \<and> sc_used s1 = sc_live s \<and> (\<Union>i \<in> live_set (sc_blocks s1). extent (sc_blocks s1) i) = {..<sc_live s}
    \<and> layout (sc_blocks s1) (sc_used s1) \<and> \<not> sc_needed s1"
proof -
  obtain ls fs where st: "settled D s ls fs" using reached_settled [OF assms] .
  note S = settledD [OF st]
  have "interrupted_ok s" using S(3) by (simp add: interrupted_ok_def)
  then obtain s1 where s1: "scma_compact s = Some (s1, FT_ERR_SUCCESS)" "core s1 ls" "compacted s s1"
    using compact_effect [OF S(1) _ S(2,4)] by blast
  note L = coreD(2) [OF s1(2)]
  have K: "same_blocks s s1" "total_size (sc_blocks s1) = sc_used s1" "sc_live s1 = sc_live s" "\<not> sc_needed s1"
    using s1(3) by (simp_all add: compacted_def)
  have u: "sc_used s1 = sc_live s" using K(2,3) coreD(7) [OF s1(2)] by simp
  have "(\<Union>i \<in> live_set (sc_blocks s1). extent (sc_blocks s1) i) = {..<sc_used s1}"
  proof
    show "(\<Union>i \<in> live_set (sc_blocks s1). extent (sc_blocks s1) i) \<subseteq> {..<sc_used s1}"
      using layoutD(2) [OF L] by (fastforce simp: extent_def)
    show "{..<sc_used s1} \<subseteq> (\<Union>i \<in> live_set (sc_blocks s1). extent (sc_blocks s1) i)"
      using extents_cover [OF L K(2)] by blast
  qed
  then show ?thesis using s1(1) same_blocks_contents [OF K(1)] u L K(4) by auto
qed

theorem scma_compact_gap_free_witness:
  "\<exists>s1. scma_compact demo_state = Some (s1, FT_ERR_SUCCESS) \<and> scma_contents s1 = scma_contents demo_state
    \<and> sc_used s1 = sc_live demo_state
    \<and> (\<Union>i \<in> live_set (sc_blocks s1). extent (sc_blocks s1) i) = {..<sc_live demo_state}
    \<and> layout (sc_blocks s1) (sc_used s1) \<and> \<not> sc_needed s1"
  by (rule scma_compact_gap_free [OF demo_reached(1)]) (simp add: demo_state_def)

text \<open>
  C6: Nothing of a freed, shrunk or moved block stays behind: the values of the bytes of the heap outside the
  live blocks are all zero or values that \<open>malloc\<close> or \<open>realloc\<close> filled new memory with (the set \<open>D\<close>).
  For an allocator that returns cleared memory they are all zero.
\<close>

theorem scma_no_residue:
  assumes "scma_reached D calls s" "p < length (sc_heap s)" "\<forall>i \<in> live_set (sc_blocks s). p \<notin> extent (sc_blocks s) i"
  shows "sc_heap s ! p \<in> D"
proof -
  have "wiped D s"
    using reached_ok [OF assms(1)] settledD(5) by (auto simp: scma_ok_def wiped_def scma_state_initial_def)
  then show ?thesis using assms(2,3) by (simp add: wiped_def)
qed

theorem scma_no_residue_witness: "sc_heap demo_state ! 1 \<in> {0}"
  by (rule scma_no_residue [OF demo_reached(1)])
    (auto simp: demo_state_def live_set_def extent_def block_end_def less_Suc_eq)

text \<open>
  C36: While memory is granted and the sizes stay below their limits an allocation succeeds: it returns a new
  handle of the size asked for and leaves every other handle as it was.
\<close>

theorem scma_allocate_succeeds:
  assumes "scma_reached D calls s" "sc_initialised s" "legal_call D (env, Allocate sz)" "memory_granted env"
    "0 < sz" "sc_used s + sz < FT_SYSTEM_SIZE_MAX" "length (sc_blocks s) < FT_SYSTEM_SIZE_MAX div sizeof_scma_block"
  shows "\<exists>s1 h bs. scma_allocate env sz s = Some (s1, h) \<and> \<not> scma_handle_is_invalid h \<and> scma_contents s h = None
    \<and> length bs = sz \<and> set bs \<subseteq> D \<and> scma_contents s1 = (scma_contents s)(h \<mapsto> bs)"
proof -
  obtain ls fs where st: "settled D s ls fs" using reached_settled [OF assms(1,2)] .
  obtain s1 h where "scma_allocate env sz s = Some (s1, h)" "allocated D s sz s1 h"
    using allocate_effect [OF _ _ st, of env sz] assms(3-7) unfolding legal_call_def by auto
  then show ?thesis unfolding allocated_def by blast
qed

theorem scma_allocate_succeeds_witness:
  "\<exists>s1 h bs. scma_allocate calm_env 7 demo_state = Some (s1, h) \<and> \<not> scma_handle_is_invalid h
    \<and> scma_contents demo_state h = None \<and> length bs = 7 \<and> set bs \<subseteq> {0} \<and> scma_contents s1 = (scma_contents demo_state)(h \<mapsto> bs)"
proof (rule scma_allocate_succeeds [OF demo_reached(1)])
  show "legal_call {0} (calm_env, Allocate 7)" by (rule calm_legal) (simp add: request_ok_def)
qed (simp_all add: demo_state_def memory_granted_def calm_env_def FT_SYSTEM_SIZE_MAX_def sizeof_scma_block_def)

text \<open>
  What was written is read back, also when a compaction has moved the block in between, and no other
  handle notices.
\<close>

theorem scma_write_read:
  assumes "scma_reached D calls s" "se_lock env" "scma_contents s h = Some old" "offset + length xs \<le> length old"
    "length xs \<le> length dst"
  shows "\<exists>s1 s2. scma_write env h offset (Some xs) (length xs) s = Some (s1, FT_ERR_SUCCESS)
    \<and> scma_read env h offset (Some dst) (length xs) s1 = Some ([xs @ drop (length xs) dst], FT_ERR_SUCCESS)
    \<and> scma_compact s1 = Some (s2, FT_ERR_SUCCESS)
    \<and> scma_read env h offset (Some dst) (length xs) s2 = Some ([xs @ drop (length xs) dst], FT_ERR_SUCCESS)
    \<and> (\<forall>g. g \<noteq> h \<longrightarrow> scma_contents s2 g = scma_contents s g)"
proof -
  have init: "sc_initialised s" using assms(3) contents_off [of s] by fastforce
  obtain ls fs where st: "settled D s ls fs" using reached_settled [OF assms(1) init] .
  let ?w = "\<lparr>sw_handle = h, sw_offset = offset, sw_source = Some xs, sw_size = length xs\<rparr>"
  let ?r = "\<lparr>sr_handle = h, sr_offset = offset, sr_destination = Some dst, sr_size = length xs\<rparr>"
  have we: "write_error (scma_contents s) ?w = FT_ERR_SUCCESS"
    using assms(3,4) by (simp add: write_error_def request_error_def)
  obtain s1 where s1: "copy_writes [?w] s = Some s1" "settled D s1 ls fs" "scma_contents s1 = write_request ?w (scma_contents s)"
    using copy_writes_effect [OF st, of "[?w]"] we by auto
  have c1: "scma_contents s1 = (scma_contents s)(h \<mapsto> store offset xs old)"
    using s1(3) assms(3) by (simp add: write_request_def)
  have "validate_writes [?w] s = FT_ERR_SUCCESS"
    unfolding validate_batches(1) [OF st] first_error_success using we by simp
  then have w: "scma_write env h offset (Some xs) (length xs) s = Some (s1, FT_ERR_SUCCESS)"
    using s1(1) assms(2) unfolding scma_write_def scma_write_batch_def by (simp add: Let_def)
  have rd: "scma_read env h offset (Some dst) (length xs) t = Some ([xs @ drop (length xs) dst], FT_ERR_SUCCESS)"
    if t: "settled D t ms gs" "scma_contents t = scma_contents s1" for t ms gs
  proof -
    have len: "length (store offset xs old) = length old" using store_simps(1) assms(4) by blast
    have re: "read_error (scma_contents t) ?r = FT_ERR_SUCCESS"
      using t(2) c1 len assms(4) by (simp add: read_error_def request_error_def)
    have "validate_reads [?r] t = FT_ERR_SUCCESS"
      unfolding validate_batches(2) [OF t(1)] first_error_success using re by simp
    moreover have "copy_reads [?r] t = Some [read_result (scma_contents t) ?r]"
      using copy_reads_effect [OF t(1), of "[?r]"] re assms(5) by simp
    moreover have "read_result (scma_contents t) ?r = xs @ drop (length xs) dst"
      using t(2) c1 store_simps(4) [OF assms(4)] by (simp add: read_result_def)
    ultimately show ?thesis using assms(2) unfolding scma_read_def scma_read_batch_def by (simp add: Let_def)
  qed
  note S1 = settledD [OF s1(2)]
  have "interrupted_ok s1" using S1(3) by (simp add: interrupted_ok_def)
  then obtain s2 where s2: "scma_compact s1 = Some (s2, FT_ERR_SUCCESS)" "core s2 ls" "compacted s1 s2"
    using compact_effect [OF S1(1) _ S1(2,4)] by blast
  have c2: "scma_contents s2 = scma_contents s1" using s2(3) same_blocks_contents by (simp add: compacted_def)
  have "settled D s2 ls []" by (rule settled_compacted [OF s1(2) s2(2,3) reached_zero [OF assms(1) init]])
  then show ?thesis using w rd [OF s1(2)] rd c2 s2(1) c1 by auto
qed

theorem scma_write_read_witness:
  "\<exists>s1 s2. scma_write calm_env second_handle 1 (Some [7, 8]) (length [7 :: u8, 8]) demo_state = Some (s1, FT_ERR_SUCCESS)
    \<and> scma_read calm_env second_handle 1 (Some [0, 0, 5]) (length [7 :: u8, 8]) s1 = Some ([[7, 8, 5]], FT_ERR_SUCCESS)
    \<and> scma_compact s1 = Some (s2, FT_ERR_SUCCESS)
    \<and> scma_read calm_env second_handle 1 (Some [0, 0, 5]) (length [7 :: u8, 8]) s2 = Some ([[7, 8, 5]], FT_ERR_SUCCESS)"
proof -
  have "scma_contents demo_state second_handle = Some (replicate 5 0)"
    by (simp add: scma_contents_def scma_validate_handle_def demo_state_def second_handle_def scma_handle_is_invalid_def
      block_bytes_def)
  then show ?thesis
    using scma_write_read [OF demo_reached(1), of calm_env second_handle "replicate 5 0" 1 "[7, 8]" "[0, 0, 5]"]
    by (fastforce simp: calm_env_def)
qed

text \<open>
  C18: A handle that was freed stays invalid through any later calls other than a shutdown, whatever they
  allocate and free, as long as there are fewer of them than generations (\<open>2 ^ 64 - 3\<close>). After a shutdown
  it can become valid again.
\<close>

theorem freed_handle_stays_stale:
  assumes "scma_reached D calls s" "scma_contents s h \<noteq> None" "legal_call D (env, Free h)"
    "scma_free env h s = Some (s1, FT_ERR_SUCCESS)"
    "\<forall>ec \<in> set later. legal_call D ec \<and> snd ec \<noteq> Shutdown" "length later < 2 ^ 64 - 3"
    "run_calls exec_call later s1 = Some (s2, rs)"
  shows "scma_contents s2 h = None"
proof -
  have ok: "scma_ok D s" using reached_ok [OF assms(1)] .
  have init: "sc_initialised s" using assms(2) contents_off [of s] by fastforce
  obtain i where v: "scma_validate_handle h s = Some i" using assms(2) by (auto simp: scma_contents_def)
  obtain ls fs where st: "settled D s ls fs" using reached_settled [OF assms(1) init] .
  note V = validate_live [OF st v]
  define g where "g = sh_generation h"
  have g: "g \<noteq> 0" "g \<noteq> -1" "gens s ! i = g"
    using coreD(10) [OF settledD(1) [OF st] V(2)] V(8) gens_nth [OF V(2)] by (simp_all add: g_def)
  have ec: "exec_call (env, Free h) s = Some (s1, Code FT_ERR_SUCCESS)"
    using assms(4) by (simp add: exec_call_def scma_exec_def)
  have S1: "scma_ok D s1" "sc_initialised s1" using call_initialised [OF ok init assms(3) _ ec] by simp_all
  have g1: "gens s1 ! i = scma_next_generation g" "i < length (gens s1)"
    using gens_free [OF assms(4) refl] V(2,6) g(3) by (simp_all add: gens_def)
  obtain m where m: "m \<le> length later" "gens s2 ! i = (scma_next_generation ^^ m) (scma_next_generation g)"
    "i < length (gens s2)" using run_generations [OF S1 assms(5,7) g1(2)] g1(1) by auto
  have "(scma_next_generation ^^ Suc m) g \<noteq> g"
    by (rule generations_differ [OF g(1,2)]) (use m(1) assms(6) in simp_all)
  then have "gens s2 ! i \<noteq> g" using m(2) by (simp add: funpow_swap1)
  moreover have "i < length (sc_blocks s2)" using m(3) by (simp add: gens_def)
  ultimately have "scma_validate_handle h s2 \<noteq> Some k" for k
    using V(6) by (auto simp: validate_handle_iff gens_def g_def)
  then have "scma_validate_handle h s2 = None" by blast
  then show ?thesis by (simp add: scma_contents_def)
qed

theorem freed_handle_stays_stale_witness:
  "\<exists>s2 rs. run_calls exec_call [(calm_env, Allocate 3), (calm_env, Allocate 2)] demo_state = Some (s2, rs)
    \<and> scma_contents s2 first_handle = None"
proof -
  let ?w = "two_blocks\<lparr>sc_heap := [1, 2, 3] @ replicate 5 0\<rparr>" and ?later = "[(calm_env, Allocate 3), (calm_env, Allocate 2)]"
  have legal: "legal_call {0} (calm_env, c)" if "c \<in> {Allocate 3, Allocate 2, Free first_handle}" for c
    by (rule calm_legal) (use that in \<open>auto simp: request_ok_def\<close>)
  obtain s2 rs where run: "run_calls exec_call ?later demo_state = Some (s2, rs)"
    using scma_calls.run_refines [OF reached_ok [OF demo_reached(1)], of ?later] legal by auto
  have "scma_contents ?w first_handle \<noteq> None"
    by (simp add: scma_contents_def scma_validate_handle_def two_blocks_def first_handle_def scma_handle_is_invalid_def)
  moreover have "scma_free calm_env first_handle ?w = Some (demo_state, FT_ERR_SUCCESS)"
    using demo_free_run by (auto simp: exec_call_def scma_exec_def)
  ultimately have "scma_contents s2 first_handle = None"
    using freed_handle_stays_stale [OF demo_reached(3), of first_handle calm_env demo_state ?later s2 rs] legal run by simp
  then show ?thesis using run by blast
qed

text \<open>
  C37: Compaction empties the list of free blocks, and a descriptor in no list is never used again: however
  many descriptors are unused, the allocation after a compaction makes a new one.
\<close>

theorem compaction_forgets_descriptors:
  assumes "scma_reached D calls s" "sc_initialised s" "scma_compact s = Some (s1, e)"
    "legal_call D (env, Allocate sz)" "scma_allocate env sz s1 = Some (s2, h)" "\<not> scma_handle_is_invalid h"
  shows "sc_free s1 = None \<and> length (sc_blocks s1) = length (sc_blocks s)
    \<and> length (sc_blocks s2) = length (sc_blocks s) + 1"
proof -
  obtain ls fs where st: "settled D s ls fs" using reached_settled [OF assms(1,2)] .
  note S = settledD [OF st]
  have "interrupted_ok s" using S(3) by (simp add: interrupted_ok_def)
  then have s1: "core s1 ls" "compacted s s1" using compact_effect [OF S(1) _ S(2,4)] assms(3) by auto
  have z: "0 \<in> D" "scma_env_ok env" "fresh_from env D" using assms(4) by (simp_all add: legal_call_def)
  have st1: "settled D s1 ls []" by (rule settled_compacted [OF st s1 z(1)])
  note C1 = coreD [OF s1(1)]
  have free1: "sc_free s1 = None" "length (sc_blocks s1) = length (sc_blocks s)" using s1(2) by (simp_all add: compacted_def)
  have inv: "scma_handle_is_invalid scma_invalid_handle" by (simp add: scma_handle_is_invalid_def scma_invalid_handle_def)
  have take: "scma_take_free_span env sz s1 = Some (s1, FT_ERR_SUCCESS, None)" if "0 < sz"
    using that free1(1) by (simp add: scma_take_free_span_def scma_reconcile_free_spans_def loop_ends)
  have g: "se_lock env" "0 < sz" "sz \<le> FT_SYSTEM_SIZE_MAX" "\<not> (sc_used s1 + sz) mod 2 ^ 64 < sc_used s1"
    using assms(5,6) inv by (auto simp: scma_allocate_def split: if_splits)
  have fit: "sc_used s1 + sz \<le> FT_SYSTEM_SIZE_MAX" using no_wrap [OF s1(1)] g by simp
  have "scma_allocate env sz s1 = allocate_fresh env sz s1"
    using g C1(1) take by (simp add: scma_allocate_def)
  then have "length (sc_blocks s2) = length (sc_blocks s1) + 1"
    using allocate_fresh_effect [OF z(2,3) st1 z(1) g(2) fit] assms(5,6) inv by auto
  then show ?thesis using free1 by simp
qed

theorem compaction_forgets_descriptors_witness:
  "\<exists>s1 s2 h. scma_compact demo_state = Some (s1, FT_ERR_SUCCESS) \<and> scma_allocate calm_env 3 s1 = Some (s2, h)
    \<and> sc_free s1 = None \<and> length (sc_blocks s2) = length (sc_blocks demo_state) + 1"
proof -
  have ini: "sc_initialised demo_state" by (simp add: demo_state_def)
  obtain ls fs where st: "settled {0} demo_state ls fs" using reached_settled [OF demo_reached(1) ini] .
  note S = settledD [OF st]
  have "interrupted_ok demo_state" using S(3) by (simp add: interrupted_ok_def)
  then obtain s1 where s1: "scma_compact demo_state = Some (s1, FT_ERR_SUCCESS)" "core s1 ls" "compacted demo_state s1"
    using compact_effect [OF S(1) _ S(2,4)] by blast
  have st1: "settled {0} s1 ls []" by (rule settled_compacted [OF st s1(2,3)]) simp
  have lc: "legal_call {0} (calm_env, Allocate 3)" by (rule calm_legal) (simp add: request_ok_def)
  have "sc_used s1 \<le> 8" "length (sc_blocks s1) = 2" using s1(3) by (simp_all add: compacted_def demo_state_def)
  then obtain s2 h where a: "scma_allocate calm_env 3 s1 = Some (s2, h)" "allocated {0} s1 3 s2 h"
    using allocate_effect [OF _ _ st1, of calm_env 3] lc
    by (auto simp: legal_call_def memory_granted_def calm_env_def FT_SYSTEM_SIZE_MAX_def sizeof_scma_block_def)
  then show ?thesis
    using compaction_forgets_descriptors [OF demo_reached(1) ini s1(1) lc a(1)] s1(1)
    by (simp add: allocated_def)
qed

text \<open>Appending a block adds one descriptor of the first generation.\<close>

lemma link_at_tail_simps:
  "length (sc_blocks (scma_link_block_at_tail i s)) = length (sc_blocks s)" "sc_free (scma_link_block_at_tail i s) = sc_free s"
  "sc_needed (scma_link_block_at_tail i s) = sc_needed s" "sc_used (scma_link_block_at_tail i s) = sc_used s"
  by (simp_all add: scma_link_block_at_tail_def update_block_def Let_def split: option.splits)

lemma append_block_first_generation:
  assumes "append_block env sz s = Some (s1, h)" "\<not> scma_handle_is_invalid h" "sc_free s = None"
  shows "h = \<lparr>sh_index = of_nat (length (sc_blocks s)), sh_generation = 1\<rparr> \<and> length (sc_blocks s1) = length (sc_blocks s) + 1
    \<and> sc_free s1 = None \<and> sc_needed s1 = sc_needed s \<and> sc_used s1 = sc_used s + sz"
proof -
  have inv: "scma_handle_is_invalid scma_invalid_handle" by (simp add: scma_handle_is_invalid_def scma_invalid_handle_def)
  obtain s2 g where e: "scma_ensure_block_capacity env (length (sc_blocks s) + 1) s = Some (s2, g)"
    using assms(1,3) by (auto simp: append_block_def scma_discard_free_spans_from_def loop_ends bind_eq_Some_conv)
  have s2: "sc_blocks s2 = sc_blocks s" "sc_free s2 = sc_free s" "sc_needed s2 = sc_needed s" "sc_used s2 = sc_used s"
    using e by (auto simp: scma_ensure_block_capacity_def bind_eq_Some_conv split: if_splits)
  show ?thesis
    using assms inv e s2
    by (auto simp: append_block_def scma_discard_free_spans_from_def loop_ends Let_def link_at_tail_simps split: if_splits)
qed

lemma allocate_first_generation:
  assumes "scma_allocate env sz s = Some (s1, h)" "\<not> scma_handle_is_invalid h" "sc_free s = None" "\<not> sc_needed s"
  shows "h = \<lparr>sh_index = of_nat (length (sc_blocks s)), sh_generation = 1\<rparr> \<and> length (sc_blocks s1) = length (sc_blocks s) + 1
    \<and> sc_free s1 = None \<and> \<not> sc_needed s1 \<and> sc_used s1 = sc_used s + sz"
proof -
  have inv: "scma_handle_is_invalid scma_invalid_handle" by (simp add: scma_handle_is_invalid_def scma_invalid_handle_def)
  have g: "se_lock env" "sc_initialised s" "0 < sz" "sz \<le> FT_SYSTEM_SIZE_MAX" "\<not> (sc_used s + sz) mod 2 ^ 64 < sc_used s"
    using assms(1,2) inv by (auto simp: scma_allocate_def split: if_splits)
  then have "scma_take_free_span env sz s = Some (s, FT_ERR_SUCCESS, None)"
    using assms(3) by (simp add: scma_take_free_span_def scma_reconcile_free_spans_def loop_ends)
  then have f: "allocate_fresh env sz s = Some (s1, h)" using assms(1) g by (simp add: scma_allocate_def)
  obtain s3 b where c: "scma_ensure_capacity env ((sc_used s + sz) mod 2 ^ 64) s = Some (s3, b)"
    using f assms(4) by (auto simp: allocate_fresh_def compact_if_needed_def compact_if_full_def bind_eq_Some_conv)
  have s3: "sc_blocks s3 = sc_blocks s" "sc_free s3 = sc_free s" "sc_needed s3 = sc_needed s" "sc_used s3 = sc_used s"
    using c by (auto simp: scma_ensure_capacity_def bind_eq_Some_conv split: if_splits option.splits)
  have "append_block env sz s3 = Some (s1, h)"
    using f c assms(2,4) inv by (auto simp: allocate_fresh_def compact_if_needed_def compact_if_full_def split: if_splits)
  from append_block_first_generation [OF this assms(2)] show ?thesis using s3 assms(3,4) by simp
qed

definition allocations :: "scma_env \<Rightarrow> nat list \<Rightarrow> (scma_env \<times> scma_call) list" where
  "allocations env sizes = map (\<lambda>sz. (env, Allocate sz)) sizes"

lemma run_allocations:
  assumes "legal_call D (env, Allocate 0)" "memory_granted env"
  shows "settled D s ls fs \<Longrightarrow> sc_free s = None \<Longrightarrow> \<not> sc_needed s \<Longrightarrow> \<forall>sz \<in> set sizes. 0 < sz
    \<Longrightarrow> sc_used s + sum_list sizes < FT_SYSTEM_SIZE_MAX
    \<Longrightarrow> length (sc_blocks s) + length sizes \<le> FT_SYSTEM_SIZE_MAX div sizeof_scma_block
    \<Longrightarrow> \<exists>s1. run_calls exec_call (allocations env sizes) s
        = Some (s1, map (\<lambda>i. Handle \<lparr>sh_index = of_nat i, sh_generation = 1\<rparr>) [length (sc_blocks s)..<length (sc_blocks s) + length sizes])
      \<and> (sizes \<noteq> [] \<longrightarrow> (\<exists>bs. length bs = last sizes
           \<and> scma_contents s1 \<lparr>sh_index = of_nat (length (sc_blocks s) + length sizes - 1), sh_generation = 1\<rparr> = Some bs))"
proof (induction sizes arbitrary: s ls fs)
  case (Cons sz sizes)
  have lim: "sc_used s + sz < FT_SYSTEM_SIZE_MAX" "length (sc_blocks s) < FT_SYSTEM_SIZE_MAX div sizeof_scma_block" "0 < sz"
    using Cons.prems(4-6) by auto
  obtain s1 h ms gs where a: "scma_allocate env sz s = Some (s1, h)" "settled D s1 ms gs" "allocated D s sz s1 h"
    using allocate_effect [OF _ _ Cons.prems(1), of env sz] assms lim unfolding legal_call_def by auto
  have v: "\<not> scma_handle_is_invalid h" using a(3) by (simp add: allocated_def)
  note f = allocate_first_generation [OF a(1) v Cons.prems(2,3)]
  have e: "exec_call (env, Allocate sz) s = Some (s1, Handle h)" using a(1) by (simp add: exec_call_def scma_exec_def)
  obtain s2 where s2: "run_calls exec_call (allocations env sizes) s1
        = Some (s2, map (\<lambda>i. Handle \<lparr>sh_index = of_nat i, sh_generation = 1\<rparr>) [length (sc_blocks s1)..<length (sc_blocks s1) + length sizes])"
    "sizes \<noteq> [] \<longrightarrow> (\<exists>bs. length bs = last sizes
       \<and> scma_contents s2 \<lparr>sh_index = of_nat (length (sc_blocks s1) + length sizes - 1), sh_generation = 1\<rparr> = Some bs)"
    using Cons.IH [OF a(2)] f Cons.prems(4-6) by auto
  have r: "run_calls exec_call (allocations env (sz # sizes)) s
      = Some (s2, map (\<lambda>i. Handle \<lparr>sh_index = of_nat i, sh_generation = 1\<rparr>) [length (sc_blocks s)..<length (sc_blocks s) + length (sz # sizes)])"
  proof -
    have "[length (sc_blocks s)..<length (sc_blocks s) + length (sz # sizes)]
        = length (sc_blocks s) # [length (sc_blocks s1)..<length (sc_blocks s1) + length sizes]"
      using f by (simp add: upt_conv_Cons del: upt_Suc)
    then show ?thesis using e s2(1) f by (simp add: allocations_def del: upt_Suc)
  qed
  show ?case
  proof (cases "sizes = []")
    case True
    then have "s2 = s1" using s2(1) by (simp add: allocations_def)
    then show ?thesis using r True a(3) f by (auto simp: allocated_def)
  next
    case False
    then show ?thesis using r s2(2) f by (auto intro!: exI [of _ s2])
  qed
qed (simp add: allocations_def)

text \<open>
  C38: Generations start again after a shutdown, so a stale handle comes back to life: take any handle that was
  valid before the shutdown and names the first generation of its descriptor. After a shutdown and a new initialisation,
  which make it invalid, allocating as many blocks as its index asks for returns that same handle, and it names a
  block of the new session.
\<close>

theorem shutdown_revives_handles:
  assumes "scma_reached D calls s" "scma_contents s h \<noteq> None" "sh_generation h = 1"
    and "legal_call D (env, Allocate 0)" "memory_granted env" "se_thread_safety env = FT_ERR_SUCCESS"
    and "se_malloc env capacity \<noteq> None" "0 < capacity" "capacity \<le> FT_SYSTEM_SIZE_MAX"
    and "length sizes = unat (sh_index h) + 1" "\<forall>sz \<in> set sizes. 0 < sz" "sum_list sizes < FT_SYSTEM_SIZE_MAX"
    and "length sizes \<le> FT_SYSTEM_SIZE_MAX div sizeof_scma_block"
  shows "\<exists>s1 s2 rs bs. run_calls exec_call [(env, Shutdown), (env, Initialize capacity)] s = Some (s1, [Done, Code FT_ERR_SUCCESS])
    \<and> scma_contents s1 h = None
    \<and> run_calls exec_call (allocations env sizes) s1 = Some (s2, rs) \<and> last rs = Handle h
    \<and> scma_contents s2 h = Some bs \<and> length bs = last sizes"
proof -
  have init: "sc_initialised s" using assms(2) contents_off [of s] by fastforce
  have lock: "se_lock env" using assms(5) by (simp add: memory_granted_def)
  obtain hp where hp: "se_malloc env capacity = Some hp" using assms(7) by blast
  define s1 where "s1 = \<lparr>sc_heap = hp, sc_blocks = [], sc_block_capacity = 0, sc_used = 0, sc_live = 0, sc_head = None,
    sc_tail = None, sc_free = None, sc_needed = False, sc_cursor = None, sc_target = 0, sc_initialised = True\<rparr>"
  have env: "scma_env_ok env" "fresh_from env D" using assms(4) by (simp_all add: legal_call_def)
  note st = initialize_settled [OF env hp assms(9), folded s1_def]
  have run: "run_calls exec_call [(env, Shutdown), (env, Initialize capacity)] s = Some (s1, [Done, Code FT_ERR_SUCCESS])"
    using init lock assms(6,8,9) hp
    by (simp add: exec_call_def scma_exec_def scma_shutdown_def scma_initialize_def scma_state_initial_def s1_def)
  have ne: "sizes \<noteq> []" using assms(10) by auto
  have h: "h = \<lparr>sh_index = of_nat (length sizes - 1), sh_generation = 1\<rparr>" using assms(3,10) by simp
  obtain s2 where s2: "run_calls exec_call (allocations env sizes) s1
      = Some (s2, map (\<lambda>i. Handle \<lparr>sh_index = of_nat i, sh_generation = 1\<rparr>) [0..<length sizes])"
    "\<exists>bs. length bs = last sizes \<and> scma_contents s2 h = Some bs"
    using run_allocations [OF assms(4,5) st(1), of sizes] assms(11-13) ne h by (auto simp: s1_def)
  have "last (map (\<lambda>i. Handle \<lparr>sh_index = of_nat i, sh_generation = 1\<rparr>) [0..<length sizes]) = Handle h"
    using ne h by (simp add: last_map)
  then show ?thesis using run st(2) s2 by auto
qed

theorem shutdown_revives_handles_witness:
  "\<exists>s1 s2 rs bs. run_calls exec_call [(calm_env, Shutdown), (calm_env, Initialize 4)] demo_state = Some (s1, [Done, Code FT_ERR_SUCCESS])
    \<and> scma_contents s1 second_handle = None
    \<and> run_calls exec_call (allocations calm_env [6, 2]) s1 = Some (s2, rs) \<and> last rs = Handle second_handle
    \<and> scma_contents s2 second_handle = Some bs \<and> length bs = 2"
proof -
  have "scma_contents demo_state second_handle \<noteq> None"
    by (simp add: scma_contents_def scma_validate_handle_def demo_state_def second_handle_def scma_handle_is_invalid_def)
  moreover have "legal_call {0} (calm_env, Allocate 0)" by (rule calm_legal) (simp add: request_ok_def)
  ultimately show ?thesis
    using shutdown_revives_handles [OF demo_reached(1), of second_handle calm_env 4 "[6, 2]"]
    by (simp add: second_handle_def memory_granted_def calm_env_def FT_SYSTEM_SIZE_MAX_def sizeof_scma_block_def)
qed
end
