(* ===== verification/Csv.thy ===== *)
theory Csv
  imports Basic_Parse
begin

text \<open>
  \<^verbatim>\<open>src/Modules/CSV/csv.cpp\<close>: the scanner for comma-separated text, the writer, the class
  \<open>ft_csv_document\<close> and the two free functions. A C string is a byte list as in \<open>Basic_String\<close>. Aborts
  on a wrong lifecycle state and undefined arithmetic are \<^term>\<open>None\<close>.

  The document keeps three vectors. Of a vector this file uses its elements and its lifecycle state; whether
  an element can be added is decided by the environment, which answers each append and each push by the
  position at which it happens: the number of characters still to be read (at least one inside the loop, zero
  after it), or the length of the output so far.
\<close>

subsection \<open>Environment, vectors, appends\<close>

record csv_env =
  ce_append :: "nat \<Rightarrow> ft_err"
  ce_push_field :: "nat \<Rightarrow> ft_err"
  ce_push_offset :: "nat \<Rightarrow> ft_err"
  ce_push_length :: "nat \<Rightarrow> ft_err"
  ce_copy_fields :: ft_err
  ce_copy_offsets :: ft_err
  ce_copy_lengths :: ft_err
  ce_copy_strings :: ft_err
  ce_move_strings :: ft_err
  ce_malloc :: "nat \<Rightarrow> bool"

record 'a csv_vector =
  cv_items :: "'a list"
  cv_state :: class_state

definition cv_initialize :: "'a csv_vector \<Rightarrow> 'a csv_vector option" where
  "cv_initialize v =
     (if cv_state v = Initialised then None else Some \<lparr>cv_items = [], cv_state = Initialised\<rparr>)"

definition cv_destroy :: "'a csv_vector \<Rightarrow> 'a csv_vector" where
  "cv_destroy v = (if cv_state v \<noteq> Initialised then v else \<lparr>cv_items = [], cv_state = Destroyed\<rparr>)"

text \<open>
  Copying reserves the room first, with the code \<open>reserved\<close>, and constructs the elements, with the code \<open>constructed\<close>; moving out
  of the inline buffer constructs elements too. A failed reservation is reported. After a failed construction the new
  elements are destroyed and \<open>unlock_internal\<close> sets the last error to success before it is read and
  returned, so the call reports success without the elements.
\<close>

definition cv_initialize_copy ::
  "ft_err \<Rightarrow> ft_err \<Rightarrow> 'a csv_vector \<Rightarrow> 'a csv_vector \<Rightarrow> ('a csv_vector \<times> ft_err) option" where
  "cv_initialize_copy reserved constructed v other =
     (case cv_initialize v of
        None \<Rightarrow> None
      | Some v1 \<Rightarrow>
          if reserved \<noteq> FT_ERR_SUCCESS then Some (v1, reserved)
          else if constructed \<noteq> FT_ERR_SUCCESS then Some (v1, FT_ERR_SUCCESS)
          else Some (v1\<lparr>cv_items := cv_items other\<rparr>, FT_ERR_SUCCESS))"

definition cv_move ::
  "ft_err \<Rightarrow> 'a csv_vector \<Rightarrow> 'a csv_vector \<Rightarrow> ('a csv_vector \<times> 'a csv_vector \<times> ft_err) option" where
  "cv_move constructed v other =
     (if cv_state other = Uninitialised then None
      else if cv_state other = Destroyed
      then Some ((cv_destroy v)\<lparr>cv_state := Destroyed\<rparr>, other, FT_ERR_SUCCESS)
      else case cv_initialize (cv_destroy v) of
        None \<Rightarrow> None
      | Some v1 \<Rightarrow>
          if constructed \<noteq> FT_ERR_SUCCESS
          then Some (v1\<lparr>cv_state := Destroyed\<rparr>, other, FT_ERR_SUCCESS)
          else Some (v1\<lparr>cv_items := cv_items other\<rparr>, \<lparr>cv_items = [], cv_state = Destroyed\<rparr>,
                     FT_ERR_SUCCESS))"

text \<open>\<open>operator[]\<close> gives a default element when the index is out of range.\<close>

definition cv_at :: "'a \<Rightarrow> 'a csv_vector \<Rightarrow> nat \<Rightarrow> 'a" where
  "cv_at fallback v i = (if i < length (cv_items v) then cv_items v ! i else fallback)"

definition append_char :: "csv_env \<Rightarrow> bytes \<Rightarrow> u8 \<Rightarrow> bytes \<times> ft_err" where
  "append_char env output c =
     (if ce_append env (length output) \<noteq> FT_ERR_SUCCESS then (output, ce_append env (length output))
      else (output @ [c], FT_ERR_SUCCESS))"

definition append_text :: "csv_env \<Rightarrow> bytes \<Rightarrow> bytes \<Rightarrow> bytes \<times> ft_err" where
  "append_text env output xs =
     (if xs = [] then (output, FT_ERR_SUCCESS)
      else if ce_append env (length output) \<noteq> FT_ERR_SUCCESS then (output, ce_append env (length output))
      else (output @ xs, FT_ERR_SUCCESS))"

subsection \<open>Fields\<close>

definition csv_duplicate_c_string :: "csv_env \<Rightarrow> ptr \<Rightarrow> ptr" where
  "csv_duplicate_c_string env text =
     (case text of
        None \<Rightarrow> None
      | Some s \<Rightarrow> if ce_malloc env (length (cstr s) + 1) then Some (cstr s @ [0]) else None)"

definition csv_is_space_character :: "u8 \<Rightarrow> bool" where
  "csv_is_space_character c \<longleftrightarrow> c = 0x20 \<or> c = 0x09 \<or> c = 0x0B \<or> c = 0x0C"

fun quotes_loop :: "u8 \<Rightarrow> bytes \<Rightarrow> bool" where
  "quotes_loop delimiter [] = False"
| "quotes_loop delimiter (c # cs) =
     (if c = delimiter \<or> c = 0x22 \<or> c = 0x0A \<or> c = 0x0D then True else quotes_loop delimiter cs)"

definition csv_field_needs_quotes :: "ptr \<Rightarrow> u8 \<Rightarrow> bool" where
  "csv_field_needs_quotes field delimiter =
     (case field of
        None \<Rightarrow> False
      | Some s \<Rightarrow>
          let length = ft_strlen_raw s
          in if length = 0 then True
             else if csv_is_space_character (c_at s 0) then True
             else if csv_is_space_character (c_at s (length - 1)) then True
             else quotes_loop delimiter (take length s))"

text \<open>The bytes between the quotes, a quote doubled.\<close>

fun escape_loop :: "csv_env \<Rightarrow> bytes \<Rightarrow> bytes \<Rightarrow> bytes \<times> ft_err" where
  "escape_loop env [] output = (output, FT_ERR_SUCCESS)"
| "escape_loop env (c # cs) output =
     (let (output1, e1) = (if c = 0x22 then append_char env output 0x22 else (output, FT_ERR_SUCCESS))
      in if e1 \<noteq> FT_ERR_SUCCESS then (output1, e1)
         else let (output2, e2) = append_char env output1 c
              in if e2 \<noteq> FT_ERR_SUCCESS then (output2, e2) else escape_loop env cs output2)"

definition append_quoted :: "csv_env \<Rightarrow> bytes \<Rightarrow> bytes \<Rightarrow> bytes \<times> ft_err" where
  "append_quoted env output s =
     (let (output1, e1) = append_char env output 0x22
      in if e1 \<noteq> FT_ERR_SUCCESS then (output1, e1)
         else let (output2, e2) = escape_loop env (take (ft_strlen_raw s) s) output1
              in if e2 \<noteq> FT_ERR_SUCCESS then (output2, e2) else append_char env output2 0x22)"

definition csv_append_escaped_field :: "csv_env \<Rightarrow> bytes \<Rightarrow> ptr \<Rightarrow> u8 \<Rightarrow> bytes \<times> ft_err" where
  "csv_append_escaped_field env output field delimiter =
     (case field of
        None \<Rightarrow> (output, FT_ERR_INVALID_POINTER)
      | Some s \<Rightarrow>
          if \<not> csv_field_needs_quotes field delimiter
          then append_text env output (take (ft_strlen_raw s) s)
          else append_quoted env output s)"

definition csv_escape_field :: "csv_env \<Rightarrow> ptr \<Rightarrow> u8 \<Rightarrow> ptr" where
  "csv_escape_field env field delimiter =
     (case field of
        None \<Rightarrow> None
      | Some s \<Rightarrow>
          if \<not> csv_field_needs_quotes field delimiter then csv_duplicate_c_string env field
          else let (output, e) = append_quoted env [] s
               in if e \<noteq> FT_ERR_SUCCESS then None else csv_duplicate_c_string env (Some output))"

subsection \<open>The scanner\<close>

record csv_scan =
  cs_fields :: "bytes list"
  cs_offsets :: "nat list"
  cs_lengths :: "nat list"
  cs_current :: bytes
  cs_count :: nat
  cs_row_offset :: nat
  cs_started :: bool
  cs_in_quotes :: bool
  cs_closed :: bool

text \<open>A pushed field is copied and the current one emptied; \<open>ft_string::clear\<close> does not fail.\<close>

definition csv_finalize_field ::
  "csv_env \<Rightarrow> nat \<Rightarrow> bytes list \<Rightarrow> bytes \<Rightarrow> bytes list \<times> bytes \<times> ft_err" where
  "csv_finalize_field env k field_items current_field =
     (if ce_push_field env k \<noteq> FT_ERR_SUCCESS then (field_items, current_field, ce_push_field env k)
      else (field_items @ [current_field], [], FT_ERR_SUCCESS))"

definition csv_finalize_row ::
  "csv_env \<Rightarrow> nat \<Rightarrow> nat list \<Rightarrow> nat list \<Rightarrow> nat \<Rightarrow> nat \<Rightarrow> nat list \<times> nat list \<times> ft_err" where
  "csv_finalize_row env k row_offsets row_lengths row_offset row_length =
     (if row_length = 0 then (row_offsets, row_lengths, FT_ERR_SUCCESS)
      else if ce_push_offset env k \<noteq> FT_ERR_SUCCESS then (row_offsets, row_lengths, ce_push_offset env k)
      else if ce_push_length env k \<noteq> FT_ERR_SUCCESS
      then (row_offsets @ [row_offset], row_lengths, ce_push_length env k)
      else (row_offsets @ [row_offset], row_lengths @ [row_length], FT_ERR_SUCCESS))"

definition append_current :: "csv_env \<Rightarrow> nat \<Rightarrow> u8 \<Rightarrow> csv_scan \<Rightarrow> csv_scan \<times> ft_err" where
  "append_current env k c st =
     (if ce_append env k \<noteq> FT_ERR_SUCCESS then (st, ce_append env k)
      else (st\<lparr>cs_current := cs_current st @ [c]\<rparr>, FT_ERR_SUCCESS))"

definition end_field :: "csv_env \<Rightarrow> nat \<Rightarrow> csv_scan \<Rightarrow> csv_scan \<times> ft_err" where
  "end_field env k st =
     (let (field_items, current_field, e) = csv_finalize_field env k (cs_fields st) (cs_current st)
      in if e \<noteq> FT_ERR_SUCCESS then (st, e)
         else (st\<lparr>cs_fields := field_items, cs_current := current_field, cs_count := cs_count st + 1,
                 cs_closed := False, cs_started := False\<rparr>, FT_ERR_SUCCESS))"

definition end_row :: "csv_env \<Rightarrow> nat \<Rightarrow> csv_scan \<Rightarrow> csv_scan \<times> ft_err" where
  "end_row env k st =
     (let (st1, e1) = end_field env k st
      in if e1 \<noteq> FT_ERR_SUCCESS then (st1, e1)
         else let (offsets, lengths, e2) = csv_finalize_row env k (cs_offsets st1) (cs_lengths st1)
                    (cs_row_offset st1) (cs_count st1)
              in if e2 \<noteq> FT_ERR_SUCCESS then (st1\<lparr>cs_offsets := offsets, cs_lengths := lengths\<rparr>, e2)
                 else (st1\<lparr>cs_offsets := offsets, cs_lengths := lengths,
                         cs_row_offset := cs_row_offset st1 + cs_count st1, cs_count := 0\<rparr>,
                       FT_ERR_SUCCESS))"

text \<open>One pass of the loop at the character \<open>c\<close>, with the number of characters it consumes.\<close>

definition parse_step ::
  "csv_env \<Rightarrow> u8 \<Rightarrow> u8 \<Rightarrow> bytes \<Rightarrow> csv_scan \<Rightarrow> csv_scan \<times> ft_err \<times> nat" where
  "parse_step env delimiter c rest st =
     (let k = length rest + 1;
          consume = (\<lambda>n (st1, e). (st1, e, n));
          line_end = (if c = 0x0D \<and> c_at rest 0 = 0x0A then 2 else 1)
      in if cs_closed st
         then if c = delimiter then consume 1 (end_field env k st)
              else if c = 0x0A \<or> c = 0x0D then consume line_end (end_row env k st)
              else if csv_is_space_character c then (st, FT_ERR_SUCCESS, 1)
              else (st, FT_ERR_INVALID_OPERATION, 1)
         else if cs_in_quotes st
         then if c = 0x22
              then if c_at rest 0 = 0x22 then consume 2 (append_current env k 0x22 st)
                   else (st\<lparr>cs_in_quotes := False, cs_closed := True\<rparr>, FT_ERR_SUCCESS, 1)
              else consume 1 (append_current env k c st)
         else if c = delimiter then consume 1 (end_field env k st)
         else if c = 0x0A \<or> c = 0x0D then consume line_end (end_row env k st)
         else if c = 0x22
         then if cs_started st \<or> cs_current st \<noteq> [] then (st, FT_ERR_INVALID_OPERATION, 1)
              else (st\<lparr>cs_in_quotes := True, cs_started := True\<rparr>, FT_ERR_SUCCESS, 1)
         else case append_current env k c st of (st1, e) \<Rightarrow> (st1\<lparr>cs_started := True\<rparr>, e, 1))"

function parse_loop :: "csv_env \<Rightarrow> u8 \<Rightarrow> bytes \<Rightarrow> csv_scan \<Rightarrow> csv_scan \<times> ft_err" where
  "parse_loop env delimiter [] st = (st, FT_ERR_SUCCESS)"
| "parse_loop env delimiter (c # rest) st =
     (if c = 0 then (st, FT_ERR_SUCCESS)
      else let (st1, e, n) = parse_step env delimiter c rest st
           in if e \<noteq> FT_ERR_SUCCESS then (st1, e) else parse_loop env delimiter (drop (n - 1) rest) st1)"
  by pat_completeness auto
termination
  by (relation "measure (\<lambda>(env, d, text, st). length text)") auto

text \<open>What follows the loop: a field that has begun is closed, and with it the last row.\<close>

definition parse_finish :: "csv_env \<Rightarrow> csv_scan \<Rightarrow> csv_scan \<times> ft_err" where
  "parse_finish env st =
     (if cs_in_quotes st then (st, FT_ERR_INVALID_OPERATION)
      else let (st1, e1) = (if cs_started st \<or> cs_current st \<noteq> [] then end_field env 0 st else (st, FT_ERR_SUCCESS))
           in if e1 \<noteq> FT_ERR_SUCCESS then (st1, e1)
              else if cs_count st1 > 0
              then let (offsets, lengths, e2) = csv_finalize_row env 0 (cs_offsets st1) (cs_lengths st1)
                         (cs_row_offset st1) (cs_count st1)
                   in (st1\<lparr>cs_offsets := offsets, cs_lengths := lengths\<rparr>, e2)
              else (st1, FT_ERR_SUCCESS))"

end
