(* ===== verification/Csv_Document.thy ===== *)
theory Csv_Document
  imports Csv
begin

text \<open>
  The class \<open>ft_csv_document\<close> and \<open>csv_split_line\<close> of \<^verbatim>\<open>src/Modules/CSV/csv.cpp\<close>. The error of the last call
  is kept per thread and not per document. A method that ends in \<open>set_error\<close> returns the code it sets, so
  the new last error is the returned code; the other methods take the last error and give it back.
\<close>

record csv_document =
  cd_fields :: "bytes csv_vector"
  cd_offsets :: "nat csv_vector"
  cd_lengths :: "nat csv_vector"
  cd_delimiter :: u8
  cd_has_header :: bool
  cd_state :: class_state

definition csv_document_constructor :: csv_document where
  "csv_document_constructor =
     \<lparr>cd_fields = \<lparr>cv_items = [], cv_state = Uninitialised\<rparr>,
      cd_offsets = \<lparr>cv_items = [], cv_state = Uninitialised\<rparr>,
      cd_lengths = \<lparr>cv_items = [], cv_state = Uninitialised\<rparr>,
      cd_delimiter = 0x2C, cd_has_header = False, cd_state = Uninitialised\<rparr>"

subsection \<open>Lifecycle\<close>

definition csv_initialize :: "csv_document \<Rightarrow> (csv_document \<times> ft_err) option" where
  "csv_initialize doc =
     (if cd_state doc = Initialised then None
      else case cv_initialize (cd_fields doc) of
        None \<Rightarrow> None
      | Some field_items \<Rightarrow> (case cv_initialize (cd_offsets doc) of
          None \<Rightarrow> None
        | Some offsets \<Rightarrow> (case cv_initialize (cd_lengths doc) of
            None \<Rightarrow> None
          | Some lengths \<Rightarrow>
              Some (\<lparr>cd_fields = field_items, cd_offsets = offsets, cd_lengths = lengths, cd_delimiter = 0x2C,
                     cd_has_header = False, cd_state = Initialised\<rparr>, FT_ERR_SUCCESS))))"

definition destroy_vectors :: "csv_document \<Rightarrow> csv_document" where
  "destroy_vectors doc = doc\<lparr>cd_fields := cv_destroy (cd_fields doc),
     cd_offsets := cv_destroy (cd_offsets doc), cd_lengths := cv_destroy (cd_lengths doc)\<rparr>"

definition csv_destroy :: "csv_document \<Rightarrow> csv_document \<times> ft_err" where
  "csv_destroy doc =
     (if cd_state doc \<noteq> Initialised then (doc, FT_ERR_SUCCESS)
      else ((destroy_vectors doc)\<lparr>cd_delimiter := 0x2C, cd_has_header := False, cd_state := Destroyed\<rparr>,
            FT_ERR_SUCCESS))"

text \<open>The destructor restores the last error.\<close>

definition csv_document_destructor :: "ft_err \<Rightarrow> csv_document \<Rightarrow> csv_document \<times> ft_err" where
  "csv_document_destructor last_error doc = (fst (csv_destroy doc), last_error)"

definition scan_start :: "csv_document \<Rightarrow> csv_scan" where
  "scan_start doc = \<lparr>cs_fields = cv_items (cd_fields doc), cs_offsets = cv_items (cd_offsets doc),
     cs_lengths = cv_items (cd_lengths doc), cs_current = [], cs_count = 0, cs_row_offset = 0,
     cs_started = False, cs_in_quotes = False, cs_closed = False\<rparr>"

definition store_scan :: "csv_scan \<Rightarrow> csv_document \<Rightarrow> csv_document" where
  "store_scan st doc = doc\<lparr>cd_fields := (cd_fields doc)\<lparr>cv_items := cs_fields st\<rparr>,
     cd_offsets := (cd_offsets doc)\<lparr>cv_items := cs_offsets st\<rparr>,
     cd_lengths := (cd_lengths doc)\<lparr>cv_items := cs_lengths st\<rparr>\<rparr>"

definition parse_content ::
  "csv_env \<Rightarrow> ptr \<Rightarrow> u8 \<Rightarrow> bool \<Rightarrow> csv_document \<Rightarrow> csv_document \<times> ft_err" where
  "parse_content env content delimiter has_header doc =
     (case content of
        None \<Rightarrow> (doc, FT_ERR_INVALID_POINTER)
      | Some text \<Rightarrow>
          let (st1, e1) = parse_loop env delimiter text (scan_start doc)
          in if e1 \<noteq> FT_ERR_SUCCESS then (store_scan st1 doc, e1)
             else let (st2, e2) = parse_finish env st1
                  in if e2 \<noteq> FT_ERR_SUCCESS then (store_scan st2 doc, e2)
                     else ((store_scan st2 doc)\<lparr>cd_delimiter := delimiter, cd_has_header := has_header\<rparr>,
                           FT_ERR_SUCCESS))"

text \<open>The start of every \<open>initialize\<close> with contents: a live document is destroyed first.\<close>

definition csv_release :: "csv_document \<Rightarrow> csv_document" where
  "csv_release doc = (if cd_state doc = Initialised then fst (csv_destroy doc) else doc)"

definition csv_initialize_text ::
  "csv_env \<Rightarrow> ptr \<Rightarrow> u8 \<Rightarrow> bool \<Rightarrow> csv_document \<Rightarrow> (csv_document \<times> ft_err) option" where
  "csv_initialize_text env content delimiter has_header doc =
     (case csv_initialize (csv_release doc) of
        None \<Rightarrow> None
      | Some (doc1, e1) \<Rightarrow>
          if e1 \<noteq> FT_ERR_SUCCESS then Some (doc1, e1)
          else let (doc2, e2) = parse_content env content delimiter has_header doc1
               in if e2 \<noteq> FT_ERR_SUCCESS then Some (fst (csv_destroy doc2), e2)
                  else Some (doc2, FT_ERR_SUCCESS))"

text \<open>A source delivers an error or a string; a file does so for a path.\<close>

definition csv_initialize_source ::
  "csv_env \<Rightarrow> ft_err \<times> bytes \<Rightarrow> u8 \<Rightarrow> bool \<Rightarrow> csv_document \<Rightarrow> (csv_document \<times> ft_err) option" where
  "csv_initialize_source env source delimiter has_header doc =
     (if fst source \<noteq> FT_ERR_SUCCESS then Some (csv_release doc, fst source)
      else csv_initialize_text env (Some (snd source)) delimiter has_header (csv_release doc))"

definition csv_initialize_from_file ::
  "csv_env \<Rightarrow> (bytes \<Rightarrow> ft_err \<times> bytes) \<Rightarrow> ptr \<Rightarrow> u8 \<Rightarrow> bool \<Rightarrow> csv_document \<Rightarrow> (csv_document \<times> ft_err) option" where
  "csv_initialize_from_file env file_read_all file_path delimiter has_header doc =
     (case file_path of
        None \<Rightarrow> Some (csv_release doc, FT_ERR_INVALID_POINTER)
      | Some path \<Rightarrow> csv_initialize_source env (file_read_all path) delimiter has_header doc)"

text \<open>
  Copying. The last error read from the source at the end is the one \<open>initialize\<close> has just set, since it is
  shared; \<open>same\<close> when source and destination are one object.
\<close>

definition csv_initialize_copy ::
  "csv_env \<Rightarrow> bool \<Rightarrow> csv_document \<Rightarrow> csv_document \<Rightarrow> (csv_document \<times> ft_err) option" where
  "csv_initialize_copy env same doc other =
     (if cd_state other = Uninitialised then None
      else if same then Some (doc, FT_ERR_SUCCESS)
      else case csv_initialize (csv_release doc) of
        None \<Rightarrow> None
      | Some (doc1, e1) \<Rightarrow>
          if cd_state other = Destroyed
          then Some (doc1\<lparr>cd_delimiter := cd_delimiter other, cd_has_header := cd_has_header other,
                       cd_state := Destroyed\<rparr>, FT_ERR_SUCCESS)
          else case cv_initialize_copy (ce_copy_fields env) (ce_copy_strings env) (cd_fields doc1) (cd_fields other) of
            None \<Rightarrow> None
          | Some (field_items, e2) \<Rightarrow>
              if e2 \<noteq> FT_ERR_SUCCESS then Some (fst (csv_destroy (doc1\<lparr>cd_fields := field_items\<rparr>)), e2)
              else (case cv_initialize_copy (ce_copy_offsets env) FT_ERR_SUCCESS (cd_offsets doc1) (cd_offsets other) of
                None \<Rightarrow> None
              | Some (offsets, e3) \<Rightarrow>
                  if e3 \<noteq> FT_ERR_SUCCESS
                  then Some (fst (csv_destroy (doc1\<lparr>cd_fields := field_items, cd_offsets := offsets\<rparr>)), e3)
                  else (case cv_initialize_copy (ce_copy_lengths env) FT_ERR_SUCCESS (cd_lengths doc1) (cd_lengths other) of
                    None \<Rightarrow> None
                  | Some (lengths, e4) \<Rightarrow>
                      let doc2 = doc1\<lparr>cd_fields := field_items, cd_offsets := offsets, cd_lengths := lengths\<rparr>
                      in if e4 \<noteq> FT_ERR_SUCCESS then Some (fst (csv_destroy doc2), e4)
                         else Some (doc2\<lparr>cd_delimiter := cd_delimiter other,
                                cd_has_header := cd_has_header other\<rparr>, FT_ERR_SUCCESS))))"

text \<open>
  Moving. Vectors of numbers are moved without a copy that can fail; a failed move of the fields is not
  noticed, because the vector reports success.
\<close>

definition csv_move ::
  "csv_env \<Rightarrow> ft_err \<Rightarrow> bool \<Rightarrow> csv_document \<Rightarrow> csv_document
     \<Rightarrow> (csv_document \<times> csv_document \<times> ft_err) option" where
  "csv_move env last_error same doc other =
     (if cd_state other = Uninitialised then None
      else if same then Some (doc, other, FT_ERR_SUCCESS)
      else
        let doc1 = csv_release doc;
            last_error1 = (if cd_state doc = Initialised then FT_ERR_SUCCESS else last_error)
        in if cd_state other = Destroyed
           then Some (doc1\<lparr>cd_delimiter := cd_delimiter other, cd_has_header := cd_has_header other,
                        cd_state := Destroyed\<rparr>, other, last_error1)
           else case cv_move (ce_move_strings env) (cd_fields doc1) (cd_fields other) of
             None \<Rightarrow> None
           | Some (field_items, other_fields, e1) \<Rightarrow>
               let doc2 = doc1\<lparr>cd_fields := field_items\<rparr>; other2 = other\<lparr>cd_fields := other_fields\<rparr>
               in if e1 \<noteq> FT_ERR_SUCCESS
                  then Some ((destroy_vectors doc2)\<lparr>cd_state := Destroyed\<rparr>, other2, e1)
                  else (case cv_move FT_ERR_SUCCESS (cd_offsets doc2) (cd_offsets other2) of
                    None \<Rightarrow> None
                  | Some (offsets, other_offsets, e2) \<Rightarrow>
                      let doc3 = doc2\<lparr>cd_offsets := offsets\<rparr>; other3 = other2\<lparr>cd_offsets := other_offsets\<rparr>
                      in if e2 \<noteq> FT_ERR_SUCCESS
                         then Some ((destroy_vectors doc3)\<lparr>cd_state := Destroyed\<rparr>, other3, e2)
                         else (case cv_move FT_ERR_SUCCESS (cd_lengths doc3) (cd_lengths other3) of
                           None \<Rightarrow> None
                         | Some (lengths, other_lengths, e3) \<Rightarrow>
                             let doc4 = doc3\<lparr>cd_lengths := lengths\<rparr>; other4 = other3\<lparr>cd_lengths := other_lengths\<rparr>
                             in if e3 \<noteq> FT_ERR_SUCCESS
                                then Some ((destroy_vectors doc4)\<lparr>cd_state := Destroyed\<rparr>, other4, e3)
                                else Some (doc4\<lparr>cd_delimiter := cd_delimiter other,
                                             cd_has_header := cd_has_header other\<rparr>,
                                           other4\<lparr>cd_delimiter := 0x2C, cd_has_header := False,
                                             cd_state := Destroyed\<rparr>, FT_ERR_SUCCESS))))"

definition csv_initialize_move ::
  "csv_env \<Rightarrow> ft_err \<Rightarrow> bool \<Rightarrow> csv_document \<Rightarrow> csv_document
     \<Rightarrow> (csv_document \<times> csv_document \<times> ft_err) option" where
  "csv_initialize_move env last_error same doc other = csv_move env last_error same doc other"

subsection \<open>Queries\<close>

definition csv_live :: "csv_document \<Rightarrow> 'a \<Rightarrow> 'a option" where
  "csv_live doc result = (if cd_state doc = Initialised then Some result else None)"

definition row_count :: "csv_document \<Rightarrow> nat option" where
  "row_count doc = csv_live doc (length (cv_items (cd_lengths doc)))"

definition column_count :: "nat \<Rightarrow> csv_document \<Rightarrow> (nat \<times> ft_err) option" where
  "column_count row_index doc = csv_live doc
     (if row_index \<ge> length (cv_items (cd_lengths doc)) then (0, FT_ERR_OUT_OF_RANGE)
      else (cv_at 0 (cd_lengths doc) row_index, FT_ERR_SUCCESS))"

definition has_header :: "csv_document \<Rightarrow> bool option" where
  "has_header doc = csv_live doc (cd_has_header doc)"

definition csv_delimiter :: "csv_document \<Rightarrow> u8 option" where
  "csv_delimiter doc = csv_live doc (cd_delimiter doc)"

text \<open>A row is a pointer into the fields, here the fields from there on, and the number of its columns.\<close>

definition get_row :: "nat \<Rightarrow> csv_document \<Rightarrow> (bytes list option \<times> nat \<times> ft_err) option" where
  "get_row row_index doc = csv_live doc
     (if row_index \<ge> length (cv_items (cd_lengths doc)) then (None, 0, FT_ERR_OUT_OF_RANGE)
      else let row_offset = cv_at 0 (cd_offsets doc) row_index
           in if row_offset \<ge> length (cv_items (cd_fields doc)) then (None, 0, FT_ERR_OUT_OF_RANGE)
              else (Some (drop row_offset (cv_items (cd_fields doc))), cv_at 0 (cd_lengths doc) row_index,
                    FT_ERR_SUCCESS))"

definition field_lookup :: "nat \<Rightarrow> nat \<Rightarrow> csv_document \<Rightarrow> ptr \<times> ft_err" where
  "field_lookup row_index column_index doc =
     (if row_index \<ge> length (cv_items (cd_lengths doc)) then (None, FT_ERR_OUT_OF_RANGE)
      else if column_index \<ge> cv_at 0 (cd_lengths doc) row_index then (None, FT_ERR_OUT_OF_RANGE)
      else let field_index = cv_at 0 (cd_offsets doc) row_index + column_index
           in if field_index \<ge> length (cv_items (cd_fields doc)) then (None, FT_ERR_OUT_OF_RANGE)
              else (Some (cv_items (cd_fields doc) ! field_index), FT_ERR_SUCCESS))"

definition get_field :: "nat \<Rightarrow> nat \<Rightarrow> csv_document \<Rightarrow> (ptr \<times> ft_err) option" where
  "get_field row_index column_index doc = csv_live doc (field_lookup row_index column_index doc)"

text \<open>
  The search for a header: \<^term>\<open>None\<close> when it compares with the uninitialised string that \<open>operator[]\<close> gives
  outside the vector.
\<close>

fun header_loop :: "bytes list \<Rightarrow> nat \<Rightarrow> bytes \<Rightarrow> nat list \<Rightarrow> nat option option" where
  "header_loop field_items row_offset column_name [] = Some None"
| "header_loop field_items row_offset column_name (column_index # rest) =
     (if row_offset + column_index \<ge> length field_items then None
      else if field_items ! (row_offset + column_index) = cstr column_name then Some (Some column_index)
      else header_loop field_items row_offset column_name rest)"

definition find_header_column_index :: "ptr \<Rightarrow> csv_document \<Rightarrow> nat option option" where
  "find_header_column_index column_name doc =
     (case column_name of
        None \<Rightarrow> Some None
      | Some name \<Rightarrow>
          if \<not> cd_has_header doc then Some None
          else header_loop (cv_items (cd_fields doc)) (cv_at 0 (cd_offsets doc) 0) name
                 [0..<cv_at 0 (cd_lengths doc) 0])"

definition get_field_by_name :: "nat \<Rightarrow> ptr \<Rightarrow> csv_document \<Rightarrow> (ptr \<times> ft_err) option" where
  "get_field_by_name row_index column_name doc =
     (if cd_state doc \<noteq> Initialised then None
      else if column_name = None then Some (None, FT_ERR_INVALID_POINTER)
      else case find_header_column_index column_name doc of
        None \<Rightarrow> None
      | Some None \<Rightarrow>
          Some (None, if \<not> cd_has_header doc then FT_ERR_INVALID_OPERATION else FT_ERR_NOT_FOUND)
      | Some (Some column_index) \<Rightarrow> get_field row_index column_index doc)"

definition get_header :: "nat \<Rightarrow> ft_err \<Rightarrow> csv_document \<Rightarrow> (ptr \<times> ft_err) option" where
  "get_header column_index last_error doc =
     (case has_header doc of
        None \<Rightarrow> None
      | Some False \<Rightarrow> Some (None, last_error)
      | Some True \<Rightarrow> get_field 0 column_index doc)"

subsection \<open>Typed fields\<close>

text \<open>
  A parser gets the field and the cell for the value (\<^term>\<open>None\<close> is a null pointer) and gives the code and
  the cell. \<open>strtod\<close> is a parameter: the value and the end of the number.
\<close>

definition whole_field :: "bytes \<Rightarrow> nat option \<Rightarrow> bool" where
  "whole_field field end_pointer \<longleftrightarrow>
     \<not> (end_pointer = None \<or> end_pointer = Some 0 \<or> c_at field (the end_pointer) \<noteq> 0)"

definition csv_parse_int64_field :: "bytes \<Rightarrow> int option \<Rightarrow> (ft_err \<times> int option) option" where
  "csv_parse_int64_field field value_out =
     (if value_out = None then Some (FT_ERR_INVALID_POINTER, value_out)
      else case ft_strtol (Some field) 10 of
        (None, end_pointer) \<Rightarrow> None
      | (Some parsed_value, end_pointer) \<Rightarrow>
          Some (if \<not> whole_field field end_pointer then (FT_ERR_INVALID_ARGUMENT, value_out)
                else (FT_ERR_SUCCESS, Some parsed_value)))"

definition csv_parse_uint64_field :: "bytes \<Rightarrow> u64 option \<Rightarrow> (ft_err \<times> u64 option) option" where
  "csv_parse_uint64_field field value_out =
     (if value_out = None then Some (FT_ERR_INVALID_POINTER, value_out)
      else let (parsed_value, end_pointer) = ft_strtoul (Some field) 10
           in Some (if \<not> whole_field field end_pointer then (FT_ERR_INVALID_ARGUMENT, value_out)
                    else (FT_ERR_SUCCESS, Some parsed_value)))"

definition csv_parse_double_field ::
  "(bytes \<Rightarrow> 'd \<times> nat option) \<Rightarrow> bytes \<Rightarrow> 'd option \<Rightarrow> (ft_err \<times> 'd option) option" where
  "csv_parse_double_field strtod field value_out =
     (if value_out = None then Some (FT_ERR_INVALID_POINTER, value_out)
      else let (parsed_value, end_pointer) = strtod field
           in Some (if \<not> whole_field field end_pointer then (FT_ERR_INVALID_ARGUMENT, Some parsed_value)
                    else (FT_ERR_SUCCESS, Some parsed_value)))"

definition is_text :: "bytes \<Rightarrow> bytes \<Rightarrow> bool" where
  "is_text field text \<longleftrightarrow> ft_strcmp (Some field) (Some text) = 0"

definition csv_parse_bool_field :: "bytes \<Rightarrow> bool option \<Rightarrow> (ft_err \<times> bool option) option" where
  "csv_parse_bool_field field value_out =
     (if value_out = None then Some (FT_ERR_INVALID_POINTER, value_out)
      else if is_text field [0x31] \<or> is_text field [0x74, 0x72, 0x75, 0x65]
              \<or> is_text field [0x79, 0x65, 0x73] \<or> is_text field [0x6F, 0x6E]
      then Some (FT_ERR_SUCCESS, Some True)
      else if is_text field [0x30] \<or> is_text field [0x66, 0x61, 0x6C, 0x73, 0x65]
              \<or> is_text field [0x6E, 0x6F] \<or> is_text field [0x6F, 0x66, 0x66]
      then Some (FT_ERR_SUCCESS, Some False)
      else Some (FT_ERR_INVALID_ARGUMENT, value_out))"

definition get_value ::
  "(bytes \<Rightarrow> 'v option \<Rightarrow> (ft_err \<times> 'v option) option) \<Rightarrow> (ptr \<times> ft_err) option \<Rightarrow> 'v option
     \<Rightarrow> csv_document \<Rightarrow> (ft_err \<times> 'v option) option" where
  "get_value parser found value_out doc =
     (if cd_state doc \<noteq> Initialised then None
      else if value_out = None then Some (FT_ERR_INVALID_POINTER, value_out)
      else case found of
        None \<Rightarrow> None
      | Some (None, e) \<Rightarrow> Some (e, value_out)
      | Some (Some field, e) \<Rightarrow> parser field value_out)"

definition get_int64 :: "nat \<Rightarrow> nat \<Rightarrow> int option \<Rightarrow> csv_document \<Rightarrow> (ft_err \<times> int option) option" where
  "get_int64 row_index column_index value_out doc =
     get_value csv_parse_int64_field (get_field row_index column_index doc) value_out doc"

definition get_int64_by_name :: "nat \<Rightarrow> ptr \<Rightarrow> int option \<Rightarrow> csv_document \<Rightarrow> (ft_err \<times> int option) option" where
  "get_int64_by_name row_index column_name value_out doc =
     get_value csv_parse_int64_field (get_field_by_name row_index column_name doc) value_out doc"

definition get_uint64 :: "nat \<Rightarrow> nat \<Rightarrow> u64 option \<Rightarrow> csv_document \<Rightarrow> (ft_err \<times> u64 option) option" where
  "get_uint64 row_index column_index value_out doc =
     get_value csv_parse_uint64_field (get_field row_index column_index doc) value_out doc"

definition get_uint64_by_name :: "nat \<Rightarrow> ptr \<Rightarrow> u64 option \<Rightarrow> csv_document \<Rightarrow> (ft_err \<times> u64 option) option" where
  "get_uint64_by_name row_index column_name value_out doc =
     get_value csv_parse_uint64_field (get_field_by_name row_index column_name doc) value_out doc"

definition get_double ::
  "(bytes \<Rightarrow> 'd \<times> nat option) \<Rightarrow> nat \<Rightarrow> nat \<Rightarrow> 'd option \<Rightarrow> csv_document \<Rightarrow> (ft_err \<times> 'd option) option" where
  "get_double strtod row_index column_index value_out doc =
     get_value (csv_parse_double_field strtod) (get_field row_index column_index doc) value_out doc"

definition get_double_by_name ::
  "(bytes \<Rightarrow> 'd \<times> nat option) \<Rightarrow> nat \<Rightarrow> ptr \<Rightarrow> 'd option \<Rightarrow> csv_document \<Rightarrow> (ft_err \<times> 'd option) option" where
  "get_double_by_name strtod row_index column_name value_out doc =
     get_value (csv_parse_double_field strtod) (get_field_by_name row_index column_name doc) value_out doc"

definition get_bool :: "nat \<Rightarrow> nat \<Rightarrow> bool option \<Rightarrow> csv_document \<Rightarrow> (ft_err \<times> bool option) option" where
  "get_bool row_index column_index value_out doc =
     get_value csv_parse_bool_field (get_field row_index column_index doc) value_out doc"

definition get_bool_by_name :: "nat \<Rightarrow> ptr \<Rightarrow> bool option \<Rightarrow> csv_document \<Rightarrow> (ft_err \<times> bool option) option" where
  "get_bool_by_name row_index column_name value_out doc =
     get_value csv_parse_bool_field (get_field_by_name row_index column_name doc) value_out doc"

subsection \<open>Writing\<close>

text \<open>The output, the code and the last error, which \<open>get_field\<close> sets on the way.\<close>

fun write_columns ::
  "csv_env \<Rightarrow> csv_document \<Rightarrow> nat \<Rightarrow> nat list \<Rightarrow> bytes \<Rightarrow> ft_err \<Rightarrow> bytes \<times> ft_err \<times> ft_err" where
  "write_columns env doc row_index [] output last_error = (output, FT_ERR_SUCCESS, last_error)"
| "write_columns env doc row_index (column_index # rest) output last_error =
     (case field_lookup row_index column_index doc of
        (None, e) \<Rightarrow> (output, FT_ERR_INVALID_OPERATION, e)
      | (Some field, e) \<Rightarrow>
          let (output1, e1) = (if column_index > 0 then append_char env output (cd_delimiter doc)
                               else (output, FT_ERR_SUCCESS))
          in if e1 \<noteq> FT_ERR_SUCCESS then (output1, e1, e)
             else let (output2, e2) = csv_append_escaped_field env output1 (Some field) (cd_delimiter doc)
                  in if e2 \<noteq> FT_ERR_SUCCESS then (output2, e2, e)
                     else write_columns env doc row_index rest output2 e)"

fun write_rows ::
  "csv_env \<Rightarrow> csv_document \<Rightarrow> nat \<Rightarrow> nat list \<Rightarrow> bytes \<Rightarrow> ft_err \<Rightarrow> bytes \<times> ft_err \<times> ft_err" where
  "write_rows env doc row_total [] output last_error = (output, FT_ERR_SUCCESS, last_error)"
| "write_rows env doc row_total (row_index # rest) output last_error =
     (let (output1, e1, last_error1) = write_columns env doc row_index
            [0..<cv_at 0 (cd_lengths doc) row_index] output last_error
      in if e1 \<noteq> FT_ERR_SUCCESS then (output1, e1, last_error1)
         else let (output2, e2) = (if row_index + 1 < row_total then append_char env output1 0x0A
                                   else (output1, FT_ERR_SUCCESS))
              in if e2 \<noteq> FT_ERR_SUCCESS then (output2, e2, last_error1)
                 else write_rows env doc row_total rest output2 last_error1)"

definition write_to_string :: "csv_env \<Rightarrow> ft_err \<Rightarrow> csv_document \<Rightarrow> (bytes \<times> ft_err \<times> ft_err) option" where
  "write_to_string env last_error doc = csv_live doc
     (let row_total = length (cv_items (cd_lengths doc))
      in write_rows env doc row_total [0..<row_total] [] last_error)"

text \<open>A sink gives the code of writing a text; a file does so for a path.\<close>

definition write_to_backend ::
  "csv_env \<Rightarrow> (bytes \<Rightarrow> ft_err) \<Rightarrow> ft_err \<Rightarrow> csv_document \<Rightarrow> (ft_err \<times> ft_err) option" where
  "write_to_backend env sink last_error doc =
     map_option (\<lambda>(output, e, last_error1). (if e \<noteq> FT_ERR_SUCCESS then e else sink output, last_error1))
       (write_to_string env last_error doc)"

definition write_to_file ::
  "csv_env \<Rightarrow> (bytes \<Rightarrow> bytes \<Rightarrow> ft_err) \<Rightarrow> ptr \<Rightarrow> ft_err \<Rightarrow> csv_document \<Rightarrow> (ft_err \<times> ft_err) option" where
  "write_to_file env file_write_all file_path last_error doc =
     (if cd_state doc \<noteq> Initialised then None
      else case file_path of
        None \<Rightarrow> Some (FT_ERR_INVALID_POINTER, last_error)
      | Some path \<Rightarrow> write_to_backend env (file_write_all path) last_error doc)"

definition csv_get_error :: "ft_err \<Rightarrow> csv_document \<Rightarrow> ft_err option" where
  "csv_get_error last_error doc = (if cd_state doc = Uninitialised then None else Some last_error)"

definition csv_get_error_str :: "(ft_err \<Rightarrow> string option) \<Rightarrow> ft_err \<Rightarrow> csv_document \<Rightarrow> string option" where
  "csv_get_error_str cmp_system_strerror last_error doc =
     map_option (ft_strerror cmp_system_strerror) (csv_get_error last_error doc)"

subsection \<open>Splitting one line\<close>

text \<open>
  \<open>csv_split_line\<close> repeats the loop without line ends. It clears a vector that is not uninitialised; pushing
  to one that is not initialised aborts.
\<close>

definition split_field :: "csv_env \<Rightarrow> bool \<Rightarrow> nat \<Rightarrow> csv_scan \<Rightarrow> (csv_scan \<times> ft_err) option" where
  "split_field env live k st = (if live then Some (end_field env k st) else None)"

definition split_step ::
  "csv_env \<Rightarrow> bool \<Rightarrow> u8 \<Rightarrow> u8 \<Rightarrow> bytes \<Rightarrow> csv_scan \<Rightarrow> (csv_scan \<times> ft_err \<times> nat) option" where
  "split_step env live delimiter c rest st =
     (let k = length rest + 1;
          consume = (\<lambda>n (st1, e). (st1, e, n))
      in if cs_closed st
         then if c = delimiter then map_option (consume 1) (split_field env live k st)
              else if csv_is_space_character c then Some (st, FT_ERR_SUCCESS, 1)
              else Some (st, FT_ERR_INVALID_OPERATION, 1)
         else if cs_in_quotes st
         then if c = 0x22
              then if c_at rest 0 = 0x22 then Some (consume 2 (append_current env k 0x22 st))
                   else Some (st\<lparr>cs_in_quotes := False, cs_closed := True\<rparr>, FT_ERR_SUCCESS, 1)
              else Some (consume 1 (append_current env k c st))
         else if c = delimiter then map_option (consume 1) (split_field env live k st)
         else if c = 0x22
         then if cs_started st \<or> cs_current st \<noteq> [] then Some (st, FT_ERR_INVALID_OPERATION, 1)
              else Some (st\<lparr>cs_in_quotes := True, cs_started := True\<rparr>, FT_ERR_SUCCESS, 1)
         else case append_current env k c st of (st1, e) \<Rightarrow> Some (st1\<lparr>cs_started := True\<rparr>, e, 1))"

function split_loop ::
  "csv_env \<Rightarrow> bool \<Rightarrow> u8 \<Rightarrow> bytes \<Rightarrow> csv_scan \<Rightarrow> (csv_scan \<times> ft_err) option" where
  "split_loop env live delimiter [] st = Some (st, FT_ERR_SUCCESS)"
| "split_loop env live delimiter (c # rest) st =
     (if c = 0 then Some (st, FT_ERR_SUCCESS)
      else case split_step env live delimiter c rest st of
        None \<Rightarrow> None
      | Some (st1, e, n) \<Rightarrow>
          if e \<noteq> FT_ERR_SUCCESS then Some (st1, e)
          else split_loop env live delimiter (drop (n - 1) rest) st1)"
  by pat_completeness auto
termination
  by (relation "measure (\<lambda>(env, live, d, text, st). length text)") auto

definition split_finish :: "csv_env \<Rightarrow> bool \<Rightarrow> csv_scan \<Rightarrow> (csv_scan \<times> ft_err) option" where
  "split_finish env live st =
     (if cs_in_quotes st then Some (st, FT_ERR_INVALID_OPERATION)
      else if cs_started st \<or> cs_current st \<noteq> [] then split_field env live 0 st
      else Some (st, FT_ERR_SUCCESS))"

definition empty_scan :: csv_scan where
  "empty_scan = \<lparr>cs_fields = [], cs_offsets = [], cs_lengths = [], cs_current = [], cs_count = 0,
     cs_row_offset = 0, cs_started = False, cs_in_quotes = False, cs_closed = False\<rparr>"

definition csv_split_line ::
  "csv_env \<Rightarrow> ptr \<Rightarrow> bytes csv_vector \<Rightarrow> u8 \<Rightarrow> (bytes csv_vector \<times> ft_err) option" where
  "csv_split_line env line field_items delimiter =
     (case line of
        None \<Rightarrow> Some (field_items, FT_ERR_INVALID_POINTER)
      | Some text \<Rightarrow>
          let fields1 = (if cv_state field_items = Uninitialised then \<lparr>cv_items = [], cv_state = Initialised\<rparr>
                         else field_items\<lparr>cv_items := []\<rparr>);
              live = (cv_state fields1 = Initialised)
          in case split_loop env live delimiter text empty_scan of
            None \<Rightarrow> None
          | Some (st1, e1) \<Rightarrow>
              if e1 \<noteq> FT_ERR_SUCCESS then Some (fields1, e1)
              else map_option (\<lambda>(st2, e2). if e2 \<noteq> FT_ERR_SUCCESS then (fields1, e2)
                                          else (fields1\<lparr>cv_items := cs_fields st2\<rparr>, FT_ERR_SUCCESS))
                     (split_finish env live st1))"

end
