(* ===== verification/Csv_Text.thy ===== *)
theory Csv_Text
  imports Csv_Document
begin

text \<open>
  A grammar of comma-separated text, and that the scanner accepts exactly its texts and delivers their rows.
\<close>

subsection \<open>The grammar\<close>

definition special :: "u8 \<Rightarrow> u8 \<Rightarrow> bool" where
  "special d c \<longleftrightarrow> c = d \<or> c = 0x22 \<or> c = 0x0A \<or> c = 0x0D"

text \<open>A delimiter that can be told from quotes, line ends and the terminator.\<close>

definition usable_delimiter :: "u8 \<Rightarrow> bool" where
  "usable_delimiter d \<longleftrightarrow> d \<noteq> 0 \<and> d \<noteq> 0x22 \<and> d \<noteq> 0x0A \<and> d \<noteq> 0x0D"

definition escape :: "bytes \<Rightarrow> bytes" where
  "escape v = concat (map (\<lambda>c. if c = 0x22 then [0x22, 0x22] else [c]) v)"

text \<open>A field: plain characters, or quoted ones with blanks behind the closing quote.\<close>

inductive field_text :: "u8 \<Rightarrow> bytes \<Rightarrow> bytes \<Rightarrow> bool" for d where
  plain: "\<forall>c \<in> set t. \<not> special d c \<Longrightarrow> field_text d t t"
| quoted: "\<forall>c \<in> set blanks. csv_is_space_character c \<and> c \<noteq> d
    \<Longrightarrow> field_text d (0x22 # escape v @ 0x22 # blanks) v"

definition line_end :: "bytes \<Rightarrow> bytes \<Rightarrow> bool" where
  "line_end e rest \<longleftrightarrow> e = [0x0A] \<or> e = [0x0D, 0x0A] \<or> (e = [0x0D] \<and> c_at rest 0 \<noteq> 0x0A)"

text \<open>
  The rows of a text that begins after the fields \<open>row\<close> of a row. At the end of the text an empty last field
  does not count: \<open>finish\<close> and \<open>last\<close> are the code's rule for text without a final line end.
\<close>

inductive csv_tail :: "u8 \<Rightarrow> bytes list \<Rightarrow> bytes \<Rightarrow> bytes list list \<Rightarrow> bool" for d where
  finish: "csv_tail d row [] (if row = [] then [] else [row])"
| last: "field_text d t v \<Longrightarrow> t \<noteq> [] \<Longrightarrow> csv_tail d row t [row @ [v]]"
| field: "field_text d t v \<Longrightarrow> csv_tail d (row @ [v]) rest rows \<Longrightarrow> csv_tail d row (t @ d # rest) rows"
| row: "field_text d t v \<Longrightarrow> line_end e rest \<Longrightarrow> csv_tail d [] rest rows
    \<Longrightarrow> csv_tail d row (t @ e @ rest) ((row @ [v]) # rows)"

definition csv_text :: "u8 \<Rightarrow> bytes \<Rightarrow> bytes list list \<Rightarrow> bool" where
  "csv_text d text rows \<longleftrightarrow> csv_tail d [] text rows"

lemma escape_simps [simp]: "escape [] = []"
  "escape (c # v) = (if c = 0x22 then [0x22, 0x22] else [c]) @ escape v" "escape (v @ w) = escape v @ escape w"
  by (simp_all add: escape_def)

lemma special_facts: "special d d" "special d 0x22" "special d 0x0A" "special d 0x0D"
  by (simp_all add: special_def)

lemma space_facts:
  "csv_is_space_character c \<Longrightarrow> c \<noteq> 0 \<and> c \<noteq> 0x22 \<and> c \<noteq> 0x0A \<and> c \<noteq> 0x0D"
  by (auto simp: csv_is_space_character_def)

lemma quotes_loop_iff: "quotes_loop d xs \<longleftrightarrow> (\<exists>c \<in> set xs. special d c)"
  by (induction xs) (auto simp: special_def)

lemma take_strlen: "take (ft_strlen_raw s) s = cstr s"
  by (induction s) auto

subsection \<open>An environment without failures\<close>

definition csv_granted :: "csv_env \<Rightarrow> bool" where
  "csv_granted env \<longleftrightarrow> (\<forall>k. ce_append env k = FT_ERR_SUCCESS \<and> ce_push_field env k = FT_ERR_SUCCESS
     \<and> ce_push_offset env k = FT_ERR_SUCCESS \<and> ce_push_length env k = FT_ERR_SUCCESS \<and> ce_malloc env k)"

definition csv_calm :: csv_env where
  "csv_calm = \<lparr>ce_append = (\<lambda>k. FT_ERR_SUCCESS), ce_push_field = (\<lambda>k. FT_ERR_SUCCESS),
     ce_push_offset = (\<lambda>k. FT_ERR_SUCCESS), ce_push_length = (\<lambda>k. FT_ERR_SUCCESS), ce_copy_fields = FT_ERR_SUCCESS,
     ce_copy_offsets = FT_ERR_SUCCESS, ce_copy_lengths = FT_ERR_SUCCESS, ce_copy_strings = FT_ERR_SUCCESS,
     ce_move_strings = FT_ERR_SUCCESS,
     ce_malloc = (\<lambda>n. True)\<rparr>"

lemma calm_granted: "csv_granted csv_calm"
  by (simp add: csv_granted_def csv_calm_def)

subsection \<open>The state of the scanner\<close>

text \<open>Where the rows begin in the list of all fields.\<close>

definition offsets_of :: "bytes list list \<Rightarrow> nat list" where
  "offsets_of rows = map (\<lambda>i. length (concat (take i rows))) [0..<length rows]"

lemma offsets_of_Nil [simp]: "offsets_of [] = []"
  by (simp add: offsets_of_def)

lemma offsets_of_snoc: "offsets_of (rows @ [r]) = offsets_of rows @ [length (concat rows)]"
  by (simp add: offsets_of_def)

lemma length_offsets_of [simp]: "length (offsets_of rows) = length rows"
  by (simp add: offsets_of_def)

lemma concat_at_offset:
  assumes "r < length rows" "c < length (rows ! r)"
  shows "offsets_of rows ! r + c < length (concat rows)" "concat rows ! (offsets_of rows ! r + c) = rows ! r ! c"
    "take (length (rows ! r)) (drop (offsets_of rows ! r) (concat rows)) = rows ! r"
proof -
  have "concat rows = concat (take r rows) @ rows ! r @ concat (drop (Suc r) rows)"
    using arg_cong [OF id_take_nth_drop [OF assms(1)], of concat] by simp
  moreover have "offsets_of rows ! r = length (concat (take r rows))"
    using assms(1) by (simp add: offsets_of_def del: length_concat)
  ultimately show "offsets_of rows ! r + c < length (concat rows)" "concat rows ! (offsets_of rows ! r + c) = rows ! r ! c"
    "take (length (rows ! r)) (drop (offsets_of rows ! r) (concat rows)) = rows ! r"
    using assms(2) by (simp_all add: nth_append del: length_concat)
qed

text \<open>The state after the rows \<open>rows\<close> and the fields \<open>row\<close> of the next one.\<close>

definition scan_of :: "bytes list list \<Rightarrow> bytes list \<Rightarrow> bytes \<Rightarrow> bool \<Rightarrow> bool \<Rightarrow> bool \<Rightarrow> csv_scan" where
  "scan_of rows row cur started quotes closed =
     \<lparr>cs_fields = concat rows @ row, cs_offsets = offsets_of rows, cs_lengths = map length rows, cs_current = cur,
      cs_count = length row, cs_row_offset = length (concat rows), cs_started = started, cs_in_quotes = quotes,
      cs_closed = closed\<rparr>"

lemma scan_of_simps [simp]:
  "cs_current (scan_of rows row cur b q z) = cur" "cs_started (scan_of rows row cur b q z) = b"
  "cs_in_quotes (scan_of rows row cur b q z) = q" "cs_closed (scan_of rows row cur b q z) = z"
  "cs_count (scan_of rows row cur b q z) = length row" "cs_fields (scan_of rows row cur b q z) = concat rows @ row"
  "cs_offsets (scan_of rows row cur b q z) = offsets_of rows" "cs_lengths (scan_of rows row cur b q z) = map length rows"
  "cs_row_offset (scan_of rows row cur b q z) = length (concat rows)"
  "scan_of rows row cur b q z\<lparr>cs_current := x\<rparr> = scan_of rows row x b q z"
  "scan_of rows row cur b q z\<lparr>cs_started := y\<rparr> = scan_of rows row cur y q z"
  "scan_of rows row cur b q z\<lparr>cs_in_quotes := q1, cs_started := y\<rparr> = scan_of rows row cur y q1 z"
  "scan_of rows row cur b q z\<lparr>cs_in_quotes := q1, cs_closed := z1\<rparr> = scan_of rows row cur b q1 z1"
  by (simp_all add: scan_of_def)

lemma granted_appends:
  assumes "csv_granted env"
  shows "append_char env out c = (out @ [c], FT_ERR_SUCCESS)" "append_text env out xs = (out @ xs, FT_ERR_SUCCESS)"
    "append_current env k c (scan_of rows row cur b q z) = (scan_of rows row (cur @ [c]) b q z, FT_ERR_SUCCESS)"
    "end_field env k (scan_of rows row cur b q z) = (scan_of rows (row @ [cur]) [] False q False, FT_ERR_SUCCESS)"
    "end_row env k (scan_of rows row cur b q z) = (scan_of (rows @ [row @ [cur]]) [] [] False q False, FT_ERR_SUCCESS)"
  using assms
  by (auto simp: csv_granted_def append_char_def append_text_def append_current_def end_field_def end_row_def
    csv_finalize_field_def csv_finalize_row_def scan_of_def offsets_of_snoc)
lemma granted_escape: "csv_granted env \<Longrightarrow> escape_loop env v out = (out @ escape v, FT_ERR_SUCCESS)"
  by (induction v arbitrary: out) (simp_all add: granted_appends)

subsection \<open>The scanner reads fields\<close>

text \<open>One step of the scanner on each kind of character.\<close>

lemma step_plain:
  assumes "csv_granted env" "\<not> special d c" "c \<noteq> 0"
  shows "parse_loop env d (c # rest) (scan_of rows row cur b False False)
    = parse_loop env d rest (scan_of rows row (cur @ [c]) True False False)"
  using assms(2,3) by (simp add: parse_step_def special_def granted_appends [OF assms(1)])

lemma step_quoted:
  assumes "csv_granted env"
  shows "c \<noteq> 0 \<Longrightarrow> c \<noteq> 0x22 \<Longrightarrow> parse_loop env d (c # rest) (scan_of rows row cur b True False)
      = parse_loop env d rest (scan_of rows row (cur @ [c]) b True False)"
    "parse_loop env d (0x22 # 0x22 # rest) (scan_of rows row cur b True False)
      = parse_loop env d rest (scan_of rows row (cur @ [0x22]) b True False)"
    "c_at rest 0 \<noteq> 0x22 \<Longrightarrow> parse_loop env d (0x22 # rest) (scan_of rows row cur b True False)
      = parse_loop env d rest (scan_of rows row cur b False True)"
  by (simp_all add: parse_step_def granted_appends [OF assms])

lemma step_open:
  assumes "usable_delimiter d"
  shows "parse_loop env d (0x22 # rest) (scan_of rows row [] False False False)
    = parse_loop env d rest (scan_of rows row [] True True False)"
  using assms by (simp add: parse_step_def usable_delimiter_def)

lemma step_blank:
  assumes "csv_is_space_character c" "c \<noteq> d"
  shows "parse_loop env d (c # rest) (scan_of rows row cur b q True) = parse_loop env d rest (scan_of rows row cur b q True)"
  using assms space_facts [OF assms(1)] by (simp add: parse_step_def)

lemma step_delimiter:
  assumes "csv_granted env" "usable_delimiter d"
  shows "parse_loop env d (d # rest) (scan_of rows row cur b False z)
    = parse_loop env d rest (scan_of rows (row @ [cur]) [] False False False)"
  using assms(2) by (simp add: parse_step_def usable_delimiter_def granted_appends [OF assms(1)])

lemma step_line_end:
  assumes "csv_granted env" "usable_delimiter d" "line_end e rest"
  shows "parse_loop env d (e @ rest) (scan_of rows row cur b False z)
    = parse_loop env d rest (scan_of (rows @ [row @ [cur]]) [] [] False False False)"
  using assms(2,3)
  by (auto simp: parse_step_def usable_delimiter_def line_end_def granted_appends [OF assms(1)])

text \<open>Runs of characters.\<close>

lemma loop_plain:
  assumes "csv_granted env" "\<forall>c \<in> set t. \<not> special d c \<and> c \<noteq> 0"
  shows "parse_loop env d (t @ rest) (scan_of rows row cur b False False)
    = parse_loop env d rest (scan_of rows row (cur @ t) (b \<or> t \<noteq> []) False False)"
  using assms(2) by (induction t arbitrary: cur b) (simp_all add: step_plain [OF assms(1)] del: parse_loop.simps)

lemma loop_escaped:
  assumes "csv_granted env" "0 \<notin> set v" "c_at rest 0 \<noteq> 0x22"
  shows "parse_loop env d (escape v @ 0x22 # rest) (scan_of rows row cur b True False)
    = parse_loop env d rest (scan_of rows row (cur @ v) b False True)"
  using assms(2)
  by (induction v arbitrary: cur)
    (simp_all add: step_quoted [OF assms(1)] step_quoted(3) [OF assms(1,3)] del: parse_loop.simps)

lemma loop_blanks:
  assumes "\<forall>c \<in> set blanks. csv_is_space_character c \<and> c \<noteq> d"
  shows "parse_loop env d (blanks @ rest) (scan_of rows row cur b q True) = parse_loop env d rest (scan_of rows row cur b q True)"
  using assms by (induction blanks) (simp_all add: step_blank del: parse_loop.simps)

text \<open>A whole field, in front of anything but a quote.\<close>

lemma loop_field:
  assumes "csv_granted env" "usable_delimiter d" "field_text d t v" "0 \<notin> set t" "c_at rest 0 \<noteq> 0x22"
  obtains z where "parse_loop env d (t @ rest) (scan_of rows row [] False False False)
    = parse_loop env d rest (scan_of rows row v (t \<noteq> []) False z)"
  using assms(3)
proof cases
  case plain
  then show ?thesis using that [of False] loop_plain [OF assms(1), of t d rest rows row "[]" False] assms(4) by auto
next
  case (quoted blanks)
  have "0 \<notin> set v" using assms(4) unfolding quoted(1) by (auto simp: escape_def)
  moreover have "c_at (blanks @ rest) 0 \<noteq> 0x22"
    using quoted(2) assms(5) space_facts by (cases blanks) auto
  ultimately show ?thesis
    using that [of True] quoted
    by (simp add: step_open [OF assms(2)] loop_escaped [OF assms(1)] loop_blanks del: parse_loop.simps)
qed


subsection \<open>The scanner accepts the grammar\<close>

lemma field_text_nonzero: "field_text d t v \<Longrightarrow> 0 \<notin> set t \<Longrightarrow> 0 \<notin> set v"
  by (induction rule: field_text.induct) (auto simp: escape_def)

text \<open>The end of the scan, and the whole scan.\<close>

definition scan_text :: "csv_env \<Rightarrow> u8 \<Rightarrow> bytes \<Rightarrow> csv_scan \<Rightarrow> csv_scan \<times> ft_err" where
  "scan_text env d text st =
     (let (st1, e) = parse_loop env d text st in if e \<noteq> FT_ERR_SUCCESS then (st1, e) else parse_finish env st1)"

definition scanned :: "bytes list list \<Rightarrow> csv_scan \<Rightarrow> bool" where
  "scanned rows st \<longleftrightarrow> cs_fields st = concat rows \<and> cs_offsets st = offsets_of rows \<and> cs_lengths st = map length rows"

lemma finish_granted:
  assumes "csv_granted env"
  shows "\<exists>st. parse_finish env (scan_of rows row cur b False z) = (st, FT_ERR_SUCCESS)
    \<and> scanned (rows @ (if b \<or> cur \<noteq> [] then [row @ [cur]] else if row = [] then [] else [row])) st"
proof -
  have "csv_finalize_row env 0 os ls p (Suc n) = (os @ [p], ls @ [Suc n], FT_ERR_SUCCESS)" for os ls p n
    using assms by (simp add: csv_finalize_row_def csv_granted_def)
  moreover have "row \<noteq> [] \<Longrightarrow> length row = Suc (length row - 1)" by simp
  ultimately show ?thesis
    by (cases row) (auto simp: parse_finish_def granted_appends [OF assms] scanned_def offsets_of_snoc)
qed

lemma scan_cong: "parse_loop env d text st = parse_loop env d text1 st1 \<Longrightarrow> scan_text env d text st = scan_text env d text1 st1"
  by (simp add: scan_text_def)

lemma line_end_first: "line_end e rest \<Longrightarrow> c_at (e @ rest) 0 \<noteq> 0x22"
  by (auto simp: line_end_def)

lemma scan_accepts:
  assumes "csv_granted env" "usable_delimiter d" "csv_tail d row text rows1" "0 \<notin> set text"
  shows "\<exists>st. scan_text env d text (scan_of rows row [] False False False) = (st, FT_ERR_SUCCESS)
    \<and> scanned (rows @ rows1) st"
  using assms(3,4)
proof (induction arbitrary: rows rule: csv_tail.induct)
  case (finish row)
  show ?case using finish_granted [OF assms(1), of rows row "[]" False False] by (simp add: scan_text_def)
next
  case (last t v row)
  have "0 \<notin> set t" using last.prems by simp
  then obtain z where "parse_loop env d (t @ []) (scan_of rows row [] False False False)
      = parse_loop env d [] (scan_of rows row v (t \<noteq> []) False z)"
    using loop_field [OF assms(1,2) last.hyps(1), of "[]"] by auto
  from scan_cong [OF this] show ?case
    using finish_granted [OF assms(1), of rows row v True z] last.hyps(2) by (simp add: scan_text_def)
next
  case (field t v row rest rows1)
  have "0 \<notin> set t" "c_at (d # rest) 0 \<noteq> 0x22" using field.prems assms(2) by (auto simp: usable_delimiter_def)
  then obtain z where "parse_loop env d (t @ d # rest) (scan_of rows row [] False False False)
      = parse_loop env d (d # rest) (scan_of rows row v (t \<noteq> []) False z)"
    using loop_field [OF assms(1,2) field.hyps(1)] by metis
  from scan_cong [OF this [unfolded step_delimiter [OF assms(1,2)]]] show ?case using field by auto
next
  case (row t v e rest rows1 row)
  have "0 \<notin> set t" "c_at (e @ rest) 0 \<noteq> 0x22" using row.prems line_end_first [OF row.hyps(2)] by auto
  then obtain z where "parse_loop env d (t @ e @ rest) (scan_of rows row [] False False False)
      = parse_loop env d (e @ rest) (scan_of rows row v (t \<noteq> []) False z)"
    using loop_field [OF assms(1,2) row.hyps(1)] by metis
  from scan_cong [OF this [unfolded step_line_end [OF assms(1,2) row.hyps(2)]]] show ?case
    using row.IH [of "rows @ [row @ [v]]"] row.prems by auto
qed


subsection \<open>The scanner accepts nothing else\<close>

text \<open>A scan that succeeds while memory may run out is the scan with enough memory.\<close>

lemma appends_calm: "append_current csv_calm k c st = (st\<lparr>cs_current := cs_current st @ [c]\<rparr>, FT_ERR_SUCCESS)"
  "append_current env k c st = (st1, FT_ERR_SUCCESS) \<Longrightarrow> st1 = st\<lparr>cs_current := cs_current st @ [c]\<rparr>"
  by (auto simp: append_current_def csv_calm_def split: if_splits)

lemma ends_calm:
  "end_field env k st = (st1, FT_ERR_SUCCESS) \<Longrightarrow> end_field csv_calm k st = (st1, FT_ERR_SUCCESS)"
  "end_row env k st = (st1, FT_ERR_SUCCESS) \<Longrightarrow> end_row csv_calm k st = (st1, FT_ERR_SUCCESS)"
  by (auto simp: end_field_def end_row_def csv_finalize_field_def csv_finalize_row_def csv_calm_def Let_def split: if_splits)

lemma consume_eq:
  "(case p of (s, e) \<Rightarrow> (s, e, n)) = (s1, e1, m) \<longleftrightarrow> p = (s1, e1) \<and> n = m"
  "(case p of (s, e) \<Rightarrow> (f s, e, n)) = (s1, e1, m) \<longleftrightarrow> (\<exists>x. p = (x, e1) \<and> s1 = f x) \<and> n = m"
  by (cases p; auto)+

lemma step_calm:
  assumes "parse_step env d c rest st = (st1, FT_ERR_SUCCESS, n)"
  shows "parse_step csv_calm d c rest st = (st1, FT_ERR_SUCCESS, n)"
proof -
  have "append_current env k x st = (y, FT_ERR_SUCCESS) \<Longrightarrow> append_current csv_calm k x st = (y, FT_ERR_SUCCESS)" for k x y
    using appends_calm by auto
  note E = ends_calm [of env, simplified] this [simplified]
  note D = parse_step_def Let_def consume_eq
  show ?thesis
  proof (cases "cs_closed st")
    case True
    with assms show ?thesis
      by (cases "c = d"; cases "c = 0x0A \<or> c = 0x0D"; cases "csv_is_space_character c") (auto simp: D dest: E)
  next
    case nc: False
    show ?thesis
    proof (cases "cs_in_quotes st")
      case True
      with assms nc show ?thesis by (cases "c = 0x22"; cases "c_at rest 0 = 0x22") (auto simp: D dest: E)
    next
      case False
      with assms nc show ?thesis
        by (cases "c = d"; cases "c = 0x0A \<or> c = 0x0D"; cases "c = 0x22") (auto simp: D dest: E split: if_splits)
    qed
  qed
qed

lemma loop_calm: "parse_loop env d text st = (st1, FT_ERR_SUCCESS) \<Longrightarrow> parse_loop csv_calm d text st = (st1, FT_ERR_SUCCESS)"
proof (induction env d "text" st rule: parse_loop.induct)
  case (2 env d c rest st)
  show ?case
  proof (cases "c = 0")
    case False
    obtain st2 e n where s: "parse_step env d c rest st = (st2, e, n)" by (metis prod_cases3)
    then have "e = FT_ERR_SUCCESS" using 2(2) False by (auto split: if_splits)
    with s step_calm [of env d c rest st st2 n] show ?thesis using 2 False by auto
  next
    case True
    then show ?thesis using 2 by simp
  qed
qed simp

lemma finalize_row_calm:
  "csv_finalize_row env k os ls p n = (os1, ls1, FT_ERR_SUCCESS) \<Longrightarrow> csv_finalize_row csv_calm k os ls p n = (os1, ls1, FT_ERR_SUCCESS)"
  by (auto simp: csv_finalize_row_def csv_calm_def split: if_splits)

lemma finish_calm:
  assumes "parse_finish env st = (st1, FT_ERR_SUCCESS)"
  shows "parse_finish csv_calm st = (st1, FT_ERR_SUCCESS)"
proof -
  let ?f = "\<lambda>env. if cs_started st \<or> cs_current st \<noteq> [] then end_field env 0 st else (st, FT_ERR_SUCCESS)"
  obtain st2 e where f: "?f env = (st2, e)" by (cases "?f env")
  have e: "e = FT_ERR_SUCCESS" using assms f by (auto simp: parse_finish_def Let_def split: if_splits)
  have "?f csv_calm = (st2, FT_ERR_SUCCESS)" using f e ends_calm(1) by (auto split: if_splits)
  then show ?thesis using assms f e finalize_row_calm [of env 0 "cs_offsets st2" "cs_lengths st2" "cs_row_offset st2" "cs_count st2"]
    unfolding parse_finish_def by (auto simp: Let_def split: if_splits prod.splits)
qed

lemma scan_calm: "scan_text env d text st = (st1, FT_ERR_SUCCESS) \<Longrightarrow> scan_text csv_calm d text st = (st1, FT_ERR_SUCCESS)"
  using finish_calm loop_calm [of env d "text" st]
  by (auto simp: scan_text_def split: prod.splits if_splits)

text \<open>The text \<open>u\<close> of the field that is being read, and the state it leaves.\<close>

inductive reads :: "u8 \<Rightarrow> bytes \<Rightarrow> bytes \<Rightarrow> bool \<Rightarrow> bool \<Rightarrow> bool \<Rightarrow> bool" for d where
  reads_plain: "\<forall>c \<in> set cur. \<not> special d c \<Longrightarrow> reads d cur cur (cur \<noteq> []) False False"
| reads_quoted: "reads d (0x22 # escape cur) cur True True False"
| reads_closed: "\<forall>c \<in> set blanks. csv_is_space_character c \<and> c \<noteq> d
    \<Longrightarrow> reads d (0x22 # escape cur @ 0x22 # blanks) cur True False True"

lemma reads_empty: "reads d [] [] False False False"
  using reads_plain [of "[]" d] by simp

lemma reads_field: "reads d u cur b q z \<Longrightarrow> \<not> q \<Longrightarrow> field_text d u cur"
  by (induction rule: reads.induct) (auto intro: field_text.intros)

lemma scan_errors:
  assumes "c \<noteq> 0" "c \<noteq> d" "c \<noteq> 0x0A" "c \<noteq> 0x0D"
  shows "\<not> csv_is_space_character c
      \<Longrightarrow> scan_text env d (c # rest) (scan_of rows row cur b q True) \<noteq> (st, FT_ERR_SUCCESS)"
    "c = 0x22 \<Longrightarrow> b \<Longrightarrow> scan_text env d (c # rest) (scan_of rows row cur b False False) \<noteq> (st, FT_ERR_SUCCESS)"
  using assms by (auto simp: scan_text_def parse_step_def)

lemma scan_end:
  assumes "scan_text csv_calm d [] (scan_of rows row cur b q z) = (st, FT_ERR_SUCCESS)" "reads d u cur b q z"
  shows "\<exists>rows1. csv_tail d row u rows1 \<and> scanned (rows @ rows1) st"
proof -
  have q: "\<not> q" using assms(1) by (auto simp: scan_text_def parse_finish_def)
  then have f: "field_text d u cur" "b \<longleftrightarrow> u \<noteq> []" "cur \<noteq> [] \<Longrightarrow> b"
    using assms(2) by (auto elim: reads.cases intro: reads_field)
  have s: "scanned (rows @ (if b \<or> cur \<noteq> [] then [row @ [cur]] else if row = [] then [] else [row])) st"
    using finish_granted [OF calm_granted, of rows row cur b z] assms(1) q by (auto simp: scan_text_def)
  show ?thesis
  proof (cases "u = []")
    case True
    then have "\<not> b" "cur = []" using f(2,3) by auto
    then show ?thesis using csv_tail.finish [of d row] s True by (intro exI conjI) simp_all
  next
    case False
    then show ?thesis using csv_tail.last [OF f(1), of row] s f(2) by auto
  qed
qed


text \<open>What the scanner does with one more piece of text, and that the rest follows the grammar.\<close>

lemma sound_delimiter:
  assumes IH: "\<And>row st. scan_text csv_calm d rest (scan_of rows row [] False False False) = (st, FT_ERR_SUCCESS)
      \<Longrightarrow> \<exists>rows1. csv_tail d row rest rows1 \<and> scanned (rows @ rows1) st"
    and "usable_delimiter d" "reads d u cur b False z"
    and "scan_text csv_calm d (d # rest) (scan_of rows row cur b False z) = (st, FT_ERR_SUCCESS)"
  shows "\<exists>rows1. csv_tail d row (u @ d # rest) rows1 \<and> scanned (rows @ rows1) st"
proof -
  have "scan_text csv_calm d rest (scan_of rows (row @ [cur]) [] False False False) = (st, FT_ERR_SUCCESS)"
    using assms(4) scan_cong [OF step_delimiter [OF calm_granted assms(2)]] by simp
  then obtain rows1 where "csv_tail d (row @ [cur]) rest rows1" "scanned (rows @ rows1) st" using IH by blast
  then show ?thesis using csv_tail.field [OF reads_field [OF assms(3)]] by blast
qed

lemma sound_line_end:
  assumes IH: "\<And>rows st. scan_text csv_calm d rest (scan_of rows [] [] False False False) = (st, FT_ERR_SUCCESS)
      \<Longrightarrow> \<exists>rows1. csv_tail d [] rest rows1 \<and> scanned (rows @ rows1) st"
    and "usable_delimiter d" "reads d u cur b False z" "line_end e rest"
    and "scan_text csv_calm d (e @ rest) (scan_of rows row cur b False z) = (st, FT_ERR_SUCCESS)"
  shows "\<exists>rows1. csv_tail d row (u @ e @ rest) rows1 \<and> scanned (rows @ rows1) st"
proof -
  have "scan_text csv_calm d rest (scan_of (rows @ [row @ [cur]]) [] [] False False False) = (st, FT_ERR_SUCCESS)"
    using assms(5) scan_cong [OF step_line_end [OF calm_granted assms(2,4)]] by simp
  then obtain rows1 where "csv_tail d [] rest rows1" "scanned ((rows @ [row @ [cur]]) @ rows1) st" using IH by blast
  then show ?thesis using csv_tail.row [OF reads_field [OF assms(3)] assms(4)] by fastforce
qed

text \<open>The text up to the next separator.\<close>

lemma first_line_end:
  assumes "c = 0x0A \<or> c = 0x0D"
  obtains e rest1 where "c # rest = e @ rest1" "line_end e rest1" "length rest1 \<le> length rest" "set rest1 \<subseteq> set rest"
proof (cases "c = 0x0D \<and> c_at rest 0 = 0x0A")
  case True
  then obtain rest1 where "rest = 0x0A # rest1" by (cases rest) auto
  then show ?thesis using True that [of "[0x0D, 0x0A]" rest1] by (auto simp: line_end_def)
next
  case False
  then show ?thesis using assms that [of "[c]" rest] by (auto simp: line_end_def)
qed

text \<open>A character that belongs to the field extends what was read.\<close>

lemma reads_more:
  assumes "reads d u cur b q z" "c \<noteq> 0" "usable_delimiter d" "q \<or> c \<noteq> d \<and> c \<noteq> 0x0A \<and> c \<noteq> 0x0D"
    and "scan_text csv_calm d (c # rest) (scan_of rows row cur b q z) = (st, FT_ERR_SUCCESS)"
  obtains w rest1 cur1 b1 q1 z1 where "c # rest = w @ rest1" "w \<noteq> []" "reads d (u @ w) cur1 b1 q1 z1"
    "scan_text csv_calm d rest1 (scan_of rows row cur1 b1 q1 z1) = (st, FT_ERR_SUCCESS)"
  using assms(1)
proof cases
  case reads_plain
  show ?thesis
  proof (cases "c = 0x22")
    case True
    then have "cur = []" using scan_errors(2) [of c d b csv_calm rest rows row cur st] assms(2,4,5) reads_plain by auto
    then show ?thesis
      using that [of "[0x22]" rest "[]" True True False] True assms(5) reads_plain reads_quoted [of d "[]"]
        scan_cong [OF step_open [OF assms(3), of csv_calm rest rows row]] by simp
  next
    case False
    then have "\<not> special d c" using assms(4) reads_plain by (auto simp: special_def)
    then show ?thesis
      using that [of "[c]" rest "cur @ [c]" True False False] assms(5) reads_plain reads.reads_plain [of "cur @ [c]" d]
        scan_cong [OF step_plain [OF calm_granted _ assms(2), of d rest rows row cur b]] by simp
  qed
next
  case reads_quoted
  note sq = step_quoted [OF calm_granted, where d = d and rows = rows and row = row and cur = cur and b = b]
  show ?thesis
  proof (cases "c = 0x22")
    case True
    show ?thesis
    proof (cases "c_at rest 0 = 0x22")
      case two: True
      then obtain rest1 where "rest = 0x22 # rest1" by (cases rest) auto
      then show ?thesis
        using that [of "[0x22, 0x22]" rest1 "cur @ [0x22]" True True False] True assms(5) reads_quoted
          reads.reads_quoted [of d "cur @ [0x22]"] scan_cong [OF sq(2)] by simp
    next
      case one: False
      then show ?thesis
        using that [of "[0x22]" rest cur True False True] True assms(5) reads_quoted reads_closed [of "[]" d cur]
          scan_cong [OF sq(3)] by simp
    qed
  next
    case False
    then show ?thesis
      using that [of "[c]" rest "cur @ [c]" True True False] assms(2,5) reads_quoted reads.reads_quoted [of d "cur @ [c]"]
        scan_cong [OF sq(1)] by simp
  qed
next
  case (reads_closed blanks)
  then have "csv_is_space_character c" "c \<noteq> d" using scan_errors(1) [of c d csv_calm rest rows row cur True False st] assms(2,4,5) by auto
  then show ?thesis
    using that [of "[c]" rest cur True False True] assms(5) reads_closed reads.reads_closed [of "blanks @ [c]" d cur]
      scan_cong [OF step_blank] by simp
qed

lemma scan_sound:
  assumes "usable_delimiter d"
  shows "0 \<notin> set inp \<Longrightarrow> reads d u cur b q z \<Longrightarrow> scan_text csv_calm d inp (scan_of rows row cur b q z) = (st, FT_ERR_SUCCESS)
    \<Longrightarrow> \<exists>rows1. csv_tail d row (u @ inp) rows1 \<and> scanned (rows @ rows1) st"
proof (induction inp arbitrary: u cur b q z rows row st rule: length_induct)
  case (1 inp)
  have IH: "\<exists>rows1. csv_tail d row1 rest rows1 \<and> scanned (rows1' @ rows1) st1"
    if "length rest < length inp" "set rest \<subseteq> set inp"
      "scan_text csv_calm d rest (scan_of rows1' row1 [] False False False) = (st1, FT_ERR_SUCCESS)" for rest rows1' row1 st1
    using 1(1) that 1(2) reads_empty [of d] by fastforce
  show ?case
  proof (cases inp)
    case Nil
    then show ?thesis using scan_end 1(3,4) by simp
  next
    case (Cons c rest)
    then have c: "c \<noteq> 0" using 1(2) by auto
    show ?thesis
    proof (cases "\<not> q \<and> (c = d \<or> c = 0x0A \<or> c = 0x0D)")
      case False
      then obtain w rest1 cur1 b1 q1 z1 where w: "c # rest = w @ rest1" "w \<noteq> []" "reads d (u @ w) cur1 b1 q1 z1"
          "scan_text csv_calm d rest1 (scan_of rows row cur1 b1 q1 z1) = (st, FT_ERR_SUCCESS)"
        using reads_more [OF 1(3) c assms] 1(4) Cons by blast
      have "0 \<notin> set rest1" "length rest1 < length inp" using w(1,2) 1(2) Cons by auto
      then show ?thesis using 1(1) w(3,4) Cons w(1) by fastforce
    next
      case True
      then have r: "reads d u cur b False z" and sc: "scan_text csv_calm d (c # rest) (scan_of rows row cur b False z) = (st, FT_ERR_SUCCESS)"
        using 1(3,4) Cons by simp_all
      show ?thesis
      proof (cases "c = d")
        case cd: True
        have "\<exists>rows1. csv_tail d row (u @ d # rest) rows1 \<and> scanned (rows @ rows1) st"
          by (rule sound_delimiter [OF IH assms r]) (use sc cd Cons in auto)
        then show ?thesis using Cons cd by simp
      next
        case False
        then obtain e rest1 where e: "c # rest = e @ rest1" "line_end e rest1" "length rest1 \<le> length rest" "set rest1 \<subseteq> set rest"
          using first_line_end True by blast
        have "\<exists>rows1. csv_tail d row (u @ e @ rest1) rows1 \<and> scanned (rows @ rows1) st"
          by (rule sound_line_end [OF IH assms r e(2)]) (use sc e Cons in auto)
        then show ?thesis using Cons e(1) by simp
      qed
    qed
  qed
qed


subsection \<open>Every scan\<close>

text \<open>Only the part before the terminator counts.\<close>

lemma c_at_cstr_0: "c_at (cstr s) 0 = c_at s 0"
  by (cases s) auto

lemma loop_cstr:
  assumes "csv_granted env"
  shows "parse_loop env d s st = parse_loop env d (cstr s) st"
proof (induction s arbitrary: st rule: length_induct)
  case (1 s)
  show ?case
  proof (cases s)
    case (Cons c rest)
    have k: "append_current env k = append_current env 0" "end_field env k = end_field env 0" "end_row env k = end_row env 0" for k
      using assms by (auto simp: fun_eq_iff csv_granted_def append_current_def end_field_def end_row_def csv_finalize_field_def
        csv_finalize_row_def)
    have step: "parse_step env d c (cstr rest) st = parse_step env d c rest st"
      by (simp add: parse_step_def k [of "Suc _"] c_at_cstr_0)
    obtain st1 e n where s1: "parse_step env d c rest st = (st1, e, n)" by (metis prod_cases3)
    have "n = 1 \<or> n = 2 \<and> c_at rest 0 \<noteq> 0"
      using s1 by (auto simp: parse_step_def Let_def split: if_splits prod.splits)
    then have "drop (n - 1) (cstr rest) = cstr (drop (n - 1) rest)" by (cases rest) auto
    then show ?thesis using Cons 1 step s1 by auto
  qed simp
qed

text \<open>What the scanner stores, whatever the delimiter: rows with at least one field, no zero bytes.\<close>

definition row_ok :: "bytes list \<Rightarrow> bool" where
  "row_ok row \<longleftrightarrow> (\<forall>f \<in> set row. 0 \<notin> set f)"

definition rows_ok :: "bytes list list \<Rightarrow> bool" where
  "rows_ok rows \<longleftrightarrow> (\<forall>r \<in> set rows. r \<noteq> [] \<and> row_ok r)"

lemma rows_ok_simps [simp]: "rows_ok []" "rows_ok (rows @ rows1) \<longleftrightarrow> rows_ok rows \<and> rows_ok rows1"
  "rows_ok (r # rows) \<longleftrightarrow> r \<noteq> [] \<and> row_ok r \<and> rows_ok rows" "row_ok []"
  "row_ok (row @ [f]) \<longleftrightarrow> row_ok row \<and> 0 \<notin> set f"
  by (auto simp: rows_ok_def row_ok_def)

definition scan_ok :: "csv_scan \<Rightarrow> bool" where
  "scan_ok st \<longleftrightarrow> (\<exists>rows row cur b q z. st = scan_of rows row cur b q z \<and> rows_ok rows \<and> row_ok row \<and> 0 \<notin> set cur)"

lemma scan_okI: "rows_ok rows \<Longrightarrow> row_ok row \<Longrightarrow> 0 \<notin> set cur \<Longrightarrow> scan_ok (scan_of rows row cur b q z)"
  unfolding scan_ok_def by blast

lemma step_ok:
  assumes "parse_step csv_calm d c rest st = (st1, e, n)" "scan_ok st" "c \<noteq> 0"
  shows "scan_ok st1"
proof -
  obtain rows row cur b q z where st: "st = scan_of rows row cur b q z" "rows_ok rows" "row_ok row" "0 \<notin> set cur"
    using assms(2) by (auto simp: scan_ok_def)
  note g = granted_appends(3-5) [OF calm_granted]
  have "c \<noteq> 0 \<Longrightarrow> 0 \<notin> set (cur @ [c])" "0 \<notin> set (cur @ [0x22 :: u8])" using st(4) by auto
  then show ?thesis
    using assms(1,3) st(2-4) unfolding st(1) parse_step_def Let_def g
    by (auto simp: scan_okI split: if_splits)
qed

lemma loop_ok: "parse_loop csv_calm d s st = (st1, e) \<Longrightarrow> scan_ok st \<Longrightarrow> scan_ok st1"
proof (induction csv_calm d s st rule: parse_loop.induct)
  case (2 d c rest st)
  obtain st2 e2 n where s: "parse_step csv_calm d c rest st = (st2, e2, n)" by (metis prod_cases3)
  then show ?case using 2 step_ok [OF s] by (cases "c = 0") (auto split: if_splits)
qed simp

lemma scan_start_of: "empty_scan = scan_of [] [] [] False False False"
  by (simp add: scan_of_def empty_scan_def)

lemma scan_stores:
  assumes "scan_text env d s empty_scan = (st, FT_ERR_SUCCESS)"
  shows "\<exists>rows. scanned rows st \<and> rows_ok rows"
proof -
  obtain st1 where l: "parse_loop csv_calm d s empty_scan = (st1, FT_ERR_SUCCESS)" "parse_finish csv_calm st1 = (st, FT_ERR_SUCCESS)"
    using scan_calm [OF assms] by (auto simp: scan_text_def split: prod.splits if_splits)
  have "scan_ok empty_scan" by (simp add: scan_start_of scan_okI)
  then obtain rows row cur b q z where st1: "st1 = scan_of rows row cur b q z" "rows_ok rows" "row_ok row" "0 \<notin> set cur"
    using loop_ok [OF l(1)] by (auto simp: scan_ok_def)
  have "\<not> q" using l(2) st1(1) by (auto simp: parse_finish_def)
  then show ?thesis
    using finish_granted [OF calm_granted, of rows row cur b z] l(2) st1 by (auto split: if_splits)
qed

text \<open>A successful scan follows the grammar, and with enough memory every text of the grammar succeeds.\<close>

lemma scan_text_cstr: "csv_granted env \<Longrightarrow> scan_text env d s st = scan_text env d (cstr s) st"
  by (rule scan_cong) (rule loop_cstr)

lemma scan_success:
  assumes "scan_text env d s empty_scan = (st, FT_ERR_SUCCESS)" "usable_delimiter d"
  shows "\<exists>rows. csv_text d (cstr s) rows \<and> scanned rows st"
  using scan_sound [OF assms(2) _ reads_empty, of "cstr s" "[]" "[]" st] scan_calm [OF assms(1)]
    scan_text_cstr [OF calm_granted, of d s] by (simp add: scan_start_of csv_text_def)

lemma scan_complete:
  assumes "csv_granted env" "usable_delimiter d" "csv_text d (cstr s) rows"
  shows "\<exists>st. scan_text env d s empty_scan = (st, FT_ERR_SUCCESS) \<and> scanned rows st"
  using scan_accepts [OF assms(1,2), of "[]" "cstr s" rows "[]"] assms(3) scan_text_cstr [OF assms(1), of d s]
  by (simp add: scan_start_of csv_text_def)

lemma scan_error:
  assumes "csv_granted env" "scan_text env d s (scan_of rows row cur b q z) = (st, e)"
  shows "e = FT_ERR_SUCCESS \<or> e = FT_ERR_INVALID_OPERATION"
proof -
  have fin: "snd (parse_finish env (scan_of rows row cur b q z)) \<in> {FT_ERR_SUCCESS, FT_ERR_INVALID_OPERATION}" for rows row cur b q z
    using finish_granted [OF assms(1), of rows row cur b z] by (cases q) (auto simp: parse_finish_def)
  define is_scan where "is_scan st \<longleftrightarrow> (\<exists>rows row cur b q z. st = scan_of rows row cur b q z)" for st
  have is_scan: "is_scan (scan_of rows row cur b q z)" for rows row cur b q z unfolding is_scan_def by blast
  have "snd (scan_text env d s (scan_of rows row cur b q z)) \<in> {FT_ERR_SUCCESS, FT_ERR_INVALID_OPERATION}"
  proof (induction s arbitrary: rows row cur b q z rule: length_induct)
    case (1 s)
    show ?case
    proof (cases s)
      case Nil
      then show ?thesis using fin by (simp add: scan_text_def)
    next
      case (Cons c rest)
      note g = granted_appends(3-5) [OF assms(1)]
      obtain st1 e1 n where s1: "parse_step env d c rest (scan_of rows row cur b q z) = (st1, e1, n)" by (metis prod_cases3)
      have "e1 = FT_ERR_INVALID_OPERATION \<or> e1 = FT_ERR_SUCCESS \<and> is_scan st1"
        using s1 unfolding parse_step_def Let_def g by (auto split: if_splits simp: is_scan)
      moreover have "length (drop (n - 1) rest) < length s" using Cons by simp
      then have "is_scan st1 \<Longrightarrow> snd (scan_text env d (drop (n - 1) rest) st1) \<in> {FT_ERR_SUCCESS, FT_ERR_INVALID_OPERATION}"
        using 1 unfolding is_scan_def by blast
      ultimately show ?thesis using Cons s1 fin [of rows row cur b q z] by (auto simp: scan_text_def)
    qed
  qed
  then show ?thesis using assms(2) by simp
qed

end
