(* ===== verification/Csv_Props.thy ===== *)
theory Csv_Props
  imports Csv_Text
begin

text \<open>
  The writer produces text of the grammar, so that writing and parsing are inverse; the documents a program
  can reach; and what copying and moving do.
\<close>

subsection \<open>The text of a document\<close>

fun sep_join :: "bytes \<Rightarrow> bytes list \<Rightarrow> bytes" where
  "sep_join s [] = []"
| "sep_join s [x] = x"
| "sep_join s (x # y # xs) = x @ s @ sep_join s (y # xs)"

lemma sep_join_Cons: "sep_join s (x # xs) = x @ (if xs = [] then [] else s @ sep_join s xs)"
  by (cases xs) auto

lemma sep_join_snoc: "sep_join s (xs @ [x]) = concat (map (\<lambda>y. y @ s) xs) @ x"
  by (induction xs) (auto simp: sep_join_Cons)

lemma sep_join_before:
  "sep_join s (map f xs) = concat (map (\<lambda>i. (if 0 < i then s else []) @ f (xs ! i)) [0..<length xs])"
proof (induction xs rule: rev_induct)
  case (snoc x xs)
  have "concat (map (\<lambda>i. (if 0 < i then s else []) @ f ((xs @ [x]) ! i)) [0..<length xs])
      = concat (map (\<lambda>i. (if 0 < i then s else []) @ f (xs ! i)) [0..<length xs])"
    by (intro arg_cong [where f = concat] map_cong) (auto simp: nth_append)
  moreover have "sep_join s (map f xs @ [f x]) = (if xs = [] then f x else sep_join s (map f xs) @ s @ f x)"
    by (induction xs) (auto simp: sep_join_Cons)
  ultimately show ?case using snoc by simp
qed simp

lemma sep_join_after:
  "sep_join s (map f xs) = concat (map (\<lambda>i. f (xs ! i) @ (if i + 1 < length xs then s else [])) [0..<length xs])"
proof (cases xs rule: rev_cases)
  case (snoc ys y)
  have "map (\<lambda>i. f (xs ! i) @ (if i + 1 < length xs then s else [])) [0..<length ys] = map (\<lambda>x. f x @ s) ys"
    unfolding snoc by (auto simp: nth_append intro!: nth_equalityI)
  then show ?thesis by (simp add: snoc sep_join_snoc comp_def)
qed simp

definition csv_quoted :: "u8 \<Rightarrow> bytes \<Rightarrow> bytes" where
  "csv_quoted d v = (if csv_field_needs_quotes (Some v) d then 0x22 # escape v @ [0x22] else v)"

definition row_text :: "u8 \<Rightarrow> bytes list \<Rightarrow> bytes" where
  "row_text d row = sep_join [d] (map (csv_quoted d) row)"

definition rows_text :: "u8 \<Rightarrow> bytes list list \<Rightarrow> bytes" where
  "rows_text d rows = sep_join [0x0A] (map (row_text d) rows)"

lemma cstr_id: "0 \<notin> set v \<Longrightarrow> cstr v = v"
  by (induction v) auto

lemma cstr_terminated: "0 \<notin> set v \<Longrightarrow> cstr (v @ 0 # rest) = v"
  by (induction v) auto

lemma not_quoted:
  assumes "\<not> csv_field_needs_quotes (Some v) d" "0 \<notin> set v"
  shows "v \<noteq> []" "\<forall>c \<in> set v. \<not> special d c"
proof -
  have "ft_strlen_raw v = length v" using assms(2) by (simp add: ft_strlen_raw_cstr cstr_id)
  then show "v \<noteq> []" "\<forall>c \<in> set v. \<not> special d c"
    using assms(1) quotes_loop_iff [of d v] by (auto simp: csv_field_needs_quotes_def Let_def split: if_splits)
qed

lemma quoted_text:
  assumes "0 \<notin> set v"
  shows "field_text d (csv_quoted d v) v" "csv_quoted d v \<noteq> []" "0 \<notin> set (csv_quoted d v)"
proof -
  show "field_text d (csv_quoted d v) v"
    using not_quoted [OF _ assms] field_text.quoted [of "[]" d v] field_text.plain by (auto simp: csv_quoted_def)
  show "csv_quoted d v \<noteq> []" using not_quoted(1) [OF _ assms] by (auto simp: csv_quoted_def)
  show "0 \<notin> set (csv_quoted d v)" using assms by (auto simp: csv_quoted_def escape_def)
qed

lemma append_escaped:
  assumes "csv_granted env" "0 \<notin> set v"
  shows "csv_append_escaped_field env out (Some v) d = (out @ csv_quoted d v, FT_ERR_SUCCESS)"
  using assms
  by (simp add: csv_append_escaped_field_def append_quoted_def csv_quoted_def take_strlen cstr_id granted_appends granted_escape)

text \<open>The text of a row, at the end or in front of a line end, and of all rows.\<close>

lemma row_text_last: "row_ok fs \<Longrightarrow> fs \<noteq> [] \<Longrightarrow> csv_tail d row (row_text d fs) [row @ fs]"
proof (induction fs arbitrary: row)
  case (Cons f fs)
  then have f: "field_text d (csv_quoted d f) f" "csv_quoted d f \<noteq> []" "row_ok fs"
    using quoted_text [of f] by (auto simp: row_ok_def)
  then show ?case
    using csv_tail.last [OF f(1,2), of row] csv_tail.field [OF f(1) Cons.IH [OF f(3), of "row @ [f]"]]
    by (cases "fs = []") (simp_all add: row_text_def sep_join_Cons)
qed simp

lemma row_text_line:
  assumes "line_end e rest" "csv_tail d [] rest rows"
  shows "row_ok fs \<Longrightarrow> fs \<noteq> [] \<Longrightarrow> csv_tail d row (row_text d fs @ e @ rest) ((row @ fs) # rows)"
proof (induction fs arbitrary: row)
  case (Cons f fs)
  then have f: "field_text d (csv_quoted d f) f" "row_ok fs" using quoted_text [of f] by (auto simp: row_ok_def)
  then show ?case
    using csv_tail.row [OF f(1) assms, of row] csv_tail.field [OF f(1) Cons.IH [OF f(2), of "row @ [f]"]]
    by (cases "fs = []") (simp_all add: row_text_def sep_join_Cons)
qed simp

lemma rows_text_grammar: "rows_ok rows \<Longrightarrow> csv_text d (rows_text d rows) rows"
  unfolding csv_text_def
proof (induction rows)
  case Nil
  show ?case using csv_tail.finish [of d "[]"] by (simp add: rows_text_def)
next
  case (Cons r rows)
  show ?case
    using row_text_last [of r d "[]"] row_text_line [of "[0x0A]" "rows_text d rows" d rows r "[]"] Cons
    by (cases "rows = []") (auto simp: rows_text_def sep_join_Cons line_end_def)
qed

lemma rows_text_nonzero:
  assumes "rows_ok rows" "usable_delimiter d"
  shows "0 \<notin> set (rows_text d rows)"
proof -
  have "0 \<notin> set (sep_join s xs)" if "0 \<notin> set s" "\<forall>x \<in> set xs. 0 \<notin> set x" for s xs
    using that by (induction xs) (auto simp: sep_join_Cons)
  then show ?thesis
    using assms quoted_text(3) unfolding rows_text_def row_text_def rows_ok_def row_ok_def usable_delimiter_def by simp
qed


subsection \<open>Documents and their rows\<close>

definition csv_document_of :: "u8 \<Rightarrow> bool \<Rightarrow> bytes list list \<Rightarrow> csv_document" where
  "csv_document_of d h rows =
     \<lparr>cd_fields = \<lparr>cv_items = concat rows, cv_state = Initialised\<rparr>,
      cd_offsets = \<lparr>cv_items = offsets_of rows, cv_state = Initialised\<rparr>,
      cd_lengths = \<lparr>cv_items = map length rows, cv_state = Initialised\<rparr>,
      cd_delimiter = d, cd_has_header = h, cd_state = Initialised\<rparr>"

lemma document_of_simps [simp]:
  "cv_items (cd_fields (csv_document_of d h rows)) = concat rows"
  "cv_items (cd_offsets (csv_document_of d h rows)) = offsets_of rows"
  "cv_items (cd_lengths (csv_document_of d h rows)) = map length rows"
  "cd_delimiter (csv_document_of d h rows) = d" "cd_has_header (csv_document_of d h rows) = h"
  "cd_state (csv_document_of d h rows) = Initialised"
  by (simp_all add: csv_document_of_def)

lemma lookup_document:
  "field_lookup r c (csv_document_of d h rows) =
     (if r < length rows \<and> c < length (rows ! r) then (Some (rows ! r ! c), FT_ERR_SUCCESS) else (None, FT_ERR_OUT_OF_RANGE))"
  using concat_at_offset [of r rows c] by (auto simp: field_lookup_def cv_at_def Let_def simp del: length_concat)

lemma row_ok_nth: "rows_ok rows \<Longrightarrow> r < length rows \<Longrightarrow> c < length (rows ! r) \<Longrightarrow> 0 \<notin> set (rows ! r ! c)"
  using nth_mem by (fastforce simp: rows_ok_def row_ok_def)

text \<open>The writer.\<close>

lemma write_columns_text:
  assumes "csv_granted env" "rows_ok rows" "r < length rows" "\<forall>c \<in> set cs. c < length (rows ! r)"
  shows "write_columns env (csv_document_of d h rows) r cs out le =
    (out @ concat (map (\<lambda>c. (if 0 < c then [d] else []) @ csv_quoted d (rows ! r ! c)) cs), FT_ERR_SUCCESS,
     if cs = [] then le else FT_ERR_SUCCESS)"
  using assms(4)
proof (induction cs arbitrary: out le)
  case (Cons c cs)
  then have "0 \<notin> set (rows ! r ! c)" using row_ok_nth [OF assms(2,3)] by simp
  then show ?case
    using Cons assms(3) by (auto simp: lookup_document granted_appends(1) [OF assms(1)] append_escaped [OF assms(1)])
qed simp

lemma write_rows_text:
  assumes "csv_granted env" "rows_ok rows" "\<forall>r \<in> set rs. r < length rows"
  shows "write_rows env (csv_document_of d h rows) n rs out le =
    (out @ concat (map (\<lambda>r. row_text d (rows ! r) @ (if r + 1 < n then [0x0A] else [])) rs), FT_ERR_SUCCESS,
     if rs = [] then le else FT_ERR_SUCCESS)"
  using assms(3)
proof (induction rs arbitrary: out le)
  case (Cons r rs)
  have "rows ! r \<noteq> []" using assms(2) Cons.prems by (simp add: rows_ok_def)
  moreover have "write_columns env (csv_document_of d h rows) r [0..<length (rows ! r)] out le
      = (out @ row_text d (rows ! r), FT_ERR_SUCCESS, if rows ! r = [] then le else FT_ERR_SUCCESS)"
    using write_columns_text [OF assms(1,2), of r "[0..<length (rows ! r)]"] Cons.prems
    by (simp add: row_text_def sep_join_before [of "[d]" "csv_quoted d" "rows ! r"])
  ultimately show ?case
    using Cons by (simp add: cv_at_def granted_appends(1) [OF assms(1)])
qed simp

lemma write_document:
  assumes "csv_granted env" "rows_ok rows"
  shows "write_to_string env le (csv_document_of d h rows) =
    Some (rows_text d rows, FT_ERR_SUCCESS, if rows = [] then le else FT_ERR_SUCCESS)"
  using write_rows_text [OF assms, of "[0..<length rows]"]
  by (simp add: write_to_string_def csv_live_def Let_def rows_text_def sep_join_after [of "[0x0A]" "row_text d" rows])

text \<open>The parser.\<close>

lemma initialized_document:
  "csv_initialize doc = Some (doc1, e) \<Longrightarrow> doc1 = csv_document_of 0x2C False [] \<and> e = FT_ERR_SUCCESS"
  by (auto simp: csv_initialize_def cv_initialize_def csv_document_of_def split: if_splits)

lemma scan_start_document: "scan_start (csv_document_of d h []) = empty_scan"
  by (simp add: scan_start_def empty_scan_def)

lemma store_scanned:
  "scanned rows st \<Longrightarrow> (store_scan st (csv_document_of d0 h0 []))\<lparr>cd_delimiter := d, cd_has_header := h\<rparr> = csv_document_of d h rows"
  by (simp add: store_scan_def scanned_def csv_document_of_def)

lemma parse_content_scan:
  "parse_content env (Some s) d h (csv_document_of d0 h0 []) =
     (let (st, e) = scan_text env d s empty_scan
      in (if e \<noteq> FT_ERR_SUCCESS then store_scan st (csv_document_of d0 h0 [])
          else (store_scan st (csv_document_of d0 h0 []))\<lparr>cd_delimiter := d, cd_has_header := h\<rparr>, e))"
  by (simp add: parse_content_def scan_text_def scan_start_document split: prod.splits)

lemma destroyed: "cd_state (fst (csv_destroy doc)) \<noteq> Initialised" "cd_state (csv_release doc) \<noteq> Initialised"
  by (auto simp: csv_destroy_def csv_release_def)

text \<open>Every outcome of \<open>initialize\<close> with a text.\<close>

lemma initialize_text_cases:
  assumes "csv_initialize_text env content d h doc = Some (doc1, e)"
  obtains (parsed) s st rows where "content = Some s" "e = FT_ERR_SUCCESS" "scan_text env d s empty_scan = (st, FT_ERR_SUCCESS)"
      "scanned rows st" "rows_ok rows" "doc1 = csv_document_of d h rows"
  | (refused) "e \<noteq> FT_ERR_SUCCESS" "cd_state doc1 = Destroyed"
      "content = None \<and> e = FT_ERR_INVALID_POINTER \<or> (\<exists>s st. content = Some s \<and> scan_text env d s empty_scan = (st, e))"
proof -
  let ?doc0 = "csv_document_of 0x2C False []"
  obtain doc0 e0 where i: "csv_initialize (csv_release doc) = Some (doc0, e0)"
    using assms by (auto simp: csv_initialize_text_def split: option.splits)
  have d0: "doc0 = ?doc0" "e0 = FT_ERR_SUCCESS" using initialized_document [OF i] by simp_all
  obtain doc2 e2 where p0: "parse_content env content d h ?doc0 = (doc2, e2)" by (cases "parse_content env content d h ?doc0")
  have "e2 = e" and r: "doc1 = (if e \<noteq> FT_ERR_SUCCESS then fst (csv_destroy doc2) else doc2)"
    using assms i d0 p0 by (auto simp: csv_initialize_text_def split: if_splits)
  then have p: "parse_content env content d h ?doc0 = (doc2, e)" using p0 by simp
  have live: "cd_state doc2 = Initialised"
    using p by (auto simp: parse_content_def store_scan_def Let_def split: option.splits prod.splits if_splits)
  show ?thesis
  proof (cases content)
    case None
    then show ?thesis using refused p r live by (simp add: parse_content_def csv_destroy_def)
  next
    case (Some s)
    obtain st where st: "scan_text env d s empty_scan = (st, e)"
      and doc2: "e = FT_ERR_SUCCESS \<Longrightarrow> doc2 = (store_scan st ?doc0)\<lparr>cd_delimiter := d, cd_has_header := h\<rparr>"
      using p unfolding Some parse_content_scan by (auto simp: Let_def split: prod.splits)
    show ?thesis
    proof (cases "e = FT_ERR_SUCCESS")
      case True
      then obtain rows where "scanned rows st" "rows_ok rows" using scan_stores [of env d s st] st by auto
      then show ?thesis using parsed [of s st rows] Some True st doc2 r store_scanned by simp
    next
      case False
      then show ?thesis using refused Some st r live by (auto simp: csv_destroy_def)
    qed
  qed
qed


lemma rows_unique: "concat rows = concat rows1 \<Longrightarrow> map length rows = map length rows1 \<Longrightarrow> rows = rows1"
  by (induction rows arbitrary: rows1) (auto simp: append_eq_append_conv)

lemma scanned_unique: "scanned rows st \<Longrightarrow> scanned rows1 st \<Longrightarrow> rows = rows1"
  using rows_unique [of rows rows1] by (simp add: scanned_def)

lemma document_of_inj: "csv_document_of d h rows = csv_document_of d1 h1 rows1 \<Longrightarrow> rows = rows1"
  using rows_unique [of rows rows1] by (simp add: csv_document_of_def)

text \<open>A document that \<open>initialize\<close> accepts: its vectors are live exactly when it is.\<close>

definition csv_reusable :: "csv_document \<Rightarrow> bool" where
  "csv_reusable doc \<longleftrightarrow> cd_state doc = Initialised
     \<or> cv_state (cd_fields doc) \<noteq> Initialised \<and> cv_state (cd_offsets doc) \<noteq> Initialised \<and> cv_state (cd_lengths doc) \<noteq> Initialised"

lemma reusable_initialize:
  "csv_reusable doc \<Longrightarrow> csv_initialize (csv_release doc) = Some (csv_document_of 0x2C False [], FT_ERR_SUCCESS)"
  by (auto simp: csv_reusable_def csv_release_def csv_initialize_def csv_destroy_def destroy_vectors_def cv_destroy_def
    cv_initialize_def csv_document_of_def)

lemma reusable_text: "csv_reusable doc \<Longrightarrow> \<exists>doc1 e. csv_initialize_text env content d h doc = Some (doc1, e)"
  by (simp add: csv_initialize_text_def reusable_initialize split: prod.splits)

subsection \<open>Reachable documents\<close>

inductive csv_reached :: "csv_document \<Rightarrow> bool" where
  construct: "csv_reached csv_document_constructor"
| initialize: "csv_reached doc \<Longrightarrow> csv_initialize doc = Some (doc1, e) \<Longrightarrow> csv_reached doc1"
| parse: "csv_reached doc \<Longrightarrow> csv_initialize_text env content d h doc = Some (doc1, e) \<Longrightarrow> csv_reached doc1"
| parse_source: "csv_reached doc \<Longrightarrow> csv_initialize_source env source d h doc = Some (doc1, e) \<Longrightarrow> csv_reached doc1"
| parse_file: "csv_reached doc \<Longrightarrow> csv_initialize_from_file env read_file path d h doc = Some (doc1, e) \<Longrightarrow> csv_reached doc1"
| destroy: "csv_reached doc \<Longrightarrow> csv_reached (fst (csv_destroy doc))"
| copy: "csv_reached doc \<Longrightarrow> csv_reached other \<Longrightarrow> csv_initialize_copy env same doc other = Some (doc1, e) \<Longrightarrow> csv_reached doc1"
| move_to: "csv_reached doc \<Longrightarrow> csv_reached other \<Longrightarrow> csv_move env le same doc other = Some (doc1, other1, e) \<Longrightarrow> csv_reached doc1"
| move_from: "csv_reached doc \<Longrightarrow> csv_reached other \<Longrightarrow> csv_move env le same doc other = Some (doc1, other1, e) \<Longrightarrow> csv_reached other1"

definition csv_wf :: "csv_document \<Rightarrow> bool" where
  "csv_wf doc \<longleftrightarrow> cd_state doc \<noteq> Initialised
     \<or> (\<exists>rows. rows_ok rows \<and> doc = csv_document_of (cd_delimiter doc) (cd_has_header doc) rows)"

lemma wf_document: "rows_ok rows \<Longrightarrow> csv_wf (csv_document_of d h rows)"
  by (auto simp: csv_wf_def)

lemma wf_dead: "cd_state doc \<noteq> Initialised \<Longrightarrow> csv_wf doc"
  by (simp add: csv_wf_def)

lemma wf_text: "csv_initialize_text env content d h doc = Some (doc1, e) \<Longrightarrow> csv_wf doc1"
  by (erule initialize_text_cases) (simp_all add: wf_document wf_dead)

lemma wf_source: "csv_initialize_source env source d h doc = Some (doc1, e) \<Longrightarrow> csv_wf doc1"
  by (auto simp: csv_initialize_source_def wf_dead destroyed split: if_splits dest: wf_text)

text \<open>A copy of a live document aborts: its vectors have just been initialised when they are initialised again.\<close>

lemma copy_aborts:
  assumes "cd_state other = Initialised"
  shows "csv_initialize_copy env False doc other = None"
proof (cases "csv_initialize (csv_release doc)")
  case (Some p)
  then obtain doc1 where "csv_initialize (csv_release doc) = Some (doc1, FT_ERR_SUCCESS)"
    "doc1 = csv_document_of 0x2C False []" using initialized_document by (cases p) blast
  then show ?thesis
    using assms by (simp add: csv_initialize_copy_def cv_initialize_copy_def cv_initialize_def csv_document_of_def)
qed (use assms in \<open>simp add: csv_initialize_copy_def\<close>)

lemma wf_copy:
  assumes "csv_initialize_copy env same doc other = Some (doc1, e)" "csv_wf doc"
  shows "csv_wf doc1"
proof (cases "cd_state other")
  case Initialised
  then show ?thesis using assms copy_aborts [of other env doc] by (cases same) (auto simp: csv_initialize_copy_def)
next
  case Destroyed
  then show ?thesis using assms by (auto simp: csv_initialize_copy_def wf_dead split: if_splits option.splits)
qed (use assms in \<open>simp add: csv_initialize_copy_def\<close>)

lemma move_success: "cv_state other = Initialised \<Longrightarrow>
  cv_move FT_ERR_SUCCESS v other = Some (\<lparr>cv_items = cv_items other, cv_state = Initialised\<rparr>, \<lparr>cv_items = [], cv_state = Destroyed\<rparr>, FT_ERR_SUCCESS)"
  by (simp add: cv_move_def cv_destroy_def cv_initialize_def)

lemma move_lost: "cv_state other = Initialised \<Longrightarrow> e \<noteq> FT_ERR_SUCCESS \<Longrightarrow>
  cv_move e v other = Some (\<lparr>cv_items = [], cv_state = Destroyed\<rparr>, other, FT_ERR_SUCCESS)"
  by (simp add: cv_move_def cv_destroy_def cv_initialize_def)

text \<open>A move always succeeds; when the strings could not be constructed they stay behind in the source.\<close>

lemma move_document:
  "csv_move env le False doc (csv_document_of d h rows) =
     (if ce_move_strings env \<noteq> FT_ERR_SUCCESS
      then Some ((csv_document_of d h rows)\<lparr>cd_fields := \<lparr>cv_items = [], cv_state = Destroyed\<rparr>,
               cd_state := cd_state (csv_release doc)\<rparr>,
             (fst (csv_destroy (csv_document_of d h rows)))\<lparr>cd_fields := cd_fields (csv_document_of d h rows)\<rparr>,
             FT_ERR_SUCCESS)
      else Some ((csv_document_of d h rows)\<lparr>cd_state := cd_state (csv_release doc)\<rparr>,
             fst (csv_destroy (csv_document_of d h rows)), FT_ERR_SUCCESS))"
  by (cases "ce_move_strings env = FT_ERR_SUCCESS"; cases "csv_release doc")
    (simp_all add: csv_move_def move_success [simplified] move_lost [simplified] csv_document_of_def csv_destroy_def
      destroy_vectors_def cv_destroy_def Let_def)

lemma wf_move:
  assumes "csv_move env le same doc other = Some (doc1, other1, e)" "csv_wf doc" "csv_wf other"
  shows "csv_wf doc1 \<and> csv_wf other1"
proof (cases "same \<or> cd_state other \<noteq> Initialised")
  case True
  then show ?thesis using assms by (cases "cd_state other") (auto simp: csv_move_def wf_dead Let_def split: if_splits)
next
  case False
  then obtain d h rows where "other = csv_document_of d h rows" "rows_ok rows" using assms(3) by (auto simp: csv_wf_def)
  then show ?thesis
    using assms(1) False move_document [of env le doc d h rows] destroyed wf_document wf_dead by (auto split: if_splits)
qed

lemma reached_wf: "csv_reached doc \<Longrightarrow> csv_wf doc"
proof (induction rule: csv_reached.induct)
  case construct
  then show ?case by (simp add: wf_dead csv_document_constructor_def)
next
  case (initialize doc doc1 e)
  then show ?case using initialized_document [of doc doc1 e] wf_document [of "[]"] by simp
next
  case (parse_file doc env read_file path d h doc1 e)
  then show ?case by (auto simp: csv_initialize_from_file_def wf_dead destroyed split: option.splits dest: wf_source)
qed (auto intro: wf_text wf_source wf_copy wf_dead [OF destroyed(1)] dest: wf_move)

lemma reached_rows:
  assumes "csv_reached doc" "cd_state doc = Initialised"
  obtains rows where "rows_ok rows" "doc = csv_document_of (cd_delimiter doc) (cd_has_header doc) rows"
  using reached_wf [OF assms(1)] assms(2) by (auto simp: csv_wf_def)


subsection \<open>Queries\<close>

lemma header_search:
  "\<forall>c \<in> set cs. offset + c < length fs \<Longrightarrow> header_loop fs offset name cs = Some (find (\<lambda>c. fs ! (offset + c) = cstr name) cs)"
  by (induction cs) auto

lemma find_header_document:
  assumes "rows \<noteq> []"
  shows "find_header_column_index (Some name) (csv_document_of d True rows)
    = Some (find (\<lambda>c. rows ! 0 ! c = cstr name) [0..<length (rows ! 0)])"
proof -
  obtain r rows1 where rows: "rows = r # rows1" using assms by (cases rows) auto
  have "offsets_of rows ! 0 = 0" using assms by (simp add: offsets_of_def)
  then have "header_loop (concat rows) (offsets_of rows ! 0) name [0..<length r]
      = Some (find (\<lambda>c. concat rows ! c = cstr name) [0..<length r])"
    using header_search [of "[0..<length r]" 0 "concat rows" name] by (simp add: rows)
  also have "find (\<lambda>c. concat rows ! c = cstr name) [0..<length r] = find (\<lambda>c. r ! c = cstr name) [0..<length r]"
    by (intro find_cong) (simp_all add: rows nth_append)
  finally show ?thesis by (simp add: find_header_column_index_def cv_at_def rows)
qed

lemma row_document:
  assumes "r < length rows" "rows ! r \<noteq> []"
  shows "get_row r (csv_document_of d h rows) = Some (Some (drop (offsets_of rows ! r) (concat rows)), length (rows ! r), FT_ERR_SUCCESS)"
proof -
  have "offsets_of rows ! r < length (concat rows)" using concat_at_offset(1) [OF assms(1), of 0] assms(2) by simp
  then show ?thesis using assms(1) by (simp add: get_row_def csv_live_def cv_at_def Let_def del: length_concat)
qed

subsection \<open>Splitting one line\<close>

text \<open>The loop of \<open>csv_split_line\<close> on the text of a field and of a row.\<close>

lemma split_plain:
  assumes "csv_granted env" "\<forall>c \<in> set t. \<not> special d c \<and> c \<noteq> 0"
  shows "split_loop env True d (t @ rest) (scan_of rows row cur b False False)
    = split_loop env True d rest (scan_of rows row (cur @ t) (b \<or> t \<noteq> []) False False)"
  using assms(2)
  by (induction t arbitrary: cur b) (simp_all add: split_step_def special_def granted_appends(3) [OF assms(1)])

lemma split_quote:
  assumes "csv_granted env"
  shows "c \<noteq> 0 \<Longrightarrow> c \<noteq> 0x22 \<Longrightarrow> split_loop env True d (c # rest) (scan_of rows row cur b True False)
      = split_loop env True d rest (scan_of rows row (cur @ [c]) b True False)"
    "split_loop env True d (0x22 # 0x22 # rest) (scan_of rows row cur b True False)
      = split_loop env True d rest (scan_of rows row (cur @ [0x22]) b True False)"
    "c_at rest 0 \<noteq> 0x22 \<Longrightarrow> split_loop env True d (0x22 # rest) (scan_of rows row cur b True False)
      = split_loop env True d rest (scan_of rows row cur b False True)"
  by (simp_all add: split_step_def granted_appends(3) [OF assms])

lemma split_escaped:
  assumes "csv_granted env" "0 \<notin> set v" "c_at rest 0 \<noteq> 0x22"
  shows "split_loop env True d (escape v @ 0x22 # rest) (scan_of rows row cur b True False)
    = split_loop env True d rest (scan_of rows row (cur @ v) b False True)"
  using assms(2)
  by (induction v arbitrary: cur)
    (simp_all add: split_quote [OF assms(1)] split_quote(3) [OF assms(1,3)] del: split_loop.simps)

lemma split_quoted_field:
  assumes "csv_granted env" "usable_delimiter d" "0 \<notin> set v" "c_at rest 0 \<noteq> 0x22"
  obtains z where "split_loop env True d (csv_quoted d v @ rest) (scan_of rows row [] False False False)
    = split_loop env True d rest (scan_of rows row v True False z)"
proof (cases "csv_field_needs_quotes (Some v) d")
  case True
  have "split_loop env True d (0x22 # escape v @ 0x22 # rest) (scan_of rows row [] False False False)
      = split_loop env True d (escape v @ 0x22 # rest) (scan_of rows row [] True True False)"
    using assms(2) by (simp add: split_step_def usable_delimiter_def)
  then show ?thesis
    using that [of True] True split_escaped [OF assms(1,3,4), of d rows row "[]" True] by (simp add: csv_quoted_def del: split_loop.simps)
next
  case False
  then show ?thesis
    using that [of False] not_quoted [OF False assms(3)] split_plain [OF assms(1), of v d rest rows row "[]" False] assms(3)
    by (auto simp: csv_quoted_def simp del: split_loop.simps)
qed

lemma split_row:
  assumes "csv_granted env" "usable_delimiter d"
  shows "row_ok fs \<Longrightarrow> fs \<noteq> [] \<Longrightarrow> \<exists>st. split_loop env True d (row_text d fs) (scan_of [] row [] False False False) = Some (st, FT_ERR_SUCCESS)
    \<and> \<not> cs_in_quotes st \<and> cs_started st \<and> cs_fields st @ [cs_current st] = row @ fs"
proof (induction fs arbitrary: row)
  case (Cons f fs)
  have f: "0 \<notin> set f" "row_ok fs" using Cons.prems by (simp_all add: row_ok_def)
  show ?case
  proof (cases "fs = []")
    case True
    obtain z where "split_loop env True d (csv_quoted d f @ []) (scan_of [] row [] False False False)
        = split_loop env True d [] (scan_of [] row f True False z)"
      using split_quoted_field [OF assms f(1), of "[]" "[]" row] by auto
    then show ?thesis using True by (simp add: row_text_def)
  next
    case False
    let ?rest = "d # row_text d fs"
    have "c_at ?rest 0 \<noteq> 0x22" using assms(2) by (simp add: usable_delimiter_def)
    then obtain z where "split_loop env True d (csv_quoted d f @ ?rest) (scan_of [] row [] False False False)
        = split_loop env True d ?rest (scan_of [] row f True False z)"
      using split_quoted_field [OF assms f(1)] by metis
    also have "\<dots> = split_loop env True d (row_text d fs) (scan_of [] (row @ [f]) [] False False False)"
      using assms(2) by (simp add: split_step_def split_field_def usable_delimiter_def granted_appends(4) [OF assms(1)])
    finally show ?thesis
      using Cons.IH [OF f(2) False, of "row @ [f]"] False by (simp add: row_text_def sep_join_Cons del: split_loop.simps)
  qed
qed simp

lemma escape_field_text:
  assumes "csv_granted env" "0 \<notin> set v"
  shows "csv_escape_field env (Some v) d = Some (csv_quoted d v @ [0])"
proof -
  have dup: "0 \<notin> set xs \<Longrightarrow> csv_duplicate_c_string env (Some xs) = Some (xs @ [0])" for xs
    using assms(1) by (simp add: csv_duplicate_c_string_def csv_granted_def cstr_id)
  have "append_quoted env [] v = (0x22 # escape v @ [0x22], FT_ERR_SUCCESS)"
    using assms(2) by (simp add: append_quoted_def take_strlen cstr_id granted_appends [OF assms(1)] granted_escape [OF assms(1)])
  then show ?thesis
    using dup [OF assms(2)] dup [of "0x22 # escape v @ [0x22]"] assms(2) by (auto simp: csv_escape_field_def csv_quoted_def escape_def)
qed


lemma split_row_text:
  assumes "csv_granted env" "usable_delimiter d" "cv_state v \<noteq> Destroyed" "row_ok fs"
  shows "csv_split_line env (Some (row_text d fs)) v d = Some (\<lparr>cv_items = fs, cv_state = Initialised\<rparr>, FT_ERR_SUCCESS)"
proof -
  have v: "(if cv_state v = Uninitialised then \<lparr>cv_items = [], cv_state = Initialised\<rparr> else v\<lparr>cv_items := []\<rparr>)
      = \<lparr>cv_items = [], cv_state = Initialised\<rparr>" using assms(3) by (cases v; cases "cv_state v") auto
  show ?thesis
  proof (cases "fs = []")
    case True
    then show ?thesis by (simp add: csv_split_line_def v row_text_def split_finish_def empty_scan_def)
  next
    case False
    then obtain st where st: "split_loop env True d (row_text d fs) empty_scan = Some (st, FT_ERR_SUCCESS)"
        "\<not> cs_in_quotes st" "cs_started st" "cs_fields st @ [cs_current st] = fs"
      using split_row [OF assms(1,2,4) False, of "[]"] by (auto simp: scan_start_of)
    then have "cs_fields (fst (end_field env 0 st)) = fs" "snd (end_field env 0 st) = FT_ERR_SUCCESS"
      using assms(1) by (simp_all add: end_field_def csv_finalize_field_def csv_granted_def)
    then show ?thesis
      using st by (cases "end_field env 0 st") (simp add: csv_split_line_def v split_finish_def split_field_def)
  qed
qed

text \<open>Escaped lines and their fields are a codec: different rows give different lines.\<close>

definition split_fields :: "u8 \<Rightarrow> bytes \<Rightarrow> bytes list option" where
  "split_fields d line = (case csv_split_line csv_calm (Some line) \<lparr>cv_items = [], cv_state = Uninitialised\<rparr> d of
     None \<Rightarrow> None | Some (v, e) \<Rightarrow> if e = FT_ERR_SUCCESS then Some (cv_items v) else None)"

interpretation csv_line: codec "row_text d" "split_fields d" "\<lambda>fs. row_ok fs \<and> usable_delimiter d"
  for d
  by unfold_locales (simp add: split_fields_def split_row_text [OF calm_granted])

lemma lines_differ: "usable_delimiter d \<Longrightarrow> row_ok fs \<Longrightarrow> row_ok gs \<Longrightarrow> row_text d fs = row_text d gs \<longleftrightarrow> fs = gs"
  using csv_line.encode_inject [of fs d gs] by blast

subsection \<open>Properties\<close>

text \<open>
  C7: While memory lasts, \<open>initialize\<close> accepts exactly the texts of the grammar and stores exactly their rows;
  every other text is refused with \<open>FT_ERR_INVALID_OPERATION\<close> and leaves a destroyed document. The delimiter is
  none of the characters with a meaning of their own.
\<close>

theorem csv_parse_exact:
  assumes "csv_granted env" "usable_delimiter d" "csv_reusable doc"
  shows "(\<forall>rows. csv_initialize_text env (Some s) d h doc = Some (csv_document_of d h rows, FT_ERR_SUCCESS)
      \<longleftrightarrow> csv_text d (cstr s) rows)
    \<and> ((\<exists>doc1. csv_initialize_text env (Some s) d h doc = Some (doc1, FT_ERR_INVALID_OPERATION) \<and> cd_state doc1 = Destroyed)
      \<longleftrightarrow> (\<nexists>rows. csv_text d (cstr s) rows))"
proof -
  obtain doc1 e where r: "csv_initialize_text env (Some s) d h doc = Some (doc1, e)" using reusable_text [OF assms(3)] by blast
  from r show ?thesis
  proof (cases rule: initialize_text_cases)
    case (parsed s1 st rows)
    obtain rows1 where t: "csv_text d (cstr s) rows1" "scanned rows1 st"
      using scan_success [OF _ assms(2), of env s st] parsed by auto
    have "csv_text d (cstr s) rows2 \<longleftrightarrow> rows2 = rows" for rows2
      using t scanned_unique [OF parsed(4)] scan_complete [OF assms(1,2), of s rows2] parsed(1,3) by auto
    moreover have "csv_initialize_text env (Some s) d h doc = Some (csv_document_of d h rows2, FT_ERR_SUCCESS) \<longleftrightarrow> rows2 = rows" for rows2
      using r parsed(2,6) document_of_inj [of d h rows2 d h rows] by auto
    ultimately show ?thesis using r parsed(2) by simp
  next
    case refused
    then obtain st where st: "scan_text env d s empty_scan = (st, e)" by auto
    have "\<not> csv_text d (cstr s) rows" for rows using scan_complete [OF assms(1,2), of s rows] st refused(1) by auto
    moreover have "e = FT_ERR_INVALID_OPERATION" using scan_error [OF assms(1) st [unfolded scan_start_of]] refused(1) by simp
    ultimately show ?thesis using r refused by auto
  qed
qed

text \<open>The text \<open>a,"b""c" \<close> and a line end.\<close>

theorem csv_parse_exact_witness:
  "csv_text 0x2C (cstr [0x61, 0x2C, 0x22, 0x62, 0x22, 0x22, 0x63, 0x22, 0x20, 0x0A, 0]) [[[0x61], [0x62, 0x22, 0x63]]]"
proof -
  have "csv_reusable csv_document_constructor" "usable_delimiter 0x2C"
    by (simp_all add: csv_reusable_def csv_document_constructor_def usable_delimiter_def)
  moreover have "csv_initialize_text csv_calm (Some [0x61, 0x2C, 0x22, 0x62, 0x22, 0x22, 0x63, 0x22, 0x20, 0x0A, 0]) 0x2C False
      csv_document_constructor = Some (csv_document_of 0x2C False [[[0x61], [0x62, 0x22, 0x63]]], FT_ERR_SUCCESS)"
    by code_simp
  ultimately show ?thesis using csv_parse_exact [OF calm_granted] by blast
qed

text \<open>
  C8: Writing a live document and parsing the text gives the same document back, whatever the fields contain:
  delimiters, quotes, line ends, blanks at the ends or nothing at all. Memory is granted, and the delimiter is
  none of the characters with a meaning of their own.
\<close>

theorem csv_write_parse:
  assumes "csv_reached doc" "cd_state doc = Initialised" "usable_delimiter (cd_delimiter doc)" "csv_granted env" "csv_reusable doc0"
  shows "\<exists>output e. write_to_string env e0 doc = Some (output, FT_ERR_SUCCESS, e)
    \<and> csv_initialize_text env (Some (output @ [0])) (cd_delimiter doc) (cd_has_header doc) doc0 = Some (doc, FT_ERR_SUCCESS)"
proof -
  obtain rows where rows: "rows_ok rows" "doc = csv_document_of (cd_delimiter doc) (cd_has_header doc) rows"
    using reached_rows [OF assms(1,2)] .
  let ?d = "cd_delimiter doc" and ?h = "cd_has_header doc" let ?t = "rows_text ?d rows"
  have w: "write_to_string env e0 doc = Some (?t, FT_ERR_SUCCESS, if rows = [] then e0 else FT_ERR_SUCCESS)"
    using write_document [OF assms(4) rows(1), of e0 ?d ?h] rows(2) by simp
  have "csv_text ?d (cstr (?t @ [0])) rows"
    using rows_text_grammar [OF rows(1)] cstr_terminated [OF rows_text_nonzero [OF rows(1) assms(3)]] by simp
  then obtain st where st: "scan_text env ?d (?t @ [0]) empty_scan = (st, FT_ERR_SUCCESS)" "scanned rows st"
    using scan_complete [OF assms(4,3)] by blast
  obtain doc1 e where i: "csv_initialize_text env (Some (?t @ [0])) ?d ?h doc0 = Some (doc1, e)" using reusable_text [OF assms(5)] by blast
  then have "e = FT_ERR_SUCCESS \<and> doc1 = doc"
  proof (cases rule: initialize_text_cases)
    case (parsed s1 st1 rows1)
    then show ?thesis using st rows(2) by (simp add: scanned_def csv_document_of_def)
  next
    case refused
    then show ?thesis using st by auto
  qed
  then show ?thesis using w i by blast
qed

text \<open>A document of two rows, the second with one empty field.\<close>

definition demo_document :: csv_document where
  "demo_document = csv_document_of 0x2C False [[[0x61, 0x2C], [0x62]], [[]]]"

lemma demo_document_reached: "csv_reached demo_document"
proof (rule csv_reached.parse [OF csv_reached.construct])
  show "csv_initialize_text csv_calm (Some [0x22, 0x61, 0x2C, 0x22, 0x2C, 0x62, 0x0A, 0x22, 0x22]) 0x2C False csv_document_constructor
      = Some (demo_document, FT_ERR_SUCCESS)" by code_simp
qed

theorem csv_write_parse_witness:
  "\<exists>output e. write_to_string csv_calm FT_ERR_SUCCESS demo_document = Some (output, FT_ERR_SUCCESS, e)
    \<and> csv_initialize_text csv_calm (Some (output @ [0])) (cd_delimiter demo_document) (cd_has_header demo_document) csv_document_constructor
      = Some (demo_document, FT_ERR_SUCCESS)"
  by (rule csv_write_parse [OF demo_document_reached _ _ calm_granted])
    (simp_all add: demo_document_def usable_delimiter_def csv_reusable_def csv_document_constructor_def)

text \<open>
  C17: A live document that a program can reach, memory running out anywhere, is a table: every row has a field,
  every query inside it gives the entry, every query outside the error, a name the entry of the first column
  with that header.
\<close>

theorem csv_document_table:
  assumes "csv_reached doc" "cd_state doc = Initialised"
  shows "\<exists>rows. row_count doc = Some (length rows)
    \<and> (\<forall>r c. get_field r c doc = Some (if r < length rows \<and> c < length (rows ! r) then (Some (rows ! r ! c), FT_ERR_SUCCESS)
         else (None, FT_ERR_OUT_OF_RANGE)))
    \<and> (\<forall>r < length rows. rows ! r \<noteq> [] \<and> (\<exists>fs. get_row r doc = Some (Some fs, length (rows ! r), FT_ERR_SUCCESS)
         \<and> take (length (rows ! r)) fs = rows ! r))
    \<and> (cd_has_header doc \<and> rows \<noteq> [] \<longrightarrow> (\<forall>r name. get_field_by_name r (Some name) doc
         = (case find (\<lambda>c. rows ! 0 ! c = cstr name) [0..<length (rows ! 0)] of
              None \<Rightarrow> Some (None, FT_ERR_NOT_FOUND) | Some c \<Rightarrow> get_field r c doc)))"
proof -
  obtain rows where rows: "rows_ok rows" "doc = csv_document_of (cd_delimiter doc) (cd_has_header doc) rows"
    using reached_rows [OF assms] .
  let ?D = "csv_document_of (cd_delimiter doc) (cd_has_header doc) rows"
  have "row_count ?D = Some (length rows)" by (simp add: row_count_def csv_live_def)
  moreover have f: "get_field r c ?D = Some (if r < length rows \<and> c < length (rows ! r) then (Some (rows ! r ! c), FT_ERR_SUCCESS)
         else (None, FT_ERR_OUT_OF_RANGE))" for r c by (simp add: get_field_def csv_live_def lookup_document)
  moreover have "rows ! r \<noteq> [] \<and> (\<exists>fs. get_row r ?D = Some (Some fs, length (rows ! r), FT_ERR_SUCCESS)
         \<and> take (length (rows ! r)) fs = rows ! r)" if "r < length rows" for r
  proof -
    have "rows ! r \<noteq> []" using rows(1) that by (simp add: rows_ok_def)
    then show ?thesis using row_document [OF that, of "cd_delimiter doc" "cd_has_header doc"] concat_at_offset(3) [OF that, of 0] by auto
  qed
  moreover have "get_field_by_name r (Some name) ?D = (case find (\<lambda>c. rows ! 0 ! c = cstr name) [0..<length (rows ! 0)] of
        None \<Rightarrow> Some (None, FT_ERR_NOT_FOUND) | Some c \<Rightarrow> get_field r c ?D)" if "cd_has_header doc" "rows \<noteq> []" for r name
    using find_header_document [OF that(2), of name "cd_delimiter doc"] that(1) by (simp add: get_field_by_name_def split: option.splits)
  ultimately show ?thesis using rows(2) by metis
qed

theorem csv_document_table_witness:
  "\<exists>rows. row_count demo_document = Some (length rows)
    \<and> (\<forall>r c. get_field r c demo_document = Some (if r < length rows \<and> c < length (rows ! r) then (Some (rows ! r ! c), FT_ERR_SUCCESS)
         else (None, FT_ERR_OUT_OF_RANGE)))"
  using csv_document_table [OF demo_document_reached] by (fastforce simp: demo_document_def)

text \<open>
  Splitting a line of escaped fields gives the fields: \<open>csv_split_line\<close> undoes \<open>csv_escape_field\<close>.
\<close>

theorem csv_split_escape:
  assumes "csv_granted env" "usable_delimiter d" "\<forall>f \<in> set fs. 0 \<notin> set f" "cv_state v \<noteq> Destroyed"
  shows "csv_split_line env (Some (sep_join [d] (map (\<lambda>f. cstr (the (csv_escape_field env (Some f) d))) fs))) v d
    = Some (\<lparr>cv_items = fs, cv_state = Initialised\<rparr>, FT_ERR_SUCCESS)"
proof -
  have "sep_join [d] (map (\<lambda>f. cstr (the (csv_escape_field env (Some f) d))) fs) = sep_join [d] (map (csv_quoted d) fs)"
    using assms(3) by (intro arg_cong [where f = "sep_join [d]"] map_cong)
      (auto simp: escape_field_text [OF assms(1)] cstr_terminated quoted_text)
  then have t: "sep_join [d] (map (\<lambda>f. cstr (the (csv_escape_field env (Some f) d))) fs) = row_text d fs" by (simp add: row_text_def)
  have "row_ok fs" using assms(3) by (simp add: row_ok_def)
  then show ?thesis unfolding t by (rule split_row_text [OF assms(1,2,4)])
qed

theorem csv_split_escape_witness:
  "csv_split_line csv_calm (Some (sep_join [0x3B] (map (\<lambda>f. cstr (the (csv_escape_field csv_calm (Some f) 0x3B))) [[], [0x3B, 0x0A], [0x20, 0x61]])))
      \<lparr>cv_items = [], cv_state = Uninitialised\<rparr> 0x3B
    = Some (\<lparr>cv_items = [[], [0x3B, 0x0A], [0x20, 0x61]], cv_state = Initialised\<rparr>, FT_ERR_SUCCESS)"
  by (rule csv_split_escape [OF calm_granted]) (simp_all add: usable_delimiter_def)

text \<open>
  C39: Copying a live document always aborts: the copy initialises its vectors and then initialises them again
  with those of the source.
\<close>

theorem copying_document_aborts:
  assumes "cd_state other = Initialised"
  shows "csv_initialize_copy env False doc other = None"
  using assms by (rule copy_aborts)

theorem copying_document_aborts_witness: "csv_initialize_copy csv_calm False csv_document_constructor demo_document = None"
  by (rule copying_document_aborts) (simp add: demo_document_def)

text \<open>What is left to call on a document that is not initialised: every query and every writer aborts.\<close>

lemma dead_queries:
  assumes "cd_state doc \<noteq> Initialised"
  shows "row_count doc = None" "column_count r doc = None" "has_header doc = None" "csv_delimiter doc = None"
    "get_row r doc = None" "get_field r c doc = None" "get_field_by_name r name doc = None" "get_header c le doc = None"
    "write_to_string env le doc = None" "write_to_backend env sink le doc = None" "write_to_file env wr path le doc = None"
  using assms
  by (simp_all add: row_count_def column_count_def has_header_def csv_delimiter_def get_row_def get_field_def
      get_field_by_name_def get_header_def write_to_string_def write_to_backend_def write_to_file_def csv_live_def)

lemma dead_values:
  assumes "cd_state doc \<noteq> Initialised"
  shows "get_int64 r c i doc = None" "get_int64_by_name r name i doc = None" "get_uint64 r c w doc = None"
    "get_uint64_by_name r name w doc = None" "get_double f r c x doc = None" "get_double_by_name f r name x doc = None"
    "get_bool r c b doc = None" "get_bool_by_name r name b doc = None"
  using assms
  by (simp_all add: get_int64_def get_int64_by_name_def get_uint64_def get_uint64_by_name_def get_double_def
      get_double_by_name_def get_bool_def get_bool_by_name_def get_value_def)

text \<open>A dead document with a live vector cannot be initialised, except by moving into it.\<close>

lemma stuck_initialisers:
  assumes "cd_state doc \<noteq> Initialised" "cv_state (cd_offsets doc) = Initialised"
  shows "csv_initialize doc = None" "csv_initialize_text env content d h doc = None"
    "csv_initialize_source env (FT_ERR_SUCCESS, bytes) d h doc = None"
    "rd path = (FT_ERR_SUCCESS, bytes) \<Longrightarrow> csv_initialize_from_file env rd (Some path) d h doc = None"
    "csv_initialize_copy env False doc other = None" "csv_destroy doc = (doc, FT_ERR_SUCCESS)"
proof -
  have r: "csv_release doc = doc" using assms(1) by (simp add: csv_release_def)
  show i: "csv_initialize doc = None"
    using assms by (cases "cv_initialize (cd_fields doc)") (simp_all add: csv_initialize_def cv_initialize_def)
  show t: "csv_initialize_text env content d h doc = None" for content
    by (simp add: csv_initialize_text_def r i)
  show src: "csv_initialize_source env (FT_ERR_SUCCESS, bytes) d h doc = None" for bytes
    using t by (simp add: csv_initialize_source_def r)
  show "csv_initialize_from_file env rd (Some path) d h doc = None" if "rd path = (FT_ERR_SUCCESS, bytes)"
    using src [of bytes] that by (simp add: csv_initialize_from_file_def)
  show "csv_initialize_copy env False doc other = None" by (simp add: csv_initialize_copy_def r i)
  show "csv_destroy doc = (doc, FT_ERR_SUCCESS)" using assms(1) by (simp add: csv_destroy_def)
qed

text \<open>
  C40: Moving a live document into another always reports success and marks the source destroyed, but the destination is
  not marked initialised. The fields are in the destination, or, when a string could not be constructed,
  left behind in the source. Every query and every writer aborts on the destination, and so does every way to
  initialise it (empty, from text, from a source or a file that could be read, as a copy of
  another document); \<open>destroy\<close> does nothing. Only another move into it is defined.
\<close>

theorem moved_document_unusable:
  assumes "csv_reached other" "cd_state other = Initialised"
  shows "\<exists>doc1 other1. csv_move env e0 False doc other = Some (doc1, other1, FT_ERR_SUCCESS) \<and> cd_state other1 = Destroyed
    \<and> (if ce_move_strings env = FT_ERR_SUCCESS then cv_items (cd_fields doc1) = cv_items (cd_fields other)
       else cv_items (cd_fields doc1) = [] \<and> cv_items (cd_fields other1) = cv_items (cd_fields other))
    \<and> row_count doc1 = None \<and> column_count r doc1 = None \<and> has_header doc1 = None \<and> csv_delimiter doc1 = None
    \<and> get_row r doc1 = None \<and> get_field r c doc1 = None \<and> get_field_by_name r name doc1 = None
    \<and> get_header c e0 doc1 = None \<and> get_int64 r c i doc1 = None \<and> get_int64_by_name r name i doc1 = None
    \<and> get_uint64 r c w doc1 = None \<and> get_uint64_by_name r name w doc1 = None \<and> get_double f r c x doc1 = None
    \<and> get_double_by_name f r name x doc1 = None \<and> get_bool r c b doc1 = None \<and> get_bool_by_name r name b doc1 = None
    \<and> write_to_string env e0 doc1 = None \<and> write_to_backend env sink e0 doc1 = None
    \<and> write_to_file env wr path e0 doc1 = None
    \<and> csv_initialize doc1 = None \<and> csv_initialize_text env content d h doc1 = None
    \<and> csv_initialize_source env (FT_ERR_SUCCESS, bytes) d h doc1 = None
    \<and> csv_initialize_from_file env (\<lambda>p. (FT_ERR_SUCCESS, files p)) (Some file_name) d h doc1 = None
    \<and> csv_initialize_copy env False doc1 third = None \<and> csv_destroy doc1 = (doc1, FT_ERR_SUCCESS)"
proof -
  obtain rows where rows: "other = csv_document_of (cd_delimiter other) (cd_has_header other) rows"
    using reached_rows [OF assms] .
  define D where "D = csv_document_of (cd_delimiter other) (cd_has_header other) rows"
  obtain doc1 other1 where m: "csv_move env e0 False doc D = Some (doc1, other1, FT_ERR_SUCCESS)"
    "cd_state other1 = Destroyed" "cd_state doc1 = cd_state (csv_release doc)" "cv_state (cd_offsets doc1) = Initialised"
    "if ce_move_strings env = FT_ERR_SUCCESS then cv_items (cd_fields doc1) = cv_items (cd_fields D)
     else cv_items (cd_fields doc1) = [] \<and> cv_items (cd_fields other1) = cv_items (cd_fields D)"
    using move_document [of env e0 doc "cd_delimiter other" "cd_has_header other" rows]
    by (cases "ce_move_strings env = FT_ERR_SUCCESS") (simp_all add: D_def csv_document_of_def csv_destroy_def)
  have dead: "cd_state doc1 \<noteq> Initialised" using m(3) destroyed(2) by simp
  note q = dead_queries [OF dead] dead_values [OF dead] stuck_initialisers [OF dead m(4)]
  have "csv_initialize_from_file env (\<lambda>p. (FT_ERR_SUCCESS, files p)) (Some file_name) d h doc1 = None"
    by (rule q(23)) (rule refl)
  then show ?thesis
    using m(1,2,5) unfolding rows [folded D_def, symmetric]
    by (intro exI [of _ doc1] exI [of _ other1] conjI) (assumption | rule q)+
qed

theorem moved_document_unusable_witness:
  "\<exists>doc1 other1. csv_move csv_calm FT_ERR_SUCCESS False csv_document_constructor demo_document = Some (doc1, other1, FT_ERR_SUCCESS)
    \<and> cv_items (cd_fields doc1) = cv_items (cd_fields demo_document) \<and> row_count doc1 = None \<and> csv_initialize doc1 = None"
proof -
  have live: "cd_state demo_document = Initialised" "ce_move_strings csv_calm = FT_ERR_SUCCESS"
    by (simp_all add: demo_document_def csv_calm_def)
  show ?thesis
    by (rule exE [OF moved_document_unusable [OF demo_document_reached live(1),
        where env = csv_calm and ?e0.0 = FT_ERR_SUCCESS and doc = csv_document_constructor, unfolded if_P [OF live(2)]]])
      (elim exE conjE, intro exI conjI, assumption+)
qed

end
