(* ===== verification/Spec2Isabelle.thy ===== *)
theory Spec2Isabelle
  imports Basic_Number Basic_Parse Basic_Utf8 Encoding_Text Byte_Buffer_Steps Template_Vector_Steps
    Crypto_Aead Crypto_Session Crypto_X25519_Ladder Big_Number_Props Lock_Deadlock Scma_Props Csv_Props
begin

text \<open>
  \<^bold>\<open>A verified model of the core of FullLibft.\<close> The library under
  \<^verbatim>\<open>src/Modules\<close> is a C++ collection of some forty modules. Its core, on
  which the others build, is modelled here from the source: the error codes, the C-style primitives of
  \<open>Basic\<close>, the text encodings, the byte buffer, the generic vector, the cryptographic
  module, which composes them, the arbitrary-precision integers of \<open>CPP_class\<close>, the mutexes of
  \<open>PThread\<close> with their deadlock detector, the compacting allocator \<open>SCMA\<close>, and the documents of \<open>CSV\<close>. The rest of the repository is listed at the end.

  \<^bold>\<open>Conventions.\<close> Machine integers are words of their width; sizes (\<open>ft_size_t\<close>) are
  natural numbers where the code cannot reach \<open>2 ^ 64\<close> and carry an explicit
  \<open>mod 2 ^ 64\<close> or a word type where it can. A pointer and a length is an optional byte list
  and a number (\<open>None\<close> is the null pointer); memory that several pointers share is one byte list with
  offsets (\<open>Basic_Memory\<close>). Errors are the codes of \<open>Libft_Errno\<close>. An operation that may not
  return normally (an abort on a wrong lifecycle state, undefined behaviour) has an
  option type, and \<open>None\<close> is that outcome, so every theorem that an operation returns says so. Memory
  allocation, mutexes and the platform are parameters: \<open>alloc\<close>, \<open>buffer_env\<close>,
  \<open>vector_env\<close>, \<open>number_env\<close>, \<open>scma_env\<close>, \<open>csv_env\<close>, with the documented behaviour as hypotheses (\<open>wf_alloc\<close>, \<open>wf_env\<close>,
  \<open>wf_vector_env\<close>, \<open>number_env_ok\<close>, \<open>scma_env_ok\<close>: a block has the size asked for and never exceeds the address space).

  \<^bold>\<open>Parts and theories.\<close>
  \<^item> \<open>Libft_Prelude\<close>: types, spans, bit-level lemmas, linear search, the locale \<open>codec\<close> of
    encoder and decoder pairs. \<open>Libft_Errno\<close>: \<^verbatim>\<open>Errno/errno.hpp\<close>, \<^verbatim>\<open>errno_strerror.cpp\<close>.
  \<^item> \<open>Basic_Memory\<close>, \<open>Basic_Ascii\<close>, \<open>Basic_String\<close>, \<open>Basic_Number\<close>, \<open>Basic_Parse\<close>, \<open>Basic_Utf8\<close>: the
    files of \<^verbatim>\<open>Basic/\<close>, one definition per function and loop. The lemmas give the result of each function on every
    branch: overlap-safe copies, first occurrences, truncation, saturation, overflow,
    acceptance of exactly the well-formed UTF-8 texts.
  \<^item> \<open>Encoding_Base64\<close>, \<open>Encoding_Base32\<close>, \<open>Encoding_Text\<close>: \<^verbatim>\<open>Encoding/encoding*.cpp\<close>. Decoding inverts
    encoding, and decoders stay inside the block they allocate on any input.
  \<^item> \<open>Buffer_Varint\<close>, \<open>Byte_Buffer\<close>: \<^verbatim>\<open>Buffer/buffer_byte_buffer.cpp\<close>; the object is a record and every method
    a function on it. \<open>Byte_Buffer_Spec\<close> states what a method does to the abstract
    contents, through the locales it interprets; \<open>Byte_Buffer_Steps\<close> collects all methods in a step
    relation and proves an invariant of every reachable object.
  \<^item> \<open>Template_Vector\<close>, \<open>Template_Vector_Spec\<close>, \<open>Template_Vector_Steps\<close>: \<^verbatim>\<open>Template/vector.hpp\<close> in the same
    way. The locale \<open>growable\<close> is the part of the vector its clients use; the cryptographic code rests on it.
  \<^item> \<open>Crypto_Sha256\<close>, \<open>Crypto_Hmac\<close>: \<^verbatim>\<open>Crypto/crypto_primitives.cpp\<close>. The locale \<open>absorber\<close> is an incremental consumer,
    \<open>block_hash\<close> what HMAC and HKDF need of a hash; both are interpreted on the SHA-256 of the code.
  \<^item> \<open>Crypto_Chacha20\<close>, \<open>Crypto_Poly1305\<close>, \<open>Crypto_Aead\<close>: the files of these names. Limb arithmetic is shown to be
    arithmetic modulo \<open>2 ^ 130 - 5\<close>; sealing and opening are composed from it, the stream and the vector.
  \<^item> \<open>Crypto_X25519\<close>, \<open>Crypto_X25519_Field\<close>, \<open>Crypto_X25519_Spec\<close>: \<^verbatim>\<open>crypto_x25519.cpp\<close>; field operations modulo
    \<open>2 ^ 255 - 19\<close> and the shape of the ladder state. \<open>Crypto_Session\<close>: \<^verbatim>\<open>crypto_session.cpp\<close> over X25519 and HKDF.
  \<^item> \<open>Big_Number\<close>, \<open>Big_Number_Ops\<close>, \<open>Big_Number_Api\<close>: \<open>ft_big_number\<close> and its proxy, \<^verbatim>\<open>CPP_class/cpp_class_big_number.cpp\<close>
    and \<^verbatim>\<open>cpp_class_big_number_serialization.cpp\<close>, every method and operator. \<open>Big_Number_Digits\<close> shows that the loops on
    decimal characters are arithmetic, \<open>Big_Number_Spec\<close> lifts this to the operators through the locale \<open>exact_operator\<close>,
    \<open>Big_Number_Div\<close> has long division, \<open>Big_Number_Convert\<close> text, \<open>Big_Number_Power\<close> modular powers,
    \<open>Big_Number_Steps\<close> sequences of calls, and \<open>Big_Number_Props\<close> states the contract.
  \<^item> \<open>Lock_Tracking\<close>: \<^verbatim>\<open>PThread/pthread_lock_tracking.cpp\<close>, the tables of owners and waiting threads and the
    notifications that keep them. \<open>Lock_System\<close>: \<open>pt_mutex\<close>, \<open>pt_recursive_mutex\<close> and a system of threads that call
    them. A call is split where the code changes the native mutex and notifies the tracking at different moments, so
    other threads can run in between; within a part nothing interleaves. \<open>Lock_Effects\<close> says what
    each notification changes and that the cycle search is exact; \<open>Lock_Deadlock\<close> has the invariant of the runs.
  \<^item> \<open>Scma\<close>, \<open>Scma_Api\<close>: \<^verbatim>\<open>SCMA/scma_state.cpp\<close>, \<^verbatim>\<open>scma_allocator.cpp\<close>, \<^verbatim>\<open>scma_io.cpp\<close> and the statistics of
    \<^verbatim>\<open>scma_debug.cpp\<close>. The global variables are one record: a byte heap and an array of descriptors through which a
    doubly linked list of live blocks and a list of free ones run. \<open>Scma_Lists\<close> abstracts both lists, \<open>Scma_Live\<close> has the
    layout of the live blocks and their bytes, \<open>Scma_Compact\<close> the sliding of blocks in bounded steps, \<open>Scma_Rest\<close> the free
    ranges, \<open>Scma_Alloc\<close> and \<open>Scma_Calls\<close> the effect of each call. \<open>Scma_Spec\<close> has the contract, in which a handle names a
    byte string, and the locale \<open>refining_calls\<close> for histories of calls; \<open>Scma_Generations\<close> counts the generations
    of a descriptor, and \<open>Scma_Props\<close> states the properties.
  \<^item> \<open>Csv\<close>, \<open>Csv_Document\<close>: \<^verbatim>\<open>CSV/csv.cpp\<close>, the scanner, the writer, the document with its lifecycle and queries, and
    the free functions. \<open>Csv_Text\<close> states a grammar as an inductive relation between text and rows and shows that the
    scanner decides it; \<open>Csv_Props\<close> has the round trips, the reachable documents, and what copies and moves do.

  \<^bold>\<open>Loops.\<close> A loop is a function with a termination proof, except the growth loop of the
  byte buffer, the update loop of SHA-256, four loops of the big number and the loops of \<open>SCMA\<close> that
  follow links or double a capacity, which are \<open>partial_function\<close>s: there not returning is \<open>None\<close>, and the theorems show that they return (the
  doubling reaches any request below \<open>2 ^ 63\<close>; a hash object never keeps a full buffer between calls; the
  number that is printed and the exponent shrink; the links of every reachable allocator state form
  lists, and each step of a compaction moves the cursor to a higher block). \<open>lock_pair\<close> of the big number retries while the
  second mutex is busy; \<open>lock_pair_live\<close> says exactly when it returns. No fuel is used.

  \<^bold>\<open>What is shown.\<close> For every stateful component an invariant of the reachable states and the
  refinement of each operation to an abstract one, all or nothing; for every
  codec a round trip; for the big number equality with integer arithmetic; for the cryptographic functions equality with a reference definition over unbounded
  integers or byte lists. Hypotheses are the type bounds of the code's parameters and the
  documented behaviour of the environment, and each theorem that has some comes with an instance where they hold.

  \<^bold>\<open>What the model showed of the code.\<close> \<open>Basic_Parse.atoi_correct\<close> and \<open>Basic_Parse.strtol_saturates\<close> name the inputs
  on which signed arithmetic overflows; \<open>Template_Vector_Steps.push_back_own_element_dangles\<close> the
  calls that read a freed block; \<open>Big_Number_Props\<close> that a remainder by zero is the dividend
  without an error, that an earlier error changes what comparisons answer, and that a product writes through
  null when memory runs out; \<open>Lock_Deadlock\<close> three runs in which the deadlock detector is wrong: it misses a deadlock when
  a release is reported late, and it refuses a wait after an earlier refusal or after a release
  that skipped the table; \<open>Crypto_X25519_Spec.field_subtract_exact_iff\<close> the
  operands on which a field subtraction is wrong; \<open>Scma_Props\<close> that compaction loses the descriptors of freed
  blocks, and that a shutdown lets the handles of the old session pass as handles of the new one; \<open>Csv_Props\<close> that copying a
  document aborts and that a moved one cannot be used.

  \<^bold>\<open>Not modelled.\<close> Elements of a vector with a fallible \<open>initialize\<close> of their own; the other containers of
  \<open>Template\<close>; the group law of Curve25519 (only its field arithmetic); side channels such as timing; the other classes of
  \<open>CPP_class\<close>, of which only \<open>ft_string\<close> is used here and its appends are taken to succeed; the wiping of
  local arrays, which no caller can observe; native mutexes that throw, and the rest of \<open>PThread\<close> (condition variables,
  read-write locks, thread control), which wraps the system's; switching the thread safety of \<open>SCMA\<close>,
  its typed accessors and its leak reports. The page allocator \<open>CMA\<close>, the parsers (\<open>URI\<close>, \<open>JSon\<close>,
  \<open>XML\<close>, \<open>YAML\<close>), \<open>Storage\<close>, \<open>Game\<close> and \<open>Voxel\<close> are pure code left for later; \<open>Networking\<close>, \<open>API\<close>, \<open>File\<close>,
  \<open>Filesystem\<close>, \<open>Logger\<close>, \<open>Threading\<close>, \<open>Time\<close> and the graphics and audio modules are I/O; \<open>Encryption\<close>,
  \<open>Compression\<close>, \<open>Regex\<close> and \<open>Lua\<close> wrap third-party libraries.
\<close>

end
